(* ===== verification/NS_Prelude.thy ===== *)
theory NS_Prelude
  imports Main "HOL-Library.Word" "HOL-Library.Monad_Syntax"
begin

text \<open>
  Shared vocabulary of the development.

  \<^item> The integer types of \<^verbatim>\<open>libs/nscore/include/numstore/intf/types.h\<close>. Identifiers and
    byte counts (\<^verbatim>\<open>pgno\<close>, \<^verbatim>\<open>lsn\<close>, \<^verbatim>\<open>txid\<close>, \<^verbatim>\<open>b_size\<close>) are 64-bit words, whose
    arithmetic wraps as in C. Values of \<^verbatim>\<open>p_size\<close> and \<^verbatim>\<open>u32\<close> that index a buffer are
    natural numbers; they are stored in and loaded from memory as 32-bit words, and every
    addition, subtraction and multiplication of the code that could leave the 32-bit range is
    written with \<open>add32\<close>, \<open>sub32\<close>, \<open>mul32\<close>, which wrap.
  \<^item> Failure: a computation of type \<open>'a option\<close> is \<open>None\<close> where the C code crashes (a failing
    \<^verbatim>\<open>ASSERT\<close>, \<^verbatim>\<open>UNREACHABLE\<close>) or touches memory outside of the object it was given. A theorem
    of the form \<open>f x = Some y\<close> therefore says that no assertion of \<open>f\<close> fails.
  \<^item> Error codes are the values of \<open>err_t\<close>; a function of the code that returns an
    \<^verbatim>\<open>err_t\<close> returns \<open>err_t + 'a\<close>, with \<open>Inl\<close> for a code below \<^verbatim>\<open>SUCCESS\<close>.
  \<^item> Memory: a buffer is a list of bytes, \<open>mem_read\<close> and \<open>mem_write\<close> are the \<^verbatim>\<open>memcpy\<close>s out of
    it and into it, \<open>ld\<close> and \<open>st\<close> move an integer of the type's own width between a buffer and a
    word, little endian (the byte order of the platforms the build files support).
\<close>

unbundle bit_operations_syntax

section \<open>Integer and error types\<close>

type_synonym u8 = "8 word"
type_synonym u16 = "16 word"
type_synonym u32 = "32 word"
type_synonym u64 = "64 word"

type_synonym p_size = nat
type_synonym pgno = u64
type_synonym lsn = u64
type_synonym txid = u64
type_synonym b_size = u64

abbreviation PGNO_NULL :: pgno where
  "PGNO_NULL \<equiv> - 1"

datatype err_t =
    ERR_IO | ERR_CORRUPT | ERR_NOMEM | ERR_ARITH
  | ERR_PAGER_FULL | ERR_TXN_FULL | ERR_DPGT_FULL | ERR_VLOCKT_FULL
  | ERR_PG_OUT_OF_RANGE | ERR_NO_TXN
  | ERR_SYNTAX | ERR_INTERP
  | ERR_RPTREE_PAGE_STACK_OVERFLOW | ERR_RPTREE_INVALID | ERR_CURSORS_OVERFLOW
  | ERR_DUPLICATE_VARIABLE | ERR_VARIABLE_NE
  | ERR_INVALID_ARGUMENT | ERR_DUPLICATE_COMMIT

type_synonym 'a res = "err_t + 'a"

section \<open>Assertions and 32-bit arithmetic\<close>

definition ASSERT :: "bool \<Rightarrow> unit option" where
  "ASSERT b = (if b then Some () else None)"

lemma bind_ASSERT [simp]: "Option.bind (ASSERT b) f = (if b then f () else None)"
  by (simp add: ASSERT_def)

lemma ASSERT_eq_Some [simp]: "ASSERT b = Some u \<longleftrightarrow> b"
  by (simp add: ASSERT_def)

lemma ASSERT_eq_None [simp]: "ASSERT b = None \<longleftrightarrow> \<not> b"
  by (simp add: ASSERT_def)

definition add32 :: "nat \<Rightarrow> nat \<Rightarrow> nat" where
  "add32 a b = (a + b) mod 2 ^ 32"

definition sub32 :: "nat \<Rightarrow> nat \<Rightarrow> nat" where
  "sub32 a b = nat ((int a - int b) mod 2 ^ 32)"

definition mul32 :: "nat \<Rightarrow> nat \<Rightarrow> nat" where
  "mul32 a b = (a * b) mod 2 ^ 32"

named_theorems wrap32 "no wrap-around where the values stay in range"

lemma add32_exact [wrap32]: "a + b < 4294967296 \<Longrightarrow> add32 a b = a + b"
  by (simp add: add32_def)

lemma sub32_exact [wrap32]: "b \<le> a \<Longrightarrow> a < 4294967296 \<Longrightarrow> sub32 a b = a - b"
  by (simp add: sub32_def nat_diff_distrib flip: of_nat_diff)

lemma mul32_exact [wrap32]: "a * b < 4294967296 \<Longrightarrow> mul32 a b = a * b"
  by (simp add: mul32_def)

lemma add32_bound [simp]: "add32 a b < 4294967296"
  by (simp add: add32_def)

lemma sub32_bound [simp]: "sub32 a b < 4294967296"
proof -
  have "(int a - int b) mod 2 ^ 32 < 2 ^ 32" by simp
  then show ?thesis by (simp add: sub32_def nat_less_iff)
qed

lemma unat_of_nat32 [simp]: "n < 4294967296 \<Longrightarrow> unat (of_nat n :: u32) = n"
  by (simp add: unat_of_nat)

lemma unat32_bound [simp]: "unat (w :: u32) < 4294967296"
proof -
  have "unat w < 2 ^ LENGTH(32)" by (rule unsigned_less)
  then show ?thesis by simp
qed

section \<open>Integers as little-endian bytes\<close>

primrec le_bytes :: "nat \<Rightarrow> 'a::len word \<Rightarrow> u8 list" where
  "le_bytes 0 w = []"
| "le_bytes (Suc n) w = ucast w # le_bytes n (drop_bit 8 w)"

primrec le_word :: "u8 list \<Rightarrow> 'a::len word" where
  "le_word [] = 0"
| "le_word (b # bs) = ucast b OR push_bit 8 (le_word bs)"

lemma length_le_bytes [simp]: "length (le_bytes n w) = n"
  by (induction n arbitrary: w) simp_all

lemma bit_u8_high: "8 \<le> k \<Longrightarrow> \<not> bit (b :: u8) k"
  using bit_imp_le_length [of b k] by auto

lemma nth_le_bytes:
  "i < n \<Longrightarrow> bit (le_bytes n (w :: 'a::len word) ! i) k \<longleftrightarrow> k < 8 \<and> bit w (8 * i + k)"
proof (induction n arbitrary: w i)
  case 0
  then show ?case by simp
next
  case (Suc n)
  show ?case
  proof (cases i)
    case 0
    then show ?thesis by (auto simp: bit_simps dest: bit_imp_le_length)
  next
    case (Suc j)
    with Suc.prems Suc.IH [of j "drop_bit 8 w"] show ?thesis
      by (simp add: bit_drop_bit_eq add.assoc)
  qed
qed

lemma bit_le_word:
  "bit (le_word bs :: 'a::len word) k \<longleftrightarrow>
     k < LENGTH('a) \<and> k div 8 < length bs \<and> bit (bs ! (k div 8)) (k mod 8)"
proof (induction bs arbitrary: k)
  case Nil
  then show ?case by simp
next
  case (Cons b bs)
  show ?case
  proof (cases "k < 8")
    case True
    then have "k div 8 = 0" "k mod 8 = k" by auto
    with True show ?thesis by (auto simp: bit_simps)
  next
    case False
    then have "k div 8 = Suc ((k - 8) div 8)" "k mod 8 = (k - 8) mod 8"
      by (auto simp: le_div_geq le_mod_geq)
    with False Cons.IH [of "k - 8"] show ?thesis
      by (auto simp: bit_simps bit_u8_high)
  qed
qed

lemma le_word_le_bytes:
  assumes "LENGTH('a) \<le> 8 * n"
  shows "le_word (le_bytes n (w :: 'a::len word)) = w"
proof (rule bit_word_eqI)
  fix k assume k: "k < LENGTH('a)"
  with assms have "k div 8 < n" by auto
  with k show "bit (le_word (le_bytes n w) :: 'a word) k = bit w k"
    by (simp add: bit_le_word nth_le_bytes)
qed

lemma le_bytes_le_word:
  assumes "8 * length bs \<le> LENGTH('a)"
  shows "le_bytes (length bs) (le_word bs :: 'a::len word) = bs"
proof (rule nth_equalityI)
  show "length (le_bytes (length bs) (le_word bs :: 'a word)) = length bs" by simp
next
  fix i assume i: "i < length (le_bytes (length bs) (le_word bs :: 'a word))"
  show "le_bytes (length bs) (le_word bs :: 'a word) ! i = bs ! i"
  proof (rule bit_word_eqI)
    fix k assume k: "k < LENGTH(8)"
    with i assms have "8 * i + k < LENGTH('a)" "(8 * i + k) div 8 = i" "(8 * i + k) mod 8 = k"
      by auto
    with i k show "bit (le_bytes (length bs) (le_word bs :: 'a word) ! i) k = bit (bs ! i) k"
      by (simp add: nth_le_bytes bit_le_word)
  qed
qed

section \<open>Buffers\<close>

definition slice :: "'a list \<Rightarrow> nat \<Rightarrow> nat \<Rightarrow> 'a list" where
  "slice bs ofst n = take n (drop ofst bs)"

definition splice :: "'a list \<Rightarrow> nat \<Rightarrow> 'a list \<Rightarrow> 'a list" where
  "splice bs ofst src = take ofst bs @ src @ drop (ofst + length src) bs"

definition mem_read :: "'a list \<Rightarrow> nat \<Rightarrow> nat \<Rightarrow> 'a list option" where
  "mem_read bs ofst n = (if ofst + n \<le> length bs then Some (slice bs ofst n) else None)"

definition mem_write :: "'a list \<Rightarrow> nat \<Rightarrow> 'a list \<Rightarrow> 'a list option" where
  "mem_write bs ofst src =
     (if ofst + length src \<le> length bs then Some (splice bs ofst src) else None)"

definition ld :: "u8 list \<Rightarrow> nat \<Rightarrow> 'a::len word" where
  "ld bs ofst = le_word (slice bs ofst (LENGTH('a) div 8))"

definition st :: "u8 list \<Rightarrow> nat \<Rightarrow> 'a::len word \<Rightarrow> u8 list" where
  "st bs ofst w = splice bs ofst (le_bytes (LENGTH('a) div 8) w)"

named_theorems buf "loads, stores and block copies on a buffer"

lemma length_splice [simp]:
  "ofst + length src \<le> length bs \<Longrightarrow> length (splice bs ofst src) = length bs"
  by (simp add: splice_def)

lemma length_slice [simp]: "ofst + n \<le> length bs \<Longrightarrow> length (slice bs ofst n) = n"
  by (simp add: slice_def)

lemma length_slice_le: "length (slice bs ofst n) \<le> n"
  by (simp add: slice_def)

lemma slice_0 [simp]: "slice bs ofst 0 = []"
  by (simp add: slice_def)

lemma slice_all [simp]: "n = length bs \<Longrightarrow> slice bs 0 n = bs"
  by (simp add: slice_def)

lemma nth_splice:
  assumes "ofst + length src \<le> length bs" and "i < length bs"
  shows "splice bs ofst src ! i =
    (if ofst \<le> i \<and> i < ofst + length src then src ! (i - ofst) else bs ! i)"
  using assms by (auto simp: splice_def nth_append)

lemma nth_slice: "i < n \<Longrightarrow> ofst + n \<le> length bs \<Longrightarrow> slice bs ofst n ! i = bs ! (ofst + i)"
  by (simp add: slice_def)

lemma slice_splice_same [buf]:
  "n = length src \<Longrightarrow> ofst + n \<le> length bs \<Longrightarrow> slice (splice bs ofst src) ofst n = src"
  by (simp add: slice_def splice_def)

lemma slice_splice_before [buf]:
  "o1 + n \<le> ofst \<Longrightarrow> ofst \<le> length bs \<Longrightarrow> slice (splice bs ofst src) o1 n = slice bs o1 n"
  by (simp add: slice_def splice_def take_drop)

lemma slice_splice_after [buf]:
  assumes "ofst + length src \<le> o1" and "ofst + length src \<le> length bs"
  shows "slice (splice bs ofst src) o1 n = slice bs o1 n"
proof -
  have "drop o1 (splice bs ofst src) = drop o1 bs"
    using assms by (simp add: splice_def add.commute)
  then show ?thesis by (simp add: slice_def)
qed

lemma slice_slice: "o2 + n \<le> m \<Longrightarrow> slice (slice bs o1 m) o2 n = slice bs (o1 + o2) n"
  by (simp add: slice_def drop_take add.commute min_absorb1)

lemma slice_append: "slice bs ofst (m + n) = slice bs ofst m @ slice bs (ofst + m) n"
  by (simp add: slice_def take_add add.commute)

lemma slice_drop: "slice (drop k bs) ofst n = slice bs (k + ofst) n"
  by (simp add: slice_def add.commute)

lemma take_slice: "take k (slice bs ofst n) = slice bs ofst (min k n)"
  by (simp add: slice_def)

lemma drop_slice: "drop k (slice bs ofst n) = slice bs (ofst + k) (n - k)"
  by (simp add: slice_def drop_take add.commute)

lemma length_st [simp]:
  "ofst + LENGTH('a) div 8 \<le> length bs \<Longrightarrow> length (st bs ofst (w :: 'a::len word)) = length bs"
  by (simp add: st_def)

lemma ld_st_same [buf]:
  assumes "LENGTH('a) = 8 * (LENGTH('a) div 8)" and "ofst + LENGTH('a) div 8 \<le> length bs"
  shows "ld (st bs ofst (w :: 'a::len word)) ofst = w"
proof -
  have "LENGTH('a) \<le> 8 * (LENGTH('a) div 8)"
    by (subst assms(1) [symmetric]) (rule order_refl)
  with assms(2) show ?thesis
    by (simp add: ld_def st_def slice_splice_same le_word_le_bytes)
qed

lemma ld_st_other [buf]:
  assumes "o1 + LENGTH('b) div 8 \<le> ofst \<or> ofst + LENGTH('a) div 8 \<le> o1"
    and "ofst + LENGTH('a) div 8 \<le> length bs"
  shows "(ld (st bs ofst (w :: 'a::len word)) o1 :: 'b::len word) = ld bs o1"
  using assms by (auto simp: ld_def st_def slice_splice_before slice_splice_after)

lemma slice_st_other [buf]:
  assumes "o1 + n \<le> ofst \<or> ofst + LENGTH('a) div 8 \<le> o1"
    and "ofst + LENGTH('a) div 8 \<le> length bs"
  shows "slice (st bs ofst (w :: 'a::len word)) o1 n = slice bs o1 n"
  using assms by (auto simp: st_def slice_splice_before slice_splice_after)

lemma ld_splice_other [buf]:
  assumes "o1 + LENGTH('b) div 8 \<le> ofst \<or> ofst + length src \<le> o1"
    and "ofst + length src \<le> length bs"
  shows "(ld (splice bs ofst src) o1 :: 'b::len word) = ld bs o1"
  using assms by (auto simp: ld_def slice_splice_before slice_splice_after)

lemma mem_read_Some [buf]: "ofst + n \<le> length bs \<Longrightarrow> mem_read bs ofst n = Some (slice bs ofst n)"
  by (simp add: mem_read_def)

lemma mem_write_Some [buf]:
  "ofst + length src \<le> length bs \<Longrightarrow> mem_write bs ofst src = Some (splice bs ofst src)"
  by (simp add: mem_write_def)

lemma bind_Some_iff: "Option.bind m f = Some y \<longleftrightarrow> (\<exists>x. m = Some x \<and> f x = Some y)"
  by (cases m) simp_all

section \<open>Errors that are passed on\<close>

text \<open>\<^verbatim>\<open>err_t_wrap\<close>: an error ends the function, with the state as it is.\<close>

definition err_wrap :: "('a res \<times> 's) option \<Rightarrow> ('a \<Rightarrow> 's \<Rightarrow> ('b res \<times> 's) option) \<Rightarrow> ('b res \<times> 's) option" where
  "err_wrap m f = do { (r, s) \<leftarrow> m; case r of Inl e \<Rightarrow> Some (Inl e, s) | Inr x \<Rightarrow> f x s }"

lemma err_wrap_simps [simp]:
  "err_wrap None f = None"
  "err_wrap (Some (Inl e, s)) f = Some (Inl e, s)"
  "err_wrap (Some (Inr x, s)) f = f x s"
  by (simp_all add: err_wrap_def)

lemma map_sum_Inr: "map_sum f g r = Inr y \<longleftrightarrow> (\<exists>x. r = Inr x \<and> y = g x)"
  by (cases r) auto

section \<open>Visiting a list\<close>

text \<open>What the callback-driven walks of the code do: an action for each element, in order, on a
  context, until one fails.\<close>

primrec visit :: "('a \<Rightarrow> 's \<Rightarrow> 's option) \<Rightarrow> 'a list \<Rightarrow> 's \<Rightarrow> 's option" where
  "visit action [] s = Some s"
| "visit action (x # xs) s = do { s \<leftarrow> action x s; visit action xs s }"

lemma visit_append: "visit action (xs @ ys) s = do { s \<leftarrow> visit action xs s; visit action ys s }"
  by (induction xs arbitrary: s) simp_all

end
