(* ===== verification/Serializer.thy ===== *)
theory Serializer
  imports NS_Prelude
begin

text \<open>
  \<^verbatim>\<open>libs/nscore/serializer.c\<close> and \<^verbatim>\<open>deserializer.c\<close>: bounded cursors that append to a buffer and read
  off it. A failed write or read leaves the cursor unchanged.

  \<open>sr_out\<close> is what has been written, \<open>ds_rest\<close> what is left to read; the lemmas state the operations
  on these two lists, and the fields of 64 bits that the tables are made of as \<open>sr_put\<close> and
  \<open>ds_take\<close>.
\<close>

record serializer =
  sr_data :: "u8 list"
  sr_dlen :: nat
  sr_dcap :: nat

record deserializer =
  ds_data :: "u8 list"
  ds_head :: nat
  ds_dlen :: nat

section \<open>The operations\<close>

definition serializer_assert :: "serializer \<Rightarrow> unit option" where
  "serializer_assert s = do { ASSERT (sr_dcap s > 0); ASSERT (sr_dlen s \<le> sr_dcap s) }"

definition srlizr_create :: "u8 list \<Rightarrow> nat \<Rightarrow> serializer" where
  "srlizr_create data dcap = \<lparr>sr_data = data, sr_dlen = 0, sr_dcap = dcap\<rparr>"

definition srlizr_write :: "serializer \<Rightarrow> u8 list \<Rightarrow> (bool \<times> serializer) option" where
  "srlizr_write dest src = do {
     serializer_assert dest;
     if add32 (sr_dlen dest) (length src) > sr_dcap dest then Some (False, dest)
     else do {
       data \<leftarrow> mem_write (sr_data dest) (sr_dlen dest) src;
       let dest = dest\<lparr>sr_data := data, sr_dlen := add32 (sr_dlen dest) (length src)\<rparr>;
       serializer_assert dest;
       Some (True, dest) } }"

definition srlizr_write_expect :: "serializer \<Rightarrow> u8 list \<Rightarrow> serializer option" where
  "srlizr_write_expect dest src = do {
     (ret, dest) \<leftarrow> srlizr_write dest src;
     ASSERT ret;
     Some dest }"

definition deserializer_assert :: "deserializer \<Rightarrow> unit option" where
  "deserializer_assert s = do { ASSERT (ds_dlen s > 0); ASSERT (ds_head s \<le> ds_dlen s) }"

definition dsrlizr_create :: "u8 list \<Rightarrow> nat \<Rightarrow> deserializer" where
  "dsrlizr_create data dlen = \<lparr>ds_data = data, ds_head = 0, ds_dlen = dlen\<rparr>"

definition dsrlizr_read :: "nat \<Rightarrow> deserializer \<Rightarrow> (u8 list option \<times> deserializer) option" where
  \<comment> \<open>the bytes copied to the destination, or nothing when too few are left\<close>
  "dsrlizr_read dlen src = do {
     deserializer_assert src;
     if add32 (ds_head src) dlen > ds_dlen src then Some (None, src)
     else do {
       chunk \<leftarrow> mem_read (ds_data src) (ds_head src) dlen;
       let src = src\<lparr>ds_head := add32 (ds_head src) dlen\<rparr>;
       deserializer_assert src;
       Some (Some chunk, src) } }"

definition dsrlizr_read_expect :: "nat \<Rightarrow> deserializer \<Rightarrow> (u8 list \<times> deserializer) option" where
  "dsrlizr_read_expect dlen src = do {
     (ret, src) \<leftarrow> dsrlizr_read dlen src;
     case ret of None \<Rightarrow> None | Some chunk \<Rightarrow> Some (chunk, src) }"

section \<open>What they do to the written and the remaining bytes\<close>

definition sr_wf :: "serializer \<Rightarrow> bool" where
  "sr_wf s \<longleftrightarrow> 0 < sr_dcap s \<and> sr_dlen s \<le> sr_dcap s \<and> sr_dcap s \<le> length (sr_data s) \<and>
     sr_dcap s < 2147483648"

definition sr_out :: "serializer \<Rightarrow> u8 list" where
  "sr_out s = take (sr_dlen s) (sr_data s)"

definition sr_room :: "serializer \<Rightarrow> nat" where
  "sr_room s = sr_dcap s - sr_dlen s"

definition ds_wf :: "deserializer \<Rightarrow> bool" where
  "ds_wf s \<longleftrightarrow> 0 < ds_dlen s \<and> ds_head s \<le> ds_dlen s \<and> ds_dlen s \<le> length (ds_data s) \<and>
     ds_dlen s < 2147483648"

definition ds_rest :: "deserializer \<Rightarrow> u8 list" where
  "ds_rest s = slice (ds_data s) (ds_head s) (ds_dlen s - ds_head s)"

lemma srlizr_create_wf [simp]:
  "0 < dcap \<Longrightarrow> dcap \<le> length data \<Longrightarrow> dcap < 2147483648 \<Longrightarrow> sr_wf (srlizr_create data dcap)"
  "sr_out (srlizr_create data dcap) = []"
  "sr_room (srlizr_create data dcap) = dcap"
  by (simp_all add: sr_wf_def sr_out_def sr_room_def srlizr_create_def)

lemma dsrlizr_create_wf [simp]:
  "0 < dlen \<Longrightarrow> dlen \<le> length data \<Longrightarrow> dlen < 2147483648 \<Longrightarrow> ds_wf (dsrlizr_create data dlen)"
  "ds_rest (dsrlizr_create data dlen) = take dlen data"
  by (simp_all add: ds_wf_def ds_rest_def dsrlizr_create_def slice_def)

lemma srlizr_write_correct:
  assumes "sr_wf s" "length src < 2147483648"
  shows "if length src \<le> sr_room s
    then \<exists>s'. srlizr_write s src = Some (True, s') \<and> sr_wf s' \<and> sr_out s' = sr_out s @ src \<and>
           sr_room s' = sr_room s - length src \<and> sr_dlen s' = sr_dlen s + length src
    else srlizr_write s src = Some (False, s)"
proof -
  have a: "add32 (sr_dlen s) (length src) = sr_dlen s + length src"
    using assms by (simp add: wrap32 sr_wf_def)
  have out: "take (sr_dlen s + length src) (splice (sr_data s) (sr_dlen s) src) = sr_out s @ src"
    if "sr_dlen s + length src \<le> length (sr_data s)"
    using that by (simp add: sr_out_def splice_def)
  show ?thesis
  proof (cases "length src \<le> sr_room s")
    case True
    define s' where "s' = s\<lparr>sr_data := splice (sr_data s) (sr_dlen s) src, sr_dlen := sr_dlen s + length src\<rparr>"
    have le: "sr_dlen s + length src \<le> sr_dcap s" "sr_dcap s \<le> length (sr_data s)"
      using True assms(1) by (auto simp: sr_room_def sr_wf_def)
    have "srlizr_write s src = Some (True, s')"
      using le assms(1)
      by (simp add: srlizr_write_def serializer_assert_def a mem_write_def Let_def s'_def sr_wf_def)
    moreover have "sr_wf s'" using le assms(1) by (simp add: sr_wf_def s'_def)
    moreover have "sr_out s' = sr_out s @ src"
    proof -
      have "sr_out s' = take (sr_dlen s + length src) (splice (sr_data s) (sr_dlen s) src)"
        by (simp add: sr_out_def s'_def)
      also have "\<dots> = sr_out s @ src" using le by (intro out) simp
      finally show ?thesis .
    qed
    ultimately show ?thesis using True by (simp add: sr_room_def s'_def)
  next
    case False
    then have "\<not> sr_dlen s + length src \<le> sr_dcap s" "0 < sr_dcap s" "sr_dlen s \<le> sr_dcap s"
      using assms(1) by (auto simp: sr_room_def sr_wf_def)
    with False show ?thesis by (simp add: srlizr_write_def serializer_assert_def a)
  qed
qed

lemma srlizr_write_expect_correct:
  assumes "sr_wf s" "length src \<le> sr_room s"
  shows "\<exists>s'. srlizr_write_expect s src = Some s' \<and> sr_wf s' \<and> sr_out s' = sr_out s @ src \<and>
           sr_room s' = sr_room s - length src"
proof -
  have "length src < 2147483648" using assms by (auto simp: sr_wf_def sr_room_def)
  with srlizr_write_correct [OF assms(1), of src] assms(2) show ?thesis
    by (auto simp: srlizr_write_expect_def)
qed

lemma dsrlizr_read_correct:
  assumes "ds_wf s" "n < 2147483648"
  shows "if n \<le> length (ds_rest s)
    then \<exists>s'. dsrlizr_read n s = Some (Some (take n (ds_rest s)), s') \<and> ds_wf s' \<and>
           ds_rest s' = drop n (ds_rest s)
    else dsrlizr_read n s = Some (None, s)"
proof -
  have a: "add32 (ds_head s) n = ds_head s + n"
    using assms by (simp add: wrap32 ds_wf_def)
  have len: "length (ds_rest s) = ds_dlen s - ds_head s"
    using assms(1) by (simp add: ds_rest_def ds_wf_def)
  show ?thesis
  proof (cases "n \<le> length (ds_rest s)")
    case True
    then have le: "ds_head s + n \<le> ds_dlen s" "ds_dlen s \<le> length (ds_data s)"
      using assms(1) by (auto simp: len ds_wf_def)
    have "dsrlizr_read n s = Some (Some (take n (ds_rest s)), s\<lparr>ds_head := ds_head s + n\<rparr>)"
      using le assms(1)
      by (simp add: dsrlizr_read_def deserializer_assert_def a mem_read_def Let_def ds_wf_def
          ds_rest_def take_slice min_absorb1)
    moreover have "ds_wf (s\<lparr>ds_head := ds_head s + n\<rparr>)" using le assms(1) by (simp add: ds_wf_def)
    moreover have "ds_rest (s\<lparr>ds_head := ds_head s + n\<rparr>) = drop n (ds_rest s)"
      by (simp add: ds_rest_def drop_slice)
    ultimately show ?thesis using True by auto
  next
    case False
    then have "\<not> ds_head s + n \<le> ds_dlen s" "0 < ds_dlen s" "ds_head s \<le> ds_dlen s"
      using assms(1) by (auto simp: len ds_wf_def)
    with False show ?thesis by (simp add: dsrlizr_read_def deserializer_assert_def a)
  qed
qed

lemma dsrlizr_read_expect_correct:
  assumes "ds_wf s" "n \<le> length (ds_rest s)"
  shows "\<exists>s'. dsrlizr_read_expect n s = Some (take n (ds_rest s), s') \<and> ds_wf s' \<and>
           ds_rest s' = drop n (ds_rest s)"
proof -
  have "length (ds_rest s) \<le> ds_dlen s" by (simp add: ds_rest_def slice_def)
  then have "n < 2147483648" using assms by (simp add: ds_wf_def)
  with dsrlizr_read_correct [OF assms(1), of n] assms(2) show ?thesis
    by (auto simp: dsrlizr_read_expect_def)
qed

section \<open>Fields\<close>

definition bytes64 :: "u64 \<Rightarrow> u8 list" where
  "bytes64 w = le_bytes 8 w"

definition word64 :: "u8 list \<Rightarrow> u64" where
  "word64 bs = le_word bs"

lemma length_bytes64 [simp]: "length (bytes64 w) = 8"
  by (simp add: bytes64_def)

lemma word64_bytes64 [simp]: "word64 (bytes64 w) = w"
  by (simp add: word64_def bytes64_def le_word_le_bytes)

lemma bytes64_word64 [simp]: "length bs = 8 \<Longrightarrow> bytes64 (word64 bs) = bs"
  using le_bytes_le_word [where 'a = 64, of bs] by (simp add: word64_def bytes64_def)

section \<open>Properties\<close>

primrec srlizr_write_all :: "serializer \<Rightarrow> u8 list list \<Rightarrow> serializer option" where
  "srlizr_write_all s [] = Some s"
| "srlizr_write_all s (x # xs) = do { s \<leftarrow> srlizr_write_expect s x; srlizr_write_all s xs }"

primrec dsrlizr_read_all :: "deserializer \<Rightarrow> nat list \<Rightarrow> u8 list list option" where
  "dsrlizr_read_all s [] = Some []"
| "dsrlizr_read_all s (n # ns) = do {
     (x, s) \<leftarrow> dsrlizr_read_expect n s;
     xs \<leftarrow> dsrlizr_read_all s ns;
     Some (x # xs) }"

lemma srlizr_write_all_correct:
  "sr_wf s \<Longrightarrow> length (concat xs) \<le> sr_room s \<Longrightarrow>
   \<exists>s'. srlizr_write_all s xs = Some s' \<and> sr_wf s' \<and> sr_out s' = sr_out s @ concat xs \<and>
     sr_room s' = sr_room s - length (concat xs)"
proof (induction xs arbitrary: s)
  case Nil
  then show ?case by simp
next
  case (Cons x xs)
  from srlizr_write_expect_correct [of s x] Cons.prems obtain s1 where
    s1: "srlizr_write_expect s x = Some s1" "sr_wf s1" "sr_out s1 = sr_out s @ x"
      "sr_room s1 = sr_room s - length x" by auto
  from Cons.IH [OF s1(2)] Cons.prems s1 show ?case by auto
qed

lemma srlizr_write_expect_full:
  assumes "sr_wf s" "sr_room s < length src" "length src < 2147483648"
  shows "srlizr_write_expect s src = None"
  using srlizr_write_correct [OF assms(1,3)] assms(2) by (simp add: srlizr_write_expect_def)

lemma srlizr_write_all_full:
  "sr_wf s \<Longrightarrow> sr_room s < length (concat xs) \<Longrightarrow> \<forall>x \<in> set xs. length x < 2147483648 \<Longrightarrow>
   srlizr_write_all s xs = None"
proof (induction xs arbitrary: s)
  case Nil
  then show ?case by simp
next
  case (Cons x xs)
  show ?case
  proof (cases "length x \<le> sr_room s")
    case False
    with Cons.prems show ?thesis by (simp add: srlizr_write_expect_full)
  next
    case True
    from srlizr_write_expect_correct [OF Cons.prems(1) True] obtain s1 where
      s1: "srlizr_write_expect s x = Some s1" "sr_wf s1" "sr_room s1 = sr_room s - length x" by auto
    with Cons.IH [OF s1(2)] Cons.prems True show ?thesis by simp
  qed
qed

lemma dsrlizr_read_all_correct:
  "ds_wf s \<Longrightarrow> ds_rest s = concat xs @ rest \<Longrightarrow> dsrlizr_read_all s (map length xs) = Some xs"
proof (induction xs arbitrary: s)
  case Nil
  then show ?case by simp
next
  case (Cons x xs)
  from dsrlizr_read_expect_correct [of s "length x"] Cons.prems obtain s1 where
    s1: "dsrlizr_read_expect (length x) s = Some (x, s1)" "ds_wf s1" "ds_rest s1 = concat xs @ rest"
    by auto
  from Cons.IH [OF s1(2,3)] s1(1) show ?case by simp
qed

text \<open>C15: A sequence of fields that fits the buffer is written without a failing assertion, and reading
  fields of the same sizes from the buffer gives it back.\<close>

theorem serializer_roundtrip:
  assumes "0 < length (concat items)" "length (concat items) \<le> dcap" "dcap \<le> length buf"
    "dcap < 2147483648"
  shows "\<exists>s. srlizr_write_all (srlizr_create buf dcap) items = Some s \<and>
     sr_dlen s = length (concat items) \<and>
     dsrlizr_read_all (dsrlizr_create (sr_data s) (sr_dlen s)) (map length items) = Some items"
proof -
  have "0 < dcap" using assms(1,2) by linarith
  then have "sr_wf (srlizr_create buf dcap)" using assms(3,4) by simp
  from srlizr_write_all_correct [OF this] assms(2) obtain s where
    s: "srlizr_write_all (srlizr_create buf dcap) items = Some s" "sr_wf s" "sr_out s = concat items"
    by auto
  have len: "sr_dlen s = length (concat items)" "sr_dlen s \<le> length (sr_data s)"
    using s(2) arg_cong [OF s(3), of length] by (auto simp: sr_out_def sr_wf_def)
  have wf: "ds_wf (dsrlizr_create (sr_data s) (sr_dlen s))"
    using len s(2) assms(1) by (intro dsrlizr_create_wf) (simp_all add: sr_wf_def)
  have "ds_rest (dsrlizr_create (sr_data s) (sr_dlen s)) = concat items @ []"
    using s(3) by (simp add: sr_out_def)
  with dsrlizr_read_all_correct [OF wf] s(1) len(1) show ?thesis by blast
qed

theorem serializer_roundtrip_witness:
  "\<exists>s. srlizr_write_all (srlizr_create (replicate 10 0) 10) [[1, 2], [], [3]] = Some s \<and>
     sr_dlen s = length (concat [[1, 2], [], [3 :: u8]]) \<and>
     dsrlizr_read_all (dsrlizr_create (sr_data s) (sr_dlen s)) (map length [[1, 2], [], [3 :: u8]])
       = Some [[1, 2], [], [3]]"
  by (rule serializer_roundtrip) simp_all

end
