(* ===== verification/Hash_Table.thy ===== *)
theory Hash_Table
  imports NS_Prelude "HOL-Library.Multiset"
begin

text \<open>
  \<^verbatim>\<open>libs/nscore/hash_table.c\<close> and \<^verbatim>\<open>adptv_hash_table.c\<close>: the intrusive chained hash table and the
  table with incremental rehashing that is built from two of them.

  An \<^verbatim>\<open>hnode\<close> is embedded in the struct it indexes; here it is its hash code and a reference to that
  struct (\<open>'n\<close>). A table is its array of chains; \<^verbatim>\<open>struct hnode **from\<close>, the address of the link that
  leads to a node, is the chain's number and the position in it. Whether the one allocation an
  operation may do succeeds is an argument.

  \<open>ah_nodes\<close> is the multiset of nodes of both tables, \<open>ah_inv\<close> the invariant: each node is in the
  chain of its hash code, the sizes count the nodes, and the chains of the old table before the
  migration position are empty. Moving nodes from the old to the new table keeps the multiset.
\<close>

record 'n hnode =
  hcode :: u32
  hval :: 'n

record 'n htable =
  ht_size :: nat
  ht_table :: "'n hnode list list"

abbreviation htable_cap :: "'n htable \<Rightarrow> nat" where
  "htable_cap t \<equiv> length (ht_table t)"

section \<open>The chained table\<close>

definition hnode_init :: "u32 \<Rightarrow> 'n \<Rightarrow> 'n hnode" where
  "hnode_init h v = \<lparr>hcode = h, hval = v\<rparr>"

definition htable_assert :: "'n htable \<Rightarrow> unit option" where
  "htable_assert t = ASSERT (htable_cap t > 0)"

definition htable_create :: "bool \<Rightarrow> nat \<Rightarrow> 'n htable option option" where
  \<comment> \<open>\<open>Some None\<close> when the allocation fails\<close>
  "htable_create ok n =
     (if \<not> ok then Some None
      else do {
        let ret = \<lparr>ht_size = 0, ht_table = replicate n []\<rparr>;
        htable_assert ret;
        Some (Some ret) })"

definition htable_pos :: "'n htable \<Rightarrow> u32 \<Rightarrow> nat" where
  "htable_pos t h = unat h mod htable_cap t"

definition htable_insert :: "'n htable \<Rightarrow> 'n hnode \<Rightarrow> 'n htable option" where
  "htable_insert t node = do {
     htable_assert t;
     let pos = htable_pos t (hcode node);
     Some (t\<lparr>ht_table := (ht_table t)[pos := node # ht_table t ! pos], ht_size := add32 (ht_size t) 1\<rparr>) }"

text \<open>The comparison reads the structs the nodes are embedded in, so it can fail.\<close>

primrec chain_find :: "('n hnode \<Rightarrow> bool option) \<Rightarrow> 'n hnode list \<Rightarrow> nat \<Rightarrow> nat option option" where
  "chain_find P [] i = Some None"
| "chain_find P (x # xs) i = do { found \<leftarrow> P x; if found then Some (Some i) else chain_find P xs (i + 1) }"

definition node_eq :: "('n \<Rightarrow> 'n \<Rightarrow> bool option) \<Rightarrow> 'n hnode \<Rightarrow> 'n hnode \<Rightarrow> bool option" where
  "node_eq eq key cur = (if hcode cur = hcode key then eq (hval cur) (hval key) else Some False)"

definition htable_lookup ::
  "'n htable \<Rightarrow> 'n hnode \<Rightarrow> ('n \<Rightarrow> 'n \<Rightarrow> bool option) \<Rightarrow> (nat \<times> nat) option option" where
  "htable_lookup t key eq = do {
     htable_assert t;
     let pos = htable_pos t (hcode key);
     i \<leftarrow> chain_find (node_eq eq key) (ht_table t ! pos) 0;
     Some (map_option (Pair pos) i) }"

definition htable_deref :: "'n htable \<Rightarrow> nat \<times> nat \<Rightarrow> 'n hnode" where
  "htable_deref t from' = ht_table t ! fst from' ! snd from'"

definition htable_delete :: "'n htable \<Rightarrow> nat \<times> nat \<Rightarrow> ('n hnode \<times> 'n htable) option" where
  "htable_delete t from' = do {
     htable_assert t;
     let (pos, i) = from';
     let chain = ht_table t ! pos;
     Some (htable_deref t from',
       t\<lparr>ht_table := (ht_table t)[pos := take i chain @ drop (Suc i) chain], ht_size := sub32 (ht_size t) 1\<rparr>) }"

definition htable_foreach :: "'n htable \<Rightarrow> ('n hnode \<Rightarrow> 's \<Rightarrow> 's option) \<Rightarrow> 's \<Rightarrow> 's option" where
  "htable_foreach t action ctx =
     fold (\<lambda>chain s. fold (\<lambda>cur s. Option.bind s (action cur)) chain s) (ht_table t) (Some ctx)"

section \<open>The adaptive table\<close>

record adptv_htable_settings =
  max_load_factor :: nat
  min_load_factor :: nat
  rehashing_work :: nat
  max_size :: nat
  min_size :: nat

record 'n adptv_htable =
  ah_current :: "'n htable"
  ah_prev :: "'n htable"
  ah_migrate_pos :: nat
  ah_settings :: adptv_htable_settings

definition adptv_settings_assert :: "adptv_htable_settings \<Rightarrow> unit option" where
  "adptv_settings_assert t = do {
     ASSERT (min_size t > 0);
     ASSERT (max_size t > 0);
     ASSERT (min_size t \<le> max_size t);
     ASSERT (rehashing_work t > 0);
     ASSERT (min_load_factor t > 0);
     ASSERT (max_load_factor t > 0) }"

definition adptv_assert :: "'n adptv_htable \<Rightarrow> unit option" where
  "adptv_assert t = do {
     ASSERT (ah_migrate_pos t \<le> htable_cap (ah_prev t));
     adptv_settings_assert (ah_settings t) }"

definition adptv_htable_init :: "bool \<times> bool \<Rightarrow> adptv_htable_settings \<Rightarrow> 'n adptv_htable res option" where
  "adptv_htable_init ok settings = do {
     current \<leftarrow> htable_create (fst ok) (min_size settings);
     case current of
       None \<Rightarrow> Some (Inl ERR_NOMEM)
     | Some current \<Rightarrow> do {
         prev \<leftarrow> htable_create (snd ok) (min_size settings);
         case prev of
           None \<Rightarrow> Some (Inl ERR_NOMEM)
         | Some prev \<Rightarrow> do {
             let dest = \<lparr>ah_current = current, ah_prev = prev, ah_migrate_pos = 0, ah_settings = settings\<rparr>;
             adptv_assert dest;
             Some (Inr dest) } } }"

definition adptv_move_one :: "'n adptv_htable \<Rightarrow> 'n adptv_htable option" where
  \<comment> \<open>the body both rehashing loops share: skip an empty chain or move its first node\<close>
  "adptv_move_one t = do {
     adptv_assert t;
     ASSERT (ah_migrate_pos t < htable_cap (ah_prev t));
     if ht_table (ah_prev t) ! ah_migrate_pos t = []
     then Some (t\<lparr>ah_migrate_pos := ah_migrate_pos t + 1\<rparr>)
     else do {
       (node, prev) \<leftarrow> htable_delete (ah_prev t) (ah_migrate_pos t, 0);
       current \<leftarrow> htable_insert (ah_current t) node;
       Some (t\<lparr>ah_prev := prev, ah_current := current\<rparr>) } }"

partial_function (option) adptv_finish_loop :: "'n adptv_htable \<Rightarrow> 'n adptv_htable option" where
  "adptv_finish_loop t =
     (if ht_size (ah_prev t) > 0 then do { t \<leftarrow> adptv_move_one t; adptv_finish_loop t } else Some t)"

definition adptv_htable_finish_rehashing :: "'n adptv_htable \<Rightarrow> 'n adptv_htable option" where
  "adptv_htable_finish_rehashing t = do { adptv_assert t; adptv_finish_loop t }"

primrec adptv_help_loop :: "nat \<Rightarrow> 'n adptv_htable \<Rightarrow> 'n adptv_htable option" where
  \<comment> \<open>the count is \<^verbatim>\<open>rehashing_work - work\<close>\<close>
  "adptv_help_loop 0 t = Some t"
| "adptv_help_loop (Suc n) t =
     (if ht_size (ah_prev t) > 0 then do { t \<leftarrow> adptv_move_one t; adptv_help_loop n t } else Some t)"

definition adptv_htable_help_rehashing :: "'n adptv_htable \<Rightarrow> 'n adptv_htable option" where
  "adptv_htable_help_rehashing t = do { adptv_assert t; adptv_help_loop (rehashing_work (ah_settings t)) t }"

definition adptv_htable_lookup ::
  "'n adptv_htable \<Rightarrow> 'n hnode \<Rightarrow> ('n \<Rightarrow> 'n \<Rightarrow> bool option) \<Rightarrow> 'n hnode option option" where
  "adptv_htable_lookup t key eq = do {
     adptv_assert t;
     c \<leftarrow> htable_lookup (ah_current t) key eq;
     case c of
       Some from' \<Rightarrow> Some (Some (htable_deref (ah_current t) from'))
     | None \<Rightarrow> do {
         p \<leftarrow> htable_lookup (ah_prev t) key eq;
         Some (map_option (htable_deref (ah_prev t)) p) } }"

definition adptv_htable_trigger_rehashing ::
  "bool \<Rightarrow> 'n adptv_htable \<Rightarrow> nat \<Rightarrow> (unit res \<times> 'n adptv_htable) option" where
  "adptv_htable_trigger_rehashing ok t newcap = do {
     adptv_assert t;
     t \<leftarrow> adptv_htable_finish_rehashing t;
     new \<leftarrow> htable_create ok newcap;
     case new of
       None \<Rightarrow> Some (Inl ERR_NOMEM, t)
     | Some new \<Rightarrow> Some (Inr (), t\<lparr>ah_prev := ah_current t, ah_current := new, ah_migrate_pos := 0\<rparr>) }"

definition adptv_htable_size :: "'n adptv_htable \<Rightarrow> nat" where
  "adptv_htable_size t = add32 (ht_size (ah_current t)) (ht_size (ah_prev t))"

definition adptv_htable_insert :: "bool \<Rightarrow> 'n adptv_htable \<Rightarrow> 'n hnode \<Rightarrow> (unit res \<times> 'n adptv_htable) option" where
  "adptv_htable_insert ok t node = do {
     adptv_assert t;
     let sz = add32 (ht_size (ah_current t)) (ht_size (ah_prev t));
     let threshold = mul32 (htable_cap (ah_current t)) (max_load_factor (ah_settings t));
     (ret, t) \<leftarrow>
       (if add32 sz 1 \<ge> threshold \<and> mul32 (htable_cap (ah_current t)) 2 \<le> max_size (ah_settings t)
        then adptv_htable_trigger_rehashing ok t (mul32 (htable_cap (ah_current t)) 2)
        else Some (Inr (), t));
     case ret of
       Inl e \<Rightarrow> Some (Inl e, t)
     | Inr _ \<Rightarrow> do {
         current \<leftarrow> htable_insert (ah_current t) node;
         t \<leftarrow> adptv_htable_help_rehashing (t\<lparr>ah_current := current\<rparr>);
         Some (Inr (), t) } }"

text \<open>\<open>has_dest\<close>: whether the caller passed a destination. Where the key is not found the code stores
  \<^verbatim>\<open>NULL\<close> through it without a check.\<close>

definition adptv_htable_delete ::
  "bool \<Rightarrow> bool \<Rightarrow> 'n adptv_htable \<Rightarrow> 'n hnode \<Rightarrow> ('n \<Rightarrow> 'n \<Rightarrow> bool option) \<Rightarrow>
     ('n hnode option res \<times> 'n adptv_htable) option" where
  "adptv_htable_delete ok has_dest t key eq = do {
     adptv_assert t;
     let sz = add32 (ht_size (ah_current t)) (ht_size (ah_prev t));
     let threshold = mul32 (add32 (htable_cap (ah_current t)) 1) (min_load_factor (ah_settings t));
     (ret, t) \<leftarrow>
       (if sz \<le> add32 threshold 1 \<and> htable_cap (ah_current t) div 2 \<ge> min_size (ah_settings t)
        then adptv_htable_trigger_rehashing ok t (htable_cap (ah_current t) div 2)
        else Some (Inr (), t));
     case ret of
       Inl e \<Rightarrow> Some (Inl e, t)
     | Inr _ \<Rightarrow> do {
         c \<leftarrow> htable_lookup (ah_current t) key eq;
         case c of
           Some from' \<Rightarrow> do {
             (node, current) \<leftarrow> htable_delete (ah_current t) from';
             Some (Inr (Some node), t\<lparr>ah_current := current\<rparr>) }
         | None \<Rightarrow> do {
             p \<leftarrow> htable_lookup (ah_prev t) key eq;
             case p of
               Some from' \<Rightarrow> do {
                 (node, prev) \<leftarrow> htable_delete (ah_prev t) from';
                 Some (Inr (Some node), t\<lparr>ah_prev := prev\<rparr>) }
             | None \<Rightarrow> do { ASSERT has_dest; Some (Inr None, t) } } } }"

definition adptv_htable_foreach :: "'n adptv_htable \<Rightarrow> ('n hnode \<Rightarrow> 's \<Rightarrow> 's option) \<Rightarrow> 's \<Rightarrow> 's option" where
  "adptv_htable_foreach t action ctx = do {
     ctx \<leftarrow> htable_foreach (ah_prev t) action ctx;
     htable_foreach (ah_current t) action ctx }"

section \<open>The chained table holds a multiset of nodes\<close>

definition ht_nodes :: "'n htable \<Rightarrow> 'n hnode multiset" where
  "ht_nodes t = mset (concat (ht_table t))"

definition htable_inv :: "'n htable \<Rightarrow> bool" where
  "htable_inv t \<longleftrightarrow> 0 < htable_cap t \<and> ht_size t = size (ht_nodes t) \<and>
     (\<forall>i < htable_cap t. \<forall>x \<in> set (ht_table t ! i). htable_pos t (hcode x) = i)"

definition ht_valid :: "'n htable \<Rightarrow> nat \<times> nat \<Rightarrow> bool" where
  "ht_valid t f \<longleftrightarrow> fst f < htable_cap t \<and> snd f < length (ht_table t ! fst f)"

lemma htable_invD:
  assumes "htable_inv t"
  shows "0 < htable_cap t" "ht_size t = size (ht_nodes t)"
    "i < htable_cap t \<Longrightarrow> x \<in> set (ht_table t ! i) \<Longrightarrow> htable_pos t (hcode x) = i"
  using assms by (auto simp: htable_inv_def)

lemma htable_pos_less: "0 < htable_cap t \<Longrightarrow> htable_pos t h < htable_cap t"
  by (simp add: htable_pos_def)

lemma mset_concat_update:
  "i < length xss \<Longrightarrow> mset (concat (xss[i := ys])) + mset (xss ! i) = mset (concat xss) + mset ys"
  by (simp add: upd_conv_take_nth_drop) (subst (3) id_take_nth_drop [of i xss], simp_all)

lemma in_ht_nodes: "x \<in># ht_nodes t \<longleftrightarrow> (\<exists>i < htable_cap t. x \<in> set (ht_table t ! i))"
proof -
  have "x \<in># ht_nodes t \<longleftrightarrow> (\<exists>c \<in> set (ht_table t). x \<in> set c)" by (auto simp: ht_nodes_def)
  also have "\<dots> \<longleftrightarrow> (\<exists>i < htable_cap t. x \<in> set (ht_table t ! i))"
    unfolding set_conv_nth [of "ht_table t"] by blast
  finally show ?thesis .
qed

lemma htable_create_correct:
  "0 < n \<Longrightarrow> \<exists>t. htable_create True n = Some (Some t) \<and> htable_inv t \<and> ht_nodes t = {#} \<and> htable_cap t = n"
  by (simp add: htable_create_def htable_assert_def htable_inv_def ht_nodes_def)

lemma htable_insert_correct:
  assumes inv: "htable_inv t" and small: "size (ht_nodes t) + 1 < 4294967296"
  shows "\<exists>t'. htable_insert t node = Some t' \<and> htable_inv t' \<and>
    ht_nodes t' = add_mset node (ht_nodes t) \<and> htable_cap t' = htable_cap t"
proof -
  let ?p = "htable_pos t (hcode node)"
  note D = htable_invD [OF inv]
  have p: "?p < htable_cap t" using D(1) by (rule htable_pos_less)
  define t' where "t' = t\<lparr>ht_table := (ht_table t)[?p := node # ht_table t ! ?p], ht_size := ht_size t + 1\<rparr>"
  have "htable_insert t node = Some t'"
    using D(1,2) small by (simp add: htable_insert_def htable_assert_def Let_def t'_def wrap32)
  moreover have n: "ht_nodes t' = add_mset node (ht_nodes t)"
    using mset_concat_update [OF p, of "node # ht_table t ! ?p"] by (simp add: ht_nodes_def t'_def)
  moreover have "htable_inv t'"
    using D p n unfolding htable_inv_def
    by (auto simp: t'_def htable_pos_def nth_list_update split: if_splits)
  ultimately show ?thesis by (simp add: t'_def)
qed

lemma chain_find_correct:
  "\<forall>x \<in> set xs. P x \<noteq> None \<Longrightarrow>
   (chain_find P xs k = Some None \<and> (\<forall>x \<in> set xs. P x = Some False)) \<or>
   (\<exists>j < length xs. chain_find P xs k = Some (Some (k + j)) \<and> P (xs ! j) = Some True)"
proof (induction xs arbitrary: k)
  case Nil
  then show ?case by simp
next
  case (Cons x xs)
  from Cons.prems obtain b where b: "P x = Some b" by auto
  show ?case
  proof (cases b)
    case True
    with b show ?thesis by (intro disjI2 exI [of _ 0]) simp
  next
    case False
    from Cons.prems have "\<forall>x \<in> set xs. P x \<noteq> None" by simp
    from Cons.IH [OF this, of "k + 1"] show ?thesis
    proof (elim disjE exE conjE)
      fix j assume "j < length xs" "chain_find P xs (k + 1) = Some (Some (k + 1 + j))" "P (xs ! j) = Some True"
      with b False show ?thesis by (intro disjI2 exI [of _ "Suc j"]) simp
    qed (use b False in simp)
  qed
qed

definition ht_match :: "'n hnode \<Rightarrow> ('n \<Rightarrow> 'n \<Rightarrow> bool option) \<Rightarrow> 'n hnode \<Rightarrow> bool" where
  "ht_match key eq x \<longleftrightarrow> node_eq eq key x = Some True"

definition ht_total :: "'n hnode \<Rightarrow> ('n \<Rightarrow> 'n \<Rightarrow> bool option) \<Rightarrow> 'n hnode multiset \<Rightarrow> bool" where
  "ht_total key eq M \<longleftrightarrow> (\<forall>x \<in># M. node_eq eq key x \<noteq> None)"

lemma ht_total_union [simp]: "ht_total key eq (M + N) \<longleftrightarrow> ht_total key eq M \<and> ht_total key eq N"
  by (auto simp: ht_total_def)

lemma htable_lookup_correct:
  assumes inv: "htable_inv t" and total: "ht_total key eq (ht_nodes t)"
  shows "(htable_lookup t key eq = Some None \<and> (\<forall>x \<in># ht_nodes t. \<not> ht_match key eq x)) \<or>
    (\<exists>f. htable_lookup t key eq = Some (Some f) \<and> ht_valid t f \<and> ht_match key eq (htable_deref t f) \<and>
       htable_deref t f \<in># ht_nodes t)"
proof -
  let ?p = "htable_pos t (hcode key)"
  note D = htable_invD [OF inv]
  have p: "?p < htable_cap t" using D(1) by (rule htable_pos_less)
  have code: "htable_lookup t key eq = do {
      i \<leftarrow> chain_find (node_eq eq key) (ht_table t ! ?p) 0; Some (map_option (Pair ?p) i) }"
    using D(1) by (simp add: htable_lookup_def htable_assert_def Let_def)
  have "\<forall>x \<in> set (ht_table t ! ?p). node_eq eq key x \<noteq> None"
    using total p by (auto simp: ht_total_def in_ht_nodes)
  from chain_find_correct [OF this, of 0] show ?thesis
  proof (elim disjE exE conjE)
    assume none: "chain_find (node_eq eq key) (ht_table t ! ?p) 0 = Some None"
      "\<forall>x \<in> set (ht_table t ! ?p). node_eq eq key x = Some False"
    have "\<not> ht_match key eq x" if "x \<in># ht_nodes t" for x
    proof
      assume m: "ht_match key eq x"
      then have "hcode x = hcode key" by (auto simp: ht_match_def node_eq_def split: if_splits)
      moreover from that obtain i where i: "i < htable_cap t" "x \<in> set (ht_table t ! i)" by (auto simp: in_ht_nodes)
      ultimately have "i = ?p" using D(3) [OF i] by simp
      with none i m show False by (simp add: ht_match_def)
    qed
    with none code show ?thesis by simp
  next
    fix j assume "j < length (ht_table t ! ?p)"
      "chain_find (node_eq eq key) (ht_table t ! ?p) 0 = Some (Some (0 + j))"
      "node_eq eq key (ht_table t ! ?p ! j) = Some True"
    with code p show ?thesis
      by (auto simp: ht_valid_def htable_deref_def in_ht_nodes ht_match_def intro!: disjI2)
  qed
qed

lemma htable_delete_correct:
  assumes inv: "htable_inv t" and f: "ht_valid t f" and small: "size (ht_nodes t) < 4294967296"
  shows "\<exists>t'. htable_delete t f = Some (htable_deref t f, t') \<and> htable_inv t' \<and>
    ht_nodes t = add_mset (htable_deref t f) (ht_nodes t') \<and> htable_cap t' = htable_cap t \<and>
    ht_table t' = (ht_table t)[fst f := take (snd f) (ht_table t ! fst f) @ drop (Suc (snd f)) (ht_table t ! fst f)]"
proof -
  obtain p i where f': "f = (p, i)" by force
  let ?c = "ht_table t ! p"
  let ?c' = "take i ?c @ drop (Suc i) ?c"
  note D = htable_invD [OF inv]
  have pi: "p < htable_cap t" "i < length ?c" using f by (simp_all add: f' ht_valid_def)
  have split: "mset ?c = add_mset (?c ! i) (mset ?c')"
    using pi(2) by (subst id_take_nth_drop [of i ?c]) simp_all
  define t' where "t' = t\<lparr>ht_table := (ht_table t)[p := ?c'], ht_size := sub32 (ht_size t) 1\<rparr>"
  have n: "ht_nodes t = add_mset (?c ! i) (ht_nodes t')"
    using mset_concat_update [OF pi(1), of ?c'] by (simp add: ht_nodes_def t'_def split)
  have "ht_size t' = ht_size t - 1" using D(2) small n by (simp add: t'_def wrap32)
  then have "ht_size t' = size (ht_nodes t')" using D(2) n by simp
  moreover have "set ?c' \<subseteq> set ?c" by (auto dest: in_set_takeD in_set_dropD)
  ultimately have "htable_inv t'"
    using D pi unfolding htable_inv_def
    by (auto simp: t'_def htable_pos_def nth_list_update split: if_splits)
  moreover have "htable_delete t f = Some (?c ! i, t')"
    using D(1) by (simp add: htable_delete_def htable_assert_def f' htable_deref_def t'_def Let_def)
  ultimately show ?thesis using n by (simp add: t'_def f' htable_deref_def)
qed

text \<open>A walk over the table visits the nodes chain by chain.\<close>

definition ht_list :: "'n htable \<Rightarrow> 'n hnode list" where
  "ht_list t = concat (ht_table t)"

lemma fold_visit: "fold (\<lambda>cur s. Option.bind s (action cur)) xs s = Option.bind s (visit action xs)"
proof (induction xs arbitrary: s)
  case Nil
  then show ?case by (cases s) simp_all
next
  case (Cons x xs)
  then show ?case by (cases s) simp_all
qed

lemma htable_foreach_visit: "htable_foreach t action s = visit action (ht_list t) s"
proof -
  have "fold (\<lambda>chain s. fold (\<lambda>cur s. Option.bind s (action cur)) chain s) xss s
      = Option.bind s (visit action (concat xss))" for xss s
  proof (induction xss arbitrary: s)
    case Nil
    then show ?case by (cases s) simp_all
  next
    case (Cons xs xss)
    then show ?case by (cases s) (simp_all add: fold_visit visit_append)
  qed
  then show ?thesis by (simp add: htable_foreach_def ht_list_def)
qed

lemma mset_ht_list: "mset (ht_list t) = ht_nodes t"
  by (simp add: ht_list_def ht_nodes_def)

section \<open>The adaptive table holds the nodes of both\<close>

definition ah_nodes :: "'n adptv_htable \<Rightarrow> 'n hnode multiset" where
  "ah_nodes t = ht_nodes (ah_prev t) + ht_nodes (ah_current t)"

definition ah_list :: "'n adptv_htable \<Rightarrow> 'n hnode list" where
  "ah_list t = ht_list (ah_prev t) @ ht_list (ah_current t)"

definition settings_ok :: "adptv_htable_settings \<Rightarrow> bool" where
  "settings_ok s \<longleftrightarrow> 0 < min_size s \<and> min_size s \<le> max_size s \<and> max_size s < 2147483648 \<and>
     0 < rehashing_work s \<and> 0 < min_load_factor s \<and> 0 < max_load_factor s"

definition ah_inv :: "'n adptv_htable \<Rightarrow> bool" where
  "ah_inv t \<longleftrightarrow> htable_inv (ah_current t) \<and> htable_inv (ah_prev t) \<and>
     ah_migrate_pos t \<le> htable_cap (ah_prev t) \<and>
     (\<forall>i < ah_migrate_pos t. ht_table (ah_prev t) ! i = []) \<and>
     settings_ok (ah_settings t) \<and> htable_cap (ah_current t) \<le> max_size (ah_settings t)"

lemma ah_invD:
  assumes "ah_inv t"
  shows "htable_inv (ah_current t)" "htable_inv (ah_prev t)" "settings_ok (ah_settings t)"
    "ah_migrate_pos t \<le> htable_cap (ah_prev t)" "htable_cap (ah_current t) \<le> max_size (ah_settings t)"
    "i < ah_migrate_pos t \<Longrightarrow> ht_table (ah_prev t) ! i = []"
  using assms by (simp_all add: ah_inv_def)

lemma ah_assert [simp]: "ah_inv t \<Longrightarrow> adptv_assert t = Some ()"
  by (auto simp: ah_inv_def settings_ok_def adptv_assert_def adptv_settings_assert_def)

lemma mset_ah_list: "mset (ah_list t) = ah_nodes t"
  by (simp add: ah_list_def ah_nodes_def mset_ht_list)

lemma adptv_foreach_visit: "adptv_htable_foreach t action s = visit action (ah_list t) s"
  by (simp add: adptv_htable_foreach_def htable_foreach_visit ah_list_def visit_append)

lemma adptv_init_correct:
  assumes "settings_ok settings"
  shows "\<exists>t. adptv_htable_init (True, True) settings = Some (Inr t) \<and> ah_inv t \<and> ah_nodes t = {#} \<and>
    ah_settings t = settings"
proof -
  have "0 < min_size settings" using assms by (simp add: settings_ok_def)
  from htable_create_correct [OF this] obtain t0 :: "'a htable" where
    t0: "htable_create True (min_size settings) = Some (Some t0)" "htable_inv t0" "ht_nodes t0 = {#}"
      "htable_cap t0 = min_size settings" by blast
  define t where "t = \<lparr>ah_current = t0, ah_prev = t0, ah_migrate_pos = 0, ah_settings = settings\<rparr>"
  have inv: "ah_inv t" using t0 assms by (simp add: ah_inv_def t_def settings_ok_def)
  with t0 show ?thesis
    by (intro exI [of _ t]) (simp add: adptv_htable_init_def Let_def t_def [symmetric] ah_nodes_def, simp add: t_def)
qed

lemma adptv_table_pos:
  assumes inv: "ah_inv t" and "0 < ht_size (ah_prev t)"
  shows "ah_migrate_pos t < htable_cap (ah_prev t)"
proof (rule ccontr)
  assume "\<not> ?thesis"
  then have "\<forall>i < htable_cap (ah_prev t). ht_table (ah_prev t) ! i = []"
    using ah_invD [OF inv] by simp
  then have "\<forall>c \<in> set (ht_table (ah_prev t)). c = []" by (simp add: all_set_conv_all_nth)
  then have "ht_nodes (ah_prev t) = {#}" by (simp add: ht_nodes_def)
  with assms htable_invD(2) [OF ah_invD(2) [OF inv]] show False by simp
qed

lemma adptv_move_one_correct:
  assumes inv: "ah_inv t" and more: "0 < ht_size (ah_prev t)"
    and small: "size (ah_nodes t) < 4294967295"
  shows "\<exists>t'. adptv_move_one t = Some t' \<and> ah_inv t' \<and> ah_nodes t' = ah_nodes t \<and>
    ah_settings t' = ah_settings t \<and> htable_cap (ah_current t') = htable_cap (ah_current t) \<and>
    htable_cap (ah_prev t') = htable_cap (ah_prev t) \<and>
    ht_size (ah_prev t') + (htable_cap (ah_prev t') - ah_migrate_pos t')
      < ht_size (ah_prev t) + (htable_cap (ah_prev t) - ah_migrate_pos t)"
proof -
  let ?m = "ah_migrate_pos t"
  note D = ah_invD [OF inv]
  have m: "?m < htable_cap (ah_prev t)" by (rule adptv_table_pos [OF inv more])
  show ?thesis
  proof (cases "ht_table (ah_prev t) ! ?m = []")
    case True
    define t' where "t' = t\<lparr>ah_migrate_pos := ?m + 1\<rparr>"
    have "adptv_move_one t = Some t'" using inv m True by (simp add: adptv_move_one_def t'_def)
    moreover have "ah_inv t'" using D m True by (auto simp: ah_inv_def t'_def less_Suc_eq)
    ultimately show ?thesis using m by (auto simp: ah_nodes_def t'_def)
  next
    case False
    have v: "ht_valid (ah_prev t) (?m, 0)" using m False by (simp add: ht_valid_def)
    have "size (ht_nodes (ah_prev t)) < 4294967296" using small by (simp add: ah_nodes_def)
    from htable_delete_correct [OF D(2) v this] obtain p where
      p: "htable_delete (ah_prev t) (?m, 0) = Some (htable_deref (ah_prev t) (?m, 0), p)" "htable_inv p"
        "ht_nodes (ah_prev t) = add_mset (htable_deref (ah_prev t) (?m, 0)) (ht_nodes p)"
        "htable_cap p = htable_cap (ah_prev t)"
        "ht_table p = (ht_table (ah_prev t))[?m := drop 1 (ht_table (ah_prev t) ! ?m)]"
      by auto
    let ?n = "htable_deref (ah_prev t) (?m, 0)"
    have "size (ht_nodes (ah_current t)) + 1 < 4294967296" using small by (simp add: ah_nodes_def)
    from htable_insert_correct [OF D(1) this] obtain c where
      c: "htable_insert (ah_current t) ?n = Some c" "htable_inv c"
        "ht_nodes c = add_mset ?n (ht_nodes (ah_current t))" "htable_cap c = htable_cap (ah_current t)"
      by blast
    define t' where "t' = t\<lparr>ah_prev := p, ah_current := c\<rparr>"
    have "adptv_move_one t = Some t'"
      using inv m False p(1) c(1) by (simp add: adptv_move_one_def t'_def)
    moreover have "ah_inv t'" using D p c by (auto simp: ah_inv_def t'_def)
    moreover have "ht_size p < ht_size (ah_prev t)"
      using htable_invD(2) [OF D(2)] htable_invD(2) [OF p(2)] p(3) by simp
    ultimately show ?thesis using p c by (auto simp: ah_nodes_def t'_def)
  qed
qed

text \<open>Both rehashing loops keep the nodes; the first ends with an empty old table.\<close>

lemma adptv_finish_loop_correct:
  "ah_inv t \<Longrightarrow> size (ah_nodes t) < 4294967295 \<Longrightarrow>
   \<exists>t'. adptv_finish_loop t = Some t' \<and> ah_inv t' \<and> ah_nodes t' = ah_nodes t \<and>
     ah_settings t' = ah_settings t \<and> htable_cap (ah_current t') = htable_cap (ah_current t) \<and>
     ht_size (ah_prev t') = 0"
proof (induction "ht_size (ah_prev t) + (htable_cap (ah_prev t) - ah_migrate_pos t)" arbitrary: t
    rule: less_induct)
  case less
  show ?case
  proof (cases "0 < ht_size (ah_prev t)")
    case False
    with less.prems show ?thesis by (subst adptv_finish_loop.simps) simp
  next
    case True
    from adptv_move_one_correct [OF less.prems(1) True less.prems(2)] obtain t1 where
      t1: "adptv_move_one t = Some t1" "ah_inv t1" "ah_nodes t1 = ah_nodes t" "ah_settings t1 = ah_settings t"
        "htable_cap (ah_current t1) = htable_cap (ah_current t)"
        "ht_size (ah_prev t1) + (htable_cap (ah_prev t1) - ah_migrate_pos t1)
          < ht_size (ah_prev t) + (htable_cap (ah_prev t) - ah_migrate_pos t)" by blast
    from less.hyps [OF t1(6,2)] less.prems(2) t1 True show ?thesis
      by (subst adptv_finish_loop.simps) simp
  qed
qed

lemma adptv_help_loop_correct:
  "ah_inv t \<Longrightarrow> size (ah_nodes t) < 4294967295 \<Longrightarrow>
   \<exists>t'. adptv_help_loop n t = Some t' \<and> ah_inv t' \<and> ah_nodes t' = ah_nodes t \<and>
     ah_settings t' = ah_settings t"
proof (induction n arbitrary: t)
  case 0
  then show ?case by simp
next
  case (Suc n)
  show ?case
  proof (cases "0 < ht_size (ah_prev t)")
    case False
    with Suc.prems show ?thesis by simp
  next
    case True
    from adptv_move_one_correct [OF Suc.prems(1) True Suc.prems(2)] obtain t1 where
      t1: "adptv_move_one t = Some t1" "ah_inv t1" "ah_nodes t1 = ah_nodes t" "ah_settings t1 = ah_settings t"
      by blast
    from Suc.IH [OF t1(2)] Suc.prems(2) t1 True show ?thesis by simp
  qed
qed

lemma adptv_trigger_correct:
  assumes inv: "ah_inv t" and small: "size (ah_nodes t) < 4294967295"
    and cap: "0 < newcap" "newcap \<le> max_size (ah_settings t)"
  shows "\<exists>r t'. adptv_htable_trigger_rehashing ok t newcap = Some (r, t') \<and> ah_inv t' \<and>
    ah_nodes t' = ah_nodes t \<and> ah_settings t' = ah_settings t \<and> r = (if ok then Inr () else Inl ERR_NOMEM)"
proof -
  from adptv_finish_loop_correct [OF inv small] obtain t1 where
    t1: "adptv_finish_loop t = Some t1" "ah_inv t1" "ah_nodes t1 = ah_nodes t"
      "ah_settings t1 = ah_settings t" "ht_size (ah_prev t1) = 0" by blast
  note D = ah_invD [OF t1(2)]
  have empty: "ht_nodes (ah_prev t1) = {#}" using htable_invD(2) [OF D(2)] t1(5) by simp
  show ?thesis
  proof (cases ok)
    case False
    with t1 inv show ?thesis
      by (simp add: adptv_htable_trigger_rehashing_def adptv_htable_finish_rehashing_def htable_create_def)
  next
    case True
    from htable_create_correct [OF cap(1)] obtain new :: "'a htable" where
      new: "htable_create True newcap = Some (Some new)" "htable_inv new" "ht_nodes new = {#}"
        "htable_cap new = newcap" by blast
    define t' where "t' = t1\<lparr>ah_prev := ah_current t1, ah_current := new, ah_migrate_pos := 0\<rparr>"
    have "adptv_htable_trigger_rehashing ok t newcap = Some (Inr (), t')"
      using True t1(1) inv new(1)
      by (simp add: adptv_htable_trigger_rehashing_def adptv_htable_finish_rehashing_def t'_def)
    moreover have "ah_inv t'" using D new cap t1(4) by (simp add: ah_inv_def t'_def)
    moreover have "ah_nodes t' = ah_nodes t"
      using new(3) empty t1(3) by (simp add: ah_nodes_def t'_def)
    ultimately show ?thesis using True t1(4) by (simp add: t'_def)
  qed
qed

lemma adptv_lookup_correct:
  assumes inv: "ah_inv t" and total: "ht_total key eq (ah_nodes t)"
  shows "(adptv_htable_lookup t key eq = Some None \<and> (\<forall>x \<in># ah_nodes t. \<not> ht_match key eq x)) \<or>
    (\<exists>x. adptv_htable_lookup t key eq = Some (Some x) \<and> x \<in># ah_nodes t \<and> ht_match key eq x)"
proof -
  note D = ah_invD [OF inv]
  have "ht_total key eq (ht_nodes (ah_current t))" "ht_total key eq (ht_nodes (ah_prev t))"
    using total by (simp_all add: ah_nodes_def)
  from htable_lookup_correct [OF D(1) this(1)] htable_lookup_correct [OF D(2) this(2)] inv
  show ?thesis
    by (elim disjE exE conjE) (auto simp: adptv_htable_lookup_def ah_nodes_def)
qed

lemma adptv_insert_correct:
  assumes inv: "ah_inv t" and small: "size (ah_nodes t) + 1 < 4294967295"
  shows "\<exists>r t'. adptv_htable_insert ok t node = Some (r, t') \<and> ah_inv t' \<and>
    ah_settings t' = ah_settings t \<and>
    (r = Inr () \<and> ah_nodes t' = add_mset node (ah_nodes t) \<or>
     r = Inl ERR_NOMEM \<and> \<not> ok \<and> ah_nodes t' = ah_nodes t)"
proof -
  note D = ah_invD [OF inv]
  let ?S = "ah_settings t" and ?c = "htable_cap (ah_current t)"
  have c: "0 < ?c" "mul32 ?c 2 = ?c * 2"
    using D(3,5) htable_invD(1) [OF D(1)] by (simp_all add: settings_ok_def wrap32)
  let ?grow = "add32 (add32 (ht_size (ah_current t)) (ht_size (ah_prev t))) 1
      \<ge> mul32 ?c (max_load_factor ?S) \<and> mul32 ?c 2 \<le> max_size ?S"
  have "\<exists>r t1. (if ?grow then adptv_htable_trigger_rehashing ok t (mul32 ?c 2) else Some (Inr (), t)) = Some (r, t1) \<and>
      ah_inv t1 \<and> ah_nodes t1 = ah_nodes t \<and> ah_settings t1 = ?S \<and>
      (r = Inr () \<or> r = Inl ERR_NOMEM \<and> \<not> ok)"
  proof (cases ?grow)
    case True
    have "0 < mul32 ?c 2" "mul32 ?c 2 \<le> max_size ?S" "size (ah_nodes t) < 4294967295"
      using c True small by auto
    from adptv_trigger_correct [OF inv this(3,1,2), of ok] show ?thesis
      unfolding if_P [OF True] by (cases ok) auto
  next
    case False
    then show ?thesis unfolding if_not_P [OF False] using inv by blast
  qed
  then obtain r t1 where t1: "(if ?grow then adptv_htable_trigger_rehashing ok t (mul32 ?c 2) else Some (Inr (), t)) = Some (r, t1)"
    "ah_inv t1" "ah_nodes t1 = ah_nodes t" "ah_settings t1 = ?S" "r = Inr () \<or> r = Inl ERR_NOMEM \<and> \<not> ok"
    by blast
  have code: "adptv_htable_insert ok t node = (case r of Inl e \<Rightarrow> Some (Inl e, t1)
     | Inr _ \<Rightarrow> do {
         current \<leftarrow> htable_insert (ah_current t1) node;
         t \<leftarrow> adptv_htable_help_rehashing (t1\<lparr>ah_current := current\<rparr>);
         Some (Inr (), t) })"
    using t1(1) inv unfolding adptv_htable_insert_def Let_def by simp
  show ?thesis
  proof (cases "r = Inr ()")
    case False
    with t1 code show ?thesis by auto
  next
    case True
    note D1 = ah_invD [OF t1(2)]
    have "size (ht_nodes (ah_current t1)) + 1 < 4294967296" 
      using small unfolding t1(3) [symmetric] by (simp add: ah_nodes_def)
    from htable_insert_correct [OF D1(1) this, of node] obtain c1 where
      c1: "htable_insert (ah_current t1) node = Some c1" "htable_inv c1"
        "ht_nodes c1 = add_mset node (ht_nodes (ah_current t1))" "htable_cap c1 = htable_cap (ah_current t1)"
      by blast
    define t2 where "t2 = t1\<lparr>ah_current := c1\<rparr>"
    have t2: "ah_inv t2" "ah_nodes t2 = add_mset node (ah_nodes t)" "ah_settings t2 = ?S"
      using D1 c1 t1(3,4) by (auto simp: ah_inv_def t2_def ah_nodes_def)
    from adptv_help_loop_correct [OF t2(1), of "rehashing_work (ah_settings t2)"] small t2 obtain t3 where
      "adptv_help_loop (rehashing_work (ah_settings t2)) t2 = Some t3" "ah_inv t3"
        "ah_nodes t3 = ah_nodes t2" "ah_settings t3 = ?S" by auto
    with True code c1(1) t2 t1(4) show ?thesis
      by (auto simp: adptv_htable_help_rehashing_def t2_def [symmetric])
  qed
qed

lemma adptv_delete_correct:
  assumes inv: "ah_inv t" and small: "size (ah_nodes t) < 4294967295"
    and total: "ht_total key eq (ah_nodes t)"
    and found: "\<exists>x \<in># ah_nodes t. ht_match key eq x"
  shows "\<exists>r t'. adptv_htable_delete ok has_dest t key eq = Some (r, t') \<and> ah_inv t' \<and>
    ah_settings t' = ah_settings t \<and>
    ((\<exists>x. r = Inr (Some x) \<and> ht_match key eq x \<and> ah_nodes t = add_mset x (ah_nodes t')) \<or>
     r = Inl ERR_NOMEM \<and> \<not> ok \<and> ah_nodes t' = ah_nodes t)"
proof -
  note D = ah_invD [OF inv]
  let ?S = "ah_settings t" and ?c = "htable_cap (ah_current t)"
  let ?shrink = "add32 (ht_size (ah_current t)) (ht_size (ah_prev t))
      \<le> add32 (mul32 (add32 ?c 1) (min_load_factor ?S)) 1 \<and> ?c div 2 \<ge> min_size ?S"
  have "\<exists>r t1. (if ?shrink then adptv_htable_trigger_rehashing ok t (?c div 2) else Some (Inr (), t)) = Some (r, t1) \<and>
      ah_inv t1 \<and> ah_nodes t1 = ah_nodes t \<and> ah_settings t1 = ?S \<and>
      (r = Inr () \<or> r = Inl ERR_NOMEM \<and> \<not> ok)"
  proof (cases ?shrink)
    case True
    have "0 < ?c div 2" "?c div 2 \<le> max_size ?S"
      using D(3,5) True by (auto simp: settings_ok_def)
    from adptv_trigger_correct [OF inv small this, of ok] show ?thesis
      unfolding if_P [OF True] by (cases ok) auto
  next
    case False
    then show ?thesis unfolding if_not_P [OF False] using inv by blast
  qed
  then obtain r t1 where t1: "(if ?shrink then adptv_htable_trigger_rehashing ok t (?c div 2) else Some (Inr (), t)) = Some (r, t1)"
    "ah_inv t1" "ah_nodes t1 = ah_nodes t" "ah_settings t1 = ?S" "r = Inr () \<or> r = Inl ERR_NOMEM \<and> \<not> ok"
    by blast
  let ?rest = "do {
         c \<leftarrow> htable_lookup (ah_current t1) key eq;
         case c of
           Some from' \<Rightarrow> do {
             (node, current) \<leftarrow> htable_delete (ah_current t1) from';
             Some (Inr (Some node), t1\<lparr>ah_current := current\<rparr>) }
         | None \<Rightarrow> do {
             p \<leftarrow> htable_lookup (ah_prev t1) key eq;
             case p of
               Some from' \<Rightarrow> do {
                 (node, prev) \<leftarrow> htable_delete (ah_prev t1) from';
                 Some (Inr (Some node), t1\<lparr>ah_prev := prev\<rparr>) }
             | None \<Rightarrow> do { ASSERT has_dest; Some (Inr None, t1) } } }"
  have code: "adptv_htable_delete ok has_dest t key eq = (case r of Inl e \<Rightarrow> Some (Inl e, t1) | Inr _ \<Rightarrow> ?rest)"
    using t1(1) inv unfolding adptv_htable_delete_def Let_def by simp
  show ?thesis
  proof (cases "r = Inr ()")
    case False
    with t1 code show ?thesis by auto
  next
    case True
    note D1 = ah_invD [OF t1(2)]
    have sz: "size (ht_nodes (ah_current t1)) < 4294967296" "size (ht_nodes (ah_prev t1)) < 4294967296"
      using small unfolding t1(3) [symmetric] by (simp_all add: ah_nodes_def)
    have found1: "\<exists>x \<in># ah_nodes t1. ht_match key eq x" using found t1(3) by simp
    have total1: "ht_total key eq (ht_nodes (ah_current t1))" "ht_total key eq (ht_nodes (ah_prev t1))"
      using total unfolding t1(3) [symmetric] by (simp_all add: ah_nodes_def)
    from htable_lookup_correct [OF D1(1) total1(1)] show ?thesis
    proof (elim disjE exE conjE)
      fix f assume f: "htable_lookup (ah_current t1) key eq = Some (Some f)" "ht_valid (ah_current t1) f"
        "ht_match key eq (htable_deref (ah_current t1) f)"
      from htable_delete_correct [OF D1(1) f(2) sz(1)] obtain c1 where
        c1: "htable_delete (ah_current t1) f = Some (htable_deref (ah_current t1) f, c1)" "htable_inv c1"
          "ht_nodes (ah_current t1) = add_mset (htable_deref (ah_current t1) f) (ht_nodes c1)"
          "htable_cap c1 = htable_cap (ah_current t1)" by blast
      have "ah_inv (t1\<lparr>ah_current := c1\<rparr>)" using D1 c1 by (auto simp: ah_inv_def)
      moreover have "ah_nodes t = add_mset (htable_deref (ah_current t1) f) (ah_nodes (t1\<lparr>ah_current := c1\<rparr>))"
        using c1(3) unfolding t1(3) [symmetric] by (simp add: ah_nodes_def)
      ultimately show ?thesis using code True f c1(1) t1(4) by auto
    next
      assume n: "htable_lookup (ah_current t1) key eq = Some None"
        "\<forall>x \<in># ht_nodes (ah_current t1). \<not> ht_match key eq x"
      with found1 have "\<exists>x \<in># ht_nodes (ah_prev t1). ht_match key eq x" by (auto simp: ah_nodes_def)
      with htable_lookup_correct [OF D1(2) total1(2)] obtain f where
        f: "htable_lookup (ah_prev t1) key eq = Some (Some f)" "ht_valid (ah_prev t1) f"
        "ht_match key eq (htable_deref (ah_prev t1) f)" by blast
      from htable_delete_correct [OF D1(2) f(2) sz(2)] obtain c1 where
        c1: "htable_delete (ah_prev t1) f = Some (htable_deref (ah_prev t1) f, c1)" "htable_inv c1"
          "ht_nodes (ah_prev t1) = add_mset (htable_deref (ah_prev t1) f) (ht_nodes c1)"
          "htable_cap c1 = htable_cap (ah_prev t1)"
          "ht_table c1 = (ht_table (ah_prev t1))[fst f := take (snd f) (ht_table (ah_prev t1) ! fst f) @ drop (Suc (snd f)) (ht_table (ah_prev t1) ! fst f)]"
        by blast
      have "fst f < htable_cap (ah_prev t1)" "ht_table (ah_prev t1) ! fst f \<noteq> []" using f(2) by (auto simp: ht_valid_def)
      then have "ah_inv (t1\<lparr>ah_prev := c1\<rparr>)" using D1 c1 by (auto simp: ah_inv_def nth_list_update)
      moreover have "ah_nodes t = add_mset (htable_deref (ah_prev t1) f) (ah_nodes (t1\<lparr>ah_prev := c1\<rparr>))"
        using c1(3) unfolding t1(3) [symmetric] by (simp add: ah_nodes_def)
      ultimately show ?thesis using code True n f c1(1) t1(4) by auto
    qed
  qed
qed

section \<open>Properties\<close>

text \<open>C16: Whatever rehashing an insertion triggers or helps along, the table afterwards holds exactly the
  nodes it held and the new one; if the allocation of the larger table fails, the error is returned
  and no node is lost.\<close>

theorem adptv_insert_adds_node:
  assumes "ah_inv t" and "size (ah_nodes t) + 1 < 2 ^ 32 - 1"
  shows "\<exists>r t'. adptv_htable_insert ok t node = Some (r, t') \<and> ah_inv t' \<and>
    (r = Inr () \<and> ah_nodes t' = add_mset node (ah_nodes t) \<or>
     r = Inl ERR_NOMEM \<and> ok = False \<and> ah_nodes t' = ah_nodes t)"
  using adptv_insert_correct [OF assms(1), of ok node] assms(2) by auto

theorem adptv_insert_adds_node_witness:
  "\<exists>t r t'. adptv_htable_init (True, True)
       \<lparr>max_load_factor = 8, min_load_factor = 1, rehashing_work = 28, max_size = 2048, min_size = 10\<rparr>
       = Some (Inr t) \<and>
     adptv_htable_insert True t (hnode_init 7 (42 :: nat)) = Some (r, t') \<and>
     ah_nodes t' = {#hnode_init 7 42#}"
proof -
  obtain t :: "nat adptv_htable" where t: "adptv_htable_init (True, True)
       \<lparr>max_load_factor = 8, min_load_factor = 1, rehashing_work = 28, max_size = 2048, min_size = 10\<rparr>
       = Some (Inr t)" "ah_inv t" "ah_nodes t = {#}"
    using adptv_init_correct [of "\<lparr>max_load_factor = 8, min_load_factor = 1, rehashing_work = 28, max_size = 2048, min_size = 10\<rparr>"]
    by (auto simp: settings_ok_def)
  from adptv_insert_adds_node [OF t(2), of True "hnode_init 7 42"] t show ?thesis by auto
qed

end
