(* ===== verification/Dbl_Buffer.thy ===== *)
theory Dbl_Buffer
  imports NS_Prelude
begin

text \<open>
  \<^verbatim>\<open>libs/nscore/dbl_buffer.c\<close>: the growing array recovery keeps its transactions in, over a typed
  heap. A pointer is a block and an index; a block is a list of elements, \<open>None\<close> where nothing
  has been stored yet. Reading or writing outside of a live block is a failure.

  \<^verbatim>\<open>realloc\<close> may fail, grow the block in place or move it: the outcome is an argument, the block the
  data ends up in. When it moves, the old block is gone, and with it every pointer into it.
\<close>

type_synonym ptr = "nat \<times> nat"
type_synonym 'a heap = "nat \<Rightarrow> 'a option list option"

definition heap_get :: "'a heap \<Rightarrow> ptr \<Rightarrow> 'a option" where
  "heap_get h p =
     (case h (fst p) of None \<Rightarrow> None | Some xs \<Rightarrow> if snd p < length xs then xs ! snd p else None)"

definition heap_put :: "'a heap \<Rightarrow> ptr \<Rightarrow> 'a \<Rightarrow> 'a heap option" where
  "heap_put h p v =
     (case h (fst p) of
        None \<Rightarrow> None
      | Some xs \<Rightarrow>
          if snd p < length xs then Some (h(fst p \<mapsto> xs[snd p := Some v])) else None)"

record dbl_buffer =
  db_block :: nat
  db_nelem :: nat
  db_nelem_cap :: nat

definition dbl_buffer_assert :: "dbl_buffer \<Rightarrow> unit option" where
  "dbl_buffer_assert d = ASSERT (db_nelem d \<le> db_nelem_cap d)"

definition dblb_create :: "nat option \<Rightarrow> 'a heap \<Rightarrow> nat \<Rightarrow> (dbl_buffer res \<times> 'a heap) option" where
  "dblb_create mem h initial_cap = do {
     ASSERT (initial_cap > 0);
     case mem of
       None \<Rightarrow> Some (Inl ERR_NOMEM, h)
     | Some b \<Rightarrow> do {
         let dest = \<lparr>db_block = b, db_nelem = 0, db_nelem_cap = initial_cap\<rparr>;
         dbl_buffer_assert dest;
         Some (Inr dest, h(b \<mapsto> replicate initial_cap None)) } }"

definition i_realloc_right :: "nat option \<Rightarrow> 'a heap \<Rightarrow> nat \<Rightarrow> nat \<Rightarrow> (nat option \<times> 'a heap) option" where
  "i_realloc_right mem h block new_nelem = do {
     ASSERT (new_nelem > 0);
     xs \<leftarrow> h block;
     Some (case mem of
             None \<Rightarrow> (None, h)
           | Some b \<Rightarrow>
               (Some b, (h(block := None))
                  (b \<mapsto> take new_nelem xs @ replicate (new_nelem - length xs) None))) }"

definition dblb_append_alloc ::
  "nat option \<Rightarrow> 'a heap \<Rightarrow> dbl_buffer \<Rightarrow> nat \<Rightarrow> (ptr option \<times> 'a heap \<times> dbl_buffer) option" where
  "dblb_append_alloc mem h d nelem = do {
     dbl_buffer_assert d;
     let newnelem_cap = add32 (db_nelem d) nelem;
     (ok, h, d) \<leftarrow>
       (if newnelem_cap \<ge> db_nelem_cap d then do {
          (newdata, h) \<leftarrow> i_realloc_right mem h (db_block d) (mul32 2 newnelem_cap);
          Some (case newdata of
                  None \<Rightarrow> (False, h, d)
                | Some b \<Rightarrow> (True, h, d\<lparr>db_block := b, db_nelem_cap := mul32 2 newnelem_cap\<rparr>)) }
        else Some (True, h, d));
     Some (if ok then (Some (db_block d, db_nelem d), h, d\<lparr>db_nelem := add32 (db_nelem d) nelem\<rparr>)
           else (None, h, d)) }"

primrec heap_copy :: "'a heap \<Rightarrow> ptr \<Rightarrow> 'a list \<Rightarrow> 'a heap option" where
  "heap_copy h p [] = Some h"
| "heap_copy h p (x # xs) = do { h \<leftarrow> heap_put h p x; heap_copy h (fst p, snd p + 1) xs }"

definition dblb_append :: "nat option \<Rightarrow> 'a heap \<Rightarrow> dbl_buffer \<Rightarrow> 'a list \<Rightarrow> (unit res \<times> 'a heap \<times> dbl_buffer) option" where
  "dblb_append mem h d data = do {
     (head, h, d) \<leftarrow> dblb_append_alloc mem h d (length data);
     case head of
       None \<Rightarrow> Some (Inl ERR_NOMEM, h, d)
     | Some p \<Rightarrow> do { h \<leftarrow> heap_copy h p data; Some (Inr (), h, d) } }"

definition dblb_free :: "'a heap \<Rightarrow> dbl_buffer \<Rightarrow> ('a heap \<times> dbl_buffer) option" where
  "dblb_free h d = do {
     dbl_buffer_assert d;
     Some (h(db_block d := None), d\<lparr>db_nelem_cap := 0, db_nelem := 0\<rparr>) }"

section \<open>Heap lemmas\<close>

lemma heap_put_Some:
  "h b = Some xs \<Longrightarrow> i < length xs \<Longrightarrow> heap_put h (b, i) v = Some (h(b \<mapsto> xs[i := Some v]))"
  by (simp add: heap_put_def)

lemma heap_get_put:
  assumes "heap_put h p v = Some h'"
  shows "heap_get h' q = (if q = p then Some v else heap_get h q)"
  using assms by (cases p; cases q) (auto simp: heap_put_def heap_get_def split: option.splits if_splits)

lemma heap_put_live: "heap_get h p = Some v \<Longrightarrow> \<exists>h'. heap_put h p w = Some h'"
  by (auto simp: heap_get_def heap_put_def split: option.splits if_splits)

section \<open>The buffer is the list of its elements\<close>

definition db_inv :: "'a heap \<Rightarrow> dbl_buffer \<Rightarrow> bool" where
  "db_inv h d \<longleftrightarrow> 0 < db_nelem_cap d \<and> db_nelem d \<le> db_nelem_cap d \<and>
     (\<exists>xs. h (db_block d) = Some xs \<and> length xs = db_nelem_cap d \<and> (\<forall>i < db_nelem d. xs ! i \<noteq> None))"

definition db_list :: "'a heap \<Rightarrow> dbl_buffer \<Rightarrow> 'a list" where
  "db_list h d = map (\<lambda>i. the (heap_get h (db_block d, i))) [0..<db_nelem d]"

lemma heap_copy_correct:
  "h b = Some ys \<Longrightarrow> i + length xs \<le> length ys \<Longrightarrow>
   heap_copy h (b, i) xs = Some (h(b \<mapsto> splice ys i (map Some xs)))"
proof (induction xs arbitrary: h i ys)
  case Nil
  then show ?case by (simp add: splice_def fun_upd_idem)
next
  case (Cons x xs)
  let ?ys = "ys[i := Some x]"
  have "heap_copy (h(b \<mapsto> ?ys)) (b, i + 1) xs = Some ((h(b \<mapsto> ?ys))(b \<mapsto> splice ?ys (i + 1) (map Some xs)))"
    using Cons.prems by (intro Cons.IH) simp_all
  moreover have "splice ?ys (i + 1) (map Some xs) = splice ys i (map Some (x # xs))"
    using Cons.prems
    by (intro nth_equalityI) (auto simp: nth_splice nth_list_update nth_Cons')
  ultimately show ?case using Cons.prems by (simp add: heap_put_Some fun_eq_iff)
qed

lemma dblb_append_correct:
  assumes inv: "db_inv h d" and small: "2 * (db_nelem d + length data) < 4294967296"
    and ne: "data \<noteq> []" and fresh: "b = db_block d \<or> h b = None"
  shows "\<exists>h' d'. dblb_append (Some b) h d data = Some (Inr (), h', d') \<and> db_inv h' d' \<and>
    db_list h' d' = db_list h d @ data"
proof -
  obtain xs where xs: "h (db_block d) = Some xs" "length xs = db_nelem_cap d" "\<forall>i < db_nelem d. xs ! i \<noteq> None"
    and le: "db_nelem d \<le> db_nelem_cap d" "0 < db_nelem_cap d"
    using inv by (auto simp: db_inv_def)
  let ?n = "db_nelem d + length data"
  have ar: "add32 (db_nelem d) (length data) = ?n" "mul32 2 ?n = 2 * ?n" using small by (simp_all add: wrap32)
  obtain h1 d1 ys where
    A: "dblb_append_alloc (Some b) h d (length data) = Some (Some (db_block d1, db_nelem d), h1, d1)"
      "h1 (db_block d1) = Some ys" "length ys = db_nelem_cap d1" "?n \<le> db_nelem_cap d1"
      "db_nelem d1 = ?n" "\<forall>i < db_nelem d. ys ! i = xs ! i"
  proof (cases "?n \<ge> db_nelem_cap d")
    case True
    define ys where "ys = xs @ replicate (2 * ?n - length xs) None"
    have lx: "length xs \<le> 2 * ?n" using True xs(2) by simp
    have "dblb_append_alloc (Some b) h d (length data) =
      Some (Some (b, db_nelem d), (h(db_block d := None))(b \<mapsto> ys),
        d\<lparr>db_block := b, db_nelem_cap := 2 * ?n, db_nelem := ?n\<rparr>)"
      using True le xs ne lx
      by (simp add: dblb_append_alloc_def dbl_buffer_assert_def i_realloc_right_def ar Let_def ys_def)
    then show thesis
      using lx le xs(2)
      by (intro that [of "d\<lparr>db_block := b, db_nelem_cap := 2 * ?n, db_nelem := ?n\<rparr>" "(h(db_block d := None))(b \<mapsto> ys)" ys])
        (auto simp: ys_def nth_append)
  next
    case False
    have "dblb_append_alloc (Some b) h d (length data) =
      Some (Some (db_block d, db_nelem d), h, d\<lparr>db_nelem := ?n\<rparr>)"
      using False le by (simp add: dblb_append_alloc_def dbl_buffer_assert_def ar Let_def)
    then show thesis
      using xs False by (intro that [of "d\<lparr>db_nelem := ?n\<rparr>" h xs]) auto
  qed
  define zs where "zs = splice ys (db_nelem d) (map Some data)"
  have room: "db_nelem d + length data \<le> length ys" using A by simp
  have copy: "heap_copy h1 (db_block d1, db_nelem d) data = Some (h1(db_block d1 \<mapsto> zs))"
    unfolding zs_def using heap_copy_correct [of h1 "db_block d1" ys "db_nelem d" data] A(2) room by simp
  have len: "length zs = length ys" using room by (simp add: zs_def)
  have nth: "zs ! i = (if i < db_nelem d then xs ! i else Some (data ! (i - db_nelem d)))" if "i < ?n" for i
    using that A(6) room by (simp add: zs_def nth_splice)
  have "0 < length data" using ne by simp
  then have "0 < db_nelem_cap d1" using A(4) by linarith
  then have "db_inv (h1(db_block d1 \<mapsto> zs)) d1"
    using A len xs(3) le nth unfolding db_inv_def by auto
  moreover have "db_list (h1(db_block d1 \<mapsto> zs)) d1 = db_list h d @ data"
  proof (rule nth_equalityI)
    show "length (db_list (h1(db_block d1 \<mapsto> zs)) d1) = length (db_list h d @ data)"
      using A(5) by (simp add: db_list_def)
  next
    fix i assume "i < length (db_list (h1(db_block d1 \<mapsto> zs)) d1)"
    then have i: "i < ?n" using A(5) by (simp add: db_list_def)
    then have "i < length zs" using room len by simp
    with i nth [OF i] A(5) le xs(1,2) show "db_list (h1(db_block d1 \<mapsto> zs)) d1 ! i = (db_list h d @ data) ! i"
      by (auto simp: db_list_def heap_get_def nth_append)
  qed
  ultimately show ?thesis using A(1) copy by (simp add: dblb_append_def)
qed

section \<open>Properties\<close>

text \<open>An append that needs room reallocates; when the allocator moves the block, a pointer to an
  element that an earlier \<^verbatim>\<open>dblb_append_alloc\<close> returned is dangling. Recovery keeps such pointers in its
  transaction table.\<close>

theorem dblb_grow_invalidates_pointers:
  assumes "h (db_block d) = Some xs" "db_nelem d \<le> db_nelem_cap d" "db_nelem d + 1 \<ge> db_nelem_cap d"
    "db_nelem d < 2 ^ 30" "b \<noteq> db_block d"
  shows "\<exists>p h' d'. dblb_append_alloc (Some b) h d 1 = Some (Some p, h', d') \<and>
    (\<forall>i. heap_get h' (db_block d, i) = None)"
  using assms
  by (auto simp: dblb_append_alloc_def dbl_buffer_assert_def i_realloc_right_def Let_def heap_get_def wrap32)

theorem dblb_grow_invalidates_pointers_witness:
  "\<exists>p h' d'. dblb_append_alloc (Some 1) [0 \<mapsto> [Some (5 :: nat), None]]
       \<lparr>db_block = 0, db_nelem = 1, db_nelem_cap = 2\<rparr> 1 = Some (Some p, h', d') \<and>
     (\<forall>i. heap_get h' (0, i) = None)"
  using dblb_grow_invalidates_pointers [of "[0 \<mapsto> [Some 5, None]]" "\<lparr>db_block = 0, db_nelem = 1, db_nelem_cap = 2\<rparr>"
    "[Some 5, None]" 1] by simp

end
