(* ===== verification/Gr_Lock.thy ===== *)
theory Gr_Lock
  imports NS_Prelude "HOL-Library.Multiset"
begin

text \<open>
  \<^verbatim>\<open>libs/nscore/gr_lock.c\<close>: locks in the five granularity modes, and the queue of waiters.

  What a thread does between taking the lock's mutex and giving it up, by an unlock or by waiting on
  its condition variable, is one operation. \<open>gr_step\<close> interleaves the operations of any number of threads:
  a thread that waits may also wake up without having been signalled, as condition variables allow,
  and the creation of a condition variable or the attempt at the mutex may fail.

  \<open>gr_inv\<close> is the invariant of the reachable states: the holder counts are those of the threads, the
  modes held are pairwise compatible, and a waiter whose mode is compatible with the holders has
  been signalled.
\<close>

datatype lock_mode = LM_IS | LM_IX | LM_S | LM_SIX | LM_X

definition lock_modes :: "lock_mode list" where
  "lock_modes = [LM_IS, LM_IX, LM_S, LM_SIX, LM_X]"

type_synonym gr_lock_waiter = "nat \<times> lock_mode"

record gr_lock =
  holder_counts :: "lock_mode \<Rightarrow> nat"
  waiters :: "gr_lock_waiter list"

section \<open>The operations\<close>

fun compatible :: "lock_mode \<Rightarrow> lock_mode \<Rightarrow> bool" where
  "compatible LM_IS m \<longleftrightarrow> m \<in> {LM_IS, LM_IX, LM_S, LM_SIX}"
| "compatible LM_IX m \<longleftrightarrow> m \<in> {LM_IS, LM_IX}"
| "compatible LM_S m \<longleftrightarrow> m \<in> {LM_IS, LM_S}"
| "compatible LM_SIX m \<longleftrightarrow> m \<in> {LM_IS}"
| "compatible LM_X m \<longleftrightarrow> False"

text \<open>Whether a mutex or a condition variable can be created is an argument, the error if not.\<close>

definition gr_lock_init :: "err_t option \<Rightarrow> gr_lock res" where
  "gr_lock_init mutex =
     (case mutex of
        Some e \<Rightarrow> Inl e
      | None \<Rightarrow> Inr \<lparr>holder_counts = (\<lambda>_. 0), waiters = []\<rparr>)"

definition is_compatible :: "gr_lock \<Rightarrow> lock_mode \<Rightarrow> bool" where
  "is_compatible l mode \<longleftrightarrow>
     \<not> list_ex (\<lambda>i. holder_counts l i > 0 \<and> \<not> compatible mode i) lock_modes"

definition wake_waiters :: "gr_lock \<Rightarrow> nat list" where
  \<comment> \<open>the waiters that are signalled\<close>
  "wake_waiters l = map fst (filter (\<lambda>w. is_compatible l (snd w)) (waiters l))"

definition gr_hold :: "gr_lock \<Rightarrow> lock_mode \<Rightarrow> gr_lock" where
  "gr_hold l mode = l\<lparr>holder_counts := (holder_counts l)(mode := holder_counts l mode + 1)\<rparr>"

primrec gr_unlink :: "gr_lock_waiter list \<Rightarrow> nat \<Rightarrow> gr_lock_waiter list" where
  "gr_unlink [] w = []"
| "gr_unlink (x # xs) w = (if fst x = w then xs else x # gr_unlink xs w)"

datatype gr_result = Granted | Waits | Failed err_t

text \<open>\<^verbatim>\<open>gr_lock\<close> up to the point where it returns or waits, and from the point where it stops waiting.\<close>

definition gr_lock_enter :: "err_t option \<Rightarrow> gr_lock \<Rightarrow> gr_lock_waiter \<Rightarrow> gr_result \<times> gr_lock" where
  "gr_lock_enter cond l waiter =
     (if is_compatible l (snd waiter) then (Granted, gr_hold l (snd waiter))
      else case cond of
             Some e \<Rightarrow> (Failed e, l)
           | None \<Rightarrow> (Waits, l\<lparr>waiters := waiter # waiters l\<rparr>))"

definition gr_lock_wake :: "err_t option \<Rightarrow> gr_lock \<Rightarrow> gr_lock_waiter \<Rightarrow> gr_result \<times> gr_lock" where
  "gr_lock_wake cond l waiter =
     gr_lock_enter cond (l\<lparr>waiters := gr_unlink (waiters l) (fst waiter)\<rparr>) waiter"

definition gr_trylock :: "bool \<Rightarrow> gr_lock \<Rightarrow> lock_mode \<Rightarrow> bool \<times> gr_lock" where
  "gr_trylock got_mutex l mode =
     (if \<not> got_mutex then (False, l)
      else if \<not> is_compatible l mode then (False, l)
      else (True, gr_hold l mode))"

definition gr_unlock :: "gr_lock \<Rightarrow> lock_mode \<Rightarrow> bool \<times> nat list \<times> gr_lock" where
  "gr_unlock l mode =
     (if holder_counts l mode > 0 then
        let l = l\<lparr>holder_counts := (holder_counts l)(mode := holder_counts l mode - 1)\<rparr>;
            any_holders = list_ex (\<lambda>i. holder_counts l i > 0) lock_modes;
            is_last = (\<not> any_holders \<and> waiters l = [])
        in (is_last, wake_waiters l, l)
      else (False, [], l))"

definition gr_lock_mode_name :: "nat \<Rightarrow> string" where
  "gr_lock_mode_name mode =
     (if mode < 5 then [''IS'', ''IX'', ''S'', ''SIX'', ''X''] ! mode else ''INVALID'')"

section \<open>Threads\<close>

record gr_sys =
  gs_lock :: gr_lock
  gs_held :: "gr_lock_waiter multiset"
  gs_signalled :: "nat set"

definition gr_granted :: "gr_result \<Rightarrow> gr_lock_waiter \<Rightarrow> gr_lock_waiter multiset \<Rightarrow> gr_lock_waiter multiset" where
  "gr_granted r w H = (if r = Granted then add_mset w H else H)"

inductive gr_step :: "gr_sys \<Rightarrow> gr_sys \<Rightarrow> bool" where
  lock: "\<lbrakk>fst w \<notin> fst ` set (waiters (gs_lock s)); gr_lock_enter cond (gs_lock s) w = (r, l)\<rbrakk> \<Longrightarrow>
    gr_step s (s\<lparr>gs_lock := l, gs_held := gr_granted r w (gs_held s), gs_signalled := gs_signalled s - {fst w}\<rparr>)"
| wake: "\<lbrakk>w \<in> set (waiters (gs_lock s)); gr_lock_wake cond (gs_lock s) w = (r, l)\<rbrakk> \<Longrightarrow>
    gr_step s (s\<lparr>gs_lock := l, gs_held := gr_granted r w (gs_held s), gs_signalled := gs_signalled s - {fst w}\<rparr>)"
| trylock: "gr_trylock got (gs_lock s) m = (b, l) \<Longrightarrow>
    gr_step s (s\<lparr>gs_lock := l, gs_held := (if b then add_mset (w, m) (gs_held s) else gs_held s)\<rparr>)"
| unlock: "\<lbrakk>(w, m) \<in># gs_held s; gr_unlock (gs_lock s) m = (is_last, woken, l)\<rbrakk> \<Longrightarrow>
    gr_step s (s\<lparr>gs_lock := l, gs_held := gs_held s - {#(w, m)#}, gs_signalled := gs_signalled s \<union> set woken\<rparr>)"

definition gr_start :: gr_sys where
  "gr_start = \<lparr>gs_lock = \<lparr>holder_counts = (\<lambda>_. 0), waiters = []\<rparr>, gs_held = {#}, gs_signalled = {}\<rparr>"

inductive gr_reachable :: "gr_sys \<Rightarrow> bool" where
  start: "gr_reachable gr_start"
| step: "gr_reachable s \<Longrightarrow> gr_step s s' \<Longrightarrow> gr_reachable s'"

section \<open>The invariant\<close>

definition gr_count :: "gr_lock_waiter multiset \<Rightarrow> lock_mode \<Rightarrow> nat" where
  "gr_count H m = size {#x \<in># H. snd x = m#}"

definition gr_inv :: "gr_sys \<Rightarrow> bool" where
  "gr_inv s \<longleftrightarrow> holder_counts (gs_lock s) = gr_count (gs_held s) \<and>
     (\<forall>x \<in># gs_held s. \<forall>y \<in># gs_held s - {#x#}. compatible (snd x) (snd y)) \<and>
     distinct (map fst (waiters (gs_lock s))) \<and>
     (\<forall>w \<in> set (waiters (gs_lock s)). is_compatible (gs_lock s) (snd w) \<longrightarrow> fst w \<in> gs_signalled s)"

lemma compatible_sym: "compatible m n = compatible n m"
  by (cases m; cases n) simp_all

lemma set_lock_modes [simp]: "set lock_modes = UNIV"
  by (auto simp: lock_modes_def) (metis lock_mode.exhaust)

lemma is_compatible_iff: "is_compatible l m \<longleftrightarrow> (\<forall>i. 0 < holder_counts l i \<longrightarrow> compatible m i)"
  unfolding is_compatible_def list_ex_iff set_lock_modes by blast

lemma gr_count_pos: "0 < gr_count H m \<longleftrightarrow> (\<exists>x \<in># H. snd x = m)"
proof -
  have "0 < gr_count H m \<longleftrightarrow> {#x \<in># H. snd x = m#} \<noteq> {#}" unfolding gr_count_def by (rule nonempty_has_size [symmetric])
  also have "\<dots> \<longleftrightarrow> (\<exists>x. x \<in># {#x \<in># H. snd x = m#})" by (metis multiset_nonemptyE empty_not_add_mset multi_member_split)
  also have "\<dots> \<longleftrightarrow> (\<exists>x \<in># H. snd x = m)" by (simp add: Bex_def)
  finally show ?thesis .
qed

lemma gr_count_add: "gr_count (add_mset (w, m) H) = (gr_count H)(m := gr_count H m + 1)"
  by (auto simp: gr_count_def fun_eq_iff)

lemma gr_count_remove:
  "(w, m) \<in># H \<Longrightarrow> gr_count (H - {#(w, m)#}) = (gr_count H)(m := gr_count H m - 1)"
  by (auto simp: gr_count_def fun_eq_iff size_Diff_singleton)

lemma is_compatible_held:
  "holder_counts l = gr_count H \<Longrightarrow> is_compatible l m \<longleftrightarrow> (\<forall>x \<in># H. compatible m (snd x))"
  by (auto simp: is_compatible_iff gr_count_pos)

lemma gr_unlink_filter:
  "distinct (map fst xs) \<Longrightarrow> gr_unlink xs w = filter (\<lambda>x. fst x \<noteq> w) xs"
proof (induction xs)
  case (Cons x xs)
  show ?case
  proof (cases "fst x = w")
    case True
    with Cons.prems have "w \<notin> fst ` set xs" by simp
    then have "\<forall>y \<in> set xs. fst y \<noteq> w" by (metis imageI)
    with True show ?thesis by (simp add: filter_id_conv [THEN iffD2])
  qed (use Cons in simp)
qed simp

text \<open>Holding a mode more makes no waiter compatible that was not.\<close>

lemma is_compatible_hold: "is_compatible (gr_hold l m) n \<Longrightarrow> is_compatible l n"
  by (auto simp: is_compatible_iff gr_hold_def)

lemma is_compatible_waiters [simp]: "is_compatible (l\<lparr>waiters := ws\<rparr>) m = is_compatible l m"
  by (simp add: is_compatible_iff)

lemma gr_inv_hold:
  assumes inv: "gr_inv s" and c: "is_compatible (gs_lock s) m" 
    and ws: "set ws \<subseteq> set (waiters (gs_lock s))" "distinct (map fst ws)"
    and sig: "\<And>x. x \<in> set ws \<Longrightarrow> fst x \<in> gs_signalled s \<Longrightarrow> fst x \<in> S"
  shows "gr_inv (s\<lparr>gs_lock := gr_hold (gs_lock s\<lparr>waiters := ws\<rparr>) m, gs_held := add_mset (w, m) (gs_held s), gs_signalled := S\<rparr>)"
proof -
  let ?l = "gr_hold (gs_lock s\<lparr>waiters := ws\<rparr>) m" and ?H = "add_mset (w, m) (gs_held s)"
  have h: "holder_counts (gs_lock s) = gr_count (gs_held s)"
    and pair: "\<And>x y. x \<in># gs_held s \<Longrightarrow> y \<in># gs_held s - {#x#} \<Longrightarrow> compatible (snd x) (snd y)"
    and wait: "\<And>x. x \<in> set (waiters (gs_lock s)) \<Longrightarrow> is_compatible (gs_lock s) (snd x) \<Longrightarrow> fst x \<in> gs_signalled s"
    using inv by (auto simp: gr_inv_def)
  have cm: "compatible m (snd x)" if "x \<in># gs_held s" for x
    using c that by (simp add: is_compatible_held [OF h])
  have "compatible (snd x) (snd y)" if x: "x \<in># ?H" and y: "y \<in># ?H - {#x#}" for x y
  proof (cases "x = (w, m)")
    case True
    with y cm show ?thesis by simp
  next
    case False
    with x have x': "x \<in># gs_held s" by simp
    with y False have "y = (w, m) \<or> y \<in># gs_held s - {#x#}" by (auto simp: diff_add_mset_swap)
    then show ?thesis
    proof
      assume "y = (w, m)"
      with cm [OF x'] show ?thesis by (simp add: compatible_sym [of "snd x"])
    qed (rule pair [OF x'])
  qed
  moreover have "holder_counts ?l = gr_count ?H" by (simp add: gr_hold_def gr_count_add h)
  moreover have "fst x \<in> S" if "x \<in> set ws" "is_compatible ?l (snd x)" for x
  proof -
    have "is_compatible (gs_lock s) (snd x)" using is_compatible_hold [OF that(2)] by simp
    with wait that(1) ws(1) have "fst x \<in> gs_signalled s" by blast
    with sig that(1) show ?thesis .
  qed
  moreover have "waiters ?l = ws" by (simp add: gr_hold_def)
  ultimately show ?thesis using ws(2) by (simp add: gr_inv_def)
qed

lemma gr_inv_wait:
  assumes inv: "gr_inv s" and c: "\<not> is_compatible (gs_lock s) (snd w)" 
    and ws: "set ws \<subseteq> set (waiters (gs_lock s))" "distinct (map fst ws)" "fst w \<notin> fst ` set ws"
    and l: "l = gs_lock s\<lparr>waiters := ws\<rparr> \<or> l = gs_lock s\<lparr>waiters := w # ws\<rparr>"
  shows "gr_inv (s\<lparr>gs_lock := l, gs_held := gs_held s, gs_signalled := gs_signalled s - {fst w}\<rparr>)"
proof -
  have h: "holder_counts (gs_lock s) = gr_count (gs_held s)"
    and pair: "\<forall>x \<in># gs_held s. \<forall>y \<in># gs_held s - {#x#}. compatible (snd x) (snd y)"
    and wait: "\<And>x. x \<in> set (waiters (gs_lock s)) \<Longrightarrow> is_compatible (gs_lock s) (snd x) \<Longrightarrow> fst x \<in> gs_signalled s"
    using inv by (auto simp: gr_inv_def)
  have sig: "fst x \<in> gs_signalled s - {fst w}" if "x \<in> set ws" "is_compatible (gs_lock s) (snd x)" for x
    using wait ws(1,3) that by (metis Diff_iff imageI singletonD subsetD)
  from l show ?thesis
  proof
    assume "l = gs_lock s\<lparr>waiters := ws\<rparr>"
    with h pair ws(2) sig show ?thesis by (simp add: gr_inv_def)
  next
    assume "l = gs_lock s\<lparr>waiters := w # ws\<rparr>"
    with h pair ws(2,3) sig c show ?thesis by (simp add: gr_inv_def)
  qed
qed

lemma gr_inv_enter:
  assumes inv: "gr_inv s" and ws: "set ws \<subseteq> set (waiters (gs_lock s))" "distinct (map fst ws)" "fst w \<notin> fst ` set ws"
    and enter: "gr_lock_enter cond (gs_lock s\<lparr>waiters := ws\<rparr>) w = (r, l)"
  shows "gr_inv (s\<lparr>gs_lock := l, gs_held := gr_granted r w (gs_held s), gs_signalled := gs_signalled s - {fst w}\<rparr>)"
proof (cases "is_compatible (gs_lock s) (snd w)")
  case True
  with enter have r: "r = Granted" "l = gr_hold (gs_lock s\<lparr>waiters := ws\<rparr>) (snd w)"
    by (simp_all add: gr_lock_enter_def)
  have "fst x \<in> gs_signalled s - {fst w}" if "x \<in> set ws" "fst x \<in> gs_signalled s" for x
    using that ws(3) by (metis Diff_iff imageI singletonD)
  from gr_inv_hold [OF inv True ws(1,2) this, of "fst w"] show ?thesis
    unfolding r gr_granted_def by simp
next
  case False
  with enter have "r \<noteq> Granted" "l = gs_lock s\<lparr>waiters := ws\<rparr> \<or> l = gs_lock s\<lparr>waiters := w # ws\<rparr>"
    by (auto simp: gr_lock_enter_def split: if_splits option.splits)
  with gr_inv_wait [OF inv False ws] show ?thesis by (simp add: gr_granted_def)
qed

lemma gr_unlock_held:
  assumes inv: "gr_inv s" and held: "(w, m) \<in># gs_held s" and u: "gr_unlock (gs_lock s) m = (is_last, woken, l)"
  shows "gr_inv (s\<lparr>gs_lock := l, gs_held := gs_held s - {#(w, m)#}, gs_signalled := gs_signalled s \<union> set woken\<rparr>)"
    "is_last \<longleftrightarrow> gs_held s - {#(w, m)#} = {#} \<and> waiters (gs_lock s) = []"
proof -
  let ?H = "gs_held s - {#(w, m)#}"
  have h: "holder_counts (gs_lock s) = gr_count (gs_held s)" using inv by (simp add: gr_inv_def)
  have pos: "0 < holder_counts (gs_lock s) m" using held by (force simp: h gr_count_pos)
  have l: "holder_counts l = gr_count ?H" "waiters l = waiters (gs_lock s)" "woken = wake_waiters l"
    "is_last \<longleftrightarrow> \<not> (\<exists>i. 0 < holder_counts l i) \<and> waiters l = []"
    using u pos by (auto simp: gr_unlock_def Let_def h gr_count_remove [OF held] list_ex_iff)
  have "compatible (snd x) (snd y)" if x: "x \<in># ?H" and y: "y \<in># ?H - {#x#}" for x y
  proof -
    have "x \<in># gs_held s" using x by (rule in_diffD)
    moreover have "y \<in># gs_held s - {#x#}" using y by (metis diff_right_commute in_diffD)
    ultimately show ?thesis using inv by (simp add: gr_inv_def)
  qed
  then show "gr_inv (s\<lparr>gs_lock := l, gs_held := ?H, gs_signalled := gs_signalled s \<union> set woken\<rparr>)"
    using inv l(1-3) by (auto simp: gr_inv_def wake_waiters_def)
  have "(\<exists>i. 0 < holder_counts l i) \<longleftrightarrow> ?H \<noteq> {#}"
    unfolding l(1) gr_count_pos by (metis multiset_nonemptyE all_not_in_conv set_mset_eq_empty_iff)
  with l(2,4) show "is_last \<longleftrightarrow> ?H = {#} \<and> waiters (gs_lock s) = []" by simp
qed

lemma gr_inv_step: "gr_step s s' \<Longrightarrow> gr_inv s \<Longrightarrow> gr_inv s'"
proof (induction rule: gr_step.induct)
  case (lock w s cond r l)
  then show ?case
    using gr_inv_enter [of s "waiters (gs_lock s)" w cond r l] by (simp add: gr_inv_def)
next
  case (wake w s cond r l)
  have d: "distinct (map fst (waiters (gs_lock s)))" using wake.prems by (simp add: gr_inv_def)
  let ?ws = "filter (\<lambda>x. fst x \<noteq> fst w) (waiters (gs_lock s))"
  from wake(2) have "gr_lock_enter cond (gs_lock s\<lparr>waiters := ?ws\<rparr>) w = (r, l)"
    by (simp add: gr_lock_wake_def gr_unlink_filter [OF d])
  with wake.prems show ?case by (intro gr_inv_enter [of s ?ws]) (auto simp: d distinct_map_filter)
next
  case (trylock got s m b l w)
  have d: "distinct (map fst (waiters (gs_lock s)))" using trylock.prems by (simp add: gr_inv_def)
  from trylock(1) have "b \<and> is_compatible (gs_lock s) m \<and> l = gr_hold (gs_lock s) m \<or> \<not> b \<and> l = gs_lock s"
    by (auto simp: gr_trylock_def split: if_splits)
  with gr_inv_hold [OF trylock.prems, of m "waiters (gs_lock s)" "gs_signalled s" w] d trylock.prems show ?case
    by auto
next
  case (unlock w m s is_last woken l)
  then show ?case by (intro gr_unlock_held(1))
qed

lemma gr_inv_start: "gr_inv gr_start"
  by (simp add: gr_inv_def gr_start_def gr_count_def fun_eq_iff)

lemma gr_inv_reachable: "gr_reachable s \<Longrightarrow> gr_inv s"
  by (induction rule: gr_reachable.induct) (blast intro: gr_inv_start gr_inv_step)+

inductive_cases gr_stepE: "gr_step s s'"

section \<open>Properties\<close>

text \<open>C25: Whatever the interleaving of locking, waking up, trying and unlocking, in every reachable state the count of
  each mode is the number of threads that hold the lock in it, however many there are, and no two threads hold modes that
  are not compatible.\<close>

theorem gr_lock_exclusion:
  assumes "gr_reachable s"
  shows "(\<forall>m. holder_counts (gs_lock s) m = size {#z \<in># gs_held s. snd z = m#}) \<and>
    (\<forall>x \<in># gs_held s. \<forall>y \<in># gs_held s - {#x#}. compatible (snd x) (snd y))"
  using gr_inv_reachable [OF assms] by (simp add: gr_inv_def gr_count_def)

lemma gr_two_readers:
  "gr_reachable \<lparr>gs_lock = \<lparr>holder_counts = (\<lambda>_. 0)(LM_S := 2), waiters = []\<rparr>,
     gs_held = {#(2, LM_S), (1, LM_S)#}, gs_signalled = {}\<rparr>"
proof -
  let ?s1 = "\<lparr>gs_lock = \<lparr>holder_counts = (\<lambda>_. 0)(LM_S := 1), waiters = []\<rparr>, gs_held = {#(1, LM_S)#}, gs_signalled = {}\<rparr>"
  have "gr_lock_enter None (gs_lock gr_start) (1, LM_S) = (Granted, gs_lock ?s1)"
    by (simp add: gr_lock_enter_def gr_start_def is_compatible_def lock_modes_def gr_hold_def)
  then have "gr_step gr_start ?s1"
    using gr_step.lock [of "(1, LM_S)" gr_start None Granted "gs_lock ?s1"]
    by (simp add: gr_start_def gr_granted_def)
  then have r: "gr_reachable ?s1" by (rule gr_reachable.step [OF gr_reachable.start])
  let ?l2 = "\<lparr>holder_counts = (\<lambda>_. 0)(LM_S := 2), waiters = []\<rparr>"
  have "gr_trylock True (gs_lock ?s1) LM_S = (True, ?l2)"
    by (simp add: gr_trylock_def is_compatible_def lock_modes_def gr_hold_def numeral_2_eq_2)
  from gr_reachable.step [OF r gr_step.trylock [OF this, of 2]] show ?thesis by simp
qed

theorem gr_lock_exclusion_witness:
  "\<exists>s. gr_reachable s \<and> holder_counts (gs_lock s) LM_S = 2 \<and> holder_counts (gs_lock s) LM_X = 0 \<and> size (gs_held s) = 2"
proof -
  let ?s = "\<lparr>gs_lock = \<lparr>holder_counts = (\<lambda>_. 0)(LM_S := 2), waiters = []\<rparr>,
     gs_held = {#(2, LM_S), (1, LM_S)#}, gs_signalled = {}\<rparr>"
  from gr_lock_exclusion [OF gr_two_readers] have "holder_counts (gs_lock ?s) LM_S = size {#z \<in># gs_held ?s. snd z = LM_S#}"
    "holder_counts (gs_lock ?s) LM_X = size {#z \<in># gs_held ?s. snd z = LM_X#}" by blast+
  with gr_two_readers show ?thesis by (intro exI [of _ ?s]) simp
qed

text \<open>C26: No wake-up is lost: a waiter whose mode is compatible with all that is held has been signalled, so when no
  thread holds the lock every waiter has been. And when such a waiter runs it is granted the lock, without having to
  create another condition variable: its own run from the wait takes it off the queue, counts its mode once more, leaves
  the other waiters where they are, and returns.\<close>

theorem gr_lock_no_lost_wakeup:
  assumes "gr_reachable s" and "(w, m) \<in> set (waiters (gs_lock s))"
    and "\<forall>x \<in># gs_held s. compatible m (snd x)"
  shows "w \<in> gs_signalled s \<and>
    (\<exists>l. (\<forall>cond. gr_lock_wake cond (gs_lock s) (w, m) = (Granted, l)) \<and>
       waiters l = filter (\<lambda>x. fst x \<noteq> w) (waiters (gs_lock s)) \<and>
       holder_counts l = (holder_counts (gs_lock s))(m := holder_counts (gs_lock s) m + 1) \<and>
       gr_step s (s\<lparr>gs_lock := l, gs_held := add_mset (w, m) (gs_held s), gs_signalled := gs_signalled s - {w}\<rparr>))"
proof -
  have inv: "gr_inv s" by (rule gr_inv_reachable [OF assms(1)])
  then have h: "holder_counts (gs_lock s) = gr_count (gs_held s)" and d: "distinct (map fst (waiters (gs_lock s)))"
    by (simp_all add: gr_inv_def)
  from assms(3) have c: "is_compatible (gs_lock s) m" by (simp add: is_compatible_held [OF h])
  let ?l = "gr_hold (gs_lock s\<lparr>waiters := gr_unlink (waiters (gs_lock s)) w\<rparr>) m"
  have run: "gr_lock_wake cond (gs_lock s) (w, m) = (Granted, ?l)" for cond
    using c by (simp add: gr_lock_wake_def gr_lock_enter_def)
  from gr_step.wake [OF assms(2) run] have
    "gr_step s (s\<lparr>gs_lock := ?l, gs_held := add_mset (w, m) (gs_held s), gs_signalled := gs_signalled s - {w}\<rparr>)"
    by (simp add: gr_granted_def)
  moreover have "waiters ?l = filter (\<lambda>x. fst x \<noteq> w) (waiters (gs_lock s))"
    by (simp add: gr_hold_def gr_unlink_filter [OF d])
  moreover have "holder_counts ?l = (holder_counts (gs_lock s))(m := holder_counts (gs_lock s) m + 1)"
    by (simp add: gr_hold_def)
  moreover have "w \<in> gs_signalled s" using inv assms(2) c unfolding gr_inv_def by force
  ultimately show ?thesis using run by blast
qed

lemma gr_woken_waiter:
  "gr_reachable \<lparr>gs_lock = \<lparr>holder_counts = (\<lambda>_. 0), waiters = [(2, LM_X)]\<rparr>, gs_held = {#}, gs_signalled = {2}\<rparr>"
proof -
  let ?s1 = "\<lparr>gs_lock = \<lparr>holder_counts = (\<lambda>_. 0)(LM_S := 1), waiters = []\<rparr>, gs_held = {#(1, LM_S)#}, gs_signalled = {}\<rparr>"
  have "gr_trylock True (gs_lock gr_start) LM_S = (True, gs_lock ?s1)"
    by (simp add: gr_trylock_def gr_start_def is_compatible_def lock_modes_def gr_hold_def)
  from gr_reachable.step [OF gr_reachable.start gr_step.trylock [OF this, of 1]]
  have r: "gr_reachable ?s1" by (simp add: gr_start_def)
  let ?s2 = "\<lparr>gs_lock = \<lparr>holder_counts = (\<lambda>_. 0)(LM_S := 1), waiters = [(2, LM_X)]\<rparr>, gs_held = {#(1, LM_S)#}, gs_signalled = {}\<rparr>"
  have "gr_lock_enter None (gs_lock ?s1) (2, LM_X) = (Waits, gs_lock ?s2)"
    by (simp add: gr_lock_enter_def is_compatible_def lock_modes_def)
  then have "gr_step ?s1 ?s2"
    using gr_step.lock [of "(2, LM_X)" ?s1 None Waits "gs_lock ?s2"] by (simp add: gr_granted_def)
  with r have r: "gr_reachable ?s2" by (rule gr_reachable.step)
  let ?l3 = "\<lparr>holder_counts = (\<lambda>_. 0), waiters = [(2, LM_X)]\<rparr>"
  have "gr_unlock (gs_lock ?s2) LM_S = (False, [2], ?l3)"
    by (simp add: gr_unlock_def wake_waiters_def is_compatible_def lock_modes_def fun_eq_iff)
  from gr_reachable.step [OF r gr_step.unlock [OF _ this, of 1]] show ?thesis by simp
qed

theorem gr_lock_no_lost_wakeup_witness:
  "\<exists>s l. gr_reachable s \<and> 2 \<in> gs_signalled s \<and> gr_lock_wake None (gs_lock s) (2, LM_X) = (Granted, l) \<and>
     waiters l = [] \<and> holder_counts l = (\<lambda>_. 0)(LM_X := 1)"
proof -
  let ?s = "\<lparr>gs_lock = \<lparr>holder_counts = (\<lambda>_. 0), waiters = [(2, LM_X)]\<rparr>, gs_held = {#}, gs_signalled = {2}\<rparr>"
  have "(2, LM_X) \<in> set (waiters (gs_lock ?s))" "\<forall>x \<in># gs_held ?s. compatible LM_X (snd x)" by simp_all
  from gr_lock_no_lost_wakeup [OF gr_woken_waiter this] obtain l where
    "gr_lock_wake None (gs_lock ?s) (2, LM_X) = (Granted, l)"
    "waiters l = filter (\<lambda>x. fst x \<noteq> 2) (waiters (gs_lock ?s))"
    "holder_counts l = (holder_counts (gs_lock ?s))(LM_X := holder_counts (gs_lock ?s) LM_X + 1)" by blast
  with gr_woken_waiter show ?thesis by (intro exI [of _ ?s] exI [of _ l]) simp
qed

end
