(* ===== verification/Page_Base.thy ===== *)
theory Page_Base
  imports NS_Prelude
begin

text \<open>
  \<^verbatim>\<open>libs/nspager/include/numstore/pager/page.h\<close>: the in-memory page, its common header
  (checksum, type, page lsn) and the field access macros every page layout uses.

  A page is its \<^verbatim>\<open>PAGE_SIZE\<close> raw bytes and its number. The C type fixes the length of
  the byte array; here it is the well-formedness predicate \<open>wf_page\<close>, which every setter keeps.
  \<^verbatim>\<open>PAGE_SIMPLE_GET_IMPL\<close> and \<^verbatim>\<open>PAGE_SIMPLE_SET_IMPL\<close> at an offset that is a
  constant of the layout are the total \<open>page_get\<close> and \<open>page_set\<close>: the macro's assertion
  compares two constants there. At a computed offset they are \<open>page_get_at\<close> and
  \<open>page_set_at\<close>, which fail like the macro's assertion.
\<close>

abbreviation PAGE_SIZE :: nat where
  "PAGE_SIZE \<equiv> 2048"

abbreviation PG_CKSM_OFST :: nat where "PG_CKSM_OFST \<equiv> 0"
abbreviation PG_HEDR_OFST :: nat where "PG_HEDR_OFST \<equiv> 4"
abbreviation PG_PLSN_OFST :: nat where "PG_PLSN_OFST \<equiv> 5"
abbreviation PG_COMMN_END :: nat where "PG_COMMN_END \<equiv> 13"

datatype page_type =
    PG_TOMBSTONE | PG_ROOT_NODE | PG_DATA_LIST | PG_INNER_NODE
  | PG_RPT_ROOT | PG_VAR_HASH_PAGE | PG_VAR_PAGE | PG_VAR_TAIL

text \<open>The values of \<^verbatim>\<open>enum page_type\<close>: one bit each, so that a set of types is a mask.\<close>

fun pt_code :: "page_type \<Rightarrow> u8" where
  "pt_code PG_TOMBSTONE = 1"
| "pt_code PG_ROOT_NODE = 2"
| "pt_code PG_DATA_LIST = 4"
| "pt_code PG_INNER_NODE = 8"
| "pt_code PG_RPT_ROOT = 16"
| "pt_code PG_VAR_HASH_PAGE = 32"
| "pt_code PG_VAR_PAGE = 64"
| "pt_code PG_VAR_TAIL = 128"

definition PG_ANY :: u8 where
  "PG_ANY = pt_code PG_TOMBSTONE OR pt_code PG_ROOT_NODE OR pt_code PG_DATA_LIST
     OR pt_code PG_INNER_NODE OR pt_code PG_RPT_ROOT OR pt_code PG_VAR_HASH_PAGE
     OR pt_code PG_VAR_PAGE OR pt_code PG_VAR_TAIL"

text \<open>A \<^verbatim>\<open>switch\<close> over a header byte: the case label it reaches, if any.\<close>

definition pt_decode :: "u8 \<Rightarrow> page_type option" where
  "pt_decode h =
     (if h = 1 then Some PG_TOMBSTONE else if h = 2 then Some PG_ROOT_NODE
      else if h = 4 then Some PG_DATA_LIST else if h = 8 then Some PG_INNER_NODE
      else if h = 16 then Some PG_RPT_ROOT else if h = 32 then Some PG_VAR_HASH_PAGE
      else if h = 64 then Some PG_VAR_PAGE else if h = 128 then Some PG_VAR_TAIL
      else None)"

record page =
  raw :: "u8 list"
  pg :: pgno

definition wf_page :: "page \<Rightarrow> bool" where
  "wf_page p \<longleftrightarrow> length (raw p) = PAGE_SIZE"

section \<open>Field access\<close>

definition page_get :: "page \<Rightarrow> nat \<Rightarrow> 'a::len word" where
  "page_get v ofst = ld (raw v) ofst"

definition page_set :: "page \<Rightarrow> nat \<Rightarrow> 'a::len word \<Rightarrow> page" where
  "page_set v ofst val = v\<lparr>raw := st (raw v) ofst val\<rparr>"

definition page_get_at :: "page \<Rightarrow> nat \<Rightarrow> 'a::len word option" where
  "page_get_at v ofst = do { ASSERT (ofst + LENGTH('a) div 8 < PAGE_SIZE); Some (page_get v ofst) }"

definition page_set_at :: "page \<Rightarrow> nat \<Rightarrow> 'a::len word \<Rightarrow> page option" where
  "page_set_at v ofst val =
     do { ASSERT (ofst + LENGTH('a) div 8 < PAGE_SIZE); Some (page_set v ofst val) }"

definition page_get_checksum :: "page \<Rightarrow> u32" where
  "page_get_checksum p = page_get p PG_CKSM_OFST"

definition page_get_type :: "page \<Rightarrow> u8" where
  "page_get_type p = page_get p PG_HEDR_OFST"

definition page_get_page_lsn :: "page \<Rightarrow> lsn" where
  "page_get_page_lsn p = page_get p PG_PLSN_OFST"

definition page_set_checksum :: "page \<Rightarrow> u32 \<Rightarrow> page" where
  "page_set_checksum p checksum = page_set p PG_CKSM_OFST checksum"

definition page_set_type :: "page \<Rightarrow> page_type \<Rightarrow> page" where
  "page_set_type p t = page_set p PG_HEDR_OFST (pt_code t)"

definition page_set_page_lsn :: "page \<Rightarrow> lsn \<Rightarrow> page" where
  "page_set_page_lsn p page_lsn = page_set p PG_PLSN_OFST page_lsn"

definition page_memcpy :: "page \<Rightarrow> u8 list \<Rightarrow> page option" where
  "page_memcpy dest src = do { ASSERT (length src = PAGE_SIZE); Some (dest\<lparr>raw := src\<rparr>) }"

section \<open>Automation\<close>

named_theorems page_defs "the field accessors of the page layouts"

lemmas page_header_defs [page_defs] =
  page_get_checksum_def page_get_type_def page_get_page_lsn_def
  page_set_checksum_def page_set_type_def page_set_page_lsn_def

lemma wf_page_set [simp]:
  "wf_page p \<Longrightarrow> ofst + LENGTH('a) div 8 \<le> PAGE_SIZE \<Longrightarrow> wf_page (page_set p ofst (v :: 'a::len word))"
  by (simp add: wf_page_def page_set_def)

lemma pg_page_set [simp]: "pg (page_set p ofst v) = pg p"
  by (simp add: page_set_def)

lemma page_get_set_same [simp]:
  "wf_page p \<Longrightarrow> LENGTH('a) = 8 * (LENGTH('a) div 8) \<Longrightarrow> ofst + LENGTH('a) div 8 \<le> PAGE_SIZE \<Longrightarrow>
   page_get (page_set p ofst (v :: 'a::len word)) ofst = v"
  by (simp add: wf_page_def page_set_def page_get_def ld_st_same)

lemma page_get_set_other [simp]:
  "wf_page p \<Longrightarrow> o1 + LENGTH('b) div 8 \<le> ofst \<or> ofst + LENGTH('a) div 8 \<le> o1 \<Longrightarrow>
   ofst + LENGTH('a) div 8 \<le> PAGE_SIZE \<Longrightarrow>
   (page_get (page_set p ofst (v :: 'a::len word)) o1 :: 'b::len word) = page_get p o1"
  by (simp add: wf_page_def page_set_def page_get_def ld_st_other)

lemma slice_page_set_other [simp]:
  "wf_page p \<Longrightarrow> o1 + n \<le> ofst \<or> ofst + LENGTH('a) div 8 \<le> o1 \<Longrightarrow>
   ofst + LENGTH('a) div 8 \<le> PAGE_SIZE \<Longrightarrow>
   slice (raw (page_set p ofst (v :: 'a::len word))) o1 n = slice (raw p) o1 n"
  by (simp add: wf_page_def page_set_def slice_st_other)

lemma pt_decode_code [simp]: "pt_decode (pt_code t) = Some t"
  by (cases t) (simp_all add: pt_decode_def)

lemma pt_code_inject [simp]: "pt_code s = pt_code t \<longleftrightarrow> s = t"
  by (metis option.inject pt_decode_code)

lemma pt_decode_Some_iff: "pt_decode h = Some t \<longleftrightarrow> h = pt_code t"
proof
  assume "pt_decode h = Some t"
  then show "h = pt_code t" by (auto simp: pt_decode_def split: if_splits)
qed simp

lemma pt_code_disjoint: "pt_code s AND pt_code t = 0 \<longleftrightarrow> s \<noteq> t"
  by (cases s; cases t) simp_all

lemma PG_ANY_eq: "PG_ANY = - 1"
  by (simp add: PG_ANY_def)

section \<open>Blocks of a page\<close>

definition page_copy :: "page \<Rightarrow> nat \<Rightarrow> u8 list \<Rightarrow> page option" where
  \<comment> \<open>a block copy into the page's bytes; it fails when it would leave the page\<close>
  "page_copy p ofst src = do { bs \<leftarrow> mem_write (raw p) ofst src; Some (p\<lparr>raw := bs\<rparr>) }"

lemma page_copy_Some [simp]:
  "wf_page p \<Longrightarrow> ofst + length src \<le> PAGE_SIZE \<Longrightarrow>
   page_copy p ofst src = Some (p\<lparr>raw := splice (raw p) ofst src\<rparr>)"
  by (simp add: page_copy_def wf_page_def mem_write_def)

lemma wf_page_splice [simp]:
  "wf_page p \<Longrightarrow> ofst + length src \<le> PAGE_SIZE \<Longrightarrow> wf_page (p\<lparr>raw := splice (raw p) ofst src\<rparr>)"
  by (simp add: wf_page_def)

lemma page_get_splice_other [simp]:
  "wf_page p \<Longrightarrow> o1 + LENGTH('b) div 8 \<le> ofst \<or> ofst + length src \<le> o1 \<Longrightarrow>
   ofst + length src \<le> PAGE_SIZE \<Longrightarrow>
   (page_get (p\<lparr>raw := splice (raw p) ofst src\<rparr>) o1 :: 'b::len word) = page_get p o1"
  by (simp add: wf_page_def page_get_def ld_splice_other)


section \<open>Linked pages\<close>

text \<open>Data lists and inner nodes keep their next and previous page numbers at the same place,
  right behind the common header. \<open>same_links\<close> says that an operation leaves the page's
  number, the common header and the links alone.\<close>

abbreviation PG_LINKS_END :: nat where "PG_LINKS_END \<equiv> 29"

definition same_links :: "page \<Rightarrow> page \<Rightarrow> bool" where
  "same_links d d' \<longleftrightarrow> pg d' = pg d \<and> take PG_LINKS_END (raw d') = take PG_LINKS_END (raw d)"

lemma same_links_refl [simp]: "same_links d d"
  by (simp add: same_links_def)

lemma same_links_trans: "same_links a b \<Longrightarrow> same_links b c \<Longrightarrow> same_links a c"
  by (simp add: same_links_def)

lemma same_links_page_set [simp]:
  assumes "wf_page d" and "ofst + LENGTH('a) div 8 \<le> PAGE_SIZE" and "PG_LINKS_END \<le> ofst"
  shows "same_links d (page_set d ofst (w :: 'a::len word))"
proof -
  have "slice (raw (page_set d ofst w)) 0 PG_LINKS_END = slice (raw d) 0 PG_LINKS_END"
    using assms by simp
  then show ?thesis by (simp add: slice_def same_links_def)
qed

lemma same_links_get:
  assumes "same_links d d'" and "ofst + LENGTH('a) div 8 \<le> PG_LINKS_END"
  shows "(page_get d' ofst :: 'a::len word) = page_get d ofst"
proof -
  have *: "slice (raw e) ofst (LENGTH('a) div 8) = slice (take PG_LINKS_END (raw e)) ofst (LENGTH('a) div 8)" for e
    using assms(2) by (simp add: slice_def drop_take min_absorb1)
  from * [of d] * [of d'] assms(1) show ?thesis
    by (simp only: same_links_def page_get_def ld_def)
qed

lemma same_links_pg: "same_links d d' \<Longrightarrow> pg d' = pg d"
  by (simp add: same_links_def)

section \<open>Raw loads and stores\<close>

text \<open>\<^verbatim>\<open>i_memcpy\<close> of one integer from or to the page's bytes, without the macros' assertion.\<close>

definition page_ld :: "page \<Rightarrow> nat \<Rightarrow> 'a::len word option" where
  "page_ld p ofst = (if ofst + LENGTH('a) div 8 \<le> length (raw p) then Some (page_get p ofst) else None)"

definition page_st :: "page \<Rightarrow> nat \<Rightarrow> 'a::len word \<Rightarrow> page option" where
  "page_st p ofst w =
     (if ofst + LENGTH('a) div 8 \<le> length (raw p) then Some (page_set p ofst w) else None)"

lemma page_ld_Some [simp]:
  "wf_page p \<Longrightarrow> ofst + LENGTH('a) div 8 \<le> PAGE_SIZE \<Longrightarrow>
   page_ld p ofst = Some (page_get p ofst :: 'a::len word)"
  by (simp add: page_ld_def wf_page_def)

lemma page_st_Some [simp]:
  "wf_page p \<Longrightarrow> ofst + LENGTH('a) div 8 \<le> PAGE_SIZE \<Longrightarrow>
   page_st p ofst (w :: 'a::len word) = Some (page_set p ofst w)"
  by (simp add: page_st_def wf_page_def)

section \<open>A page of zeros\<close>

definition zero_page :: "pgno \<Rightarrow> page" where
  "zero_page n = \<lparr>raw = replicate PAGE_SIZE 0, pg = n\<rparr>"

lemma le_word_zeros [simp]: "le_word (replicate k 0) = 0"
  by (induction k) simp_all

lemma ld_zeros: "ofst + LENGTH('a) div 8 \<le> n \<Longrightarrow> (ld (replicate n 0) ofst :: 'a::len word) = 0"
  by (simp add: ld_def slice_def min_absorb1)

lemma zero_page_wf [simp]: "wf_page (zero_page n)" "pg (zero_page n) = n"
  by (simp_all add: zero_page_def wf_page_def)

lemma zero_page_get [simp]:
  "ofst + LENGTH('a) div 8 \<le> PAGE_SIZE \<Longrightarrow> (page_get (zero_page n) ofst :: 'a::len word) = 0"
  by (simp add: zero_page_def page_get_def ld_zeros)

text \<open>A zeroed page with the type byte set.\<close>

definition typed_page :: "page_type \<Rightarrow> pgno \<Rightarrow> page" where
  "typed_page t n = page_set_type (zero_page n) t"

lemma typed_page [simp]:
  "wf_page (typed_page t n)" "page_get_type (typed_page t n) = pt_code t" "pg (typed_page t n) = n"
  by (simp_all add: typed_page_def page_header_defs)

lemma typed_page_get [simp]:
  "5 \<le> ofst \<Longrightarrow> ofst + LENGTH('a) div 8 \<le> PAGE_SIZE \<Longrightarrow>
   (page_get (typed_page t n) ofst :: 'a::len word) = 0"
  by (simp add: typed_page_def page_set_type_def)

end
