(* ===== verification/OS_File.thy ===== *)
theory OS_File
  imports NS_Prelude
begin

text \<open>
  \<^verbatim>\<open>libs/nscore/intf/os_posix.c\<close>, the file half: the \<^verbatim>\<open>i_*\<close> wrappers every other component does its
  input and output with.

  The kernel is modelled as far as POSIX promises it for a regular file. A \<open>disk\<close> is the file's
  contents, the part of them that is durable (what the last \<^verbatim>\<open>fsync\<close> covered) and the outcomes of
  the next system calls: a call may complete, transfer fewer bytes than asked for (at least one), or
  fail with an \<^verbatim>\<open>errno\<close>; when no outcome is left every call completes. A theorem about an arbitrary
  \<open>disk\<close> is therefore a theorem about every finite pattern of faults and short transfers. An
  open file is its position; several may share a disk.

  The transfer loops are \<open>partial_function\<close>s; each is shown to return. Counters that the code
  decrements (by adding a system call's \<open>-1\<close>) are 64-bit words, the others natural numbers.
\<close>

section \<open>The kernel\<close>

datatype errno = EINTR | EWOULDBLOCK | EOTHER

datatype sysres = Full | Short nat | Fail errno

record disk =
  d_data :: "u8 list"
  d_durable :: "u8 list"
  d_env :: "sysres list"

record i_file =
  f_pos :: nat

definition sys_next :: "disk \<Rightarrow> sysres \<times> disk" where
  "sys_next d = (case d_env d of [] \<Rightarrow> (Full, d) | r # rs \<Rightarrow> (r, d\<lparr>d_env := rs\<rparr>))"

definition sys_count :: "sysres \<Rightarrow> nat \<Rightarrow> nat" where
  "sys_count r n = (case r of Short k \<Rightarrow> min n (max 1 k) | _ \<Rightarrow> n)"

text \<open>Writing at an offset: a gap behind the end of the file reads as zeros.\<close>

definition file_put :: "u8 list \<Rightarrow> nat \<Rightarrow> u8 list \<Rightarrow> u8 list" where
  "file_put data ofst src =
     (if src = [] then data
      else take ofst data @ replicate (ofst - length data) 0 @ src @ drop (ofst + length src) data)"

definition file_resize :: "u8 list \<Rightarrow> nat \<Rightarrow> u8 list" where
  "file_resize data n = take n data @ replicate (n - length data) 0"

definition sys_pread :: "disk \<Rightarrow> nat \<Rightarrow> nat \<Rightarrow> (errno + u8 list) \<times> disk" where
  "sys_pread d n ofst =
     (case sys_next d of
        (Fail e, d') \<Rightarrow> (Inl e, d')
      | (r, d') \<Rightarrow> (Inr (slice (d_data d) ofst (sys_count r n)), d'))"

definition sys_pwrite :: "disk \<Rightarrow> u8 list \<Rightarrow> nat \<Rightarrow> (errno + nat) \<times> disk" where
  "sys_pwrite d src ofst =
     (case sys_next d of
        (Fail e, d') \<Rightarrow> (Inl e, d')
      | (r, d') \<Rightarrow> let k = sys_count r (length src)
                   in (Inr k, d'\<lparr>d_data := file_put (d_data d) ofst (take k src)\<rparr>))"

text \<open>The calls at the file's own position, \<^verbatim>\<open>read\<close> and \<^verbatim>\<open>write\<close> (\<^verbatim>\<open>writev\<close> writes its regions one
  after the other, \<^verbatim>\<open>readv\<close> fills them one after the other).\<close>

definition sys_read :: "i_file \<Rightarrow> disk \<Rightarrow> nat \<Rightarrow> (errno + u8 list) \<times> i_file \<times> disk" where
  "sys_read fp d n =
     (case sys_pread d n (f_pos fp) of
        (Inl e, d') \<Rightarrow> (Inl e, fp, d')
      | (Inr chunk, d') \<Rightarrow> (Inr chunk, fp\<lparr>f_pos := f_pos fp + length chunk\<rparr>, d'))"

definition sys_write :: "i_file \<Rightarrow> disk \<Rightarrow> u8 list \<Rightarrow> (errno + nat) \<times> i_file \<times> disk" where
  "sys_write fp d src =
     (case sys_pwrite d src (f_pos fp) of
        (Inl e, d') \<Rightarrow> (Inl e, fp, d')
      | (Inr k, d') \<Rightarrow> (Inr k, fp\<lparr>f_pos := f_pos fp + k\<rparr>, d'))"

text \<open>A call that only succeeds or fails.\<close>

definition sys_call :: "(disk \<Rightarrow> disk) \<Rightarrow> disk \<Rightarrow> (errno + unit) \<times> disk" where
  "sys_call eff d =
     (case sys_next d of
        (Fail e, d') \<Rightarrow> (Inl e, d')
      | (_, d') \<Rightarrow> (Inr (), eff d'))"

section \<open>Opening, closing, syncing\<close>

text \<open>All three \<^verbatim>\<open>i_open_*\<close> pass \<^verbatim>\<open>O_CREAT\<close> and start at position 0.\<close>

definition i_open :: "disk \<Rightarrow> i_file res \<times> disk" where
  "i_open d =
     (case sys_call id d of
        (Inl _, d') \<Rightarrow> (Inl ERR_IO, d')
      | (Inr _, d') \<Rightarrow> (Inr \<lparr>f_pos = 0\<rparr>, d'))"

definition i_close :: "disk \<Rightarrow> unit res \<times> disk" where
  "i_close d =
     (case sys_call id d of (Inl _, d') \<Rightarrow> (Inl ERR_IO, d') | (Inr _, d') \<Rightarrow> (Inr (), d'))"

definition i_fsync :: "disk \<Rightarrow> unit res \<times> disk" where
  "i_fsync d =
     (case sys_call (\<lambda>d. d\<lparr>d_durable := d_data d\<rparr>) d of
        (Inl _, d') \<Rightarrow> (Inl ERR_IO, d')
      | (Inr _, d') \<Rightarrow> (Inr (), d'))"

definition i_truncate :: "disk \<Rightarrow> u64 \<Rightarrow> unit res \<times> disk" where
  "i_truncate d bytes =
     (case sys_call (\<lambda>d. d\<lparr>d_data := file_resize (d_data d) (unat bytes)\<rparr>) d of
        (Inl _, d') \<Rightarrow> (Inl ERR_IO, d')
      | (Inr _, d') \<Rightarrow> (Inr (), d'))"

definition i_file_size :: "disk \<Rightarrow> nat res \<times> disk" where
  "i_file_size d =
     (case sys_call id d of
        (Inl _, d') \<Rightarrow> (Inl ERR_IO, d')
      | (Inr _, d') \<Rightarrow> (Inr (length (d_data d)), d'))"

text \<open>A removed file is an empty one here: the next \<^verbatim>\<open>i_open_*\<close> would create it.\<close>

definition i_remove_quiet :: "disk \<Rightarrow> unit res \<times> disk" where
  "i_remove_quiet d =
     (case sys_call (\<lambda>d. d\<lparr>d_data := []\<rparr>) d of
        (Inl _, d') \<Rightarrow> (Inl ERR_IO, d')
      | (Inr _, d') \<Rightarrow> (Inr (), d'))"

datatype seek_t = I_SEEK_SET | I_SEEK_CUR | I_SEEK_END

definition i_seek :: "i_file \<Rightarrow> disk \<Rightarrow> u64 \<Rightarrow> seek_t \<Rightarrow> nat res \<times> i_file \<times> disk" where
  "i_seek fp d offset whence =
     (let base = (case whence of
                    I_SEEK_SET \<Rightarrow> 0 | I_SEEK_CUR \<Rightarrow> f_pos fp | I_SEEK_END \<Rightarrow> length (d_data d));
          target = int base + sint offset
      in case sys_call id d of
           (Inl _, d') \<Rightarrow> (Inl ERR_IO, fp, d')
         | (Inr _, d') \<Rightarrow>
             if target < 0 then (Inl ERR_IO, fp, d')
             else (Inr (nat target), \<lparr>f_pos = nat target\<rparr>, d'))"

section \<open>Positional transfers\<close>

partial_function (option) pread_loop ::
  "disk \<Rightarrow> u8 list \<Rightarrow> u64 \<Rightarrow> u64 \<Rightarrow> u64 \<Rightarrow> (u64 res \<times> u8 list \<times> disk) option" where
  \<comment> \<open>the buffer as it is afterwards, after an error too\<close>
  "pread_loop d dest n offset nread =
     (if nread < n then
        (case sys_pread d (unat (n - nread)) (unat (offset + nread)) of
           (Inr chunk, d') \<Rightarrow>
             (if chunk = [] then Some (Inr nread, dest, d')
              else do {
                dest \<leftarrow> mem_write dest (unat nread) chunk;
                pread_loop d' dest n offset (nread + of_nat (length chunk)) })
         | (Inl e, d') \<Rightarrow>
             (if e \<noteq> EINTR then Some (Inl ERR_IO, dest, d')
              else pread_loop d' dest n offset (nread - 1)))
      else do { ASSERT (nread = n); Some (Inr nread, dest, d) })"

definition i_pread_all :: "disk \<Rightarrow> u8 list \<Rightarrow> u64 \<Rightarrow> u64 \<Rightarrow> (u64 res \<times> u8 list \<times> disk) option" where
  "i_pread_all d dest n offset = do { ASSERT (n > 0); pread_loop d dest n offset 0 }"

definition i_pread_all_expect :: "disk \<Rightarrow> u8 list \<Rightarrow> u64 \<Rightarrow> u64 \<Rightarrow> (unit res \<times> u8 list \<times> disk) option" where
  "i_pread_all_expect d dest n offset = do {
     (ret, dest, d) \<leftarrow> i_pread_all d dest n offset;
     Some (case ret of
             Inl e \<Rightarrow> (Inl e, dest, d)
           | Inr nread \<Rightarrow> if nread \<noteq> n then (Inl ERR_CORRUPT, dest, d) else (Inr (), dest, d)) }"

partial_function (option) pwrite_loop ::
  "disk \<Rightarrow> u8 list \<Rightarrow> u64 \<Rightarrow> u64 \<Rightarrow> u64 \<Rightarrow> (unit res \<times> disk) option" where
  "pwrite_loop d src n offset nwrite =
     (if nwrite < n then do {
        chunk \<leftarrow> mem_read src (unat nwrite) (unat (n - nwrite));
        (case sys_pwrite d chunk (unat (offset + nwrite)) of
           (Inr k, d') \<Rightarrow> pwrite_loop d' src n offset (nwrite + of_nat k)
         | (Inl e, d') \<Rightarrow>
             (if e \<noteq> EINTR then Some (Inl ERR_IO, d')
              else pwrite_loop d' src n offset (nwrite - 1))) }
      else do { ASSERT (nwrite = n); Some (Inr (), d) })"

definition i_pwrite_all :: "disk \<Rightarrow> u8 list \<Rightarrow> u64 \<Rightarrow> u64 \<Rightarrow> (unit res \<times> disk) option" where
  "i_pwrite_all d src n offset = do { ASSERT (n > 0); pwrite_loop d src n offset 0 }"

section \<open>Transfers at the file's position\<close>

partial_function (option) read_loop ::
  "i_file \<Rightarrow> disk \<Rightarrow> u8 list \<Rightarrow> nat \<Rightarrow> nat \<Rightarrow> ((nat \<times> u8 list) res \<times> i_file \<times> disk) option" where
  "read_loop fp d dest nbytes nread =
     (if nread < nbytes then
        (case sys_read fp d (nbytes - nread) of
           (Inr chunk, fp', d') \<Rightarrow>
             (if chunk = [] then Some (Inr (nread, dest), fp', d')
              else do {
                dest \<leftarrow> mem_write dest nread chunk;
                read_loop fp' d' dest nbytes (nread + length chunk) })
         | (Inl e, fp', d') \<Rightarrow>
             Some (if e = EINTR \<or> e = EWOULDBLOCK then (Inr (0, dest), fp', d')
                   else (Inl ERR_IO, fp', d')))
      else Some (Inr (nread, dest), fp, d))"

definition i_read_all :: "i_file \<Rightarrow> disk \<Rightarrow> u8 list \<Rightarrow> nat \<Rightarrow> ((nat \<times> u8 list) res \<times> i_file \<times> disk) option" where
  "i_read_all fp d dest nbytes = do { ASSERT (nbytes > 0); read_loop fp d dest nbytes 0 }"

partial_function (option) write_loop ::
  "i_file \<Rightarrow> disk \<Rightarrow> u8 list \<Rightarrow> u64 \<Rightarrow> u64 \<Rightarrow> (unit res \<times> i_file \<times> disk) option" where
  "write_loop fp d src nbytes nwrite =
     (if nwrite < nbytes then do {
        chunk \<leftarrow> mem_read src (unat nwrite) (unat (nbytes - nwrite));
        (case sys_write fp d chunk of
           (Inr k, fp', d') \<Rightarrow> write_loop fp' d' src nbytes (nwrite + of_nat k)
         | (Inl e, fp', d') \<Rightarrow>
             (if e \<noteq> EINTR then Some (Inl ERR_IO, fp', d')
              else write_loop fp' d' src nbytes (nwrite - 1))) }
      else do { ASSERT (nwrite = nbytes); Some (Inr (), fp, d) })"

definition i_write_all :: "i_file \<Rightarrow> disk \<Rightarrow> u8 list \<Rightarrow> u64 \<Rightarrow> (unit res \<times> i_file \<times> disk) option" where
  "i_write_all fp d src nbytes = do { ASSERT (nbytes > 0); write_loop fp d src nbytes 0 }"

section \<open>Vectored transfers\<close>

text \<open>The regions left after \<open>n\<close> bytes have been transferred.\<close>

fun iov_skip :: "u8 list list \<Rightarrow> nat \<Rightarrow> u8 list list" where
  "iov_skip [] n = []"
| "iov_skip (c # cs) n =
     (if n > 0 then
        if n \<ge> length c then iov_skip cs (n - length c) else drop n c # cs
      else c # cs)"

partial_function (option) writev_loop ::
  "i_file \<Rightarrow> disk \<Rightarrow> u8 list list \<Rightarrow> nat \<Rightarrow> nat \<Rightarrow> (unit res \<times> i_file \<times> disk) option" where
  "writev_loop fp d iov nwritten tot =
     (if nwritten < tot then
        (case sys_write fp d (concat iov) of
           (Inr k, fp', d') \<Rightarrow>
             (if k = 0 then writev_loop fp' d' iov nwritten tot
              else writev_loop fp' d' (iov_skip iov k) (nwritten + k) tot)
         | (Inl e, fp', d') \<Rightarrow>
             (if e \<noteq> EINTR then Some (Inl ERR_IO, fp', d')
              else writev_loop fp' d' iov nwritten tot))
      else do { ASSERT (nwritten = tot); Some (Inr (), fp, d) })"

definition i_writev_all :: "i_file \<Rightarrow> disk \<Rightarrow> u8 list list \<Rightarrow> (unit res \<times> i_file \<times> disk) option" where
  "i_writev_all fp d iov = do {
     ASSERT (iov \<noteq> []);
     ASSERT (length iov \<le> 2);
     let tot = sum_list (map length iov);
     ASSERT (tot > 0);
     writev_loop fp d iov 0 tot }"

text \<open>For \<^verbatim>\<open>i_readv_all\<close> the regions are their sizes, and the result is the bytes that were read, in
  the order of the regions.\<close>

fun size_skip :: "nat list \<Rightarrow> nat \<Rightarrow> nat list" where
  "size_skip [] n = []"
| "size_skip (c # cs) n =
     (if n > 0 then
        if n \<ge> c then size_skip cs (n - c) else (c - n) # cs
      else c # cs)"

partial_function (option) readv_loop ::
  "i_file \<Rightarrow> disk \<Rightarrow> nat list \<Rightarrow> u8 list \<Rightarrow> nat \<Rightarrow> (u8 list res \<times> i_file \<times> disk) option" where
  "readv_loop fp d iov got tot =
     (if length got < tot then
        (case sys_read fp d (sum_list iov) of
           (Inr chunk, fp', d') \<Rightarrow>
             (if chunk = [] then Some (Inr got, fp', d')
              else readv_loop fp' d' (size_skip iov (length chunk)) (got @ chunk) tot)
         | (Inl e, fp', d') \<Rightarrow>
             (if e \<noteq> EINTR then Some (Inl ERR_IO, fp', d')
              else readv_loop fp' d' iov got tot))
      else Some (Inr got, fp, d))"

definition i_readv_all :: "i_file \<Rightarrow> disk \<Rightarrow> nat list \<Rightarrow> (u8 list res \<times> i_file \<times> disk) option" where
  "i_readv_all fp d iov = do {
     ASSERT (iov \<noteq> []);
     ASSERT (length iov \<le> 2);
     let tot = sum_list iov;
     ASSERT (tot > 0);
     readv_loop fp d iov [] tot }"

section \<open>What a system call does\<close>

lemma sys_count_le: "sys_count r n \<le> n"
  by (simp add: sys_count_def split: sysres.splits)

lemma sys_count_pos: "0 < n \<Longrightarrow> 0 < sys_count r n"
  by (cases r) (simp_all add: sys_count_def max_def)

lemma file_put_Nil [simp]: "file_put data ofst [] = data"
  by (simp add: file_put_def)

lemma file_put_end: "ofst = length data \<Longrightarrow> file_put data ofst src = data @ src"
  by (simp add: file_put_def)

lemma length_file_put:
  "src \<noteq> [] \<Longrightarrow> length (file_put data ofst src) = max (length data) (ofst + length src)"
  by (simp add: file_put_def)

lemma file_put_file_put:
  "n = ofst + length a \<Longrightarrow> file_put (file_put data ofst a) n b = file_put data ofst (a @ b)"
proof (cases "a = [] \<or> b = []")
  case True
  then show "n = ofst + length a \<Longrightarrow> file_put (file_put data ofst a) n b = file_put data ofst (a @ b)"
    by auto
next
  case False
  define p where "p = take ofst data @ replicate (ofst - length data) 0"
  have p: "length p = ofst" by (simp add: p_def)
  have put: "file_put data ofst x = p @ x @ drop (ofst + length x) data" if "x \<noteq> []" for x
    using that by (simp add: file_put_def p_def)
  have min: "ofst - length data + min (length data) ofst = ofst" by simp
  show "n = ofst + length a \<Longrightarrow> file_put (file_put data ofst a) n b = file_put data ofst (a @ b)"
    using False put [of a] put [of "a @ b"] p min by (simp add: file_put_def ac_simps)
qed

lemma slice_file_put:
  "ofst \<le> length data \<Longrightarrow> n = length src \<Longrightarrow> slice (file_put data ofst src) ofst n = src"
  by (simp add: slice_def file_put_def)

text \<open>The three outcomes of \<^verbatim>\<open>write\<close> and of \<^verbatim>\<open>read\<close>, with the file and the disk afterwards.\<close>

lemma sys_next_env:
  "sys_next d = (r, d') \<Longrightarrow> d_data d' = d_data d \<and> d_durable d' = d_durable d \<and>
     length (d_env d') \<le> length (d_env d) \<and> (\<forall>e. r = Fail e \<longrightarrow> length (d_env d') < length (d_env d)) \<and>
     set (d_env d') \<subseteq> set (d_env d) \<and> (\<forall>e. r = Fail e \<longrightarrow> Fail e \<in> set (d_env d))"
  by (auto simp: sys_next_def split: list.splits)

lemma sys_pwrite_cases:
  assumes "sys_pwrite d src ofst = (r, d')"
  obtains e where "r = Inl e" "d_data d' = d_data d" "d_durable d' = d_durable d"
      "length (d_env d') < length (d_env d)" "set (d_env d') \<subseteq> set (d_env d)" "Fail e \<in> set (d_env d)"
  | k where "r = Inr k" "k \<le> length src" "src \<noteq> [] \<longrightarrow> 0 < k"
      "d_data d' = file_put (d_data d) ofst (take k src)" "d_durable d' = d_durable d"
      "length (d_env d') \<le> length (d_env d)" "set (d_env d') \<subseteq> set (d_env d)"
proof -
  obtain x d1 where n: "sys_next d = (x, d1)" by force
  note E = sys_next_env [OF n]
  show thesis
  proof (cases x)
    case (Fail e)
    with n assms E that(1) show thesis by (auto simp: sys_pwrite_def)
  next
    case Full
    with n assms E show thesis
      by (intro that(2) [of "sys_count x (length src)"])
         (auto simp: sys_pwrite_def Let_def sys_count_le sys_count_pos)
  next
    case (Short m)
    with n assms E show thesis
      by (intro that(2) [of "sys_count x (length src)"])
         (auto simp: sys_pwrite_def Let_def sys_count_le sys_count_pos)
  qed
qed

lemma sys_write_cases:
  assumes "sys_write fp d src = (r, fp', d')"
  obtains e where "r = Inl e" "fp' = fp" "d_data d' = d_data d" "d_durable d' = d_durable d"
      "length (d_env d') < length (d_env d)" "set (d_env d') \<subseteq> set (d_env d)" "Fail e \<in> set (d_env d)"
  | k where "r = Inr k" "k \<le> length src" "src \<noteq> [] \<longrightarrow> 0 < k"
      "d_data d' = file_put (d_data d) (f_pos fp) (take k src)" "d_durable d' = d_durable d"
      "f_pos fp' = f_pos fp + k" "length (d_env d') \<le> length (d_env d)" "set (d_env d') \<subseteq> set (d_env d)"
proof -
  obtain x d1 where p: "sys_pwrite d src (f_pos fp) = (x, d1)" by force
  from p show thesis
  proof (cases rule: sys_pwrite_cases)
    case (1 e)
    with p assms that(1) [of e] show thesis by (auto simp: sys_write_def)
  next
    case (2 k)
    with p assms show thesis by (intro that(2) [of k]) (auto simp: sys_write_def)
  qed
qed

lemma sys_pread_cases:
  assumes "sys_pread d n ofst = (r, d')"
  obtains e where "r = Inl e" "d_data d' = d_data d" "d_durable d' = d_durable d"
      "length (d_env d') < length (d_env d)" "set (d_env d') \<subseteq> set (d_env d)" "Fail e \<in> set (d_env d)"
  | k where "r = Inr (slice (d_data d) ofst k)" "k \<le> n" "0 < n \<longrightarrow> 0 < k"
      "d_data d' = d_data d" "d_durable d' = d_durable d"
      "length (d_env d') \<le> length (d_env d)" "set (d_env d') \<subseteq> set (d_env d)"
proof -
  obtain x d1 where n: "sys_next d = (x, d1)" by force
  note E = sys_next_env [OF n]
  show thesis
  proof (cases x)
    case (Fail e)
    with n assms E that(1) show thesis by (auto simp: sys_pread_def)
  next
    case Full
    with n assms E show thesis
      by (intro that(2) [of "sys_count x n"]) (auto simp: sys_pread_def sys_count_le sys_count_pos)
  next
    case (Short m)
    with n assms E show thesis
      by (intro that(2) [of "sys_count x n"]) (auto simp: sys_pread_def sys_count_le sys_count_pos)
  qed
qed

lemma sys_read_cases:
  assumes "sys_read fp d n = (r, fp', d')"
  obtains e where "r = Inl e" "fp' = fp" "d_data d' = d_data d" "d_durable d' = d_durable d"
      "length (d_env d') < length (d_env d)" "set (d_env d') \<subseteq> set (d_env d)" "Fail e \<in> set (d_env d)"
  | k where "r = Inr (slice (d_data d) (f_pos fp) k)" "k \<le> n" "0 < n \<longrightarrow> 0 < k"
      "d_data d' = d_data d" "d_durable d' = d_durable d"
      "f_pos fp' = f_pos fp + length (slice (d_data d) (f_pos fp) k)"
      "length (d_env d') \<le> length (d_env d)" "set (d_env d') \<subseteq> set (d_env d)"
proof -
  obtain x d1 where p: "sys_pread d n (f_pos fp) = (x, d1)" by force
  from p show thesis
  proof (cases rule: sys_pread_cases)
    case (1 e)
    with p assms that(1) [of e] show thesis by (auto simp: sys_read_def)
  next
    case (2 k)
    with p assms show thesis by (intro that(2) [of k]) (auto simp: sys_read_def)
  qed
qed

section \<open>The transfer loops\<close>

lemma concat_iov_skip: "concat (iov_skip iov k) = drop k (concat iov)"
  by (induction iov k rule: iov_skip.induct) auto

lemma sum_size_skip: "sum_list (size_skip iov k) = sum_list iov - k"
  by (induction iov k rule: size_skip.induct) auto

text \<open>However the kernel cuts and interrupts it, \<^verbatim>\<open>i_writev_all\<close> writes all bytes at the position, or
  fails with \<open>ERR_IO\<close> after a part of them.\<close>

definition wrote :: "i_file \<Rightarrow> disk \<Rightarrow> u8 list \<Rightarrow> unit res \<Rightarrow> i_file \<Rightarrow> disk \<Rightarrow> bool" where
  "wrote fp d src r fp' d' \<longleftrightarrow>
     (\<exists>k \<le> length src. d_data d' = file_put (d_data d) (f_pos fp) (take k src) \<and>
        f_pos fp' = f_pos fp + k \<and> d_durable d' = d_durable d \<and> set (d_env d') \<subseteq> set (d_env d) \<and>
        (r = Inr () \<and> k = length src \<or> r = Inl ERR_IO \<and> (\<exists>e. Fail e \<in> set (d_env d))))"

lemma wrote_refl: "wrote fp d [] (Inr ()) fp d"
  by (simp add: wrote_def)

lemma wrote_step:
  assumes "k \<le> length src" "d_data d1 = file_put (d_data d) (f_pos fp) (take k src)"
    "f_pos f1 = f_pos fp + k" "d_durable d1 = d_durable d" "set (d_env d1) \<subseteq> set (d_env d)"
    and "wrote f1 d1 (drop k src) r fp' d'"
  shows "wrote fp d src r fp' d'"
proof -
  from assms(6) obtain m where m: "m \<le> length src - k"
    "d_data d' = file_put (d_data d1) (f_pos f1) (take m (drop k src))"
    "f_pos fp' = f_pos f1 + m" "d_durable d' = d_durable d1" "set (d_env d') \<subseteq> set (d_env d1)"
    "r = Inr () \<and> m = length src - k \<or> r = Inl ERR_IO \<and> (\<exists>e. Fail e \<in> set (d_env d1))"
    unfolding wrote_def by auto
  have "take k src @ take m (drop k src) = take (k + m) src" by (simp add: take_add)
  with assms m show ?thesis
    unfolding wrote_def by (intro exI [of _ "k + m"]) (auto simp: file_put_file_put)
qed

lemma writev_loop_correct:
  "nwritten + length (concat iov) = tot \<Longrightarrow>
   \<exists>r fp' d'. writev_loop fp d iov nwritten tot = Some (r, fp', d') \<and> wrote fp d (concat iov) r fp' d'"
proof (induction "length (d_env d) + length (concat iov)" arbitrary: fp d iov nwritten rule: less_induct)
  case less
  show ?case
  proof (cases "nwritten < tot")
    case False
    with less.prems have "length (concat iov) = 0" "nwritten = tot" by linarith+
    then have "concat iov = []" "nwritten = tot" by (simp_all only: length_0_conv)
    with wrote_refl show ?thesis
      by (subst writev_loop.simps) (simp del: concat_eq_Nil_conv)
  next
    case True
    obtain r fp1 d1 where w: "sys_write fp d (concat iov) = (r, fp1, d1)" using prod_cases3 by blast
    from w show ?thesis
    proof (cases rule: sys_write_cases)
      case (1 e)
      show ?thesis
      proof (cases "e = EINTR")
        case True
        from less.hyps [of d1 iov nwritten fp] less.prems 1 obtain r' fp' d' where
          H: "writev_loop fp d1 iov nwritten tot = Some (r', fp', d')" "wrote fp d1 (concat iov) r' fp' d'"
          by auto
        have "wrote fp d (concat iov) r' fp' d'"
          by (rule wrote_step [where k = 0 and ?f1.0 = fp and ?d1.0 = d1]) (use 1 H(2) in simp_all)
        with H w 1 True \<open>nwritten < tot\<close> show ?thesis by (subst writev_loop.simps) simp
      next
        case False
        have "wrote fp d (concat iov) (Inl ERR_IO) fp1 d1"
          unfolding wrote_def by (intro exI [of _ 0]) (use 1 in auto)
        with False w 1 \<open>nwritten < tot\<close> show ?thesis by (subst writev_loop.simps) simp
      qed
    next
      case (2 k)
      have k: "0 < k" using 2 less.prems True by (cases "concat iov") auto
      then have "length (d_env d1) + length (concat (iov_skip iov k)) < length (d_env d) + length (concat iov)"
        using 2 by (simp add: concat_iov_skip)
      from less.hyps [OF this, of "nwritten + k" fp1] less.prems 2 obtain r' fp' d' where
        H: "writev_loop fp1 d1 (iov_skip iov k) (nwritten + k) tot = Some (r', fp', d')"
          "wrote fp1 d1 (drop k (concat iov)) r' fp' d'"
        by (auto simp: concat_iov_skip)
      have "wrote fp d (concat iov) r' fp' d'"
        by (rule wrote_step [OF _ _ _ _ _ H(2)]) (use 2 in simp_all)
      with H w 2 k True show ?thesis by (subst writev_loop.simps) simp
    qed
  qed
qed

lemma i_writev_all_correct:
  assumes "iov \<noteq> []" "length iov \<le> 2" "concat iov \<noteq> []"
  shows "\<exists>r fp' d'. i_writev_all fp d iov = Some (r, fp', d') \<and> wrote fp d (concat iov) r fp' d'"
proof -
  have "sum_list (map length iov) = length (concat iov)" by (simp add: length_concat)
  with assms writev_loop_correct [of 0 iov "length (concat iov)" fp d] show ?thesis
    by (simp add: i_writev_all_def)
qed

text \<open>The positional transfers count on words; below \<open>2 ^ 64\<close> that is counting.\<close>

lemma unat_of_nat64 [simp]: "n < 18446744073709551616 \<Longrightarrow> unat (of_nat n :: u64) = n"
  by (simp add: unat_of_nat)

lemma of_nat64_less [simp]:
  "m < 18446744073709551616 \<Longrightarrow> n < 18446744073709551616 \<Longrightarrow> (of_nat m :: u64) < of_nat n \<longleftrightarrow> m < n"
  by (simp add: word_less_nat_alt)

lemma slice_chunk:
  "k \<le> n \<Longrightarrow> slice bs ofst k @ slice bs (ofst + length (slice bs ofst k)) (n - length (slice bs ofst k))
     = slice bs ofst n"
  using slice_append [of bs ofst k "n - k"]
  by (cases "ofst + k \<le> length bs") (auto simp: slice_def)

lemma splice_splice:
  "m = ofst + length a \<Longrightarrow> ofst + length a + length b \<le> length bs \<Longrightarrow>
   splice (splice bs ofst a) m b = splice bs ofst (a @ b)"
  by (simp add: splice_def ac_simps)

text \<open>Uninterrupted (no \<open>EINTR\<close>), \<^verbatim>\<open>i_pread_all\<close> reads what the file has at the offset.\<close>

definition pread_got :: "disk \<Rightarrow> nat \<Rightarrow> nat \<Rightarrow> nat \<Rightarrow> u8 list \<Rightarrow> u64 res \<Rightarrow> u8 list \<Rightarrow> disk \<Rightarrow> bool" where
  "pread_got d ofst n nread dest r b d' \<longleftrightarrow>
     d_data d' = d_data d \<and> d_durable d' = d_durable d \<and> set (d_env d') \<subseteq> set (d_env d) \<and>
     (r = Inl ERR_IO \<and> (\<exists>e. Fail e \<in> set (d_env d)) \<or>
      (let c = slice (d_data d) (ofst + nread) (n - nread)
       in r = Inr (of_nat (nread + length c)) \<and> b = splice dest nread c))"

lemma pread_got_step:
  assumes "d_data d1 = d_data d" "d_durable d1 = d_durable d" "set (d_env d1) \<subseteq> set (d_env d)"
    and "k \<le> n - nread" "nread < n" "length dest = n"
    and c: "c = slice (d_data d) (ofst + nread) k"
    and "pread_got d1 ofst n (nread + length c) (splice dest nread c) r b d'"
  shows "pread_got d ofst n nread dest r b d'"
proof -
  define r2 where "r2 = slice (d_data d) (ofst + nread + length c) (n - nread - length c)"
  have cl: "length c \<le> n - nread"
    using assms(4) length_slice_le [of "d_data d" "ofst + nread" k] c by simp
  have all: "c @ r2 = slice (d_data d) (ofst + nread) (n - nread)"
    unfolding c r2_def using assms(4) by (rule slice_chunk)
  then have len: "length c + length r2 = length (slice (d_data d) (ofst + nread) (n - nread))"
    by (metis length_append)
  have "length c + length r2 \<le> n - nread"
    unfolding len by (rule length_slice_le)
  then have spl: "splice (splice dest nread c) (nread + length c) r2
      = splice dest nread (slice (d_data d) (ofst + nread) (n - nread))"
    using assms(5,6) by (subst splice_splice) (simp_all add: all)
  have r2: "slice (d_data d) (ofst + (nread + length c)) (n - (nread + length c)) = r2"
    by (simp add: r2_def add.assoc)
  show ?thesis
    using assms(2,3,8)
    unfolding pread_got_def Let_def assms(1) r2 spl add.assoc [of nread] len by auto
qed

lemma pread_loop_step:
  assumes "nread < n" "ofst + n < 18446744073709551616"
  shows "pread_loop d dest (of_nat n) (of_nat ofst) (of_nat nread) =
      (case sys_pread d (n - nread) (ofst + nread) of
           (Inr chunk, d') \<Rightarrow>
             (if chunk = [] then Some (Inr (of_nat nread), dest, d')
              else do {
                dest \<leftarrow> mem_write dest nread chunk;
                pread_loop d' dest (of_nat n) (of_nat ofst) (of_nat (nread + length chunk)) })
         | (Inl e, d') \<Rightarrow>
             (if e \<noteq> EINTR then Some (Inl ERR_IO, dest, d')
              else pread_loop d' dest (of_nat n) (of_nat ofst) (of_nat nread - 1)))"
proof -
  have d: "(of_nat n :: u64) - of_nat nread = of_nat (n - nread)"
    using assms by (metis le_eq_less_or_eq of_nat_diff)
  have w: "unat ((of_nat n :: u64) - of_nat nread) = n - nread"
    unfolding d by (rule unat_of_nat64) (use assms in simp)
  have "(of_nat ofst :: u64) + of_nat nread = of_nat (ofst + nread)" by simp
  then have w2: "unat ((of_nat ofst :: u64) + of_nat nread) = ofst + nread"
    using assms by (simp del: of_nat_add)
  have w3: "unat (of_nat nread :: u64) = nread" using assms by simp
  show ?thesis
    using assms by (subst pread_loop.simps) (unfold w w2 w3 of_nat_add, simp)
qed

lemma pread_loop_correct:
  assumes "ofst + n < 18446744073709551616"
  shows "nread \<le> n \<Longrightarrow> Fail EINTR \<notin> set (d_env d) \<Longrightarrow> length dest = n \<Longrightarrow>
   \<exists>r b d'. pread_loop d dest (of_nat n) (of_nat ofst) (of_nat nread) = Some (r, b, d') \<and>
     pread_got d ofst n nread dest r b d'"
proof (induction "n - nread" arbitrary: d dest nread rule: less_induct)
  case less
  show ?case
  proof (cases "nread < n")
    case False
    with less.prems assms show ?thesis
      by (subst pread_loop.simps) (simp add: splice_def pread_got_def)
  next
    case True
    note step = pread_loop_step [OF True assms, of d dest]
    obtain r d1 where p: "sys_pread d (n - nread) (ofst + nread) = (r, d1)" by force
    from p show ?thesis
    proof (cases rule: sys_pread_cases)
      case (1 e)
      with less.prems have "e \<noteq> EINTR" by auto
      with 1 p show ?thesis by (auto simp: step pread_got_def)
    next
      case (2 k)
      define c where "c = slice (d_data d) (ofst + nread) k"
      have c: "length c \<le> n - nread" "k \<le> n - nread"
        using 2 length_slice_le [of "d_data d" "ofst + nread" k] by (simp_all add: c_def)
      show ?thesis
      proof (cases "c = []")
        case True
        then have "slice (d_data d) (ofst + nread) (n - nread) = []"
          using 2 \<open>nread < n\<close> by (auto simp: slice_def c_def)
        with True 2 p less.prems show ?thesis
          by (auto simp: step splice_def pread_got_def c_def [symmetric])
      next
        case False
        have m: "mem_write dest nread c = Some (splice dest nread c)" "length (splice dest nread c) = n"
          using c less.prems True by (simp_all add: mem_write_Some)
        have lt: "n - (nread + length c) < n - nread" "nread + length c \<le> n"
          using True c False by (cases c; simp)+
        have "Fail EINTR \<notin> set (d_env d1)" using 2 less.prems by auto
        with less.hyps [of "nread + length c" d1 "splice dest nread c", OF lt _ m(2)] obtain r' b d' where
          H: "pread_loop d1 (splice dest nread c) (of_nat n) (of_nat ofst) (of_nat (nread + length c))
                = Some (r', b, d')" "pread_got d1 ofst n (nread + length c) (splice dest nread c) r' b d'"
          by blast
        have "pread_got d ofst n nread dest r' b d'"
          by (rule pread_got_step [OF _ _ _ _ True less.prems(3) c_def H(2)]) (use 2 c in simp_all)
        with H(1) 2 p m False show ?thesis by (simp add: step c_def [symmetric] del: of_nat_add)
      qed
    qed
  qed
qed

lemma i_pread_all_correct:
  assumes "unat offset + length dest < 18446744073709551616" "dest \<noteq> []" "n = of_nat (length dest)"
    and "Fail EINTR \<notin> set (d_env d)"
  shows "\<exists>r b d'. i_pread_all d dest n offset = Some (r, b, d') \<and>
           pread_got d (unat offset) (length dest) 0 dest r b d'"
  using pread_loop_correct [OF assms(1), of 0 d dest] assms
  by (auto simp: i_pread_all_def word_less_nat_alt)

text \<open>Uninterrupted, \<^verbatim>\<open>i_pwrite_all\<close> writes its bytes at the offset, or a part of them and fails.\<close>

lemma pwrite_loop_step:
  assumes "nwrite < n" "ofst + n < 18446744073709551616" "length src = n"
  shows "pwrite_loop d src (of_nat n) (of_nat ofst) (of_nat nwrite) =
      (case sys_pwrite d (drop nwrite src) (ofst + nwrite) of
           (Inr k, d') \<Rightarrow> pwrite_loop d' src (of_nat n) (of_nat ofst) (of_nat (nwrite + k))
         | (Inl e, d') \<Rightarrow>
             (if e \<noteq> EINTR then Some (Inl ERR_IO, d')
              else pwrite_loop d' src (of_nat n) (of_nat ofst) (of_nat nwrite - 1)))"
proof -
  have d: "(of_nat n :: u64) - of_nat nwrite = of_nat (n - nwrite)"
    using assms by (metis le_eq_less_or_eq of_nat_diff)
  have w: "unat ((of_nat n :: u64) - of_nat nwrite) = n - nwrite"
    unfolding d by (rule unat_of_nat64) (use assms in simp)
  have "(of_nat ofst :: u64) + of_nat nwrite = of_nat (ofst + nwrite)" by simp
  then have w2: "unat ((of_nat ofst :: u64) + of_nat nwrite) = ofst + nwrite"
    using assms by (simp del: of_nat_add)
  have w3: "unat (of_nat nwrite :: u64) = nwrite" using assms by simp
  have m: "mem_read src nwrite (n - nwrite) = Some (drop nwrite src)"
    using assms by (simp add: mem_read_def slice_def)
  show ?thesis
    using assms by (subst pwrite_loop.simps) (unfold w w2 w3 m of_nat_add, simp)
qed

lemma pwrite_loop_correct:
  assumes "ofst + n < 18446744073709551616" "length src = n"
  shows "nwrite \<le> n \<Longrightarrow> Fail EINTR \<notin> set (d_env d) \<Longrightarrow>
   \<exists>r fp' d'. pwrite_loop d src (of_nat n) (of_nat ofst) (of_nat nwrite) = Some (r, d') \<and>
     wrote \<lparr>f_pos = ofst + nwrite\<rparr> d (drop nwrite src) r fp' d'"
proof (induction "n - nwrite" arbitrary: d nwrite rule: less_induct)
  case less
  show ?case
  proof (cases "nwrite < n")
    case False
    with less.prems assms have n: "nwrite = n" "drop nwrite src = []" by simp_all
    then have "pwrite_loop d src (of_nat n) (of_nat ofst) (of_nat nwrite) = Some (Inr (), d)"
      by (subst pwrite_loop.simps) simp
    with n(2) wrote_refl show ?thesis by auto
  next
    case True
    note step = pwrite_loop_step [OF True assms, of d]
    obtain r d1 where p: "sys_pwrite d (drop nwrite src) (ofst + nwrite) = (r, d1)" by force
    from p show ?thesis
    proof (cases rule: sys_pwrite_cases)
      case (1 e)
      with less.prems have "e \<noteq> EINTR" by auto
      with 1 p have "pwrite_loop d src (of_nat n) (of_nat ofst) (of_nat nwrite) = Some (Inl ERR_IO, d1)"
        by (simp add: step)
      moreover have "wrote \<lparr>f_pos = ofst + nwrite\<rparr> d (drop nwrite src) (Inl ERR_IO) \<lparr>f_pos = ofst + nwrite\<rparr> d1"
        unfolding wrote_def by (intro exI [of _ 0]) (use 1 in auto)
      ultimately show ?thesis by blast
    next
      case (2 k)
      have k: "0 < k" "nwrite + k \<le> n" using 2 True assms by auto
      have "Fail EINTR \<notin> set (d_env d1)" using 2 less.prems by auto
      moreover have "n - (nwrite + k) < n - nwrite" using k True by arith
      ultimately obtain r' fp' d' where
        H: "pwrite_loop d1 src (of_nat n) (of_nat ofst) (of_nat (nwrite + k)) = Some (r', d')"
          "wrote \<lparr>f_pos = ofst + (nwrite + k)\<rparr> d1 (drop (nwrite + k) src) r' fp' d'"
        using less.hyps [of "nwrite + k" d1] k(2) by blast
      have "wrote \<lparr>f_pos = ofst + nwrite\<rparr> d (drop nwrite src) r' fp' d'"
        by (rule wrote_step [where k = k and ?f1.0 = "\<lparr>f_pos = ofst + (nwrite + k)\<rparr>" and ?d1.0 = d1])
          (use 2 H(2) in \<open>simp_all add: ac_simps\<close>)
      with H(1) 2 p show ?thesis by (auto simp: step simp del: of_nat_add)
    qed
  qed
qed

lemma i_pwrite_all_correct:
  assumes "unat offset + length src < 18446744073709551616" "src \<noteq> []" "n = of_nat (length src)"
    and "Fail EINTR \<notin> set (d_env d)"
  shows "\<exists>r fp' d'. i_pwrite_all d src n offset = Some (r, d') \<and> wrote \<lparr>f_pos = unat offset\<rparr> d src r fp' d'"
  using pwrite_loop_correct [OF assms(1) refl, of 0 d] assms
  by (auto simp: i_pwrite_all_def word_less_nat_alt)

text \<open>A kernel that only cuts transfers short.\<close>

definition no_fail :: "disk \<Rightarrow> bool" where
  "no_fail d \<longleftrightarrow> (\<forall>e. Fail e \<notin> set (d_env d))"

lemma no_fail_subset: "no_fail d \<Longrightarrow> set (d_env d') \<subseteq> set (d_env d) \<Longrightarrow> no_fail d'"
  by (auto simp: no_fail_def)

lemma sys_call_no_fail:
  assumes "no_fail d" "\<And>d. d_env (eff d) = d_env d"
  shows "\<exists>d'. sys_call eff d = (Inr (), eff d') \<and> d_data d' = d_data d \<and> d_durable d' = d_durable d \<and>
    set (d_env d') \<subseteq> set (d_env d) \<and> no_fail (eff d')"
proof (cases "d_env d")
  case Nil
  with assms show ?thesis by (intro exI [of _ d]) (simp add: sys_call_def sys_next_def no_fail_def)
next
  case (Cons r rs)
  with assms show ?thesis
    by (cases r) (auto simp: sys_call_def sys_next_def no_fail_def intro!: exI [of _ "d\<lparr>d_env := rs\<rparr>"])
qed

lemma i_fsync_no_fail:
  assumes "no_fail d"
  shows "\<exists>d'. i_fsync d = (Inr (), d') \<and> d_data d' = d_data d \<and> d_durable d' = d_data d \<and> no_fail d'"
  using sys_call_no_fail [OF assms, of "\<lambda>d. d\<lparr>d_durable := d_data d\<rparr>"] by (auto simp: i_fsync_def)

text \<open>Uninterrupted, \<^verbatim>\<open>i_read_all\<close> reads on at the position, up to the end of the file.\<close>

definition no_intr :: "disk \<Rightarrow> bool" where
  "no_intr d \<longleftrightarrow> Fail EINTR \<notin> set (d_env d) \<and> Fail EWOULDBLOCK \<notin> set (d_env d)"

definition read_got :: "i_file \<Rightarrow> disk \<Rightarrow> nat \<Rightarrow> nat \<Rightarrow> u8 list \<Rightarrow> (nat \<times> u8 list) res \<Rightarrow> i_file \<Rightarrow> disk \<Rightarrow> bool" where
  "read_got fp d n nread dest r fp' d' \<longleftrightarrow>
     d_data d' = d_data d \<and> d_durable d' = d_durable d \<and> set (d_env d') \<subseteq> set (d_env d) \<and>
     (r = Inl ERR_IO \<and> (\<exists>e. Fail e \<in> set (d_env d)) \<or>
      (let c = slice (d_data d) (f_pos fp) (n - nread)
       in r = Inr (nread + length c, splice dest nread c) \<and> f_pos fp' = f_pos fp + length c))"

lemma read_got_step:
  assumes "d_data d1 = d_data d" "d_durable d1 = d_durable d" "set (d_env d1) \<subseteq> set (d_env d)"
    and "f_pos f1 = f_pos fp + length c" and "k \<le> n - nread" "nread < n" "length dest = n"
    and c: "c = slice (d_data d) (f_pos fp) k"
    and "read_got f1 d1 n (nread + length c) (splice dest nread c) r fp' d'"
  shows "read_got fp d n nread dest r fp' d'"
proof -
  define r2 where "r2 = slice (d_data d) (f_pos fp + length c) (n - nread - length c)"
  have all: "c @ r2 = slice (d_data d) (f_pos fp) (n - nread)"
    unfolding c r2_def using assms(5) by (rule slice_chunk)
  then have len: "length c + length r2 = length (slice (d_data d) (f_pos fp) (n - nread))"
    by (metis length_append)
  have "length c + length r2 \<le> n - nread"
    unfolding len by (rule length_slice_le)
  then have spl: "splice (splice dest nread c) (nread + length c) r2
      = splice dest nread (slice (d_data d) (f_pos fp) (n - nread))"
    using assms(6,7) by (subst splice_splice) (simp_all add: all)
  have r2: "slice (d_data d) (f_pos fp + length c) (n - (nread + length c)) = r2"
    by (simp add: r2_def)
  show ?thesis
    using assms(2,3,9)
    unfolding read_got_def Let_def assms(1,4) r2 spl add.assoc len by auto
qed

lemma read_loop_correct:
  "nread \<le> n \<Longrightarrow> no_intr d \<Longrightarrow> length dest = n \<Longrightarrow>
   \<exists>r fp' d'. read_loop fp d dest n nread = Some (r, fp', d') \<and> read_got fp d n nread dest r fp' d'"
proof (induction "n - nread" arbitrary: fp d dest nread rule: less_induct)
  case less
  show ?case
  proof (cases "nread < n")
    case False
    with less.prems show ?thesis
      by (subst read_loop.simps) (simp add: splice_def read_got_def)
  next
    case True
    note step = read_loop.simps [of fp d dest n nread, unfolded if_P [OF True]]
    obtain r f1 d1 where p: "sys_read fp d (n - nread) = (r, f1, d1)" using prod_cases3 by blast
    from p show ?thesis
    proof (cases rule: sys_read_cases)
      case (1 e)
      with less.prems have "e \<noteq> EINTR" "e \<noteq> EWOULDBLOCK" by (auto simp: no_intr_def)
      with 1 p have "read_loop fp d dest n nread = Some (Inl ERR_IO, f1, d1)" by (simp add: step)
      with 1 show ?thesis by (auto simp: read_got_def)
    next
      case (2 k)
      define c where "c = slice (d_data d) (f_pos fp) k"
      have c: "length c \<le> n - nread" "k \<le> n - nread"
        using 2 length_slice_le [of "d_data d" "f_pos fp" k] by (simp_all add: c_def)
      show ?thesis
      proof (cases "c = []")
        case True
        then have "slice (d_data d) (f_pos fp) (n - nread) = []"
          using 2 \<open>nread < n\<close> by (auto simp: slice_def c_def)
        moreover have "read_loop fp d dest n nread = Some (Inr (nread, dest), f1, d1)"
          using True 2 p by (simp add: step c_def [symmetric])
        moreover have "f_pos f1 = f_pos fp" using 2(6) True unfolding c_def by simp
        ultimately show ?thesis using 2(4,5,8) by (simp add: splice_def read_got_def)
      next
        case False
        have m: "mem_write dest nread c = Some (splice dest nread c)" "length (splice dest nread c) = n"
          using c less.prems True by (simp_all add: mem_write_Some)
        have lt: "n - (nread + length c) < n - nread" "nread + length c \<le> n"
          using True c False by (cases c; simp)+
        have "no_intr d1" using 2 less.prems by (auto simp: no_intr_def)
        with less.hyps [of "nread + length c" d1 "splice dest nread c" f1, OF lt _ m(2)] obtain r' fp' d' where
          H: "read_loop f1 d1 (splice dest nread c) n (nread + length c) = Some (r', fp', d')"
             "read_got f1 d1 n (nread + length c) (splice dest nread c) r' fp' d'"
          by blast
        have "read_got fp d n nread dest r' fp' d'"
          by (rule read_got_step [OF _ _ _ _ _ True less.prems(3) c_def H(2)]) (use 2 c in \<open>simp_all add: c_def\<close>)
        moreover have "read_loop fp d dest n nread = Some (r', fp', d')"
          using H(1) 2 p m False by (simp add: step c_def [symmetric])
        ultimately show ?thesis by blast
      qed
    qed
  qed
qed

lemma i_read_all_correct:
  assumes "dest \<noteq> []" "no_intr d"
  shows "\<exists>r fp' d'. i_read_all fp d dest (length dest) = Some (r, fp', d') \<and>
           read_got fp d (length dest) 0 dest r fp' d'"
  using read_loop_correct [of 0 "length dest" d dest fp] assms by (simp add: i_read_all_def)

text \<open>\<^verbatim>\<open>i_readv_all\<close> retries an interrupted call.\<close>

definition readv_got :: "i_file \<Rightarrow> disk \<Rightarrow> nat \<Rightarrow> u8 list \<Rightarrow> u8 list res \<Rightarrow> i_file \<Rightarrow> disk \<Rightarrow> bool" where
  "readv_got fp d n got r fp' d' \<longleftrightarrow>
     d_data d' = d_data d \<and> d_durable d' = d_durable d \<and> set (d_env d') \<subseteq> set (d_env d) \<and>
     (r = Inl ERR_IO \<and> (\<exists>e. Fail e \<in> set (d_env d)) \<or>
      (let c = slice (d_data d) (f_pos fp) (n - length got)
       in r = Inr (got @ c) \<and> f_pos fp' = f_pos fp + length c))"

lemma readv_loop_correct:
  "length got + sum_list iov = n \<Longrightarrow>
   \<exists>r fp' d'. readv_loop fp d iov got n = Some (r, fp', d') \<and> readv_got fp d n got r fp' d'"
proof (induction "length (d_env d) + (n - length got)" arbitrary: fp d iov got rule: less_induct)
  case less
  show ?case
  proof (cases "length got < n")
    case False
    with less.prems show ?thesis
      by (subst readv_loop.simps) (simp add: readv_got_def)
  next
    case True
    note step = readv_loop.simps [of fp d iov got n, unfolded if_P [OF True]]
    have iov: "sum_list iov = n - length got" using less.prems by simp
    obtain r f1 d1 where p: "sys_read fp d (n - length got) = (r, f1, d1)" using prod_cases3 by blast
    from p show ?thesis
    proof (cases rule: sys_read_cases)
      case (1 e)
      show ?thesis
      proof (cases "e = EINTR")
        case True
        from less.hyps [of d1 got iov fp] less.prems 1 obtain r' fp' d' where
          H: "readv_loop fp d1 iov got n = Some (r', fp', d')" "readv_got fp d1 n got r' fp' d'"
          by auto
        moreover have "readv_got fp d n got r' fp' d'"
          using H(2) 1 unfolding readv_got_def by auto
        ultimately show ?thesis using True 1 p by (auto simp: step iov)
      next
        case False
        with 1 p have "readv_loop fp d iov got n = Some (Inl ERR_IO, f1, d1)" by (simp add: step iov)
        with 1 show ?thesis by (auto simp: readv_got_def)
      qed
    next
      case (2 k)
      define c where "c = slice (d_data d) (f_pos fp) k"
      have c: "length c \<le> n - length got" "k \<le> n - length got"
        using 2 length_slice_le [of "d_data d" "f_pos fp" k] by (simp_all add: c_def)
      show ?thesis
      proof (cases "c = []")
        case True
        then have "slice (d_data d) (f_pos fp) (n - length got) = []"
          using 2 \<open>length got < n\<close> by (auto simp: slice_def c_def)
        moreover have "readv_loop fp d iov got n = Some (Inr got, f1, d1)"
          using True 2 p by (simp add: step iov c_def [symmetric])
        moreover have "f_pos f1 = f_pos fp" using 2(6) True unfolding c_def by simp
        ultimately show ?thesis using 2(4,5,8) by (simp add: readv_got_def)
      next
        case False
        have m: "length (d_env d1) + (n - length (got @ c)) < length (d_env d) + (n - length got)"
          using True c False 2(7) by (cases c; simp)
        have "length (got @ c) + sum_list (size_skip iov (length c)) = n"
          using c less.prems by (simp add: sum_size_skip)
        with less.hyps [OF m] obtain r' fp' d' where
          H: "readv_loop f1 d1 (size_skip iov (length c)) (got @ c) n = Some (r', fp', d')"
             "readv_got f1 d1 n (got @ c) r' fp' d'"
          by blast
        have all: "c @ slice (d_data d) (f_pos fp + length c) (n - length got - length c)
            = slice (d_data d) (f_pos fp) (n - length got)"
          unfolding c_def using c(2) by (rule slice_chunk)
        have len: "length c + length (slice (d_data d) (f_pos fp + length c) (n - length got - length c))
            = length (slice (d_data d) (f_pos fp) (n - length got))"
          using all by (metis length_append)
        have f1: "f_pos f1 = f_pos fp + length c" using 2(6) unfolding c_def .
        have "readv_got fp d n got r' fp' d'"
          using H(2) 2(4,5,8)
          unfolding readv_got_def Let_def f1 2(4) length_append diff_diff_left [symmetric]
            append_assoc all add.assoc len by auto
        moreover have "readv_loop fp d iov got n = Some (r', fp', d')"
          using H(1) 2 p False by (simp add: step iov c_def [symmetric])
        ultimately show ?thesis by blast
      qed
    qed
  qed
qed

lemma i_readv_all_correct:
  assumes "iov \<noteq> []" "length iov \<le> 2" "0 < sum_list iov"
  shows "\<exists>r fp' d'. i_readv_all fp d iov = Some (r, fp', d') \<and> readv_got fp d (sum_list iov) [] r fp' d'"
proof -
  obtain r fp' d' where "readv_loop fp d iov [] (sum_list iov) = Some (r, fp', d')"
      "readv_got fp d (sum_list iov) [] r fp' d'"
    using readv_loop_correct [of "[]" iov "sum_list iov" fp d] by auto
  with assms show ?thesis by (simp add: i_readv_all_def del: sum_list_eq_0_iff)
qed

section \<open>Properties\<close>

text \<open>The calls a transfer makes: it goes on after those that are interrupted and ends at the first other failure.\<close>

definition only_interrupted :: "sysres list \<Rightarrow> bool" where
  "only_interrupted pre \<longleftrightarrow> (\<forall>e. Fail e \<in> set pre \<longrightarrow> e = EINTR)"

definition calls_made :: "sysres list \<Rightarrow> unit res \<Rightarrow> sysres list \<Rightarrow> bool" where
  "calls_made env r env' \<longleftrightarrow>
     (case r of
        Inr _ \<Rightarrow> \<exists>pre. env = pre @ env' \<and> only_interrupted pre
      | Inl _ \<Rightarrow> \<exists>pre e. env = pre @ Fail e # env' \<and> only_interrupted pre \<and> e \<noteq> EINTR)"

lemma calls_made_step:
  assumes "calls_made env' r env''" and "env = pre @ env'" and "only_interrupted pre"
  shows "calls_made env r env''"
proof -
  have "only_interrupted (pre @ p)" if "only_interrupted p" for p
    using that assms(3) by (auto simp: only_interrupted_def)
  with assms(1,2) show ?thesis unfolding calls_made_def by (cases r) (simp, metis append.assoc, simp, metis append.assoc)
qed

lemma sys_write_env:
  "sys_write fp d src = (Inr k, fp', d') \<Longrightarrow> \<exists>pre. d_env d = pre @ d_env d' \<and> only_interrupted pre"
  "sys_write fp d src = (Inl e, fp', d') \<Longrightarrow> d_env d = Fail e # d_env d'"
  by (auto simp: sys_write_def sys_pwrite_def sys_next_def Let_def only_interrupted_def split: list.splits sysres.splits prod.splits sum.splits)

lemma writev_loop_calls:
  "writev_loop fp d iov nwritten tot = Some y \<Longrightarrow> calls_made (d_env d) (fst y) (d_env (snd (snd y)))"
proof (induction fp d iov nwritten tot y rule: writev_loop.raw_induct [rotated, consumes 1, case_names step])
  case (step f fp d iov n tot y)
  show ?case
  proof (cases "n < tot")
    case False
    with step(2) show ?thesis by (auto simp: ASSERT_def calls_made_def only_interrupted_def split: if_splits)
  next
    case True
    obtain x fp1 d1 where w: "sys_write fp d (concat iov) = (x, fp1, d1)" using prod_cases3 by blast
    show ?thesis
    proof (cases x)
      case (Inl e)
      note env = sys_write_env(2) [OF w [unfolded Inl]]
      show ?thesis
      proof (cases "e = EINTR")
        case True
        with step(2) w Inl \<open>n < tot\<close> have "calls_made (d_env d1) (fst y) (d_env (snd (snd y)))" by (auto dest: step(1))
        then show ?thesis
          by (rule calls_made_step [where pre = "[Fail EINTR]"]) (use env True in \<open>simp_all add: only_interrupted_def\<close>)
      next
        case False
        with step(2) w Inl \<open>n < tot\<close> env show ?thesis by (auto simp: calls_made_def only_interrupted_def)
      qed
    next
      case (Inr k)
      from sys_write_env(1) [OF w [unfolded Inr]] obtain pre where "d_env d = pre @ d_env d1" "only_interrupted pre" by blast
      moreover have "calls_made (d_env d1) (fst y) (d_env (snd (snd y)))"
        using step(2) w Inr True by (auto split: if_splits dest: step(1))
      ultimately show ?thesis using calls_made_step by blast
    qed
  qed
qed

text \<open>\<^verbatim>\<open>i_writev_all\<close> of up to two regions always returns, however the kernel cuts its calls short or
  interrupts them. If every call that failed was interrupted, the result is success, and all bytes of the regions are in
  the file, in order, at the position the file had. The first call that fails otherwise ends it with \<^verbatim>\<open>ERR_IO\<close>, after
  which a prefix of the bytes is in the file. Nothing else of the file changes, and the position is behind what was written.\<close>

theorem i_writev_all_writes_regions:
  assumes "iov \<noteq> []" "length iov \<le> 2" "concat iov \<noteq> []"
  shows "\<exists>r fp' d' k. i_writev_all fp d iov = Some (r, fp', d') \<and> k \<le> length (concat iov) \<and>
    d_data d' = file_put (d_data d) (f_pos fp) (take k (concat iov)) \<and> f_pos fp' = f_pos fp + k \<and>
    (r = Inr () \<and> k = length (concat iov) \<or> r = Inl ERR_IO \<and> (\<exists>e. Fail e \<in> set (d_env d))) \<and>
    calls_made (d_env d) r (d_env d') \<and> (only_interrupted (d_env d) \<longrightarrow> r = Inr ())"
proof -
  from i_writev_all_correct [OF assms, of fp d] obtain r fp' d' where
    r: "i_writev_all fp d iov = Some (r, fp', d')" "wrote fp d (concat iov) r fp' d'" by blast
  then have c: "calls_made (d_env d) r (d_env d')"
    using writev_loop_calls by (fastforce simp: i_writev_all_def Let_def ASSERT_def split: if_splits)
  have "only_interrupted (d_env d) \<Longrightarrow> r = Inr ()"
    using c by (cases r) (auto simp: calls_made_def only_interrupted_def)
  with r c show ?thesis unfolding wrote_def by blast
qed

theorem i_writev_all_writes_regions_witness:
  "\<exists>fp' d'. i_writev_all \<lparr>f_pos = 2\<rparr> \<lparr>d_data = [1, 2, 3], d_durable = [], d_env = [Short 1, Fail EINTR]\<rparr>
       [[7, 8], [9]] = Some (Inr (), fp', d') \<and> d_data d' = [1, 2, 7, 8, 9] \<and> f_pos fp' = 5"
  using i_writev_all_writes_regions [of "[[7, 8], [9]]" "\<lparr>f_pos = 2\<rparr>"
    "\<lparr>d_data = [1, 2, 3], d_durable = [], d_env = [Short 1, Fail EINTR]\<rparr>"]
  by (auto simp: only_interrupted_def file_put_def)

text \<open>A \<^verbatim>\<open>pwrite\<close> that is interrupted before it has written anything crashes \<^verbatim>\<open>i_pwrite_all\<close>: the
  loop adds the \<open>-1\<close> the system call returned to its unsigned count of written bytes, which
  becomes \<open>2 ^ 64 - 1\<close>, leaves the loop and fails the final assertion. No byte has been written.\<close>

theorem i_pwrite_all_interrupted_crashes:
  assumes "d_env d = Fail EINTR # env" "src \<noteq> []" "length src < 2 ^ 64 - 1"
  shows "i_pwrite_all d src (of_nat (length src)) offset = None"
proof -
  have n: "unat (of_nat (length src) :: u64) = length src" using assms(3) by simp
  have pos: "(0 :: u64) < of_nat (length src)" using assms by (simp add: word_less_nat_alt)
  have max_word_ge: "unat (- 1 :: u64) = 18446744073709551615"
    by (simp add: unsigned_minus_1_eq_mask mask_eq_exp_minus_1)
  have ne: "\<not> (0 :: u64) - 1 < of_nat (length src)" "(0 :: u64) - 1 \<noteq> of_nat (length src)"
    using assms(3) n max_word_ge by (simp_all add: word_less_nat_alt word_unat_eq_iff)
  have fin: "pwrite_loop d' src (of_nat (length src)) offset (0 - 1) = None" for d'
    by (subst pwrite_loop.simps) (use ne in simp)
  have call: "sys_pwrite d src (unat offset) = (Inl EINTR, d\<lparr>d_env := env\<rparr>)"
    using assms(1) by (simp add: sys_pwrite_def sys_next_def)
  have "pwrite_loop d src (of_nat (length src)) offset 0 = None"
    by (subst pwrite_loop.simps) (use pos n call fin in \<open>simp add: mem_read_def\<close>)
  then show ?thesis by (simp add: i_pwrite_all_def)
qed

theorem i_pwrite_all_interrupted_crashes_witness:
  "i_pwrite_all \<lparr>d_data = [], d_durable = [], d_env = [Fail EINTR]\<rparr> [1, 2, 3] 3 0 = None"
  using i_pwrite_all_interrupted_crashes [of "\<lparr>d_data = [], d_durable = [], d_env = [Fail EINTR]\<rparr>" "[]"
    "[1, 2, 3]" 0] by simp

end
