(* ===== verification/File_Pager.thy ===== *)
theory File_Pager
  imports Page_Base OS_File
begin

text \<open>
  \<^verbatim>\<open>libs/nspager/file_pager.c\<close>: the database file as an array of pages.

  The state is the struct with the number of pages, and the disk of its file. \<open>fpgr_pages\<close> is the
  list of pages the file stands for, \<open>fpgr_inv\<close> says that the number of pages is that of the file.
  The locale \<open>page_file\<close> is what the pager needs of it: an array of pages that is read, written and
  extended, whose laws the interpretation \<open>fpgr\<close> proves for the operations of the code.
\<close>

section \<open>Operations\<close>

record file_pager =
  fp_npages :: pgno
  fp_f :: i_file

definition fpgr_set_len :: "file_pager \<Rightarrow> disk \<Rightarrow> unit res \<times> file_pager \<times> disk" where
  "fpgr_set_len p d =
     (case i_file_size d of
        (Inl e, d) \<Rightarrow> (Inl e, p, d)
      | (Inr n, d) \<Rightarrow>
          if n mod PAGE_SIZE \<noteq> 0 then (Inl ERR_CORRUPT, p, d)
          else (Inr (), p\<lparr>fp_npages := of_nat (n div PAGE_SIZE)\<rparr>, d))"

definition fpgr_open :: "file_pager \<Rightarrow> disk \<Rightarrow> unit res \<times> file_pager \<times> disk" where
  "fpgr_open dest d =
     (case i_open d of
        (Inl e, d) \<Rightarrow> (Inl e, dest, d)
      | (Inr f, d) \<Rightarrow>
          (case fpgr_set_len (dest\<lparr>fp_f := f\<rparr>) d of
             (Inl e, dest, d) \<Rightarrow> (let (_, d) = i_close d in (Inl e, dest, d))
           | (Inr _, dest, d) \<Rightarrow> (Inr (), dest, d)))"

definition fpgr_close :: "file_pager \<Rightarrow> disk \<Rightarrow> unit res \<times> disk" where
  "fpgr_close f d = i_close d"

definition fpgr_reset :: "file_pager \<Rightarrow> disk \<Rightarrow> unit res \<times> file_pager \<times> disk" where
  "fpgr_reset f d =
     (case i_truncate d 0 of
        (Inl e, d) \<Rightarrow> (Inl e, f, d)
      | (Inr _, d) \<Rightarrow> (Inr (), f\<lparr>fp_npages := 0\<rparr>, d))"

text \<open>The number of pages is returned as a \<^verbatim>\<open>p_size\<close>, which has 32 bits.\<close>

definition fpgr_get_npages :: "file_pager \<Rightarrow> p_size" where
  "fpgr_get_npages fp = unat (fp_npages fp) mod 2 ^ 32"

definition fpgr_new :: "file_pager \<Rightarrow> disk \<Rightarrow> pgno res \<times> file_pager \<times> disk" where
  "fpgr_new p d =
     (case i_truncate d (of_nat PAGE_SIZE * (1 + fp_npages p)) of
        (Inl e, d) \<Rightarrow> (Inl e, p, d)
      | (Inr _, d) \<Rightarrow> (Inr (fp_npages p), p\<lparr>fp_npages := fp_npages p + 1\<rparr>, d))"

text \<open>A short read that is not empty passes.\<close>

definition fpgr_read :: "file_pager \<Rightarrow> disk \<Rightarrow> u8 list \<Rightarrow> pgno \<Rightarrow> (unit res \<times> u8 list \<times> disk) option" where
  "fpgr_read p d dest pgn =
     (if pgn \<ge> fp_npages p then Some (Inl ERR_PG_OUT_OF_RANGE, dest, d)
      else do {
        (r, dest, d) \<leftarrow> i_pread_all d dest (of_nat PAGE_SIZE) (pgn * of_nat PAGE_SIZE);
        Some (case r of
                Inl e \<Rightarrow> (Inl e, dest, d)
              | Inr nread \<Rightarrow> if nread = 0 then (Inl ERR_CORRUPT, dest, d) else (Inr (), dest, d)) })"

definition fpgr_delete :: "file_pager \<Rightarrow> pgno \<Rightarrow> unit res" where
  "fpgr_delete p pgn = Inr ()"

definition fpgr_write :: "file_pager \<Rightarrow> disk \<Rightarrow> u8 list \<Rightarrow> pgno \<Rightarrow> (unit res \<times> disk) option" where
  "fpgr_write p d src pgn = do {
     ASSERT (pgn < fp_npages p);
     i_pwrite_all d src (of_nat PAGE_SIZE) (pgn * of_nat PAGE_SIZE) }"

section \<open>An array of pages\<close>

text \<open>The contract: \<open>pages\<close> is the array, \<open>inv\<close> holds between operations, and \<open>room\<close> when the file can
  take one more page.\<close>

locale page_file =
  fixes inv :: "'s \<Rightarrow> bool"
    and room :: "'s \<Rightarrow> bool"
    and pages :: "'s \<Rightarrow> u8 list list"
    and fetch :: "'s \<Rightarrow> u8 list \<Rightarrow> pgno \<Rightarrow> (unit res \<times> u8 list \<times> 's) option"
    and put :: "'s \<Rightarrow> u8 list \<Rightarrow> pgno \<Rightarrow> (unit res \<times> 's) option"
    and extend :: "'s \<Rightarrow> pgno res \<times> 's"
  assumes page_length: "\<And>s x. inv s \<Longrightarrow> x \<in> set (pages s) \<Longrightarrow> length x = PAGE_SIZE"
    and few_pages: "\<And>s. inv s \<Longrightarrow> length (pages s) < 2 ^ 52"
    and read_page: "\<And>s dest pgn. inv s \<Longrightarrow> length dest = PAGE_SIZE \<Longrightarrow> unat pgn < length (pages s) \<Longrightarrow>
      \<exists>s'. fetch s dest pgn = Some (Inr (), pages s ! unat pgn, s') \<and> inv s' \<and> pages s' = pages s"
    and read_outside: "\<And>s dest pgn. inv s \<Longrightarrow> length (pages s) \<le> unat pgn \<Longrightarrow>
      fetch s dest pgn = Some (Inl ERR_PG_OUT_OF_RANGE, dest, s)"
    and write_page: "\<And>s src pgn. inv s \<Longrightarrow> length src = PAGE_SIZE \<Longrightarrow> unat pgn < length (pages s) \<Longrightarrow>
      \<exists>s'. put s src pgn = Some (Inr (), s') \<and> inv s' \<and> pages s' = (pages s)[unat pgn := src]"
    and extend_page: "\<And>s. inv s \<Longrightarrow> room s \<Longrightarrow>
      \<exists>s'. extend s = (Inr (of_nat (length (pages s))), s') \<and> inv s' \<and>
        pages s' = pages s @ [replicate PAGE_SIZE 0]"
begin

lemma write_then_read:
  assumes "inv s" "length src = PAGE_SIZE" "length dest = PAGE_SIZE" "unat pgn < length (pages s)"
  shows "\<exists>s1 s2. put s src pgn = Some (Inr (), s1) \<and> fetch s1 dest pgn = Some (Inr (), src, s2) \<and>
    inv s2 \<and> pages s2 = (pages s)[unat pgn := src]"
proof -
  from write_page [OF assms(1,2,4)] obtain s1 where
    s1: "put s src pgn = Some (Inr (), s1)" "inv s1" "pages s1 = (pages s)[unat pgn := src]" by blast
  from read_page [OF s1(2) assms(3), of pgn] s1(3) assms(4) obtain s2 where
    "fetch s1 dest pgn = Some (Inr (), src, s2)" "inv s2" "pages s2 = pages s1" by auto
  with s1 show ?thesis by metis
qed

lemma new_page_reads_zero:
  assumes "inv s" "room s" "length dest = PAGE_SIZE"
  shows "\<exists>pgn s1 s2. extend s = (Inr pgn, s1) \<and> unat pgn = length (pages s) \<and>
    fetch s1 dest pgn = Some (Inr (), replicate PAGE_SIZE 0, s2)"
proof -
  from extend_page [OF assms(1,2)] obtain s1 where
    s1: "extend s = (Inr (of_nat (length (pages s))), s1)" "inv s1"
      "pages s1 = pages s @ [replicate PAGE_SIZE 0]" by blast
  have n: "unat (of_nat (length (pages s)) :: pgno) = length (pages s)"
    using few_pages [OF assms(1)] by simp
  with read_page [OF s1(2) assms(3), of "of_nat (length (pages s))"] s1 show ?thesis by auto
qed

end

section \<open>The file is one\<close>

definition fpgr_pages :: "file_pager \<times> disk \<Rightarrow> u8 list list" where
  "fpgr_pages s = map (\<lambda>i. slice (d_data (snd s)) (i * PAGE_SIZE) PAGE_SIZE) [0..<unat (fp_npages (fst s))]"

definition fpgr_inv :: "file_pager \<times> disk \<Rightarrow> bool" where
  "fpgr_inv s \<longleftrightarrow> no_fail (snd s) \<and> length (d_data (snd s)) = unat (fp_npages (fst s)) * PAGE_SIZE \<and>
     length (d_data (snd s)) < 2 ^ 63"

definition fpgr_room :: "file_pager \<times> disk \<Rightarrow> bool" where
  "fpgr_room s \<longleftrightarrow> length (d_data (snd s)) + PAGE_SIZE < 2 ^ 63"

lemma length_fpgr_pages [simp]: "length (fpgr_pages s) = unat (fp_npages (fst s))"
  by (simp add: fpgr_pages_def)

lemma nth_fpgr_pages [simp]:
  "i < unat (fp_npages (fst s)) \<Longrightarrow> fpgr_pages s ! i = slice (d_data (snd s)) (i * PAGE_SIZE) PAGE_SIZE"
  by (simp add: fpgr_pages_def)

lemma page_end: "i < n \<Longrightarrow> i * PAGE_SIZE + PAGE_SIZE \<le> n * PAGE_SIZE"
  by (metis Suc_leI add.commute mult_Suc mult_le_mono1)

lemma page_mult:
  assumes "unat (x :: pgno) * PAGE_SIZE < 2 ^ 63"
  shows "unat (x * of_nat PAGE_SIZE) = unat x * PAGE_SIZE"
proof -
  have "unat x * PAGE_SIZE < 2 ^ 64" using assms by simp
  then show ?thesis by (simp add: unat_mult_lem [THEN iffD1])
qed

lemma page_ofst:
  assumes "unat (pgn :: pgno) < n" "n * PAGE_SIZE < 2 ^ 63"
  shows "unat (pgn * of_nat PAGE_SIZE) = unat pgn * PAGE_SIZE"
proof -
  have "unat pgn * PAGE_SIZE \<le> n * PAGE_SIZE" using assms(1) by simp
  with assms(2) have "unat pgn * PAGE_SIZE < 2 ^ 63" by (rule le_less_trans [rotated])
  then show ?thesis by (rule page_mult)
qed

lemma slice_file_put_other:
  assumes "ofst + length src \<le> length data" "o1 + n \<le> ofst \<or> ofst + length src \<le> o1"
  shows "slice (file_put data ofst src) o1 n = slice data o1 n"
proof -
  have "file_put data ofst src = splice data ofst src"
    using assms(1) by (simp add: file_put_def splice_def)
  with assms show ?thesis by (auto simp: slice_splice_before slice_splice_after)
qed

lemma fpgr_read_page:
  assumes inv: "fpgr_inv (p, d)" and dest: "length dest = PAGE_SIZE" and pgn: "unat pgn < unat (fp_npages p)"
  shows "\<exists>d'. fpgr_read p d dest pgn = Some (Inr (), fpgr_pages (p, d) ! unat pgn, d') \<and>
    d_data d' = d_data d \<and> d_durable d' = d_durable d \<and> no_fail d'"
proof -
  let ?n = "unat (fp_npages p)"
  have len: "length (d_data d) = ?n * PAGE_SIZE" "?n * PAGE_SIZE < 2 ^ 63" "no_fail d"
    using inv by (simp_all add: fpgr_inv_def)
  have o1: "unat (pgn * of_nat PAGE_SIZE) = unat pgn * PAGE_SIZE" using page_ofst [OF pgn len(2)] .
  have e: "unat pgn * PAGE_SIZE + PAGE_SIZE \<le> length (d_data d)" unfolding len(1) by (rule page_end [OF pgn])
  have "\<exists>r b d'. i_pread_all d dest (of_nat PAGE_SIZE) (pgn * of_nat PAGE_SIZE) = Some (r, b, d') \<and>
      pread_got d (unat (pgn * of_nat PAGE_SIZE)) (length dest) 0 dest r b d'"
    using e len dest unfolding o1 [symmetric] by (intro i_pread_all_correct) (auto simp: no_fail_def)
  then obtain r b d' where r: "i_pread_all d dest (of_nat PAGE_SIZE) (pgn * of_nat PAGE_SIZE) = Some (r, b, d')"
      "pread_got d (unat pgn * PAGE_SIZE) PAGE_SIZE 0 dest r b d'" unfolding o1 dest by blast
  have "r = Inr (of_nat PAGE_SIZE) \<and> b = fpgr_pages (p, d) ! unat pgn"
    using r(2) len(3) e pgn dest by (auto simp: pread_got_def no_fail_def splice_def Let_def)
  moreover have "\<not> fp_npages p \<le> pgn" using pgn by (simp add: word_le_nat_alt)
  ultimately show ?thesis
    using r no_fail_subset [OF len(3), of d'] by (auto simp: fpgr_read_def pread_got_def)
qed

lemma fpgr_write_page:
  assumes inv: "fpgr_inv (p, d)" and src: "length src = PAGE_SIZE" and pgn: "unat pgn < unat (fp_npages p)"
  shows "\<exists>d'. fpgr_write p d src pgn = Some (Inr (), d') \<and> fpgr_inv (p, d') \<and>
    fpgr_pages (p, d') = (fpgr_pages (p, d))[unat pgn := src] \<and> d_durable d' = d_durable d"
proof -
  let ?n = "unat (fp_npages p)"
  let ?o = "unat pgn * PAGE_SIZE"
  have len: "length (d_data d) = ?n * PAGE_SIZE" "?n * PAGE_SIZE < 2 ^ 63" "no_fail d"
    using inv by (simp_all add: fpgr_inv_def)
  have o1: "unat (pgn * of_nat PAGE_SIZE) = ?o" using page_ofst [OF pgn len(2)] .
  have e: "?o + PAGE_SIZE \<le> length (d_data d)" unfolding len(1) by (rule page_end [OF pgn])
  have "\<exists>r fp' d'. i_pwrite_all d src (of_nat PAGE_SIZE) (pgn * of_nat PAGE_SIZE) = Some (r, d') \<and>
      wrote \<lparr>f_pos = unat (pgn * of_nat PAGE_SIZE)\<rparr> d src r fp' d'"
    using e len src unfolding o1 [symmetric] by (intro i_pwrite_all_correct) (auto simp: no_fail_def)
  then obtain r fp' d' where r: "i_pwrite_all d src (of_nat PAGE_SIZE) (pgn * of_nat PAGE_SIZE) = Some (r, d')"
      "wrote \<lparr>f_pos = ?o\<rparr> d src r fp' d'" unfolding o1 by blast
  from r(2) len(3) have w: "r = Inr ()" "d_data d' = file_put (d_data d) ?o src" "d_durable d' = d_durable d"
    "set (d_env d') \<subseteq> set (d_env d)"
    by (auto simp: wrote_def no_fail_def)
  have src': "src \<noteq> []" using src by auto
  then have l: "length (d_data d') = length (d_data d)" using e src unfolding w(2) by (simp add: length_file_put)
  have nf: "no_fail d'" using no_fail_subset [OF len(3) w(4)] .
  have "fpgr_inv (p, d')" unfolding fpgr_inv_def using nf l len by simp
  moreover have "fpgr_pages (p, d') = (fpgr_pages (p, d))[unat pgn := src]"
  proof (rule nth_equalityI)
    show "length (fpgr_pages (p, d')) = length ((fpgr_pages (p, d))[unat pgn := src])" by simp
  next
    fix i assume "i < length (fpgr_pages (p, d'))"
    then have i: "i < ?n" by simp
    show "fpgr_pages (p, d') ! i = (fpgr_pages (p, d))[unat pgn := src] ! i"
    proof (cases "i = unat pgn")
      case True
      with i src e show ?thesis by (simp add: w(2) slice_file_put)
    next
      case False
      then have "i * PAGE_SIZE + PAGE_SIZE \<le> ?o \<or> ?o + PAGE_SIZE \<le> i * PAGE_SIZE"
        by (metis linorder_neqE_nat page_end)
      with i src e False show ?thesis by (simp add: w(2) slice_file_put_other)
    qed
  qed
  moreover have "pgn < fp_npages p" using pgn by (simp add: word_less_nat_alt)
  ultimately show ?thesis using r(1) w(1,3) by (simp add: fpgr_write_def)
qed

lemma fpgr_new_page:
  assumes inv: "fpgr_inv (p, d)" and room: "fpgr_room (p, d)"
  shows "\<exists>d'. fpgr_new p d = (Inr (fp_npages p), p\<lparr>fp_npages := fp_npages p + 1\<rparr>, d') \<and>
    fpgr_inv (p\<lparr>fp_npages := fp_npages p + 1\<rparr>, d') \<and> d_durable d' = d_durable d \<and>
    fpgr_pages (p\<lparr>fp_npages := fp_npages p + 1\<rparr>, d') = fpgr_pages (p, d) @ [replicate PAGE_SIZE 0] \<and>
    unat (fp_npages p + 1) = unat (fp_npages p) + 1"
proof -
  let ?n = "unat (fp_npages p)"
  let ?p = "p\<lparr>fp_npages := fp_npages p + 1\<rparr>"
  have len: "length (d_data d) = ?n * PAGE_SIZE" "?n * PAGE_SIZE + PAGE_SIZE < 2 ^ 63" "no_fail d"
    using inv room by (simp_all add: fpgr_inv_def fpgr_room_def)
  have n1: "unat (fp_npages p + 1) = ?n + 1"
    using len(2) by (subst unat_plus_simple [THEN iffD1]) (auto simp: no_olen_add_nat)
  have b: "unat (of_nat PAGE_SIZE * (1 + fp_npages p)) = (?n + 1) * PAGE_SIZE"
  proof -
    have "unat (fp_npages p + 1) * PAGE_SIZE < 2 ^ 63" using len(2) by (simp add: n1)
    from page_mult [OF this] show ?thesis unfolding n1 by (simp only: mult.commute add.commute)
  qed
  let ?eff = "\<lambda>d. d\<lparr>d_data := file_resize (d_data d) (unat (of_nat PAGE_SIZE * (1 + fp_npages p)))\<rparr>"
  have "d_env (?eff d) = d_env d" for d by simp
  from sys_call_no_fail [OF len(3) this] obtain d0 where
    d0: "sys_call ?eff d = (Inr (), ?eff d0)" "d_data d0 = d_data d" "d_durable d0 = d_durable d" "no_fail (?eff d0)"
    by blast
  define d1 where "d1 = ?eff d0"
  have new: "fpgr_new p d = (Inr (fp_npages p), ?p, d1)"
    unfolding fpgr_new_def i_truncate_def d0(1) d1_def by simp
  have data: "d_data (d1) = d_data d @ replicate PAGE_SIZE 0"
    unfolding d1_def b using len(1) d0(2) by (simp add: file_resize_def)
  have d1: "no_fail d1" "d_durable d1 = d_durable d" using d0(3,4) by (simp_all add: d1_def)
  have "fpgr_pages (?p, d1) = fpgr_pages (p, d) @ [replicate PAGE_SIZE 0]"
  proof (rule nth_equalityI)
    show "length (fpgr_pages (?p, d1)) = length (fpgr_pages (p, d) @ [replicate PAGE_SIZE 0])"
      by (simp add: n1)
  next
    fix i assume "i < length (fpgr_pages (?p, d1))"
    then have i: "i < ?n + 1" by (simp add: n1)
    show "fpgr_pages (?p, d1) ! i = (fpgr_pages (p, d) @ [replicate PAGE_SIZE 0]) ! i"
    proof (cases "i < ?n")
      case True
      note page_end [OF True]
      with True len(1) i show ?thesis by (simp add: data n1 nth_append slice_def)
    next
      case False
      with i have "i = ?n" by simp
      with len(1) show ?thesis by (simp add: data n1 nth_append slice_def)
    qed
  qed
  moreover have "fpgr_inv (?p, d1)"
    using d1(1) len by (simp only: fpgr_inv_def fst_conv snd_conv data) (simp add: n1)
  ultimately show ?thesis using new d1(2) n1 by (intro exI [of _ d1]) simp
qed

definition fpgr_st_read :: "file_pager \<times> disk \<Rightarrow> u8 list \<Rightarrow> pgno \<Rightarrow> (unit res \<times> u8 list \<times> file_pager \<times> disk) option" where
  "fpgr_st_read s dest pgn = do { (r, dest, d) \<leftarrow> fpgr_read (fst s) (snd s) dest pgn; Some (r, dest, fst s, d) }"

definition fpgr_st_write :: "file_pager \<times> disk \<Rightarrow> u8 list \<Rightarrow> pgno \<Rightarrow> (unit res \<times> file_pager \<times> disk) option" where
  "fpgr_st_write s src pgn = do { (r, d) \<leftarrow> fpgr_write (fst s) (snd s) src pgn; Some (r, fst s, d) }"

definition fpgr_st_new :: "file_pager \<times> disk \<Rightarrow> pgno res \<times> file_pager \<times> disk" where
  "fpgr_st_new s = fpgr_new (fst s) (snd s)"

interpretation fpgr: page_file fpgr_inv fpgr_room fpgr_pages fpgr_st_read fpgr_st_write fpgr_st_new
proof (unfold_locales, goal_cases)
  case (1 s x)
  then obtain i where i: "i < unat (fp_npages (fst s))" "x = fpgr_pages s ! i"
    by (auto simp: in_set_conv_nth)
  with 1 page_end [OF i(1)] show ?case by (simp add: fpgr_inv_def)
next
  case (2 s)
  then show ?case by (simp add: fpgr_inv_def)
next
  case (3 s dest pgn)
  with fpgr_read_page [of "fst s" "snd s" dest pgn] show ?case
    by (auto simp: fpgr_st_read_def fpgr_inv_def fpgr_pages_def)
next
  case (4 s dest pgn)
  then have "fp_npages (fst s) \<le> pgn" by (simp add: word_le_nat_alt)
  then show ?case by (simp add: fpgr_st_read_def fpgr_read_def)
next
  case (5 s src pgn)
  with fpgr_write_page [of "fst s" "snd s" src pgn] show ?case by (auto simp: fpgr_st_write_def)
next
  case (6 s)
  with fpgr_new_page [of "fst s" "snd s"] show ?case by (auto simp: fpgr_st_new_def)
qed

end
