(* ===== verification/Cbuffer.thy ===== *)
theory Cbuffer
  imports OS_File
begin

text \<open>
  \<^verbatim>\<open>libs/nscore/cbuffer.c\<close> and \<^verbatim>\<open>cbuffer.h\<close>: the circular byte buffer that moves data between
  user memory, the write-ahead log and the leaves of the R+tree.

  The state is the C struct: the backing array, its capacity, the next position to write
  (\<^verbatim>\<open>head\<close>), the next one to read (\<^verbatim>\<open>tail\<close>) and the flag that tells a full buffer from an
  empty one. The latch is not modelled: each operation runs under it as one step. A destination
  or source pointer is the list of bytes it points at; reading beyond that list is a failure, and the bytes an
  operation copies out are part of its result. The loops of the code are partial
  functions, so that their termination is proved and not assumed.

  \<open>cb_list\<close> is the queue the struct stands for, \<open>cb_wf\<close> its invariant. The lemmas of the last two
  sections show that every operation keeps the invariant and acts on the queue as its name
  says, for every split of the data across the end of the array. Capacities are bounded by
  \<open>2 ^ 31\<close>, because the code adds a position and a count before it reduces the sum modulo
  the capacity (the buffers of the program hold at most \<^verbatim>\<open>WAL_BUFFER_CAP\<close> = 1000000 bytes).
\<close>

record cbuffer =
  cb_data :: "u8 list"
  cb_cap :: nat
  cb_head :: nat
  cb_tail :: nat
  cb_isfull :: bool

section \<open>The operations\<close>

definition cbuffer_create :: "u8 list \<Rightarrow> nat \<Rightarrow> cbuffer option" where
  "cbuffer_create data cap = do {
     ASSERT (cap > 0);
     Some \<lparr>cb_data = data, cb_cap = cap, cb_head = 0, cb_tail = 0, cb_isfull = False\<rparr> }"

definition cbuffer_create_with :: "u8 list \<Rightarrow> nat \<Rightarrow> nat \<Rightarrow> cbuffer option" where
  "cbuffer_create_with data cap len = do {
     ASSERT (cap > 0);
     ASSERT (len \<le> cap);
     Some \<lparr>cb_data = data, cb_cap = cap, cb_head = len mod cap, cb_tail = 0,
           cb_isfull = (len = cap)\<rparr> }"

definition cbuffer_len :: "cbuffer \<Rightarrow> nat" where
  "cbuffer_len b =
     (if cb_isfull b then cb_cap b
      else if cb_tail b \<le> cb_head b then sub32 (cb_head b) (cb_tail b)
      else sub32 (cb_cap b) (sub32 (cb_tail b) (cb_head b)))"

definition cbuffer_assert :: "cbuffer \<Rightarrow> unit option" where
  "cbuffer_assert b = do {
     ASSERT (cb_cap b > 0);
     ASSERT (cb_isfull b \<longrightarrow> cb_tail b = cb_head b);
     ASSERT (cbuffer_len b \<le> cb_cap b) }"

definition cbuffer_isempty :: "cbuffer \<Rightarrow> bool option" where
  "cbuffer_isempty b = do {
     cbuffer_assert b;
     Some (\<not> cb_isfull b \<and> cb_head b = cb_tail b) }"

definition cbuffer_slen :: "cbuffer \<Rightarrow> nat \<Rightarrow> nat option" where
  "cbuffer_slen b sz = do {
     ASSERT (sz \<noteq> 0);
     ASSERT (cbuffer_len b mod sz = 0);
     Some (cbuffer_len b div sz) }"

definition cbuffer_avail :: "cbuffer \<Rightarrow> nat option" where
  "cbuffer_avail b = do {
     cbuffer_assert b;
     ASSERT (cb_cap b \<ge> cbuffer_len b);
     Some (sub32 (cb_cap b) (cbuffer_len b)) }"

definition cbuffer_savail :: "cbuffer \<Rightarrow> nat \<Rightarrow> nat option" where
  "cbuffer_savail b sz = do {
     cbuffer_assert b;
     ASSERT (cb_cap b \<ge> cbuffer_len b);
     ASSERT (sz \<noteq> 0);
     ASSERT (cbuffer_len b mod sz = 0);
     Some (sub32 (cb_cap b) (cbuffer_len b) div sz) }"

definition cbuffer_discard_all :: "cbuffer \<Rightarrow> cbuffer option" where
  "cbuffer_discard_all b = do {
     cbuffer_assert b;
     Some (b\<lparr>cb_tail := 0, cb_head := 0, cb_isfull := False\<rparr>) }"

text \<open>A \<^verbatim>\<open>struct bytes\<close> into the backing array: \<open>None\<close> for the null pointer, else the position
  of its first byte; and its length.\<close>

type_synonym cb_region = "nat option \<times> nat"

definition cbuffer_get_next_data_bytes :: "cbuffer \<Rightarrow> cb_region option" where
  "cbuffer_get_next_data_bytes b = do {
     cbuffer_assert b;
     Some (if cb_head b = cb_tail b \<and> \<not> cb_isfull b then (None, 0)
           else if cb_head b > cb_tail b
           then (Some (cb_tail b), sub32 (cb_head b) (cb_tail b))
           else (Some (cb_tail b), sub32 (cb_cap b) (cb_tail b))) }"

definition cbuffer_get_next_avail_bytes :: "cbuffer \<Rightarrow> cb_region option" where
  "cbuffer_get_next_avail_bytes b = do {
     cbuffer_assert b;
     Some (if cb_isfull b then (None, 0)
           else if cb_head b \<ge> cb_tail b
           then (Some (cb_head b), sub32 (cb_cap b) (cb_head b))
           else (Some (cb_head b), sub32 (cb_tail b) (cb_head b))) }"

definition cbuffer_fakewrite :: "cbuffer \<Rightarrow> nat \<Rightarrow> cbuffer option" where
  "cbuffer_fakewrite b nbytes = do {
     cbuffer_assert b;
     avail \<leftarrow> cbuffer_avail b;
     ASSERT (nbytes \<le> avail);
     let b = b\<lparr>cb_head := add32 (cb_head b) nbytes mod cb_cap b\<rparr>;
     Some (if nbytes > 0 \<and> cb_head b = cb_tail b then b\<lparr>cb_isfull := True\<rparr> else b) }"

definition cbuffer_fakeread :: "cbuffer \<Rightarrow> nat \<Rightarrow> cbuffer option" where
  "cbuffer_fakeread b nbytes = do {
     cbuffer_assert b;
     ASSERT (nbytes \<le> cbuffer_len b);
     let b = b\<lparr>cb_tail := add32 (cb_tail b) nbytes mod cb_cap b\<rparr>;
     Some (if nbytes > 0 then b\<lparr>cb_isfull := False\<rparr> else b) }"

subsection \<open>Raw reads and writes\<close>

partial_function (option) cb_read_loop ::
  "nat \<Rightarrow> nat \<Rightarrow> u8 list \<Rightarrow> cbuffer \<Rightarrow> (nat \<times> u8 list \<times> cbuffer) option" where
  "cb_read_loop btoread bread out b =
     (if bread < btoread then
        let next = (if \<not> cb_isfull b \<and> cb_head b > cb_tail b
                    then min (sub32 (cb_head b) (cb_tail b)) (sub32 btoread bread)
                    else min (sub32 (cb_cap b) (cb_tail b)) (sub32 btoread bread))
        in do {
          chunk \<leftarrow> mem_read (cb_data b) (cb_tail b) next;
          cb_read_loop btoread (add32 bread next) (out @ chunk)
            (b\<lparr>cb_tail := add32 (cb_tail b) next mod cb_cap b, cb_isfull := False\<rparr>) }
      else Some (bread, out, b))"

definition cbuffer_read :: "nat \<Rightarrow> nat \<Rightarrow> cbuffer \<Rightarrow> (nat \<times> u8 list \<times> cbuffer) option" where
  "cbuffer_read sz n b = do {
     cbuffer_assert b;
     ASSERT (sz > 0);
     ASSERT (n > 0);
     let len = cbuffer_len b div sz;
     let ntoread = (if n < len then n else len);
     let btoread = mul32 ntoread sz;
     (bread, out, b') \<leftarrow> cb_read_loop btoread 0 [] b;
     ASSERT (mul32 ntoread sz = bread);
     Some (ntoread, out, b') }"

definition cbuffer_read_expect :: "nat \<Rightarrow> nat \<Rightarrow> cbuffer \<Rightarrow> (u8 list \<times> cbuffer) option" where
  "cbuffer_read_expect sz n b = do {
     (read, out, b') \<leftarrow> cbuffer_read sz n b;
     ASSERT (read = n);
     Some (out, b') }"

text \<open>\<^verbatim>\<open>cbuffer_copy\<close> is the same loop over a local tail and a local full flag.\<close>

partial_function (option) cb_copy_loop ::
  "cbuffer \<Rightarrow> nat \<Rightarrow> nat \<Rightarrow> u8 list \<Rightarrow> nat \<Rightarrow> bool \<Rightarrow> (nat \<times> u8 list) option" where
  "cb_copy_loop b btoread bread out tail isfull =
     (if bread < btoread then
        let next = (if \<not> isfull \<and> cb_head b > tail
                    then min (sub32 (cb_head b) tail) (sub32 btoread bread)
                    else min (sub32 (cb_cap b) tail) (sub32 btoread bread))
        in do {
          chunk \<leftarrow> mem_read (cb_data b) tail next;
          cb_copy_loop b btoread (add32 bread next) (out @ chunk)
            (add32 tail next mod cb_cap b) False }
      else Some (bread, out))"

definition cbuffer_copy :: "nat \<Rightarrow> nat \<Rightarrow> cbuffer \<Rightarrow> (nat \<times> u8 list) option" where
  "cbuffer_copy sz n b = do {
     cbuffer_assert b;
     ASSERT (sz > 0);
     ASSERT (n > 0);
     let len = cbuffer_len b div sz;
     let ntoread = (if n < len then n else len);
     let btoread = mul32 ntoread sz;
     (bread, out) \<leftarrow> cb_copy_loop b btoread 0 [] (cb_tail b) (cb_isfull b);
     ASSERT (mul32 ntoread sz = bread);
     Some (ntoread, out) }"

partial_function (option) cb_write_loop ::
  "u8 list \<Rightarrow> nat \<Rightarrow> nat \<Rightarrow> cbuffer \<Rightarrow> (nat \<times> cbuffer) option" where
  "cb_write_loop input btowrite bwrite b =
     (if bwrite < btowrite then do {
        ASSERT (btowrite > bwrite);
        (next, b) \<leftarrow>
          (if cb_head b \<ge> cb_tail b then do {
             ASSERT (cb_cap b > cb_head b);
             let next = min (sub32 (cb_cap b) (cb_head b)) (sub32 btowrite bwrite);
             Some (if next = 0 then (cb_tail b, b\<lparr>cb_head := 0\<rparr>) else (next, b)) }
           else do {
             ASSERT (cb_tail b > cb_head b);
             Some (min (sub32 (cb_tail b) (cb_head b)) (sub32 btowrite bwrite), b) });
        chunk \<leftarrow> mem_read input bwrite next;
        data \<leftarrow> mem_write (cb_data b) (cb_head b) chunk;
        let b = b\<lparr>cb_data := data, cb_head := add32 (cb_head b) next mod cb_cap b\<rparr>;
        cb_write_loop input btowrite (add32 bwrite next)
          (if cb_head b = cb_tail b then b\<lparr>cb_isfull := True\<rparr> else b) }
      else Some (bwrite, b))"

definition cbuffer_write :: "u8 list \<Rightarrow> nat \<Rightarrow> nat \<Rightarrow> cbuffer \<Rightarrow> (nat \<times> cbuffer) option" where
  "cbuffer_write src sz n b = do {
     cbuffer_assert b;
     ASSERT (sz > 0);
     ASSERT (n > 0);
     ASSERT (cb_cap b \<ge> cbuffer_len b);
     let avail = sub32 (cb_cap b) (cbuffer_len b) div sz;
     let ntowrite = (if n < avail then n else avail);
     let btowrite = mul32 ntowrite sz;
     (bwrite, b') \<leftarrow> cb_write_loop src btowrite 0 b;
     ASSERT (mul32 ntowrite sz = bwrite);
     Some (ntowrite, b') }"

definition cbuffer_write_expect :: "u8 list \<Rightarrow> nat \<Rightarrow> nat \<Rightarrow> cbuffer \<Rightarrow> cbuffer option" where
  "cbuffer_write_expect src sz n b = do {
     (written, b') \<leftarrow> cbuffer_write src sz n b;
     ASSERT (written = n);
     Some b' }"

subsection \<open>Between two buffers\<close>

definition cbuffer_cbuffer_move ::
  "cbuffer \<Rightarrow> nat \<Rightarrow> nat \<Rightarrow> cbuffer \<Rightarrow> (nat \<times> cbuffer \<times> cbuffer) option" where
  \<comment> \<open>the count, the destination and the source afterwards\<close>
  "cbuffer_cbuffer_move dest sz cnt src = do {
     cbuffer_assert dest;
     cbuffer_assert src;
     ASSERT (sz > 0 \<and> cnt > 0);
     avail \<leftarrow> cbuffer_avail dest;
     let src_elems = cbuffer_len src div sz;
     let dst_space = avail div sz;
     let n = (if cnt < src_elems then cnt else src_elems);
     let n = (if dst_space < n then dst_space else n);
     if n = 0 then Some (0, dest, src) else do {
       let nbytes = mul32 n sz;
       let first = (if cb_isfull src \<or> cb_head src \<le> cb_tail src
                    then sub32 (cb_cap src) (cb_tail src)
                    else sub32 (cb_head src) (cb_tail src));
       let first = (if first > nbytes then nbytes else first);
       (_, dest) \<leftarrow> cbuffer_write (drop (cb_tail src) (cb_data src)) 1 first dest;
       let src = src\<lparr>cb_tail := add32 (cb_tail src) first mod cb_cap src, cb_isfull := False\<rparr>;
       let nbytes = sub32 nbytes first;
       if nbytes > 0 then do {
         (_, dest) \<leftarrow> cbuffer_write (drop (cb_tail src) (cb_data src)) 1 nbytes dest;
         Some (n, dest, src\<lparr>cb_tail := add32 (cb_tail src) nbytes mod cb_cap src\<rparr>) }
       else Some (n, dest, src) } }"

definition cbuffer_cbuffer_copy ::
  "cbuffer \<Rightarrow> nat \<Rightarrow> nat \<Rightarrow> cbuffer \<Rightarrow> (nat \<times> cbuffer) option" where
  "cbuffer_cbuffer_copy dest sz cnt src = do {
     cbuffer_assert dest;
     cbuffer_assert src;
     ASSERT (sz > 0 \<and> cnt > 0);
     avail \<leftarrow> cbuffer_avail dest;
     let src_elems = cbuffer_len src div sz;
     let dst_space = avail div sz;
     let n = (if cnt < src_elems then cnt else src_elems);
     let n = (if dst_space < n then dst_space else n);
     if n = 0 then Some (0, dest) else do {
       let nbytes = mul32 n sz;
       let pos = cb_tail src;
       let first = (if cb_isfull src \<or> cb_head src \<le> pos
                    then sub32 (cb_cap src) pos
                    else sub32 (cb_head src) pos);
       let first = (if first > nbytes then nbytes else first);
       (_, dest) \<leftarrow> cbuffer_write (drop pos (cb_data src)) 1 first dest;
       let pos = add32 pos first mod cb_cap src;
       let nbytes = sub32 nbytes first;
       if nbytes > 0 then do {
         (_, dest) \<leftarrow> cbuffer_write (drop pos (cb_data src)) 1 nbytes dest;
         Some (n, dest) }
       else Some (n, dest) } }"

subsection \<open>To and from files\<close>

text \<open>
  The two halves of a transfer: gather the one or two regions of the array that hold the next
  bytes and hand them to \<^verbatim>\<open>i_writev_all\<close> (\<^verbatim>\<open>i_readv_all\<close>), then move the tail (the head).
  The counts are returned as \<^verbatim>\<open>i32\<close>; a count that has no \<^verbatim>\<open>i32\<close> value is a failure here.
\<close>

definition to_i32 :: "nat \<Rightarrow> nat option" where
  "to_i32 n = (if n < 2147483648 then Some n else None)"

partial_function (option) cb_gather_loop ::
  "cbuffer \<Rightarrow> nat \<Rightarrow> nat \<Rightarrow> nat \<Rightarrow> u8 list list \<Rightarrow> u8 list list option" where
  "cb_gather_loop b btoread bread newtail iov =
     (if bread < btoread then
        let next = (if \<not> cb_isfull b \<and> cb_head b > newtail
                    then min (sub32 (cb_head b) newtail) (sub32 btoread bread)
                    else min (sub32 (cb_cap b) newtail) (sub32 btoread bread))
        in do {
          ASSERT (length iov < 2);
          chunk \<leftarrow> mem_read (cb_data b) newtail next;
          cb_gather_loop b btoread (add32 bread next)
            (add32 newtail next mod cb_cap b) (iov @ [chunk]) }
      else Some iov)"

definition cbuffer_write_to_file_1 ::
  "i_file \<Rightarrow> disk \<Rightarrow> cbuffer \<Rightarrow> nat \<Rightarrow> (nat res \<times> i_file \<times> disk) option" where
  "cbuffer_write_to_file_1 dest d b len = do {
     let btoread = min (cbuffer_len b) len;
     iov \<leftarrow> cb_gather_loop b btoread 0 (cb_tail b) [];
     if btoread = 0 then Some (Inr 0, dest, d)
     else do {
       (err, dest, d) \<leftarrow> i_writev_all dest d iov;
       case err of
         Inl e \<Rightarrow> Some (Inl e, dest, d)
       | Inr _ \<Rightarrow> do { ret \<leftarrow> to_i32 btoread; Some (Inr ret, dest, d) } } }"

definition cbuffer_write_to_file_1_expect ::
  "i_file \<Rightarrow> disk \<Rightarrow> cbuffer \<Rightarrow> nat \<Rightarrow> (unit res \<times> i_file \<times> disk) option" where
  "cbuffer_write_to_file_1_expect dest d b len = do {
     (ret, dest, d) \<leftarrow> cbuffer_write_to_file_1 dest d b len;
     case ret of
       Inl e \<Rightarrow> Some (Inl e, dest, d)
     | Inr written \<Rightarrow> do { ASSERT (written = len); Some (Inr (), dest, d) } }"

definition cbuffer_write_to_file_2 :: "cbuffer \<Rightarrow> nat \<Rightarrow> cbuffer option" where
  "cbuffer_write_to_file_2 b nwritten = do {
     cbuffer_assert b;
     ASSERT (nwritten \<le> cbuffer_len b);
     let b = b\<lparr>cb_tail := add32 (cb_tail b) nwritten mod cb_cap b\<rparr>;
     Some (if nwritten > 0 then b\<lparr>cb_isfull := False\<rparr> else b) }"

definition cbuffer_write_to_file ::
  "i_file \<Rightarrow> disk \<Rightarrow> cbuffer \<Rightarrow> nat \<Rightarrow> (nat res \<times> i_file \<times> disk \<times> cbuffer) option" where
  "cbuffer_write_to_file dest d b len = do {
     cbuffer_assert b;
     (ret, dest, d) \<leftarrow> cbuffer_write_to_file_1 dest d b len;
     case ret of
       Inl e \<Rightarrow> Some (Inl e, dest, d, b)
     | Inr result \<Rightarrow> do {
         b \<leftarrow> cbuffer_write_to_file_2 b result;
         Some (Inr result, dest, d, b) } }"

text \<open>The regions \<^verbatim>\<open>i_readv_all\<close> fills, as offset and size.\<close>

partial_function (option) cb_room_loop ::
  "cbuffer \<Rightarrow> nat \<Rightarrow> nat \<Rightarrow> nat \<Rightarrow> (nat \<times> nat) list \<Rightarrow> (nat \<times> nat) list option" where
  "cb_room_loop b btowrite bwrite newhead iov =
     (if bwrite < btowrite then do {
        next \<leftarrow>
          (if newhead \<ge> cb_tail b then do {
             ASSERT (cb_cap b > newhead);
             Some (min (sub32 (cb_cap b) newhead) (sub32 btowrite bwrite)) }
           else do {
             ASSERT (cb_tail b > newhead);
             Some (min (sub32 (cb_tail b) newhead) (sub32 btowrite bwrite)) });
        ASSERT (length iov < 2);
        cb_room_loop b btowrite (add32 bwrite next)
          (add32 newhead next mod cb_cap b) (iov @ [(newhead, next)]) }
      else Some iov)"

primrec cb_scatter :: "u8 list \<Rightarrow> (nat \<times> nat) list \<Rightarrow> u8 list \<Rightarrow> u8 list option" where
  "cb_scatter data [] bytes = Some data"
| "cb_scatter data (r # rs) bytes = do {
     data \<leftarrow> mem_write data (fst r) (take (snd r) bytes);
     cb_scatter data rs (drop (snd r) bytes) }"

definition cbuffer_read_from_file_1 ::
  "i_file \<Rightarrow> disk \<Rightarrow> cbuffer \<Rightarrow> nat \<Rightarrow> (nat res \<times> i_file \<times> disk \<times> cbuffer) option" where
  "cbuffer_read_from_file_1 src d b len = do {
     avail \<leftarrow> cbuffer_avail b;
     let btowrite = min avail len;
     iov \<leftarrow> cb_room_loop b btowrite 0 (cb_head b) [];
     if btowrite = 0 then Some (Inr 0, src, d, b)
     else do {
       (nread, src, d) \<leftarrow> i_readv_all src d (map snd iov);
       case nread of
         Inl e \<Rightarrow> Some (Inl e, src, d, b)
       | Inr bytes \<Rightarrow> do {
           data \<leftarrow> cb_scatter (cb_data b) iov bytes;
           ret \<leftarrow> to_i32 (length bytes);
           Some (Inr ret, src, d, b\<lparr>cb_data := data\<rparr>) } } }"

definition cbuffer_read_from_file_1_expect ::
  "i_file \<Rightarrow> disk \<Rightarrow> cbuffer \<Rightarrow> nat \<Rightarrow> (unit res \<times> i_file \<times> disk \<times> cbuffer) option" where
  "cbuffer_read_from_file_1_expect src d b len = do {
     (ret, src, d, b) \<leftarrow> cbuffer_read_from_file_1 src d b len;
     case ret of
       Inl e \<Rightarrow> Some (Inl e, src, d, b)
     | Inr nread \<Rightarrow> do { ASSERT (nread = len); Some (Inr (), src, d, b) } }"

definition cbuffer_read_from_file_2 :: "cbuffer \<Rightarrow> nat \<Rightarrow> cbuffer option" where
  "cbuffer_read_from_file_2 b nread = do {
     cbuffer_assert b;
     avail \<leftarrow> cbuffer_avail b;
     ASSERT (nread \<le> avail);
     let b = b\<lparr>cb_head := add32 (cb_head b) nread mod cb_cap b\<rparr>;
     Some (if cb_head b = cb_tail b \<and> nread > 0 then b\<lparr>cb_isfull := True\<rparr> else b) }"

definition cbuffer_read_from_file ::
  "i_file \<Rightarrow> disk \<Rightarrow> cbuffer \<Rightarrow> nat \<Rightarrow> (nat res \<times> i_file \<times> disk \<times> cbuffer) option" where
  "cbuffer_read_from_file src d b len = do {
     cbuffer_assert b;
     (ret, src, d, b) \<leftarrow> cbuffer_read_from_file_1 src d b len;
     case ret of
       Inl e \<Rightarrow> Some (Inl e, src, d, b)
     | Inr nread \<Rightarrow> do {
         b \<leftarrow> cbuffer_read_from_file_2 b nread;
         Some (Inr nread, src, d, b) } }"

subsection \<open>Single elements\<close>

definition cb_copy_out :: "cbuffer \<Rightarrow> nat \<Rightarrow> nat \<Rightarrow> u8 list option" where
  \<comment> \<open>\<^verbatim>\<open>size\<close> bytes from position \<^verbatim>\<open>offset\<close>, in one or two copies\<close>
  "cb_copy_out b offset sz =
     (if add32 offset sz \<le> cb_cap b then mem_read (cb_data b) offset sz
      else do {
        let first = sub32 (cb_cap b) offset;
        x \<leftarrow> mem_read (cb_data b) offset first;
        y \<leftarrow> mem_read (cb_data b) 0 (sub32 sz first);
        Some (x @ y) })"

definition cb_copy_in :: "cbuffer \<Rightarrow> nat \<Rightarrow> u8 list \<Rightarrow> nat \<Rightarrow> u8 list option" where
  "cb_copy_in b offset src sz =
     (if add32 offset sz \<le> cb_cap b then do {
        x \<leftarrow> mem_read src 0 sz;
        mem_write (cb_data b) offset x }
      else do {
        let first = sub32 (cb_cap b) offset;
        x \<leftarrow> mem_read src 0 first;
        data \<leftarrow> mem_write (cb_data b) offset x;
        y \<leftarrow> mem_read src first (sub32 sz first);
        mem_write data 0 y })"

definition cbuffer_get_no_check :: "nat \<Rightarrow> nat \<Rightarrow> cbuffer \<Rightarrow> u8 list option" where
  "cbuffer_get_no_check sz idx b = do {
     cbuffer_assert b;
     ASSERT (sz > 0);
     ASSERT (mul32 idx sz < cb_cap b);
     ASSERT (idx < cbuffer_len b div sz);
     cb_copy_out b (add32 (cb_tail b) (mul32 idx sz) mod cb_cap b) sz }"

definition cbuffer_get :: "nat \<Rightarrow> nat \<Rightarrow> cbuffer \<Rightarrow> u8 list option option" where
  \<comment> \<open>the inner option is the boolean result: \<open>None\<close> is false\<close>
  "cbuffer_get sz idx b = do {
     cbuffer_assert b;
     if \<not> cb_isfull b \<and> idx \<ge> sub32 (add32 (cb_head b) (cb_cap b)) (cb_tail b) mod cb_cap b
     then Some None
     else do { x \<leftarrow> cbuffer_get_no_check sz idx b; Some (Some x) } }"

definition cbuffer_peek_back :: "nat \<Rightarrow> cbuffer \<Rightarrow> u8 list option option" where
  "cbuffer_peek_back sz b = do {
     cbuffer_assert b;
     if \<not> cb_isfull b \<and> cb_head b = cb_tail b then Some None else cbuffer_get sz 0 b }"

definition cbuffer_peek_front :: "nat \<Rightarrow> cbuffer \<Rightarrow> u8 list option option" where
  "cbuffer_peek_front sz b = do {
     cbuffer_assert b;
     if \<not> cb_isfull b \<and> cb_head b = cb_tail b then Some None else cbuffer_get sz 0 b }"

definition cbuffer_push_back :: "u8 list \<Rightarrow> nat \<Rightarrow> cbuffer \<Rightarrow> (bool \<times> cbuffer) option" where
  "cbuffer_push_back src sz b = do {
     cbuffer_assert b;
     ASSERT (sz > 0);
     avail \<leftarrow> cbuffer_avail b;
     if avail < sz then Some (False, b) else do {
       data \<leftarrow> cb_copy_in b (cb_head b) src sz;
       let b = b\<lparr>cb_data := data, cb_head := add32 (cb_head b) sz mod cb_cap b\<rparr>;
       Some (True, if cb_head b = cb_tail b then b\<lparr>cb_isfull := True\<rparr> else b) } }"

definition cbuffer_push_front :: "u8 list \<Rightarrow> nat \<Rightarrow> cbuffer \<Rightarrow> (bool \<times> cbuffer) option" where
  "cbuffer_push_front src sz b = do {
     cbuffer_assert b;
     ASSERT (sz > 0);
     avail \<leftarrow> cbuffer_avail b;
     if avail < sz then Some (False, b) else do {
       let new_tail = sub32 (add32 (cb_tail b) (cb_cap b)) sz mod cb_cap b;
       data \<leftarrow> cb_copy_in b new_tail src sz;
       let b = b\<lparr>cb_data := data, cb_tail := new_tail\<rparr>;
       Some (True, if cb_head b = cb_tail b then b\<lparr>cb_isfull := True\<rparr> else b) } }"

definition cbuffer_pop_back :: "nat \<Rightarrow> cbuffer \<Rightarrow> (u8 list \<times> cbuffer) option option" where
  "cbuffer_pop_back sz b = do {
     cbuffer_assert b;
     ASSERT (sz > 0);
     if \<not> cb_isfull b \<and> cb_head b = cb_tail b then Some None
     else do {
       x \<leftarrow> cb_copy_out b (cb_tail b) sz;
       Some (Some (x, b\<lparr>cb_tail := add32 (cb_tail b) sz mod cb_cap b, cb_isfull := False\<rparr>)) } }"

definition cbuffer_pop_front :: "nat \<Rightarrow> cbuffer \<Rightarrow> (u8 list \<times> cbuffer) option option" where
  "cbuffer_pop_front sz b = do {
     cbuffer_assert b;
     ASSERT (sz > 0);
     if \<not> cb_isfull b \<and> cb_head b = cb_tail b then Some None
     else do {
       x \<leftarrow> cb_copy_out b (cb_tail b) sz;
       Some (Some (x, b\<lparr>cb_tail := add32 (cb_tail b) sz mod cb_cap b, cb_isfull := False\<rparr>)) } }"


section \<open>The queue behind the buffer\<close>

definition cb_wf :: "cbuffer \<Rightarrow> bool" where
  "cb_wf b \<longleftrightarrow> 0 < cb_cap b \<and> cb_cap b \<le> 2 ^ 31 \<and> length (cb_data b) = cb_cap b \<and>
     cb_head b < cb_cap b \<and> cb_tail b < cb_cap b \<and> (cb_isfull b \<longrightarrow> cb_head b = cb_tail b)"

definition cb_list :: "cbuffer \<Rightarrow> u8 list" where
  "cb_list b = map (\<lambda>i. cb_data b ! ((cb_tail b + i) mod cb_cap b)) [0..<cbuffer_len b]"

lemma cb_wfD:
  assumes "cb_wf b"
  shows "0 < cb_cap b" "cb_cap b \<le> 2147483648" "length (cb_data b) = cb_cap b"
    "cb_head b < cb_cap b" "cb_tail b < cb_cap b" "cb_isfull b \<Longrightarrow> cb_head b = cb_tail b"
  using assms by (simp_all add: cb_wf_def)

lemma cbuffer_len_nat:
  assumes "cb_wf b"
  shows "cbuffer_len b =
     (if cb_isfull b then cb_cap b
      else if cb_tail b \<le> cb_head b then cb_head b - cb_tail b
      else cb_cap b - (cb_tail b - cb_head b))"
  using cb_wfD [OF assms] by (auto simp: cbuffer_len_def wrap32)

lemma cbuffer_len_le: "cb_wf b \<Longrightarrow> cbuffer_len b \<le> cb_cap b"
  by (auto simp: cbuffer_len_nat dest: cb_wfD)

lemma length_cb_list [simp]: "length (cb_list b) = cbuffer_len b"
  by (simp add: cb_list_def)

lemma cb_list_nth:
  "i < cbuffer_len b \<Longrightarrow> cb_list b ! i = cb_data b ! ((cb_tail b + i) mod cb_cap b)"
  by (simp add: cb_list_def)

lemma cb_isfull_iff: "cb_wf b \<Longrightarrow> cb_isfull b \<longleftrightarrow> cbuffer_len b = cb_cap b"
  by (auto simp: cbuffer_len_nat dest: cb_wfD)

lemma cb_head_eq:
  assumes "cb_wf b"
  shows "cb_head b = (cb_tail b + cbuffer_len b) mod cb_cap b"
proof (cases "cb_tail b \<le> cb_head b \<and> \<not> cb_isfull b")
  case True
  with cb_wfD [OF assms] show ?thesis by (simp add: cbuffer_len_nat assms)
next
  case False
  with cb_wfD [OF assms] have "cb_tail b + cbuffer_len b = cb_head b + cb_cap b"
    by (auto simp: cbuffer_len_nat assms)
  with cb_wfD [OF assms] show ?thesis by simp
qed

lemma cb_wrap: "t < c \<Longrightarrow> L \<le> c \<Longrightarrow> (t + L) mod c = (if t + L < c then t + L else t + L - c)"
  for t L c :: nat
  by (auto simp: mod_if)

lemma cbuffer_len_eqI:
  assumes "cb_wf b" and "cb_head b = (cb_tail b + L) mod cb_cap b" and "L \<le> cb_cap b"
    and "cb_isfull b \<longleftrightarrow> L = cb_cap b"
  shows "cbuffer_len b = L"
  using assms(2-) cb_wfD [OF assms(1)]
  by (auto simp: cbuffer_len_nat [OF assms(1)] cb_wrap split: if_splits)

lemma cbuffer_assert_Some [simp]: "cb_wf b \<Longrightarrow> cbuffer_assert b = Some ()"
  by (simp add: cbuffer_assert_def cb_wfD cbuffer_len_le)

lemma cbuffer_avail_Some [simp]:
  assumes "cb_wf b"
  shows "cbuffer_avail b = Some (cb_cap b - cbuffer_len b)"
  using assms cb_wfD [OF assms] by (simp add: cbuffer_avail_def cbuffer_len_le wrap32)

lemma cb_list_eqI:
  assumes "cbuffer_len b = length xs"
    and "\<And>i. i < length xs \<Longrightarrow> cb_data b ! ((cb_tail b + i) mod cb_cap b) = xs ! i"
  shows "cb_list b = xs"
  using assms by (intro nth_equalityI) (simp_all add: cb_list_nth)

lemma cb_list_Nil_iff: "cb_list b = [] \<longleftrightarrow> cbuffer_len b = 0"
  by (metis length_0_conv length_cb_list)

lemma cbuffer_empty_iff:
  assumes "cb_wf b"
  shows "\<not> cb_isfull b \<and> cb_head b = cb_tail b \<longleftrightarrow> cb_list b = []"
  unfolding cb_list_Nil_iff cbuffer_len_nat [OF assms] using cb_wfD [OF assms] by auto

subsection \<open>Taking bytes off the front\<close>

definition cb_consume :: "cbuffer \<Rightarrow> nat \<Rightarrow> cbuffer" where
  "cb_consume b k = b\<lparr>cb_tail := (cb_tail b + k) mod cb_cap b, cb_isfull := cb_isfull b \<and> k = 0\<rparr>"

lemma cb_consume_0 [simp]: "cb_wf b \<Longrightarrow> cb_consume b 0 = b"
  by (simp add: cb_consume_def cb_wfD)

lemma cb_consume_add: "cb_consume (cb_consume b k) m = cb_consume b (k + m)"
  by (simp add: cb_consume_def mod_add_left_eq add.assoc)

lemma cb_consume_fields [simp]:
  "cb_cap (cb_consume b k) = cb_cap b" "cb_data (cb_consume b k) = cb_data b"
  "cb_head (cb_consume b k) = cb_head b"
  by (simp_all add: cb_consume_def)

lemma cb_consume_wf [simp]:
  assumes "cb_wf b"
  shows "cb_wf (cb_consume b k)"
  using cb_wfD [OF assms] by (auto simp: cb_wf_def cb_consume_def)

lemma cb_consume_len [simp]:
  assumes wf: "cb_wf b" and k: "k \<le> cbuffer_len b"
  shows "cbuffer_len (cb_consume b k) = cbuffer_len b - k"
proof (rule cbuffer_len_eqI)
  show "cb_wf (cb_consume b k)" using wf by simp
  show "cb_head (cb_consume b k) =
      (cb_tail (cb_consume b k) + (cbuffer_len b - k)) mod cb_cap (cb_consume b k)"
  proof -
    from k obtain m where "cbuffer_len b = k + m" by (auto dest: le_Suc_ex)
    with cb_head_eq [OF wf] show ?thesis
      by (simp add: cb_consume_def mod_add_left_eq add.assoc)
  qed
  show "cbuffer_len b - k \<le> cb_cap (cb_consume b k)"
    using cbuffer_len_le [OF wf] by simp
  show "cb_isfull (cb_consume b k) \<longleftrightarrow> cbuffer_len b - k = cb_cap (cb_consume b k)"
    using cb_isfull_iff [OF wf] cbuffer_len_le [OF wf] k cb_wfD(1) [OF wf]
    by (auto simp: cb_consume_def)
qed

lemma cb_consume_list [simp]:
  assumes "cb_wf b" and "k \<le> cbuffer_len b"
  shows "cb_list (cb_consume b k) = drop k (cb_list b)"
proof (rule cb_list_eqI)
  show "cbuffer_len (cb_consume b k) = length (drop k (cb_list b))" using assms by simp
next
  fix i assume "i < length (drop k (cb_list b))"
  then show "cb_data (cb_consume b k) !
      ((cb_tail (cb_consume b k) + i) mod cb_cap (cb_consume b k)) = drop k (cb_list b) ! i"
    using assms by (simp add: cb_list_nth cb_consume_def mod_add_left_eq add.assoc)
qed

lemma cb_read_chunk:
  assumes wf: "cb_wf b" and k: "k \<le> cbuffer_len b" and room: "cb_tail b + k \<le> cb_cap b"
  shows "mem_read (cb_data b) (cb_tail b) k = Some (take k (cb_list b))"
proof -
  have "slice (cb_data b) (cb_tail b) k = take k (cb_list b)"
    using cb_wfD [OF wf] k room
    by (intro nth_equalityI) (simp_all add: slice_def cb_list_nth)
  then show ?thesis using cb_wfD [OF wf] room by (simp add: mem_read_def)
qed

text \<open>The contiguous part at the tail that the loops read in one go.\<close>

definition cb_contig :: "cbuffer \<Rightarrow> nat" where
  "cb_contig b = (if \<not> cb_isfull b \<and> cb_head b > cb_tail b
                  then cb_head b - cb_tail b else cb_cap b - cb_tail b)"

lemma cb_contig:
  assumes "cb_wf b"
  shows "0 < cb_contig b" "cb_tail b + cb_contig b \<le> cb_cap b"
  using cb_wfD [OF assms] by (auto simp: cb_contig_def)

lemma cb_read_loop_correct:
  assumes "cb_wf b" and "btoread - bread \<le> cbuffer_len b"
    and "bread \<le> btoread" and "btoread < 4294967296"
  shows "cb_read_loop btoread bread out b =
    Some (btoread, out @ take (btoread - bread) (cb_list b), cb_consume b (btoread - bread))"
  using assms
proof (induction "btoread - bread" arbitrary: bread out b rule: less_induct)
  case less
  note wf = less.prems(1) and wfD = cb_wfD [OF less.prems(1)]
  show ?case
  proof (cases "bread < btoread")
    case False
    with less.prems show ?thesis by (simp add: cb_read_loop.simps)
  next
    case True
    define next' where "next' = min (cb_contig b) (btoread - bread)"
    have n: "0 < next'" "next' \<le> btoread - bread" "cb_tail b + next' \<le> cb_cap b"
      using True cb_contig [OF wf] by (auto simp: next'_def)
    have len: "next' \<le> cbuffer_len b" using n less.prems by simp
    have code: "(if \<not> cb_isfull b \<and> cb_head b > cb_tail b
        then min (sub32 (cb_head b) (cb_tail b)) (sub32 btoread bread)
        else min (sub32 (cb_cap b) (cb_tail b)) (sub32 btoread bread)) = next'"
      using wfD less.prems True by (simp add: next'_def cb_contig_def wrap32)
    have b': "b\<lparr>cb_tail := add32 (cb_tail b) next' mod cb_cap b, cb_isfull := False\<rparr>
        = cb_consume b next'"
      using n wfD by (simp add: cb_consume_def wrap32)
    have "cb_read_loop btoread bread out b =
        cb_read_loop btoread (bread + next') (out @ take next' (cb_list b)) (cb_consume b next')"
      using True n wfD less.prems
      by (subst cb_read_loop.simps)
        (simp only: code b' Let_def, simp add: cb_read_chunk [OF wf len n(3)] wrap32)
    also have "\<dots> = Some (btoread, (out @ take next' (cb_list b)) @
          take (btoread - (bread + next')) (cb_list (cb_consume b next')),
          cb_consume (cb_consume b next') (btoread - (bread + next')))"
      using n less.prems True by (intro less.hyps) (simp_all add: len wf)
    finally have "cb_read_loop btoread bread out b = \<dots>" .
    moreover have "take next' (cb_list b) @
        take (btoread - (bread + next')) (cb_list (cb_consume b next'))
        = take (btoread - bread) (cb_list b)"
      using n len wf by (simp flip: take_add)
    ultimately show ?thesis using n by (simp add: cb_consume_add)
  qed
qed

lemma cb_copy_loop_correct:
  "cb_copy_loop b btoread bread out (cb_tail c) (cb_isfull c) =
     map_option (\<lambda>(n, xs, _). (n, xs)) (cb_read_loop btoread bread out c)"
  if "cb_wf c" "btoread - bread \<le> cbuffer_len c" "bread \<le> btoread" "btoread < 4294967296"
    "cb_data b = cb_data c" "cb_cap b = cb_cap c" "cb_head b = cb_head c"
  using that
proof (induction "btoread - bread" arbitrary: bread out c rule: less_induct)
  case less
  note wf = less.prems(1) and wfD = cb_wfD [OF less.prems(1)]
  show ?case
  proof (cases "bread < btoread")
    case False
    with less.prems show ?thesis by (simp add: cb_read_loop.simps cb_copy_loop.simps)
  next
    case True
    define next' where "next' = min (cb_contig c) (btoread - bread)"
    have n: "0 < next'" "next' \<le> btoread - bread" "cb_tail c + next' \<le> cb_cap c"
      using True cb_contig [OF wf] by (auto simp: next'_def)
    have len: "next' \<le> cbuffer_len c" using n less.prems by simp
    have ov: "bread + next' < 4294967296" using n less.prems by simp
    have code: "(if \<not> cb_isfull c \<and> cb_head c > cb_tail c
        then min (sub32 (cb_head c) (cb_tail c)) (sub32 btoread bread)
        else min (sub32 (cb_cap c) (cb_tail c)) (sub32 btoread bread)) = next'"
      using wfD less.prems True by (simp add: next'_def cb_contig_def wrap32)
    have c': "c\<lparr>cb_tail := add32 (cb_tail c) next' mod cb_cap c, cb_isfull := False\<rparr>
        = cb_consume c next'"
      using n wfD by (simp add: cb_consume_def wrap32)
    have read: "cb_read_loop btoread bread out c =
        cb_read_loop btoread (bread + next') (out @ take next' (cb_list c)) (cb_consume c next')"
      using True n wfD less.prems
      by (subst cb_read_loop.simps)
        (simp only: code c' Let_def, simp add: cb_read_chunk [OF wf len n(3)] wrap32)
    have copy: "cb_copy_loop b btoread bread out (cb_tail c) (cb_isfull c) =
        cb_copy_loop b btoread (bread + next') (out @ take next' (cb_list c))
          (cb_tail (cb_consume c next')) (cb_isfull (cb_consume c next'))"
      using True n wfD less.prems
      by (subst cb_copy_loop.simps)
        (simp only: code less.prems Let_def,
         simp add: cb_read_chunk [OF wf len n(3)] wrap32 ov cb_consume_def)
    show ?thesis unfolding read copy
      using n less.prems True by (intro less.hyps) (simp_all add: len wf)
  qed
qed


subsection \<open>Putting bytes on the back\<close>

definition cb_produce :: "cbuffer \<Rightarrow> u8 list \<Rightarrow> cbuffer" where
  "cb_produce b src =
     (let h = (cb_head b + length src) mod cb_cap b
      in b\<lparr>cb_data := splice (cb_data b) (cb_head b) src, cb_head := h,
           cb_isfull := (if src = [] then cb_isfull b else h = cb_tail b)\<rparr>)"

lemma cb_produce_fields [simp]:
  "cb_cap (cb_produce b src) = cb_cap b" "cb_tail (cb_produce b src) = cb_tail b"
  by (simp_all add: cb_produce_def Let_def)

lemma cb_produce_wf:
  assumes "cb_wf b" and "cb_head b + length src \<le> cb_cap b"
  shows "cb_wf (cb_produce b src)"
  using cb_wfD [OF assms(1)] assms(2) by (auto simp: cb_wf_def cb_produce_def Let_def)

lemma cb_produce_len:
  assumes wf: "cb_wf b" and room: "length src \<le> cb_cap b - cbuffer_len b"
    and contig: "cb_head b + length src \<le> cb_cap b"
  shows "cbuffer_len (cb_produce b src) = cbuffer_len b + length src"
proof (rule cbuffer_len_eqI)
  show "cb_wf (cb_produce b src)" using cb_produce_wf [OF wf contig] .
  show "cb_head (cb_produce b src) =
      (cb_tail (cb_produce b src) + (cbuffer_len b + length src)) mod cb_cap (cb_produce b src)"
    by (simp add: cb_produce_def Let_def cb_head_eq [OF wf] mod_add_left_eq add.assoc)
  show le: "cbuffer_len b + length src \<le> cb_cap (cb_produce b src)"
    using room cbuffer_len_le [OF wf] by simp
  have "(cb_head b + length src) mod cb_cap b = (cb_tail b + (cbuffer_len b + length src)) mod cb_cap b"
    by (simp add: cb_head_eq [OF wf] mod_add_left_eq add.assoc)
  then show "cb_isfull (cb_produce b src) \<longleftrightarrow>
      cbuffer_len b + length src = cb_cap (cb_produce b src)"
    using le cb_wfD [OF wf] cb_isfull_iff [OF wf]
    by (cases "src = []")
      (auto simp: cb_produce_def Let_def cb_wrap [of "cb_tail b" "cb_cap b"] split: if_splits)
qed

lemma cb_produce_list:
  assumes wf: "cb_wf b" and room: "length src \<le> cb_cap b - cbuffer_len b"
    and contig: "cb_head b + length src \<le> cb_cap b"
  shows "cb_list (cb_produce b src) = cb_list b @ src"
proof (rule cb_list_eqI)
  show "cbuffer_len (cb_produce b src) = length (cb_list b @ src)"
    using cb_produce_len [OF assms] by simp
next
  fix i assume i: "i < length (cb_list b @ src)"
  let ?p = "(cb_tail b + i) mod cb_cap b"
  have le: "cbuffer_len b + length src \<le> cb_cap b"
    using room cbuffer_len_le [OF wf] by simp
  have p: "?p < length (cb_data b)" using cb_wfD [OF wf] by simp
  have data: "cb_data (cb_produce b src) ! ?p =
      (if cb_head b \<le> ?p \<and> ?p < cb_head b + length src then src ! (?p - cb_head b)
       else cb_data b ! ?p)"
    using p contig cb_wfD [OF wf] by (simp add: cb_produce_def Let_def nth_splice)
  show "cb_data (cb_produce b src) !
      ((cb_tail (cb_produce b src) + i) mod cb_cap (cb_produce b src)) = (cb_list b @ src) ! i"
  proof (cases "i < cbuffer_len b")
    case True
    have "\<not> (cb_head b \<le> ?p \<and> ?p < cb_head b + length src)"
      using True le contig cb_wfD [OF wf] cb_head_eq [OF wf]
      by (auto simp: cb_wrap [of "cb_tail b" "cb_cap b"] split: if_splits)
    with True data show ?thesis by (simp add: nth_append cb_list_nth)
  next
    case False
    then obtain j where j: "i = cbuffer_len b + j" "j < length src"
      using i by (metis add.commute add_less_cancel_right le_Suc_ex length_append
          length_cb_list linorder_not_less)
    then have "?p = (cb_head b + j) mod cb_cap b"
      by (simp add: cb_head_eq [OF wf] mod_add_left_eq add.assoc)
    also have "\<dots> = cb_head b + j" using j contig by simp
    finally show ?thesis using data j by (simp add: nth_append)
  qed
qed

lemmas cb_produce = cb_produce_wf cb_produce_len cb_produce_list

definition cb_room_contig :: "cbuffer \<Rightarrow> nat" where
  "cb_room_contig b = (if cb_head b \<ge> cb_tail b then cb_cap b - cb_head b else cb_tail b - cb_head b)"

lemma cb_room_contig:
  assumes "cb_wf b"
  shows "0 < cb_room_contig b" "cb_head b + cb_room_contig b \<le> cb_cap b"
  using cb_wfD [OF assms] by (auto simp: cb_room_contig_def)

lemma cb_write_loop_correct:
  assumes "cb_wf b" and "btowrite - bwrite \<le> cb_cap b - cbuffer_len b"
    and "bwrite \<le> btowrite" and "btowrite < 4294967296" and "btowrite \<le> length input"
  shows "\<exists>b'. cb_write_loop input btowrite bwrite b = Some (btowrite, b') \<and> cb_wf b' \<and>
    cb_list b' = cb_list b @ slice input bwrite (btowrite - bwrite) \<and>
    cb_cap b' = cb_cap b \<and> cb_tail b' = cb_tail b"
  using assms
proof (induction "btowrite - bwrite" arbitrary: bwrite b rule: less_induct)
  case less
  note wf = less.prems(1) and wfD = cb_wfD [OF less.prems(1)]
  show ?case
  proof (cases "bwrite < btowrite")
    case False
    with less.prems show ?thesis by (simp add: cb_write_loop.simps)
  next
    case True
    define k where "k = min (cb_room_contig b) (btowrite - bwrite)"
    define chunk where "chunk = slice input bwrite k"
    have k: "0 < k" "k \<le> btowrite - bwrite" "cb_head b + k \<le> cb_cap b"
      using True cb_room_contig [OF wf] by (auto simp: k_def)
    have chunk: "length chunk = k" "mem_read input bwrite k = Some chunk"
      using k less.prems by (simp_all add: chunk_def mem_read_def)
    have h: "add32 (cb_head b) k = cb_head b + k" "add32 bwrite k = bwrite + k" and ne: "chunk \<noteq> []"
      and ov: "cb_head b + k \<le> length (cb_data b)"
      using k wfD less.prems chunk by (auto simp: wrap32)
    have notfull: "\<not> cb_isfull b"
      using True less.prems(2) cb_isfull_iff [OF wf] by auto
    have nf: "b\<lparr>cb_data := d, cb_head := e, cb_isfull := False\<rparr> = b\<lparr>cb_data := d, cb_head := e\<rparr>" for d e
      using notfull by (cases b) simp
    have size: "length chunk \<le> cb_cap b - cbuffer_len b" "cb_head b + length chunk \<le> cb_cap b"
      using k chunk less.prems by auto
    let ?b1 = "cb_produce b chunk"
    note prod = cb_produce_wf [OF wf size(2)] cb_produce_len [OF wf size]
      cb_produce_list [OF wf size]
    have step: "(if cb_head b \<ge> cb_tail b then do {
             ASSERT (cb_cap b > cb_head b);
             let next = min (sub32 (cb_cap b) (cb_head b)) (sub32 btowrite bwrite);
             Some (if next = 0 then (cb_tail b, b\<lparr>cb_head := 0\<rparr>) else (next, b)) }
           else do {
             ASSERT (cb_tail b > cb_head b);
             Some (min (sub32 (cb_tail b) (cb_head b)) (sub32 btowrite bwrite), b) })
         = Some (k, b)"
      using wfD less.prems True k
      by (auto simp: k_def cb_room_contig_def wrap32 Let_def min_def)
    have "cb_write_loop input btowrite bwrite b =
        cb_write_loop input btowrite (bwrite + k) ?b1"
      using chunk
      by (subst cb_write_loop.simps, subst step)
        (simp add: True nf mem_write_def h ov ne cb_produce_def Let_def wfD k)
    moreover have "\<exists>b'. cb_write_loop input btowrite (bwrite + k) ?b1 = Some (btowrite, b') \<and>
        cb_wf b' \<and> cb_list b' = cb_list ?b1 @ slice input (bwrite + k) (btowrite - (bwrite + k)) \<and>
        cb_cap b' = cb_cap ?b1 \<and> cb_tail b' = cb_tail ?b1"
      using k True less.prems prod chunk by (intro less.hyps) auto
    moreover have "chunk @ slice input (bwrite + k) (btowrite - (bwrite + k)) =
        slice input bwrite (btowrite - bwrite)"
      using k slice_append [of input bwrite k "btowrite - (bwrite + k)"]
      by (simp add: chunk_def)
    ultimately show ?thesis by (auto simp: prod)
  qed
qed


section \<open>What the operations do to the queue\<close>

lemma cbuffer_create_correct:
  assumes "0 < cap" and "cap \<le> 2 ^ 31" and "length data = cap"
  shows "\<exists>b. cbuffer_create data cap = Some b \<and> cb_wf b \<and> cb_list b = [] \<and> cb_cap b = cap"
  using assms by (simp add: cbuffer_create_def cb_wf_def cb_list_def cbuffer_len_def wrap32)

lemma cbuffer_create_with_correct:
  assumes "0 < cap" and "cap \<le> 2 ^ 31" and "length data = cap" and "len \<le> cap"
  shows "\<exists>b. cbuffer_create_with data cap len = Some b \<and> cb_wf b \<and> cb_list b = take len data \<and>
    cb_cap b = cap"
proof -
  let ?b = "\<lparr>cb_data = data, cb_cap = cap, cb_head = len mod cap, cb_tail = 0,
    cb_isfull = (len = cap)\<rparr>"
  have wf: "cb_wf ?b" using assms by (auto simp: cb_wf_def)
  have len: "cbuffer_len ?b = len"
    by (rule cbuffer_len_eqI [OF wf]) (use assms in auto)
  have "cb_list ?b = take len data"
    using assms by (intro cb_list_eqI) (simp_all add: len min_absorb2 mod_less)
  with wf assms show ?thesis by (simp add: cbuffer_create_with_def)
qed

lemma div_mult_bound: "min n (len div sz) * sz \<le> len" for n len sz :: nat
  by (metis div_times_less_eq_dividend min.cobounded2 mult_le_mono1 order_trans)

lemma cbuffer_read_correct:
  assumes wf: "cb_wf b" and "0 < sz" and "0 < n"
  shows "cbuffer_read sz n b =
    (let k = min n (cbuffer_len b div sz)
     in Some (k, take (k * sz) (cb_list b), cb_consume b (k * sz)))"
proof -
  define k where "k = min n (cbuffer_len b div sz)"
  have le: "k * sz \<le> cbuffer_len b" unfolding k_def by (rule div_mult_bound)
  then have lt: "k * sz < 4294967296"
    using cbuffer_len_le [OF wf] cb_wfD [OF wf] by simp
  have k: "(if n < cbuffer_len b div sz then n else cbuffer_len b div sz) = k"
    by (simp add: k_def)
  show ?thesis
    unfolding cbuffer_read_def Let_def k using assms le lt
    by (simp add: cb_read_loop_correct wrap32 flip: k_def)
qed

lemma cbuffer_copy_correct:
  assumes wf: "cb_wf b" and "0 < sz" and "0 < n"
  shows "cbuffer_copy sz n b =
    (let k = min n (cbuffer_len b div sz) in Some (k, take (k * sz) (cb_list b)))"
proof -
  define k where "k = min n (cbuffer_len b div sz)"
  have le: "k * sz \<le> cbuffer_len b" unfolding k_def by (rule div_mult_bound)
  then have lt: "k * sz < 4294967296"
    using cbuffer_len_le [OF wf] cb_wfD [OF wf] by simp
  have k: "(if n < cbuffer_len b div sz then n else cbuffer_len b div sz) = k"
    by (simp add: k_def)
  show ?thesis
    unfolding cbuffer_copy_def Let_def k using assms le lt
    by (simp add: cb_copy_loop_correct cb_read_loop_correct wrap32 flip: k_def)
qed

lemma cbuffer_write_correct:
  assumes wf: "cb_wf b" and "0 < sz" and "0 < n"
    and src: "min n ((cb_cap b - cbuffer_len b) div sz) * sz \<le> length src"
  shows "\<exists>b'. cbuffer_write src sz n b = Some (min n ((cb_cap b - cbuffer_len b) div sz), b') \<and>
    cb_wf b' \<and> cb_cap b' = cb_cap b \<and>
    cb_list b' = cb_list b @ take (min n ((cb_cap b - cbuffer_len b) div sz) * sz) src"
proof -
  define k where "k = min n ((cb_cap b - cbuffer_len b) div sz)"
  have le: "k * sz \<le> cb_cap b - cbuffer_len b" unfolding k_def by (rule div_mult_bound)
  then have lt: "k * sz < 4294967296" using cb_wfD [OF wf] by simp
  obtain b' where b': "cb_write_loop src (k * sz) 0 b = Some (k * sz, b')" "cb_wf b'"
      "cb_list b' = cb_list b @ slice src 0 (k * sz)" "cb_cap b' = cb_cap b"
    using cb_write_loop_correct [of b "k * sz" 0 src] le lt src wf
    by (auto simp flip: k_def)
  have sub: "sub32 (cb_cap b) (cbuffer_len b) = cb_cap b - cbuffer_len b"
    using cb_wfD [OF wf] cbuffer_len_le [OF wf] by (simp add: wrap32)
  have k: "(if n < (cb_cap b - cbuffer_len b) div sz then n
      else (cb_cap b - cbuffer_len b) div sz) = k"
    by (simp add: k_def)
  have "cbuffer_write src sz n b = Some (k, b')"
    unfolding cbuffer_write_def Let_def sub k using assms(1-3) b'(1) lt cbuffer_len_le [OF wf]
    by (simp add: wrap32)
  with b' show ?thesis by (simp add: slice_def flip: k_def)
qed

text \<open>The form the transfers use: bytes that fit.\<close>

lemma cbuffer_write_bytes:
  assumes wf: "cb_wf b" and n: "0 < n" "n \<le> cb_cap b - cbuffer_len b" "n \<le> length src"
  shows "\<exists>b'. cbuffer_write src 1 n b = Some (n, b') \<and> cb_wf b' \<and> cb_cap b' = cb_cap b \<and>
    cb_list b' = cb_list b @ take n src"
  using cbuffer_write_correct [OF wf, of 1 n src] n by (simp add: min_absorb1)

lemma cbuffer_write_expect_correct:
  assumes "cb_wf b" and "0 < sz" and "0 < n" and "n * sz \<le> cb_cap b - cbuffer_len b"
    and "n * sz \<le> length src"
  shows "\<exists>b'. cbuffer_write_expect src sz n b = Some b' \<and> cb_wf b' \<and> cb_cap b' = cb_cap b \<and>
    cb_list b' = cb_list b @ take (n * sz) src"
proof -
  have "min n ((cb_cap b - cbuffer_len b) div sz) = n"
    using assms by (simp add: less_eq_div_iff_mult_less_eq min_absorb1)
  with cbuffer_write_correct [OF assms(1-3), of src] assms(5) show ?thesis
    by (auto simp: cbuffer_write_expect_def)
qed

lemma cbuffer_read_expect_correct:
  assumes "cb_wf b" and "0 < sz" and "0 < n" and "n * sz \<le> cbuffer_len b"
  shows "cbuffer_read_expect sz n b = Some (take (n * sz) (cb_list b), cb_consume b (n * sz))"
proof -
  have "min n (cbuffer_len b div sz) = n"
    using assms by (simp add: less_eq_div_iff_mult_less_eq min_absorb1)
  then show ?thesis
    using cbuffer_read_correct [OF assms(1-3)] by (simp add: cbuffer_read_expect_def)
qed

lemma cbuffer_discard_all_correct:
  assumes "cb_wf b"
  shows "\<exists>b'. cbuffer_discard_all b = Some b' \<and> cb_wf b' \<and> cb_list b' = [] \<and> cb_cap b' = cb_cap b"
  using assms cb_wfD [OF assms]
  by (simp add: cbuffer_discard_all_def cb_wf_def cb_list_def cbuffer_len_def wrap32)

lemma cbuffer_fakeread_correct:
  assumes "cb_wf b" and "n \<le> cbuffer_len b"
  shows "cbuffer_fakeread b n = Some (cb_consume b n)"
  using assms cb_wfD [OF assms(1)] cbuffer_len_le [OF assms(1)]
  by (auto simp: cbuffer_fakeread_def cb_consume_def wrap32 Let_def)

lemma cbuffer_write_to_file_2_correct:
  assumes "cb_wf b" and "n \<le> cbuffer_len b"
  shows "cbuffer_write_to_file_2 b n = Some (cb_consume b n)"
  using cbuffer_fakeread_correct [OF assms]
  by (simp add: cbuffer_fakeread_def cbuffer_write_to_file_2_def)

subsection \<open>Transfers between two buffers\<close>

lemma cb_src_chunk:
  assumes wf: "cb_wf b" and k: "k \<le> cbuffer_len b" and room: "cb_tail b + k \<le> cb_cap b"
  shows "take k (drop (cb_tail b) (cb_data b)) = take k (cb_list b)"
  using cb_read_chunk [OF assms] by (simp add: mem_read_def slice_def split: if_splits)

text \<open>The two writes of a transfer put the first \<open>nbytes\<close> bytes of the source's queue behind
  the destination's.\<close>

lemma cb_two_writes:
  assumes dwf: "cb_wf dest" and swf: "cb_wf src" and nb: "0 < nb" "nb \<le> cbuffer_len src"
    and room: "nb \<le> cb_cap dest - cbuffer_len dest"
    and first: "first = min (cb_contig src) nb"
  shows "\<exists>d1. cbuffer_write (drop (cb_tail src) (cb_data src)) 1 first dest = Some (first, d1) \<and>
    cb_wf d1 \<and> cb_cap d1 = cb_cap dest \<and> cb_list d1 = cb_list dest @ take first (cb_list src) \<and>
    (0 < nb - first \<longrightarrow> (\<exists>d2.
       cbuffer_write (drop ((cb_tail src + first) mod cb_cap src) (cb_data src)) 1 (nb - first) d1
         = Some (nb - first, d2) \<and>
       cb_wf d2 \<and> cb_cap d2 = cb_cap dest \<and> cb_list d2 = cb_list dest @ take nb (cb_list src)))"
proof -
  note sD = cb_wfD [OF swf]
  have f: "0 < first" "first \<le> nb" "cb_tail src + first \<le> cb_cap src"
    using first nb cb_contig [OF swf] by auto
  have bnd: "first \<le> cb_cap dest - cbuffer_len dest" "first \<le> length (drop (cb_tail src) (cb_data src))"
    using f room sD(3) by simp_all
  obtain d1 where d1: "cbuffer_write (drop (cb_tail src) (cb_data src)) 1 first dest = Some (first, d1)"
      "cb_wf d1" "cb_cap d1 = cb_cap dest"
      "cb_list d1 = cb_list dest @ take first (drop (cb_tail src) (cb_data src))"
    using cbuffer_write_bytes [OF dwf f(1) bnd] by (elim exE conjE) (rule that)
  have c1: "take first (drop (cb_tail src) (cb_data src)) = take first (cb_list src)"
    using f nb by (intro cb_src_chunk swf) auto
  have len1: "cbuffer_len d1 = cbuffer_len dest + first"
    using arg_cong [OF d1(4), of length] f sD by simp
  let ?s = "cb_consume src first"
  have rest: "\<exists>d2. cbuffer_write (drop ((cb_tail src + first) mod cb_cap src) (cb_data src)) 1 (nb - first) d1
         = Some (nb - first, d2) \<and>
       cb_wf d2 \<and> cb_cap d2 = cb_cap dest \<and> cb_list d2 = cb_list dest @ take nb (cb_list src)"
    if r: "0 < nb - first"
  proof -
    have fc: "first = cb_contig src" using first r by auto
    then have wrapped: "\<not> (\<not> cb_isfull src \<and> cb_head src > cb_tail src)"
      using r nb cbuffer_len_nat [OF swf] sD by (auto simp: cb_contig_def split: if_splits)
    then have z: "(cb_tail src + first) mod cb_cap src = 0"
      using fc sD by (auto simp: cb_contig_def)
    have s: "cb_tail ?s = 0" "cb_data ?s = cb_data src" "cb_wf ?s"
      using cb_consume_wf [OF swf, of first] z by (simp_all add: cb_consume_def)
    have l: "nb - first \<le> cbuffer_len ?s" "nb - first \<le> cb_cap src"
      using nb f swf cbuffer_len_le [OF swf] by auto
    have c2: "take (nb - first) (drop 0 (cb_data src)) = take (nb - first) (drop first (cb_list src))"
      using cb_src_chunk [OF s(3), of "nb - first"] l s f nb swf by (simp del: drop_0)
    have "\<exists>d2. cbuffer_write (drop 0 (cb_data src)) 1 (nb - first) d1 = Some (nb - first, d2) \<and>
       cb_wf d2 \<and> cb_cap d2 = cb_cap d1 \<and>
       cb_list d2 = cb_list d1 @ take (nb - first) (drop 0 (cb_data src))"
      using r room len1 d1 l sD f by (intro cbuffer_write_bytes) auto
    moreover have "take first (cb_list src) @ take (nb - first) (drop first (cb_list src)) =
        take nb (cb_list src)"
      using f take_add [of first "nb - first" "cb_list src"] by simp
    ultimately show ?thesis using z d1 c1 c2 by auto
  qed
  with d1 c1 show ?thesis by auto
qed

lemma cb_first_eq:
  assumes "cb_wf src"
  shows "(if cb_isfull src \<or> cb_head src \<le> cb_tail src
          then sub32 (cb_cap src) (cb_tail src) else sub32 (cb_head src) (cb_tail src)) = cb_contig src"
  using cb_wfD [OF assms] by (auto simp: cb_contig_def wrap32)

definition cb_transfer :: "cbuffer \<Rightarrow> nat \<Rightarrow> nat \<Rightarrow> cbuffer \<Rightarrow> nat" where
  "cb_transfer dest sz cnt src =
     min cnt (min (cbuffer_len src div sz) ((cb_cap dest - cbuffer_len dest) div sz))"

lemma cb_transfer_bounds:
  "cb_transfer dest sz cnt src * sz \<le> cbuffer_len src"
  "cb_transfer dest sz cnt src * sz \<le> cb_cap dest - cbuffer_len dest"
proof -
  have "cb_transfer dest sz cnt src * sz \<le> cbuffer_len src div sz * sz"
    "cb_transfer dest sz cnt src * sz \<le> (cb_cap dest - cbuffer_len dest) div sz * sz"
    by (auto simp: cb_transfer_def intro: mult_le_mono1)
  then show "cb_transfer dest sz cnt src * sz \<le> cbuffer_len src"
    "cb_transfer dest sz cnt src * sz \<le> cb_cap dest - cbuffer_len dest"
    using div_times_less_eq_dividend order_trans by blast+
qed

lemma cbuffer_cbuffer_copy_correct:
  assumes dwf: "cb_wf dest" and swf: "cb_wf src" and pos: "0 < sz" "0 < cnt"
  shows "\<exists>dest'. cbuffer_cbuffer_copy dest sz cnt src = Some (cb_transfer dest sz cnt src, dest') \<and>
    cb_wf dest' \<and> cb_cap dest' = cb_cap dest \<and>
    cb_list dest' = cb_list dest @ take (cb_transfer dest sz cnt src * sz) (cb_list src)"
proof -
  define n where "n = cb_transfer dest sz cnt src"
  note sD = cb_wfD [OF swf] and dD = cb_wfD [OF dwf]
  have bounds: "n * sz \<le> cbuffer_len src" "n * sz \<le> cb_cap dest - cbuffer_len dest"
    unfolding n_def by (rule cb_transfer_bounds)+
  have n: "(if (cb_cap dest - cbuffer_len dest) div sz <
        (if cnt < cbuffer_len src div sz then cnt else cbuffer_len src div sz)
      then (cb_cap dest - cbuffer_len dest) div sz
      else if cnt < cbuffer_len src div sz then cnt else cbuffer_len src div sz) = n"
    by (auto simp: n_def cb_transfer_def)
  show ?thesis
  proof (cases "n = 0")
    case True
    with assms n show ?thesis by (simp add: cbuffer_cbuffer_copy_def Let_def flip: n_def)
  next
    case False
    define nb where "nb = n * sz"
    define first where "first = min (cb_contig src) nb"
    have nb: "0 < nb" "nb \<le> cbuffer_len src" "nb \<le> cb_cap dest - cbuffer_len dest"
      using False pos bounds by (simp_all add: nb_def)
    have lt: "nb < 4294967296" "mul32 n sz = nb"
      using nb dD by (simp_all add: nb_def wrap32)
    have f: "(if nb < cb_contig src then nb else cb_contig src) = first" "first \<le> nb"
        "cb_tail src + first \<le> cb_cap src"
      using cb_contig [OF swf] by (auto simp: first_def)
    have ar: "sub32 nb first = nb - first" "add32 (cb_tail src) first = cb_tail src + first"
      using f lt sD by (simp_all add: wrap32)
    obtain d1 where d1: "cbuffer_write (drop (cb_tail src) (cb_data src)) 1 first dest = Some (first, d1)"
        "cb_wf d1" "cb_cap d1 = cb_cap dest" "cb_list d1 = cb_list dest @ take first (cb_list src)"
      and d2: "0 < nb - first \<longrightarrow> (\<exists>d2.
         cbuffer_write (drop ((cb_tail src + first) mod cb_cap src) (cb_data src)) 1 (nb - first) d1
           = Some (nb - first, d2) \<and>
         cb_wf d2 \<and> cb_cap d2 = cb_cap dest \<and> cb_list d2 = cb_list dest @ take nb (cb_list src))"
      using cb_two_writes [OF dwf swf nb first_def] by (elim exE conjE) (rule that)
    have code: "cbuffer_cbuffer_copy dest sz cnt src =
       (if 0 < nb - first then do {
          (_, dest) \<leftarrow> cbuffer_write (drop ((cb_tail src + first) mod cb_cap src) (cb_data src)) 1
                          (nb - first) d1;
          Some (n, dest) }
        else Some (n, d1))"
      unfolding cbuffer_cbuffer_copy_def Let_def cb_first_eq [OF swf] cbuffer_avail_Some [OF dwf]
        Option.bind.bind_lunit n lt(2) f(1) ar
      by (simp add: dwf swf pos d1(1)[simplified] False)
    show ?thesis
    proof (cases "0 < nb - first")
      case True
      with d2 code show ?thesis by (auto simp flip: n_def nb_def)
    next
      case no: False
      with f have "first = nb" by simp
      with no d1 code show ?thesis by (simp flip: n_def nb_def)
    qed
  qed
qed

lemma cb_consume_fields_pos:
  "0 < k \<Longrightarrow> cb_consume b k = b\<lparr>cb_tail := (cb_tail b + k) mod cb_cap b, cb_isfull := False\<rparr>"
  by (simp add: cb_consume_def)

lemma cbuffer_cbuffer_move_copy:
  assumes dwf: "cb_wf dest" and swf: "cb_wf src" and pos: "0 < sz" "0 < cnt"
  shows "cbuffer_cbuffer_move dest sz cnt src =
    map_option (\<lambda>(n, d). (n, d, cb_consume src (n * sz))) (cbuffer_cbuffer_copy dest sz cnt src)"
proof -
  define n where "n = cb_transfer dest sz cnt src"
  note sD = cb_wfD [OF swf] and dD = cb_wfD [OF dwf]
  have bounds: "n * sz \<le> cbuffer_len src" "n * sz \<le> cb_cap dest - cbuffer_len dest"
    unfolding n_def by (rule cb_transfer_bounds)+
  have n: "(if (cb_cap dest - cbuffer_len dest) div sz <
        (if cnt < cbuffer_len src div sz then cnt else cbuffer_len src div sz)
      then (cb_cap dest - cbuffer_len dest) div sz
      else if cnt < cbuffer_len src div sz then cnt else cbuffer_len src div sz) = n"
    by (auto simp: n_def cb_transfer_def)
  show ?thesis
  proof (cases "n = 0")
    case True
    with assms n show ?thesis
      by (simp add: cbuffer_cbuffer_copy_def cbuffer_cbuffer_move_def Let_def flip: n_def)
  next
    case False
    define nb where "nb = n * sz"
    define first where "first = min (cb_contig src) nb"
    have nb: "0 < nb" "nb \<le> cbuffer_len src" "nb \<le> cb_cap dest - cbuffer_len dest"
      using False pos bounds by (simp_all add: nb_def)
    have lt: "nb < 4294967296" "mul32 n sz = nb"
      using nb dD by (simp_all add: nb_def wrap32)
    have f: "(if nb < cb_contig src then nb else cb_contig src) = first" "first \<le> nb" "0 < first"
        "cb_tail src + first \<le> cb_cap src"
      using cb_contig [OF swf] nb by (auto simp: first_def)
    have ar: "sub32 nb first = nb - first" "add32 (cb_tail src) first = cb_tail src + first"
      using f lt sD by (simp_all add: wrap32)
    have r: "(cb_tail src + first) mod cb_cap src + (nb - first) < 4294967296"
    proof -
      have "(cb_tail src + first) mod cb_cap src < cb_cap src" using sD by simp
      then show ?thesis using nb sD dD by linarith
    qed
    have e: "((cb_tail src + first) mod cb_cap src + (nb - first)) mod cb_cap src =
        (cb_tail src + nb) mod cb_cap src"
      unfolding mod_add_left_eq using f by simp
    have two: "cb_consume src nb = src\<lparr>cb_isfull := False,
        cb_tail := ((cb_tail src + first) mod cb_cap src + (nb - first)) mod cb_cap src\<rparr>"
      unfolding e using nb by (simp add: cb_consume_fields_pos)
    have one: "nb \<le> first \<Longrightarrow> cb_consume src nb = src\<lparr>cb_isfull := False,
        cb_tail := (cb_tail src + first) mod cb_cap src\<rparr>"
      using f nb by (simp add: cb_consume_fields_pos)
    show ?thesis
      unfolding cbuffer_cbuffer_copy_def cbuffer_cbuffer_move_def Let_def cb_first_eq [OF swf]
        cbuffer_avail_Some [OF dwf] Option.bind.bind_lunit n lt(2) f(1) ar
      using False pos
      by (auto simp: dwf swf map_option_bind comp_def split: bind_splits simp flip: nb_def)
        (simp_all add: two one add32_exact [OF r])
  qed
qed

lemma cbuffer_cbuffer_move_correct:
  assumes "cb_wf dest" and "cb_wf src" and "0 < sz" and "0 < cnt"
  shows "\<exists>dest' src'. cbuffer_cbuffer_move dest sz cnt src =
      Some (cb_transfer dest sz cnt src, dest', src') \<and>
    cb_wf dest' \<and> cb_cap dest' = cb_cap dest \<and> cb_wf src' \<and> cb_cap src' = cb_cap src \<and>
    cb_list dest' = cb_list dest @ take (cb_transfer dest sz cnt src * sz) (cb_list src) \<and>
    cb_list src' = drop (cb_transfer dest sz cnt src * sz) (cb_list src)"
  using cbuffer_cbuffer_copy_correct [OF assms] cbuffer_cbuffer_move_copy [OF assms] assms(2)
    cb_transfer_bounds(1) [of dest sz cnt src]
  by (elim exE conjE) (simp only: option.map prod.case, simp)

subsection \<open>Files\<close>

text \<open>The regions handed to \<^verbatim>\<open>i_writev_all\<close> are at most two and hold the front of the queue.\<close>

lemma cb_gather_correct:
  assumes wf: "cb_wf b" and n: "n \<le> cbuffer_len b"
  shows "\<exists>iov. cb_gather_loop b n 0 (cb_tail b) [] = Some iov \<and> length iov \<le> 2 \<and>
    concat iov = take n (cb_list b)"
proof -
  note D = cb_wfD [OF wf]
  have lt: "n < 4294967296" using n cbuffer_len_le [OF wf] D by simp
  define k where "k = min (cb_contig b) n"
  have k: "k \<le> n" "cb_tail b + k \<le> cb_cap b"
    using cb_contig [OF wf] by (auto simp: k_def)
  have code: "0 < n \<Longrightarrow> (if \<not> cb_isfull b \<and> cb_head b > cb_tail b
      then min (sub32 (cb_head b) (cb_tail b)) (sub32 n 0)
      else min (sub32 (cb_cap b) (cb_tail b)) (sub32 n 0)) = k"
    using D lt by (simp add: k_def cb_contig_def wrap32)
  have ar: "add32 0 k = k" "add32 (cb_tail b) k = cb_tail b + k"
    using k D lt by (simp_all add: wrap32)
  have c1: "mem_read (cb_data b) (cb_tail b) k = Some (take k (cb_list b))"
    using k n by (intro cb_read_chunk [OF wf]) auto
  have first: "0 < n \<Longrightarrow> cb_gather_loop b n 0 (cb_tail b) [] =
      cb_gather_loop b n k ((cb_tail b + k) mod cb_cap b) [take k (cb_list b)]"
    by (subst cb_gather_loop.simps, subst code) (simp_all add: c1 ar Let_def)
  consider "n = 0" | "0 < n" "k = n" | "0 < n" "k < n" using k by linarith
  then show ?thesis
  proof cases
    case 1
    then show ?thesis by (simp add: cb_gather_loop.simps)
  next
    case 2
    then show ?thesis using first by (simp add: cb_gather_loop.simps)
  next
    case 3
    then have kc: "k = cb_contig b" by (simp add: k_def)
    have wrapped: "\<not> (\<not> cb_isfull b \<and> cb_head b > cb_tail b)"
      using 3 kc n cbuffer_len_nat [OF wf] D by (auto simp: cb_contig_def split: if_splits)
    then have tl: "(cb_tail b + k) mod cb_cap b = 0" using kc D by (auto simp: cb_contig_def)
    have rest: "n - k \<le> cb_cap b" "\<not> cb_isfull b \<Longrightarrow> n - k \<le> cb_head b"
      using 3 wrapped kc n cbuffer_len_nat [OF wf] cbuffer_len_le [OF wf] D
      by (auto simp: cb_contig_def split: if_splits)
    have nk: "(if \<not> cb_isfull b \<and> cb_head b > 0
        then min (sub32 (cb_head b) 0) (sub32 n k)
        else min (sub32 (cb_cap b) 0) (sub32 n k)) = n - k"
      using rest 3 lt D by (simp add: wrap32)
    have c2: "mem_read (cb_data b) 0 (n - k) = Some (take (n - k) (drop k (cb_list b)))"
    proof -
      have "cb_tail (cb_consume b k) = 0" using tl by (simp add: cb_consume_def)
      then show ?thesis
        using cb_read_chunk [of "cb_consume b k" "n - k"] wf n 3 k rest by simp
    qed
    have "cb_gather_loop b n k 0 [take k (cb_list b)] =
        Some [take k (cb_list b), take (n - k) (drop k (cb_list b))]"
      using 3 lt
      by (subst cb_gather_loop.simps, subst nk) (simp add: c2 Let_def wrap32 cb_gather_loop.simps)
    moreover have "take k (cb_list b) @ take (n - k) (drop k (cb_list b)) = take n (cb_list b)"
      using 3 take_add [of k "n - k" "cb_list b"] by simp
    ultimately show ?thesis using first 3 tl by simp
  qed
qed

lemma cbuffer_write_to_file_1_correct:
  fixes b :: cbuffer and len :: nat
  defines "n \<equiv> min (cbuffer_len b) len"
  assumes wf: "cb_wf b" and small: "n < 2147483648"
  shows "\<exists>r fp' d'. wrote fp d (take n (cb_list b)) r fp' d' \<and>
    cbuffer_write_to_file_1 fp d b len = Some (map_sum id (\<lambda>_. n) r, fp', d')"
proof (cases "n = 0")
  case True
  then have "cbuffer_write_to_file_1 fp d b len = Some (Inr 0, fp, d)"
    by (simp add: cbuffer_write_to_file_1_def Let_def n_def [symmetric] cb_gather_loop.simps)
  with True wrote_refl [of fp d] show ?thesis
    by (intro exI [of _ "Inr ()"] exI [of _ fp] exI [of _ d]) simp
next
  case False
  have n: "n \<le> cbuffer_len b" by (simp add: n_def)
  obtain iov where iov: "cb_gather_loop b n 0 (cb_tail b) [] = Some iov" "length iov \<le> 2"
      "concat iov = take n (cb_list b)"
    using cb_gather_correct [OF wf n] by blast
  have "length (concat iov) = n" using n iov(3) by simp
  then have ne: "concat iov \<noteq> []" "iov \<noteq> []" using False by (metis list.size(3), metis concat.simps(1) list.size(3))
  obtain r fp' d' where w: "i_writev_all fp d iov = Some (r, fp', d')" "wrote fp d (concat iov) r fp' d'"
    using i_writev_all_correct [OF ne(2) iov(2) ne(1)] by blast
  have "cbuffer_write_to_file_1 fp d b len = Some (map_sum id (\<lambda>_. n) r, fp', d')"
    using False iov(1) w(1) small
    by (simp add: cbuffer_write_to_file_1_def Let_def n_def [symmetric] to_i32_def split: sum.split)
  with w(2) iov(3) show ?thesis by auto
qed

lemma cbuffer_write_to_file_correct:
  fixes b :: cbuffer and len :: nat
  defines "n \<equiv> min (cbuffer_len b) len"
  assumes wf: "cb_wf b" and small: "n < 2147483648"
  shows "\<exists>r fp' d'. wrote fp d (take n (cb_list b)) r fp' d' \<and>
    cbuffer_write_to_file fp d b len =
      Some (case r of Inl e \<Rightarrow> (Inl e, fp', d', b) | Inr _ \<Rightarrow> (Inr n, fp', d', cb_consume b n))"
proof -
  have n: "n \<le> cbuffer_len b" by (simp add: n_def)
  obtain r fp' d' where w: "wrote fp d (take n (cb_list b)) r fp' d'"
      "cbuffer_write_to_file_1 fp d b len = Some (map_sum id (\<lambda>_. n) r, fp', d')"
    using cbuffer_write_to_file_1_correct [OF wf, of len fp d] small unfolding n_def by blast
  have "cbuffer_write_to_file fp d b len =
      Some (case r of Inl e \<Rightarrow> (Inl e, fp', d', b) | Inr _ \<Rightarrow> (Inr n, fp', d', cb_consume b n))"
    using wf w(2) n
    by (auto simp: cbuffer_write_to_file_def cbuffer_write_to_file_2_correct split: sum.split)
  with w(1) show ?thesis by blast
qed

subsection \<open>Elements\<close>

lemma cb_copy_out_correct:
  assumes wf: "cb_wf b" and k: "sz \<le> cbuffer_len b"
  shows "cb_copy_out b (cb_tail b) sz = Some (take sz (cb_list b))"
proof -
  note D = cb_wfD [OF wf]
  have lt: "cb_tail b + sz < 4294967296" using k cbuffer_len_le [OF wf] D by simp
  show ?thesis
  proof (cases "cb_tail b + sz \<le> cb_cap b")
    case True
    then show ?thesis using lt k by (simp add: cb_copy_out_def wrap32 cb_read_chunk [OF wf])
  next
    case False
    define first where "first = cb_cap b - cb_tail b"
    have f: "first < sz" "cb_tail b + first \<le> cb_cap b" "cb_tail b + first = cb_cap b"
      using False D by (auto simp: first_def)
    have s: "sub32 (cb_cap b) (cb_tail b) = first" "sub32 sz first = sz - first"
      using D f lt by (simp_all add: wrap32 first_def)
    have c1: "mem_read (cb_data b) (cb_tail b) first = Some (take first (cb_list b))"
      using f k by (intro cb_read_chunk [OF wf]) auto
    have c2: "mem_read (cb_data b) 0 (sz - first) = Some (take (sz - first) (drop first (cb_list b)))"
    proof -
      have "cb_tail (cb_consume b first) = 0" using f by (simp add: cb_consume_def)
      then show ?thesis
        using cb_read_chunk [of "cb_consume b first" "sz - first"] wf k f
          cbuffer_len_le [OF wf] by simp
    qed
    have "take first (cb_list b) @ take (sz - first) (drop first (cb_list b)) = take sz (cb_list b)"
      using f take_add [of first "sz - first" "cb_list b"] by simp
    then show ?thesis using False lt by (simp add: cb_copy_out_def wrap32 s c1 c2)
  qed
qed

text \<open>\<open>cbuffer_push_back\<close> puts one element, in one or two pieces.\<close>

lemma cb_produce_noupd:
  "\<not> cb_isfull b \<Longrightarrow> src \<noteq> [] \<Longrightarrow> cb_head b + length src \<le> cb_cap b \<Longrightarrow>
   cb_head c = (cb_head b + length src) mod cb_cap b \<Longrightarrow>
   cb_data c = splice (cb_data b) (cb_head b) src \<Longrightarrow> cb_cap c = cb_cap b \<Longrightarrow>
   cb_tail c = cb_tail b \<Longrightarrow> cb_isfull c = (cb_head c = cb_tail b) \<Longrightarrow> cb_produce b src = c"
  by (cases b; cases c) (simp add: cb_produce_def Let_def)

lemma cbuffer_push_back_correct:
  assumes wf: "cb_wf b" and pos: "0 < sz" and src: "sz \<le> length src"
  shows "\<exists>b'. cbuffer_push_back src sz b = Some (sz \<le> cb_cap b - cbuffer_len b, b') \<and> cb_wf b' \<and>
    cb_cap b' = cb_cap b \<and>
    cb_list b' = (if sz \<le> cb_cap b - cbuffer_len b then cb_list b @ take sz src else cb_list b)"
proof (cases "sz \<le> cb_cap b - cbuffer_len b")
  case False
  with assms show ?thesis by (simp add: cbuffer_push_back_def)
next
  case room: True
  note D = cb_wfD [OF wf]
  have nf: "\<not> cb_isfull b" using cb_isfull_iff [OF wf] room pos by auto
  have lt: "cb_head b + sz < 4294967296" using room D by simp
  show ?thesis
  proof (cases "cb_head b + sz \<le> cb_cap b")
    case True
    define b' where "b' = cb_produce b (take sz src)"
    have fit: "length (take sz src) \<le> cb_cap b - cbuffer_len b"
        "cb_head b + length (take sz src) \<le> cb_cap b" using room True src by auto
    have "take sz src \<noteq> []" using pos src by auto
    then have "cbuffer_push_back src sz b = Some (True, b')"
      using True room wf pos src lt nf D
      by (auto simp: cbuffer_push_back_def cb_copy_in_def wrap32 mem_read_def mem_write_def slice_def
          Let_def b'_def intro!: cb_produce_noupd [symmetric])
    with room show ?thesis
      by (simp add: b'_def cb_produce_wf [OF wf fit(2)] cb_produce_list [OF wf fit])
  next
    case False
    define first where "first = cb_cap b - cb_head b"
    define s1 where "s1 = take first src"
    define s2 where "s2 = take (sz - first) (drop first src)"
    have f: "0 < first" "first < sz" "cb_head b + first = cb_cap b" using False D by (auto simp: first_def)
    have ls: "length s1 = first" "length s2 = sz - first" using f src by (simp_all add: s1_def s2_def)
    have ne: "s1 \<noteq> []" "s2 \<noteq> []" using ls f by auto
    define b1 where "b1 = cb_produce b s1"
    have fit1: "length s1 \<le> cb_cap b - cbuffer_len b" "cb_head b + length s1 \<le> cb_cap b"
      using f ls room by simp_all
    have b1: "cb_wf b1" "cbuffer_len b1 = cbuffer_len b + first" "cb_list b1 = cb_list b @ s1"
      using cb_produce_wf [OF wf fit1(2)] cb_produce_len [OF wf fit1] cb_produce_list [OF wf fit1]
      by (simp_all add: b1_def ls)
    have h1: "cb_head b1 = 0" "cb_cap b1 = cb_cap b" "cb_data b1 = splice (cb_data b) (cb_head b) s1"
        "cb_tail b1 = cb_tail b"
      using f ls by (simp_all add: b1_def cb_produce_def Let_def)
    define b2 where "b2 = cb_produce b1 s2"
    have fit2: "length s2 \<le> cb_cap b1 - cbuffer_len b1" "cb_head b1 + length s2 \<le> cb_cap b1"
      using f ls room h1 b1 by simp_all
    have b2: "cb_wf b2" "cb_list b2 = cb_list b @ s1 @ s2"
      using cb_produce_wf [OF b1(1) fit2(2)] cb_produce_list [OF b1(1) fit2] b1
      by (simp_all add: b2_def)
    have nf1: "\<not> cb_isfull b1" using cb_isfull_iff [OF b1(1)] fit2 ls f h1 by auto
    have hd: "(cb_head b + sz) mod cb_cap b = sz - first"
    proof -
      have "cb_head b + sz = cb_cap b + (sz - first)" using f by simp
      moreover have "sz - first < cb_cap b" using f room by simp
      ultimately show ?thesis by simp
    qed
    have ar: "add32 (cb_head b) sz = cb_head b + sz" "sub32 (cb_cap b) (cb_head b) = first"
        "sub32 sz first = sz - first"
      using lt D f by (simp_all add: wrap32 first_def)
    have r: "mem_read src 0 first = Some s1" "mem_read src first (sz - first) = Some s2"
      using f src by (simp_all add: mem_read_def slice_def s1_def s2_def)
    have w: "mem_write (cb_data b) (cb_head b) s1 = Some (cb_data b1)"
        "mem_write (cb_data b1) 0 s2 = Some (splice (cb_data b1) 0 s2)"
      using f ls D h1 fit2 cb_wfD [OF b1(1)] by (simp_all add: mem_write_def)
    have "(if sz - first = cb_tail b
        then b\<lparr>cb_data := splice (cb_data b1) 0 s2, cb_head := cb_tail b, cb_isfull := True\<rparr>
        else b\<lparr>cb_data := splice (cb_data b1) 0 s2, cb_head := sz - first\<rparr>) = b2"
      unfolding b2_def using h1 ls ne nf1 fit2 nf f room
      by (intro cb_produce_noupd [symmetric]) auto
    then have "cbuffer_push_back src sz b = Some (True, b2)"
      using False room wf pos D
      by (simp add: cbuffer_push_back_def cb_copy_in_def ar hd r w Let_def split: if_splits)
    moreover have "s1 @ s2 = take sz src"
      using f take_add [of first "sz - first" src] by (simp add: s1_def s2_def)
    moreover have "cb_cap b2 = cb_cap b" by (simp add: b2_def h1)
    ultimately show ?thesis using b2 room by auto
  qed
qed

lemma cbuffer_pop_front_correct:
  assumes wf: "cb_wf b" and pos: "0 < sz" and len: "cbuffer_len b = 0 \<or> sz \<le> cbuffer_len b"
  shows "cbuffer_pop_front sz b =
    Some (if cb_list b = [] then None else Some (take sz (cb_list b), cb_consume b sz))"
proof (cases "cb_list b = []")
  case True
  with cbuffer_empty_iff [OF wf] wf pos show ?thesis by (simp add: cbuffer_pop_front_def)
next
  case False
  then have le: "sz \<le> cbuffer_len b" using len by (simp add: cb_list_Nil_iff)
  have "add32 (cb_tail b) sz = cb_tail b + sz"
    using le cbuffer_len_le [OF wf] cb_wfD [OF wf] by (simp add: wrap32)
  with False cbuffer_empty_iff [OF wf] wf pos cb_copy_out_correct [OF wf le] show ?thesis
    by (auto simp: cbuffer_pop_front_def cb_consume_fields_pos)
qed

lemma cbuffer_pop_back_eq: "cbuffer_pop_back = cbuffer_pop_front"
  by (intro ext) (simp add: cbuffer_pop_back_def cbuffer_pop_front_def)

lemma cbuffer_peek_front_correct:
  assumes wf: "cb_wf b" and pos: "0 < sz" and len: "cbuffer_len b = 0 \<or> sz \<le> cbuffer_len b"
  shows "cbuffer_peek_front sz b =
    Some (if cb_list b = [] then None else Some (take sz (cb_list b)))"
proof (cases "cb_list b = []")
  case True
  with cbuffer_empty_iff [OF wf] wf pos show ?thesis by (simp add: cbuffer_peek_front_def)
next
  case False
  note D = cb_wfD [OF wf]
  have le: "sz \<le> cbuffer_len b" using len False by (simp add: cb_list_Nil_iff)
  have idx: "\<not> (\<not> cb_isfull b \<and> 0 \<ge> sub32 (add32 (cb_head b) (cb_cap b)) (cb_tail b) mod cb_cap b)"
  proof -
    have "sub32 (add32 (cb_head b) (cb_cap b)) (cb_tail b) = cb_head b + cb_cap b - cb_tail b"
      using D by (simp add: wrap32)
    moreover have "0 < (cb_head b + cb_cap b - cb_tail b) mod cb_cap b" if "cb_head b \<noteq> cb_tail b"
      using D that by (cases "cb_tail b \<le> cb_head b") (auto simp: mod_if)
    ultimately show ?thesis using False cbuffer_empty_iff [OF wf] by auto
  qed
  have div: "0 < cbuffer_len b div sz" using le pos by (simp add: div_greater_zero_iff)
  show ?thesis
    using False idx div cbuffer_empty_iff [OF wf] wf pos D cb_copy_out_correct [OF wf le]
    by (auto simp: cbuffer_peek_front_def cbuffer_get_def cbuffer_get_no_check_def wrap32)
qed


section \<open>The interface: a byte queue of bounded capacity\<close>

text \<open>
  What the log and the leaf code rely on, whatever the buffer is: bytes that fit are appended,
  bytes that are there come out in order, and everything else is a failed assertion.
\<close>

locale byte_queue =
  fixes inv :: "'s \<Rightarrow> bool"
    and contents :: "'s \<Rightarrow> u8 list"
    and cap :: "'s \<Rightarrow> nat"
    and put :: "u8 list \<Rightarrow> 's \<Rightarrow> 's option"
    and get :: "nat \<Rightarrow> 's \<Rightarrow> (u8 list \<times> 's) option"
  assumes put_ok: "\<lbrakk>inv s; bs \<noteq> []; length (contents s) + length bs \<le> cap s\<rbrakk> \<Longrightarrow>
      \<exists>s'. put bs s = Some s' \<and> inv s' \<and> cap s' = cap s \<and> contents s' = contents s @ bs"
    and put_full: "\<lbrakk>inv s; bs = [] \<or> cap s < length (contents s) + length bs\<rbrakk> \<Longrightarrow> put bs s = None"
    and get_ok: "\<lbrakk>inv s; 0 < n; n \<le> length (contents s)\<rbrakk> \<Longrightarrow>
      \<exists>s'. get n s = Some (take n (contents s), s') \<and> inv s' \<and> cap s' = cap s \<and>
        contents s' = drop n (contents s)"
    and get_short: "\<lbrakk>inv s; n = 0 \<or> length (contents s) < n\<rbrakk> \<Longrightarrow> get n s = None"

datatype q_op = Put "u8 list" | Get nat

primrec q_put :: "q_op \<Rightarrow> u8 list" where
  "q_put (Put bs) = bs"
| "q_put (Get n) = []"

fun q_run :: "(u8 list \<Rightarrow> 's \<Rightarrow> 's option) \<Rightarrow> (nat \<Rightarrow> 's \<Rightarrow> (u8 list \<times> 's) option) \<Rightarrow>
    q_op list \<Rightarrow> 's \<Rightarrow> (u8 list \<times> 's) option" where
  "q_run put get [] s = Some ([], s)"
| "q_run put get (Put bs # ops) s = do { s \<leftarrow> put bs s; q_run put get ops s }"
| "q_run put get (Get n # ops) s = do {
     (x, s) \<leftarrow> get n s;
     (out, s) \<leftarrow> q_run put get ops s;
     Some (x @ out, s) }"

text \<open>The schedules that fit: \<open>n\<close> bytes are queued, \<open>c\<close> is the capacity.\<close>

fun q_fits :: "nat \<Rightarrow> nat \<Rightarrow> q_op list \<Rightarrow> bool" where
  "q_fits c n [] = True"
| "q_fits c n (Put bs # ops) = (bs \<noteq> [] \<and> n + length bs \<le> c \<and> q_fits c (n + length bs) ops)"
| "q_fits c n (Get k # ops) = (0 < k \<and> k \<le> n \<and> q_fits c (n - k) ops)"

context byte_queue
begin

lemma run_ok:
  assumes "inv s" and "q_fits (cap s) (length (contents s)) ops"
  shows "\<exists>out s'. q_run put get ops s = Some (out, s') \<and> inv s' \<and>
    out @ contents s' = contents s @ concat (map q_put ops)"
  using assms
proof (induction ops arbitrary: s)
  case Nil
  then show ?case by simp
next
  case (Cons a ops)
  show ?case
  proof (cases a)
    case (Put bs)
    with Cons.prems obtain s1 where s1: "put bs s = Some s1" "inv s1" "cap s1 = cap s"
        "contents s1 = contents s @ bs"
      using put_ok [of s bs] by auto
    with Cons.IH [of s1] Cons.prems Put show ?thesis by auto
  next
    case (Get k)
    with Cons.prems obtain s1 where s1: "get k s = Some (take k (contents s), s1)" "inv s1"
        "cap s1 = cap s" "contents s1 = drop k (contents s)"
      using get_ok [of s k] by auto
    with Cons.prems Get have "q_fits (cap s1) (length (contents s1)) ops" by simp
    with Cons.IH [OF s1(2)] obtain out s' where "q_run put get ops s1 = Some (out, s')" "inv s'"
        "out @ contents s' = contents s1 @ concat (map q_put ops)" by blast
    moreover from this(3) s1(4)
    have "take k (contents s) @ out @ contents s' = contents s @ concat (map q_put ops)"
      by (metis append.assoc append_take_drop_id)
    ultimately show ?thesis using s1(1) Get by simp
  qed
qed

lemma run_fits:
  assumes "inv s" and "q_run put get ops s = Some r"
  shows "q_fits (cap s) (length (contents s)) ops"
  using assms
proof (induction ops arbitrary: s r)
  case Nil
  then show ?case by simp
next
  case (Cons a ops)
  show ?case
  proof (cases a)
    case (Put bs)
    then obtain s1 where s1: "put bs s = Some s1" "q_run put get ops s1 = Some r"
      using Cons.prems by (auto simp: bind_eq_Some_conv)
    then have fit: "bs \<noteq> []" "length (contents s) + length bs \<le> cap s"
      using put_full [OF Cons.prems(1), of bs] by fastforce+
    with put_ok [OF Cons.prems(1) fit] s1 Cons.IH [of s1 r] Put show ?thesis by simp
  next
    case (Get k)
    then obtain x s1 r' where s1: "get k s = Some (x, s1)" "q_run put get ops s1 = Some r'"
      using Cons.prems by (auto simp: bind_eq_Some_conv)
    then have fit: "0 < k" "k \<le> length (contents s)"
      using get_short [OF Cons.prems(1), of k] by fastforce+
    with get_ok [OF Cons.prems(1) fit] s1 Cons.IH [of s1 r'] Get show ?thesis by auto
  qed
qed

lemma run_fifo:
  assumes "inv s"
  shows "(\<exists>r. q_run put get ops s = Some r) \<longleftrightarrow> q_fits (cap s) (length (contents s)) ops"
    and "q_run put get ops s = Some (out, s') \<Longrightarrow>
      inv s' \<and> out @ contents s' = contents s @ concat (map q_put ops)"
  using run_ok [OF assms, of ops] run_fits [OF assms, of ops] by fastforce+

end

interpretation cbq: byte_queue cb_wf cb_list cb_cap
    "\<lambda>bs. cbuffer_write_expect bs 1 (length bs)" "cbuffer_read_expect 1"
proof (unfold_locales, goal_cases)
  case (1 s bs)
  then show ?case using cbuffer_write_expect_correct [of s 1 "length bs" bs] by simp
next
  case (2 s bs)
  show ?case
  proof (cases "bs = []")
    case True
    with 2 show ?thesis by (simp add: cbuffer_write_expect_def cbuffer_write_def)
  next
    case False
    then have pos: "0 < length bs" by simp
    have "cb_cap s < cbuffer_len s + length bs" using 2 False by simp
    with pos have "cb_cap s - cbuffer_len s < length bs" by linarith
    with False 2 cbuffer_write_correct [of s 1 "length bs" bs] show ?thesis
      by (auto simp: cbuffer_write_expect_def)
  qed
next
  case (3 s n)
  then show ?case using cbuffer_read_expect_correct [of s 1 n] by simp
next
  case (4 s n)
  show ?case
  proof (cases "n = 0")
    case True
    with 4 show ?thesis by (simp add: cbuffer_read_expect_def cbuffer_read_def)
  next
    case False
    with 4 cbuffer_read_correct [of s 1 n] show ?thesis
      by (simp add: cbuffer_read_expect_def Let_def)
  qed
qed

text \<open>C11: Every schedule of expecting writes and reads on a circular buffer is first in, first
  out. The schedule runs without a failing assertion exactly when each write fits and each read
  finds its bytes; and then what was read, followed by what is left in the buffer, is what was
  there at the start followed by what was written, however often the positions wrapped around.\<close>

theorem cbuffer_fifo:
  fixes ops :: "q_op list"
  defines "run \<equiv> q_run (\<lambda>bs. cbuffer_write_expect bs 1 (length bs)) (cbuffer_read_expect 1) ops"
  assumes "cb_wf b"
  shows "((\<exists>r. run b = Some r) \<longleftrightarrow> q_fits (cb_cap b) (cbuffer_len b) ops) \<and>
    (\<forall>out b'. run b = Some (out, b') \<longrightarrow>
       cb_wf b' \<and> out @ cb_list b' = cb_list b @ concat (map q_put ops))"
  using cbq.run_fifo [OF assms(2), of ops] by (simp add: run_def)

theorem cbuffer_fifo_witness:
  "\<exists>b r. cb_wf b \<and> cbuffer_create [0, 0, 0] 3 = Some b \<and>
     q_run (\<lambda>bs. cbuffer_write_expect bs 1 (length bs)) (cbuffer_read_expect 1)
       [Put [1, 2], Get 1, Put [3, 4], Get 3] b = Some r"
proof -
  let ?b = "\<lparr>cb_data = [0, 0, 0], cb_cap = 3, cb_head = 0, cb_tail = 0, cb_isfull = False\<rparr>"
  have wf: "cb_wf ?b" by (simp add: cb_wf_def)
  have "\<exists>r. q_run (\<lambda>bs. cbuffer_write_expect bs 1 (length bs)) (cbuffer_read_expect 1)
       [Put [1, 2], Get 1, Put [3, 4], Get 3] ?b = Some r"
    using cbuffer_fifo [OF wf, of "[Put [1, 2], Get 1, Put [3, 4], Get 3]"]
    by (simp add: cbuffer_len_def sub32_def)
  with wf show ?thesis by (auto simp: cbuffer_create_def)
qed


text \<open>Moving elements between two circular buffers moves exactly the front of the source to
  the back of the destination: as many whole elements as were asked for, as the source holds and
  as fit. Both invariants are kept, wherever the positions of the two buffers are, and no
  assertion fails.\<close>

theorem cbuffer_move_transfers:
  assumes "cb_wf dest" and "cb_wf src" and "0 < sz" and "0 < cnt"
  shows "\<exists>n dest' src'.
    n = min cnt (min (cbuffer_len src div sz) ((cb_cap dest - cbuffer_len dest) div sz)) \<and>
    cbuffer_cbuffer_move dest sz cnt src = Some (n, dest', src') \<and>
    cb_wf dest' \<and> cb_wf src' \<and> cb_cap dest' = cb_cap dest \<and> cb_cap src' = cb_cap src \<and>
    cb_list dest' = cb_list dest @ take (n * sz) (cb_list src) \<and>
    cb_list src' = drop (n * sz) (cb_list src)"
  using cbuffer_cbuffer_move_correct [OF assms] unfolding cb_transfer_def by blast

theorem cbuffer_move_transfers_witness:
  "\<exists>src dest dest' src'. cbuffer_create_with [1, 2, 3, 4, 5] 5 5 = Some src \<and>
     cbuffer_create [0, 0, 0] 3 = Some dest \<and>
     cbuffer_cbuffer_move dest 2 9 src = Some (1, dest', src') \<and>
     cb_list dest' = [1, 2] \<and> cb_list src' = [3, 4, 5]"
proof -
  obtain src where s: "cbuffer_create_with [1, 2, 3, 4, 5] 5 5 = Some src" "cb_wf src"
      "cb_list src = [1, 2, 3, 4, 5]"
    using cbuffer_create_with_correct [of 5 "[1, 2, 3, 4, 5]" 5] by auto
  obtain dest where d: "cbuffer_create [0, 0, 0] 3 = Some dest" "cb_wf dest" "cb_list dest = []"
      "cb_cap dest = 3"
    using cbuffer_create_correct [of 3 "[0, 0, 0]"] by auto
  have len: "cbuffer_len src = 5" "cbuffer_len dest = 0"
    using arg_cong [OF s(3), of length] arg_cong [OF d(3), of length] by simp_all
  from cbuffer_move_transfers [OF d(2) s(2), of 2 9] show ?thesis
    using s d len by auto
qed

text \<open>Writing a circular buffer to a file appends at the file's position the front of the queue,
  however the kernel cuts the transfer, and then drops exactly these bytes from the buffer; when
  a system call fails, \<^verbatim>\<open>ERR_IO\<close> is returned, a prefix may have reached the file, and the buffer keeps
  its bytes.\<close>

theorem cbuffer_write_to_file_front:
  fixes len :: nat
  assumes "cb_wf b" and "min (cbuffer_len b) len < 2147483648"
  shows "\<exists>r fp' d' b' k. cbuffer_write_to_file fp d b len = Some (r, fp', d', b') \<and>
    d_data d' = file_put (d_data d) (f_pos fp) (take k (cb_list b)) \<and> f_pos fp' = f_pos fp + k \<and>
    k \<le> min (cbuffer_len b) len \<and> cb_wf b' \<and>
    (r = Inr k \<and> k = min (cbuffer_len b) len \<and> cb_list b' = drop k (cb_list b) \<or>
     r = Inl ERR_IO \<and> b' = b \<and> (\<exists>e. Fail e \<in> set (d_env d)))"
proof -
  define n where "n = min (cbuffer_len b) len"
  have n: "n \<le> cbuffer_len b" by (simp add: n_def)
  obtain r fp' d' where w: "wrote fp d (take n (cb_list b)) r fp' d'"
      "cbuffer_write_to_file fp d b len =
        Some (case r of Inl e \<Rightarrow> (Inl e, fp', d', b) | Inr _ \<Rightarrow> (Inr n, fp', d', cb_consume b n))"
    using cbuffer_write_to_file_correct [OF assms(1), of len fp d] assms(2) unfolding n_def by blast
  have len: "length (take n (cb_list b)) = n" using n by simp
  from w(1) obtain k where "k \<le> n" "d_data d' = file_put (d_data d) (f_pos fp) (take k (take n (cb_list b)))"
    and k4: "f_pos fp' = f_pos fp + k" "r = Inr () \<and> k = n \<or> r = Inl ERR_IO \<and> (\<exists>e. Fail e \<in> set (d_env d))"
    unfolding wrote_def len by blast
  then have k: "k \<le> n" "d_data d' = file_put (d_data d) (f_pos fp) (take k (cb_list b))"
    by (simp_all add: min_absorb1)
  from k4(2) show ?thesis
  proof
    assume "r = Inr () \<and> k = n"
    with w(2) k k4(1) assms(1) n show ?thesis unfolding n_def [symmetric]
      by (intro exI [of _ "Inr n"] exI [of _ fp'] exI [of _ d'] exI [of _ "cb_consume b n"] exI [of _ n]) simp
  next
    assume "r = Inl ERR_IO \<and> (\<exists>e. Fail e \<in> set (d_env d))"
    with w(2) k k4(1) assms(1) show ?thesis unfolding n_def [symmetric]
      by (intro exI [of _ "Inl ERR_IO"] exI [of _ fp'] exI [of _ d'] exI [of _ b] exI [of _ k]) simp
  qed
qed

theorem cbuffer_write_to_file_front_witness:
  "\<exists>b r fp' d' b' k. cbuffer_create_with [1, 2, 3] 3 3 = Some b \<and>
     cbuffer_write_to_file \<lparr>f_pos = 1\<rparr> \<lparr>d_data = [9], d_durable = [], d_env = [Short 1]\<rparr> b 2
       = Some (r, fp', d', b') \<and>
     d_data d' = file_put [9] 1 (take k [1, 2, 3]) \<and> f_pos fp' = 1 + k \<and> r = Inr 2 \<and> k = 2 \<and>
     cb_list b' = drop 2 [1, 2, 3]"
proof -
  obtain b where b: "cbuffer_create_with [1, 2, 3] 3 3 = Some b" "cb_wf b" "cb_list b = [1, 2, 3]"
    using cbuffer_create_with_correct [of 3 "[1, 2, 3]" 3] by auto
  have len: "cbuffer_len b = 3" using arg_cong [OF b(3), of length] by simp
  from cbuffer_write_to_file_front [OF b(2), of 2 "\<lparr>f_pos = 1\<rparr>" "\<lparr>d_data = [9], d_durable = [], d_env = [Short 1]\<rparr>"]
  show ?thesis using b len by auto
qed

end
