(* ===== verification/Data_List.thy ===== *)
theory Data_List
  imports Page_Base Cbuffer
begin

text \<open>
  \<^verbatim>\<open>libs/nspager/data_list.c\<close> and \<^verbatim>\<open>data_list.h\<close>: the leaf pages of the R+tree. A data list
  holds the number of data bytes in its header and the bytes behind it; leaves are chained by
  their next and previous page numbers.

  \<open>dl_bytes\<close> is the byte sequence a leaf stands for and \<open>wf_dl\<close> its invariant (the length field
  is at most \<open>DL_DATA_SIZE\<close>). Every operation is related to a list operation on \<open>dl_bytes\<close>;
  \<open>same_links\<close> says that an operation leaves the page's identity, its common header and its links
  alone. Destination and source pointers are byte lists, as in the circular buffer's theory.
\<close>

abbreviation DL_NEXT_OFST :: nat where "DL_NEXT_OFST \<equiv> 13"
abbreviation DL_PREV_OFST :: nat where "DL_PREV_OFST \<equiv> 21"
abbreviation DL_BLEN_OFST :: nat where "DL_BLEN_OFST \<equiv> 29"
abbreviation DL_DATA_OFST :: nat where "DL_DATA_OFST \<equiv> 33"
abbreviation DL_DATA_SIZE :: nat where "DL_DATA_SIZE \<equiv> 2015"

section \<open>Fields\<close>

definition dl_get_next :: "page \<Rightarrow> pgno" where
  "dl_get_next d = page_get d DL_NEXT_OFST"

definition dl_get_prev :: "page \<Rightarrow> pgno" where
  "dl_get_prev d = page_get d DL_PREV_OFST"

definition dl_used :: "page \<Rightarrow> p_size" where
  "dl_used d = unat (page_get d DL_BLEN_OFST :: u32)"

definition dl_get_data :: "page \<Rightarrow> u8 list" where
  "dl_get_data d = drop DL_DATA_OFST (raw d)"

definition dl_get_byte :: "page \<Rightarrow> p_size \<Rightarrow> u8 option" where
  "dl_get_byte d i = do {
     ASSERT (i < dl_used d);
     x \<leftarrow> mem_read (dl_get_data d) i 1;
     Some (hd x) }"

definition dl_avail :: "page \<Rightarrow> p_size" where
  "dl_avail d = sub32 DL_DATA_SIZE (dl_used d)"

definition dl_is_root :: "page \<Rightarrow> bool" where
  "dl_is_root p \<longleftrightarrow> dl_get_next p = PGNO_NULL \<and> dl_get_prev p = PGNO_NULL"

definition dl_set_next :: "page \<Rightarrow> pgno \<Rightarrow> page" where
  "dl_set_next d next = page_set d DL_NEXT_OFST next"

definition dl_set_prev :: "page \<Rightarrow> pgno \<Rightarrow> page" where
  "dl_set_prev d prev = page_set d DL_PREV_OFST prev"

definition dl_copy_in :: "page \<Rightarrow> nat \<Rightarrow> u8 list \<Rightarrow> page option" where
  \<comment> \<open>a copy to \<^verbatim>\<open>dl_get_data (d) + i\<close>\<close>
  "dl_copy_in d i src = page_copy d (DL_DATA_OFST + i) src"

definition dl_set_byte :: "page \<Rightarrow> p_size \<Rightarrow> u8 \<Rightarrow> page option" where
  "dl_set_byte d i byte = do { ASSERT (i < dl_used d); dl_copy_in d i [byte] }"

definition dl_set_used :: "page \<Rightarrow> p_size \<Rightarrow> page option" where
  "dl_set_used d used = do {
     ASSERT (used \<le> DL_DATA_SIZE);
     Some (page_set d DL_BLEN_OFST (of_nat used :: u32)) }"

definition dl_init_empty :: "page \<Rightarrow> page option" where
  "dl_init_empty d = do {
     ASSERT (page_get_type d = pt_code PG_DATA_LIST);
     let d = dl_set_next d PGNO_NULL;
     let d = dl_set_prev d PGNO_NULL;
     dl_set_used d 0 }"

definition dl_make_valid :: "page \<Rightarrow> page option" where
  "dl_make_valid d = dl_set_used d DL_DATA_SIZE"

definition dl_validate_for_db :: "page \<Rightarrow> unit res" where
  "dl_validate_for_db d =
     (if page_get_type d \<noteq> pt_code PG_DATA_LIST then Inl ERR_CORRUPT
      else if dl_used d > DL_DATA_SIZE then Inl ERR_CORRUPT
      else if dl_is_root d then
        (if dl_used d = 0 then Inl ERR_CORRUPT else Inr ())
      else if dl_used d < DL_DATA_SIZE div 2 then Inl ERR_CORRUPT
      else Inr ())"

section \<open>Reading\<close>

definition dl_read :: "page \<Rightarrow> p_size \<Rightarrow> p_size \<Rightarrow> (p_size \<times> u8 list) option" where
  "dl_read d offset nbytes = do {
     ASSERT (nbytes > 0);
     let dlen = dl_used d;
     ASSERT (offset \<le> dlen);
     if offset = dlen then Some (0, [])
     else do {
       let avail = dlen - offset;
       let toread = min avail nbytes;
       out \<leftarrow> mem_read (dl_get_data d) offset toread;
       Some (toread, out) } }"

definition dl_read_expect :: "page \<Rightarrow> p_size \<Rightarrow> p_size \<Rightarrow> u8 list option" where
  "dl_read_expect d offset nbytes = do {
     (read, out) \<leftarrow> dl_read d offset nbytes;
     ASSERT (read = nbytes);
     Some out }"

definition dl_read_into_cbuffer ::
  "page \<Rightarrow> cbuffer option \<Rightarrow> p_size \<Rightarrow> p_size \<Rightarrow> (p_size \<times> cbuffer option) option" where
  "dl_read_into_cbuffer d dest offset b = do {
     ASSERT (b > 0);
     let dlen = dl_used d;
     ASSERT (offset \<le> dlen);
     if offset = dlen then Some (0, dest)
     else do {
       let avail = dlen - offset;
       let toread = min avail b;
       case dest of
         None \<Rightarrow> Some (toread, None)
       | Some c \<Rightarrow> do {
           (toread, c) \<leftarrow> cbuffer_write (drop offset (dl_get_data d)) 1 toread c;
           Some (toread, Some c) } } }"

definition dl_read_out_into_cbuffer ::
  "page \<Rightarrow> cbuffer option \<Rightarrow> p_size \<Rightarrow> p_size \<Rightarrow> (p_size \<times> page \<times> cbuffer option) option" where
  "dl_read_out_into_cbuffer d dest offset b = do {
     ASSERT (b > 0);
     let dlen = dl_used d;
     ASSERT (offset \<le> dlen);
     if offset = dlen then Some (0, d, dest)
     else do {
       let avail = dlen - offset;
       let toread = min avail b;
       (toread, dest) \<leftarrow> (case dest of
           None \<Rightarrow> Some (toread, None)
         | Some c \<Rightarrow> do {
             (toread, c) \<leftarrow> cbuffer_write (drop offset (dl_get_data d)) 1 toread c;
             Some (toread, Some c) });
       let remain = sub32 (sub32 dlen toread) offset;
       chunk \<leftarrow> mem_read (dl_get_data d) (offset + toread) remain;
       d \<leftarrow> dl_copy_in d offset chunk;
       d \<leftarrow> dl_set_used d (add32 offset remain);
       Some (toread, d, dest) } }"

definition dl_read_out_from :: "page \<Rightarrow> p_size \<Rightarrow> (p_size \<times> u8 list \<times> page) option" where
  "dl_read_out_from d offset = do {
     let dlen = dl_used d;
     ASSERT (offset \<le> dlen);
     if offset = dlen then Some (0, [], d)
     else do {
       let dlen = dlen - offset;
       out \<leftarrow> mem_read (dl_get_data d) offset dlen;
       d \<leftarrow> dl_set_used d (sub32 (dl_used d) dlen);
       Some (dlen, out, d) } }"

section \<open>Writing\<close>

definition dl_append :: "page \<Rightarrow> u8 list \<Rightarrow> p_size \<Rightarrow> (p_size \<times> page) option" where
  "dl_append d src nbytes = do {
     ASSERT (nbytes > 0);
     let avail = sub32 DL_DATA_SIZE (dl_used d);
     let next = min avail nbytes;
     if next > 0 then do {
       chunk \<leftarrow> mem_read src 0 next;
       let used = dl_used d;
       d \<leftarrow> dl_copy_in d used chunk;
       d \<leftarrow> dl_set_used d (add32 (dl_used d) next);
       Some (next, d) }
     else Some (next, d) }"

definition dl_append_from_cbuffer :: "page \<Rightarrow> cbuffer \<Rightarrow> p_size \<Rightarrow> (page \<times> cbuffer) option" where
  "dl_append_from_cbuffer d src amnt = do {
     ASSERT (amnt > 0);
     ASSERT (amnt \<le> sub32 DL_DATA_SIZE (dl_used d));
     ASSERT (amnt \<le> cbuffer_len src);
     (chunk, src) \<leftarrow> cbuffer_read_expect 1 amnt src;
     let used = dl_used d;
     d \<leftarrow> dl_copy_in d used chunk;
     d \<leftarrow> dl_set_used d (add32 (dl_used d) amnt);
     Some (d, src) }"

definition dl_write :: "page \<Rightarrow> u8 list option \<Rightarrow> p_size \<Rightarrow> p_size \<Rightarrow> (p_size \<times> page) option" where
  "dl_write d src offset nbytes = do {
     ASSERT (nbytes > 0);
     let dlen = dl_used d;
     ASSERT (offset \<le> dlen);
     if offset = dlen then Some (0, d)
     else do {
       let avail = dlen - offset;
       let toread = min avail nbytes;
       case src of
         None \<Rightarrow> Some (toread, d)
       | Some bs \<Rightarrow> do {
           chunk \<leftarrow> mem_read bs 0 toread;
           d \<leftarrow> dl_copy_in d offset chunk;
           Some (toread, d) } } }"

definition dl_write_from_buffer ::
  "page \<Rightarrow> cbuffer option \<Rightarrow> p_size \<Rightarrow> p_size \<Rightarrow> (p_size \<times> page \<times> cbuffer option) option" where
  "dl_write_from_buffer d src offset nbytes = do {
     ASSERT (nbytes > 0);
     let dlen = dl_used d;
     ASSERT (offset \<le> dlen);
     if offset = dlen then Some (0, d, src)
     else do {
       let avail = dlen - offset;
       let toread = min avail nbytes;
       case src of
         None \<Rightarrow> Some (toread, d, None)
       | Some c \<Rightarrow> do {
           (toread, chunk, c) \<leftarrow> cbuffer_read 1 toread c;
           d \<leftarrow> dl_copy_in d offset chunk;
           Some (toread, d, Some c) } } }"

definition dl_memset_from_buffer :: "page \<Rightarrow> cbuffer \<Rightarrow> p_size \<Rightarrow> (p_size \<times> page \<times> cbuffer) option" where
  "dl_memset_from_buffer d src nbytes = do {
     ASSERT (nbytes > 0);
     ASSERT (nbytes < DL_DATA_SIZE);
     (read, chunk, src) \<leftarrow> cbuffer_read 1 nbytes src;
     d \<leftarrow> dl_copy_in d 0 chunk;
     d \<leftarrow> dl_set_used d read;
     Some (read, d, src) }"

definition dl_memset_from_buffer_expect :: "page \<Rightarrow> cbuffer \<Rightarrow> p_size \<Rightarrow> (page \<times> cbuffer) option" where
  "dl_memset_from_buffer_expect d src nbytes = do {
     (read, d, src) \<leftarrow> dl_memset_from_buffer d src nbytes;
     ASSERT (read = nbytes);
     Some (d, src) }"

definition dl_memset :: "page \<Rightarrow> u8 list \<Rightarrow> p_size \<Rightarrow> page option" where
  \<comment> \<open>The code copies with \<^verbatim>\<open>memcpy\<close>. C leaves that open when the two pieces of memory overlap, as they do in
    \<open>dl_move_left\<close>, where the bytes are from further on in the same page; here the bytes are all read before the first is
    written, which is what \<^verbatim>\<open>memmove\<close> does, and a \<^verbatim>\<open>memcpy\<close> that copies in ascending order, when they move down.\<close>
  "dl_memset d buf len = do {
     ASSERT (len \<le> DL_DATA_SIZE);
     chunk \<leftarrow> mem_read buf 0 len;
     d \<leftarrow> dl_copy_in d 0 chunk;
     dl_set_used d len }"

record dl_data =
  dd_data :: "u8 list"
  dd_blen :: nat

definition dl_set_data :: "page \<Rightarrow> dl_data \<Rightarrow> page option" where
  "dl_set_data p d = do {
     ASSERT (dd_blen d \<le> DL_DATA_SIZE);
     dl_memset p (dd_data d) (dd_blen d) }"

section \<open>Moving data between leaves\<close>

definition dl_move_left :: "page \<Rightarrow> page \<Rightarrow> p_size \<Rightarrow> (page \<times> page) option" where
  \<comment> \<open>The destination and the source afterwards. What stays is moved down by \<open>dl_memset\<close> with a source in the same page, which
    overlaps its destination when more stays than goes.\<close>
  "dl_move_left dest src len = do {
     ASSERT (len \<le> dl_avail dest);
     let actual = min len (dl_used src);
     if actual > 0 then do {
       (_, dest) \<leftarrow> dl_append dest (dl_get_data src) actual;
       src \<leftarrow> dl_memset src (drop actual (dl_get_data src)) (sub32 (dl_used src) actual);
       Some (dest, src) }
     else Some (dest, src) }"

definition dl_shift_right :: "page \<Rightarrow> p_size \<Rightarrow> page option" where
  "dl_shift_right d len = do {
     ASSERT (len \<le> dl_avail d);
     let used = dl_used d;
     chunk \<leftarrow> mem_read (dl_get_data d) 0 used;
     d \<leftarrow> dl_copy_in d len chunk;
     dl_set_used d (add32 used len) }"

definition dl_move_right :: "page \<Rightarrow> page \<Rightarrow> p_size \<Rightarrow> (page \<times> page) option" where
  \<comment> \<open>the source and the destination afterwards\<close>
  "dl_move_right src dest len = do {
     ASSERT (len \<le> dl_avail dest);
     let actual = min len (dl_used src);
     if actual = 0 then Some (src, dest)
     else do {
       let ofst = sub32 (dl_used src) actual;
       dest \<leftarrow> dl_shift_right dest actual;
       chunk \<leftarrow> mem_read (dl_get_data src) ofst actual;
       dest \<leftarrow> dl_copy_in dest 0 chunk;
       src \<leftarrow> dl_set_used src (sub32 (dl_used src) actual);
       Some (src, dest) } }"

definition dl_dl_memmove_permissive :: "page \<Rightarrow> page \<Rightarrow> p_size \<Rightarrow> p_size \<Rightarrow> p_size \<Rightarrow> page option" where
  "dl_dl_memmove_permissive dest src didx sidx nbytes = do {
     ASSERT (sidx < DL_DATA_SIZE);
     ASSERT (add32 sidx nbytes \<le> DL_DATA_SIZE);
     ASSERT (pg dest = pg src \<longrightarrow> sidx > didx);
     chunk \<leftarrow> mem_read (dl_get_data src) sidx nbytes;
     dl_copy_in dest didx chunk }"

section \<open>The byte sequence of a leaf\<close>

definition wf_dl :: "page \<Rightarrow> bool" where
  "wf_dl d \<longleftrightarrow> wf_page d \<and> dl_used d \<le> DL_DATA_SIZE"

definition dl_bytes :: "page \<Rightarrow> u8 list" where
  "dl_bytes d = take (dl_used d) (dl_get_data d)"

text \<open>The shape of every page an operation produces: bytes copied in at an index, a new length.\<close>

definition dl_store :: "page \<Rightarrow> nat \<Rightarrow> u8 list \<Rightarrow> nat \<Rightarrow> page" where
  "dl_store d i src n =
     page_set (d\<lparr>raw := splice (raw d) (DL_DATA_OFST + i) src\<rparr>) DL_BLEN_OFST (of_nat n :: u32)"

lemma wf_dlD:
  assumes "wf_dl d"
  shows "wf_page d" "dl_used d \<le> DL_DATA_SIZE" "length (raw d) = PAGE_SIZE"
    "length (dl_get_data d) = DL_DATA_SIZE" "length (dl_bytes d) = dl_used d"
  using assms by (simp_all add: wf_dl_def wf_page_def dl_get_data_def dl_bytes_def)

lemma dl_avail_nat [simp]: "wf_dl d \<Longrightarrow> dl_avail d = DL_DATA_SIZE - dl_used d"
  by (simp add: dl_avail_def wf_dl_def wrap32)

lemma dl_copy_in_Some:
  "wf_page d \<Longrightarrow> i + length src \<le> DL_DATA_SIZE \<Longrightarrow>
   dl_copy_in d i src = Some (d\<lparr>raw := splice (raw d) (DL_DATA_OFST + i) src\<rparr>)"
  by (simp add: dl_copy_in_def)

lemma dl_used_copy [simp]:
  "wf_page d \<Longrightarrow> i + length src \<le> DL_DATA_SIZE \<Longrightarrow>
   dl_used (d\<lparr>raw := splice (raw d) (DL_DATA_OFST + i) src\<rparr>) = dl_used d"
  by (simp add: dl_used_def)

lemma dl_used_set [simp]:
  "wf_page d \<Longrightarrow> n \<le> DL_DATA_SIZE \<Longrightarrow> dl_used (page_set d DL_BLEN_OFST (of_nat n :: u32)) = n"
  by (simp add: dl_used_def)

lemma dl_get_data_set [simp]:
  assumes "wf_page d"
  shows "dl_get_data (page_set d DL_BLEN_OFST (w :: u32)) = dl_get_data d"
proof -
  have "slice (raw (page_set d DL_BLEN_OFST w)) DL_DATA_OFST DL_DATA_SIZE
      = slice (raw d) DL_DATA_OFST DL_DATA_SIZE"
    using assms by simp
  then show ?thesis
    using assms wf_page_set [OF assms, of DL_BLEN_OFST w]
    by (simp add: slice_def dl_get_data_def wf_page_def)
qed

lemma dl_get_data_copy [simp]:
  "wf_page d \<Longrightarrow> i + length src \<le> DL_DATA_SIZE \<Longrightarrow>
   dl_get_data (d\<lparr>raw := splice (raw d) (DL_DATA_OFST + i) src\<rparr>) = splice (dl_get_data d) i src"
  by (simp add: dl_get_data_def splice_def wf_page_def drop_take ac_simps)

lemma dl_store_wf:
  "wf_page d \<Longrightarrow> i + length src \<le> DL_DATA_SIZE \<Longrightarrow> n \<le> DL_DATA_SIZE \<Longrightarrow>
   wf_dl (dl_store d i src n) \<and> dl_used (dl_store d i src n) = n"
  by (simp add: dl_store_def wf_dl_def)

lemma dl_store_data:
  "wf_page d \<Longrightarrow> i + length src \<le> DL_DATA_SIZE \<Longrightarrow>
   dl_get_data (dl_store d i src n) = splice (dl_get_data d) i src"
  by (simp add: dl_store_def)

lemma dl_store_bytes:
  assumes "wf_page d" and "i + length src \<le> DL_DATA_SIZE" and "n = i + length src"
  shows "dl_bytes (dl_store d i src n) = take i (dl_get_data d) @ src"
proof -
  have "length (dl_get_data d) = DL_DATA_SIZE" using assms by (simp add: dl_get_data_def wf_page_def)
  moreover have "dl_used (dl_store d i src n) = n" using dl_store_wf [of d i src n] assms by simp
  ultimately show ?thesis
    using assms(2,3) dl_store_data [OF assms(1,2), of n] by (simp add: dl_bytes_def splice_def)
qed

lemma dl_same_links_copy [simp]:
  "wf_page d \<Longrightarrow> i + length src \<le> DL_DATA_SIZE \<Longrightarrow>
   same_links d (d\<lparr>raw := splice (raw d) (DL_DATA_OFST + i) src\<rparr>)"
  by (simp add: same_links_def splice_def wf_page_def)

lemma dl_same_links_set [simp]:
  "wf_page d \<Longrightarrow> same_links d (page_set d DL_BLEN_OFST (w :: u32))"
  by simp

lemma dl_store_links:
  "wf_page d \<Longrightarrow> i + length src \<le> DL_DATA_SIZE \<Longrightarrow> same_links d (dl_store d i src n)"
  unfolding dl_store_def
  by (rule same_links_trans [OF dl_same_links_copy dl_same_links_set]) simp_all

lemma dl_same_links_fields:
  assumes "same_links d d'"
  shows "dl_get_next d' = dl_get_next d \<and> dl_get_prev d' = dl_get_prev d \<and>
    page_get_type d' = page_get_type d \<and> page_get_page_lsn d' = page_get_page_lsn d"
  by (simp add: dl_get_next_def dl_get_prev_def page_header_defs same_links_get [OF assms])

lemma dl_copy_set_store:
  assumes "wf_dl d" and "i + length src \<le> DL_DATA_SIZE" and "n \<le> DL_DATA_SIZE"
  shows "do { d \<leftarrow> dl_copy_in d i src; dl_set_used d n } = Some (dl_store d i src n)"
  using assms by (simp add: wf_dl_def dl_copy_in_Some dl_set_used_def dl_store_def)


section \<open>What the operations do to the bytes\<close>

lemma dl_read_correct:
  assumes "wf_dl d" and "0 < n" and "o' \<le> dl_used d"
  shows "dl_read d o' n =
    (let k = min (dl_used d - o') n in Some (k, take k (drop o' (dl_bytes d))))"
proof -
  have k: "mem_read (dl_get_data d) o' k = Some (take k (drop o' (dl_bytes d)))"
    if "k \<le> dl_used d - o'" for k
    using that assms wf_dlD [OF assms(1)]
    by (simp add: mem_read_def slice_def dl_bytes_def drop_take min_absorb1)
  show ?thesis using assms k by (simp add: dl_read_def Let_def)
qed

lemma dl_append_correct:
  assumes wf: "wf_dl d" and n: "0 < n" "min (DL_DATA_SIZE - dl_used d) n \<le> length src"
  shows "\<exists>d'. dl_append d src n = Some (min (DL_DATA_SIZE - dl_used d) n, d') \<and> wf_dl d' \<and>
    dl_bytes d' = dl_bytes d @ take (min (DL_DATA_SIZE - dl_used d) n) src \<and> same_links d d'"
proof -
  define k where "k = min (DL_DATA_SIZE - dl_used d) n"
  note D = wf_dlD [OF wf]
  show ?thesis
  proof (cases "k = 0")
    case True
    then have "dl_used d = DL_DATA_SIZE" using n(1) D(2) unfolding k_def by linarith
    with wf n show ?thesis by (simp add: dl_append_def wrap32 Let_def)
  next
    case False
    let ?bs = "take k src" and ?d = "dl_store d (dl_used d) (take k src) (dl_used d + k)"
    have kl: "k \<le> DL_DATA_SIZE - dl_used d" "k \<le> length src"
      using n(2) unfolding k_def by simp_all
    have fit: "dl_used d + length ?bs \<le> DL_DATA_SIZE" "dl_used d + k = dl_used d + length ?bs"
      using kl D(2) by (simp_all add: min_absorb1 min_absorb2)
    have "dl_append d src n = Some (k, ?d)"
    proof -
      have rd: "mem_read src 0 k = Some ?bs" using kl by (simp add: mem_read_def slice_def)
      have ar: "sub32 DL_DATA_SIZE (dl_used d) = DL_DATA_SIZE - dl_used d"
        "add32 (dl_used d) k = dl_used d + k" "dl_used d + k \<le> DL_DATA_SIZE"
        "dl_used d < DL_DATA_SIZE"
        using kl D(2) False by (simp_all add: wrap32)
      show ?thesis
        using False n(1)
        by (simp add: dl_append_def ar k_def [symmetric] Let_def rd dl_used_copy [OF D(1) fit(1)]
            dl_copy_in_Some [OF D(1) fit(1)] dl_set_used_def dl_store_def)
    qed
    moreover have "dl_bytes ?d = dl_bytes d @ ?bs"
      using dl_store_bytes [OF D(1) fit] by (simp add: dl_bytes_def)
    moreover have "wf_dl ?d" using dl_store_wf [OF D(1) fit(1), of "dl_used d + k"] fit by simp
    ultimately show ?thesis using dl_store_links [OF D(1) fit(1)] by (simp flip: k_def)
  qed
qed

lemma dl_memset_correct:
  assumes wf: "wf_page d" and n: "n \<le> DL_DATA_SIZE" "n \<le> length src"
  shows "\<exists>d'. dl_memset d src n = Some d' \<and> wf_dl d' \<and> dl_bytes d' = take n src \<and>
    same_links d d'"
proof -
  let ?d = "dl_store d 0 (take n src) n"
  have fit: "0 + length (take n src) \<le> DL_DATA_SIZE" "n = 0 + length (take n src)" using n by auto
  have "dl_memset d src n = Some ?d"
    using n fit dl_copy_in_Some [OF wf fit(1)]
    by (simp add: dl_memset_def mem_read_def slice_def dl_set_used_def dl_store_def)
  with dl_store_wf [OF wf fit(1) n(1)] dl_store_bytes [OF wf fit] dl_store_links [OF wf fit(1)]
  show ?thesis by simp
qed

lemma dl_move_left_correct:
  assumes wfd: "wf_dl dest" and wfs: "wf_dl src" and len: "len \<le> DL_DATA_SIZE - dl_used dest"
  shows "\<exists>dest' src'. dl_move_left dest src len = Some (dest', src') \<and>
    wf_dl dest' \<and> wf_dl src' \<and> same_links dest dest' \<and> same_links src src' \<and>
    dl_bytes dest' = dl_bytes dest @ take len (dl_bytes src) \<and>
    dl_bytes src' = drop len (dl_bytes src)"
proof -
  define k where "k = min len (dl_used src)"
  note D = wf_dlD [OF wfd] and S = wf_dlD [OF wfs]
  have cut: "take len (dl_bytes src) = take k (dl_get_data src)"
    "drop len (dl_bytes src) = take (dl_used src - k) (drop k (dl_get_data src))"
    by (auto simp: k_def dl_bytes_def drop_take min_def)
  show ?thesis
  proof (cases "k = 0")
    case True
    with cut have "take len (dl_bytes src) = []" by simp
    moreover have "drop len (dl_bytes src) = dl_bytes src"
      using True S by (auto simp: k_def min_def split: if_splits)
    ultimately show ?thesis
      using True assms by (simp add: dl_move_left_def k_def [symmetric] Let_def)
  next
    case False
    have kk: "min (DL_DATA_SIZE - dl_used dest) k = k" "k \<le> length (dl_get_data src)"
      using len S by (auto simp: k_def)
    obtain d' where d': "dl_append dest (dl_get_data src) k = Some (k, d')" "wf_dl d'"
        "dl_bytes d' = dl_bytes dest @ take k (dl_get_data src)" "same_links dest d'"
      using dl_append_correct [OF wfd, of k "dl_get_data src"] False kk by auto
    have sub: "sub32 (dl_used src) k = dl_used src - k" using S by (simp add: wrap32 k_def)
    have le: "dl_used src - k \<le> DL_DATA_SIZE"
        "dl_used src - k \<le> length (drop k (dl_get_data src))"
      using S(2,4) by auto
    obtain s' where s': "dl_memset src (drop k (dl_get_data src)) (dl_used src - k) = Some s'"
        "wf_dl s'" "dl_bytes s' = take (dl_used src - k) (drop k (dl_get_data src))"
        "same_links src s'"
      using dl_memset_correct [OF S(1) le] by auto
    have "dl_move_left dest src len = Some (d', s')"
      using False len wfd d'(1) s'(1) by (simp add: dl_move_left_def k_def [symmetric] Let_def sub)
    with d' s' cut show ?thesis by simp
  qed
qed

lemma dl_shift_right_correct:
  assumes wf: "wf_dl d" and len: "len \<le> DL_DATA_SIZE - dl_used d"
  shows "\<exists>gap. length gap = len \<and>
    dl_shift_right d len = Some (dl_store d len (dl_bytes d) (dl_used d + len)) \<and>
    dl_bytes (dl_store d len (dl_bytes d) (dl_used d + len)) = gap @ dl_bytes d"
proof -
  note D = wf_dlD [OF wf]
  have fit: "len + length (dl_bytes d) \<le> DL_DATA_SIZE" "dl_used d + len = len + length (dl_bytes d)"
    using D len by simp_all
  have "mem_read (dl_get_data d) 0 (dl_used d) = Some (dl_bytes d)"
    using D by (simp add: mem_read_def slice_def dl_bytes_def)
  then have "dl_shift_right d len = Some (dl_store d len (dl_bytes d) (dl_used d + len))"
    using wf len D dl_copy_in_Some [OF D(1) fit(1)] fit
    by (simp add: dl_shift_right_def Let_def wrap32 dl_set_used_def dl_store_def)
  with dl_store_bytes [OF D(1) fit] show ?thesis
    using D len by (intro exI [of _ "take len (dl_get_data d)"]) simp
qed

lemma dl_move_right_correct:
  assumes wfs: "wf_dl src" and wfd: "wf_dl dest" and len: "len \<le> DL_DATA_SIZE - dl_used dest"
  shows "\<exists>src' dest'. dl_move_right src dest len = Some (src', dest') \<and>
    wf_dl src' \<and> wf_dl dest' \<and> same_links src src' \<and> same_links dest dest' \<and>
    dl_bytes src' = take (dl_used src - len) (dl_bytes src) \<and>
    dl_bytes dest' = drop (dl_used src - len) (dl_bytes src) @ dl_bytes dest"
proof -
  define k where "k = min len (dl_used src)"
  note D = wf_dlD [OF wfd] and S = wf_dlD [OF wfs]
  have ofs: "dl_used src - len = dl_used src - k" by (auto simp: k_def)
  show ?thesis
  proof (cases "k = 0")
    case True
    then have "dl_used src - len = dl_used src" by (simp add: ofs)
    with True assms S show ?thesis by (simp add: dl_move_right_def k_def [symmetric] Let_def)
  next
    case False
    have kl: "k \<le> DL_DATA_SIZE - dl_used dest" "k \<le> dl_used src" using len by (auto simp: k_def)
    define d1 where "d1 = dl_store dest k (dl_bytes dest) (dl_used dest + k)"
    obtain gap where gap: "length gap = k" "dl_shift_right dest k = Some d1"
        "dl_bytes d1 = gap @ dl_bytes dest"
      using dl_shift_right_correct [OF wfd kl(1)] by (auto simp: d1_def)
    have d1: "wf_dl d1" "dl_used d1 = dl_used dest + k" "same_links dest d1"
      using dl_store_wf [OF D(1), of k "dl_bytes dest" "dl_used dest + k"] D kl
        dl_store_links [OF D(1), of k "dl_bytes dest"] by (auto simp: d1_def)
    let ?ch = "drop (dl_used src - k) (dl_bytes src)"
    have ch: "length ?ch = k" using S kl by simp
    have rd: "mem_read (dl_get_data src) (dl_used src - k) k = Some ?ch"
      using S kl by (simp add: mem_read_def slice_def dl_bytes_def drop_take)
    define d2 where "d2 = d1\<lparr>raw := splice (raw d1) (DL_DATA_OFST + 0) ?ch\<rparr>"
    have fit: "0 + length ?ch \<le> DL_DATA_SIZE" using ch kl by simp
    have c2: "dl_copy_in d1 0 ?ch = Some d2"
      unfolding d2_def by (rule dl_copy_in_Some [OF wf_dlD(1) [OF d1(1)] fit])
    have u2: "dl_used d2 = dl_used d1" "dl_get_data d2 = splice (dl_get_data d1) 0 ?ch"
        "same_links d1 d2" "wf_page d2"
      using wf_dlD(1) [OF d1(1)] fit unfolding d2_def
      by (simp_all only: dl_used_copy dl_get_data_copy dl_same_links_copy) simp
    have b2: "dl_bytes d2 = ?ch @ dl_bytes dest"
    proof -
      have "drop k (dl_bytes d1) = dl_bytes dest" using gap by simp
      then have "take (dl_used dest) (drop k (dl_get_data d1)) = dl_bytes dest"
        using d1(2) by (simp add: dl_bytes_def drop_take)
      then show ?thesis using u2 ch d1(2) by (simp add: dl_bytes_def splice_def)
    qed
    have w2: "wf_dl d2" using u2 wf_dlD(2) [OF d1(1)] by (simp add: wf_dl_def)
    define s' where "s' = page_set src DL_BLEN_OFST (of_nat (dl_used src - k) :: u32)"
    have s': "dl_set_used src (dl_used src - k) = Some s'" "wf_dl s'" "same_links src s'"
        "dl_bytes s' = take (dl_used src - k) (dl_bytes src)"
      using S by (simp_all add: dl_set_used_def s'_def wf_dl_def dl_bytes_def del: of_nat_diff)
    have "sub32 (dl_used src) k = dl_used src - k" using S kl by (simp add: wrap32)
    then have "dl_move_right src dest len = Some (s', d2)"
      using False len wfd gap(2) rd c2 s'(1)
      by (simp add: dl_move_right_def k_def [symmetric] Let_def)
    with s' w2 b2 same_links_trans [OF d1(3) u2(3)] show ?thesis by (simp add: ofs)
  qed
qed

subsection \<open>Between a leaf and a circular buffer\<close>

lemma drop_dl_data:
  "k \<le> dl_used d - i \<Longrightarrow> take k (drop i (dl_get_data d)) = take k (drop i (dl_bytes d))"
  by (simp add: dl_bytes_def drop_take min_absorb1)

lemma dl_append_from_cbuffer_correct:
  assumes wf: "wf_dl d" and cwf: "cb_wf c"
    and n: "0 < n" "n \<le> DL_DATA_SIZE - dl_used d" "n \<le> cbuffer_len c"
  shows "\<exists>d' c'. dl_append_from_cbuffer d c n = Some (d', c') \<and> wf_dl d' \<and> cb_wf c' \<and>
    same_links d d' \<and> dl_bytes d' = dl_bytes d @ take n (cb_list c) \<and>
    cb_list c' = drop n (cb_list c)"
proof -
  note D = wf_dlD [OF wf]
  let ?bs = "take n (cb_list c)"
  let ?d = "dl_store d (dl_used d) ?bs (dl_used d + n)"
  have fit: "dl_used d + length ?bs \<le> DL_DATA_SIZE" "dl_used d + n = dl_used d + length ?bs"
    using n D(2) by simp_all
  have ar: "sub32 DL_DATA_SIZE (dl_used d) = DL_DATA_SIZE - dl_used d"
    "add32 (dl_used d) n = dl_used d + n" "dl_used d + n \<le> DL_DATA_SIZE"
    using n D(2) by (simp_all add: wrap32)
  have "cbuffer_read_expect 1 n c = Some (?bs, cb_consume c n)"
    using cbuffer_read_expect_correct [OF cwf, of 1 n] n by simp
  then have "dl_append_from_cbuffer d c n = Some (?d, cb_consume c n)"
    using n
    by (simp add: dl_append_from_cbuffer_def ar Let_def dl_used_copy [OF D(1) fit(1)]
        dl_copy_in_Some [OF D(1) fit(1)] dl_set_used_def dl_store_def)
  moreover have "dl_bytes ?d = dl_bytes d @ ?bs"
    using dl_store_bytes [OF D(1) fit] by (simp add: dl_bytes_def)
  moreover have "wf_dl ?d" using dl_store_wf [OF D(1) fit(1) ar(3)] by simp
  ultimately show ?thesis
    using dl_store_links [OF D(1) fit(1), of "dl_used d + n"] cwf n by simp
qed

lemma dl_read_out_into_cbuffer_correct:
  fixes o' n
  defines "k d c \<equiv> min (min (dl_used d - o') n) (cb_cap c - cbuffer_len c)"
  assumes wf: "wf_dl d" and cwf: "cb_wf c" and n: "0 < n" "o' \<le> dl_used d"
  shows "\<exists>d' c'. dl_read_out_into_cbuffer d (Some c) o' n = Some (k d c, d', Some c') \<and>
    wf_dl d' \<and> cb_wf c' \<and> same_links d d' \<and>
    dl_bytes d' = take o' (dl_bytes d) @ drop (o' + k d c) (dl_bytes d) \<and>
    cb_list c' = cb_list c @ take (k d c) (drop o' (dl_bytes d))"
proof (cases "o' = dl_used d")
  case True
  with assms wf_dlD [OF wf] show ?thesis by (simp add: dl_read_out_into_cbuffer_def k_def)
next
  case False
  note D = wf_dlD [OF wf]
  define m where "m = min (dl_used d - o') n"
  define q where "q = k d c"
  have m: "0 < m" "m \<le> dl_used d - o'" using False n by (simp_all add: m_def)
  have q: "q = min m (cb_cap c - cbuffer_len c)" "q \<le> dl_used d - o'" "q \<le> m"
    using m by (auto simp: q_def k_def m_def)
  have ql: "q \<le> length (drop o' (dl_get_data d))" using q(2) D(2,4) by simp
  obtain c' where c': "cbuffer_write (drop o' (dl_get_data d)) 1 m c = Some (q, c')" "cb_wf c'"
      "cb_list c' = cb_list c @ take q (drop o' (dl_get_data d))"
    using cbuffer_write_correct [OF cwf, of 1 m "drop o' (dl_get_data d)"] m(1) ql
    by (auto simp flip: q(1))
  define r where "r = dl_used d - (o' + q)"
  have rr: "sub32 (sub32 (dl_used d) q) o' = r" "add32 o' r = o' + r" "o' + q + r = dl_used d"
    using q(2) n D(2) by (simp_all add: wrap32 r_def)
  let ?ch = "drop (o' + q) (dl_bytes d)"
  have ch: "length ?ch = r" using D by (simp add: r_def)
  have rd: "mem_read (dl_get_data d) (o' + q) r = Some ?ch"
    using rr(3) D by (simp add: mem_read_def slice_def dl_bytes_def drop_take r_def)
  have fit: "o' + length ?ch \<le> DL_DATA_SIZE" "o' + r = o' + length ?ch" "o' + r \<le> DL_DATA_SIZE"
    using ch rr(3) D by simp_all
  let ?d = "dl_store d o' ?ch (o' + r)"
  have "dl_read_out_into_cbuffer d (Some c) o' n = Some (q, ?d, Some c')"
    using False n fit(3) c'(1)
    by (simp add: dl_read_out_into_cbuffer_def Let_def m_def [symmetric] rr rd
        dl_copy_in_Some [OF D(1) fit(1)] dl_set_used_def dl_store_def)
  moreover have "dl_bytes ?d = take o' (dl_bytes d) @ ?ch"
    using dl_store_bytes [OF D(1) fit(1,2)] n by (simp add: dl_bytes_def min_absorb1)
  moreover have "wf_dl ?d" using dl_store_wf [OF D(1) fit(1,3)] by simp
  ultimately show ?thesis
    using dl_store_links [OF D(1) fit(1), of "o' + r"] c' drop_dl_data [OF q(2)]
    by (simp flip: q_def)
qed

lemma dl_write_from_buffer_correct:
  assumes wf: "wf_dl d" and cwf: "cb_wf c" and n: "0 < n" "o' \<le> dl_used d"
  defines "k \<equiv> min (min (dl_used d - o') n) (cbuffer_len c)"
  shows "\<exists>d' c'. dl_write_from_buffer d (Some c) o' n = Some (k, d', Some c') \<and>
    wf_dl d' \<and> cb_wf c' \<and> same_links d d' \<and>
    dl_bytes d' = splice (dl_bytes d) o' (take k (cb_list c)) \<and>
    cb_list c' = drop k (cb_list c)"
proof (cases "o' = dl_used d")
  case True
  with assms wf_dlD [OF wf] show ?thesis
    by (simp add: dl_write_from_buffer_def k_def splice_def)
next
  case False
  note D = wf_dlD [OF wf]
  define m where "m = min (dl_used d - o') n"
  have m: "0 < m" using False n by (simp add: m_def)
  have k: "k = min m (cbuffer_len c)" "k \<le> dl_used d - o'" "k \<le> cbuffer_len c"
    by (simp_all add: k_def m_def)
  have rd: "cbuffer_read 1 m c = Some (k, take k (cb_list c), cb_consume c k)"
    using cbuffer_read_correct [OF cwf, of 1 m] m k by (simp add: Let_def)
  let ?bs = "take k (cb_list c)"
  have fit: "o' + length ?bs \<le> DL_DATA_SIZE" "o' + k \<le> dl_used d" using k n D by auto
  let ?d = "d\<lparr>raw := splice (raw d) (DL_DATA_OFST + o') ?bs\<rparr>"
  have "dl_write_from_buffer d (Some c) o' n = Some (k, ?d, Some (cb_consume c k))"
    using False n rd
    by (simp add: dl_write_from_buffer_def Let_def m_def [symmetric] dl_copy_in_Some [OF D(1) fit(1)])
  moreover have "dl_used ?d = dl_used d" "wf_page ?d" using D(1) fit(1) by (simp_all only: dl_used_copy) simp
  then have "wf_dl ?d" using D(2) by (simp add: wf_dl_def)
  moreover have "dl_bytes ?d = splice (dl_bytes d) o' ?bs"
  proof -
    have "dl_bytes ?d = take (dl_used d) (splice (dl_get_data d) o' ?bs)"
      using \<open>dl_used ?d = dl_used d\<close> dl_get_data_copy [OF D(1) fit(1)] by (simp only: dl_bytes_def)
    also have "\<dots> = splice (dl_bytes d) o' ?bs"
      using fit k D by (simp add: splice_def dl_bytes_def min_absorb1 drop_take)
    finally show ?thesis .
  qed
  ultimately show ?thesis using dl_same_links_copy [OF D(1) fit(1)] cwf k by simp
qed

lemma dl_init_empty_correct:
  assumes "wf_page d" and "page_get_type d = pt_code PG_DATA_LIST"
  shows "\<exists>d'. dl_init_empty d = Some d' \<and> wf_dl d' \<and> dl_bytes d' = [] \<and> dl_is_root d' \<and>
    pg d' = pg d \<and> page_get_type d' = page_get_type d"
  using assms
  by (simp add: dl_init_empty_def Let_def dl_set_used_def dl_set_next_def dl_set_prev_def wf_dl_def
      dl_bytes_def dl_used_def dl_is_root_def dl_get_next_def dl_get_prev_def page_get_type_def)

lemma dl_validate_for_db_iff:
  "dl_validate_for_db d = Inr () \<longleftrightarrow> page_get_type d = pt_code PG_DATA_LIST \<and>
     (if dl_is_root d then 0 < dl_used d else 1007 \<le> dl_used d) \<and> dl_used d \<le> DL_DATA_SIZE"
  by (auto simp: dl_validate_for_db_def)

section \<open>Properties\<close>

definition dl_example :: "pgno \<Rightarrow> u8 list \<Rightarrow> page" where
  "dl_example n bs = dl_store (typed_page PG_DATA_LIST n) 0 bs (length bs)"

lemma dl_example:
  assumes "length bs \<le> DL_DATA_SIZE"
  shows "wf_dl (dl_example n bs)" "dl_bytes (dl_example n bs) = bs"
    "page_get_type (dl_example n bs) = pt_code PG_DATA_LIST" "dl_used (dl_example n bs) = length bs"
proof -
  let ?z = "typed_page PG_DATA_LIST n"
  have fit: "0 + length bs \<le> DL_DATA_SIZE" using assms by simp
  show "wf_dl (dl_example n bs)" "dl_used (dl_example n bs) = length bs"
    using dl_store_wf [of ?z 0 bs "length bs"] fit by (simp_all add: dl_example_def)
  show "dl_bytes (dl_example n bs) = bs"
    using dl_store_bytes [of ?z 0 bs "length bs"] fit by (simp add: dl_example_def)
  have "same_links ?z (dl_example n bs)"
    unfolding dl_example_def using fit by (intro dl_store_links) simp_all
  then have "page_get_type (dl_example n bs) = page_get_type ?z"
    unfolding page_get_type_def by (rule same_links_get) simp_all
  then show "page_get_type (dl_example n bs) = pt_code PG_DATA_LIST" by simp
qed

text \<open>Reading a part of a leaf out into a circular buffer moves it. As many bytes as were asked for, are
  there and fit into the buffer are appended to the buffer and cut out of the leaf; the
  bytes before and behind them stay, the links and the header of the leaf are untouched and
  no assertion fails.\<close>

theorem dl_read_out_moves_bytes:
  fixes ofst n :: nat
  assumes "wf_dl d" and "cb_wf c" and "0 < n" and "ofst \<le> dl_used d"
  shows "\<exists>k d' c'. k = min (min (dl_used d - ofst) n) (cb_cap c - cbuffer_len c) \<and>
    dl_read_out_into_cbuffer d (Some c) ofst n = Some (k, d', Some c') \<and>
    wf_dl d' \<and> cb_wf c' \<and> same_links d d' \<and>
    dl_bytes d' = take ofst (dl_bytes d) @ drop (ofst + k) (dl_bytes d) \<and>
    cb_list c' = cb_list c @ take k (drop ofst (dl_bytes d))"
  using dl_read_out_into_cbuffer_correct [OF assms] by blast

theorem dl_read_out_moves_bytes_witness:
  "\<exists>c d' c'. cbuffer_create [0, 0] 2 = Some c \<and>
    dl_read_out_into_cbuffer (dl_example 7 [10, 11, 12, 13, 14]) (Some c) 1 3 = Some (2, d', Some c') \<and>
    dl_bytes d' = [10, 13, 14] \<and> cb_list c' = [11, 12]"
proof -
  obtain c where c: "cbuffer_create [0, 0] 2 = Some c" "cb_wf c" "cb_list c = []" "cb_cap c = 2"
    using cbuffer_create_correct [of 2 "[0, 0]"] by auto
  have len: "cbuffer_len c = 0" using c(3) by (simp add: cb_list_Nil_iff)
  have "length [10, 11, 12, 13, 14 :: u8] \<le> DL_DATA_SIZE" by simp
  note e = dl_example [OF this, of 7]
  have le: "1 \<le> dl_used (dl_example 7 [10, 11, 12, 13, 14])" by (simp add: e)
  from dl_read_out_moves_bytes [OF e(1) c(2) _ le, of 3]
  show ?thesis using c e len by (auto simp: numeral_eq_Suc)
qed

text \<open>Overwriting a leaf from a circular buffer replaces bytes in place: the leaf keeps its
  length, the bytes taken are the next ones of the buffer, and as many are taken as were asked for, as the leaf
  holds behind the offset and as the buffer holds.\<close>

theorem dl_write_replaces_bytes:
  fixes ofst n :: nat
  assumes "wf_dl d" and "cb_wf c" and "0 < n" and "ofst \<le> dl_used d"
  shows "\<exists>k d' c'. k = min (min (dl_used d - ofst) n) (cbuffer_len c) \<and>
    dl_write_from_buffer d (Some c) ofst n = Some (k, d', Some c') \<and>
    wf_dl d' \<and> cb_wf c' \<and> same_links d d' \<and>
    dl_bytes d' = splice (dl_bytes d) ofst (take k (cb_list c)) \<and>
    cb_list c' = drop k (cb_list c)"
  using dl_write_from_buffer_correct [OF assms] by blast

theorem dl_write_replaces_bytes_witness:
  "\<exists>c d' c'. cbuffer_create_with [1, 2] 2 2 = Some c \<and>
    dl_write_from_buffer (dl_example 7 [10, 11, 12]) (Some c) 2 5 = Some (1, d', Some c') \<and>
    dl_bytes d' = [10, 11, 1] \<and> cb_list c' = [2]"
proof -
  obtain c where c: "cbuffer_create_with [1, 2] 2 2 = Some c" "cb_wf c" "cb_list c = [1, 2]"
    using cbuffer_create_with_correct [of 2 "[1, 2]" 2] by auto
  have len: "cbuffer_len c = 2" using arg_cong [OF c(3), of length] by simp
  have "length [10, 11, 12 :: u8] \<le> DL_DATA_SIZE" by simp
  note e = dl_example [OF this, of 7]
  have le: "2 \<le> dl_used (dl_example 7 [10, 11, 12])" by (simp add: e)
  from dl_write_replaces_bytes [OF e(1) c(2) _ le, of 5]
  show ?thesis using c e len by (auto simp: numeral_eq_Suc splice_def)
qed

end
