(* ===== verification/Robin_Hood.thy ===== *)
theory Robin_Hood
  imports NS_Prelude
begin

text \<open>
  \<^verbatim>\<open>libs/nscore/include/numstore/core/robin_hood_ht.h\<close> and \<^verbatim>\<open>ht_models.h\<close>: the open-addressing
  hash table with Robin Hood probing and backward-shift deletion. The header is a template; every
  instance of the program (the pager's frame index, the dirty page table, the duplicate check of
  inner nodes) has \<^verbatim>\<open>KTYPE = pgno\<close>, so keys and distances are 64-bit words here and the value
  type is a parameter.

  The array's length is the capacity. The loops count down the iterations that are left; the
  arithmetic of the probed index is the code's, on words.

  \<open>ht_inv\<close> is the invariant: each element sits at its distance from its home, distances grow by at most
  one from slot to slot, no key occurs twice, and some slot is free or holds an element at its
  home (without it the shift of a deletion would not stop). \<open>ht_map\<close> is the finite map the table
  stands for. Lookup, insertion and deletion are shown to be those of the map. The probed
  index must not wrap around at \<open>2 ^ 64\<close>, which holds for all keys below \<open>2 ^ 64 - cap\<close>.
\<close>

datatype hti_res = HTIR_SUCCESS | HTIR_EXISTS | HTIR_FULL

datatype hta_res = HTAR_SUCCESS | HTAR_DOESNT_EXIST

record 'v hdata =
  hkey :: u64
  hvalue :: 'v

record 'v hentry =
  hdata :: "'v hdata"
  hdib :: u64
  hpresent :: bool

type_synonym 'v hash_table = "'v hentry list"

abbreviation ht_cap :: "'v hash_table \<Rightarrow> nat" where
  "ht_cap ht \<equiv> length ht"

section \<open>The operations\<close>

definition ht_init :: "'v \<Rightarrow> nat \<Rightarrow> 'v hash_table" where
  \<comment> \<open>\<^verbatim>\<open>i_memset\<close> to zero; \<open>z\<close> is the value type's zero\<close>
  "ht_init z nelem =
     replicate nelem \<lparr>hdata = \<lparr>hkey = 0, hvalue = z\<rparr>, hdib = 0, hpresent = False\<rparr>"

definition ht_index :: "'v hash_table \<Rightarrow> u64 \<Rightarrow> u64 \<Rightarrow> nat" where
  "ht_index ht key dist = unat ((key + dist) mod of_nat (ht_cap ht))"

primrec ht_insert_loop ::
  "nat \<Rightarrow> 'v hash_table \<Rightarrow> 'v hdata \<Rightarrow> u64 \<Rightarrow> hti_res \<times> 'v hash_table" where
  "ht_insert_loop 0 ht data dibn = (HTIR_FULL, ht)"
| "ht_insert_loop (Suc n) ht data dibn =
     (let i = ht_index ht (hkey data) dibn
      in if \<not> hpresent (ht ! i)
         then (HTIR_SUCCESS, ht[i := \<lparr>hdata = data, hdib = dibn, hpresent = True\<rparr>])
         else
           let (ht', data', dibn') =
             (if hdib (ht ! i) < dibn
              then (ht[i := (ht ! i)\<lparr>hdata := data, hdib := dibn\<rparr>], hdata (ht ! i), hdib (ht ! i))
              else (ht, data, dibn))
           in if hkey (hdata (ht' ! i)) = hkey data' then (HTIR_EXISTS, ht')
              else ht_insert_loop n ht' data' (dibn' + 1))"

definition ht_insert :: "'v hash_table \<Rightarrow> 'v hdata \<Rightarrow> (hti_res \<times> 'v hash_table) option" where
  "ht_insert ht data = do {
     ASSERT (ht_cap ht > 0);
     Some (ht_insert_loop (ht_cap ht) ht data 0) }"

definition ht_insert_expect :: "'v hash_table \<Rightarrow> 'v hdata \<Rightarrow> 'v hash_table option" where
  "ht_insert_expect ht data = do {
     (ret, ht') \<leftarrow> ht_insert ht data;
     ASSERT (ret = HTIR_SUCCESS);
     Some ht' }"

text \<open>The probe loop \<^verbatim>\<open>HT_GET\<close> and \<^verbatim>\<open>HT_DELETE\<close> share: where the key is, with the iteration
  number, or \<open>None\<close> (\<^verbatim>\<open>HTAR_DOESNT_EXIST\<close>).\<close>

primrec ht_probe :: "nat \<Rightarrow> 'v hash_table \<Rightarrow> u64 \<Rightarrow> u64 \<Rightarrow> u64 option" where
  "ht_probe 0 ht key i = None"
| "ht_probe (Suc n) ht key i =
     (let e = ht ! ht_index ht key i
      in if \<not> hpresent e then None
         else if hdib e < i then None
         else if hkey (hdata e) = key then Some i
         else ht_probe n ht key (i + 1))"

definition ht_get :: "'v hash_table \<Rightarrow> u64 \<Rightarrow> (hta_res \<times> 'v hdata option) option" where
  "ht_get ht key = do {
     ASSERT (ht_cap ht > 0);
     Some (case ht_probe (ht_cap ht) ht key 0 of
             None \<Rightarrow> (HTAR_DOESNT_EXIST, None)
           | Some i \<Rightarrow> (HTAR_SUCCESS, Some (hdata (ht ! ht_index ht key i)))) }"

definition ht_get_expect :: "'v hash_table \<Rightarrow> u64 \<Rightarrow> 'v hdata option" where
  "ht_get_expect ht key = do {
     (ret, d) \<leftarrow> ht_get ht key;
     ASSERT (ret = HTAR_SUCCESS);
     d }"

primrec ht_shift_loop :: "nat \<Rightarrow> 'v hash_table \<Rightarrow> u64 \<Rightarrow> u64 \<Rightarrow> (hta_res \<times> 'v hash_table) option" where
  "ht_shift_loop 0 ht key i = Some (HTAR_DOESNT_EXIST, ht)"
| "ht_shift_loop (Suc n) ht key i =
     (let hole = ht_index ht key i;
          next = ht_index ht key (i + 1)
      in if \<not> hpresent (ht ! next) \<or> hdib (ht ! next) = 0
         then Some (HTAR_SUCCESS, ht[hole := (ht ! hole)\<lparr>hpresent := False\<rparr>])
         else do {
           ASSERT (hdib (ht ! next) > 0);
           ASSERT (hpresent (ht ! hole));
           ht_shift_loop n
             (ht[hole := (ht ! hole)\<lparr>hdata := hdata (ht ! next), hdib := hdib (ht ! next) - 1\<rparr>])
             key (i + 1) })"

definition ht_delete :: "'v hash_table \<Rightarrow> u64 \<Rightarrow> (hta_res \<times> 'v hdata option \<times> 'v hash_table) option" where
  "ht_delete ht key = do {
     ASSERT (ht_cap ht > 0);
     case ht_probe (ht_cap ht) ht key 0 of
       None \<Rightarrow> Some (HTAR_DOESNT_EXIST, None, ht)
     | Some i \<Rightarrow> do {
         let data = hdata (ht ! ht_index ht key i);
         (ret, ht') \<leftarrow> ht_shift_loop (ht_cap ht - unat i) ht key i;
         Some (ret, Some data, ht') } }"

definition ht_delete_expect :: "'v hash_table \<Rightarrow> u64 \<Rightarrow> ('v hdata \<times> 'v hash_table) option" where
  "ht_delete_expect ht key = do {
     (ret, d, ht') \<leftarrow> ht_delete ht key;
     ASSERT (ret = HTAR_SUCCESS);
     data \<leftarrow> d;
     Some (data, ht') }"

definition ht_count :: "'v hash_table \<Rightarrow> nat option" where
  "ht_count ht = do {
     ASSERT (ht_cap ht > 0);
     Some (length (filter hpresent ht)) }"

section \<open>The invariant and the map\<close>

definition ht_key :: "'v hash_table \<Rightarrow> nat \<Rightarrow> u64" where
  "ht_key ht s = hkey (hdata (ht ! s))"

definition ht_dib :: "'v hash_table \<Rightarrow> nat \<Rightarrow> nat" where
  "ht_dib ht s = unat (hdib (ht ! s))"

definition ht_pres :: "'v hash_table \<Rightarrow> nat \<Rightarrow> bool" where
  "ht_pres ht s = hpresent (ht ! s)"

definition nxt :: "nat \<Rightarrow> nat \<Rightarrow> nat" where
  "nxt c s = Suc s mod c"

text \<open>Everything but the absence of duplicates, which a deletion gives up for a while.\<close>

definition ht_shape :: "'v hash_table \<Rightarrow> bool" where
  "ht_shape ht \<longleftrightarrow> 0 < ht_cap ht \<and> ht_cap ht < 2 ^ 32 \<and>
     (\<forall>s < ht_cap ht. ht_pres ht s \<longrightarrow>
        unat (ht_key ht s) + ht_cap ht < 2 ^ 64 \<and> ht_dib ht s < ht_cap ht \<and>
        (unat (ht_key ht s) + ht_dib ht s) mod ht_cap ht = s) \<and>
     (\<forall>s < ht_cap ht. ht_pres ht (nxt (ht_cap ht) s) \<and> 0 < ht_dib ht (nxt (ht_cap ht) s) \<longrightarrow>
        ht_pres ht s \<and> ht_dib ht (nxt (ht_cap ht) s) \<le> ht_dib ht s + 1)"

definition ht_stop :: "'v hash_table \<Rightarrow> nat \<Rightarrow> bool" where
  "ht_stop ht s \<longleftrightarrow> \<not> ht_pres ht s \<or> ht_dib ht s = 0"

definition ht_distinct :: "'v hash_table \<Rightarrow> bool" where
  "ht_distinct ht \<longleftrightarrow> (\<forall>s < ht_cap ht. \<forall>t < ht_cap ht.
     ht_pres ht s \<and> ht_pres ht t \<and> ht_key ht s = ht_key ht t \<longrightarrow> s = t)"

definition ht_inv :: "'v hash_table \<Rightarrow> bool" where
  "ht_inv ht \<longleftrightarrow> ht_shape ht \<and> (\<exists>s < ht_cap ht. ht_stop ht s) \<and> ht_distinct ht"

definition ht_mem :: "'v hash_table \<Rightarrow> u64 \<Rightarrow> 'v \<Rightarrow> bool" where
  "ht_mem ht k v \<longleftrightarrow> (\<exists>s < ht_cap ht. ht_pres ht s \<and> hdata (ht ! s) = \<lparr>hkey = k, hvalue = v\<rparr>)"

definition ht_map :: "'v hash_table \<Rightarrow> u64 \<rightharpoonup> 'v" where
  "ht_map ht k =
     map_option (\<lambda>e. hvalue (hdata e)) (List.find (\<lambda>e. hpresent e \<and> hkey (hdata e) = k) ht)"

definition ht_full :: "'v hash_table \<Rightarrow> bool" where
  "ht_full ht \<longleftrightarrow> (\<forall>e \<in> set ht. hpresent e)"

lemma nxt_less [simp]: "0 < c \<Longrightarrow> nxt c s < c"
  by (simp add: nxt_def)

lemma ht_shapeD:
  assumes "ht_shape ht"
  shows "0 < ht_cap ht" "ht_cap ht < 4294967296"
    "\<And>s. s < ht_cap ht \<Longrightarrow> ht_pres ht s \<Longrightarrow> unat (ht_key ht s) + ht_cap ht < 18446744073709551616"
    "\<And>s. s < ht_cap ht \<Longrightarrow> ht_pres ht s \<Longrightarrow> ht_dib ht s < ht_cap ht"
    "\<And>s. s < ht_cap ht \<Longrightarrow> ht_pres ht s \<Longrightarrow> (unat (ht_key ht s) + ht_dib ht s) mod ht_cap ht = s"
    "\<And>s. s < ht_cap ht \<Longrightarrow> ht_pres ht (nxt (ht_cap ht) s) \<Longrightarrow> 0 < ht_dib ht (nxt (ht_cap ht) s) \<Longrightarrow>
       ht_pres ht s \<and> ht_dib ht (nxt (ht_cap ht) s) \<le> ht_dib ht s + 1"
  using assms by (auto simp: ht_shape_def)

text \<open>The probed index, without words.\<close>

lemma unat_mod_nat: "c < 4294967296 \<Longrightarrow> unat ((x :: u64) mod of_nat c) = unat x mod c"
  by (simp add: unat_mod_distrib unat_of_nat)

lemma ht_index_nat:
  assumes "ht_cap ht < 4294967296" and "unat key + j < 18446744073709551616"
  shows "ht_index ht key (of_nat j) = (unat key + j) mod ht_cap ht"
proof -
  have "j < 2 ^ LENGTH(64)" using assms(2) by simp
  then have "unat (of_nat j :: u64) = j" by (simp add: unat_of_nat)
  with assms(2) have "unat (key + of_nat j) = unat key + j"
    by (simp add: unat_add_lem [THEN iffD1])
  then show ?thesis unfolding ht_index_def using assms(1) by (simp add: unat_mod_nat)
qed

lemma nxt_add: "nxt c ((a + j) mod c) = (a + Suc j) mod c"
  by (simp add: nxt_def mod_Suc_eq)

lemma mod_shift_less:
  fixes a i j c :: nat
  assumes "(a + i) mod c = (a + j) mod c" and "i \<le> j" and "j < i + c"
  shows "i = j"
proof (rule ccontr)
  assume "i \<noteq> j"
  have "c dvd (a + j) - (a + i)"
    using assms(1,2) mod_eq_dvd_iff_nat [of "a + i" "a + j" c] by simp
  then have "c dvd j - i" by simp
  moreover have "0 < j - i" "j - i < c" using assms(2,3) \<open>i \<noteq> j\<close> by auto
  ultimately show False using dvd_imp_le by fastforce
qed

lemma mod_shift_inj:
  fixes a i j c :: nat
  assumes "(a + i) mod c = (a + j) mod c" and "i < c" and "j < c"
  shows "i = j"
  using mod_shift_less [of a i c j] mod_shift_less [of a j c i] assms by (cases "i \<le> j") auto

text \<open>Walking back from an element at distance \<open>d\<close>, the slots it passed are taken.\<close>

lemma ht_chain:
  assumes sh: "ht_shape ht" and pres: "ht_pres ht ((a + j) mod ht_cap ht)"
    and le: "j \<le> ht_dib ht ((a + j) mod ht_cap ht)" and i: "i \<le> j"
  shows "ht_pres ht ((a + i) mod ht_cap ht) \<and> i \<le> ht_dib ht ((a + i) mod ht_cap ht)"
  using pres le i
proof (induction j)
  case 0
  then show ?case by simp
next
  case (Suc j)
  show ?case
  proof (cases "i = Suc j")
    case True
    with Suc.prems show ?thesis by simp
  next
    case False
    let ?s = "(a + j) mod ht_cap ht"
    have "?s < ht_cap ht" using ht_shapeD(1) [OF sh] by simp
    from ht_shapeD(6) [OF sh this] Suc.prems
    have "ht_pres ht ?s" "j \<le> ht_dib ht ?s" by (auto simp: nxt_add)
    with Suc.IH Suc.prems False show ?thesis by simp
  qed
qed

lemma ht_home_chain:
  assumes sh: "ht_shape ht" and s: "s < ht_cap ht" "ht_pres ht s" and i: "i \<le> ht_dib ht s"
  shows "ht_pres ht ((unat (ht_key ht s) + i) mod ht_cap ht) \<and>
    i \<le> ht_dib ht ((unat (ht_key ht s) + i) mod ht_cap ht)"
  using ht_chain [OF sh, of "unat (ht_key ht s)" "ht_dib ht s" i] ht_shapeD(5) [OF sh s] s i
  by simp

subsection \<open>Probing\<close>

lemma of_nat_less_u64:
  "a < 18446744073709551616 \<Longrightarrow> b < 18446744073709551616 \<Longrightarrow>
   (of_nat a :: u64) < of_nat b \<longleftrightarrow> a < b"
  by (simp add: word_less_nat_alt unat_of_nat)

lemma dib_less_iff: "j < 18446744073709551616 \<Longrightarrow> hdib (ht ! s) < of_nat j \<longleftrightarrow> ht_dib ht s < j"
  by (simp add: ht_dib_def word_less_nat_alt unat_of_nat)

lemma ht_probe_step:
  assumes "ht_cap ht < 4294967296" and "unat k + i < 18446744073709551616"
  shows "ht_probe (Suc n) ht k (of_nat i) =
    (let s = (unat k + i) mod ht_cap ht
     in if \<not> ht_pres ht s then None else if ht_dib ht s < i then None
        else if ht_key ht s = k then Some (of_nat i) else ht_probe n ht k (of_nat (Suc i)))"
  using assms ht_index_nat [OF assms]
  by (simp add: Let_def ht_pres_def ht_key_def dib_less_iff add.commute)

lemma ht_probe_hit_aux:
  assumes inv: "ht_inv ht" and s: "s < ht_cap ht" "ht_pres ht s"
  shows "i \<le> ht_dib ht s \<Longrightarrow>
    ht_probe (ht_cap ht - i) ht (ht_key ht s) (of_nat i) = Some (of_nat (ht_dib ht s))"
proof (induction "ht_dib ht s - i" arbitrary: i)
  case 0
  from inv have sh: "ht_shape ht" by (simp add: ht_inv_def)
  note H = ht_shapeD(1,2) [OF sh] ht_shapeD(3,4,5) [OF sh s]
  from 0 have i: "i = ht_dib ht s" by simp
  obtain n where n: "ht_cap ht - i = Suc n" using i H(4) by (metis Suc_diff_Suc)
  have b: "unat (ht_key ht s) + i < 18446744073709551616" using H i by simp
  show ?case unfolding n ht_probe_step [OF H(2) b] using H i s by (simp add: Let_def)
next
  case (Suc m)
  from inv have sh: "ht_shape ht" by (simp add: ht_inv_def)
  note H = ht_shapeD(1,2) [OF sh] ht_shapeD(3,4,5) [OF sh s]
  from Suc(2) have i: "i < ht_dib ht s" by simp
  obtain n where n: "ht_cap ht - i = Suc n" "ht_cap ht - Suc i = n"
    using i H(4) by (metis Suc_diff_Suc less_trans)
  have b: "unat (ht_key ht s) + i < 18446744073709551616" using H i by simp
  let ?t = "(unat (ht_key ht s) + i) mod ht_cap ht"
  have t: "ht_pres ht ?t" "i \<le> ht_dib ht ?t" "?t < ht_cap ht"
    using ht_home_chain [OF sh s, of i] i H by auto
  have "ht_key ht ?t \<noteq> ht_key ht s"
  proof
    assume "ht_key ht ?t = ht_key ht s"
    with inv s t have "?t = s" unfolding ht_inv_def ht_distinct_def by blast
    then have "(unat (ht_key ht s) + i) mod ht_cap ht = (unat (ht_key ht s) + ht_dib ht s) mod ht_cap ht"
      using H by simp
    then have "i = ht_dib ht s" by (rule mod_shift_inj) (use i H in auto)
    with i show False by simp
  qed
  with t show ?case unfolding n ht_probe_step [OF H(2) b] using Suc(1) [of "Suc i"] Suc(2) n i
    by (simp add: Let_def)
qed

lemma ht_probe_hit:
  assumes "ht_inv ht" and "s < ht_cap ht" "ht_pres ht s"
  shows "ht_probe (ht_cap ht) ht (ht_key ht s) 0 = Some (of_nat (ht_dib ht s))"
  using ht_probe_hit_aux [OF assms, of 0] by simp

lemma ht_probe_sound:
  assumes "ht_cap ht < 4294967296" and "unat k + (i + n) < 18446744073709551616"
    and "ht_probe n ht k (of_nat i) = Some w"
  shows "\<exists>j. w = of_nat j \<and> j < i + n \<and> ht_pres ht ((unat k + j) mod ht_cap ht) \<and>
    ht_key ht ((unat k + j) mod ht_cap ht) = k"
  using assms
proof (induction n arbitrary: i)
  case 0
  then show ?case by simp
next
  case (Suc n)
  have b: "unat k + i < 18446744073709551616" using Suc.prems(2) by simp
  show ?case
  proof (cases "ht_probe n ht k (of_nat (Suc i)) = Some w")
    case True
    with Suc.IH [of "Suc i"] Suc.prems show ?thesis by simp
  next
    case False
    with Suc.prems(3) show ?thesis
      unfolding ht_probe_step [OF assms(1) b] Let_def
      by (intro exI [of _ i]) (simp split: if_splits)
  qed
qed

subsection \<open>The map\<close>

lemma ht_mem_unique: "ht_inv ht \<Longrightarrow> ht_mem ht k v \<Longrightarrow> ht_mem ht k w \<Longrightarrow> v = w"
  unfolding ht_inv_def ht_distinct_def ht_mem_def ht_key_def by (metis hdata.select_convs)

lemma ht_map_Some_mem: "ht_map ht k = Some v \<Longrightarrow> ht_mem ht k v"
  unfolding ht_map_def ht_mem_def ht_pres_def
  by (clarsimp simp: find_Some_iff) (metis hdata.surjective unit.exhaust)

lemma ht_map_None_mem: "ht_map ht k = None \<Longrightarrow> \<not> ht_mem ht k v"
  unfolding ht_map_def ht_mem_def ht_pres_def
  by (clarsimp simp: find_None_iff) (metis hdata.select_convs(1) nth_mem)

lemma ht_map_eq:
  assumes "ht_inv ht"
  shows "ht_map ht k = Some v \<longleftrightarrow> ht_mem ht k v"
  using ht_map_Some_mem ht_map_None_mem ht_mem_unique [OF assms] by (metis not_Some_eq)

lemma ht_map_eqI:
  assumes "ht_inv ht" and "\<And>k v. ht_mem ht k v \<longleftrightarrow> m k = Some v"
  shows "ht_map ht = m"
proof
  fix k
  show "ht_map ht k = m k" using ht_map_eq [OF assms(1), of k] assms(2) [of k]
    by (metis not_Some_eq)
qed

lemma ht_map_None_iff:
  assumes "ht_inv ht"
  shows "ht_map ht k = None \<longleftrightarrow> (\<forall>s < ht_cap ht. ht_pres ht s \<longrightarrow> ht_key ht s \<noteq> k)"
proof -
  have "ht_mem ht k (hvalue (hdata (ht ! s)))"
    if "s < ht_cap ht" "ht_pres ht s" "ht_key ht s = k" for s
    using that unfolding ht_mem_def ht_key_def by (intro exI [of _ s]) auto
  moreover have "\<exists>s < ht_cap ht. ht_pres ht s \<and> ht_key ht s = k" if "ht_mem ht k v" for v
    using that unfolding ht_mem_def ht_key_def by auto
  ultimately show ?thesis using ht_map_eq [OF assms, of k] by (metis not_Some_eq)
qed

lemma ht_map_slot:
  assumes "ht_inv ht" and "s < ht_cap ht" and "ht_pres ht s"
  shows "ht_map ht (ht_key ht s) = Some (hvalue (hdata (ht ! s)))"
  unfolding ht_map_eq [OF assms(1)] ht_mem_def ht_key_def using assms by (intro exI [of _ s]) auto

lemma ht_key_bound:
  "ht_inv ht \<Longrightarrow> s < ht_cap ht \<Longrightarrow> ht_pres ht s \<Longrightarrow>
   unat (ht_key ht s) + ht_cap ht < 18446744073709551616"
  unfolding ht_inv_def by (blast dest: ht_shapeD(3))

text \<open>Lookup is lookup in the map.\<close>

lemma ht_get_correct:
  assumes inv: "ht_inv ht" and k: "unat k + ht_cap ht < 2 ^ 64"
  shows "ht_get ht k =
    Some (case ht_map ht k of
            None \<Rightarrow> (HTAR_DOESNT_EXIST, None)
          | Some v \<Rightarrow> (HTAR_SUCCESS, Some \<lparr>hkey = k, hvalue = v\<rparr>))"
proof -
  have sh: "ht_shape ht" using inv by (simp add: ht_inv_def)
  note H = ht_shapeD(1,2) [OF sh]
  show ?thesis
  proof (cases "ht_map ht k")
    case None
    then have "ht_probe (ht_cap ht) ht k 0 = None"
      using ht_probe_sound [of ht k 0 "ht_cap ht"] k H ht_map_None_iff [OF inv, of k]
      by (cases "ht_probe (ht_cap ht) ht k 0") auto
    with None H show ?thesis by (simp add: ht_get_def)
  next
    case (Some v)
    then obtain s where s: "s < ht_cap ht" "ht_pres ht s" "hdata (ht ! s) = \<lparr>hkey = k, hvalue = v\<rparr>"
      using ht_map_Some_mem [OF Some] by (auto simp: ht_mem_def)
    then have "ht_key ht s = k" by (simp add: ht_key_def)
    with ht_probe_hit [OF inv s(1,2)]
    have "ht_probe (ht_cap ht) ht k 0 = Some (of_nat (ht_dib ht s))" by simp
    moreover have "ht_index ht k (of_nat (ht_dib ht s)) = s"
      using ht_index_nat [OF H(2), of k "ht_dib ht s"] ht_shapeD(3,4,5) [OF sh s(1,2)]
        \<open>ht_key ht s = k\<close> by simp
    ultimately show ?thesis using Some s H by (simp add: ht_get_def)
  qed
qed

subsection \<open>Insertion\<close>

lemma ht_update_fields [simp]:
  "p < ht_cap ht \<Longrightarrow> ht_pres (ht[p := e]) s = (if s = p then hpresent e else ht_pres ht s)"
  "p < ht_cap ht \<Longrightarrow> ht_key (ht[p := e]) s = (if s = p then hkey (hdata e) else ht_key ht s)"
  "p < ht_cap ht \<Longrightarrow> ht_dib (ht[p := e]) s = (if s = p then unat (hdib e) else ht_dib ht s)"
  by (simp_all add: ht_pres_def ht_key_def ht_dib_def nth_list_update)

lemma ht_mem_update:
  "p < ht_cap ht \<Longrightarrow> ht_mem (ht[p := e]) k v \<longleftrightarrow>
     (hpresent e \<and> hdata e = \<lparr>hkey = k, hvalue = v\<rparr>) \<or>
     (\<exists>s < ht_cap ht. s \<noteq> p \<and> ht_pres ht s \<and> hdata (ht ! s) = \<lparr>hkey = k, hvalue = v\<rparr>)"
  unfolding ht_mem_def by (auto simp: nth_list_update)

lemma ht_shape_put:
  assumes sh: "ht_shape ht" and p: "p < ht_cap ht" "(unat (hkey d) + j) mod ht_cap ht = p"
    and j: "j < ht_cap ht" and k: "unat (hkey d) + ht_cap ht < 2 ^ 64"
    and prev: "\<And>q. \<lbrakk>q < ht_cap ht; nxt (ht_cap ht) q = p; 0 < j\<rbrakk> \<Longrightarrow> ht_pres ht q \<and> j \<le> ht_dib ht q + 1"
    and nx: "\<lbrakk>ht_pres ht (nxt (ht_cap ht) p); 0 < ht_dib ht (nxt (ht_cap ht) p)\<rbrakk> \<Longrightarrow>
      ht_dib ht (nxt (ht_cap ht) p) \<le> j + 1"
  shows "ht_shape (ht[p := \<lparr>hdata = d, hdib = of_nat j, hpresent = True\<rparr>])"
proof -
  note H = ht_shapeD [OF sh]
  let ?h = "ht[p := \<lparr>hdata = d, hdib = of_nat j, hpresent = True\<rparr>]"
  have uj: "unat (of_nat j :: u64) = j" using j H(2) by (simp add: unat_of_nat)
  have a: "unat (ht_key ?h s) + ht_cap ht < 2 ^ 64 \<and> ht_dib ?h s < ht_cap ht \<and>
      (unat (ht_key ?h s) + ht_dib ?h s) mod ht_cap ht = s"
    if "s < ht_cap ht" "ht_pres ?h s" for s
    using that p j k uj H(3,4,5) [of s] by auto
  have b: "ht_pres ?h s \<and> ht_dib ?h (nxt (ht_cap ht) s) \<le> ht_dib ?h s + 1"
    if s: "s < ht_cap ht" "ht_pres ?h (nxt (ht_cap ht) s)" "0 < ht_dib ?h (nxt (ht_cap ht) s)" for s
  proof (cases "nxt (ht_cap ht) s = p")
    case True
    then have "0 < j" using s p uj by simp
    with prev [OF s(1) True] True uj p show ?thesis by auto
  next
    case False
    with s p uj H(6) [of s] nx show ?thesis by auto
  qed
  show ?thesis unfolding ht_shape_def using H(1,2) a b by simp
qed

lemma ht_distinct_put:
  assumes "ht_distinct ht" and "p < ht_cap ht"
    and "\<And>s. s < ht_cap ht \<Longrightarrow> ht_pres ht s \<Longrightarrow> s \<noteq> p \<Longrightarrow> ht_key ht s \<noteq> hkey (hdata e)"
  shows "ht_distinct (ht[p := e])"
  unfolding ht_distinct_def length_list_update
proof (intro allI impI, elim conjE)
  fix s t
  assume st: "s < ht_cap ht" "t < ht_cap ht" "ht_pres (ht[p := e]) s" "ht_pres (ht[p := e]) t"
    "ht_key (ht[p := e]) s = ht_key (ht[p := e]) t"
  show "s = t"
  proof (cases "s = p \<or> t = p")
    case True
    with st assms(2) assms(3) [of s] assms(3) [of t] show ?thesis by (auto split: if_splits)
  next
    case False
    with st assms(1,2) show ?thesis by (simp add: ht_distinct_def)
  qed
qed

lemma nxt_inj: "q < c \<Longrightarrow> r < c \<Longrightarrow> nxt c q = nxt c r \<Longrightarrow> q = r"
  by (auto simp: nxt_def mod_Suc split: if_splits)

text \<open>The state between two iterations: the element in hand is in no slot, and the slot just
  passed justifies its distance.\<close>

definition ht_hand :: "'v hash_table \<Rightarrow> 'v hdata \<Rightarrow> nat \<Rightarrow> bool" where
  "ht_hand ht d j \<longleftrightarrow> ht_shape ht \<and> ht_distinct ht \<and> unat (hkey d) + ht_cap ht < 2 ^ 64 \<and>
     (\<forall>s < ht_cap ht. ht_pres ht s \<longrightarrow> ht_key ht s \<noteq> hkey d) \<and>
     (0 < j \<longrightarrow> (let q = (unat (hkey d) + (j - 1)) mod ht_cap ht
                  in ht_pres ht q \<and> j \<le> ht_dib ht q + 1))"

lemma ht_hand_less:
  assumes h: "ht_hand ht d j" and e: "s < ht_cap ht" "\<not> ht_pres ht s"
  shows "j < ht_cap ht"
proof (rule ccontr)
  assume "\<not> j < ht_cap ht"
  then have j: "ht_cap ht \<le> j" "0 < j" using e(1) by auto
  have sh: "ht_shape ht" using h by (simp add: ht_hand_def)
  let ?a = "unat (hkey d)"
  have q: "ht_pres ht ((?a + (j - 1)) mod ht_cap ht)" "j - 1 \<le> ht_dib ht ((?a + (j - 1)) mod ht_cap ht)"
    using h j(2) by (auto simp: ht_hand_def Let_def)
  define i where "i = (s + (ht_cap ht - ?a mod ht_cap ht)) mod ht_cap ht"
  have "i < ht_cap ht" unfolding i_def by (intro mod_less_divisor) (use e in linarith)
  moreover have "(?a + i) mod ht_cap ht = s"
  proof -
    have "(?a + i) mod ht_cap ht = (?a mod ht_cap ht + (s + (ht_cap ht - ?a mod ht_cap ht))) mod ht_cap ht"
      by (simp add: i_def mod_add_right_eq mod_add_left_eq)
    also have "?a mod ht_cap ht + (s + (ht_cap ht - ?a mod ht_cap ht)) = s + ht_cap ht"
      using mod_less_divisor [of "ht_cap ht" ?a] e by linarith
    finally show ?thesis using e by simp
  qed
  ultimately have "ht_pres ht s" using ht_chain [OF sh q, of i] j by auto
  with e show False by simp
qed

lemma ht_hand_prev:
  assumes h: "ht_hand ht d j" and q: "q < ht_cap ht" and "nxt (ht_cap ht) q = (unat (hkey d) + j) mod ht_cap ht"
    and j: "0 < j"
  shows "ht_pres ht q \<and> j \<le> ht_dib ht q + 1"
proof -
  let ?r = "(unat (hkey d) + (j - 1)) mod ht_cap ht"
  have "?r < ht_cap ht" by (intro mod_less_divisor) (use q in linarith)
  moreover have "nxt (ht_cap ht) ?r = (unat (hkey d) + j) mod ht_cap ht"
    using j nxt_add [of "ht_cap ht" "unat (hkey d)" "j - 1"] by simp
  ultimately have "q = ?r" using nxt_inj [OF q] assms(3) by metis
  with h j show ?thesis by (simp add: ht_hand_def Let_def)
qed

lemma ht_insert_step:
  assumes "ht_cap ht < 4294967296" and "unat (hkey d) + j < 18446744073709551616"
    and "0 < ht_cap ht"
  shows "ht_insert_loop (Suc n) ht d (of_nat j) =
    (let i = (unat (hkey d) + j) mod ht_cap ht
     in if \<not> ht_pres ht i
        then (HTIR_SUCCESS, ht[i := \<lparr>hdata = d, hdib = of_nat j, hpresent = True\<rparr>])
        else if ht_dib ht i < j
        then (if hkey d = ht_key ht i
              then (HTIR_EXISTS, ht[i := \<lparr>hdata = d, hdib = of_nat j, hpresent = True\<rparr>])
              else ht_insert_loop n (ht[i := \<lparr>hdata = d, hdib = of_nat j, hpresent = True\<rparr>])
                     (hdata (ht ! i)) (of_nat (Suc (ht_dib ht i))))
        else if ht_key ht i = hkey d then (HTIR_EXISTS, ht)
        else ht_insert_loop n ht d (of_nat (Suc j)))"
proof -
  define i where "i = (unat (hkey d) + j) mod ht_cap ht"
  have idx: "ht_index ht (hkey d) (of_nat j) = i" using ht_index_nat [OF assms(1,2)] by (simp add: i_def)
  have e: "(ht ! i)\<lparr>hdata := d, hdib := of_nat j\<rparr> = \<lparr>hdata = d, hdib = of_nat j, hpresent = True\<rparr>"
    if "hpresent (ht ! i)" using that by (cases "ht ! i") simp
  have u: "hdib (ht ! i) + 1 = of_nat (Suc (ht_dib ht i))" by (simp add: ht_dib_def add.commute)
  have n: "(of_nat j :: u64) + 1 = of_nat (Suc j)" by (simp add: add.commute)
  have out: "i < ht_cap ht \<Longrightarrow> ht[i := x] ! i = x" for x
    by simp
  have lt: "i < ht_cap ht" unfolding i_def by (intro mod_less_divisor assms(3))
  have dl: "hdib (ht ! i) < of_nat j \<longleftrightarrow> ht_dib ht i < j" by (rule dib_less_iff) (use assms in simp)
  show ?thesis
    unfolding i_def [symmetric] ht_insert_loop.simps idx
    using lt by (auto simp: Let_def ht_pres_def ht_key_def dl e u n out)
qed

lemma ht_mem_put:
  assumes "p < ht_cap ht" and "hpresent e" and "\<not> ht_pres ht p \<or> hdata (ht ! p) = old"
  shows "ht_mem (ht[p := e]) k v \<longleftrightarrow>
    hdata e = \<lparr>hkey = k, hvalue = v\<rparr> \<or>
    (\<exists>s < ht_cap ht. s \<noteq> p \<and> ht_pres ht s \<and> hdata (ht ! s) = \<lparr>hkey = k, hvalue = v\<rparr>)"
  using ht_mem_update [OF assms(1), of e] assms(2) by simp

lemma ht_insert_loop_new:
  assumes "ht_hand ht d j" and "m < n"
    and "\<not> ht_pres ht ((unat (hkey d) + j + m) mod ht_cap ht)"
  shows "\<exists>ht'. ht_insert_loop n ht d (of_nat j) = (HTIR_SUCCESS, ht') \<and> ht_inv ht' \<and>
    ht_cap ht' = ht_cap ht \<and>
    (\<forall>k v. ht_mem ht' k v \<longleftrightarrow> ht_mem ht k v \<or> d = \<lparr>hkey = k, hvalue = v\<rparr>)"
  using assms
proof (induction n arbitrary: ht d j m)
  case 0
  then show ?case by simp
next
  case (Suc n)
  let ?p = "(unat (hkey d) + j) mod ht_cap ht"
  let ?e = "\<lparr>hdata = d, hdib = of_nat j, hpresent = True\<rparr>"
  have hand: "ht_shape ht" "ht_distinct ht" "unat (hkey d) + ht_cap ht < 2 ^ 64"
    "\<And>s. s < ht_cap ht \<Longrightarrow> ht_pres ht s \<Longrightarrow> ht_key ht s \<noteq> hkey d"
    using Suc.prems(1) by (auto simp: ht_hand_def)
  note H = ht_shapeD [OF hand(1)]
  have p: "?p < ht_cap ht" by (intro mod_less_divisor H(1))
  have "(unat (hkey d) + j + m) mod ht_cap ht < ht_cap ht" by (intro mod_less_divisor H(1))
  then have j: "j < ht_cap ht" using ht_hand_less [OF Suc.prems(1)] Suc.prems(3) by blast
  have b: "unat (hkey d) + j < 18446744073709551616" using hand(3) j by simp
  note prev = ht_hand_prev [OF Suc.prems(1)]
  note step = ht_insert_step [OF H(2) b H(1), of n]
  have uj: "unat (of_nat j :: u64) = j" using j H(2) by (simp add: unat_of_nat)
  consider "\<not> ht_pres ht ?p" | "ht_pres ht ?p" "ht_dib ht ?p < j" | "ht_pres ht ?p" "j \<le> ht_dib ht ?p"
    by linarith
  then show ?case
  proof cases
    case 1
    let ?h = "ht[?p := ?e]"
    have stop: "ht_stop ht (nxt (ht_cap ht) ?p)"
      using H(6) [OF p] 1 by (auto simp: ht_stop_def)
    have "ht_shape ?h"
      using stop by (intro ht_shape_put [OF hand(1) p refl j hand(3) prev]) (auto simp: ht_stop_def)
    moreover have "ht_distinct ?h"
      using hand(2) p hand(4) by (intro ht_distinct_put) auto
    moreover have "\<exists>s < ht_cap ht. ht_stop ?h s"
    proof (cases "nxt (ht_cap ht) ?p = ?p")
      case True
      then have "ht_cap ht = 1" using p by (auto simp: nxt_def mod_Suc split: if_splits)
      with p j uj show ?thesis by (intro exI [of _ ?p]) (auto simp: ht_stop_def)
    next
      case False
      with stop p H(1) show ?thesis
        by (intro exI [of _ "nxt (ht_cap ht) ?p"]) (auto simp: ht_stop_def)
    qed
    moreover have "ht_mem ?h k v \<longleftrightarrow> ht_mem ht k v \<or> d = \<lparr>hkey = k, hvalue = v\<rparr>" for k v
      using ht_mem_update [OF p, of ?e k v] 1 by (auto simp: ht_mem_def)
    ultimately show ?thesis unfolding step using 1 by (simp add: Let_def ht_inv_def)
  next
    case 2
    let ?h = "ht[?p := ?e]" and ?d = "hdata (ht ! ?p)" and ?j = "Suc (ht_dib ht ?p)"
    have key: "hkey d \<noteq> ht_key ht ?p" using hand(4) [OF p 2(1)] by simp
    have m0: "m \<noteq> 0" using Suc.prems(3) 2(1) by (intro notI) simp
    then have m1: "m - 1 < n" using Suc.prems(2) by simp
    have dk: "hkey ?d = ht_key ht ?p" by (simp add: ht_key_def)
    note old = H(3,4,5) [OF p 2(1)]
    have nx: "ht_dib ht (nxt (ht_cap ht) ?p) \<le> j + 1"
      if "ht_pres ht (nxt (ht_cap ht) ?p)" "0 < ht_dib ht (nxt (ht_cap ht) ?p)"
      using H(6) [OF p that] 2 by simp
    have sh: "ht_shape ?h" by (rule ht_shape_put [OF hand(1) p refl j hand(3) prev nx])
    have ds: "ht_distinct ?h" using hand(2) p hand(4) by (intro ht_distinct_put) auto
    have fresh: "ht_key ?h s \<noteq> hkey ?d" if "s < ht_cap ht" "ht_pres ?h s" for s
    proof (cases "s = ?p")
      case True
      with key p dk show ?thesis by simp
    next
      case False
      with that p have "ht_pres ht s" by simp
      with False hand(2) p 2(1) that(1) have "ht_key ht s \<noteq> ht_key ht ?p"
        unfolding ht_distinct_def by blast
      with False p dk show ?thesis by simp
    qed
    have hand': "ht_hand ?h ?d ?j"
      using sh ds fresh old dk p uj 2(2) by (simp add: ht_hand_def Let_def)
    have pos: "(unat (hkey ?d) + ?j + (m - 1)) mod ht_cap ht = (unat (hkey d) + j + m) mod ht_cap ht"
    proof -
      have "(unat (hkey ?d) + ?j + (m - 1)) mod ht_cap ht =
          ((unat (hkey ?d) + ht_dib ht ?p) mod ht_cap ht + m) mod ht_cap ht"
        using m0 by (simp add: mod_add_left_eq)
      also have "\<dots> = (?p + m) mod ht_cap ht" using old(3) dk by simp
      finally show ?thesis by (simp add: mod_add_left_eq)
    qed
    have ne: "(unat (hkey d) + j + m) mod ht_cap ht \<noteq> ?p" using 2(1) Suc.prems(3) by metis
    have "\<not> ht_pres ?h ((unat (hkey ?d) + ?j + (m - 1)) mod ht_cap ?h)"
      using Suc.prems(3) p ne pos by simp
    from Suc.IH [OF hand' m1 this]
    obtain h' where h': "ht_insert_loop n ?h ?d (of_nat ?j) = (HTIR_SUCCESS, h')" "ht_inv h'"
        "ht_cap h' = ht_cap ht"
        "\<And>k v. ht_mem h' k v \<longleftrightarrow> ht_mem ?h k v \<or> ?d = \<lparr>hkey = k, hvalue = v\<rparr>"
      by auto
    have mem: "ht_mem h' k v \<longleftrightarrow> ht_mem ht k v \<or> d = \<lparr>hkey = k, hvalue = v\<rparr>" for k v
      unfolding h'(4) ht_mem_update [OF p] using p 2(1) by (auto simp: ht_mem_def)
    have "ht_insert_loop (Suc n) ht d (of_nat j) = (HTIR_SUCCESS, h')"
      unfolding step using 2 key h'(1) by (simp add: Let_def)
    with h' mem show ?thesis by auto
  next
    case 3
    have key: "ht_key ht ?p \<noteq> hkey d" using hand(4) [OF p 3(1)] .
    have m0: "m \<noteq> 0" using Suc.prems(3) 3(1) by (intro notI) simp
    then have m1: "m - 1 < n" using Suc.prems(2) by simp
    have hand': "ht_hand ht d (Suc j)"
      using Suc.prems(1) 3 by (simp add: ht_hand_def Let_def)
    have "\<not> ht_pres ht ((unat (hkey d) + Suc j + (m - 1)) mod ht_cap ht)"
      using Suc.prems(3) m0 by simp
    from Suc.IH [OF hand' m1 this]
    obtain h' where "ht_insert_loop n ht d (of_nat (Suc j)) = (HTIR_SUCCESS, h')" "ht_inv h'"
        "ht_cap h' = ht_cap ht"
        "\<And>k v. ht_mem h' k v \<longleftrightarrow> ht_mem ht k v \<or> d = \<lparr>hkey = k, hvalue = v\<rparr>"
      by auto
    then show ?thesis unfolding step using 3 key by (simp add: Let_def)
  qed
qed

lemma ht_insert_loop_exists:
  assumes inv: "ht_inv ht" and s: "s < ht_cap ht" "ht_pres ht s" and d: "hkey d = ht_key ht s"
  shows "i \<le> ht_dib ht s \<Longrightarrow>
    ht_insert_loop (ht_cap ht - i) ht d (of_nat i) = (HTIR_EXISTS, ht)"
proof (induction "ht_dib ht s - i" arbitrary: i)
  case 0
  from inv have sh: "ht_shape ht" by (simp add: ht_inv_def)
  note H = ht_shapeD(1,2) [OF sh] ht_shapeD(3,4,5) [OF sh s]
  from 0 have i: "i = ht_dib ht s" by simp
  obtain n where n: "ht_cap ht - i = Suc n" using i H(4) by (metis Suc_diff_Suc)
  have b: "unat (hkey d) + i < 18446744073709551616" using H i d by simp
  show ?case unfolding n ht_insert_step [OF H(2) b H(1)] using H i s d by (simp add: Let_def)
next
  case (Suc m)
  from inv have sh: "ht_shape ht" by (simp add: ht_inv_def)
  note H = ht_shapeD(1,2) [OF sh] ht_shapeD(3,4,5) [OF sh s]
  from Suc(2) have i: "i < ht_dib ht s" by simp
  obtain n where n: "ht_cap ht - i = Suc n" "ht_cap ht - Suc i = n"
    using i H(4) by (metis Suc_diff_Suc less_trans)
  have b: "unat (hkey d) + i < 18446744073709551616" using H i d by simp
  let ?t = "(unat (ht_key ht s) + i) mod ht_cap ht"
  have t: "ht_pres ht ?t" "i \<le> ht_dib ht ?t" "?t < ht_cap ht"
    using ht_home_chain [OF sh s, of i] i H by auto
  have "ht_key ht ?t \<noteq> ht_key ht s"
  proof
    assume "ht_key ht ?t = ht_key ht s"
    with inv s t have "?t = s" unfolding ht_inv_def ht_distinct_def by blast
    then have "(unat (ht_key ht s) + i) mod ht_cap ht = (unat (ht_key ht s) + ht_dib ht s) mod ht_cap ht"
      using H by simp
    then have "i = ht_dib ht s" by (rule mod_shift_inj) (use i H in auto)
    with i show False by simp
  qed
  with t show ?case unfolding n ht_insert_step [OF H(2) b H(1)] using Suc(1) [of "Suc i"] Suc(2) n i d
    by (simp add: Let_def)
qed

lemma ht_full_iff: "ht_full ht \<longleftrightarrow> (\<forall>s < ht_cap ht. ht_pres ht s)"
  unfolding ht_full_def ht_pres_def by (metis in_set_conv_nth)

text \<open>Every slot is probed within \<open>cap\<close> steps.\<close>

lemma mod_reach: "s < c \<Longrightarrow> \<exists>m < c. (a + m) mod c = s" for a c s :: nat
proof -
  assume s: "s < c"
  let ?m = "(s + (c - a mod c)) mod c"
  have "a mod c < c" using s by simp
  then have "a mod c + (s + (c - a mod c)) = s + c" by simp
  then have "(a + ?m) mod c = s" using s by (metis mod_add_left_eq mod_add_right_eq mod_add_self2 mod_less)
  with s show ?thesis by (intro exI [of _ ?m]) auto
qed

lemma ht_insert_correct:
  assumes inv: "ht_inv ht" and k: "unat (hkey d) + ht_cap ht < 2 ^ 64"
  shows "ht_map ht (hkey d) \<noteq> None \<Longrightarrow> ht_insert ht d = Some (HTIR_EXISTS, ht)"
    and "ht_map ht (hkey d) = None \<Longrightarrow> \<not> ht_full ht \<Longrightarrow>
      \<exists>ht'. ht_insert ht d = Some (HTIR_SUCCESS, ht') \<and> ht_inv ht' \<and> ht_cap ht' = ht_cap ht \<and>
        ht_map ht' = (ht_map ht)(hkey d \<mapsto> hvalue d)"
proof -
  have sh: "ht_shape ht" "ht_distinct ht" using inv by (simp_all add: ht_inv_def)
  note H = ht_shapeD(1,2) [OF sh(1)]
  show "ht_insert ht d = Some (HTIR_EXISTS, ht)" if some: "ht_map ht (hkey d) \<noteq> None"
  proof -
    obtain s where s: "s < ht_cap ht" "ht_pres ht s" "ht_key ht s = hkey d"
      using some ht_map_None_iff [OF inv, of "hkey d"] by auto
    from ht_insert_loop_exists [OF inv s(1,2) s(3) [symmetric], of 0] H show ?thesis
      by (simp add: ht_insert_def)
  qed
  show "\<exists>ht'. ht_insert ht d = Some (HTIR_SUCCESS, ht') \<and> ht_inv ht' \<and> ht_cap ht' = ht_cap ht \<and>
        ht_map ht' = (ht_map ht)(hkey d \<mapsto> hvalue d)"
    if none: "ht_map ht (hkey d) = None" and room: "\<not> ht_full ht"
  proof -
    obtain s where s: "s < ht_cap ht" "\<not> ht_pres ht s" using room by (auto simp: ht_full_iff)
    obtain m where m: "m < ht_cap ht" "(unat (hkey d) + m) mod ht_cap ht = s"
      using mod_reach [OF s(1)] by blast
    have hand: "ht_hand ht d 0"
      using sh k none by (auto simp: ht_hand_def ht_map_None_iff [OF inv])
    obtain ht' where h: "ht_insert_loop (ht_cap ht) ht d 0 = (HTIR_SUCCESS, ht')" "ht_inv ht'"
        "ht_cap ht' = ht_cap ht" "\<And>k v. ht_mem ht' k v \<longleftrightarrow> ht_mem ht k v \<or> d = \<lparr>hkey = k, hvalue = v\<rparr>"
      using ht_insert_loop_new [OF hand m(1)] m(2) s(2) by auto
    have "ht_map ht' = (ht_map ht)(hkey d \<mapsto> hvalue d)"
    proof (rule ht_map_eqI [OF h(2)])
      fix q v
      have "ht_mem ht q v \<longleftrightarrow> ht_map ht q = Some v" by (rule ht_map_eq [OF inv, symmetric])
      with none show "ht_mem ht' q v \<longleftrightarrow> ((ht_map ht)(hkey d \<mapsto> hvalue d)) q = Some v"
        unfolding h(4) by (cases d) auto
    qed
    with h H show ?thesis by (simp add: ht_insert_def)
  qed
qed

subsection \<open>Deletion\<close>

text \<open>While the elements behind the removed one move up, the hole \<open>h\<close> still holds a copy that no
  longer counts.\<close>

definition ht_mem_but :: "'v hash_table \<Rightarrow> nat \<Rightarrow> u64 \<Rightarrow> 'v \<Rightarrow> bool" where
  "ht_mem_but ht h k v \<longleftrightarrow>
     (\<exists>s < ht_cap ht. s \<noteq> h \<and> ht_pres ht s \<and> hdata (ht ! s) = \<lparr>hkey = k, hvalue = v\<rparr>)"

definition ht_distinct_but :: "'v hash_table \<Rightarrow> nat \<Rightarrow> bool" where
  "ht_distinct_but ht h \<longleftrightarrow> (\<forall>s < ht_cap ht. \<forall>t < ht_cap ht.
     s \<noteq> h \<and> t \<noteq> h \<and> ht_pres ht s \<and> ht_pres ht t \<and> ht_key ht s = ht_key ht t \<longrightarrow> s = t)"

lemma ht_shift_step:
  assumes "ht_cap ht < 4294967296" and "unat k + Suc i < 18446744073709551616"
    and "ht_pres ht ((unat k + i) mod ht_cap ht)"
  shows "ht_shift_loop (Suc n) ht k (of_nat i) =
    (let hole = (unat k + i) mod ht_cap ht; next = (unat k + Suc i) mod ht_cap ht
     in if ht_stop ht next then Some (HTAR_SUCCESS, ht[hole := (ht ! hole)\<lparr>hpresent := False\<rparr>])
        else ht_shift_loop n
               (ht[hole := \<lparr>hdata = hdata (ht ! next), hdib = of_nat (ht_dib ht next - 1), hpresent = True\<rparr>])
               k (of_nat (Suc i)))"
proof -
  define h where "h = (unat k + i) mod ht_cap ht"
  define t where "t = (unat k + Suc i) mod ht_cap ht"
  have b: "unat k + i < 18446744073709551616" using assms(2) by simp
  have idx: "ht_index ht k (of_nat i) = h" "ht_index ht k (of_nat i + 1) = t"
    using ht_index_nat [OF assms(1) b] ht_index_nat [OF assms(1,2)] by (simp_all add: h_def t_def add.commute)
  have stop: "\<not> hpresent (ht ! t) \<or> hdib (ht ! t) = 0 \<longleftrightarrow> ht_stop ht t"
    by (simp add: ht_stop_def ht_pres_def ht_dib_def unat_eq_0)
  have e: "(ht ! h)\<lparr>hdata := hdata (ht ! t), hdib := hdib (ht ! t) - 1\<rparr> =
      \<lparr>hdata = hdata (ht ! t), hdib = of_nat (ht_dib ht t - 1), hpresent = True\<rparr>"
    if "\<not> ht_stop ht t"
  proof -
    have "0 < ht_dib ht t" using that by (simp add: ht_stop_def)
    then have "hdib (ht ! t) - 1 = of_nat (ht_dib ht t - 1)" by (simp add: ht_dib_def of_nat_diff)
    with assms(3) show ?thesis by (cases "ht ! h") (simp add: ht_pres_def h_def)
  qed
  have pos: "\<not> ht_stop ht t \<Longrightarrow> hdib (ht ! t) > 0"
    by (simp add: stop [symmetric] word_gt_0)
  show ?thesis
    unfolding ht_shift_loop.simps Let_def idx stop h_def [symmetric] t_def [symmetric]
    using assms(3) e pos by (simp add: ht_pres_def h_def add.commute)
qed

lemma ht_shift_loop_correct:
  assumes "ht_shape ht" and "ht_pres ht ((unat k + i) mod ht_cap ht)"
    and "unat k + ht_cap ht < 2 ^ 64"
    and "ht_distinct_but ht ((unat k + i) mod ht_cap ht)"
    and "i \<le> j" and "j < ht_cap ht" and "ht_stop ht ((unat k + Suc j) mod ht_cap ht)"
  shows "\<exists>ht'. ht_shift_loop (ht_cap ht - i) ht k (of_nat i) = Some (HTAR_SUCCESS, ht') \<and>
    ht_inv ht' \<and> ht_cap ht' = ht_cap ht \<and>
    (\<forall>q v. ht_mem ht' q v \<longleftrightarrow> ht_mem_but ht ((unat k + i) mod ht_cap ht) q v)"
  using assms
proof (induction "j - i" arbitrary: i ht rule: less_induct)
  case less
  let ?h = "(unat k + i) mod ht_cap ht" and ?t = "(unat k + Suc i) mod ht_cap ht"
  note sh = less.prems(1) and H = ht_shapeD [OF less.prems(1)]
  have hb: "?h < ht_cap ht" "?t < ht_cap ht" by (intro mod_less_divisor H(1))+
  have tn: "nxt (ht_cap ht) ?h = ?t" by (rule nxt_add)
  obtain n where n: "ht_cap ht - i = Suc n" "ht_cap ht - Suc i = n"
    using less.prems(5,6) by (metis Suc_diff_Suc le_less_trans)
  have b: "unat k + Suc i < 18446744073709551616" using less.prems(3,5,6) by simp
  note step = ht_shift_step [OF H(2) b less.prems(2), of n]
  show ?case
  proof (cases "ht_stop ht ?t")
    case True
    let ?g = "ht[?h := (ht ! ?h)\<lparr>hpresent := False\<rparr>]"
    have pres: "ht_pres ?g s \<longleftrightarrow> s \<noteq> ?h \<and> ht_pres ht s" "ht_dib ?g s = ht_dib ht s"
      "ht_key ?g s = ht_key ht s" for s
      using hb by (auto simp: ht_dib_def ht_key_def nth_list_update)
    have A: "unat (ht_key ?g s) + ht_cap ht < 2 ^ 64 \<and> ht_dib ?g s < ht_cap ht \<and>
        (unat (ht_key ?g s) + ht_dib ?g s) mod ht_cap ht = s"
      if "s < ht_cap ht" "ht_pres ?g s" for s
      using that H(3,4,5) [of s] by (simp add: pres)
    have L: "ht_pres ?g s \<and> ht_dib ?g (nxt (ht_cap ht) s) \<le> ht_dib ?g s + 1"
      if s: "s < ht_cap ht" "ht_pres ?g (nxt (ht_cap ht) s)" "0 < ht_dib ?g (nxt (ht_cap ht) s)" for s
    proof -
      have "s \<noteq> ?h" using s True tn by (auto simp: pres ht_stop_def)
      with s H(6) [of s] show ?thesis by (simp add: pres)
    qed
    have c32: "ht_cap ht < 2 ^ 32" using H(2) by simp
    have "ht_shape ?g"
      unfolding ht_shape_def length_list_update using H(1) c32 A L by blast
    moreover have "ht_distinct ?g"
      using less.prems(4) by (auto simp: ht_distinct_def ht_distinct_but_def pres)
    moreover have "ht_stop ?g ?h" by (simp add: ht_stop_def pres)
    ultimately have "ht_inv ?g" using hb by (auto simp: ht_inv_def)
    moreover have "ht_mem ?g q v \<longleftrightarrow> ht_mem_but ht ?h q v" for q v
      unfolding ht_mem_update [OF hb(1)] ht_mem_but_def by simp
    ultimately show ?thesis unfolding n(1) step using True by (simp add: Let_def)
  next
    case False
    let ?d = "hdata (ht ! ?t)" and ?j = "ht_dib ht ?t - 1"
    let ?g = "ht[?h := \<lparr>hdata = ?d, hdib = of_nat ?j, hpresent = True\<rparr>]"
    have t: "ht_pres ht ?t" "0 < ht_dib ht ?t" using False by (auto simp: ht_stop_def)
    note old = H(3,4,5) [OF hb(2) t(1)]
    have dk: "hkey ?d = ht_key ht ?t" by (simp add: ht_key_def)
    have th: "?t \<noteq> ?h"
    proof
      assume "?t = ?h"
      then have "ht_cap ht = 1" using tn hb by (auto simp: nxt_def mod_Suc split: if_splits)
      with old t show False by simp
    qed
    have hd: "ht_pres ht ?h" "ht_dib ht ?t \<le> ht_dib ht ?h + 1"
      using H(6) [OF hb(1)] t tn by auto
    have home: "(unat (hkey ?d) + ?j) mod ht_cap ht = ?h"
    proof (rule nxt_inj [of _ "ht_cap ht"])
      show "nxt (ht_cap ht) ((unat (hkey ?d) + ?j) mod ht_cap ht) = nxt (ht_cap ht) ?h"
        unfolding nxt_add tn dk using old(3) t(2) by simp
    qed (intro mod_less_divisor H(1))+
    have prev: "ht_pres ht q \<and> ?j \<le> ht_dib ht q + 1"
      if "q < ht_cap ht" "nxt (ht_cap ht) q = ?h" "0 < ?j" for q
      using H(6) [OF that(1)] that hd by auto
    have ub: "unat (hkey ?d) + ht_cap ht < 2 ^ 64" using old dk by simp
    have shg: "ht_shape ?g"
      by (rule ht_shape_put [OF sh hb(1) home _ ub prev]) (use old tn in auto)
    have uj: "unat (of_nat ?j :: u64) = ?j" using old H(2) by (simp add: unat_of_nat)
    have dg: "ht_distinct_but ?g ?t"
      unfolding ht_distinct_but_def length_list_update
    proof (intro allI impI, elim conjE)
      fix s u
      assume su: "s < ht_cap ht" "u < ht_cap ht" "s \<noteq> ?t" "u \<noteq> ?t" "ht_pres ?g s" "ht_pres ?g u"
        "ht_key ?g s = ht_key ?g u"
      have other: "ht_key ht x \<noteq> ht_key ht ?t" if "x < ht_cap ht" "x \<noteq> ?t" "x \<noteq> ?h" "ht_pres ht x" for x
        using less.prems(4) that th t hb unfolding ht_distinct_but_def by blast
      have "s = u" if "s \<noteq> ?h" "u \<noteq> ?h"
        using less.prems(4) su that hb unfolding ht_distinct_but_def by auto
      moreover have "ht_key ht s = ht_key ht ?t" if "s \<noteq> ?h" "u = ?h"
        using su that hb dk by simp
      moreover have "ht_key ht u = ht_key ht ?t" if "u \<noteq> ?h" "s = ?h"
        using su that hb dk by simp
      ultimately show "s = u" using other [of s] other [of u] su hb by auto
    qed
    have stop: "ht_stop ?g ((unat k + Suc j) mod ht_cap ht)"
    proof (cases "(unat k + Suc j) mod ht_cap ht = ?h")
      case True
      then have "ht_dib ht ?h = 0" using less.prems(7) hd by (auto simp: ht_stop_def)
      then show ?thesis using True hd hb uj by (simp add: ht_stop_def)
    next
      case no: False
      then show ?thesis using less.prems(7) hb by (simp add: ht_stop_def)
    qed
    have ij: "Suc i \<le> j" using less.prems(5,7) False by (cases "i = j") auto
    have "\<exists>ht'. ht_shift_loop (ht_cap ?g - Suc i) ?g k (of_nat (Suc i)) = Some (HTAR_SUCCESS, ht') \<and>
        ht_inv ht' \<and> ht_cap ht' = ht_cap ?g \<and>
        (\<forall>q v. ht_mem ht' q v \<longleftrightarrow> ht_mem_but ?g ((unat k + Suc i) mod ht_cap ?g) q v)"
      using ij less.prems(3,6) shg dg stop t th hb by (intro less.hyps) auto
    moreover have "ht_mem_but ?g ?t q v \<longleftrightarrow> ht_mem_but ht ?h q v" for q v
      unfolding ht_mem_but_def using hb t th by (auto simp: nth_list_update)
    ultimately show ?thesis unfolding n(1) step using False n(2) by (simp add: Let_def)
  qed
qed

lemma ht_delete_correct:
  assumes inv: "ht_inv ht" and k: "unat k + ht_cap ht < 2 ^ 64"
  shows "ht_map ht k = None \<Longrightarrow> ht_delete ht k = Some (HTAR_DOESNT_EXIST, None, ht)"
    and "ht_map ht k = Some v \<Longrightarrow>
      \<exists>ht'. ht_delete ht k = Some (HTAR_SUCCESS, Some \<lparr>hkey = k, hvalue = v\<rparr>, ht') \<and> ht_inv ht' \<and>
        ht_cap ht' = ht_cap ht \<and> ht_map ht' = (ht_map ht)(k := None)"
proof -
  have sh: "ht_shape ht" "ht_distinct ht" using inv by (simp_all add: ht_inv_def)
  note H = ht_shapeD [OF sh(1)]
  show "ht_delete ht k = Some (HTAR_DOESNT_EXIST, None, ht)" if none: "ht_map ht k = None"
  proof -
    have "ht_probe (ht_cap ht) ht k 0 = None"
      using ht_probe_sound [of ht k 0 "ht_cap ht"] k H(2) none ht_map_None_iff [OF inv, of k] H(1)
      by (cases "ht_probe (ht_cap ht) ht k 0") auto
    with H(1) show ?thesis by (simp add: ht_delete_def)
  qed
  show "\<exists>ht'. ht_delete ht k = Some (HTAR_SUCCESS, Some \<lparr>hkey = k, hvalue = v\<rparr>, ht') \<and> ht_inv ht' \<and>
        ht_cap ht' = ht_cap ht \<and> ht_map ht' = (ht_map ht)(k := None)" if some: "ht_map ht k = Some v"
  proof -
    obtain s where s: "s < ht_cap ht" "ht_pres ht s" "hdata (ht ! s) = \<lparr>hkey = k, hvalue = v\<rparr>"
      using ht_map_Some_mem [OF some] by (auto simp: ht_mem_def)
    then have key: "ht_key ht s = k" by (simp add: ht_key_def)
    let ?d = "ht_dib ht s"
    have probe: "ht_probe (ht_cap ht) ht k 0 = Some (of_nat ?d)"
      using ht_probe_hit [OF inv s(1,2)] key by simp
    note S = H(3,4,5) [OF s(1,2)]
    have ud: "unat (of_nat ?d :: u64) = ?d" using S(2) H(2) by (simp add: unat_of_nat)
    have hole: "(unat k + ?d) mod ht_cap ht = s" using S(3) key by simp
    have idx: "ht_index ht k (of_nat ?d) = s"
      using ht_index_nat [OF H(2), of k ?d] S(1,2) key hole by simp
    obtain s' where s': "s' < ht_cap ht" "ht_stop ht s'" using inv by (auto simp: ht_inv_def)
    obtain m where m: "m < ht_cap ht" "(Suc (unat k) + m) mod ht_cap ht = s'"
      using mod_reach [OF s'(1)] by blast
    have "?d \<le> m"
    proof (rule ccontr)
      assume "\<not> ?d \<le> m"
      then have "Suc m \<le> ?d" by simp
      from ht_home_chain [OF sh(1) s(1,2) this] key m(2) s'(2) show False
        by (auto simp: ht_stop_def)
    qed
    moreover have "ht_distinct_but ht s" using sh(2) by (auto simp: ht_distinct_def ht_distinct_but_def)
    ultimately obtain ht' where h: "ht_shift_loop (ht_cap ht - ?d) ht k (of_nat ?d) = Some (HTAR_SUCCESS, ht')"
        "ht_inv ht'" "ht_cap ht' = ht_cap ht" "\<And>q v. ht_mem ht' q v \<longleftrightarrow> ht_mem_but ht s q v"
      using ht_shift_loop_correct [of ht k ?d m] sh(1) s(2) hole k m s'(2) by auto
    have "ht_map ht' = (ht_map ht)(k := None)"
    proof (rule ht_map_eqI [OF h(2)])
      fix q w
      have "ht_mem_but ht s q w \<longleftrightarrow> q \<noteq> k \<and> ht_mem ht q w"
      proof -
        have "ht_key ht x = k \<Longrightarrow> x = s" if "x < ht_cap ht" "ht_pres ht x" for x
          using sh(2) that s key unfolding ht_distinct_def by blast
        then show ?thesis using s unfolding ht_mem_but_def ht_mem_def ht_key_def
          by (metis hdata.select_convs(1))
      qed
      then show "ht_mem ht' q w \<longleftrightarrow> ((ht_map ht)(k := None)) q = Some w"
        using ht_map_eq [OF inv, of q w] by (simp add: h(4))
    qed
    with h probe H(1) s(3) show ?thesis by (simp add: ht_delete_def idx ud)
  qed
qed

subsection \<open>Initialisation and counting\<close>

lemma ht_init_inv:
  assumes "0 < n" and "n < 2 ^ 32"
  shows "ht_inv (ht_init z n)" and "ht_map (ht_init z n) = Map.empty" and "ht_cap (ht_init z n) = n"
proof -
  have e: "\<not> ht_pres (ht_init z n) s" if "s < n" for s using that by (simp add: ht_init_def ht_pres_def)
  have c: "ht_cap (ht_init z n) = n" by (simp add: ht_init_def)
  have "\<not> ht_pres (ht_init z n) (nxt n s)" for s by (intro e nxt_less assms(1))
  with assms e show inv: "ht_inv (ht_init z n)"
    by (auto simp: ht_inv_def ht_shape_def ht_distinct_def ht_stop_def c)
  show "ht_map (ht_init z n) = Map.empty"
    using ht_map_None_iff [OF inv] e by (intro ext) (auto simp: c)
  show "ht_cap (ht_init z n) = n" by (rule c)
qed

lemma ht_dom:
  assumes "ht_inv ht"
  shows "dom (ht_map ht) = ht_key ht ` {s. s < ht_cap ht \<and> ht_pres ht s}"
  unfolding set_eq_iff domIff ht_map_None_iff [OF assms] by auto

lemma ht_card_dom:
  assumes "ht_inv ht"
  shows "card (dom (ht_map ht)) = length (filter hpresent ht)"
proof -
  have "inj_on (ht_key ht) {s. s < ht_cap ht \<and> ht_pres ht s}"
    using assms by (auto simp: inj_on_def ht_inv_def ht_distinct_def)
  then show ?thesis
    unfolding ht_dom [OF assms] by (simp add: card_image length_filter_conv_card ht_pres_def)
qed

lemma ht_count_correct:
  assumes "ht_inv ht"
  shows "ht_count ht = Some (card (dom (ht_map ht)))"
  using ht_card_dom [OF assms] assms by (auto simp: ht_count_def ht_inv_def ht_shape_def)

lemma ht_full_card:
  assumes "ht_inv ht"
  shows "ht_full ht \<longleftrightarrow> card (dom (ht_map ht)) = ht_cap ht"
  unfolding ht_card_dom [OF assms] ht_full_def
  by (metis filter_id_conv length_filter_less nat_neq_iff)

section \<open>The interface: a table of pages\<close>

text \<open>
  What the clients of the table rely on: it is a finite map of bounded size. The laws hold for
  the keys the table can hold; \<open>key_table\<close> is interpreted on the model of the hash table below.
\<close>

locale key_table =
  fixes inv :: "'s \<Rightarrow> bool"
    and cap :: "'s \<Rightarrow> nat"
    and key_ok :: "'s \<Rightarrow> u64 \<Rightarrow> bool"
    and contents :: "'s \<Rightarrow> u64 \<rightharpoonup> 'v"
    and ins :: "'s \<Rightarrow> 'v hdata \<Rightarrow> (hti_res \<times> 's) option"
    and lookup :: "'s \<Rightarrow> u64 \<Rightarrow> (hta_res \<times> 'v hdata option) option"
    and del :: "'s \<Rightarrow> u64 \<Rightarrow> (hta_res \<times> 'v hdata option \<times> 's) option"
  assumes ins_dup: "\<lbrakk>inv s; key_ok s (hkey d); contents s (hkey d) \<noteq> None\<rbrakk> \<Longrightarrow>
      ins s d = Some (HTIR_EXISTS, s)"
    and ins_new: "\<lbrakk>inv s; key_ok s (hkey d); contents s (hkey d) = None;
        card (dom (contents s)) < cap s\<rbrakk> \<Longrightarrow>
      \<exists>s'. ins s d = Some (HTIR_SUCCESS, s') \<and> inv s' \<and> cap s' = cap s \<and> key_ok s' = key_ok s \<and>
        contents s' = (contents s)(hkey d \<mapsto> hvalue d)"
    and lookup_ok: "\<lbrakk>inv s; key_ok s k\<rbrakk> \<Longrightarrow>
      lookup s k = Some (case contents s k of
          None \<Rightarrow> (HTAR_DOESNT_EXIST, None)
        | Some v \<Rightarrow> (HTAR_SUCCESS, Some \<lparr>hkey = k, hvalue = v\<rparr>))"
    and del_none: "\<lbrakk>inv s; key_ok s k; contents s k = None\<rbrakk> \<Longrightarrow>
      del s k = Some (HTAR_DOESNT_EXIST, None, s)"
    and del_some: "\<lbrakk>inv s; key_ok s k; contents s k = Some v\<rbrakk> \<Longrightarrow>
      \<exists>s'. del s k = Some (HTAR_SUCCESS, Some \<lparr>hkey = k, hvalue = v\<rparr>, s') \<and> inv s' \<and>
        cap s' = cap s \<and> key_ok s' = key_ok s \<and> contents s' = (contents s)(k := None)"
    and fin: "inv s \<Longrightarrow> finite (dom (contents s))"

text \<open>Inserting keys one after the other until one is refused, as a scan for duplicates does.\<close>

primrec ins_all :: "('s \<Rightarrow> 'v hdata \<Rightarrow> (hti_res \<times> 's) option) \<Rightarrow> 's \<Rightarrow> 'v hdata list \<Rightarrow>
    (hti_res \<times> 's) option" where
  "ins_all ins s [] = Some (HTIR_SUCCESS, s)"
| "ins_all ins s (d # ds) = do {
     (r, s) \<leftarrow> ins s d;
     if r \<noteq> HTIR_SUCCESS then Some (r, s) else ins_all ins s ds }"

context key_table
begin

lemma ins_all_spec:
  assumes "inv s" and "\<forall>d \<in> set ds. key_ok s (hkey d)"
    and "card (dom (contents s)) + length ds \<le> cap s"
  shows "\<exists>r s'. ins_all ins s ds = Some (r, s') \<and> inv s' \<and>
    (r = HTIR_SUCCESS \<longleftrightarrow> distinct (map hkey ds) \<and> (\<forall>d \<in> set ds. contents s (hkey d) = None)) \<and>
    (r \<noteq> HTIR_SUCCESS \<longrightarrow> r = HTIR_EXISTS) \<and>
    (r = HTIR_SUCCESS \<longrightarrow> contents s' = contents s ++ map_of (map (\<lambda>d. (hkey d, hvalue d)) ds))"
  using assms
proof (induction ds arbitrary: s)
  case Nil
  then show ?case by simp
next
  case (Cons d ds)
  show ?case
  proof (cases "contents s (hkey d)")
    case (Some v)
    with Cons.prems ins_dup [of s d] show ?thesis by simp
  next
    case None
    with Cons.prems ins_new [of s d] obtain s1 where s1: "ins s d = Some (HTIR_SUCCESS, s1)" "inv s1"
        "cap s1 = cap s" "key_ok s1 = key_ok s" "contents s1 = (contents s)(hkey d \<mapsto> hvalue d)"
      by auto
    have "card (dom (contents s1)) = Suc (card (dom (contents s)))"
      using None fin [OF Cons.prems(1)] by (simp add: s1(5) card_insert_if domIff)
    with Cons.prems s1 have prem: "\<forall>d \<in> set ds. key_ok s1 (hkey d)"
      "card (dom (contents s1)) + length ds \<le> cap s1" by auto
    obtain r s' where r: "ins_all ins s1 ds = Some (r, s')" "inv s'"
        "r = HTIR_SUCCESS \<longleftrightarrow> distinct (map hkey ds) \<and> (\<forall>d \<in> set ds. contents s1 (hkey d) = None)"
        "r \<noteq> HTIR_SUCCESS \<longrightarrow> r = HTIR_EXISTS"
        "r = HTIR_SUCCESS \<longrightarrow> contents s' = contents s1 ++ map_of (map (\<lambda>d. (hkey d, hvalue d)) ds)"
      using Cons.IH [OF s1(2) prem] by blast
    have split: "(\<forall>d' \<in> set ds. contents s1 (hkey d') = None) \<longleftrightarrow>
        hkey d \<notin> set (map hkey ds) \<and> (\<forall>d' \<in> set ds. contents s (hkey d') = None)"
      by (auto simp: s1(5)) (metis imageI)
    have "contents s1 ++ map_of (map (\<lambda>d. (hkey d, hvalue d)) ds) =
        contents s ++ map_of (map (\<lambda>d. (hkey d, hvalue d)) (d # ds))"
      if "hkey d \<notin> set (map hkey ds)"
    proof -
      have "map_of (map (\<lambda>d. (hkey d, hvalue d)) ds) (hkey d) = None"
        using that by (auto simp: map_of_eq_None_iff)
      then show ?thesis by (auto simp: s1(5) map_add_def fun_eq_iff split: option.splits)
    qed
    with s1(1) r None split show ?thesis
      by (auto simp: map_add_def fun_eq_iff split: option.splits)
  qed
qed

end

interpretation rht: key_table ht_inv length
    "\<lambda>ht k. unat k + ht_cap ht < 18446744073709551616" ht_map ht_insert ht_get ht_delete
proof (unfold_locales, goal_cases)
  case (1 s d)
  then show ?case using ht_insert_correct(1) [of s d] by simp
next
  case (2 s d)
  then show ?case using ht_insert_correct(2) [of s d] ht_full_card [of s] by fastforce
next
  case (3 s k)
  then show ?case using ht_get_correct [of s k] by simp
next
  case (4 s k)
  then show ?case using ht_delete_correct(1) [of s k] by simp
next
  case (5 s k v)
  then show ?case using ht_delete_correct(2) [of s k v] by fastforce
next
  case (6 s)
  then show ?case by (simp add: ht_dom)
qed


text \<open>Nothing can be added to a full table.\<close>

lemma ht_index_less: "0 < ht_cap ht \<Longrightarrow> ht_cap ht < 2 ^ 64 \<Longrightarrow> ht_index ht k d < ht_cap ht"
  unfolding ht_index_def by (simp add: unat_mod unat_of_nat take_bit_nat_eq_self)

lemma ht_insert_loop_full:
  "\<forall>i < ht_cap ht. hpresent (ht ! i) \<Longrightarrow> 0 < ht_cap ht \<Longrightarrow> ht_cap ht < 2 ^ 64 \<Longrightarrow>
     fst (ht_insert_loop n ht data dibn) \<noteq> HTIR_SUCCESS"
proof (induction n arbitrary: ht data dibn)
  case (Suc n)
  let ?i = "ht_index ht (hkey data) dibn"
  have i: "hpresent (ht ! ?i)" "?i < ht_cap ht" using Suc.prems ht_index_less by blast+
  show ?case
  proof (cases "hdib (ht ! ?i) < dibn")
    case True
    let ?ht = "ht[?i := (ht ! ?i)\<lparr>hdata := data, hdib := dibn\<rparr>]"
    have "\<forall>j < ht_cap ?ht. hpresent (?ht ! j)" using Suc.prems(1) i by (simp add: nth_list_update)
    then have "fst (ht_insert_loop n ?ht d e) \<noteq> HTIR_SUCCESS" for d e using Suc.prems(2,3) by (intro Suc.IH) simp_all
    with True i show ?thesis by (simp add: Let_def)
  next
    case False
    with Suc.IH [OF Suc.prems] i show ?thesis by (simp add: Let_def)
  qed
qed simp

lemma ht_insert_full:
  assumes "ht_full ht" and "0 < ht_cap ht" and "ht_cap ht < 2 ^ 64"
  shows "\<exists>r ht'. ht_insert ht d = Some (r, ht') \<and> r \<noteq> HTIR_SUCCESS"
  using ht_insert_loop_full [of ht "ht_cap ht" d 0] assms
  by (cases "ht_insert_loop (ht_cap ht) ht d 0") (auto simp: ht_insert_def ht_full_def)

text \<open>C10: The Robin Hood hash table is a finite map of page numbers, as long as it is not full. On a table with the invariant,
  and for a key that leaves room below \<open>2 ^ 64\<close>: a lookup finds exactly the value of the
  map; an insertion of a key that is there is refused and changes nothing; an insertion of a new
  key into a table that is not full adds it, and into a full table it does not succeed (it may then lose another entry, see
  \<open>robin_hood_full_insert_loses_entry\<close>); a deletion removes the key, hands its entry back and
  closes the gap behind it, so that the invariant holds again and every other key is still
  found.\<close>

theorem robin_hood_refines_map:
  assumes "ht_inv ht" and "unat k + ht_cap ht < 2 ^ 64"
  shows "ht_get ht k =
      Some (case ht_map ht k of
              None \<Rightarrow> (HTAR_DOESNT_EXIST, None)
            | Some v \<Rightarrow> (HTAR_SUCCESS, Some \<lparr>hkey = k, hvalue = v\<rparr>)) \<and>
    (if ht_map ht k \<noteq> None then ht_insert ht \<lparr>hkey = k, hvalue = w\<rparr> = Some (HTIR_EXISTS, ht)
     else if ht_full ht then \<exists>r ht'. ht_insert ht \<lparr>hkey = k, hvalue = w\<rparr> = Some (r, ht') \<and> r \<noteq> HTIR_SUCCESS
     else \<exists>ht'. ht_insert ht \<lparr>hkey = k, hvalue = w\<rparr> = Some (HTIR_SUCCESS, ht') \<and> ht_inv ht' \<and>
          ht_cap ht' = ht_cap ht \<and> ht_map ht' = (ht_map ht)(k \<mapsto> w)) \<and>
    (case ht_map ht k of
       None \<Rightarrow> ht_delete ht k = Some (HTAR_DOESNT_EXIST, None, ht)
     | Some v \<Rightarrow> \<exists>ht'. ht_delete ht k = Some (HTAR_SUCCESS, Some \<lparr>hkey = k, hvalue = v\<rparr>, ht') \<and>
         ht_inv ht' \<and> ht_cap ht' = ht_cap ht \<and> ht_map ht' = (ht_map ht)(k := None))"
  using ht_get_correct [OF assms] ht_insert_correct [OF assms(1), of "\<lparr>hkey = k, hvalue = w\<rparr>"]
    ht_delete_correct [OF assms] assms ht_insert_full [of ht "\<lparr>hkey = k, hvalue = w\<rparr>"] ht_shapeD(1) [of ht]
  by (auto simp: ht_inv_def split: option.split)

definition ht_example :: "nat hash_table" where
  "ht_example =
     [\<lparr>hdata = \<lparr>hkey = 0, hvalue = 10\<rparr>, hdib = 0, hpresent = True\<rparr>,
      \<lparr>hdata = \<lparr>hkey = 3, hvalue = 13\<rparr>, hdib = 1, hpresent = True\<rparr>,
      \<lparr>hdata = \<lparr>hkey = 0, hvalue = 0\<rparr>, hdib = 0, hpresent = False\<rparr>]"

lemma all_less_small:
  "(\<forall>s < 2. P s) \<longleftrightarrow> P 0 \<and> P (1 :: nat)" "(\<forall>s < 3. P s) \<longleftrightarrow> P 0 \<and> P 1 \<and> P (2 :: nat)"
  by (auto simp: numeral_2_eq_2 numeral_3_eq_3 less_Suc_eq)

lemma ht_example_inv: "ht_inv ht_example"
proof -
  have c: "ht_cap ht_example = 3" by (simp add: ht_example_def)
  have "ht_stop ht_example 0"
    by (simp add: ht_example_def ht_stop_def ht_dib_def)
  then have "\<exists>s < 3. ht_stop ht_example s" by (intro exI [of _ 0]) simp
  then show ?thesis
    unfolding ht_inv_def ht_shape_def ht_distinct_def c all_less_small
    by (simp add: ht_example_def ht_pres_def ht_key_def ht_dib_def nxt_def)
qed

theorem robin_hood_refines_map_witness:
  "ht_get ht_example 3 = Some (HTAR_SUCCESS, Some \<lparr>hkey = 3, hvalue = 13\<rparr>) \<and>
   (\<exists>ht'. ht_delete ht_example 3 = Some (HTAR_SUCCESS, Some \<lparr>hkey = 3, hvalue = 13\<rparr>, ht') \<and> ht_inv ht')"
proof -
  have "unat (3 :: u64) + ht_cap ht_example < 2 ^ 64" by (simp add: ht_example_def)
  moreover have "ht_map ht_example 3 = Some 13" by (simp add: ht_map_def ht_example_def)
  ultimately show ?thesis
    using robin_hood_refines_map [OF ht_example_inv, of 3 0] by auto
qed

text \<open>An insertion into a full table does more than report it: it displaces entries as
  it probes and returns \<^verbatim>\<open>HTIR_FULL\<close> with one of them in hand, which is lost.\<close>

theorem robin_hood_full_insert_loses_entry:
  "\<exists>(ht :: nat hash_table) ht' d k. ht_inv ht \<and> ht_insert ht d = Some (HTIR_FULL, ht') \<and>
     ht_map ht k \<noteq> None \<and> ht_map ht' k = None"
proof -
  let ?e = "\<lambda>k d. \<lparr>hdata = \<lparr>hkey = k, hvalue = 0\<rparr>, hdib = d, hpresent = True\<rparr> :: nat hentry"
  have c: "ht_cap [?e 0 0, ?e 1 0] = 2" by simp
  have "ht_stop [?e 0 0, ?e 1 0] 0" by (simp add: ht_stop_def ht_dib_def)
  then have stop: "\<exists>s < 2. ht_stop [?e 0 0, ?e 1 0] s" by (intro exI [of _ 0]) simp
  have inv: "ht_inv [?e 0 0, ?e 1 0]"
    unfolding ht_inv_def ht_shape_def ht_distinct_def c all_less_small using stop
    by (simp add: ht_pres_def ht_key_def ht_dib_def nxt_def)
  have ins: "ht_insert [?e 0 0, ?e 1 0] \<lparr>hkey = 2, hvalue = 0\<rparr> = Some (HTIR_FULL, [?e 0 0, ?e 2 1])"
    by code_simp
  show ?thesis
    by (rule exI, rule exI, rule exI, rule exI [of _ 1], intro conjI, rule inv, rule ins)
      (simp_all add: ht_map_def)
qed

end
