(* ===== verification/Inner_Node.thy ===== *)
theory Inner_Node
  imports Page_Base Robin_Hood
begin

text \<open>
  \<^verbatim>\<open>libs/nspager/inner_node.c\<close> and \<^verbatim>\<open>inner_node.h\<close>: the inner pages of the R+tree. An inner
  node holds pairs of a child page and the size of the child's subtree. The child pages grow upwards from the
  header, the sizes (keys) grow downwards from the end of the page.

  \<open>in_pairs\<close> is the list of pairs a node stands for and \<open>wf_in\<close> its invariant. Each operation is
  related to a list operation on the pairs; \<open>in_choose_lidx\<close>, the search of the tree's descent, to the
  prefix sums of the keys; the duplicate check of \<open>in_validate_for_db\<close>, which goes through the Robin Hood
  hash table, to distinctness. Loops run over the indices that are left.
\<close>

abbreviation IN_NEXT_OFST :: nat where "IN_NEXT_OFST \<equiv> 13"
abbreviation IN_PREV_OFST :: nat where "IN_PREV_OFST \<equiv> 21"
abbreviation IN_NLEN_OFST :: nat where "IN_NLEN_OFST \<equiv> 29"
abbreviation IN_LEAF_OFST :: nat where "IN_LEAF_OFST \<equiv> 33"
abbreviation IN_MAX_KEYS :: nat where "IN_MAX_KEYS \<equiv> 125"

record in_pair =
  ip_pg :: pgno
  ip_key :: b_size

definition in_pair_is_empty :: "in_pair \<Rightarrow> bool" where
  "in_pair_is_empty o' \<longleftrightarrow> ip_pg o' = PGNO_NULL"

record in_data =
  id_nodes :: "in_pair list"
  id_len :: nat

section \<open>Fields\<close>

definition in_get_len :: "page \<Rightarrow> p_size" where
  "in_get_len n = unat (page_get n IN_NLEN_OFST :: u32)"

definition in_get_avail :: "page \<Rightarrow> p_size" where
  "in_get_avail n = sub32 IN_MAX_KEYS (in_get_len n)"

definition in_full :: "page \<Rightarrow> bool" where
  "in_full n \<longleftrightarrow> in_get_len n = IN_MAX_KEYS"

definition in_get_next :: "page \<Rightarrow> pgno" where
  "in_get_next n = page_get n IN_NEXT_OFST"

definition in_get_prev :: "page \<Rightarrow> pgno" where
  "in_get_prev n = page_get n IN_PREV_OFST"

definition in_is_root :: "page \<Rightarrow> bool" where
  "in_is_root n \<longleftrightarrow> in_get_next n = PGNO_NULL \<and> in_get_prev n = PGNO_NULL"

definition in_set_len :: "page \<Rightarrow> p_size \<Rightarrow> page" where
  "in_set_len n len = page_set n IN_NLEN_OFST (of_nat len :: u32)"

definition in_set_next :: "page \<Rightarrow> pgno \<Rightarrow> page" where
  "in_set_next n next = page_set n IN_NEXT_OFST next"

definition in_set_prev :: "page \<Rightarrow> pgno \<Rightarrow> page" where
  "in_set_prev n prev = page_set n IN_PREV_OFST prev"

text \<open>The positions of the keys; \<open>Some None\<close> is the null pointer.\<close>

definition in_get_backwards_keys_imut :: "page \<Rightarrow> nat option option" where
  "in_get_backwards_keys_imut n = do {
     let nbytes = mul32 (in_get_len n) 8;
     ASSERT (nbytes \<le> PAGE_SIZE);
     Some (if nbytes = 0 then None else Some (PAGE_SIZE - nbytes)) }"

definition in_get_backwards_keys_mut :: "page \<Rightarrow> nat option" where
  "in_get_backwards_keys_mut n = do {
     let nbytes = mul32 (in_get_len n) 8;
     ASSERT (nbytes \<le> PAGE_SIZE);
     Some (PAGE_SIZE - nbytes) }"

definition in_get_key :: "page \<Rightarrow> p_size \<Rightarrow> b_size option" where
  "in_get_key p idx = do {
     let n = in_get_len p;
     ASSERT (idx < n);
     b \<leftarrow> in_get_backwards_keys_imut p;
     base \<leftarrow> b;
     let offset_bytes = mul32 (n - 1 - idx) 8;
     page_ld p (base + offset_bytes) }"

definition in_get_leaf :: "page \<Rightarrow> p_size \<Rightarrow> pgno option" where
  "in_get_leaf p idx = do {
     let n = in_get_len p;
     ASSERT (idx < n);
     page_ld p (IN_LEAF_OFST + idx * 8) }"

definition in_set_leaf :: "page \<Rightarrow> p_size \<Rightarrow> pgno \<Rightarrow> page option" where
  "in_set_leaf p idx pg' = do {
     ASSERT (idx < add32 (in_get_len p) 1);
     page_set_at p (IN_LEAF_OFST + idx * 8) pg' }"

definition in_set_key :: "page \<Rightarrow> p_size \<Rightarrow> b_size \<Rightarrow> page option" where
  "in_set_key p idx key = do {
     let n = in_get_len p;
     ASSERT (idx < n);
     base \<leftarrow> in_get_backwards_keys_mut p;
     let offset_bytes = mul32 (n - 1 - idx) 8;
     page_st p (base + offset_bytes) key }"

definition in_set_key_leaf :: "page \<Rightarrow> p_size \<Rightarrow> b_size \<Rightarrow> pgno \<Rightarrow> page option" where
  "in_set_key_leaf p idx key pg' = do {
     p \<leftarrow> in_set_key p idx key;
     in_set_leaf p idx pg' }"

definition in_set_leaf_ignore_len :: "page \<Rightarrow> p_size \<Rightarrow> pgno \<Rightarrow> page option" where
  "in_set_leaf_ignore_len p idx pg' = do {
     ASSERT (idx < IN_MAX_KEYS);
     page_set_at p (IN_LEAF_OFST + idx * 8) pg' }"

definition in_set_key_ignore_len :: "page \<Rightarrow> p_size \<Rightarrow> b_size \<Rightarrow> page option" where
  "in_set_key_ignore_len p idx key = do {
     ASSERT (idx < IN_MAX_KEYS);
     base \<leftarrow> in_get_backwards_keys_mut p;
     let offset_bytes = (IN_MAX_KEYS - 1 - idx) * 8;
     page_st p (base + offset_bytes) key }"

definition in_set_key_leaf_ignore_len :: "page \<Rightarrow> p_size \<Rightarrow> b_size \<Rightarrow> pgno \<Rightarrow> page option" where
  "in_set_key_leaf_ignore_len p idx key pg' = do {
     p \<leftarrow> in_set_key_ignore_len p idx key;
     in_set_leaf_ignore_len p idx pg' }"

definition in_push_end :: "page \<Rightarrow> b_size \<Rightarrow> pgno \<Rightarrow> page option" where
  "in_push_end dest key pg' = do {
     ASSERT (\<not> in_full dest);
     let dest = in_set_len dest (add32 (in_get_len dest) 1);
     in_set_key_leaf dest (sub32 (in_get_len dest) 1) key pg' }"

definition in_init_empty :: "page \<Rightarrow> page option" where
  "in_init_empty p = do {
     ASSERT (page_get_type p = pt_code PG_INNER_NODE);
     let p = in_set_next p PGNO_NULL;
     let p = in_set_prev p PGNO_NULL;
     Some (in_set_len p 0) }"

section \<open>Whole-node operations\<close>

text \<open>A loop that reads an index of one node: the pair at the index.\<close>

definition in_get_pair :: "page \<Rightarrow> p_size \<Rightarrow> (pgno \<times> b_size) option" where
  "in_get_pair p i = do { pg' \<leftarrow> in_get_leaf p i; key \<leftarrow> in_get_key p i; Some (pg', key) }"

primrec in_size_loop :: "nat \<Rightarrow> page \<Rightarrow> nat \<Rightarrow> b_size \<Rightarrow> b_size option" where
  "in_size_loop 0 p i ret = Some ret"
| "in_size_loop (Suc n) p i ret = do { key \<leftarrow> in_get_key p i; in_size_loop n p (i + 1) (ret + key) }"

definition in_get_size :: "page \<Rightarrow> b_size option" where
  "in_get_size p = in_size_loop (in_get_len p) p 0 0"

primrec in_leafs_loop :: "nat \<Rightarrow> page \<Rightarrow> nat \<Rightarrow> u32 hash_table \<Rightarrow> (hti_res \<times> u32 hash_table) option" where
  "in_leafs_loop 0 p i ht = Some (HTIR_SUCCESS, ht)"
| "in_leafs_loop (Suc n) p i ht = do {
     key \<leftarrow> in_get_leaf p i;
     (res, ht) \<leftarrow> ht_insert ht \<lparr>hkey = key, hvalue = 0\<rparr>;
     if res \<noteq> HTIR_SUCCESS then Some (res, ht) else in_leafs_loop n p (i + 1) ht }"

definition in_validate_for_db :: "page \<Rightarrow> unit res option" where
  "in_validate_for_db p =
     (if page_get_type p \<noteq> pt_code PG_INNER_NODE then Some (Inl ERR_CORRUPT)
      else if in_get_len p > IN_MAX_KEYS then Some (Inl ERR_CORRUPT)
      else do {
        let ht = ht_init 0 IN_MAX_KEYS;
        (res, _) \<leftarrow> in_leafs_loop (in_get_len p) p 0 ht;
        Some (if res \<noteq> HTIR_SUCCESS then Inl ERR_CORRUPT
              else if in_is_root p then
                (if in_get_len p = 0 then Inl ERR_CORRUPT else Inr ())
              else if in_get_len p < IN_MAX_KEYS div 2 then Inl ERR_CORRUPT
              else Inr ()) })"

definition in_page_memcpy_right :: "page \<Rightarrow> p_size \<Rightarrow> (p_size \<times> u8 list) option" where
  \<comment> \<open>the number of pages and their bytes\<close>
  "in_page_memcpy_right src ofst = do {
     ASSERT (ofst \<le> in_get_len src);
     if ofst = in_get_len src then Some (0, [])
     else do {
       let moving = in_get_len src - ofst;
       bs \<leftarrow> mem_read (raw src) (IN_LEAF_OFST + ofst * 8) (moving * 8);
       Some (moving, bs) } }"

primrec in_keys_loop :: "nat \<Rightarrow> page \<Rightarrow> nat \<Rightarrow> b_size list option" where
  "in_keys_loop 0 src i = Some []"
| "in_keys_loop (Suc n) src i = do {
     k \<leftarrow> in_get_key src i; ks \<leftarrow> in_keys_loop n src (i + 1); Some (k # ks) }"

definition in_key_memcpy_right :: "page \<Rightarrow> p_size \<Rightarrow> (p_size \<times> b_size list) option" where
  "in_key_memcpy_right src ofst = do {
     ASSERT (ofst \<le> in_get_len src);
     if ofst = in_get_len src then Some (0, [])
     else do {
       ks \<leftarrow> in_keys_loop (in_get_len src - ofst) src ofst;
       Some (in_get_len src - ofst, ks) } }"

definition in_data_from_arrays :: "in_data \<Rightarrow> pgno list \<Rightarrow> b_size list \<Rightarrow> in_data option" where
  "in_data_from_arrays dest pgs keys = do {
     ASSERT (id_len dest \<le> IN_MAX_KEYS);
     ASSERT (id_len dest \<le> length pgs \<and> id_len dest \<le> length keys \<and>
       id_len dest \<le> length (id_nodes dest));
     Some (dest\<lparr>id_nodes :=
       map (\<lambda>(a, b). \<lparr>ip_pg = a, ip_key = b\<rparr>) (zip (take (id_len dest) pgs) (take (id_len dest) keys)) @
       drop (id_len dest) (id_nodes dest)\<rparr>) }"

primrec in_push_all :: "in_pair list \<Rightarrow> page \<Rightarrow> page option" where
  "in_push_all [] p = Some p"
| "in_push_all (x # xs) p = do { p \<leftarrow> in_push_end p (ip_key x) (ip_pg x); in_push_all xs p }"

definition in_set_data :: "page \<Rightarrow> in_data \<Rightarrow> page option" where
  "in_set_data p data = do {
     ASSERT (id_len data \<le> IN_MAX_KEYS);
     let p = in_set_len p 0;
     nodes \<leftarrow> mem_read (id_nodes data) 0 (id_len data);
     in_push_all nodes p }"

primrec in_cut_loop :: "nat \<Rightarrow> page \<Rightarrow> nat \<Rightarrow> nat \<Rightarrow> page option" where
  "in_cut_loop 0 p end' i = Some p"
| "in_cut_loop (Suc n) p end' i = do {
     (pg', key) \<leftarrow> in_get_pair p (add32 end' i);
     p \<leftarrow> in_set_key_leaf p i key pg';
     in_cut_loop n p end' (i + 1) }"

definition in_cut_left :: "page \<Rightarrow> p_size \<Rightarrow> page option" where
  "in_cut_left p end' = do {
     ASSERT (end' \<le> in_get_len p);
     if end' = 0 then Some p
     else do {
       p \<leftarrow> in_cut_loop (in_get_len p - end') p end' 0;
       Some (in_set_len p (sub32 (in_get_len p) end')) } }"

primrec in_left_loop :: "nat \<Rightarrow> page \<Rightarrow> page \<Rightarrow> nat \<Rightarrow> page option" where
  "in_left_loop 0 dest src i = Some dest"
| "in_left_loop (Suc n) dest src i = do {
     (pg', key) \<leftarrow> in_get_pair src i;
     dest \<leftarrow> in_push_end dest key pg';
     in_left_loop n dest src (i + 1) }"

definition in_move_left :: "page \<Rightarrow> page \<Rightarrow> p_size \<Rightarrow> (page \<times> page) option" where
  \<comment> \<open>the destination and the source afterwards\<close>
  "in_move_left dest src len = do {
     ASSERT (len \<le> in_get_len src);
     ASSERT (len \<le> in_get_avail dest);
     dest \<leftarrow> in_left_loop len dest src 0;
     src \<leftarrow> in_cut_left src len;
     Some (dest, src) }"

primrec in_push_loop :: "nat \<Rightarrow> page \<Rightarrow> nat \<Rightarrow> page option" where
  \<comment> \<open>the argument counts down: it is the loop's \<^verbatim>\<open>i\<close>\<close>
  "in_push_loop 0 p len = Some p"
| "in_push_loop (Suc i) p len = do {
     (pg', key) \<leftarrow> in_get_pair p i;
     p \<leftarrow> in_set_key_leaf p (sub32 (add32 (Suc i) len) 1) key pg';
     in_push_loop i p len }"

definition in_push_left :: "page \<Rightarrow> p_size \<Rightarrow> page option" where
  "in_push_left p len = do {
     ASSERT (add32 len (in_get_len p) \<le> IN_MAX_KEYS);
     if len = 0 then Some p
     else do {
       let len0 = in_get_len p;
       let p = in_set_len p (add32 len (in_get_len p));
       in_push_loop len0 p len } }"

definition in_push_all_left :: "page \<Rightarrow> page option" where
  "in_push_all_left p = in_push_left p (in_get_avail p)"

primrec in_push_left_loop :: "nat \<Rightarrow> page \<Rightarrow> nat \<Rightarrow> page option" where
  "in_push_left_loop 0 p k = Some p"
| "in_push_left_loop (Suc i) p k = do {
     (pg', key) \<leftarrow> in_get_pair p i;
     p \<leftarrow> in_set_key_leaf p (sub32 k 1) key pg';
     in_push_left_loop i p (sub32 k 1) }"

definition in_push_left_permissive :: "page \<Rightarrow> p_size \<Rightarrow> page option" where
  "in_push_left_permissive p amnt = do {
     ASSERT (in_get_len p = IN_MAX_KEYS);
     ASSERT (amnt \<le> IN_MAX_KEYS);
     in_push_left_loop amnt p IN_MAX_KEYS }"

primrec in_push_right_loop :: "nat \<Rightarrow> page \<Rightarrow> nat \<Rightarrow> nat \<Rightarrow> page option" where
  "in_push_right_loop 0 p i k = Some p"
| "in_push_right_loop (Suc n) p i k = do {
     (pg', key) \<leftarrow> in_get_pair p i;
     p \<leftarrow> in_set_key_leaf p k key pg';
     in_push_right_loop n p (i + 1) (k + 1) }"

definition in_push_right_permissive :: "page \<Rightarrow> p_size \<Rightarrow> page option" where
  "in_push_right_permissive p amnt = do {
     ASSERT (in_get_len p = IN_MAX_KEYS);
     ASSERT (amnt \<le> IN_MAX_KEYS);
     in_push_right_loop (IN_MAX_KEYS - amnt) p amnt 0 }"

primrec in_right_loop :: "nat \<Rightarrow> page \<Rightarrow> page \<Rightarrow> nat \<Rightarrow> nat \<Rightarrow> page option" where
  "in_right_loop 0 src dest di si = Some dest"
| "in_right_loop (Suc n) src dest di si = do {
     (pg', key) \<leftarrow> in_get_pair src si;
     dest \<leftarrow> in_set_key_leaf dest di key pg';
     in_right_loop n src dest (di + 1) (si + 1) }"

definition in_move_right :: "page \<Rightarrow> page \<Rightarrow> p_size \<Rightarrow> (page \<times> page) option" where
  \<comment> \<open>the source and the destination afterwards\<close>
  "in_move_right src dest len = do {
     ASSERT (len \<le> in_get_len src);
     ASSERT (len \<le> in_get_avail dest);
     if len = 0 then Some (src, dest)
     else do {
       dest \<leftarrow> in_push_left dest len;
       dest \<leftarrow> in_right_loop len src dest 0 (in_get_len src - len);
       Some (in_set_len src (in_get_len src - len), dest) } }"

primrec in_choose_loop :: "nat \<Rightarrow> page \<Rightarrow> nat \<Rightarrow> b_size \<Rightarrow> b_size \<Rightarrow> b_size \<Rightarrow> (nat \<times> b_size) option" where
  "in_choose_loop 0 node i key_total nleft loc = Some (i, nleft)"
| "in_choose_loop (Suc n) node i key_total nleft loc = do {
     key \<leftarrow> in_get_key node i;
     let key_total = key_total + key;
     if loc < key_total then Some (i, nleft)
     else in_choose_loop n node (i + 1) key_total (nleft + key) loc }"

definition in_choose_lidx :: "page \<Rightarrow> b_size \<Rightarrow> (p_size \<times> b_size) option" where
  "in_choose_lidx node loc = do {
     let n = in_get_len node;
     ASSERT (n \<noteq> 0);
     in_choose_loop (n - 1) node 0 0 0 loc }"

primrec in_valid_loop :: "nat \<Rightarrow> page \<Rightarrow> nat \<Rightarrow> page option" where
  "in_valid_loop 0 d i = Some d"
| "in_valid_loop (Suc n) d i = do {
     d \<leftarrow> in_set_key_leaf d i (of_nat i) (of_nat i);
     in_valid_loop n d (i + 1) }"

definition in_make_valid :: "page \<Rightarrow> page option" where
  "in_make_valid d = in_valid_loop IN_MAX_KEYS (in_set_len d IN_MAX_KEYS) 0"


section \<open>The pairs of a node\<close>

definition wf_in :: "page \<Rightarrow> bool" where
  "wf_in p \<longleftrightarrow> wf_page p \<and> in_get_len p \<le> IN_MAX_KEYS"

definition in_leaf_at :: "page \<Rightarrow> nat \<Rightarrow> pgno" where
  "in_leaf_at p i = page_get p (IN_LEAF_OFST + i * 8)"

definition in_key_at :: "page \<Rightarrow> nat \<Rightarrow> b_size" where
  "in_key_at p i = page_get p (PAGE_SIZE - 8 * (i + 1))"

definition in_slot :: "page \<Rightarrow> nat \<Rightarrow> pgno \<times> b_size" where
  "in_slot p i = (in_leaf_at p i, in_key_at p i)"

definition in_pairs :: "page \<Rightarrow> (pgno \<times> b_size) list" where
  "in_pairs p = map (in_slot p) [0..<in_get_len p]"

definition in_put :: "page \<Rightarrow> nat \<Rightarrow> pgno \<times> b_size \<Rightarrow> page" where
  "in_put p i x = page_set (page_set p (PAGE_SIZE - 8 * (i + 1)) (snd x)) (IN_LEAF_OFST + i * 8) (fst x)"

lemma wf_inD: assumes "wf_in p" shows "wf_page p" "in_get_len p \<le> IN_MAX_KEYS"
  using assms by (simp_all add: wf_in_def)

lemma length_in_pairs [simp]: "length (in_pairs p) = in_get_len p"
  by (simp add: in_pairs_def)

lemma in_pairs_nth: "i < in_get_len p \<Longrightarrow> in_pairs p ! i = in_slot p i"
  by (simp add: in_pairs_def)

lemma in_pairsI:
  "in_get_len p = length xs \<Longrightarrow> (\<And>i. i < length xs \<Longrightarrow> in_slot p i = xs ! i) \<Longrightarrow> in_pairs p = xs"
  by (intro nth_equalityI) (simp_all add: in_pairs_nth)

lemma in_avail_nat [simp]: "wf_in p \<Longrightarrow> in_get_avail p = IN_MAX_KEYS - in_get_len p"
  by (simp add: in_get_avail_def wf_in_def wrap32)

lemma in_keys_pos:
  assumes "wf_in p" and "i < in_get_len p"
  shows "PAGE_SIZE - mul32 (in_get_len p) 8 + mul32 (in_get_len p - 1 - i) 8 = PAGE_SIZE - 8 * (i + 1)"
  using wf_inD [OF assms(1)] assms(2) by (simp add: wrap32 diff_mult_distrib)

lemma in_get_key_eq:
  assumes "wf_in p"
  shows "in_get_key p i = (if i < in_get_len p then Some (in_key_at p i) else None)"
proof (cases "i < in_get_len p")
  case True
  note D = wf_inD [OF assms]
  have "mul32 (in_get_len p) 8 \<noteq> 0" "mul32 (in_get_len p) 8 \<le> PAGE_SIZE"
    using D True by (simp_all add: wrap32)
  moreover have "PAGE_SIZE - 8 * (i + 1) + 8 \<le> PAGE_SIZE" using D True by simp
  ultimately show ?thesis
    using True D in_keys_pos [OF assms True]
    by (simp add: in_get_key_def in_get_backwards_keys_imut_def Let_def in_key_at_def)
qed (simp add: in_get_key_def)

lemma in_get_leaf_eq:
  assumes "wf_in p"
  shows "in_get_leaf p i = (if i < in_get_len p then Some (in_leaf_at p i) else None)"
  using wf_inD [OF assms] by (auto simp: in_get_leaf_def Let_def in_leaf_at_def)

lemma in_get_pair_eq:
  "wf_in p \<Longrightarrow> i < in_get_len p \<Longrightarrow> in_get_pair p i = Some (in_slot p i)"
  by (simp add: in_get_pair_def in_get_leaf_eq in_get_key_eq in_slot_def)

lemma in_key_len [simp]:
  assumes "wf_page p" and "i < IN_MAX_KEYS"
  shows "in_get_len (page_set p (PAGE_SIZE - 8 * (i + 1)) (k :: b_size)) = in_get_len p"
proof -
  have "IN_NLEN_OFST + 4 \<le> PAGE_SIZE - 8 * (i + 1)" "PAGE_SIZE - 8 * (i + 1) + 8 \<le> PAGE_SIZE"
    using assms(2) by arith+
  with assms(1) show ?thesis
    unfolding in_get_len_def by (subst page_get_set_other) simp_all
qed

lemma in_put_len [simp]:
  assumes "wf_page p" and "i < IN_MAX_KEYS"
  shows "in_get_len (in_put p i x) = in_get_len p"
proof -
  have "wf_page (page_set p (PAGE_SIZE - 8 * (i + 1)) (snd x))" using assms by simp
  then have "in_get_len (in_put p i x) = in_get_len (page_set p (PAGE_SIZE - 8 * (i + 1)) (snd x))"
    unfolding in_put_def using assms by (simp add: in_get_len_def)
  with in_key_len [OF assms] show ?thesis by simp
qed

lemma in_put_wf [simp]:
  "wf_page p \<Longrightarrow> i < IN_MAX_KEYS \<Longrightarrow> wf_page (in_put p i x)"
  by (simp add: in_put_def)

lemma in_put_wf_in [simp]: "wf_in p \<Longrightarrow> i < IN_MAX_KEYS \<Longrightarrow> wf_in (in_put p i x)"
  by (simp add: wf_in_def)

lemma in_put_links [simp]:
  assumes "wf_page p" and "i < IN_MAX_KEYS"
  shows "same_links p (in_put p i x)"
  unfolding in_put_def
  by (rule same_links_trans [OF same_links_page_set same_links_page_set]) (use assms in simp_all)

lemma in_key_leaf_apart:
  "i < IN_MAX_KEYS \<Longrightarrow> j < IN_MAX_KEYS \<Longrightarrow> IN_LEAF_OFST + i * 8 + 8 \<le> PAGE_SIZE - 8 * (j + 1)"
  "i < IN_MAX_KEYS \<Longrightarrow> PAGE_SIZE - 8 * (i + 1) + 8 \<le> PAGE_SIZE"
  "i < IN_MAX_KEYS \<Longrightarrow> IN_LEAF_OFST + i * 8 + 8 \<le> PAGE_SIZE"
  by arith+

lemma in_keys_apart:
  assumes "i < IN_MAX_KEYS" and "j < IN_MAX_KEYS" and "j \<noteq> i"
  shows "PAGE_SIZE - 8 * (j + 1) + 8 \<le> PAGE_SIZE - 8 * (i + 1) \<or>
   PAGE_SIZE - 8 * (i + 1) + 8 \<le> PAGE_SIZE - 8 * (j + 1)"
proof -
  have "PAGE_SIZE - 8 * (n + 1) + 8 \<le> PAGE_SIZE - 8 * (m + 1)" if "m < n" "n < IN_MAX_KEYS" for m n :: nat
    using that by simp
  from this [of i j] this [of j i] assms show ?thesis by (cases "i < j") auto
qed

lemma in_leaf_put:
  assumes wf: "wf_page p" and ij: "i < IN_MAX_KEYS" "j < IN_MAX_KEYS"
  shows "in_leaf_at (in_put p i x) j = (if j = i then fst x else in_leaf_at p j)"
proof -
  note apart = in_key_leaf_apart [OF ij(1)] in_key_leaf_apart [OF ij(2)]
  let ?q = "page_set p (PAGE_SIZE - 8 * (i + 1)) (snd x)"
  have q: "wf_page ?q" using wf apart(2) by (intro wf_page_set) simp_all
  have "in_leaf_at ?q j = in_leaf_at p j"
    unfolding in_leaf_at_def
    by (rule page_get_set_other [OF wf]) (use apart ij in_key_leaf_apart(1) [OF ij(2,1)] in simp_all)
  moreover have "in_leaf_at (in_put p i x) j = (if j = i then fst x else in_leaf_at ?q j)"
  proof (cases "j = i")
    case True
    then show ?thesis unfolding in_leaf_at_def in_put_def using q apart by simp
  next
    case False
    then have "IN_LEAF_OFST + j * 8 + 8 \<le> IN_LEAF_OFST + i * 8 \<or>
        IN_LEAF_OFST + i * 8 + 8 \<le> IN_LEAF_OFST + j * 8" by arith
    with False q apart show ?thesis unfolding in_leaf_at_def in_put_def by simp
  qed
  ultimately show ?thesis by simp
qed

lemma in_key_put:
  assumes wf: "wf_page p" and ij: "i < IN_MAX_KEYS" "j < IN_MAX_KEYS"
  shows "in_key_at (in_put p i x) j = (if j = i then snd x else in_key_at p j)"
proof -
  note apart = in_key_leaf_apart [OF ij(1)] in_key_leaf_apart [OF ij(2)]
  let ?q = "page_set p (PAGE_SIZE - 8 * (i + 1)) (snd x)"
  have q: "wf_page ?q" using wf apart(2) by (intro wf_page_set) simp_all
  have "in_key_at (in_put p i x) j = in_key_at ?q j"
    unfolding in_key_at_def in_put_def
    by (rule page_get_set_other [OF q]) (use in_key_leaf_apart(1) [OF ij] in simp_all)
  also have "\<dots> = (if j = i then snd x else in_key_at p j)"
  proof (cases "j = i")
    case True
    have "in_key_at ?q i = snd x"
      unfolding in_key_at_def by (rule page_get_set_same [OF wf]) (use apart(2) in simp_all)
    with True show ?thesis by simp
  next
    case False
    have "in_key_at ?q j = in_key_at p j"
      unfolding in_key_at_def
      by (rule page_get_set_other [OF wf]) (use apart in_keys_apart [OF ij False] in simp_all)
    with False show ?thesis by simp
  qed
  finally show ?thesis .
qed

lemma in_put_slot [simp]:
  "wf_page p \<Longrightarrow> i < IN_MAX_KEYS \<Longrightarrow> j < IN_MAX_KEYS \<Longrightarrow>
   in_slot (in_put p i x) j = (if j = i then x else in_slot p j)"
  by (simp add: in_slot_def in_leaf_put in_key_put)

lemma in_set_key_leaf_eq:
  assumes "wf_in p" and "i < in_get_len p"
  shows "in_set_key_leaf p i k l = Some (in_put p i (l, k))"
proof -
  note D = wf_inD [OF assms(1)]
  have i: "i < IN_MAX_KEYS" using D assms by simp
  have b: "mul32 (in_get_len p) 8 \<le> PAGE_SIZE" using D by (simp add: wrap32)
  have ps: "PAGE_SIZE - 8 * (i + 1) + 8 \<le> PAGE_SIZE" using i by simp
  let ?q = "page_set p (PAGE_SIZE - 8 * (i + 1)) k"
  have "in_set_key p i k = Some ?q"
    using assms(2) D b ps in_keys_pos [OF assms]
    by (simp add: in_set_key_def in_get_backwards_keys_mut_def Let_def)
  moreover have "in_get_len ?q = in_get_len p" by (rule in_key_len [OF D(1) i])
  ultimately show ?thesis
    using assms(2) D i
    by (simp add: in_set_key_leaf_def in_set_leaf_def page_set_at_def in_put_def wrap32)
qed

lemma in_set_len_len [simp]: "wf_page p \<Longrightarrow> n < 4294967296 \<Longrightarrow> in_get_len (in_set_len p n) = n"
  by (simp add: in_set_len_def in_get_len_def)

lemma in_set_len_wf [simp]: "wf_page p \<Longrightarrow> wf_page (in_set_len p n)"
  by (simp add: in_set_len_def)

lemma in_set_len_wf_in [simp]: "wf_page p \<Longrightarrow> n \<le> IN_MAX_KEYS \<Longrightarrow> wf_in (in_set_len p n)"
  by (simp add: wf_in_def)

lemma in_set_len_links [simp]: "wf_page p \<Longrightarrow> same_links p (in_set_len p n)"
  by (simp add: in_set_len_def)

lemma in_set_len_slot [simp]:
  assumes "wf_page p" and "i < IN_MAX_KEYS"
  shows "in_slot (in_set_len p n) i = in_slot p i"
proof -
  have "IN_NLEN_OFST + 4 \<le> PAGE_SIZE - 8 * (i + 1)" using assms(2) by arith
  with assms show ?thesis
    by (simp add: in_slot_def in_leaf_at_def in_key_at_def in_set_len_def)
qed

lemma in_push_end_eq:
  assumes wf: "wf_in p" and room: "in_get_len p < IN_MAX_KEYS"
  shows "\<exists>p'. in_push_end p k l = Some p' \<and> wf_in p' \<and> same_links p p' \<and>
    in_pairs p' = in_pairs p @ [(l, k)]"
proof -
  note D = wf_inD [OF wf]
  let ?n = "in_get_len p"
  let ?q = "in_set_len p (Suc ?n)"
  have q: "wf_in ?q" "in_get_len ?q = Suc ?n" using D room by simp_all
  have "in_push_end p k l = Some (in_put ?q ?n (l, k))"
    using D room q in_set_key_leaf_eq [OF q(1), of ?n k l]
    by (simp add: in_push_end_def in_full_def Let_def wrap32)
  moreover have "in_pairs (in_put ?q ?n (l, k)) = in_pairs p @ [(l, k)]"
    using D room q
    by (intro in_pairsI) (auto simp: nth_append in_pairs_nth less_Suc_eq wf_inD(1) [OF q(1)])
  moreover have "same_links p (in_put ?q ?n (l, k))"
    using same_links_trans [of p ?q] D room q by (simp add: wf_inD(1))
  ultimately show ?thesis using q room by auto
qed


section \<open>Moving pairs within a node\<close>

text \<open>The two loops that shift pairs in place. The copy runs upwards when the pairs move down and
  downwards when they move up, so no pair is overwritten before it is read.\<close>

lemma in_cut_loop_correct:
  assumes "wf_in p" and "0 < e" and "e + i + n \<le> in_get_len p"
  shows "\<exists>p'. in_cut_loop n p e i = Some p' \<and> wf_in p' \<and> in_get_len p' = in_get_len p \<and>
    same_links p p' \<and>
    (\<forall>j < IN_MAX_KEYS. in_slot p' j = (if i \<le> j \<and> j < i + n then in_slot p (e + j) else in_slot p j))"
  using assms
proof (induction n arbitrary: p i)
  case 0
  then show ?case by auto
next
  case (Suc n)
  note D = wf_inD [OF Suc.prems(1)]
  have b: "e + i < in_get_len p" "i < in_get_len p" "i < IN_MAX_KEYS" "e + i < 4294967296"
    using Suc.prems D by simp_all
  let ?q = "in_put p i (in_slot p (e + i))"
  have q: "wf_in ?q" "in_get_len ?q = in_get_len p" using Suc.prems(1) D b by simp_all
  have step: "in_cut_loop (Suc n) p e i = in_cut_loop n ?q e (Suc i)"
    using in_get_pair_eq [OF Suc.prems(1) b(1)]
      in_set_key_leaf_eq [OF Suc.prems(1) b(2), of "in_key_at p (e + i)" "in_leaf_at p (e + i)"] b
    by (simp add: wrap32 in_slot_def)
  obtain p' where p': "in_cut_loop n ?q e (Suc i) = Some p'" "wf_in p'" "in_get_len p' = in_get_len ?q"
      "same_links ?q p'" and sl: "\<forall>j < IN_MAX_KEYS. in_slot p' j =
        (if Suc i \<le> j \<and> j < Suc i + n then in_slot ?q (e + j) else in_slot ?q j)"
    using Suc.IH [OF q(1), of "Suc i"] Suc.prems q by auto
  have "in_slot p' j = (if i \<le> j \<and> j < i + Suc n then in_slot p (e + j) else in_slot p j)"
    if j: "j < IN_MAX_KEYS" for j
  proof -
    have "in_slot ?q (e + j) = in_slot p (e + j)" if "Suc i \<le> j" "j < Suc i + n"
      using that D b Suc.prems(2,3) by simp
    with sl j D b show ?thesis by (auto simp: le_less_Suc_eq Suc_le_eq)
  qed
  moreover have "same_links p p'" using same_links_trans [OF in_put_links [OF D(1) b(3)] p'(4)] .
  ultimately show ?case using p' q step by simp
qed

lemma in_push_loop_correct:
  assumes "wf_in p" and "0 < len" and "i + len \<le> in_get_len p"
  shows "\<exists>p'. in_push_loop i p len = Some p' \<and> wf_in p' \<and> in_get_len p' = in_get_len p \<and>
    same_links p p' \<and>
    (\<forall>j < IN_MAX_KEYS. in_slot p' j = (if len \<le> j \<and> j < len + i then in_slot p (j - len) else in_slot p j))"
  using assms
proof (induction i arbitrary: p)
  case 0
  then show ?case by auto
next
  case (Suc i)
  note D = wf_inD [OF Suc.prems(1)]
  have b: "i < in_get_len p" "i + len < in_get_len p" "i + len < IN_MAX_KEYS"
    using Suc.prems D by simp_all
  have ix: "sub32 (add32 (Suc i) len) 1 = i + len" using b(3) by (simp add: wrap32)
  let ?q = "in_put p (i + len) (in_slot p i)"
  have q: "wf_in ?q" "in_get_len ?q = in_get_len p" using Suc.prems(1) D b by simp_all
  have step: "in_push_loop (Suc i) p len = in_push_loop i ?q len"
    using in_get_pair_eq [OF Suc.prems(1) b(1)] ix
      in_set_key_leaf_eq [OF Suc.prems(1) b(2), of "in_key_at p i" "in_leaf_at p i"]
    by (simp add: in_slot_def)
  obtain p' where p': "in_push_loop i ?q len = Some p'" "wf_in p'" "in_get_len p' = in_get_len ?q"
      "same_links ?q p'" and sl: "\<forall>j < IN_MAX_KEYS. in_slot p' j =
        (if len \<le> j \<and> j < len + i then in_slot ?q (j - len) else in_slot ?q j)"
    using Suc.IH [OF q(1)] Suc.prems q by auto
  have "in_slot p' j = (if len \<le> j \<and> j < len + Suc i then in_slot p (j - len) else in_slot p j)"
    if j: "j < IN_MAX_KEYS" for j
  proof -
    have "in_slot ?q (j - len) = in_slot p (j - len)" if "len \<le> j" "j < len + i"
    proof -
      have "j - len < i" using that by arith
      then show ?thesis using D b j by simp
    qed
    with sl j D b show ?thesis by (cases "j = i + len") (auto simp: less_Suc_eq add.commute)
  qed
  moreover have "same_links p p'" using same_links_trans [OF in_put_links [OF D(1) b(3)] p'(4)] .
  ultimately show ?case using p' q step by simp
qed

lemma in_cut_left_correct:
  assumes wf: "wf_in p" and e: "e \<le> in_get_len p"
  shows "\<exists>p'. in_cut_left p e = Some p' \<and> wf_in p' \<and> same_links p p' \<and> in_pairs p' = drop e (in_pairs p)"
proof (cases "e = 0")
  case True
  with assms show ?thesis by (simp add: in_cut_left_def)
next
  case False
  note D = wf_inD [OF wf]
  obtain q where q: "in_cut_loop (in_get_len p - e) p e 0 = Some q" "wf_in q"
      "in_get_len q = in_get_len p" "same_links p q"
    and sl: "\<forall>j < IN_MAX_KEYS. in_slot q j =
      (if j < in_get_len p - e then in_slot p (e + j) else in_slot p j)"
    using in_cut_loop_correct [OF wf, of e 0 "in_get_len p - e"] False e by auto
  have s: "sub32 (in_get_len p) e = in_get_len p - e" using e D by (simp add: wrap32)
  let ?r = "in_set_len q (in_get_len p - e)"
  have r: "wf_in ?r" "in_get_len ?r = in_get_len p - e" using wf_inD [OF q(2)] D by simp_all
  have "in_pairs ?r = drop e (in_pairs p)"
    using r sl D e wf_inD [OF q(2)] by (intro in_pairsI) (simp_all add: in_pairs_nth)
  moreover have "same_links p ?r"
    using same_links_trans [OF q(4) in_set_len_links [OF wf_inD(1) [OF q(2)]]] .
  ultimately show ?thesis using False e q r s by (simp add: in_cut_left_def)
qed

lemma in_push_left_correct:
  assumes wf: "wf_in p" and len: "len + in_get_len p \<le> IN_MAX_KEYS"
  shows "\<exists>p' gap. in_push_left p len = Some p' \<and> wf_in p' \<and> same_links p p' \<and> length gap = len \<and>
    in_pairs p' = gap @ in_pairs p"
proof (cases "len = 0")
  case True
  with assms show ?thesis by (simp add: in_push_left_def wrap32)
next
  case False
  note D = wf_inD [OF wf]
  have a: "add32 len (in_get_len p) = len + in_get_len p" using len by (simp add: wrap32)
  let ?q = "in_set_len p (len + in_get_len p)"
  have q: "wf_in ?q" "in_get_len ?q = len + in_get_len p" "same_links p ?q" using D len by simp_all
  obtain r where r: "in_push_loop (in_get_len p) ?q len = Some r" "wf_in r"
      "in_get_len r = in_get_len ?q" "same_links ?q r"
    and sl: "\<forall>j < IN_MAX_KEYS. in_slot r j =
      (if len \<le> j \<and> j < len + in_get_len p then in_slot ?q (j - len) else in_slot ?q j)"
    using in_push_loop_correct [OF q(1), of len "in_get_len p"] False q len by auto
  have "in_pairs r = map (in_slot p) [0..<len] @ in_pairs p"
    using r q sl D len by (intro in_pairsI) (auto simp: nth_append in_pairs_nth)
  moreover have "same_links p r" using same_links_trans [OF q(3) r(4)] .
  ultimately show ?thesis
    using False len r a
    by (intro exI [of _ r] exI [of _ "map (in_slot p) [0..<len]"]) (simp add: in_push_left_def)
qed

section \<open>Moving pairs between nodes\<close>

lemma in_left_loop_correct:
  assumes "wf_in dest" and "wf_in src" and "i + n \<le> in_get_len src" and "in_get_len dest + n \<le> IN_MAX_KEYS"
  shows "\<exists>d'. in_left_loop n dest src i = Some d' \<and> wf_in d' \<and> same_links dest d' \<and>
    in_pairs d' = in_pairs dest @ take n (drop i (in_pairs src))"
  using assms
proof (induction n arbitrary: dest i)
  case 0
  then show ?case by simp
next
  case (Suc n)
  obtain d1 where d1: "in_push_end dest (in_key_at src i) (in_leaf_at src i) = Some d1" "wf_in d1"
      "same_links dest d1" "in_pairs d1 = in_pairs dest @ [in_slot src i]"
    using in_push_end_eq [OF Suc.prems(1), of "in_key_at src i" "in_leaf_at src i"] Suc.prems(4)
    by (auto simp: in_slot_def)
  have len: "in_get_len d1 = Suc (in_get_len dest)" using arg_cong [OF d1(4), of length] by simp
  obtain d2 where d2: "in_left_loop n d1 src (Suc i) = Some d2" "wf_in d2" "same_links d1 d2"
      "in_pairs d2 = in_pairs d1 @ take n (drop (Suc i) (in_pairs src))"
    using Suc.IH [OF d1(2) Suc.prems(2), of "Suc i"] Suc.prems len by auto
  have i: "i < in_get_len src" using Suc.prems(3) by simp
  have "in_left_loop (Suc n) dest src i = Some d2"
    using in_get_pair_eq [OF Suc.prems(2) i] d1(1) d2(1) by (simp add: in_slot_def)
  moreover have "take (Suc n) (drop i (in_pairs src)) =
      in_slot src i # take n (drop (Suc i) (in_pairs src))"
    using i by (simp add: Cons_nth_drop_Suc [symmetric] in_pairs_nth)
  ultimately show ?case using d1 d2 same_links_trans [OF d1(3) d2(3)] by simp
qed

lemma in_move_left_correct:
  assumes "wf_in dest" and "wf_in src" and "len \<le> in_get_len src" and "len \<le> IN_MAX_KEYS - in_get_len dest"
  shows "\<exists>dest' src'. in_move_left dest src len = Some (dest', src') \<and> wf_in dest' \<and> wf_in src' \<and>
    same_links dest dest' \<and> same_links src src' \<and>
    in_pairs dest' = in_pairs dest @ take len (in_pairs src) \<and>
    in_pairs src' = drop len (in_pairs src)"
proof -
  have room: "in_get_len dest + len \<le> IN_MAX_KEYS" using assms(4) wf_inD(2) [OF assms(1)] by arith
  from in_left_loop_correct [OF assms(1,2), of 0 len] in_cut_left_correct [OF assms(2,3)] assms room
  show ?thesis by (auto simp: in_move_left_def)
qed

lemma in_right_loop_correct:
  assumes "wf_in src" and "wf_in dest" and "si + n \<le> in_get_len src" and "di + n \<le> in_get_len dest"
  shows "\<exists>d'. in_right_loop n src dest di si = Some d' \<and> wf_in d' \<and> in_get_len d' = in_get_len dest \<and>
    same_links dest d' \<and>
    (\<forall>j < IN_MAX_KEYS. in_slot d' j =
       (if di \<le> j \<and> j < di + n then in_slot src (si + (j - di)) else in_slot dest j))"
  using assms
proof (induction n arbitrary: dest di si)
  case 0
  then show ?case by auto
next
  case (Suc n)
  note D = wf_inD [OF Suc.prems(2)]
  have b: "si < in_get_len src" "di < in_get_len dest" "di < IN_MAX_KEYS" using Suc.prems D by simp_all
  let ?q = "in_put dest di (in_slot src si)"
  have q: "wf_in ?q" "in_get_len ?q = in_get_len dest" using Suc.prems(2) D b by simp_all
  have step: "in_right_loop (Suc n) src dest di si = in_right_loop n src ?q (Suc di) (Suc si)"
    using in_get_pair_eq [OF Suc.prems(1) b(1)]
      in_set_key_leaf_eq [OF Suc.prems(2) b(2), of "in_key_at src si" "in_leaf_at src si"]
    by (simp add: in_slot_def)
  obtain d' where d': "in_right_loop n src ?q (Suc di) (Suc si) = Some d'" "wf_in d'"
      "in_get_len d' = in_get_len ?q" "same_links ?q d'"
    and sl: "\<forall>j < IN_MAX_KEYS. in_slot d' j =
       (if Suc di \<le> j \<and> j < Suc di + n then in_slot src (Suc si + (j - Suc di)) else in_slot ?q j)"
    using Suc.IH [OF Suc.prems(1) q(1), of "Suc si" "Suc di"] Suc.prems q by auto
  have "in_slot d' j = (if di \<le> j \<and> j < di + Suc n then in_slot src (si + (j - di)) else in_slot dest j)"
    if j: "j < IN_MAX_KEYS" for j
    using sl j D b
    by (cases "j = di") (auto simp: Suc_le_eq le_less Suc_diff_Suc [symmetric])
  moreover have "same_links dest d'" using same_links_trans [OF in_put_links [OF D(1) b(3)] d'(4)] .
  ultimately show ?case using d' q step by simp
qed

lemma in_move_right_correct:
  assumes wfs: "wf_in src" and wfd: "wf_in dest" and len: "len \<le> in_get_len src"
    and room: "len \<le> IN_MAX_KEYS - in_get_len dest"
  shows "\<exists>src' dest'. in_move_right src dest len = Some (src', dest') \<and> wf_in src' \<and> wf_in dest' \<and>
    same_links src src' \<and> same_links dest dest' \<and>
    in_pairs src' = take (in_get_len src - len) (in_pairs src) \<and>
    in_pairs dest' = drop (in_get_len src - len) (in_pairs src) @ in_pairs dest"
proof (cases "len = 0")
  case True
  with assms show ?thesis by (simp add: in_move_right_def)
next
  case False
  note S = wf_inD [OF wfs] and D = wf_inD [OF wfd]
  have r: "len + in_get_len dest \<le> IN_MAX_KEYS" using room D by simp
  obtain q gap where q: "in_push_left dest len = Some q" "wf_in q" "same_links dest q"
      "length gap = len" "in_pairs q = gap @ in_pairs dest"
    using in_push_left_correct [OF wfd r] by blast
  have ql: "in_get_len q = len + in_get_len dest"
    using arg_cong [OF q(5), of length] q(4) by simp
  obtain d' where d': "in_right_loop len src q 0 (in_get_len src - len) = Some d'" "wf_in d'"
      "in_get_len d' = in_get_len q" "same_links q d'"
    and sl: "\<forall>j < IN_MAX_KEYS. in_slot d' j =
       (if j < len then in_slot src (in_get_len src - len + j) else in_slot q j)"
    using in_right_loop_correct [OF wfs q(2), of "in_get_len src - len" len 0] len ql by auto
  have "in_pairs d' = drop (in_get_len src - len) (in_pairs src) @ in_pairs dest"
  proof (rule in_pairsI)
    show "in_get_len d' = length (drop (in_get_len src - len) (in_pairs src) @ in_pairs dest)"
      using d'(3) ql len by simp
  next
    fix i assume i: "i < length (drop (in_get_len src - len) (in_pairs src) @ in_pairs dest)"
    then have i2: "i < in_get_len q" "i < IN_MAX_KEYS" using ql len r by simp_all
    have "in_slot q i = in_pairs dest ! (i - len)" if "\<not> i < len"
      using in_pairs_nth [OF i2(1)] that q(4,5) by (simp add: nth_append)
    with sl i2 len show "in_slot d' i = (drop (in_get_len src - len) (in_pairs src) @ in_pairs dest) ! i"
      by (simp add: nth_append in_pairs_nth)
  qed
  moreover define s' where "s' = in_set_len src (in_get_len src - len)"
  have "wf_in s'" "same_links src s'" "in_get_len s' = in_get_len src - len"
    using S by (simp_all add: s'_def)
  moreover have "in_pairs s' = take (in_get_len src - len) (in_pairs src)"
    using S by (intro in_pairsI) (simp_all add: s'_def in_pairs_nth)
  moreover have "in_move_right src dest len = Some (s', d')"
    using False len room wfd q(1) d'(1) by (simp add: in_move_right_def s'_def)
  ultimately show ?thesis using d' same_links_trans [OF q(3) d'(4)] by blast
qed

section \<open>Searching and validating\<close>

abbreviation in_key_sum :: "page \<Rightarrow> nat \<Rightarrow> nat" where
  "in_key_sum p i \<equiv> sum_list (map (\<lambda>x. unat (snd x)) (take i (in_pairs p)))"

lemma in_key_sum_Suc:
  "i < in_get_len p \<Longrightarrow> in_key_sum p (Suc i) = in_key_sum p i + unat (in_key_at p i)"
  by (simp add: take_Suc_conv_app_nth in_pairs_nth in_slot_def)

lemma in_key_sum_mono: "i \<le> j \<Longrightarrow> in_key_sum p i \<le> in_key_sum p j"
proof -
  assume "i \<le> j"
  then have "take j (in_pairs p) = take i (in_pairs p) @ take (j - i) (drop i (in_pairs p))"
    by (metis le_add_diff_inverse take_add)
  then show ?thesis by simp
qed

lemma in_key_sum_le: "in_key_sum p i \<le> in_key_sum p (in_get_len p)"
proof (cases "i \<le> in_get_len p")
  case False
  then have "take i (in_pairs p) = take (in_get_len p) (in_pairs p)" by simp
  then show ?thesis by simp
qed (rule in_key_sum_mono)

lemma in_choose_loop_correct:
  assumes wf: "wf_in p" and "i + n + 1 = in_get_len p" and "in_key_sum p (in_get_len p) < 2 ^ 64"
    and "in_key_sum p i \<le> unat loc"
  shows "\<exists>j. in_choose_loop n p i (of_nat (in_key_sum p i)) (of_nat (in_key_sum p i)) loc =
      Some (j, of_nat (in_key_sum p j)) \<and> j < in_get_len p \<and> in_key_sum p j \<le> unat loc \<and>
      (Suc j < in_get_len p \<longrightarrow> unat loc < in_key_sum p (Suc j))"
  using assms(2-)
proof (induction n arbitrary: i)
  case 0
  then show ?case by (intro exI [of _ i]) simp
next
  case (Suc n)
  have i: "i < in_get_len p" using Suc.prems(1) by simp
  have small: "in_key_sum p (Suc i) < 18446744073709551616"
    using in_key_sum_le [where p = p and i = "Suc i"] Suc.prems(2) by simp
  have key: "of_nat (in_key_sum p i) + in_key_at p i = (of_nat (in_key_sum p (Suc i)) :: u64)"
    unfolding in_key_sum_Suc [OF i] by simp
  have cmp: "loc < of_nat (in_key_sum p (Suc i)) \<longleftrightarrow> unat loc < in_key_sum p (Suc i)"
    using small by (simp only: word_less_nat_alt unat_of_nat) simp
  have step: "in_choose_loop (Suc n) p i (of_nat (in_key_sum p i)) (of_nat (in_key_sum p i)) loc =
      (if loc < of_nat (in_key_sum p (Suc i)) then Some (i, of_nat (in_key_sum p i))
       else in_choose_loop n p (Suc i) (of_nat (in_key_sum p (Suc i))) (of_nat (in_key_sum p (Suc i))) loc)"
    unfolding in_choose_loop.simps in_get_key_eq [OF wf] Let_def using i by (simp add: key)
  show ?case
  proof (cases "unat loc < in_key_sum p (Suc i)")
    case True
    with i Suc.prems(3) show ?thesis unfolding step cmp by auto
  next
    case False
    with Suc.IH [of "Suc i"] Suc.prems show ?thesis unfolding step cmp by simp
  qed
qed

lemma in_leafs_loop_ins_all:
  assumes "wf_in p" and "i + n \<le> in_get_len p"
  shows "in_leafs_loop n p i ht = ins_all ht_insert ht
    (map (\<lambda>x. \<lparr>hkey = fst x, hvalue = 0\<rparr>) (take n (drop i (in_pairs p))))"
  using assms(2)
proof (induction n arbitrary: i ht)
  case 0
  then show ?case by simp
next
  case (Suc n)
  then have i: "i < in_get_len p" by simp
  have tk: "take (Suc n) (drop i (in_pairs p)) = in_slot p i # take n (drop (Suc i) (in_pairs p))"
    using i by (simp add: Cons_nth_drop_Suc [symmetric] in_pairs_nth)
  have ih: "in_leafs_loop n p (i + 1) = (\<lambda>ht. ins_all ht_insert ht
      (map (\<lambda>x. \<lparr>hkey = fst x, hvalue = 0\<rparr>) (take n (drop (Suc i) (in_pairs p)))))"
    using Suc by (intro ext) simp
  show ?case unfolding in_leafs_loop.simps ih tk using i
    by (simp add: in_get_leaf_eq [OF assms(1)] in_slot_def)
qed

lemma in_validate_for_db_iff:
  assumes wf: "wf_page p" and small: "\<forall>x \<in> set (in_pairs p). unat (fst x) + IN_MAX_KEYS < 2 ^ 64"
  shows "\<exists>r. in_validate_for_db p = Some r \<and>
    (r = Inr () \<longleftrightarrow> page_get_type p = pt_code PG_INNER_NODE \<and> in_get_len p \<le> IN_MAX_KEYS \<and>
       distinct (map fst (in_pairs p)) \<and> (if in_is_root p then 0 < in_get_len p else 62 \<le> in_get_len p))"
proof (cases "page_get_type p = pt_code PG_INNER_NODE \<and> in_get_len p \<le> IN_MAX_KEYS")
  case False
  then show ?thesis by (auto simp: in_validate_for_db_def)
next
  case True
  then have win: "wf_in p" using wf by (simp add: wf_in_def)
  let ?ds = "map (\<lambda>x. \<lparr>hkey = fst x, hvalue = 0 :: u32\<rparr>) (in_pairs p)"
  let ?h = "ht_init (0 :: u32) IN_MAX_KEYS"
  note init = ht_init_inv [of IN_MAX_KEYS "0 :: u32"]
  have loop: "in_leafs_loop (in_get_len p) p 0 ?h = ins_all ht_insert ?h ?ds"
    using in_leafs_loop_ins_all [OF win, of 0 "in_get_len p" ?h] by simp
  have "\<exists>r s'. ins_all ht_insert ?h ?ds = Some (r, s') \<and> ht_inv s' \<and>
      (r = HTIR_SUCCESS \<longleftrightarrow> distinct (map hkey ?ds) \<and> (\<forall>d \<in> set ?ds. ht_map ?h (hkey d) = None)) \<and>
      (r \<noteq> HTIR_SUCCESS \<longrightarrow> r = HTIR_EXISTS) \<and>
      (r = HTIR_SUCCESS \<longrightarrow> ht_map s' = ht_map ?h ++ map_of (map (\<lambda>d. (hkey d, hvalue d)) ?ds))"
    using small wf_inD(2) [OF win] init by (intro rht.ins_all_spec) simp_all
  then obtain r s' where r: "ins_all ht_insert ?h ?ds = Some (r, s')"
      "r = HTIR_SUCCESS \<longleftrightarrow> distinct (map hkey ?ds) \<and> (\<forall>d \<in> set ?ds. ht_map ?h (hkey d) = None)"
    by blast
  have "map hkey ?ds = map fst (in_pairs p)" by (simp add: comp_def)
  with r(2) init(2) have "r = HTIR_SUCCESS \<longleftrightarrow> distinct (map fst (in_pairs p))"
    by (simp only:) simp
  with r(1) True show ?thesis by (auto simp: in_validate_for_db_def loop)
qed

lemma in_set_data_correct:
  assumes "wf_page p" and "id_len d \<le> IN_MAX_KEYS" and "id_len d \<le> length (id_nodes d)"
  shows "\<exists>p'. in_set_data p d = Some p' \<and> wf_in p' \<and> same_links p p' \<and>
    in_pairs p' = map (\<lambda>x. (ip_pg x, ip_key x)) (take (id_len d) (id_nodes d))"
proof -
  have push: "\<exists>q'. in_push_all xs q = Some q' \<and> wf_in q' \<and> same_links q q' \<and>
      in_pairs q' = in_pairs q @ map (\<lambda>x. (ip_pg x, ip_key x)) xs"
    if "wf_in q" "in_get_len q + length xs \<le> IN_MAX_KEYS" for xs q
    using that
  proof (induction xs arbitrary: q)
    case (Cons x xs)
    obtain q1 where q1: "in_push_end q (ip_key x) (ip_pg x) = Some q1" "wf_in q1" "same_links q q1"
        "in_pairs q1 = in_pairs q @ [(ip_pg x, ip_key x)]"
      using in_push_end_eq [OF Cons.prems(1)] Cons.prems(2) by fastforce
    have "in_get_len q1 = Suc (in_get_len q)" using arg_cong [OF q1(4), of length] by simp
    with Cons.IH [OF q1(2)] Cons.prems(2) q1 show ?case
      by (fastforce intro: same_links_trans)
  qed simp
  let ?q = "in_set_len p 0"
  have q: "wf_in ?q" "in_get_len ?q = 0" "same_links p ?q" using assms(1) by simp_all
  then have e: "in_pairs ?q = []" by (simp add: in_pairs_def)
  have "in_get_len ?q + length (take (id_len d) (id_nodes d)) \<le> IN_MAX_KEYS"
    using assms q by simp
  from push [OF q(1) this] e assms(2,3) q(3) show ?thesis
    by (auto simp: in_set_data_def mem_read_def slice_def intro: same_links_trans)
qed

lemma in_init_empty_correct:
  assumes "wf_page p" and "page_get_type p = pt_code PG_INNER_NODE"
  shows "\<exists>p'. in_init_empty p = Some p' \<and> wf_in p' \<and> in_pairs p' = [] \<and> in_is_root p' \<and>
    pg p' = pg p \<and> page_get_type p' = page_get_type p"
  using assms
  by (simp add: in_init_empty_def Let_def in_set_len_def in_set_next_def in_set_prev_def wf_in_def
      in_pairs_def in_get_len_def in_is_root_def in_get_next_def in_get_prev_def page_get_type_def)

section \<open>Properties\<close>

lemma in_example:
  assumes "length xs \<le> IN_MAX_KEYS"
  shows "\<exists>p. wf_in p \<and> in_pairs p = xs \<and> page_get_type p = pt_code PG_INNER_NODE"
proof -
  let ?d = "\<lparr>id_nodes = map (\<lambda>x. \<lparr>ip_pg = fst x, ip_key = snd x\<rparr>) xs, id_len = length xs\<rparr>"
  obtain p where p: "wf_in p" "same_links (typed_page PG_INNER_NODE 3) p"
      "in_pairs p = map (\<lambda>x. (ip_pg x, ip_key x)) (take (id_len ?d) (id_nodes ?d))"
    using in_set_data_correct [of "typed_page PG_INNER_NODE 3" ?d] assms by auto
  have "page_get_type p = page_get_type (typed_page PG_INNER_NODE 3)"
    unfolding page_get_type_def by (rule same_links_get [OF p(2)]) simp_all
  with p show ?thesis by (auto simp: comp_def)
qed

text \<open>The search of the tree's descent. For a node whose keys do not add up to more than 64
  bits hold, \<^verbatim>\<open>in_choose_lidx\<close> returns the child that holds the offset, namely the first one
  whose keys up to and including it exceed the offset, or the last child; and it returns the number of bytes that lie before
  that child.\<close>

theorem in_choose_lidx_correct:
  assumes "wf_in p" and "0 < in_get_len p" and "in_key_sum p (in_get_len p) < 2 ^ 64"
  shows "\<exists>i nleft. in_choose_lidx p loc = Some (i, nleft) \<and> i < in_get_len p \<and>
    nleft = of_nat (in_key_sum p i) \<and> in_key_sum p i \<le> unat loc \<and>
    (unat loc < in_key_sum p (i + 1) \<or> i + 1 = in_get_len p)"
proof -
  have n: "0 + (in_get_len p - 1) + 1 = in_get_len p" using assms(2) by simp
  from in_choose_loop_correct [OF assms(1) n assms(3), of loc] assms(2)
  show ?thesis by (fastforce simp: in_choose_lidx_def Let_def)
qed

theorem in_choose_lidx_correct_witness:
  "\<exists>p i nleft. wf_in p \<and> in_pairs p = [(5, 10), (6, 20), (7, 30)] \<and>
    in_choose_lidx p 15 = Some (i, nleft) \<and> i < 3"
proof -
  obtain p where p: "wf_in p" "in_pairs p = [(5, 10), (6, 20), (7, 30)]"
    using in_example [of "[(5, 10), (6, 20), (7, 30)]"] by auto
  have len: "in_get_len p = 3" using arg_cong [OF p(2), of length] by simp
  have "in_key_sum p (in_get_len p) < 2 ^ 64" by (simp add: p len)
  with in_choose_lidx_correct [OF p(1), of 15] p len show ?thesis by auto
qed

text \<open>A page is accepted as an inner node of the database exactly when its type byte says so, its
  length fits, no child page occurs twice, and it is filled (a root holds a pair, any other node
  half of the maximum). The duplicates are found through the Robin Hood hash table; the statement
  holds for child numbers that leave room for the probe distance below \<open>2 ^ 64\<close>.\<close>

theorem in_validate_for_db_correct:
  assumes "wf_page p" and "\<forall>x \<in> set (in_pairs p). unat (fst x) + IN_MAX_KEYS < 2 ^ 64"
  shows "\<exists>r. in_validate_for_db p = Some r \<and>
    (r = Inr () \<longleftrightarrow> page_get_type p = pt_code PG_INNER_NODE \<and> in_get_len p \<le> IN_MAX_KEYS \<and>
       distinct (map fst (in_pairs p)) \<and> (if in_is_root p then 0 < in_get_len p else 62 \<le> in_get_len p))"
  by (rule in_validate_for_db_iff [OF assms])

theorem in_validate_for_db_correct_witness:
  "\<exists>p r. wf_page p \<and> in_pairs p = [(5, 10), (5, 20)] \<and> in_validate_for_db p = Some r \<and> r \<noteq> Inr ()"
proof -
  obtain p where p: "wf_in p" "in_pairs p = [(5, 10), (5, 20)]"
    using in_example [of "[(5, 10), (5, 20)]"] by auto
  have "\<forall>x \<in> set (in_pairs p). unat (fst x) + IN_MAX_KEYS < 2 ^ 64" by (simp add: p)
  from in_validate_for_db_correct [OF wf_inD(1) [OF p(1)] this] p wf_inD(1) [OF p(1)]
  show ?thesis by auto
qed

end
