(* ===== verification/Meta_Pages.thy ===== *)
theory Meta_Pages
  imports Page_Base
begin

text \<open>
  The page layouts of \<^verbatim>\<open>libs/nspager\<close> that hold a few fixed fields: the root node
  (\<^verbatim>\<open>root_node.c\<close>), the root of an R+tree (\<^verbatim>\<open>rpt_root.c\<close>), tombstones (\<^verbatim>\<open>tombstone.c\<close>), the
  pages of a variable's name and type (\<^verbatim>\<open>var_page.c\<close>, \<^verbatim>\<open>var_tail.c\<close>) and the variable hash
  table page (\<^verbatim>\<open>var_hash_page.c\<close>) with the hash it is indexed by (\<^verbatim>\<open>libs/nscore/hashing.c\<close>).

  The lemmas show that a field read after a write gives the value and that the fields of a layout
  do not overlap, and what the initialisers leave behind.
\<close>

abbreviation MAX_VSTR :: nat where "MAX_VSTR \<equiv> 10000"
abbreviation MAX_TSTR :: nat where "MAX_TSTR \<equiv> 10000"

section \<open>Root node\<close>

abbreviation RN_FSTS_OFST :: nat where "RN_FSTS_OFST \<equiv> 13"
abbreviation RN_MLSN_OFST :: nat where "RN_MLSN_OFST \<equiv> 29"

definition rn_set_first_tmbst :: "page \<Rightarrow> pgno \<Rightarrow> page" where
  "rn_set_first_tmbst p pg' = page_set p RN_FSTS_OFST pg'"

definition rn_set_master_lsn :: "page \<Rightarrow> lsn \<Rightarrow> page" where
  "rn_set_master_lsn p l = page_set p RN_MLSN_OFST l"

definition rn_get_first_tmbst :: "page \<Rightarrow> pgno" where
  "rn_get_first_tmbst p = page_get p RN_FSTS_OFST"

definition rn_get_master_lsn :: "page \<Rightarrow> lsn" where
  "rn_get_master_lsn p = page_get p RN_MLSN_OFST"

definition rn_init_empty :: "page \<Rightarrow> page option" where
  "rn_init_empty rn = do {
     ASSERT (page_get_type rn = pt_code PG_ROOT_NODE);
     let rn = rn_set_first_tmbst rn 1;
     Some (rn_set_master_lsn rn 0) }"

definition rn_validate_for_db :: "page \<Rightarrow> unit res" where
  "rn_validate_for_db p =
     (if page_get_type p \<noteq> pt_code PG_ROOT_NODE then Inl ERR_CORRUPT else Inr ())"

section \<open>R+tree root\<close>

abbreviation RR_ROOT_OFST :: nat where "RR_ROOT_OFST \<equiv> 13"
abbreviation RR_NBYT_OFST :: nat where "RR_NBYT_OFST \<equiv> 21"

definition rr_set_root :: "page \<Rightarrow> pgno \<Rightarrow> page" where
  "rr_set_root p pg' = page_set p RR_ROOT_OFST pg'"

definition rr_set_nbytes :: "page \<Rightarrow> b_size \<Rightarrow> page" where
  "rr_set_nbytes p s = page_set p RR_NBYT_OFST s"

definition rr_get_root :: "page \<Rightarrow> pgno" where
  "rr_get_root p = page_get p RR_ROOT_OFST"

definition rr_get_nbytes :: "page \<Rightarrow> b_size" where
  "rr_get_nbytes p = page_get p RR_NBYT_OFST"

definition rr_init_empty :: "page \<Rightarrow> page option" where
  "rr_init_empty p = do {
     ASSERT (page_get_type p = pt_code PG_RPT_ROOT);
     let p = rr_set_root p PGNO_NULL;
     Some (rr_set_nbytes p 0) }"

definition rr_validate_for_db :: "page \<Rightarrow> unit res" where
  "rr_validate_for_db p =
     (if page_get_type p \<noteq> pt_code PG_RPT_ROOT then Inl ERR_CORRUPT else Inr ())"

section \<open>Tombstone\<close>

abbreviation TS_NEXT_OFST :: nat where "TS_NEXT_OFST \<equiv> 13"

definition tmbst_set_next :: "page \<Rightarrow> pgno \<Rightarrow> page" where
  "tmbst_set_next p pg' = page_set p TS_NEXT_OFST pg'"

definition tmbst_get_next :: "page \<Rightarrow> pgno" where
  "tmbst_get_next p = page_get p TS_NEXT_OFST"

definition tmbst_init_empty :: "page \<Rightarrow> page option" where
  "tmbst_init_empty p = do {
     ASSERT (page_get_type p = pt_code PG_TOMBSTONE);
     Some (tmbst_set_next p PGNO_NULL) }"

definition tmbst_validate_for_db :: "page \<Rightarrow> unit res" where
  "tmbst_validate_for_db p =
     (if page_get_type p \<noteq> pt_code PG_TOMBSTONE then Inl ERR_CORRUPT else Inr ())"

section \<open>Variable page and variable tail\<close>

abbreviation VP_NEXT_OFST :: nat where "VP_NEXT_OFST \<equiv> 13"
abbreviation VP_OVNX_OFST :: nat where "VP_OVNX_OFST \<equiv> 21"
abbreviation VP_VLEN_OFST :: nat where "VP_VLEN_OFST \<equiv> 29"
abbreviation VP_TLEN_OFST :: nat where "VP_TLEN_OFST \<equiv> 31"
abbreviation VP_ROOT_OFST :: nat where "VP_ROOT_OFST \<equiv> 33"
abbreviation VP_VNME_OFST :: nat where "VP_VNME_OFST \<equiv> 41"

definition vp_set_next :: "page \<Rightarrow> pgno \<Rightarrow> page" where
  "vp_set_next p pg' = page_set p VP_NEXT_OFST pg'"

definition vp_set_ovnext :: "page \<Rightarrow> pgno \<Rightarrow> page" where
  "vp_set_ovnext p pg' = page_set p VP_OVNX_OFST pg'"

definition vp_set_vlen :: "page \<Rightarrow> u16 \<Rightarrow> page" where
  "vp_set_vlen p vlen = page_set p VP_VLEN_OFST vlen"

definition vp_set_tlen :: "page \<Rightarrow> u16 \<Rightarrow> page" where
  "vp_set_tlen p tlen = page_set p VP_TLEN_OFST tlen"

definition vp_set_root :: "page \<Rightarrow> pgno \<Rightarrow> page" where
  "vp_set_root p root = page_set p VP_ROOT_OFST root"

definition vp_get_next :: "page \<Rightarrow> pgno" where
  "vp_get_next p = page_get p VP_NEXT_OFST"

definition vp_get_ovnext :: "page \<Rightarrow> pgno" where
  "vp_get_ovnext p = page_get p VP_OVNX_OFST"

definition vp_get_vlen :: "page \<Rightarrow> u16" where
  "vp_get_vlen p = page_get p VP_VLEN_OFST"

definition vp_get_tlen :: "page \<Rightarrow> u16" where
  "vp_get_tlen p = page_get p VP_TLEN_OFST"

definition vp_get_root :: "page \<Rightarrow> pgno" where
  "vp_get_root p = page_get p VP_ROOT_OFST"

definition vp_init_empty :: "page \<Rightarrow> page option" where
  "vp_init_empty p = do {
     ASSERT (page_get_type p = pt_code PG_VAR_PAGE);
     let p = vp_set_next p PGNO_NULL;
     let p = vp_set_ovnext p PGNO_NULL;
     let p = vp_set_vlen p 0;
     let p = vp_set_tlen p 0;
     Some (vp_set_root p PGNO_NULL) }"

text \<open>\<^verbatim>\<open>b_size\<close> sums of two 16-bit lengths and a small constant: no wrap-around.\<close>

definition vp_calc_tofst :: "page \<Rightarrow> b_size" where
  "vp_calc_tofst p = of_nat VP_VNME_OFST + ucast (vp_get_vlen p)"

definition vp_is_overflow :: "page \<Rightarrow> bool" where
  "vp_is_overflow p \<longleftrightarrow> vp_calc_tofst p + ucast (vp_get_tlen p) > of_nat PAGE_SIZE"

definition vp_get_bytes :: "page \<Rightarrow> u8 list" where
  "vp_get_bytes p = slice (raw p) VP_VNME_OFST (PAGE_SIZE - VP_VNME_OFST)"

definition vp_validate_for_db :: "page \<Rightarrow> unit res" where
  "vp_validate_for_db p =
     (if page_get_type p \<noteq> pt_code PG_VAR_PAGE then Inl ERR_CORRUPT
      else if vp_get_vlen p = 0 then Inl ERR_CORRUPT
      else if vp_get_tlen p = 0 then Inl ERR_CORRUPT
      else if vp_is_overflow p \<and> vp_get_ovnext p = PGNO_NULL then Inl ERR_CORRUPT
      else if unat (vp_get_vlen p) > MAX_VSTR then Inl ERR_CORRUPT
      else if unat (vp_get_tlen p) > MAX_TSTR then Inl ERR_CORRUPT
      else Inr ())"

abbreviation VT_NEXT_OFST :: nat where "VT_NEXT_OFST \<equiv> 13"
abbreviation VT_DATA_OFST :: nat where "VT_DATA_OFST \<equiv> 21"

definition vt_set_next :: "page \<Rightarrow> pgno \<Rightarrow> page" where
  "vt_set_next p pg' = page_set p VT_NEXT_OFST pg'"

definition vt_get_next :: "page \<Rightarrow> pgno" where
  "vt_get_next p = page_get p VT_NEXT_OFST"

definition vt_init_empty :: "page \<Rightarrow> page option" where
  "vt_init_empty p = do {
     ASSERT (page_get_type p = pt_code PG_VAR_TAIL);
     Some (vt_set_next p PGNO_NULL) }"

definition vt_get_bytes :: "page \<Rightarrow> u8 list" where
  "vt_get_bytes p = slice (raw p) VT_DATA_OFST (PAGE_SIZE - VT_DATA_OFST)"

definition vt_validate_for_db :: "page \<Rightarrow> unit res" where
  "vt_validate_for_db p =
     (if page_get_type p \<noteq> pt_code PG_VAR_TAIL then Inl ERR_CORRUPT else Inr ())"

section \<open>Variable hash table page\<close>

abbreviation VH_HASH_OFST :: nat where "VH_HASH_OFST \<equiv> 13"
abbreviation VH_HASH_LEN :: nat where "VH_HASH_LEN \<equiv> 254"

primrec fnv1a_loop :: "u8 list \<Rightarrow> u32 \<Rightarrow> u32" where
  "fnv1a_loop [] hash = hash"
| "fnv1a_loop (c # cs) hash = fnv1a_loop cs ((hash XOR ucast c) * 16777619)"

definition fnv1a_hash :: "u8 list \<Rightarrow> u32" where
  "fnv1a_hash s = fnv1a_loop s 2166136261"

definition vh_get_hash_pos :: "u8 list \<Rightarrow> p_size" where
  "vh_get_hash_pos vname = unat (fnv1a_hash vname) mod VH_HASH_LEN"

definition vh_get_hash_value :: "page \<Rightarrow> p_size \<Rightarrow> pgno option" where
  "vh_get_hash_value p pos = do {
     ASSERT (pos < VH_HASH_LEN);
     page_get_at p (VH_HASH_OFST + pos * 8) }"

definition vh_set_hash_value :: "page \<Rightarrow> p_size \<Rightarrow> pgno \<Rightarrow> page option" where
  "vh_set_hash_value p pos value = do {
     ASSERT (pos < VH_HASH_LEN);
     page_set_at p (VH_HASH_OFST + pos * 8) value }"

primrec vh_init_loop :: "nat \<Rightarrow> page \<Rightarrow> nat \<Rightarrow> page option" where
  "vh_init_loop 0 p i = Some p"
| "vh_init_loop (Suc n) p i = do { p \<leftarrow> vh_set_hash_value p i PGNO_NULL; vh_init_loop n p (i + 1) }"

definition vh_init_empty :: "page \<Rightarrow> page option" where
  "vh_init_empty p = do {
     ASSERT (page_get_type p = pt_code PG_VAR_HASH_PAGE);
     vh_init_loop VH_HASH_LEN p 0 }"

definition vh_validate_for_db :: "page \<Rightarrow> unit res" where
  "vh_validate_for_db p =
     (if page_get_type p \<noteq> pt_code PG_VAR_HASH_PAGE then Inl ERR_CORRUPT else Inr ())"

section \<open>Fields are independent\<close>

lemmas meta_defs [page_defs] =
  rn_set_first_tmbst_def rn_set_master_lsn_def rn_get_first_tmbst_def rn_get_master_lsn_def
  rr_set_root_def rr_set_nbytes_def rr_get_root_def rr_get_nbytes_def
  tmbst_set_next_def tmbst_get_next_def
  vp_set_next_def vp_set_ovnext_def vp_set_vlen_def vp_set_tlen_def vp_set_root_def
  vp_get_next_def vp_get_ovnext_def vp_get_vlen_def vp_get_tlen_def vp_get_root_def
  vt_set_next_def vt_get_next_def

lemma rn_init_empty_correct:
  assumes "wf_page p" and "page_get_type p = pt_code PG_ROOT_NODE"
  shows "\<exists>p'. rn_init_empty p = Some p' \<and> wf_page p' \<and> rn_get_first_tmbst p' = 1 \<and>
    rn_get_master_lsn p' = 0 \<and> page_get_type p' = page_get_type p \<and> pg p' = pg p"
  using assms by (simp add: rn_init_empty_def page_defs Let_def)

lemma rr_init_empty_correct:
  assumes "wf_page p" and "page_get_type p = pt_code PG_RPT_ROOT"
  shows "\<exists>p'. rr_init_empty p = Some p' \<and> wf_page p' \<and> rr_get_root p' = PGNO_NULL \<and>
    rr_get_nbytes p' = 0 \<and> page_get_type p' = page_get_type p \<and> pg p' = pg p"
  using assms by (simp add: rr_init_empty_def page_defs Let_def)

lemma tmbst_init_empty_correct:
  assumes "wf_page p" and "page_get_type p = pt_code PG_TOMBSTONE"
  shows "\<exists>p'. tmbst_init_empty p = Some p' \<and> wf_page p' \<and> tmbst_get_next p' = PGNO_NULL \<and>
    page_get_type p' = page_get_type p \<and> pg p' = pg p"
  using assms by (simp add: tmbst_init_empty_def page_defs)

lemma vp_init_empty_correct:
  assumes "wf_page p" and "page_get_type p = pt_code PG_VAR_PAGE"
  shows "\<exists>p'. vp_init_empty p = Some p' \<and> wf_page p' \<and> vp_get_next p' = PGNO_NULL \<and>
    vp_get_ovnext p' = PGNO_NULL \<and> vp_get_vlen p' = 0 \<and> vp_get_tlen p' = 0 \<and>
    vp_get_root p' = PGNO_NULL \<and> page_get_type p' = page_get_type p \<and> pg p' = pg p"
  using assms by (simp add: vp_init_empty_def page_defs Let_def)

lemma vt_init_empty_correct:
  assumes "wf_page p" and "page_get_type p = pt_code PG_VAR_TAIL"
  shows "\<exists>p'. vt_init_empty p = Some p' \<and> wf_page p' \<and> vt_get_next p' = PGNO_NULL \<and>
    page_get_type p' = page_get_type p \<and> pg p' = pg p"
  using assms by (simp add: vt_init_empty_def page_defs)

lemma vh_get_set:
  assumes "wf_page p" and "pos < VH_HASH_LEN"
  shows "\<exists>p'. vh_set_hash_value p pos v = Some p' \<and> wf_page p' \<and> pg p' = pg p \<and>
    page_get_type p' = page_get_type p \<and>
    (\<forall>q < VH_HASH_LEN. vh_get_hash_value p' q = (if q = pos then Some v else vh_get_hash_value p q))"
proof -
  let ?o = "VH_HASH_OFST + pos * 8"
  have b: "?o + 8 < PAGE_SIZE" using assms(2) by simp
  have other: "(page_get (page_set p ?o v) (VH_HASH_OFST + q * 8) :: pgno) =
      (if q = pos then v else page_get p (VH_HASH_OFST + q * 8))" for q
  proof (cases "q = pos")
    case True
    with assms(1) b show ?thesis by simp
  next
    case False
    then have "VH_HASH_OFST + q * 8 + 8 \<le> ?o \<or> ?o + 8 \<le> VH_HASH_OFST + q * 8" by arith
    with False assms(1) b show ?thesis by simp
  qed
  with assms b show ?thesis
    by (simp add: vh_set_hash_value_def vh_get_hash_value_def page_set_at_def page_get_at_def
        page_header_defs)
qed

lemma vh_init_loop_correct:
  assumes "wf_page p" and "i + n \<le> VH_HASH_LEN"
  shows "\<exists>p'. vh_init_loop n p i = Some p' \<and> wf_page p' \<and> pg p' = pg p \<and>
    page_get_type p' = page_get_type p \<and>
    (\<forall>q < VH_HASH_LEN. vh_get_hash_value p' q =
       (if i \<le> q \<and> q < i + n then Some PGNO_NULL else vh_get_hash_value p q))"
  using assms
proof (induction n arbitrary: p i)
  case 0
  then show ?case by auto
next
  case (Suc n)
  obtain p1 where p1: "vh_set_hash_value p i PGNO_NULL = Some p1" "wf_page p1" "pg p1 = pg p"
      "page_get_type p1 = page_get_type p"
      "\<forall>q < VH_HASH_LEN. vh_get_hash_value p1 q = (if q = i then Some PGNO_NULL else vh_get_hash_value p q)"
    using vh_get_set [OF Suc.prems(1), of i PGNO_NULL] Suc.prems(2) by auto
  obtain p' where "vh_init_loop n p1 (Suc i) = Some p'" "wf_page p'" "pg p' = pg p1"
      "page_get_type p' = page_get_type p1"
      "\<forall>q < VH_HASH_LEN. vh_get_hash_value p' q =
        (if Suc i \<le> q \<and> q < Suc i + n then Some PGNO_NULL else vh_get_hash_value p1 q)"
    using Suc.IH [OF p1(2), of "Suc i"] Suc.prems(2) by auto
  with p1 show ?case by (auto simp: Suc_le_eq)
qed

lemma vh_init_empty_correct:
  assumes "wf_page p" and "page_get_type p = pt_code PG_VAR_HASH_PAGE"
  shows "\<exists>p'. vh_init_empty p = Some p' \<and> wf_page p' \<and> pg p' = pg p \<and>
    page_get_type p' = page_get_type p \<and>
    (\<forall>q < VH_HASH_LEN. vh_get_hash_value p' q = Some PGNO_NULL)"
  using vh_init_loop_correct [OF assms(1), of 0 VH_HASH_LEN] assms(2)
  by (simp add: vh_init_empty_def)

lemma vp_is_overflow_iff:
  "vp_is_overflow p \<longleftrightarrow> PAGE_SIZE < VP_VNME_OFST + unat (vp_get_vlen p) + unat (vp_get_tlen p)"
proof -
  have b: "unat (w :: u16) < 65536" for w
  proof -
    have "unat w < 2 ^ LENGTH(16)" by (rule unsigned_less)
    then show ?thesis by simp
  qed
  have u: "unat (ucast (w :: u16) :: u64) = unat w" for w
    using b [of w] by (simp add: unsigned_ucast_eq take_bit_eq_mod)
  have "unat (vp_calc_tofst p + ucast (vp_get_tlen p)) =
      VP_VNME_OFST + unat (vp_get_vlen p) + unat (vp_get_tlen p)"
    using b [of "vp_get_vlen p"] b [of "vp_get_tlen p"]
    by (simp add: vp_calc_tofst_def unat_word_ariths u)
  then show ?thesis by (simp add: vp_is_overflow_def word_less_nat_alt)
qed

end
