(* ===== verification/Page_Dispatch.thy ===== *)
theory Page_Dispatch
  imports Data_List Inner_Node Meta_Pages
begin

text \<open>
  \<^verbatim>\<open>libs/nspager/page.c\<close> and \<^verbatim>\<open>page_delegate.h\<close>: the operations that work on a page of any
  type and switch on the type byte of its header. An unreachable default case is a failure.

  The locale \<open>seq_node\<close> is the contract by which the R+tree moves content between neighbouring nodes,
  whether they are leaves (bytes) or inner nodes (pairs); it is interpreted on both layouts, and
  its consequences (nothing is lost, duplicated or reordered; a move and the move back cancel) are
  proved once.
\<close>

section \<open>Any page\<close>

definition page_init_empty :: "page \<Rightarrow> page_type \<Rightarrow> page option" where
  "page_init_empty p type = do {
     let p = page_set_type p type;
     let p = page_set_page_lsn p PGNO_NULL;
     let p = page_set_checksum p 0;
     case type of
       PG_DATA_LIST \<Rightarrow> dl_init_empty p
     | PG_INNER_NODE \<Rightarrow> in_init_empty p
     | PG_TOMBSTONE \<Rightarrow> tmbst_init_empty p
     | PG_ROOT_NODE \<Rightarrow> rn_init_empty p
     | PG_VAR_PAGE \<Rightarrow> vp_init_empty p
     | PG_VAR_TAIL \<Rightarrow> vt_init_empty p
     | PG_RPT_ROOT \<Rightarrow> rr_init_empty p
     | PG_VAR_HASH_PAGE \<Rightarrow> vh_init_empty p }"

definition page_validate_for_db :: "page \<Rightarrow> u8 \<Rightarrow> unit res option" where
  "page_validate_for_db p flags =
     (let header = page_get_type p
      in if header AND flags = 0 then Some (Inl ERR_CORRUPT)
         else do {
           t \<leftarrow> pt_decode header;
           case t of
             PG_DATA_LIST \<Rightarrow> Some (dl_validate_for_db p)
           | PG_INNER_NODE \<Rightarrow> in_validate_for_db p
           | PG_TOMBSTONE \<Rightarrow> Some (tmbst_validate_for_db p)
           | PG_ROOT_NODE \<Rightarrow> Some (rn_validate_for_db p)
           | PG_VAR_PAGE \<Rightarrow> Some (vp_validate_for_db p)
           | PG_VAR_TAIL \<Rightarrow> Some (vt_validate_for_db p)
           | PG_RPT_ROOT \<Rightarrow> Some (rr_validate_for_db p)
           | PG_VAR_HASH_PAGE \<Rightarrow> Some (vh_validate_for_db p) })"

section \<open>Linked pages\<close>

datatype in_dl_data = DL_DATA dl_data | IN_DATA in_data

definition dlgt_get_next :: "page \<Rightarrow> pgno option" where
  "dlgt_get_next p = do {
     t \<leftarrow> pt_decode (page_get_type p);
     case t of
       PG_INNER_NODE \<Rightarrow> Some (in_get_next p)
     | PG_DATA_LIST \<Rightarrow> Some (dl_get_next p)
     | PG_VAR_PAGE \<Rightarrow> Some (vp_get_next p)
     | PG_VAR_TAIL \<Rightarrow> Some (vt_get_next p)
     | _ \<Rightarrow> None }"

definition dlgt_get_ovnext :: "page \<Rightarrow> pgno option" where
  "dlgt_get_ovnext p = do {
     t \<leftarrow> pt_decode (page_get_type p);
     case t of
       PG_VAR_PAGE \<Rightarrow> Some (vp_get_ovnext p)
     | PG_VAR_TAIL \<Rightarrow> Some (vt_get_next p)
     | _ \<Rightarrow> None }"

definition dlgt_set_next :: "page \<Rightarrow> pgno \<Rightarrow> page option" where
  "dlgt_set_next p n = do {
     t \<leftarrow> pt_decode (page_get_type p);
     case t of
       PG_INNER_NODE \<Rightarrow> Some (in_set_next p n)
     | PG_DATA_LIST \<Rightarrow> Some (dl_set_next p n)
     | PG_VAR_PAGE \<Rightarrow> Some (vp_set_next p n)
     | PG_VAR_TAIL \<Rightarrow> Some (vt_set_next p n)
     | _ \<Rightarrow> None }"

definition dlgt_get_prev :: "page \<Rightarrow> pgno option" where
  "dlgt_get_prev p = do {
     t \<leftarrow> pt_decode (page_get_type p);
     case t of
       PG_INNER_NODE \<Rightarrow> Some (in_get_prev p)
     | PG_DATA_LIST \<Rightarrow> Some (dl_get_prev p)
     | _ \<Rightarrow> None }"

definition dlgt_set_prev :: "page \<Rightarrow> pgno \<Rightarrow> page option" where
  "dlgt_set_prev p prev = do {
     t \<leftarrow> pt_decode (page_get_type p);
     case t of
       PG_INNER_NODE \<Rightarrow> Some (in_set_prev p prev)
     | PG_DATA_LIST \<Rightarrow> Some (dl_set_prev p prev)
     | _ \<Rightarrow> None }"

definition dlgtset_ovnext :: "page \<Rightarrow> pgno \<Rightarrow> page option" where
  "dlgtset_ovnext p next = do {
     t \<leftarrow> pt_decode (page_get_type p);
     case t of
       PG_VAR_PAGE \<Rightarrow> Some (vp_set_ovnext p next)
     | PG_VAR_TAIL \<Rightarrow> Some (vt_set_next p next)
     | _ \<Rightarrow> None }"

definition dlgt_get_len :: "page \<Rightarrow> p_size option" where
  "dlgt_get_len p = do {
     t \<leftarrow> pt_decode (page_get_type p);
     case t of
       PG_INNER_NODE \<Rightarrow> Some (in_get_len p)
     | PG_DATA_LIST \<Rightarrow> Some (dl_used p)
     | _ \<Rightarrow> None }"

definition dlgt_get_size :: "page \<Rightarrow> b_size option" where
  "dlgt_get_size p = do {
     t \<leftarrow> pt_decode (page_get_type p);
     case t of
       PG_INNER_NODE \<Rightarrow> in_get_size p
     | PG_DATA_LIST \<Rightarrow> Some (of_nat (dl_used p))
     | _ \<Rightarrow> None }"

definition dlgt_get_max_len :: "page \<Rightarrow> p_size option" where
  "dlgt_get_max_len p = do {
     t \<leftarrow> pt_decode (page_get_type p);
     case t of
       PG_INNER_NODE \<Rightarrow> Some IN_MAX_KEYS
     | PG_DATA_LIST \<Rightarrow> Some DL_DATA_SIZE
     | _ \<Rightarrow> None }"

definition dlgt_is_root :: "page \<Rightarrow> bool option" where
  "dlgt_is_root p = do {
     prev \<leftarrow> dlgt_get_prev p;
     if prev = PGNO_NULL then do { next \<leftarrow> dlgt_get_next p; Some (next = PGNO_NULL) }
     else Some False }"

definition dlgt_is_full :: "page \<Rightarrow> bool option" where
  "dlgt_is_full p = do {
     t \<leftarrow> pt_decode (page_get_type p);
     case t of
       PG_INNER_NODE \<Rightarrow> Some (in_full p)
     | PG_DATA_LIST \<Rightarrow> Some (dl_used p = DL_DATA_SIZE)
     | _ \<Rightarrow> None }"

definition dlgt_get_bytes :: "page \<Rightarrow> u8 list option" where
  "dlgt_get_bytes p = do {
     t \<leftarrow> pt_decode (page_get_type p);
     case t of
       PG_VAR_PAGE \<Rightarrow> Some (vp_get_bytes p)
     | PG_VAR_TAIL \<Rightarrow> Some (vt_get_bytes p)
     | _ \<Rightarrow> None }"

definition dlgt_set_data :: "page \<Rightarrow> in_dl_data \<Rightarrow> page option" where
  \<comment> \<open>reading the other member of the union is a failure\<close>
  "dlgt_set_data p d = do {
     t \<leftarrow> pt_decode (page_get_type p);
     case (t, d) of
       (PG_INNER_NODE, IN_DATA x) \<Rightarrow> in_set_data p x
     | (PG_DATA_LIST, DL_DATA x) \<Rightarrow> dl_set_data p x
     | _ \<Rightarrow> None }"

definition dlgt_move_left :: "page \<Rightarrow> page \<Rightarrow> p_size \<Rightarrow> (page \<times> page) option" where
  "dlgt_move_left dest src len = do {
     ASSERT (page_get_type dest = page_get_type src);
     t \<leftarrow> pt_decode (page_get_type src);
     case t of
       PG_INNER_NODE \<Rightarrow> in_move_left dest src len
     | PG_DATA_LIST \<Rightarrow> dl_move_left dest src len
     | _ \<Rightarrow> None }"

definition dlgt_move_right :: "page \<Rightarrow> page \<Rightarrow> p_size \<Rightarrow> (page \<times> page) option" where
  "dlgt_move_right src dest len = do {
     ASSERT (page_get_type dest = page_get_type src);
     t \<leftarrow> pt_decode (page_get_type src);
     case t of
       PG_INNER_NODE \<Rightarrow> in_move_right src dest len
     | PG_DATA_LIST \<Rightarrow> dl_move_right src dest len
     | _ \<Rightarrow> None }"

definition pgno_or_null :: "page option \<Rightarrow> pgno" where
  "pgno_or_null p = (case p of None \<Rightarrow> PGNO_NULL | Some q \<Rightarrow> pg q)"

definition dlgt_link :: "page option \<Rightarrow> page option \<Rightarrow> (page option \<times> page option) option" where
  "dlgt_link left right = do {
     let l = pgno_or_null left;
     let r = pgno_or_null right;
     left' \<leftarrow> (case left of
         None \<Rightarrow> Some None
       | Some q \<Rightarrow> do { q \<leftarrow> dlgt_set_next q r; Some (Some q) });
     right' \<leftarrow> (case right of
         None \<Rightarrow> Some None
       | Some q \<Rightarrow> do { q \<leftarrow> dlgt_set_prev q l; Some (Some q) });
     Some (left', right') }"

definition dlgtovlink :: "page \<Rightarrow> page option \<Rightarrow> page option" where
  "dlgtovlink left right = dlgtset_ovnext left (pgno_or_null right)"

definition dlgt_valid_neighbors :: "page option \<Rightarrow> page option \<Rightarrow> bool option" where
  "dlgt_valid_neighbors left right = do {
     let lpg = pgno_or_null left;
     let rpg = pgno_or_null right;
     let ret = True;
     ret \<leftarrow> (case left of
         None \<Rightarrow> Some ret
       | Some q \<Rightarrow> if ret then do { next \<leftarrow> dlgt_get_next q; Some (next = rpg) } else Some False);
     (case right of
         None \<Rightarrow> Some ret
       | Some q \<Rightarrow> if ret then do { prev \<leftarrow> dlgt_get_prev q; Some (lpg = prev) } else Some False) }"

definition make_valid :: "page \<Rightarrow> page option" where
  "make_valid p =
     (case pt_decode (page_get_type p) of
        Some PG_DATA_LIST \<Rightarrow> dl_make_valid p
      | Some PG_INNER_NODE \<Rightarrow> in_make_valid p
      | _ \<Rightarrow> Some p)"

section \<open>The interface: moving content between neighbours\<close>

locale seq_node =
  fixes wf :: "page \<Rightarrow> bool"
    and items :: "page \<Rightarrow> 'x list"
    and cap :: nat
    and move_left :: "page \<Rightarrow> page \<Rightarrow> nat \<Rightarrow> (page \<times> page) option"
    and move_right :: "page \<Rightarrow> page \<Rightarrow> nat \<Rightarrow> (page \<times> page) option"
  assumes left: "\<lbrakk>wf d; wf s; n \<le> length (items s); length (items d) + n \<le> cap\<rbrakk> \<Longrightarrow>
      \<exists>d' s'. move_left d s n = Some (d', s') \<and> wf d' \<and> wf s' \<and> same_links d d' \<and> same_links s s' \<and>
        items d' = items d @ take n (items s) \<and> items s' = drop n (items s)"
    and right: "\<lbrakk>wf s; wf d; n \<le> length (items s); length (items d) + n \<le> cap\<rbrakk> \<Longrightarrow>
      \<exists>s' d'. move_right s d n = Some (s', d') \<and> wf s' \<and> wf d' \<and> same_links s s' \<and> same_links d d' \<and>
        items s' = take (length (items s) - n) (items s) \<and>
        items d' = drop (length (items s) - n) (items s) @ items d"
    and bounded: "wf p \<Longrightarrow> length (items p) \<le> cap"

context seq_node
begin

lemma move_left_keeps:
  assumes "wf d" and "wf s" and "n \<le> length (items s)" and "length (items d) + n \<le> cap"
  shows "\<exists>d' s'. move_left d s n = Some (d', s') \<and> wf d' \<and> wf s' \<and> same_links d d' \<and> same_links s s' \<and>
    items d' @ items s' = items d @ items s \<and> length (items d') = length (items d) + n \<and>
    length (items s') = length (items s) - n"
  using left [OF assms] assms(3) by fastforce

lemma move_right_keeps:
  assumes "wf s" and "wf d" and "n \<le> length (items s)" and "length (items d) + n \<le> cap"
  shows "\<exists>s' d'. move_right s d n = Some (s', d') \<and> wf s' \<and> wf d' \<and> same_links s s' \<and> same_links d d' \<and>
    items s' @ items d' = items s @ items d \<and> length (items d') = length (items d) + n \<and>
    length (items s') = length (items s) - n"
proof -
  obtain s' d' where r: "move_right s d n = Some (s', d')" "wf s'" "wf d'" "same_links s s'"
      "same_links d d'" "items s' = take (length (items s) - n) (items s)"
      "items d' = drop (length (items s) - n) (items s) @ items d"
    using right [OF assms] by blast
  then have "items s' @ items d' = items s @ items d" by (simp flip: append.assoc)
  with r assms(3) show ?thesis by auto
qed

lemma move_left_right:
  assumes "wf d" and "wf s" and "n \<le> length (items s)" and "length (items d) + n \<le> cap"
  shows "\<exists>d1 s1 d2 s2. move_left d s n = Some (d1, s1) \<and> move_right d1 s1 n = Some (d2, s2) \<and>
    items d2 = items d \<and> items s2 = items s"
proof -
  obtain d1 s1 where l: "move_left d s n = Some (d1, s1)" "wf d1" "wf s1"
      "items d1 = items d @ take n (items s)" "items s1 = drop n (items s)"
    using left [OF assms] by blast
  have "n \<le> length (items d1)" "length (items s1) + n \<le> cap"
    using l assms(3) bounded [OF assms(2)] by simp_all
  from right [OF l(2,3) this] obtain d2 s2 where r: "move_right d1 s1 n = Some (d2, s2)"
      "items d2 = take (length (items d1) - n) (items d1)"
      "items s2 = drop (length (items d1) - n) (items d1) @ items s1" by blast
  with l assms(3) show ?thesis by simp
qed

end

interpretation dln: seq_node wf_dl dl_bytes DL_DATA_SIZE dl_move_left dl_move_right
proof (unfold_locales, goal_cases)
  case (1 d s n)
  then have "n \<le> DL_DATA_SIZE - dl_used d" by (simp add: wf_dlD)
  from dl_move_left_correct [OF 1(1,2) this] show ?case by blast
next
  case (2 s d n)
  then have "n \<le> DL_DATA_SIZE - dl_used d" by (simp add: wf_dlD)
  from dl_move_right_correct [OF 2(1,2) this] show ?case using 2(1) by (simp add: wf_dlD)
next
  case (3 p)
  then show ?case by (simp add: wf_dlD)
qed

interpretation inn: seq_node wf_in in_pairs IN_MAX_KEYS in_move_left in_move_right
proof (unfold_locales, goal_cases)
  case (1 d s n)
  then have "n \<le> in_get_len s" "n \<le> IN_MAX_KEYS - in_get_len d" by simp_all
  from in_move_left_correct [OF 1(1,2) this] show ?case by blast
next
  case (2 s d n)
  then have "n \<le> in_get_len s" "n \<le> IN_MAX_KEYS - in_get_len d" by simp_all
  from in_move_right_correct [OF 2(1,2) this] show ?case by simp
next
  case (3 p)
  then show ?case by (simp add: wf_inD)
qed


section \<open>Leaves and inner nodes alike\<close>

definition dlgt_items :: "page \<Rightarrow> (u8 + pgno \<times> b_size) list" where
  "dlgt_items p =
     (if page_get_type p = pt_code PG_DATA_LIST then map Inl (dl_bytes p) else map Inr (in_pairs p))"

definition wf_node :: "page \<Rightarrow> bool" where
  "wf_node p \<longleftrightarrow> page_get_type p = pt_code PG_DATA_LIST \<and> wf_dl p \<or>
     page_get_type p = pt_code PG_INNER_NODE \<and> wf_in p"

lemma page_type_links: "same_links p p' \<Longrightarrow> page_get_type p' = page_get_type p"
  unfolding page_get_type_def by (rule same_links_get) simp_all

lemma in_size_loop_correct:
  assumes "wf_in p" and "i + n \<le> in_get_len p"
  shows "in_size_loop n p i r = Some (r + sum_list (map snd (take n (drop i (in_pairs p)))))"
  using assms(2)
proof (induction n arbitrary: i r)
  case 0
  then show ?case by simp
next
  case (Suc n)
  then have i: "i < in_get_len p" by simp
  have "take (Suc n) (drop i (in_pairs p)) = in_slot p i # take n (drop (Suc i) (in_pairs p))"
    using i by (simp add: Cons_nth_drop_Suc [symmetric] in_pairs_nth)
  with Suc i show ?case by (simp add: in_get_key_eq [OF assms(1)] in_slot_def add.assoc)
qed

lemma in_get_size_correct: "wf_in p \<Longrightarrow> in_get_size p = Some (sum_list (map snd (in_pairs p)))"
  using in_size_loop_correct [of p 0 "in_get_len p" 0] by (simp add: in_get_size_def)

lemma wf_node_cases:
  assumes "wf_node p"
  obtains (leaf) "page_get_type p = pt_code PG_DATA_LIST" "wf_dl p" "dlgt_items p = map Inl (dl_bytes p)"
      "dlgt_get_len p = Some (dl_used p)" "dlgt_get_max_len p = Some DL_DATA_SIZE"
      "dlgt_get_size p = Some (of_nat (length (dl_bytes p)))"
    | (inner) "page_get_type p = pt_code PG_INNER_NODE" "wf_in p" "dlgt_items p = map Inr (in_pairs p)"
      "dlgt_get_len p = Some (in_get_len p)" "dlgt_get_max_len p = Some IN_MAX_KEYS"
      "dlgt_get_size p = Some (sum_list (map snd (in_pairs p)))"
proof -
  have "pt_code PG_INNER_NODE \<noteq> pt_code PG_DATA_LIST" unfolding pt_code_inject by simp
  moreover have dec: "pt_decode (pt_code t) = Some t" for t by (rule pt_decode_code)
  ultimately show thesis
    using assms that
    by (auto simp: wf_node_def dlgt_items_def dlgt_get_len_def dlgt_get_max_len_def dlgt_get_size_def
        in_get_size_correct wf_dlD simp del: pt_code.simps)
qed

lemma dlgt_items_length: "wf_node p \<Longrightarrow> dlgt_get_len p = Some (length (dlgt_items p))"
  by (elim wf_node_cases) (simp_all add: wf_dlD)

lemma of_nat_size_split:
  assumes "n \<le> m"
  shows "(of_nat (l + n) :: u64) + of_nat (m - n) = of_nat l + of_nat m"
proof -
  have "l + n + (m - n) = l + m" using assms by simp
  then show ?thesis by (metis of_nat_add)
qed

lemma dlgt_move_left_correct:
  assumes wf: "wf_node d" "wf_node s" and ty: "page_get_type d = page_get_type s"
    and n: "n \<le> length (dlgt_items s)"
    and room: "\<exists>c. dlgt_get_max_len d = Some c \<and> length (dlgt_items d) + n \<le> c"
  shows "\<exists>d' s'. dlgt_move_left d s n = Some (d', s') \<and> wf_node d' \<and> wf_node s' \<and>
    same_links d d' \<and> same_links s s' \<and>
    dlgt_items d' = dlgt_items d @ take n (dlgt_items s) \<and> dlgt_items s' = drop n (dlgt_items s) \<and>
    (\<exists>a b a' b'. dlgt_get_size d = Some a \<and> dlgt_get_size s = Some b \<and>
       dlgt_get_size d' = Some a' \<and> dlgt_get_size s' = Some b' \<and> a' + b' = a + b)"
  using wf(2)
proof (cases rule: wf_node_cases)
  case leaf
  with wf(1) ty have d: "wf_dl d" "dlgt_items d = map Inl (dl_bytes d)"
      "dlgt_get_max_len d = Some DL_DATA_SIZE" "dlgt_get_size d = Some (of_nat (length (dl_bytes d)))"
    by (elim wf_node_cases; simp del: pt_code.simps)+
  have prem: "n \<le> length (dl_bytes s)" "length (dl_bytes d) + n \<le> DL_DATA_SIZE"
    using n room leaf d by auto
  obtain d' s' where r: "dl_move_left d s n = Some (d', s')" "wf_dl d'" "wf_dl s'" "same_links d d'"
      "same_links s s'" "dl_bytes d' = dl_bytes d @ take n (dl_bytes s)"
      "dl_bytes s' = drop n (dl_bytes s)"
    using dln.left [OF d(1) leaf(2) prem] by blast
  have t: "page_get_type d' = pt_code PG_DATA_LIST" "page_get_type s' = pt_code PG_DATA_LIST"
    using page_type_links [OF r(4)] page_type_links [OF r(5)] leaf ty by simp_all
  then have "wf_node d'" "wf_node s'" using r by (simp_all add: wf_node_def del: pt_code.simps)
  moreover have "dlgt_move_left d s n = Some (d', s')"
    using ty leaf(1) r(1) by (simp add: dlgt_move_left_def del: pt_code.simps)
  moreover have "dlgt_items d' = map Inl (dl_bytes d')" "dlgt_items s' = map Inl (dl_bytes s')"
    using t by (simp_all add: dlgt_items_def del: pt_code.simps)
  moreover have "dlgt_get_size d' = Some (of_nat (length (dl_bytes d')))"
      "dlgt_get_size s' = Some (of_nat (length (dl_bytes s')))"
    using t r(2,3) by (simp_all add: dlgt_get_size_def wf_dlD del: pt_code.simps)
  moreover have "(of_nat (length (dl_bytes d')) :: u64) + of_nat (length (dl_bytes s')) =
      of_nat (length (dl_bytes d)) + of_nat (length (dl_bytes s))"
    using of_nat_size_split [OF prem(1), of "length (dl_bytes d)"] prem(1) r(6,7) by simp
  ultimately show ?thesis using r leaf d by (simp add: take_map drop_map)
next
  case inner
  with wf(1) ty have d: "wf_in d" "dlgt_items d = map Inr (in_pairs d)"
      "dlgt_get_max_len d = Some IN_MAX_KEYS" "dlgt_get_size d = Some (sum_list (map snd (in_pairs d)))"
    by (elim wf_node_cases; simp del: pt_code.simps)+
  have prem: "n \<le> length (in_pairs s)" "length (in_pairs d) + n \<le> IN_MAX_KEYS"
    using n room inner d by auto
  obtain d' s' where r: "in_move_left d s n = Some (d', s')" "wf_in d'" "wf_in s'" "same_links d d'"
      "same_links s s'" "in_pairs d' = in_pairs d @ take n (in_pairs s)"
      "in_pairs s' = drop n (in_pairs s)"
    using inn.left [OF d(1) inner(2) prem] by blast
  have t: "page_get_type d' = pt_code PG_INNER_NODE" "page_get_type s' = pt_code PG_INNER_NODE"
    using page_type_links [OF r(4)] page_type_links [OF r(5)] inner ty by simp_all
  then have "wf_node d'" "wf_node s'" using r by (simp_all add: wf_node_def del: pt_code.simps)
  moreover have "dlgt_move_left d s n = Some (d', s')"
    using ty inner(1) r(1) by (simp add: dlgt_move_left_def del: pt_code.simps)
  moreover have "dlgt_items d' = map Inr (in_pairs d')" "dlgt_items s' = map Inr (in_pairs s')"
    using t by (simp_all add: dlgt_items_def)
  moreover have "dlgt_get_size d' = Some (sum_list (map snd (in_pairs d')))"
      "dlgt_get_size s' = Some (sum_list (map snd (in_pairs s')))"
    using t r by (simp_all add: dlgt_get_size_def in_get_size_correct del: pt_code.simps)
  moreover have "sum_list (map snd (in_pairs d')) + sum_list (map snd (in_pairs s')) =
      sum_list (map snd (in_pairs d)) + sum_list (map snd (in_pairs s))"
  proof -
    have "sum_list (map snd (in_pairs s)) =
        sum_list (map snd (take n (in_pairs s))) + sum_list (map snd (drop n (in_pairs s)))"
      by (metis append_take_drop_id map_append sum_list_append)
    with r(6,7) show ?thesis by (simp add: add.assoc)
  qed
  ultimately show ?thesis using r inner d by (simp add: take_map drop_map)
qed

lemma dlgt_move_right_correct:
  assumes wf: "wf_node s" "wf_node d" and ty: "page_get_type d = page_get_type s"
    and n: "n \<le> length (dlgt_items s)"
    and room: "\<exists>c. dlgt_get_max_len d = Some c \<and> length (dlgt_items d) + n \<le> c"
  shows "\<exists>s' d'. dlgt_move_right s d n = Some (s', d') \<and> wf_node s' \<and> wf_node d' \<and>
    same_links s s' \<and> same_links d d' \<and>
    dlgt_items s' = take (length (dlgt_items s) - n) (dlgt_items s) \<and>
    dlgt_items d' = drop (length (dlgt_items s) - n) (dlgt_items s) @ dlgt_items d"
  using wf(1)
proof (cases rule: wf_node_cases)
  case leaf
  with wf(2) ty have d: "wf_dl d" "dlgt_items d = map Inl (dl_bytes d)"
      "dlgt_get_max_len d = Some DL_DATA_SIZE"
    by (elim wf_node_cases; simp del: pt_code.simps)+
  have prem: "n \<le> length (dl_bytes s)" "length (dl_bytes d) + n \<le> DL_DATA_SIZE"
    using n room leaf d by auto
  obtain s' d' where r: "dl_move_right s d n = Some (s', d')" "wf_dl s'" "wf_dl d'" "same_links s s'"
      "same_links d d'" "dl_bytes s' = take (length (dl_bytes s) - n) (dl_bytes s)"
      "dl_bytes d' = drop (length (dl_bytes s) - n) (dl_bytes s) @ dl_bytes d"
    using dln.right [OF leaf(2) d(1) prem] by blast
  have t: "page_get_type d' = pt_code PG_DATA_LIST" "page_get_type s' = pt_code PG_DATA_LIST"
    using page_type_links [OF r(4)] page_type_links [OF r(5)] leaf ty by simp_all
  then have "wf_node d'" "wf_node s'" using r by (simp_all add: wf_node_def del: pt_code.simps)
  moreover have "dlgt_move_right s d n = Some (s', d')"
    using ty leaf(1) r(1) by (simp add: dlgt_move_right_def del: pt_code.simps)
  moreover have "dlgt_items d' = map Inl (dl_bytes d')" "dlgt_items s' = map Inl (dl_bytes s')"
    using t by (simp_all add: dlgt_items_def del: pt_code.simps)
  ultimately show ?thesis using r leaf d by (simp add: take_map drop_map)
next
  case inner
  with wf(2) ty have d: "wf_in d" "dlgt_items d = map Inr (in_pairs d)"
      "dlgt_get_max_len d = Some IN_MAX_KEYS"
    by (elim wf_node_cases; simp del: pt_code.simps)+
  have prem: "n \<le> length (in_pairs s)" "length (in_pairs d) + n \<le> IN_MAX_KEYS"
    using n room inner d by auto
  obtain s' d' where r: "in_move_right s d n = Some (s', d')" "wf_in s'" "wf_in d'" "same_links s s'"
      "same_links d d'" "in_pairs s' = take (length (in_pairs s) - n) (in_pairs s)"
      "in_pairs d' = drop (length (in_pairs s) - n) (in_pairs s) @ in_pairs d"
    using inn.right [OF inner(2) d(1) prem] by blast
  have t: "page_get_type d' = pt_code PG_INNER_NODE" "page_get_type s' = pt_code PG_INNER_NODE"
    using page_type_links [OF r(4)] page_type_links [OF r(5)] inner ty by simp_all
  then have "wf_node d'" "wf_node s'" using r by (simp_all add: wf_node_def del: pt_code.simps)
  moreover have "dlgt_move_right s d n = Some (s', d')"
    using ty inner(1) r(1) by (simp add: dlgt_move_right_def del: pt_code.simps)
  moreover have "dlgt_items d' = map Inr (in_pairs d')" "dlgt_items s' = map Inr (in_pairs s')"
    using t by (simp_all add: dlgt_items_def)
  ultimately show ?thesis using r inner d by (simp add: take_map drop_map)
qed

section \<open>Initialising and validating any page\<close>

definition page_header_is :: "page \<Rightarrow> page_type \<Rightarrow> bool" where
  "page_header_is p t \<longleftrightarrow> page_get_type p = pt_code t \<and> page_get_page_lsn p = PGNO_NULL \<and>
     page_get_checksum p = 0"

lemma page_init_header:
  fixes t :: page_type
  assumes "wf_page p"
  defines "q \<equiv> page_set_checksum (page_set_page_lsn (page_set_type p t) PGNO_NULL) 0"
  shows "wf_page q" "page_get_type q = pt_code t" "page_header_is q t" "pg q = pg p"
  using assms by (simp_all add: q_def page_header_defs page_header_is_def)

lemma page_validate_any:
  "page_get_type p = pt_code t \<Longrightarrow> page_validate_for_db p PG_ANY =
     (case t of
        PG_DATA_LIST \<Rightarrow> Some (dl_validate_for_db p)
      | PG_INNER_NODE \<Rightarrow> in_validate_for_db p
      | PG_TOMBSTONE \<Rightarrow> Some (tmbst_validate_for_db p)
      | PG_ROOT_NODE \<Rightarrow> Some (rn_validate_for_db p)
      | PG_VAR_PAGE \<Rightarrow> Some (vp_validate_for_db p)
      | PG_VAR_TAIL \<Rightarrow> Some (vt_validate_for_db p)
      | PG_RPT_ROOT \<Rightarrow> Some (rr_validate_for_db p)
      | PG_VAR_HASH_PAGE \<Rightarrow> Some (vh_validate_for_db p))"
proof -
  assume t: "page_get_type p = pt_code t"
  have "pt_code t \<noteq> 0" by (cases t) simp_all
  with t show ?thesis
    by (simp add: page_validate_for_db_def PG_ANY_eq Let_def del: pt_code.simps)
qed

lemma dl_bytes_Nil: "wf_dl d \<Longrightarrow> dl_bytes d = [] \<longleftrightarrow> dl_used d = 0"
  by (metis length_0_conv wf_dlD(5))

lemma page_init_empty_correct:
  assumes "wf_page p"
  shows "\<exists>p'. page_init_empty p t = Some p' \<and> wf_page p' \<and> pg p' = pg p \<and>
    page_get_type p' = pt_code t \<and>
    page_validate_for_db p' PG_ANY =
      Some (if t \<in> {PG_DATA_LIST, PG_INNER_NODE, PG_VAR_PAGE} then Inl ERR_CORRUPT else Inr ())"
proof -
  define q where "q = page_set_checksum (page_set_page_lsn (page_set_type p t) PGNO_NULL) 0"
  have q: "wf_page q" "page_get_type q = pt_code t" "pg q = pg p"
    using page_init_header [OF assms, of t] by (simp_all add: q_def)
  note dl = dl_init_empty_correct [OF q(1)] and inn = in_init_empty_correct [OF q(1)]
    and ts = tmbst_init_empty_correct [OF q(1)] and rn = rn_init_empty_correct [OF q(1)]
    and vp = vp_init_empty_correct [OF q(1)] and vt = vt_init_empty_correct [OF q(1)]
    and rr = rr_init_empty_correct [OF q(1)] and vh = vh_init_empty_correct [OF q(1)]
  have init: "page_init_empty p t =
     (case t of
       PG_DATA_LIST \<Rightarrow> dl_init_empty q
     | PG_INNER_NODE \<Rightarrow> in_init_empty q
     | PG_TOMBSTONE \<Rightarrow> tmbst_init_empty q
     | PG_ROOT_NODE \<Rightarrow> rn_init_empty q
     | PG_VAR_PAGE \<Rightarrow> vp_init_empty q
     | PG_VAR_TAIL \<Rightarrow> vt_init_empty q
     | PG_RPT_ROOT \<Rightarrow> rr_init_empty q
     | PG_VAR_HASH_PAGE \<Rightarrow> vh_init_empty q)"
    by (simp only: page_init_empty_def q_def Let_def)
  have w: "\<exists>p'. page_init_empty p t = Some p' \<and> wf_page p' \<and> pg p' = pg p \<and>
      page_get_type p' = pt_code t \<and> page_validate_for_db p' PG_ANY = Some r"
    if ex: "\<exists>p'. page_init_empty p t = Some p' \<and> wf_page p' \<and> pg p' = pg p \<and>
      page_get_type p' = pt_code t \<and> P p'"
    and v: "\<And>p'. page_get_type p' = pt_code t \<Longrightarrow> P p' \<Longrightarrow> page_validate_for_db p' PG_ANY = Some r"
    for P r using that by blast
  show ?thesis
  proof (cases t)
    case PG_TOMBSTONE
    with q ts init show ?thesis
      by (intro w [where P = "\<lambda>_. True"])
        (auto simp: page_validate_any [where t = PG_TOMBSTONE] tmbst_validate_for_db_def simp del: pt_code.simps)
  next
    case PG_ROOT_NODE
    with q rn init show ?thesis
      by (intro w [where P = "\<lambda>_. True"])
        (auto simp: page_validate_any [where t = PG_ROOT_NODE] rn_validate_for_db_def simp del: pt_code.simps)
  next
    case PG_DATA_LIST
    with q dl init show ?thesis
      by (intro w [where P = "\<lambda>d. wf_dl d \<and> dl_bytes d = [] \<and> dl_is_root d"])
        (auto simp: page_validate_any [where t = PG_DATA_LIST] dl_validate_for_db_def
          dl_bytes_Nil dest: wf_dlD(1) simp del: pt_code.simps)
  next
    case PG_INNER_NODE
    with q inn init show ?thesis
      by (intro w [where P = "\<lambda>d. wf_in d \<and> in_pairs d = [] \<and> in_is_root d"])
        (auto simp: page_validate_any [where t = PG_INNER_NODE] in_validate_for_db_def wf_in_def
          in_pairs_def simp del: pt_code.simps)
  next
    case PG_RPT_ROOT
    with q rr init show ?thesis
      by (intro w [where P = "\<lambda>_. True"])
        (auto simp: page_validate_any [where t = PG_RPT_ROOT] rr_validate_for_db_def simp del: pt_code.simps)
  next
    case PG_VAR_HASH_PAGE
    with q vh init show ?thesis
      by (intro w [where P = "\<lambda>_. True"])
        (auto simp: page_validate_any [where t = PG_VAR_HASH_PAGE] vh_validate_for_db_def simp del: pt_code.simps)
  next
    case PG_VAR_PAGE
    with q vp init show ?thesis
      by (intro w [where P = "\<lambda>d. vp_get_vlen d = 0"])
        (auto simp: page_validate_any [where t = PG_VAR_PAGE] vp_validate_for_db_def simp del: pt_code.simps)
  next
    case PG_VAR_TAIL
    with q vt init show ?thesis
      by (intro w [where P = "\<lambda>_. True"])
        (auto simp: page_validate_any [where t = PG_VAR_TAIL] vt_validate_for_db_def simp del: pt_code.simps)
  qed
qed

text \<open>Setting a link leaves the content of a node alone.\<close>

lemma set_link_content:
  fixes w :: u64
  assumes wf: "wf_page p" and k: "ofst + 8 \<le> PG_LINKS_END"
  defines "q \<equiv> page_set p ofst w"
  shows "dl_used q = dl_used p" "dl_bytes q = dl_bytes p" "in_get_len q = in_get_len p"
    "in_get_len p \<le> IN_MAX_KEYS \<Longrightarrow> in_pairs q = in_pairs p" "wf_page q"
proof -
  show u: "dl_used q = dl_used p" and n: "in_get_len q = in_get_len p" and wq: "wf_page q"
    using wf k by (simp_all add: q_def dl_used_def in_get_len_def)
  have "slice (raw q) DL_DATA_OFST DL_DATA_SIZE = slice (raw p) DL_DATA_OFST DL_DATA_SIZE"
    unfolding q_def using wf k by (intro slice_page_set_other) simp_all
  then have "dl_get_data q = dl_get_data p"
    using wf wq by (simp add: slice_def dl_get_data_def wf_page_def)
  with u show "dl_bytes q = dl_bytes p" by (simp add: dl_bytes_def)
  show "in_pairs q = in_pairs p" if len: "in_get_len p \<le> IN_MAX_KEYS"
  proof (rule in_pairsI)
    fix i assume "i < length (in_pairs p)"
    then have i: "i < IN_MAX_KEYS" "i < in_get_len p" using len by simp_all
    have "PG_LINKS_END \<le> PAGE_SIZE - 8 * (i + 1)" using i(1) by arith
    then have "in_key_at q i = in_key_at p i"
      unfolding in_key_at_def q_def using wf k by (intro page_get_set_other) simp_all
    moreover have "in_leaf_at q i = in_leaf_at p i"
      unfolding in_leaf_at_def q_def using wf k by (intro page_get_set_other) simp_all
    ultimately show "in_slot q i = in_pairs p ! i" using i by (simp add: in_slot_def in_pairs_nth)
  qed (use n in simp)
qed

lemma wf_node_page: "wf_node p \<Longrightarrow> wf_page p"
  by (auto simp: wf_node_def wf_dl_def wf_in_def)

lemma set_link_node:
  fixes w :: u64
  assumes wf: "wf_node p" and k: "ofst = IN_NEXT_OFST \<or> ofst = IN_PREV_OFST"
  defines "q \<equiv> page_set p ofst w"
  shows "wf_node q" "dlgt_items q = dlgt_items p" "page_get_type q = page_get_type p" "pg q = pg p"
proof -
  note wp = wf_node_page [OF wf]
  have k8: "ofst + 8 \<le> PG_LINKS_END" using k by auto
  note c = set_link_content [OF wp k8, of w, folded q_def]
  show t: "page_get_type q = page_get_type p"
    using wp k by (auto simp: q_def page_get_type_def)
  show "wf_node q" using wf c t by (auto simp: wf_node_def wf_dl_def wf_in_def simp del: pt_code.simps)
  show "dlgt_items q = dlgt_items p"
    using wf c t by (auto simp: wf_node_def wf_in_def dlgt_items_def simp del: pt_code.simps)
  show "pg q = pg p" by (simp add: q_def)
qed

lemma dlgt_link_fields:
  assumes "wf_node p"
  shows "dlgt_set_next p w = Some (page_set p IN_NEXT_OFST w)"
    "dlgt_set_prev p w = Some (page_set p IN_PREV_OFST w)"
    "dlgt_get_next p = Some (page_get p IN_NEXT_OFST)" "dlgt_get_prev p = Some (page_get p IN_PREV_OFST)"
  using assms
  by (auto simp: wf_node_def dlgt_set_next_def dlgt_set_prev_def dlgt_get_next_def dlgt_get_prev_def
      in_set_next_def dl_set_next_def in_set_prev_def dl_set_prev_def in_get_next_def dl_get_next_def
      in_get_prev_def dl_get_prev_def simp del: pt_code.simps)

lemma dlgt_link_correct:
  assumes l: "wf_node l" and r: "wf_node r"
  shows "\<exists>l' r'. dlgt_link (Some l) (Some r) = Some (Some l', Some r') \<and>
    wf_node l' \<and> wf_node r' \<and> dlgt_items l' = dlgt_items l \<and> dlgt_items r' = dlgt_items r \<and>
    dlgt_get_prev l' = dlgt_get_prev l \<and> dlgt_get_next r' = dlgt_get_next r \<and>
    dlgt_valid_neighbors (Some l') (Some r') = Some True"
proof -
  let ?l = "page_set l IN_NEXT_OFST (pg r)" and ?r = "page_set r IN_PREV_OFST (pg l)"
  note L = set_link_node [OF l disjI1 [OF refl], of "pg r"]
    and R = set_link_node [OF r disjI2 [OF refl], of "pg l"]
  have "dlgt_link (Some l) (Some r) = Some (Some ?l, Some ?r)"
    by (simp add: dlgt_link_def pgno_or_null_def Let_def dlgt_link_fields [OF l] dlgt_link_fields [OF r])
  moreover have "dlgt_get_prev ?l = dlgt_get_prev l" "dlgt_get_next ?r = dlgt_get_next r"
    using wf_node_page [OF l] wf_node_page [OF r]
    by (simp_all add: dlgt_link_fields [OF L(1)] dlgt_link_fields [OF l] dlgt_link_fields [OF R(1)]
        dlgt_link_fields [OF r])
  moreover have "dlgt_valid_neighbors (Some ?l) (Some ?r) = Some True"
    using wf_node_page [OF l] wf_node_page [OF r]
    by (simp add: dlgt_valid_neighbors_def pgno_or_null_def Let_def dlgt_link_fields [OF L(1)]
        dlgt_link_fields [OF R(1)])
  ultimately show ?thesis using L R by blast
qed

section \<open>Properties\<close>

lemma wf_node_example:
  "\<exists>p. wf_node p \<and> page_get_type p = pt_code PG_INNER_NODE \<and> dlgt_items p = map Inr xs"
  if len: "length xs \<le> IN_MAX_KEYS"
proof -
  obtain p where p: "wf_in p" "in_pairs p = xs" "page_get_type p = pt_code PG_INNER_NODE"
    using in_example [OF len] by blast
  then have "wf_node p" by (simp add: wf_node_def del: pt_code.simps)
  moreover have "dlgt_items p = map Inr xs" using p by (simp add: dlgt_items_def)
  ultimately show ?thesis using p(3) by blast
qed

lemma wf_node_leaf:
  assumes "length bs \<le> DL_DATA_SIZE"
  shows "wf_node (dl_example n bs)" "dlgt_items (dl_example n bs) = map Inl bs"
    "dlgt_get_max_len (dl_example n bs) = Some DL_DATA_SIZE"
  using dl_example [OF assms, of n]
  by (simp_all add: wf_node_def dlgt_items_def dlgt_get_max_len_def del: pt_code.simps)

text \<open>C12: Moving content to the left neighbour neither loses, duplicates nor reorders
  anything. For two leaves or two inner nodes, and an amount the source holds and the
  destination has room for, the items of the source's front become the destination's back; both nodes stay well formed,
  keep their links and headers, and the bytes the two subtrees account for together (the keys of inner nodes, the
  lengths of leaves) are the same as before.\<close>

theorem dlgt_move_left_conserves:
  assumes "wf_node d" and "wf_node s" and "page_get_type d = page_get_type s"
    and "n \<le> length (dlgt_items s)"
    and "\<exists>c. dlgt_get_max_len d = Some c \<and> length (dlgt_items d) + n \<le> c"
  shows "\<exists>d' s'. dlgt_move_left d s n = Some (d', s') \<and> wf_node d' \<and> wf_node s' \<and>
    same_links d d' \<and> same_links s s' \<and>
    dlgt_items d' = dlgt_items d @ take n (dlgt_items s) \<and> dlgt_items s' = drop n (dlgt_items s) \<and>
    (\<exists>a b a' b'. dlgt_get_size d = Some a \<and> dlgt_get_size s = Some b \<and>
       dlgt_get_size d' = Some a' \<and> dlgt_get_size s' = Some b' \<and> a' + b' = a + b)"
  by (rule dlgt_move_left_correct [OF assms])

theorem dlgt_move_left_conserves_witness:
  "\<exists>d' s'. dlgt_move_left (dl_example 1 [1, 2]) (dl_example 2 [3, 4, 5]) 2 = Some (d', s') \<and>
     dlgt_items d' = map Inl [1, 2, 3, 4] \<and> dlgt_items s' = map Inl [5]"
proof -
  have l: "length [1, 2 :: u8] \<le> DL_DATA_SIZE" "length [3, 4, 5 :: u8] \<le> DL_DATA_SIZE" by simp_all
  note a = wf_node_leaf [OF l(1), of 1] dl_example(3) [OF l(1), of 1]
  note b = wf_node_leaf [OF l(2), of 2] dl_example(3) [OF l(2), of 2]
  have "page_get_type (dl_example 1 [1, 2]) = page_get_type (dl_example 2 [3, 4, 5])"
    using a b by simp
  from dlgt_move_left_conserves [OF a(1) b(1) this, of 2] show ?thesis
    using a b by (simp add: numeral_eq_Suc) blast
qed

text \<open>Moving content to the right neighbour takes the back of the source and puts it before the
  destination's items, in order, with the same guarantees.\<close>

theorem dlgt_move_right_conserves:
  assumes "wf_node s" and "wf_node d" and "page_get_type d = page_get_type s"
    and "n \<le> length (dlgt_items s)"
    and "\<exists>c. dlgt_get_max_len d = Some c \<and> length (dlgt_items d) + n \<le> c"
  shows "\<exists>s' d'. dlgt_move_right s d n = Some (s', d') \<and> wf_node s' \<and> wf_node d' \<and>
    same_links s s' \<and> same_links d d' \<and>
    dlgt_items s' = take (length (dlgt_items s) - n) (dlgt_items s) \<and>
    dlgt_items d' = drop (length (dlgt_items s) - n) (dlgt_items s) @ dlgt_items d"
  by (rule dlgt_move_right_correct [OF assms])

theorem dlgt_move_right_conserves_witness:
  "\<exists>d' s'. dlgt_move_right (dl_example 1 [1, 2, 3]) (dl_example 2 [4]) 2 = Some (s', d') \<and>
     dlgt_items s' = map Inl [1] \<and> dlgt_items d' = map Inl [2, 3, 4]"
proof -
  have l: "length [1, 2, 3 :: u8] \<le> DL_DATA_SIZE" "length [4 :: u8] \<le> DL_DATA_SIZE" by simp_all
  note a = wf_node_leaf [OF l(1), of 1] dl_example(3) [OF l(1), of 1]
  note b = wf_node_leaf [OF l(2), of 2] dl_example(3) [OF l(2), of 2]
  have "page_get_type (dl_example 2 [4]) = page_get_type (dl_example 1 [1, 2, 3])"
    using a b by simp
  from dlgt_move_right_conserves [OF a(1) b(1) this, of 2] show ?thesis
    using a b by (simp add: numeral_eq_Suc) blast
qed

text \<open>Linking two neighbours makes each the other's neighbour and changes nothing else: their
  content and their outer links stay.\<close>

theorem dlgt_link_makes_neighbors:
  assumes "wf_node l" and "wf_node r"
  shows "\<exists>l' r'. dlgt_link (Some l) (Some r) = Some (Some l', Some r') \<and>
    wf_node l' \<and> wf_node r' \<and> dlgt_items l' = dlgt_items l \<and> dlgt_items r' = dlgt_items r \<and>
    dlgt_get_prev l' = dlgt_get_prev l \<and> dlgt_get_next r' = dlgt_get_next r \<and>
    dlgt_valid_neighbors (Some l') (Some r') = Some True"
  by (rule dlgt_link_correct [OF assms])

theorem dlgt_link_makes_neighbors_witness:
  "\<exists>l r l' r'. dlgt_link (Some l) (Some r) = Some (Some l', Some r') \<and>
     dlgt_items l = map Inr [(5, 10)] \<and> dlgt_items r = map Inl [7] \<and>
     dlgt_valid_neighbors (Some l') (Some r') = Some True"
proof -
  obtain l where l: "wf_node l" "dlgt_items l = map Inr [(5, 10)]"
    using wf_node_example [of "[(5, 10)]"] by auto
  have "length [7 :: u8] \<le> DL_DATA_SIZE" by simp
  note r = wf_node_leaf [OF this, of 9]
  from dlgt_link_makes_neighbors [OF l(1) r(1)] l(2) r(2) show ?thesis by blast
qed

text \<open>Initialising a page as any type succeeds, keeps its number, sets its type byte, and leaves a
  page the database accepts, except for the three types that must hold something before they
  may be stored: a data list, an inner node and a variable page are refused while they are empty.\<close>

theorem page_init_then_validate:
  assumes "wf_page p"
  shows "\<exists>p'. page_init_empty p t = Some p' \<and> wf_page p' \<and> pg p' = pg p \<and>
    page_get_type p' = pt_code t \<and>
    page_validate_for_db p' PG_ANY =
      Some (if t \<in> {PG_DATA_LIST, PG_INNER_NODE, PG_VAR_PAGE} then Inl ERR_CORRUPT else Inr ())"
  by (rule page_init_empty_correct [OF assms])

theorem page_init_then_validate_witness:
  "\<exists>p'. page_init_empty (zero_page 4) PG_ROOT_NODE = Some p' \<and> pg p' = 4 \<and>
     page_validate_for_db p' PG_ANY = Some (Inr ())"
  using page_init_then_validate [of "zero_page 4" PG_ROOT_NODE] by auto

end
