(* ===== verification/Txn_Table.thy ===== *)
theory Txn_Table
  imports Hash_Table Dbl_Buffer Serializer
begin

text \<open>
  \<^verbatim>\<open>libs/nspager/txn.c\<close> and \<^verbatim>\<open>txn_table.c\<close>: the table of active transactions.

  Transactions live in a heap and are shared: the table holds their embedded nodes, its clients hold
  pointers to them, and both see an update. A node refers to the transaction it is embedded in,
  which is one of the heap or the key on a caller's stack, of which only the \<^verbatim>\<open>tid\<close> is initialised.
  A comparison that reads a dangling pointer fails. The table's latch and the latch of each
  transaction are not modelled.

  \<open>txnt_map\<close> is the finite map from transaction identifiers to pointers that the table stands for,
  \<open>txnt_inv\<close> the invariant that makes it one: no node dangles, each has its transaction's hash code
  and no identifier occurs twice.
\<close>

datatype tx_state = TX_RUNNING | TX_CANDIDATE_FOR_UNDO | TX_COMMITTED | TX_DONE

record txn_data =
  td_state :: tx_state
  td_last_lsn :: lsn
  td_undo_next_lsn :: lsn

record txn =
  tx_tid :: txid
  tx_data :: txn_data

datatype txn_ref = Tx ptr | Key txid

type_synonym txn_table = "txn_ref adptv_htable"

section \<open>Transactions\<close>

definition txn_init :: "txn heap \<Rightarrow> ptr \<Rightarrow> txid \<Rightarrow> txn_data \<Rightarrow> txn heap option" where
  "txn_init h dest tid data = heap_put h dest \<lparr>tx_tid = tid, tx_data = data\<rparr>"

definition txn_node :: "ptr \<Rightarrow> txid \<Rightarrow> txn_ref hnode" where
  \<comment> \<open>the node \<^verbatim>\<open>txn_init\<close> embeds: the identifier is truncated to the 32 bits of a hash code\<close>
  "txn_node p tid = hnode_init (ucast tid) (Tx p)"

definition txn_key_init :: "txid \<Rightarrow> txn_ref hnode" where
  "txn_key_init tid = hnode_init (ucast tid) (Key tid)"

definition txn_update :: "txn heap \<Rightarrow> ptr \<Rightarrow> txn_data \<Rightarrow> txn heap option" where
  "txn_update h t data = do { tx \<leftarrow> heap_get h t; heap_put h t (tx\<lparr>tx_data := data\<rparr>) }"

definition txn_data_equal :: "txn_data \<Rightarrow> txn_data \<Rightarrow> bool" where
  "txn_data_equal left right \<longleftrightarrow>
     td_last_lsn left = td_last_lsn right \<and> td_undo_next_lsn left = td_undo_next_lsn right \<and>
     td_state left = td_state right"

section \<open>The table\<close>

definition txnt_open :: "bool \<times> bool \<Rightarrow> txn_table res option" where
  "txnt_open ok = adptv_htable_init ok
     \<lparr>max_load_factor = 8, min_load_factor = 1, rehashing_work = 28, max_size = 2048, min_size = 10\<rparr>"

primrec txn_ref_tid :: "txn heap \<Rightarrow> txn_ref \<Rightarrow> txid option" where
  "txn_ref_tid h (Tx p) = map_option tx_tid (heap_get h p)"
| "txn_ref_tid h (Key tid) = Some tid"

definition txn_equals_for_exists :: "txn heap \<Rightarrow> txn_ref \<Rightarrow> txn_ref \<Rightarrow> bool option" where
  "txn_equals_for_exists h left right = do {
     l \<leftarrow> txn_ref_tid h left;
     r \<leftarrow> txn_ref_tid h right;
     Some (l = r) }"

definition txn_exists :: "txn heap \<Rightarrow> txn_table \<Rightarrow> txid \<Rightarrow> bool option" where
  "txn_exists h t tid = do {
     ret \<leftarrow> adptv_htable_lookup t (txn_key_init tid) (txn_equals_for_exists h);
     Some (ret \<noteq> None) }"

definition txnt_insert_txn :: "bool \<Rightarrow> txn heap \<Rightarrow> txn_table \<Rightarrow> ptr \<Rightarrow> (unit res \<times> txn_table) option" where
  "txnt_insert_txn ok h t tx = do {
     x \<leftarrow> heap_get h tx;
     ex \<leftarrow> txn_exists h t (tx_tid x);
     ASSERT (\<not> ex);
     adptv_htable_insert ok t (txn_node tx (tx_tid x)) }"

definition txnt_insert_txn_if_not_exists ::
  "bool \<Rightarrow> txn heap \<Rightarrow> txn_table \<Rightarrow> ptr \<Rightarrow> (unit res \<times> txn_table) option" where
  "txnt_insert_txn_if_not_exists ok h t tx = do {
     x \<leftarrow> heap_get h tx;
     ex \<leftarrow> txn_exists h t (tx_tid x);
     if ex then Some (Inr (), t)
     else adptv_htable_insert ok t (txn_node tx (tx_tid x)) }"

definition txnt_remove_txn ::
  "bool \<Rightarrow> txn heap \<Rightarrow> txn_table \<Rightarrow> ptr \<Rightarrow> (bool \<times> unit res \<times> txn_table) option" where
  "txnt_remove_txn ok h t tx = do {
     x \<leftarrow> heap_get h tx;
     node \<leftarrow> adptv_htable_lookup t (txn_node tx (tx_tid x)) (txn_equals_for_exists h);
     case node of
       None \<Rightarrow> Some (False, Inr (), t)
     | Some node \<Rightarrow> do {
         (r, t) \<leftarrow> adptv_htable_delete ok False t node (txn_equals_for_exists h);
         Some (True, (case r of Inl e \<Rightarrow> Inl e | Inr _ \<Rightarrow> Inr ()), t) } }"

definition txnt_remove_txn_expect ::
  "bool \<Rightarrow> txn heap \<Rightarrow> txn_table \<Rightarrow> ptr \<Rightarrow> (unit res \<times> txn_table) option" where
  "txnt_remove_txn_expect ok h t tx = do {
     x \<leftarrow> heap_get h tx;
     node \<leftarrow> adptv_htable_lookup t (txn_node tx (tx_tid x)) (txn_equals_for_exists h);
     case node of
       None \<Rightarrow> None
     | Some node \<Rightarrow> do {
         (r, t) \<leftarrow> adptv_htable_delete ok False t node (txn_equals_for_exists h);
         Some ((case r of Inl e \<Rightarrow> Inl e | Inr _ \<Rightarrow> Inr ()), t) } }"

primrec txn_container_of :: "txn_ref \<Rightarrow> ptr option" where
  "txn_container_of (Tx p) = Some p"
| "txn_container_of (Key tid) = None"

definition txnt_get :: "txn heap \<Rightarrow> txn_table \<Rightarrow> txid \<Rightarrow> ptr option option" where
  "txnt_get h t tid = do {
     node \<leftarrow> adptv_htable_lookup t (txn_key_init tid) (txn_equals_for_exists h);
     case node of
       None \<Rightarrow> Some None
     | Some node \<Rightarrow> do { p \<leftarrow> txn_container_of (hval node); Some (Some p) } }"

definition txnt_get_expect :: "txn heap \<Rightarrow> txn_table \<Rightarrow> txid \<Rightarrow> ptr option" where
  "txnt_get_expect h t tid = do {
     node \<leftarrow> adptv_htable_lookup t (txn_key_init tid) (txn_equals_for_exists h);
     node \<leftarrow> node;
     txn_container_of (hval node) }"

definition hnode_foreach :: "(ptr \<Rightarrow> 's \<Rightarrow> 's option) \<Rightarrow> txn_ref hnode \<Rightarrow> 's \<Rightarrow> 's option" where
  "hnode_foreach action node ctx = do { p \<leftarrow> txn_container_of (hval node); action p ctx }"

definition txnt_foreach :: "txn_table \<Rightarrow> (ptr \<Rightarrow> 's \<Rightarrow> 's option) \<Rightarrow> 's \<Rightarrow> 's option" where
  "txnt_foreach t action ctx = adptv_htable_foreach t (hnode_foreach action) ctx"

definition txnt_get_size :: "txn_table \<Rightarrow> nat" where
  "txnt_get_size t = adptv_htable_size t"

text \<open>\<^verbatim>\<open>slsn\<close> is the signed 64-bit type: the comparison is the signed one.\<close>

definition find_max_undo :: "txn heap \<Rightarrow> ptr \<Rightarrow> u64 \<Rightarrow> u64 option" where
  "find_max_undo h tx ctx = do {
     x \<leftarrow> heap_get h tx;
     Some (if td_state (tx_data x) = TX_CANDIDATE_FOR_UNDO
           then if sint (td_undo_next_lsn (tx_data x)) > sint ctx then td_undo_next_lsn (tx_data x) else ctx
           else ctx) }"

definition txnt_max_u_undo_lsn :: "txn heap \<Rightarrow> txn_table \<Rightarrow> u64 option" where
  "txnt_max_u_undo_lsn h t = txnt_foreach t (find_max_undo h) (- 1)"

section \<open>Merging\<close>

text \<open>The destination buffer of the copies is always given in the program. The outcomes of the two
  allocations a step may make are a function of the number of steps made.\<close>

record merge_ctx =
  mc_err :: "err_t option"
  mc_heap :: "txn heap"
  mc_txns :: dbl_buffer
  mc_dest :: txn_table
  mc_step :: nat

definition merge_txn :: "(nat \<Rightarrow> nat option \<times> bool) \<Rightarrow> ptr \<Rightarrow> merge_ctx \<Rightarrow> merge_ctx option" where
  "merge_txn mem tx ctx =
     (if mc_err ctx \<noteq> None then Some ctx
      else do {
        x \<leftarrow> heap_get (mc_heap ctx) tx;
        ex \<leftarrow> txn_exists (mc_heap ctx) (mc_dest ctx) (tx_tid x);
        if ex then Some ctx
        else do {
          let (grow, ok) = mem (mc_step ctx);
          let ctx = ctx\<lparr>mc_step := mc_step ctx + 1\<rparr>;
          (target, h, d) \<leftarrow> dblb_append_alloc grow (mc_heap ctx) (mc_txns ctx) 1;
          case target of
            None \<Rightarrow> Some (ctx\<lparr>mc_err := Some ERR_NOMEM, mc_heap := h, mc_txns := d\<rparr>)
          | Some target \<Rightarrow> do {
              x \<leftarrow> heap_get h tx;
              h \<leftarrow> txn_init h target (tx_tid x) (tx_data x);
              (r, t) \<leftarrow> txnt_insert_txn ok h (mc_dest ctx) target;
              Some (ctx\<lparr>mc_err := (case r of Inl e \<Rightarrow> Some e | Inr _ \<Rightarrow> None),
                        mc_heap := h, mc_txns := d, mc_dest := t\<rparr>) } } })"

definition txnt_merge_into ::
  "(nat \<Rightarrow> nat option \<times> bool) \<Rightarrow> txn heap \<Rightarrow> txn_table \<Rightarrow> txn_table \<Rightarrow> dbl_buffer \<Rightarrow>
     (unit res \<times> txn heap \<times> txn_table \<times> dbl_buffer) option" where
  "txnt_merge_into mem h dest src txn_dest = do {
     ctx \<leftarrow> txnt_foreach src (merge_txn mem)
       \<lparr>mc_err = None, mc_heap = h, mc_txns = txn_dest, mc_dest = dest, mc_step = 0\<rparr>;
     Some ((case mc_err ctx of None \<Rightarrow> Inr () | Some e \<Rightarrow> Inl e), mc_heap ctx, mc_dest ctx, mc_txns ctx) }"

section \<open>Serialization\<close>

definition TXN_SERIAL_UNIT :: nat where
  "TXN_SERIAL_UNIT = 24"

definition hnode_foreach_serialize :: "txn heap \<Rightarrow> txn_ref hnode \<Rightarrow> serializer \<Rightarrow> serializer option" where
  "hnode_foreach_serialize h node s = do {
     p \<leftarrow> txn_container_of (hval node);
     tx \<leftarrow> heap_get h p;
     s \<leftarrow> srlizr_write_expect s (bytes64 (tx_tid tx));
     s \<leftarrow> srlizr_write_expect s (bytes64 (td_last_lsn (tx_data tx)));
     srlizr_write_expect s (bytes64 (td_undo_next_lsn (tx_data tx))) }"

definition txnt_get_serialize_size :: "txn_table \<Rightarrow> nat" where
  "txnt_get_serialize_size t = mul32 (adptv_htable_size t) TXN_SERIAL_UNIT"

definition txnt_serialize :: "txn heap \<Rightarrow> u8 list \<Rightarrow> nat \<Rightarrow> txn_table \<Rightarrow> (nat \<times> u8 list) option" where
  "txnt_serialize h dest dlen t = do {
     s \<leftarrow> adptv_htable_foreach t (hnode_foreach_serialize h) (srlizr_create dest dlen);
     Some (sr_dlen s, sr_data s) }"

text \<open>\<open>bank\<close> is the block of the array \<^verbatim>\<open>txn_bank\<close>, \<open>ok i\<close> the outcome of the allocation the i-th
  insertion may do.\<close>

primrec txnt_deserialize_loop ::
  "nat \<Rightarrow> nat \<Rightarrow> (nat \<Rightarrow> bool) \<Rightarrow> nat \<Rightarrow> txn heap \<Rightarrow> txn_table \<Rightarrow> deserializer \<Rightarrow>
     (unit res \<times> txn heap \<times> txn_table) option" where
  "txnt_deserialize_loop 0 i ok bank h dest d = Some (Inr (), h, dest)"
| "txnt_deserialize_loop (Suc n) i ok bank h dest d = do {
     (tid, d) \<leftarrow> dsrlizr_read_expect 8 d;
     (last_lsn, d) \<leftarrow> dsrlizr_read_expect 8 d;
     (undo_next_lsn, d) \<leftarrow> dsrlizr_read_expect 8 d;
     h \<leftarrow> txn_init h (bank, i) (word64 tid)
       \<lparr>td_state = TX_CANDIDATE_FOR_UNDO, td_last_lsn = word64 last_lsn, td_undo_next_lsn = word64 undo_next_lsn\<rparr>;
     (r, dest) \<leftarrow> txnt_insert_txn (ok i) h dest (bank, i);
     case r of
       Inl e \<Rightarrow> Some (Inl e, h, dest)
     | Inr _ \<Rightarrow> txnt_deserialize_loop n (i + 1) ok bank h dest d }"

definition txnt_deserialize ::
  "bool \<times> bool \<Rightarrow> (nat \<Rightarrow> bool) \<Rightarrow> txn heap \<Rightarrow> u8 list \<Rightarrow> nat \<Rightarrow> nat \<Rightarrow>
     (unit res \<times> txn heap \<times> txn_table option) option" where
  "txnt_deserialize open_ok ok h src bank slen = do {
     dest \<leftarrow> txnt_open open_ok;
     case dest of
       Inl e \<Rightarrow> Some (Inl e, h, None)
     | Inr dest \<Rightarrow>
         if slen = 0 then Some (Inr (), h, Some dest)
         else do {
           let d = dsrlizr_create src slen;
           ASSERT (slen mod TXN_SERIAL_UNIT = 0);
           let tlen = slen div TXN_SERIAL_UNIT;
           (r, h, dest) \<leftarrow> txnt_deserialize_loop tlen 0 ok bank h dest d;
           Some (r, h, Some dest) } }"

definition txnlen_from_serialized :: "nat \<Rightarrow> nat option" where
  "txnlen_from_serialized slen = do {
     ASSERT (slen mod TXN_SERIAL_UNIT = 0);
     Some (slen div TXN_SERIAL_UNIT) }"

section \<open>The table is a finite map\<close>

definition node_ok :: "txn heap \<Rightarrow> txn_ref hnode \<Rightarrow> bool" where
  "node_ok h x \<longleftrightarrow>
     (case txn_container_of (hval x) of
        None \<Rightarrow> False
      | Some p \<Rightarrow> (case heap_get h p of None \<Rightarrow> False | Some tx \<Rightarrow> x = txn_node p (tx_tid tx)))"

definition node_ptr :: "txn_ref hnode \<Rightarrow> ptr" where
  "node_ptr x = the (txn_container_of (hval x))"

definition node_tid :: "txn heap \<Rightarrow> txn_ref hnode \<Rightarrow> txid" where
  "node_tid h x = the (txn_ref_tid h (hval x))"

definition txnt_inv :: "txn heap \<Rightarrow> txn_table \<Rightarrow> bool" where
  "txnt_inv h t \<longleftrightarrow> ah_inv t \<and> (\<forall>x \<in> set (ah_list t). node_ok h x) \<and> distinct (map (node_tid h) (ah_list t))"

definition txnt_map :: "txn heap \<Rightarrow> txn_table \<Rightarrow> txid \<Rightarrow> ptr option" where
  "txnt_map h t = map_of (map (\<lambda>x. (node_tid h x, node_ptr x)) (ah_list t))"

definition txnt_data :: "txn heap \<Rightarrow> txn_table \<Rightarrow> txid \<Rightarrow> txn_data option" where
  "txnt_data h t k = map_option (\<lambda>p. tx_data (the (heap_get h p))) (txnt_map h t k)"

lemma hnode_init_fields [simp]: "hcode (hnode_init c v) = c" "hval (hnode_init c v) = v"
  by (simp_all add: hnode_init_def)

lemma node_okE:
  assumes "node_ok h x"
  obtains p tx where "heap_get h p = Some tx" "x = txn_node p (tx_tid tx)" "node_ptr x = p"
    "node_tid h x = tx_tid tx" "hval x = Tx p" "hcode x = ucast (tx_tid tx)"
  using assms
  by (auto simp: node_ok_def node_ptr_def node_tid_def txn_node_def split: option.splits)

lemma node_ok_new:
  "heap_get h p = Some tx \<Longrightarrow> node_ok h (txn_node p (tx_tid tx))"
  "heap_get h p = Some tx \<Longrightarrow> node_tid h (txn_node p tid) = tx_tid tx"
  "node_ptr (txn_node p tid) = p"
  by (simp_all add: node_ok_def txn_node_def node_ptr_def node_tid_def)

lemma set_ah_list: "x \<in> set (ah_list t) \<longleftrightarrow> x \<in># ah_nodes t"
  by (simp flip: mset_ah_list)

lemma txnt_invD:
  assumes "txnt_inv h t"
  shows "ah_inv t" "x \<in># ah_nodes t \<Longrightarrow> node_ok h x" "distinct (map (node_tid h) (ah_list t))"
  using assms by (auto simp: txnt_inv_def set_ah_list)

lemma txnt_map_iff:
  assumes "txnt_inv h t"
  shows "txnt_map h t k = Some p \<longleftrightarrow> (\<exists>x \<in># ah_nodes t. node_tid h x = k \<and> node_ptr x = p)"
proof -
  have "distinct (map fst (map (\<lambda>x. (node_tid h x, node_ptr x)) (ah_list t)))"
    using txnt_invD(3) [OF assms] by (simp add: o_def)
  from map_of_eq_Some_iff [OF this] show ?thesis
    by (auto simp: txnt_map_def set_ah_list)
qed

lemma txnt_map_None:
  assumes "txnt_inv h t"
  shows "txnt_map h t k = None \<longleftrightarrow> (\<forall>x \<in># ah_nodes t. node_tid h x \<noteq> k)"
  using txnt_map_iff [OF assms, of k] by (metis option.exhaust option.distinct(1))

lemma txnt_map_live:
  assumes "txnt_inv h t" "txnt_map h t k = Some p"
  shows "\<exists>tx. heap_get h p = Some tx \<and> tx_tid tx = k \<and> txn_node p k \<in># ah_nodes t"
proof -
  from assms obtain x where x: "x \<in># ah_nodes t" "node_tid h x = k" "node_ptr x = p"
    by (auto simp: txnt_map_iff)
  from node_okE [OF txnt_invD(2) [OF assms(1) x(1)]] x show ?thesis by metis
qed

lemma txnt_distinct_add:
  assumes "ah_nodes t' = add_mset x (ah_nodes t)"
  shows "distinct (map (node_tid h) (ah_list t')) \<longleftrightarrow>
    (\<forall>y \<in># ah_nodes t. node_tid h y \<noteq> node_tid h x) \<and> distinct (map (node_tid h) (ah_list t))"
proof -
  have "mset (map (node_tid h) (ah_list t')) = mset (map (node_tid h) (x # ah_list t))"
    using assms by (simp add: mset_ah_list)
  then have "distinct (map (node_tid h) (ah_list t')) = distinct (map (node_tid h) (x # ah_list t))"
    by (rule mset_eq_imp_distinct_iff)
  also have "\<dots> \<longleftrightarrow> node_tid h x \<notin> node_tid h ` set (ah_list t) \<and> distinct (map (node_tid h) (ah_list t))"
    by simp
  also have "node_tid h x \<notin> node_tid h ` set (ah_list t) \<longleftrightarrow> (\<forall>y \<in># ah_nodes t. node_tid h y \<noteq> node_tid h x)"
    unfolding image_iff Ball_def Bex_def set_ah_list by metis
  finally show ?thesis .
qed

lemma txnt_inv_add:
  assumes "txnt_inv h t" "ah_inv t'" "ah_nodes t' = add_mset (txn_node p (tx_tid tx)) (ah_nodes t)"
    "heap_get h p = Some tx" "txnt_map h t (tx_tid tx) = None"
  shows "txnt_inv h t' \<and> txnt_map h t' = (txnt_map h t)(tx_tid tx \<mapsto> p)"
proof -
  let ?x = "txn_node p (tx_tid tx)"
  note new = node_ok_new(1,2) [OF assms(4)] node_ok_new(3)
  have "\<forall>y \<in># ah_nodes t. node_tid h y \<noteq> node_tid h ?x"
    using assms(5) new by (simp add: txnt_map_None [OF assms(1)])
  then have inv: "txnt_inv h t'"
    using assms(2,3) new txnt_invD [OF assms(1)]
    by (auto simp: txnt_inv_def set_ah_list txnt_distinct_add [OF assms(3)])
  moreover have "txnt_map h t' = (txnt_map h t)(tx_tid tx \<mapsto> p)"
  proof
    fix k
    have "txnt_map h t' k = Some q \<longleftrightarrow> ((txnt_map h t)(tx_tid tx \<mapsto> p)) k = Some q" for q
      using assms(3) new txnt_map_None [OF assms(1), THEN iffD1, OF assms(5)]
      by (auto simp: txnt_map_iff [OF inv] txnt_map_iff [OF assms(1)])
    then show "txnt_map h t' k = ((txnt_map h t)(tx_tid tx \<mapsto> p)) k"
      by (metis option.exhaust)
  qed
  ultimately show ?thesis ..
qed

lemma txnt_inv_remove:
  assumes "txnt_inv h t" "ah_inv t'" "ah_nodes t = add_mset x (ah_nodes t')"
  shows "txnt_inv h t' \<and> txnt_map h t' = (txnt_map h t)(node_tid h x := None)"
proof -
  have D: "\<forall>y \<in># ah_nodes t'. node_tid h y \<noteq> node_tid h x" "distinct (map (node_tid h) (ah_list t'))"
    using txnt_distinct_add [OF assms(3), of h] txnt_invD(3) [OF assms(1)] by simp_all
  have inv: "txnt_inv h t'"
    using assms(2,3) D(2) txnt_invD(2) [OF assms(1)] by (auto simp: txnt_inv_def set_ah_list)
  moreover have "txnt_map h t' = (txnt_map h t)(node_tid h x := None)"
  proof
    fix k
    have "txnt_map h t' k = Some q \<longleftrightarrow> ((txnt_map h t)(node_tid h x := None)) k = Some q" for q
      using assms(3) D(1) by (auto simp: txnt_map_iff [OF inv] txnt_map_iff [OF assms(1)])
    then show "txnt_map h t' k = ((txnt_map h t)(node_tid h x := None)) k"
      by (metis option.exhaust)
  qed
  ultimately show ?thesis ..
qed

text \<open>A key, on the stack or in the heap, matches the nodes with its identifier.\<close>

lemma txn_match:
  assumes "node_ok h x" "txn_ref_tid h r = Some k"
  shows "node_eq (txn_equals_for_exists h) (hnode_init (ucast k) r) x = Some (node_tid h x = k)"
  using assms by (auto simp: node_eq_def txn_equals_for_exists_def elim!: node_okE)

lemma txn_total:
  assumes "txnt_inv h t" "txn_ref_tid h r = Some k"
  shows "ht_total (hnode_init (ucast k) r) (txn_equals_for_exists h) (ah_nodes t)"
  using assms by (auto simp: ht_total_def txn_match txnt_invD(2))

lemma txn_lookup:
  assumes inv: "txnt_inv h t" and r: "txn_ref_tid h r = Some k"
  shows "adptv_htable_lookup t (hnode_init (ucast k) r) (txn_equals_for_exists h)
    = Some (map_option (\<lambda>p. txn_node p k) (txnt_map h t k))"
  using adptv_lookup_correct [OF txnt_invD(1) [OF inv] txn_total [OF inv r]]
proof (elim disjE exE conjE)
  assume "adptv_htable_lookup t (hnode_init (ucast k) r) (txn_equals_for_exists h) = Some None"
    "\<forall>x \<in># ah_nodes t. \<not> ht_match (hnode_init (ucast k) r) (txn_equals_for_exists h) x"
  moreover from this(2) have "txnt_map h t k = None"
    by (auto simp: txnt_map_None [OF inv] ht_match_def txn_match [OF txnt_invD(2) [OF inv] r])
  ultimately show ?thesis by simp
next
  fix x assume x: "adptv_htable_lookup t (hnode_init (ucast k) r) (txn_equals_for_exists h) = Some (Some x)"
    "x \<in># ah_nodes t" "ht_match (hnode_init (ucast k) r) (txn_equals_for_exists h) x"
  then have "node_tid h x = k" by (simp add: ht_match_def txn_match [OF txnt_invD(2) [OF inv x(2)] r])
  moreover from this x(2) have "txnt_map h t k = Some (node_ptr x)"
    by (auto simp: txnt_map_iff [OF inv])
  moreover have "x = txn_node (node_ptr x) (node_tid h x)"
    using txnt_invD(2) [OF inv x(2)] by (auto elim!: node_okE)
  ultimately show ?thesis using x(1) by auto
qed

lemma txn_exists_correct: "txnt_inv h t \<Longrightarrow> txn_exists h t tid = Some (txnt_map h t tid \<noteq> None)"
  by (simp add: txn_exists_def txn_key_init_def txn_lookup)

lemma txnt_get_correct: "txnt_inv h t \<Longrightarrow> txnt_get h t tid = Some (txnt_map h t tid)"
  by (cases "txnt_map h t tid") (simp_all add: txnt_get_def txn_key_init_def txn_lookup, simp add: txn_node_def)

lemma txnt_get_expect_correct: "txnt_inv h t \<Longrightarrow> txnt_get_expect h t tid = txnt_map h t tid"
  by (cases "txnt_map h t tid") (simp_all add: txnt_get_expect_def txn_key_init_def txn_lookup, simp add: txn_node_def)

text \<open>The result of an operation that may allocate: the change, or the error and the table as it was.\<close>

definition txnt_step :: "bool \<Rightarrow> txn heap \<Rightarrow> txn_table \<Rightarrow> (txid \<Rightarrow> ptr option) \<Rightarrow> unit res \<Rightarrow> txn_table \<Rightarrow> bool" where
  "txnt_step ok h t m r t' \<longleftrightarrow> txnt_inv h t' \<and>
     (r = Inr () \<and> txnt_map h t' = m \<or> r = Inl ERR_NOMEM \<and> \<not> ok \<and> txnt_map h t' = txnt_map h t)"

lemma txnt_same_nodes:
  assumes "txnt_inv h t" "ah_inv t'" "ah_nodes t' = ah_nodes t"
  shows "txnt_inv h t' \<and> txnt_map h t' = txnt_map h t"
proof -
  have "mset (map (node_tid h) (ah_list t')) = mset (map (node_tid h) (ah_list t))"
    using assms(3) by (simp add: mset_ah_list)
  then have "distinct (map (node_tid h) (ah_list t'))"
    using mset_eq_imp_distinct_iff txnt_invD(3) [OF assms(1)] by blast
  then have inv: "txnt_inv h t'"
    using assms(2,3) txnt_invD(2) [OF assms(1)] by (simp add: txnt_inv_def set_ah_list)
  have "txnt_map h t' k = Some q \<longleftrightarrow> txnt_map h t k = Some q" for k q
    using assms(3) by (auto simp: txnt_map_iff [OF inv] txnt_map_iff [OF assms(1)])
  then have "txnt_map h t' k = txnt_map h t k" for k by (metis option.exhaust)
  with inv show ?thesis by auto
qed

lemma txnt_insert_correct:
  assumes inv: "txnt_inv h t" and tx: "heap_get h p = Some tx"
    and small: "size (ah_nodes t) + 1 < 4294967295"
    and new: "txnt_map h t (tx_tid tx) = None"
  shows "\<exists>r t'. txnt_insert_txn ok h t p = Some (r, t') \<and>
    txnt_step ok h t ((txnt_map h t)(tx_tid tx \<mapsto> p)) r t' \<and> size (ah_nodes t') \<le> size (ah_nodes t) + 1"
proof -
  note I = txnt_invD(1) [OF inv]
  from adptv_insert_correct [OF I small, of ok "txn_node p (tx_tid tx)"] obtain r t' where
    A: "adptv_htable_insert ok t (txn_node p (tx_tid tx)) = Some (r, t')" "ah_inv t'"
      "r = Inr () \<and> ah_nodes t' = add_mset (txn_node p (tx_tid tx)) (ah_nodes t) \<or>
       r = Inl ERR_NOMEM \<and> \<not> ok \<and> ah_nodes t' = ah_nodes t" by blast
  have "txnt_insert_txn ok h t p = Some (r, t')"
    using A(1) tx new by (simp add: txnt_insert_txn_def txn_exists_correct [OF inv])
  moreover have "txnt_step ok h t ((txnt_map h t)(tx_tid tx \<mapsto> p)) r t'"
    using A(3) txnt_inv_add [OF inv A(2) _ tx new] txnt_same_nodes [OF inv A(2)]
    by (auto simp: txnt_step_def)
  ultimately show ?thesis using A(3) by auto
qed

lemma txnt_remove_found:
  assumes inv: "txnt_inv h t" and small: "size (ah_nodes t) < 4294967295"
    and p: "txnt_map h t k = Some p"
  shows "\<exists>r t'. adptv_htable_delete ok False t (txn_node p k) (txn_equals_for_exists h) = Some (r, t') \<and>
    txnt_step ok h t ((txnt_map h t)(k := None)) (case r of Inl e \<Rightarrow> Inl e | Inr _ \<Rightarrow> Inr ()) t'"
proof -
  let ?eq = "txn_equals_for_exists h"
  note I = txnt_invD(1) [OF inv]
  from txnt_map_live [OF inv p] obtain tx where
    tx: "heap_get h p = Some tx" "tx_tid tx = k" "txn_node p k \<in># ah_nodes t" by blast
  have r: "txn_ref_tid h (Tx p) = Some k" using tx by simp
  note m = txn_match [OF _ r, folded txn_node_def]
  have total: "ht_total (txn_node p k) ?eq (ah_nodes t)"
    unfolding txn_node_def by (rule txn_total [OF inv r])
  have "ht_match (txn_node p k) ?eq (txn_node p k)"
    using node_ok_new(1,2) [OF tx(1)] tx(2) by (simp add: ht_match_def m)
  with tx(3) have found: "\<exists>x \<in># ah_nodes t. ht_match (txn_node p k) ?eq x" by blast
  from adptv_delete_correct [OF I small total found, of ok False] obtain r t' where
    A: "adptv_htable_delete ok False t (txn_node p k) ?eq = Some (r, t')" "ah_inv t'"
      "(\<exists>x. r = Inr (Some x) \<and> ht_match (txn_node p k) ?eq x \<and> ah_nodes t = add_mset x (ah_nodes t')) \<or>
       r = Inl ERR_NOMEM \<and> \<not> ok \<and> ah_nodes t' = ah_nodes t" by blast
  from A(3) have "txnt_step ok h t ((txnt_map h t)(k := None)) (case r of Inl e \<Rightarrow> Inl e | Inr _ \<Rightarrow> Inr ()) t'"
  proof (elim disjE exE conjE)
    fix x assume x: "r = Inr (Some x)" "ht_match (txn_node p k) ?eq x" "ah_nodes t = add_mset x (ah_nodes t')"
    then have "node_tid h x = k"
      using m [OF txnt_invD(2) [OF inv, of x]] by (simp add: ht_match_def)
    with txnt_inv_remove [OF inv A(2) x(3)] x(1) show ?thesis by (simp add: txnt_step_def)
  qed (use txnt_same_nodes [OF inv A(2)] in \<open>simp add: txnt_step_def\<close>)
  with A(1) show ?thesis by blast
qed

section \<open>Greatest undo position\<close>

text \<open>\<open>candidates\<close> are the undo positions of the transactions that restart still has to roll back.\<close>

definition candidates :: "txn heap \<Rightarrow> txn_table \<Rightarrow> int set" where
  "candidates h t = {sint (td_undo_next_lsn d) | d k. txnt_data h t k = Some d \<and> td_state d = TX_CANDIDATE_FOR_UNDO}"

definition undo_of :: "txn heap \<Rightarrow> txn_ref hnode \<Rightarrow> int set" where
  "undo_of h x = (case heap_get h (node_ptr x) of
     None \<Rightarrow> {}
   | Some tx \<Rightarrow> if td_state (tx_data tx) = TX_CANDIDATE_FOR_UNDO then {sint (td_undo_next_lsn (tx_data tx))} else {})"

lemma Max_insert_Max:
  assumes "finite A" "finite B"
  shows "Max (insert (Max (insert a A)) B) = Max (insert a (A \<union> B))"
proof (cases "B = {}")
  case False
  have "Max (insert a A \<union> B) = max (Max (insert a A)) (Max B)" using assms False by (intro Max_Un) auto
  with assms False show ?thesis by simp
qed (use assms in simp)

lemma find_max_visit:
  "\<forall>x \<in> set xs. node_ok h x \<Longrightarrow>
   \<exists>m'. visit (hnode_foreach (find_max_undo h)) xs m = Some m' \<and>
     sint m' = Max (insert (sint m) (\<Union> (undo_of h ` set xs)))"
proof (induction xs arbitrary: m)
  case Nil
  then show ?case by simp
next
  case (Cons x xs)
  from Cons.prems have "node_ok h x" by simp
  then obtain p tx where tx: "heap_get h p = Some tx" "node_ptr x = p" "hval x = Tx p" by (elim node_okE) blast
  obtain m1 where m1: "hnode_foreach (find_max_undo h) x m = Some m1" "sint m1 = Max (insert (sint m) (undo_of h x))"
    using tx by (simp add: hnode_foreach_def find_max_undo_def undo_of_def max_def)
  have fin: "finite (undo_of h x)" "finite (\<Union> (undo_of h ` set xs))"
    by (auto simp: undo_of_def split: option.split)
  from Cons.IH [of m1] Cons.prems obtain m' where
    m': "visit (hnode_foreach (find_max_undo h)) xs m1 = Some m'"
      "sint m' = Max (insert (sint m1) (\<Union> (undo_of h ` set xs)))" by auto
  have "sint m' = Max (insert (sint m) (undo_of h x \<union> \<Union> (undo_of h ` set xs)))"
    unfolding m'(2) m1(2) using fin by (rule Max_insert_Max)
  with m1(1) m'(1) show ?case by simp
qed

lemma txnt_data_iff:
  assumes "txnt_inv h t"
  shows "txnt_data h t k = Some d \<longleftrightarrow>
    (\<exists>x \<in># ah_nodes t. \<exists>tx. heap_get h (node_ptr x) = Some tx \<and> tx_tid tx = k \<and> tx_data tx = d)"
proof
  assume "txnt_data h t k = Some d"
  then obtain p where p: "txnt_map h t k = Some p" "d = tx_data (the (heap_get h p))"
    by (auto simp: txnt_data_def)
  from txnt_map_live [OF assms p(1)] p(2)
  show "\<exists>x \<in># ah_nodes t. \<exists>tx. heap_get h (node_ptr x) = Some tx \<and> tx_tid tx = k \<and> tx_data tx = d"
    by (metis node_ok_new(3) option.sel)
next
  assume "\<exists>x \<in># ah_nodes t. \<exists>tx. heap_get h (node_ptr x) = Some tx \<and> tx_tid tx = k \<and> tx_data tx = d"
  then obtain x tx where x: "x \<in># ah_nodes t" "heap_get h (node_ptr x) = Some tx" "tx_tid tx = k" "tx_data tx = d"
    by blast
  from txnt_invD(2) [OF assms x(1)] x(2) have "node_tid h x = tx_tid tx" by (auto elim!: node_okE)
  with x have "txnt_map h t k = Some (node_ptr x)" by (auto simp: txnt_map_iff [OF assms])
  with x show "txnt_data h t k = Some d" by (simp add: txnt_data_def)
qed

lemma candidates_nodes:
  assumes "txnt_inv h t"
  shows "candidates h t = \<Union> (undo_of h ` set (ah_list t))"
proof -
  have "v \<in> candidates h t \<longleftrightarrow> (\<exists>x \<in># ah_nodes t. v \<in> undo_of h x)" for v
    unfolding candidates_def txnt_data_iff [OF assms] undo_of_def
    by (fastforce split: option.splits if_splits)
  then show ?thesis unfolding set_eq_iff UN_iff set_ah_list Bex_def by blast
qed

lemma txnt_max_u_undo_lsn_correct:
  assumes "txnt_inv h t"
  shows "\<exists>m. txnt_max_u_undo_lsn h t = Some m \<and> sint m = Max (insert (- 1) (candidates h t))"
proof -
  have "\<forall>x \<in> set (ah_list t). node_ok h x" using assms by (simp add: txnt_inv_def)
  from find_max_visit [OF this, of "- 1"] show ?thesis
    by (simp add: txnt_max_u_undo_lsn_def txnt_foreach_def adptv_foreach_visit candidates_nodes [OF assms])
qed

section \<open>Serialization keeps the table\<close>

definition txn_rec :: "txn \<Rightarrow> u8 list list" where
  "txn_rec tx = [bytes64 (tx_tid tx), bytes64 (td_last_lsn (tx_data tx)), bytes64 (td_undo_next_lsn (tx_data tx))]"

definition node_txn :: "txn heap \<Rightarrow> txn_ref hnode \<Rightarrow> txn" where
  "node_txn h x = the (heap_get h (node_ptr x))"

definition as_candidate :: "txn_data \<Rightarrow> txn_data" where
  "as_candidate d = d\<lparr>td_state := TX_CANDIDATE_FOR_UNDO\<rparr>"

lemma length_txn_rec [simp]: "length (concat (txn_rec tx)) = 24"
  by (simp add: txn_rec_def)

lemma length_txn_recs [simp]: "length (concat (map (\<lambda>x. concat (txn_rec (f x))) xs)) = 24 * length xs"
  by (induction xs) simp_all

lemma serialize_node:
  assumes "node_ok h x"
  shows "hnode_foreach_serialize h x s = srlizr_write_all s (txn_rec (node_txn h x))"
  using assms
  by (auto elim!: node_okE simp: hnode_foreach_serialize_def txn_rec_def node_txn_def split: bind_splits)

lemma serialize_visit:
  "\<forall>x \<in> set xs. node_ok h x \<Longrightarrow> sr_wf s \<Longrightarrow> 24 * length xs \<le> sr_room s \<Longrightarrow>
   \<exists>s'. visit (hnode_foreach_serialize h) xs s = Some s' \<and> sr_wf s' \<and>
     sr_out s' = sr_out s @ concat (map (\<lambda>x. concat (txn_rec (node_txn h x))) xs)"
proof (induction xs arbitrary: s)
  case Nil
  then show ?case by simp
next
  case (Cons x xs)
  from srlizr_write_all_correct [OF Cons.prems(2), of "txn_rec (node_txn h x)"] Cons.prems(3) obtain s1 where
    s1: "srlizr_write_all s (txn_rec (node_txn h x)) = Some s1" "sr_wf s1"
      "sr_out s1 = sr_out s @ concat (txn_rec (node_txn h x))" "sr_room s1 = sr_room s - 24"
    by auto
  have "24 * length xs \<le> sr_room s1" using Cons.prems(3) s1(4) by simp
  from Cons.IH [OF _ s1(2) this] Cons.prems(1) s1 show ?case by (auto simp: serialize_node)
qed

lemma txnt_size:
  assumes "ah_inv t" "size (ah_nodes t) < 4294967295"
  shows "adptv_htable_size t = size (ah_nodes t)"
proof -
  note D = htable_invD(2) [OF ah_invD(1) [OF assms(1)]] htable_invD(2) [OF ah_invD(2) [OF assms(1)]]
  have "size (ht_nodes (ah_current t)) + size (ht_nodes (ah_prev t)) < 4294967296"
    using assms(2) by (simp add: ah_nodes_def)
  with D show ?thesis by (simp add: adptv_htable_size_def ah_nodes_def wrap32)
qed

text \<open>The table does not depend on the heap outside of its transactions.\<close>

lemma txnt_frame:
  assumes inv: "txnt_inv h t" and eq: "\<And>k p. txnt_map h t k = Some p \<Longrightarrow> heap_get h' p = heap_get h p"
  shows "txnt_inv h' t \<and> txnt_map h' t = txnt_map h t \<and> txnt_data h' t = txnt_data h t"
proof -
  have same: "node_ok h' x \<and> node_tid h' x = node_tid h x" if x: "x \<in> set (ah_list t)" for x
  proof -
    have ok: "node_ok h x" using inv x by (simp add: txnt_inv_def)
    then obtain p tx where p: "heap_get h p = Some tx" "x = txn_node p (tx_tid tx)" "node_tid h x = tx_tid tx"
      by (elim node_okE) blast
    have "txnt_map h t (tx_tid tx) = Some p"
      using x p by (auto simp: txnt_map_iff [OF inv] set_ah_list node_ok_new(3))
    with eq p(1) have "heap_get h' p = Some tx" by metis
    with p show ?thesis using node_ok_new(1,2) [of h' p tx] by simp
  qed
  have m: "map (node_tid h') (ah_list t) = map (node_tid h) (ah_list t)" using same by simp
  have "txnt_inv h' t" using inv same unfolding txnt_inv_def m by simp
  moreover have "txnt_map h' t = txnt_map h t"
    unfolding txnt_map_def using same by (intro arg_cong [where f = map_of]) simp
  ultimately show ?thesis using eq by (auto simp: txnt_data_def fun_eq_iff map_option_case split: option.split)
qed

lemma txnt_data_upd:
  "txnt_map h t' = (txnt_map h t)(k \<mapsto> p) \<Longrightarrow>
   txnt_data h t' = (txnt_data h t)(k \<mapsto> tx_data (the (heap_get h p)))"
  by (simp add: txnt_data_def fun_eq_iff)

lemma deserialize_loop_correct:
  assumes "ds_wf d" "ds_rest d = concat (map (\<lambda>x. concat (txn_rec x)) ts)" "txnt_inv h t"
    "\<And>k p. txnt_map h t k = Some p \<Longrightarrow> fst p = bank \<longrightarrow> snd p < i"
    "h bank = Some blk" "i + length ts \<le> length blk"
    "distinct (map tx_tid ts)" "\<And>x. x \<in> set ts \<Longrightarrow> txnt_map h t (tx_tid x) = None"
    "size (ah_nodes t) + length ts + 1 < 4294967295"
  shows "\<exists>h' t'. txnt_deserialize_loop (length ts) i (\<lambda>_. True) bank h t d = Some (Inr (), h', t') \<and>
    txnt_inv h' t' \<and>
    txnt_data h' t' = txnt_data h t ++ map_of (map (\<lambda>x. (tx_tid x, as_candidate (tx_data x))) ts)"
  using assms
proof (induction ts arbitrary: d h t i blk)
  case Nil
  then show ?case by simp
next
  case (Cons x ts)
  define y where "y = x\<lparr>tx_data := as_candidate (tx_data x)\<rparr>"
  let ?p = "(bank, i)"
  let ?h = "h(bank \<mapsto> blk[i := Some y])"
  have i: "i < length blk" using Cons.prems(6) by simp
  have put: "heap_put h ?p y = Some ?h" using Cons.prems(5) i by (rule heap_put_Some)
  have get: "heap_get ?h ?p = Some y" using heap_get_put [OF put, of ?p] by simp
  have rd: "\<exists>d'. dsrlizr_read_expect 8 d = Some (bytes64 w, d') \<and> ds_wf d' \<and> ds_rest d' = rest"
    if "ds_wf d" "ds_rest d = bytes64 w @ rest" for d w rest
    using dsrlizr_read_expect_correct [OF that(1), of 8] that(2) by simp
  have "ds_rest d = bytes64 (tx_tid x) @ bytes64 (td_last_lsn (tx_data x)) @
      bytes64 (td_undo_next_lsn (tx_data x)) @ concat (map (\<lambda>x. concat (txn_rec x)) ts)"
    using Cons.prems(2) by (simp add: txn_rec_def)
  from rd [OF Cons.prems(1) this] obtain d1 where
    d1: "dsrlizr_read_expect 8 d = Some (bytes64 (tx_tid x), d1)" "ds_wf d1"
      "ds_rest d1 = bytes64 (td_last_lsn (tx_data x)) @ bytes64 (td_undo_next_lsn (tx_data x)) @
        concat (map (\<lambda>x. concat (txn_rec x)) ts)" by blast
  from rd [OF d1(2,3)] obtain d2 where
    d2: "dsrlizr_read_expect 8 d1 = Some (bytes64 (td_last_lsn (tx_data x)), d2)" "ds_wf d2"
      "ds_rest d2 = bytes64 (td_undo_next_lsn (tx_data x)) @ concat (map (\<lambda>x. concat (txn_rec x)) ts)" by blast
  from rd [OF d2(2,3)] obtain d3 where
    d3: "dsrlizr_read_expect 8 d2 = Some (bytes64 (td_undo_next_lsn (tx_data x)), d3)" "ds_wf d3"
      "ds_rest d3 = concat (map (\<lambda>x. concat (txn_rec x)) ts)" by blast
  have fr: "txnt_inv ?h t" "txnt_map ?h t = txnt_map h t" "txnt_data ?h t = txnt_data h t"
    using txnt_frame [OF Cons.prems(3), of ?h] Cons.prems(4) heap_get_put [OF put]
    by (metis fst_conv snd_conv less_irrefl)+
  have yt: "tx_tid y = tx_tid x" by (simp add: y_def)
  have new: "txnt_map ?h t (tx_tid y) = None" using Cons.prems(8) [of x] by (simp add: fr(2) yt)
  have sz: "size (ah_nodes t) + 1 < 4294967295" using Cons.prems(9) by simp
  from txnt_insert_correct [OF fr(1) get sz new, of True] obtain r t1 where
    t1: "txnt_insert_txn True ?h t ?p = Some (r, t1)" "txnt_step True ?h t ((txnt_map ?h t)(tx_tid y \<mapsto> ?p)) r t1"
      "size (ah_nodes t1) \<le> size (ah_nodes t) + 1" by blast
  from t1(2) have t1': "r = Inr ()" "txnt_inv ?h t1" "txnt_map ?h t1 = (txnt_map h t)(tx_tid x \<mapsto> ?p)"
    by (auto simp: txnt_step_def fr(2) yt)
  have data1: "txnt_data ?h t1 = (txnt_data h t)(tx_tid x \<mapsto> as_candidate (tx_data x))"
    using txnt_data_upd [OF t1'(3) [folded fr(2)]] get by (simp add: fr(3)) (simp add: y_def)
  have "\<exists>h' t'. txnt_deserialize_loop (length ts) (i + 1) (\<lambda>_. True) bank ?h t1 d3 = Some (Inr (), h', t') \<and>
    txnt_inv h' t' \<and>
    txnt_data h' t' = txnt_data ?h t1 ++ map_of (map (\<lambda>x. (tx_tid x, as_candidate (tx_data x))) ts)"
  proof (rule Cons.IH [OF d3(2,3) t1'(2), of "i + 1" "blk[i := Some y]"])
    fix k p assume "txnt_map ?h t1 k = Some p"
    then show "fst p = bank \<longrightarrow> snd p < i + 1"
      using Cons.prems(4) [of k p] by (auto simp: t1'(3) split: if_splits)
  next
    fix z assume z: "z \<in> set ts"
    have "tx_tid x \<notin> tx_tid ` set ts" using Cons.prems(7) by simp
    with imageI [OF z, of tx_tid] have "tx_tid z \<noteq> tx_tid x" by metis
    then show "txnt_map ?h t1 (tx_tid z) = None" using Cons.prems(8) [of z] z by (simp add: t1'(3))
  qed (use Cons.prems t1(3) in auto)
  moreover have "txn_init h ?p (tx_tid x)
      \<lparr>td_state = TX_CANDIDATE_FOR_UNDO, td_last_lsn = td_last_lsn (tx_data x),
       td_undo_next_lsn = td_undo_next_lsn (tx_data x)\<rparr> = Some ?h"
  proof -
    have "\<lparr>tx_tid = tx_tid x, tx_data = \<lparr>td_state = TX_CANDIDATE_FOR_UNDO, td_last_lsn = td_last_lsn (tx_data x),
       td_undo_next_lsn = td_undo_next_lsn (tx_data x)\<rparr>\<rparr> = y"
      by (cases x; cases "tx_data x") (simp add: y_def as_candidate_def)
    with put show ?thesis by (simp add: txn_init_def)
  qed
  moreover have "(txnt_data h t)(tx_tid x \<mapsto> as_candidate (tx_data x)) ++
      map_of (map (\<lambda>x. (tx_tid x, as_candidate (tx_data x))) ts)
    = txnt_data h t ++ map_of (map (\<lambda>x. (tx_tid x, as_candidate (tx_data x))) (x # ts))"
  proof -
    have "map_of (map (\<lambda>x. (tx_tid x, as_candidate (tx_data x))) ts) (tx_tid x) = None"
      using Cons.prems(7) by (auto simp: map_of_eq_None_iff)
    then show ?thesis by (auto simp: map_add_def fun_eq_iff split: option.split)
  qed
  ultimately show ?case
    using d1(1) d2(1) d3(1) t1(1) t1'(1) by (simp add: data1 del: list.map map_of.simps) 
qed

lemma txnt_open_correct:
  "\<exists>t. txnt_open (True, True) = Some (Inr t) \<and> txnt_inv h t \<and> txnt_map h t = Map.empty \<and> ah_nodes t = {#}"
proof -
  let ?s = "\<lparr>max_load_factor = 8, min_load_factor = 1, rehashing_work = 28, max_size = 2048, min_size = 10\<rparr>"
  have "settings_ok ?s" by (simp add: settings_ok_def)
  from adptv_init_correct [OF this] obtain t :: txn_table where
    t: "adptv_htable_init (True, True) ?s = Some (Inr t)" "ah_inv t" "ah_nodes t = {#}" by blast
  have "ah_list t = []" using t(3) by (metis mset_ah_list mset_zero_iff)
  with t show ?thesis
    by (intro exI [of _ t]) (simp add: txnt_open_def txnt_inv_def txnt_map_def)
qed

lemma node_txns:
  assumes "txnt_inv h t"
  shows "map (node_tid h) (ah_list t) = map tx_tid (map (node_txn h) (ah_list t))"
    "txnt_data h t k = map_of (map (\<lambda>x. (tx_tid x, tx_data x)) (map (node_txn h) (ah_list t))) k"
proof -
  have ok: "node_tid h x = tx_tid (node_txn h x)" if "x \<in> set (ah_list t)" for x
  proof -
    have "node_ok h x" using assms that by (simp add: txnt_inv_def)
    then show ?thesis by (elim node_okE) (simp add: node_txn_def)
  qed
  then show "map (node_tid h) (ah_list t) = map tx_tid (map (node_txn h) (ah_list t))" by simp
  have "map_option (\<lambda>p. tx_data (the (heap_get h p))) (map_of (map (\<lambda>x. (node_tid h x, node_ptr x)) xs) k)
      = map_of (map (\<lambda>x. (tx_tid x, tx_data x)) (map (node_txn h) xs)) k"
    if "set xs \<subseteq> set (ah_list t)" for xs
    using that by (induction xs) (auto simp: ok node_txn_def)
  then show "txnt_data h t k = map_of (map (\<lambda>x. (tx_tid x, tx_data x)) (map (node_txn h) (ah_list t))) k"
    by (simp add: txnt_data_def txnt_map_def)
qed

lemma txnt_serialize_correct:
  assumes inv: "txnt_inv h t" and buf: "24 * size (ah_nodes t) \<le> length buf" "length buf < 2147483648"
  shows "\<exists>buf'. txnt_serialize h buf (length buf) t = Some (24 * size (ah_nodes t), buf') \<and>
    24 * size (ah_nodes t) \<le> length buf' \<and>
    take (24 * size (ah_nodes t)) buf' = concat (map (\<lambda>x. concat (txn_rec x)) (map (node_txn h) (ah_list t)))"
proof (cases "ah_list t = []")
  case True
  then have "size (ah_nodes t) = 0" by (simp flip: mset_ah_list)
  with True show ?thesis by (simp add: txnt_serialize_def adptv_foreach_visit srlizr_create_def)
next
  case False
  have n: "size (ah_nodes t) = length (ah_list t)" by (simp flip: mset_ah_list)
  with False have "0 < size (ah_nodes t)" by simp
  then have "0 < length buf" using buf(1) by linarith
  moreover have "\<forall>x \<in> set (ah_list t). node_ok h x" using inv by (simp add: txnt_inv_def)
  ultimately obtain s where
    s: "visit (hnode_foreach_serialize h) (ah_list t) (srlizr_create buf (length buf)) = Some s" "sr_wf s"
      "sr_out s = concat (map (\<lambda>x. concat (txn_rec (node_txn h x))) (ah_list t))"
    using serialize_visit [of "ah_list t" h "srlizr_create buf (length buf)"] buf n by auto
  have "length (sr_out s) = 24 * length (ah_list t)" by (simp add: s(3))
  moreover have "length (sr_out s) = sr_dlen s" "sr_dlen s \<le> length (sr_data s)"
    using s(2) by (simp_all add: sr_out_def sr_wf_def)
  ultimately show ?thesis using s n
    by (simp add: txnt_serialize_def adptv_foreach_visit sr_out_def o_def)
qed

lemma txnt_deserialize_correct:
  assumes src: "take (24 * length ts) src = concat (map (\<lambda>x. concat (txn_rec x)) ts)"
    "24 * length ts \<le> length src" "24 * length ts < 2147483648"
    and bank: "h bank = Some blk" "length ts \<le> length blk" and d: "distinct (map tx_tid ts)"
  shows "\<exists>h' t'. txnt_deserialize (True, True) (\<lambda>_. True) h src bank (24 * length ts) = Some (Inr (), h', Some t') \<and>
    txnt_inv h' t' \<and> txnt_data h' t' = map_of (map (\<lambda>x. (tx_tid x, as_candidate (tx_data x))) ts)"
proof -
  from txnt_open_correct [of h] obtain t where
    t: "txnt_open (True, True) = Some (Inr t)" "txnt_inv h t" "txnt_map h t = Map.empty" "ah_nodes t = {#}" by blast
  have e: "txnt_data h t = Map.empty" by (simp add: txnt_data_def t(3) fun_eq_iff)
  show ?thesis
  proof (cases "ts = []")
    case True
    with t e show ?thesis by (simp add: txnt_deserialize_def)
  next
    case False
    define n where "n = 24 * length ts"
    have len: "0 < n" "n \<le> length src" "n < 2147483648" using False src by (simp_all add: n_def)
    have "\<exists>h' t'. txnt_deserialize_loop (length ts) 0 (\<lambda>_. True) bank h t (dsrlizr_create src n) = Some (Inr (), h', t') \<and>
      txnt_inv h' t' \<and>
      txnt_data h' t' = txnt_data h t ++ map_of (map (\<lambda>x. (tx_tid x, as_candidate (tx_data x))) ts)"
      using bank d t(2-4) len src(1,3)
      by (intro deserialize_loop_correct [where blk = blk]) (simp_all add: n_def)
    then show ?thesis using t(1) False len
      by (auto simp: txnt_deserialize_def TXN_SERIAL_UNIT_def e n_def [symmetric])
        (simp_all add: n_def)
  qed
qed

lemma map_of_as_candidate:
  "map_of (map (\<lambda>x. (tx_tid x, as_candidate (tx_data x))) ts) k
    = map_option as_candidate (map_of (map (\<lambda>x. (tx_tid x, tx_data x)) ts) k)"
  by (induction ts) simp_all

section \<open>Properties\<close>

text \<open>C17: The transaction table is a finite map from identifiers to transactions: on a table with the
  invariant, a lookup finds what the map holds, an insertion that checks for presence changes nothing
  when the identifier is there and adds the transaction otherwise, and a removal takes the identifier
  out. Where the hash table needs memory and gets none, the table is unchanged.\<close>

theorem txn_table_refines_map:
  assumes inv: "txnt_inv h t" and tx: "heap_get h p = Some tx" and small: "size (ah_nodes t) + 1 < 2 ^ 32 - 1"
  shows "txnt_get h t tid = Some (txnt_map h t tid) \<and>
    txn_exists h t tid = Some (txnt_map h t tid \<noteq> None) \<and>
    (if txnt_map h t (tx_tid tx) \<noteq> None
     then txnt_insert_txn_if_not_exists ok h t p = Some (Inr (), t) \<and>
       (\<exists>r t'. txnt_remove_txn ok h t p = Some (True, r, t') \<and>
          txnt_step ok h t ((txnt_map h t)(tx_tid tx := None)) r t')
     else txnt_remove_txn ok h t p = Some (False, Inr (), t) \<and>
       (\<exists>r t'. txnt_insert_txn_if_not_exists ok h t p = Some (r, t') \<and>
          txnt_step ok h t ((txnt_map h t)(tx_tid tx \<mapsto> p)) r t'))"
proof (intro conjI)
  show "if txnt_map h t (tx_tid tx) \<noteq> None
     then txnt_insert_txn_if_not_exists ok h t p = Some (Inr (), t) \<and>
       (\<exists>r t'. txnt_remove_txn ok h t p = Some (True, r, t') \<and>
          txnt_step ok h t ((txnt_map h t)(tx_tid tx := None)) r t')
     else txnt_remove_txn ok h t p = Some (False, Inr (), t) \<and>
       (\<exists>r t'. txnt_insert_txn_if_not_exists ok h t p = Some (r, t') \<and>
          txnt_step ok h t ((txnt_map h t)(tx_tid tx \<mapsto> p)) r t')"
  proof (cases "txnt_map h t (tx_tid tx)")
    case None
    from small have "size (ah_nodes t) + 1 < 4294967295" by simp
    from txnt_insert_correct [OF inv tx this None, of ok] None tx
    show ?thesis
      by (auto simp: txnt_insert_txn_if_not_exists_def txnt_insert_txn_def txn_exists_correct [OF inv]
          txnt_remove_txn_def txn_node_def txn_lookup [OF inv])
  next
    case (Some q)
    from small have "size (ah_nodes t) < 4294967295" by simp
    from txnt_remove_found [OF inv this Some, of ok] Some tx
    show ?thesis
      by (auto simp: txnt_insert_txn_if_not_exists_def txn_exists_correct [OF inv] txnt_remove_txn_def
          txn_node_def txn_lookup [OF inv])
  qed
qed (simp_all add: txnt_get_correct [OF inv] txn_exists_correct [OF inv])

definition txn_example :: "txn heap" where
  "txn_example =
     [0 \<mapsto> [Some \<lparr>tx_tid = 7, tx_data = \<lparr>td_state = TX_RUNNING, td_last_lsn = 3, td_undo_next_lsn = 2\<rparr>\<rparr>],
      1 \<mapsto> [None]]"

lemma txn_example_get:
  "heap_get txn_example (0, 0)
     = Some \<lparr>tx_tid = 7, tx_data = \<lparr>td_state = TX_RUNNING, td_last_lsn = 3, td_undo_next_lsn = 2\<rparr>\<rparr>"
  by (simp add: txn_example_def heap_get_def)

lemma txn_example_table:
  "\<exists>t t'. txnt_open (True, True) = Some (Inr t) \<and>
     txnt_insert_txn True txn_example t (0, 0) = Some (Inr (), t') \<and>
     txnt_inv txn_example t' \<and> txnt_map txn_example t' = [7 \<mapsto> (0, 0)] \<and> size (ah_nodes t') \<le> 1"
proof -
  from txnt_open_correct [of txn_example] obtain t where
    t: "txnt_open (True, True) = Some (Inr t)" "txnt_inv txn_example t" "txnt_map txn_example t = Map.empty"
      "ah_nodes t = {#}" by blast
  from txnt_insert_correct [OF t(2) txn_example_get, of True] t show ?thesis
    by (auto simp: txnt_step_def)
qed

theorem txn_table_refines_map_witness:
  "\<exists>t r t'. txnt_open (True, True) = Some (Inr t) \<and> txnt_get txn_example t 7 = Some None \<and>
     txnt_insert_txn_if_not_exists True txn_example t (0, 0) = Some (r, t') \<and>
     txnt_map txn_example t' 7 = Some (0, 0)"
proof -
  from txnt_open_correct [of txn_example] obtain t where
    t: "txnt_open (True, True) = Some (Inr t)" "txnt_inv txn_example t" "txnt_map txn_example t = Map.empty"
      "ah_nodes t = {#}" by blast
  from txn_table_refines_map [OF t(2) txn_example_get, of 7 True] t show ?thesis
    by (auto simp: txnt_step_def)
qed

text \<open>C18: What a checkpoint writes of the transaction table is read back by recovery: every transaction
  with its last and its undo position, all of them as candidates for undo.\<close>

theorem txnt_serialize_roundtrip:
  assumes inv: "txnt_inv h t" and buf: "24 * size (ah_nodes t) \<le> length buf" "length buf < 2 ^ 31"
    and bank: "h bank = Some blk" "size (ah_nodes t) \<le> length blk"
  shows "\<exists>n buf' h' t'. txnt_serialize h buf (length buf) t = Some (n, buf') \<and>
    txnt_deserialize (True, True) (\<lambda>_. True) h buf' bank n = Some (Inr (), h', Some t') \<and>
    txnt_inv h' t' \<and> (\<forall>k. txnt_data h' t' k = map_option as_candidate (txnt_data h t k))"
proof -
  let ?ts = "map (node_txn h) (ah_list t)"
  have len: "length ?ts = size (ah_nodes t)" by (simp flip: mset_ah_list)
  from buf(2) have "length buf < 2147483648" by simp
  from txnt_serialize_correct [OF inv buf(1) this] obtain buf' where
    s: "txnt_serialize h buf (length buf) t = Some (24 * length ?ts, buf')" "24 * length ?ts \<le> length buf'"
      "take (24 * length ?ts) buf' = concat (map (\<lambda>x. concat (txn_rec x)) ?ts)"
    unfolding len by blast
  have "24 * length ?ts < 2147483648" "length ?ts \<le> length blk" "distinct (map tx_tid ?ts)"
    using buf bank(2) txnt_invD(3) [OF inv] unfolding len node_txns(1) [OF inv] by simp_all
  from txnt_deserialize_correct [of ?ts buf' h bank blk, OF s(3,2) this(1) bank(1) this(2,3)] obtain h' t' where
    "txnt_deserialize (True, True) (\<lambda>_. True) h buf' bank (24 * length ?ts) = Some (Inr (), h', Some t')"
    "txnt_inv h' t'" "txnt_data h' t' = map_of (map (\<lambda>x. (tx_tid x, as_candidate (tx_data x))) ?ts)" by blast
  with s(1) show ?thesis
    by (intro exI conjI allI) (assumption | simp only: map_of_as_candidate node_txns(2) [OF inv])+
qed

theorem txnt_serialize_roundtrip_witness:
  "\<exists>t0 t n buf' h' t'. txnt_open (True, True) = Some (Inr t0) \<and>
     txnt_insert_txn True txn_example t0 (0, 0) = Some (Inr (), t) \<and>
     txnt_serialize txn_example (replicate 24 0) 24 t = Some (n, buf') \<and>
     txnt_deserialize (True, True) (\<lambda>_. True) txn_example buf' 1 n = Some (Inr (), h', Some t') \<and>
     txnt_inv h' t' \<and>
     txnt_data h' t' 7 = Some \<lparr>td_state = TX_CANDIDATE_FOR_UNDO, td_last_lsn = 3, td_undo_next_lsn = 2\<rparr>"
proof -
  from txn_example_table obtain t0 t where
    t: "txnt_open (True, True) = Some (Inr t0)" "txnt_insert_txn True txn_example t0 (0, 0) = Some (Inr (), t)"
      "txnt_inv txn_example t" "txnt_map txn_example t = [7 \<mapsto> (0, 0)]" "size (ah_nodes t) \<le> 1" by blast
  have "txnt_data txn_example t 7 = Some \<lparr>td_state = TX_RUNNING, td_last_lsn = 3, td_undo_next_lsn = 2\<rparr>"
    by (simp add: txnt_data_def t(4) txn_example_get)
  moreover have "txn_example 1 = Some [None]" by (simp add: txn_example_def)
  ultimately show ?thesis
    using txnt_serialize_roundtrip [OF t(3), of "replicate 24 0" 1 "[None]"] t
    by (auto simp: as_candidate_def)
qed

text \<open>The position recovery undoes next is the greatest one of the transactions that are candidates
  for undo, by the signed comparison, and -1 when there are none.\<close>

theorem txnt_max_undo_is_max:
  assumes "txnt_inv h t"
  shows "\<exists>m. txnt_max_u_undo_lsn h t = Some m \<and>
    sint m = Max (insert (- 1) {sint (td_undo_next_lsn d) | d k. txnt_data h t k = Some d \<and> td_state d = TX_CANDIDATE_FOR_UNDO})"
  using txnt_max_u_undo_lsn_correct [OF assms] by (simp add: candidates_def)

theorem txnt_max_undo_is_max_witness:
  "\<exists>t0 t m. txnt_open (True, True) = Some (Inr t0) \<and>
     txnt_insert_txn True txn_example t0 (0, 0) = Some (Inr (), t) \<and>
     txnt_max_u_undo_lsn txn_example t = Some m \<and> sint m = - 1"
proof -
  from txn_example_table obtain t0 t where
    t: "txnt_open (True, True) = Some (Inr t0)" "txnt_insert_txn True txn_example t0 (0, 0) = Some (Inr (), t)"
      "txnt_inv txn_example t" "txnt_map txn_example t = [7 \<mapsto> (0, 0)]" by blast
  have e: "{sint (td_undo_next_lsn d) | d k. txnt_data txn_example t k = Some d \<and> td_state d = TX_CANDIDATE_FOR_UNDO} = {}"
    by (auto simp: txnt_data_def t(4) txn_example_get split: if_splits)
  from txnt_max_undo_is_max [OF t(3), unfolded e] t(1,2) show ?thesis by simp
qed

end
