(* ===== verification/Dirty_Page_Table.thy ===== *)
theory Dirty_Page_Table
  imports Robin_Hood Dbl_Buffer Serializer
begin

text \<open>
  \<^verbatim>\<open>libs/nscore/clock_allocator.c\<close> and \<^verbatim>\<open>libs/nspager/dirty_page_table.c\<close>: the pool allocator, which
  hands out the slots of one array round robin, and the table of dirty pages, a Robin Hood hash table
  whose values point to entries of such a pool.

  Pointers and the heap they point into are those of the growing buffer. \<open>dpt_inv\<close> is the invariant
  that ties the three parts of a dirty page table together: the slots that are occupied in the pool
  are those the hash table points to, and each holds the entry of its key. \<open>dpt_map\<close> is the finite map
  from pages to recovery positions the table stands for. Latches are not modelled.
\<close>

section \<open>The pool\<close>

record clck_alloc =
  ca_data :: nat
  ca_occupied :: "bool list"
  ca_clock :: nat

abbreviation ca_nelems :: "clck_alloc \<Rightarrow> nat" where
  "ca_nelems ca \<equiv> length (ca_occupied ca)"

text \<open>\<open>z\<close> is the element type's zero.\<close>

definition clck_alloc_open :: "nat option \<Rightarrow> 'a \<Rightarrow> 'a heap \<Rightarrow> nat \<Rightarrow> (clck_alloc res \<times> 'a heap) option" where
  "clck_alloc_open mem z h nelems = do {
     ASSERT (nelems > 0);
     case mem of
       None \<Rightarrow> Some (Inl ERR_NOMEM, h)
     | Some b \<Rightarrow>
         Some (Inr \<lparr>ca_data = b, ca_occupied = replicate nelems False, ca_clock = 0\<rparr>,
               h(b \<mapsto> replicate nelems (Some z))) }"

primrec clck_alloc_loop :: "nat \<Rightarrow> clck_alloc \<Rightarrow> ptr res \<times> clck_alloc" where
  "clck_alloc_loop 0 ca = (Inl ERR_NOMEM, ca)"
| "clck_alloc_loop (Suc n) ca =
     (let next = ca_clock ca;
          ca = ca\<lparr>ca_clock := (ca_clock ca + 1) mod ca_nelems ca\<rparr>
      in if \<not> ca_occupied ca ! next
         then (Inr (ca_data ca, next), ca\<lparr>ca_occupied := (ca_occupied ca)[next := True]\<rparr>)
         else clck_alloc_loop n ca)"

definition clck_alloc_alloc :: "clck_alloc \<Rightarrow> ptr res \<times> clck_alloc" where
  "clck_alloc_alloc ca = clck_alloc_loop (ca_nelems ca) ca"

definition clck_alloc_calloc :: "'a \<Rightarrow> 'a heap \<Rightarrow> clck_alloc \<Rightarrow> (ptr res \<times> 'a heap \<times> clck_alloc) option" where
  "clck_alloc_calloc z h ca =
     (case clck_alloc_alloc ca of
        (Inl e, ca) \<Rightarrow> Some (Inl e, h, ca)
      | (Inr p, ca) \<Rightarrow> do { h \<leftarrow> heap_put h p z; Some (Inr p, h, ca) })"

definition clck_alloc_free :: "clck_alloc \<Rightarrow> ptr \<Rightarrow> clck_alloc option" where
  "clck_alloc_free ca p = do {
     ASSERT (fst p = ca_data ca);
     ASSERT (snd p < ca_nelems ca);
     ASSERT (ca_occupied ca ! snd p);
     Some (ca\<lparr>ca_occupied := (ca_occupied ca)[snd p := False]\<rparr>) }"

definition clck_alloc_close :: "'a heap \<Rightarrow> clck_alloc \<Rightarrow> 'a heap" where
  "clck_alloc_close h ca = h(ca_data ca := None)"

section \<open>The table\<close>

record dpg_entry =
  de_rec_lsn :: lsn
  de_pg :: pgno

record dpg_table =
  dt_table :: "ptr hash_table"
  dt_alloc :: clck_alloc

definition DPT_CAP :: nat where
  "DPT_CAP = 100000"

definition MAX_DPGT_SRL_SIZE :: nat where
  \<comment> \<open>\<^verbatim>\<open>MEMORY_PAGE_LEN\<close> entries of 16 bytes\<close>
  "MAX_DPGT_SRL_SIZE = 100 * 16"

text \<open>The two allocations of an opening: the table, and the pool's array.\<close>

definition dpgt_open :: "bool \<Rightarrow> nat option \<Rightarrow> dpg_entry heap \<Rightarrow> (dpg_table res \<times> dpg_entry heap) option" where
  "dpgt_open ok mem h =
     (if \<not> ok then Some (Inl ERR_NOMEM, h)
      else do {
        (r, h) \<leftarrow> clck_alloc_open mem \<lparr>de_rec_lsn = 0, de_pg = 0\<rparr> h DPT_CAP;
        Some (case r of
                Inl e \<Rightarrow> (Inl e, h)
              | Inr alloc \<Rightarrow> (Inr \<lparr>dt_table = ht_init (0, 0) DPT_CAP, dt_alloc = alloc\<rparr>, h)) })"

definition dpgt_close :: "dpg_entry heap \<Rightarrow> dpg_table \<Rightarrow> dpg_entry heap" where
  "dpgt_close h t = clck_alloc_close h (dt_alloc t)"

definition dpgt_add :: "dpg_entry heap \<Rightarrow> dpg_table \<Rightarrow> pgno \<Rightarrow> lsn \<Rightarrow> (unit res \<times> dpg_entry heap \<times> dpg_table) option" where
  "dpgt_add h t pg rec_lsn =
     (case clck_alloc_alloc (dt_alloc t) of
        (Inl _, ca) \<Rightarrow> Some (Inl ERR_DPGT_FULL, h, t\<lparr>dt_alloc := ca\<rparr>)
      | (Inr v, ca) \<Rightarrow> do {
          table \<leftarrow> ht_insert_expect (dt_table t) \<lparr>hkey = pg, hvalue = v\<rparr>;
          h \<leftarrow> heap_put h v \<lparr>de_rec_lsn = rec_lsn, de_pg = pg\<rparr>;
          Some (Inr (), h, t\<lparr>dt_table := table, dt_alloc := ca\<rparr>) })"

definition dpe_get :: "dpg_entry heap \<Rightarrow> dpg_table \<Rightarrow> pgno \<Rightarrow> dpg_entry option option" where
  "dpe_get h t pg = do {
     (res, d) \<leftarrow> ht_get (dt_table t) pg;
     case res of
       HTAR_DOESNT_EXIST \<Rightarrow> Some None
     | HTAR_SUCCESS \<Rightarrow> do { d \<leftarrow> d; e \<leftarrow> heap_get h (hvalue d); Some (Some e) } }"

definition dpgt_get_expect :: "dpg_entry heap \<Rightarrow> dpg_table \<Rightarrow> pgno \<Rightarrow> dpg_entry option" where
  "dpgt_get_expect h t pg = do {
     dest \<leftarrow> ht_get_expect (dt_table t) pg;
     heap_get h (hvalue dest) }"

definition dpgt_update :: "dpg_entry heap \<Rightarrow> dpg_table \<Rightarrow> pgno \<Rightarrow> lsn \<Rightarrow> dpg_entry heap option" where
  "dpgt_update h t pg new_rec_lsn = do {
     dest \<leftarrow> ht_get_expect (dt_table t) pg;
     e \<leftarrow> heap_get h (hvalue dest);
     heap_put h (hvalue dest) (e\<lparr>de_rec_lsn := new_rec_lsn\<rparr>) }"

definition dpgt_remove :: "dpg_table \<Rightarrow> pgno \<Rightarrow> (bool \<times> dpg_table) option" where
  "dpgt_remove t pg = do {
     (res, dest, table) \<leftarrow> ht_delete (dt_table t) pg;
     case res of
       HTAR_SUCCESS \<Rightarrow> do {
         dest \<leftarrow> dest;
         ca \<leftarrow> clck_alloc_free (dt_alloc t) (hvalue dest);
         Some (True, \<lparr>dt_table = table, dt_alloc = ca\<rparr>) }
     | HTAR_DOESNT_EXIST \<Rightarrow> Some (False, t\<lparr>dt_table := table\<rparr>) }"

definition dpgt_remove_expect :: "dpg_table \<Rightarrow> pgno \<Rightarrow> dpg_table option" where
  "dpgt_remove_expect t pg = do {
     (dest, table) \<leftarrow> ht_delete_expect (dt_table t) pg;
     ca \<leftarrow> clck_alloc_free (dt_alloc t) (hvalue dest);
     Some \<lparr>dt_table = table, dt_alloc = ca\<rparr> }"

text \<open>The walk over the array that several operations share: \<open>action\<close> for each slot that is present.\<close>

primrec dpgt_walk :: "(ptr hdata \<Rightarrow> 's \<Rightarrow> 's option) \<Rightarrow> ptr hash_table \<Rightarrow> 's \<Rightarrow> 's option" where
  "dpgt_walk action [] s = Some s"
| "dpgt_walk action (entry # es) s =
     (if hpresent entry then do { s \<leftarrow> action (hdata entry) s; dpgt_walk action es s }
      else dpgt_walk action es s)"

definition dpgt_min_step :: "dpg_entry heap \<Rightarrow> ptr hdata \<Rightarrow> lsn \<Rightarrow> lsn option" where
  "dpgt_min_step h d ret = do {
     e \<leftarrow> heap_get h (hvalue d);
     Some (if de_rec_lsn e < ret then de_rec_lsn e else ret) }"

definition dpgt_min_rec_lsn :: "dpg_entry heap \<Rightarrow> dpg_table \<Rightarrow> lsn option" where
  "dpgt_min_rec_lsn h d = dpgt_walk (dpgt_min_step h) (dt_table d) (- 1)"

definition dpgt_merge_step :: "ptr hdata \<Rightarrow> ptr hash_table \<Rightarrow> ptr hash_table option" where
  \<comment> \<open>both cases of the deletion's result insert\<close>
  "dpgt_merge_step d dest = do {
     (_, _, dest) \<leftarrow> ht_delete dest (hkey d);
     ht_insert_expect dest d }"

definition dpgt_merge_into :: "dpg_table \<Rightarrow> dpg_table \<Rightarrow> dpg_table option" where
  "dpgt_merge_into dest src = do {
     table \<leftarrow> dpgt_walk dpgt_merge_step (dt_table src) (dt_table dest);
     Some (dest\<lparr>dt_table := table\<rparr>) }"

text \<open>The first loop of the comparison: the number of entries on the left, or nothing when one of them
  has no equal on the right.\<close>

primrec dpgt_equal_loop :: "dpg_entry heap \<Rightarrow> ptr hash_table \<Rightarrow> ptr hash_table \<Rightarrow> nat \<Rightarrow> nat option option" where
  "dpgt_equal_loop h [] right left_len = Some (Some left_len)"
| "dpgt_equal_loop h (entry # es) right left_len =
     (if hpresent entry then do {
        (res, rcand) \<leftarrow> ht_get right (hkey (hdata entry));
        case res of
          HTAR_SUCCESS \<Rightarrow> do {
            rcand \<leftarrow> rcand;
            r \<leftarrow> heap_get h (hvalue rcand);
            l \<leftarrow> heap_get h (hvalue (hdata entry));
            if de_pg r = de_pg l \<and> de_rec_lsn r = de_rec_lsn l
            then dpgt_equal_loop h es right (left_len + 1)
            else Some None }
        | HTAR_DOESNT_EXIST \<Rightarrow> Some None }
      else dpgt_equal_loop h es right left_len)"

definition dpgt_equal :: "dpg_entry heap \<Rightarrow> dpg_table \<Rightarrow> dpg_table \<Rightarrow> bool option" where
  "dpgt_equal h left right = do {
     r \<leftarrow> dpgt_equal_loop h (dt_table left) (dt_table right) 0;
     case r of
       None \<Rightarrow> Some False
     | Some left_len \<Rightarrow> Some (left_len = length (filter hpresent (dt_table right))) }"

section \<open>Serialization\<close>

definition dpgt_serialize_step :: "dpg_entry heap \<Rightarrow> ptr hdata \<Rightarrow> serializer \<Rightarrow> serializer option" where
  "dpgt_serialize_step h d s = do {
     e \<leftarrow> heap_get h (hvalue d);
     s \<leftarrow> srlizr_write_expect s (bytes64 (de_pg e));
     srlizr_write_expect s (bytes64 (de_rec_lsn e)) }"

definition dpgt_serialize :: "dpg_entry heap \<Rightarrow> u8 list \<Rightarrow> dpg_table \<Rightarrow> (nat \<times> u8 list) option" where
  "dpgt_serialize h dest t = do {
     s \<leftarrow> dpgt_walk (dpgt_serialize_step h) (dt_table t) (srlizr_create dest MAX_DPGT_SRL_SIZE);
     Some (sr_dlen s, sr_data s) }"

text \<open>A failing insertion is not noticed.\<close>

partial_function (option) dpgt_deserialize_loop ::
  "dpg_entry heap \<Rightarrow> dpg_table \<Rightarrow> deserializer \<Rightarrow> (dpg_entry heap \<times> dpg_table) option" where
  "dpgt_deserialize_loop h t d = do {
     (pg, d) \<leftarrow> dsrlizr_read 8 d;
     case pg of
       None \<Rightarrow> Some (h, t)
     | Some pg \<Rightarrow> do {
         (l, d) \<leftarrow> dsrlizr_read_expect 8 d;
         (_, h, t) \<leftarrow> dpgt_add h t (word64 pg) (word64 l);
         dpgt_deserialize_loop h t d } }"

definition dpgt_deserialize ::
  "bool \<Rightarrow> nat option \<Rightarrow> dpg_entry heap \<Rightarrow> u8 list \<Rightarrow> nat \<Rightarrow> (dpg_table res \<times> dpg_entry heap) option" where
  "dpgt_deserialize ok mem h src dlen = do {
     (t, h) \<leftarrow> dpgt_open ok mem h;
     case t of
       Inl e \<Rightarrow> Some (Inl e, h)
     | Inr t \<Rightarrow>
         if dlen = 0 then Some (Inr t, h)
         else do {
           let d = dsrlizr_create src dlen;
           if ds_dlen d > MAX_DPGT_SRL_SIZE then Some (Inl ERR_CORRUPT, h)
           else do {
             (h, t) \<leftarrow> dpgt_deserialize_loop h t d;
             Some (Inr t, h) } } }"

section \<open>The pool hands out free slots\<close>

definition ca_used :: "clck_alloc \<Rightarrow> nat set" where
  "ca_used ca = {i. i < ca_nelems ca \<and> ca_occupied ca ! i}"

lemma finite_ca_used [simp]: "finite (ca_used ca)"
  by (simp add: ca_used_def)

lemma clck_alloc_loop_some:
  "ca_clock ca < ca_nelems ca \<Longrightarrow> clck_alloc_loop n ca = (Inr p, ca') \<Longrightarrow>
   fst p = ca_data ca \<and> snd p < ca_nelems ca \<and> \<not> ca_occupied ca ! snd p \<and> ca_data ca' = ca_data ca \<and>
   ca_occupied ca' = (ca_occupied ca)[snd p := True] \<and> ca_clock ca' < ca_nelems ca"
proof (induction n arbitrary: ca)
  case 0
  then show ?case by simp
next
  case (Suc n)
  let ?ca = "ca\<lparr>ca_clock := (ca_clock ca + 1) mod ca_nelems ca\<rparr>"
  have "0 < ca_nelems ca" using Suc.prems(1) by linarith
  then have lt: "(ca_clock ca + 1) mod ca_nelems ca < ca_nelems ca" by simp
  show ?case
  proof (cases "ca_occupied ca ! ca_clock ca")
    case False
    with Suc.prems lt show ?thesis by (auto simp: Let_def)
  next
    case True
    then have "clck_alloc_loop n ?ca = (Inr p, ca')" using Suc.prems(2) by (simp add: Let_def)
    with Suc.IH [of ?ca] lt show ?thesis by simp
  qed
qed

lemma clck_alloc_loop_none:
  "ca_clock ca < ca_nelems ca \<Longrightarrow> clck_alloc_loop n ca = (Inl e, ca') \<Longrightarrow>
   e = ERR_NOMEM \<and> ca_data ca' = ca_data ca \<and> ca_occupied ca' = ca_occupied ca \<and> ca_clock ca' < ca_nelems ca \<and>
   (\<forall>j < n. ca_occupied ca ! ((ca_clock ca + j) mod ca_nelems ca))"
proof (induction n arbitrary: ca)
  case 0
  then show ?case by simp
next
  case (Suc n)
  let ?ca = "ca\<lparr>ca_clock := (ca_clock ca + 1) mod ca_nelems ca\<rparr>"
  have "0 < ca_nelems ca" using Suc.prems(1) by linarith
  then have lt: "(ca_clock ca + 1) mod ca_nelems ca < ca_nelems ca" by simp
  have occ: "ca_occupied ca ! ca_clock ca" using Suc.prems(2) by (auto simp: Let_def split: if_splits)
  then have "clck_alloc_loop n ?ca = (Inl e, ca')" using Suc.prems(2) by (simp add: Let_def)
  with Suc.IH [of ?ca] lt have ih: "e = ERR_NOMEM" "ca_data ca' = ca_data ca" "ca_occupied ca' = ca_occupied ca"
    "ca_clock ca' < ca_nelems ca" "\<forall>j < n. ca_occupied ca ! (((ca_clock ca + 1) mod ca_nelems ca + j) mod ca_nelems ca)"
    by simp_all
  have "ca_occupied ca ! ((ca_clock ca + j) mod ca_nelems ca)" if "j < Suc n" for j
  proof (cases j)
    case 0
    with occ Suc.prems(1) show ?thesis by simp
  next
    case (Suc i)
    with ih(5) that have "ca_occupied ca ! (((ca_clock ca + 1) mod ca_nelems ca + i) mod ca_nelems ca)" by simp
    then show ?thesis by (simp only: mod_add_left_eq Suc add.assoc plus_1_eq_Suc)
  qed
  with ih show ?case by blast
qed

lemma all_slots:
  fixes c m i :: nat
  assumes "c < m" "\<forall>j < m. (c + j) mod m \<in> S"
  shows "i < m \<Longrightarrow> i \<in> S"
proof -
  assume i: "i < m"
  show "i \<in> S"
  proof (cases "c \<le> i")
    case True
    with assms(2) i have "(c + (i - c)) mod m \<in> S" by (intro assms(2) [rule_format]) simp
    with True i show ?thesis by simp
  next
    case False
    with assms i have "(c + (i + m - c)) mod m \<in> S" by (intro assms(2) [rule_format]) simp
    moreover have "c + (i + m - c) = i + m" using assms(1) False by simp
    ultimately show ?thesis using i by simp
  qed
qed

lemma clck_alloc_alloc_correct:
  assumes "ca_clock ca < ca_nelems ca"
  shows "(\<exists>i ca'. clck_alloc_alloc ca = (Inr (ca_data ca, i), ca') \<and> i < ca_nelems ca \<and> i \<notin> ca_used ca \<and>
      ca_used ca' = insert i (ca_used ca) \<and> ca_data ca' = ca_data ca \<and> ca_nelems ca' = ca_nelems ca \<and>
      ca_clock ca' < ca_nelems ca \<and> (\<forall>j. j \<noteq> i \<longrightarrow> ca_occupied ca' ! j = ca_occupied ca ! j)) \<or>
    (\<exists>ca'. clck_alloc_alloc ca = (Inl ERR_NOMEM, ca') \<and> card (ca_used ca) = ca_nelems ca \<and>
      ca_data ca' = ca_data ca \<and> ca_occupied ca' = ca_occupied ca \<and> ca_clock ca' < ca_nelems ca)"
proof (cases "clck_alloc_alloc ca")
  case (Pair r ca')
  show ?thesis
  proof (cases r)
    case (Inl e)
    with Pair clck_alloc_loop_none [OF assms, of "ca_nelems ca" e ca'] have
      c: "e = ERR_NOMEM" "ca_data ca' = ca_data ca" "ca_occupied ca' = ca_occupied ca" "ca_clock ca' < ca_nelems ca"
        "\<forall>j < ca_nelems ca. (ca_clock ca + j) mod ca_nelems ca \<in> {i. ca_occupied ca ! i}"
      by (simp_all add: clck_alloc_alloc_def)
    have "ca_used ca = {..< ca_nelems ca}"
      using all_slots [OF assms c(5)] by (auto simp: ca_used_def)
    then have "card (ca_used ca) = ca_nelems ca" by simp
    with Pair Inl c show ?thesis by simp
  next
    case (Inr p)
    with Pair clck_alloc_loop_some [OF assms, of "ca_nelems ca" p ca'] have
      c: "fst p = ca_data ca" "snd p < ca_nelems ca" "\<not> ca_occupied ca ! snd p" "ca_data ca' = ca_data ca"
        "ca_occupied ca' = (ca_occupied ca)[snd p := True]" "ca_clock ca' < ca_nelems ca"
      by (simp_all add: clck_alloc_alloc_def)
    have "ca_used ca' = insert (snd p) (ca_used ca)"
      using c(2) by (auto simp: ca_used_def c(5) nth_list_update)
    with Pair Inr c show ?thesis
      by (intro disjI1 exI [of _ "snd p"] exI [of _ ca']) (auto simp: ca_used_def prod_eq_iff)
  qed
qed

lemma clck_alloc_free_correct:
  assumes "fst p = ca_data ca" "snd p \<in> ca_used ca"
  shows "\<exists>ca'. clck_alloc_free ca p = Some ca' \<and> ca_used ca' = ca_used ca - {snd p} \<and>
    ca_data ca' = ca_data ca \<and> ca_nelems ca' = ca_nelems ca \<and> ca_clock ca' = ca_clock ca"
  using assms
  by (auto simp: clck_alloc_free_def ca_used_def nth_list_update split: if_splits)

section \<open>The table is a finite map\<close>

definition dpt_ok :: "dpg_entry heap \<Rightarrow> dpg_table \<Rightarrow> pgno \<Rightarrow> ptr \<Rightarrow> bool" where
  "dpt_ok h t k p \<longleftrightarrow> fst p = ca_data (dt_alloc t) \<and> snd p \<in> ca_used (dt_alloc t) \<and>
     (\<exists>e. heap_get h p = Some e \<and> de_pg e = k)"

definition dpt_inv :: "dpg_entry heap \<Rightarrow> dpg_table \<Rightarrow> bool" where
  "dpt_inv h t \<longleftrightarrow> ht_inv (dt_table t) \<and> ht_cap (dt_table t) = ca_nelems (dt_alloc t) \<and>
     ca_clock (dt_alloc t) < ca_nelems (dt_alloc t) \<and>
     (\<exists>blk. h (ca_data (dt_alloc t)) = Some blk \<and> length blk = ca_nelems (dt_alloc t)) \<and>
     (\<forall>k p. ht_map (dt_table t) k = Some p \<longrightarrow> dpt_ok h t k p) \<and>
     card (dom (ht_map (dt_table t))) = card (ca_used (dt_alloc t))"

definition dpt_map :: "dpg_entry heap \<Rightarrow> dpg_table \<Rightarrow> pgno \<Rightarrow> lsn option" where
  "dpt_map h t k = map_option (\<lambda>p. de_rec_lsn (the (heap_get h p))) (ht_map (dt_table t) k)"

definition dpt_cap :: "dpg_table \<Rightarrow> nat" where
  "dpt_cap t = ht_cap (dt_table t)"

definition dpt_key :: "dpg_table \<Rightarrow> pgno \<Rightarrow> bool" where
  "dpt_key t k \<longleftrightarrow> unat k + dpt_cap t < 2 ^ 64"

lemma dpt_invD:
  assumes "dpt_inv h t"
  shows "ht_inv (dt_table t)" "ht_cap (dt_table t) = ca_nelems (dt_alloc t)"
    "ca_clock (dt_alloc t) < ca_nelems (dt_alloc t)"
    "\<exists>blk. h (ca_data (dt_alloc t)) = Some blk \<and> length blk = ca_nelems (dt_alloc t)"
    "ht_map (dt_table t) k = Some p \<Longrightarrow> dpt_ok h t k p"
    "card (dom (ht_map (dt_table t))) = card (ca_used (dt_alloc t))"
  using assms unfolding dpt_inv_def by blast+

lemma dom_dpt_map [simp]: "dom (dpt_map h t) = dom (ht_map (dt_table t))"
  by (auto simp: dpt_map_def)

lemma dpt_entry:
  assumes "dpt_inv h t" "ht_map (dt_table t) k = Some p"
  shows "heap_get h p = Some \<lparr>de_rec_lsn = the (dpt_map h t k), de_pg = k\<rparr>" "dpt_map h t k \<noteq> None"
  using dpt_invD(5) [OF assms] assms(2) by (auto simp: dpt_ok_def dpt_map_def)

text \<open>Two keys never share a slot.\<close>

lemma dpt_inj:
  assumes "dpt_inv h t" "ht_map (dt_table t) k = Some p" "ht_map (dt_table t) l = Some p"
  shows "k = l"
  using dpt_entry(1) [OF assms(1,2)] dpt_entry(1) [OF assms(1,3)] by simp

lemma dpgt_add_new:
  assumes inv: "dpt_inv h t" and key: "dpt_key t k" and new: "dpt_map h t k = None"
    and room: "card (dom (dpt_map h t)) < dpt_cap t"
  shows "\<exists>h' t'. dpgt_add h t k l = Some (Inr (), h', t') \<and> dpt_inv h' t' \<and>
    dpt_map h' t' = (dpt_map h t)(k \<mapsto> l) \<and> dpt_cap t' = dpt_cap t"
proof -
  note D = dpt_invD [OF inv]
  let ?al = "dt_alloc t" and ?tab = "dt_table t"
  have nf: "card (ca_used ?al) \<noteq> ca_nelems ?al" using room D(2,6) by (simp add: dpt_cap_def)
  from clck_alloc_alloc_correct [OF D(3)] nf obtain i ca where
    a: "clck_alloc_alloc ?al = (Inr (ca_data ?al, i), ca)" "i < ca_nelems ?al" "i \<notin> ca_used ?al"
      "ca_used ca = insert i (ca_used ?al)" "ca_data ca = ca_data ?al" "ca_nelems ca = ca_nelems ?al"
      "ca_clock ca < ca_nelems ?al" by auto
  let ?p = "(ca_data ?al, i)" and ?d = "\<lparr>hkey = k, hvalue = (ca_data ?al, i)\<rparr>"
  have "unat (hkey ?d) + ht_cap ?tab < 2 ^ 64" "ht_map ?tab (hkey ?d) = None" "\<not> ht_full ?tab"
    using key new room D(2,6) ht_full_card [OF D(1)]
    by (auto simp: dpt_key_def dpt_cap_def dpt_map_def)
  from ht_insert_correct(2) [OF D(1) this] obtain tab where
    tab: "ht_insert ?tab ?d = Some (HTIR_SUCCESS, tab)" "ht_inv tab" "ht_cap tab = ht_cap ?tab"
      "ht_map tab = (ht_map ?tab)(k \<mapsto> ?p)" by auto
  from D(4) obtain blk where blk: "h (ca_data ?al) = Some blk" "length blk = ca_nelems ?al" by blast
  let ?e = "\<lparr>de_rec_lsn = l, de_pg = k\<rparr>"
  define h' where "h' = h(ca_data ?al \<mapsto> blk[i := Some ?e])"
  have put: "heap_put h ?p ?e = Some h'"
    unfolding h'_def using blk a(2) by (intro heap_put_Some) simp_all
  note get = heap_get_put [OF put]
  define t' where "t' = t\<lparr>dt_table := tab, dt_alloc := ca\<rparr>"
  have none: "ht_map ?tab k = None" using new by (simp add: dpt_map_def)
  have keep: "heap_get h' p = heap_get h p" if "ht_map ?tab k' = Some p" for k' p
    using D(5) [OF that] a(3) get [of p] by (auto simp: dpt_ok_def)
  have "dpgt_add h t k l = Some (Inr (), h', t')"
    using a(1) tab(1) put by (simp add: dpgt_add_def ht_insert_expect_def t'_def)
  moreover have "dpt_inv h' t'"
  proof -
    have "dpt_ok h' t' k' p" if "ht_map tab k' = Some p" for k' p
    proof (cases "k' = k")
      case True
      with that have p: "p = ?p" by (simp add: tab(4))
      have "heap_get h' ?p = Some ?e" using get [of ?p] by simp
      then show ?thesis unfolding dpt_ok_def t'_def p using a(4,5) True by simp
    next
      case False
      with that have "ht_map ?tab k' = Some p" by (simp add: tab(4))
      with D(5) [OF this] keep [OF this] show ?thesis unfolding dpt_ok_def t'_def using a(4,5) by simp
    qed
    moreover have "card (dom (ht_map tab)) = card (ca_used ca)"
      using a(3,4) D(6) none rht.fin [OF D(1)] by (simp add: tab(4) card_insert_if domIff)
    moreover have "\<exists>blk. h' (ca_data ca) = Some blk \<and> length blk = ca_nelems ca"
      using a(5,6) blk by (simp add: h'_def)
    ultimately show ?thesis
      using tab(2,3) a(6,7) D(2) by (simp add: dpt_inv_def t'_def)
  qed
  moreover have "dpt_map h' t' = (dpt_map h t)(k \<mapsto> l)"
  proof
    fix k'
    show "dpt_map h' t' k' = ((dpt_map h t)(k \<mapsto> l)) k'"
    proof (cases "k' = k")
      case True
      then show ?thesis using get [of ?p] by (simp add: dpt_map_def t'_def tab(4))
    next
      case False
      then show ?thesis using keep [of k']
        by (cases "ht_map ?tab k'") (simp_all add: dpt_map_def t'_def tab(4))
    qed
  qed
  ultimately show ?thesis using tab(3) by (simp add: dpt_cap_def t'_def)
qed

lemma dpgt_add_full:
  assumes inv: "dpt_inv h t" and full: "card (dom (dpt_map h t)) = dpt_cap t"
  shows "\<exists>t'. dpgt_add h t k l = Some (Inl ERR_DPGT_FULL, h, t') \<and> dpt_inv h t' \<and> dpt_map h t' = dpt_map h t"
proof -
  note D = dpt_invD [OF inv]
  have "ca_used (dt_alloc t) = {..< ca_nelems (dt_alloc t)}"
  proof (rule card_subset_eq)
    show "ca_used (dt_alloc t) \<subseteq> {..< ca_nelems (dt_alloc t)}" by (auto simp: ca_used_def)
    show "card (ca_used (dt_alloc t)) = card {..< ca_nelems (dt_alloc t)}"
      using full D(2,6) by (simp add: dpt_cap_def)
  qed simp
  with clck_alloc_alloc_correct [OF D(3)] obtain ca where
    a: "clck_alloc_alloc (dt_alloc t) = (Inl ERR_NOMEM, ca)" "ca_data ca = ca_data (dt_alloc t)"
      "ca_occupied ca = ca_occupied (dt_alloc t)" "ca_clock ca < ca_nelems (dt_alloc t)" by auto
  have u: "ca_used ca = ca_used (dt_alloc t)" by (simp add: ca_used_def a(3))
  have "dpt_inv h (t\<lparr>dt_alloc := ca\<rparr>)"
    using inv a u by (auto simp: dpt_inv_def dpt_ok_def)
  moreover have "dpt_map h (t\<lparr>dt_alloc := ca\<rparr>) = dpt_map h t" by (simp add: dpt_map_def fun_eq_iff)
  ultimately show ?thesis using a(1) by (simp add: dpgt_add_def)
qed

lemma dpe_get_correct:
  assumes inv: "dpt_inv h t" and key: "dpt_key t k"
  shows "dpe_get h t k = Some (map_option (\<lambda>l. \<lparr>de_rec_lsn = l, de_pg = k\<rparr>) (dpt_map h t k))"
proof -
  have "unat k + ht_cap (dt_table t) < 2 ^ 64" using key by (simp add: dpt_key_def dpt_cap_def)
  note g = ht_get_correct [OF dpt_invD(1) [OF inv] this]
  show ?thesis
  proof (cases "ht_map (dt_table t) k")
    case None
    with g show ?thesis by (simp add: dpe_get_def dpt_map_def)
  next
    case (Some p)
    then obtain e where "heap_get h p = Some e" "de_pg e = k"
      using dpt_invD(5) [OF inv Some] by (auto simp: dpt_ok_def)
    with Some g show ?thesis by (cases e) (simp add: dpe_get_def dpt_map_def)
  qed
qed

lemma dpgt_update_correct:
  assumes inv: "dpt_inv h t" and key: "dpt_key t k" and some: "dpt_map h t k \<noteq> None"
  shows "\<exists>h'. dpgt_update h t k l = Some h' \<and> dpt_inv h' t \<and> dpt_map h' t = (dpt_map h t)(k \<mapsto> l)"
proof -
  note D = dpt_invD [OF inv]
  from some obtain p where p: "ht_map (dt_table t) k = Some p" by (auto simp: dpt_map_def)
  have "unat k + ht_cap (dt_table t) < 2 ^ 64" using key by (simp add: dpt_key_def dpt_cap_def)
  from ht_get_correct [OF D(1) this] p
  have g: "ht_get_expect (dt_table t) k = Some \<lparr>hkey = k, hvalue = p\<rparr>" by (simp add: ht_get_expect_def)
  let ?e = "\<lparr>de_rec_lsn = l, de_pg = k\<rparr>"
  from heap_put_live [OF dpt_entry(1) [OF inv p], of ?e] obtain h' where put: "heap_put h p ?e = Some h'" ..
  note get = heap_get_put [OF put]
  have upd: "dpgt_update h t k l = Some h'"
    using g dpt_entry(1) [OF inv p] put by (simp add: dpgt_update_def)
  have ok: "dpt_ok h' t k' q" if "ht_map (dt_table t) k' = Some q" for k' q
    using D(5) [OF that] dpt_inj [OF inv p, of k'] that get [of q] by (auto simp: dpt_ok_def)
  moreover have "\<exists>blk. h' (ca_data (dt_alloc t)) = Some blk \<and> length blk = ca_nelems (dt_alloc t)"
    using D(4) D(5) [OF p] put
    by (cases p) (auto simp: heap_put_def dpt_ok_def split: option.splits if_splits)
  ultimately have "dpt_inv h' t" using D(1-3,6) by (simp add: dpt_inv_def)
  moreover have "dpt_map h' t = (dpt_map h t)(k \<mapsto> l)"
  proof
    fix k'
    show "dpt_map h' t k' = ((dpt_map h t)(k \<mapsto> l)) k'"
    proof (cases "k' = k")
      case True
      then show ?thesis using p get [of p] by (simp add: dpt_map_def)
    next
      case False
      then show ?thesis using dpt_inj [OF inv p, of k'] get
        by (cases "ht_map (dt_table t) k'") (auto simp: dpt_map_def)
    qed
  qed
  ultimately show ?thesis using upd by blast
qed

lemma dpgt_remove_correct:
  assumes inv: "dpt_inv h t" and key: "dpt_key t k"
  shows "\<exists>t'. dpgt_remove t k = Some (dpt_map h t k \<noteq> None, t') \<and> dpt_inv h t' \<and>
    dpt_map h t' = (dpt_map h t)(k := None) \<and> dpt_cap t' = dpt_cap t"
proof -
  note D = dpt_invD [OF inv]
  have b: "unat k + ht_cap (dt_table t) < 2 ^ 64" using key by (simp add: dpt_key_def dpt_cap_def)
  show ?thesis
  proof (cases "ht_map (dt_table t) k")
    case None
    have "dpgt_remove t k = Some (False, t)"
      using ht_delete_correct(1) [OF D(1) b None] by (simp add: dpgt_remove_def)
    moreover have "dpt_map h t k = None" using None by (simp add: dpt_map_def)
    ultimately show ?thesis using inv by (auto simp: fun_upd_idem)
  next
    case (Some p)
    from ht_delete_correct(2) [OF D(1) b Some] obtain tab where
      tab: "ht_delete (dt_table t) k = Some (HTAR_SUCCESS, Some \<lparr>hkey = k, hvalue = p\<rparr>, tab)" "ht_inv tab"
        "ht_cap tab = ht_cap (dt_table t)" "ht_map tab = (ht_map (dt_table t))(k := None)" by blast
    have p: "fst p = ca_data (dt_alloc t)" "snd p \<in> ca_used (dt_alloc t)" using D(5) [OF Some] by (simp_all add: dpt_ok_def)
    from clck_alloc_free_correct [OF p] obtain ca where
      ca: "clck_alloc_free (dt_alloc t) p = Some ca" "ca_used ca = ca_used (dt_alloc t) - {snd p}"
        "ca_data ca = ca_data (dt_alloc t)" "ca_nelems ca = ca_nelems (dt_alloc t)"
        "ca_clock ca = ca_clock (dt_alloc t)" by blast
    define t' where "t' = \<lparr>dt_table = tab, dt_alloc = ca\<rparr>"
    have "dpgt_remove t k = Some (True, t')" using tab(1) ca(1) by (simp add: dpgt_remove_def t'_def)
    moreover have "dpt_inv h t'"
    proof -
      have "dpt_ok h t' k' q" if q: "ht_map tab k' = Some q" for k' q
      proof -
        have q': "ht_map (dt_table t) k' = Some q" "k' \<noteq> k" using q by (auto simp: tab(4) split: if_splits)
        then have "q \<noteq> p" using dpt_inj [OF inv Some] by auto
        with D(5) [OF q'(1)] p show ?thesis
          by (auto simp: dpt_ok_def t'_def ca(2,3) prod_eq_iff)
      qed
      moreover have "card (dom (ht_map tab)) = card (ca_used ca)"
        using D(6) Some p(2) rht.fin [OF D(1)] by (simp add: tab(4) ca(2) card_Diff_singleton_if domIff)
      ultimately show ?thesis using tab(2,3) ca D(2-4) by (simp add: dpt_inv_def t'_def)
    qed
    moreover have "dpt_map h t' = (dpt_map h t)(k := None)"
      by (simp add: dpt_map_def t'_def tab(4) fun_eq_iff)
    moreover have "dpt_map h t k \<noteq> None" using Some by (simp add: dpt_map_def)
    ultimately show ?thesis using tab(3) by (auto simp: dpt_cap_def t'_def)
  qed
qed

section \<open>Walking over the table\<close>

definition dpt_list :: "dpg_table \<Rightarrow> ptr hdata list" where
  "dpt_list t = map hdata (filter hpresent (dt_table t))"

definition dpt_pair :: "dpg_entry heap \<Rightarrow> ptr hdata \<Rightarrow> pgno \<times> lsn" where
  "dpt_pair h d = (hkey d, de_rec_lsn (the (heap_get h (hvalue d))))"

lemma dpgt_walk_visit: "dpgt_walk action ht s = visit action (map hdata (filter hpresent ht)) s"
proof (induction ht arbitrary: s)
  case (Cons e es)
  then show ?case by (cases "hpresent e") (auto split: bind_split)
qed simp

lemma ht_map_of: "ht_map ht = map_of (map (\<lambda>d. (hkey d, hvalue d)) (map hdata (filter hpresent ht)))"
proof
  fix k
  show "ht_map ht k = map_of (map (\<lambda>d. (hkey d, hvalue d)) (map hdata (filter hpresent ht))) k"
    by (induction ht) (auto simp: ht_map_def)
qed

lemma ht_keys_distinct:
  assumes "ht_inv ht"
  shows "distinct (map hkey (map hdata (filter hpresent ht)))"
proof (rule card_distinct)
  have "dom (ht_map ht) = set (map hkey (map hdata (filter hpresent ht)))"
    unfolding ht_map_of dom_map_of_conv_image_fst by force
  with ht_card_dom [OF assms]
  show "card (set (map hkey (map hdata (filter hpresent ht)))) = length (map hkey (map hdata (filter hpresent ht)))"
    by simp
qed

lemma dpt_list_map:
  assumes "dpt_inv h t" "d \<in> set (dpt_list t)"
  shows "ht_map (dt_table t) (hkey d) = Some (hvalue d)"
proof -
  have "distinct (map fst (map (\<lambda>d. (hkey d, hvalue d)) (dpt_list t)))"
    using ht_keys_distinct [OF dpt_invD(1) [OF assms(1)]] by (simp add: dpt_list_def o_def)
  with assms(2) show ?thesis
    unfolding ht_map_of by (auto simp: dpt_list_def [symmetric] map_of_eq_Some_iff)
qed

lemma dpt_list_entry:
  assumes "dpt_inv h t" "d \<in> set (dpt_list t)"
  shows "\<exists>l. heap_get h (hvalue d) = Some \<lparr>de_rec_lsn = l, de_pg = hkey d\<rparr> \<and> dpt_pair h d = (hkey d, l) \<and>
    dpt_map h t (hkey d) = Some l"
proof -
  note m = dpt_list_map [OF assms]
  from dpt_invD(5) [OF assms(1) m] obtain e where "heap_get h (hvalue d) = Some e" "de_pg e = hkey d"
    by (auto simp: dpt_ok_def)
  with m show ?thesis by (intro exI [of _ "de_rec_lsn e"]) (cases e, simp add: dpt_pair_def dpt_map_def)
qed

lemma dpt_pairs:
  assumes "dpt_inv h t"
  shows "dpt_map h t = map_of (map (dpt_pair h) (dpt_list t))"
    "distinct (map fst (map (dpt_pair h) (dpt_list t)))"
    "length (dpt_list t) = card (dom (dpt_map h t))"
proof -
  have "map_option (\<lambda>p. de_rec_lsn (the (heap_get h p))) (map_of (map (\<lambda>d. (hkey d, hvalue d)) ds) k)
      = map_of (map (dpt_pair h) ds) k" for ds k
    by (induction ds) (simp_all add: dpt_pair_def)
  then show "dpt_map h t = map_of (map (dpt_pair h) (dpt_list t))"
    unfolding fun_eq_iff dpt_map_def ht_map_of dpt_list_def by blast
  show "distinct (map fst (map (dpt_pair h) (dpt_list t)))"
    using ht_keys_distinct [OF dpt_invD(1) [OF assms]] by (simp add: dpt_list_def o_def dpt_pair_def)
  show "length (dpt_list t) = card (dom (dpt_map h t))"
    using ht_card_dom [OF dpt_invD(1) [OF assms]] by (simp add: dpt_list_def)
qed

lemma dpt_ran:
  assumes "dpt_inv h t"
  shows "ran (dpt_map h t) = snd ` dpt_pair h ` set (dpt_list t)"
  unfolding dpt_pairs(1) [OF assms] using ran_distinct [OF dpt_pairs(2) [OF assms]]
  by (simp add: image_image)

subsection \<open>The least recovery position\<close>

lemma min_visit:
  "\<forall>d \<in> set ds. \<exists>l. heap_get h (hvalue d) = Some \<lparr>de_rec_lsn = l, de_pg = hkey d\<rparr> \<Longrightarrow>
   visit (dpgt_min_step h) ds m = Some (Min (insert m (snd ` dpt_pair h ` set ds)))"
proof (induction ds arbitrary: m)
  case Nil
  then show ?case by simp
next
  case (Cons d ds)
  then obtain l where l: "heap_get h (hvalue d) = Some \<lparr>de_rec_lsn = l, de_pg = hkey d\<rparr>" by auto
  have "dpgt_min_step h d m = Some (min l m)" using l by (auto simp: dpgt_min_step_def min_def)
  moreover have "visit (dpgt_min_step h) ds (min l m) = Some (Min (insert (min l m) (snd ` dpt_pair h ` set ds)))"
    using Cons.prems by (intro Cons.IH) simp
  moreover have "Min (insert (min l m) S) = Min (insert m (insert l S))" if "finite S" for S
    using that by (cases "S = {}") (simp_all add: ac_simps)
  ultimately show ?case by (simp add: dpt_pair_def l del: Min_insert)
qed

lemma dpgt_min_rec_lsn_correct:
  assumes "dpt_inv h t"
  shows "dpgt_min_rec_lsn h t = Some (Min (insert (- 1) (ran (dpt_map h t))))"
proof -
  have "\<forall>d \<in> set (dpt_list t). \<exists>l. heap_get h (hvalue d) = Some \<lparr>de_rec_lsn = l, de_pg = hkey d\<rparr>"
    using dpt_list_entry [OF assms] by blast
  from min_visit [OF this] show ?thesis
    by (simp add: dpgt_min_rec_lsn_def dpgt_walk_visit dpt_list_def [symmetric] dpt_ran [OF assms])
qed

subsection \<open>Comparison\<close>

lemma equal_loop:
  assumes "dpt_inv h r"
    "\<forall>d \<in> set (map hdata (filter hpresent es)). dpt_key r (hkey d) \<and>
       (\<exists>l. heap_get h (hvalue d) = Some \<lparr>de_rec_lsn = l, de_pg = hkey d\<rparr>)"
  shows "dpgt_equal_loop h es (dt_table r) n = Some
    (if \<forall>(k, l) \<in> set (map (dpt_pair h) (map hdata (filter hpresent es))). dpt_map h r k = Some l
     then Some (n + length (filter hpresent es)) else None)"
  using assms(2)
proof (induction es arbitrary: n)
  case Nil
  then show ?case by simp
next
  case (Cons e es)
  show ?case
  proof (cases "hpresent e")
    case False
    with Cons show ?thesis by simp
  next
    case True
    let ?k = "hkey (hdata e)"
    from Cons.prems True obtain l where l: "heap_get h (hvalue (hdata e)) = Some \<lparr>de_rec_lsn = l, de_pg = ?k\<rparr>"
      and key: "dpt_key r ?k" by auto
    have pair: "dpt_pair h (hdata e) = (?k, l)" by (simp add: dpt_pair_def l)
    have "unat ?k + ht_cap (dt_table r) < 2 ^ 64" using key by (simp add: dpt_key_def dpt_cap_def)
    note g = ht_get_correct [OF dpt_invD(1) [OF assms(1)] this]
    show ?thesis
    proof (cases "ht_map (dt_table r) ?k")
      case None
      then have "dpt_map h r ?k = None" by (simp add: dpt_map_def)
      with g None True pair show ?thesis by simp
    next
      case (Some p)
      from dpt_invD(5) [OF assms(1) Some] obtain x where x: "heap_get h p = Some x" "de_pg x = ?k"
        by (auto simp: dpt_ok_def)
      then have "dpt_map h r ?k = Some (de_rec_lsn x)" using Some by (simp add: dpt_map_def)
      with g Some True pair x l Cons show ?thesis by auto
    qed
  qed
qed

lemma dpgt_equal_correct:
  assumes l: "dpt_inv h l" and r: "dpt_inv h r" and cap: "dpt_cap l = dpt_cap r"
  shows "dpgt_equal h l r = Some (dpt_map h l = dpt_map h r)"
proof -
  have keys: "dpt_key r (hkey d)" if d: "d \<in> set (dpt_list l)" for d
  proof -
    from d obtain s where s: "s < ht_cap (dt_table l)" "hpresent (dt_table l ! s)" "hdata (dt_table l ! s) = d"
      by (auto simp: dpt_list_def in_set_conv_nth)
    have "unat (ht_key (dt_table l) s) + ht_cap (dt_table l) < 18446744073709551616"
      using s by (intro ht_key_bound [OF dpt_invD(1) [OF l]]) (simp_all add: ht_pres_def)
    with s(3) cap show ?thesis by (simp add: dpt_key_def dpt_cap_def ht_key_def)
  qed
  have "\<forall>d \<in> set (map hdata (filter hpresent (dt_table l))). dpt_key r (hkey d) \<and>
     (\<exists>l. heap_get h (hvalue d) = Some \<lparr>de_rec_lsn = l, de_pg = hkey d\<rparr>)"
    using keys dpt_list_entry [OF l] unfolding dpt_list_def by blast
  note loop = equal_loop [OF r this, of 0, folded dpt_list_def]
  have le: "(\<forall>(k, v) \<in> set (map (dpt_pair h) (dpt_list l)). dpt_map h r k = Some v) \<longleftrightarrow> dpt_map h l \<subseteq>\<^sub>m dpt_map h r"
  proof -
    have "(k, v) \<in> set (map (dpt_pair h) (dpt_list l)) \<longleftrightarrow> dpt_map h l k = Some v" for k v
      unfolding dpt_pairs(1) [OF l] by (rule map_of_eq_Some_iff [OF dpt_pairs(2) [OF l], symmetric])
    then have "(\<forall>(k, v) \<in> set (map (dpt_pair h) (dpt_list l)). dpt_map h r k = Some v) \<longleftrightarrow>
        (\<forall>k v. dpt_map h l k = Some v \<longrightarrow> dpt_map h r k = Some v)" by (simp only: split_paired_Ball_Sigma Ball_def split_paired_All prod.case)
    also have "\<dots> \<longleftrightarrow> dpt_map h l \<subseteq>\<^sub>m dpt_map h r" by (auto simp: map_le_def dom_def)
    finally show ?thesis .
  qed
  have fin: "finite (dom (dpt_map h r))" using rht.fin [OF dpt_invD(1) [OF r]] by simp
  have n: "length (filter hpresent (dt_table l)) = card (dom (dpt_map h l))"
    "length (filter hpresent (dt_table r)) = card (dom (dpt_map h r))"
    using ht_card_dom [OF dpt_invD(1) [OF l]] ht_card_dom [OF dpt_invD(1) [OF r]] by simp_all
  have "dpt_map h l \<subseteq>\<^sub>m dpt_map h r \<and> card (dom (dpt_map h l)) = card (dom (dpt_map h r)) \<longleftrightarrow> dpt_map h l = dpt_map h r"
  proof
    assume a: "dpt_map h l \<subseteq>\<^sub>m dpt_map h r \<and> card (dom (dpt_map h l)) = card (dom (dpt_map h r))"
    then have "dom (dpt_map h l) = dom (dpt_map h r)"
      using map_le_implies_dom_le card_subset_eq [OF fin] by blast
    with a show "dpt_map h l = dpt_map h r"
      by (intro map_le_antisym) (auto simp: map_le_def)
  qed simp
  with loop le n show ?thesis by (auto simp: dpgt_equal_def)
qed

section \<open>Serialization keeps the map\<close>

definition dpt_rec :: "pgno \<times> lsn \<Rightarrow> u8 list list" where
  "dpt_rec x = [bytes64 (fst x), bytes64 (snd x)]"

lemma length_dpt_rec [simp]: "length (concat (dpt_rec x)) = 16"
  by (simp add: dpt_rec_def)

lemma length_dpt_recs [simp]: "length (concat (map (\<lambda>x. concat (dpt_rec (f x))) xs)) = 16 * length xs"
  by (induction xs) simp_all

lemma serialize_step:
  assumes "dpt_inv h t" "d \<in> set (dpt_list t)"
  shows "dpgt_serialize_step h d s = srlizr_write_all s (dpt_rec (dpt_pair h d))"
  using dpt_list_entry [OF assms]
  by (auto simp: dpgt_serialize_step_def dpt_rec_def split: bind_splits)

lemma dpt_serialize_visit:
  assumes "dpt_inv h t"
  shows "set ds \<subseteq> set (dpt_list t) \<Longrightarrow> sr_wf s \<Longrightarrow>
   if 16 * length ds \<le> sr_room s
   then \<exists>s'. visit (dpgt_serialize_step h) ds s = Some s' \<and> sr_wf s' \<and>
     sr_out s' = sr_out s @ concat (map (\<lambda>x. concat (dpt_rec (dpt_pair h x))) ds)
   else visit (dpgt_serialize_step h) ds s = None"
proof (induction ds arbitrary: s)
  case Nil
  then show ?case by simp
next
  case (Cons d ds)
  have d: "d \<in> set (dpt_list t)" using Cons.prems(1) by simp
  note step = serialize_step [OF assms d]
  show ?case
  proof (cases "16 \<le> sr_room s")
    case True
    from srlizr_write_all_correct [OF Cons.prems(2), of "dpt_rec (dpt_pair h d)"] True obtain s1 where
      s1: "srlizr_write_all s (dpt_rec (dpt_pair h d)) = Some s1" "sr_wf s1"
        "sr_out s1 = sr_out s @ concat (dpt_rec (dpt_pair h d))" "sr_room s1 = sr_room s - 16" by auto
    have "16 * length ds \<le> sr_room s1 \<longleftrightarrow> 16 * length (d # ds) \<le> sr_room s" using s1(4) True by auto
    moreover have "set ds \<subseteq> set (dpt_list t)" using Cons.prems(1) by simp
    ultimately show ?thesis using Cons.IH [OF _ s1(2)] s1 by (auto simp: step)
  next
    case False
    have "srlizr_write_all s (dpt_rec (dpt_pair h d)) = None"
      by (rule srlizr_write_all_full [OF Cons.prems(2)]) (use False in \<open>simp_all add: dpt_rec_def\<close>)
    with False show ?thesis by (simp add: step)
  qed
qed

lemma map_add_upd_first:
  "k \<notin> fst ` set ps \<Longrightarrow> m(k \<mapsto> v) ++ map_of ps = m ++ map_of ((k, v) # ps)"
proof -
  assume "k \<notin> fst ` set ps"
  then have "map_of ps k = None" by (simp add: map_of_eq_None_iff)
  then show ?thesis by (auto simp: map_add_def fun_eq_iff split: option.split)
qed

lemma dpt_deserialize_loop_correct:
  assumes "ds_wf d" "ds_rest d = concat (map (\<lambda>x. concat (dpt_rec x)) ps)" "dpt_inv h t"
    "\<forall>x \<in> set ps. dpt_key t (fst x) \<and> dpt_map h t (fst x) = None" "distinct (map fst ps)"
    "card (dom (dpt_map h t)) + length ps \<le> dpt_cap t"
  shows "\<exists>h' t'. dpgt_deserialize_loop h t d = Some (h', t') \<and> dpt_inv h' t' \<and>
    dpt_map h' t' = dpt_map h t ++ map_of ps \<and> dpt_cap t' = dpt_cap t"
  using assms
proof (induction ps arbitrary: d h t)
  case Nil
  have "dsrlizr_read 8 d = Some (None, d)"
    using dsrlizr_read_correct [OF Nil.prems(1), of 8] Nil.prems(2) by simp
  with Nil show ?case by (subst dpgt_deserialize_loop.simps) simp
next
  case (Cons x ps)
  let ?k = "fst x" and ?l = "snd x"
  have rest: "ds_rest d = bytes64 ?k @ bytes64 ?l @ concat (map (\<lambda>x. concat (dpt_rec x)) ps)"
    using Cons.prems(2) by (simp add: dpt_rec_def)
  from dsrlizr_read_correct [OF Cons.prems(1), of 8] rest obtain d1 where
    d1: "dsrlizr_read 8 d = Some (Some (bytes64 ?k), d1)" "ds_wf d1"
      "ds_rest d1 = bytes64 ?l @ concat (map (\<lambda>x. concat (dpt_rec x)) ps)" by auto
  from dsrlizr_read_expect_correct [OF d1(2), of 8] d1(3) obtain d2 where
    d2: "dsrlizr_read_expect 8 d1 = Some (bytes64 ?l, d2)" "ds_wf d2"
      "ds_rest d2 = concat (map (\<lambda>x. concat (dpt_rec x)) ps)" by auto
  have "dpt_key t ?k" "dpt_map h t ?k = None" "card (dom (dpt_map h t)) < dpt_cap t"
    using Cons.prems(4,6) by simp_all
  from dpgt_add_new [OF Cons.prems(3) this, of ?l] obtain h1 t1 where
    t1: "dpgt_add h t ?k ?l = Some (Inr (), h1, t1)" "dpt_inv h1 t1"
      "dpt_map h1 t1 = (dpt_map h t)(?k \<mapsto> ?l)" "dpt_cap t1 = dpt_cap t" by blast
  have "\<exists>h' t'. dpgt_deserialize_loop h1 t1 d2 = Some (h', t') \<and> dpt_inv h' t' \<and>
    dpt_map h' t' = dpt_map h1 t1 ++ map_of ps \<and> dpt_cap t' = dpt_cap t1"
  proof (rule Cons.IH [OF d2(2,3) t1(2)])
    show "\<forall>y \<in> set ps. dpt_key t1 (fst y) \<and> dpt_map h1 t1 (fst y) = None"
    proof
      fix y assume y: "y \<in> set ps"
      have "fst x \<notin> fst ` set ps" using Cons.prems(5) by simp
      with imageI [OF y, of fst] have "fst y \<noteq> fst x" by metis
      with y Cons.prems(4) t1(3,4) show "dpt_key t1 (fst y) \<and> dpt_map h1 t1 (fst y) = None"
        by (simp add: dpt_key_def)
    qed
    show "card (dom (dpt_map h1 t1)) + length ps \<le> dpt_cap t1"
      using Cons.prems(6) t1(4) rht.fin [OF dpt_invD(1) [OF Cons.prems(3)]]
      unfolding t1(3) by (simp add: card_insert_if)
  qed (use Cons.prems(5) in simp)
  moreover have "(dpt_map h t)(?k \<mapsto> ?l) ++ map_of ps = dpt_map h t ++ map_of (x # ps)"
    using map_add_upd_first [of ?k ps "dpt_map h t" ?l] Cons.prems(5) by (simp del: map_of.simps)
  moreover have "dpgt_deserialize_loop h t d = dpgt_deserialize_loop h1 t1 d2"
    by (subst dpgt_deserialize_loop.simps) (simp add: d1(1) d2(1) t1(1))
  ultimately show ?case using t1(3,4) by (simp del: map_of.simps)
qed

lemma dpgt_open_correct:
  "\<exists>t h'. dpgt_open True (Some b) h = Some (Inr t, h') \<and> dpt_inv h' t \<and> dpt_map h' t = Map.empty \<and>
     dpt_cap t = DPT_CAP"
proof -
  note I = ht_init_inv [of DPT_CAP "(0 :: nat, 0 :: nat)"]
  have c: "0 < DPT_CAP" "DPT_CAP < 2 ^ 32" by (simp_all add: DPT_CAP_def)
  note I = I(1) [OF c] I(2) [OF c] I(3) [OF c]
  have m: "dpt_map h' \<lparr>dt_table = ht_init (0, 0) DPT_CAP, dt_alloc = a\<rparr> = Map.empty" for h' a
    by (simp add: dpt_map_def fun_eq_iff I(2))
  show ?thesis
    using c(1) I m
    by (auto simp: dpgt_open_def clck_alloc_open_def dpt_inv_def ca_used_def dpt_cap_def)
qed

section \<open>Merging\<close>

lemma merge_visit:
  assumes "ht_inv ht" "\<forall>d \<in> set ds. unat (hkey d) + ht_cap ht < 2 ^ 64"
    "card (dom (ht_map ht) \<union> hkey ` set ds) \<le> ht_cap ht"
  shows "\<exists>ht'. visit dpgt_merge_step ds ht = Some ht' \<and> ht_inv ht' \<and> ht_cap ht' = ht_cap ht \<and>
    (distinct (map hkey ds) \<longrightarrow> ht_map ht' = ht_map ht ++ map_of (map (\<lambda>d. (hkey d, hvalue d)) ds))"
  using assms
proof (induction ds arbitrary: ht)
  case Nil
  then show ?case by simp
next
  case (Cons d ds)
  have b: "unat (hkey d) + ht_cap ht < 2 ^ 64" using Cons.prems(2) by simp
  have "\<exists>r x ht1. ht_delete ht (hkey d) = Some (r, x, ht1) \<and> ht_inv ht1 \<and> ht_cap ht1 = ht_cap ht \<and>
    ht_map ht1 = (ht_map ht)(hkey d := None)"
    using ht_delete_correct [OF Cons.prems(1) b] Cons.prems(1)
    by (cases "ht_map ht (hkey d)") (auto simp: fun_upd_idem)
  then obtain r x ht1 where
    h1: "ht_delete ht (hkey d) = Some (r, x, ht1)" "ht_inv ht1" "ht_cap ht1 = ht_cap ht"
      "ht_map ht1 = (ht_map ht)(hkey d := None)" by blast
  have fin: "finite (dom (ht_map ht))" using rht.fin [OF Cons.prems(1)] .
  have "card (dom (ht_map ht1)) < card (insert (hkey d) (dom (ht_map ht)))"
    using fin by (intro psubset_card_mono) (auto simp: h1(4))
  also have "\<dots> \<le> card (dom (ht_map ht) \<union> hkey ` set (d # ds))"
    using fin by (intro card_mono) auto
  finally have "\<not> ht_full ht1" using Cons.prems(3) h1(3) ht_full_card [OF h1(2)] by simp
  moreover have "unat (hkey d) + ht_cap ht1 < 2 ^ 64" "ht_map ht1 (hkey d) = None" using b h1 by simp_all
  ultimately obtain ht2 where
    h2: "ht_insert ht1 d = Some (HTIR_SUCCESS, ht2)" "ht_inv ht2" "ht_cap ht2 = ht_cap ht"
      "ht_map ht2 = (ht_map ht)(hkey d \<mapsto> hvalue d)"
    using ht_insert_correct(2) [OF h1(2), of d] h1(3,4) by auto
  have "dpgt_merge_step d ht = Some ht2" using h1(1) h2(1) by (simp add: dpgt_merge_step_def ht_insert_expect_def)
  moreover have "dom (ht_map ht2) \<union> hkey ` set ds = dom (ht_map ht) \<union> hkey ` set (d # ds)" by (auto simp: h2(4))
  then obtain ht3 where h3: "visit dpgt_merge_step ds ht2 = Some ht3" "ht_inv ht3" "ht_cap ht3 = ht_cap ht2"
    "distinct (map hkey ds) \<longrightarrow> ht_map ht3 = ht_map ht2 ++ map_of (map (\<lambda>d. (hkey d, hvalue d)) ds)"
    using Cons.IH [OF h2(2)] Cons.prems(2,3) h2(3) by auto
  moreover have "ht_map ht3 = ht_map ht ++ map_of (map (\<lambda>d. (hkey d, hvalue d)) (d # ds))"
    if "distinct (map hkey (d # ds))"
  proof -
    have "hkey d \<notin> fst ` set (map (\<lambda>d. (hkey d, hvalue d)) ds)" using that by (simp add: image_image)
    from map_add_upd_first [OF this, of "ht_map ht" "hvalue d"] h3(4) that show ?thesis
      by (simp only: h2(4) distinct.simps list.map simp_thms)
  qed
  ultimately show ?case using h2(3) h3(1-3)
    by (intro exI [of _ ht3]) (simp del: map_of.simps list.map fun_upd_apply distinct.simps)
qed

lemma dpgt_merge_correct:
  assumes d: "dpt_inv h dest" and s: "dpt_inv h src" and cap: "dpt_cap dest = dpt_cap src"
    and room: "card (dom (dpt_map h dest) \<union> dom (dpt_map h src)) \<le> dpt_cap dest"
  shows "\<exists>t'. dpgt_merge_into dest src = Some t' \<and> ht_inv (dt_table t') \<and> dt_alloc t' = dt_alloc dest \<and>
    dpt_cap t' = dpt_cap dest \<and> ht_map (dt_table t') = ht_map (dt_table dest) ++ ht_map (dt_table src)"
proof -
  let ?ds = "map hdata (filter hpresent (dt_table src))"
  have dom: "hkey ` set ?ds = dom (dpt_map h src)"
    unfolding dom_dpt_map ht_map_of dom_map_of_conv_image_fst by force
  have keys: "\<forall>x \<in> set ?ds. unat (hkey x) + ht_cap (dt_table dest) < 2 ^ 64"
  proof
    fix x assume "x \<in> set ?ds"
    then obtain i where i: "i < ht_cap (dt_table src)" "hpresent (dt_table src ! i)" "hdata (dt_table src ! i) = x"
      by (auto simp: in_set_conv_nth)
    have "unat (ht_key (dt_table src) i) + ht_cap (dt_table src) < 18446744073709551616"
      using i by (intro ht_key_bound [OF dpt_invD(1) [OF s]]) (simp_all add: ht_pres_def)
    with i(3) cap show "unat (hkey x) + ht_cap (dt_table dest) < 2 ^ 64" by (simp add: dpt_cap_def ht_key_def)
  qed
  have room': "card (dom (ht_map (dt_table dest)) \<union> hkey ` set ?ds) \<le> ht_cap (dt_table dest)"
    using room unfolding dom by (simp add: dpt_cap_def)
  from merge_visit [OF dpt_invD(1) [OF d] keys room'] ht_keys_distinct [OF dpt_invD(1) [OF s]] obtain tab where
    "visit dpgt_merge_step ?ds (dt_table dest) = Some tab" "ht_inv tab" "ht_cap tab = ht_cap (dt_table dest)"
    "ht_map tab = ht_map (dt_table dest) ++ map_of (map (\<lambda>d. (hkey d, hvalue d)) ?ds)" by blast
  then show ?thesis
    by (simp add: dpgt_merge_into_def dpgt_walk_visit dpt_cap_def ht_map_of [of "dt_table src"])
qed

lemma dpgt_serialize_correct:
  assumes inv: "dpt_inv h t" and buf: "length dest = MAX_DPGT_SRL_SIZE"
  shows "if card (dom (dpt_map h t)) \<le> 100
    then \<exists>src. dpgt_serialize h dest t = Some (16 * length (dpt_list t), src) \<and> 16 * length (dpt_list t) \<le> length src \<and>
      take (16 * length (dpt_list t)) src = concat (map (\<lambda>x. concat (dpt_rec x)) (map (dpt_pair h) (dpt_list t)))
    else dpgt_serialize h dest t = None"
proof -
  let ?s = "srlizr_create dest MAX_DPGT_SRL_SIZE"
  have wf: "sr_wf ?s" and room: "sr_room ?s = 1600"
    using buf by (simp_all add: MAX_DPGT_SRL_SIZE_def)
  note len = dpt_pairs(3) [OF inv]
  note ser = dpt_serialize_visit [OF inv subset_refl wf]
  have code: "dpgt_serialize h dest t = do {
      s \<leftarrow> visit (dpgt_serialize_step h) (dpt_list t) ?s; Some (sr_dlen s, sr_data s) }"
    by (simp add: dpgt_serialize_def dpgt_walk_visit dpt_list_def)
  show ?thesis
  proof (cases "card (dom (dpt_map h t)) \<le> 100")
    case False
    then have "\<not> 16 * length (dpt_list t) \<le> sr_room ?s" using len room by simp
    with ser have "dpgt_serialize h dest t = None" by (simp add: code)
    with False show ?thesis by simp
  next
    case True
    then have "16 * length (dpt_list t) \<le> sr_room ?s" using len room by simp
    with ser obtain s where
      s: "visit (dpgt_serialize_step h) (dpt_list t) ?s = Some s" "sr_wf s"
        "sr_out s = concat (map (\<lambda>x. concat (dpt_rec (dpt_pair h x))) (dpt_list t))" by auto
    have out: "sr_out s = concat (map (\<lambda>x. concat (dpt_rec x)) (map (dpt_pair h) (dpt_list t)))" using s(3) by (simp add: o_def)
    have n: "sr_dlen s = 16 * length (dpt_list t)" "sr_dlen s \<le> length (sr_data s)"
      using arg_cong [OF s(3), of length] s(2) by (auto simp: sr_out_def sr_wf_def)
    have "take (sr_dlen s) (sr_data s) = concat (map (\<lambda>x. concat (dpt_rec x)) (map (dpt_pair h) (dpt_list t)))"
      using out by (simp add: sr_out_def)
    with True s(1) n show ?thesis unfolding code by auto
  qed
qed

text \<open>Reading back needs no more than the bytes of the pairs; what follows them is not looked at.\<close>

lemma dpgt_deserialize_correct:
  assumes src: "take (16 * length ps) src = concat (map (\<lambda>x. concat (dpt_rec x)) ps)"
    "16 * length ps \<le> length src" "length ps \<le> 100"
    and keys: "\<forall>x \<in> set ps. unat (fst x) + DPT_CAP < 18446744073709551616" "distinct (map fst ps)"
  shows "\<exists>h' t'. dpgt_deserialize True (Some b) h src (16 * length ps) = Some (Inr t', h') \<and>
    dpt_inv h' t' \<and> dpt_map h' t' = map_of ps \<and> dpt_cap t' = DPT_CAP"
proof -
  from dpgt_open_correct [of b h] obtain t0 h0 where
    t0: "dpgt_open True (Some b) h = Some (Inr t0, h0)" "dpt_inv h0 t0" "dpt_map h0 t0 = Map.empty"
      "dpt_cap t0 = DPT_CAP" by blast
  show ?thesis
  proof (cases "ps = []")
    case True
    with t0 show ?thesis by (simp add: dpgt_deserialize_def)
  next
    case False
    define n where "n = 16 * length ps"
    have n: "0 < n" "n \<le> 1600" "n \<le> length src" using False src by (simp_all add: n_def)
    have keys': "\<forall>x \<in> set ps. dpt_key t0 (fst x) \<and> dpt_map h0 t0 (fst x) = None"
      using keys(1) by (simp add: dpt_key_def t0(3,4))
    have "\<exists>h' t'. dpgt_deserialize_loop h0 t0 (dsrlizr_create src n) = Some (h', t') \<and> dpt_inv h' t' \<and>
      dpt_map h' t' = dpt_map h0 t0 ++ map_of ps \<and> dpt_cap t' = dpt_cap t0"
    proof (rule dpt_deserialize_loop_correct [OF _ _ t0(2) keys' keys(2)])
      show "ds_wf (dsrlizr_create src n)" using n by (intro dsrlizr_create_wf) simp_all
      show "ds_rest (dsrlizr_create src n) = concat (map (\<lambda>x. concat (dpt_rec x)) ps)"
        using src(1) by (simp add: n_def)
      show "card (dom (dpt_map h0 t0)) + length ps \<le> dpt_cap t0"
        using src(3) by (simp add: t0(3,4) DPT_CAP_def del: dom_dpt_map)
    qed
    moreover have "ds_dlen (dsrlizr_create src n) = n" by (simp add: dsrlizr_create_def)
    ultimately show ?thesis using t0(1,3,4) n(1,2)
      by (auto simp: dpgt_deserialize_def MAX_DPGT_SRL_SIZE_def n_def [symmetric])
  qed
qed

lemma dpt_pair_keys:
  assumes inv: "dpt_inv h t"
  shows "\<forall>x \<in> set (map (dpt_pair h) (dpt_list t)). unat (fst x) + dpt_cap t < 18446744073709551616"
proof
  fix x assume "x \<in> set (map (dpt_pair h) (dpt_list t))"
  then obtain i where i: "i < ht_cap (dt_table t)" "hpresent (dt_table t ! i)" "fst x = ht_key (dt_table t) i"
    by (auto simp: dpt_list_def in_set_conv_nth dpt_pair_def ht_key_def)
  then show "unat (fst x) + dpt_cap t < 18446744073709551616"
    unfolding i(3) dpt_cap_def by (intro ht_key_bound [OF dpt_invD(1) [OF inv]]) (simp_all add: ht_pres_def)
qed

section \<open>Properties\<close>

lemma dpt_example:
  "\<exists>t0 h0 t h. dpgt_open True (Some 3) Map.empty = Some (Inr t0, h0) \<and>
     dpgt_add h0 t0 5 40 = Some (Inr (), h, t) \<and> dpt_inv h t \<and> dpt_map h t = [5 \<mapsto> 40] \<and>
     dpt_cap t = DPT_CAP"
proof -
  from dpgt_open_correct [of 3 Map.empty] obtain t h where
    t: "dpgt_open True (Some 3) Map.empty = Some (Inr t, h)" "dpt_inv h t" "dpt_map h t = Map.empty"
      "dpt_cap t = DPT_CAP" by blast
  have "dpt_key t 5" "dpt_map h t 5 = None" "card (dom (dpt_map h t)) < dpt_cap t"
    by (simp_all add: dpt_key_def t(3,4) DPT_CAP_def del: dom_dpt_map)
  from dpgt_add_new [OF t(2) this, of 40] t show ?thesis by auto
qed

text \<open>C23: The dirty page table is a finite map from pages to recovery positions. With the invariant, and
  for a page number that leaves room below \<open>2 ^ 64\<close>: a lookup finds what the map holds; a new page is
  added unless the table is full, which is an error and changes nothing; an update and a removal are
  those of the map; and the least recovery position is the least of the map, or the greatest number
  when it is empty.\<close>

theorem dirty_page_table_refines_map:
  assumes "dpt_inv h t" and "dpt_key t k"
  shows "dpe_get h t k = Some (map_option (\<lambda>l. \<lparr>de_rec_lsn = l, de_pg = k\<rparr>) (dpt_map h t k)) \<and>
    dpgt_min_rec_lsn h t = Some (Min (insert (- 1) (ran (dpt_map h t)))) \<and>
    (\<exists>t'. dpgt_remove t k = Some (dpt_map h t k \<noteq> None, t') \<and> dpt_inv h t' \<and>
       dpt_map h t' = (dpt_map h t)(k := None)) \<and>
    (if dpt_map h t k \<noteq> None
     then \<exists>h'. dpgt_update h t k l = Some h' \<and> dpt_inv h' t \<and> dpt_map h' t = (dpt_map h t)(k \<mapsto> l)
     else if card (dom (dpt_map h t)) < dpt_cap t
     then \<exists>h' t'. dpgt_add h t k l = Some (Inr (), h', t') \<and> dpt_inv h' t' \<and> dpt_map h' t' = (dpt_map h t)(k \<mapsto> l)
     else \<exists>t'. dpgt_add h t k l = Some (Inl ERR_DPGT_FULL, h, t') \<and> dpt_inv h t' \<and> dpt_map h t' = dpt_map h t)"
proof -
  have le: "card (dom (dpt_map h t)) \<le> dpt_cap t"
    using ht_card_dom [OF dpt_invD(1) [OF assms(1)]] by (simp add: dpt_cap_def)
  show ?thesis
    using dpe_get_correct [OF assms] dpgt_min_rec_lsn_correct [OF assms(1)] dpgt_remove_correct [OF assms]
      dpgt_update_correct [OF assms, of l] dpgt_add_new [OF assms, of l] dpgt_add_full [OF assms(1), of k l] le
    by (auto simp del: dom_dpt_map)
qed

theorem dirty_page_table_refines_map_witness:
  "\<exists>t0 h0 t h t'. dpgt_open True (Some 3) Map.empty = Some (Inr t0, h0) \<and>
     dpgt_add h0 t0 5 40 = Some (Inr (), h, t) \<and>
     dpe_get h t 5 = Some (Some \<lparr>de_rec_lsn = 40, de_pg = 5\<rparr>) \<and> dpgt_min_rec_lsn h t = Some 40 \<and>
     dpgt_remove t 5 = Some (True, t')"
proof -
  from dpt_example obtain t0 h0 t h where
    t: "dpgt_open True (Some 3) Map.empty = Some (Inr t0, h0)" "dpgt_add h0 t0 5 40 = Some (Inr (), h, t)"
      "dpt_inv h t" "dpt_map h t = [5 \<mapsto> 40]" "dpt_cap t = DPT_CAP" by blast
  have k: "dpt_key t 5" by (simp add: dpt_key_def t(5) DPT_CAP_def)
  from dirty_page_table_refines_map [OF t(3) k] t show ?thesis by auto
qed

text \<open>The comparison of two dirty page tables decides whether they hold the same map.\<close>

theorem dpgt_equal_decides:
  assumes "dpt_inv h l" and "dpt_inv h r" and "dpt_cap l = dpt_cap r"
  shows "dpgt_equal h l r = Some (dpt_map h l = dpt_map h r)"
  using assms by (rule dpgt_equal_correct)

theorem dpgt_equal_decides_witness:
  "\<exists>t0 h0 t h. dpgt_open True (Some 3) Map.empty = Some (Inr t0, h0) \<and>
     dpgt_add h0 t0 5 40 = Some (Inr (), h, t) \<and> dpgt_equal h t t = Some True"
proof -
  from dpt_example obtain t0 h0 t h where
    t: "dpgt_open True (Some 3) Map.empty = Some (Inr t0, h0)" "dpgt_add h0 t0 5 40 = Some (Inr (), h, t)"
      "dpt_inv h t" by blast
  from dpgt_equal_decides [OF t(3,3) refl] t(1,2) show ?thesis by auto
qed

text \<open>C24: A table of at most 100 pages survives a checkpoint: what is written is read back as a table
  with the same map. A table with more pages does not fit the buffer, and writing it fails an
  assertion; the table itself has room for 100000.\<close>

theorem dpgt_serialize_roundtrip:
  assumes inv: "dpt_inv h t" and cap: "dpt_cap t = DPT_CAP" and buf: "length dest = MAX_DPGT_SRL_SIZE"
  shows "if card (dom (dpt_map h t)) \<le> 100
    then \<exists>n buf h' t'. dpgt_serialize h dest t = Some (n, buf) \<and>
      dpgt_deserialize True (Some b) h buf n = Some (Inr t', h') \<and>
      dpt_inv h' t' \<and> dpt_map h' t' = dpt_map h t
    else dpgt_serialize h dest t = None"
proof (cases "card (dom (dpt_map h t)) \<le> 100")
  case False
  with dpgt_serialize_correct [OF inv buf] show ?thesis by simp
next
  case True
  let ?ps = "map (dpt_pair h) (dpt_list t)"
  from True dpgt_serialize_correct [OF inv buf] obtain src where
    s: "dpgt_serialize h dest t = Some (16 * length ?ps, src)" "16 * length ?ps \<le> length src"
      "take (16 * length ?ps) src = concat (map (\<lambda>x. concat (dpt_rec x)) ?ps)" by auto
  have "length ?ps \<le> 100" using True dpt_pairs(3) [OF inv] by simp
  from dpgt_deserialize_correct [OF s(3,2) this dpt_pair_keys [OF inv, unfolded cap] dpt_pairs(2) [OF inv], of b h] obtain h' t' where
    "dpgt_deserialize True (Some b) h src (16 * length ?ps) = Some (Inr t', h')" "dpt_inv h' t'"
    "dpt_map h' t' = map_of ?ps" by blast
  with True s(1) show ?thesis by (auto simp: dpt_pairs(1) [OF inv])
qed

theorem dpgt_serialize_roundtrip_witness:
  "\<exists>t0 h0 t h n buf h' t'. dpgt_open True (Some 3) Map.empty = Some (Inr t0, h0) \<and>
     dpgt_add h0 t0 5 40 = Some (Inr (), h, t) \<and>
     dpgt_serialize h (replicate MAX_DPGT_SRL_SIZE 0) t = Some (n, buf) \<and>
     dpgt_deserialize True (Some 4) h buf n = Some (Inr t', h') \<and> dpt_map h' t' = [5 \<mapsto> 40]"
proof -
  from dpt_example obtain t0 h0 t h where
    t: "dpgt_open True (Some 3) Map.empty = Some (Inr t0, h0)" "dpgt_add h0 t0 5 40 = Some (Inr (), h, t)"
      "dpt_inv h t" "dpt_map h t = [5 \<mapsto> 40]" "dpt_cap t = DPT_CAP" by blast
  from dpgt_serialize_roundtrip [OF t(3,5), of "replicate MAX_DPGT_SRL_SIZE 0" 4] t show ?thesis
    by (auto simp del: dom_dpt_map)
qed

text \<open>Merging copies the pointers of the source table, not its entries. When the source is closed
  afterwards, as the analysis of a checkpoint record does, every page it had can no longer be looked
  up in the destination: the lookup reads memory that was given back.\<close>

theorem dpgt_merge_then_close_dangles:
  assumes "dpt_inv h dest" and "dpt_inv h src" and "dpt_cap dest = dpt_cap src"
    and "card (dom (dpt_map h dest) \<union> dom (dpt_map h src)) \<le> dpt_cap dest"
    and "dpt_map h src k \<noteq> None" and "dpt_key dest k"
  shows "\<exists>t'. dpgt_merge_into dest src = Some t' \<and> dpe_get (dpgt_close h src) t' k = None"
proof -
  from dpgt_merge_correct [OF assms(1-4)] obtain t' where
    t': "dpgt_merge_into dest src = Some t'" "ht_inv (dt_table t')" "dpt_cap t' = dpt_cap dest"
      "ht_map (dt_table t') = ht_map (dt_table dest) ++ ht_map (dt_table src)" by blast
  from assms(5) obtain p where p: "ht_map (dt_table src) k = Some p" by (auto simp: dpt_map_def)
  have "unat k + ht_cap (dt_table t') < 2 ^ 64" using assms(6) t'(3) by (simp add: dpt_key_def dpt_cap_def)
  from ht_get_correct [OF t'(2) this] p
  have "ht_get (dt_table t') k = Some (HTAR_SUCCESS, Some \<lparr>hkey = k, hvalue = p\<rparr>)" by (simp add: t'(4))
  moreover have "heap_get (dpgt_close h src) p = None"
    using dpt_invD(5) [OF assms(2) p] by (simp add: dpgt_close_def clck_alloc_close_def dpt_ok_def heap_get_def)
  ultimately have "dpe_get (dpgt_close h src) t' k = None" by (simp add: dpe_get_def)
  with t'(1) show ?thesis by blast
qed

theorem dpgt_merge_then_close_dangles_witness:
  "\<exists>t0 h0 t h t'. dpgt_open True (Some 3) Map.empty = Some (Inr t0, h0) \<and>
     dpgt_add h0 t0 5 40 = Some (Inr (), h, t) \<and>
     dpgt_merge_into t t = Some t' \<and> dpe_get (dpgt_close h t) t' 5 = None"
proof -
  from dpt_example obtain t0 h0 t h where
    t: "dpgt_open True (Some 3) Map.empty = Some (Inr t0, h0)" "dpgt_add h0 t0 5 40 = Some (Inr (), h, t)"
      "dpt_inv h t" "dpt_map h t = [5 \<mapsto> 40]" "dpt_cap t = DPT_CAP" by blast
  have "dpt_key t 5" by (simp add: dpt_key_def t(5) DPT_CAP_def)
  from dpgt_merge_then_close_dangles [OF t(3,3) refl _ _ this] t show ?thesis
    by (auto simp: DPT_CAP_def simp del: dom_dpt_map)
qed

end
