(* ===== verification/Wal_Record.thy ===== *)
theory Wal_Record
  imports Page_Base Txn_Table Dirty_Page_Table
begin

text \<open>
  \<^verbatim>\<open>libs/nspager/wal_rec_hdr.c\<close>: the records of the write-ahead log as they are written and as they are
  read, and the decoding of each from the bytes of the log.

  A tagged union is a datatype, one constructor per tag. A record that is written refers to the tables
  of the pager, one that is read owns tables of its own; the heaps both live in are one \<open>wal_mem\<close>.
  What a record of the log is made of, in front of its checksum, is \<open>rec_parts\<close>: the fields in the order
  \<^verbatim>\<open>wal_file.c\<close> writes them, the tables of a checkpoint as their serialised bytes. The lemmas show that
  decoding inverts it: \<open>rec_same\<close> relates a record that was written to what is read.
\<close>

record wal_mem =
  wm_txns :: "txn heap"
  wm_dpgs :: "dpg_entry heap"

record wal_begin =
  wb_tid :: txid

record wal_commit =
  wc_tid :: txid
  wc_prev :: lsn

record wal_end =
  we_tid :: txid
  we_prev :: lsn

record wal_update =
  wu_tid :: txid
  wu_prev :: lsn
  wu_pg :: pgno
  wu_undo :: "u8 list"
  wu_redo :: "u8 list"

record wal_clr =
  wk_tid :: txid
  wk_prev :: lsn
  wk_pg :: pgno
  wk_undo_next :: lsn
  wk_redo :: "u8 list"

record wal_ckpt_end_read =
  cr_att :: txn_table
  cr_dpt :: dpg_table
  cr_bank :: "nat option"

record wal_ckpt_end_write =
  cw_att :: txn_table
  cw_dpt :: dpg_table

datatype wal_rec_hdr_read =
    R_Update wal_update | R_Begin wal_begin | R_Commit wal_commit | R_End wal_end | R_Clr wal_clr
  | R_Ckpt_Begin | R_Ckpt_End wal_ckpt_end_read | R_Eof

datatype wal_rec_hdr_write =
    W_Update wal_update | W_Begin wal_begin | W_Commit wal_commit | W_End wal_end | W_Clr wal_clr
  | W_Ckpt_Begin | W_Ckpt_End wal_ckpt_end_write | W_Eof

text \<open>The codes of \<^verbatim>\<open>enum wal_rec_hdr_type\<close>, as the byte a record starts with.\<close>

abbreviation WL_BEGIN :: u8 where "WL_BEGIN \<equiv> 1"
abbreviation WL_COMMIT :: u8 where "WL_COMMIT \<equiv> 2"
abbreviation WL_END :: u8 where "WL_END \<equiv> 3"
abbreviation WL_UPDATE :: u8 where "WL_UPDATE \<equiv> 4"
abbreviation WL_CLR :: u8 where "WL_CLR \<equiv> 5"
abbreviation WL_CKPT_BEGIN :: u8 where "WL_CKPT_BEGIN \<equiv> 6"
abbreviation WL_CKPT_END :: u8 where "WL_CKPT_END \<equiv> 7"

definition WL_BEGIN_LEN :: nat where "WL_BEGIN_LEN = 1 + 8 + 4"
definition WL_COMMIT_LEN :: nat where "WL_COMMIT_LEN = 1 + 8 + 8 + 4"
definition WL_END_LEN :: nat where "WL_END_LEN = 1 + 8 + 8 + 4"
definition WL_UPDATE_LEN :: nat where "WL_UPDATE_LEN = 1 + 8 + 8 + 8 + PAGE_SIZE + PAGE_SIZE + 4"
definition WL_CLR_LEN :: nat where "WL_CLR_LEN = 1 + 8 + 8 + 8 + 8 + PAGE_SIZE + 4"
definition WL_CKPT_BEGIN_LEN :: nat where "WL_CKPT_BEGIN_LEN = 1 + 4"

section \<open>Views of a record\<close>

definition wal_rec_hdr_type_tostr :: "wal_rec_hdr_read \<Rightarrow> string" where
  "wal_rec_hdr_type_tostr r =
     (case r of
        R_Update _ \<Rightarrow> ''WL_UPDATE'' | R_Clr _ \<Rightarrow> ''WL_CLR'' | R_Begin _ \<Rightarrow> ''WL_BEGIN''
      | R_Commit _ \<Rightarrow> ''WL_COMMIT'' | R_End _ \<Rightarrow> ''WL_END'' | R_Ckpt_Begin \<Rightarrow> ''WL_CKPT_BEGIN''
      | R_Ckpt_End _ \<Rightarrow> ''WL_CKPT_END'' | R_Eof \<Rightarrow> ''WL_EOF'')"

definition wrhw_from_wrhr :: "wal_rec_hdr_read \<Rightarrow> wal_rec_hdr_write option" where
  "wrhw_from_wrhr src =
     (case src of
        R_Begin b \<Rightarrow> Some (W_Begin b)
      | R_Commit c \<Rightarrow> Some (W_Commit c)
      | R_End x \<Rightarrow> Some (W_End x)
      | R_Update u \<Rightarrow> Some (W_Update
          \<lparr>wu_tid = wu_tid u, wu_prev = wu_prev u, wu_pg = wu_pg u, wu_undo = wu_undo u, wu_redo = wu_redo u\<rparr>)
      | R_Clr c \<Rightarrow> Some (W_Clr
          \<lparr>wk_tid = wk_tid c, wk_prev = wk_prev c, wk_pg = wk_pg c, wk_undo_next = wk_undo_next c, wk_redo = wk_redo c\<rparr>)
      | R_Ckpt_Begin \<Rightarrow> Some W_Ckpt_Begin
      | R_Ckpt_End c \<Rightarrow> Some (W_Ckpt_End \<lparr>cw_att = cr_att c, cw_dpt = cr_dpt c\<rparr>)
      | R_Eof \<Rightarrow> None)"

definition wrh_get_tid :: "wal_rec_hdr_read \<Rightarrow> u64 option" where
  "wrh_get_tid h =
     (case h of
        R_Begin b \<Rightarrow> Some (wb_tid b)
      | R_Commit c \<Rightarrow> Some (wc_tid c)
      | R_End x \<Rightarrow> Some (we_tid x)
      | R_Update u \<Rightarrow> Some (wu_tid u)
      | R_Clr c \<Rightarrow> Some (wk_tid c)
      | R_Ckpt_Begin \<Rightarrow> Some (- 1)
      | R_Ckpt_End _ \<Rightarrow> Some (- 1)
      | R_Eof \<Rightarrow> None)"

definition wrh_get_prev_lsn :: "wal_rec_hdr_read \<Rightarrow> u64 option" where
  "wrh_get_prev_lsn h =
     (case h of
        R_Begin b \<Rightarrow> Some 0
      | R_Commit c \<Rightarrow> Some (wc_prev c)
      | R_End x \<Rightarrow> Some (we_prev x)
      | R_Update u \<Rightarrow> Some (wu_prev u)
      | R_Clr c \<Rightarrow> Some (wk_prev c)
      | R_Ckpt_Begin \<Rightarrow> Some (- 1)
      | R_Ckpt_End _ \<Rightarrow> Some (- 1)
      | R_Eof \<Rightarrow> None)"

section \<open>Decoding\<close>

definition read64 :: "u8 list \<Rightarrow> nat \<Rightarrow> u64 option" where
  "read64 buf head = map_option word64 (mem_read buf head 8)"

definition read32 :: "u8 list \<Rightarrow> nat \<Rightarrow> u32 option" where
  "read32 buf head = map_option le_word (mem_read buf head 4)"

definition walf_decode_update :: "u8 list \<Rightarrow> wal_update option" where
  "walf_decode_update buf = do {
     let head = 1;
     tid \<leftarrow> read64 buf head;
     let head = head + 8;
     prev \<leftarrow> read64 buf head;
     let head = head + 8;
     pg \<leftarrow> read64 buf head;
     let head = head + 8;
     undo \<leftarrow> mem_read buf head PAGE_SIZE;
     let head = head + PAGE_SIZE;
     redo \<leftarrow> mem_read buf head PAGE_SIZE;
     Some \<lparr>wu_tid = tid, wu_prev = prev, wu_pg = pg, wu_undo = undo, wu_redo = redo\<rparr> }"

definition walf_decode_clr :: "u8 list \<Rightarrow> wal_clr option" where
  "walf_decode_clr buf = do {
     let head = 1;
     tid \<leftarrow> read64 buf head;
     let head = head + 8;
     prev \<leftarrow> read64 buf head;
     let head = head + 8;
     pg \<leftarrow> read64 buf head;
     let head = head + 8;
     undo_next \<leftarrow> read64 buf head;
     let head = head + 8;
     redo \<leftarrow> mem_read buf head PAGE_SIZE;
     Some \<lparr>wk_tid = tid, wk_prev = prev, wk_pg = pg, wk_undo_next = undo_next, wk_redo = redo\<rparr> }"

definition walf_decode_begin :: "u8 list \<Rightarrow> wal_begin option" where
  "walf_decode_begin buf = do { tid \<leftarrow> read64 buf 1; Some \<lparr>wb_tid = tid\<rparr> }"

definition walf_decode_commit :: "u8 list \<Rightarrow> wal_commit option" where
  "walf_decode_commit buf = do {
     let head = 1;
     tid \<leftarrow> read64 buf head;
     let head = head + 8;
     prev \<leftarrow> read64 buf head;
     Some \<lparr>wc_tid = tid, wc_prev = prev\<rparr> }"

definition walf_decode_end :: "u8 list \<Rightarrow> wal_end option" where
  "walf_decode_end buf = do {
     let head = 1;
     tid \<leftarrow> read64 buf head;
     let head = head + 8;
     prev \<leftarrow> read64 buf head;
     Some \<lparr>we_tid = tid, we_prev = prev\<rparr> }"

text \<open>The outcomes of the allocations that decoding a checkpoint makes: the array of transactions, the
  two of the opened transaction table, the one each insertion may do, the dirty page table and its
  pool.\<close>

record wal_allocs =
  al_bank :: "nat option"
  al_att :: "bool \<times> bool"
  al_ins :: "nat \<Rightarrow> bool"
  al_dpt :: bool
  al_pool :: "nat option"

definition walf_decode_ckpt_end ::
  "wal_allocs \<Rightarrow> wal_mem \<Rightarrow> u8 list \<Rightarrow> (wal_ckpt_end_read res \<times> wal_mem) option" where
  \<comment> \<open>the array's pointer is not checked: without memory, the first transaction is stored through null\<close>
  "walf_decode_ckpt_end al m buf = do {
     let head = 1;
     attsize \<leftarrow> map_option unat (read32 buf head);
     let head = head + 4;
     dptsize \<leftarrow> map_option unat (read32 buf head);
     let head = head + 4;
     (if attsize > 0 then do { txnlen_from_serialized attsize; Some () } else Some ());
     (att, m) \<leftarrow>
       (case (if attsize > 0 then al_bank al else Some 0) of
          None \<Rightarrow> do {
            t \<leftarrow> txnt_open (al_att al);
            (case t of Inl e \<Rightarrow> Some (Inl e, m) | Inr _ \<Rightarrow> None) }
        | Some bank \<Rightarrow> do {
            let h = (if attsize > 0 then (wm_txns m)(bank \<mapsto> replicate (attsize div TXN_SERIAL_UNIT) None)
                     else wm_txns m);
            (r, h, t) \<leftarrow> txnt_deserialize (al_att al) (al_ins al) h (drop head buf) bank attsize;
            (case r of
               Inl e \<Rightarrow> Some (Inl e, m\<lparr>wm_txns := (if attsize > 0 then h(bank := None) else h)\<rparr>)
             | Inr _ \<Rightarrow> do { t \<leftarrow> t; Some (Inr t, m\<lparr>wm_txns := h\<rparr>) }) });
     case att of
       Inl e \<Rightarrow> Some (Inl e, m)
     | Inr att \<Rightarrow> do {
         let head = head + attsize;
         let bank = (if attsize > 0 then al_bank al else None);
         (dpt, h) \<leftarrow> dpgt_deserialize (al_dpt al) (al_pool al) (wm_dpgs m) (drop head buf) dptsize;
         let m = m\<lparr>wm_dpgs := h\<rparr>;
         Some (case dpt of
                 Inl e \<Rightarrow> (Inl e, m\<lparr>wm_txns := (case bank of None \<Rightarrow> wm_txns m | Some b \<Rightarrow> (wm_txns m)(b := None))\<rparr>)
               | Inr dpt \<Rightarrow> (Inr \<lparr>cr_att = att, cr_dpt = dpt, cr_bank = bank\<rparr>, m)) } }"

section \<open>Decoding inverts the layout\<close>

definition bytes32 :: "u32 \<Rightarrow> u8 list" where
  "bytes32 w = le_bytes 4 w"

lemma length_bytes32 [simp]: "length (bytes32 w) = 4"
  by (simp add: bytes32_def)

lemma le_word_bytes32 [simp]: "le_word (bytes32 w) = w"
  by (simp add: bytes32_def le_word_le_bytes)

abbreviation att_txns :: "wal_mem \<Rightarrow> txn_table \<Rightarrow> txn list" where
  "att_txns m t \<equiv> map (node_txn (wm_txns m)) (ah_list t)"

abbreviation dpt_pairs_of :: "wal_mem \<Rightarrow> dpg_table \<Rightarrow> (pgno \<times> lsn) list" where
  "dpt_pairs_of m t \<equiv> map (dpt_pair (wm_dpgs m)) (dpt_list t)"

definition att_bytes :: "wal_mem \<Rightarrow> txn_table \<Rightarrow> u8 list" where
  "att_bytes m t = concat (map (\<lambda>x. concat (txn_rec x)) (att_txns m t))"

definition dpt_bytes :: "wal_mem \<Rightarrow> dpg_table \<Rightarrow> u8 list" where
  "dpt_bytes m t = concat (map (\<lambda>x. concat (dpt_rec x)) (dpt_pairs_of m t))"

lemma length_concat_24: "length (concat (map (\<lambda>x. concat (txn_rec x)) ts)) = 24 * length ts"
  by (induction ts) (simp_all add: txn_rec_def)

lemma length_concat_16: "length (concat (map (\<lambda>x. concat (dpt_rec x)) ps)) = 16 * length ps"
  by (induction ps) simp_all

lemma length_att_bytes: "length (att_bytes m t) = 24 * length (ah_list t)"
  unfolding att_bytes_def length_concat_24 by simp

lemma length_dpt_bytes: "length (dpt_bytes m t) = 16 * length (dpt_list t)"
  unfolding dpt_bytes_def length_concat_16 by simp

primrec rec_parts :: "wal_mem \<Rightarrow> wal_rec_hdr_write \<Rightarrow> u8 list list" where
  "rec_parts m (W_Update u) =
     [[WL_UPDATE], bytes64 (wu_tid u), bytes64 (wu_prev u), bytes64 (wu_pg u), wu_undo u, wu_redo u]"
| "rec_parts m (W_Begin b) = [[WL_BEGIN], bytes64 (wb_tid b)]"
| "rec_parts m (W_Commit c) = [[WL_COMMIT], bytes64 (wc_tid c), bytes64 (wc_prev c)]"
| "rec_parts m (W_End x) = [[WL_END], bytes64 (we_tid x), bytes64 (we_prev x)]"
| "rec_parts m (W_Clr c) =
     [[WL_CLR], bytes64 (wk_tid c), bytes64 (wk_prev c), bytes64 (wk_pg c), bytes64 (wk_undo_next c), wk_redo c]"
| "rec_parts m W_Ckpt_Begin = [[WL_CKPT_BEGIN]]"
| "rec_parts m (W_Ckpt_End c) =
     [[WL_CKPT_END], bytes32 (of_nat (length (att_bytes m (cw_att c)))), bytes32 (of_nat (length (dpt_bytes m (cw_dpt c)))),
      att_bytes m (cw_att c), dpt_bytes m (cw_dpt c)]"
| "rec_parts m W_Eof = []"

text \<open>The records the writer can take: images of a page, a position to undo next, tables with their
  invariants that fit a checkpoint.\<close>

primrec rec_ok :: "wal_mem \<Rightarrow> wal_rec_hdr_write \<Rightarrow> bool" where
  "rec_ok m (W_Update u) \<longleftrightarrow> length (wu_undo u) = PAGE_SIZE \<and> length (wu_redo u) = PAGE_SIZE"
| "rec_ok m (W_Begin b) \<longleftrightarrow> True"
| "rec_ok m (W_Commit c) \<longleftrightarrow> True"
| "rec_ok m (W_End x) \<longleftrightarrow> True"
| "rec_ok m (W_Clr c) \<longleftrightarrow> length (wk_redo c) = PAGE_SIZE \<and> wk_undo_next c \<noteq> 0"
| "rec_ok m W_Ckpt_Begin \<longleftrightarrow> True"
| "rec_ok m (W_Ckpt_End c) \<longleftrightarrow>
     txnt_inv (wm_txns m) (cw_att c) \<and> size (ah_nodes (cw_att c)) < 2 ^ 25 \<and>
     dpt_inv (wm_dpgs m) (cw_dpt c) \<and> dpt_cap (cw_dpt c) = DPT_CAP \<and> card (dom (dpt_map (wm_dpgs m) (cw_dpt c))) \<le> 100"
| "rec_ok m W_Eof \<longleftrightarrow> False"

fun rec_same :: "wal_mem \<Rightarrow> wal_rec_hdr_write \<Rightarrow> wal_mem \<Rightarrow> wal_rec_hdr_read \<Rightarrow> bool" where
  "rec_same m (W_Update u) m' (R_Update u') \<longleftrightarrow> u' = u"
| "rec_same m (W_Begin b) m' (R_Begin b') \<longleftrightarrow> b' = b"
| "rec_same m (W_Commit c) m' (R_Commit c') \<longleftrightarrow> c' = c"
| "rec_same m (W_End x) m' (R_End x') \<longleftrightarrow> x' = x"
| "rec_same m (W_Clr c) m' (R_Clr c') \<longleftrightarrow> c' = c"
| "rec_same m W_Ckpt_Begin m' R_Ckpt_Begin \<longleftrightarrow> True"
| "rec_same m (W_Ckpt_End c) m' (R_Ckpt_End c') \<longleftrightarrow>
     txnt_inv (wm_txns m') (cr_att c') \<and> dpt_inv (wm_dpgs m') (cr_dpt c') \<and>
     (\<forall>k. txnt_data (wm_txns m') (cr_att c') k = map_option as_candidate (txnt_data (wm_txns m) (cw_att c) k)) \<and>
     dpt_map (wm_dpgs m') (cr_dpt c') = dpt_map (wm_dpgs m) (cw_dpt c)"
| "rec_same m _ m' _ \<longleftrightarrow> False"

text \<open>A field at the place where the fields before it end.\<close>

lemma mem_read_at [simp]: "n = length x \<Longrightarrow> ofst = length pre \<Longrightarrow> mem_read (pre @ x @ post) ofst n = Some x"
  by (simp add: mem_read_def slice_def)

lemma read64_at: "ofst = length pre \<Longrightarrow> read64 (pre @ bytes64 w @ post) ofst = Some w"
  by (simp add: read64_def)

lemma read32_at: "ofst = length pre \<Longrightarrow> read32 (pre @ bytes32 w @ post) ofst = Some w"
  by (simp add: read32_def)

lemma decode_update:
  assumes "length (wu_undo u) = PAGE_SIZE" "length (wu_redo u) = PAGE_SIZE"
  shows "walf_decode_update (concat (rec_parts m (W_Update u)) @ post) = Some u"
  using read64_at [of 1 "[WL_UPDATE]" "wu_tid u" "bytes64 (wu_prev u) @ bytes64 (wu_pg u) @ wu_undo u @ wu_redo u @ post"]
    read64_at [of 9 "[WL_UPDATE] @ bytes64 (wu_tid u)" "wu_prev u" "bytes64 (wu_pg u) @ wu_undo u @ wu_redo u @ post"]
    read64_at [of 17 "[WL_UPDATE] @ bytes64 (wu_tid u) @ bytes64 (wu_prev u)" "wu_pg u" "wu_undo u @ wu_redo u @ post"]
    mem_read_at [of PAGE_SIZE "wu_undo u" 25 "[WL_UPDATE] @ bytes64 (wu_tid u) @ bytes64 (wu_prev u) @ bytes64 (wu_pg u)"
      "wu_redo u @ post"]
    mem_read_at [of PAGE_SIZE "wu_redo u" "25 + PAGE_SIZE"
      "[WL_UPDATE] @ bytes64 (wu_tid u) @ bytes64 (wu_prev u) @ bytes64 (wu_pg u) @ wu_undo u" post]
  by (simp add: walf_decode_update_def assms)

lemma decode_clr:
  assumes "length (wk_redo c) = PAGE_SIZE"
  shows "walf_decode_clr (concat (rec_parts m (W_Clr c)) @ post) = Some c"
  using read64_at [of 1 "[WL_CLR]" "wk_tid c" "bytes64 (wk_prev c) @ bytes64 (wk_pg c) @ bytes64 (wk_undo_next c) @ wk_redo c @ post"]
    read64_at [of 9 "[WL_CLR] @ bytes64 (wk_tid c)" "wk_prev c" "bytes64 (wk_pg c) @ bytes64 (wk_undo_next c) @ wk_redo c @ post"]
    read64_at [of 17 "[WL_CLR] @ bytes64 (wk_tid c) @ bytes64 (wk_prev c)" "wk_pg c" "bytes64 (wk_undo_next c) @ wk_redo c @ post"]
    read64_at [of 25 "[WL_CLR] @ bytes64 (wk_tid c) @ bytes64 (wk_prev c) @ bytes64 (wk_pg c)" "wk_undo_next c" "wk_redo c @ post"]
    mem_read_at [of PAGE_SIZE "wk_redo c" 33
      "[WL_CLR] @ bytes64 (wk_tid c) @ bytes64 (wk_prev c) @ bytes64 (wk_pg c) @ bytes64 (wk_undo_next c)" post]
  by (simp add: walf_decode_clr_def assms)

lemma decode_begin: "walf_decode_begin (concat (rec_parts m (W_Begin b)) @ post) = Some b"
  using read64_at [of 1 "[WL_BEGIN]" "wb_tid b" post] by (simp add: walf_decode_begin_def)

lemma decode_commit: "walf_decode_commit (concat (rec_parts m (W_Commit c)) @ post) = Some c"
  using read64_at [of 1 "[WL_COMMIT]" "wc_tid c" "bytes64 (wc_prev c) @ post"]
    read64_at [of 9 "[WL_COMMIT] @ bytes64 (wc_tid c)" "wc_prev c" post] by (simp add: walf_decode_commit_def)

lemma decode_end: "walf_decode_end (concat (rec_parts m (W_End x)) @ post) = Some x"
  using read64_at [of 1 "[WL_END]" "we_tid x" "bytes64 (we_prev x) @ post"]
    read64_at [of 9 "[WL_END] @ bytes64 (we_tid x)" "we_prev x" post] by (simp add: walf_decode_end_def)

text \<open>The allocations of a decoding that gets all the memory it asks for.\<close>

definition allocs_ok :: "wal_allocs \<Rightarrow> bool" where
  "allocs_ok al \<longleftrightarrow> al_bank al \<noteq> None \<and> al_att al = (True, True) \<and> al_ins al = (\<lambda>_. True) \<and> al_dpt al \<and> al_pool al \<noteq> None"

lemma decode_ckpt_end:
  assumes ok: "rec_ok m (W_Ckpt_End c)" and al: "allocs_ok al"
  shows "\<exists>c' m''. walf_decode_ckpt_end al m' (concat (rec_parts m (W_Ckpt_End c)) @ post) = Some (Inr c', m'') \<and>
    rec_same m (W_Ckpt_End c) m'' (R_Ckpt_End c')"
proof -
  let ?att = "cw_att c" and ?dpt = "cw_dpt c"
  let ?ab = "att_bytes m ?att" and ?db = "dpt_bytes m ?dpt"
  let ?ts = "att_txns m ?att" and ?ps = "dpt_pairs_of m ?dpt"
  let ?buf = "concat (rec_parts m (W_Ckpt_End c)) @ post"
  from ok have inv: "txnt_inv (wm_txns m) ?att" "dpt_inv (wm_dpgs m) ?dpt" "dpt_cap ?dpt = DPT_CAP"
    and small: "size (ah_nodes ?att) < 33554432" "card (dom (dpt_map (wm_dpgs m) ?dpt)) \<le> 100" by simp_all
  have la: "length ?ab = 24 * length ?ts" by (simp add: length_att_bytes)
  have ld: "length ?db = 16 * length ?ps" by (simp add: length_dpt_bytes)
  have n: "length ?ts < 33554432" using small(1) by (simp flip: mset_ah_list)
  have np: "length ?ps \<le> 100" using small(2) dpt_pairs(3) [OF inv(2)] by simp
  have na: "unat (of_nat (length ?ab) :: u32) = length ?ab" by (rule unat_of_nat32) (use n la in simp)
  have nd: "unat (of_nat (length ?db) :: u32) = length ?db" by (rule unat_of_nat32) (use np ld in simp)
  have r1: "read32 ?buf 1 = Some (of_nat (length ?ab))"
    using read32_at [of 1 "[WL_CKPT_END]" "of_nat (length ?ab)" "bytes32 (of_nat (length ?db)) @ ?ab @ ?db @ post"] by simp
  have r2: "read32 ?buf 5 = Some (of_nat (length ?db))"
    using read32_at [of 5 "[WL_CKPT_END] @ bytes32 (of_nat (length ?ab))" "of_nat (length ?db)" "?ab @ ?db @ post"] by simp
  have d1: "drop 9 ?buf = ?ab @ ?db @ post" by simp
  have "drop (9 + length ?ab) ?buf = drop (length ?ab) (drop 9 ?buf)" by (simp only: drop_drop add.commute)
  then have d2: "drop (9 + length ?ab) ?buf = ?db @ post" unfolding d1 by simp
  from al obtain b p where b: "al_bank al = Some b" "al_pool al = Some p"
    and al': "al_att al = (True, True)" "al_ins al = (\<lambda>_. True)" "al_dpt al" by (auto simp: allocs_ok_def)
  let ?h = "if length ?ab > 0 then (wm_txns m')(b \<mapsto> replicate (length ?ab div TXN_SERIAL_UNIT) None) else wm_txns m'"
  have dist: "distinct (map tx_tid ?ts)" using txnt_invD(3) [OF inv(1)] unfolding node_txns(1) [OF inv(1)] .
  have att: "\<exists>h' t'. txnt_deserialize (True, True) (\<lambda>_. True) ?h (drop 9 ?buf) (if length ?ab > 0 then b else 0) (length ?ab) =
      Some (Inr (), h', Some t') \<and> txnt_inv h' t' \<and>
      txnt_data h' t' = map_of (map (\<lambda>x. (tx_tid x, as_candidate (tx_data x))) ?ts)"
  proof (cases "ah_list ?att = []")
    case True
    from txnt_open_correct [of ?h] obtain t where
      "txnt_open (True, True) = Some (Inr t)" "txnt_inv ?h t" "txnt_map ?h t = Map.empty" by blast
    moreover from this(3) have "txnt_data ?h t = Map.empty" by (simp add: txnt_data_def fun_eq_iff)
    ultimately show ?thesis using True la by (intro exI [of _ ?h] exI [of _ t]) (simp add: txnt_deserialize_def)
  next
    case False
    then have pos: "length ?ab > 0" using la by simp
    have "?h b = Some (replicate (length ?ab div TXN_SERIAL_UNIT) None)" using pos by simp
    moreover have "length ?ts \<le> length (replicate (length ?ab div TXN_SERIAL_UNIT) None)" using la by (simp add: TXN_SERIAL_UNIT_def)
    moreover have "take (24 * length ?ts) (drop 9 ?buf) = concat (map (\<lambda>x. concat (txn_rec x)) ?ts)"
      unfolding d1 la [symmetric] att_bytes_def [symmetric] by simp
    moreover have "24 * length ?ts \<le> length (drop 9 ?buf)" unfolding d1 using la by simp
    moreover have "24 * length ?ts < 2147483648" using n by simp
    ultimately show ?thesis using txnt_deserialize_correct [of ?ts "drop 9 ?buf" ?h b] dist pos la by fastforce
  qed
  then obtain h' t' where t': "txnt_deserialize (True, True) (\<lambda>_. True) ?h (drop 9 ?buf) (if length ?ab > 0 then b else 0) (length ?ab) =
      Some (Inr (), h', Some t')" "txnt_inv h' t'"
      "txnt_data h' t' = map_of (map (\<lambda>x. (tx_tid x, as_candidate (tx_data x))) ?ts)" by blast
  have "take (16 * length ?ps) (?db @ post) = concat (map (\<lambda>x. concat (dpt_rec x)) ?ps)"
    unfolding ld [symmetric] dpt_bytes_def [symmetric] by simp
  moreover have "16 * length ?ps \<le> length (?db @ post)" using ld by simp
  ultimately obtain h2 t2 where
    t2: "dpgt_deserialize True (Some p) (wm_dpgs m') (?db @ post) (16 * length ?ps) = Some (Inr t2, h2)"
      "dpt_inv h2 t2" "dpt_map h2 t2 = map_of ?ps"
    using dpgt_deserialize_correct [OF _ _ np dpt_pair_keys [OF inv(2), unfolded inv(3)] dpt_pairs(2) [OF inv(2)],
      of "?db @ post" p "wm_dpgs m'"] by blast
  let ?c' = "\<lparr>cr_att = t', cr_dpt = t2, cr_bank = (if length ?ab > 0 then al_bank al else None)\<rparr>"
  let ?m'' = "m'\<lparr>wm_txns := h', wm_dpgs := h2\<rparr>"
  have "txnlen_from_serialized (length ?ab) \<noteq> None" by (simp add: txnlen_from_serialized_def la TXN_SERIAL_UNIT_def)
  then have "walf_decode_ckpt_end al m' buf = Some (Inr ?c', ?m'')" if "buf = ?buf" for buf
    using t'(1) t2(1) [folded ld] r1 r2 d1 d2 unfolding that [symmetric] d1 d2
    by (auto simp: walf_decode_ckpt_end_def na nd b al' Let_def simp del: length_greater_0_conv split: if_splits)
  from this [OF refl] have "walf_decode_ckpt_end al m' ?buf = Some (Inr ?c', ?m'')" .
  moreover have "rec_same m (W_Ckpt_End c) ?m'' (R_Ckpt_End ?c')"
    unfolding rec_same.simps using t'(2) t2(2)
    by (simp add: t'(3) t2(3) map_of_as_candidate node_txns(2) [OF inv(1)] dpt_pairs(1) [OF inv(2)] del: map_map)
  ultimately show ?thesis by blast
qed

end
