(* ===== verification/Checksum.thy ===== *)
theory Checksum
  imports NS_Prelude
begin

text \<open>
  \<^verbatim>\<open>libs/nscore/checksums.c\<close>: CRC-32C, computed byte by byte with a table of 256 entries.

  The first group of lemmas shows that the table method is the bitwise one: \<open>crc_bit\<close>, one step of
  the shift register, is linear, so eight of them on \<open>c XOR b\<close> split into a shift and a table lookup.
  The second shows that the register is injective, which gives the detection of every error that is
  confined to one byte.
\<close>

definition crc_bit :: "u32 \<Rightarrow> u32" where
  "crc_bit c = drop_bit 1 c XOR (0x82F63B78 AND - (c AND 1))"

primrec crc_bits :: "nat \<Rightarrow> u32 \<Rightarrow> u32" where
  "crc_bits 0 c = c"
| "crc_bits (Suc k) c = crc_bits k (crc_bit c)"

definition crc32c_tbl :: "u32 list" where
  "crc32c_tbl = map (\<lambda>i. crc_bits 8 (of_nat i)) [0..<256]"

definition checksum_init :: u32 where
  "checksum_init = 0"

definition crc_step :: "u32 \<Rightarrow> u8 \<Rightarrow> u32" where
  "crc_step c b = drop_bit 8 c XOR crc32c_tbl ! unat ((c XOR ucast b) AND 0xFF)"

definition checksum_execute :: "u32 \<Rightarrow> u8 list \<Rightarrow> u32 option" where
  "checksum_execute state data = do {
     ASSERT (length data > 0);
     Some (NOT (foldl crc_step (NOT state) data)) }"

section \<open>The shift register is linear\<close>

lemma crc_bit_alt: "crc_bit c = drop_bit 1 c XOR (if bit c 0 then 0x82F63B78 else 0)"
proof (cases "bit c 0")
  case True
  then have "c AND 1 = 1" by (simp add: and_one_eq odd_iff_mod_2_eq_one [symmetric] bit_0)
  with True show ?thesis by (simp add: crc_bit_def)
next
  case False
  then have "c AND 1 = 0" by (simp add: and_one_eq bit_0 even_iff_mod_2_eq_zero [symmetric])
  with False show ?thesis by (simp add: crc_bit_def)
qed

lemma crc_bit_xor: "crc_bit (a XOR b) = crc_bit a XOR crc_bit b"
  by (simp add: crc_bit_alt bit_xor_iff drop_bit_xor xor.assoc xor.left_commute)

lemma crc_bits_xor: "crc_bits k (a XOR b) = crc_bits k a XOR crc_bits k b"
  by (induction k arbitrary: a b) (simp_all add: crc_bit_xor)

lemma crc_bits_high:
  "(\<And>i. i < k \<Longrightarrow> \<not> bit c i) \<Longrightarrow> crc_bits k c = drop_bit k c"
proof (induction k arbitrary: c)
  case 0
  then show ?case by simp
next
  case (Suc k)
  have "crc_bit c = drop_bit 1 c" using Suc.prems [of 0] by (simp add: crc_bit_alt)
  moreover have "crc_bits k (drop_bit 1 c) = drop_bit k (drop_bit 1 c)"
    using Suc.prems by (intro Suc.IH) (simp add: bit_drop_bit_eq)
  ultimately show ?case by simp
qed

lemma crc_bits_inj: "crc_bits k a = crc_bits k b \<Longrightarrow> a = b"
proof (induction k arbitrary: a b)
  case 0
  then show ?case by simp
next
  case (Suc k)
  then have eq: "crc_bit a = crc_bit b" by simp
  have p: "bit (0x82F63B78 :: u32) 31" by code_simp
  have "bit (crc_bit c) 31 = bit c 0" for c
  proof -
    have "\<not> bit c 32" using bit_imp_le_length [of c 32] by auto
    then show ?thesis using p by (simp add: crc_bit_alt bit_xor_iff bit_drop_bit_eq)
  qed
  with eq have b0: "bit a 0 = bit b 0" by metis
  define k0 :: u32 where "k0 = (if bit b 0 then 0x82F63B78 else 0)"
  have "drop_bit 1 a XOR k0 = drop_bit 1 b XOR k0"
    using eq unfolding crc_bit_alt b0 k0_def .
  then have "(drop_bit 1 a XOR k0) XOR k0 = (drop_bit 1 b XOR k0) XOR k0" by (rule arg_cong)
  then have "drop_bit 1 a = drop_bit 1 b" unfolding xor.assoc xor_self_eq xor.right_neutral .
  then have "bit a (Suc n) = bit b (Suc n)" for n
    by (metis bit_drop_bit_eq comp_apply plus_1_eq_Suc)
  with b0 show "a = b" by (intro bit_eqI) (metis not0_implies_Suc)
qed

section \<open>The table\<close>

lemma crc_tbl_nth: "i < 256 \<Longrightarrow> crc32c_tbl ! i = crc_bits 8 (of_nat i)"
  by (simp add: crc32c_tbl_def)

lemma crc_step_bits: "crc_step c b = crc_bits 8 (c XOR ucast b)"
proof -
  let ?x = "c XOR ucast b"
  have split: "?x = (?x AND NOT 0xFF) XOR (?x AND 0xFF)"
    by (rule bit_word_eqI) (auto simp: bit_simps)
  have low: "unat (?x AND 0xFF) < 256"
  proof -
    have "?x AND 0xFF \<le> 0xFF" by (rule word_and_le1)
    then show ?thesis by (simp add: word_le_nat_alt)
  qed
  have low_bits: "\<not> bit (?x AND NOT 0xFF) i" if "i < 8" for i
  proof -
    have m: "(0xFF :: u32) = mask 8" by (simp add: mask_eq_exp_minus_1)
    show ?thesis unfolding m using that by (simp add: bit_simps)
  qed
  have shift: "drop_bit 8 (?x AND NOT 0xFF) = drop_bit 8 c"
  proof (rule bit_word_eqI)
    fix n
    have m: "(0xFF :: u32) = mask 8" by (simp add: mask_eq_exp_minus_1)
    show "bit (drop_bit 8 (?x AND NOT 0xFF)) n = bit (drop_bit 8 c) n"
      unfolding m by (auto simp: bit_simps bit_u8_high dest: bit_imp_le_length)
  qed
  have "crc_bits 8 ?x = crc_bits 8 (?x AND NOT 0xFF) XOR crc_bits 8 (?x AND 0xFF)"
    by (subst split) (rule crc_bits_xor)
  also have "crc_bits 8 (?x AND NOT 0xFF) = drop_bit 8 c"
    using low_bits shift by (subst crc_bits_high) auto
  also have "crc_bits 8 (?x AND 0xFF) = crc32c_tbl ! unat (?x AND 0xFF)"
    using low by (simp add: crc_tbl_nth)
  finally show ?thesis by (simp add: crc_step_def)
qed

lemma crc_step_inj: "crc_step a x = crc_step b x \<longleftrightarrow> a = b"
proof
  assume "crc_step a x = crc_step b x"
  then have "a XOR ucast x = b XOR ucast x"
    unfolding crc_step_bits by (rule crc_bits_inj)
  then have "(a XOR ucast x) XOR ucast x = (b XOR ucast x) XOR ucast x" by (rule arg_cong)
  then show "a = b" unfolding xor.assoc xor_self_eq xor.right_neutral .
qed simp

lemma crc_step_byte: "crc_step c x = crc_step c y \<longleftrightarrow> x = y"
proof
  assume "crc_step c x = crc_step c y"
  then have "c XOR (ucast x :: u32) = c XOR ucast y"
    unfolding crc_step_bits by (rule crc_bits_inj)
  then have "c XOR (c XOR (ucast x :: u32)) = c XOR (c XOR ucast y)" by (rule arg_cong)
  then have "(ucast x :: u32) = ucast y"
    unfolding xor.assoc [symmetric] xor_self_eq xor.left_neutral .
  then have eq: "bit (ucast x :: u32) n = bit (ucast y :: u32) n" for n by simp
  show "x = y"
  proof (rule bit_word_eqI)
    fix n assume "n < LENGTH(8)"
    then show "bit x n = bit y n" using eq [of n] by (simp add: bit_simps)
  qed
qed simp

lemma crc_fold_inj: "foldl crc_step a bs = foldl crc_step b bs \<longleftrightarrow> a = b"
  by (induction bs arbitrary: a b) (simp_all add: crc_step_inj)

section \<open>Properties\<close>

text \<open>C13: The table-driven checksum is the bitwise CRC-32C: eight steps of the shift register for each
  byte.\<close>

theorem checksum_is_bitwise_crc:
  assumes "data \<noteq> []"
  shows "checksum_execute state data =
    Some (NOT (foldl (\<lambda>c b. crc_bits 8 (c XOR ucast b)) (NOT state) data))"
  using assms by (simp add: checksum_execute_def crc_step_bits [abs_def, symmetric])

theorem checksum_is_bitwise_crc_witness:
  "checksum_execute checksum_init [0x61, 0x62] =
    Some (NOT (foldl (\<lambda>c b. crc_bits 8 (c XOR ucast b)) (NOT checksum_init) [0x61 :: u8, 0x62]))"
  by (rule checksum_is_bitwise_crc) simp

text \<open>Checksumming a record field by field is checksumming it as a whole.\<close>

theorem checksum_incremental:
  assumes "a \<noteq> []" "b \<noteq> []"
  shows "Option.bind (checksum_execute state a) (\<lambda>s. checksum_execute s b) = checksum_execute state (a @ b)"
  using assms by (simp add: checksum_execute_def)

theorem checksum_incremental_witness:
  "Option.bind (checksum_execute 0 [1]) (\<lambda>s. checksum_execute s [2, 3]) = checksum_execute 0 ([1] @ [2, 3])"
  by (rule checksum_incremental) simp_all

text \<open>C14: Any change of a single byte changes the checksum.\<close>

theorem checksum_detects_byte_error:
  assumes "x \<noteq> y"
  shows "checksum_execute state (us @ x # vs) \<noteq> checksum_execute state (us @ y # vs)"
  using assms by (simp add: checksum_execute_def crc_fold_inj crc_step_byte)

theorem checksum_detects_byte_error_witness:
  "checksum_execute 0 ([1, 2] @ 3 # [4]) \<noteq> checksum_execute 0 ([1, 2] @ 7 # [4])"
  by (rule checksum_detects_byte_error) simp

end
