(* ===== verification/Wal_Stream.thy ===== *)
theory Wal_Stream
  imports Cbuffer Checksum
begin

text \<open>
  \<^verbatim>\<open>libs/nspager/wal_ostream.c\<close> and \<^verbatim>\<open>wal_istream.c\<close>: the byte streams of the write-ahead log.

  The output stream collects bytes in a circular buffer in front of the file; \<open>wos_log\<close> is the log it
  stands for, what is in the file followed by what is in the buffer, and \<open>wos_inv\<close> its invariant: the
  flushed position is the length of the file and the place the next flush writes to. The latch of the
  output stream is modelled as far as one thread sees it: taking it twice does not return, giving
  it back leaves it free. The latch of the input stream is always taken and given back and is left out.
\<close>

definition WAL_BUFFER_CAP :: nat where
  "WAL_BUFFER_CAP = 1000000"

section \<open>The output stream\<close>

record wal_ostream =
  wo_fd :: i_file
  wo_latch :: bool
  wo_flushed_lsn :: lsn
  wo_buffer :: cbuffer

definition wo_lock :: "wal_ostream \<Rightarrow> wal_ostream option" where
  "wo_lock w = (if wo_latch w then None else Some (w\<lparr>wo_latch := True\<rparr>))"

definition wo_unlock :: "wal_ostream \<Rightarrow> wal_ostream" where
  "wo_unlock w = w\<lparr>wo_latch := False\<rparr>"

text \<open>\<open>buf\<close> is the memory of the new stream's buffer, whatever it holds, or \<open>None\<close> when the allocation
  fails.\<close>

definition walos_open :: "u8 list option \<Rightarrow> disk \<Rightarrow> (wal_ostream res \<times> disk) option" where
  "walos_open mem d =
     (case mem of
        None \<Rightarrow> Some (Inl ERR_NOMEM, d)
      | Some buf \<Rightarrow>
          (case i_open d of
             (Inl e, d) \<Rightarrow> Some (Inl e, d)
           | (Inr fd, d) \<Rightarrow>
               (case i_seek fd d 0 I_SEEK_END of
                  (Inl e, fd, d) \<Rightarrow> Some (Inl e, snd (i_close d))
                | (Inr len, fd, d) \<Rightarrow> do {
                    b \<leftarrow> cbuffer_create buf WAL_BUFFER_CAP;
                    Some (Inr \<lparr>wo_fd = fd, wo_latch = False, wo_flushed_lsn = of_nat len, wo_buffer = b\<rparr>, d) })))"

definition walos_get_next_lsn :: "wal_ostream \<Rightarrow> lsn" where
  "walos_get_next_lsn w = wo_flushed_lsn w + of_nat (cbuffer_len (wo_buffer w))"

definition walos_flush_to_impl ::
  "wal_ostream \<Rightarrow> disk \<Rightarrow> lsn \<Rightarrow> bool \<Rightarrow> (unit res \<times> wal_ostream \<times> disk) option" where
  \<comment> \<open>the latch is given back even where \<open>lock\<close> says that it was not taken here\<close>
  "walos_flush_to_impl w d l lock = do {
     w \<leftarrow> (if lock then wo_lock w else Some w);
     ASSERT (l \<le> wo_flushed_lsn w + of_nat (cbuffer_len (wo_buffer w)));
     (r, w, d) \<leftarrow>
       (if l > wo_flushed_lsn w then do {
          let towrite = cbuffer_len (wo_buffer w);
          (r, fd, d) \<leftarrow> cbuffer_write_to_file_1_expect (wo_fd w) d (wo_buffer w) towrite;
          (case r of
             Inl e \<Rightarrow> Some (Inl e, w\<lparr>wo_fd := fd\<rparr>, d)
           | Inr _ \<Rightarrow> do {
               b \<leftarrow> cbuffer_write_to_file_2 (wo_buffer w) towrite;
               Some (Inr (), w\<lparr>wo_fd := fd, wo_buffer := b,
                               wo_flushed_lsn := wo_flushed_lsn w + of_nat towrite\<rparr>, d) }) }
        else Some (Inr (), w, d));
     let (r, d) = (case r of Inl e \<Rightarrow> (Inl e, d) | Inr _ \<Rightarrow> i_fsync d);
     Some (r, wo_unlock w, d) }"

definition walos_flush_to :: "wal_ostream \<Rightarrow> disk \<Rightarrow> lsn \<Rightarrow> (unit res \<times> wal_ostream \<times> disk) option" where
  "walos_flush_to w d l = walos_flush_to_impl w d l True"

definition walos_flush_all :: "wal_ostream \<Rightarrow> disk \<Rightarrow> (unit res \<times> wal_ostream \<times> disk) option" where
  "walos_flush_all w d =
     walos_flush_to_impl w d (wo_flushed_lsn w + of_nat (cbuffer_len (wo_buffer w))) True"

definition walos_close :: "wal_ostream \<Rightarrow> disk \<Rightarrow> (unit res \<times> wal_ostream \<times> disk) option" where
  "walos_close w d = do {
     (r, w, d) \<leftarrow> walos_flush_to w d (wo_flushed_lsn w + of_nat (cbuffer_len (wo_buffer w)));
     case r of
       Inl e \<Rightarrow> Some (Inl e, w, d)
     | Inr _ \<Rightarrow> let (r, d) = i_close d in Some (r, w, d) }"

partial_function (option) walos_write_loop ::
  "wal_ostream \<Rightarrow> disk \<Rightarrow> u8 list \<Rightarrow> nat \<Rightarrow> (unit res \<times> wal_ostream \<times> disk) option" where
  "walos_write_loop w d data written =
     (if written < length data then do {
        avail \<leftarrow> cbuffer_avail (wo_buffer w);
        (r, w, d) \<leftarrow>
          (if avail < length data - written
           then walos_flush_to_impl w d (wo_flushed_lsn w + of_nat (cbuffer_len (wo_buffer w))) False
           else Some (Inr (), w, d));
        (case r of
           Inl e \<Rightarrow> Some (Inl e, w, d)
         | Inr _ \<Rightarrow> do {
             avail \<leftarrow> cbuffer_avail (wo_buffer w);
             let towrite = min (length data - written) avail;
             ASSERT (towrite > 0);
             b \<leftarrow> cbuffer_write_expect (drop written data) 1 towrite (wo_buffer w);
             walos_write_loop (w\<lparr>wo_buffer := b\<rparr>) d data (written + towrite) }) }
      else Some (Inr (), w, d))"

text \<open>The checksum is optional; its new value is part of the result.\<close>

definition walos_write_all ::
  "wal_ostream \<Rightarrow> disk \<Rightarrow> u32 option \<Rightarrow> u8 list \<Rightarrow> (unit res \<times> u32 option \<times> wal_ostream \<times> disk) option" where
  "walos_write_all w d checksum data = do {
     checksum \<leftarrow>
       (case checksum of None \<Rightarrow> Some None | Some c \<Rightarrow> map_option Some (checksum_execute c data));
     w \<leftarrow> wo_lock w;
     (r, w, d) \<leftarrow> walos_write_loop w d data 0;
     Some (r, checksum, wo_unlock w, d) }"

section \<open>The input stream\<close>

record wal_istream =
  wi_fd :: i_file
  wi_curlsn :: lsn
  wi_lsnidx :: lsn

definition walis_open :: "disk \<Rightarrow> wal_istream res \<times> disk" where
  "walis_open d =
     (case i_open d of
        (Inl e, d) \<Rightarrow> (Inl e, d)
      | (Inr fd, d) \<Rightarrow>
          (case i_file_size d of
             (Inl e, d) \<Rightarrow> (Inl e, snd (i_close d))
           | (Inr len, d) \<Rightarrow>
               (case i_seek fd d 0 I_SEEK_SET of
                  (Inl e, fd, d) \<Rightarrow> (Inl e, snd (i_close d))
                | (Inr _, fd, d) \<Rightarrow> (Inr \<lparr>wi_fd = fd, wi_curlsn = 0, wi_lsnidx = 0\<rparr>, d))))"

definition walis_close :: "disk \<Rightarrow> unit res \<times> disk" where
  "walis_close d = i_close d"

definition walis_seek :: "wal_istream \<Rightarrow> disk \<Rightarrow> u64 \<Rightarrow> unit res \<times> wal_istream \<times> disk" where
  "walis_seek w d pos =
     (case i_seek (wi_fd w) d pos I_SEEK_SET of
        (Inl e, fd, d) \<Rightarrow> (Inl e, w\<lparr>wi_fd := fd\<rparr>, d)
      | (Inr res, fd, d) \<Rightarrow>
          if of_nat res \<noteq> pos then (Inl ERR_CORRUPT, w\<lparr>wi_fd := fd\<rparr>, d)
          else (Inr (), w\<lparr>wi_fd := fd, wi_curlsn := pos\<rparr>, d))"

definition walis_mark_start_log :: "wal_istream \<Rightarrow> wal_istream" where
  "walis_mark_start_log w = w\<lparr>wi_lsnidx := 0\<rparr>"

text \<open>The result is the bytes read, or nothing at the end of the file.\<close>

definition walis_read_all ::
  "wal_istream \<Rightarrow> disk \<Rightarrow> u32 option \<Rightarrow> nat \<Rightarrow> (u8 list option res \<times> u32 option \<times> wal_istream \<times> disk) option" where
  "walis_read_all w d checksum len = do {
     (r, fd, d) \<leftarrow> i_read_all (wi_fd w) d (replicate len 0) len;
     let w = w\<lparr>wi_fd := fd\<rparr>;
     case r of
       Inl e \<Rightarrow> Some (Inl e, checksum, w, d)
     | Inr (bread, data) \<Rightarrow>
         if bread < len then
           if bread > 0 then
             (case i_truncate d (wi_curlsn w) of
                (Inl e, d) \<Rightarrow> Some (Inl e, checksum, w, d)
              | (Inr _, d) \<Rightarrow>
                  (case i_fsync d of
                     (Inl e, d) \<Rightarrow> Some (Inl e, checksum, w, d)
                   | (Inr _, d) \<Rightarrow> Some (Inr None, checksum, w, d)))
           else Some (Inr None, checksum, w, d)
         else do {
           checksum \<leftarrow>
             (case checksum of None \<Rightarrow> Some None | Some c \<Rightarrow> map_option Some (checksum_execute c data));
           Some (Inr (Some data), checksum, w\<lparr>wi_lsnidx := wi_lsnidx w + of_nat len\<rparr>, d) } }"

definition walis_mark_end_log :: "wal_istream \<Rightarrow> wal_istream" where
  "walis_mark_end_log w = w\<lparr>wi_curlsn := wi_curlsn w + wi_lsnidx w\<rparr>"

section \<open>The log behind the output stream\<close>

definition wos_log :: "wal_ostream \<Rightarrow> disk \<Rightarrow> u8 list" where
  "wos_log w d = d_data d @ cb_list (wo_buffer w)"

text \<open>The file of a log only grows, and what is durable of it is what was, or what was in the file and
  perhaps more.\<close>

definition grows :: "disk \<Rightarrow> disk \<Rightarrow> bool" where
  "grows d d' \<longleftrightarrow> (\<exists>x. d_data d' = d_data d @ x) \<and>
     (d_durable d' = d_durable d \<or> (\<exists>x y. d_durable d' = d_data d @ x \<and> d_data d' = d_durable d' @ y))"

lemma grows_same: "d_data d' = d_data d \<Longrightarrow> d_durable d' = d_durable d \<Longrightarrow> grows d d'"
  by (simp add: grows_def)

lemma grows_synced: "d_data d' = d_data d @ x \<Longrightarrow> d_durable d' = d_data d' \<Longrightarrow> grows d d'"
  by (simp add: grows_def)

lemma grows_trans: "grows d d1 \<Longrightarrow> grows d1 d2 \<Longrightarrow> grows d d2"
  by (auto simp: grows_def)

lemma growsD: "grows d d' \<Longrightarrow> \<exists>x. d_data d' = d_data d @ x"
  by (simp add: grows_def)

lemma grows_durable:
  assumes "grows d d'" "length (d_durable d) \<le> length (d_data d)"
  shows "length (d_durable d) \<le> length (d_durable d')" "length (d_durable d') \<le> length (d_data d')"
  using assms by (auto simp: grows_def)

definition wos_inv :: "wal_ostream \<Rightarrow> disk \<Rightarrow> bool" where
  "wos_inv w d \<longleftrightarrow> cb_wf (wo_buffer w) \<and> cb_cap (wo_buffer w) = WAL_BUFFER_CAP \<and>
     f_pos (wo_fd w) = length (d_data d) \<and> wo_flushed_lsn w = of_nat (length (d_data d)) \<and>
     length (wos_log w d) < 2 ^ 63"

lemma i_open_no_fail:
  assumes "no_fail d"
  shows "\<exists>d'. i_open d = (Inr \<lparr>f_pos = 0\<rparr>, d') \<and> d_data d' = d_data d \<and> d_durable d' = d_durable d \<and> no_fail d'"
  using sys_call_no_fail [OF assms, of id] by (auto simp: i_open_def)

lemma i_close_no_fail:
  assumes "no_fail d"
  shows "\<exists>d'. i_close d = (Inr (), d') \<and> d_data d' = d_data d \<and> d_durable d' = d_durable d \<and> no_fail d'"
  using sys_call_no_fail [OF assms, of id] by (auto simp: i_close_def)

lemma i_file_size_no_fail:
  assumes "no_fail d"
  shows "\<exists>d'. i_file_size d = (Inr (length (d_data d)), d') \<and> d_data d' = d_data d \<and> d_durable d' = d_durable d \<and> no_fail d'"
  using sys_call_no_fail [OF assms, of id] by (auto simp: i_file_size_def)

lemma i_truncate_no_fail:
  assumes "no_fail d"
  shows "\<exists>d'. i_truncate d n = (Inr (), d') \<and> d_data d' = file_resize (d_data d) (unat n) \<and> no_fail d'"
  using sys_call_no_fail [OF assms, of "\<lambda>d. d\<lparr>d_data := file_resize (d_data d) (unat n)\<rparr>"]
  by (auto simp: i_truncate_def)

lemma i_seek_no_fail:
  assumes "no_fail d" "0 \<le> int (case whence of I_SEEK_SET \<Rightarrow> 0 | I_SEEK_CUR \<Rightarrow> f_pos fp | I_SEEK_END \<Rightarrow> length (d_data d)) + sint offset"
  shows "\<exists>d'. i_seek fp d offset whence =
      (let n = nat (int (case whence of I_SEEK_SET \<Rightarrow> 0 | I_SEEK_CUR \<Rightarrow> f_pos fp | I_SEEK_END \<Rightarrow> length (d_data d)) + sint offset)
       in (Inr n, \<lparr>f_pos = n\<rparr>, d')) \<and> d_data d' = d_data d \<and> d_durable d' = d_durable d \<and> no_fail d'"
  using sys_call_no_fail [OF assms(1), of id] assms(2) by (auto simp: i_seek_def Let_def)

lemma wos_invD:
  assumes "wos_inv w d"
  shows "cb_wf (wo_buffer w)" "cb_cap (wo_buffer w) = WAL_BUFFER_CAP" "f_pos (wo_fd w) = length (d_data d)"
    "wo_flushed_lsn w = of_nat (length (d_data d))" "length (d_data d) + cbuffer_len (wo_buffer w) < 9223372036854775808"
    "cbuffer_len (wo_buffer w) \<le> 1000000"
  using assms cbuffer_len_le [of "wo_buffer w"] by (simp_all add: wos_inv_def wos_log_def WAL_BUFFER_CAP_def)

lemma of_nat64_eq_iff: "m < 18446744073709551616 \<Longrightarrow> n < 18446744073709551616 \<Longrightarrow> (of_nat m :: u64) = of_nat n \<longleftrightarrow> m = n"
  by (metis unat_of_nat64)

lemma walos_get_next_lsn_log:
  "wos_inv w d \<Longrightarrow> walos_get_next_lsn w = of_nat (length (wos_log w d))"
  by (simp add: walos_get_next_lsn_def wos_inv_def wos_log_def)

text \<open>A flush that meets no fault puts the buffer behind the file and makes the file durable.\<close>

lemma walos_flush_no_fail:
  assumes inv: "wos_inv w d" and nf: "no_fail d" and free: "lock \<longrightarrow> \<not> wo_latch w"
    and l: "l \<le> length (wos_log w d)"
  shows "\<exists>w' d'. walos_flush_to_impl w d (of_nat l) lock = Some (Inr (), w', d') \<and> \<not> wo_latch w' \<and>
    wos_inv w' d' \<and> wos_log w' d' = wos_log w d \<and> d_durable d' = d_data d' \<and> no_fail d' \<and>
    (if l > length (d_data d) then d_data d' = wos_log w d else d_data d' = d_data d \<and> wo_buffer w' = wo_buffer w)"
proof -
  note D = wos_invD [OF inv]
  let ?n = "cbuffer_len (wo_buffer w)"
  let ?w = "if lock then w\<lparr>wo_latch := True\<rparr> else w"
  have lw: "(if lock then wo_lock w else Some w) = Some ?w" using free by (simp add: wo_lock_def)
  have len: "length (wos_log w d) = length (d_data d) + ?n" by (simp add: wos_log_def)
  have next_lsn: "wo_flushed_lsn w + of_nat ?n = of_nat (length (wos_log w d))" using D(4) len by simp
  have "unat (of_nat (length (wos_log w d)) :: u64) = length (wos_log w d)"
    by (rule unat_of_nat64) (use len D(5) in simp)
  moreover have "unat (of_nat (length (d_data d)) :: u64) = length (d_data d)"
    by (rule unat_of_nat64) (use D(5) in simp)
  moreover have "unat (of_nat l :: u64) = l"
    by (rule unat_of_nat64) (use l len D(5) in simp)
  ultimately have le: "(of_nat l :: u64) \<le> wo_flushed_lsn w + of_nat ?n"
    and gt: "wo_flushed_lsn w < of_nat l \<longleftrightarrow> length (d_data d) < l"
    using l by (simp_all only: next_lsn word_le_nat_alt, simp_all only: D(4) word_less_nat_alt)
  show ?thesis
  proof (cases "length (d_data d) < l")
    case False
    from i_fsync_no_fail [OF nf] obtain d' where
      d': "i_fsync d = (Inr (), d')" "d_data d' = d_data d" "d_durable d' = d_data d" "no_fail d'" by blast
    let ?w' = "wo_unlock ?w"
    have "walos_flush_to_impl w d (of_nat l) lock = Some (Inr (), ?w', d')"
      using lw le gt False d'(1) by (auto simp: walos_flush_to_impl_def)
    moreover have "wo_buffer ?w' = wo_buffer w" "wo_fd ?w' = wo_fd w" "wo_flushed_lsn ?w' = wo_flushed_lsn w" "\<not> wo_latch ?w'"
      by (simp_all add: wo_unlock_def)
    ultimately show ?thesis using inv d' False by (simp add: wos_inv_def wos_log_def)
  next
    case True
    have bound: "min ?n ?n < 2147483648" using D(6) by simp
    from cbuffer_write_to_file_1_correct [OF D(1) bound, of "wo_fd w" d] obtain r fd d1 where
      wr: "wrote (wo_fd w) d (take ?n (cb_list (wo_buffer w))) r fd d1"
        "cbuffer_write_to_file_1 (wo_fd w) d (wo_buffer w) ?n = Some (map_sum id (\<lambda>_. ?n) r, fd, d1)" by auto
    from wr(1) nf have r: "r = Inr ()" and d1: "d_data d1 = wos_log w d" "f_pos fd = length (wos_log w d)"
      "set (d_env d1) \<subseteq> set (d_env d)"
      using D(3) by (auto simp: wrote_def no_fail_def wos_log_def file_put_end)
    have x: "cbuffer_write_to_file_1_expect (wo_fd w) d (wo_buffer w) ?n = Some (Inr (), fd, d1)"
      using wr(2) r by (simp add: cbuffer_write_to_file_1_expect_def)
    let ?b = "cb_consume (wo_buffer w) ?n"
    have b: "cbuffer_write_to_file_2 (wo_buffer w) ?n = Some ?b"
      by (rule cbuffer_write_to_file_2_correct [OF D(1) order_refl])
    from i_fsync_no_fail [OF no_fail_subset [OF nf d1(3)]] obtain d' where
      d': "i_fsync d1 = (Inr (), d')" "d_data d' = d_data d1" "d_durable d' = d_data d1" "no_fail d'" by blast
    let ?w' = "wo_unlock (?w\<lparr>wo_fd := fd, wo_buffer := ?b, wo_flushed_lsn := wo_flushed_lsn w + of_nat ?n\<rparr>)"
    have "walos_flush_to_impl w d (of_nat l) lock = Some (Inr (), ?w', d')"
      using lw le gt True x b d'(1) by (auto simp: walos_flush_to_impl_def Let_def)
    moreover have w': "wo_buffer ?w' = ?b" "wo_fd ?w' = fd" "wo_flushed_lsn ?w' = of_nat (length (wos_log w d))" "\<not> wo_latch ?w'"
      using next_lsn by (simp_all add: wo_unlock_def)
    moreover have "cb_list ?b = []" using D(1) by simp
    moreover have "wos_inv ?w' d'"
      using D(1,2,5) d1 d'(2) w'(1-3) \<open>cb_list ?b = []\<close> len by (simp add: wos_inv_def wos_log_def)
    ultimately show ?thesis using True d'(2-4) d1(1) by (simp add: wos_log_def)
  qed
qed

lemma walos_write_loop_no_fail:
  "wos_inv w d \<Longrightarrow> no_fail d \<Longrightarrow> written \<le> length data \<Longrightarrow> length data < 4294967296 \<Longrightarrow>
   length (wos_log w d) + (length data - written) < 9223372036854775808 \<Longrightarrow>
   \<exists>w' d'. walos_write_loop w d data written = Some (Inr (), w', d') \<and> wos_inv w' d' \<and> no_fail d' \<and>
     wos_log w' d' = wos_log w d @ drop written data \<and>
     grows d d'"
proof (induction "length data - written" arbitrary: w d written rule: less_induct)
  case less
  show ?case
  proof (cases "written < length data")
    case False
    with less.prems show ?thesis by (subst walos_write_loop.simps) (simp add: grows_same)
  next
    case True
    note D = wos_invD [OF less.prems(1)]
    note step = walos_write_loop.simps [of w d data written, unfolded if_P [OF True]]
    let ?n = "length data - written"
    have av: "cbuffer_avail (wo_buffer w) = Some (WAL_BUFFER_CAP - cbuffer_len (wo_buffer w))"
      using D(1,2) by simp
    have log: "wo_flushed_lsn w + of_nat (cbuffer_len (wo_buffer w)) = of_nat (length (wos_log w d))"
      by (simp add: D(4) wos_log_def)
    have "\<exists>w1 d1. (if WAL_BUFFER_CAP - cbuffer_len (wo_buffer w) < ?n
        then walos_flush_to_impl w d (of_nat (length (wos_log w d))) False else Some (Inr (), w, d)) = Some (Inr (), w1, d1) \<and>
      wos_inv w1 d1 \<and> no_fail d1 \<and> wos_log w1 d1 = wos_log w d \<and> cbuffer_len (wo_buffer w1) < WAL_BUFFER_CAP \<and>
      grows d d1"
    proof (cases "WAL_BUFFER_CAP - cbuffer_len (wo_buffer w) < ?n")
      case False
      with True D(6) less.prems(1,2) show ?thesis
        unfolding if_not_P [OF False] by (intro exI [of _ w] exI [of _ d]) (auto simp: WAL_BUFFER_CAP_def grows_same)
    next
      case f: True
      from walos_flush_no_fail [OF less.prems(1,2), of False "length (wos_log w d)"] obtain w1 d1 where
        w1: "walos_flush_to_impl w d (of_nat (length (wos_log w d))) False = Some (Inr (), w1, d1)"
          "wos_inv w1 d1" "wos_log w1 d1 = wos_log w d" "d_durable d1 = d_data d1" "no_fail d1"
          "if length (wos_log w d) > length (d_data d) then d_data d1 = wos_log w d
           else d_data d1 = d_data d \<and> wo_buffer w1 = wo_buffer w" by auto
      have "\<exists>x. d_data d1 = d_data d @ x" using w1(6) by (auto simp: wos_log_def split: if_splits)
      with w1(4) have x: "grows d d1" by (auto intro: grows_synced)
      have "cbuffer_len (wo_buffer w1) = 0"
      proof (cases "length (wos_log w d) > length (d_data d)")
        case True
        with w1(3,6) have "cb_list (wo_buffer w1) = []" by (simp add: wos_log_def)
        then show ?thesis by (simp add: cb_list_Nil_iff)
      next
        case False
        with w1(6) show ?thesis by (simp add: wos_log_def)
      qed
      with f w1 x show ?thesis unfolding if_P [OF f] by (intro exI [of _ w1] exI [of _ d1]) (auto simp: WAL_BUFFER_CAP_def)
    qed
    then obtain w1 d1 where w1: "(if WAL_BUFFER_CAP - cbuffer_len (wo_buffer w) < ?n
        then walos_flush_to_impl w d (of_nat (length (wos_log w d))) False else Some (Inr (), w, d)) = Some (Inr (), w1, d1)"
      "wos_inv w1 d1" "no_fail d1" "wos_log w1 d1 = wos_log w d" "cbuffer_len (wo_buffer w1) < WAL_BUFFER_CAP"
      "grows d d1" by blast
    note D1 = wos_invD [OF w1(2)]
    define k where "k = min ?n (WAL_BUFFER_CAP - cbuffer_len (wo_buffer w1))"
    have av1: "cbuffer_avail (wo_buffer w1) = Some (WAL_BUFFER_CAP - cbuffer_len (wo_buffer w1))"
      using D1(1,2) by simp
    have k: "0 < k" "k \<le> ?n" "k * 1 \<le> cb_cap (wo_buffer w1) - cbuffer_len (wo_buffer w1)" "k * 1 \<le> length (drop written data)"
      using True w1(5) D1(2) by (auto simp: k_def)
    from cbuffer_write_expect_correct [OF D1(1) zero_less_one k(1,3,4)] obtain b where
      b: "cbuffer_write_expect (drop written data) 1 k (wo_buffer w1) = Some b" "cb_wf b"
        "cb_cap b = cb_cap (wo_buffer w1)" "cb_list b = cb_list (wo_buffer w1) @ take k (drop written data)" by auto
    let ?w2 = "w1\<lparr>wo_buffer := b\<rparr>"
    have log2: "wos_log ?w2 d1 = wos_log w d @ take k (drop written data)"
      using w1(4) b(4) by (simp add: wos_log_def)
    have "wos_inv ?w2 d1"
      using D1 b(2,3) less.prems(5) log2 by (simp add: wos_inv_def)
    moreover have "walos_write_loop w d data written = walos_write_loop ?w2 d1 data (written + k)"
      unfolding step av Option.bind.simps log w1(1) using av1 k(1) b(1) True w1(5)
      by (simp add: k_def [symmetric] Let_def)
    moreover have "length data - (written + k) < length data - written" "written + k \<le> length data" using k True by simp_all
    moreover have "length (wos_log ?w2 d1) + (length data - (written + k)) < 9223372036854775808"
      using less.prems(5) k(2) by (simp add: log2 min_absorb2)
    moreover have split: "take k (drop written data) @ drop (written + k) data = drop written data"
      using append_take_drop_id [of k "drop written data"] by (simp add: add.commute)
    ultimately obtain w' d' where w':
      "walos_write_loop w d data written = Some (Inr (), w', d')" "wos_inv w' d'" "no_fail d'"
      "wos_log w' d' = wos_log ?w2 d1 @ drop (written + k) data" "grows d1 d'"
      using less.hyps [of "written + k" ?w2 d1] w1(3) less.prems(4) by auto
    have "wos_log w' d' = wos_log w d @ drop written data"
      unfolding w'(4) log2 append_assoc split ..
    moreover have "grows d d'" using grows_trans [OF w1(6) w'(5)] .
    ultimately show ?thesis using w'(1-3) by blast
  qed
qed

text \<open>Writing appends to the log, however much of it is flushed on the way.\<close>

lemma walos_write_all_no_fail:
  assumes "wos_inv w d" "no_fail d" "\<not> wo_latch w" "data \<noteq> []" "length data < 4294967296"
    and "length (wos_log w d) + length data < 9223372036854775808"
  shows "\<exists>w' d'. walos_write_all w d cs data =
      Some (Inr (), map_option (\<lambda>c. NOT (foldl crc_step (NOT c) data)) cs, w', d') \<and>
    wos_inv w' d' \<and> no_fail d' \<and> \<not> wo_latch w' \<and> wos_log w' d' = wos_log w d @ data \<and>
    grows d d'"
proof -
  let ?w = "w\<lparr>wo_latch := True\<rparr>"
  have "wos_inv ?w d" "wos_log ?w d = wos_log w d" using assms(1) by (simp_all add: wos_inv_def wos_log_def)
  with walos_write_loop_no_fail [of ?w d 0 data] assms obtain w' d' where
    w': "walos_write_loop ?w d data 0 = Some (Inr (), w', d')" "wos_inv w' d'" "no_fail d'"
      "wos_log w' d' = wos_log w d @ data" "grows d d'" by auto
  moreover have "wos_inv (wo_unlock w') d'" "wos_log (wo_unlock w') d' = wos_log w' d'" "\<not> wo_latch (wo_unlock w')"
    using w'(2) by (simp_all add: wo_unlock_def wos_inv_def wos_log_def)
  ultimately show ?thesis
    using assms(3,4) by (auto simp: walos_write_all_def wo_lock_def checksum_execute_def split: option.splits)
qed

section \<open>Reading the log back\<close>

lemma no_fail_no_intr: "no_fail d \<Longrightarrow> no_intr d"
  by (simp add: no_fail_def no_intr_def)

lemma i_read_all_no_fail:
  assumes "no_fail d" "0 < len"
  shows "\<exists>fd d'. i_read_all fp d (replicate len 0) len =
      Some (Inr (length (slice (d_data d) (f_pos fp) len), splice (replicate len 0) 0 (slice (d_data d) (f_pos fp) len)), fd, d') \<and>
    f_pos fd = f_pos fp + length (slice (d_data d) (f_pos fp) len) \<and>
    d_data d' = d_data d \<and> d_durable d' = d_durable d \<and> no_fail d'"
proof -
  from assms(2) have "replicate len (0 :: u8) \<noteq> []" by simp
  from i_read_all_correct [OF this no_fail_no_intr [OF assms(1)], of fp] obtain r fp' d' where
    r: "i_read_all fp d (replicate len 0) len = Some (r, fp', d')" "read_got fp d len 0 (replicate len 0) r fp' d'"
    by auto
  from r(2) assms(1) show ?thesis
    unfolding r(1) by (auto simp: read_got_def no_fail_def Let_def)
qed

lemma slice_full: "ofst + n \<le> length bs \<Longrightarrow> length (slice bs ofst n) = n"
  by (simp add: slice_def)

lemma walis_read_all_no_fail:
  assumes "no_fail d" "0 < len" "f_pos (wi_fd w) + len \<le> length (d_data d)"
  shows "\<exists>d'. walis_read_all w d cs len =
      Some (Inr (Some (slice (d_data d) (f_pos (wi_fd w)) len)),
        map_option (\<lambda>c. NOT (foldl crc_step (NOT c) (slice (d_data d) (f_pos (wi_fd w)) len))) cs,
        w\<lparr>wi_fd := \<lparr>f_pos = f_pos (wi_fd w) + len\<rparr>, wi_lsnidx := wi_lsnidx w + of_nat len\<rparr>, d') \<and>
    d_data d' = d_data d \<and> d_durable d' = d_durable d \<and> no_fail d'"
proof -
  let ?s = "slice (d_data d) (f_pos (wi_fd w)) len"
  have s: "length ?s = len" by (rule slice_full [OF assms(3)])
  then have "splice (replicate len 0) 0 ?s = ?s" "?s \<noteq> []" using assms(2) by (auto simp: splice_def)
  moreover from i_read_all_no_fail [OF assms(1,2), of "wi_fd w"] s obtain fd d' where
    "i_read_all (wi_fd w) d (replicate len 0) len = Some (Inr (len, splice (replicate len 0) 0 ?s), fd, d')"
    "f_pos fd = f_pos (wi_fd w) + len" "d_data d' = d_data d" "d_durable d' = d_durable d" "no_fail d'" by auto
  moreover from this(2) have "fd = \<lparr>f_pos = f_pos (wi_fd w) + len\<rparr>" by (cases fd) simp
  ultimately show ?thesis
    by (cases cs) (auto simp: walis_read_all_def checksum_execute_def)
qed

lemma walis_read_all_at_end:
  assumes "no_fail d" "0 < len" "length (d_data d) \<le> f_pos (wi_fd w)"
  shows "\<exists>d'. walis_read_all w d cs len = Some (Inr None, cs, w, d') \<and>
    d_data d' = d_data d \<and> d_durable d' = d_durable d \<and> no_fail d'"
proof -
  have s: "slice (d_data d) (f_pos (wi_fd w)) len = []" using assms(3) by (simp add: slice_def)
  from i_read_all_no_fail [OF assms(1,2), of "wi_fd w"] obtain fd d' where
    r: "i_read_all (wi_fd w) d (replicate len 0) len = Some (Inr (0, splice (replicate len 0) 0 []), fd, d')"
    "f_pos fd = f_pos (wi_fd w)" "d_data d' = d_data d" "d_durable d' = d_durable d" "no_fail d'"
    unfolding s by auto
  moreover from r(2) have "w\<lparr>wi_fd := fd\<rparr> = w" by (cases w; cases fd; cases "wi_fd w") simp
  ultimately show ?thesis using assms(2) by (simp add: walis_read_all_def)
qed

text \<open>A part of a record behind the last complete one is cut off.\<close>

lemma walis_read_all_torn:
  assumes "no_fail d" "f_pos (wi_fd w) < length (d_data d)" "length (d_data d) < f_pos (wi_fd w) + len"
  shows "\<exists>w' d'. walis_read_all w d cs len = Some (Inr None, cs, w', d') \<and>
    d_data d' = file_resize (d_data d) (unat (wi_curlsn w)) \<and> d_durable d' = d_data d' \<and> no_fail d'"
proof -
  let ?s = "slice (d_data d) (f_pos (wi_fd w)) len"
  have s: "0 < length ?s" "length ?s < len" using assms(2,3) by (auto simp: slice_def)
  from i_read_all_no_fail [OF assms(1), of len "wi_fd w"] s obtain fd d1 where
    r: "i_read_all (wi_fd w) d (replicate len 0) len = Some (Inr (length ?s, splice (replicate len 0) 0 ?s), fd, d1)"
    "d_data d1 = d_data d" "no_fail d1" by auto
  from i_truncate_no_fail [OF r(3), of "wi_curlsn w"] obtain d2 where
    t: "i_truncate d1 (wi_curlsn w) = (Inr (), d2)" "d_data d2 = file_resize (d_data d1) (unat (wi_curlsn w))" "no_fail d2" by blast
  from i_fsync_no_fail [OF t(3)] obtain d3 where
    "i_fsync d2 = (Inr (), d3)" "d_data d3 = d_data d2" "d_durable d3 = d_data d2" "no_fail d3" by blast
  with r t s show ?thesis by (simp add: walis_read_all_def)
qed

lemma sint_of_nat64: "p < 9223372036854775808 \<Longrightarrow> sint (of_nat p :: u64) = int p"
  using signed_take_bit_int_eq_self [of 63 "int p"] by (simp add: signed_of_nat)

lemma walis_seek_no_fail:
  assumes "no_fail d" "p < 9223372036854775808"
  shows "\<exists>d'. walis_seek w d (of_nat p) = (Inr (), w\<lparr>wi_fd := \<lparr>f_pos = p\<rparr>, wi_curlsn := of_nat p\<rparr>, d') \<and>
    d_data d' = d_data d \<and> d_durable d' = d_durable d \<and> no_fail d'"
proof -
  have p: "sint (of_nat p :: u64) = int p"
    by (rule sint_of_nat64) (use assms(2) in simp)
  from i_seek_no_fail [OF assms(1), of "wi_fd w" I_SEEK_SET "of_nat p"] p obtain d' where
    "i_seek (wi_fd w) d (of_nat p) I_SEEK_SET = (Inr p, \<lparr>f_pos = p\<rparr>, d')" "d_data d' = d_data d"
    "d_durable d' = d_durable d" "no_fail d'" by (auto simp: Let_def)
  then show ?thesis by (simp add: walis_seek_def)
qed

lemma walis_open_no_fail:
  assumes "no_fail d"
  shows "\<exists>d'. walis_open d = (Inr \<lparr>wi_fd = \<lparr>f_pos = 0\<rparr>, wi_curlsn = 0, wi_lsnidx = 0\<rparr>, d') \<and>
    d_data d' = d_data d \<and> d_durable d' = d_durable d \<and> no_fail d'"
proof -
  from i_open_no_fail [OF assms] obtain d1 where
    o: "i_open d = (Inr \<lparr>f_pos = 0\<rparr>, d1)" "d_data d1 = d_data d" "d_durable d1 = d_durable d" "no_fail d1" by blast
  from i_file_size_no_fail [OF o(4)] obtain d2 where
    s: "i_file_size d1 = (Inr (length (d_data d1)), d2)" "d_data d2 = d_data d1" "d_durable d2 = d_durable d1" "no_fail d2" by blast
  from i_seek_no_fail [OF s(4), of "\<lparr>f_pos = 0\<rparr>" I_SEEK_SET 0] obtain d3 where
    "i_seek \<lparr>f_pos = 0\<rparr> d2 0 I_SEEK_SET = (Inr 0, \<lparr>f_pos = 0\<rparr>, d3)" "d_data d3 = d_data d2"
    "d_durable d3 = d_durable d2" "no_fail d3" by (auto simp: Let_def)
  with o s show ?thesis by (simp add: walis_open_def)
qed

lemma walos_open_no_fail:
  assumes "no_fail d" "length buf = WAL_BUFFER_CAP" "length (d_data d) < 9223372036854775808"
  shows "\<exists>w d'. walos_open (Some buf) d = Some (Inr w, d') \<and> wos_inv w d' \<and> wos_log w d' = d_data d \<and> \<not> wo_latch w \<and>
    d_data d' = d_data d \<and> d_durable d' = d_durable d \<and> no_fail d'"
proof -
  from i_open_no_fail [OF assms(1)] obtain d1 where
    o: "i_open d = (Inr \<lparr>f_pos = 0\<rparr>, d1)" "d_data d1 = d_data d" "d_durable d1 = d_durable d" "no_fail d1" by blast
  from i_seek_no_fail [OF o(4), of "\<lparr>f_pos = 0\<rparr>" I_SEEK_END 0] obtain d2 where
    s: "i_seek \<lparr>f_pos = 0\<rparr> d1 0 I_SEEK_END = (Inr (length (d_data d1)), \<lparr>f_pos = length (d_data d1)\<rparr>, d2)"
      "d_data d2 = d_data d1" "d_durable d2 = d_durable d1" "no_fail d2" by (auto simp: Let_def)
  have "0 < WAL_BUFFER_CAP" "WAL_BUFFER_CAP \<le> 2 ^ 31" by (simp_all add: WAL_BUFFER_CAP_def)
  from cbuffer_create_correct [OF this assms(2)] obtain b where
    b: "cbuffer_create buf WAL_BUFFER_CAP = Some b" "cb_wf b" "cb_list b = []" "cb_cap b = WAL_BUFFER_CAP" by blast
  from o s b show ?thesis
    using assms(3) b(3) [unfolded cb_list_Nil_iff] by (simp add: walos_open_def wos_inv_def wos_log_def)
qed

section \<open>A flush that fails half way\<close>

lemma i_writev_all_cut:
  assumes iov: "iov \<noteq> []" "length iov \<le> 2" and env: "d_env d = Short k # Fail EOTHER # env"
    and k: "0 < k" "k < length (concat iov)"
  shows "i_writev_all fp d iov = Some (Inl ERR_IO, \<lparr>f_pos = f_pos fp + k\<rparr>,
    d\<lparr>d_env := env, d_data := file_put (d_data d) (f_pos fp) (take k (concat iov))\<rparr>)"
proof -
  let ?n = "sum_list (map length iov)"
  let ?d1 = "d\<lparr>d_env := Fail EOTHER # env, d_data := file_put (d_data d) (f_pos fp) (take k (concat iov))\<rparr>"
  have n: "?n = length (concat iov)" by (simp add: length_concat)
  have c: "sys_count (Short k) (length (concat iov)) = k" using k by (simp add: sys_count_def)
  have w: "sys_write fp d (concat iov) = (Inr k, \<lparr>f_pos = f_pos fp + k\<rparr>, ?d1)"
    by (cases fp) (simp add: sys_write_def sys_pwrite_def sys_next_def env Let_def c)
  have s1: "writev_loop fp d iov 0 ?n = writev_loop \<lparr>f_pos = f_pos fp + k\<rparr> ?d1 (iov_skip iov k) k ?n"
  proof -
    have "0 < ?n" "k \<noteq> 0" using k unfolding n by linarith+
    then show ?thesis by (subst writev_loop.simps) (simp only: if_True if_False w prod.case sum.case add_0 refl simp_thms)
  qed
  have s2: "writev_loop \<lparr>f_pos = f_pos fp + k\<rparr> ?d1 (iov_skip iov k) k ?n =
      Some (Inl ERR_IO, \<lparr>f_pos = f_pos fp + k\<rparr>, ?d1\<lparr>d_env := env\<rparr>)"
    using k by (subst writev_loop.simps) (simp add: n sys_write_def sys_pwrite_def sys_next_def)
  have "0 < ?n" using k unfolding n by linarith
  with iov s1 s2 show ?thesis by (simp add: i_writev_all_def Let_def)
qed

lemma walos_flush_cut:
  assumes inv: "wos_inv w d" and latch: "\<not> wo_latch w" and env: "d_env d = Short k # Fail EOTHER # env"
    and k: "0 < k" "k < cbuffer_len (wo_buffer w)"
  shows "walos_flush_all w d = Some (Inl ERR_IO, w\<lparr>wo_fd := \<lparr>f_pos = length (d_data d) + k\<rparr>\<rparr>,
    d\<lparr>d_env := env, d_data := d_data d @ take k (cb_list (wo_buffer w))\<rparr>)"
proof -
  note D = wos_invD [OF inv]
  let ?n = "cbuffer_len (wo_buffer w)" and ?w = "w\<lparr>wo_latch := True\<rparr>"
  from cb_gather_correct [OF D(1) order_refl] obtain iov where
    iov: "cb_gather_loop (wo_buffer w) ?n 0 (cb_tail (wo_buffer w)) [] = Some iov" "length iov \<le> 2"
      "concat iov = cb_list (wo_buffer w)" by auto
  have "k < length (concat iov)" using k(2) unfolding iov(3) by simp
  then have "iov \<noteq> []" "k < length (concat iov)" by auto
  from i_writev_all_cut [OF this(1) iov(2) env k(1) this(2), of "wo_fd w"]
  have "i_writev_all (wo_fd w) d iov = Some (Inl ERR_IO, \<lparr>f_pos = length (d_data d) + k\<rparr>,
    d\<lparr>d_env := env, d_data := d_data d @ take k (cb_list (wo_buffer w))\<rparr>)"
    by (simp add: iov(3) D(3) file_put_end)
  with iov(1) k have x: "cbuffer_write_to_file_1_expect (wo_fd w) d (wo_buffer w) ?n =
      Some (Inl ERR_IO, \<lparr>f_pos = length (d_data d) + k\<rparr>, d\<lparr>d_env := env, d_data := d_data d @ take k (cb_list (wo_buffer w))\<rparr>)"
    by (simp add: cbuffer_write_to_file_1_expect_def cbuffer_write_to_file_1_def Let_def)
  have next_lsn: "wo_flushed_lsn w + of_nat ?n = of_nat (length (d_data d) + ?n)" using D(4) by simp
  have "(of_nat (length (d_data d)) :: u64) < of_nat (length (d_data d) + ?n)"
    using D(5) k by (subst of_nat64_less) simp_all
  then have gt: "wo_flushed_lsn w < wo_flushed_lsn w + of_nat ?n" by (simp only: next_lsn) (simp add: D(4))
  have "wo_unlock (?w\<lparr>wo_fd := \<lparr>f_pos = length (d_data d) + k\<rparr>\<rparr>) = w\<lparr>wo_fd := \<lparr>f_pos = length (d_data d) + k\<rparr>\<rparr>"
    using latch by (cases w) (simp add: wo_unlock_def)
  then show ?thesis
    using latch gt x by (simp add: walos_flush_all_def walos_flush_to_impl_def wo_lock_def Let_def)
qed

section \<open>Properties\<close>

text \<open>A flush that fails after a part of the buffer was written leaves the buffer as it is but the
  file's position behind the part. The next flush succeeds and writes the whole buffer again: the
  log has the part twice, and every position handed out from then on is too small by its length.\<close>

theorem walos_flush_retry_duplicates:
  assumes inv: "wos_inv w d" and latch: "\<not> wo_latch w" and env: "d_env d = Short k # Fail EOTHER # env"
    and k: "0 < k" "k < cbuffer_len (wo_buffer w)" and ok: "no_fail (d\<lparr>d_env := env\<rparr>)"
  shows "\<exists>w1 d1 w2 d2. walos_flush_all w d = Some (Inl ERR_IO, w1, d1) \<and> walos_flush_all w1 d1 = Some (Inr (), w2, d2) \<and>
    d_data d2 = d_data d @ take k (cb_list (wo_buffer w)) @ cb_list (wo_buffer w) \<and>
    walos_get_next_lsn w2 = of_nat (length (d_data d2) - k)"
proof -
  note D = wos_invD [OF inv]
  let ?b = "wo_buffer w" and ?n = "cbuffer_len (wo_buffer w)"
  let ?w1 = "w\<lparr>wo_fd := \<lparr>f_pos = length (d_data d) + k\<rparr>\<rparr>"
  let ?d1 = "d\<lparr>d_env := env, d_data := d_data d @ take k (cb_list ?b)\<rparr>"
  let ?w = "?w1\<lparr>wo_latch := True\<rparr>"
  note first = walos_flush_cut [OF inv latch env k]
  have nf: "no_fail ?d1" using ok by (simp add: no_fail_def)
  have "min ?n ?n < 2147483648" using D(6) by simp
  from cbuffer_write_to_file_1_correct [OF D(1) this, of "\<lparr>f_pos = length (d_data d) + k\<rparr>" ?d1] obtain r fd d2 where
    wr: "wrote \<lparr>f_pos = length (d_data d) + k\<rparr> ?d1 (take ?n (cb_list ?b)) r fd d2"
      "cbuffer_write_to_file_1 \<lparr>f_pos = length (d_data d) + k\<rparr> ?d1 ?b ?n = Some (map_sum id (\<lambda>_. ?n) r, fd, d2)" by auto
  have pos: "length (d_data d) + k = length (d_data ?d1)" using k by simp
  from wr(1) nf have r: "r = Inr ()" and d2: "d_data d2 = d_data ?d1 @ cb_list ?b" "set (d_env d2) \<subseteq> set (d_env ?d1)"
    unfolding wrote_def pos by (auto simp: no_fail_def file_put_end)
  have x: "cbuffer_write_to_file_1_expect \<lparr>f_pos = length (d_data d) + k\<rparr> ?d1 ?b ?n = Some (Inr (), fd, d2)"
    using wr(2) r by (simp add: cbuffer_write_to_file_1_expect_def)
  have b: "cbuffer_write_to_file_2 ?b ?n = Some (cb_consume ?b ?n)"
    by (rule cbuffer_write_to_file_2_correct [OF D(1) order_refl])
  from i_fsync_no_fail [OF no_fail_subset [OF nf d2(2)]] obtain d3 where
    d3: "i_fsync d2 = (Inr (), d3)" "d_data d3 = d_data d2" by blast
  have next_lsn: "wo_flushed_lsn w + of_nat ?n = of_nat (length (d_data d) + ?n)" using D(4) by simp
  have "(of_nat (length (d_data d)) :: u64) < of_nat (length (d_data d) + ?n)"
    using D(5) k by (subst of_nat64_less) simp_all
  then have gt: "wo_flushed_lsn w < wo_flushed_lsn w + of_nat ?n" by (simp only: next_lsn) (simp add: D(4))
  let ?w2 = "wo_unlock (?w\<lparr>wo_fd := fd, wo_buffer := cb_consume ?b ?n, wo_flushed_lsn := wo_flushed_lsn w + of_nat ?n\<rparr>)"
  have second: "walos_flush_all ?w1 ?d1 = Some (Inr (), ?w2, d3)"
    using latch gt x b d3(1) by (simp add: walos_flush_all_def walos_flush_to_impl_def wo_lock_def Let_def)
  have "cbuffer_len (cb_consume ?b ?n) = 0" using D(1) by (simp flip: cb_list_Nil_iff)
  then have "walos_get_next_lsn ?w2 = of_nat (length (d_data d) + ?n)"
    using next_lsn by (simp add: walos_get_next_lsn_def wo_unlock_def)
  moreover have "length (d_data d3) - k = length (d_data d) + ?n" using d3(2) d2(1) k by simp
  ultimately show ?thesis using first second d3(2) d2(1) by auto
qed

text \<open>A stream whose buffer holds \<open>bs\<close>, in front of an empty file.\<close>

lemma wos_example:
  assumes "bs \<noteq> []" "length bs \<le> WAL_BUFFER_CAP"
  shows "\<exists>b. wos_inv \<lparr>wo_fd = \<lparr>f_pos = 0\<rparr>, wo_latch = False, wo_flushed_lsn = 0, wo_buffer = b\<rparr>
      \<lparr>d_data = [], d_durable = [], d_env = env\<rparr> \<and> cb_list b = bs"
proof -
  have cap: "0 < WAL_BUFFER_CAP" "WAL_BUFFER_CAP \<le> 2 ^ 31" by (simp_all add: WAL_BUFFER_CAP_def)
  let ?data = "bs @ replicate (WAL_BUFFER_CAP - length bs) 0"
  have "length ?data = WAL_BUFFER_CAP" using assms by simp
  from cbuffer_create_with_correct [OF cap this assms(2)] obtain b where
    "cb_wf b" "cb_list b = bs" "cb_cap b = WAL_BUFFER_CAP" by auto
  moreover from this(2) have "cbuffer_len b = length bs" by (simp flip: length_cb_list)
  ultimately show ?thesis using assms(2) by (auto simp: wos_inv_def wos_log_def WAL_BUFFER_CAP_def)
qed

theorem walos_flush_retry_duplicates_witness:
  "\<exists>w w1 d1 w2 d2. walos_flush_all w \<lparr>d_data = [], d_durable = [], d_env = [Short 2, Fail EOTHER]\<rparr> = Some (Inl ERR_IO, w1, d1) \<and>
    walos_flush_all w1 d1 = Some (Inr (), w2, d2) \<and> d_data d2 = [1, 2, 1, 2, 3] \<and> walos_get_next_lsn w2 = 3"
proof -
  let ?d = "\<lparr>d_data = [], d_durable = [], d_env = [Short 2, Fail EOTHER]\<rparr>"
  from wos_example [of "[1, 2, 3]" "[Short 2, Fail EOTHER]"] obtain b where
    b: "wos_inv \<lparr>wo_fd = \<lparr>f_pos = 0\<rparr>, wo_latch = False, wo_flushed_lsn = 0, wo_buffer = b\<rparr> ?d" "cb_list b = [1, 2, 3]"
    by (auto simp: WAL_BUFFER_CAP_def)
  have len: "cbuffer_len b = 3" using b(2) by (simp flip: length_cb_list)
  have nf: "no_fail (?d\<lparr>d_env := []\<rparr>)" by (simp add: no_fail_def)
  have "2 < cbuffer_len (wo_buffer \<lparr>wo_fd = \<lparr>f_pos = 0\<rparr>, wo_latch = False, wo_flushed_lsn = 0, wo_buffer = b\<rparr>)" using len by simp
  from walos_flush_retry_duplicates [OF b(1) _ _ _ this nf] b(2) show ?thesis by fastforce
qed

end
