(* ===== verification/Wal_File.thy ===== *)
theory Wal_File
  imports Wal_Record Wal_Stream
begin

text \<open>
  \<^verbatim>\<open>libs/nspager/wal_file.c\<close>: records over the streams.

  A stream that was not opened yet is \<open>None\<close>; the first operation that needs it opens it. The latch of
  the file is modelled as one thread sees it (taking it twice does not return). \<open>mem\<close> is the memory an output stream opened on the way gets, \<open>al\<close> the
  outcomes of the allocations a checkpoint record needs.

  The lemmas lift those of the streams to records: \<open>wf_log\<close> is the log, in the file and in the buffer,
  and \<open>rec_image\<close> the bytes of a record with its checksum. Writing appends the image, reading the image
  gives the record.
\<close>

record wal_file =
  wf_ostream :: "wal_ostream option"
  wf_istream :: "wal_istream option"
  wf_latch :: bool

definition wf_lock :: "wal_file \<Rightarrow> wal_file option" where
  "wf_lock w = (if wf_latch w then None else Some (w\<lparr>wf_latch := True\<rparr>))"

definition wf_unlock :: "wal_file \<Rightarrow> wal_file" where
  "wf_unlock w = w\<lparr>wf_latch := False\<rparr>"

section \<open>Streams on demand\<close>

definition walf_lazy_ostream_init ::
  "u8 list option \<Rightarrow> wal_file \<Rightarrow> disk \<Rightarrow> (unit res \<times> wal_file \<times> disk) option" where
  "walf_lazy_ostream_init mem w d =
     (case wf_ostream w of
        Some _ \<Rightarrow> Some (Inr (), w, d)
      | None \<Rightarrow> do {
          (r, d) \<leftarrow> walos_open mem d;
          Some (case r of
                  Inl e \<Rightarrow> (Inl e, w, d)
                | Inr os \<Rightarrow> (Inr (), w\<lparr>wf_ostream := Some os\<rparr>, d)) })"

definition walf_lazy_istream_init :: "wal_file \<Rightarrow> disk \<Rightarrow> unit res \<times> wal_file \<times> disk" where
  "walf_lazy_istream_init w d =
     (case wf_istream w of
        Some _ \<Rightarrow> (Inr (), w, d)
      | None \<Rightarrow>
          (case walis_open d of
             (Inl e, d) \<Rightarrow> (Inl e, w, d)
           | (Inr is, d) \<Rightarrow> (Inr (), w\<lparr>wf_istream := Some is\<rparr>, d)))"

definition walf_lazy_ostream_close :: "wal_file \<Rightarrow> disk \<Rightarrow> (unit res \<times> wal_file \<times> disk) option" where
  "walf_lazy_ostream_close w d =
     (case wf_ostream w of
        None \<Rightarrow> Some (Inr (), w, d)
      | Some os \<Rightarrow> do {
          (r, os, d) \<leftarrow> walos_close os d;
          Some (case r of
                  Inl e \<Rightarrow> (Inl e, w\<lparr>wf_ostream := Some os\<rparr>, d)
                | Inr _ \<Rightarrow> (Inr (), w\<lparr>wf_ostream := None\<rparr>, d)) })"

definition walf_lazy_istream_close :: "wal_file \<Rightarrow> disk \<Rightarrow> unit res \<times> wal_file \<times> disk" where
  "walf_lazy_istream_close w d =
     (case wf_istream w of
        None \<Rightarrow> (Inr (), w, d)
      | Some _ \<Rightarrow>
          (case walis_close d of
             (Inl e, d) \<Rightarrow> (Inl e, w, d)
           | (Inr _, d) \<Rightarrow> (Inr (), w\<lparr>wf_istream := None\<rparr>, d)))"

definition walf_open :: wal_file where
  "walf_open = \<lparr>wf_ostream = None, wf_istream = None, wf_latch = False\<rparr>"

definition walf_close :: "wal_file \<Rightarrow> disk \<Rightarrow> (unit res \<times> wal_file \<times> disk) option" where
  "walf_close w d =
     (case walf_lazy_istream_close w d of
        (Inl e, w, d) \<Rightarrow> Some (Inl e, w, d)
      | (Inr _, w, d) \<Rightarrow> walf_lazy_ostream_close w d)"

definition walf_reset :: "wal_file \<Rightarrow> disk \<Rightarrow> (unit res \<times> wal_file \<times> disk) option" where
  "walf_reset w d = do {
     (r, w, d) \<leftarrow> walf_close w d;
     case r of
       Inl e \<Rightarrow> Some (Inl e, w, d)
     | Inr _ \<Rightarrow>
         (case i_remove_quiet d of
            (Inl e, d) \<Rightarrow> Some (Inl e, w, d)
          | (Inr _, d) \<Rightarrow> Some (Inr (), walf_open, d)) }"

definition walf_write_mode :: "wal_file \<Rightarrow> disk \<Rightarrow> unit res \<times> wal_file \<times> disk" where
  "walf_write_mode w d = walf_lazy_istream_close w d"

section \<open>Writing\<close>

text \<open>\<^verbatim>\<open>walos_write_all (w->current_ostream, ...)\<close>, and a run of such calls with the checksum, up to the
  first that fails.\<close>

definition walf_put ::
  "wal_file \<Rightarrow> disk \<Rightarrow> u32 option \<Rightarrow> u8 list \<Rightarrow> (unit res \<times> u32 option \<times> wal_file \<times> disk) option" where
  "walf_put w d checksum data = do {
     os \<leftarrow> wf_ostream w;
     (r, checksum, os, d) \<leftarrow> walos_write_all os d checksum data;
     Some (r, checksum, w\<lparr>wf_ostream := Some os\<rparr>, d) }"

primrec walf_put_all ::
  "wal_file \<Rightarrow> disk \<Rightarrow> u32 option \<Rightarrow> u8 list list \<Rightarrow> (unit res \<times> u32 option \<times> wal_file \<times> disk) option" where
  "walf_put_all w d checksum [] = Some (Inr (), checksum, w, d)"
| "walf_put_all w d checksum (x # xs) = do {
     (r, checksum, w, d) \<leftarrow> walf_put w d checksum x;
     case r of
       Inl e \<Rightarrow> Some (Inl e, checksum, w, d)
     | Inr _ \<Rightarrow> walf_put_all w d checksum xs }"

text \<open>The frame the record writers share: latch, stream, checksummed fields, checksum, latch.\<close>

definition walf_write_fields ::
  "u8 list option \<Rightarrow> wal_file \<Rightarrow> disk \<Rightarrow> u8 list list \<Rightarrow> (unit res \<times> wal_file \<times> disk) option" where
  "walf_write_fields mem w d xs = do {
     w \<leftarrow> wf_lock w;
     (r, w, d) \<leftarrow> walf_lazy_ostream_init mem w d;
     case r of
       Inl e \<Rightarrow> Some (Inl e, wf_unlock w, d)
     | Inr _ \<Rightarrow> do {
         (r, checksum, w, d) \<leftarrow> walf_put_all w d (Some checksum_init) xs;
         case r of
           Inl e \<Rightarrow> Some (Inl e, wf_unlock w, d)
         | Inr _ \<Rightarrow> do {
             checksum \<leftarrow> checksum;
             (r, _, w, d) \<leftarrow> walf_put w d None (bytes32 checksum);
             Some (r, wf_unlock w, d) } } }"

definition walf_write_update ::
  "u8 list option \<Rightarrow> wal_file \<Rightarrow> disk \<Rightarrow> wal_update \<Rightarrow> (unit res \<times> wal_file \<times> disk) option" where
  "walf_write_update mem w d u = do {
     undo \<leftarrow> mem_read (wu_undo u) 0 PAGE_SIZE;
     redo \<leftarrow> mem_read (wu_redo u) 0 PAGE_SIZE;
     walf_write_fields mem w d
       [[WL_UPDATE], bytes64 (wu_tid u), bytes64 (wu_prev u), bytes64 (wu_pg u), undo, redo] }"

definition walf_write_clr ::
  "u8 list option \<Rightarrow> wal_file \<Rightarrow> disk \<Rightarrow> wal_clr \<Rightarrow> (unit res \<times> wal_file \<times> disk) option" where
  "walf_write_clr mem w d c = do {
     ASSERT (wk_undo_next c \<noteq> 0);
     redo \<leftarrow> mem_read (wk_redo c) 0 PAGE_SIZE;
     walf_write_fields mem w d
       [[WL_CLR], bytes64 (wk_tid c), bytes64 (wk_prev c), bytes64 (wk_pg c), bytes64 (wk_undo_next c), redo] }"

definition walf_write_begin ::
  "u8 list option \<Rightarrow> wal_file \<Rightarrow> disk \<Rightarrow> wal_begin \<Rightarrow> (unit res \<times> wal_file \<times> disk) option" where
  "walf_write_begin mem w d b = walf_write_fields mem w d [[WL_BEGIN], bytes64 (wb_tid b)]"

definition walf_write_commit ::
  "u8 list option \<Rightarrow> wal_file \<Rightarrow> disk \<Rightarrow> wal_commit \<Rightarrow> (unit res \<times> wal_file \<times> disk) option" where
  "walf_write_commit mem w d c =
     walf_write_fields mem w d [[WL_COMMIT], bytes64 (wc_tid c), bytes64 (wc_prev c)]"

definition walf_write_end ::
  "u8 list option \<Rightarrow> wal_file \<Rightarrow> disk \<Rightarrow> wal_end \<Rightarrow> (unit res \<times> wal_file \<times> disk) option" where
  "walf_write_end mem w d x =
     walf_write_fields mem w d [[WL_END], bytes64 (we_tid x), bytes64 (we_prev x)]"

definition walf_write_ckpt_begin ::
  "u8 list option \<Rightarrow> wal_file \<Rightarrow> disk \<Rightarrow> (unit res \<times> wal_file \<times> disk) option" where
  "walf_write_ckpt_begin mem w d = walf_write_fields mem w d [[WL_CKPT_BEGIN]]"

text \<open>The record of a checkpoint. Its \<^verbatim>\<open>err_t_wrap\<close>s return without giving the latch back, and after
  \<^verbatim>\<open>theend\<close> it returns \<^verbatim>\<open>SUCCESS\<close> whatever happened. \<open>ok\<close> is the outcome of the allocation.\<close>

definition walf_write_ckpt_end ::
  "u8 list option \<Rightarrow> bool \<Rightarrow> wal_mem \<Rightarrow> wal_file \<Rightarrow> disk \<Rightarrow> wal_ckpt_end_write \<Rightarrow>
     (unit res \<times> wal_file \<times> disk) option" where
  "walf_write_ckpt_end mem ok m w d c = do {
     w \<leftarrow> wf_lock w;
     (r, w, d) \<leftarrow> walf_lazy_ostream_init mem w d;
     case r of
       Inl e \<Rightarrow> Some (Inr (), wf_unlock w, d)
     | Inr _ \<Rightarrow> do {
         let attsize = txnt_get_serialize_size (cw_att c);
         (dptsize, dpgt_serialized) \<leftarrow> dpgt_serialize (wm_dpgs m) (replicate MAX_DPGT_SRL_SIZE 0) (cw_dpt c);
         (r, checksum, w, d) \<leftarrow> walf_put_all w d (Some checksum_init)
           [[WL_CKPT_END], bytes32 (of_nat attsize), bytes32 (of_nat dptsize)];
         case r of
           Inl e \<Rightarrow> Some (Inl e, w, d)
         | Inr _ \<Rightarrow> do {
             (r, checksum, w, d) \<leftarrow>
               (if attsize > 0 then
                  if \<not> ok then Some (Inl ERR_NOMEM, checksum, w, d)
                  else do {
                    (_, att_serialized) \<leftarrow> txnt_serialize (wm_txns m) (replicate attsize 0) attsize (cw_att c);
                    x \<leftarrow> mem_read att_serialized 0 attsize;
                    walf_put w d checksum x }
                else Some (Inr (), checksum, w, d));
             case r of
               Inl e \<Rightarrow> Some (Inr (), wf_unlock w, d)
             | Inr _ \<Rightarrow> do {
                 (r, checksum, w, d) \<leftarrow>
                   (if dptsize > 0 then do {
                      x \<leftarrow> mem_read dpgt_serialized 0 dptsize;
                      walf_put w d checksum x }
                    else Some (Inr (), checksum, w, d));
                 case r of
                   Inl e \<Rightarrow> Some (Inr (), wf_unlock w, d)
                 | Inr _ \<Rightarrow> do {
                     checksum \<leftarrow> checksum;
                     (r, _, w, d) \<leftarrow> walf_put w d None (bytes32 checksum);
                     case r of
                       Inl e \<Rightarrow> Some (Inl e, w, d)
                     | Inr _ \<Rightarrow> Some (Inr (), wf_unlock w, d) } } } } }"

text \<open>The result is the position of the record, \<^verbatim>\<open>slsn\<close> in the code: negative for an error.\<close>

definition walf_write ::
  "u8 list option \<Rightarrow> bool \<Rightarrow> wal_mem \<Rightarrow> wal_file \<Rightarrow> disk \<Rightarrow> wal_rec_hdr_write \<Rightarrow> (lsn res \<times> wal_file \<times> disk) option" where
  "walf_write mem ok m w d r = do {
     (i, w, d) \<leftarrow> walf_lazy_ostream_init mem w d;
     case i of
       Inl e \<Rightarrow> Some (Inl e, w, d)
     | Inr _ \<Rightarrow> do {
         os \<leftarrow> wf_ostream w;
         let ret = walos_get_next_lsn os;
         (x, w, d) \<leftarrow>
           (case r of
              W_Begin b \<Rightarrow> walf_write_begin mem w d b
            | W_Commit c \<Rightarrow> walf_write_commit mem w d c
            | W_End x \<Rightarrow> walf_write_end mem w d x
            | W_Update u \<Rightarrow> walf_write_update mem w d u
            | W_Clr c \<Rightarrow> walf_write_clr mem w d c
            | W_Ckpt_Begin \<Rightarrow> walf_write_ckpt_begin mem w d
            | W_Ckpt_End c \<Rightarrow> walf_write_ckpt_end mem ok m w d c
            | W_Eof \<Rightarrow> None);
         Some (map_sum id (\<lambda>_. ret) x, w, d) } }"

definition walf_flush_all :: "u8 list option \<Rightarrow> wal_file \<Rightarrow> disk \<Rightarrow> (unit res \<times> wal_file \<times> disk) option" where
  "walf_flush_all mem w d = do {
     (i, w, d) \<leftarrow> walf_lazy_ostream_init mem w d;
     case i of
       Inl e \<Rightarrow> Some (Inl e, w, d)
     | Inr _ \<Rightarrow> do {
         os \<leftarrow> wf_ostream w;
         (r, os, d) \<leftarrow> walos_flush_all os d;
         Some (r, w\<lparr>wf_ostream := Some os\<rparr>, d) } }"

section \<open>Reading\<close>

text \<open>\<^verbatim>\<open>walis_read_all (&w->istream, ...)\<close>.\<close>

definition walf_in ::
  "wal_file \<Rightarrow> disk \<Rightarrow> u32 option \<Rightarrow> nat \<Rightarrow> (u8 list option res \<times> u32 option \<times> wal_file \<times> disk) option" where
  "walf_in w d checksum n = do {
     is \<leftarrow> wf_istream w;
     (r, checksum, is, d) \<leftarrow> walis_read_all is d checksum n;
     Some (r, checksum, w\<lparr>wf_istream := Some is\<rparr>, d) }"

text \<open>A record of fixed length; nothing at the end of the file (\<^verbatim>\<open>WL_EOF\<close>).\<close>

definition walf_read_full ::
  "wal_file \<Rightarrow> disk \<Rightarrow> u32 \<Rightarrow> u8 \<Rightarrow> nat \<Rightarrow> (u8 list option res \<times> wal_file \<times> disk) option" where
  "walf_read_full w d checksum type total_len = do {
     ASSERT (total_len \<ge> 1 + 4);
     let toread = total_len - 1 - 4;
     (r, checksum, w, d) \<leftarrow>
       (if toread > 0 then walf_in w d (Some checksum) toread
        else Some (Inr (Some []), Some checksum, w, d));
     case r of
       Inl e \<Rightarrow> Some (Inl e, w, d)
     | Inr None \<Rightarrow> Some (Inr None, w, d)
     | Inr (Some body) \<Rightarrow> do {
         checksum \<leftarrow> checksum;
         (r, _, w, d) \<leftarrow> walf_in w d None 4;
         Some (case r of
                 Inl e \<Rightarrow> (Inl e, w, d)
               | Inr None \<Rightarrow> (Inr None, w, d)
               | Inr (Some crc) \<Rightarrow>
                   if checksum \<noteq> le_word crc then (Inl ERR_CORRUPT, w, d)
                   else (Inr (Some ([type] @ body @ crc)), w, d)) } }"

text \<open>The record of a checkpoint: its sizes are used before its checksum is known to be right, and their
  sum wraps at 32 bits. The region a read is to fill lies in the buffer. \<open>ok\<close> is the outcome of the
  buffer's allocation.\<close>

definition walf_read_ckpt_end_full ::
  "bool \<Rightarrow> wal_file \<Rightarrow> disk \<Rightarrow> u32 \<Rightarrow> (u8 list option res \<times> wal_file \<times> disk) option" where
  "walf_read_ckpt_end_full ok w d checksum = do {
     (r, checksum, w, d) \<leftarrow> walf_in w d (Some checksum) 8;
     case r of
       Inl e \<Rightarrow> Some (Inl e, w, d)
     | Inr None \<Rightarrow> Some (Inr None, w, d)
     | Inr (Some sizes) \<Rightarrow> do {
         let attsize = unat (le_word (take 4 sizes) :: u32);
         let dptsize = unat (le_word (drop 4 sizes) :: u32);
         let len = (1 + 2 * 4 + attsize + dptsize + 4) mod 2 ^ 32;
         ASSERT (len > 0);
         (if \<not> ok then Some (Inl ERR_NOMEM, w, d)
          else do {
            buf \<leftarrow> mem_write (replicate len 0) 0 ([WL_CKPT_END] @ bytes32 (of_nat attsize) @ bytes32 (of_nat dptsize));
            let n = add32 attsize dptsize;
            (r, checksum, w, d) \<leftarrow>
              (if n > 0 then do { ASSERT (9 + n \<le> len); walf_in w d checksum n }
               else Some (Inr (Some []), checksum, w, d));
            case r of
              Inl e \<Rightarrow> Some (Inl e, w, d)
            | Inr None \<Rightarrow> Some (Inr None, w, d)
            | Inr (Some body) \<Rightarrow> do {
                buf \<leftarrow> mem_write buf 9 body;
                checksum \<leftarrow> checksum;
                ASSERT (9 + n + 4 \<le> len);
                (r, _, w, d) \<leftarrow> walf_in w d None 4;
                case r of
                  Inl e \<Rightarrow> Some (Inl e, w, d)
                | Inr None \<Rightarrow> Some (Inr None, w, d)
                | Inr (Some crc) \<Rightarrow> do {
                    buf \<leftarrow> mem_write buf (9 + n) crc;
                    Some (if checksum \<noteq> le_word crc then (Inl ERR_CORRUPT, w, d)
                          else (Inr (Some buf), w, d)) } } }) } }"

text \<open>The readers of the record types, each behind the type byte.\<close>

definition walf_read_update ::
  "wal_file \<Rightarrow> disk \<Rightarrow> u32 \<Rightarrow> (wal_rec_hdr_read res \<times> wal_file \<times> disk) option" where
  "walf_read_update w d checksum = do {
     (ret, w, d) \<leftarrow> walf_read_full w d checksum WL_UPDATE WL_UPDATE_LEN;
     case ret of
       Inl e \<Rightarrow> Some (Inl e, w, d)
     | Inr None \<Rightarrow> Some (Inr R_Eof, w, d)
     | Inr (Some buf) \<Rightarrow> do { u \<leftarrow> walf_decode_update buf; Some (Inr (R_Update u), w, d) } }"

definition walf_read_clr ::
  "wal_file \<Rightarrow> disk \<Rightarrow> u32 \<Rightarrow> (wal_rec_hdr_read res \<times> wal_file \<times> disk) option" where
  "walf_read_clr w d checksum = do {
     (ret, w, d) \<leftarrow> walf_read_full w d checksum WL_CLR WL_CLR_LEN;
     case ret of
       Inl e \<Rightarrow> Some (Inl e, w, d)
     | Inr None \<Rightarrow> Some (Inr R_Eof, w, d)
     | Inr (Some buf) \<Rightarrow> do { c \<leftarrow> walf_decode_clr buf; Some (Inr (R_Clr c), w, d) } }"

definition walf_read_begin ::
  "wal_file \<Rightarrow> disk \<Rightarrow> u32 \<Rightarrow> (wal_rec_hdr_read res \<times> wal_file \<times> disk) option" where
  "walf_read_begin w d checksum = do {
     (ret, w, d) \<leftarrow> walf_read_full w d checksum WL_BEGIN WL_BEGIN_LEN;
     case ret of
       Inl e \<Rightarrow> Some (Inl e, w, d)
     | Inr None \<Rightarrow> Some (Inr R_Eof, w, d)
     | Inr (Some buf) \<Rightarrow> do { b \<leftarrow> walf_decode_begin buf; Some (Inr (R_Begin b), w, d) } }"

definition walf_read_commit ::
  "wal_file \<Rightarrow> disk \<Rightarrow> u32 \<Rightarrow> (wal_rec_hdr_read res \<times> wal_file \<times> disk) option" where
  "walf_read_commit w d checksum = do {
     (ret, w, d) \<leftarrow> walf_read_full w d checksum WL_COMMIT WL_COMMIT_LEN;
     case ret of
       Inl e \<Rightarrow> Some (Inl e, w, d)
     | Inr None \<Rightarrow> Some (Inr R_Eof, w, d)
     | Inr (Some buf) \<Rightarrow> do { c \<leftarrow> walf_decode_commit buf; Some (Inr (R_Commit c), w, d) } }"

definition walf_read_end ::
  "wal_file \<Rightarrow> disk \<Rightarrow> u32 \<Rightarrow> (wal_rec_hdr_read res \<times> wal_file \<times> disk) option" where
  "walf_read_end w d checksum = do {
     (ret, w, d) \<leftarrow> walf_read_full w d checksum WL_END WL_END_LEN;
     case ret of
       Inl e \<Rightarrow> Some (Inl e, w, d)
     | Inr None \<Rightarrow> Some (Inr R_Eof, w, d)
     | Inr (Some buf) \<Rightarrow> do { x \<leftarrow> walf_decode_end buf; Some (Inr (R_End x), w, d) } }"

definition walf_read_ckpt_begin ::
  "wal_file \<Rightarrow> disk \<Rightarrow> u32 \<Rightarrow> (wal_rec_hdr_read res \<times> wal_file \<times> disk) option" where
  "walf_read_ckpt_begin w d checksum = do {
     (ret, w, d) \<leftarrow> walf_read_full w d checksum WL_CKPT_BEGIN WL_CKPT_BEGIN_LEN;
     Some (case ret of
             Inl e \<Rightarrow> (Inl e, w, d)
           | Inr None \<Rightarrow> (Inr R_Eof, w, d)
           | Inr (Some buf) \<Rightarrow> (Inr R_Ckpt_Begin, w, d)) }"

definition walf_read_ckpt_end ::
  "bool \<Rightarrow> wal_allocs \<Rightarrow> wal_mem \<Rightarrow> wal_file \<Rightarrow> disk \<Rightarrow> u32 \<Rightarrow>
     (wal_rec_hdr_read res \<times> wal_mem \<times> wal_file \<times> disk) option" where
  "walf_read_ckpt_end ok al m w d checksum = do {
     (ret, w, d) \<leftarrow> walf_read_ckpt_end_full ok w d checksum;
     case ret of
       Inl e \<Rightarrow> Some (Inl e, m, w, d)
     | Inr None \<Rightarrow> Some (Inr R_Eof, m, w, d)
     | Inr (Some buf) \<Rightarrow> do {
         (r, m) \<leftarrow> walf_decode_ckpt_end al m buf;
         Some (map_sum id R_Ckpt_End r, m, w, d) } }"

text \<open>The switch over the type byte that \<^verbatim>\<open>walf_pread\<close> and \<^verbatim>\<open>walf_read\<close> both have.\<close>

definition walf_read_body ::
  "bool \<Rightarrow> wal_allocs \<Rightarrow> wal_mem \<Rightarrow> wal_file \<Rightarrow> disk \<Rightarrow> u32 \<Rightarrow> u8 \<Rightarrow>
     (wal_rec_hdr_read res \<times> wal_mem \<times> wal_file \<times> disk) option" where
  "walf_read_body ok al m w d checksum t =
     (if t = WL_CKPT_END then walf_read_ckpt_end ok al m w d checksum
      else do {
        (r, w, d) \<leftarrow>
          (if t = WL_UPDATE then walf_read_update w d checksum
           else if t = WL_CLR then walf_read_clr w d checksum
           else if t = WL_BEGIN then walf_read_begin w d checksum
           else if t = WL_COMMIT then walf_read_commit w d checksum
           else if t = WL_END then walf_read_end w d checksum
           else if t = WL_CKPT_BEGIN then walf_read_ckpt_begin w d checksum
           else Some (Inl ERR_CORRUPT, w, d));
        Some (r, m, w, d) })"

text \<open>The rest of both: the type byte, the record, and the new position of the stream.\<close>

definition walf_read_next ::
  "bool \<Rightarrow> wal_allocs \<Rightarrow> wal_mem \<Rightarrow> wal_file \<Rightarrow> disk \<Rightarrow>
     (wal_rec_hdr_read res \<times> wal_mem \<times> wal_file \<times> disk) option" where
  "walf_read_next ok al m w d = do {
     is \<leftarrow> wf_istream w;
     let w = w\<lparr>wf_istream := Some (walis_mark_start_log is)\<rparr>;
     (r, checksum, w, d) \<leftarrow> walf_in w d (Some checksum_init) 1;
     case r of
       Inl e \<Rightarrow> Some (Inl e, m, w, d)
     | Inr None \<Rightarrow> Some (Inr R_Eof, m, w, d)
     | Inr (Some t) \<Rightarrow> do {
         checksum \<leftarrow> checksum;
         (r, m, w, d) \<leftarrow> walf_read_body ok al m w d checksum (hd t);
         case r of
           Inl e \<Rightarrow> Some (Inl e, m, w, d)
         | Inr rec \<Rightarrow> do {
             is \<leftarrow> wf_istream w;
             Some (Inr rec, m, w\<lparr>wf_istream := Some (walis_mark_end_log is)\<rparr>, d) } } }"

definition walf_pread ::
  "bool \<Rightarrow> wal_allocs \<Rightarrow> wal_mem \<Rightarrow> wal_file \<Rightarrow> disk \<Rightarrow> lsn \<Rightarrow>
     (wal_rec_hdr_read res \<times> wal_mem \<times> wal_file \<times> disk) option" where
  "walf_pread ok al m w d ofst =
     (case walf_lazy_istream_init w d of
        (Inl e, w, d) \<Rightarrow> Some (Inl e, m, w, d)
      | (Inr _, w, d) \<Rightarrow> do {
          is \<leftarrow> wf_istream w;
          (case walis_seek is d ofst of
             (Inl e, is, d) \<Rightarrow> Some (Inl e, m, w\<lparr>wf_istream := Some is\<rparr>, d)
           | (Inr _, is, d) \<Rightarrow> walf_read_next ok al m (w\<lparr>wf_istream := Some is\<rparr>) d) })"

text \<open>The position of the record is the stream's before the type byte was read.\<close>

definition walf_read ::
  "bool \<Rightarrow> wal_allocs \<Rightarrow> wal_mem \<Rightarrow> wal_file \<Rightarrow> disk \<Rightarrow>
     ((lsn \<times> wal_rec_hdr_read) res \<times> wal_mem \<times> wal_file \<times> disk) option" where
  "walf_read ok al m w d =
     (case walf_lazy_istream_init w d of
        (Inl e, w, d) \<Rightarrow> Some (Inl e, m, w, d)
      | (Inr _, w, d) \<Rightarrow> do {
          is \<leftarrow> wf_istream w;
          let rlsn = wi_curlsn is;
          (r, m, w, d) \<leftarrow> walf_read_next ok al m w d;
          Some (map_sum id (Pair rlsn) r, m, w, d) })"

section \<open>The log and the records in it\<close>

definition crc_of :: "u8 list \<Rightarrow> u32" where
  "crc_of bs = NOT (foldl crc_step (NOT checksum_init) bs)"

definition rec_image :: "wal_mem \<Rightarrow> wal_rec_hdr_write \<Rightarrow> u8 list" where
  "rec_image m r = concat (rec_parts m r) @ bytes32 (crc_of (concat (rec_parts m r)))"

definition wf_log :: "wal_file \<Rightarrow> disk \<Rightarrow> u8 list" where
  "wf_log w d = (case wf_ostream w of None \<Rightarrow> d_data d | Some os \<Rightarrow> wos_log os d)"

definition wf_str :: "wal_file \<Rightarrow> disk \<Rightarrow> bool" where
  "wf_str w d \<longleftrightarrow> length (wf_log w d) < 2 ^ 63 \<and>
     (case wf_ostream w of None \<Rightarrow> True | Some os \<Rightarrow> wos_inv os d \<and> \<not> wo_latch os)"

definition wf_inv :: "wal_file \<Rightarrow> disk \<Rightarrow> bool" where
  "wf_inv w d \<longleftrightarrow> wf_str w d \<and> \<not> wf_latch w"

text \<open>What an operation of the writer keeps: the other stream, the latch, and what is in the file.\<close>

definition wf_step :: "wal_file \<Rightarrow> disk \<Rightarrow> wal_file \<Rightarrow> disk \<Rightarrow> u8 list \<Rightarrow> bool" where
  "wf_step w d w' d' bs \<longleftrightarrow> wf_str w' d' \<and> no_fail d' \<and> wf_ostream w' \<noteq> None \<and>
     wf_istream w' = wf_istream w \<and> wf_log w' d' = wf_log w d @ bs \<and> grows d d'"

lemma wf_step_trans:
  "wf_step w d w1 d1 a \<Longrightarrow> wf_step w1 d1 w2 d2 b \<Longrightarrow> wf_step w d w2 d2 (a @ b)"
  by (auto simp: wf_step_def intro: grows_trans)

lemma wf_step_str: "wf_step w d w' d' bs \<Longrightarrow> wf_str w' d' \<and> no_fail d' \<and> wf_ostream w' \<noteq> None"
  by (simp add: wf_step_def)

lemma walf_lazy_ostream_init_no_fail:
  assumes "wf_str w d" "no_fail d" "length mem = WAL_BUFFER_CAP"
  shows "\<exists>w' d'. walf_lazy_ostream_init (Some mem) w d = Some (Inr (), w', d') \<and> wf_step w d w' d' [] \<and>
    wf_latch w' = wf_latch w \<and> d_data d' = d_data d \<and> d_durable d' = d_durable d"
proof (cases "wf_ostream w")
  case None
  from assms(1) None have "length (d_data d) < 9223372036854775808" by (simp add: wf_str_def wf_log_def)
  from walos_open_no_fail [OF assms(2,3) this] obtain os d' where
    "walos_open (Some mem) d = Some (Inr os, d')" "wos_inv os d'" "wos_log os d' = d_data d" "\<not> wo_latch os"
    "d_data d' = d_data d" "d_durable d' = d_durable d" "no_fail d'" by blast
  with None assms(1) show ?thesis
    by (auto simp: walf_lazy_ostream_init_def wf_step_def wf_str_def wf_log_def grows_same)
next
  case (Some os)
  with assms show ?thesis by (simp add: walf_lazy_ostream_init_def wf_step_def grows_same)
qed

lemma walf_put_no_fail:
  assumes "wf_str w d" "no_fail d" "wf_ostream w \<noteq> None" "x \<noteq> []" "length x < 4294967296"
    and "length (wf_log w d) + length x < 9223372036854775808"
  shows "\<exists>w' d'. walf_put w d cs x = Some (Inr (), map_option (\<lambda>c. NOT (foldl crc_step (NOT c) x)) cs, w', d') \<and>
    wf_step w d w' d' x \<and> wf_latch w' = wf_latch w"
proof -
  from assms(3) obtain os where os: "wf_ostream w = Some os" by blast
  with assms(1,6) have "wos_inv os d" "\<not> wo_latch os" "length (wos_log os d) + length x < 9223372036854775808"
    by (simp_all add: wf_str_def wf_log_def)
  from walos_write_all_no_fail [OF this(1) assms(2) this(2) assms(4,5) this(3), of cs] obtain os' d' where
    "walos_write_all os d cs x = Some (Inr (), map_option (\<lambda>c. NOT (foldl crc_step (NOT c) x)) cs, os', d')"
    "wos_inv os' d'" "no_fail d'" "\<not> wo_latch os'" "wos_log os' d' = wos_log os d @ x" "grows d d'"
    by blast
  with os assms(6) show ?thesis by (simp add: walf_put_def wf_step_def wf_str_def wf_log_def)
qed

lemma walf_put_all_no_fail:
  "wf_str w d \<Longrightarrow> no_fail d \<Longrightarrow> wf_ostream w \<noteq> None \<Longrightarrow> \<forall>x \<in> set xs. x \<noteq> [] \<and> length x < 4294967296 \<Longrightarrow>
   length (wf_log w d) + length (concat xs) < 9223372036854775808 \<Longrightarrow>
   \<exists>w' d'. walf_put_all w d cs xs =
      Some (Inr (), map_option (\<lambda>c. NOT (foldl crc_step (NOT c) (concat xs))) cs, w', d') \<and>
    wf_step w d w' d' (concat xs) \<and> wf_latch w' = wf_latch w"
proof (induction xs arbitrary: w d cs)
  case Nil
  then show ?case by (cases cs) (simp_all add: wf_step_def grows_same)
next
  case (Cons x xs)
  from Cons.prems walf_put_no_fail [of w d x cs] obtain w1 d1 where
    w1: "walf_put w d cs x = Some (Inr (), map_option (\<lambda>c. NOT (foldl crc_step (NOT c) x)) cs, w1, d1)"
      "wf_step w d w1 d1 x" "wf_latch w1 = wf_latch w" by auto
  have "length (wf_log w1 d1) + length (concat xs) < 9223372036854775808"
    using w1(2) Cons.prems(5) by (simp add: wf_step_def)
  with Cons.IH [of w1 d1 "map_option (\<lambda>c. NOT (foldl crc_step (NOT c) x)) cs"] wf_step_str [OF w1(2)] Cons.prems(4)
  obtain w2 d2 where
    "walf_put_all w1 d1 (map_option (\<lambda>c. NOT (foldl crc_step (NOT c) x)) cs) xs =
      Some (Inr (), map_option (\<lambda>c. NOT (foldl crc_step (NOT c) (concat xs)))
        (map_option (\<lambda>c. NOT (foldl crc_step (NOT c) x)) cs), w2, d2)"
    "wf_step w1 d1 w2 d2 (concat xs)" "wf_latch w2 = wf_latch w1" by auto
  with w1 wf_step_trans [OF w1(2) this(2)] show ?case
    by (cases cs) simp_all
qed

lemma wf_unlock_step:
  "wf_step w d w' d' bs \<Longrightarrow> wf_step w d (wf_unlock w') d' bs \<and> wf_inv (wf_unlock w') d'"
proof -
  have "wf_log (wf_unlock w') d' = wf_log w' d'" "wf_str (wf_unlock w') d' = wf_str w' d'"
    "wf_ostream (wf_unlock w') = wf_ostream w'" "wf_istream (wf_unlock w') = wf_istream w'" "\<not> wf_latch (wf_unlock w')"
    by (simp_all add: wf_unlock_def wf_str_def wf_log_def)
  then show "wf_step w d w' d' bs \<Longrightarrow> wf_step w d (wf_unlock w') d' bs \<and> wf_inv (wf_unlock w') d'"
    by (simp add: wf_step_def wf_inv_def)
qed

lemma bytes32_not_Nil [simp]: "bytes32 c \<noteq> []"
  by (metis length_bytes32 list.size(3) zero_neq_numeral)

lemma wf_lock_step:
  assumes "wf_inv w d"
  shows "wf_lock w = Some (w\<lparr>wf_latch := True\<rparr>)" "wf_str (w\<lparr>wf_latch := True\<rparr>) d"
    "wf_step (w\<lparr>wf_latch := True\<rparr>) d = wf_step w d"  "wf_log (w\<lparr>wf_latch := True\<rparr>) d = wf_log w d"
  using assms by (simp_all add: wf_lock_def wf_inv_def wf_str_def wf_log_def wf_step_def fun_eq_iff)

lemma walf_write_fields_no_fail:
  assumes inv: "wf_inv w d" and nf: "no_fail d" and mem: "length mem = WAL_BUFFER_CAP"
    and xs: "\<forall>x \<in> set xs. x \<noteq> [] \<and> length x < 4294967296"
    and room: "length (wf_log w d) + length (concat xs) + 4 < 9223372036854775808"
  shows "\<exists>w' d'. walf_write_fields (Some mem) w d xs = Some (Inr (), w', d') \<and>
    wf_step w d w' d' (concat xs @ bytes32 (crc_of (concat xs))) \<and> wf_inv w' d'"
proof -
  note lock = wf_lock_step [OF inv]
  from walf_lazy_ostream_init_no_fail [OF lock(2) nf mem] obtain w1 d1 where
    w1: "walf_lazy_ostream_init (Some mem) (w\<lparr>wf_latch := True\<rparr>) d = Some (Inr (), w1, d1)" "wf_step w d w1 d1 []"
    by (auto simp: lock(3))
  have "length (wf_log w1 d1) + length (concat xs) < 9223372036854775808" using w1(2) room by (simp add: wf_step_def)
  with walf_put_all_no_fail [of w1 d1 xs "Some checksum_init"] wf_step_str [OF w1(2)] xs obtain w2 d2 where
    w2: "walf_put_all w1 d1 (Some checksum_init) xs = Some (Inr (), Some (crc_of (concat xs)), w2, d2)"
      "wf_step w1 d1 w2 d2 (concat xs)" by (auto simp: crc_of_def)
  note s2 = wf_step_trans [OF w1(2) w2(2)]
  have "length (wf_log w2 d2) + 4 < 9223372036854775808" using s2 room by (simp add: wf_step_def)
  with walf_put_no_fail [of w2 d2 "bytes32 (crc_of (concat xs))" None] wf_step_str [OF s2] obtain w3 d3 where
    w3: "walf_put w2 d2 None (bytes32 (crc_of (concat xs))) = Some (Inr (), None, w3, d3)"
      "wf_step w2 d2 w3 d3 (bytes32 (crc_of (concat xs)))" by auto
  from wf_unlock_step [OF wf_step_trans [OF s2 w3(2)]] w1(1) w2(1) w3(1) lock(1) show ?thesis
    by (simp add: walf_write_fields_def)
qed

lemma length_rec_parts:
  assumes "rec_ok m r"
  shows "length (concat (rec_parts m r)) < 1000000000"
proof (cases r)
  case (W_Ckpt_End c)
  with assms have "length (ah_list (cw_att c)) < 33554432" "length (dpt_list (cw_dpt c)) \<le> 100"
    using dpt_pairs(3) [of "wm_dpgs m" "cw_dpt c"] by (simp_all flip: mset_ah_list)
  with W_Ckpt_End show ?thesis by (simp add: length_att_bytes length_dpt_bytes)
qed (use assms in auto)

text \<open>The writer of a checkpoint's record leaves out what is empty.\<close>

lemma walf_write_ckpt_end_no_fail:
  assumes inv: "wf_inv w d" and nf: "no_fail d" and mem: "length mem = WAL_BUFFER_CAP"
    and ok: "rec_ok m (W_Ckpt_End c)"
    and room: "length (wf_log w d) + length (rec_image m (W_Ckpt_End c)) < 9223372036854775808"
  shows "\<exists>w' d'. walf_write_ckpt_end (Some mem) True m w d c = Some (Inr (), w', d') \<and>
    wf_step w d w' d' (rec_image m (W_Ckpt_End c)) \<and> wf_inv w' d'"
proof -
  let ?ab = "att_bytes m (cw_att c)" and ?db = "dpt_bytes m (cw_dpt c)"
  let ?hd = "[[WL_CKPT_END], bytes32 (of_nat (length ?ab)), bytes32 (of_nat (length ?db))]"
  let ?crc = "\<lambda>bs. Some (NOT (foldl crc_step (NOT checksum_init) bs))"
  from ok have tinv: "txnt_inv (wm_txns m) (cw_att c)" and dinv: "dpt_inv (wm_dpgs m) (cw_dpt c)"
    and n: "size (ah_nodes (cw_att c)) < 33554432" and dn: "card (dom (dpt_map (wm_dpgs m) (cw_dpt c))) \<le> 100" by simp_all
  have parts: "concat (rec_parts m (W_Ckpt_End c)) = concat ?hd @ ?ab @ ?db" by simp
  have len: "length (wf_log w d) + (9 + length ?ab + length ?db + 4) < 9223372036854775808"
    using room by (simp add: rec_image_def)
  have la: "length ?ab = 24 * size (ah_nodes (cw_att c))" by (simp add: length_att_bytes flip: mset_ah_list)
  have ld: "length ?db \<le> 1600" using dn dpt_pairs(3) [OF dinv] by (simp add: length_dpt_bytes)
  have "adptv_htable_size (cw_att c) = size (ah_nodes (cw_att c))" using txnt_size [of "cw_att c"] tinv n by (simp add: txnt_inv_def)
  then have att: "txnt_get_serialize_size (cw_att c) = length ?ab"
    using la n by (simp add: txnt_get_serialize_size_def TXN_SERIAL_UNIT_def mul32_exact)
  from dpgt_serialize_correct [OF dinv length_replicate, unfolded if_P [OF dn]] obtain src where
    src: "dpgt_serialize (wm_dpgs m) (replicate MAX_DPGT_SRL_SIZE 0) (cw_dpt c) = Some (length ?db, src)"
      "length ?db \<le> length src" "take (length ?db) src = ?db"
    unfolding dpt_bytes_def [symmetric] length_dpt_bytes [of m "cw_dpt c", symmetric] by blast
  have "\<exists>buf. txnt_serialize (wm_txns m) (replicate (length ?ab) 0) (length ?ab) (cw_att c) = Some (length ?ab, buf) \<and>
    mem_read buf 0 (length ?ab) = Some ?ab"
  proof -
    have "24 * size (ah_nodes (cw_att c)) \<le> length (replicate (length ?ab) (0 :: u8))"
      "length (replicate (length ?ab) (0 :: u8)) < 2147483648" using la n by simp_all
    from txnt_serialize_correct [OF tinv this] show ?thesis
      unfolding la [symmetric] att_bytes_def [symmetric] length_replicate
      by (auto simp: mem_read_def slice_def)
  qed
  then obtain buf where ser: "txnt_serialize (wm_txns m) (replicate (length ?ab) 0) (length ?ab) (cw_att c) = Some (length ?ab, buf)"
    "mem_read buf 0 (length ?ab) = Some ?ab" by blast
  have mr: "mem_read src 0 (length ?db) = Some ?db" using src(2,3) by (simp add: mem_read_def slice_def)
  note lock = wf_lock_step [OF inv]
  from walf_lazy_ostream_init_no_fail [OF lock(2) nf mem] obtain w1 d1 where
    w1: "walf_lazy_ostream_init (Some mem) (w\<lparr>wf_latch := True\<rparr>) d = Some (Inr (), w1, d1)" "wf_step w d w1 d1 []"
    by (auto simp: lock(3))
  have "length (wf_log w1 d1) + length (concat ?hd) < 9223372036854775808" using w1(2) len by (simp add: wf_step_def)
  with walf_put_all_no_fail [of w1 d1 ?hd "Some checksum_init"] wf_step_str [OF w1(2)] obtain w2 d2 where
    w2: "walf_put_all w1 d1 (Some checksum_init) ?hd = Some (Inr (), ?crc (concat ?hd), w2, d2)"
      "wf_step w1 d1 w2 d2 (concat ?hd)" by auto
  note s2 = wf_step_trans [OF w1(2) w2(2), unfolded append_Nil]
  have "\<exists>w3 d3. (if length ?ab > 0 then walf_put w2 d2 (?crc (concat ?hd)) ?ab else Some (Inr (), ?crc (concat ?hd), w2, d2)) =
      Some (Inr (), ?crc (concat ?hd @ ?ab), w3, d3) \<and> wf_step w2 d2 w3 d3 ?ab"
  proof (cases "?ab = []")
    case True
    with wf_step_str [OF s2] show ?thesis by (auto simp: wf_step_def grows_same)
  next
    case False
    have "length (wf_log w2 d2) + length ?ab < 9223372036854775808" using s2 len by (simp add: wf_step_def)
    with walf_put_no_fail [of w2 d2 ?ab "?crc (concat ?hd)"] wf_step_str [OF s2] False la n show ?thesis by auto
  qed
  then obtain w3 d3 where
    w3: "(if length ?ab > 0 then walf_put w2 d2 (?crc (concat ?hd)) ?ab else Some (Inr (), ?crc (concat ?hd), w2, d2)) =
      Some (Inr (), ?crc (concat ?hd @ ?ab), w3, d3)" "wf_step w2 d2 w3 d3 ?ab" by blast
  note s3 = wf_step_trans [OF s2 w3(2)]
  have "\<exists>w4 d4. (if length ?db > 0 then walf_put w3 d3 (?crc (concat ?hd @ ?ab)) ?db else Some (Inr (), ?crc (concat ?hd @ ?ab), w3, d3)) =
      Some (Inr (), ?crc ((concat ?hd @ ?ab) @ ?db), w4, d4) \<and> wf_step w3 d3 w4 d4 ?db"
  proof (cases "?db = []")
    case True
    with wf_step_str [OF s3] show ?thesis by (auto simp: wf_step_def grows_same)
  next
    case False
    have "length (wf_log w3 d3) + length ?db < 9223372036854775808" using s3 len by (simp add: wf_step_def)
    with walf_put_no_fail [of w3 d3 ?db "?crc (concat ?hd @ ?ab)"] wf_step_str [OF s3] False ld show ?thesis by auto
  qed
  then obtain w4 d4 where
    w4: "(if length ?db > 0 then walf_put w3 d3 (?crc (concat ?hd @ ?ab)) ?db else Some (Inr (), ?crc (concat ?hd @ ?ab), w3, d3)) =
      Some (Inr (), ?crc ((concat ?hd @ ?ab) @ ?db), w4, d4)" "wf_step w3 d3 w4 d4 ?db" by blast
  note s4 = wf_step_trans [OF s3 w4(2), unfolded append_assoc, folded parts [unfolded append_assoc]]
  let ?c = "crc_of (concat (rec_parts m (W_Ckpt_End c)))"
  have crc: "?crc ((concat ?hd @ ?ab) @ ?db) = Some ?c" by (simp only: crc_of_def parts append_assoc)
  have "length (wf_log w4 d4) + 4 < 9223372036854775808" using s4 room by (simp add: wf_step_def rec_image_def del: rec_parts.simps)
  with walf_put_no_fail [of w4 d4 "bytes32 ?c" None] wf_step_str [OF s4] obtain w5 d5 where
    w5: "walf_put w4 d4 None (bytes32 ?c) = Some (Inr (), None, w5, d5)" "wf_step w4 d4 w5 d5 (bytes32 ?c)" by (auto simp del: rec_parts.simps)
  note s5 = wf_unlock_step [OF wf_step_trans [OF s4 w5(2)], folded rec_image_def]
  have "walf_write_ckpt_end (Some mem) True m w d c = Some (Inr (), wf_unlock w5, d5)"
    using w3(1) w4(1) [unfolded crc]
    unfolding walf_write_ckpt_end_def lock(1) Option.bind.simps w1(1) src(1) att Let_def w2(1) sum.case prod.case
    by (simp only: ser mr w5(1) Option.bind.simps sum.case prod.case if_cancel simp_thms if_True if_False split: if_splits)
  with s5 show ?thesis by blast
qed

text \<open>Without faults, writing a record appends its image to the log and returns the place it begins at.\<close>

lemma walf_write_no_fail:
  assumes inv: "wf_inv w d" and nf: "no_fail d" and mem: "length mem = WAL_BUFFER_CAP" and ok: "rec_ok m r"
    and room: "length (wf_log w d) + length (rec_image m r) < 9223372036854775808"
  shows "\<exists>w' d'. walf_write (Some mem) True m w d r = Some (Inr (of_nat (length (wf_log w d))), w', d') \<and>
    wf_step w d w' d' (rec_image m r) \<and> wf_inv w' d'"
proof -
  from inv have str: "wf_str w d" by (simp add: wf_inv_def)
  from walf_lazy_ostream_init_no_fail [OF str nf mem] obtain w1 d1 where
    w1: "walf_lazy_ostream_init (Some mem) w d = Some (Inr (), w1, d1)" "wf_step w d w1 d1 []" "wf_latch w1 = wf_latch w" by blast
  from w1(2) obtain os where os: "wf_ostream w1 = Some os" by (auto simp: wf_step_def)
  have inv1: "wf_inv w1 d1" using w1(2,3) inv by (simp add: wf_inv_def wf_step_def)
  then have "wos_inv os d1" using os by (simp add: wf_inv_def wf_str_def)
  from walos_get_next_lsn_log [OF this] w1(2) os
  have lsn: "walos_get_next_lsn os = of_nat (length (wf_log w d))" by (simp add: wf_step_def wf_log_def)
  have room1: "length (wf_log w1 d1) + length (rec_image m r) < 9223372036854775808"
    and nf1: "no_fail d1" using w1(2) room by (simp_all add: wf_step_def)
  have fs: "\<exists>w' d'. walf_write_fields (Some mem) w1 d1 xs = Some (Inr (), w', d') \<and>
      wf_step w1 d1 w' d' (rec_image m r) \<and> wf_inv w' d'"
    if "rec_parts m r = xs" "\<forall>x \<in> set xs. x \<noteq> [] \<and> length x < 4294967296" for xs
    using walf_write_fields_no_fail [OF inv1 nf1 mem that(2)] room1 that(1) by (auto simp: rec_image_def)
  have b: "bytes64 x \<noteq> []" for x by (metis length_bytes64 list.size(3) zero_neq_numeral)
  have "\<exists>w' d'. (case r of
              W_Begin b \<Rightarrow> walf_write_begin (Some mem) w1 d1 b
            | W_Commit c \<Rightarrow> walf_write_commit (Some mem) w1 d1 c
            | W_End x \<Rightarrow> walf_write_end (Some mem) w1 d1 x
            | W_Update u \<Rightarrow> walf_write_update (Some mem) w1 d1 u
            | W_Clr c \<Rightarrow> walf_write_clr (Some mem) w1 d1 c
            | W_Ckpt_Begin \<Rightarrow> walf_write_ckpt_begin (Some mem) w1 d1
            | W_Ckpt_End c \<Rightarrow> walf_write_ckpt_end (Some mem) True m w1 d1 c
            | W_Eof \<Rightarrow> None) = Some (Inr (), w', d') \<and> wf_step w1 d1 w' d' (rec_image m r) \<and> wf_inv w' d'"
  proof (cases r)
    case (W_Update u)
    with ok have l: "length (wu_undo u) = PAGE_SIZE" "length (wu_redo u) = PAGE_SIZE" by simp_all
    then have "wu_undo u \<noteq> []" "wu_redo u \<noteq> []" by auto
    with fs [of "rec_parts m r"] W_Update l b show ?thesis by (simp add: walf_write_update_def mem_read_def)
  next
    case (W_Clr c)
    with ok have l: "length (wk_redo c) = PAGE_SIZE" "wk_undo_next c \<noteq> 0" by simp_all
    then have "wk_redo c \<noteq> []" by auto
    with fs [of "rec_parts m r"] W_Clr l b show ?thesis by (simp add: walf_write_clr_def mem_read_def)
  next
    case (W_Ckpt_End c)
    with walf_write_ckpt_end_no_fail [OF inv1 nf1 mem, of m c] ok room1 show ?thesis by simp
  qed (use fs [of "rec_parts m r"] ok b in
      \<open>simp_all add: walf_write_begin_def walf_write_commit_def walf_write_end_def walf_write_ckpt_begin_def\<close>)
  then obtain w2 d2 where w2: "(case r of
              W_Begin b \<Rightarrow> walf_write_begin (Some mem) w1 d1 b
            | W_Commit c \<Rightarrow> walf_write_commit (Some mem) w1 d1 c
            | W_End x \<Rightarrow> walf_write_end (Some mem) w1 d1 x
            | W_Update u \<Rightarrow> walf_write_update (Some mem) w1 d1 u
            | W_Clr c \<Rightarrow> walf_write_clr (Some mem) w1 d1 c
            | W_Ckpt_Begin \<Rightarrow> walf_write_ckpt_begin (Some mem) w1 d1
            | W_Ckpt_End c \<Rightarrow> walf_write_ckpt_end (Some mem) True m w1 d1 c
            | W_Eof \<Rightarrow> None) = Some (Inr (), w2, d2)" "wf_step w1 d1 w2 d2 (rec_image m r)" "wf_inv w2 d2" by blast
  from wf_step_trans [OF w1(2) w2(2)] w2(3) show ?thesis
    by (simp add: walf_write_def w1(1) os w2(1) lsn)
qed

lemma walf_flush_all_no_fail:
  assumes inv: "wf_inv w d" and nf: "no_fail d" and mem: "length mem = WAL_BUFFER_CAP"
  shows "\<exists>w' d'. walf_flush_all (Some mem) w d = Some (Inr (), w', d') \<and> wf_step w d w' d' [] \<and> wf_inv w' d' \<and>
    d_data d' = wf_log w d \<and> d_durable d' = wf_log w d"
proof -
  from inv have str: "wf_str w d" by (simp add: wf_inv_def)
  from walf_lazy_ostream_init_no_fail [OF str nf mem] obtain w1 d1 where
    w1: "walf_lazy_ostream_init (Some mem) w d = Some (Inr (), w1, d1)" "wf_step w d w1 d1 []" "wf_latch w1 = wf_latch w" by blast
  from w1(2) obtain os where os: "wf_ostream w1 = Some os" by (auto simp: wf_step_def)
  have osi: "wos_inv os d1" "\<not> wo_latch os" and log: "wos_log os d1 = wf_log w d" "wf_log w1 d1 = wf_log w d" and nf1: "no_fail d1"
    using w1(2) os by (auto simp: wf_step_def wf_str_def wf_log_def)
  have l: "wo_flushed_lsn os + of_nat (cbuffer_len (wo_buffer os)) = of_nat (length (wos_log os d1))"
    using osi(1) by (simp add: wos_inv_def wos_log_def)
  from walos_flush_no_fail [OF osi(1) nf1, of True "length (wos_log os d1)"] osi(2) obtain os' d' where
    f: "walos_flush_to_impl os d1 (of_nat (length (wos_log os d1))) True = Some (Inr (), os', d')" "\<not> wo_latch os'"
      "wos_inv os' d'" "wos_log os' d' = wos_log os d1" "d_durable d' = d_data d'" "no_fail d'"
      "if length (wos_log os d1) > length (d_data d1) then d_data d' = wos_log os d1 else d_data d' = d_data d1 \<and> wo_buffer os' = wo_buffer os"
    by auto
  have dat: "d_data d' = wf_log w d"
  proof (cases "length (wos_log os d1) > length (d_data d1)")
    case True
    with f(7) log show ?thesis by simp
  next
    case False
    then have "cbuffer_len (wo_buffer os) = 0" by (simp add: wos_log_def)
    then have "wos_log os d1 = d_data d1" by (simp add: wos_log_def cb_list_Nil_iff)
    with False f(7) log show ?thesis by simp
  qed
  let ?w' = "w1\<lparr>wf_ostream := Some os'\<rparr>"
  have "wf_log ?w' d' = wf_log w d" using f(4) log by (simp add: wf_log_def)
  moreover have "length (wf_log w d) < 9223372036854775808" using str by (simp add: wf_str_def)
  moreover have "\<exists>x. wf_log w d = d_data d @ x" by (auto simp: wf_log_def wos_log_def split: option.splits)
  then have "grows d d'" using dat f(5) by (auto intro: grows_synced)
  ultimately have "wf_step w d ?w' d' []" "wf_inv ?w' d'"
    using f(2,3,6) w1(2,3) inv dat log(1) os by (auto simp: wf_step_def wf_str_def wf_inv_def wos_log_def)
  moreover have "walf_flush_all (Some mem) w d = Some (Inr (), ?w', d')"
    using f(1) by (simp add: walf_flush_all_def w1(1) os walos_flush_all_def l)
  ultimately show ?thesis using dat f(5) by auto
qed

section \<open>Reading records\<close>

text \<open>The file is \<open>pre @ x @ post\<close> and the input stream is at \<open>x\<close>.\<close>

definition wi_at :: "nat \<Rightarrow> lsn \<Rightarrow> lsn \<Rightarrow> wal_istream" where
  "wi_at p l i = \<lparr>wi_fd = \<lparr>f_pos = p\<rparr>, wi_curlsn = l, wi_lsnidx = i\<rparr>"

definition same_disk :: "disk \<Rightarrow> disk \<Rightarrow> bool" where
  "same_disk d d' \<longleftrightarrow> d_data d' = d_data d \<and> d_durable d' = d_durable d \<and> no_fail d'"

lemma same_diskD: "same_disk d d' \<Longrightarrow> d_data d' = d_data d" "same_disk d d' \<Longrightarrow> no_fail d'"
  by (simp_all add: same_disk_def)

lemma same_disk_trans: "same_disk d d1 \<Longrightarrow> same_disk d1 d2 \<Longrightarrow> same_disk d d2"
  by (simp add: same_disk_def)

lemma walf_in_at:
  assumes "no_fail d" "wf_istream w = Some (wi_at (length pre) l i)" "d_data d = pre @ x @ post" "x \<noteq> []" "n = length x"
  shows "\<exists>d'. walf_in w d cs n = Some (Inr (Some x), map_option (\<lambda>c. NOT (foldl crc_step (NOT c) x)) cs,
      w\<lparr>wf_istream := Some (wi_at (length pre + n) l (i + of_nat n))\<rparr>, d') \<and> same_disk d d'"
proof -
  let ?is = "wi_at (length pre) l i"
  have "0 < n" "f_pos (wi_fd ?is) + n \<le> length (d_data d)" using assms by (simp_all add: wi_at_def)
  from walis_read_all_no_fail [OF assms(1) this, of cs] obtain d' where
    r: "walis_read_all ?is d cs n =
      Some (Inr (Some (slice (d_data d) (f_pos (wi_fd ?is)) n)),
        map_option (\<lambda>c. NOT (foldl crc_step (NOT c) (slice (d_data d) (f_pos (wi_fd ?is)) n))) cs,
        ?is\<lparr>wi_fd := \<lparr>f_pos = f_pos (wi_fd ?is) + n\<rparr>, wi_lsnidx := wi_lsnidx ?is + of_nat n\<rparr>, d')"
    "d_data d' = d_data d" "d_durable d' = d_durable d" "no_fail d'" by blast
  have "slice (d_data d) (f_pos (wi_fd ?is)) n = x" using assms(3,5) by (simp add: wi_at_def slice_def)
  moreover have "?is\<lparr>wi_fd := \<lparr>f_pos = f_pos (wi_fd ?is) + n\<rparr>, wi_lsnidx := wi_lsnidx ?is + of_nat n\<rparr>
      = wi_at (length pre + n) l (i + of_nat n)" by (simp add: wi_at_def)
  ultimately show ?thesis
    using r(2-4) by (simp add: walf_in_def assms(2) r(1) [unfolded \<open>slice _ _ _ = x\<close>] same_disk_def)
qed

lemma walf_in_at_end:
  assumes "no_fail d" "wf_istream w = Some (wi_at (length (d_data d)) l i)" "0 < n"
  shows "\<exists>d'. walf_in w d cs n = Some (Inr None, cs, w, d') \<and> same_disk d d'"
  using walis_read_all_at_end [OF assms(1,3), of "wi_at (length (d_data d)) l i" cs] assms(2)
  by (auto simp: walf_in_def same_disk_def wi_at_def)

lemma walf_read_full_at:
  assumes "no_fail d" "wf_istream w = Some (wi_at (length pre) l i)" "d_data d = pre @ body @ crc @ post"
    and "length crc = 4" "n = 1 + length body + 4"
  shows "\<exists>d'. walf_read_full w d c t n =
      Some (if NOT (foldl crc_step (NOT c) body) \<noteq> le_word crc then Inl ERR_CORRUPT else Inr (Some (t # body @ crc)),
        w\<lparr>wf_istream := Some (wi_at (length pre + length body + 4) l (i + of_nat (length body) + 4))\<rparr>, d') \<and>
    same_disk d d'"
proof -
  define c' where "c' = NOT (foldl crc_step (NOT c) body)"
  let ?w = "w\<lparr>wf_istream := Some (wi_at (length pre + length body) l (i + of_nat (length body)))\<rparr>"
  have "\<exists>d1. (if length body > 0 then walf_in w d (Some c) (length body) else Some (Inr (Some []), Some c, w, d))
      = Some (Inr (Some body), Some c', ?w, d1) \<and> same_disk d d1"
  proof (cases "body = []")
    case True
    with assms show ?thesis by (simp add: same_disk_def c'_def)
  next
    case False
    from walf_in_at [OF assms(1-3) this refl, of "Some c"] False show ?thesis by (auto simp: c'_def)
  qed
  then obtain d1 where d1: "(if length body > 0 then walf_in w d (Some c) (length body) else Some (Inr (Some []), Some c, w, d))
      = Some (Inr (Some body), Some c', ?w, d1)" "same_disk d d1" by blast
  have "d_data d1 = (pre @ body) @ crc @ post" "wf_istream ?w = Some (wi_at (length (pre @ body)) l (i + of_nat (length body)))"
    using assms(3) same_diskD(1) [OF d1(2)] by simp_all
  moreover have "crc \<noteq> []" "4 = length crc" using assms(4) by auto
  ultimately obtain d2 where d2: "walf_in ?w d1 None 4 = Some (Inr (Some crc), None,
      w\<lparr>wf_istream := Some (wi_at (length pre + length body + 4) l (i + of_nat (length body) + 4))\<rparr>, d2)" "same_disk d1 d2"
    using walf_in_at [OF same_diskD(2) [OF d1(2)], of ?w "pre @ body" l "i + of_nat (length body)" crc post 4 None] by auto
  have n: "n - 1 - 4 = length body" using assms(5) by simp
  have "walf_read_full w d c t n =
      Some (if c' \<noteq> le_word crc then Inl ERR_CORRUPT else Inr (Some (t # body @ crc)),
        w\<lparr>wf_istream := Some (wi_at (length pre + length body + 4) l (i + of_nat (length body) + 4))\<rparr>, d2)"
    unfolding walf_read_full_def n Let_def d1(1) Option.bind.simps prod.case sum.case option.case d2(1)
    using assms(5) by simp
  with same_disk_trans [OF d1(2) d2(2)] show ?thesis unfolding c'_def by blast
qed

lemma bytes32_le_word [simp]: "length bs = 4 \<Longrightarrow> bytes32 (le_word bs) = bs"
  using le_bytes_le_word [where 'a = 32, of bs] by (simp add: bytes32_def)

lemma walf_read_ckpt_end_full_at:
  assumes nf: "no_fail d" and w: "wf_istream w = Some (wi_at (length pre) l i)"
    and dat: "d_data d = pre @ s1 @ s2 @ body @ crc @ post"
    and len: "length s1 = 4" "length s2 = 4" "length crc = 4"
      "unat (le_word s1 :: u32) + unat (le_word s2 :: u32) = length body" "length body < 1000000000"
  shows "\<exists>d'. walf_read_ckpt_end_full True w d c =
      Some (if NOT (foldl crc_step (NOT c) (s1 @ s2 @ body)) \<noteq> le_word crc then Inl ERR_CORRUPT
            else Inr (Some (WL_CKPT_END # s1 @ s2 @ body @ crc)),
        w\<lparr>wf_istream := Some (wi_at (length pre + 8 + length body + 4) l (i + 8 + of_nat (length body) + 4))\<rparr>, d') \<and>
    same_disk d d'"
proof -
  define c1 where "c1 = NOT (foldl crc_step (NOT c) (s1 @ s2))"
  define c2 where "c2 = NOT (foldl crc_step (NOT c) (s1 @ s2 @ body))"
  let ?w1 = "w\<lparr>wf_istream := Some (wi_at (length pre + 8) l (i + 8))\<rparr>"
  let ?w2 = "w\<lparr>wf_istream := Some (wi_at (length pre + 8 + length body) l (i + 8 + of_nat (length body)))\<rparr>"
  let ?w3 = "w\<lparr>wf_istream := Some (wi_at (length pre + 8 + length body + 4) l (i + 8 + of_nat (length body) + 4))\<rparr>"
  have "s1 @ s2 \<noteq> []" "8 = length (s1 @ s2)" "d_data d = pre @ (s1 @ s2) @ body @ crc @ post" using len dat by auto
  from walf_in_at [OF nf w this(3,1,2), of "Some c"] obtain d1 where
    d1: "walf_in w d (Some c) 8 = Some (Inr (Some (s1 @ s2)), Some c1, ?w1, d1)" "same_disk d d1"
    by (auto simp: c1_def)
  have dat1: "d_data d1 = (pre @ s1 @ s2) @ body @ crc @ post" "wf_istream ?w1 = Some (wi_at (length (pre @ s1 @ s2)) l (i + 8))"
    using dat same_diskD(1) [OF d1(2)] len by simp_all
  have "\<exists>d2. (if length body > 0 then walf_in ?w1 d1 (Some c1) (length body) else Some (Inr (Some []), Some c1, ?w1, d1))
      = Some (Inr (Some body), Some c2, ?w2, d2) \<and> same_disk d1 d2"
  proof (cases "body = []")
    case True
    with d1(2) show ?thesis by (simp add: same_disk_def c1_def c2_def)
  next
    case False
    from walf_in_at [OF same_diskD(2) [OF d1(2)] dat1(2,1) False refl, of "Some c1"] False len show ?thesis
      by (auto simp: c1_def c2_def add.assoc)
  qed
  then obtain d2 where d2: "(if length body > 0 then walf_in ?w1 d1 (Some c1) (length body) else Some (Inr (Some []), Some c1, ?w1, d1))
      = Some (Inr (Some body), Some c2, ?w2, d2)" "same_disk d1 d2" by blast
  have dat2: "d_data d2 = (pre @ s1 @ s2 @ body) @ crc @ post"
    "wf_istream ?w2 = Some (wi_at (length (pre @ s1 @ s2 @ body)) l (i + 8 + of_nat (length body)))"
    using dat1(1) same_diskD(1) [OF d2(2)] len by (simp_all add: add.assoc)
  have crc: "crc \<noteq> []" "4 = length crc" using len(3) by auto
  have "length (pre @ s1 @ s2 @ body) + 4 = length pre + 8 + length body + 4" using len(1,2) by simp
  with walf_in_at [OF same_diskD(2) [OF d2(2)] dat2(2,1) crc, of None] obtain d3 where
    d3: "walf_in ?w2 d2 None 4 = Some (Inr (Some crc), None, ?w3, d3)" "same_disk d2 d3"
    by (simp only: wal_file.update_convs option.map) auto
  let ?a = "unat (le_word s1 :: u32)" and ?b = "unat (le_word s2 :: u32)"
  have sz: "take 4 (s1 @ s2) = s1" "drop 4 (s1 @ s2) = s2" using len by simp_all
  have n: "(1 + 2 * 4 + ?a + ?b + 4) mod 2 ^ 32 = 13 + length body" "add32 ?a ?b = length body"
    using len(4,5) by (simp_all add: add32_exact)
  let ?hd = "[WL_CKPT_END] @ bytes32 (of_nat ?a) @ bytes32 (of_nat ?b)"
  have hd: "?hd = WL_CKPT_END # s1 @ s2" using len(1,2) by simp
  let ?b0 = "splice (replicate (13 + length body) 0) 0 ?hd"
  have b0: "?b0 = WL_CKPT_END # s1 @ s2 @ replicate (length body + 4) 0"
    unfolding hd by (simp add: splice_def len)
  have m0: "mem_write (replicate (13 + length body) 0) 0 ?hd = Some ?b0"
    by (rule mem_write_Some) simp
  have hdr: "drop (9 + n) (x # s1 @ s2 @ r) = drop n r" "take (9 + n) (x # s1 @ s2 @ r) = x # s1 @ s2 @ take n r" for n x r
    using len(1,2) by (simp_all add: drop_Cons' take_Cons')
  have m1: "mem_write ?b0 9 body = Some (WL_CKPT_END # s1 @ s2 @ body @ replicate 4 0)"
    unfolding b0 using len hdr [of 0] by (simp add: mem_write_def splice_def hdr)
  have m2: "mem_write (WL_CKPT_END # s1 @ s2 @ body @ replicate 4 0) (9 + length body) crc =
      Some (WL_CKPT_END # s1 @ s2 @ body @ crc)"
    using len by (simp add: mem_write_def splice_def hdr add.assoc)
  have body: "(if length body > 0 then do { ASSERT (9 + length body \<le> 13 + length body); walf_in ?w1 d1 (Some c1) (length body) }
      else Some (Inr (Some []), Some c1, ?w1, d1)) = Some (Inr (Some body), Some c2, ?w2, d2)"
    using d2(1) by (simp split: if_splits)
  have "walf_read_ckpt_end_full True w d c =
      Some (if c2 \<noteq> le_word crc then Inl ERR_CORRUPT else Inr (Some (WL_CKPT_END # s1 @ s2 @ body @ crc)), ?w3, d3)"
    unfolding walf_read_ckpt_end_full_def d1(1) Option.bind.simps prod.case sum.case option.case Let_def sz n m0 body m1 m2
    by (simp add: d3(1) m0 m1 m2)
  moreover have "same_disk d d3" using d1(2) d2(2) d3(2) by (blast intro: same_disk_trans)
  ultimately show ?thesis unfolding c2_def by blast
qed

definition crc_type :: "u8 \<Rightarrow> u32" where
  \<comment> \<open>the checksum once the type byte is in\<close>
  "crc_type t = NOT (foldl crc_step (NOT checksum_init) [t])"

lemma crc_of_Cons: "NOT (foldl crc_step (NOT (crc_type t)) bs) = crc_of (t # bs)"
  by (simp add: crc_type_def crc_of_def)

lemmas wal_lens = WL_UPDATE_LEN_def WL_CLR_LEN_def WL_BEGIN_LEN_def WL_COMMIT_LEN_def WL_END_LEN_def WL_CKPT_BEGIN_LEN_def

text \<open>A record with a fixed length, whatever its bytes are: a wrong checksum is an error, otherwise the
  bytes are decoded.\<close>

definition rec_fixed_len :: "u8 \<Rightarrow> nat" where
  "rec_fixed_len t =
     (if t = WL_UPDATE then WL_UPDATE_LEN else if t = WL_CLR then WL_CLR_LEN else if t = WL_BEGIN then WL_BEGIN_LEN
      else if t = WL_COMMIT then WL_COMMIT_LEN else if t = WL_END then WL_END_LEN
      else if t = WL_CKPT_BEGIN then WL_CKPT_BEGIN_LEN else 0)"

definition decode_fixed :: "u8 \<Rightarrow> u8 list \<Rightarrow> wal_rec_hdr_read option" where
  "decode_fixed t buf =
     (if t = WL_UPDATE then map_option R_Update (walf_decode_update buf)
      else if t = WL_CLR then map_option R_Clr (walf_decode_clr buf)
      else if t = WL_BEGIN then map_option R_Begin (walf_decode_begin buf)
      else if t = WL_COMMIT then map_option R_Commit (walf_decode_commit buf)
      else if t = WL_END then map_option R_End (walf_decode_end buf)
      else Some R_Ckpt_Begin)"

lemma walf_read_body_fixed:
  assumes t: "t \<in> {WL_UPDATE, WL_CLR, WL_BEGIN, WL_COMMIT, WL_END, WL_CKPT_BEGIN}"
  shows "walf_read_body ok al m w d c t = do {
      (ret, w, d) \<leftarrow> walf_read_full w d c t (rec_fixed_len t);
      case ret of
        Inl e \<Rightarrow> Some (Inl e, m, w, d)
      | Inr None \<Rightarrow> Some (Inr R_Eof, m, w, d)
      | Inr (Some buf) \<Rightarrow> do { rec \<leftarrow> decode_fixed t buf; Some (Inr rec, m, w, d) } }"
  using t
  by (elim insertE emptyE)
    (auto simp: walf_read_body_def walf_read_update_def walf_read_clr_def walf_read_begin_def walf_read_commit_def
      walf_read_end_def walf_read_ckpt_begin_def rec_fixed_len_def decode_fixed_def bind_assoc Option.bind_map_option
      split: Option.bind_splits sum.splits option.splits intro!: Option.bind_cong)

lemma walf_read_type_at:
  assumes "no_fail d" "wf_istream w = Some (wi_at (length pre) l i)" "d_data d = pre @ t # post"
  shows "\<exists>d'. walf_read_next ok al m w d = do {
      (r, m, w, d) \<leftarrow> walf_read_body ok al m (w\<lparr>wf_istream := Some (wi_at (length pre + 1) l 1)\<rparr>) d' (crc_type t) t;
      case r of
        Inl e \<Rightarrow> Some (Inl e, m, w, d)
      | Inr rec \<Rightarrow> do {
          is \<leftarrow> wf_istream w;
          Some (Inr rec, m, w\<lparr>wf_istream := Some (walis_mark_end_log is)\<rparr>, d) } } \<and> same_disk d d'"
proof -
  let ?w = "w\<lparr>wf_istream := Some (wi_at (length pre) l 0)\<rparr>"
  have "wf_istream ?w = Some (wi_at (length pre) l 0)" "d_data d = pre @ [t] @ post" "[t] \<noteq> []" "1 = length [t]"
    using assms(3) by simp_all
  from walf_in_at [OF assms(1) this, of "Some checksum_init"] obtain d' where
    d': "walf_in ?w d (Some checksum_init) 1 = Some (Inr (Some [t]), Some (crc_type t),
      w\<lparr>wf_istream := Some (wi_at (length pre + 1) l 1)\<rparr>, d')" "same_disk d d'"
    by (auto simp: crc_type_def)
  have m: "walis_mark_start_log (wi_at (length pre) l i) = wi_at (length pre) l 0"
    by (simp add: walis_mark_start_log_def wi_at_def)
  show ?thesis
    by (intro exI [of _ d'] conjI d'(2))
      (simp only: walf_read_next_def assms(2) Option.bind.simps Let_def m d'(1) prod.case sum.case option.case list.sel)
qed

lemma walf_read_next_fixed:
  assumes nf: "no_fail d" and w: "wf_istream w = Some (wi_at (length pre) l i)"
    and dat: "d_data d = pre @ t # body @ crc @ post"
    and t: "t \<in> {WL_UPDATE, WL_CLR, WL_BEGIN, WL_COMMIT, WL_END, WL_CKPT_BEGIN}"
    and len: "rec_fixed_len t = 1 + length body + 4" "length crc = 4"
  shows "if crc_of (t # body) \<noteq> le_word crc
    then \<exists>w' d'. walf_read_next ok al m w d = Some (Inl ERR_CORRUPT, m, w', d') \<and> same_disk d d'
    else \<forall>rec. decode_fixed t (t # body @ crc) = Some rec \<longrightarrow>
      (\<exists>d'. walf_read_next ok al m w d = Some (Inr rec, m, w\<lparr>wf_istream :=
          Some (wi_at (length pre + (1 + length body + 4)) (l + of_nat (1 + length body + 4)) (of_nat (1 + length body + 4)))\<rparr>, d') \<and>
        same_disk d d')"
proof -
  from walf_read_type_at [OF nf w dat, of ok al m] obtain d1 where
    d1: "walf_read_next ok al m w d = do {
      (r, m, w, d) \<leftarrow> walf_read_body ok al m (w\<lparr>wf_istream := Some (wi_at (length pre + 1) l 1)\<rparr>) d1 (crc_type t) t;
      case r of
        Inl e \<Rightarrow> Some (Inl e, m, w, d)
      | Inr rec \<Rightarrow> do {
          is \<leftarrow> wf_istream w;
          Some (Inr rec, m, w\<lparr>wf_istream := Some (walis_mark_end_log is)\<rparr>, d) } }" "same_disk d d1" by blast
  let ?w1 = "w\<lparr>wf_istream := Some (wi_at (length pre + 1) l 1)\<rparr>"
  let ?w2 = "w\<lparr>wf_istream := Some (wi_at (length pre + 1 + length body + 4) l (1 + of_nat (length body) + 4))\<rparr>"
  have "wf_istream ?w1 = Some (wi_at (length (pre @ [t])) l 1)" "d_data d1 = (pre @ [t]) @ body @ crc @ post"
    using dat same_diskD(1) [OF d1(2)] by simp_all
  from walf_read_full_at [OF same_diskD(2) [OF d1(2)] this len(2,1), of "crc_type t" t] obtain d2 where
    d2: "walf_read_full ?w1 d1 (crc_type t) t (rec_fixed_len t) =
      Some (if crc_of (t # body) \<noteq> le_word crc then Inl ERR_CORRUPT else Inr (Some (t # body @ crc)), ?w2, d2)"
      "same_disk d1 d2" by (auto simp: crc_of_Cons)
  note body = walf_read_body_fixed [OF t, of ok al m ?w1 d1 "crc_type t", unfolded d2(1) Option.bind.simps prod.case]
  have same: "same_disk d d2" using d1(2) d2(2) by (rule same_disk_trans)
  have mark: "walis_mark_end_log (wi_at (length pre + 1 + length body + 4) l (1 + of_nat (length body) + 4)) =
    wi_at (length pre + (1 + length body + 4)) (l + of_nat (1 + length body + 4)) (of_nat (1 + length body + 4))"
    by (simp add: walis_mark_end_log_def wi_at_def)
  show ?thesis
  proof (cases "crc_of (t # body) \<noteq> le_word crc")
    case True
    with same show ?thesis unfolding d1(1) body by auto
  next
    case False
    have "\<exists>d'. walf_read_next ok al m w d = Some (Inr rec, m, w\<lparr>wf_istream :=
          Some (wi_at (length pre + (1 + length body + 4)) (l + of_nat (1 + length body + 4)) (of_nat (1 + length body + 4)))\<rparr>, d') \<and>
        same_disk d d'" if "decode_fixed t (t # body @ crc) = Some rec" for rec
      unfolding d1(1) body using False same
      by (intro exI [of _ d2]) (simp add: that mark [simplified])
    with False show ?thesis by simp
  qed
qed

text \<open>The records of fixed length as they are laid out.\<close>

lemma rec_fixed_parts:
  assumes "rec_ok m r" "\<And>c. r \<noteq> W_Ckpt_End c"
  shows "\<exists>t body. concat (rec_parts m r) = t # body \<and>
    t \<in> {WL_UPDATE, WL_CLR, WL_BEGIN, WL_COMMIT, WL_END, WL_CKPT_BEGIN} \<and> rec_fixed_len t = 1 + length body + 4 \<and>
    (\<forall>post. \<exists>rec. decode_fixed t (t # body @ post) = Some rec \<and> (\<forall>m'. rec_same m r m' rec))"
proof (cases r)
  case (W_Update u)
  with assms(1) decode_update [of u m] show ?thesis by (simp add: rec_fixed_len_def decode_fixed_def wal_lens)
next
  case (W_Clr c)
  with assms(1) decode_clr [of c m] show ?thesis by (simp add: rec_fixed_len_def decode_fixed_def wal_lens)
next
  case (W_Begin b)
  with decode_begin [of m b] show ?thesis by (simp add: rec_fixed_len_def decode_fixed_def wal_lens)
next
  case (W_Commit c)
  with decode_commit [of m c] show ?thesis by (simp add: rec_fixed_len_def decode_fixed_def wal_lens)
next
  case (W_End x)
  with decode_end [of m x] show ?thesis by (simp add: rec_fixed_len_def decode_fixed_def wal_lens)
next
  case W_Ckpt_Begin
  then show ?thesis by (simp add: rec_fixed_len_def decode_fixed_def wal_lens)
qed (use assms in auto)

text \<open>Reading the image of a record gives the record back and moves the stream behind it.\<close>

lemma walf_read_next_ckpt_end:
  assumes nf: "no_fail d" and w: "wf_istream w = Some (wi_at (length pre) l i)"
    and dat: "d_data d = pre @ rec_image m (W_Ckpt_End c) @ post" and ok: "rec_ok m (W_Ckpt_End c)" and al: "allocs_ok al"
  shows "\<exists>rec m'' d'. walf_read_next True al m' w d = Some (Inr rec, m'', w\<lparr>wf_istream :=
      Some (wi_at (length pre + length (rec_image m (W_Ckpt_End c))) (l + of_nat (length (rec_image m (W_Ckpt_End c))))
        (of_nat (length (rec_image m (W_Ckpt_End c)))))\<rparr>, d') \<and>
    rec_same m (W_Ckpt_End c) m'' rec \<and> same_disk d d'"
proof -
  let ?ab = "att_bytes m (cw_att c)" and ?db = "dpt_bytes m (cw_dpt c)"
  let ?s1 = "bytes32 (of_nat (length ?ab))" and ?s2 = "bytes32 (of_nat (length ?db))"
  let ?body = "?ab @ ?db"
  let ?crc = "bytes32 (crc_of (concat (rec_parts m (W_Ckpt_End c))))"
  let ?n = "1 + 8 + length ?body + 4"
  have parts: "concat (rec_parts m (W_Ckpt_End c)) = WL_CKPT_END # ?s1 @ ?s2 @ ?body" by simp
  have img: "rec_image m (W_Ckpt_End c) = WL_CKPT_END # ?s1 @ ?s2 @ ?body @ ?crc"
    by (simp add: rec_image_def)
  have n: "length (rec_image m (W_Ckpt_End c)) = ?n" unfolding img by simp
  have bl: "length ?body < 1000000000" using length_rec_parts [OF ok] unfolding parts by simp
  have sz: "unat (of_nat (length ?ab) :: u32) = length ?ab" "unat (of_nat (length ?db) :: u32) = length ?db"
    by (rule unat_of_nat32, use bl in simp)+
  have dat0: "d_data d = pre @ WL_CKPT_END # (?s1 @ ?s2 @ ?body @ ?crc @ post)" using dat unfolding img by simp
  from walf_read_type_at [OF nf w dat0, of True al m'] obtain d1 where
    d1: "walf_read_next True al m' w d = do {
      (r, m, w, d) \<leftarrow> walf_read_body True al m' (w\<lparr>wf_istream := Some (wi_at (length pre + 1) l 1)\<rparr>) d1 (crc_type WL_CKPT_END) WL_CKPT_END;
      case r of
        Inl e \<Rightarrow> Some (Inl e, m, w, d)
      | Inr rec \<Rightarrow> do {
          is \<leftarrow> wf_istream w;
          Some (Inr rec, m, w\<lparr>wf_istream := Some (walis_mark_end_log is)\<rparr>, d) } }" "same_disk d d1" by blast
  let ?w1 = "w\<lparr>wf_istream := Some (wi_at (length pre + 1) l 1)\<rparr>"
  let ?w2 = "w\<lparr>wf_istream := Some (wi_at (length pre + 1 + 8 + length ?body + 4) l (1 + 8 + of_nat (length ?body) + 4))\<rparr>"
  have w1: "wf_istream ?w1 = Some (wi_at (length (pre @ [WL_CKPT_END])) l 1)"
    "d_data d1 = (pre @ [WL_CKPT_END]) @ ?s1 @ ?s2 @ ?body @ ?crc @ post"
    using dat0 same_diskD(1) [OF d1(2)] by simp_all
  have "unat (le_word ?s1 :: u32) + unat (le_word ?s2 :: u32) = length ?body" by (simp add: sz)
  from walf_read_ckpt_end_full_at [OF same_diskD(2) [OF d1(2)] w1 length_bytes32 length_bytes32 length_bytes32 this bl,
      of "crc_type WL_CKPT_END"] obtain d2 where
    d2: "walf_read_ckpt_end_full True ?w1 d1 (crc_type WL_CKPT_END) =
      Some (Inr (Some (WL_CKPT_END # ?s1 @ ?s2 @ ?body @ ?crc)), ?w2, d2)" "same_disk d1 d2"
    unfolding crc_of_Cons parts le_word_bytes32 by (auto simp del: append_assoc)
  from decode_ckpt_end [OF ok al, of m' ?crc] obtain c' m'' where
    dec: "walf_decode_ckpt_end al m' (WL_CKPT_END # ?s1 @ ?s2 @ ?body @ ?crc) = Some (Inr c', m'')"
      "rec_same m (W_Ckpt_End c) m'' (R_Ckpt_End c')" unfolding parts by auto
  have mark: "walis_mark_end_log (wi_at (length pre + 1 + 8 + length ?body + 4) l (1 + 8 + of_nat (length ?body) + 4)) =
    wi_at (length pre + ?n) (l + of_nat ?n) (of_nat ?n)"
    by (simp add: walis_mark_end_log_def wi_at_def)
  have "walf_read_next True al m' w d =
    Some (Inr (R_Ckpt_End c'), m'', w\<lparr>wf_istream := Some (wi_at (length pre + ?n) (l + of_nat ?n) (of_nat ?n))\<rparr>, d2)"
    unfolding d1(1) walf_read_body_def walf_read_ckpt_end_def if_P [OF refl] d2(1) Option.bind.simps prod.case sum.case option.case dec(1)
    by (simp add: mark [simplified])
  with dec(2) same_disk_trans [OF d1(2) d2(2)] show ?thesis unfolding n by blast
qed

lemma walf_read_next_image:
  assumes nf: "no_fail d" and w: "wf_istream w = Some (wi_at (length pre) l i)"
    and dat: "d_data d = pre @ rec_image m r @ post" and ok: "rec_ok m r" and al: "allocs_ok al"
  shows "\<exists>rec m'' d'. walf_read_next True al m' w d = Some (Inr rec, m'', w\<lparr>wf_istream :=
      Some (wi_at (length pre + length (rec_image m r)) (l + of_nat (length (rec_image m r))) (of_nat (length (rec_image m r))))\<rparr>, d') \<and>
    rec_same m r m'' rec \<and> same_disk d d'"
proof (cases "\<exists>c. r = W_Ckpt_End c")
  case True
  with walf_read_next_ckpt_end [OF nf w _ _ al] dat ok show ?thesis by blast
next
  case False
  then have "\<And>c. r \<noteq> W_Ckpt_End c" by blast
  from rec_fixed_parts [OF ok this] obtain t body where
    p: "concat (rec_parts m r) = t # body" "t \<in> {WL_UPDATE, WL_CLR, WL_BEGIN, WL_COMMIT, WL_END, WL_CKPT_BEGIN}"
      "rec_fixed_len t = 1 + length body + 4"
      "\<forall>post. \<exists>rec. decode_fixed t (t # body @ post) = Some rec \<and> (\<forall>m'. rec_same m r m' rec)" by blast
  let ?crc = "bytes32 (crc_of (t # body))"
  have img: "rec_image m r = t # body @ ?crc" by (simp add: rec_image_def p(1))
  have n: "length (rec_image m r) = 1 + length body + 4" unfolding img by simp
  from p(4) obtain rec where rec: "decode_fixed t (t # body @ ?crc) = Some rec" "\<forall>m'. rec_same m r m' rec" by blast
  have dat0: "d_data d = pre @ t # body @ ?crc @ post" using dat unfolding img by simp
  have "\<not> crc_of (t # body) \<noteq> le_word ?crc" by simp
  with walf_read_next_fixed [OF nf w dat0 p(2,3) length_bytes32, of True al m'] rec show ?thesis
    unfolding n by fastforce
qed

text \<open>Reading at a position: the stream is opened where it is not, and positioned.\<close>

lemma walf_lazy_istream_init_no_fail:
  assumes "no_fail d"
  shows "\<exists>s d'. walf_lazy_istream_init w d = (Inr (), w\<lparr>wf_istream := Some s\<rparr>, d') \<and> same_disk d d' \<and>
    (wf_istream w = None \<longrightarrow> s = wi_at 0 0 0) \<and> (\<forall>x. wf_istream w = Some x \<longrightarrow> s = x)"
proof (cases "wf_istream w")
  case None
  from walis_open_no_fail [OF assms] None show ?thesis
    by (auto simp: walf_lazy_istream_init_def same_disk_def wi_at_def)
next
  case (Some x)
  then have "w\<lparr>wf_istream := Some x\<rparr> = w" by (cases w) simp
  with Some assms show ?thesis by (auto simp: walf_lazy_istream_init_def same_disk_def)
qed

lemma walf_pread_at:
  assumes nf: "no_fail d" and p: "p < 9223372036854775808"
  shows "\<exists>i d'. walf_pread ok al m w d (of_nat p) = walf_read_next ok al m (w\<lparr>wf_istream := Some (wi_at p (of_nat p) i)\<rparr>) d' \<and>
    same_disk d d'"
proof -
  from walf_lazy_istream_init_no_fail [OF nf, of w] obtain s d1 where
    d1: "walf_lazy_istream_init w d = (Inr (), w\<lparr>wf_istream := Some s\<rparr>, d1)" "same_disk d d1" by blast
  from walis_seek_no_fail [OF same_diskD(2) [OF d1(2)] p, of s] obtain d2 where
    d2: "walis_seek s d1 (of_nat p) = (Inr (), s\<lparr>wi_fd := \<lparr>f_pos = p\<rparr>, wi_curlsn := of_nat p\<rparr>, d2)"
      "same_disk d1 d2" by (auto simp: same_disk_def)
  have "s\<lparr>wi_fd := \<lparr>f_pos = p\<rparr>, wi_curlsn := of_nat p\<rparr> = wi_at p (of_nat p) (wi_lsnidx s)"
    by (cases s) (simp add: wi_at_def)
  with d1 d2 same_disk_trans [OF d1(2) d2(2)] show ?thesis by (auto simp: walf_pread_def)
qed

lemma walf_pread_image:
  assumes nf: "no_fail d" and dat: "d_data d = pre @ rec_image m r @ post" and p: "length pre < 9223372036854775808"
    and ok: "rec_ok m r" and al: "allocs_ok al"
  shows "\<exists>rec m'' w' d'. walf_pread True al m' w d (of_nat (length pre)) = Some (Inr rec, m'', w', d') \<and>
    rec_same m r m'' rec \<and> same_disk d d' \<and> wf_ostream w' = wf_ostream w \<and> wf_latch w' = wf_latch w"
proof -
  from walf_pread_at [OF nf p, of True al m' w] obtain i d1 where
    d1: "walf_pread True al m' w d (of_nat (length pre)) =
      walf_read_next True al m' (w\<lparr>wf_istream := Some (wi_at (length pre) (of_nat (length pre)) i)\<rparr>) d1" "same_disk d d1" by blast
  have "wf_istream (w\<lparr>wf_istream := Some (wi_at (length pre) (of_nat (length pre)) i)\<rparr>) = Some (wi_at (length pre) (of_nat (length pre)) i)"
    "d_data d1 = pre @ rec_image m r @ post"
    using dat same_diskD(1) [OF d1(2)] by simp_all
  from walf_read_next_image [OF same_diskD(2) [OF d1(2)] this ok al, of m'] obtain rec m'' d' where
    "walf_read_next True al m' (w\<lparr>wf_istream := Some (wi_at (length pre) (of_nat (length pre)) i)\<rparr>) d1 =
      Some (Inr rec, m'', w\<lparr>wf_istream := Some (wi_at (length pre + length (rec_image m r))
        (of_nat (length pre) + of_nat (length (rec_image m r))) (of_nat (length (rec_image m r))))\<rparr>, d')"
    "rec_same m r m'' rec" "same_disk d1 d'" by auto
  with d1(1) same_disk_trans [OF d1(2) this(3)] show ?thesis by fastforce
qed

lemma walf_read_next_end:
  assumes nf: "no_fail d" and w: "wf_istream w = Some (wi_at p l i)" and p: "length (d_data d) \<le> p"
  shows "\<exists>w' d'. walf_read_next ok al m w d = Some (Inr R_Eof, m, w', d') \<and> same_disk d d' \<and>
    wf_ostream w' = wf_ostream w \<and> wf_latch w' = wf_latch w"
proof -
  let ?w = "w\<lparr>wf_istream := Some (wi_at p l 0)\<rparr>"
  have m: "walis_mark_start_log (wi_at p l i) = wi_at p l 0"
    by (simp add: walis_mark_start_log_def wi_at_def)
  have "length (d_data d) \<le> f_pos (wi_fd (wi_at p l 0))" using p by (simp add: wi_at_def)
  from walis_read_all_at_end [OF nf zero_less_one this, of "Some checksum_init"] obtain d' where
    "walf_in ?w d (Some checksum_init) 1 = Some (Inr None, Some checksum_init, ?w, d')" "same_disk d d'"
    by (auto simp: walf_in_def same_disk_def)
  then show ?thesis by (simp add: walf_read_next_def w m)
qed

end
