(* ===== verification/Wal_Log.thy ===== *)
theory Wal_Log
  imports Wal_File
begin

text \<open>
  \<^verbatim>\<open>libs/nspager/wal.c\<close>: the write-ahead log of the pager.

  Its latch is always taken and given back and is left out, and its two scratch records are the values
  the operations take and return. \<open>wal_log\<close> is the log, \<open>images\<close> the bytes of a list of records; the
  properties say what the log does for its client: what was appended is read back, by position and in
  order, damage is noticed, and what the log does not do.
\<close>

section \<open>The write-ahead log of the pager\<close>

record wal =
  w_wf :: wal_file

definition wal_open :: wal where
  "wal_open = \<lparr>w_wf = walf_open\<rparr>"

definition wal_reset :: "wal \<Rightarrow> disk \<Rightarrow> (unit res \<times> wal \<times> disk) option" where
  "wal_reset w d = do { (r, wf, d) \<leftarrow> walf_reset (w_wf w) d; Some (r, w\<lparr>w_wf := wf\<rparr>, d) }"

definition wal_close :: "wal \<Rightarrow> disk \<Rightarrow> (unit res \<times> wal \<times> disk) option" where
  "wal_close w d = do { (r, wf, d) \<leftarrow> walf_close (w_wf w) d; Some (r, w\<lparr>w_wf := wf\<rparr>, d) }"

definition wal_write_mode :: "wal \<Rightarrow> disk \<Rightarrow> unit res \<times> wal \<times> disk" where
  "wal_write_mode w d = (let (r, wf, d) = walf_write_mode (w_wf w) d in (r, w\<lparr>w_wf := wf\<rparr>, d))"

text \<open>\<open>am\<close>: the memory of the output stream, and the outcome of a checkpoint's allocation.\<close>

definition wal_append ::
  "u8 list option \<times> bool \<Rightarrow> wal_mem \<Rightarrow> wal \<Rightarrow> disk \<Rightarrow> wal_rec_hdr_write \<Rightarrow> (lsn res \<times> wal \<times> disk) option" where
  \<comment> \<open>what the \<^verbatim>\<open>wal_append\<close> operations do with the record they put together\<close>
  "wal_append am m w d whdr = do {
     (r, wf, d) \<leftarrow> walf_write (fst am) (snd am) m (w_wf w) d whdr;
     Some (r, w\<lparr>w_wf := wf\<rparr>, d) }"

definition wal_append_begin_log ::
  "u8 list option \<times> bool \<Rightarrow> wal_mem \<Rightarrow> wal \<Rightarrow> disk \<Rightarrow> txid \<Rightarrow> (lsn res \<times> wal \<times> disk) option" where
  "wal_append_begin_log am m w d tid = wal_append am m w d (W_Begin \<lparr>wb_tid = tid\<rparr>)"

definition wal_append_commit_log ::
  "u8 list option \<times> bool \<Rightarrow> wal_mem \<Rightarrow> wal \<Rightarrow> disk \<Rightarrow> txid \<Rightarrow> lsn \<Rightarrow> (lsn res \<times> wal \<times> disk) option" where
  "wal_append_commit_log am m w d tid prev = wal_append am m w d (W_Commit \<lparr>wc_tid = tid, wc_prev = prev\<rparr>)"

definition wal_append_end_log ::
  "u8 list option \<times> bool \<Rightarrow> wal_mem \<Rightarrow> wal \<Rightarrow> disk \<Rightarrow> txid \<Rightarrow> lsn \<Rightarrow> (lsn res \<times> wal \<times> disk) option" where
  "wal_append_end_log am m w d tid prev = wal_append am m w d (W_End \<lparr>we_tid = tid, we_prev = prev\<rparr>)"

definition wal_append_update_log ::
  "u8 list option \<times> bool \<Rightarrow> wal_mem \<Rightarrow> wal \<Rightarrow> disk \<Rightarrow> wal_update \<Rightarrow> (lsn res \<times> wal \<times> disk) option" where
  "wal_append_update_log am m w d u = wal_append am m w d (W_Update u)"

definition wal_append_clr_log ::
  "u8 list option \<times> bool \<Rightarrow> wal_mem \<Rightarrow> wal \<Rightarrow> disk \<Rightarrow> wal_clr \<Rightarrow> (lsn res \<times> wal \<times> disk) option" where
  "wal_append_clr_log am m w d c = wal_append am m w d (W_Clr c)"

definition wal_append_ckpt_begin ::
  "u8 list option \<times> bool \<Rightarrow> wal_mem \<Rightarrow> wal \<Rightarrow> disk \<Rightarrow> (lsn res \<times> wal \<times> disk) option" where
  "wal_append_ckpt_begin am m w d = wal_append am m w d W_Ckpt_Begin"

definition wal_append_ckpt_end ::
  "u8 list option \<times> bool \<Rightarrow> wal_mem \<Rightarrow> wal \<Rightarrow> disk \<Rightarrow> txn_table \<Rightarrow> dpg_table \<Rightarrow> (lsn res \<times> wal \<times> disk) option" where
  "wal_append_ckpt_end am m w d att dpt = wal_append am m w d (W_Ckpt_End \<lparr>cw_att = att, cw_dpt = dpt\<rparr>)"

definition wal_append_log ::
  "u8 list option \<times> bool \<Rightarrow> wal_mem \<Rightarrow> wal \<Rightarrow> disk \<Rightarrow> wal_rec_hdr_write \<Rightarrow> (lsn res \<times> wal \<times> disk) option" where
  "wal_append_log am m w d whdr =
     (case whdr of
        W_Begin b \<Rightarrow> wal_append_begin_log am m w d (wb_tid b)
      | W_Commit c \<Rightarrow> wal_append_commit_log am m w d (wc_tid c) (wc_prev c)
      | W_End x \<Rightarrow> wal_append_end_log am m w d (we_tid x) (we_prev x)
      | W_Update u \<Rightarrow> wal_append_update_log am m w d u
      | W_Clr c \<Rightarrow> wal_append_clr_log am m w d c
      | W_Ckpt_Begin \<Rightarrow> wal_append_ckpt_begin am m w d
      | W_Ckpt_End c \<Rightarrow> wal_append_ckpt_end am m w d (cw_att c) (cw_dpt c)
      | W_Eof \<Rightarrow> None)"

definition wal_flush_all :: "u8 list option \<Rightarrow> wal \<Rightarrow> disk \<Rightarrow> (unit res \<times> wal \<times> disk) option" where
  "wal_flush_all mem w d = do {
     (r, wf, d) \<leftarrow> walf_flush_all mem (w_wf w) d;
     Some (r, w\<lparr>w_wf := wf\<rparr>, d) }"

definition wal_read_next ::
  "bool \<Rightarrow> wal_allocs \<Rightarrow> wal_mem \<Rightarrow> wal \<Rightarrow> disk \<Rightarrow>
     ((lsn \<times> wal_rec_hdr_read) res \<times> wal_mem \<times> wal \<times> disk) option" where
  "wal_read_next ok al m w d = do {
     (r, m, wf, d) \<leftarrow> walf_read ok al m (w_wf w) d;
     Some (r, m, w\<lparr>w_wf := wf\<rparr>, d) }"

definition wal_read_entry ::
  "bool \<Rightarrow> wal_allocs \<Rightarrow> wal_mem \<Rightarrow> wal \<Rightarrow> disk \<Rightarrow> lsn \<Rightarrow>
     (wal_rec_hdr_read res \<times> wal_mem \<times> wal \<times> disk) option" where
  "wal_read_entry ok al m w d ofst = do {
     (r, m, wf, d) \<leftarrow> walf_pread ok al m (w_wf w) d ofst;
     Some (r, m, w\<lparr>w_wf := wf\<rparr>, d) }"

section \<open>Appending and scanning\<close>

primrec wal_append_all ::
  "u8 list option \<times> bool \<Rightarrow> wal_mem \<Rightarrow> wal \<Rightarrow> disk \<Rightarrow> wal_rec_hdr_write list \<Rightarrow> (lsn list \<times> wal \<times> disk) option" where
  "wal_append_all am m w d [] = Some ([], w, d)"
| "wal_append_all am m w d (r # rs) = do {
     (x, w, d) \<leftarrow> wal_append_log am m w d r;
     case x of
       Inl e \<Rightarrow> None
     | Inr l \<Rightarrow> do { (ls, w, d) \<leftarrow> wal_append_all am m w d rs; Some (l # ls, w, d) } }"

text \<open>\<open>n\<close> calls of \<^verbatim>\<open>wal_read_next\<close>, as the loops of recovery make them: each record with its position and
  the memory its tables are in.\<close>

primrec wal_scan ::
  "nat \<Rightarrow> (nat \<Rightarrow> wal_allocs) \<Rightarrow> wal_mem \<Rightarrow> wal \<Rightarrow> disk \<Rightarrow> ((lsn \<times> wal_rec_hdr_read \<times> wal_mem) list \<times> wal \<times> disk) option" where
  "wal_scan 0 als m w d = Some ([], w, d)"
| "wal_scan (Suc n) als m w d = do {
     (x, m, w, d) \<leftarrow> wal_read_next True (als 0) m w d;
     case x of
       Inl e \<Rightarrow> None
     | Inr (l, rec) \<Rightarrow> do {
         (xs, w, d) \<leftarrow> wal_scan n (\<lambda>i. als (Suc i)) m w d;
         Some ((l, rec, m) # xs, w, d) } }"

definition wal_inv :: "wal \<Rightarrow> disk \<Rightarrow> bool" where
  "wal_inv w d \<longleftrightarrow> wf_inv (w_wf w) d"

definition wal_log :: "wal \<Rightarrow> disk \<Rightarrow> u8 list" where
  "wal_log w d = wf_log (w_wf w) d"

primrec images :: "wal_mem \<Rightarrow> wal_rec_hdr_write list \<Rightarrow> u8 list" where
  "images m [] = []"
| "images m (r # rs) = rec_image m r @ images m rs"

text \<open>The positions the records begin at, from \<open>p\<close> on.\<close>

primrec lsns :: "wal_mem \<Rightarrow> nat \<Rightarrow> wal_rec_hdr_write list \<Rightarrow> lsn list" where
  "lsns m p [] = []"
| "lsns m p (r # rs) = of_nat p # lsns m (p + length (rec_image m r)) rs"

lemma wal_rec_eta: "\<lparr>wb_tid = wb_tid b\<rparr> = b" "\<lparr>wc_tid = wc_tid c, wc_prev = wc_prev c\<rparr> = c"
    "\<lparr>we_tid = we_tid x, we_prev = we_prev x\<rparr> = x" "\<lparr>cw_att = cw_att k, cw_dpt = cw_dpt k\<rparr> = k"
  by (cases b, simp) (cases c, simp, cases x, simp, cases k, simp)

lemma wal_append_log_alt: "r \<noteq> W_Eof \<Longrightarrow> wal_append_log am m w d r = wal_append am m w d r"
  by (cases r) (simp_all add: wal_append_log_def wal_append_begin_log_def wal_append_commit_log_def wal_append_end_log_def
      wal_append_update_log_def wal_append_clr_log_def wal_append_ckpt_begin_def wal_append_ckpt_end_def wal_rec_eta)

lemma wal_append_log_no_fail:
  assumes inv: "wal_inv w d" and nf: "no_fail d" and mem: "length mem = WAL_BUFFER_CAP" and ok: "rec_ok m r"
    and room: "length (wal_log w d) + length (rec_image m r) < 9223372036854775808"
  shows "\<exists>w' d'. wal_append_log (Some mem, True) m w d r = Some (Inr (of_nat (length (wal_log w d))), w', d') \<and>
    wal_inv w' d' \<and> no_fail d' \<and> wal_log w' d' = wal_log w d @ rec_image m r \<and>
    wf_istream (w_wf w') = wf_istream (w_wf w) \<and> grows d d'"
proof -
  have "r \<noteq> W_Eof" using ok by auto
  note alt = wal_append_log_alt [OF this]
  from walf_write_no_fail [of "w_wf w" d mem m r] assms show ?thesis
    by (auto simp: alt wal_append_def wal_inv_def wal_log_def wf_step_def)
qed

lemma wal_flush_all_no_fail:
  assumes inv: "wal_inv w d" and nf: "no_fail d" and mem: "length mem = WAL_BUFFER_CAP"
  shows "\<exists>w' d'. wal_flush_all (Some mem) w d = Some (Inr (), w', d') \<and> wal_inv w' d' \<and> no_fail d' \<and>
    wal_log w' d' = wal_log w d \<and> wf_istream (w_wf w') = wf_istream (w_wf w) \<and>
    d_data d' = wal_log w d \<and> d_durable d' = wal_log w d \<and> grows d d'"
  using walf_flush_all_no_fail [of "w_wf w" d mem] assms
  by (auto simp: wal_flush_all_def wal_inv_def wal_log_def wf_step_def)

lemma wal_append_all_no_fail:
  "wal_inv w d \<Longrightarrow> no_fail d \<Longrightarrow> length mem = WAL_BUFFER_CAP \<Longrightarrow> \<forall>r \<in> set rs. rec_ok m r \<Longrightarrow>
   length (wal_log w d) + length (images m rs) < 9223372036854775808 \<Longrightarrow>
   \<exists>w' d'. wal_append_all (Some mem, True) m w d rs = Some (lsns m (length (wal_log w d)) rs, w', d') \<and>
     wal_inv w' d' \<and> no_fail d' \<and> wal_log w' d' = wal_log w d @ images m rs \<and> wf_istream (w_wf w') = wf_istream (w_wf w)"
proof (induction rs arbitrary: w d)
  case Nil
  then show ?case by simp
next
  case (Cons r rs)
  from Cons.prems wal_append_log_no_fail [of w d mem m r] obtain w1 d1 where
    w1: "wal_append_log (Some mem, True) m w d r = Some (Inr (of_nat (length (wal_log w d))), w1, d1)"
    "wal_inv w1 d1" "no_fail d1" "wal_log w1 d1 = wal_log w d @ rec_image m r" "wf_istream (w_wf w1) = wf_istream (w_wf w)" by auto
  from Cons.IH [OF w1(2,3) Cons.prems(3)] Cons.prems(4,5) w1 show ?case by auto
qed

lemma wal_scan_images:
  "no_fail d \<Longrightarrow> wf_istream (w_wf w) = Some (wi_at (length pre) (of_nat (length pre)) i) \<Longrightarrow>
   d_data d = pre @ images m rs \<Longrightarrow> \<forall>r \<in> set rs. rec_ok m r \<Longrightarrow> \<forall>i. allocs_ok (als i) \<Longrightarrow>
   \<exists>out m' w' d'. wal_scan (length rs + 1) als m0 w d = Some (out @ [(of_nat (length (d_data d)), R_Eof, m')], w', d') \<and>
     map fst out = lsns m (length pre) rs \<and> list_all2 (\<lambda>r x. rec_same m r (snd (snd x)) (fst (snd x))) rs out"
proof (induction rs arbitrary: d w pre i als m0)
  case Nil
  from walf_read_next_end [OF Nil.prems(1,2), of True "als 0" m0] Nil.prems(2,3) obtain w' d' where
    "walf_read_next True (als 0) m0 (w_wf w) d = Some (Inr R_Eof, m0, w', d')" by auto
  with Nil.prems(2,3) show ?case
    by (simp add: wal_read_next_def walf_read_def walf_lazy_istream_init_def wi_at_def)
next
  case (Cons r rs)
  have dat: "d_data d = pre @ rec_image m r @ images m rs" using Cons.prems(3) by simp
  from walf_read_next_image [OF Cons.prems(1,2) dat, of "als 0" m0] Cons.prems(4,5) obtain rec m1 d1 where
    r: "walf_read_next True (als 0) m0 (w_wf w) d = Some (Inr rec, m1, (w_wf w)\<lparr>wf_istream :=
      Some (wi_at (length (pre @ rec_image m r)) (of_nat (length (pre @ rec_image m r))) (of_nat (length (rec_image m r))))\<rparr>, d1)"
    "rec_same m r m1 rec" "same_disk d d1" by auto
  let ?w1 = "w\<lparr>w_wf := (w_wf w)\<lparr>wf_istream :=
      Some (wi_at (length (pre @ rec_image m r)) (of_nat (length (pre @ rec_image m r))) (of_nat (length (rec_image m r))))\<rparr>\<rparr>"
  have step: "wal_read_next True (als 0) m0 w d = Some (Inr (of_nat (length pre), rec), m1, ?w1, d1)"
    using Cons.prems(2) r(1) by (simp add: wal_read_next_def walf_read_def walf_lazy_istream_init_def wi_at_def)
  have d1: "d_data d1 = (pre @ rec_image m r) @ images m rs" using dat same_diskD(1) [OF r(3)] by simp
  have w1: "wf_istream (w_wf ?w1) = Some (wi_at (length (pre @ rec_image m r)) (of_nat (length (pre @ rec_image m r))) (of_nat (length (rec_image m r))))"
    by simp
  have rs: "\<forall>r \<in> set rs. rec_ok m r" "\<forall>i. allocs_ok (als (Suc i))" using Cons.prems(4,5) by simp_all
  obtain out m' w' d' where
    out: "wal_scan (length rs + 1) (\<lambda>i. als (Suc i)) m1 ?w1 d1 = Some (out @ [(of_nat (length (d_data d1)), R_Eof, m')], w', d')"
     "map fst out = lsns m (length (pre @ rec_image m r)) rs"
     "list_all2 (\<lambda>r x. rec_same m r (snd (snd x)) (fst (snd x))) rs out"
    using Cons.IH [OF same_diskD(2) [OF r(3)] w1 d1 rs, of m1] by blast
  have "wal_scan (length (r # rs) + 1) als m0 w d =
      Some (((of_nat (length pre), rec, m1) # out) @ [(of_nat (length (d_data d)), R_Eof, m')], w', d')"
  proof -
    have "length (r # rs) + 1 = Suc (length rs + 1)" by simp
    then show ?thesis
      by (simp only: wal_scan.simps(2) step out(1) Option.bind.simps prod.case sum.case same_diskD(1) [OF r(3)] append_Cons)
  qed
  moreover have "map fst ((of_nat (length pre), rec, m1) # out) = lsns m (length pre) (r # rs)"
    using out(2) by simp
  moreover have "list_all2 (\<lambda>r x. rec_same m r (snd (snd x)) (fst (snd x))) (r # rs) ((of_nat (length pre), rec, m1) # out)"
    using out(3) r(2) by simp
  ultimately show ?case by blast
qed

lemma wal_scan_opens:
  assumes nf: "no_fail d" and w: "wf_istream (w_wf w) = None"
  shows "\<exists>w' d'. wal_scan (Suc n) als m w d = wal_scan (Suc n) als m w' d' \<and>
    wf_istream (w_wf w') = Some (wi_at 0 0 0) \<and> same_disk d d'"
proof -
  from walf_lazy_istream_init_no_fail [OF nf, of "w_wf w"] w obtain d' where
    d': "walf_lazy_istream_init (w_wf w) d = (Inr (), (w_wf w)\<lparr>wf_istream := Some (wi_at 0 0 0)\<rparr>, d')" "same_disk d d'" by auto
  let ?w = "w\<lparr>w_wf := (w_wf w)\<lparr>wf_istream := Some (wi_at 0 0 0)\<rparr>\<rparr>"
  have "walf_lazy_istream_init (w_wf ?w) d' = (Inr (), w_wf ?w, d')" by (simp add: walf_lazy_istream_init_def)
  with d'(1) have "wal_read_next True (als 0) m w d = wal_read_next True (als 0) m ?w d'"
    by (simp add: wal_read_next_def walf_read_def)
  with d'(2) show ?thesis by (intro exI [of _ ?w] exI [of _ d']) simp
qed

section \<open>Damage\<close>

lemma crc_of_byte: "crc_of (us @ x # vs) = crc_of (us @ y # vs) \<longleftrightarrow> x = y"
  by (simp add: crc_of_def crc_fold_inj crc_step_byte)

lemma le_word_inj32: "length a = 4 \<Longrightarrow> length b = 4 \<Longrightarrow> (le_word a :: u32) = le_word b \<longleftrightarrow> a = b"
  by (metis bytes32_le_word)

text \<open>Changing one byte behind the first \<open>k\<close> changes the body or the checksum, and they no longer agree.\<close>

lemma damaged_image:
  assumes j: "length hdr \<le> j" "j < length (hdr @ body @ crc)" and y: "y \<noteq> (hdr @ body @ crc) ! j"
    and crc: "length crc = 4" "crc_of (hdr @ body) = le_word crc"
  shows "\<exists>body' crc'. (hdr @ body @ crc)[j := y] = hdr @ body' @ crc' \<and> length body' = length body \<and> length crc' = 4 \<and>
    crc_of (hdr @ body') \<noteq> le_word crc'"
proof (cases "j < length hdr + length body")
  case True
  let ?i = "j - length hdr"
  have i: "?i < length body" using True j by linarith
  have upd: "(hdr @ body @ crc)[j := y] = hdr @ body[?i := y] @ crc" using True j(1) i by (simp add: list_update_append)
  have y': "y \<noteq> body ! ?i" using y True j(1) i by (simp add: nth_append)
  have split: "body = take ?i body @ body ! ?i # drop (Suc ?i) body" using i by (rule id_take_nth_drop)
  have "body[?i := y] = take ?i body @ y # drop (Suc ?i) body" using i by (rule upd_conv_take_nth_drop)
  then have "crc_of (hdr @ body[?i := y]) = crc_of ((hdr @ take ?i body) @ y # drop (Suc ?i) body)" by simp
  moreover have "crc_of (hdr @ body) = crc_of ((hdr @ take ?i body) @ body ! ?i # drop (Suc ?i) body)"
    by (subst split) simp
  moreover have "crc_of ((hdr @ take ?i body) @ y # drop (Suc ?i) body) \<noteq> crc_of ((hdr @ take ?i body) @ body ! ?i # drop (Suc ?i) body)"
    using y' unfolding crc_of_byte .
  ultimately have "crc_of (hdr @ body[?i := y]) \<noteq> le_word crc" unfolding crc(2) [symmetric] by simp
  with upd crc(1) show ?thesis by (intro exI [of _ "body[?i := y]"] exI [of _ crc]) simp
next
  case False
  let ?i = "j - length hdr - length body"
  have i: "?i < length crc" using False j by simp
  have n: "\<not> j < length hdr" "\<not> j - length hdr < length body" using False j(1) by linarith+
  then have upd: "(hdr @ body @ crc)[j := y] = hdr @ body @ crc[?i := y]" by (simp add: list_update_append)
  have "y \<noteq> crc ! ?i" using y n by (simp add: nth_append)
  then have "crc[?i := y] \<noteq> crc" using i by (metis nth_list_update_eq)
  then have "crc_of (hdr @ body) \<noteq> le_word (crc[?i := y])" using crc by (simp add: le_word_inj32)
  with upd crc(1) show ?thesis by (intro exI [of _ body] exI [of _ "crc[?i := y]"]) simp
qed

text \<open>The first byte says what record it is, and the sizes of a checkpoint's how long it is: they are used
  before the checksum is known.\<close>

definition rec_head :: "wal_rec_hdr_write \<Rightarrow> nat" where
  "rec_head r = (case r of W_Ckpt_End _ \<Rightarrow> 9 | _ \<Rightarrow> 1)"

lemma walf_read_next_damaged:
  assumes nf: "no_fail d" and w: "wf_istream w = Some (wi_at (length pre) l i)"
    and dat: "d_data d = pre @ (rec_image m r)[j := y] @ post" and ok: "rec_ok m r"
    and j: "rec_head r \<le> j" "j < length (rec_image m r)" and y: "y \<noteq> rec_image m r ! j"
  shows "\<exists>w' d'. walf_read_next True al m' w d = Some (Inl ERR_CORRUPT, m', w', d') \<and> same_disk d d'"
proof (cases "\<exists>c. r = W_Ckpt_End c")
  case False
  then have "\<And>c. r \<noteq> W_Ckpt_End c" by blast
  from rec_fixed_parts [OF ok this] obtain t body where
    p: "concat (rec_parts m r) = t # body" "t \<in> {WL_UPDATE, WL_CLR, WL_BEGIN, WL_COMMIT, WL_END, WL_CKPT_BEGIN}"
      "rec_fixed_len t = 1 + length body + 4" by blast
  let ?crc = "bytes32 (crc_of (t # body))"
  have img: "rec_image m r = [t] @ body @ ?crc" by (simp add: rec_image_def p(1))
  have "length [t] \<le> j" using j(1) False by (simp add: rec_head_def split: wal_rec_hdr_write.splits)
  moreover have "crc_of ([t] @ body) = le_word ?crc" by simp
  ultimately obtain body' crc' where
    b: "(rec_image m r)[j := y] = [t] @ body' @ crc'" "length body' = length body" "length crc' = 4"
      "crc_of ([t] @ body') \<noteq> le_word crc'"
    using damaged_image [of "[t]" j body ?crc y] j(2) y unfolding img by auto
  have "d_data d = pre @ t # body' @ crc' @ post" using dat unfolding b(1) by simp
  moreover have "rec_fixed_len t = 1 + length body' + 4" using p(3) b(2) by simp
  ultimately show ?thesis using walf_read_next_fixed [OF nf w _ p(2) _ b(3), of body' post True al m'] b(4) by simp
next
  case True
  then obtain c where r: "r = W_Ckpt_End c" by blast
  let ?ab = "att_bytes m (cw_att c)" and ?db = "dpt_bytes m (cw_dpt c)"
  let ?s1 = "bytes32 (of_nat (length ?ab))" and ?s2 = "bytes32 (of_nat (length ?db))"
  let ?hd = "WL_CKPT_END # ?s1 @ ?s2"
  let ?body = "?ab @ ?db" and ?crc = "bytes32 (crc_of (concat (rec_parts m r)))"
  have parts: "concat (rec_parts m r) = ?hd @ ?body" by (simp add: r)
  have img: "rec_image m r = ?hd @ ?body @ ?crc" unfolding rec_image_def parts by simp
  have "length ?hd \<le> j" using j(1) by (simp add: r rec_head_def)
  moreover have "crc_of (?hd @ ?body) = le_word ?crc" unfolding parts by simp
  ultimately obtain body' crc' where
    b: "(rec_image m r)[j := y] = ?hd @ body' @ crc'" "length body' = length ?body" "length crc' = 4"
      "crc_of (?hd @ body') \<noteq> le_word crc'"
    using damaged_image [of ?hd j ?body ?crc y] j(2) y unfolding img by auto
  have dat0: "d_data d = pre @ WL_CKPT_END # (?s1 @ ?s2 @ body' @ crc' @ post)" using dat unfolding b(1) by simp
  from walf_read_type_at [OF nf w dat0, of True al m'] obtain d1 where
    d1: "walf_read_next True al m' w d = do {
      (r, m, w, d) \<leftarrow> walf_read_body True al m' (w\<lparr>wf_istream := Some (wi_at (length pre + 1) l 1)\<rparr>) d1 (crc_type WL_CKPT_END) WL_CKPT_END;
      case r of
        Inl e \<Rightarrow> Some (Inl e, m, w, d)
      | Inr rec \<Rightarrow> do {
          is \<leftarrow> wf_istream w;
          Some (Inr rec, m, w\<lparr>wf_istream := Some (walis_mark_end_log is)\<rparr>, d) } }" "same_disk d d1" by blast
  let ?w1 = "w\<lparr>wf_istream := Some (wi_at (length pre + 1) l 1)\<rparr>"
  have w1: "wf_istream ?w1 = Some (wi_at (length (pre @ [WL_CKPT_END])) l 1)"
    "d_data d1 = (pre @ [WL_CKPT_END]) @ ?s1 @ ?s2 @ body' @ crc' @ post"
    using dat0 same_diskD(1) [OF d1(2)] by simp_all
  have bl: "length body' < 1000000000" using length_rec_parts [OF ok] unfolding parts b(2) by simp
  have "unat (of_nat (length ?ab) :: u32) = length ?ab" "unat (of_nat (length ?db) :: u32) = length ?db"
    by (rule unat_of_nat32, use bl b(2) in simp)+
  then have "unat (le_word ?s1 :: u32) + unat (le_word ?s2 :: u32) = length body'" using b(2) by simp
  from walf_read_ckpt_end_full_at [OF same_diskD(2) [OF d1(2)] w1 length_bytes32 length_bytes32 b(3) this bl,
      of "crc_type WL_CKPT_END"] b(4) obtain w2 d2 where
    d2: "walf_read_ckpt_end_full True ?w1 d1 (crc_type WL_CKPT_END) = Some (Inl ERR_CORRUPT, w2, d2)" "same_disk d1 d2"
    unfolding crc_of_Cons by auto
  have "walf_read_next True al m' w d = Some (Inl ERR_CORRUPT, m', w2, d2)"
    unfolding d1(1) walf_read_body_def walf_read_ckpt_end_def if_P [OF refl] d2(1) Option.bind.simps prod.case sum.case
    by (rule refl)
  with same_disk_trans [OF d1(2) d2(2)] show ?thesis by blast
qed

section \<open>Properties\<close>

definition no_mem :: wal_mem where
  "no_mem = \<lparr>wm_txns = Map.empty, wm_dpgs = Map.empty\<rparr>"

definition al_example :: wal_allocs where
  "al_example = \<lparr>al_bank = Some 1, al_att = (True, True), al_ins = (\<lambda>_. True), al_dpt = True, al_pool = Some 2\<rparr>"

definition disk_example :: disk where
  "disk_example = \<lparr>d_data = [], d_durable = [], d_env = [Full, Short 3]\<rparr>"

lemma examples: "allocs_ok al_example" "no_fail disk_example" "d_data disk_example = []" "wal_inv wal_open disk_example"
    "wal_log wal_open disk_example = []" "wf_istream (w_wf wal_open) = None"
  by (simp_all add: allocs_ok_def al_example_def no_fail_def disk_example_def wal_inv_def wal_log_def wal_open_def walf_open_def
      wf_inv_def wf_str_def wf_log_def)

text \<open>C27: The log replays what was appended. Records of any kind appended to a new log and flushed are
  read back by a scan from the start: every record at the position its append returned, in the order of
  the appends, the tables of checkpoints with the contents they had, and then the end of the log. Short
  reads and writes of the kernel do not matter.\<close>

theorem wal_replays_appended:
  assumes "no_fail d" and "d_data d = []" and "length mem = WAL_BUFFER_CAP"
    and "\<forall>r \<in> set rs. rec_ok m r" and "length (images m rs) < 2 ^ 63" and "\<forall>i. allocs_ok (als i)"
  shows "\<exists>w1 d1 w2 d2 out m' w3 d3.
    wal_append_all (Some mem, True) m wal_open d rs = Some (lsns m 0 rs, w1, d1) \<and>
    wal_flush_all (Some mem) w1 d1 = Some (Inr (), w2, d2) \<and> d_durable d2 = images m rs \<and>
    wal_scan (length rs + 1) als m0 w2 d2 = Some (out @ [(of_nat (length (images m rs)), R_Eof, m')], w3, d3) \<and>
    map fst out = lsns m 0 rs \<and> list_all2 (\<lambda>r x. rec_same m r (snd (snd x)) (fst (snd x))) rs out"
proof -
  have "wal_inv wal_open d" "wal_log wal_open d = []"
    using assms(2) by (simp_all add: wal_inv_def wal_log_def wal_open_def walf_open_def wf_inv_def wf_str_def wf_log_def)
  with wal_append_all_no_fail [OF _ assms(1,3,4), of wal_open] assms(5) obtain w1 d1 where
    w1: "wal_append_all (Some mem, True) m wal_open d rs = Some (lsns m 0 rs, w1, d1)" "wal_inv w1 d1" "no_fail d1"
      "wal_log w1 d1 = images m rs" "wf_istream (w_wf w1) = None" by (auto simp: examples)
  from wal_flush_all_no_fail [OF w1(2,3) assms(3)] w1(4,5) obtain w2 d2 where
    w2: "wal_flush_all (Some mem) w1 d1 = Some (Inr (), w2, d2)" "no_fail d2" "wf_istream (w_wf w2) = None"
      "d_data d2 = images m rs" "d_durable d2 = images m rs" by auto
  from wal_scan_opens [OF w2(2,3), of "length rs" als m0] obtain w' d' where
    w': "wal_scan (Suc (length rs)) als m0 w2 d2 = wal_scan (Suc (length rs)) als m0 w' d'"
      "wf_istream (w_wf w') = Some (wi_at 0 0 0)" "same_disk d2 d'" by blast
  have "wf_istream (w_wf w') = Some (wi_at (length ([] :: u8 list)) (of_nat (length ([] :: u8 list))) 0)"
    "d_data d' = [] @ images m rs" using w'(2) w2(4) same_diskD(1) [OF w'(3)] by simp_all
  from wal_scan_images [OF same_diskD(2) [OF w'(3)] this assms(4,6), of m0] w'(1) w1(1) w2(1,4,5) same_diskD(1) [OF w'(3)]
  show ?thesis by (simp del: wal_scan.simps)
qed

theorem wal_replays_appended_witness:
  "\<exists>w1 d1 w2 d2 out m' w3 d3.
    wal_append_all (Some (replicate WAL_BUFFER_CAP 0), True) no_mem wal_open disk_example
      [W_Begin \<lparr>wb_tid = 5\<rparr>, W_Commit \<lparr>wc_tid = 5, wc_prev = 0\<rparr>, W_Ckpt_Begin] = Some ([0, 13, 34], w1, d1) \<and>
    wal_flush_all (Some (replicate WAL_BUFFER_CAP 0)) w1 d1 = Some (Inr (), w2, d2) \<and>
    wal_scan 4 (\<lambda>_. al_example) no_mem w2 d2 = Some (out @ [(39, R_Eof, m')], w3, d3) \<and> map fst out = [0, 13, 34]"
proof -
  let ?rs = "[W_Begin \<lparr>wb_tid = 5\<rparr>, W_Commit \<lparr>wc_tid = 5, wc_prev = 0\<rparr>, W_Ckpt_Begin]"
  have l: "lsns no_mem 0 ?rs = [0, 13, 34]" "length (images no_mem ?rs) = 39" by (simp_all add: rec_image_def)
  have mem: "length (replicate WAL_BUFFER_CAP (0 :: u8)) = WAL_BUFFER_CAP" by simp
  have "\<forall>r \<in> set ?rs. rec_ok no_mem r" "length (images no_mem ?rs) < 2 ^ 63" "\<forall>i :: nat. allocs_ok ((\<lambda>_. al_example) i)"
    using l(2) examples(1) by simp_all
  note r = wal_replays_appended [OF examples(2,3) mem this, of no_mem]
  have "length ?rs + 1 = 4" "(of_nat (length (images no_mem ?rs)) :: lsn) = 39" using l(2) by simp_all
  from r [unfolded this l(1)] show ?thesis by (elim exE conjE, intro exI conjI) assumption+
qed

text \<open>A record appended to a log that is in use can be read back by its position once the log is
  flushed: flushing makes the whole log durable, the position is where the log ended before, and the
  entry read there is the record.\<close>

theorem wal_append_then_read_entry:
  assumes "wal_inv w d" and "no_fail d" and "length mem = WAL_BUFFER_CAP" and "rec_ok m r" and "allocs_ok al"
    and "length (wal_log w d) + length (rec_image m r) < 2 ^ 63"
  shows "\<exists>w1 d1 w2 d2 rec m'' w3 d3.
    wal_append_log (Some mem, True) m w d r = Some (Inr (of_nat (length (wal_log w d))), w1, d1) \<and>
    wal_flush_all (Some mem) w1 d1 = Some (Inr (), w2, d2) \<and> d_durable d2 = wal_log w d @ rec_image m r \<and> wal_inv w2 d2 \<and>
    wal_read_entry True al m' w2 d2 (of_nat (length (wal_log w d))) = Some (Inr rec, m'', w3, d3) \<and> rec_same m r m'' rec"
proof -
  from wal_append_log_no_fail [OF assms(1-4)] assms(6) obtain w1 d1 where
    w1: "wal_append_log (Some mem, True) m w d r = Some (Inr (of_nat (length (wal_log w d))), w1, d1)"
      "wal_inv w1 d1" "no_fail d1" "wal_log w1 d1 = wal_log w d @ rec_image m r" by auto
  from wal_flush_all_no_fail [OF w1(2,3) assms(3)] w1(4) obtain w2 d2 where
    w2: "wal_flush_all (Some mem) w1 d1 = Some (Inr (), w2, d2)" "wal_inv w2 d2" "no_fail d2"
      "d_data d2 = wal_log w d @ rec_image m r @ []" "d_durable d2 = wal_log w d @ rec_image m r" by auto
  have "length (wal_log w d) < 9223372036854775808" using assms(6) by simp
  from walf_pread_image [OF w2(3,4) this assms(4,5), of m' "w_wf w2"] w1(1) w2 show ?thesis
    by (fastforce simp: wal_read_entry_def)
qed

theorem wal_append_then_read_entry_witness:
  "\<exists>w1 d1 w2 d2 m'' w3 d3.
    wal_append_log (Some (replicate WAL_BUFFER_CAP 0), True) no_mem wal_open disk_example (W_End \<lparr>we_tid = 7, we_prev = 3\<rparr>) =
      Some (Inr 0, w1, d1) \<and>
    wal_flush_all (Some (replicate WAL_BUFFER_CAP 0)) w1 d1 = Some (Inr (), w2, d2) \<and>
    wal_read_entry True al_example no_mem w2 d2 0 = Some (Inr (R_End \<lparr>we_tid = 7, we_prev = 3\<rparr>), m'', w3, d3)"
proof -
  let ?r = "W_End \<lparr>we_tid = 7, we_prev = 3\<rparr>"
  have same: "rec_same no_mem ?r m'' rec \<Longrightarrow> rec = R_End \<lparr>we_tid = 7, we_prev = 3\<rparr>" for m'' rec by (cases rec) simp_all
  have "length (wal_log wal_open disk_example) + length (rec_image no_mem ?r) < 2 ^ 63" by (simp add: examples rec_image_def)
  then show ?thesis
    using wal_append_then_read_entry [of wal_open disk_example "replicate WAL_BUFFER_CAP 0" no_mem ?r al_example no_mem] examples same
    by (simp del: rec_same.simps) blast
qed

text \<open>C28: Damage to one byte of a record is noticed: unless the byte tells what record it is (the first),
  or how long the record of a checkpoint is, reading the record fails with \<open>ERR_CORRUPT\<close>, also
  where the byte is in the checksum itself.\<close>

theorem wal_read_entry_detects_damage:
  assumes "no_fail d" and "d_data d = pre @ (rec_image m r)[j := y] @ post" and "length pre < 2 ^ 63" and "rec_ok m r"
    and "rec_head r \<le> j" and "j < length (rec_image m r)" and "y \<noteq> rec_image m r ! j"
  shows "\<exists>w' d'. wal_read_entry True al m' w d (of_nat (length pre)) = Some (Inl ERR_CORRUPT, m', w', d') \<and> d_data d' = d_data d"
proof -
  have p: "length pre < 9223372036854775808" using assms(3) by simp
  from walf_pread_at [OF assms(1) p, of True al m' "w_wf w"] obtain i d1 where
    d1: "walf_pread True al m' (w_wf w) d (of_nat (length pre)) =
      walf_read_next True al m' ((w_wf w)\<lparr>wf_istream := Some (wi_at (length pre) (of_nat (length pre)) i)\<rparr>) d1" "same_disk d d1"
    by blast
  have "wf_istream ((w_wf w)\<lparr>wf_istream := Some (wi_at (length pre) (of_nat (length pre)) i)\<rparr>) =
      Some (wi_at (length pre) (of_nat (length pre)) i)" "d_data d1 = pre @ (rec_image m r)[j := y] @ post"
    using assms(2) same_diskD(1) [OF d1(2)] by simp_all
  from walf_read_next_damaged [OF same_diskD(2) [OF d1(2)] this assms(4-7), of al m'] d1(1) show ?thesis
    using same_diskD(1) [OF d1(2)] by (auto simp: wal_read_entry_def dest: same_diskD(1))
qed

theorem wal_read_entry_detects_damage_witness:
  "\<exists>w' d'. wal_read_entry True al_example no_mem wal_open
      (disk_example\<lparr>d_data := (rec_image no_mem (W_Begin \<lparr>wb_tid = 5\<rparr>))[3 := 1]\<rparr>) 0 = Some (Inl ERR_CORRUPT, no_mem, w', d')"
proof -
  let ?r = "W_Begin \<lparr>wb_tid = 5\<rparr>" and ?d = "disk_example\<lparr>d_data := (rec_image no_mem (W_Begin \<lparr>wb_tid = 5\<rparr>))[3 := 1]\<rparr>"
  have n: "bytes64 5 = [5, 0, 0, 0, 0, 0, 0, 0]" by code_simp
  have y: "(1 :: u8) \<noteq> rec_image no_mem ?r ! 3" by (simp add: rec_image_def n)
  have d: "no_fail ?d" "d_data ?d = [] @ (rec_image no_mem ?r)[3 := 1] @ []" by (simp_all add: no_fail_def disk_example_def)
  have "length ([] :: u8 list) < 2 ^ 63" "rec_ok no_mem ?r" "rec_head ?r \<le> 3" "3 < length (rec_image no_mem ?r)"
    by (simp_all add: rec_head_def rec_image_def)
  from wal_read_entry_detects_damage [OF d this y, of al_example no_mem wal_open] show ?thesis
    by auto
qed

text \<open>Reading an entry looks at the file only. A record that was appended but not flushed is not found:
  the read succeeds and says that the log ends there, which a rollback takes for the end of the
  transaction's records. After a flush the same read finds the record.\<close>

theorem wal_read_entry_needs_flush:
  assumes inv: "wal_inv w d" and nf: "no_fail d" and mem: "length mem = WAL_BUFFER_CAP" and al: "allocs_ok al"
    and log: "wal_log w d = pre @ rec_image m r @ post" and ok: "rec_ok m r" and unflushed: "length (d_data d) \<le> length pre"
  shows "(\<exists>w' d'. wal_read_entry True al m' w d (of_nat (length pre)) = Some (Inr R_Eof, m', w', d')) \<and>
    (\<exists>w1 d1 rec m'' w2 d2. wal_flush_all (Some mem) w d = Some (Inr (), w1, d1) \<and>
      wal_read_entry True al m' w1 d1 (of_nat (length pre)) = Some (Inr rec, m'', w2, d2) \<and> rec_same m r m'' rec)"
proof
  have "length (wal_log w d) < 9223372036854775808" using inv by (simp add: wal_inv_def wf_inv_def wf_str_def wal_log_def)
  then have p: "length pre < 9223372036854775808" using log by simp
  from walf_pread_at [OF nf p, of True al m' "w_wf w"] obtain i d1 where
    d1: "walf_pread True al m' (w_wf w) d (of_nat (length pre)) =
      walf_read_next True al m' ((w_wf w)\<lparr>wf_istream := Some (wi_at (length pre) (of_nat (length pre)) i)\<rparr>) d1" "same_disk d d1"
    by blast
  have "wf_istream ((w_wf w)\<lparr>wf_istream := Some (wi_at (length pre) (of_nat (length pre)) i)\<rparr>) =
      Some (wi_at (length pre) (of_nat (length pre)) i)" "length (d_data d1) \<le> length pre"
    using unflushed same_diskD(1) [OF d1(2)] by simp_all
  from walf_read_next_end [OF same_diskD(2) [OF d1(2)] this, of True al m'] d1(1)
  show "\<exists>w' d'. wal_read_entry True al m' w d (of_nat (length pre)) = Some (Inr R_Eof, m', w', d')"
    by (auto simp: wal_read_entry_def)
  from wal_flush_all_no_fail [OF inv nf mem] log obtain w1 d1 where
    w1: "wal_flush_all (Some mem) w d = Some (Inr (), w1, d1)" "no_fail d1" "d_data d1 = pre @ rec_image m r @ post" by auto
  from walf_pread_image [OF w1(2,3) p ok al, of m' "w_wf w1"] w1(1)
  show "\<exists>w1 d1 rec m'' w2 d2. wal_flush_all (Some mem) w d = Some (Inr (), w1, d1) \<and>
      wal_read_entry True al m' w1 d1 (of_nat (length pre)) = Some (Inr rec, m'', w2, d2) \<and> rec_same m r m'' rec"
    by (fastforce simp: wal_read_entry_def)
qed

theorem wal_read_entry_needs_flush_witness:
  "\<exists>w w' d'. wal_log w \<lparr>d_data = [], d_durable = [], d_env = []\<rparr> = rec_image no_mem (W_Begin \<lparr>wb_tid = 5\<rparr>) \<and>
    wal_read_entry True al_example no_mem w \<lparr>d_data = [], d_durable = [], d_env = []\<rparr> 0 = Some (Inr R_Eof, no_mem, w', d')"
proof -
  let ?d = "\<lparr>d_data = [], d_durable = [], d_env = []\<rparr>" and ?img = "rec_image no_mem (W_Begin \<lparr>wb_tid = 5\<rparr>)"
  have "?img \<noteq> []" "length ?img \<le> WAL_BUFFER_CAP" by (simp_all add: rec_image_def WAL_BUFFER_CAP_def)
  from wos_example [OF this, of "[]"] obtain b where
    b: "wos_inv \<lparr>wo_fd = \<lparr>f_pos = 0\<rparr>, wo_latch = False, wo_flushed_lsn = 0, wo_buffer = b\<rparr> ?d" "cb_list b = ?img" by blast
  let ?w = "\<lparr>w_wf = \<lparr>wf_ostream = Some \<lparr>wo_fd = \<lparr>f_pos = 0\<rparr>, wo_latch = False, wo_flushed_lsn = 0, wo_buffer = b\<rparr>,
      wf_istream = None, wf_latch = False\<rparr>\<rparr>"
  have log: "wal_log ?w ?d = [] @ ?img @ []" using b(2) by (simp add: wal_log_def wf_log_def wos_log_def)
  have inv: "wal_inv ?w ?d"
    using b(1) by (simp add: wal_inv_def wf_inv_def wf_str_def wf_log_def) (simp add: wos_inv_def)
  have "no_fail ?d" "rec_ok no_mem (W_Begin \<lparr>wb_tid = 5\<rparr>)" "length (d_data ?d) \<le> length ([] :: u8 list)"
    by (simp_all add: no_fail_def)
  from wal_read_entry_needs_flush [OF inv this(1) length_replicate examples(1) log this(2,3), of no_mem] log show ?thesis by auto
qed

text \<open>Where the serialised transaction table of a checkpoint gets no memory, the append still succeeds
  and returns a position, though all it wrote is the first 9 bytes of the record. What is appended next
  follows them and cannot be read.\<close>

theorem wal_ckpt_end_hides_failure:
  assumes inv: "wal_inv w d" and nf: "no_fail d" and mem: "length mem = WAL_BUFFER_CAP"
    and ok: "rec_ok m (W_Ckpt_End \<lparr>cw_att = att, cw_dpt = dpt\<rparr>)" and ne: "ah_nodes att \<noteq> {#}"
    and room: "length (wal_log w d) + 9 < 2 ^ 63"
  shows "\<exists>w' d'. wal_append_ckpt_end (Some mem, False) m w d att dpt = Some (Inr (of_nat (length (wal_log w d))), w', d') \<and>
    wal_inv w' d' \<and> wal_log w' d' = wal_log w d @ take 9 (rec_image m (W_Ckpt_End \<lparr>cw_att = att, cw_dpt = dpt\<rparr>))"
proof -
  let ?c = "\<lparr>cw_att = att, cw_dpt = dpt\<rparr>"
  let ?ab = "att_bytes m att" and ?db = "dpt_bytes m dpt"
  let ?hd = "[[WL_CKPT_END], bytes32 (of_nat (length ?ab)), bytes32 (of_nat (length ?db))]"
  have hdr: "take 9 (rec_image m (W_Ckpt_End ?c)) = concat ?hd" by (simp add: rec_image_def)
  from ok have tinv: "txnt_inv (wm_txns m) att" and dinv: "dpt_inv (wm_dpgs m) dpt"
    and n: "size (ah_nodes att) < 33554432" and dn: "card (dom (dpt_map (wm_dpgs m) dpt)) \<le> 100" by simp_all
  have la: "length ?ab = 24 * size (ah_nodes att)" by (simp add: length_att_bytes flip: mset_ah_list)
  have "adptv_htable_size att = size (ah_nodes att)" using txnt_size [of att] tinv n by (simp add: txnt_inv_def)
  then have att: "txnt_get_serialize_size att = length ?ab"
    using la n by (simp add: txnt_get_serialize_size_def TXN_SERIAL_UNIT_def mul32_exact)
  have pos: "length ?ab > 0" unfolding la using ne by (metis nat_0_less_mult_iff size_eq_0_iff_empty gr0I zero_less_numeral)
  from dpgt_serialize_correct [OF dinv length_replicate, unfolded if_P [OF dn]] obtain src where
    src: "dpgt_serialize (wm_dpgs m) (replicate MAX_DPGT_SRL_SIZE 0) dpt = Some (length ?db, src)"
    unfolding dpt_bytes_def [symmetric] length_dpt_bytes [of m dpt, symmetric] by blast
  let ?w = "w_wf w"
  from inv have winv: "wf_inv ?w d" "wf_str ?w d" by (simp_all add: wal_inv_def wf_inv_def)
  from walf_lazy_ostream_init_no_fail [OF winv(2) nf mem] obtain w1 d1 where
    w1: "walf_lazy_ostream_init (Some mem) ?w d = Some (Inr (), w1, d1)" "wf_step ?w d w1 d1 []" "wf_latch w1 = wf_latch ?w" by blast
  from w1(2) obtain os where os: "wf_ostream w1 = Some os" by (auto simp: wf_step_def)
  have inv1: "wf_inv w1 d1" using w1(2,3) winv(1) by (simp add: wf_inv_def wf_step_def)
  then have "wos_inv os d1" using os by (simp add: wf_inv_def wf_str_def)
  from walos_get_next_lsn_log [OF this] w1(2) os
  have lsn: "walos_get_next_lsn os = of_nat (length (wal_log w d))" by (simp add: wf_step_def wf_log_def wal_log_def)
  note lock = wf_lock_step [OF inv1]
  have "walf_lazy_ostream_init (Some mem) (w1\<lparr>wf_latch := True\<rparr>) d1 = Some (Inr (), w1\<lparr>wf_latch := True\<rparr>, d1)"
    by (simp add: walf_lazy_ostream_init_def os)
  note init = this
  have "length (wf_log (w1\<lparr>wf_latch := True\<rparr>) d1) + length (concat ?hd) < 9223372036854775808"
    using w1(2) room lock(4) by (simp add: wf_step_def wal_log_def)
  with walf_put_all_no_fail [of "w1\<lparr>wf_latch := True\<rparr>" d1 ?hd "Some checksum_init"] lock(2) wf_step_str [OF w1(2)] obtain w2 d2 where
    w2: "walf_put_all (w1\<lparr>wf_latch := True\<rparr>) d1 (Some checksum_init) ?hd =
        Some (Inr (), Some (NOT (foldl crc_step (NOT checksum_init) (concat ?hd))), w2, d2)"
      "wf_step w1 d1 w2 d2 (concat ?hd)" by (auto simp: lock(3))
  note s = wf_unlock_step [OF wf_step_trans [OF w1(2) w2(2)], unfolded append_Nil]
  have "walf_write_ckpt_end (Some mem) False m w1 d1 ?c = Some (Inr (), wf_unlock w2, d2)"
    unfolding walf_write_ckpt_end_def lock(1) Option.bind.simps init prod.case sum.case Let_def
      wal_ckpt_end_write.simps att src w2(1) if_P [OF pos] simp_thms if_True ..
  then have "wal_append_ckpt_end (Some mem, False) m w d att dpt =
      Some (Inr (of_nat (length (wal_log w d))), w\<lparr>w_wf := wf_unlock w2\<rparr>, d2)"
    by (simp add: wal_append_ckpt_end_def wal_append_def walf_write_def w1(1) os lsn)
  with s hdr show ?thesis by (auto simp: wal_inv_def wal_log_def wf_step_def)
qed

theorem wal_ckpt_end_hides_failure_witness:
  "\<exists>m att dpt w' d'. wal_append_ckpt_end (Some (replicate WAL_BUFFER_CAP 0), False) m wal_open disk_example att dpt =
      Some (Inr 0, w', d') \<and> length (wal_log w' d') = 9"
proof -
  from txn_example_table obtain t where
    t: "txnt_inv txn_example t" "txnt_map txn_example t = [7 \<mapsto> (0, 0)]" "size (ah_nodes t) \<le> 1" by blast
  from dpt_example obtain h dpt where
    d: "dpt_inv h dpt" "dpt_map h dpt = [5 \<mapsto> 40]" "dpt_cap dpt = DPT_CAP" by blast
  let ?m = "\<lparr>wm_txns = txn_example, wm_dpgs = h\<rparr>"
  have "txnt_map txn_example t 7 \<noteq> None" by (simp add: t(2))
  then have "ah_list t \<noteq> []" by (auto simp: txnt_map_def)
  then have "ah_nodes t \<noteq> {#}" by (simp flip: mset_ah_list)
  moreover have "card (dom (dpt_map h dpt)) \<le> 100" unfolding d(2) by simp
  then have ok: "rec_ok ?m (W_Ckpt_End \<lparr>cw_att = t, cw_dpt = dpt\<rparr>)" using t(1,3) d(1,3) by simp
  moreover have "length (wal_log wal_open disk_example) + 9 < 2 ^ 63" by (simp add: examples)
  ultimately obtain w' d' where
    "wal_append_ckpt_end (Some (replicate WAL_BUFFER_CAP 0), False) ?m wal_open disk_example t dpt = Some (Inr 0, w', d')"
    "wal_log w' d' = take 9 (rec_image ?m (W_Ckpt_End \<lparr>cw_att = t, cw_dpt = dpt\<rparr>))"
    using wal_ckpt_end_hides_failure [OF examples(4,2) length_replicate, of ?m t dpt 0] examples(5) by auto
  moreover from this(2) have "length (wal_log w' d') = 9" by (simp add: rec_image_def)
  ultimately show ?thesis by blast
qed

end
