(* ===== verification/Pager.thy ===== *)
theory Pager
  imports File_Pager Page_Dispatch Wal_Log
begin

text \<open>
  \<^verbatim>\<open>libs/nspager/pager.c\<close> and \<^verbatim>\<open>page_h.h\<close>: the buffer pool with its clock, pages in shared and exclusive
  mode, transactions, and the list of free pages.

  The state is the struct: the file pager with the disk of its file, the log with the disk of its own,
  the frames, the hash table from page numbers to frames, the two tables recovery needs with the heaps
  they point into. A pointer to a frame is its index, a pointer to a transaction one into the heap of
  transactions. A page that is written has two frames: clients go on to read the one in the hash table
  while the other, its sibling, is filled. \<open>pg_allocs\<close> are the outcomes of the allocations that the next
  operation makes. Latches are not modelled.
\<close>

section \<open>Frames and handles\<close>

abbreviation MEMORY_PAGE_LEN :: nat where
  "MEMORY_PAGE_LEN \<equiv> 100"

abbreviation PW_ACCESS :: u32 where "PW_ACCESS \<equiv> 1"
abbreviation PW_DIRTY :: u32 where "PW_DIRTY \<equiv> 2"
abbreviation PW_PRESENT :: u32 where "PW_PRESENT \<equiv> 4"

record page_frame =
  pf_page :: page
  pf_pin :: nat
  pf_flags :: u32
  pf_wsibling :: int

definition pf_check :: "page_frame \<Rightarrow> u32 \<Rightarrow> bool" where
  "pf_check pf flag \<longleftrightarrow> pf_flags pf AND flag \<noteq> 0"

definition pf_set :: "page_frame \<Rightarrow> u32 \<Rightarrow> page_frame" where
  "pf_set pf flag = pf\<lparr>pf_flags := pf_flags pf OR flag\<rparr>"

definition pf_clr :: "page_frame \<Rightarrow> u32 \<Rightarrow> page_frame" where
  "pf_clr pf flag = pf\<lparr>pf_flags := pf_flags pf AND NOT flag\<rparr>"

datatype page_mode = PHM_NONE | PHM_S | PHM_X

record page_h =
  ph_mode :: page_mode
  ph_pgr :: "nat option"
  ph_pgw :: "nat option"
  ph_tx :: "ptr option"

definition page_h_create :: page_h where
  "page_h_create = \<lparr>ph_mode = PHM_NONE, ph_pgr = None, ph_pgw = None, ph_tx = None\<rparr>"

record pgr_allocs =
  pa_buf :: "u8 list option"
  pa_ckpt :: bool
  pa_ins :: bool
  pa_del :: bool

record pager =
  pg_fp :: file_pager
  pg_disk :: disk
  pg_ww :: wal
  pg_log :: disk
  pg_restarting :: bool
  pg_dpt :: dpg_table
  pg_tnxt :: txn_table
  pg_mem :: wal_mem
  pg_next_tid :: txid
  pg_ht :: "nat hash_table"
  pg_pages :: "page_frame list"
  pg_clock :: nat
  pg_wal_enabled :: bool
  pg_master_lsn :: lsn
  pg_first_tombstone :: pgno
  pg_ckpt_begin_lsn :: lsn
  pg_allocs :: pgr_allocs

definition pager_assert :: "pager \<Rightarrow> unit option" where
  "pager_assert p = ASSERT (pg_clock p < MEMORY_PAGE_LEN)"

definition get_frame :: "pager \<Rightarrow> nat \<Rightarrow> page_frame option" where
  "get_frame p i = (if i < length (pg_pages p) then Some (pg_pages p ! i) else None)"

definition put_frame :: "pager \<Rightarrow> nat \<Rightarrow> page_frame \<Rightarrow> pager" where
  "put_frame p i f = p\<lparr>pg_pages := (pg_pages p)[i := f]\<rparr>"

definition next_clock :: "pager \<Rightarrow> pager" where
  "next_clock p = p\<lparr>pg_clock := (pg_clock p + 1) mod MEMORY_PAGE_LEN\<rparr>"

definition page_h_assert :: "pager \<Rightarrow> page_h \<Rightarrow> unit option" where
  "page_h_assert p h =
     (case ph_mode h of
        PHM_S \<Rightarrow> do {
          r \<leftarrow> ph_pgr h;
          ASSERT (ph_pgw h = None);
          f \<leftarrow> get_frame p r;
          ASSERT (pf_wsibling f = -1) }
      | PHM_X \<Rightarrow> do {
          r \<leftarrow> ph_pgr h;
          _ \<leftarrow> ph_pgw h;
          f \<leftarrow> get_frame p r;
          ASSERT (pf_wsibling f \<ge> 0) }
      | PHM_NONE \<Rightarrow> ASSERT (ph_pgr h = None \<and> ph_pgw h = None))"

definition page_h_xfer_ownership :: "pager \<Rightarrow> page_h \<Rightarrow> (page_h \<times> page_h) option" where
  \<comment> \<open>what is returned, and what is left behind\<close>
  "page_h_xfer_ownership p h = do {
     page_h_assert p h;
     Some (h, h\<lparr>ph_mode := PHM_NONE, ph_pgr := None, ph_pgw := None\<rparr>) }"

definition page_h_xfer_ownership_ptr :: "pager \<Rightarrow> page_h \<Rightarrow> page_h \<Rightarrow> (page_h \<times> page_h) option" where
  "page_h_xfer_ownership_ptr p dest src = do {
     page_h_assert p dest;
     page_h_assert p src;
     ASSERT (ph_mode dest = PHM_NONE);
     Some (src, src\<lparr>ph_mode := PHM_NONE, ph_pgr := None, ph_pgw := None\<rparr>) }"

definition page_h_r :: "pager \<Rightarrow> page_h \<Rightarrow> page option" where
  "page_h_r p h = do {
     page_h_assert p h;
     ASSERT (ph_mode h = PHM_S);
     r \<leftarrow> ph_pgr h;
     f \<leftarrow> get_frame p r;
     Some (pf_page f) }"

text \<open>\<^verbatim>\<open>page_h_w\<close> returns a pointer: the page behind it is read with \<open>page_h_w\<close> and changed with
  \<open>page_h_w_put\<close>.\<close>

definition page_h_w :: "pager \<Rightarrow> page_h \<Rightarrow> page option" where
  "page_h_w p h = do {
     page_h_assert p h;
     ASSERT (ph_mode h = PHM_X);
     w \<leftarrow> ph_pgw h;
     f \<leftarrow> get_frame p w;
     Some (pf_page f) }"

definition page_h_w_put :: "pager \<Rightarrow> page_h \<Rightarrow> page \<Rightarrow> pager option" where
  "page_h_w_put p h x = do {
     page_h_assert p h;
     ASSERT (ph_mode h = PHM_X);
     w \<leftarrow> ph_pgw h;
     f \<leftarrow> get_frame p w;
     Some (put_frame p w (f\<lparr>pf_page := x\<rparr>)) }"

definition page_h_ro :: "pager \<Rightarrow> page_h \<Rightarrow> page option" where
  "page_h_ro p h = do {
     page_h_assert p h;
     i \<leftarrow> (case ph_mode h of PHM_X \<Rightarrow> ph_pgw h | PHM_S \<Rightarrow> ph_pgr h | PHM_NONE \<Rightarrow> None);
     f \<leftarrow> get_frame p i;
     Some (pf_page f) }"

definition page_h_pgno :: "pager \<Rightarrow> page_h \<Rightarrow> pgno option" where
  "page_h_pgno p h = map_option pg (page_h_ro p h)"

definition page_h_pgno_or_null :: "pager \<Rightarrow> page_h \<Rightarrow> pgno option" where
  "page_h_pgno_or_null p h = (if ph_mode h = PHM_NONE then Some PGNO_NULL else page_h_pgno p h)"

definition page_h_type :: "pager \<Rightarrow> page_h \<Rightarrow> u8 option" where
  "page_h_type p h = map_option page_get_type (page_h_ro p h)"

section \<open>Eviction and the clock\<close>

definition pgr_wal_flush :: "pager \<Rightarrow> (unit res \<times> pager) option" where
  "pgr_wal_flush p = do {
     (r, w, d) \<leftarrow> wal_flush_all (pa_buf (pg_allocs p)) (pg_ww p) (pg_log p);
     Some (r, p\<lparr>pg_ww := w, pg_log := d\<rparr>) }"

definition pgr_file_write :: "pager \<Rightarrow> page \<Rightarrow> pgno \<Rightarrow> (unit res \<times> pager) option" where
  "pgr_file_write p x pgn = do {
     (r, d) \<leftarrow> fpgr_write (pg_fp p) (pg_disk p) (raw x) pgn;
     Some (r, p\<lparr>pg_disk := d\<rparr>) }"

definition pgr_write_back :: "pager \<Rightarrow> nat \<Rightarrow> page_frame \<Rightarrow> (unit res \<times> pager) option" where
  \<comment> \<open>the part of \<^verbatim>\<open>pgr_evict\<close> for a dirty page\<close>
  "pgr_write_back p i mp =
     err_wrap (if pg_wal_enabled p \<and> \<not> pg_restarting p then pgr_wal_flush p else Some (Inr (), p)) (\<lambda>_ p.
     err_wrap (pgr_file_write p (pf_page mp) (pg (pf_page mp))) (\<lambda>_ p. do {
       let p = put_frame p i (pf_clr mp PW_DIRTY);
       (_, t) \<leftarrow> dpgt_remove (pg_dpt p) (pg (pf_page mp));
       Some (Inr (), p\<lparr>pg_dpt := t\<rparr>) }))"

definition pgr_evict :: "pager \<Rightarrow> nat \<Rightarrow> (unit res \<times> pager) option" where
  "pgr_evict p i = do {
     pager_assert p;
     mp \<leftarrow> get_frame p i;
     ASSERT (pf_check mp PW_PRESENT);
     ASSERT (pf_pin mp = 0);
     ASSERT (pf_wsibling mp = -1);
     err_wrap (if pf_check mp PW_DIRTY then pgr_write_back p i mp else Some (Inr (), p)) (\<lambda>_ p. do {
       (_, ht) \<leftarrow> ht_delete_expect (pg_ht p) (pg (pf_page mp));
       Some (Inr (), put_frame (p\<lparr>pg_ht := ht\<rparr>) i (pf_clr (mp\<lparr>pf_flags := 0\<rparr>) PW_PRESENT)) }) }"

text \<open>After the first failure the other pages are evicted with a null error, which a second failure
  dereferences.\<close>

primrec pgr_evict_all_loop :: "nat \<Rightarrow> pager \<Rightarrow> err_t option \<Rightarrow> (err_t option \<times> pager) option" where
  "pgr_evict_all_loop 0 p ret = Some (ret, p)"
| "pgr_evict_all_loop (Suc n) p ret = do {
     mp \<leftarrow> get_frame p (pg_clock p);
     (ret, p) \<leftarrow>
       (if pf_check mp PW_PRESENT then do {
          (r, p) \<leftarrow> pgr_evict p (pg_clock p);
          case r of
            Inr _ \<Rightarrow> Some (ret, p)
          | Inl e \<Rightarrow> do { ASSERT (ret = None); Some (Some e, p) } }
        else Some (ret, p));
     pgr_evict_all_loop n (next_clock p) ret }"

definition pgr_evict_all :: "pager \<Rightarrow> (err_t option \<times> pager) option" where
  "pgr_evict_all p = do { pager_assert p; pgr_evict_all_loop MEMORY_PAGE_LEN p None }"

primrec pgr_reserve_loop :: "nat \<Rightarrow> pager \<Rightarrow> (unit res \<times> pager) option" where
  "pgr_reserve_loop 0 p = Some (Inl ERR_PAGER_FULL, p)"
| "pgr_reserve_loop (Suc n) p = do {
     mp \<leftarrow> get_frame p (pg_clock p);
     if \<not> pf_check mp PW_PRESENT then Some (Inr (), p)
     else if pf_pin mp > 0 then pgr_reserve_loop n (next_clock p)
     else if pf_check mp PW_ACCESS
     then pgr_reserve_loop n (next_clock (put_frame p (pg_clock p) (pf_clr mp PW_ACCESS)))
     else pgr_evict p (pg_clock p) }"

definition pgr_reserve_at_clock :: "pager \<Rightarrow> (unit res \<times> pager) option" where
  "pgr_reserve_at_clock p = do {
     pager_assert p;
     err_wrap (pgr_reserve_loop (2 * MEMORY_PAGE_LEN) p) (\<lambda>_ p. do {
       mp \<leftarrow> get_frame p (pg_clock p);
       ASSERT (\<not> pf_check mp PW_PRESENT);
       Some (Inr (), p) }) }"

section \<open>Reading and writing pages\<close>

text \<open>\<^verbatim>\<open>pgr_get\<close> and \<^verbatim>\<open>pgr_get_unverified\<close> are the same text but for the validation. A page whose
  number is in the hash table while it is being written is a crash (\<^verbatim>\<open>WOULD BLOCK ON X\<close>).\<close>

definition pgr_fetch ::
  "(page \<Rightarrow> unit res option) \<Rightarrow> page_h \<Rightarrow> pgno \<Rightarrow> pager \<Rightarrow> (unit res \<times> page_h \<times> pager) option" where
  "pgr_fetch verify dest pgn p = do {
     page_h_assert p dest;
     ASSERT (ph_mode dest = PHM_NONE);
     (res, data) \<leftarrow> ht_get (pg_ht p) pgn;
     case res of
       HTAR_SUCCESS \<Rightarrow> do {
         data \<leftarrow> data;
         let i = hvalue data;
         pgr \<leftarrow> get_frame p i;
         ASSERT (\<not> pf_wsibling pgr \<ge> 0);
         v \<leftarrow> verify (pf_page pgr);
         ASSERT (v = Inr ());
         let p = put_frame p i (pgr\<lparr>pf_pin := add32 (pf_pin pgr) 1\<rparr>);
         Some (Inr (), dest\<lparr>ph_pgr := Some i, ph_pgw := None, ph_mode := PHM_S\<rparr>, p) }
     | HTAR_DOESNT_EXIST \<Rightarrow> do {
         (r, p) \<leftarrow> pgr_reserve_at_clock p;
         case r of
           Inl e \<Rightarrow> Some (Inl e, dest, p)
         | Inr _ \<Rightarrow> do {
             let i = pg_clock p;
             pgr \<leftarrow> get_frame p i;
             (r, bytes, d) \<leftarrow> fpgr_read (pg_fp p) (pg_disk p) (raw (pf_page pgr)) pgn;
             let x = (pf_page pgr)\<lparr>raw := bytes\<rparr>;
             let p = put_frame (p\<lparr>pg_disk := d\<rparr>) i (pgr\<lparr>pf_page := x\<rparr>);
             case r of
               Inl e \<Rightarrow> Some (Inl e, dest, p)
             | Inr _ \<Rightarrow> do {
                 r \<leftarrow> verify x;
                 case r of
                   Inl e \<Rightarrow> Some (Inl e, dest, p)
                 | Inr _ \<Rightarrow> do {
                     let pgr = \<lparr>pf_page = x\<lparr>pg := pgn\<rparr>, pf_pin = 1, pf_flags = 0, pf_wsibling = -1\<rparr>;
                     let p = put_frame p i (pf_set (pf_set pgr PW_ACCESS) PW_PRESENT);
                     ht \<leftarrow> ht_insert_expect (pg_ht p) \<lparr>hkey = pgn, hvalue = i\<rparr>;
                     let p = next_clock (p\<lparr>pg_ht := ht\<rparr>);
                     Some (Inr (), dest\<lparr>ph_pgr := Some i, ph_pgw := None, ph_mode := PHM_S\<rparr>, p) } } } } }"

definition pgr_get :: "page_h \<Rightarrow> u8 \<Rightarrow> pgno \<Rightarrow> pager \<Rightarrow> (unit res \<times> page_h \<times> pager) option" where
  "pgr_get dest flags pgn p = pgr_fetch (\<lambda>x. page_validate_for_db x flags) dest pgn p"

definition pgr_get_unverified :: "page_h \<Rightarrow> pgno \<Rightarrow> pager \<Rightarrow> (unit res \<times> page_h \<times> pager) option" where
  "pgr_get_unverified dest pgn p = pgr_fetch (\<lambda>_. Some (Inr ())) dest pgn p"

definition pgr_make_writable_no_tx :: "pager \<Rightarrow> page_h \<Rightarrow> (unit res \<times> page_h \<times> pager) option" where
  "pgr_make_writable_no_tx p h = do {
     pager_assert p;
     ASSERT (ph_mode h = PHM_S);
     _ \<leftarrow> page_h_pgno p h;
     (r, p) \<leftarrow> pgr_reserve_at_clock p;
     case r of
       Inl e \<Rightarrow> Some (Inl e, h, p)
     | Inr _ \<Rightarrow> do {
         let j = pg_clock p;
         i \<leftarrow> ph_pgr h;
         pgr \<leftarrow> get_frame p i;
         let pgr = (if \<not> pf_check pgr PW_DIRTY then pf_set pgr PW_DIRTY else pgr);
         pgw \<leftarrow> get_frame p j;
         let pgw = pf_set (pgw\<lparr>pf_pin := 1, pf_wsibling := -1, pf_flags := 0\<rparr>) PW_PRESENT;
         let pgw = pgw\<lparr>pf_page := \<lparr>raw = raw (pf_page pgr), pg = pg (pf_page pgr)\<rparr>\<rparr>;
         let pgw = pgw\<lparr>pf_pin := add32 (pf_pin pgw) 1\<rparr>;
         let p = put_frame (put_frame p i (pgr\<lparr>pf_wsibling := int j\<rparr>)) j pgw;
         Some (Inr (), h\<lparr>ph_pgw := Some j, ph_mode := PHM_X\<rparr>, next_clock p) } }"

definition pgr_make_writable :: "pager \<Rightarrow> ptr \<Rightarrow> page_h \<Rightarrow> (unit res \<times> page_h \<times> pager) option" where
  "pgr_make_writable p tx h =
     err_wrap (pgr_make_writable_no_tx p h) (\<lambda>_ (h, p). Some (Inr (), h\<lparr>ph_tx := Some tx\<rparr>, p))"

definition pgr_maybe_make_writable :: "pager \<Rightarrow> ptr \<Rightarrow> page_h \<Rightarrow> (unit res \<times> page_h \<times> pager) option" where
  "pgr_maybe_make_writable p tx cur =
     (if ph_mode cur = PHM_S then pgr_make_writable p tx cur else Some (Inr (), cur, p))"

text \<open>What saving and cancelling end with: the sibling is given back and the handle is shared again.\<close>

definition pgr_drop_w :: "pager \<Rightarrow> page_h \<Rightarrow> (page_h \<times> pager) option" where
  "pgr_drop_w p h = do {
     i \<leftarrow> ph_pgr h;
     j \<leftarrow> ph_pgw h;
     pgw \<leftarrow> get_frame p j;
     let p = put_frame p j (pf_clr (pgw\<lparr>pf_flags := 0\<rparr>) PW_PRESENT);
     pgr \<leftarrow> get_frame p i;
     let p = put_frame p i (pgr\<lparr>pf_wsibling := -1\<rparr>);
     Some (h\<lparr>ph_pgw := None, ph_mode := PHM_S\<rparr>, p) }"

definition pgr_copy_back :: "pager \<Rightarrow> page_h \<Rightarrow> pager option" where
  \<comment> \<open>the \<^verbatim>\<open>i_memcpy\<close> from the sibling to the page\<close>
  "pgr_copy_back p h = do {
     i \<leftarrow> ph_pgr h;
     j \<leftarrow> ph_pgw h;
     pgw \<leftarrow> get_frame p j;
     pgr \<leftarrow> get_frame p i;
     Some (put_frame p i (pgr\<lparr>pf_page := (pf_page pgr)\<lparr>raw := raw (pf_page pgw)\<rparr>\<rparr>)) }"

definition pgr_unpin :: "pager \<Rightarrow> page_h \<Rightarrow> u8 \<Rightarrow> (unit res \<times> page_h \<times> pager) option" where
  \<comment> \<open>the end of both releases\<close>
  "pgr_unpin p h flags = do {
     i \<leftarrow> ph_pgr h;
     pgr \<leftarrow> get_frame p i;
     v \<leftarrow> page_validate_for_db (pf_page pgr) flags;
     case v of
       Inl e \<Rightarrow> Some (Inl e, h, p)
     | Inr _ \<Rightarrow> do {
         pager_assert p;
         Some (Inr (), h\<lparr>ph_pgr := None, ph_mode := PHM_NONE\<rparr>,
           put_frame p i (pgr\<lparr>pf_pin := sub32 (pf_pin pgr) 1\<rparr>)) } }"

definition pgr_release_no_tx :: "pager \<Rightarrow> page_h \<Rightarrow> u8 \<Rightarrow> (unit res \<times> page_h \<times> pager) option" where
  "pgr_release_no_tx p h flags = do {
     pager_assert p;
     ASSERT (ph_mode h = PHM_X \<or> ph_mode h = PHM_S);
     _ \<leftarrow> page_h_pgno p h;
     (h, p) \<leftarrow>
       (if ph_mode h = PHM_X then do {
          x \<leftarrow> page_h_w p h;
          v \<leftarrow> page_validate_for_db x flags;
          ASSERT (v = Inr ());
          p \<leftarrow> pgr_copy_back p h;
          pgr_drop_w p h }
        else Some (h, p));
     pgr_unpin p h flags }"

text \<open>The writable versions of a get. When no frame is left for the sibling the page is released.\<close>

definition pgr_get_writable_no_tx :: "page_h \<Rightarrow> u8 \<Rightarrow> pgno \<Rightarrow> pager \<Rightarrow> (unit res \<times> page_h \<times> pager) option" where
  "pgr_get_writable_no_tx dest flags pgn p =
     err_wrap (pgr_get dest flags pgn p) (\<lambda>_ (dest, p). do {
       (r, dest, p) \<leftarrow> pgr_make_writable_no_tx p dest;
       case r of
         Inr _ \<Rightarrow> Some (Inr (), dest, p)
       | Inl e \<Rightarrow> do { (_, dest, p) \<leftarrow> pgr_release_no_tx p dest flags; Some (Inl e, dest, p) } })"

definition pgr_get_writable :: "page_h \<Rightarrow> ptr \<Rightarrow> u8 \<Rightarrow> pgno \<Rightarrow> pager \<Rightarrow> (unit res \<times> page_h \<times> pager) option" where
  "pgr_get_writable dest tx flags pgn p =
     err_wrap (pgr_get dest flags pgn p) (\<lambda>_ (dest, p). do {
       (r, dest, p) \<leftarrow> pgr_make_writable p tx dest;
       case r of
         Inr _ \<Rightarrow> Some (Inr (), dest, p)
       | Inl e \<Rightarrow> do { (_, dest, p) \<leftarrow> pgr_release_no_tx p dest flags; Some (Inl e, dest, p) } })"

section \<open>Saving and releasing\<close>

definition pgr_append :: "pager \<Rightarrow> wal_rec_hdr_write \<Rightarrow> (lsn res \<times> pager) option" where
  \<comment> \<open>an append to the pager's log\<close>
  "pgr_append p r = do {
     (l, w, d) \<leftarrow> wal_append_log (pa_buf (pg_allocs p), pa_ckpt (pg_allocs p)) (pg_mem p) (pg_ww p) (pg_log p) r;
     Some (l, p\<lparr>pg_ww := w, pg_log := d\<rparr>) }"

definition pgr_txn :: "pager \<Rightarrow> ptr \<Rightarrow> txn option" where
  "pgr_txn p tx = heap_get (wm_txns (pg_mem p)) tx"

definition pgr_txn_set :: "pager \<Rightarrow> ptr \<Rightarrow> txn_data \<Rightarrow> pager option" where
  "pgr_txn_set p tx data = do {
     h \<leftarrow> txn_update (wm_txns (pg_mem p)) tx data;
     Some (p\<lparr>pg_mem := (pg_mem p)\<lparr>wm_txns := h\<rparr>\<rparr>) }"

definition pgr_dpt_note :: "pager \<Rightarrow> pgno \<Rightarrow> lsn \<Rightarrow> (unit res \<times> pager) option" where
  \<comment> \<open>the recovery position of a page is that of its first update\<close>
  "pgr_dpt_note p pgn l = do {
     e \<leftarrow> dpe_get (wm_dpgs (pg_mem p)) (pg_dpt p) pgn;
     case e of
       Some _ \<Rightarrow> Some (Inr (), p)
     | None \<Rightarrow> do {
         (r, h, t) \<leftarrow> dpgt_add (wm_dpgs (pg_mem p)) (pg_dpt p) pgn l;
         Some (r, p\<lparr>pg_mem := (pg_mem p)\<lparr>wm_dpgs := h\<rparr>, pg_dpt := t\<rparr>) } }"

definition pgr_log_update :: "pager \<Rightarrow> page_h \<Rightarrow> (unit res \<times> pager) option" where
  \<comment> \<open>the part of \<^verbatim>\<open>pgr_save\<close> with the log\<close>
  "pgr_log_update p h = do {
     tx \<leftarrow> ph_tx h;
     t \<leftarrow> pgr_txn p tx;
     pgn \<leftarrow> page_h_pgno p h;
     pgr \<leftarrow> do { i \<leftarrow> ph_pgr h; get_frame p i };
     pgw \<leftarrow> do { j \<leftarrow> ph_pgw h; get_frame p j };
     err_wrap (pgr_append p (W_Update
         \<lparr>wu_tid = tx_tid t, wu_prev = td_last_lsn (tx_data t), wu_pg = pgn,
          wu_undo = raw (pf_page pgr), wu_redo = raw (pf_page pgw)\<rparr>)) (\<lambda>page_lsn p. do {
       x \<leftarrow> page_h_w p h;
       p \<leftarrow> page_h_w_put p h (page_set_page_lsn x page_lsn);
       p \<leftarrow> pgr_txn_set p tx ((tx_data t)\<lparr>td_last_lsn := page_lsn, td_undo_next_lsn := page_lsn\<rparr>);
       pgr_dpt_note p pgn page_lsn }) }"

definition pgr_save :: "pager \<Rightarrow> page_h \<Rightarrow> u8 \<Rightarrow> (unit res \<times> page_h \<times> pager) option" where
  "pgr_save p h flags = do {
     pager_assert p;
     ASSERT (ph_mode h = PHM_X);
     x \<leftarrow> page_h_w p h;
     v \<leftarrow> page_validate_for_db x flags;
     ASSERT (v = Inr ());
     (r, p) \<leftarrow> (if pg_wal_enabled p then pgr_log_update p h else Some (Inr (), p));
     case r of
       Inl e \<Rightarrow> Some (Inl e, h, p)
     | Inr _ \<Rightarrow> do {
         p \<leftarrow> pgr_copy_back p h;
         (h, p) \<leftarrow> pgr_drop_w p h;
         Some (Inr (), h, p) } }"

definition pgr_cancel_w :: "pager \<Rightarrow> page_h \<Rightarrow> (page_h \<times> pager) option" where
  "pgr_cancel_w p h = do {
     pager_assert p;
     ASSERT (ph_mode h = PHM_X);
     pgr_drop_w p h }"

definition pgr_release :: "pager \<Rightarrow> page_h \<Rightarrow> u8 \<Rightarrow> (unit res \<times> page_h \<times> pager) option" where
  "pgr_release p h flags = do {
     pager_assert p;
     ASSERT (ph_mode h = PHM_X \<or> ph_mode h = PHM_S);
     _ \<leftarrow> page_h_pgno p h;
     err_wrap (if ph_mode h = PHM_X then pgr_save p h flags else Some (Inr (), h, p)) (\<lambda>_ (h, p).
       pgr_unpin p h flags) }"

definition pgr_release_if_exists :: "pager \<Rightarrow> page_h \<Rightarrow> u8 \<Rightarrow> (unit res \<times> page_h \<times> pager) option" where
  "pgr_release_if_exists p h flags =
     (if ph_mode h \<noteq> PHM_NONE then pgr_release p h flags else Some (Inr (), h, p))"

definition pgr_flush_wall :: "pager \<Rightarrow> (unit res \<times> pager) option" where
  "pgr_flush_wall p = (if pg_wal_enabled p then pgr_wal_flush p else None)"

section \<open>Transactions\<close>

definition pgr_begin_txn :: "ptr \<Rightarrow> pager \<Rightarrow> (unit res \<times> pager) option" where
  "pgr_begin_txn tx p = do {
     pager_assert p;
     if pg_wal_enabled p then do {
       let tid = pg_next_tid p;
       let p = p\<lparr>pg_next_tid := pg_next_tid p + 1\<rparr>;
       err_wrap (pgr_append p (W_Begin \<lparr>wb_tid = tid\<rparr>)) (\<lambda>l p. do {
         h \<leftarrow> txn_init (wm_txns (pg_mem p)) tx tid
           \<lparr>td_state = TX_RUNNING, td_last_lsn = l, td_undo_next_lsn = 0\<rparr>;
         let p = p\<lparr>pg_mem := (pg_mem p)\<lparr>wm_txns := h\<rparr>\<rparr>;
         (r, t) \<leftarrow> txnt_insert_txn (pa_ins (pg_allocs p)) h (pg_tnxt p) tx;
         Some (r, p\<lparr>pg_tnxt := t\<rparr>) }) }
     else Some (Inr (), p) }"

definition pgr_commit :: "pager \<Rightarrow> ptr \<Rightarrow> (unit res \<times> pager) option" where
  "pgr_commit p tx = do {
     pager_assert p;
     if pg_wal_enabled p then do {
       t \<leftarrow> pgr_txn p tx;
       if td_state (tx_data t) \<noteq> TX_RUNNING then Some (Inl ERR_DUPLICATE_COMMIT, p)
       else
         err_wrap (pgr_append p (W_Commit \<lparr>wc_tid = tx_tid t, wc_prev = td_last_lsn (tx_data t)\<rparr>)) (\<lambda>l p.
         err_wrap (pgr_wal_flush p) (\<lambda>_ p.
         err_wrap (pgr_append p (W_End \<lparr>we_tid = tx_tid t, we_prev = l\<rparr>)) (\<lambda>_ p.
         err_wrap (do {
             (r, tab) \<leftarrow> txnt_remove_txn_expect (pa_del (pg_allocs p)) (wm_txns (pg_mem p)) (pg_tnxt p) tx;
             Some (r, p\<lparr>pg_tnxt := tab\<rparr>) }) (\<lambda>_ p. do {
           p \<leftarrow> pgr_txn_set p tx ((tx_data t)\<lparr>td_state := TX_DONE\<rparr>);
           Some (Inr (), p) })))) }
     else Some (Inr (), p) }"

section \<open>Free pages\<close>

text \<open>A new page at the end of the file. \<open>fpgr_get_npages + 1\<close> is computed in 32 bits.\<close>

definition pgr_new_extend :: "page_h \<Rightarrow> pager \<Rightarrow> ptr \<Rightarrow> (unit res \<times> page_h \<times> pager) option" where
  "pgr_new_extend dest p tx = do {
     pager_assert p;
     page_h_assert p dest;
     ASSERT (ph_mode dest = PHM_NONE);
     (r, p) \<leftarrow> pgr_reserve_at_clock p;
     case r of
       Inl e \<Rightarrow> Some (Inl e, dest, p)
     | Inr _ \<Rightarrow> do {
         let i = pg_clock p;
         pgr \<leftarrow> get_frame p i;
         let pgr = pf_set (pf_set (pgr\<lparr>pf_pin := 1, pf_flags := 0, pf_wsibling := -1\<rparr>) PW_ACCESS) PW_PRESENT;
         x \<leftarrow> page_init_empty (pf_page pgr) PG_TOMBSTONE;
         let x = tmbst_set_next x (of_nat (add32 (fpgr_get_npages (pg_fp p)) 1));
         let pgr = pgr\<lparr>pf_page := x\<rparr>;
         let p = put_frame p i pgr;
         (r, p) \<leftarrow> pgr_reserve_at_clock p;
         case r of
           Inl e \<Rightarrow> do {
             pgr \<leftarrow> get_frame p i;
             Some (Inl e, dest, put_frame p i (pgr\<lparr>pf_pin := 0, pf_flags := 0\<rparr>)) }
         | Inr _ \<Rightarrow> do {
             let j = pg_clock p;
             pgr \<leftarrow> get_frame p i;
             pgw \<leftarrow> get_frame p j;
             let pgr = pgr\<lparr>pf_wsibling := int j\<rparr>;
             let pgw = pf_set (pgw\<lparr>pf_pin := 1, pf_flags := 0, pf_wsibling := -1\<rparr>) PW_PRESENT;
             let p = put_frame (put_frame p i pgr) j pgw;
             case fpgr_new (pg_fp p) (pg_disk p) of
               (Inl e, fp, d) \<Rightarrow>
                 Some (Inl e, dest,
                   put_frame (put_frame (p\<lparr>pg_fp := fp, pg_disk := d\<rparr>) i (pgr\<lparr>pf_pin := 0, pf_flags := 0\<rparr>))
                     j (pgw\<lparr>pf_pin := 0, pf_flags := 0\<rparr>))
             | (Inr pgn, fp, d) \<Rightarrow> do {
                 let pgw = pgw\<lparr>pf_page := \<lparr>raw = raw (pf_page pgr), pg = pgn\<rparr>\<rparr>;
                 let pgr = pf_set (pgr\<lparr>pf_page := (pf_page pgr)\<lparr>pg := pgn\<rparr>\<rparr>) PW_DIRTY;
                 let p = put_frame (put_frame (p\<lparr>pg_fp := fp, pg_disk := d\<rparr>) i pgr) j pgw;
                 ht \<leftarrow> ht_insert_expect (pg_ht p) \<lparr>hkey = pgn, hvalue = i\<rparr>;
                 Some (Inr (), \<lparr>ph_mode = PHM_X, ph_pgr = Some i, ph_pgw = Some j, ph_tx = Some tx\<rparr>,
                   p\<lparr>pg_ht := ht\<rparr>) } } } }"

text \<open>The first free page is taken from the list, or the file grows.\<close>

definition pgr_new :: "page_h \<Rightarrow> pager \<Rightarrow> ptr \<Rightarrow> page_type \<Rightarrow> (unit res \<times> page_h \<times> pager) option" where
  "pgr_new dest p tx type = do {
     pager_assert p;
     page_h_assert p dest;
     ASSERT (ph_mode dest = PHM_NONE);
     let RN = pt_code PG_ROOT_NODE;
     (r, root_node, p) \<leftarrow> pgr_get page_h_create RN 0 p;
     case r of
       Inl e \<Rightarrow> Some (Inl e, dest, p)
     | Inr _ \<Rightarrow> do {
     x \<leftarrow> page_h_ro p root_node;
     let ftpg = rn_get_first_tmbst x;
     (r, root_node, p) \<leftarrow> pgr_make_writable p tx root_node;
     case r of
       Inl e \<Rightarrow> do { (_, _, p) \<leftarrow> pgr_release_no_tx p root_node RN; Some (Inl e, dest, p) }
     | Inr _ \<Rightarrow> do {
     (r, dest, p) \<leftarrow>
       (if ftpg < of_nat (fpgr_get_npages (pg_fp p))
        then pgr_get_writable dest tx (pt_code PG_TOMBSTONE) ftpg p
        else pgr_new_extend dest p tx);
     case r of
       Inl e \<Rightarrow> do {
         (root_node, p) \<leftarrow> pgr_cancel_w p root_node;
         (_, _, p) \<leftarrow> pgr_release_no_tx p root_node RN;
         Some (Inl e, dest, p) }
     | Inr _ \<Rightarrow> do {
     ntbst \<leftarrow> map_option tmbst_get_next (page_h_ro p dest);
     x \<leftarrow> page_h_w p root_node;
     p \<leftarrow> page_h_w_put p root_node (rn_set_first_tmbst x ntbst);
     (r, root_node, p) \<leftarrow> pgr_save p root_node RN;
     case r of
       Inl e \<Rightarrow> do {
         (dest, p) \<leftarrow> pgr_cancel_w p dest;
         (root_node, p) \<leftarrow> pgr_cancel_w p root_node;
         (_, _, p) \<leftarrow> pgr_release p root_node RN;
         (_, dest, p) \<leftarrow> pgr_release p dest (pt_code type);
         Some (Inl e, dest, p) }
     | Inr _ \<Rightarrow> do {
     (_, _, p) \<leftarrow> pgr_release p root_node RN;
     x \<leftarrow> page_h_w p dest;
     x \<leftarrow> page_init_empty x type;
     p \<leftarrow> page_h_w_put p dest x;
     Some (Inr (), dest, p) } } } } }"

definition pgr_delete_and_release :: "pager \<Rightarrow> ptr \<Rightarrow> page_h \<Rightarrow> (unit res \<times> page_h \<times> pager) option" where
  "pgr_delete_and_release p tx h = do {
     pager_assert p;
     let RN = pt_code PG_ROOT_NODE;
     (r, root_node, p) \<leftarrow> pgr_get page_h_create RN 0 p;
     case r of
       Inl e \<Rightarrow> Some (Inl e, h, p)
     | Inr _ \<Rightarrow> do {
     (r, root_node, p) \<leftarrow> pgr_make_writable p tx root_node;
     case r of
       Inl e \<Rightarrow> Some (Inl e, h, p)
     | Inr _ \<Rightarrow> do {
     (r, h, p) \<leftarrow> (if ph_mode h = PHM_S then pgr_make_writable p tx h else Some (Inr (), h, p));
     case r of
       Inl e \<Rightarrow> do {
         (root_node, p) \<leftarrow> pgr_cancel_w p root_node;
         (_, _, p) \<leftarrow> pgr_release p root_node RN;
         Some (Inl e, h, p) }
     | Inr _ \<Rightarrow> do {
     ftpg \<leftarrow> map_option rn_get_first_tmbst (page_h_ro p root_node);
     x \<leftarrow> do { j \<leftarrow> ph_pgw h; get_frame p j };
     x \<leftarrow> page_init_empty (pf_page x) PG_TOMBSTONE;
     p \<leftarrow> page_h_w_put p h (tmbst_set_next x ftpg);
     ftpg \<leftarrow> page_h_pgno p h;
     (r, h, p) \<leftarrow> pgr_release p h (pt_code PG_TOMBSTONE);
     case r of
       Inl e \<Rightarrow> do {
         (root_node, p) \<leftarrow> pgr_cancel_w p root_node;
         (_, _, p) \<leftarrow> pgr_release p root_node RN;
         Some (Inl e, h, p) }
     | Inr _ \<Rightarrow> do {
     x \<leftarrow> page_h_w p root_node;
     p \<leftarrow> page_h_w_put p root_node (rn_set_first_tmbst x ftpg);
     (r, root_node, p) \<leftarrow> pgr_save p root_node RN;
     case r of
       Inl e \<Rightarrow> do {
         (root_node, p) \<leftarrow> pgr_cancel_w p root_node;
         (_, _, p) \<leftarrow> pgr_release p root_node RN;
         Some (Inl e, h, p) }
     | Inr _ \<Rightarrow> do {
     (_, _, p) \<leftarrow> pgr_release p root_node RN;
     Some (Inr (), h, p) } } } } } }"

end
