(* ===== verification/Pager_Pool.thy ===== *)
theory Pager_Pool
  imports Pager
begin

text \<open>
  What the buffer pool of \<open>Pager\<close> keeps.

  \<open>pool_inv\<close> is its invariant: the hash table points to the frames that hold its pages, a frame that is
  not dirty has the bytes of the file, every other frame in use is the pinned sibling of a page that is
  being written, and the dirty page table knows only pages that are dirty. \<open>pgr_page\<close> is the page a
  client sees: the frame when there is one, the file otherwise. \<open>pool_kept\<close> is what taking a frame keeps,
  whichever pages the clock evicts: what clients see of every page, every pinned frame and the log.
  The theorems assume that the kernel does not fail and that the buffer of the log can be allocated.
\<close>

section \<open>Flags, frames and errors\<close>

named_theorems frame "flags and fields of frames"

lemma pf_fields [frame]:
  "pf_page (pf_set f a) = pf_page f" "pf_pin (pf_set f a) = pf_pin f" "pf_wsibling (pf_set f a) = pf_wsibling f"
  "pf_page (pf_clr f a) = pf_page f" "pf_pin (pf_clr f a) = pf_pin f" "pf_wsibling (pf_clr f a) = pf_wsibling f"
  by (simp_all add: pf_set_def pf_clr_def)

lemma pf_check_fields [frame]:
  "pf_check (f\<lparr>pf_page := x\<rparr>) a = pf_check f a" "pf_check (f\<lparr>pf_pin := n\<rparr>) a = pf_check f a"
  "pf_check (f\<lparr>pf_wsibling := w\<rparr>) a = pf_check f a" "\<not> pf_check (f\<lparr>pf_flags := 0\<rparr>) a"
  "pf_check \<lparr>pf_page = x, pf_pin = n, pf_flags = fl, pf_wsibling = w\<rparr> a \<longleftrightarrow> fl AND a \<noteq> 0"
  by (simp_all add: pf_check_def)

lemma pf_check_set [frame]:
  "pf_check (pf_set f a) b \<longleftrightarrow> pf_check f b \<or> a AND b \<noteq> 0"
proof -
  have "(pf_flags f OR a) AND b = (pf_flags f AND b) OR (a AND b)" by (simp add: bit.conj_disj_distrib2)
  then show ?thesis by (simp add: pf_check_def pf_set_def or_eq_0_iff)
qed

lemma pf_check_clr [frame]:
  "pf_check (pf_clr f a) a = False" "a AND b = 0 \<Longrightarrow> pf_check (pf_clr f a) b = pf_check f b"
proof -
  show "pf_check (pf_clr f a) a = False"
    by (simp add: pf_check_def pf_clr_def and.assoc)
  show "pf_check (pf_clr f a) b = pf_check f b" if ab: "a AND b = 0"
  proof -
    have "(pf_flags f AND NOT a) AND b = pf_flags f AND b"
    proof (rule bit_word_eqI)
      fix n
      have "\<not> (bit a n \<and> bit b n)" using ab by (metis bit_0_eq bit_and_iff bot_apply bot_bool_def)
      then show "bit ((pf_flags f AND NOT a) AND b) n = bit (pf_flags f AND b) n"
        by (auto simp: bit_simps dest: bit_imp_le_length)
    qed
    then show ?thesis by (simp add: pf_check_def pf_clr_def)
  qed
qed

abbreviation fr :: "pager \<Rightarrow> nat \<Rightarrow> page_frame" where
  "fr p i \<equiv> pg_pages p ! i"

abbreviation pf_present :: "page_frame \<Rightarrow> bool" where
  "pf_present f \<equiv> pf_check f PW_PRESENT"

abbreviation pf_dirty :: "page_frame \<Rightarrow> bool" where
  "pf_dirty f \<equiv> pf_check f PW_DIRTY"

lemma put_frame_fields [simp]:
  "length (pg_pages (put_frame p i f)) = length (pg_pages p)" "pg_clock (put_frame p i f) = pg_clock p"
  "pg_ht (put_frame p i f) = pg_ht p" "pg_fp (put_frame p i f) = pg_fp p" "pg_disk (put_frame p i f) = pg_disk p"
  "pg_ww (put_frame p i f) = pg_ww p" "pg_log (put_frame p i f) = pg_log p" "pg_dpt (put_frame p i f) = pg_dpt p"
  "pg_mem (put_frame p i f) = pg_mem p" "pg_allocs (put_frame p i f) = pg_allocs p" "pg_tnxt (put_frame p i f) = pg_tnxt p"
  "pg_wal_enabled (put_frame p i f) = pg_wal_enabled p" "pg_restarting (put_frame p i f) = pg_restarting p"
  "pg_next_tid (put_frame p i f) = pg_next_tid p" "pg_pages (put_frame p i f) = (pg_pages p)[i := f]"
  by (simp_all add: put_frame_def)

lemma next_clock_fields [simp]:
  "pg_pages (next_clock p) = pg_pages p" "pg_ht (next_clock p) = pg_ht p" "pg_fp (next_clock p) = pg_fp p"
  "pg_disk (next_clock p) = pg_disk p" "pg_ww (next_clock p) = pg_ww p" "pg_log (next_clock p) = pg_log p"
  "pg_dpt (next_clock p) = pg_dpt p" "pg_mem (next_clock p) = pg_mem p" "pg_allocs (next_clock p) = pg_allocs p"
  "pg_tnxt (next_clock p) = pg_tnxt p" "pg_wal_enabled (next_clock p) = pg_wal_enabled p"
  "pg_restarting (next_clock p) = pg_restarting p" "pg_next_tid (next_clock p) = pg_next_tid p"
  "pg_clock (next_clock p) < MEMORY_PAGE_LEN"
  "pg_clock (next_clock p) = (pg_clock p + 1) mod MEMORY_PAGE_LEN"
  by (simp_all add: next_clock_def)

lemma get_frame_Some [simp]: "i < length (pg_pages p) \<Longrightarrow> get_frame p i = Some (fr p i)"
  by (simp add: get_frame_def)

section \<open>The invariant\<close>

definition pgr_rest :: "pager \<Rightarrow> file_pager \<times> txn_table \<times> wal_mem \<times> txid \<times> bool \<times> bool \<times> lsn \<times> pgno \<times> lsn \<times> pgr_allocs" where
  "pgr_rest p = (pg_fp p, pg_tnxt p, pg_mem p, pg_next_tid p, pg_restarting p, pg_wal_enabled p, pg_master_lsn p,
     pg_first_tombstone p, pg_ckpt_begin_lsn p, pg_allocs p)"

definition spare :: "pager \<Rightarrow> nat \<Rightarrow> bool" where
  \<comment> \<open>the sibling of a page that is being written\<close>
  "spare p j \<longleftrightarrow> pf_present (fr p j) \<and> pf_pin (fr p j) > 0 \<and> j \<notin> ran (ht_map (pg_ht p))"

definition cached :: "pager \<Rightarrow> pgno \<Rightarrow> nat \<Rightarrow> bool" where
  "cached p k i \<longleftrightarrow> i < MEMORY_PAGE_LEN \<and> pf_present (fr p i) \<and> pg (pf_page (fr p i)) = k \<and>
     unat k < unat (fp_npages (pg_fp p)) \<and>
     (\<not> pf_dirty (fr p i) \<longrightarrow> raw (pf_page (fr p i)) = fpgr_pages (pg_fp p, pg_disk p) ! unat k) \<and>
     (pf_wsibling (fr p i) = -1 \<or> pf_pin (fr p i) > 0 \<and> pf_dirty (fr p i) \<and>
        (\<exists>j < MEMORY_PAGE_LEN. pf_wsibling (fr p i) = int j \<and> spare p j \<and> pg (pf_page (fr p j)) = k))"

definition log_inv :: "pager \<Rightarrow> bool" where
  "log_inv p \<longleftrightarrow> wal_inv (pg_ww p) (pg_log p) \<and> no_fail (pg_log p) \<and>
     length (d_durable (pg_log p)) \<le> length (d_data (pg_log p)) \<and> pa_ckpt (pg_allocs p) \<and>
     (\<exists>mem. pa_buf (pg_allocs p) = Some mem \<and> length mem = WAL_BUFFER_CAP)"

definition dpt_dirty :: "pager \<Rightarrow> bool" where
  "dpt_dirty p \<longleftrightarrow> dpt_inv (wm_dpgs (pg_mem p)) (pg_dpt p) \<and> dpt_cap (pg_dpt p) = DPT_CAP \<and>
     (\<forall>k \<in> dom (dpt_map (wm_dpgs (pg_mem p)) (pg_dpt p)). \<exists>i. ht_map (pg_ht p) k = Some i \<and> pf_dirty (fr p i))"

definition frames_inv :: "pager \<Rightarrow> bool" where
  "frames_inv p \<longleftrightarrow> length (pg_pages p) = MEMORY_PAGE_LEN \<and> pg_clock p < MEMORY_PAGE_LEN \<and>
     ht_inv (pg_ht p) \<and> ht_cap (pg_ht p) = MEMORY_PAGE_LEN \<and>
     (\<forall>i < MEMORY_PAGE_LEN. wf_page (pf_page (fr p i))) \<and>
     (\<forall>k i. ht_map (pg_ht p) k = Some i \<longrightarrow> cached p k i) \<and>
     (\<forall>i < MEMORY_PAGE_LEN. pf_present (fr p i) \<longrightarrow> i \<in> ran (ht_map (pg_ht p)) \<or> spare p i)"

definition pool_inv :: "pager \<Rightarrow> bool" where
  "pool_inv p \<longleftrightarrow> frames_inv p \<and> fpgr_inv (pg_fp p, pg_disk p) \<and> log_inv p \<and> dpt_dirty p"

definition pgr_page :: "pager \<Rightarrow> pgno \<Rightarrow> u8 list" where
  "pgr_page p k =
     (case ht_map (pg_ht p) k of
        Some i \<Rightarrow> raw (pf_page (fr p i))
      | None \<Rightarrow> fpgr_pages (pg_fp p, pg_disk p) ! unat k)"

text \<open>The write-ahead rule: the update a page of the file was last changed by is in the durable part of the
  log, that of a page in a frame is in the log. Pages that were never changed have the position 0 of a new
  page of the file, or the one \<^verbatim>\<open>page_init_empty\<close> sets.\<close>

definition lsn_below :: "u8 list \<Rightarrow> nat \<Rightarrow> bool" where
  "lsn_below x n \<longleftrightarrow> (let l = ld x PG_PLSN_OFST :: lsn in unat l < n \<or> l = 0 \<or> l = PGNO_NULL)"

definition wal_rule :: "pager \<Rightarrow> bool" where
  "wal_rule p \<longleftrightarrow> length (d_durable (pg_log p)) \<le> length (wal_log (pg_ww p) (pg_log p)) \<and>
     (\<forall>k < unat (fp_npages (pg_fp p)). lsn_below (fpgr_pages (pg_fp p, pg_disk p) ! k) (length (d_durable (pg_log p)))) \<and>
     (\<forall>k i. ht_map (pg_ht p) k = Some i \<longrightarrow> lsn_below (raw (pf_page (fr p i))) (length (wal_log (pg_ww p) (pg_log p))))"

abbreviation file_len :: "pager \<Rightarrow> nat" where
  "file_len p \<equiv> length (d_data (pg_log p))"

definition pool_kept :: "pager \<Rightarrow> pager \<Rightarrow> bool" where
  "pool_kept p p' \<longleftrightarrow> pool_inv p' \<and> pgr_rest p' = pgr_rest p \<and>
     (\<forall>k. unat k < unat (fp_npages (pg_fp p)) \<longrightarrow> pgr_page p' k = pgr_page p k) \<and>
     (\<forall>i < MEMORY_PAGE_LEN. pf_present (fr p i) \<and> pf_pin (fr p i) > 0 \<longrightarrow>
        fr p' i = fr p i \<and> (\<forall>k. ht_map (pg_ht p') k = Some i \<longleftrightarrow> ht_map (pg_ht p) k = Some i)) \<and>
     (\<forall>i < MEMORY_PAGE_LEN. pf_present (fr p' i) \<and> pf_pin (fr p' i) > 0 \<longrightarrow> pf_present (fr p i) \<and> pf_pin (fr p i) > 0) \<and>
     map_le (ht_map (pg_ht p')) (ht_map (pg_ht p)) \<and>
     wal_log (pg_ww p') (pg_log p') = wal_log (pg_ww p) (pg_log p) \<and>
     (pg_wal_enabled p \<and> \<not> pg_restarting p \<and> wal_rule p \<longrightarrow> wal_rule p') \<and> file_len p \<le> file_len p'"

lemma pool_kept_refl: "pool_inv p \<Longrightarrow> pool_kept p p"
  by (simp add: pool_kept_def)

lemma pgr_restD:
  assumes "pgr_rest p' = pgr_rest p"
  shows "pg_fp p' = pg_fp p" "pg_tnxt p' = pg_tnxt p" "pg_mem p' = pg_mem p" "pg_next_tid p' = pg_next_tid p"
    "pg_restarting p' = pg_restarting p" "pg_wal_enabled p' = pg_wal_enabled p" "pg_allocs p' = pg_allocs p"
  using assms by (simp_all add: pgr_rest_def)

lemma pool_keptD:
  assumes "pool_kept p q"
  shows "pool_inv q" "pgr_rest q = pgr_rest p"
    "unat k < unat (fp_npages (pg_fp p)) \<Longrightarrow> pgr_page q k = pgr_page p k"
    "i < MEMORY_PAGE_LEN \<Longrightarrow> pf_present (fr p i) \<Longrightarrow> pf_pin (fr p i) > 0 \<Longrightarrow> fr q i = fr p i"
    "i < MEMORY_PAGE_LEN \<Longrightarrow> pf_present (fr p i) \<Longrightarrow> pf_pin (fr p i) > 0 \<Longrightarrow>
      ht_map (pg_ht q) k = Some i \<longleftrightarrow> ht_map (pg_ht p) k = Some i"
    "i < MEMORY_PAGE_LEN \<Longrightarrow> pf_present (fr q i) \<Longrightarrow> pf_pin (fr q i) > 0 \<Longrightarrow> pf_present (fr p i) \<and> pf_pin (fr p i) > 0"
    "wal_log (pg_ww q) (pg_log q) = wal_log (pg_ww p) (pg_log p)"
    "pg_wal_enabled p \<Longrightarrow> \<not> pg_restarting p \<Longrightarrow> wal_rule p \<Longrightarrow> wal_rule q"
    "map_le (ht_map (pg_ht q)) (ht_map (pg_ht p))" "file_len p \<le> file_len q"
  using assms unfolding pool_kept_def by blast+

lemma pool_kept_trans:
  assumes a: "pool_kept p q" and b: "pool_kept q r"
  shows "pool_kept p r"
proof -
  note A = pool_keptD [OF a] and B = pool_keptD [OF b]
  note R = pgr_restD(1,5,6) [OF A(2)]
  have "fr r i = fr p i \<and> (\<forall>k. ht_map (pg_ht r) k = Some i \<longleftrightarrow> ht_map (pg_ht p) k = Some i)"
    if i: "i < MEMORY_PAGE_LEN" "pf_present (fr p i)" "pf_pin (fr p i) > 0" for i
    using A(4,5) [OF i] B(4,5) [OF i(1)] i(2,3) by simp
  moreover have "pf_present (fr p i) \<and> pf_pin (fr p i) > 0"
    if i: "i < MEMORY_PAGE_LEN" "pf_present (fr r i)" "pf_pin (fr r i) > 0" for i
    using A(6) [OF i(1)] B(6) [OF i] by simp
  moreover have "pgr_page r k = pgr_page p k" if "unat k < unat (fp_npages (pg_fp p))" for k
    using A(3) [OF that] B(3) that unfolding R by simp
  moreover have "wal_rule r" if "pg_wal_enabled p" "\<not> pg_restarting p" "wal_rule p"
    using B(8) A(8) [OF that] that unfolding R by blast
  ultimately show ?thesis unfolding pool_kept_def B(2,7) A(2,7) 
    using B(1) map_le_trans [OF B(9) A(9)] le_trans [OF A(10) B(10)] by blast
qed

lemma frames_invD:
  assumes "frames_inv p"
  shows "length (pg_pages p) = MEMORY_PAGE_LEN" "pg_clock p < MEMORY_PAGE_LEN" "ht_inv (pg_ht p)"
    "ht_cap (pg_ht p) = MEMORY_PAGE_LEN" "i < MEMORY_PAGE_LEN \<Longrightarrow> wf_page (pf_page (fr p i))"
    "ht_map (pg_ht p) k = Some i \<Longrightarrow> cached p k i"
    "i < MEMORY_PAGE_LEN \<Longrightarrow> pf_present (fr p i) \<Longrightarrow> i \<in> ran (ht_map (pg_ht p)) \<or> spare p i"
  using assms unfolding frames_inv_def by blast+

lemma pool_invD:
  assumes "pool_inv p"
  shows "frames_inv p" "fpgr_inv (pg_fp p, pg_disk p)" "log_inv p" "dpt_dirty p"
  using assms by (simp_all add: pool_inv_def)

lemma npages_key:
  assumes "fpgr_inv (fp, d)" "unat (k :: pgno) < unat (fp_npages fp)"
  shows "unat k < 2 ^ 52"
  using fpgr.few_pages [OF assms(1)] assms(2) by simp

lemma cached_inj:
  assumes "frames_inv p" "ht_map (pg_ht p) k = Some i" "ht_map (pg_ht p) l = Some i"
  shows "k = l"
  using frames_invD(6) [OF assms(1,2)] frames_invD(6) [OF assms(1,3)] by (simp add: cached_def)

text \<open>Only the frame of a page of the table can be taken: a sibling is pinned.\<close>

lemma unpinned_cached:
  assumes inv: "frames_inv p" and i: "i < MEMORY_PAGE_LEN" "pf_present (fr p i)" "pf_pin (fr p i) = 0"
  shows "ht_map (pg_ht p) (pg (pf_page (fr p i))) = Some i" "pf_wsibling (fr p i) = -1"
proof -
  from frames_invD(7) [OF inv i(1,2)] i(3) obtain k where k: "ht_map (pg_ht p) k = Some i"
    by (auto simp: spare_def ran_def)
  with frames_invD(6) [OF inv k] i(3) show "ht_map (pg_ht p) (pg (pf_page (fr p i))) = Some i" "pf_wsibling (fr p i) = -1"
    by (auto simp: cached_def)
qed

section \<open>The log\<close>

lemma wal_log_data: "\<exists>x. wal_log w d = d_data d @ x"
  by (auto simp: wal_log_def wf_log_def wos_log_def split: option.split)

lemma pgr_append_ok:
  assumes "log_inv p" and ok: "rec_ok (pg_mem p) r"
    and room: "length (wal_log (pg_ww p) (pg_log p)) + length (rec_image (pg_mem p) r) < 2 ^ 63"
  shows "\<exists>w d. pgr_append p r = Some (Inr (of_nat (length (wal_log (pg_ww p) (pg_log p)))), p\<lparr>pg_ww := w, pg_log := d\<rparr>) \<and>
    log_inv (p\<lparr>pg_ww := w, pg_log := d\<rparr>) \<and> wal_log w d = wal_log (pg_ww p) (pg_log p) @ rec_image (pg_mem p) r \<and>
    length (d_durable (pg_log p)) \<le> length (d_durable d) \<and> grows (pg_log p) d"
proof -
  from assms(1) obtain mem where mem: "pa_buf (pg_allocs p) = Some mem" "length mem = WAL_BUFFER_CAP"
    and l: "wal_inv (pg_ww p) (pg_log p)" "no_fail (pg_log p)" "pa_ckpt (pg_allocs p)"
      "length (d_durable (pg_log p)) \<le> length (d_data (pg_log p))" by (auto simp: log_inv_def)
  have "length (wal_log (pg_ww p) (pg_log p)) + length (rec_image (pg_mem p) r) < 9223372036854775808" using room by simp
  from wal_append_log_no_fail [OF l(1,2) mem(2) ok this] obtain w d where
    w: "wal_append_log (Some mem, True) (pg_mem p) (pg_ww p) (pg_log p) r =
        Some (Inr (of_nat (length (wal_log (pg_ww p) (pg_log p)))), w, d)"
      "wal_inv w d" "no_fail d" "wal_log w d = wal_log (pg_ww p) (pg_log p) @ rec_image (pg_mem p) r" "grows (pg_log p) d" by blast
  from grows_durable [OF w(5) l(4)] w mem l(3) show ?thesis
    by (intro exI [of _ w] exI [of _ d]) (simp add: pgr_append_def log_inv_def)
qed

section \<open>Eviction\<close>

lemma pgr_wal_flush_ok:
  assumes "log_inv p"
  shows "\<exists>w d. pgr_wal_flush p = Some (Inr (), p\<lparr>pg_ww := w, pg_log := d\<rparr>) \<and> log_inv (p\<lparr>pg_ww := w, pg_log := d\<rparr>) \<and>
    wal_log w d = wal_log (pg_ww p) (pg_log p) \<and> d_durable d = wal_log (pg_ww p) (pg_log p) \<and>
    d_data d = wal_log (pg_ww p) (pg_log p)"
proof -
  from assms obtain mem where mem: "pa_buf (pg_allocs p) = Some mem" "length mem = WAL_BUFFER_CAP"
    and l: "wal_inv (pg_ww p) (pg_log p)" "no_fail (pg_log p)" "pa_ckpt (pg_allocs p)" by (auto simp: log_inv_def)
  from wal_flush_all_no_fail [OF l(1,2) mem(2)] obtain w d where
    "wal_flush_all (Some mem) (pg_ww p) (pg_log p) = Some (Inr (), w, d)" "wal_inv w d" "no_fail d"
    "wal_log w d = wal_log (pg_ww p) (pg_log p)" "d_data d = wal_log (pg_ww p) (pg_log p)"
    "d_durable d = wal_log (pg_ww p) (pg_log p)" by blast
  with mem l(3) show ?thesis by (intro exI [of _ w] exI [of _ d]) (simp add: pgr_wal_flush_def log_inv_def)
qed

text \<open>What an eviction does: the page is in the file, out of the hash table and of the table of dirty
  pages, and its frame is free. A log that is in use is flushed before a dirty page is written.\<close>

definition evicted :: "pager \<Rightarrow> nat \<Rightarrow> pager \<Rightarrow> bool" where
  "evicted p i q \<longleftrightarrow> (let f = fr p i; k = pg (pf_page f) in
     pgr_rest q = pgr_rest p \<and> pg_clock q = pg_clock p \<and>
     pg_pages q = (pg_pages p)[i := pf_clr (f\<lparr>pf_flags := 0\<rparr>) PW_PRESENT] \<and>
     ht_inv (pg_ht q) \<and> ht_cap (pg_ht q) = MEMORY_PAGE_LEN \<and> ht_map (pg_ht q) = (ht_map (pg_ht p))(k := None) \<and>
     fpgr_inv (pg_fp p, pg_disk q) \<and> fpgr_pages (pg_fp p, pg_disk q) = (fpgr_pages (pg_fp p, pg_disk p))[unat k := raw (pf_page f)] \<and>
     dpt_inv (wm_dpgs (pg_mem p)) (pg_dpt q) \<and> dpt_cap (pg_dpt q) = DPT_CAP \<and>
     dpt_map (wm_dpgs (pg_mem p)) (pg_dpt q) = (dpt_map (wm_dpgs (pg_mem p)) (pg_dpt p))(k := None) \<and>
     log_inv q \<and> wal_log (pg_ww q) (pg_log q) = wal_log (pg_ww p) (pg_log p) \<and>
     (if pf_dirty f \<and> pg_wal_enabled p \<and> \<not> pg_restarting p
      then d_durable (pg_log q) = wal_log (pg_ww p) (pg_log p) \<and> d_data (pg_log q) = wal_log (pg_ww p) (pg_log p)
      else pg_log q = pg_log p))"

lemma pgr_write_back_ok:
  assumes inv: "pool_inv p" and i: "ht_map (pg_ht p) k = Some i"
  shows "\<exists>w d dd t. pgr_write_back p i (fr p i) =
      Some (Inr (), p\<lparr>pg_ww := w, pg_log := d, pg_disk := dd, pg_pages := (pg_pages p)[i := pf_clr (fr p i) PW_DIRTY], pg_dpt := t\<rparr>) \<and>
    log_inv (p\<lparr>pg_ww := w, pg_log := d\<rparr>) \<and> wal_log w d = wal_log (pg_ww p) (pg_log p) \<and>
    (if pg_wal_enabled p \<and> \<not> pg_restarting p
     then d_durable d = wal_log (pg_ww p) (pg_log p) \<and> d_data d = wal_log (pg_ww p) (pg_log p) else d = pg_log p) \<and>
    fpgr_inv (pg_fp p, dd) \<and> fpgr_pages (pg_fp p, dd) = (fpgr_pages (pg_fp p, pg_disk p))[unat k := raw (pf_page (fr p i))] \<and>
    dpt_inv (wm_dpgs (pg_mem p)) t \<and> dpt_cap t = DPT_CAP \<and>
    dpt_map (wm_dpgs (pg_mem p)) t = (dpt_map (wm_dpgs (pg_mem p)) (pg_dpt p))(k := None)"
proof -
  note I = pool_invD [OF inv]
  have c: "cached p k i" using frames_invD(6) [OF I(1) i] .
  then have k: "pg (pf_page (fr p i)) = k" "unat k < unat (fp_npages (pg_fp p))" "i < MEMORY_PAGE_LEN"
    by (simp_all add: cached_def)
  have len: "length (raw (pf_page (fr p i))) = PAGE_SIZE"
    using frames_invD(5) [OF I(1) k(3)] by (simp add: wf_page_def)
  let ?flush = "if pg_wal_enabled p \<and> \<not> pg_restarting p then pgr_wal_flush p else Some (Inr (), p)"
  obtain w d where fl: "?flush = Some (Inr (), p\<lparr>pg_ww := w, pg_log := d\<rparr>)" "log_inv (p\<lparr>pg_ww := w, pg_log := d\<rparr>)"
    "wal_log w d = wal_log (pg_ww p) (pg_log p)"
    "if pg_wal_enabled p \<and> \<not> pg_restarting p
     then d_durable d = wal_log (pg_ww p) (pg_log p) \<and> d_data d = wal_log (pg_ww p) (pg_log p) else d = pg_log p"
  proof (cases "pg_wal_enabled p \<and> \<not> pg_restarting p")
    case True
    with pgr_wal_flush_ok [OF I(3)] that show ?thesis by auto
  next
    case False
    with I(3) that [of "pg_log p" "pg_ww p"] show ?thesis by auto
  qed
  from fpgr_write_page [OF I(2) len k(2)] obtain dd where
    wr: "fpgr_write (pg_fp p) (pg_disk p) (raw (pf_page (fr p i))) k = Some (Inr (), dd)" "fpgr_inv (pg_fp p, dd)"
      "fpgr_pages (pg_fp p, dd) = (fpgr_pages (pg_fp p, pg_disk p))[unat k := raw (pf_page (fr p i))]" by blast
  have dp: "dpt_inv (wm_dpgs (pg_mem p)) (pg_dpt p)" "dpt_cap (pg_dpt p) = DPT_CAP" using I(4) by (simp_all add: dpt_dirty_def)
  have "dpt_key (pg_dpt p) k"
    using npages_key [OF I(2) k(2)] dp(2) by (simp add: dpt_key_def DPT_CAP_def)
  from dpgt_remove_correct [OF dp(1) this] obtain t where
    t: "dpgt_remove (pg_dpt p) k = Some (dpt_map (wm_dpgs (pg_mem p)) (pg_dpt p) k \<noteq> None, t)"
      "dpt_inv (wm_dpgs (pg_mem p)) t" "dpt_map (wm_dpgs (pg_mem p)) t = (dpt_map (wm_dpgs (pg_mem p)) (pg_dpt p))(k := None)"
      "dpt_cap t = DPT_CAP" using dp(2) by auto
  have "pgr_write_back p i (fr p i) =
      Some (Inr (), p\<lparr>pg_ww := w, pg_log := d, pg_disk := dd, pg_pages := (pg_pages p)[i := pf_clr (fr p i) PW_DIRTY], pg_dpt := t\<rparr>)"
    unfolding pgr_write_back_def fl(1) by (simp add: k(1) wr(1) t(1) pgr_file_write_def put_frame_def)
  with fl(2-4) wr(2,3) t(2-4) show ?thesis by blast
qed

lemma pgr_evict_ok:
  assumes inv: "pool_inv p" and i: "i < MEMORY_PAGE_LEN" "pf_present (fr p i)" "pf_pin (fr p i) = 0"
  shows "\<exists>q. pgr_evict p i = Some (Inr (), q) \<and> evicted p i q"
proof -
  note I = pool_invD [OF inv] and F = frames_invD [OF pool_invD(1) [OF inv]]
  let ?k = "pg (pf_page (fr p i))"
  note u = unpinned_cached [OF I(1) i]
  have c: "cached p ?k i" using F(6) [OF u(1)] .
  then have k: "unat ?k < unat (fp_npages (pg_fp p))" by (simp add: cached_def)
  have kb: "unat ?k + ht_cap (pg_ht p) < 2 ^ 64" using npages_key [OF I(2) k] F(4) by simp
  from ht_delete_correct(2) [OF F(3) kb u(1)] obtain ht where
    ht: "ht_delete (pg_ht p) ?k = Some (HTAR_SUCCESS, Some \<lparr>hkey = ?k, hvalue = i\<rparr>, ht)" "ht_inv ht"
      "ht_cap ht = MEMORY_PAGE_LEN" "ht_map ht = (ht_map (pg_ht p))(?k := None)" using F(4) by auto
  then have del: "ht_delete_expect (pg_ht p) ?k = Some (\<lparr>hkey = ?k, hvalue = i\<rparr>, ht)"
    by (simp add: ht_delete_expect_def)
  let ?f = "pf_clr ((fr p i)\<lparr>pf_flags := 0\<rparr>) PW_PRESENT"
  have pre: "pgr_evict p i = err_wrap (if pf_dirty (fr p i) then pgr_write_back p i (fr p i) else Some (Inr (), p)) (\<lambda>_ q. do {
       (_, ht) \<leftarrow> ht_delete_expect (pg_ht q) ?k;
       Some (Inr (), put_frame (q\<lparr>pg_ht := ht\<rparr>) i ?f) })"
    using F(1,2) i u(2) by (simp add: pgr_evict_def pager_assert_def)
  have dp: "dpt_inv (wm_dpgs (pg_mem p)) (pg_dpt p)" "dpt_cap (pg_dpt p) = DPT_CAP" using I(4) by (simp_all add: dpt_dirty_def)
  show ?thesis
  proof (cases "pf_dirty (fr p i)")
    case True
    from pgr_write_back_ok [OF inv u(1)] obtain w d dd t where
      wb: "pgr_write_back p i (fr p i) =
        Some (Inr (), p\<lparr>pg_ww := w, pg_log := d, pg_disk := dd, pg_pages := (pg_pages p)[i := pf_clr (fr p i) PW_DIRTY], pg_dpt := t\<rparr>)"
      and e: "log_inv (p\<lparr>pg_ww := w, pg_log := d\<rparr>)" "wal_log w d = wal_log (pg_ww p) (pg_log p)"
        "if pg_wal_enabled p \<and> \<not> pg_restarting p
         then d_durable d = wal_log (pg_ww p) (pg_log p) \<and> d_data d = wal_log (pg_ww p) (pg_log p) else d = pg_log p"
        "fpgr_inv (pg_fp p, dd)" "fpgr_pages (pg_fp p, dd) = (fpgr_pages (pg_fp p, pg_disk p))[unat ?k := raw (pf_page (fr p i))]"
        "dpt_inv (wm_dpgs (pg_mem p)) t" "dpt_cap t = DPT_CAP"
        "dpt_map (wm_dpgs (pg_mem p)) t = (dpt_map (wm_dpgs (pg_mem p)) (pg_dpt p))(?k := None)" by blast
    let ?q = "p\<lparr>pg_ww := w, pg_log := d, pg_disk := dd, pg_dpt := t, pg_ht := ht, pg_pages := (pg_pages p)[i := ?f]\<rparr>"
    have "pgr_evict p i = Some (Inr (), ?q)" unfolding pre using True by (simp add: wb del put_frame_def)
    moreover have "evicted p i ?q"
      using e ht(2-4) True by (simp add: evicted_def Let_def pgr_rest_def log_inv_def)
    ultimately show ?thesis by blast
  next
    case False
    let ?q = "p\<lparr>pg_ht := ht, pg_pages := (pg_pages p)[i := ?f]\<rparr>"
    have "raw (pf_page (fr p i)) = fpgr_pages (pg_fp p, pg_disk p) ! unat ?k" using c False by (simp add: cached_def)
    then have pages: "fpgr_pages (pg_fp p, pg_disk p) = (fpgr_pages (pg_fp p, pg_disk p))[unat ?k := raw (pf_page (fr p i))]"
      by simp
    have "dpt_map (wm_dpgs (pg_mem p)) (pg_dpt p) ?k = None"
      using I(4) False u(1) unfolding dpt_dirty_def by (metis domIff option.inject)
    then have dm: "dpt_map (wm_dpgs (pg_mem p)) (pg_dpt p) = (dpt_map (wm_dpgs (pg_mem p)) (pg_dpt p))(?k := None)" by auto
    have "pgr_evict p i = Some (Inr (), ?q)" unfolding pre using False by (simp add: del put_frame_def)
    moreover have "evicted p i ?q"
      using I(2,3) dp ht(2-4) False pages dm by (simp add: evicted_def Let_def pgr_rest_def log_inv_def del: nth_fpgr_pages)
    ultimately show ?thesis by blast
  qed
qed

lemma lsn_below_mono: "lsn_below x m \<Longrightarrow> m \<le> n \<Longrightarrow> lsn_below x n"
  by (auto simp: lsn_below_def Let_def)

lemma evicted_kept:
  assumes inv: "pool_inv p" and i: "i < MEMORY_PAGE_LEN" "pf_present (fr p i)" "pf_pin (fr p i) = 0"
    and ev: "evicted p i q"
  shows "pool_kept p q" "\<not> pf_present (fr q i)" "j \<noteq> i \<Longrightarrow> fr q j = fr p j"
proof -
  note I = pool_invD [OF inv] and F = frames_invD [OF pool_invD(1) [OF inv]]
  let ?f = "pf_clr ((fr p i)\<lparr>pf_flags := 0\<rparr>) PW_PRESENT"
  define k where "k = pg (pf_page (fr p i))"
  note u = unpinned_cached(1) [OF I(1) i, folded k_def]
  have c: "cached p k i" using F(6) [OF u] .
  then have kn: "unat k < unat (fp_npages (pg_fp p))" by (simp add: cached_def)
  from ev have E: "pgr_rest q = pgr_rest p" "pg_clock q = pg_clock p" "pg_pages q = (pg_pages p)[i := ?f]"
    "ht_inv (pg_ht q)" "ht_cap (pg_ht q) = MEMORY_PAGE_LEN" "ht_map (pg_ht q) = (ht_map (pg_ht p))(k := None)"
    "fpgr_inv (pg_fp p, pg_disk q)"
    "fpgr_pages (pg_fp p, pg_disk q) = (fpgr_pages (pg_fp p, pg_disk p))[unat k := raw (pf_page (fr p i))]"
    "dpt_inv (wm_dpgs (pg_mem p)) (pg_dpt q)" "dpt_cap (pg_dpt q) = DPT_CAP"
    "dpt_map (wm_dpgs (pg_mem p)) (pg_dpt q) = (dpt_map (wm_dpgs (pg_mem p)) (pg_dpt p))(k := None)"
    "log_inv q" "wal_log (pg_ww q) (pg_log q) = wal_log (pg_ww p) (pg_log p)"
    "if pf_dirty (fr p i) \<and> pg_wal_enabled p \<and> \<not> pg_restarting p
      then d_durable (pg_log q) = wal_log (pg_ww p) (pg_log p) \<and> d_data (pg_log q) = wal_log (pg_ww p) (pg_log p)
      else pg_log q = pg_log p"
    by (simp_all add: evicted_def Let_def k_def)
  note R = pgr_restD [OF E(1)]
  have other: "fr q j = fr p j" if "j \<noteq> i" for j using that by (simp add: E(3))
  then show "j \<noteq> i \<Longrightarrow> fr q j = fr p j" .
  have fi: "fr q i = ?f" using i(1) F(1) by (simp add: E(3))
  then show gone: "\<not> pf_present (fr q i)" by (simp add: frame)
  have htD: "ht_map (pg_ht q) l = Some j \<longleftrightarrow> l \<noteq> k \<and> ht_map (pg_ht p) l = Some j" for l j by (simp add: E(6))
  have ne: "j \<noteq> i" if "ht_map (pg_ht q) l = Some j" for l j
    using that cached_inj [OF I(1) u] by (auto simp: htD)
  have ran: "j \<in> ran (ht_map (pg_ht q)) \<longleftrightarrow> j \<in> ran (ht_map (pg_ht p)) \<and> j \<noteq> i" for j
    using ne u unfolding ran_def mem_Collect_eq htD by (metis option.inject)
  have spi: "j \<noteq> i" if "spare p j" for j using that u by (auto simp: spare_def intro: ranI)
  have sp: "spare q j" if "spare p j" for j
    using that other [OF spi [OF that]] ran [of j] by (simp add: spare_def)
  have pages: "fpgr_pages (pg_fp q, pg_disk q) ! unat l = fpgr_pages (pg_fp p, pg_disk p) ! unat l"
    if "l \<noteq> k" for l using that by (simp add: R(1) E(8) word_unat_eq_iff [of l k])
  have "cached q l j" if l: "ht_map (pg_ht q) l = Some j" for l j
  proof -
    from l have l': "l \<noteq> k" "ht_map (pg_ht p) l = Some j" by (simp_all add: htD)
    show ?thesis using F(6) [OF l'(2)] other [OF ne [OF l]] pages [OF l'(1)] sp spi other
      unfolding cached_def R(1) by metis
  qed
  moreover have "j \<in> ran (ht_map (pg_ht q)) \<or> spare q j" if "j < MEMORY_PAGE_LEN" "pf_present (fr q j)" for j
  proof -
    have "j \<noteq> i" using that(2) gone by auto
    with that F(7) [of j] other [of j] sp [of j] ran [of j] show ?thesis by auto
  qed
  moreover have "wf_page (pf_page (fr q j))" if "j < MEMORY_PAGE_LEN" for j
    using F(5) [OF that] other [of j] fi by (cases "j = i") (simp_all add: frame)
  moreover have "length (pg_pages q) = MEMORY_PAGE_LEN" using F(1) by (simp add: E(3))
  ultimately have fq: "frames_inv q"
    using F(2) E(2,4,5) unfolding frames_inv_def by simp
  have "dpt_dirty q"
  proof -
    have "\<exists>j. ht_map (pg_ht q) l = Some j \<and> pf_dirty (fr q j)"
      if "l \<in> dom (dpt_map (wm_dpgs (pg_mem q)) (pg_dpt q))" for l
    proof -
      from that have l: "l \<noteq> k" "l \<in> dom (dpt_map (wm_dpgs (pg_mem p)) (pg_dpt p))"
        by (auto simp: R(3) E(11) dom_def split: if_splits simp del: dom_dpt_map)
      with I(4) obtain j where j: "ht_map (pg_ht p) l = Some j" "pf_dirty (fr p j)" unfolding dpt_dirty_def by blast
      with l(1) have "ht_map (pg_ht q) l = Some j" by (simp add: htD)
      with j other [OF ne [OF this]] show ?thesis by auto
    qed
    with E(9,10) show ?thesis by (simp add: dpt_dirty_def R(3) del: dom_dpt_map)
  qed
  with fq E(7,12) have iq: "pool_inv q" by (simp add: pool_inv_def R(1))
  have view: "pgr_page q l = pgr_page p l" if "unat l < unat (fp_npages (pg_fp p))" for l
  proof (cases "l = k")
    case True
    with kn u show ?thesis by (simp add: pgr_page_def R(1) E(6,8) del: nth_fpgr_pages)
  next
    case False
    show ?thesis
    proof (cases "ht_map (pg_ht p) l")
      case None
      with False show ?thesis by (simp add: pgr_page_def E(6) pages [OF False] del: nth_fpgr_pages)
    next
      case (Some j)
      with False have "ht_map (pg_ht q) l = Some j" by (simp add: htD)
      with Some other [OF ne [OF this]] show ?thesis by (simp add: pgr_page_def)
    qed
  qed
  have pinned: "fr q j = fr p j \<and> (\<forall>l. ht_map (pg_ht q) l = Some j \<longleftrightarrow> ht_map (pg_ht p) l = Some j)"
    if "pf_pin (fr p j) > 0" for j
  proof -
    have j: "j \<noteq> i" using that i(3) by auto
    then have "ht_map (pg_ht p) k \<noteq> Some j" using u by simp
    with other [OF j] show ?thesis by (auto simp: htD)
  qed
  have "wal_rule q" if w: "pg_wal_enabled p" "\<not> pg_restarting p" "wal_rule p"
  proof -
    let ?n = "length (d_durable (pg_log q))"
    let ?m = "length (wal_log (pg_ww p) (pg_log p))"
    have n: "length (d_durable (pg_log p)) \<le> ?n" "?n \<le> ?m"
      using w E(14) by (auto simp: wal_rule_def split: if_splits)
    have "lsn_below (fpgr_pages (pg_fp q, pg_disk q) ! l) ?n" if l: "l < unat (fp_npages (pg_fp q))" for l
    proof (cases "l = unat k \<and> pf_dirty (fr p i)")
      case True
      then have "?n = ?m" using w E(14) by simp
      moreover have "lsn_below (raw (pf_page (fr p i))) ?m" using w(3) u by (auto simp: wal_rule_def)
      ultimately show ?thesis using True kn by (simp add: R(1) E(8) del: nth_fpgr_pages)
    next
      case False
      have "fpgr_pages (pg_fp q, pg_disk q) ! l = fpgr_pages (pg_fp p, pg_disk p) ! l"
      proof (cases "l = unat k")
        case True
        with False have "\<not> pf_dirty (fr p i)" by simp
        with c True kn show ?thesis by (simp add: R(1) E(8) cached_def del: nth_fpgr_pages)
      qed (simp add: R(1) E(8) del: nth_fpgr_pages)
      with w(3) l n(1) show ?thesis unfolding wal_rule_def R(1) by (metis lsn_below_mono)
    qed
    moreover have "lsn_below (raw (pf_page (fr q j))) ?m" if "ht_map (pg_ht q) l = Some j" for l j
      using that w(3) other [OF ne [OF that]] by (auto simp: wal_rule_def htD)
    ultimately show ?thesis using n(2) by (simp add: wal_rule_def E(13) del: nth_fpgr_pages)
  qed
  moreover have "pf_present (fr p j) \<and> pf_pin (fr p j) > 0" if "pf_present (fr q j)" "pf_pin (fr q j) > 0" for j
  proof -
    have "j \<noteq> i" using that(1) gone by auto
    from other [OF this] that show ?thesis by simp
  qed
  moreover have "map_le (ht_map (pg_ht q)) (ht_map (pg_ht p))" by (simp add: E(6) map_le_def)
  moreover have "file_len p \<le> file_len q"
    using E(14) wal_log_data [of "pg_ww p" "pg_log p"] by (auto split: if_splits)
  ultimately show "pool_kept p q" unfolding pool_kept_def using iq E(1,13) view pinned by blast
qed

section \<open>The clock finds a frame\<close>

text \<open>Moving the clock, and clearing the access bit of a frame nobody has pinned.\<close>

lemma pool_kept_clock:
  assumes "pool_inv p" "c < MEMORY_PAGE_LEN"
  shows "pool_kept p (p\<lparr>pg_clock := c\<rparr>)"
proof -
  let ?q = "p\<lparr>pg_clock := c\<rparr>"
  have [simp]: "spare ?q j = spare p j" "cached ?q k i = cached p k i" "pgr_page ?q k = pgr_page p k"
    "log_inv ?q = log_inv p" "dpt_dirty ?q = dpt_dirty p" "wal_rule ?q = wal_rule p" for j k i
    by (simp_all add: spare_def cached_def pgr_page_def log_inv_def dpt_dirty_def wal_rule_def split: option.split)
  from assms show ?thesis by (simp add: pool_kept_def pool_inv_def frames_inv_def pgr_rest_def)
qed

lemma pool_kept_next_clock: "pool_inv p \<Longrightarrow> pool_kept p (next_clock p)"
  unfolding next_clock_def by (rule pool_kept_clock) simp_all

definition same_frame :: "page_frame \<Rightarrow> page_frame \<Rightarrow> bool" where
  \<comment> \<open>the same but for the access bit\<close>
  "same_frame f g \<longleftrightarrow> pf_page f = pf_page g \<and> pf_pin f = pf_pin g \<and> pf_wsibling f = pf_wsibling g \<and>
     pf_present f = pf_present g \<and> pf_dirty f = pf_dirty g"

lemma pool_kept_touch:
  assumes inv: "pool_inv p" and i: "i < MEMORY_PAGE_LEN" "pf_pin (fr p i) = 0" and f: "same_frame f (fr p i)"
  shows "pool_kept p (put_frame p i f)"
proof -
  let ?q = "put_frame p i f"
  note F = frames_invD [OF pool_invD(1) [OF inv]]
  have same: "same_frame (fr ?q j) (fr p j)" for j
    using f i(1) F(1) by (cases "j = i") (simp_all add: same_frame_def)
  have [simp]: "pf_page (fr ?q j) = pf_page (fr p j)" "pf_pin (fr ?q j) = pf_pin (fr p j)"
    "pf_wsibling (fr ?q j) = pf_wsibling (fr p j)" "pf_present (fr ?q j) = pf_present (fr p j)"
    "pf_dirty (fr ?q j) = pf_dirty (fr p j)" for j
    using same [of j] by (simp_all only: same_frame_def)
  have [simp]: "spare ?q j = spare p j" "cached ?q k j = cached p k j" "pgr_page ?q k = pgr_page p k"
    "log_inv ?q = log_inv p" "dpt_dirty ?q = dpt_dirty p" "wal_rule ?q = wal_rule p" for j k
    unfolding spare_def cached_def pgr_page_def log_inv_def dpt_dirty_def wal_rule_def
    by (simp_all del: put_frame_fields(15) split: option.split)
  have "pool_inv ?q"
    using inv unfolding pool_inv_def frames_inv_def by (simp del: put_frame_fields(15))
  moreover have "fr ?q j = fr p j" if "pf_pin (fr p j) > 0" for j
    using that i by (cases "j = i") simp_all
  moreover have "pgr_rest ?q = pgr_rest p" by (simp add: pgr_rest_def put_frame_def)
  ultimately show ?thesis unfolding pool_kept_def by (simp del: put_frame_fields(15))
qed

text \<open>A frame can be taken when it is empty or nobody has pinned it; the clock reaches it within two rounds,
  the first of which may have to clear its access bit.\<close>

definition frame_free :: "pager \<Rightarrow> nat \<Rightarrow> bool" where
  "frame_free p i \<longleftrightarrow> i < MEMORY_PAGE_LEN \<and> (\<not> pf_present (fr p i) \<or> pf_pin (fr p i) = 0)"

definition clock_dist :: "nat \<Rightarrow> nat \<Rightarrow> nat" where
  "clock_dist c i = (i + MEMORY_PAGE_LEN - c) mod MEMORY_PAGE_LEN"

lemma clock_dist_next:
  assumes "c < MEMORY_PAGE_LEN" "i < MEMORY_PAGE_LEN"
  shows "clock_dist ((c + 1) mod MEMORY_PAGE_LEN) i = (if c = i then 99 else clock_dist c i - 1)"
    "c \<noteq> i \<Longrightarrow> 0 < clock_dist c i" "clock_dist c i < MEMORY_PAGE_LEN"
proof -
  have d: "clock_dist c i = (if c \<le> i then i - c else i + 100 - c)" if "c < 100" for c
    using that assms(2) by (simp add: clock_dist_def le_mod_geq)
  show "0 < clock_dist c i" if "c \<noteq> i" using that assms by (simp add: d)
  show "clock_dist c i < MEMORY_PAGE_LEN" using assms by (auto simp: d)
  show "clock_dist ((c + 1) mod MEMORY_PAGE_LEN) i = (if c = i then 99 else clock_dist c i - 1)"
  proof (cases "c = 99")
    case True
    then show ?thesis using assms by (simp add: d)
  next
    case False
    with assms(1) have "(c + 1) mod MEMORY_PAGE_LEN = c + 1" "c + 1 < 100" by simp_all
    then show ?thesis using assms by (auto simp: d)
  qed
qed

lemma pgr_reserve_loop_ok:
  "pool_inv p \<Longrightarrow> frame_free p i \<Longrightarrow>
   n > clock_dist (pg_clock p) i + (if pf_check (fr p i) PW_ACCESS then 100 else 0) \<Longrightarrow>
   \<exists>q. pgr_reserve_loop n p = Some (Inr (), q) \<and> pool_kept p q \<and> \<not> pf_present (fr q (pg_clock q))"
proof (induction n arbitrary: p)
  case 0
  then show ?case by simp
next
  case (Suc n)
  note F = frames_invD [OF pool_invD(1) [OF Suc.prems(1)]]
  let ?c = "pg_clock p"
  let ?mp = "fr p ?c"
  from Suc.prems(2) have i: "i < MEMORY_PAGE_LEN" by (simp add: frame_free_def)
  note D = clock_dist_next [OF F(2) i]
  have step: "pgr_reserve_loop (Suc n) p =
     (if \<not> pf_present ?mp then Some (Inr (), p)
      else if pf_pin ?mp > 0 then pgr_reserve_loop n (next_clock p)
      else if pf_check ?mp PW_ACCESS then pgr_reserve_loop n (next_clock (put_frame p ?c (pf_clr ?mp PW_ACCESS)))
      else pgr_evict p ?c)"
    using F(1,2) by simp
  have go: ?case if q: "pool_kept p q" "fr q i = fr p i \<or> ?c = i \<and> same_frame (fr q i) (fr p i) \<and> \<not> pf_check (fr q i) PW_ACCESS"
      "pgr_reserve_loop (Suc n) p = pgr_reserve_loop n (next_clock q)" "pg_clock q = ?c" "?c = i \<longrightarrow> pf_check (fr p i) PW_ACCESS"
      "?c = i \<longrightarrow> \<not> pf_check (fr q i) PW_ACCESS" for q
  proof -
    have iq: "pool_inv q" using q(1) by (simp add: pool_kept_def)
    note k = pool_kept_next_clock [OF iq]
    have "pool_inv (next_clock q)" using k by (simp add: pool_kept_def)
    moreover have "frame_free (next_clock q) i"
      using Suc.prems(2) q(2) by (auto simp: frame_free_def same_frame_def)
    moreover have "n > clock_dist (pg_clock (next_clock q)) i + (if pf_check (fr (next_clock q) i) PW_ACCESS then 100 else 0)"
      using Suc.prems(3) q(2,5,6) D by (auto simp: q(4) split: if_splits)
    ultimately obtain r where "pgr_reserve_loop n (next_clock q) = Some (Inr (), r)" "pool_kept (next_clock q) r"
      "\<not> pf_present (fr r (pg_clock r))" using Suc.IH by blast
    with q(1,3) k pool_kept_trans show ?thesis by metis
  qed
  consider "\<not> pf_present ?mp" | "pf_present ?mp" "pf_pin ?mp > 0"
    | "pf_present ?mp" "pf_pin ?mp = 0" "pf_check ?mp PW_ACCESS"
    | "pf_present ?mp" "pf_pin ?mp = 0" "\<not> pf_check ?mp PW_ACCESS" by auto
  then show ?case
  proof cases
    case 1
    then show ?thesis using pool_kept_refl [OF Suc.prems(1)] by (simp add: step del: pgr_reserve_loop.simps)
  next
    case 2
    then have "?c \<noteq> i" using Suc.prems(2) by (auto simp: frame_free_def)
    with 2 show ?thesis by (intro go [of p]) (simp_all add: step pool_kept_refl Suc.prems(1) del: pgr_reserve_loop.simps)
  next
    case 3
    let ?f = "pf_clr ?mp PW_ACCESS"
    have f: "same_frame ?f ?mp" by (simp add: same_frame_def frame)
    show ?thesis
      by (rule go [of "put_frame p ?c ?f"])
        (use 3 f F(1,2) pool_kept_touch [OF Suc.prems(1) F(2) 3(2) f] in
          \<open>auto simp: step frame nth_list_update simp del: pgr_reserve_loop.simps\<close>)
  next
    case 4
    from pgr_evict_ok [OF Suc.prems(1) F(2) 4(1,2)] obtain q where
      q: "pgr_evict p ?c = Some (Inr (), q)" "evicted p ?c q" by blast
    have "pg_clock q = ?c" using q(2) by (simp add: evicted_def Let_def)
    with q evicted_kept [OF Suc.prems(1) F(2) 4(1,2) q(2)] 4 show ?thesis
      by (simp add: step del: pgr_reserve_loop.simps)
  qed
qed

lemma pgr_reserve_ok:
  assumes inv: "pool_inv p" and i: "frame_free p i"
  shows "\<exists>q. pgr_reserve_at_clock p = Some (Inr (), q) \<and> pool_kept p q \<and> \<not> pf_present (fr q (pg_clock q)) \<and>
    pg_clock q < MEMORY_PAGE_LEN"
proof -
  note F = frames_invD [OF pool_invD(1) [OF inv]]
  have "i < MEMORY_PAGE_LEN" using i by (simp add: frame_free_def)
  from clock_dist_next(3) [OF F(2) this]
  have "2 * MEMORY_PAGE_LEN > clock_dist (pg_clock p) i + (if pf_check (fr p i) PW_ACCESS then 100 else 0)" by simp
  from pgr_reserve_loop_ok [OF inv i this] obtain q where
    q: "pgr_reserve_loop (2 * MEMORY_PAGE_LEN) p = Some (Inr (), q)" "pool_kept p q" "\<not> pf_present (fr q (pg_clock q))" by blast
  from q(2) have "frames_inv q" by (simp add: pool_kept_def pool_inv_def)
  note Fq = frames_invD [OF this]
  have "pgr_reserve_at_clock p = Some (Inr (), q)"
    using F(2) Fq(1,2) q(3) unfolding pgr_reserve_at_clock_def pager_assert_def q(1) by simp
  with q Fq(2) show ?thesis by blast
qed

end
