(* ===== verification/Pager_Access.thy ===== *)
theory Pager_Access
  imports Pager_Pool
begin

text \<open>
  Accesses to pages through handles: what getting, writing, saving and releasing a page do to the pages
  that clients see (\<open>pgr_page\<close>), to the log and to the handles of others.

  \<open>holds_s\<close> and \<open>holds_x\<close> say that a handle holds a page, to read it or to write it; \<open>others_kept\<close> that
  no pinned frame but those of the handle in question has changed.
\<close>

section \<open>Validation reads the type and what is behind the header\<close>

lemma page_validate_cong:
  assumes rest: "\<And>ofst n. 13 \<le> ofst \<Longrightarrow> slice (raw x) ofst n = slice (raw y) ofst n"
    and type: "slice (raw x) 4 1 = slice (raw y) 4 1" and size: "length (raw x) = length (raw y)"
  shows "page_validate_for_db x flags = page_validate_for_db y flags"
proof -
  have g: "(page_get x ofst :: 'a::len word) = page_get y ofst" if "13 \<le> ofst" for ofst
    using rest [OF that] by (simp add: page_get_def ld_def)
  have t: "page_get_type x = page_get_type y" using type by (simp add: page_get_type_def page_get_def ld_def)
  have g8: "(page_get x ofst :: u8) = page_get y ofst" if "13 \<le> ofst" for ofst using rest [OF that] by (simp add: page_get_def ld_def)
  have g16: "(page_get x ofst :: u16) = page_get y ofst" if "13 \<le> ofst" for ofst using rest [OF that] by (simp add: page_get_def ld_def)
  have g32: "(page_get x ofst :: u32) = page_get y ofst" if "13 \<le> ofst" for ofst using rest [OF that] by (simp add: page_get_def ld_def)
  have g64: "(page_get x ofst :: u64) = page_get y ofst" if "13 \<le> ofst" for ofst using rest [OF that] by (simp add: page_get_def ld_def)
  have len: "in_get_len x = in_get_len y" by (simp add: in_get_len_def g16 g32 g64)
  have loop: "in_leafs_loop n x i ht = in_leafs_loop n y i ht" for n i ht
  proof (induction n arbitrary: i ht)
    case (Suc n)
    have "(page_get x (IN_LEAF_OFST + i * 8) :: u64) = page_get y (IN_LEAF_OFST + i * 8)" by (rule g64) simp
    then have "in_get_leaf x i = in_get_leaf y i" by (simp only: in_get_leaf_def page_ld_def len size)
    then show ?case unfolding in_leafs_loop.simps Suc by (simp only:)
  qed simp
  have "in_is_root x = in_is_root y" by (simp add: in_is_root_def in_get_next_def in_get_prev_def g64)
  then have "in_validate_for_db x = in_validate_for_db y"
    unfolding in_validate_for_db_def loop len t by (simp only:)
  moreover have "dl_validate_for_db x = dl_validate_for_db y"
    by (simp add: dl_validate_for_db_def dl_used_def dl_is_root_def dl_get_next_def dl_get_prev_def t g16 g32 g64)
  moreover have "vp_validate_for_db x = vp_validate_for_db y"
    by (simp add: vp_validate_for_db_def t vp_get_vlen_def vp_get_tlen_def vp_is_overflow_def vp_get_ovnext_def
        vp_calc_tofst_def g16 g32 g64)
  ultimately show ?thesis
    unfolding page_validate_for_db_def t tmbst_validate_for_db_def rn_validate_for_db_def vt_validate_for_db_def
        rr_validate_for_db_def vh_validate_for_db_def by (simp only:)
qed

definition valid_bytes :: "u8 list \<Rightarrow> u8 \<Rightarrow> bool" where
  "valid_bytes x flags \<longleftrightarrow> page_validate_for_db \<lparr>raw = x, pg = 0\<rparr> flags = Some (Inr ())"

lemma valid_bytes_iff: "page_validate_for_db x flags = Some (Inr ()) \<longleftrightarrow> valid_bytes (raw x) flags"
  unfolding valid_bytes_def by (subst page_validate_cong [of x "\<lparr>raw = raw x, pg = 0\<rparr>"]) simp_all

definition set_lsn :: "u8 list \<Rightarrow> lsn \<Rightarrow> u8 list" where
  "set_lsn x l = st x PG_PLSN_OFST l"

lemma raw_set_lsn: "raw (page_set_page_lsn x l) = set_lsn (raw x) l" "pg (page_set_page_lsn x l) = pg x"
  by (simp_all add: page_set_page_lsn_def page_set_def set_lsn_def)

lemma length_set_lsn [simp]: "length x = PAGE_SIZE \<Longrightarrow> length (set_lsn x l) = PAGE_SIZE"
  by (simp add: set_lsn_def)

lemma valid_set_lsn [simp]: "length x = PAGE_SIZE \<Longrightarrow> valid_bytes (set_lsn x l) flags = valid_bytes x flags"
  unfolding valid_bytes_def
  by (subst page_validate_cong [of "\<lparr>raw = set_lsn x l, pg = 0\<rparr>" "\<lparr>raw = x, pg = 0\<rparr>"])
    (simp_all add: set_lsn_def slice_st_other)

lemma lsn_below_set_lsn: "length x = PAGE_SIZE \<Longrightarrow> unat l < n \<Longrightarrow> lsn_below (set_lsn x l) n"
  by (simp add: lsn_below_def set_lsn_def ld_st_same)

section \<open>Handles\<close>

definition holds_s :: "pager \<Rightarrow> page_h \<Rightarrow> pgno \<Rightarrow> nat \<Rightarrow> bool" where
  "holds_s p h k i \<longleftrightarrow> ph_mode h = PHM_S \<and> ph_pgr h = Some i \<and> ph_pgw h = None \<and>
     ht_map (pg_ht p) k = Some i \<and> pf_pin (fr p i) > 0 \<and> pf_wsibling (fr p i) = -1"

definition holds_x :: "pager \<Rightarrow> page_h \<Rightarrow> pgno \<Rightarrow> nat \<Rightarrow> nat \<Rightarrow> bool" where
  "holds_x p h k i j \<longleftrightarrow> ph_mode h = PHM_X \<and> ph_pgr h = Some i \<and> ph_pgw h = Some j \<and> j < MEMORY_PAGE_LEN \<and>
     ht_map (pg_ht p) k = Some i \<and> pf_pin (fr p i) > 0 \<and> pf_wsibling (fr p i) = int j"

definition holds_none :: "page_h \<Rightarrow> bool" where
  "holds_none h \<longleftrightarrow> ph_mode h = PHM_NONE \<and> ph_pgr h = None \<and> ph_pgw h = None"

definition others_kept :: "pager \<Rightarrow> pager \<Rightarrow> nat set \<Rightarrow> bool" where
  "others_kept p q S \<longleftrightarrow>
     (\<forall>i < MEMORY_PAGE_LEN. i \<notin> S \<and> pf_present (fr p i) \<and> pf_pin (fr p i) > 0 \<longrightarrow>
        fr q i = fr p i \<and> (\<forall>k. ht_map (pg_ht q) k = Some i \<longleftrightarrow> ht_map (pg_ht p) k = Some i))"

lemma others_keptD:
  assumes "others_kept p q S" "i < MEMORY_PAGE_LEN" "i \<notin> S" "pf_present (fr p i)" "pf_pin (fr p i) > 0"
  shows "fr q i = fr p i" "ht_map (pg_ht q) k = Some i \<longleftrightarrow> ht_map (pg_ht p) k = Some i"
  using assms unfolding others_kept_def by blast+

lemma others_kept_trans:
  assumes a: "others_kept p q S" and b: "others_kept q r T"
  shows "others_kept p r (S \<union> T)"
proof -
  have "fr r i = fr p i \<and> (\<forall>k. ht_map (pg_ht r) k = Some i \<longleftrightarrow> ht_map (pg_ht p) k = Some i)"
    if i: "i < MEMORY_PAGE_LEN" "i \<notin> S \<union> T" "pf_present (fr p i)" "pf_pin (fr p i) > 0" for i
  proof -
    have n: "i \<notin> S" "i \<notin> T" using i(2) by simp_all
    note A = others_keptD [OF a i(1) n(1) i(3,4)]
    have "pf_present (fr q i)" "pf_pin (fr q i) > 0" using A(1) i(3,4) by simp_all
    from others_keptD [OF b i(1) n(2) this] A show ?thesis by simp
  qed
  then show ?thesis unfolding others_kept_def by blast
qed

text \<open>The frames in use.\<close>

definition used :: "pager \<Rightarrow> nat set" where
  "used p = {i. i < MEMORY_PAGE_LEN \<and> pf_present (fr p i) \<and> pf_pin (fr p i) > 0}"

lemma finite_used [simp]: "finite (used p)"
  by (simp add: used_def)

lemma used_free:
  assumes "card (used p) < MEMORY_PAGE_LEN"
  shows "\<exists>i. frame_free p i"
proof (rule ccontr)
  assume "\<nexists>i. frame_free p i"
  then have "{..<MEMORY_PAGE_LEN} \<subseteq> used p" by (auto simp: frame_free_def used_def)
  then have "card {..<MEMORY_PAGE_LEN} \<le> card (used p)" by (intro card_mono) simp_all
  with assms show False by simp
qed

section \<open>A page enters the pool\<close>

text \<open>What every step of an access keeps: the invariant, what the pager holds beside its pages, the log.\<close>

definition pool_step :: "pager \<Rightarrow> pager \<Rightarrow> nat set \<Rightarrow> bool" where
  "pool_step p q S \<longleftrightarrow> pool_inv q \<and> pgr_rest q = pgr_rest p \<and> others_kept p q S \<and> used q \<subseteq> used p \<union> S \<and>
     wal_log (pg_ww q) (pg_log q) = wal_log (pg_ww p) (pg_log p) \<and>
     (pg_wal_enabled p \<and> \<not> pg_restarting p \<and> wal_rule p \<longrightarrow> wal_rule q) \<and> file_len p \<le> file_len q"

definition same_pages :: "pager \<Rightarrow> pager \<Rightarrow> bool" where
  "same_pages p q \<longleftrightarrow> (\<forall>k. unat k < unat (fp_npages (pg_fp p)) \<longrightarrow> pgr_page q k = pgr_page p k)"

lemma pool_stepD:
  assumes "pool_step p q S"
  shows "pool_inv q" "pgr_rest q = pgr_rest p" "others_kept p q S" "used q \<subseteq> used p \<union> S"
    "wal_log (pg_ww q) (pg_log q) = wal_log (pg_ww p) (pg_log p)"
    "pg_wal_enabled p \<Longrightarrow> \<not> pg_restarting p \<Longrightarrow> wal_rule p \<Longrightarrow> wal_rule q" "file_len p \<le> file_len q"
  using assms unfolding pool_step_def by blast+

lemma pool_kept_step:
  assumes "pool_kept p q"
  shows "pool_step p q {}" "same_pages p q"
proof -
  note K = pool_keptD [OF assms]
  have "used q \<subseteq> used p" using K(6) by (auto simp: used_def)
  moreover have "others_kept p q {}" using K(4,5) unfolding others_kept_def by blast
  ultimately show "pool_step p q {}" using K(1,2,7,8,10) unfolding pool_step_def by blast
  show "same_pages p q" using K(3) by (simp add: same_pages_def)
qed

lemma pool_step_trans:
  assumes a: "pool_step p q S" and b: "pool_step q r T"
  shows "pool_step p r (S \<union> T)"
proof -
  note A = pool_stepD [OF a] and B = pool_stepD [OF b]
  note R = pgr_restD(5,6) [OF A(2)]
  have "wal_rule r" if "pg_wal_enabled p" "\<not> pg_restarting p" "wal_rule p"
    using B(6) A(6) [OF that] that unfolding R by blast
  then show ?thesis
    using A(2,4,5,7) B(1,2,4,5,7) others_kept_trans [OF A(3) B(3)] unfolding pool_step_def by auto
qed

lemma pool_step_weaken:
  assumes "pool_step p q S" "S \<subseteq> T"
  shows "pool_step p q T"
  using assms unfolding pool_step_def others_kept_def by blast

lemma same_pages_trans:
  "pgr_rest q = pgr_rest p \<Longrightarrow> same_pages p q \<Longrightarrow> same_pages q r \<Longrightarrow> same_pages p r"
  unfolding same_pages_def by (metis pgr_restD(1))

lemma pool_add_page:
  assumes inv: "pool_inv p" and c: "c < MEMORY_PAGE_LEN" "\<not> pf_present (fr p c)"
    and k: "ht_map (pg_ht p) k = None" "unat k < unat (fp_npages (pg_fp p))"
    and f: "pf_present f" "pg (pf_page f) = k" "wf_page (pf_page f)" "pf_wsibling f = -1"
      "\<not> pf_dirty f" "raw (pf_page f) = fpgr_pages (pg_fp p, pg_disk p) ! unat k"
    and ht: "ht_inv ht" "ht_cap ht = MEMORY_PAGE_LEN" "ht_map ht = (ht_map (pg_ht p))(k \<mapsto> c)"
  defines "q \<equiv> put_frame (p\<lparr>pg_ht := ht\<rparr>) c f"
  shows "pool_step p q {c}" "same_pages p q" "fr q c = f"
proof -
  note I = pool_invD [OF inv] and F = frames_invD [OF pool_invD(1) [OF inv]]
  have Q: "pg_pages q = (pg_pages p)[c := f]" "pg_ht q = ht" "pg_fp q = pg_fp p" "pg_disk q = pg_disk p"
    "pg_ww q = pg_ww p" "pg_log q = pg_log p" "pg_dpt q = pg_dpt p" "pg_mem q = pg_mem p" "pg_clock q = pg_clock p"
    "pg_allocs q = pg_allocs p" "pgr_rest q = pgr_rest p"
    by (simp_all add: q_def pgr_rest_def put_frame_def)
  show fc: "fr q c = f" using c(1) F(1) by (simp add: Q(1))
  have other: "fr q j = fr p j" if "j \<noteq> c" for j using that by (simp add: Q(1))
  have old: "j \<noteq> c" if "ht_map (pg_ht p) l = Some j" for l j
    using F(6) [OF that] c(2) by (auto simp: cached_def)
  have htD: "ht_map (pg_ht q) l = Some j \<longleftrightarrow> (if l = k then j = c else ht_map (pg_ht p) l = Some j)" for l j
    by (auto simp: Q(2) ht(3))
  have ran: "ran (ht_map (pg_ht q)) = insert c (ran (ht_map (pg_ht p)))"
    using k(1) by (simp add: Q(2) ht(3))
  have sp: "spare q j \<and> fr q j = fr p j" if "spare p j" for j
  proof -
    have "j \<noteq> c" using that c(2) by (auto simp: spare_def)
    with that other ran show ?thesis by (simp add: spare_def)
  qed
  have pages: "fpgr_pages (pg_fp q, pg_disk q) = fpgr_pages (pg_fp p, pg_disk p)" by (simp add: Q(3,4))
  have "cached q l j" if l: "ht_map (pg_ht q) l = Some j" for l j
  proof (cases "l = k")
    case True
    with l have "j = c" by (simp add: htD)
    with True c(1) f k(2) fc pages show ?thesis by (simp add: cached_def Q(3) del: nth_fpgr_pages)
  next
    case False
    with l have l': "ht_map (pg_ht p) l = Some j" by (simp add: htD)
    show ?thesis using F(6) [OF l'] other [OF old [OF l']] sp unfolding cached_def Q(3,4) by metis
  qed
  moreover have "j \<in> ran (ht_map (pg_ht q)) \<or> spare q j" if "j < MEMORY_PAGE_LEN" "pf_present (fr q j)" for j
    using that F(7) [of j] other [of j] sp [of j] ran by (cases "j = c") auto
  moreover have "wf_page (pf_page (fr q j))" if "j < MEMORY_PAGE_LEN" for j
    using F(5) [OF that] other [of j] fc f(3) by (cases "j = c") simp_all
  ultimately have fq: "frames_inv q"
    using F(1,2) ht(1,2) unfolding frames_inv_def by (simp add: Q)
  have "dpt_dirty q"
    using I(4) k(1) old other unfolding dpt_dirty_def Q(7,8) htD by (metis option.distinct(1))
  with fq I(2,3) have iq: "pool_inv q" by (simp add: pool_inv_def log_inv_def Q)
  have pinned: "fr q j = fr p j \<and> (\<forall>l. ht_map (pg_ht q) l = Some j \<longleftrightarrow> ht_map (pg_ht p) l = Some j)"
    if "pf_present (fr p j)" for j
  proof -
    have j: "j \<noteq> c" using that c(2) by auto
    with k(1) other [OF j] show ?thesis by (simp add: htD)
  qed
  have "wal_rule q" if w: "wal_rule p"
  proof -
    let ?m = "length (wal_log (pg_ww p) (pg_log p))"
    have "lsn_below (raw (pf_page (fr q j))) ?m" if l: "ht_map (pg_ht q) l = Some j" for l j
    proof (cases "l = k")
      case True
      with l fc f(6) w k(2) show ?thesis unfolding wal_rule_def by (metis htD lsn_below_mono)
    next
      case False
      with l have l': "ht_map (pg_ht p) l = Some j" by (simp add: htD)
      with w other [OF old [OF l']] show ?thesis by (simp add: wal_rule_def)
    qed
    with w show ?thesis unfolding wal_rule_def Q(3,4,5,6) by blast
  qed
  moreover have "used q \<subseteq> used p \<union> {c}" using other by (auto simp: used_def)
  ultimately show "pool_step p q {c}" using iq pinned Q(5,6,11) unfolding pool_step_def others_kept_def by simp
  have "pgr_page q l = pgr_page p l" for l
  proof (cases "ht_map (pg_ht p) l")
    case None
    then show ?thesis using fc f(6) k(1) by (cases "l = k") (simp_all add: pgr_page_def Q(2) ht(3) pages del: nth_fpgr_pages)
  next
    case (Some j)
    then have "ht_map (pg_ht q) l = Some j" using k(1) by (auto simp: htD)
    with Some other [OF old [OF Some]] show ?thesis by (simp add: pgr_page_def)
  qed
  then show "same_pages p q" by (simp add: same_pages_def)
qed

text \<open>A read leaves the bytes of the file alone.\<close>

lemma pool_kept_disk:
  assumes inv: "pool_inv p" and d: "d_data d = d_data (pg_disk p)" "no_fail d"
  shows "pool_kept p (p\<lparr>pg_disk := d\<rparr>)"
proof -
  let ?q = "p\<lparr>pg_disk := d\<rparr>"
  have pages: "fpgr_pages (pg_fp p, d) = fpgr_pages (pg_fp p, pg_disk p)" by (simp add: fpgr_pages_def d(1))
  have [simp]: "spare ?q j = spare p j" "cached ?q k i = cached p k i" "pgr_page ?q k = pgr_page p k"
    "log_inv ?q = log_inv p" "dpt_dirty ?q = dpt_dirty p" "wal_rule ?q = wal_rule p" for j k i
    by (simp_all add: spare_def cached_def pgr_page_def log_inv_def dpt_dirty_def wal_rule_def pages del: nth_fpgr_pages split: option.split)
  have "fpgr_inv (pg_fp p, d)" using pool_invD(2) [OF inv] d by (simp add: fpgr_inv_def)
  with inv show ?thesis by (simp add: pool_kept_def pool_inv_def frames_inv_def pgr_rest_def)
qed

text \<open>With a frame free, the hash table is not full.\<close>

lemma pool_ht_room:
  assumes inv: "pool_inv p" and c: "c < MEMORY_PAGE_LEN" "\<not> pf_present (fr p c)"
  shows "\<not> ht_full (pg_ht p)"
proof -
  note F = frames_invD [OF pool_invD(1) [OF inv]]
  let ?m = "ht_map (pg_ht p)"
  have "inj_on (\<lambda>k. the (?m k)) (dom ?m)"
    using cached_inj [OF pool_invD(1) [OF inv]] by (auto simp: inj_on_def)
  then have "card (dom ?m) = card ((\<lambda>k. the (?m k)) ` dom ?m)" by (simp add: card_image)
  also have "\<dots> \<le> card ({..<MEMORY_PAGE_LEN} - {c})"
  proof (rule card_mono)
    show "(\<lambda>k. the (?m k)) ` dom ?m \<subseteq> {..<MEMORY_PAGE_LEN} - {c}"
      using F(6) c(2) by (auto simp: cached_def)
  qed simp
  also have "\<dots> < MEMORY_PAGE_LEN" using c(1) by simp
  finally show ?thesis using F(3,4) by (simp add: ht_full_card)
qed

lemma pool_ht_insert:
  assumes inv: "pool_inv p" and c: "c < MEMORY_PAGE_LEN" "\<not> pf_present (fr p c)"
    and k: "ht_map (pg_ht p) k = None" "unat k < 2 ^ 52"
  shows "\<exists>ht. ht_insert_expect (pg_ht p) \<lparr>hkey = k, hvalue = c\<rparr> = Some ht \<and> ht_inv ht \<and> ht_cap ht = MEMORY_PAGE_LEN \<and>
    ht_map ht = (ht_map (pg_ht p))(k \<mapsto> c)"
proof -
  note F = frames_invD [OF pool_invD(1) [OF inv]]
  let ?d = "\<lparr>hkey = k, hvalue = c\<rparr>"
  have "unat (hkey ?d) + ht_cap (pg_ht p) < 2 ^ 64" using k(2) F(4) by simp
  from ht_insert_correct(2) [OF F(3) this] k(1) pool_ht_room [OF inv c] obtain ht where
    "ht_insert (pg_ht p) ?d = Some (HTIR_SUCCESS, ht)" "ht_inv ht" "ht_cap ht = ht_cap (pg_ht p)"
    "ht_map ht = (ht_map (pg_ht p))(k \<mapsto> c)" by auto
  with F(4) show ?thesis by (simp add: ht_insert_expect_def)
qed

section \<open>A frame changes\<close>

lemma pager_update_swap:
  "p\<lparr>pg_pages := x, pg_ht := t\<rparr> = p\<lparr>pg_ht := t, pg_pages := x\<rparr>"
  "p\<lparr>pg_pages := x, pg_disk := d\<rparr> = p\<lparr>pg_disk := d, pg_pages := x\<rparr>"
  by (cases p, simp)+

lemma put_frame_other [simp]: "j \<noteq> i \<Longrightarrow> fr (put_frame p i f) j = fr p j"
  by simp

lemma put_frame_same: "frames_inv p \<Longrightarrow> i < MEMORY_PAGE_LEN \<Longrightarrow> fr (put_frame p i f) i = f"
  by (simp add: frames_inv_def)

lemma pgr_rest_put_frame [simp]: "pgr_rest (put_frame p i f) = pgr_rest p"
  by (simp add: pgr_rest_def put_frame_def)

text \<open>The frame of a page: new bytes, another pin count, the sibling it may have.\<close>

lemma pool_set_frame:
  assumes inv: "pool_inv p" and i: "ht_map (pg_ht p) k = Some i"
    and f: "pf_present f" "pg (pf_page f) = k" "wf_page (pf_page f)" "pf_dirty (fr p i) \<longrightarrow> pf_dirty f"
      "\<not> pf_dirty f \<longrightarrow> raw (pf_page f) = fpgr_pages (pg_fp p, pg_disk p) ! unat k"
    and sib: "pf_wsibling f = -1 \<or> pf_pin f > 0 \<and> pf_dirty f \<and>
        (\<exists>j < MEMORY_PAGE_LEN. pf_wsibling f = int j \<and> spare p j \<and> pg (pf_page (fr p j)) = k)"
    and lsn: "pg_wal_enabled p \<Longrightarrow> \<not> pg_restarting p \<Longrightarrow> wal_rule p \<Longrightarrow>
        lsn_below (raw (pf_page f)) (length (wal_log (pg_ww p) (pg_log p)))"
  defines "q \<equiv> put_frame p i f"
  shows "pool_step p q {i}" "fr q i = f" "pgr_page q l = (if l = k then raw (pf_page f) else pgr_page p l)"
proof -
  note I = pool_invD [OF inv] and F = frames_invD [OF pool_invD(1) [OF inv]]
  have c: "cached p k i" using F(6) [OF i] .
  then have iM: "i < MEMORY_PAGE_LEN" by (simp add: cached_def)
  show fi: "fr q i = f" unfolding q_def by (rule put_frame_same [OF I(1) iM])
  have other: "fr q j = fr p j" if "j \<noteq> i" for j using that by (simp add: q_def)
  have Q: "pg_ht q = pg_ht p" "pg_fp q = pg_fp p" "pg_disk q = pg_disk p" "pg_ww q = pg_ww p" "pg_log q = pg_log p"
    "pg_dpt q = pg_dpt p" "pg_mem q = pg_mem p" "pg_clock q = pg_clock p" "pg_allocs q = pg_allocs p" "pgr_rest q = pgr_rest p"
    "length (pg_pages q) = length (pg_pages p)"
    by (simp_all add: q_def)
  have ne: "j \<noteq> i" if "ht_map (pg_ht p) l = Some j" "l \<noteq> k" for l j
    using cached_inj [OF I(1) i] that by auto
  have sp: "spare q j \<and> fr q j = fr p j" if "spare p j" for j
  proof -
    have "j \<noteq> i" using that i by (auto simp: spare_def intro: ranI)
    from other [OF this] that show ?thesis by (simp add: spare_def Q(1))
  qed
  have "cached q l j" if l: "ht_map (pg_ht q) l = Some j" for l j
  proof (cases "l = k")
    case True
    with l i have "j = i" by (simp add: Q(1))
    moreover have "unat k < unat (fp_npages (pg_fp p))" using c by (simp add: cached_def)
    ultimately show ?thesis using True iM f sib sp fi unfolding cached_def Q(2,3) by metis
  next
    case False
    with l have l': "ht_map (pg_ht p) l = Some j" by (simp add: Q(1))
    show ?thesis using F(6) [OF l'] other [OF ne [OF l' False]] sp unfolding cached_def Q(2,3) by metis
  qed
  moreover have "j \<in> ran (ht_map (pg_ht q)) \<or> spare q j" if "j < MEMORY_PAGE_LEN" "pf_present (fr q j)" for j
  proof (cases "j = i")
    case True
    with i show ?thesis by (auto simp: Q(1) intro: ranI)
  next
    case False
    with that other [of j] F(7) [of j] sp [of j] show ?thesis by (auto simp: Q(1))
  qed
  moreover have "wf_page (pf_page (fr q j))" if "j < MEMORY_PAGE_LEN" for j
    using F(5) [OF that] other [of j] fi f(3) by (cases "j = i") simp_all
  ultimately have fq: "frames_inv q"
    using F(1,2,3,4) unfolding frames_inv_def by (simp add: Q)
  have "\<exists>j. ht_map (pg_ht q) l = Some j \<and> pf_dirty (fr q j)"
    if l: "l \<in> dom (dpt_map (wm_dpgs (pg_mem p)) (pg_dpt p))" for l
  proof -
    from I(4) l obtain j where j: "ht_map (pg_ht p) l = Some j" "pf_dirty (fr p j)" unfolding dpt_dirty_def by blast
    show ?thesis
    proof (cases "j = i")
      case True
      with j f(4) fi show ?thesis by (auto simp: Q(1))
    next
      case False
      with j other show ?thesis by (auto simp: Q(1))
    qed
  qed
  with I(4) have "dpt_dirty q" unfolding dpt_dirty_def Q(6,7) by blast
  with fq I(2,3) have iq: "pool_inv q" by (simp add: pool_inv_def log_inv_def Q)
  have "wal_rule q" if en: "pg_wal_enabled p" "\<not> pg_restarting p" and w: "wal_rule p"
  proof -
    have "lsn_below (raw (pf_page (fr q j))) (length (wal_log (pg_ww p) (pg_log p)))"
      if l: "ht_map (pg_ht p) l = Some j" for l j
    proof (cases "j = i")
      case True
      with lsn [OF en w] fi show ?thesis by simp
    next
      case False
      with other w l show ?thesis by (simp add: wal_rule_def)
    qed
    with w show ?thesis unfolding wal_rule_def Q by blast
  qed
  moreover have "used q \<subseteq> used p \<union> {i}" using other by (auto simp: used_def)
  moreover have "others_kept p q {i}" using other by (simp add: others_kept_def Q(1))
  ultimately show "pool_step p q {i}" using iq unfolding pool_step_def Q by blast
  show "pgr_page q l = (if l = k then raw (pf_page f) else pgr_page p l)"
  proof (cases "ht_map (pg_ht p) l")
    case None
    with i show ?thesis by (auto simp: pgr_page_def Q)
  next
    case (Some j)
    with i fi other ne [OF Some] show ?thesis by (auto simp: pgr_page_def Q)
  qed
qed

text \<open>A frame no page has: it becomes a sibling, or is written to as one.\<close>

lemma pool_set_spare:
  assumes inv: "pool_inv p" and c: "c < MEMORY_PAGE_LEN" "c \<notin> ran (ht_map (pg_ht p))"
    and f: "pf_present f" "pf_pin f > 0" "wf_page (pf_page f)" "spare p c \<longrightarrow> pg (pf_page f) = pg (pf_page (fr p c))"
  defines "q \<equiv> put_frame p c f"
  shows "pool_step p q {c}" "fr q c = f" "spare q c" "pgr_page q l = pgr_page p l"
proof -
  note I = pool_invD [OF inv] and F = frames_invD [OF pool_invD(1) [OF inv]]
  show fc: "fr q c = f" unfolding q_def by (rule put_frame_same [OF I(1) c(1)])
  have other: "fr q j = fr p j" if "j \<noteq> c" for j using that by (simp add: q_def)
  have Q: "pg_ht q = pg_ht p" "pg_fp q = pg_fp p" "pg_disk q = pg_disk p" "pg_ww q = pg_ww p" "pg_log q = pg_log p"
    "pg_dpt q = pg_dpt p" "pg_mem q = pg_mem p" "pg_clock q = pg_clock p" "pg_allocs q = pg_allocs p" "pgr_rest q = pgr_rest p"
    "length (pg_pages q) = length (pg_pages p)"
    by (simp_all add: q_def)
  have ne: "j \<noteq> c" if "ht_map (pg_ht p) l = Some j" for l j using that c(2) by (auto intro: ranI)
  show spc: "spare q c" using f(1,2) c(2) fc by (simp add: spare_def Q(1))
  have sp: "spare q j \<and> pg (pf_page (fr q j)) = pg (pf_page (fr p j))" if "spare p j" for j
  proof (cases "j = c")
    case True
    with spc fc f(4) that show ?thesis by simp
  next
    case False
    from other [OF this] that show ?thesis by (simp add: spare_def Q(1))
  qed
  have "cached q l j" if l: "ht_map (pg_ht q) l = Some j" for l j
  proof -
    from l have l': "ht_map (pg_ht p) l = Some j" by (simp add: Q(1))
    show ?thesis using F(6) [OF l'] other [OF ne [OF l']] sp unfolding cached_def Q(2,3) by metis
  qed
  moreover have "j \<in> ran (ht_map (pg_ht q)) \<or> spare q j" if "j < MEMORY_PAGE_LEN" "pf_present (fr q j)" for j
    using that other [of j] F(7) [of j] sp [of j] spc by (cases "j = c") (auto simp: Q(1))
  moreover have "wf_page (pf_page (fr q j))" if "j < MEMORY_PAGE_LEN" for j
    using F(5) [OF that] other [of j] fc f(3) by (cases "j = c") simp_all
  ultimately have fq: "frames_inv q"
    using F(1,2,3,4) unfolding frames_inv_def by (simp add: Q)
  have "dpt_dirty q"
    using I(4) ne other unfolding dpt_dirty_def Q(1,6,7) by metis
  with fq I(2,3) have iq: "pool_inv q" by (simp add: pool_inv_def log_inv_def Q)
  have "wal_rule q" if w: "wal_rule p"
    using w other ne unfolding wal_rule_def Q by metis
  moreover have "used q \<subseteq> used p \<union> {c}" using other by (auto simp: used_def)
  moreover have "others_kept p q {c}" using other by (simp add: others_kept_def Q(1))
  ultimately show "pool_step p q {c}" using iq unfolding pool_step_def Q by blast
  show "pgr_page q l = pgr_page p l"
    using other ne by (simp add: pgr_page_def Q split: option.split)
qed

text \<open>A sibling is given back once no page refers to it.\<close>

lemma pool_clear_spare:
  assumes inv: "pool_inv p" and c: "c < MEMORY_PAGE_LEN" "c \<notin> ran (ht_map (pg_ht p))"
    and unref: "\<And>k i. ht_map (pg_ht p) k = Some i \<Longrightarrow> pf_wsibling (fr p i) \<noteq> int c"
    and f: "\<not> pf_present f" "wf_page (pf_page f)"
  defines "q \<equiv> put_frame p c f"
  shows "pool_step p q {c}" "used q \<subseteq> used p - {c}" "pgr_page q l = pgr_page p l"
proof -
  note I = pool_invD [OF inv] and F = frames_invD [OF pool_invD(1) [OF inv]]
  have fc: "fr q c = f" unfolding q_def by (rule put_frame_same [OF I(1) c(1)])
  have other: "fr q j = fr p j" if "j \<noteq> c" for j using that by (simp add: q_def)
  have Q: "pg_ht q = pg_ht p" "pg_fp q = pg_fp p" "pg_disk q = pg_disk p" "pg_ww q = pg_ww p" "pg_log q = pg_log p"
    "pg_dpt q = pg_dpt p" "pg_mem q = pg_mem p" "pg_clock q = pg_clock p" "pg_allocs q = pg_allocs p" "pgr_rest q = pgr_rest p"
    "length (pg_pages q) = length (pg_pages p)"
    by (simp_all add: q_def)
  have ne: "j \<noteq> c" if "ht_map (pg_ht p) l = Some j" for l j using that c(2) by (auto intro: ranI)
  have sp: "spare q j \<and> fr q j = fr p j" if "spare p j" "j \<noteq> c" for j
    using other [OF that(2)] that(1) by (simp add: spare_def Q(1))
  have "cached q l j" if l: "ht_map (pg_ht q) l = Some j" for l j
  proof -
    from l have l': "ht_map (pg_ht p) l = Some j" by (simp add: Q(1))
    show ?thesis using F(6) [OF l'] other [OF ne [OF l']] sp unref [OF l'] unfolding cached_def Q(2,3) by metis
  qed
  moreover have "j \<in> ran (ht_map (pg_ht q)) \<or> spare q j" if "j < MEMORY_PAGE_LEN" "pf_present (fr q j)" for j
  proof -
    have j: "j \<noteq> c" using that(2) fc f(1) by auto
    with that other [OF j] F(7) [of j] sp [of j] show ?thesis by (auto simp: Q(1))
  qed
  moreover have "wf_page (pf_page (fr q j))" if "j < MEMORY_PAGE_LEN" for j
    using F(5) [OF that] other [of j] fc f(2) by (cases "j = c") simp_all
  ultimately have fq: "frames_inv q"
    using F(1,2,3,4) unfolding frames_inv_def by (simp add: Q)
  have "dpt_dirty q"
    using I(4) ne other unfolding dpt_dirty_def Q(1,6,7) by metis
  with fq I(2,3) have iq: "pool_inv q" by (simp add: pool_inv_def log_inv_def Q)
  have "wal_rule q" if w: "wal_rule p"
    using w other ne unfolding wal_rule_def Q by metis
  moreover show u: "used q \<subseteq> used p - {c}"
  proof
    fix j assume "j \<in> used q"
    then have j: "j < MEMORY_PAGE_LEN" "pf_present (fr q j)" "pf_pin (fr q j) > 0" by (simp_all add: used_def)
    have "j \<noteq> c" using j(2) fc f(1) by auto
    with j other [OF this] show "j \<in> used p - {c}" by (simp add: used_def)
  qed
  moreover have "others_kept p q {c}" using other by (simp add: others_kept_def Q(1))
  ultimately show "pool_step p q {c}" using iq unfolding pool_step_def Q by blast
  show "pgr_page q l = pgr_page p l"
    using other ne by (simp add: pgr_page_def Q split: option.split)
qed

lemma used_put_frame:
  assumes "frames_inv p" "i < MEMORY_PAGE_LEN"
  shows "used (put_frame p i f) = (if pf_present f \<and> pf_pin f > 0 then insert i (used p) else used p - {i})"
proof -
  have "i < length (pg_pages p)" using assms by (simp add: frames_inv_def)
  with assms(2) show ?thesis by (auto simp: used_def nth_list_update)
qed

section \<open>Getting a page\<close>

lemma page_h_assert_none: "holds_none h \<Longrightarrow> page_h_assert p h = Some ()"
  by (simp add: holds_none_def page_h_assert_def ASSERT_def)

lemma pgr_fetch_hit:
  assumes inv: "pool_inv p" and h: "holds_none h" and k: "unat k < unat (fp_npages (pg_fp p))"
    and v: "\<forall>x. raw x = pgr_page p k \<longrightarrow> verify x = Some (Inr ())"
    and i: "ht_map (pg_ht p) k = Some i" "pf_wsibling (fr p i) = -1" "pf_pin (fr p i) < 2 ^ 32 - 1"
  shows "\<exists>h' q. pgr_fetch verify h k p = Some (Inr (), h', q) \<and> holds_s q h' k i \<and> ph_tx h' = ph_tx h \<and>
    pool_step p q {i} \<and> same_pages p q \<and> pf_pin (fr q i) = pf_pin (fr p i) + 1"
proof -
  note I = pool_invD [OF inv] and F = frames_invD [OF pool_invD(1) [OF inv]]
  have c: "cached p k i" using F(6) [OF i(1)] .
  then have iM: "i < MEMORY_PAGE_LEN" by (simp add: cached_def)
  let ?f = "(fr p i)\<lparr>pf_pin := pf_pin (fr p i) + 1\<rparr>"
  let ?q = "put_frame p i ?f"
  let ?h = "h\<lparr>ph_pgr := Some i, ph_pgw := None, ph_mode := PHM_S\<rparr>"
  have "unat k + ht_cap (pg_ht p) < 2 ^ 64" using npages_key [OF I(2) k] F(4) by simp
  from ht_get_correct [OF F(3) this] i(1) have g: "ht_get (pg_ht p) k = Some (HTAR_SUCCESS, Some \<lparr>hkey = k, hvalue = i\<rparr>)" by simp
  have "verify (pf_page (fr p i)) = Some (Inr ())" using v i(1) by (simp add: pgr_page_def)
  then have run: "pgr_fetch verify h k p = Some (Inr (), ?h, ?q)"
    using h i(2,3) F(1) iM by (simp add: pgr_fetch_def page_h_assert_none g holds_none_def wrap32)
  have s: "pool_step p ?q {i}" "fr ?q i = ?f" "\<And>l. pgr_page ?q l = (if l = k then raw (pf_page ?f) else pgr_page p l)"
    by (rule pool_set_frame [OF inv i(1)]; use c i F(5) [OF iM] in \<open>simp add: frame cached_def wal_rule_def\<close>)+
  have "pgr_page ?q l = pgr_page p l" for l using s(3) i(1) by (simp add: pgr_page_def)
  then have "same_pages p ?q" by (simp add: same_pages_def)
  moreover have "holds_s ?q ?h k i" using i s(2) by (simp add: holds_s_def del: put_frame_fields(15))
  ultimately show ?thesis using run s(1,2) by (intro exI [of _ ?h] exI [of _ ?q]) (simp del: put_frame_fields(15))
qed

lemma pgr_fetch_miss:
  assumes inv: "pool_inv p" and h: "holds_none h" and k: "unat k < unat (fp_npages (pg_fp p))"
    and v: "\<forall>x. raw x = pgr_page p k \<longrightarrow> verify x = Some (Inr ())"
    and i: "ht_map (pg_ht p) k = None" "frame_free p m"
  shows "\<exists>h' q i. pgr_fetch verify h k p = Some (Inr (), h', q) \<and> holds_s q h' k i \<and> ph_tx h' = ph_tx h \<and>
    pool_step p q {i} \<and> same_pages p q \<and> pf_pin (fr q i) = 1"
proof -
  note I = pool_invD [OF inv] and F = frames_invD [OF pool_invD(1) [OF inv]]
  have "unat k + ht_cap (pg_ht p) < 2 ^ 64" using npages_key [OF I(2) k] F(4) by simp
  from ht_get_correct [OF F(3) this] i(1) have g: "ht_get (pg_ht p) k = Some (HTAR_DOESNT_EXIST, None)" by simp
  from pgr_reserve_ok [OF inv i(2)] obtain p1 where
    p1: "pgr_reserve_at_clock p = Some (Inr (), p1)" "pool_kept p p1" "\<not> pf_present (fr p1 (pg_clock p1))"
      "pg_clock p1 < MEMORY_PAGE_LEN" by blast
  note K = pool_keptD [OF p1(2)]
  note I1 = pool_invD [OF K(1)] and F1 = frames_invD [OF pool_invD(1) [OF K(1)]] and R1 = pgr_restD [OF K(2)]
  define c where "c = pg_clock p1"
  note c = p1(3,4) [folded c_def]
  let ?pgr = "fr p1 c"
  have "length (raw (pf_page ?pgr)) = PAGE_SIZE" using F1(5) [OF c(2)] by (simp add: wf_page_def)
  from fpgr_read_page [OF I1(2) this, of k] k obtain d where
    d: "fpgr_read (pg_fp p1) (pg_disk p1) (raw (pf_page ?pgr)) k = Some (Inr (), fpgr_pages (pg_fp p1, pg_disk p1) ! unat k, d)"
      "d_data d = d_data (pg_disk p1)" "no_fail d" by (auto simp: R1)
  define bytes where "bytes = fpgr_pages (pg_fp p1, pg_disk p1) ! unat k"
  have none: "ht_map (pg_ht p1) k = None"
    using K(9) i(1) unfolding map_le_def by (metis domIff)
  have "bytes = pgr_page p1 k" using none by (simp add: bytes_def pgr_page_def)
  moreover have "bytes \<in> set (fpgr_pages (pg_fp p1, pg_disk p1))"
    unfolding bytes_def by (rule nth_mem) (simp add: k R1)
  ultimately have bytes: "bytes = pgr_page p k" "length bytes = PAGE_SIZE"
    using K(3) [OF k] fpgr.page_length [OF I1(2)] by simp_all
  let ?p1 = "p1\<lparr>pg_disk := d\<rparr>"
  have kd: "pool_kept p1 ?p1" by (rule pool_kept_disk [OF K(1) d(2,3)])
  note I2 = pool_keptD(1) [OF kd]
  have pd: "fpgr_pages (pg_fp ?p1, pg_disk ?p1) = fpgr_pages (pg_fp p1, pg_disk p1)" by (simp add: fpgr_pages_def d(2))
  obtain ht where ht: "ht_insert_expect (pg_ht p1) \<lparr>hkey = k, hvalue = c\<rparr> = Some ht" "ht_inv ht" "ht_cap ht = MEMORY_PAGE_LEN"
    "ht_map ht = (ht_map (pg_ht p1))(k \<mapsto> c)"
    using pool_ht_insert [OF K(1) c(2,1) none npages_key [OF I(2) k]] by blast
  let ?x = "(pf_page ?pgr)\<lparr>raw := bytes\<rparr>"
  let ?f = "pf_set (pf_set \<lparr>pf_page = ?x\<lparr>pg := k\<rparr>, pf_pin = 1, pf_flags = 0, pf_wsibling = -1\<rparr> PW_ACCESS) PW_PRESENT"
  let ?q = "put_frame (?p1\<lparr>pg_ht := ht\<rparr>) c ?f"
  let ?h = "h\<lparr>ph_pgr := Some c, ph_pgw := None, ph_mode := PHM_S\<rparr>"
  have s: "pool_step ?p1 ?q {c}" "same_pages ?p1 ?q" "fr ?q c = ?f"
    by (rule pool_add_page [OF I2 c(2)]; use c none k bytes(2) ht pd in
      \<open>simp add: frame R1 wf_page_def bytes_def del: nth_fpgr_pages\<close>)+
  have "verify ?x = Some (Inr ())" using v bytes by simp
  then have run: "pgr_fetch verify h k p = Some (Inr (), ?h, next_clock ?q)"
    using h F1(1) c(2) d(1) ht(1)
    by (simp add: pgr_fetch_def page_h_assert_none g holds_none_def p1(1) c_def [symmetric] bytes_def [symmetric] put_frame_def
        pager_update_swap)
  have kq: "pool_kept ?q (next_clock ?q)" by (rule pool_kept_next_clock [OF pool_stepD(1) [OF s(1)]])
  note S = pool_kept_step [OF p1(2)] pool_kept_step [OF kd] s(1,2) pool_kept_step [OF kq]
  have "pool_step p (next_clock ?q) ({} \<union> ({} \<union> ({c} \<union> {})))"
    by (intro pool_step_trans [OF S(1)] pool_step_trans [OF S(3)] pool_step_trans [OF S(5)] S(7))
  then have "pool_step p (next_clock ?q) {c}" by simp
  moreover have "same_pages p (next_clock ?q)"
    by (intro same_pages_trans [OF K(2) S(2)] same_pages_trans [OF pool_keptD(2) [OF kd] S(4)]
        same_pages_trans [OF pool_stepD(2) [OF S(5)] S(6)] S(8))
  moreover have "holds_s (next_clock ?q) ?h k c" using s(3) by (simp add: holds_s_def ht(4) frame)
  moreover have "pf_pin (fr (next_clock ?q) c) = 1" using s(3) by (simp add: frame)
  ultimately show ?thesis using run by (intro exI [of _ ?h] exI [of _ "next_clock ?q"] exI [of _ c]) simp
qed

end
