(* ===== verification/Pager_Write.thy ===== *)
theory Pager_Write
  imports Pager_Access
begin

text \<open>
  Writing a page through a handle: taking the sibling (\<open>pgr_make_writable_no_tx\<close>), filling it
  (\<open>page_h_w_put\<close>), logging the update (\<open>pgr_log_update\<close>), and giving the sibling back, with its bytes
  (\<open>pgr_save\<close>) or without (\<open>pgr_cancel_w\<close>).
\<close>

lemma wal_ruleD:
  assumes "wal_rule p"
  shows "length (d_durable (pg_log p)) \<le> length (wal_log (pg_ww p) (pg_log p))"
    "k < unat (fp_npages (pg_fp p)) \<Longrightarrow> lsn_below (fpgr_pages (pg_fp p, pg_disk p) ! k) (length (d_durable (pg_log p)))"
    "ht_map (pg_ht p) l = Some i \<Longrightarrow> lsn_below (raw (pf_page (fr p i))) (length (wal_log (pg_ww p) (pg_log p)))"
  using assms unfolding wal_rule_def by blast+

lemma pgr_page_next_clock [simp]: "pgr_page (next_clock p) k = pgr_page p k"
  by (simp add: pgr_page_def split: option.split)

section \<open>The sibling\<close>

lemma holds_sD:
  assumes "holds_s p h k i"
  shows "ph_mode h = PHM_S" "ph_pgr h = Some i" "ph_pgw h = None" "ht_map (pg_ht p) k = Some i"
    "pf_pin (fr p i) > 0" "pf_wsibling (fr p i) = -1"
  using assms by (simp_all add: holds_s_def)

lemma holds_s_cached:
  assumes inv: "pool_inv p" and h: "holds_s p h k i"
  shows "cached p k i" "i < MEMORY_PAGE_LEN" "i < length (pg_pages p)" "pf_present (fr p i)" "pg (pf_page (fr p i)) = k"
    "wf_page (pf_page (fr p i))" "page_h_assert p h = Some ()" "page_h_pgno p h = Some k" "page_h_ro p h = Some (pf_page (fr p i))"
    "page_h_r p h = Some (pf_page (fr p i))" "i \<in> used p"
proof -
  note F = frames_invD [OF pool_invD(1) [OF inv]] and H = holds_sD [OF h]
  show c: "cached p k i" by (rule F(6) [OF H(4)])
  then show i: "i < MEMORY_PAGE_LEN" "pf_present (fr p i)" "pg (pf_page (fr p i)) = k" by (simp_all add: cached_def)
  then show "i < length (pg_pages p)" "wf_page (pf_page (fr p i))" using F(1,5) by simp_all
  then show "page_h_assert p h = Some ()" "page_h_pgno p h = Some k" "page_h_ro p h = Some (pf_page (fr p i))"
      "page_h_r p h = Some (pf_page (fr p i))"
    using H i by (simp_all add: page_h_assert_def page_h_pgno_def page_h_ro_def page_h_r_def)
  show "i \<in> used p" using H(5) i by (simp add: used_def)
qed

lemma holds_xD:
  assumes "holds_x p h k i j"
  shows "ph_mode h = PHM_X" "ph_pgr h = Some i" "ph_pgw h = Some j" "j < MEMORY_PAGE_LEN" "ht_map (pg_ht p) k = Some i"
    "pf_pin (fr p i) > 0" "pf_wsibling (fr p i) = int j"
  using assms by (simp_all add: holds_x_def)

lemma holds_x_cached:
  assumes inv: "pool_inv p" and h: "holds_x p h k i j"
  shows "cached p k i" "i < MEMORY_PAGE_LEN" "i < length (pg_pages p)" "j < length (pg_pages p)" "pf_present (fr p i)"
    "pg (pf_page (fr p i)) = k" "pf_dirty (fr p i)" "spare p j" "pg (pf_page (fr p j)) = k" "i \<noteq> j"
    "wf_page (pf_page (fr p i))" "wf_page (pf_page (fr p j))" "j \<notin> ran (ht_map (pg_ht p))"
    "page_h_assert p h = Some ()" "page_h_pgno p h = Some k" "page_h_ro p h = Some (pf_page (fr p j))"
    "page_h_w p h = Some (pf_page (fr p j))" "i \<in> used p" "j \<in> used p"
proof -
  note F = frames_invD [OF pool_invD(1) [OF inv]] and H = holds_xD [OF h]
  show c: "cached p k i" by (rule F(6) [OF H(5)])
  then show i: "i < MEMORY_PAGE_LEN" "pf_present (fr p i)" "pg (pf_page (fr p i)) = k" by (simp_all add: cached_def)
  from c H(7) show j: "pf_dirty (fr p i)" "spare p j" "pg (pf_page (fr p j)) = k" by (auto simp: cached_def)
  then show r: "j \<notin> ran (ht_map (pg_ht p))" by (simp add: spare_def)
  with H(5) show "i \<noteq> j" by (auto intro: ranI)
  show l: "i < length (pg_pages p)" "j < length (pg_pages p)" using F(1) i(1) H(4) by simp_all
  show "wf_page (pf_page (fr p i))" "wf_page (pf_page (fr p j))" using F(5) i(1) H(4) by simp_all
  show "page_h_assert p h = Some ()" "page_h_pgno p h = Some k" "page_h_ro p h = Some (pf_page (fr p j))"
      "page_h_w p h = Some (pf_page (fr p j))"
    using H i j l by (simp_all add: page_h_assert_def page_h_pgno_def page_h_ro_def page_h_w_def)
  show "i \<in> used p" "j \<in> used p" using H(4,6) i j(2) by (simp_all add: used_def spare_def)
qed

text \<open>A holder is pinned, so taking a frame does not touch it.\<close>

lemma pool_kept_holds_s:
  assumes inv: "pool_inv p" and k: "pool_kept p q" and h: "holds_s p h k i"
  shows "holds_s q h k i" "fr q i = fr p i"
proof -
  note K = pool_keptD [OF k] and C = holds_s_cached [OF inv h] and H = holds_sD [OF h]
  show e: "fr q i = fr p i" by (rule K(4) [OF C(2,4) H(5)])
  show "holds_s q h k i" using h K(5) [OF C(2,4) H(5)] unfolding holds_s_def e by simp
qed

lemma pgr_make_writable_no_tx_ok:
  assumes inv: "pool_inv p" and h: "holds_s p h k i" and m: "frame_free p m"
  shows "\<exists>q j. pgr_make_writable_no_tx p h = Some (Inr (), h\<lparr>ph_pgw := Some j, ph_mode := PHM_X\<rparr>, q) \<and>
    holds_x q (h\<lparr>ph_pgw := Some j, ph_mode := PHM_X\<rparr>) k i j \<and> pool_step p q {i, j} \<and> (\<forall>l. unat l < unat (fp_npages (pg_fp p)) \<longrightarrow> pgr_page q l = pgr_page p l) \<and>
    raw (pf_page (fr q j)) = pgr_page p k \<and> pf_pin (fr q i) = pf_pin (fr p i) \<and> j \<notin> used p"
proof -
  note H = holds_sD [OF h] and C = holds_s_cached [OF inv h]
  from pgr_reserve_ok [OF inv m] obtain p1 where
    p1: "pgr_reserve_at_clock p = Some (Inr (), p1)" "pool_kept p p1" "\<not> pf_present (fr p1 (pg_clock p1))"
      "pg_clock p1 < MEMORY_PAGE_LEN" by blast
  define c where "c = pg_clock p1"
  note c = p1(3,4) [folded c_def]
  note K = pool_keptD [OF p1(2)] and h1 = pool_kept_holds_s [OF inv p1(2) h]
  note I1 = K(1) and F1 = frames_invD [OF pool_invD(1) [OF K(1)]] and C1 = holds_s_cached [OF K(1) h1(1)] and H1 = holds_sD [OF h1(1)]
  have ic: "i \<noteq> c" using C1(4) c(1) by auto
  have unused: "c \<notin> used p"
  proof
    assume "c \<in> used p"
    then have u: "c < MEMORY_PAGE_LEN" "pf_present (fr p c)" "pf_pin (fr p c) > 0" by (simp_all add: used_def)
    from K(4) [OF u] u c(1) show False by simp
  qed
  have ran: "c \<notin> ran (ht_map (pg_ht p1))" using F1(6) c(1) by (auto simp: ran_def cached_def)
  let ?f = "fr p1 i"
  let ?g = "if \<not> pf_dirty ?f then pf_set ?f PW_DIRTY else ?f"
  let ?w = "(pf_set ((fr p1 c)\<lparr>pf_pin := 1, pf_wsibling := -1, pf_flags := 0\<rparr>) PW_PRESENT)
    \<lparr>pf_page := \<lparr>raw = raw (pf_page ?g), pg = pg (pf_page ?g)\<rparr>, pf_pin := 2\<rparr>"
  define p2 where "p2 = put_frame p1 c ?w"
  have w: "pf_present ?w" "pf_pin ?w > 0" "wf_page (pf_page ?w)" "pg (pf_page ?w) = k" "raw (pf_page ?w) = raw (pf_page ?f)"
    using C1(5,6) by (simp_all add: frame wf_page_def)
  have "\<not> spare p1 c" using c(1) by (simp add: spare_def)
  then have s1: "pool_step p1 p2 {c}" "fr p2 c = ?w" "spare p2 c" "\<And>l. pgr_page p2 l = pgr_page p1 l"
    unfolding p2_def by (intro pool_set_spare [OF I1 c(2) ran]; use w in simp)+
  note I2 = pool_stepD(1) [OF s1(1)]
  have ht2: "pg_ht p2 = pg_ht p1" "fr p2 i = ?f" "pg_log p2 = pg_log p1" "pg_ww p2 = pg_ww p1" using ic by (simp_all add: p2_def)
  then have i2: "ht_map (pg_ht p2) k = Some i" using H1(4) by simp
  let ?r = "?g\<lparr>pf_wsibling := int c\<rparr>"
  define p3 where "p3 = put_frame p2 i ?r"
  have g: "pf_present ?r" "pg (pf_page ?r) = k" "wf_page (pf_page ?r)" "pf_dirty ?r" "pf_pin ?r > 0"
    using C1(4,5,6) H1(5) by (simp_all add: frame)
  have lsn: "lsn_below (raw (pf_page ?r)) (length (wal_log (pg_ww p2) (pg_log p2)))" if "wal_rule p2"
    using wal_ruleD(3) [OF that i2] ht2(2) by (simp add: frame)
  have s2: "pool_step p2 p3 {i}" "fr p3 i = ?r" "\<And>l. pgr_page p3 l = (if l = k then raw (pf_page ?r) else pgr_page p2 l)"
    unfolding p3_def by (intro pool_set_frame [OF I2 i2]; use g c(2) s1(2,3) w i2 lsn in \<open>auto simp: frame\<close>)+
  have run: "pgr_make_writable_no_tx p h = Some (Inr (), h\<lparr>ph_pgw := Some c, ph_mode := PHM_X\<rparr>, next_clock p3)"
  proof -
    have "c < length (pg_pages p1)" using F1(1) c(2) by simp
    moreover have "pager_assert p = Some ()" using frames_invD(2) [OF pool_invD(1) [OF inv]] by (simp add: pager_assert_def)
    ultimately show ?thesis
      using H(1,2) C(8) p1(1) C1(3)
      by (cases "pf_dirty ?f") (simp_all add: pgr_make_writable_no_tx_def c_def [symmetric] Let_def wrap32 frame
          p3_def p2_def put_frame_def list_update_swap [OF ic] numeral_2_eq_2)
  qed
  have kq: "pool_kept p3 (next_clock p3)" by (rule pool_kept_next_clock [OF pool_stepD(1) [OF s2(1)]])
  note S = pool_kept_step(1) [OF p1(2)] s1(1) s2(1) pool_kept_step(1) [OF kq]
  have "pool_step p (next_clock p3) ({} \<union> ({c} \<union> ({i} \<union> {})))"
    by (intro pool_step_trans [OF S(1)] pool_step_trans [OF S(2)] pool_step_trans [OF S(3)] S(4))
  then have st: "pool_step p (next_clock p3) {i, c}" by (rule pool_step_weaken) auto
  have pages3: "pgr_page p3 l = pgr_page p1 l" for l
    using s2(3) s1(4) H1(4) by (simp add: pgr_page_def frame)
  then have pages: "pgr_page (next_clock p3) l = pgr_page p l" if "unat l < unat (fp_npages (pg_fp p))" for l
    using K(3) [OF that] by simp
  have fc: "fr p3 c = ?w" using s1(2) ic by (simp add: p3_def)
  have x: "holds_x (next_clock p3) (h\<lparr>ph_pgw := Some c, ph_mode := PHM_X\<rparr>) k i c"
    using H(2) i2 g c(2) s2(2) by (simp add: holds_x_def p3_def)
  have "raw (pf_page (fr (next_clock p3) c)) = pgr_page p k"
    using fc w(5) H(4) h1(2) by (simp add: pgr_page_def)
  moreover have "pf_pin (fr (next_clock p3) i) = pf_pin (fr p i)" using s2(2) h1(2) by (simp add: frame)
  ultimately show ?thesis
    using run x st pages unused by (intro exI [of _ "next_clock p3"] exI [of _ c]) simp
qed

lemma pool_clear_sibling:
  assumes inv: "pool_inv p" and h: "holds_x p h k i j"
  defines "q \<equiv> put_frame p i ((fr p i)\<lparr>pf_wsibling := -1\<rparr>)"
  shows "pool_step p q {i}" "pgr_page q l = pgr_page p l" "fr q i = (fr p i)\<lparr>pf_wsibling := -1\<rparr>"
    "ht_map (pg_ht q) l = Some m \<Longrightarrow> pf_wsibling (fr q m) \<noteq> int j"
proof -
  note H = holds_xD [OF h] and C = holds_x_cached [OF inv h]
  let ?r = "(fr p i)\<lparr>pf_wsibling := -1\<rparr>"
  have s: "pool_step p q {i}" "fr q i = ?r" "\<And>l. pgr_page q l = (if l = k then raw (pf_page ?r) else pgr_page p l)"
    unfolding q_def by (intro pool_set_frame [OF inv H(5)]; use C in \<open>simp add: frame wal_ruleD(3) [OF _ H(5)]\<close>)+
  show "pool_step p q {i}" "fr q i = ?r" by fact+
  show "pgr_page q l = pgr_page p l" using s(3) H(5) by (simp add: pgr_page_def)
  show "pf_wsibling (fr q m) \<noteq> int j" if m: "ht_map (pg_ht q) l = Some m"
  proof
    assume w: "pf_wsibling (fr q m) = int j"
    have mi: "m \<noteq> i" using w s(2) by auto
    have "cached q l m" using frames_invD(6) [OF pool_invD(1) [OF pool_stepD(1) [OF s(1)]] m] .
    with w have "pg (pf_page (fr q j)) = l" by (auto simp: cached_def)
    with C(9,10) have "l = k" by (simp add: q_def)
    with m H(5) mi show False by (simp add: q_def)
  qed
qed

lemma pgr_drop_w_ok:
  assumes inv: "pool_inv p" and h: "holds_x p h k i j"
  shows "\<exists>q. pgr_drop_w p h = Some (h\<lparr>ph_pgw := None, ph_mode := PHM_S\<rparr>, q) \<and>
    holds_s q (h\<lparr>ph_pgw := None, ph_mode := PHM_S\<rparr>) k i \<and> pool_step p q {i, j} \<and> (\<forall>l. pgr_page q l = pgr_page p l) \<and>
    used q \<subseteq> used p - {j} \<and> fr q i = (fr p i)\<lparr>pf_wsibling := -1\<rparr>"
proof -
  note H = holds_xD [OF h] and C = holds_x_cached [OF inv h]
  let ?r = "(fr p i)\<lparr>pf_wsibling := -1\<rparr>" and ?w = "pf_clr ((fr p j)\<lparr>pf_flags := 0\<rparr>) PW_PRESENT"
  define p1 where "p1 = put_frame p i ?r"
  note s1 = pool_clear_sibling [OF inv h, folded p1_def]
  note I1 = pool_stepD(1) [OF s1(1)]
  have ran: "j \<notin> ran (ht_map (pg_ht p1))" using C(13) by (simp add: p1_def)
  define q where "q = put_frame p1 j ?w"
  have w: "\<not> pf_present ?w" "wf_page (pf_page ?w)" using C(12) by (simp_all add: frame)
  have unref: "pf_wsibling (fr p1 m) \<noteq> int j" if "ht_map (pg_ht p1) l = Some m" for l m
    by (rule s1(4) [OF that])
  have s2: "pool_step p1 q {j}" "used q \<subseteq> used p1 - {j}" "\<And>l. pgr_page q l = pgr_page p1 l"
    unfolding q_def by (rule pool_clear_spare [OF I1 H(4) ran]; use unref w in blast)+
  have run: "pgr_drop_w p h = Some (h\<lparr>ph_pgw := None, ph_mode := PHM_S\<rparr>, q)"
    using H C(3,4,10)
    by (simp add: pgr_drop_w_def q_def p1_def put_frame_def Let_def list_update_swap [OF C(10)])
  have "pool_step p q ({i} \<union> {j})" by (rule pool_step_trans [OF s1(1) s2(1)])
  then have st: "pool_step p q {i, j}" by (rule pool_step_weaken) auto
  have fi: "fr q i = ?r" using s1(3) C(10) by (simp add: q_def)
  have "used p1 \<subseteq> used p" using pool_stepD(4) [OF s1(1)] C(18) by auto
  with s2(2) have "used q \<subseteq> used p - {j}" by auto
  moreover have "holds_s q (h\<lparr>ph_pgw := None, ph_mode := PHM_S\<rparr>) k i"
    using H fi by (simp add: holds_s_def q_def p1_def)
  ultimately show ?thesis using run st fi s1(2) s2(3) by (intro exI [of _ q]) simp
qed

text \<open>The bytes of the sibling become those of the page.\<close>

lemma pgr_copy_back_ok:
  assumes inv: "pool_inv p" and h: "holds_x p h k i j"
    and lsn: "pg_wal_enabled p \<Longrightarrow> \<not> pg_restarting p \<Longrightarrow> wal_rule p \<Longrightarrow>
      lsn_below (raw (pf_page (fr p j))) (length (wal_log (pg_ww p) (pg_log p)))"
  shows "\<exists>q. pgr_copy_back p h = Some q \<and> holds_x q h k i j \<and> pool_step p q {i} \<and>
    (\<forall>l. pgr_page q l = (if l = k then raw (pf_page (fr p j)) else pgr_page p l)) \<and> used q = used p \<and>
    pf_pin (fr q i) = pf_pin (fr p i)"
proof -
  note H = holds_xD [OF h] and C = holds_x_cached [OF inv h]
  let ?r = "(fr p i)\<lparr>pf_page := (pf_page (fr p i))\<lparr>raw := raw (pf_page (fr p j))\<rparr>\<rparr>"
  define q where "q = put_frame p i ?r"
  have s: "pool_step p q {i}" "fr q i = ?r" "\<And>l. pgr_page q l = (if l = k then raw (pf_page ?r) else pgr_page p l)"
    unfolding q_def
    by (intro pool_set_frame [OF inv H(5)]; use C H lsn in \<open>auto simp: frame wf_page_def\<close>)+
  have "used q = used p"
    using used_put_frame [OF pool_invD(1) [OF inv] C(2), of ?r] C(5,18) H(6) by (auto simp: q_def frame)
  moreover have "holds_x q h k i j" using H s(2) by (simp add: holds_x_def q_def)
  moreover have "pgr_copy_back p h = Some q" using H C(3,4) by (simp add: pgr_copy_back_def q_def)
  ultimately show ?thesis using s by (intro exI [of _ q]) simp
qed

text \<open>Filling the sibling.\<close>

lemma page_h_w_put_ok:
  assumes inv: "pool_inv p" and h: "holds_x p h k i j" and x: "wf_page x" "pg x = k"
  shows "\<exists>q. page_h_w_put p h x = Some q \<and> holds_x q h k i j \<and> pool_step p q {j} \<and> (\<forall>l. pgr_page q l = pgr_page p l) \<and>
    used q = used p \<and> q = put_frame p j ((fr p j)\<lparr>pf_page := x\<rparr>) \<and> page_h_w q h = Some x \<and> pf_pin (fr q i) = pf_pin (fr p i)"
proof -
  note H = holds_xD [OF h] and C = holds_x_cached [OF inv h]
  let ?w = "(fr p j)\<lparr>pf_page := x\<rparr>"
  define q where "q = put_frame p j ?w"
  have w: "pf_present ?w" "pf_pin ?w > 0" "wf_page (pf_page ?w)" "spare p j \<longrightarrow> pg (pf_page ?w) = pg (pf_page (fr p j))"
    using C(8,9) x by (simp_all add: frame spare_def)
  note s = pool_set_spare [OF inv H(4) C(13) w, folded q_def]
  have u: "used q = used p"
    using used_put_frame [OF pool_invD(1) [OF inv] H(4), of ?w] w C(19) by (auto simp: q_def)
  have x: "holds_x q h k i j" using H C(10) by (simp add: holds_x_def q_def)
  have "page_h_w_put p h x = Some q" using H C(4,14) by (simp add: page_h_w_put_def q_def)
  moreover have "page_h_w q h = Some x"
    using holds_x_cached(17) [OF pool_stepD(1) [OF s(1)] x] s(2) by simp
  moreover have "pf_pin (fr q i) = pf_pin (fr p i)" using C(10) by (simp add: q_def)
  ultimately show ?thesis using s x u q_def by (intro exI [of _ q]) blast
qed

section \<open>The log grows\<close>

text \<open>What stays when an update is logged: everything but the log, the transactions and the table of dirty pages.\<close>

definition pgr_conf :: "pager \<Rightarrow> file_pager \<times> txn_table \<times> txid \<times> bool \<times> bool \<times> lsn \<times> pgno \<times> lsn \<times> pgr_allocs" where
  "pgr_conf p = (pg_fp p, pg_tnxt p, pg_next_tid p, pg_restarting p, pg_wal_enabled p, pg_master_lsn p,
     pg_first_tombstone p, pg_ckpt_begin_lsn p, pg_allocs p)"

abbreviation the_log :: "pager \<Rightarrow> u8 list" where
  "the_log p \<equiv> wal_log (pg_ww p) (pg_log p)"

definition pool_grow :: "pager \<Rightarrow> pager \<Rightarrow> nat set \<Rightarrow> u8 list \<Rightarrow> bool" where
  "pool_grow p q S rec \<longleftrightarrow> pool_inv q \<and> pgr_conf q = pgr_conf p \<and> others_kept p q S \<and> used q \<subseteq> used p \<union> S \<and>
     the_log q = the_log p @ rec \<and> (pg_wal_enabled p \<and> \<not> pg_restarting p \<and> wal_rule p \<longrightarrow> wal_rule q) \<and>
     file_len p \<le> file_len q"

lemma pgr_confD:
  assumes "pgr_conf q = pgr_conf p"
  shows "pg_fp q = pg_fp p" "pg_tnxt q = pg_tnxt p" "pg_next_tid q = pg_next_tid p" "pg_restarting q = pg_restarting p"
    "pg_wal_enabled q = pg_wal_enabled p" "pg_allocs q = pg_allocs p" "pg_master_lsn q = pg_master_lsn p"
    "pg_first_tombstone q = pg_first_tombstone p" "pg_ckpt_begin_lsn q = pg_ckpt_begin_lsn p"
  using assms by (simp_all add: pgr_conf_def)

lemma pool_growD:
  assumes "pool_grow p q S rec"
  shows "pool_inv q" "pgr_conf q = pgr_conf p" "others_kept p q S" "used q \<subseteq> used p \<union> S"
    "the_log q = the_log p @ rec" "pg_wal_enabled p \<Longrightarrow> \<not> pg_restarting p \<Longrightarrow> wal_rule p \<Longrightarrow> wal_rule q"
    "file_len p \<le> file_len q"
  using assms unfolding pool_grow_def by blast+

lemma pgr_rest_conf: "pgr_rest q = pgr_rest p \<Longrightarrow> pgr_conf q = pgr_conf p"
  by (simp add: pgr_rest_def pgr_conf_def)

lemma pool_step_grow:
  assumes "pool_step p q S"
  shows "pool_grow p q S []"
proof -
  note P = pool_stepD [OF assms]
  show ?thesis unfolding pool_grow_def append_Nil2 P(5) using P(1,3,4,6,7) pgr_rest_conf [OF P(2)] by blast
qed

lemma pool_grow_trans:
  assumes a: "pool_grow p q S x" and b: "pool_grow q r T y"
  shows "pool_grow p r (S \<union> T) (x @ y)"
proof -
  note A = pool_growD [OF a] and B = pool_growD [OF b]
  note R = pgr_confD(4,5) [OF A(2)]
  have "wal_rule r" if "pg_wal_enabled p" "\<not> pg_restarting p" "wal_rule p"
    using B(6) A(6) [OF that] that unfolding R by blast
  then show ?thesis
    using A(2,4,5,7) B(1,2,4,5,7) others_kept_trans [OF A(3) B(3)] unfolding pool_grow_def by auto
qed

lemma pool_log_step:
  assumes inv: "pool_inv p" and q: "pg_pages q = pg_pages p" "pg_ht q = pg_ht p" "pg_disk q = pg_disk p"
      "pg_clock q = pg_clock p" "pgr_conf q = pgr_conf p"
    and log: "log_inv q" "the_log q = the_log p @ rec" "length (d_durable (pg_log p)) \<le> length (d_durable (pg_log q))"
      "file_len p \<le> file_len q"
    and dpt: "dpt_dirty q"
  shows "pool_grow p q {} rec" "pgr_page q l = pgr_page p l" "used q = used p" "holds_x q h k i j = holds_x p h k i j"
    "holds_s q h k i = holds_s p h k i"
proof -
  note I = pool_invD [OF inv] and C = pgr_confD [OF q(5)]
  have [simp]: "spare q j = spare p j" "cached q k i = cached p k i" "used q = used p" for j k i
    by (simp_all add: spare_def cached_def used_def q C del: nth_fpgr_pages)
  from I log(1) dpt have "pool_inv q" by (simp add: pool_inv_def frames_inv_def q C)
  moreover have "wal_rule q" if w: "wal_rule p"
  proof -
    have "length (d_durable (pg_log q)) \<le> length (the_log q)"
      using log(1) wal_log_data [of "pg_ww q" "pg_log q"] by (auto simp: log_inv_def)
    moreover have "lsn_below x (length (the_log p)) \<Longrightarrow> lsn_below x (length (the_log q))" for x
      using log(2) by (auto intro: lsn_below_mono)
    ultimately show ?thesis
      using w log(3) unfolding wal_rule_def q C by (blast intro: lsn_below_mono)
  qed
  ultimately show "pool_grow p q {} rec" unfolding pool_grow_def using q log(2,4) by (simp add: others_kept_def)
  show "pgr_page q l = pgr_page p l" by (simp add: pgr_page_def q C del: nth_fpgr_pages split: option.split)
  show "used q = used p" by simp
  show "holds_x q h k i j = holds_x p h k i j" "holds_s q h k i = holds_s p h k i"
    by (simp_all add: holds_x_def holds_s_def q)
qed

text \<open>A page that is being written enters the table of dirty pages with its first update.\<close>

lemma pgr_dpt_note_ok:
  assumes inv: "pool_inv p" and k: "ht_map (pg_ht p) k = Some i" "pf_dirty (fr p i)"
  shows "\<exists>h t. pgr_dpt_note p k l = Some (Inr (), p\<lparr>pg_mem := (pg_mem p)\<lparr>wm_dpgs := h\<rparr>, pg_dpt := t\<rparr>) \<and>
    dpt_dirty (p\<lparr>pg_mem := (pg_mem p)\<lparr>wm_dpgs := h\<rparr>, pg_dpt := t\<rparr>) \<and>
    dpt_map h t = (case dpt_map (wm_dpgs (pg_mem p)) (pg_dpt p) k of
      None \<Rightarrow> (dpt_map (wm_dpgs (pg_mem p)) (pg_dpt p))(k \<mapsto> l) | Some _ \<Rightarrow> dpt_map (wm_dpgs (pg_mem p)) (pg_dpt p))"
proof -
  note I = pool_invD [OF inv] and F = frames_invD [OF pool_invD(1) [OF inv]]
  let ?h = "wm_dpgs (pg_mem p)" and ?t = "pg_dpt p"
  let ?m = "dpt_map ?h ?t"
  from I(4) have d: "dpt_inv ?h ?t" "dpt_cap ?t = DPT_CAP"
    "\<And>x. x \<in> dom ?m \<Longrightarrow> \<exists>i. ht_map (pg_ht p) x = Some i \<and> pf_dirty (fr p i)" by (simp_all add: dpt_dirty_def del: dom_dpt_map)
  have "unat k < 2 ^ 52" using F(6) [OF k(1)] npages_key [OF I(2)] by (simp add: cached_def)
  then have key: "dpt_key ?t k" using d(2) by (simp add: dpt_key_def DPT_CAP_def)
  note g = dpe_get_correct [OF d(1) key]
  show ?thesis
  proof (cases "?m k")
    case (Some e)
    with g I(4) show ?thesis
      by (intro exI [of _ ?h] exI [of _ ?t]) (simp add: pgr_dpt_note_def)
  next
    case None
    have "dom ?m \<subseteq> dom (ht_map (pg_ht p))" using d(3) by blast
    then have "card (dom ?m) \<le> card (dom (ht_map (pg_ht p)))" by (intro card_mono) simp_all
    also have "\<dots> \<le> card {..<MEMORY_PAGE_LEN}"
    proof (rule card_inj_on_le)
      show "inj_on (\<lambda>k. the (ht_map (pg_ht p) k)) (dom (ht_map (pg_ht p)))"
        using cached_inj [OF I(1)] by (auto simp: inj_on_def)
      show "(\<lambda>k. the (ht_map (pg_ht p) k)) ` dom (ht_map (pg_ht p)) \<subseteq> {..<MEMORY_PAGE_LEN}"
        using F(6) by (auto simp: cached_def)
    qed simp
    finally have "card (dom ?m) < dpt_cap ?t" using d(2) by (simp add: DPT_CAP_def)
    from dpgt_add_new [OF d(1) key None this] obtain h t where
      a: "dpgt_add ?h ?t k l = Some (Inr (), h, t)" "dpt_inv h t" "dpt_map h t = ?m(k \<mapsto> l)" "dpt_cap t = dpt_cap ?t" by blast
    let ?q = "p\<lparr>pg_mem := (pg_mem p)\<lparr>wm_dpgs := h\<rparr>, pg_dpt := t\<rparr>"
    have "\<exists>i. ht_map (pg_ht p) x = Some i \<and> pf_dirty (fr p i)" if "x \<in> dom (dpt_map h t)" for x
      using that d(3) k unfolding a(3) by (cases "x = k") auto
    then have "dpt_dirty ?q" using a(2,4) d(2) by (simp add: dpt_dirty_def del: dom_dpt_map)
    then show ?thesis using g None a(1,3)
      by (intro exI [of _ h] exI [of _ t]) (simp add: pgr_dpt_note_def)
  qed
qed

section \<open>An update is logged\<close>

text \<open>The record of an update: the transaction, its last record, the bytes before and after.\<close>

definition update_of :: "txn \<Rightarrow> pgno \<Rightarrow> u8 list \<Rightarrow> u8 list \<Rightarrow> wal_rec_hdr_write" where
  "update_of t k old new = W_Update
     \<lparr>wu_tid = tx_tid t, wu_prev = td_last_lsn (tx_data t), wu_pg = k, wu_undo = old, wu_redo = new\<rparr>"

definition upd_image :: "pager \<Rightarrow> txn \<Rightarrow> pgno \<Rightarrow> u8 list \<Rightarrow> u8 list \<Rightarrow> u8 list" where
  "upd_image p t k old new = rec_image (pg_mem p) (update_of t k old new)"

lemma length_upd_image:
  "length old = PAGE_SIZE \<Longrightarrow> length new = PAGE_SIZE \<Longrightarrow> length (upd_image p t k old new) = WL_UPDATE_LEN"
  by (simp add: upd_image_def update_of_def rec_image_def WL_UPDATE_LEN_def)

lemma pgr_txn_set_ok:
  assumes "pgr_txn p tx = Some t"
  shows "\<exists>h. pgr_txn_set p tx data = Some (p\<lparr>pg_mem := (pg_mem p)\<lparr>wm_txns := h\<rparr>\<rparr>) \<and>
    (\<forall>x. heap_get h x = (if x = tx then Some (t\<lparr>tx_data := data\<rparr>) else heap_get (wm_txns (pg_mem p)) x))"
proof -
  from assms have t: "heap_get (wm_txns (pg_mem p)) tx = Some t" by (simp add: pgr_txn_def)
  from heap_put_live [OF t] obtain h where h: "heap_put (wm_txns (pg_mem p)) tx (t\<lparr>tx_data := data\<rparr>) = Some h" by blast
  from heap_get_put [OF h] h t show ?thesis by (intro exI [of _ h]) (simp add: pgr_txn_set_def txn_update_def)
qed

lemma pgr_log_update_ok:
  assumes inv: "pool_inv p" and h: "holds_x p h k i j" and tx: "ph_tx h = Some tx" "pgr_txn p tx = Some t"
    and room: "length (the_log p) + WL_UPDATE_LEN < 2 ^ 63"
  defines "l \<equiv> of_nat (length (the_log p)) :: lsn"
    and "rec \<equiv> upd_image p t k (pgr_page p k) (raw (pf_page (fr p j)))"
  shows "\<exists>q. pgr_log_update p h = Some (Inr (), q) \<and> holds_x q h k i j \<and> pool_grow p q {j} rec \<and>
    (\<forall>l. pgr_page q l = pgr_page p l) \<and> used q = used p \<and>
    raw (pf_page (fr q j)) = set_lsn (raw (pf_page (fr p j))) l \<and> pf_pin (fr q i) = pf_pin (fr p i) \<and>
    lsn_below (raw (pf_page (fr q j))) (length (the_log q)) \<and>
    pgr_txn q tx = Some (t\<lparr>tx_data := (tx_data t)\<lparr>td_last_lsn := l, td_undo_next_lsn := l\<rparr>\<rparr>) \<and>
    (\<forall>x. x \<noteq> tx \<longrightarrow> pgr_txn q x = pgr_txn p x) \<and> k \<in> dom (dpt_map (wm_dpgs (pg_mem q)) (pg_dpt q))"
proof -
  note I = pool_invD [OF inv] and H = holds_xD [OF h] and C = holds_x_cached [OF inv h]
  have old: "raw (pf_page (fr p i)) = pgr_page p k" using H(5) by (simp add: pgr_page_def)
  have len: "length (pgr_page p k) = PAGE_SIZE" "length (raw (pf_page (fr p j))) = PAGE_SIZE"
    using C(11,12) by (simp_all add: wf_page_def old)
  let ?r = "update_of t k (pgr_page p k) (raw (pf_page (fr p j)))"
  have ok: "rec_ok (pg_mem p) ?r" using len by (simp add: update_of_def)
  have lr: "length rec = WL_UPDATE_LEN" using len by (simp add: rec_def length_upd_image)
  have "length (the_log p) + length (rec_image (pg_mem p) ?r) < 2 ^ 63"
    using room lr by (simp add: rec_def upd_image_def)
  from pgr_append_ok [OF I(3) ok this] obtain w d where
    a: "pgr_append p ?r = Some (Inr l, p\<lparr>pg_ww := w, pg_log := d\<rparr>)" "log_inv (p\<lparr>pg_ww := w, pg_log := d\<rparr>)"
      "wal_log w d = the_log p @ rec" "length (d_durable (pg_log p)) \<le> length (d_durable d)" "grows (pg_log p) d"
    unfolding l_def rec_def upd_image_def by blast
  define p1 where "p1 = p\<lparr>pg_ww := w, pg_log := d\<rparr>"
  have "dpt_dirty p1" using I(4) by (simp add: dpt_dirty_def p1_def)
  then have s1: "pool_grow p p1 {} rec" "\<And>l. pgr_page p1 l = pgr_page p l" "used p1 = used p" "holds_x p1 h k i j"
    using pool_log_step [OF inv, of p1 rec] h a growsD [OF a(5)] by (auto simp: p1_def pgr_conf_def)
  note I1 = pool_growD(1) [OF s1(1)]
  let ?x = "page_set_page_lsn (pf_page (fr p j)) l"
  have raw_x: "raw ?x = set_lsn (raw (pf_page (fr p j))) l" by (simp add: raw_set_lsn)
  have x: "wf_page ?x" "pg ?x = k" using C(9) len by (simp_all add: wf_page_def raw_set_lsn)
  from page_h_w_put_ok [OF I1 s1(4) x] obtain p2 where
    s2: "page_h_w_put p1 h ?x = Some p2" "holds_x p2 h k i j" "pool_step p1 p2 {j}" "\<And>l. pgr_page p2 l = pgr_page p1 l"
      "used p2 = used p1" "page_h_w p2 h = Some ?x" "pf_pin (fr p2 i) = pf_pin (fr p1 i)" by blast
  note I2 = pool_stepD(1) [OF s2(3)]
  have x2: "pf_page (fr p2 j) = ?x" using s2(6) holds_x_cached(17) [OF I2 s2(2)] by simp
  note R2 = pgr_restD [OF pool_stepD(2) [OF s2(3)]]
  have t2: "pgr_txn p2 tx = Some t" "pg_mem p2 = pg_mem p" using tx(2) R2 by (simp_all add: pgr_txn_def p1_def)
  from pgr_txn_set_ok [OF t2(1)] obtain g where
    s3: "pgr_txn_set p2 tx ((tx_data t)\<lparr>td_last_lsn := l, td_undo_next_lsn := l\<rparr>) = Some (p2\<lparr>pg_mem := (pg_mem p2)\<lparr>wm_txns := g\<rparr>\<rparr>)"
      "\<And>x. heap_get g x = (if x = tx then Some (t\<lparr>tx_data := (tx_data t)\<lparr>td_last_lsn := l, td_undo_next_lsn := l\<rparr>\<rparr>)
        else heap_get (wm_txns (pg_mem p2)) x)" by blast
  define p3 where "p3 = p2\<lparr>pg_mem := (pg_mem p2)\<lparr>wm_txns := g\<rparr>\<rparr>"
  have "dpt_dirty p3" "log_inv p3" using pool_invD(3,4) [OF I2] by (simp_all add: p3_def dpt_dirty_def log_inv_def)
  then have s3': "pool_grow p2 p3 {} []" "\<And>l. pgr_page p3 l = pgr_page p2 l" "used p3 = used p2" "holds_x p3 h k i j"
    using pool_log_step [OF I2, of p3 "[]"] s2(2) by (simp_all add: p3_def pgr_conf_def)
  note I3 = pool_growD(1) [OF s3'(1)]
  note H3 = holds_xD [OF s3'(4)] and C3 = holds_x_cached [OF I3 s3'(4)]
  from pgr_dpt_note_ok [OF I3 H3(5) C3(7)] obtain g' t' where
    s4: "pgr_dpt_note p3 k l = Some (Inr (), p3\<lparr>pg_mem := (pg_mem p3)\<lparr>wm_dpgs := g'\<rparr>, pg_dpt := t'\<rparr>)"
      "dpt_dirty (p3\<lparr>pg_mem := (pg_mem p3)\<lparr>wm_dpgs := g'\<rparr>, pg_dpt := t'\<rparr>)"
      "dpt_map g' t' = (case dpt_map (wm_dpgs (pg_mem p3)) (pg_dpt p3) k of
        None \<Rightarrow> (dpt_map (wm_dpgs (pg_mem p3)) (pg_dpt p3))(k \<mapsto> l) | Some _ \<Rightarrow> dpt_map (wm_dpgs (pg_mem p3)) (pg_dpt p3))"
    by blast
  define q where "q = p3\<lparr>pg_mem := (pg_mem p3)\<lparr>wm_dpgs := g'\<rparr>, pg_dpt := t'\<rparr>"
  have "log_inv q" using pool_invD(3) [OF I3] by (simp add: q_def log_inv_def)
  then have s4': "pool_grow p3 q {} []" "\<And>l. pgr_page q l = pgr_page p3 l" "used q = used p3" "holds_x q h k i j"
    using pool_log_step [OF I3, of q "[]"] s3'(4) s4(2) by (simp_all add: q_def pgr_conf_def)
  have "pool_grow p q ({} \<union> ({j} \<union> ({} \<union> {}))) (rec @ ([] @ ([] @ [])))"
    by (intro pool_grow_trans [OF s1(1)] pool_grow_trans [OF pool_step_grow [OF s2(3)]] pool_grow_trans [OF s3'(1)] s4'(1))
  then have grow: "pool_grow p q {j} rec" by simp
  have run: "pgr_log_update p h = Some (Inr (), q)"
  proof -
    have "page_h_w p1 h = Some (pf_page (fr p j))" using holds_x_cached(17) [OF I1 s1(4)] by (simp add: p1_def)
    then show ?thesis
      using tx C(3,4,15) H(2,3) a(1) s2(1) s3(1) s4(1)
      by (simp add: pgr_log_update_def old update_of_def [symmetric] p1_def [symmetric] p3_def [symmetric] q_def [symmetric])
  qed
  have rq: "raw (pf_page (fr q j)) = set_lsn (raw (pf_page (fr p j))) l" using x2 raw_x by (simp add: q_def p3_def)
  have "unat l < length (the_log q)"
    using room lr pool_growD(5) [OF grow] by (simp add: l_def unat_of_nat take_bit_nat_eq_self WL_UPDATE_LEN_def)
  then have "lsn_below (raw (pf_page (fr q j))) (length (the_log q))" unfolding rq by (rule lsn_below_set_lsn [OF len(2)])
  moreover have "k \<in> dom (dpt_map (wm_dpgs (pg_mem q)) (pg_dpt q))"
    using s4(3) by (auto simp: q_def dom_def simp del: dom_dpt_map split: option.splits)
  moreover have "pf_pin (fr q i) = pf_pin (fr p i)" using s2(7) by (simp add: q_def p3_def p1_def)
  moreover have "\<And>x. pgr_txn q x = (if x = tx then Some (t\<lparr>tx_data := (tx_data t)\<lparr>td_last_lsn := l, td_undo_next_lsn := l\<rparr>\<rparr>)
      else pgr_txn p x)"
    using s3(2) t2(2) by (simp add: q_def p3_def pgr_txn_def)
  ultimately show ?thesis
    using run s4'(2,3,4) s3'(2,3) s2(4,5) s1(2,3) grow rq by (intro exI [of _ q]) simp
qed

section \<open>Saving and releasing\<close>

definition stamp :: "pager \<Rightarrow> u8 list \<Rightarrow> u8 list" where
  \<comment> \<open>what saving makes of the bytes of the sibling\<close>
  "stamp p new = (if pg_wal_enabled p then set_lsn new (of_nat (length (the_log p))) else new)"

definition logged :: "pager \<Rightarrow> ptr \<Rightarrow> pgno \<Rightarrow> u8 list \<Rightarrow> u8 list" where
  "logged p tx k new = (if pg_wal_enabled p then upd_image p (the (pgr_txn p tx)) k (pgr_page p k) new else [])"

definition txns_after :: "pager \<Rightarrow> ptr \<Rightarrow> ptr \<Rightarrow> txn option" where
  "txns_after p tx = (if pg_wal_enabled p
     then (pgr_txn p)(tx := map_option (\<lambda>t. t\<lparr>tx_data := (tx_data t)
       \<lparr>td_last_lsn := of_nat (length (the_log p)), td_undo_next_lsn := of_nat (length (the_log p))\<rparr>\<rparr>) (pgr_txn p tx))
     else pgr_txn p)"

lemma pgr_save_ok:
  assumes inv: "pool_inv p" and h: "holds_x p h k i j"
    and tx: "pg_wal_enabled p \<Longrightarrow> ph_tx h = Some tx \<and> pgr_txn p tx \<noteq> None \<and> length (the_log p) + WL_UPDATE_LEN < 2 ^ 63"
    and v: "valid_bytes (raw (pf_page (fr p j))) flags"
  defines "h' \<equiv> h\<lparr>ph_pgw := None, ph_mode := PHM_S\<rparr>" and "new \<equiv> raw (pf_page (fr p j))"
  shows "\<exists>q. pgr_save p h flags = Some (Inr (), h', q) \<and> holds_s q h' k i \<and> pool_grow p q {i, j} (logged p tx k new) \<and>
    (\<forall>l. pgr_page q l = (if l = k then stamp p new else pgr_page p l)) \<and> used q \<subseteq> used p - {j} \<and>
    pf_pin (fr q i) = pf_pin (fr p i) \<and> pgr_txn q = txns_after p tx"
proof -
  note C = holds_x_cached [OF inv h]
  have "\<exists>p1. (if pg_wal_enabled p then pgr_log_update p h else Some (Inr (), p)) = Some (Inr (), p1) \<and>
      holds_x p1 h k i j \<and> pool_grow p p1 {j} (logged p tx k new) \<and> (\<forall>l. pgr_page p1 l = pgr_page p l) \<and> used p1 = used p \<and>
      raw (pf_page (fr p1 j)) = stamp p new \<and> pf_pin (fr p1 i) = pf_pin (fr p i) \<and> pgr_txn p1 = txns_after p tx \<and>
      (pg_wal_enabled p \<longrightarrow> lsn_below (raw (pf_page (fr p1 j))) (length (the_log p1)))"
  proof (cases "pg_wal_enabled p")
    case True
    with tx obtain t where t: "ph_tx h = Some tx" "pgr_txn p tx = Some t" "length (the_log p) + WL_UPDATE_LEN < 2 ^ 63" by blast
    from pgr_log_update_ok [OF inv h t] obtain q where
      q: "pgr_log_update p h = Some (Inr (), q)" "holds_x q h k i j" "pool_grow p q {j} (upd_image p t k (pgr_page p k) new)"
        "\<And>l. pgr_page q l = pgr_page p l" "used q = used p"
        "raw (pf_page (fr q j)) = set_lsn new (of_nat (length (the_log p)))" "pf_pin (fr q i) = pf_pin (fr p i)"
        "lsn_below (raw (pf_page (fr q j))) (length (the_log q))"
        "pgr_txn q tx = Some (t\<lparr>tx_data := (tx_data t)\<lparr>td_last_lsn := of_nat (length (the_log p)),
          td_undo_next_lsn := of_nat (length (the_log p))\<rparr>\<rparr>)" "\<And>x. x \<noteq> tx \<Longrightarrow> pgr_txn q x = pgr_txn p x"
      unfolding new_def by blast
    have "pgr_txn q = txns_after p tx" using q(9,10) t(2) True by (auto simp: txns_after_def)
    with q t True show ?thesis by (intro exI [of _ q]) (simp add: logged_def stamp_def)
  next
    case False
    have "pool_grow p p {j} []" using inv by (auto simp: pool_grow_def others_kept_def)
    with False h show ?thesis by (intro exI [of _ p]) (simp add: logged_def stamp_def txns_after_def new_def)
  qed
  then obtain p1 where
    p1: "(if pg_wal_enabled p then pgr_log_update p h else Some (Inr (), p)) = Some (Inr (), p1)"
      "holds_x p1 h k i j" "pool_grow p p1 {j} (logged p tx k new)" "\<And>l. pgr_page p1 l = pgr_page p l" "used p1 = used p"
      "raw (pf_page (fr p1 j)) = stamp p new" "pf_pin (fr p1 i) = pf_pin (fr p i)" "pgr_txn p1 = txns_after p tx"
      "pg_wal_enabled p \<Longrightarrow> lsn_below (raw (pf_page (fr p1 j))) (length (the_log p1))" by blast
  note I1 = pool_growD(1) [OF p1(3)] and E = pgr_confD(5) [OF pool_growD(2) [OF p1(3)]]
  from pgr_copy_back_ok [OF I1 p1(2)] p1(9) E obtain p2 where
    p2: "pgr_copy_back p1 h = Some p2" "holds_x p2 h k i j" "pool_step p1 p2 {i}"
      "\<And>l. pgr_page p2 l = (if l = k then raw (pf_page (fr p1 j)) else pgr_page p1 l)" "used p2 = used p1"
      "pf_pin (fr p2 i) = pf_pin (fr p1 i)" by auto
  note I2 = pool_stepD(1) [OF p2(3)]
  from pgr_drop_w_ok [OF I2 p2(2)] obtain q where
    q: "pgr_drop_w p2 h = Some (h', q)" "holds_s q h' k i" "pool_step p2 q {i, j}" "\<And>l. pgr_page q l = pgr_page p2 l"
      "used q \<subseteq> used p2 - {j}" "fr q i = (fr p2 i)\<lparr>pf_wsibling := -1\<rparr>" unfolding h'_def by blast
  have "pool_grow p q ({j} \<union> ({i} \<union> {i, j})) (logged p tx k new @ ([] @ []))"
    by (intro pool_grow_trans [OF p1(3)] pool_grow_trans [OF pool_step_grow [OF p2(3)]] pool_step_grow [OF q(3)])
  then have "pool_grow p q {i, j} (logged p tx k new)" by (simp add: insert_commute)
  moreover have "pgr_save p h flags = Some (Inr (), h', q)"
  proof -
    have "page_validate_for_db (pf_page (fr p j)) flags = Some (Inr ())" using v by (simp add: valid_bytes_iff)
    moreover have "pager_assert p = Some ()" using frames_invD(2) [OF pool_invD(1) [OF inv]] by (simp add: pager_assert_def)
    ultimately show ?thesis
      using C(17) holds_xD(1) [OF h] p1(1) p2(1) q(1) unfolding pgr_save_def by simp
  qed
  moreover have "pgr_txn q = pgr_txn p1"
    using pgr_restD(3) [OF pool_stepD(2) [OF q(3)]] pgr_restD(3) [OF pool_stepD(2) [OF p2(3)]] by (auto simp: pgr_txn_def)
  ultimately show ?thesis
    using q(2,4,5,6) p2(4,5,6) p1(4,5,6,7,8) by (intro exI [of _ q]) simp
qed

lemma pgr_unpin_ok:
  assumes inv: "pool_inv p" and h: "holds_s p h k i" and v: "valid_bytes (pgr_page p k) flags" and pin: "pf_pin (fr p i) < 2 ^ 32"
  defines "h' \<equiv> h\<lparr>ph_pgr := None, ph_mode := PHM_NONE\<rparr>"
  shows "\<exists>q. pgr_unpin p h flags = Some (Inr (), h', q) \<and> pool_step p q {i} \<and> (\<forall>l. pgr_page q l = pgr_page p l) \<and>
    used q = (if pf_pin (fr p i) = 1 then used p - {i} else used p) \<and> pf_pin (fr q i) = pf_pin (fr p i) - 1"
proof -
  note H = holds_sD [OF h] and C = holds_s_cached [OF inv h]
  have page: "raw (pf_page (fr p i)) = pgr_page p k" using H(4) by (simp add: pgr_page_def)
  let ?f = "(fr p i)\<lparr>pf_pin := pf_pin (fr p i) - 1\<rparr>"
  define q where "q = put_frame p i ?f"
  have s: "pool_step p q {i}" "fr q i = ?f" "\<And>l. pgr_page q l = (if l = k then raw (pf_page ?f) else pgr_page p l)"
    unfolding q_def
    by (intro pool_set_frame [OF inv H(4)]; use C H in \<open>auto simp: frame cached_def wal_ruleD(3) [OF _ H(4)]\<close>)+
  have "page_validate_for_db (pf_page (fr p i)) flags = Some (Inr ())" using v by (simp add: valid_bytes_iff page)
  moreover have "pager_assert p = Some ()" using frames_invD(2) [OF pool_invD(1) [OF inv]] by (simp add: pager_assert_def)
  moreover have "sub32 (pf_pin (fr p i)) 1 = pf_pin (fr p i) - 1" using pin H(5) by (simp add: wrap32)
  ultimately have "pgr_unpin p h flags = Some (Inr (), h', q)"
    using H(2) C(3) by (simp add: pgr_unpin_def q_def h'_def)
  moreover have "used q = (if pf_pin (fr p i) = 1 then used p - {i} else used p)"
    using used_put_frame [OF pool_invD(1) [OF inv] C(2), of ?f] C(4,11) H(5) by (auto simp: q_def frame)
  moreover have "pgr_page q l = pgr_page p l" for l using s(3) page by simp
  ultimately show ?thesis using s(1,2) by (intro exI [of _ q]) simp
qed

end
