(* ===== verification/Pager_Client.thy ===== *)
theory Pager_Client
  imports Pager_Write
begin

text \<open>
  The pager as its clients see it: an array of pages and a log.

  \<open>pager_read\<close> and \<open>pager_write\<close> are the two ways the cursors use handles: get a page, read it, release it;
  get a page to write, change its bytes, release it. \<open>view\<close> is the state they see, with no frames, no
  clock and no file, and \<open>view_step\<close> what an access does to it: a read gives the bytes, a write
  replaces them, stamped with the position of the record it appends, which holds the bytes before and
  after. The theorems say that any sequence of accesses does just that, whatever the pool evicts on the
  way, and that the write-ahead rule holds throughout.
\<close>

section \<open>Reading and writing through a handle\<close>

definition pager_read :: "u8 \<Rightarrow> pgno \<Rightarrow> pager \<Rightarrow> (u8 list res \<times> pager) option" where
  "pager_read flags k p = do {
     (r, h, p) \<leftarrow> pgr_get page_h_create flags k p;
     case r of
       Inl e \<Rightarrow> Some (Inl e, p)
     | Inr _ \<Rightarrow> do {
         x \<leftarrow> page_h_r p h;
         (r, h, p) \<leftarrow> pgr_release p h flags;
         Some (case r of Inl e \<Rightarrow> Inl e | Inr _ \<Rightarrow> Inr (raw x), p) } }"

definition pager_write :: "u8 \<Rightarrow> ptr \<Rightarrow> (u8 list \<Rightarrow> u8 list) \<Rightarrow> pgno \<Rightarrow> pager \<Rightarrow> (unit res \<times> pager) option" where
  "pager_write flags tx f k p = do {
     (r, h, p) \<leftarrow> pgr_get_writable page_h_create tx flags k p;
     case r of
       Inl e \<Rightarrow> Some (Inl e, p)
     | Inr _ \<Rightarrow> do {
         x \<leftarrow> page_h_w p h;
         p \<leftarrow> page_h_w_put p h (x\<lparr>raw := f (raw x)\<rparr>);
         (r, h, p) \<leftarrow> pgr_release p h flags;
         Some (r, p) } }"

definition idle :: "pager \<Rightarrow> bool" where
  "idle p \<longleftrightarrow> pool_inv p \<and> used p = {}"

text \<open>What an access keeps.\<close>

definition idle_grow :: "pager \<Rightarrow> pager \<Rightarrow> u8 list \<Rightarrow> bool" where
  "idle_grow p q rec \<longleftrightarrow> idle q \<and> pgr_conf q = pgr_conf p \<and> the_log q = the_log p @ rec \<and>
     (pg_wal_enabled p \<and> \<not> pg_restarting p \<and> wal_rule p \<longrightarrow> wal_rule q)"

lemma pool_grow_idle: "pool_grow p q S rec \<Longrightarrow> used q = {} \<Longrightarrow> idle_grow p q rec"
  by (simp add: pool_grow_def idle_grow_def idle_def)

lemma holds_none_create: "holds_none page_h_create"
  by (simp add: holds_none_def page_h_create_def)

lemma pgr_fetch_idle:
  assumes idle: "idle p" and k: "unat k < unat (fp_npages (pg_fp p))"
    and v: "\<forall>x. raw x = pgr_page p k \<longrightarrow> verify x = Some (Inr ())"
  shows "\<exists>h q i. pgr_fetch verify page_h_create k p = Some (Inr (), h, q) \<and> holds_s q h k i \<and>
    pool_step p q {i} \<and> same_pages p q \<and> pf_pin (fr q i) = 1 \<and> used q \<subseteq> {i}"
proof -
  from idle have inv: "pool_inv p" and u: "used p = {}" by (simp_all add: idle_def)
  note F = frames_invD [OF pool_invD(1) [OF inv]]
  have "\<exists>h q i. pgr_fetch verify page_h_create k p = Some (Inr (), h, q) \<and> holds_s q h k i \<and>
      pool_step p q {i} \<and> same_pages p q \<and> pf_pin (fr q i) = 1"
  proof (cases "ht_map (pg_ht p) k")
    case None
    have "frame_free p 0" using u by (auto simp: frame_free_def used_def)
    from pgr_fetch_miss [OF inv holds_none_create k v None this] show ?thesis by blast
  next
    case (Some i)
    have c: "i < MEMORY_PAGE_LEN" "pf_present (fr p i)" using F(6) [OF Some] by (simp_all add: cached_def)
    with u have pin: "pf_pin (fr p i) = 0" by (auto simp: used_def)
    have "pf_pin (fr p i) < 2 ^ 32 - 1" unfolding pin by simp
    from pgr_fetch_hit [OF inv holds_none_create k v Some unpinned_cached(2) [OF pool_invD(1) [OF inv] c pin] this]
    show ?thesis using pin by auto
  qed
  then show ?thesis using pool_stepD(4) u by fastforce
qed

lemma pgr_release_shared_ok:
  assumes inv: "pool_inv p" and h: "holds_s p h k i" and v: "valid_bytes (pgr_page p k) flags" and pin: "pf_pin (fr p i) < 2 ^ 32"
  shows "\<exists>q. pgr_release p h flags = Some (Inr (), h\<lparr>ph_pgr := None, ph_mode := PHM_NONE\<rparr>, q) \<and> pool_step p q {i} \<and>
    (\<forall>l. pgr_page q l = pgr_page p l) \<and> used q = (if pf_pin (fr p i) = 1 then used p - {i} else used p)"
proof -
  have "pager_assert p = Some ()" using frames_invD(2) [OF pool_invD(1) [OF inv]] by (simp add: pager_assert_def)
  with pgr_unpin_ok [OF inv h v pin] holds_sD(1) [OF h] holds_s_cached(8) [OF inv h]
  show ?thesis by (auto simp: pgr_release_def)
qed

lemma pager_read_ok:
  assumes idle: "idle p" and k: "unat k < unat (fp_npages (pg_fp p))" and v: "valid_bytes (pgr_page p k) flags"
  shows "\<exists>q. pager_read flags k p = Some (Inr (pgr_page p k), q) \<and> idle_grow p q [] \<and> same_pages p q \<and> pgr_txn q = pgr_txn p"
proof -
  have "\<forall>x. raw x = pgr_page p k \<longrightarrow> page_validate_for_db x flags = Some (Inr ())"
    using v by (simp add: valid_bytes_iff)
  from pgr_fetch_idle [OF idle k this] obtain h p1 i where
    g: "pgr_get page_h_create flags k p = Some (Inr (), h, p1)" "holds_s p1 h k i" "pool_step p p1 {i}" "same_pages p p1"
      "pf_pin (fr p1 i) = 1" "used p1 \<subseteq> {i}" unfolding pgr_get_def by blast
  note I1 = pool_stepD(1) [OF g(3)]
  have page: "pgr_page p1 k = pgr_page p k" using g(4) k by (simp add: same_pages_def)
  have r: "page_h_r p1 h = Some (pf_page (fr p1 i))" by (rule holds_s_cached(10) [OF I1 g(2)])
  have "raw (pf_page (fr p1 i)) = pgr_page p k" using holds_sD(4) [OF g(2)] page by (simp add: pgr_page_def)
  moreover from v have "valid_bytes (pgr_page p1 k) flags" by (simp add: page)
  from pgr_release_shared_ok [OF I1 g(2) this] g(5) obtain q where
    q: "pgr_release p1 h flags = Some (Inr (), h\<lparr>ph_pgr := None, ph_mode := PHM_NONE\<rparr>, q)" "pool_step p1 q {i}"
      "\<And>l. pgr_page q l = pgr_page p1 l" "used q = used p1 - {i}" by auto
  ultimately have "pager_read flags k p = Some (Inr (pgr_page p k), q)"
    using g(1) r by (simp add: pager_read_def)
  moreover have st: "pool_step p q ({i} \<union> {i})" by (rule pool_step_trans [OF g(3) q(2)])
  moreover have "same_pages p q" using g(4) q(3) by (simp add: same_pages_def)
  moreover have "used q = {}" using q(4) g(6) by auto
  moreover have "pgr_txn q = pgr_txn p" using pgr_restD(3) [OF pool_stepD(2) [OF st]] by (simp add: pgr_txn_def fun_eq_iff)
  ultimately show ?thesis using pool_grow_idle [OF pool_step_grow [OF st]] by blast
qed

lemma pager_write_ok:
  assumes idle: "idle p" and k: "unat k < unat (fp_npages (pg_fp p))" and v: "valid_bytes (pgr_page p k) flags"
    and new: "valid_bytes (f (pgr_page p k)) flags" "length (f (pgr_page p k)) = PAGE_SIZE"
    and tx: "pg_wal_enabled p \<Longrightarrow> pgr_txn p tx \<noteq> None \<and> length (the_log p) + WL_UPDATE_LEN < 2 ^ 63"
  shows "\<exists>q. pager_write flags tx f k p = Some (Inr (), q) \<and> idle_grow p q (logged p tx k (f (pgr_page p k))) \<and>
    (\<forall>l. unat l < unat (fp_npages (pg_fp p)) \<longrightarrow>
      pgr_page q l = (if l = k then stamp p (f (pgr_page p k)) else pgr_page p l)) \<and> pgr_txn q = txns_after p tx"
proof -
  let ?new = "f (pgr_page p k)"
  have "\<forall>x. raw x = pgr_page p k \<longrightarrow> page_validate_for_db x flags = Some (Inr ())"
    using v by (simp add: valid_bytes_iff)
  from pgr_fetch_idle [OF idle k this] obtain h1 p1 i where
    g: "pgr_get page_h_create flags k p = Some (Inr (), h1, p1)" "holds_s p1 h1 k i" "pool_step p p1 {i}" "same_pages p p1"
      "pf_pin (fr p1 i) = 1" "used p1 \<subseteq> {i}" unfolding pgr_get_def by blast
  note I1 = pool_stepD(1) [OF g(3)] and R1 = pgr_restD [OF pool_stepD(2) [OF g(3)]]
  have page1: "pgr_page p1 l = pgr_page p l" if "unat l < unat (fp_npages (pg_fp p))" for l using g(4) that by (simp add: same_pages_def)
  have "card (used p1) \<le> card {i}" by (rule card_mono) (simp_all add: g(6))
  then have "card (used p1) < MEMORY_PAGE_LEN" by simp
  from used_free [OF this] obtain m where m: "frame_free p1 m" by blast
  define h2 where "h2 = (\<lambda>j. h1\<lparr>ph_pgw := Some j, ph_mode := PHM_X, ph_tx := Some tx\<rparr>)"
  from pgr_make_writable_no_tx_ok [OF I1 g(2) m] obtain p2 j where
    w: "pgr_make_writable_no_tx p1 h1 = Some (Inr (), h1\<lparr>ph_pgw := Some j, ph_mode := PHM_X\<rparr>, p2)"
      "holds_x p2 (h1\<lparr>ph_pgw := Some j, ph_mode := PHM_X\<rparr>) k i j" "pool_step p1 p2 {i, j}"
      "\<And>l. unat l < unat (fp_npages (pg_fp p1)) \<Longrightarrow> pgr_page p2 l = pgr_page p1 l"
      "raw (pf_page (fr p2 j)) = pgr_page p1 k" "pf_pin (fr p2 i) = pf_pin (fr p1 i)" by blast
  note I2 = pool_stepD(1) [OF w(3)] and R2 = pgr_restD [OF pool_stepD(2) [OF w(3)]]
  have get: "pgr_get_writable page_h_create tx flags k p = Some (Inr (), h2 j, p2)"
    using g(1) w(1) by (simp add: pgr_get_writable_def pgr_make_writable_def h2_def)
  have x2: "holds_x p2 (h2 j) k i j" using w(2) by (simp add: holds_x_def h2_def)
  note C2 = holds_x_cached [OF I2 x2]
  let ?x = "(pf_page (fr p2 j))\<lparr>raw := ?new\<rparr>"
  have x: "wf_page ?x" "pg ?x = k" using C2(9) new(2) by (simp_all add: wf_page_def)
  from page_h_w_put_ok [OF I2 x2 x] obtain p3 where
    s: "page_h_w_put p2 (h2 j) ?x = Some p3" "holds_x p3 (h2 j) k i j" "pool_step p2 p3 {j}"
      "\<And>l. pgr_page p3 l = pgr_page p2 l" "used p3 = used p2" "page_h_w p3 (h2 j) = Some ?x" "pf_pin (fr p3 i) = pf_pin (fr p2 i)" by blast
  note I3 = pool_stepD(1) [OF s(3)] and R3 = pgr_restD [OF pool_stepD(2) [OF s(3)]]
  note C3 = holds_x_cached [OF I3 s(2)]
  have x3: "raw (pf_page (fr p3 j)) = ?new" using s(6) C3(17) by simp
  have log3: "the_log p3 = the_log p" using pool_stepD(5) [OF g(3)] pool_stepD(5) [OF w(3)] pool_stepD(5) [OF s(3)] by simp
  have R: "pg_fp p3 = pg_fp p" "pg_mem p3 = pg_mem p" "pg_wal_enabled p3 = pg_wal_enabled p" "pg_restarting p3 = pg_restarting p"
    by (simp_all add: R1 R2 R3)
  have txn3: "pgr_txn p3 = pgr_txn p" by (simp add: pgr_txn_def R fun_eq_iff)
  have page3: "pgr_page p3 l = pgr_page p l" if "unat l < unat (fp_npages (pg_fp p))" for l
    using s(4) w(4) [of l] page1 [OF that] that by (simp add: R1)
  have "valid_bytes (raw (pf_page (fr p3 j))) flags" using new(1) by (simp add: x3)
  moreover have "pg_wal_enabled p3 \<Longrightarrow> ph_tx (h2 j) = Some tx \<and> pgr_txn p3 tx \<noteq> None \<and> length (the_log p3) + WL_UPDATE_LEN < 2 ^ 63"
    using tx by (simp add: R(3) txn3 log3 h2_def)
  ultimately obtain p4 where
    sv: "pgr_save p3 (h2 j) flags = Some (Inr (), (h2 j)\<lparr>ph_pgw := None, ph_mode := PHM_S\<rparr>, p4)"
      "holds_s p4 ((h2 j)\<lparr>ph_pgw := None, ph_mode := PHM_S\<rparr>) k i" "pool_grow p3 p4 {i, j} (logged p3 tx k ?new)"
      "\<And>l. pgr_page p4 l = (if l = k then stamp p3 ?new else pgr_page p3 l)" "used p4 \<subseteq> used p3 - {j}"
      "pf_pin (fr p4 i) = pf_pin (fr p3 i)" "pgr_txn p4 = txns_after p3 tx"
    using pgr_save_ok [OF I3 s(2)] unfolding x3 by blast
  note I4 = pool_growD(1) [OF sv(3)]
  have eq: "stamp p3 ?new = stamp p ?new" "logged p3 tx k ?new = logged p tx k ?new" "txns_after p3 tx = txns_after p tx"
    by (simp_all add: stamp_def logged_def txns_after_def R log3 txn3 page3 [OF k] upd_image_def)
  have pin4: "pf_pin (fr p4 i) = 1" using sv(6) s(7) w(6) g(5) by simp
  have v4: "valid_bytes (pgr_page p4 k) flags" using new by (simp add: sv(4) stamp_def)
  obtain q where
    q: "pgr_unpin p4 ((h2 j)\<lparr>ph_pgw := None, ph_mode := PHM_S\<rparr>) flags =
        Some (Inr (), (h2 j)\<lparr>ph_pgw := None, ph_mode := PHM_S\<rparr>\<lparr>ph_pgr := None, ph_mode := PHM_NONE\<rparr>, q)"
      "pool_step p4 q {i}" "\<And>l. pgr_page q l = pgr_page p4 l" "used q = used p4 - {i}"
    using pgr_unpin_ok [OF I4 sv(2) v4] pin4 by auto
  have "pager_assert p3 = Some ()" using frames_invD(2) [OF pool_invD(1) [OF I3]] by (simp add: pager_assert_def)
  then have "pager_write flags tx f k p = Some (Inr (), q)"
    using get C2(17) w(5) page1 [OF k] s(1) C3(15) holds_xD(1) [OF s(2)] sv(1) q(1)
    by (simp add: pager_write_def pgr_release_def)
  moreover have "pool_grow p q ({i} \<union> ({i, j} \<union> ({j} \<union> ({i, j} \<union> {i})))) ([] @ ([] @ ([] @ (logged p3 tx k ?new @ []))))"
    by (intro pool_grow_trans [OF pool_step_grow [OF g(3)]] pool_grow_trans [OF pool_step_grow [OF w(3)]]
        pool_grow_trans [OF pool_step_grow [OF s(3)]] pool_grow_trans [OF sv(3)] pool_step_grow [OF q(2)])
  moreover have "used q = {}"
  proof -
    have "used p2 \<subseteq> {i, j}" using pool_stepD(4) [OF w(3)] g(6) by auto
    with s(5) sv(5) q(4) show ?thesis by auto
  qed
  ultimately have "pager_write flags tx f k p = Some (Inr (), q)" "idle_grow p q (logged p tx k ?new)"
    using pool_grow_idle by (simp_all add: eq)
  moreover have "pgr_txn q = pgr_txn p4" using pgr_restD(3) [OF pool_stepD(2) [OF q(2)]] by (simp add: pgr_txn_def fun_eq_iff)
  ultimately show ?thesis using q(3) sv(4,7) page3 by (intro exI [of _ q]) (simp add: eq)
qed

section \<open>The pager is an array of pages and a log\<close>

record view =
  vw_npages :: nat
  vw_pages :: "pgno \<Rightarrow> u8 list"
  vw_wal :: bool
  vw_log :: "u8 list"
  vw_txns :: "ptr \<Rightarrow> txn option"

definition view_of :: "pager \<Rightarrow> view" where
  "view_of p = \<lparr>vw_npages = unat (fp_npages (pg_fp p)),
     vw_pages = (\<lambda>k. if unat k < unat (fp_npages (pg_fp p)) then pgr_page p k else []),
     vw_wal = pg_wal_enabled p, vw_log = the_log p, vw_txns = pgr_txn p\<rparr>"

datatype access = Rd u8 pgno | Wr u8 ptr pgno "u8 list \<Rightarrow> u8 list"

fun view_step :: "access \<Rightarrow> view \<Rightarrow> u8 list \<times> view" where
  "view_step (Rd flags k) v = (vw_pages v k, v)"
| "view_step (Wr flags tx k f) v =
     (let old = vw_pages v k; new = f old; l = of_nat (length (vw_log v)) in
      if vw_wal v
      then ([], v\<lparr>vw_pages := (vw_pages v)(k := set_lsn new l),
                  vw_log := vw_log v @ rec_image no_mem (update_of (the (vw_txns v tx)) k old new),
                  vw_txns := (vw_txns v)(tx := map_option (\<lambda>t. t\<lparr>tx_data := (tx_data t)
                    \<lparr>td_last_lsn := l, td_undo_next_lsn := l\<rparr>\<rparr>) (vw_txns v tx))\<rparr>)
      else ([], v\<lparr>vw_pages := (vw_pages v)(k := new)\<rparr>))"

text \<open>What a client has to keep: the page is there and passes the validation it asks for, before and after;
  the transaction is there; and the log stays below the largest offset of a file.\<close>

fun access_ok :: "access \<Rightarrow> view \<Rightarrow> bool" where
  "access_ok (Rd flags k) v \<longleftrightarrow> unat k < vw_npages v \<and> valid_bytes (vw_pages v k) flags"
| "access_ok (Wr flags tx k f) v \<longleftrightarrow> unat k < vw_npages v \<and> valid_bytes (vw_pages v k) flags \<and>
     valid_bytes (f (vw_pages v k)) flags \<and> length (f (vw_pages v k)) = PAGE_SIZE \<and>
     (vw_wal v \<longrightarrow> vw_txns v tx \<noteq> None \<and> length (vw_log v) + WL_UPDATE_LEN < 2 ^ 63)"

fun view_run :: "access list \<Rightarrow> view \<Rightarrow> u8 list list \<times> view" where
  "view_run [] v = ([], v)"
| "view_run (a # as) v = (let (x, v) = view_step a v; (xs, v) = view_run as v in (x # xs, v))"

fun accesses_ok :: "access list \<Rightarrow> view \<Rightarrow> bool" where
  "accesses_ok [] v = True"
| "accesses_ok (a # as) v \<longleftrightarrow> access_ok a v \<and> accesses_ok as (snd (view_step a v))"

fun pager_access :: "access \<Rightarrow> pager \<Rightarrow> (u8 list res \<times> pager) option" where
  "pager_access (Rd flags k) p = pager_read flags k p"
| "pager_access (Wr flags tx k f) p = do {
     (r, p) \<leftarrow> pager_write flags tx f k p;
     Some (case r of Inl e \<Rightarrow> Inl e | Inr _ \<Rightarrow> Inr [], p) }"

fun pager_run :: "access list \<Rightarrow> pager \<Rightarrow> (u8 list res list \<times> pager) option" where
  "pager_run [] p = Some ([], p)"
| "pager_run (a # as) p = do {
     (r, p) \<leftarrow> pager_access a p;
     (rs, p) \<leftarrow> pager_run as p;
     Some (r # rs, p) }"

lemma rec_image_update: "rec_image m (update_of t k x y) = rec_image no_mem (update_of t k x y)"
  by (simp add: rec_image_def update_of_def)

lemma idle_growD:
  assumes "idle_grow p q rec"
  shows "idle q" "pgr_conf q = pgr_conf p" "the_log q = the_log p @ rec"
    "pg_wal_enabled p \<Longrightarrow> \<not> pg_restarting p \<Longrightarrow> wal_rule p \<Longrightarrow> wal_rule q"
  using assms unfolding idle_grow_def by blast+

lemma pager_access_ok:
  assumes idle: "idle p" and ok: "access_ok a (view_of p)"
  shows "\<exists>q rec. pager_access a p = Some (Inr (fst (view_step a (view_of p))), q) \<and> view_of q = snd (view_step a (view_of p)) \<and>
    idle_grow p q rec"
proof (cases a)
  case (Rd flags k)
  with ok have k: "unat k < unat (fp_npages (pg_fp p))" "valid_bytes (pgr_page p k) flags" by (auto simp: view_of_def)
  from pager_read_ok [OF idle k] obtain q where
    q: "pager_read flags k p = Some (Inr (pgr_page p k), q)" "idle_grow p q []" "same_pages p q" "pgr_txn q = pgr_txn p" by blast
  note G = idle_growD [OF q(2)]
  have "view_of q = view_of p"
    using q(3,4) G(3) by (simp add: view_of_def pgr_confD [OF G(2)] same_pages_def fun_eq_iff)
  moreover have "vw_pages (view_of p) k = pgr_page p k" using k(1) by (simp add: view_of_def)
  ultimately show ?thesis using q(1,2) Rd by (intro exI [of _ q] exI [of _ "[]"]) simp
next
  case (Wr flags tx k f)
  with ok have k: "unat k < unat (fp_npages (pg_fp p))" "valid_bytes (pgr_page p k) flags"
    "valid_bytes (f (pgr_page p k)) flags" "length (f (pgr_page p k)) = PAGE_SIZE"
    "pg_wal_enabled p \<Longrightarrow> pgr_txn p tx \<noteq> None \<and> length (the_log p) + WL_UPDATE_LEN < 2 ^ 63" by (auto simp: view_of_def)
  from pager_write_ok [where f = f, OF idle k] obtain q where
    q: "pager_write flags tx f k p = Some (Inr (), q)" "idle_grow p q (logged p tx k (f (pgr_page p k)))"
      "\<And>l. unat l < unat (fp_npages (pg_fp p)) \<Longrightarrow> pgr_page q l = (if l = k then stamp p (f (pgr_page p k)) else pgr_page p l)"
      "pgr_txn q = txns_after p tx" by blast
  note G = idle_growD [OF q(2)]
  have pages: "(\<lambda>l. if unat l < unat (fp_npages (pg_fp p)) then pgr_page q l else []) =
      (\<lambda>l. if unat l < unat (fp_npages (pg_fp p)) then pgr_page p l else [])(k := stamp p (f (pgr_page p k)))"
    using q(3) k(1) by (auto simp: fun_eq_iff)
  have "view_of q = snd (view_step a (view_of p))"
    unfolding view_of_def [of q] pgr_confD [OF G(2)] pages G(3) q(4)
    using k(1) by (simp add: Wr view_of_def stamp_def logged_def txns_after_def Let_def upd_image_def rec_image_update [of "pg_mem p"])
  with q(1,2) Wr show ?thesis
    by (intro exI [of _ q] exI [of _ "logged p tx k (f (pgr_page p k))"]) (simp add: Let_def)
qed

lemma pager_run_ok:
  "idle p \<Longrightarrow> accesses_ok as (view_of p) \<Longrightarrow>
   \<exists>q rec. pager_run as p = Some (map Inr (fst (view_run as (view_of p))), q) \<and> view_of q = snd (view_run as (view_of p)) \<and>
     idle_grow p q rec"
proof (induction as arbitrary: p)
  case Nil
  then show ?case by (auto simp: idle_grow_def)
next
  case (Cons a as)
  from Cons.prems have "access_ok a (view_of p)" "accesses_ok as (snd (view_step a (view_of p)))" by simp_all
  from pager_access_ok [OF Cons.prems(1) this(1)] this(2) obtain q rec where
    q: "pager_access a p = Some (Inr (fst (view_step a (view_of p))), q)" "view_of q = snd (view_step a (view_of p))"
      "idle_grow p q rec" "accesses_ok as (view_of q)" by metis
  from Cons.IH [OF idle_growD(1) [OF q(3)] q(4)] obtain r rec' where
    r: "pager_run as q = Some (map Inr (fst (view_run as (view_of q))), r)" "view_of r = snd (view_run as (view_of q))"
      "idle_grow q r rec'" by blast
  have "idle_grow p r (rec @ rec')"
    using idle_growD [OF r(3)] idle_growD [OF q(3)] pgr_confD(4,5) [OF idle_growD(2) [OF q(3)]] unfolding idle_grow_def by simp
  moreover obtain x v where xv: "view_step a (view_of p) = (x, v)" by fastforce
  moreover obtain xs w where "view_run as v = (xs, w)" by fastforce
  ultimately show ?case using q r by (intro exI [of _ r] exI [of _ "rec @ rec'"]) simp
qed

end
