(* ===== verification/Wal_Faults.thy ===== *)
theory Wal_Faults
  imports Wal_Log
begin

text \<open>
The log under faults. The lemmas on the log that rely on \<open>no_fail\<close> say that an operation succeeds; here the system calls of the log's
file may do anything, and what an operation that \<^emph>\<open>reports\<close> success has done is the same: an append has put its record behind the
log, and a flush has made the whole log durable.
\<close>

section \<open>System calls\<close>

lemma sys_next_disk: "sys_next d = (r, d') \<Longrightarrow> d_data d' = d_data d \<and> d_durable d' = d_durable d"
  by (auto simp: sys_next_def split: list.splits)

lemma i_open_ok: "i_open d = (Inr fp, d') \<Longrightarrow> f_pos fp = 0 \<and> d_data d' = d_data d \<and> d_durable d' = d_durable d"
  by (auto simp: i_open_def sys_call_def dest: sys_next_disk split: prod.splits sysres.splits sum.splits)

lemma i_seek_end_ok:
  "i_seek fp d 0 I_SEEK_END = (Inr n, fp', d') \<Longrightarrow>
   n = length (d_data d) \<and> f_pos fp' = length (d_data d) \<and> d_data d' = d_data d \<and> d_durable d' = d_durable d"
  by (auto simp: i_seek_def sys_call_def Let_def dest: sys_next_disk split: prod.splits sysres.splits sum.splits if_splits)

lemma i_fsync_ok: "i_fsync d = (Inr (), d') \<Longrightarrow> d_data d' = d_data d \<and> d_durable d' = d_data d"
  by (auto simp: i_fsync_def sys_call_def dest!: sys_next_disk split: prod.splits sysres.splits sum.splits)

lemma not_Inl: "\<forall>e. a \<noteq> Inl e \<Longrightarrow> \<exists>x. a = Inr x"
  by (cases a) auto

section \<open>The output stream\<close>

lemma walos_open_ok:
  assumes "walos_open mem d = Some (Inr w, d')" and "\<And>b. mem = Some b \<Longrightarrow> length b = WAL_BUFFER_CAP"
    and "length (d_data d) < 9223372036854775808"
  shows "wos_inv w d' \<and> wos_log w d' = d_data d \<and> \<not> wo_latch w \<and> d_data d' = d_data d \<and> d_durable d' = d_durable d"
proof -
  obtain buf where mem: "mem = Some buf" using assms(1) by (cases mem) (simp_all add: walos_open_def)
  obtain fp d1 where o: "i_open d = (Inr fp, d1)" using assms(1) mem by (auto simp: walos_open_def split: sum.splits prod.splits)
  obtain n fp2 d2 where s: "i_seek fp d1 0 I_SEEK_END = (Inr n, fp2, d2)"
    using assms(1) mem o by (auto simp: walos_open_def split: sum.splits prod.splits)
  have "0 < WAL_BUFFER_CAP" "WAL_BUFFER_CAP \<le> 2 ^ 31" by (simp_all add: WAL_BUFFER_CAP_def)
  from cbuffer_create_correct [OF this assms(2) [OF mem]] obtain b where
    b: "cbuffer_create buf WAL_BUFFER_CAP = Some b" "cb_wf b" "cb_list b = []" "cb_cap b = WAL_BUFFER_CAP" by blast
  have w: "w = \<lparr>wo_fd = fp2, wo_latch = False, wo_flushed_lsn = of_nat n, wo_buffer = b\<rparr>" "d' = d2"
    using assms(1) mem o s b(1) by (simp_all add: walos_open_def)
  show ?thesis
    using i_open_ok [OF o] i_seek_end_ok [OF s] assms(3) b by (auto simp: w wos_inv_def wos_log_def)
qed

lemma walos_flush_ok:
  assumes inv: "wos_inv w d" and l: "l \<le> length (wos_log w d)"
    and run: "walos_flush_to_impl w d (of_nat l) lock = Some (Inr (), w', d')"
  shows "\<not> wo_latch w' \<and> wos_inv w' d' \<and> wos_log w' d' = wos_log w d \<and> d_durable d' = d_data d' \<and>
    (if l > length (d_data d) then d_data d' = wos_log w d else d_data d' = d_data d \<and> wo_buffer w' = wo_buffer w)"
proof -
  note D = wos_invD [OF inv]
  let ?n = "cbuffer_len (wo_buffer w)"
  obtain w0 where w0: "(if lock then wo_lock w else Some w) = Some w0" "wo_buffer w0 = wo_buffer w" "wo_fd w0 = wo_fd w"
      "wo_flushed_lsn w0 = wo_flushed_lsn w"
    using run by (cases lock; cases "wo_latch w") (auto simp: walos_flush_to_impl_def wo_lock_def)
  have len: "length (wos_log w d) = length (d_data d) + ?n" by (simp add: wos_log_def)
  have next_lsn: "wo_flushed_lsn w + of_nat ?n = of_nat (length (wos_log w d))" using D(4) len by simp
  have "unat (of_nat (length (d_data d)) :: u64) = length (d_data d)" by (rule unat_of_nat64) (use D(5) in simp)
  moreover have "unat (of_nat l :: u64) = l" by (rule unat_of_nat64) (use l len D(5) in simp)
  ultimately have gt: "wo_flushed_lsn w < of_nat l \<longleftrightarrow> length (d_data d) < l"
    by (simp only: D(4) word_less_nat_alt)
  show ?thesis
  proof (cases "length (d_data d) < l")
    case False
    obtain d1 where f: "i_fsync d = (Inr (), d1)" "w' = wo_unlock w0" "d' = d1"
      using run w0 gt False by (auto simp: walos_flush_to_impl_def Let_def split: if_splits prod.splits)
    then show ?thesis using inv i_fsync_ok [OF f(1)] w0 False by (simp add: wos_inv_def wos_log_def wo_unlock_def)
  next
    case True
    have bound: "min ?n ?n < 2147483648" using D(6) by simp
    from cbuffer_write_to_file_1_correct [OF D(1) bound, of "wo_fd w" d] obtain r fd d1 where
      wr: "OS_File.wrote (wo_fd w) d (take ?n (cb_list (wo_buffer w))) r fd d1"
        "cbuffer_write_to_file_1 (wo_fd w) d (wo_buffer w) ?n = Some (map_sum id (\<lambda>_. ?n) r, fd, d1)" by auto
    have r: "r = Inr ()"
    proof (cases r)
      case (Inl e)
      with run w0 gt True wr(2) show ?thesis
        by (simp add: walos_flush_to_impl_def cbuffer_write_to_file_1_expect_def Let_def split: if_splits)
    qed simp
    let ?b = "cb_consume (wo_buffer w) ?n"
    have b: "cbuffer_write_to_file_2 (wo_buffer w) ?n = Some ?b"
      by (rule cbuffer_write_to_file_2_correct [OF D(1) order_refl])
    have d1: "d_data d1 = wos_log w d" "f_pos fd = length (wos_log w d)"
      using wr(1) r D(3) by (auto simp: OS_File.wrote_def wos_log_def file_put_end)
    obtain d2 where f: "i_fsync d1 = (Inr (), d2)" "d' = d2"
        "w' = wo_unlock (w0\<lparr>wo_fd := fd, wo_buffer := ?b, wo_flushed_lsn := wo_flushed_lsn w + of_nat ?n\<rparr>)"
      using run w0 gt True wr(2) r b
      by (auto simp: walos_flush_to_impl_def cbuffer_write_to_file_1_expect_def Let_def split: if_splits prod.splits)
    have "cb_list ?b = []" using D(1) by simp
    then show ?thesis using i_fsync_ok [OF f(1)] d1 D(1,2,5) True len next_lsn f(2,3)
      by (simp add: wos_inv_def wos_log_def wo_unlock_def)
  qed
qed

lemma walos_write_loop_ok:
  "wos_inv w d \<Longrightarrow> written \<le> length data \<Longrightarrow> length data < 4294967296 \<Longrightarrow>
   length (wos_log w d) + (length data - written) < 9223372036854775808 \<Longrightarrow>
   walos_write_loop w d data written = Some (Inr (), w', d') \<Longrightarrow>
   wos_inv w' d' \<and> wos_log w' d' = wos_log w d @ drop written data \<and> grows d d'"
proof (induction "length data - written" arbitrary: w d written rule: less_induct)
  case less
  note step = walos_write_loop.simps [of w d data written]
  show ?case
  proof (cases "written < length data")
    case False
    with less.prems(1,5) show ?thesis unfolding step by (auto simp: grows_same)
  next
    case True
    note D = wos_invD [OF less.prems(1)]
    let ?n = "length data - written"
    have av: "cbuffer_avail (wo_buffer w) = Some (WAL_BUFFER_CAP - cbuffer_len (wo_buffer w))" using D(1,2) by simp
    have log: "wo_flushed_lsn w + of_nat (cbuffer_len (wo_buffer w)) = of_nat (length (wos_log w d))"
      by (simp add: D(4) wos_log_def)
    obtain w1 d1 where w1: "(if WAL_BUFFER_CAP - cbuffer_len (wo_buffer w) < ?n
        then walos_flush_to_impl w d (of_nat (length (wos_log w d))) False else Some (Inr (), w, d)) = Some (Inr (), w1, d1)"
      using less.prems(5) True unfolding step av log
      by (auto simp: bind_eq_Some_conv split: if_splits sum.splits dest!: not_Inl)
    have kept: "wos_inv w1 d1 \<and> wos_log w1 d1 = wos_log w d \<and> cbuffer_len (wo_buffer w1) < WAL_BUFFER_CAP \<and> grows d d1"
    proof (cases "WAL_BUFFER_CAP - cbuffer_len (wo_buffer w) < ?n")
      case False
      with w1 True D(6) less.prems(1) show ?thesis by (auto simp: WAL_BUFFER_CAP_def grows_same)
    next
      case f: True
      then have run: "walos_flush_to_impl w d (of_nat (length (wos_log w d))) False = Some (Inr (), w1, d1)" using w1 by simp
      note F = walos_flush_ok [OF less.prems(1) order_refl run]
      have "\<exists>x. d_data d1 = d_data d @ x" using F by (auto simp: wos_log_def split: if_splits)
      with F have x: "grows d d1" by (auto intro: grows_synced)
      have "cbuffer_len (wo_buffer w1) = 0"
      proof (cases "length (wos_log w d) > length (d_data d)")
        case True
        with F have "cb_list (wo_buffer w1) = []" by (auto simp: wos_log_def)
        then show ?thesis by (simp add: cb_list_Nil_iff)
      next
        case False
        with F show ?thesis by (simp add: wos_log_def)
      qed
      with F x show ?thesis by (simp add: WAL_BUFFER_CAP_def)
    qed
    note D1 = wos_invD [OF conjunct1 [OF kept]]
    define k where "k = min ?n (WAL_BUFFER_CAP - cbuffer_len (wo_buffer w1))"
    have av1: "cbuffer_avail (wo_buffer w1) = Some (WAL_BUFFER_CAP - cbuffer_len (wo_buffer w1))" using D1(1,2) by simp
    have k: "0 < k" "k \<le> ?n" "k * 1 \<le> cb_cap (wo_buffer w1) - cbuffer_len (wo_buffer w1)" "k * 1 \<le> length (drop written data)"
      using True kept D1(2) by (auto simp: k_def)
    from cbuffer_write_expect_correct [OF D1(1) zero_less_one k(1,3,4)] obtain b where
      b: "cbuffer_write_expect (drop written data) 1 k (wo_buffer w1) = Some b" "cb_wf b"
        "cb_cap b = cb_cap (wo_buffer w1)" "cb_list b = cb_list (wo_buffer w1) @ take k (drop written data)" by auto
    let ?w2 = "w1\<lparr>wo_buffer := b\<rparr>"
    have log2: "wos_log ?w2 d1 = wos_log w d @ take k (drop written data)" using kept b(4) by (simp add: wos_log_def)
    have inv2: "wos_inv ?w2 d1" using D1 b(2,3) less.prems(4) log2 by (simp add: wos_inv_def)
    have "walos_write_loop w d data written = walos_write_loop ?w2 d1 data (written + k)"
      unfolding step if_P [OF True] av Option.bind.simps log w1(1) using av1 k(1) b(1) True kept
      by (simp add: k_def [symmetric] Let_def)
    then have run: "walos_write_loop ?w2 d1 data (written + k) = Some (Inr (), w', d')" using less.prems(5) by simp
    have lt: "length data - (written + k) < length data - written" "written + k \<le> length data" using k True by simp_all
    have room: "length (wos_log ?w2 d1) + (length data - (written + k)) < 9223372036854775808"
      using less.prems(4) k(2) by (simp add: log2 min_absorb2)
    have split: "take k (drop written data) @ drop (written + k) data = drop written data"
      using append_take_drop_id [of k "drop written data"] by (simp add: add.commute)
    from less.hyps [OF lt(1) inv2 lt(2) less.prems(3) room run]
    have "wos_inv w' d'" "wos_log w' d' = wos_log ?w2 d1 @ drop (written + k) data" "grows d1 d'" by blast+
    moreover from this(2) have "wos_log w' d' = wos_log w d @ drop written data" unfolding log2 append_assoc split .
    ultimately show ?thesis using grows_trans kept by blast
  qed
qed

lemma walos_write_all_ok:
  assumes "wos_inv w d" and "length data < 4294967296" and "length (wos_log w d) + length data < 9223372036854775808"
    and run: "walos_write_all w d cs data = Some (Inr (), cs', w', d')"
  shows "wos_inv w' d' \<and> \<not> wo_latch w' \<and> wos_log w' d' = wos_log w d @ data \<and> grows d d' \<and>
    cs' = map_option (\<lambda>c. NOT (foldl crc_step (NOT c) data)) cs"
proof -
  let ?w = "w\<lparr>wo_latch := True\<rparr>"
  have i: "wos_inv ?w d" "wos_log ?w d = wos_log w d" using assms(1) by (simp_all add: wos_inv_def wos_log_def)
  obtain w1 where r: "walos_write_loop ?w d data 0 = Some (Inr (), w1, d')" "w' = wo_unlock w1"
      "cs' = map_option (\<lambda>c. NOT (foldl crc_step (NOT c) data)) cs"
    using run by (auto simp: walos_write_all_def wo_lock_def checksum_execute_def bind_eq_Some_conv split: option.splits if_splits)
  from walos_write_loop_ok [OF i(1) le0 assms(2) _ r(1)] assms(3)
  have "wos_inv w1 d'" "wos_log w1 d' = wos_log w d @ data" "grows d d'" by (simp_all add: i(2))
  then show ?thesis using r(2,3) assms(3) by (simp add: wo_unlock_def wos_inv_def wos_log_def)
qed

section \<open>The log file\<close>

definition buf_ok :: "u8 list option \<Rightarrow> bool" where
  "buf_ok mem \<longleftrightarrow> (\<forall>b. mem = Some b \<longrightarrow> length b = WAL_BUFFER_CAP)"

definition wf_done :: "wal_file \<Rightarrow> disk \<Rightarrow> wal_file \<Rightarrow> disk \<Rightarrow> u8 list \<Rightarrow> bool" where
  \<comment> \<open>\<open>wf_step\<close> without the promise that the next system calls succeed\<close>
  "wf_done w d w' d' bs \<longleftrightarrow> wf_str w' d' \<and> wf_ostream w' \<noteq> None \<and> wf_log w' d' = wf_log w d @ bs \<and> grows d d'"

lemma wf_done_trans: "wf_done w d w1 d1 a \<Longrightarrow> wf_done w1 d1 w2 d2 b \<Longrightarrow> wf_done w d w2 d2 (a @ b)"
  by (auto simp: wf_done_def intro: grows_trans)

lemma ostream_init_ok:
  assumes "wf_str w d" and "buf_ok mem" and run: "walf_lazy_ostream_init mem w d = Some (Inr (), w', d')"
  shows "wf_done w d w' d' [] \<and> wf_latch w' = wf_latch w"
proof (cases "wf_ostream w")
  case None
  have l: "length (d_data d) < 9223372036854775808" using assms(1) None by (simp add: wf_str_def wf_log_def)
  obtain os where o: "walos_open mem d = Some (Inr os, d')" "w' = w\<lparr>wf_ostream := Some os\<rparr>"
    using run None by (auto simp: walf_lazy_ostream_init_def bind_eq_Some_conv split: sum.splits dest!: not_Inl)
  have b: "length x = WAL_BUFFER_CAP" if "mem = Some x" for x using assms(2) that by (simp add: buf_ok_def)
  from walos_open_ok [OF o(1) b l] show ?thesis
    using None assms(1) o(2) by (simp add: wf_done_def wf_str_def wf_log_def grows_same)
next
  case (Some os)
  with assms show ?thesis by (auto simp: walf_lazy_ostream_init_def wf_done_def grows_same)
qed

lemma walf_put_ok:
  assumes "wf_str w d" and "length x < 4294967296" and "length (wf_log w d) + length x < 9223372036854775808"
    and run: "walf_put w d cs x = Some (Inr (), cs', w', d')"
  shows "wf_done w d w' d' x \<and> wf_latch w' = wf_latch w \<and> cs' = map_option (\<lambda>c. NOT (foldl crc_step (NOT c) x)) cs"
proof -
  obtain os os' where o: "wf_ostream w = Some os" "walos_write_all os d cs x = Some (Inr (), cs', os', d')" "w' = w\<lparr>wf_ostream := Some os'\<rparr>"
    using run by (auto simp: walf_put_def bind_eq_Some_conv)
  have i: "wos_inv os d" "length (wos_log os d) + length x < 9223372036854775808"
    using assms(1,3) o(1) by (simp_all add: wf_str_def wf_log_def)
  from walos_write_all_ok [OF i(1) assms(2) i(2) o(2)] show ?thesis
    using o(1,3) i(2) by (simp add: wf_done_def wf_str_def wf_log_def)
qed

lemma walf_put_all_ok:
  "wf_str w d \<Longrightarrow> wf_ostream w \<noteq> None \<Longrightarrow> \<forall>x \<in> set xs. length x < 4294967296 \<Longrightarrow>
   length (wf_log w d) + length (concat xs) < 9223372036854775808 \<Longrightarrow>
   walf_put_all w d cs xs = Some (Inr (), cs', w', d') \<Longrightarrow>
   wf_done w d w' d' (concat xs) \<and> wf_latch w' = wf_latch w \<and> cs' = map_option (\<lambda>c. NOT (foldl crc_step (NOT c) (concat xs))) cs"
proof (induction xs arbitrary: w d cs)
  case Nil
  then show ?case by (cases cs) (auto simp: wf_done_def grows_same)
next
  case (Cons x xs)
  obtain cs1 w1 d1 where w1: "walf_put w d cs x = Some (Inr (), cs1, w1, d1)" "walf_put_all w1 d1 cs1 xs = Some (Inr (), cs', w', d')"
    using Cons.prems(5) by (auto simp: bind_eq_Some_conv split: sum.splits dest!: not_Inl)
  have a: "length x < 4294967296" "length (wf_log w d) + length x < 9223372036854775808" using Cons.prems(3,4) by simp_all
  note P = walf_put_ok [OF Cons.prems(1) a w1(1)]
  have "wf_str w1 d1" "wf_ostream w1 \<noteq> None" "length (wf_log w1 d1) + length (concat xs) < 9223372036854775808"
    using P Cons.prems(4) by (simp_all add: wf_done_def)
  from Cons.IH [OF this(1,2) _ this(3) w1(2)] Cons.prems(3) P
  show ?case using wf_done_trans [of w d w1 d1 x w' d' "concat xs"] by (cases cs) simp_all
qed

lemma wf_unlock_done:
  assumes "wf_done w d w' d' bs"
  shows "wf_done w d (wf_unlock w') d' bs \<and> wf_inv (wf_unlock w') d'"
proof -
  have "wf_log (wf_unlock w') d' = wf_log w' d'" "wf_str (wf_unlock w') d' = wf_str w' d'"
    "wf_ostream (wf_unlock w') = wf_ostream w'" "\<not> wf_latch (wf_unlock w')"
    by (simp_all add: wf_unlock_def wf_log_def wf_str_def)
  with assms show ?thesis by (simp add: wf_done_def wf_inv_def)
qed

lemma walf_write_fields_ok:
  assumes inv: "wf_inv w d" and mem: "buf_ok mem" and xs: "\<forall>x \<in> set xs. length x < 4294967296"
    and room: "length (wf_log w d) + length (concat xs) + 4 < 9223372036854775808"
    and run: "walf_write_fields mem w d xs = Some (Inr (), w', d')"
  shows "wf_done w d w' d' (concat xs @ bytes32 (crc_of (concat xs))) \<and> wf_inv w' d'"
proof -
  note lock = wf_lock_step [OF inv]
  let ?w = "w\<lparr>wf_latch := True\<rparr>"
  obtain w1 d1 w2 d2 c c' w3 where r: "walf_lazy_ostream_init mem ?w d = Some (Inr (), w1, d1)"
      "walf_put_all w1 d1 (Some checksum_init) xs = Some (Inr (), Some c, w2, d2)"
      "walf_put w2 d2 None (bytes32 c) = Some (Inr (), c', w3, d')" "w' = wf_unlock w3"
    using run lock(1) by (auto simp: walf_write_fields_def bind_eq_Some_conv split: sum.splits dest!: not_Inl)
  have s1: "wf_done w d w1 d1 []"
    using ostream_init_ok [OF lock(2) mem r(1)] lock(4) by (simp add: wf_done_def)
  have "wf_str w1 d1" "wf_ostream w1 \<noteq> None" "length (wf_log w1 d1) + length (concat xs) < 9223372036854775808"
    using s1 room by (simp_all add: wf_done_def)
  note P = walf_put_all_ok [OF this(1,2) xs this(3) r(2)]
  have c: "c = crc_of (concat xs)" using P by (simp add: crc_of_def)
  note s2 = wf_done_trans [OF s1 conjunct1 [OF P]]
  have "wf_str w2 d2" "length (bytes32 c) < 4294967296" "length (wf_log w2 d2) + length (bytes32 c) < 9223372036854775808"
    using s2 room by (simp_all add: wf_done_def)
  note Q = walf_put_ok [OF this r(3)]
  from wf_unlock_done [OF wf_done_trans [OF s2 conjunct1 [OF Q]]] show ?thesis by (simp add: c r(4))
qed

lemma walf_flush_all_ok:
  assumes inv: "wf_inv w d" and mem: "buf_ok mem" and run: "walf_flush_all mem w d = Some (Inr (), w', d')"
  shows "wf_done w d w' d' [] \<and> wf_inv w' d' \<and> d_durable d' = wf_log w d \<and> d_data d' = wf_log w d"
proof -
  have str: "wf_str w d" using inv by (simp add: wf_inv_def)
  obtain w1 d1 os os' where r: "walf_lazy_ostream_init mem w d = Some (Inr (), w1, d1)" "wf_ostream w1 = Some os"
      "walos_flush_all os d1 = Some (Inr (), os', d')" "w' = w1\<lparr>wf_ostream := Some os'\<rparr>"
    using run by (auto simp: walf_flush_all_def bind_eq_Some_conv split: sum.splits dest!: not_Inl)
  note I = ostream_init_ok [OF str mem r(1)]
  have osi: "wos_inv os d1" and log: "wos_log os d1 = wf_log w d" and len: "length (wf_log w d) < 9223372036854775808"
    using I r(2) by (auto simp: wf_done_def wf_str_def wf_log_def)
  have "wo_flushed_lsn os + of_nat (cbuffer_len (wo_buffer os)) = of_nat (length (wos_log os d1))"
    using osi by (simp add: wos_inv_def wos_log_def)
  with r(3) have "walos_flush_to_impl os d1 (of_nat (length (wos_log os d1))) True = Some (Inr (), os', d')"
    by (simp add: walos_flush_all_def)
  note F = walos_flush_ok [OF osi order_refl this]
  have dat: "d_data d' = wf_log w d"
  proof (cases "length (wos_log os d1) > length (d_data d1)")
    case True
    with F log show ?thesis by simp
  next
    case False
    then have "wos_log os d1 = d_data d1" by (simp add: wos_log_def flip: cb_list_Nil_iff)
    with F False log show ?thesis by simp
  qed
  have "\<exists>x. d_data d' = d_data d1 @ x" using dat log by (metis wos_log_def)
  then have "grows d1 d'" using F by (auto intro: grows_synced)
  then have "grows d d'" using I grows_trans by (auto simp: wf_done_def)
  then show ?thesis using F I dat log len inv r(4) by (simp add: wf_done_def wf_inv_def wf_str_def wf_log_def)
qed

section \<open>Appending the records of a commit\<close>

lemma wal_append_ok:
  assumes inv: "wal_inv w d" and mem: "buf_ok mem" and r: "r = W_Commit c \<or> r = W_End e"
    and room: "length (wal_log w d) + length (rec_image m r) < 9223372036854775808"
    and run: "wal_append_log (mem, al) m w d r = Some (Inr l, w', d')"
  shows "wal_inv w' d' \<and> wal_log w' d' = wal_log w d @ rec_image m r \<and> grows d d' \<and> l = of_nat (length (wal_log w d))"
proof -
  have eta: "\<lparr>wc_tid = wc_tid c, wc_prev = wc_prev c\<rparr> = c" "\<lparr>we_tid = we_tid e, we_prev = we_prev e\<rparr> = e"
    by (cases c, simp, cases e, simp)
  obtain wf where wf: "walf_write mem al m (w_wf w) d r = Some (Inr l, wf, d')" "w' = w\<lparr>w_wf := wf\<rparr>"
    using run r by (auto simp: eta wal_append_log_def wal_append_commit_log_def wal_append_end_log_def wal_append_def bind_eq_Some_conv)
  have inv': "wf_inv (w_wf w) d" "wf_str (w_wf w) d" using inv by (simp_all add: wal_inv_def wf_inv_def)
  obtain w1 d1 os where i: "walf_lazy_ostream_init mem (w_wf w) d = Some (Inr (), w1, d1)" "wf_ostream w1 = Some os"
      "walf_write_fields mem w1 d1 (rec_parts m r) = Some (Inr (), wf, d')" "l = walos_get_next_lsn os"
    using wf(1) r
    by (auto simp: walf_write_def walf_write_commit_def walf_write_end_def Let_def bind_eq_Some_conv map_sum_Inr split: sum.splits dest!: not_Inl)
  note I = ostream_init_ok [OF inv'(2) mem i(1)]
  have inv1: "wf_inv w1 d1" using I inv'(1) by (simp add: wf_done_def wf_inv_def)
  have log1: "wf_log w1 d1 = wal_log w d" using I by (simp add: wf_done_def wal_log_def)
  have parts: "\<forall>x \<in> set (rec_parts m r). length x < 4294967296" using r by auto
  have room1: "length (wf_log w1 d1) + length (concat (rec_parts m r)) + 4 < 9223372036854775808"
    using room log1 by (simp add: rec_image_def)
  note W = walf_write_fields_ok [OF inv1 mem parts room1 i(3)]
  have "wos_inv os d1" using inv1 i(2) by (simp add: wf_inv_def wf_str_def)
  from walos_get_next_lsn_log [OF this] have l: "l = of_nat (length (wal_log w d))"
    using i(2,4) log1 by (simp add: wf_log_def)
  have "wf_done (w_wf w) d wf d' (rec_image m r)"
    using wf_done_trans [OF conjunct1 [OF I] conjunct1 [OF W]] by (simp add: rec_image_def)
  then show ?thesis using W l wf(2) by (simp add: wal_inv_def wal_log_def wf_done_def)
qed

lemma wal_flush_ok:
  assumes "wal_inv w d" and "buf_ok mem" and "wal_flush_all mem w d = Some (Inr (), w', d')"
  shows "wal_inv w' d' \<and> wal_log w' d' = wal_log w d \<and> d_durable d' = wal_log w d \<and> d_data d' = wal_log w d \<and> grows d d'"
proof -
  obtain wf where wf: "walf_flush_all mem (w_wf w) d = Some (Inr (), wf, d')" "w' = w\<lparr>w_wf := wf\<rparr>"
    using assms(3) by (auto simp: wal_flush_all_def bind_eq_Some_conv)
  from walf_flush_all_ok [OF _ assms(2) wf(1)] assms(1) show ?thesis
    by (simp add: wal_inv_def wal_log_def wf_done_def wf(2))
qed

end
