(* ===== verification/Pager_Txn.thy ===== *)
theory Pager_Txn
  imports Pager_Client Wal_Faults
begin

text \<open>
  Transactions of the pager: starting one appends its first record and enters it into the table, and a
  commit that returns success has its record in the durable part of the log.
\<close>

section \<open>The table of transactions is beside the pool\<close>

lemma pool_inv_tnxt [simp]: "pool_inv (p\<lparr>pg_tnxt := t\<rparr>) = pool_inv p"
  "pgr_page (p\<lparr>pg_tnxt := t\<rparr>) k = pgr_page p k" "wal_rule (p\<lparr>pg_tnxt := t\<rparr>) = wal_rule p"
proof -
  have [simp]: "spare (p\<lparr>pg_tnxt := t\<rparr>) j = spare p j" "cached (p\<lparr>pg_tnxt := t\<rparr>) k i = cached p k i"
    "frames_inv (p\<lparr>pg_tnxt := t\<rparr>) = frames_inv p" for j k i
    by (simp_all add: spare_def cached_def frames_inv_def)
  show "pool_inv (p\<lparr>pg_tnxt := t\<rparr>) = pool_inv p" by (simp add: pool_inv_def log_inv_def dpt_dirty_def)
  show "pgr_page (p\<lparr>pg_tnxt := t\<rparr>) k = pgr_page p k" by (simp add: pgr_page_def split: option.split)
  show "wal_rule (p\<lparr>pg_tnxt := t\<rparr>) = wal_rule p" by (simp add: wal_rule_def)
qed

text \<open>An append and a flush, as steps of the pager.\<close>

lemma pgr_append_grow:
  assumes inv: "pool_inv p" and ok: "rec_ok (pg_mem p) r"
    and room: "length (the_log p) + length (rec_image (pg_mem p) r) < 2 ^ 63"
  shows "\<exists>w d. pgr_append p r = Some (Inr (of_nat (length (the_log p))), p\<lparr>pg_ww := w, pg_log := d\<rparr>) \<and>
    pool_grow p (p\<lparr>pg_ww := w, pg_log := d\<rparr>) {} (rec_image (pg_mem p) r) \<and>
    (\<forall>l. pgr_page (p\<lparr>pg_ww := w, pg_log := d\<rparr>) l = pgr_page p l) \<and> grows (pg_log p) d"
proof -
  note I = pool_invD [OF inv]
  from pgr_append_ok [OF I(3) ok room] obtain w d where
    a: "pgr_append p r = Some (Inr (of_nat (length (the_log p))), p\<lparr>pg_ww := w, pg_log := d\<rparr>)"
      "log_inv (p\<lparr>pg_ww := w, pg_log := d\<rparr>)" "wal_log w d = the_log p @ rec_image (pg_mem p) r"
      "length (d_durable (pg_log p)) \<le> length (d_durable d)" "grows (pg_log p) d" by blast
  let ?q = "p\<lparr>pg_ww := w, pg_log := d\<rparr>"
  have "dpt_dirty ?q" using I(4) by (simp add: dpt_dirty_def)
  then have "pool_grow p ?q {} (rec_image (pg_mem p) r)" "\<And>l. pgr_page ?q l = pgr_page p l"
    using pool_log_step [OF inv, of ?q "rec_image (pg_mem p) r"] a growsD [OF a(5)] by (auto simp: pgr_conf_def)
  with a show ?thesis by (intro exI [of _ w] exI [of _ d]) simp
qed

lemma pgr_flush_grow:
  assumes inv: "pool_inv p"
  shows "\<exists>w d. pgr_wal_flush p = Some (Inr (), p\<lparr>pg_ww := w, pg_log := d\<rparr>) \<and>
    pool_grow p (p\<lparr>pg_ww := w, pg_log := d\<rparr>) {} [] \<and>
    (\<forall>l. pgr_page (p\<lparr>pg_ww := w, pg_log := d\<rparr>) l = pgr_page p l) \<and>
    d_durable d = the_log p \<and> d_data d = the_log p \<and> wal_log w d = the_log p"
proof -
  note I = pool_invD [OF inv]
  from pgr_wal_flush_ok [OF I(3)] obtain w d where
    a: "pgr_wal_flush p = Some (Inr (), p\<lparr>pg_ww := w, pg_log := d\<rparr>)" "log_inv (p\<lparr>pg_ww := w, pg_log := d\<rparr>)"
      "wal_log w d = the_log p" "d_durable d = the_log p" "d_data d = the_log p" by blast
  let ?q = "p\<lparr>pg_ww := w, pg_log := d\<rparr>"
  have "length (d_durable (pg_log p)) \<le> length (the_log p)"
    using I(3) wal_log_data [of "pg_ww p" "pg_log p"] by (auto simp: log_inv_def)
  moreover have "dpt_dirty ?q" using I(4) by (simp add: dpt_dirty_def)
  moreover have "file_len p \<le> length (d_data d)" using wal_log_data [of "pg_ww p" "pg_log p"] a(5) by auto
  ultimately have "pool_grow p ?q {} []" "\<And>l. pgr_page ?q l = pgr_page p l"
    using pool_log_step [OF inv, of ?q "[]"] a by (simp_all add: pgr_conf_def)
  with a show ?thesis by (intro exI [of _ w] exI [of _ d]) simp
qed

section \<open>Beginning and committing\<close>

definition live_txn :: "pager \<Rightarrow> ptr \<Rightarrow> txn \<Rightarrow> bool" where
  \<comment> \<open>a transaction of the table that is neither committed nor ended\<close>
  "live_txn p tx t \<longleftrightarrow> pgr_txn p tx = Some t \<and> td_state (tx_data t) = TX_RUNNING \<and>
     txnt_inv (wm_txns (pg_mem p)) (pg_tnxt p) \<and> size (ah_nodes (pg_tnxt p)) < 4294967295 \<and>
     txnt_map (wm_txns (pg_mem p)) (pg_tnxt p) (tx_tid t) = Some tx"

definition commit_image :: "txn \<Rightarrow> u8 list" where
  "commit_image t = rec_image no_mem (W_Commit \<lparr>wc_tid = tx_tid t, wc_prev = td_last_lsn (tx_data t)\<rparr>)"

definition end_image :: "txn \<Rightarrow> lsn \<Rightarrow> u8 list" where
  "end_image t l = rec_image no_mem (W_End \<lparr>we_tid = tx_tid t, we_prev = l\<rparr>)"

lemma txnt_remove_txn_expect_correct:
  assumes inv: "txnt_inv h t" and small: "size (ah_nodes t) < 4294967295"
    and p: "txnt_map h t k = Some p" "heap_get h p = Some tx" "tx_tid tx = k"
  shows "\<exists>t'. txnt_remove_txn_expect True h t p = Some (Inr (), t') \<and> txnt_inv h t' \<and>
    txnt_map h t' = (txnt_map h t)(k := None)"
proof -
  from txnt_remove_found [OF inv small p(1), of True] obtain r t' where
    r: "adptv_htable_delete True False t (txn_node p k) (txn_equals_for_exists h) = Some (r, t')"
      "txnt_step True h t ((txnt_map h t)(k := None)) (case r of Inl e \<Rightarrow> Inl e | Inr _ \<Rightarrow> Inr ()) t'" by blast
  have "adptv_htable_lookup t (txn_node p k) (txn_equals_for_exists h) = Some (Some (txn_node p k))"
    using txn_lookup [OF inv, of "Tx p" k] p by (simp add: txn_node_def)
  with r p show ?thesis
    by (cases r) (auto simp: txnt_remove_txn_expect_def txnt_step_def)
qed

lemma pgr_commit_ok:
  assumes inv: "pool_inv p" and en: "pg_wal_enabled p" and t: "live_txn p tx t" and al: "pa_del (pg_allocs p)"
    and room: "length (the_log p) + WL_COMMIT_LEN + WL_END_LEN < 2 ^ 63"
  defines "c \<equiv> of_nat (length (the_log p)) :: lsn"
  shows "\<exists>q x. pgr_commit p tx = Some (Inr (), q) \<and> d_durable (pg_log q) = the_log p @ commit_image t @ x \<and>
    the_log q = the_log p @ commit_image t @ end_image t c \<and> pool_inv q \<and>
    (\<forall>k. pgr_page q k = pgr_page p k) \<and> td_state (tx_data (the (pgr_txn q tx))) = TX_DONE"
proof -
  let ?r1 = "W_Commit \<lparr>wc_tid = tx_tid t, wc_prev = td_last_lsn (tx_data t)\<rparr>"
  let ?r2 = "W_End \<lparr>we_tid = tx_tid t, we_prev = c\<rparr>"
  from t have T: "pgr_txn p tx = Some t" "td_state (tx_data t) = TX_RUNNING"
    "txnt_inv (wm_txns (pg_mem p)) (pg_tnxt p)" "size (ah_nodes (pg_tnxt p)) < 4294967295"
    "txnt_map (wm_txns (pg_mem p)) (pg_tnxt p) (tx_tid t) = Some tx" by (simp_all add: live_txn_def)
  have im: "rec_image m ?r1 = commit_image t" "rec_image m ?r2 = end_image t c" for m
    by (simp_all add: rec_image_def commit_image_def end_image_def)
  have len: "length (commit_image t) = WL_COMMIT_LEN" "length (end_image t c) = WL_END_LEN"
    by (simp_all add: commit_image_def end_image_def rec_image_def WL_COMMIT_LEN_def WL_END_LEN_def)
  have "length (the_log p) + length (rec_image (pg_mem p) ?r1) < 2 ^ 63" using room by (simp add: im len)
  from pgr_append_grow [OF inv _ this] obtain w1 d1 where
    a1: "pgr_append p ?r1 = Some (Inr c, p\<lparr>pg_ww := w1, pg_log := d1\<rparr>)"
      "pool_grow p (p\<lparr>pg_ww := w1, pg_log := d1\<rparr>) {} (commit_image t)"
      "\<And>l. pgr_page (p\<lparr>pg_ww := w1, pg_log := d1\<rparr>) l = pgr_page p l" unfolding im c_def by auto
  define p1 where "p1 = p\<lparr>pg_ww := w1, pg_log := d1\<rparr>"
  note a1 = a1 [folded p1_def]
  note I1 = pool_growD(1) [OF a1(2)] and L1 = pool_growD(5) [OF a1(2)]
  from pgr_flush_grow [OF I1] obtain w2 d2 where
    a2: "pgr_wal_flush p1 = Some (Inr (), p1\<lparr>pg_ww := w2, pg_log := d2\<rparr>)"
      "pool_grow p1 (p1\<lparr>pg_ww := w2, pg_log := d2\<rparr>) {} []"
      "\<And>l. pgr_page (p1\<lparr>pg_ww := w2, pg_log := d2\<rparr>) l = pgr_page p1 l"
      "d_durable d2 = the_log p1" "d_data d2 = the_log p1" by blast
  define p2 where "p2 = p1\<lparr>pg_ww := w2, pg_log := d2\<rparr>"
  note a2 = a2 [folded p2_def]
  note I2 = pool_growD(1) [OF a2(2)] and L2 = pool_growD(5) [OF a2(2)]
  have "length (the_log p2) + length (rec_image (pg_mem p2) ?r2) < 2 ^ 63" using room by (simp add: im len L1 L2)
  from pgr_append_grow [OF I2 _ this] obtain w3 d3 where
    a3: "pgr_append p2 ?r2 = Some (Inr (of_nat (length (the_log p2))), p2\<lparr>pg_ww := w3, pg_log := d3\<rparr>)"
      "pool_grow p2 (p2\<lparr>pg_ww := w3, pg_log := d3\<rparr>) {} (end_image t c)"
      "\<And>l. pgr_page (p2\<lparr>pg_ww := w3, pg_log := d3\<rparr>) l = pgr_page p2 l" "grows (pg_log p2) d3" unfolding im by auto
  define p3 where "p3 = p2\<lparr>pg_ww := w3, pg_log := d3\<rparr>"
  note a3 = a3 [folded p3_def]
  note I3 = pool_growD(1) [OF a3(2)] and L3 = pool_growD(5) [OF a3(2)]
  have m: "pg_mem p3 = pg_mem p" "pg_tnxt p3 = pg_tnxt p" "pg_allocs p3 = pg_allocs p" "pg_log p3 = d3" "pg_log p2 = d2"
    by (simp_all add: p1_def p2_def p3_def)
  have tx: "heap_get (wm_txns (pg_mem p)) tx = Some t" using T(1) by (simp add: pgr_txn_def)
  from txnt_remove_txn_expect_correct [OF T(3,4,5) tx] obtain tab where
    tab: "txnt_remove_txn_expect True (wm_txns (pg_mem p)) (pg_tnxt p) tx = Some (Inr (), tab)" by blast
  define p4 where "p4 = p3\<lparr>pg_tnxt := tab\<rparr>"
  have "pgr_txn p4 tx = Some t" using T(1) m by (simp add: p4_def pgr_txn_def)
  from pgr_txn_set_ok [OF this] obtain g where
    g: "pgr_txn_set p4 tx ((tx_data t)\<lparr>td_state := TX_DONE\<rparr>) = Some (p4\<lparr>pg_mem := (pg_mem p4)\<lparr>wm_txns := g\<rparr>\<rparr>)"
      "\<And>x. heap_get g x = (if x = tx then Some (t\<lparr>tx_data := (tx_data t)\<lparr>td_state := TX_DONE\<rparr>\<rparr>)
        else heap_get (wm_txns (pg_mem p4)) x)" by blast
  define q where "q = p4\<lparr>pg_mem := (pg_mem p4)\<lparr>wm_txns := g\<rparr>\<rparr>"
  have I4: "pool_inv p4" using I3 by (simp add: p4_def)
  have "dpt_dirty q" "log_inv q" using pool_invD(3,4) [OF I4] by (simp_all add: q_def dpt_dirty_def log_inv_def)
  then have s: "pool_grow p4 q {} []" "\<And>l. pgr_page q l = pgr_page p4 l"
    using pool_log_step [OF I4, of q "[]"] by (simp_all add: q_def pgr_conf_def)
  have "pager_assert p = Some ()" using frames_invD(2) [OF pool_invD(1) [OF inv]] by (simp add: pager_assert_def)
  then have run: "pgr_commit p tx = Some (Inr (), q)"
    using en T(1,2) a1(1) a2(1) a3(1) tab al g(1) m
    by (simp add: pgr_commit_def p4_def [symmetric] q_def [symmetric])
  have log: "the_log q = the_log p @ commit_image t @ end_image t c"
    using L1 L2 L3 by (simp add: q_def p4_def)
  obtain x where "d_durable d3 = (the_log p @ commit_image t) @ x"
  proof -
    have "d_data d2 = the_log p @ commit_image t" "d_durable d2 = the_log p @ commit_image t"
      using a2(4,5) L1 by simp_all
    with a3(4) m(5) show thesis using that [of "[]"] that unfolding grows_def by auto
  qed
  moreover have "pg_log q = d3" by (simp add: q_def p4_def m)
  moreover have "pgr_page q k = pgr_page p k" for k using s(2) a3(3) a2(3) a1(3) by (simp add: p4_def)
  moreover have "td_state (tx_data (the (pgr_txn q tx))) = TX_DONE" using g(2) by (simp add: q_def pgr_txn_def)
  ultimately show ?thesis
    using run log pool_growD(1) [OF s(1)] by (intro exI [of _ q] exI [of _ x]) simp
qed

section \<open>A full pool\<close>

lemma pgr_reserve_loop_full:
  assumes "length (pg_pages p) = MEMORY_PAGE_LEN" "pg_clock p < MEMORY_PAGE_LEN" "\<nexists>i. frame_free p i"
  shows "pgr_reserve_loop n p = Some (Inl ERR_PAGER_FULL, p\<lparr>pg_clock := (pg_clock p + n) mod MEMORY_PAGE_LEN\<rparr>)"
  using assms
proof (induction n arbitrary: p)
  case (Suc n)
  have "\<not> frame_free p (pg_clock p)" using Suc.prems(3) by blast
  then have f: "pf_present (fr p (pg_clock p))" "pf_pin (fr p (pg_clock p)) > 0"
    using Suc.prems(2) by (simp_all add: frame_free_def)
  have "\<nexists>i. frame_free (next_clock p) i" using Suc.prems(3) by (simp add: frame_free_def)
  with Suc.IH [of "next_clock p"] Suc.prems(1) f Suc.prems(2) show ?case
    by (simp add: next_clock_def mod_add_left_eq)
qed simp

section \<open>A pager with two free pages\<close>

definition example_page :: "page_type \<Rightarrow> u8 list" where
  "example_page t = set_lsn (raw (the (page_init_empty (zero_page 0) t))) 0"

definition example_txn :: txn where
  "example_txn = \<lparr>tx_tid = 7, tx_data = \<lparr>td_state = TX_RUNNING, td_last_lsn = 0, td_undo_next_lsn = 0\<rparr>\<rparr>"

definition pager_example :: "dpg_entry heap \<Rightarrow> dpg_table \<Rightarrow> txn_table \<Rightarrow> pager" where
  "pager_example h t tt = \<lparr>pg_fp = \<lparr>fp_npages = 2, fp_f = \<lparr>f_pos = 0\<rparr>\<rparr>,
     pg_disk = \<lparr>d_data = example_page PG_TOMBSTONE @ example_page PG_TOMBSTONE, d_durable = [], d_env = [Short 3]\<rparr>,
     pg_ww = wal_open, pg_log = disk_example, pg_restarting = False, pg_dpt = t, pg_tnxt = tt,
     pg_mem = \<lparr>wm_txns = [1 \<mapsto> [Some example_txn]], wm_dpgs = h\<rparr>, pg_next_tid = 8,
     pg_ht = ht_init 0 MEMORY_PAGE_LEN,
     pg_pages = replicate MEMORY_PAGE_LEN \<lparr>pf_page = zero_page 0, pf_pin = 0, pf_flags = 0, pf_wsibling = -1\<rparr>,
     pg_clock = 99, pg_wal_enabled = True, pg_master_lsn = 0, pg_first_tombstone = 0, pg_ckpt_begin_lsn = 0,
     pg_allocs = \<lparr>pa_buf = Some (replicate WAL_BUFFER_CAP 0), pa_ckpt = True, pa_ins = True, pa_del = True\<rparr>\<rparr>"

lemma example_page:
  assumes "t \<notin> {PG_DATA_LIST, PG_INNER_NODE, PG_VAR_PAGE}"
  shows "length (example_page t) = PAGE_SIZE" "valid_bytes (example_page t) PG_ANY" "lsn_below (example_page t) n"
proof -
  have "wf_page (zero_page 0)" by (simp add: wf_page_def zero_page_def)
  from page_init_empty_correct [OF this, of t] assms obtain x where
    x: "page_init_empty (zero_page 0) t = Some x" "wf_page x" "page_validate_for_db x PG_ANY = Some (Inr ())" by auto
  then have l: "length (raw x) = PAGE_SIZE" by (simp add: wf_page_def)
  with x show "length (example_page t) = PAGE_SIZE" "valid_bytes (example_page t) PG_ANY" "lsn_below (example_page t) n"
    by (simp_all add: example_page_def valid_bytes_iff lsn_below_def set_lsn_def ld_st_same del: valid_set_lsn
        add: valid_set_lsn [OF l, unfolded set_lsn_def])
qed

lemma pager_example_pages:
  "fpgr_pages (pg_fp (pager_example h t tt), pg_disk (pager_example h t tt)) = [example_page PG_TOMBSTONE, example_page PG_TOMBSTONE]"
  using example_page(1) [of PG_TOMBSTONE] by (simp add: pager_example_def fpgr_pages_def slice_def upt_rec)

lemma pager_example_idle:
  "\<exists>h t tt. idle (pager_example h t tt) \<and> wal_rule (pager_example h t tt) \<and> live_txn (pager_example h t tt) (1, 0) example_txn"
proof -
  from dpgt_open_correct [of 3 Map.empty] obtain t h where t: "dpt_inv h t" "dpt_map h t = Map.empty" "dpt_cap t = DPT_CAP" by blast
  let ?g = "[1 \<mapsto> [Some example_txn]] :: txn heap"
  from txnt_open_correct [of ?g] obtain t0 where t0: "txnt_inv ?g t0" "txnt_map ?g t0 = Map.empty" "ah_nodes t0 = {#}" by blast
  have "heap_get ?g (1, 0) = Some example_txn" by (simp add: heap_get_def)
  from txnt_insert_correct [OF t0(1) this, of True] t0 obtain tt where
    tt: "txnt_inv ?g tt" "txnt_map ?g tt = [7 \<mapsto> (1, 0)]" "size (ah_nodes tt) \<le> 1"
    by (auto simp: txnt_step_def example_txn_def)
  let ?p = "pager_example h t tt"
  have f: "fr ?p i = \<lparr>pf_page = zero_page 0, pf_pin = 0, pf_flags = 0, pf_wsibling = -1\<rparr>" if "i < MEMORY_PAGE_LEN" for i
    using that by (simp add: pager_example_def)
  have np: "\<not> pf_present (fr ?p i)" if "i < MEMORY_PAGE_LEN" for i using f [OF that] by (simp add: pf_check_def)
  have "(0 :: nat) < MEMORY_PAGE_LEN" "MEMORY_PAGE_LEN < 2 ^ 32" by simp_all
  note ht = ht_init_inv [OF this, of "0 :: nat"]
  have h0: "pg_ht ?p = ht_init 0 MEMORY_PAGE_LEN" "length (pg_pages ?p) = MEMORY_PAGE_LEN" "pg_clock ?p = 99"
    "pg_dpt ?p = t" "wm_dpgs (pg_mem ?p) = h" "pg_ww ?p = wal_open" "pg_log ?p = disk_example"
    "pg_allocs ?p = \<lparr>pa_buf = Some (replicate WAL_BUFFER_CAP 0), pa_ckpt = True, pa_ins = True, pa_del = True\<rparr>"
    "unat (fp_npages (pg_fp ?p)) = 2"
    by (simp_all add: pager_example_def)
  have "frames_inv ?p" using ht np f unfolding frames_inv_def h0 by (simp add: wf_page_def zero_page_def)
  moreover have "fpgr_inv (pg_fp ?p, pg_disk ?p)"
    using example_page(1) [of PG_TOMBSTONE] by (simp add: fpgr_inv_def pager_example_def no_fail_def)
  moreover have "log_inv ?p" using examples(2,4) by (simp add: log_inv_def h0) (simp add: disk_example_def)
  moreover have "dpt_dirty ?p" using t by (simp add: dpt_dirty_def h0 del: dom_dpt_map)
  moreover have "used ?p = {}" using np by (auto simp: used_def)
  moreover have "wal_rule ?p"
    using example_page(3) [of PG_TOMBSTONE] ht(2)
    unfolding wal_rule_def pager_example_pages h0 by (auto simp: less_2_cases_iff disk_example_def)
  moreover have "live_txn ?p (1, 0) example_txn"
    using tt by (simp add: live_txn_def pager_example_def pgr_txn_def heap_get_def example_txn_def)
  ultimately have "idle ?p \<and> wal_rule ?p \<and> live_txn ?p (1, 0) example_txn" by (simp add: idle_def pool_inv_def)
  then show ?thesis by blast
qed

lemma pager_example_view:
  "vw_pages (view_of (pager_example h t tt)) = (\<lambda>k. if unat k < 2 then example_page PG_TOMBSTONE else [])"
  "vw_npages (view_of (pager_example h t tt)) = 2" "vw_wal (view_of (pager_example h t tt))"
  "vw_log (view_of (pager_example h t tt)) = []" "vw_txns (view_of (pager_example h t tt)) (1, 0) = Some example_txn"
proof -
  have n: "unat (fp_npages (pg_fp (pager_example h t tt))) = 2" by (simp add: pager_example_def)
  have "(0 :: nat) < MEMORY_PAGE_LEN" "MEMORY_PAGE_LEN < 2 ^ 32" by simp_all
  from ht_init_inv(2) [OF this, of "0 :: nat"]
  have "pgr_page (pager_example h t tt) k = [example_page PG_TOMBSTONE, example_page PG_TOMBSTONE] ! unat k" for k
    using pager_example_pages [of h t tt] by (simp add: pgr_page_def pager_example_def)
  moreover have "[x, x] ! n = x" if "n < 2" for x :: "u8 list" and n using that by (auto simp: less_2_cases_iff)
  ultimately show "vw_pages (view_of (pager_example h t tt)) = (\<lambda>k. if unat k < 2 then example_page PG_TOMBSTONE else [])"
    by (simp add: view_of_def n fun_eq_iff)
  show "vw_npages (view_of (pager_example h t tt)) = 2" "vw_wal (view_of (pager_example h t tt))"
    "vw_log (view_of (pager_example h t tt)) = []" "vw_txns (view_of (pager_example h t tt)) (1, 0) = Some example_txn"
    using examples(5) by (simp_all add: view_of_def n) (simp_all add: pager_example_def pgr_txn_def heap_get_def examples)
qed

section \<open>What the pager promises\<close>

text \<open>C1: The pager is an array of pages with a log. Any sequence of reads and writes through handles, on a
  pool of a hundred frames that is left idle between them, gives what the same sequence gives on an array of
  pages: a read the bytes last written, each write the new bytes stamped with the position of a record
  that the log gains, which holds the bytes before and after and the transaction's last record. No assertion
  fails, whatever the clock evicts, writes back and reads again on the way, and the pool is idle again.\<close>

theorem pager_is_pages_and_log:
  assumes "idle p" and "accesses_ok as (view_of p)"
  shows "\<exists>q. pager_run as p = Some (map Inr (fst (view_run as (view_of p))), q) \<and>
    view_of q = snd (view_run as (view_of p)) \<and> idle q"
proof -
  from pager_run_ok [OF assms] obtain q rec where
    q: "pager_run as p = Some (map Inr (fst (view_run as (view_of p))), q)" "view_of q = snd (view_run as (view_of p))"
      "idle_grow p q rec" by blast
  from q(1,2) idle_growD(1) [OF q(3)] show ?thesis by blast
qed

lemma example_accesses:
  defines "as \<equiv> [Wr PG_ANY (1, 0) 0 (\<lambda>_. example_page PG_ROOT_NODE), Rd PG_ANY 0, Rd PG_ANY 1]"
  shows "accesses_ok as (view_of (pager_example h t tt))"
    "fst (view_run as (view_of (pager_example h t tt))) = [[], set_lsn (example_page PG_ROOT_NODE) 0, example_page PG_TOMBSTONE]"
  using example_page [of PG_TOMBSTONE] example_page [of PG_ROOT_NODE]
  by (simp_all add: as_def pager_example_view Let_def WL_UPDATE_LEN_def del: One_nat_def)

theorem pager_is_pages_and_log_witness:
  "\<exists>h t tt q. pager_run [Wr PG_ANY (1, 0) 0 (\<lambda>_. example_page PG_ROOT_NODE), Rd PG_ANY 0, Rd PG_ANY 1] (pager_example h t tt) =
     Some ([Inr [], Inr (set_lsn (example_page PG_ROOT_NODE) 0), Inr (example_page PG_TOMBSTONE)], q) \<and> idle q"
proof -
  from pager_example_idle obtain h t tt where e: "idle (pager_example h t tt)" by blast
  from pager_is_pages_and_log [OF e example_accesses(1)] show ?thesis
    unfolding example_accesses(2) by auto
qed

text \<open>A page that a write-back has put into the file is preceded by the log, whatever the system calls do.\<close>

definition log_first :: "pager \<Rightarrow> pager \<Rightarrow> bool" where
  \<comment> \<open>the page file is as it was, or the whole log is durable\<close>
  "log_first p q \<longleftrightarrow> pg_disk q = pg_disk p \<or> d_durable (pg_log q) = the_log p \<and> the_log q = the_log p"

lemma not_ok: "a \<noteq> Inr () \<Longrightarrow> \<exists>e. a = Inl e"
  by (cases a) auto

lemma write_back_log_first:
  assumes inv: "wal_inv (pg_ww p) (pg_log p)" and buf: "buf_ok (pa_buf (pg_allocs p))"
    and on: "pg_wal_enabled p" "\<not> pg_restarting p" and run: "pgr_write_back p i mp = Some (r, q)"
  shows "log_first p q"
proof -
  obtain f w d where f: "wal_flush_all (pa_buf (pg_allocs p)) (pg_ww p) (pg_log p) = Some (f, w, d)"
    using run on by (auto simp: pgr_write_back_def pgr_wal_flush_def err_wrap_def bind_eq_Some_conv)
  show ?thesis
  proof (cases f)
    case (Inl e)
    with run on f have "q = p\<lparr>pg_ww := w, pg_log := d\<rparr>" by (simp add: pgr_write_back_def pgr_wal_flush_def err_wrap_def)
    then show ?thesis by (simp add: log_first_def)
  next
    case (Inr u)
    then have f': "wal_flush_all (pa_buf (pg_allocs p)) (pg_ww p) (pg_log p) = Some (Inr (), w, d)" using f by simp
    have "pg_ww q = w" "pg_log q = d"
      using run on f Inr
      by (auto simp: pgr_write_back_def pgr_wal_flush_def pgr_file_write_def err_wrap_def Let_def bind_eq_Some_conv put_frame_def
          split: sum.splits dest!: not_ok)
    with wal_flush_ok [OF inv buf f'] show ?thesis by (simp add: log_first_def)
  qed
qed

text \<open>C2: The write-ahead rule. With the log in use, every page of the database file was last changed by an
  update whose record is in the durable part of the log, and every page in the pool by one whose record is
  in the log, after any sequence of reads and writes. Within each of them the order is kept: in every state of the pager, and
  whatever the system calls on the log do, a write-back either leaves the database file as it is or has made the whole log
  durable first. So at any point where the machine stops the log on disk explains the file.\<close>

theorem pager_write_ahead:
  assumes "idle p" and "pg_wal_enabled p" and "\<not> pg_restarting p" and "wal_rule p" and "accesses_ok as (view_of p)"
  shows "(\<exists>rs q. pager_run as p = Some (rs, q) \<and> wal_rule q) \<and>
    (\<forall>x i mp r y. wal_inv (pg_ww x) (pg_log x) \<longrightarrow> buf_ok (pa_buf (pg_allocs x)) \<longrightarrow> pg_wal_enabled x \<longrightarrow> \<not> pg_restarting x \<longrightarrow>
       pgr_write_back x i mp = Some (r, y) \<longrightarrow> log_first x y)"
proof -
  from pager_run_ok [OF assms(1,5)] obtain q rec where
    q: "pager_run as p = Some (map Inr (fst (view_run as (view_of p))), q)" "idle_grow p q rec" by blast
  from q(1) idle_growD(4) [OF q(2) assms(2-4)] write_back_log_first show ?thesis by blast
qed

theorem pager_write_ahead_witness:
  "\<exists>h t tt rs q. pager_run [Wr PG_ANY (1, 0) 0 (\<lambda>_. example_page PG_ROOT_NODE), Rd PG_ANY 0, Rd PG_ANY 1] (pager_example h t tt) =
     Some (rs, q) \<and> wal_rule q"
proof -
  from pager_example_idle obtain h t tt where e: "idle (pager_example h t tt)" "wal_rule (pager_example h t tt)" by blast
  have "pg_wal_enabled (pager_example h t tt)" "\<not> pg_restarting (pager_example h t tt)" by (simp_all add: pager_example_def)
  from pager_write_ahead [OF e(1) this e(2) example_accesses(1)] show ?thesis by blast
qed

text \<open>C3: The search for a frame ends. As long as one frame is empty or not pinned, the clock finds one within two
  rounds, evicts its page if it has one, and leaves the pages that clients see, the pinned frames and the
  log as they were; if every frame is pinned, it gives up with \<^verbatim>\<open>ERR_PAGER_FULL\<close> and the pool is untouched.\<close>

theorem pgr_reserve_finds_frame:
  assumes "pool_inv p"
  shows "if \<exists>i. frame_free p i
    then \<exists>q. pgr_reserve_at_clock p = Some (Inr (), q) \<and> \<not> pf_present (fr q (pg_clock q)) \<and> pool_kept p q
    else pgr_reserve_at_clock p = Some (Inl ERR_PAGER_FULL, p)"
proof -
  note F = frames_invD [OF pool_invD(1) [OF assms]]
  show ?thesis
  proof (cases "\<exists>i. frame_free p i")
    case True
    then show ?thesis using pgr_reserve_ok [OF assms] by auto
  next
    case False
    note loop = pgr_reserve_loop_full [OF F(1,2) False, of "2 * MEMORY_PAGE_LEN"]
    have "(pg_clock p + 2 * MEMORY_PAGE_LEN) mod MEMORY_PAGE_LEN = pg_clock p"
      using F(2) mod_mult_self1 [of "pg_clock p" 2 MEMORY_PAGE_LEN] by simp
    with loop False F(2) show ?thesis
      by (simp add: pgr_reserve_at_clock_def pager_assert_def del: pgr_reserve_loop.simps)
  qed
qed

theorem pgr_reserve_finds_frame_witness:
  "\<exists>h t tt q. pgr_reserve_at_clock (pager_example h t tt) = Some (Inr (), q) \<and> \<not> pf_present (fr q (pg_clock q))"
proof -
  from pager_example_idle obtain h t tt where e: "idle (pager_example h t tt)" by blast
  have "frame_free (pager_example h t tt) 0" by (simp add: frame_free_def pager_example_def pf_check_def)
  then have free: "\<exists>i. frame_free (pager_example h t tt) i" by blast
  have "pool_inv (pager_example h t tt)" using e by (simp add: idle_def)
  from pgr_reserve_finds_frame [OF this, unfolded if_P [OF free]] show ?thesis by blast
qed

text \<open>The same pager, with other outcomes of the system calls on the log.\<close>

definition log_faults :: "sysres list \<Rightarrow> pager \<Rightarrow> pager" where
  "log_faults env p = p\<lparr>pg_log := (pg_log p)\<lparr>d_env := env\<rparr>\<rparr>"

lemma log_faults [simp]:
  "pg_disk (log_faults env p) = pg_disk p" "pg_pages (log_faults env p) = pg_pages p" "pg_ww (log_faults env p) = pg_ww p"
  "pg_mem (log_faults env p) = pg_mem p" "pg_tnxt (log_faults env p) = pg_tnxt p" "pg_allocs (log_faults env p) = pg_allocs p"
  "pg_wal_enabled (log_faults env p) = pg_wal_enabled p" "pg_clock (log_faults env p) = pg_clock p"
  "d_data (pg_log (log_faults env p)) = d_data (pg_log p)" "pgr_txn (log_faults env p) = pgr_txn p"
  "wal_log w (pg_log (log_faults env p)) = wal_log w (pg_log p)" "wal_inv w (pg_log (log_faults env p)) = wal_inv w (pg_log p)"
  by (simp_all add: log_faults_def fun_eq_iff pgr_txn_def wal_log_def wf_log_def wos_log_def wal_inv_def wf_inv_def wf_str_def
      wos_inv_def split: option.split)

lemma pgr_append_parts:
  assumes "pgr_append p r = Some (a, q)"
  shows "pg_disk q = pg_disk p" "pg_pages q = pg_pages p" "pgr_txn q = pgr_txn p"
    "wal_append_log (pa_buf (pg_allocs p), pa_ckpt (pg_allocs p)) (pg_mem p) (pg_ww p) (pg_log p) r = Some (a, pg_ww q, pg_log q)"
    "pg_allocs q = pg_allocs p"
  using assms by (auto simp: pgr_append_def pgr_txn_def fun_eq_iff bind_eq_Some_conv)

lemma pgr_flush_parts:
  assumes "pgr_wal_flush p = Some (a, q)"
  shows "pg_disk q = pg_disk p" "pg_pages q = pg_pages p" "pgr_txn q = pgr_txn p"
    "wal_flush_all (pa_buf (pg_allocs p)) (pg_ww p) (pg_log p) = Some (a, pg_ww q, pg_log q)" "pg_allocs q = pg_allocs p"
  using assms by (auto simp: pgr_wal_flush_def pgr_txn_def fun_eq_iff bind_eq_Some_conv)

lemma commit_image_any: "rec_image m (W_Commit \<lparr>wc_tid = tx_tid t, wc_prev = td_last_lsn (tx_data t)\<rparr>) = commit_image t"
  by (simp add: rec_image_def commit_image_def)

lemma commit_len:
  "length (rec_image m (W_Commit c)) = WL_COMMIT_LEN" "length (rec_image m (W_End e)) = WL_END_LEN"
  "length (commit_image t) = WL_COMMIT_LEN"
  by (simp_all add: commit_image_def rec_image_def WL_COMMIT_LEN_def WL_END_LEN_def)

lemma commit_any_faults:
  assumes inv: "pool_inv p" and en: "pg_wal_enabled p" and t: "live_txn p tx t"
    and room: "length (the_log p) + WL_COMMIT_LEN + WL_END_LEN < 2 ^ 63"
    and run: "pgr_commit (log_faults env p) tx = Some (r, q)"
  shows "pg_disk q = pg_disk p \<and> pg_pages q = pg_pages p \<and> (r \<noteq> Inr () \<longrightarrow> pgr_txn q tx = Some t) \<and>
    (r = Inr () \<longrightarrow> (\<exists>x. d_durable (pg_log q) = the_log p @ commit_image t @ x))"
proof -
  let ?r1 = "W_Commit \<lparr>wc_tid = tx_tid t, wc_prev = td_last_lsn (tx_data t)\<rparr>"
  let ?p = "log_faults env p"
  have T: "pgr_txn p tx = Some t" "td_state (tx_data t) = TX_RUNNING" using t by (simp_all add: live_txn_def)
  have pa: "pager_assert ?p = Some ()" using frames_invD(2) [OF pool_invD(1) [OF inv]] by (simp add: pager_assert_def)
  have buf: "buf_ok (pa_buf (pg_allocs p))" and wi: "wal_inv (pg_ww p) (pg_log p)"
    using pool_invD(3) [OF inv] by (auto simp: log_inv_def buf_ok_def)
  have run': "err_wrap (pgr_append ?p ?r1) (\<lambda>l p.
         err_wrap (pgr_wal_flush p) (\<lambda>_ p.
         err_wrap (pgr_append p (W_End \<lparr>we_tid = tx_tid t, we_prev = l\<rparr>)) (\<lambda>_ p.
         err_wrap (do {
             (r, tab) \<leftarrow> txnt_remove_txn_expect (pa_del (pg_allocs p)) (wm_txns (pg_mem p)) (pg_tnxt p) tx;
             Some (r, p\<lparr>pg_tnxt := tab\<rparr>) }) (\<lambda>_ p. do {
           p \<leftarrow> pgr_txn_set p tx ((tx_data t)\<lparr>td_state := TX_DONE\<rparr>);
           Some (Inr (), p) })))) = Some (r, q)"
    using run pa T en by (simp add: pgr_commit_def)
  obtain a1 p1 where 1: "pgr_append ?p ?r1 = Some (a1, p1)" using run' by (cases "pgr_append ?p ?r1") (auto simp: err_wrap_def)
  note A1 = pgr_append_parts [OF 1]
  have same1: "pg_disk p1 = pg_disk p" "pg_pages p1 = pg_pages p" "pgr_txn p1 tx = Some t" using A1(1-3) T(1) by simp_all
  show ?thesis
  proof (cases a1)
    case (Inl e)
    then show ?thesis using run' 1 same1 by (auto simp: err_wrap_def)
  next
    case (Inr l)
    have room1: "length (wal_log (pg_ww ?p) (pg_log ?p)) + length (rec_image (pg_mem ?p) ?r1) < 9223372036854775808"
      using room by (simp add: commit_len)
    have app: "wal_append_log (pa_buf (pg_allocs ?p), pa_ckpt (pg_allocs ?p)) (pg_mem ?p) (pg_ww ?p) (pg_log ?p) ?r1 =
        Some (Inr l, pg_ww p1, pg_log p1)" using A1(4) Inr by simp
    have L1: "wal_inv (pg_ww p1) (pg_log p1)" "the_log p1 = the_log p @ commit_image t"
      using wal_append_ok [OF _ _ disjI1 [OF refl] room1 app] buf wi by (simp_all add: commit_image_any)
    obtain a2 p2 where 2: "pgr_wal_flush p1 = Some (a2, p2)"
      using run' 1 Inr by (cases "pgr_wal_flush p1") (auto simp: err_wrap_def)
    note A2 = pgr_flush_parts [OF 2]
    have same2: "pg_disk p2 = pg_disk p" "pg_pages p2 = pg_pages p" "pgr_txn p2 tx = Some t" using A2(1-3) same1 by simp_all
    show ?thesis
    proof (cases a2)
      case (Inl e)
      then show ?thesis using run' 1 2 \<open>a1 = Inr l\<close> same2 by (auto simp: err_wrap_def)
    next
      case (Inr u)
      have fl: "wal_flush_all (pa_buf (pg_allocs p1)) (pg_ww p1) (pg_log p1) = Some (Inr (), pg_ww p2, pg_log p2)"
        using A2(4) Inr by simp
      have b1: "buf_ok (pa_buf (pg_allocs p1))" using buf A1(5) by simp
      note L2 = wal_flush_ok [OF L1(1) b1 fl]
      let ?r2 = "W_End \<lparr>we_tid = tx_tid t, we_prev = l\<rparr>"
      obtain a3 p3 where 3: "pgr_append p2 ?r2 = Some (a3, p3)"
        using run' 1 2 \<open>a1 = Inr l\<close> Inr by (cases "pgr_append p2 ?r2") (auto simp: err_wrap_def)
      note A3 = pgr_append_parts [OF 3]
      have same3: "pg_disk p3 = pg_disk p" "pg_pages p3 = pg_pages p" "pgr_txn p3 tx = Some t" using A3(1-3) same2 by simp_all
      show ?thesis
      proof (cases a3)
        case (Inl e)
        then show ?thesis using run' 1 2 3 \<open>a1 = Inr l\<close> Inr same3 by (auto simp: err_wrap_def)
      next
        case (Inr l')
        have room2: "length (wal_log (pg_ww p2) (pg_log p2)) + length (rec_image (pg_mem p2) ?r2) < 9223372036854775808"
          using room L1(2) L2 by (simp add: commit_len)
        have app2: "wal_append_log (pa_buf (pg_allocs p2), pa_ckpt (pg_allocs p2)) (pg_mem p2) (pg_ww p2) (pg_log p2) ?r2 =
            Some (Inr l', pg_ww p3, pg_log p3)" using A3(4) Inr by simp
        have b2: "buf_ok (pa_buf (pg_allocs p2))" using b1 A2(5) by simp
        have "grows (pg_log p2) (pg_log p3)" using wal_append_ok [OF conjunct1 [OF L2] b2 disjI2 [OF refl] room2 app2] by blast
        then have dur: "\<exists>x. d_durable (pg_log p3) = the_log p @ commit_image t @ x" using L2 L1(2) by (auto simp: grows_def)
        have last: "err_wrap (do {
             (r, tab) \<leftarrow> txnt_remove_txn_expect (pa_del (pg_allocs p3)) (wm_txns (pg_mem p3)) (pg_tnxt p3) tx;
             Some (r, p3\<lparr>pg_tnxt := tab\<rparr>) }) (\<lambda>_ p. do {
           p \<leftarrow> pgr_txn_set p tx ((tx_data t)\<lparr>td_state := TX_DONE\<rparr>);
           Some (Inr (), p) }) = Some (r, q)"
          using run' unfolding 1 \<open>a1 = Inr l\<close> err_wrap_simps 2 \<open>a2 = Inr u\<close> 3 Inr .
        then obtain a4 tab where 4: "txnt_remove_txn_expect (pa_del (pg_allocs p3)) (wm_txns (pg_mem p3)) (pg_tnxt p3) tx = Some (a4, tab)"
          by (cases "txnt_remove_txn_expect (pa_del (pg_allocs p3)) (wm_txns (pg_mem p3)) (pg_tnxt p3) tx") auto
        show ?thesis
        proof (cases a4)
          case (Inl e)
          with last 4 have "r = Inl e" "q = p3\<lparr>pg_tnxt := tab\<rparr>" by auto
          with same3 show ?thesis by (simp add: pgr_txn_def)
        next
          case (Inr x)
          with last 4 have "r = Inr ()" "\<exists>h. q = p3\<lparr>pg_tnxt := tab, pg_mem := h\<rparr>"
            by (auto simp: pgr_txn_set_def bind_eq_Some_conv)
          with same3 dur show ?thesis by auto
        qed
      qed
    qed
  qed
qed

text \<open>C4: A commit is durable. When the commit of a running transaction returns success, its record is in the
  durable part of the log together with everything logged before it, its end follows in the log, the
  transaction is done, and no page has changed. Without faults it returns success. Whatever the system calls on the log do, a commit
  that reports success has made its record durable, one that reports an error leaves the transaction running, and neither
  writes the database file or touches a frame: pages need not be written for a commit.\<close>

theorem pgr_commit_durable:
  assumes "pool_inv p" and "pg_wal_enabled p" and "live_txn p tx t" and "pa_del (pg_allocs p)"
    and "length (the_log p) + WL_COMMIT_LEN + WL_END_LEN < 2 ^ 63"
  shows "(\<exists>q x. pgr_commit p tx = Some (Inr (), q) \<and> d_durable (pg_log q) = the_log p @ commit_image t @ x \<and>
    the_log q = the_log p @ commit_image t @ end_image t (of_nat (length (the_log p))) \<and> pool_inv q \<and>
    (\<forall>k. pgr_page q k = pgr_page p k) \<and> td_state (tx_data (the (pgr_txn q tx))) = TX_DONE) \<and>
    (\<forall>env r q. pgr_commit (log_faults env p) tx = Some (r, q) \<longrightarrow>
       pg_disk q = pg_disk p \<and> pg_pages q = pg_pages p \<and> (r \<noteq> Inr () \<longrightarrow> pgr_txn q tx = Some t) \<and>
       (r = Inr () \<longrightarrow> (\<exists>x. d_durable (pg_log q) = the_log p @ commit_image t @ x)))"
  using pgr_commit_ok [OF assms] commit_any_faults [OF assms(1,2,3,5)] by blast

theorem pgr_commit_durable_witness:
  "\<exists>h t tt q x. pgr_commit (pager_example h t tt) (1, 0) = Some (Inr (), q) \<and> d_durable (pg_log q) = commit_image example_txn @ x"
proof -
  from pager_example_idle obtain h t tt where
    e: "idle (pager_example h t tt)" "live_txn (pager_example h t tt) (1, 0) example_txn" by blast
  have "pool_inv (pager_example h t tt)" "pg_wal_enabled (pager_example h t tt)" "pa_del (pg_allocs (pager_example h t tt))"
    "the_log (pager_example h t tt) = []"
    using e(1) examples(5) by (simp_all add: idle_def) (simp_all add: pager_example_def examples)
  with pgr_commit_durable [of "pager_example h t tt" "(1, 0)" example_txn] e(2) obtain q x where
    "pgr_commit (pager_example h t tt) (1, 0) = Some (Inr (), q)" "d_durable (pg_log q) = commit_image example_txn @ x"
    by (auto simp: WL_COMMIT_LEN_def WL_END_LEN_def)
  then show ?thesis by blast
qed

end
