(* ===== verification/Recovery.thy ===== *)
theory Recovery
  imports Pager
begin

text \<open>
  \<^verbatim>\<open>libs/nspager/pager.c\<close>: checkpoints, rollback, and the three passes of restart (analysis, redo, undo) with
  the opening and closing of a database.

  A transaction that lives on the stack of a C function is a block of the heap of transactions, which the
  function frees when it returns. \<open>al\<close> gives the outcomes of the allocations of each step of a pass. The
  passes read the log until it ends and are \<open>partial_function\<close>s: a pass that never ends has the value
  \<open>None\<close>. The error object is kept across the steps of the analysis, which ignores the result of merging a
  checkpoint's transactions.

  A position that \<^verbatim>\<open>err_t_wrap\<close> is applied to is cut to an \<^verbatim>\<open>int\<close>: \<open>slsn_fails\<close>.
\<close>

definition slsn_fails :: "lsn \<Rightarrow> bool" where
  \<comment> \<open>the sign of the position after the conversion to \<^verbatim>\<open>err_t\<close>\<close>
  "slsn_fails l \<longleftrightarrow> sint (ucast l :: u32) < 0"

definition update_max_txid :: "txid \<Rightarrow> u64 \<Rightarrow> txid" where
  "update_max_txid cur candidate =
     (if sint candidate \<ge> 0 \<and> sint candidate > sint cur then candidate else cur)"

section \<open>Transactions on the stack\<close>

definition push_txn :: "pager \<Rightarrow> nat \<Rightarrow> pager" where
  "push_txn p b = p\<lparr>pg_mem := (pg_mem p)\<lparr>wm_txns := (wm_txns (pg_mem p))(b \<mapsto> [None])\<rparr>\<rparr>"

definition pop_txn :: "nat \<Rightarrow> pager \<Rightarrow> pager" where
  "pop_txn b p = p\<lparr>pg_mem := (pg_mem p)\<lparr>wm_txns := (wm_txns (pg_mem p))(b := None)\<rparr>\<rparr>"

definition with_txn :: "nat \<Rightarrow> pager \<Rightarrow> (pager \<Rightarrow> (unit res \<times> pager) option) \<Rightarrow> (unit res \<times> pager) option" where
  "with_txn b p f = do { (r, p) \<leftarrow> f (push_txn p b); Some (r, pop_txn b p) }"

section \<open>Checkpoints\<close>

definition pgr_checkpoint :: "nat \<Rightarrow> pager \<Rightarrow> (unit res \<times> pager) option" where
  "pgr_checkpoint b p =
     (if \<not> pg_wal_enabled p then Some (Inr (), p)
      else err_wrap (pgr_append p W_Ckpt_Begin) (\<lambda>l p.
        if slsn_fails l then Some (Inr (), p)
        else do {
          let p = p\<lparr>pg_ckpt_begin_lsn := l\<rparr>;
          err_wrap (pgr_append p (W_Ckpt_End \<lparr>cw_att = pg_tnxt p, cw_dpt = pg_dpt p\<rparr>)) (\<lambda>ckpt_lsn p.
            with_txn b p (\<lambda>p. do {
              let tx = (b, 0);
              let RN = pt_code PG_ROOT_NODE;
              err_wrap (pgr_begin_txn tx p) (\<lambda>_ p. do {
                (r, root, p) \<leftarrow> pgr_get_writable page_h_create tx RN 0 p;
                case r of
                  Inl e \<Rightarrow> Some (Inl e, p)
                | Inr _ \<Rightarrow> do {
                    x \<leftarrow> page_h_w p root;
                    p \<leftarrow> page_h_w_put p root (rn_set_master_lsn x (pg_ckpt_begin_lsn p));
                    (r, root, p) \<leftarrow> pgr_save p root RN;
                    case r of
                      Inl e \<Rightarrow> do { (_, _, p) \<leftarrow> pgr_release p root RN; Some (Inl e, p) }
                    | Inr _ \<Rightarrow> do {
                        x \<leftarrow> page_h_ro p root;
                        (r, p) \<leftarrow> pgr_file_write p x 0;
                        case r of
                          Inl e \<Rightarrow> do { (_, _, p) \<leftarrow> pgr_release p root RN; Some (Inl e, p) }
                        | Inr _ \<Rightarrow> do {
                            (r, root, p) \<leftarrow> pgr_release p root RN;
                            case r of
                              Inl e \<Rightarrow> Some (Inl e, p)
                            | Inr _ \<Rightarrow>
                                err_wrap (pgr_wal_flush p) (\<lambda>_ p.
                                err_wrap (pgr_commit p tx) (\<lambda>_ p. Some (Inr (), p))) } } } }) })) }))"

section \<open>Reading the log\<close>

record rec_allocs =
  ra_ok :: bool
  ra_al :: wal_allocs
  ra_grow :: "nat option"
  ra_ins :: bool
  ra_del :: bool
  ra_merge :: "nat \<Rightarrow> nat option \<times> bool"

definition pgr_read_entry :: "rec_allocs \<Rightarrow> pager \<Rightarrow> lsn \<Rightarrow> (wal_rec_hdr_read res \<times> pager) option" where
  "pgr_read_entry a p l = do {
     (r, m, w, d) \<leftarrow> wal_read_entry (ra_ok a) (ra_al a) (pg_mem p) (pg_ww p) (pg_log p) l;
     Some (r, p\<lparr>pg_mem := m, pg_ww := w, pg_log := d\<rparr>) }"

definition pgr_read_next :: "rec_allocs \<Rightarrow> pager \<Rightarrow> ((lsn \<times> wal_rec_hdr_read) res \<times> pager) option" where
  "pgr_read_next a p = do {
     (r, m, w, d) \<leftarrow> wal_read_next (ra_ok a) (ra_al a) (pg_mem p) (pg_ww p) (pg_log p);
     Some (r, p\<lparr>pg_mem := m, pg_ww := w, pg_log := d\<rparr>) }"

text \<open>The tables of a checkpoint's record are freed; the array of its transactions is not in every pass.\<close>

definition free_dpgs :: "pager \<Rightarrow> dpg_table \<Rightarrow> pager" where
  "free_dpgs p t = p\<lparr>pg_mem := (pg_mem p)\<lparr>wm_dpgs := dpgt_close (wm_dpgs (pg_mem p)) t\<rparr>\<rparr>"

definition free_bank :: "pager \<Rightarrow> nat option \<Rightarrow> pager" where
  "free_bank p b =
     (case b of None \<Rightarrow> p | Some b \<Rightarrow> p\<lparr>pg_mem := (pg_mem p)\<lparr>wm_txns := (wm_txns (pg_mem p))(b := None)\<rparr>\<rparr>)"

definition set_txns :: "pager \<Rightarrow> txn heap \<Rightarrow> pager" where
  "set_txns p h = p\<lparr>pg_mem := (pg_mem p)\<lparr>wm_txns := h\<rparr>\<rparr>"

section \<open>Rollback\<close>

text \<open>One turn of the loop; \<open>None\<close> as the next position says that the rollback is over.\<close>

definition pgr_rollback_update :: "pager \<Rightarrow> ptr \<Rightarrow> wal_update \<Rightarrow> (lsn option res \<times> pager) option" where
  "pgr_rollback_update p tx u = do {
     (r, ph, p) \<leftarrow> pgr_get_writable_no_tx page_h_create PG_ANY (wu_pg u) p;
     case r of
       Inl e \<Rightarrow> Some (Inl e, p)
     | Inr _ \<Rightarrow> do {
         x \<leftarrow> do { j \<leftarrow> ph_pgw ph; get_frame p j };
         p \<leftarrow> page_h_w_put p ph ((pf_page x)\<lparr>raw := wu_undo u\<rparr>);
         t \<leftarrow> pgr_txn p tx;
         (r, p) \<leftarrow> pgr_append p (W_Clr
           \<lparr>wk_tid = wu_tid u, wk_prev = td_last_lsn (tx_data t), wk_pg = wu_pg u,
            wk_undo_next = wu_prev u, wk_redo = wu_undo u\<rparr>);
         case r of
           Inl e \<Rightarrow> do { (_, _, p) \<leftarrow> pgr_release_no_tx p ph PG_ANY; Some (Inl e, p) }
         | Inr clr_lsn \<Rightarrow> do {
             x \<leftarrow> page_h_w p ph;
             p \<leftarrow> page_h_w_put p ph (page_set_page_lsn x clr_lsn);
             p \<leftarrow> pgr_txn_set p tx ((tx_data t)\<lparr>td_last_lsn := clr_lsn\<rparr>);
             (r, ph, p) \<leftarrow> pgr_release_no_tx p ph PG_ANY;
             Some (case r of Inl e \<Rightarrow> Inl e | Inr _ \<Rightarrow> Inr (Some (wu_prev u)), p) } } }"

definition pgr_rollback_step ::
  "rec_allocs \<Rightarrow> pager \<Rightarrow> ptr \<Rightarrow> lsn \<Rightarrow> (lsn option res \<times> pager) option" where
  "pgr_rollback_step a p tx undo_nxt =
     err_wrap (pgr_read_entry a p undo_nxt) (\<lambda>rec p.
       case rec of
         R_Update u \<Rightarrow> pgr_rollback_update p tx u
       | R_Clr c \<Rightarrow> Some (Inr (Some (wk_undo_next c)), p)
       | R_Begin _ \<Rightarrow> Some (Inr (Some 0), p)
       | R_Commit _ \<Rightarrow> Some (Inl ERR_CORRUPT, p)
       | R_End _ \<Rightarrow> Some (Inl ERR_CORRUPT, p)
       | R_Ckpt_Begin \<Rightarrow> Some (Inl ERR_CORRUPT, p)
       | R_Ckpt_End c \<Rightarrow> Some (Inl ERR_CORRUPT, free_bank (free_dpgs p (cr_dpt c)) (cr_bank c))
       | R_Eof \<Rightarrow> Some (Inr None, p))"

partial_function (option) pgr_rollback_loop ::
  "(nat \<Rightarrow> rec_allocs) \<Rightarrow> nat \<Rightarrow> pager \<Rightarrow> ptr \<Rightarrow> lsn \<Rightarrow> lsn \<Rightarrow> (unit res \<times> pager) option" where
  "pgr_rollback_loop al n p tx save_lsn undo_nxt =
     (if save_lsn < undo_nxt then do {
        (r, p) \<leftarrow> pgr_rollback_step (al n) p tx undo_nxt;
        case r of
          Inl e \<Rightarrow> Some (Inl e, p)
        | Inr None \<Rightarrow> Some (Inr (), p)
        | Inr (Some l) \<Rightarrow> do {
            t \<leftarrow> pgr_txn p tx;
            p \<leftarrow> pgr_txn_set p tx ((tx_data t)\<lparr>td_undo_next_lsn := l\<rparr>);
            pgr_rollback_loop al (n + 1) p tx save_lsn l } }
      else Some (Inr (), p))"

definition pgr_rollback :: "(nat \<Rightarrow> rec_allocs) \<Rightarrow> pager \<Rightarrow> ptr \<Rightarrow> lsn \<Rightarrow> (unit res \<times> pager) option" where
  "pgr_rollback al p tx save_lsn = do {
     t \<leftarrow> pgr_txn p tx;
     pgr_rollback_loop al 0 p tx save_lsn (td_undo_next_lsn (tx_data t)) }"

section \<open>The context of restart\<close>

record aries_ctx =
  ac_master_lsn :: lsn
  ac_redo_lsn :: lsn
  ac_txt :: txn_table
  ac_txns :: dbl_buffer
  ac_dpt :: dpg_table
  ac_max_tid :: txid

text \<open>When the table of transactions cannot be opened, the failure path reads \<^verbatim>\<open>dest->dpt\<close>, which nothing
  has set.\<close>

definition aries_ctx_create ::
  "bool \<times> bool \<Rightarrow> bool \<times> nat option \<Rightarrow> nat option \<Rightarrow> wal_mem \<Rightarrow> lsn \<Rightarrow> (aries_ctx res \<times> wal_mem) option" where
  "aries_ctx_create txt_al dpt_al txns_al m master_lsn = do {
     r \<leftarrow> txnt_open txt_al;
     case r of
       Inl e \<Rightarrow> None
     | Inr txt \<Rightarrow> do {
         (r, dh) \<leftarrow> dpgt_open (fst dpt_al) (snd dpt_al) (wm_dpgs m);
         case r of
           Inl e \<Rightarrow> Some (Inl e, m\<lparr>wm_dpgs := dh\<rparr>)
         | Inr dpt \<Rightarrow> do {
             (r, th) \<leftarrow> dblb_create txns_al (wm_txns m) 100;
             Some (case r of
                 Inl e \<Rightarrow> (Inl e, m\<lparr>wm_txns := th, wm_dpgs := dpgt_close dh dpt\<rparr>)
               | Inr txns \<Rightarrow>
                   (Inr \<lparr>ac_master_lsn = master_lsn, ac_redo_lsn = 0, ac_txt = txt, ac_txns = txns, ac_dpt = dpt, ac_max_tid = 0\<rparr>,
                    m\<lparr>wm_txns := th, wm_dpgs := dh\<rparr>)) } } }"

definition aries_ctx_free :: "pager \<Rightarrow> aries_ctx \<Rightarrow> pager option" where
  "aries_ctx_free p ctx = do {
     let p = free_dpgs p (ac_dpt ctx);
     (h, _) \<leftarrow> dblb_free (wm_txns (pg_mem p)) (ac_txns ctx);
     Some (set_txns p h) }"

section \<open>Analysis\<close>

definition sticky :: "err_t option \<Rightarrow> err_t \<Rightarrow> err_t" where
  \<comment> \<open>the error object keeps the first cause\<close>
  "sticky err e = (case err of None \<Rightarrow> e | Some e' \<Rightarrow> e')"

definition cause_code :: "err_t option \<Rightarrow> 'a res \<Rightarrow> 'a res" where
  \<comment> \<open>what a function gives that ends with \<^verbatim>\<open>return e->cause_code\<close>: an error set before it was called is its result\<close>
  "cause_code err r = (case err of None \<Rightarrow> r | Some e \<Rightarrow> Inl e)"

lemma cause_code_None [simp]: "cause_code None r = r"
  by (simp add: cause_code_def)

type_synonym analysis = "pager \<times> aries_ctx \<times> err_t option"

definition analysis_enter :: "rec_allocs \<Rightarrow> lsn \<Rightarrow> wal_rec_hdr_read \<Rightarrow> analysis \<Rightarrow> (ptr option res \<times> analysis) option" where
  \<comment> \<open>a transaction of its own for every record that has one; it is entered into the table if its
    identifier is not there\<close>
  "analysis_enter a read_lsn rec s = do {
     let (p, ctx, err) = s;
     tid \<leftarrow> wrh_get_tid rec;
     let ctx = ctx\<lparr>ac_max_tid := update_max_txid (ac_max_tid ctx) tid\<rparr>;
     if tid = - 1 then Some (Inr None, p, ctx, err)
     else do {
       (tx, h, d) \<leftarrow> dblb_append_alloc (ra_grow a) (wm_txns (pg_mem p)) (ac_txns ctx) 1;
       let p = set_txns p h;
       let ctx = ctx\<lparr>ac_txns := d\<rparr>;
       case tx of
         None \<Rightarrow> Some (Inl (sticky err ERR_NOMEM), p, ctx, err)
       | Some tx \<Rightarrow> do {
           prev \<leftarrow> wrh_get_prev_lsn rec;
           ASSERT (sint prev \<ge> 0);
           h \<leftarrow> txn_init h tx tid \<lparr>td_state = TX_CANDIDATE_FOR_UNDO, td_last_lsn = read_lsn, td_undo_next_lsn = prev\<rparr>;
           let p = set_txns p h;
           (r, txt) \<leftarrow> txnt_insert_txn_if_not_exists (ra_ins a) h (ac_txt ctx) tx;
           let ctx = ctx\<lparr>ac_txt := txt\<rparr>;
           Some (map_sum id (\<lambda>_. Some tx) (cause_code err r), p, ctx, err) } } }"

definition analysis_txn :: "(txn_data \<Rightarrow> txn_data) \<Rightarrow> ptr option \<Rightarrow> pager \<Rightarrow> pager option" where
  "analysis_txn f tx p = do {
     tx \<leftarrow> tx;
     t \<leftarrow> pgr_txn p tx;
     pgr_txn_set p tx (f (tx_data t)) }"

definition analysis_step :: "rec_allocs \<Rightarrow> lsn \<Rightarrow> wal_rec_hdr_read \<Rightarrow> analysis \<Rightarrow> (unit res \<times> analysis) option" where
  "analysis_step a read_lsn rec s =
     err_wrap (analysis_enter a read_lsn rec s) (\<lambda>tx (p, ctx, err).
       case rec of
         R_Update u \<Rightarrow> do {
           p \<leftarrow> analysis_txn (\<lambda>d. d\<lparr>td_last_lsn := read_lsn, td_undo_next_lsn := read_lsn\<rparr>) tx p;
           e \<leftarrow> dpe_get (wm_dpgs (pg_mem p)) (ac_dpt ctx) (wu_pg u);
           case e of
             Some _ \<Rightarrow> Some (Inr (), p, ctx, err)
           | None \<Rightarrow> do {
               (r, h, t) \<leftarrow> dpgt_add (wm_dpgs (pg_mem p)) (ac_dpt ctx) (wu_pg u) read_lsn;
               Some (case r of Inl e \<Rightarrow> Inl (sticky err e) | Inr _ \<Rightarrow> Inr (),
                 p\<lparr>pg_mem := (pg_mem p)\<lparr>wm_dpgs := h\<rparr>\<rparr>, ctx\<lparr>ac_dpt := t\<rparr>, err) } }
       | R_Clr c \<Rightarrow> do {
           p \<leftarrow> analysis_txn (\<lambda>d. d\<lparr>td_last_lsn := read_lsn, td_undo_next_lsn := wk_undo_next c\<rparr>) tx p;
           Some (Inr (), p, ctx, err) }
       | R_Ckpt_Begin \<Rightarrow> Some (Inr (), p, ctx, err)
       | R_Ckpt_End c \<Rightarrow> do {
           (p, ctx, err) \<leftarrow>
             (if err \<noteq> None then Some (p, ctx, err)
              else do {
                (r, h, txt, d) \<leftarrow> txnt_merge_into (ra_merge a) (wm_txns (pg_mem p)) (ac_txt ctx) (cr_att c) (ac_txns ctx);
                Some (set_txns p h, ctx\<lparr>ac_txt := txt, ac_txns := d\<rparr>, case r of Inl e \<Rightarrow> Some e | Inr _ \<Rightarrow> None) });
           t \<leftarrow> dpgt_merge_into (ac_dpt ctx) (cr_dpt c);
           Some (Inr (), free_dpgs (free_bank p (cr_bank c)) (cr_dpt c), ctx\<lparr>ac_dpt := t\<rparr>, err) }
       | R_Commit c \<Rightarrow> do {
           p \<leftarrow> analysis_txn (\<lambda>d. d\<lparr>td_state := TX_COMMITTED, td_last_lsn := read_lsn\<rparr>) tx p;
           Some (Inr (), p, ctx, err) }
       | R_Begin b \<Rightarrow> Some (Inr (), p, ctx, err)
       | R_End x \<Rightarrow> do {
           tx \<leftarrow> tx;
           (r, txt) \<leftarrow> txnt_remove_txn_expect (ra_del a) (wm_txns (pg_mem p)) (ac_txt ctx) tx;
           Some (cause_code err r, p, ctx\<lparr>ac_txt := txt\<rparr>, err) }
       | R_Eof \<Rightarrow> None)"

definition analysis_read :: "rec_allocs \<Rightarrow> pager \<Rightarrow> err_t option \<Rightarrow> ((lsn \<times> wal_rec_hdr_read) res \<times> pager) option" where
  \<comment> \<open>the next record. Reading back the transactions of a checkpoint inserts them into a table, and with an error set
    before, the first insertion returns it: the record is given up\<close>
  "analysis_read a p err = do {
     (r, p) \<leftarrow> pgr_read_next a p;
     Some (case r of
         Inl e \<Rightarrow> (Inl (sticky err e), p)
       | Inr (l, R_Ckpt_End c) \<Rightarrow>
           (if err \<noteq> None \<and> cr_bank c \<noteq> None
            then (cause_code err (Inr (l, R_Ckpt_End c)), free_dpgs (free_bank p (cr_bank c)) (cr_dpt c))
            else (Inr (l, R_Ckpt_End c), p))
       | Inr (l, rec) \<Rightarrow> (Inr (l, rec), p)) }"

partial_function (option) analysis_loop ::
  "(nat \<Rightarrow> rec_allocs) \<Rightarrow> nat \<Rightarrow> lsn \<Rightarrow> wal_rec_hdr_read \<Rightarrow> analysis \<Rightarrow> (unit res \<times> analysis) option" where
  "analysis_loop al n read_lsn rec s =
     (if rec = R_Eof then Some (Inr (), s)
      else do {
        (r, s) \<leftarrow> analysis_step (al n) read_lsn rec s;
        case r of
          Inl e \<Rightarrow> Some (Inl e, s)
        | Inr _ \<Rightarrow> do {
            let (p, ctx, err) = s;
            (r, p) \<leftarrow> analysis_read (al n) p err;
            case r of
              Inl e \<Rightarrow> Some (Inl e, p, ctx, err)
            | Inr (l, rec) \<Rightarrow> analysis_loop al (n + 1) l rec (p, ctx, err) } })"

text \<open>The visit of a transaction at the end: without an error yet, one that has nothing to undo or is
  committed gets its end.\<close>

definition analysis_end_phase_flush_ends :: "ptr \<Rightarrow> err_t option \<times> pager \<Rightarrow> (err_t option \<times> pager) option" where
  "analysis_end_phase_flush_ends tx s = do {
     let (err, p) = s;
     if err \<noteq> None then Some s
     else do {
       t \<leftarrow> pgr_txn p tx;
       if td_state (tx_data t) = TX_CANDIDATE_FOR_UNDO \<and> td_undo_next_lsn (tx_data t) = 0 \<or>
          td_state (tx_data t) = TX_COMMITTED
       then do {
         (r, p) \<leftarrow> pgr_append p (W_End \<lparr>we_tid = tx_tid t, we_prev = td_last_lsn (tx_data t)\<rparr>);
         case r of
           Inl e \<Rightarrow> Some (Some e, p)
         | Inr _ \<Rightarrow> do { p \<leftarrow> pgr_txn_set p tx ((tx_data t)\<lparr>td_state := TX_DONE\<rparr>); Some (None, p) } }
       else Some s } }"

primrec analysis_remove_done ::
  "(nat \<Rightarrow> rec_allocs) \<Rightarrow> nat \<Rightarrow> nat \<Rightarrow> txn heap \<Rightarrow> nat \<Rightarrow> txn_table \<Rightarrow> (unit res \<times> txn_table) option" where
  "analysis_remove_done al 0 i h b t = Some (Inr (), t)"
| "analysis_remove_done al (Suc n) i h b t = do {
     x \<leftarrow> heap_get h (b, i);
     if td_state (tx_data x) = TX_DONE then do {
       (r, t) \<leftarrow> txnt_remove_txn_expect (ra_del (al i)) h t (b, i);
       case r of Inl e \<Rightarrow> Some (Inl e, t) | Inr _ \<Rightarrow> analysis_remove_done al n (i + 1) h b t }
     else analysis_remove_done al n (i + 1) h b t }"

definition analysis_start :: "(nat \<Rightarrow> rec_allocs) \<Rightarrow> pager \<Rightarrow> aries_ctx \<Rightarrow> ((lsn \<times> wal_rec_hdr_read) res \<times> pager) option" where
  "analysis_start al p ctx =
     (if ac_master_lsn ctx > 0 then
        err_wrap (pgr_read_entry (al 0) p (ac_master_lsn ctx)) (\<lambda>master p.
          if master \<noteq> R_Ckpt_Begin then Some (Inl ERR_CORRUPT, p) else pgr_read_next (al 1) p)
      else pgr_read_next (al 1) p)"

definition pgr_restart_analysis ::
  "(nat \<Rightarrow> rec_allocs) \<Rightarrow> pager \<Rightarrow> aries_ctx \<Rightarrow> (unit res \<times> pager \<times> aries_ctx) option" where
  "pgr_restart_analysis al p ctx = do {
     (r, p) \<leftarrow> analysis_start al p ctx;
     case r of
       Inl e \<Rightarrow> Some (Inl e, p, ctx)
     | Inr (l, rec) \<Rightarrow> do {
         (r, p, ctx, err) \<leftarrow> analysis_loop al 2 l rec (p, ctx\<lparr>ac_redo_lsn := 0\<rparr>, None);
         case r of
           Inl e \<Rightarrow> Some (Inl e, p, ctx)
         | Inr _ \<Rightarrow> do {
             (err, p) \<leftarrow> txnt_foreach (ac_txt ctx) analysis_end_phase_flush_ends (err, p);
             case err of
               Some e \<Rightarrow> Some (Inl e, p, ctx)
             | None \<Rightarrow> do {
                 (r, t) \<leftarrow> analysis_remove_done al (db_nelem (ac_txns ctx)) 0 (wm_txns (pg_mem p))
                   (db_block (ac_txns ctx)) (ac_txt ctx);
                 let ctx = ctx\<lparr>ac_txt := t\<rparr>;
                 case r of
                   Inl e \<Rightarrow> Some (Inl e, p, ctx)
                 | Inr _ \<Rightarrow> do {
                     l \<leftarrow> dpgt_min_rec_lsn (wm_dpgs (pg_mem p)) (ac_dpt ctx);
                     Some (Inr (), p, ctx\<lparr>ac_redo_lsn := l\<rparr>) } } } } }"

section \<open>Redo\<close>

text \<open>What both kinds of records do: the page gets the bytes when it is in the table of dirty pages and older
  than the record. The result of the release is ignored.\<close>

definition redo_page :: "pager \<Rightarrow> aries_ctx \<Rightarrow> pgno \<Rightarrow> u8 list \<Rightarrow> (unit res \<times> pager) option" where
  "redo_page p ctx pgn bytes = do {
     e \<leftarrow> dpe_get (wm_dpgs (pg_mem p)) (ac_dpt ctx) pgn;
     let in_dpt = (case e of None \<Rightarrow> False | Some e \<Rightarrow> ac_redo_lsn ctx \<ge> de_rec_lsn e);
     if \<not> in_dpt then Some (Inr (), p)
     else do {
       (r, ph, p) \<leftarrow> pgr_get_unverified page_h_create pgn p;
       case r of
         Inl e \<Rightarrow> Some (Inl e, p)
       | Inr _ \<Rightarrow> do {
           (r, ph, p) \<leftarrow> pgr_make_writable_no_tx p ph;
           case r of
             Inl e \<Rightarrow> Some (Inl e, p)
           | Inr _ \<Rightarrow> do {
               page_lsn \<leftarrow> map_option page_get_page_lsn (page_h_ro p ph);
               p \<leftarrow>
                 (if page_lsn < ac_redo_lsn ctx then do {
                    x \<leftarrow> page_h_w p ph;
                    page_h_w_put p ph (page_set_page_lsn (x\<lparr>raw := bytes\<rparr>) (ac_redo_lsn ctx)) }
                  else do {
                    h \<leftarrow> dpgt_update (wm_dpgs (pg_mem p)) (ac_dpt ctx) pgn (page_lsn + 1);
                    Some (p\<lparr>pg_mem := (pg_mem p)\<lparr>wm_dpgs := h\<rparr>\<rparr>) });
               (_, _, p) \<leftarrow> pgr_release_no_tx p ph PG_ANY;
               Some (Inr (), p) } } } }"

definition redo_step :: "wal_rec_hdr_read \<Rightarrow> pager \<Rightarrow> aries_ctx \<Rightarrow> (unit res \<times> pager) option" where
  "redo_step rec p ctx =
     (case rec of
        R_Update u \<Rightarrow> redo_page p ctx (wu_pg u) (wu_redo u)
      | R_Clr c \<Rightarrow> redo_page p ctx (wk_pg c) (wk_redo c)
      | R_Ckpt_End c \<Rightarrow> Some (Inr (), free_dpgs p (cr_dpt c))
      | _ \<Rightarrow> Some (Inr (), p))"

partial_function (option) redo_loop ::
  "(nat \<Rightarrow> rec_allocs) \<Rightarrow> nat \<Rightarrow> wal_rec_hdr_read \<Rightarrow> pager \<Rightarrow> aries_ctx \<Rightarrow> (unit res \<times> pager \<times> aries_ctx) option" where
  "redo_loop al n rec p ctx =
     (if rec = R_Eof then Some (Inr (), p, ctx)
      else do {
        tid \<leftarrow> wrh_get_tid rec;
        let ctx = ctx\<lparr>ac_max_tid := update_max_txid (ac_max_tid ctx) tid\<rparr>;
        (r, p) \<leftarrow> redo_step rec p ctx;
        case r of
          Inl e \<Rightarrow> Some (Inl e, p, ctx)
        | Inr _ \<Rightarrow> do {
            (r, p) \<leftarrow> pgr_read_next (al n) p;
            case r of
              Inl e \<Rightarrow> Some (Inl e, p, ctx)
            | Inr (l, rec) \<Rightarrow> redo_loop al (n + 1) rec p (ctx\<lparr>ac_redo_lsn := l\<rparr>) } })"

definition pgr_restart_redo ::
  "(nat \<Rightarrow> rec_allocs) \<Rightarrow> pager \<Rightarrow> aries_ctx \<Rightarrow> (unit res \<times> pager \<times> aries_ctx) option" where
  "pgr_restart_redo al p ctx =
     (if ac_redo_lsn ctx = 0 then Some (Inr (), p, ctx)
      else do {
        (r, p) \<leftarrow> pgr_read_entry (al 0) p (ac_redo_lsn ctx);
        case r of
          Inl e \<Rightarrow> Some (Inl e, p, ctx)
        | Inr rec \<Rightarrow> redo_loop al 1 rec p ctx })"

section \<open>Undo\<close>

text \<open>\<open>Inr False\<close>: a position was taken for an error, and the pass returns success at once.\<close>

definition undo_update :: "pager \<Rightarrow> aries_ctx \<Rightarrow> wal_update \<Rightarrow> (bool res \<times> pager) option" where
  "undo_update p ctx u = do {
     (r, ph, p) \<leftarrow> pgr_get_unverified page_h_create (wu_pg u) p;
     case r of
       Inl e \<Rightarrow> Some (Inl e, p)
     | Inr _ \<Rightarrow> do {
         (r, ph, p) \<leftarrow> pgr_make_writable_no_tx p ph;
         case r of
           Inl e \<Rightarrow> Some (Inl e, p)
         | Inr _ \<Rightarrow> do {
             x \<leftarrow> page_h_w p ph;
             p \<leftarrow> page_h_w_put p ph (x\<lparr>raw := wu_undo u\<rparr>);
             tx \<leftarrow> txnt_get_expect (wm_txns (pg_mem p)) (ac_txt ctx) (wu_tid u);
             t \<leftarrow> pgr_txn p tx;
             (r, p) \<leftarrow> pgr_append p (W_Clr
               \<lparr>wk_tid = wu_tid u, wk_prev = td_last_lsn (tx_data t), wk_pg = wu_pg u,
                wk_undo_next = wu_prev u, wk_redo = wu_undo u\<rparr>);
             case r of
               Inl e \<Rightarrow> Some (Inl e, p)
             | Inr l \<Rightarrow>
                 if slsn_fails l then Some (Inr False, p)
                 else do {
                   (r, p) \<leftarrow> pgr_wal_flush p;
                   case r of
                     Inl e \<Rightarrow> Some (Inl e, p)
                   | Inr _ \<Rightarrow> do {
                       x \<leftarrow> page_h_w p ph;
                       p \<leftarrow> page_h_w_put p ph (page_set_page_lsn x l);
                       p \<leftarrow> pgr_txn_set p tx ((tx_data t)\<lparr>td_last_lsn := l\<rparr>);
                       (_, _, p) \<leftarrow> pgr_release_no_tx p ph PG_ANY;
                       t \<leftarrow> pgr_txn p tx;
                       p \<leftarrow> pgr_txn_set p tx ((tx_data t)\<lparr>td_undo_next_lsn := wu_prev u\<rparr>);
                       Some (Inr True, p) } } } } }"

definition undo_step ::
  "rec_allocs \<Rightarrow> lsn \<Rightarrow> wal_rec_hdr_read \<Rightarrow> pager \<Rightarrow> aries_ctx \<Rightarrow> (bool res \<times> pager \<times> aries_ctx) option" where
  "undo_step a undo_lsn rec p ctx =
     (case rec of
        R_Update u \<Rightarrow> do { (r, p) \<leftarrow> undo_update p ctx u; Some (r, p, ctx) }
      | R_Clr c \<Rightarrow> do {
          tx \<leftarrow> txnt_get_expect (wm_txns (pg_mem p)) (ac_txt ctx) (wk_tid c);
          t \<leftarrow> pgr_txn p tx;
          p \<leftarrow> pgr_txn_set p tx ((tx_data t)\<lparr>td_undo_next_lsn := wk_undo_next c\<rparr>);
          Some (Inr True, p, ctx) }
      | R_Begin b \<Rightarrow> do {
          (r, p) \<leftarrow> pgr_append p (W_End \<lparr>we_tid = wb_tid b, we_prev = undo_lsn\<rparr>);
          case r of
            Inl e \<Rightarrow> Some (Inl e, p, ctx)
          | Inr l \<Rightarrow>
              if slsn_fails l then Some (Inr False, p, ctx)
              else do {
                tx \<leftarrow> txnt_get_expect (wm_txns (pg_mem p)) (ac_txt ctx) (wb_tid b);
                (r, t) \<leftarrow> txnt_remove_txn_expect (ra_del a) (wm_txns (pg_mem p)) (ac_txt ctx) tx;
                Some (case r of Inl e \<Rightarrow> Inl e | Inr _ \<Rightarrow> Inr True, p, ctx\<lparr>ac_txt := t\<rparr>) } }
      | _ \<Rightarrow> Some (Inr True, p, ctx))"

partial_function (option) pgr_restart_undo ::
  "(nat \<Rightarrow> rec_allocs) \<Rightarrow> nat \<Rightarrow> pager \<Rightarrow> aries_ctx \<Rightarrow> (unit res \<times> pager \<times> aries_ctx) option" where
  "pgr_restart_undo al n p ctx = do {
     undo_lsn \<leftarrow> txnt_max_u_undo_lsn (wm_txns (pg_mem p)) (ac_txt ctx);
     if sint undo_lsn < 0 then Some (Inr (), p, ctx)
     else do {
       (r, p) \<leftarrow> pgr_read_entry (al n) p undo_lsn;
       case r of
         Inl e \<Rightarrow> Some (Inl e, p, ctx)
       | Inr rec \<Rightarrow> do {
           (r, p, ctx) \<leftarrow> undo_step (al n) undo_lsn rec p ctx;
           case r of
             Inl e \<Rightarrow> Some (Inl e, p, ctx)
           | Inr go \<Rightarrow> if go then pgr_restart_undo al (n + 1) p ctx else Some (Inr (), p, ctx) } } }"

section \<open>Restart\<close>

text \<open>The outcomes of each pass are an argument of their own. A pass that fails ends the restart; the context is
  freed in any case.\<close>

definition pgr_restart ::
  "(nat \<Rightarrow> rec_allocs) \<times> (nat \<Rightarrow> rec_allocs) \<times> (nat \<Rightarrow> rec_allocs) \<Rightarrow> pager \<Rightarrow> aries_ctx \<Rightarrow>
     (txid res \<times> pager) option" where
  \<comment> \<open>the result holds \<^verbatim>\<open>ctx.max_tid\<close>, which the caller reads\<close>
  "pgr_restart al p ctx = do {
     let p = p\<lparr>pg_restarting := True\<rparr>;
     (r, p, ctx) \<leftarrow> pgr_restart_analysis (fst al) p ctx;
     (r, p, ctx) \<leftarrow> (case r of Inl e \<Rightarrow> Some (Inl e, p, ctx) | Inr _ \<Rightarrow> pgr_restart_redo (fst (snd al)) p ctx);
     (r, p, ctx) \<leftarrow> (case r of Inl e \<Rightarrow> Some (Inl e, p, ctx) | Inr _ \<Rightarrow> pgr_restart_undo (snd (snd al)) 0 p ctx);
     p \<leftarrow> aries_ctx_free p ctx;
     Some (map_sum id (\<lambda>_. ac_max_tid ctx) r, p\<lparr>pg_restarting := False\<rparr>) }"

section \<open>Opening and closing\<close>

record open_allocs =
  oa_pager :: bool
  oa_dpt :: "bool \<times> nat option"
  oa_tnxt :: "bool \<times> bool"
  oa_ctx :: "(bool \<times> bool) \<times> (bool \<times> nat option) \<times> nat option"
  oa_rec :: "(nat \<Rightarrow> rec_allocs) \<times> (nat \<Rightarrow> rec_allocs) \<times> (nat \<Rightarrow> rec_allocs)"
  oa_stack :: nat

definition pgr_is_new_guard :: "pager \<Rightarrow> (bool res \<times> pager) option" where
  "pgr_is_new_guard p =
     (if fpgr_get_npages (pg_fp p) = 0 then Some (Inr True, p)
      else do {
        (r, bytes, d) \<leftarrow> fpgr_read (pg_fp p) (pg_disk p) (replicate PAGE_SIZE 0) 0;
        let p = p\<lparr>pg_disk := d\<rparr>;
        let root = \<lparr>raw = bytes, pg = 0\<rparr>;
        Some (case r of
            Inl e \<Rightarrow> (Inl e, p)
          | Inr _ \<Rightarrow> (Inr False, p\<lparr>pg_master_lsn := rn_get_master_lsn root, pg_first_tombstone := rn_get_first_tmbst root\<rparr>)) })"

definition pgr_open_new :: "open_allocs \<Rightarrow> pager \<Rightarrow> (unit res \<times> pager) option" where
  "pgr_open_new oa p = do {
     let (r, fp, d) = fpgr_reset (pg_fp p) (pg_disk p);
     let p = p\<lparr>pg_fp := fp, pg_disk := d\<rparr>;
     case r of
       Inl e \<Rightarrow> Some (Inl e, p)
     | Inr _ \<Rightarrow>
         err_wrap
           (if pg_wal_enabled p then do {
              (r, w, d) \<leftarrow> wal_reset (pg_ww p) (pg_log p); Some (r, p\<lparr>pg_ww := w, pg_log := d\<rparr>) }
            else Some (Inr (), p)) (\<lambda>_ p. do {
         t \<leftarrow> txnt_open (oa_tnxt oa);
         case t of
           Inl e \<Rightarrow> Some (Inl e, p)
         | Inr t \<Rightarrow>
             with_txn (oa_stack oa) (p\<lparr>pg_tnxt := t, pg_next_tid := 1\<rparr>) (\<lambda>p. do {
               let tx = (oa_stack oa, 0);
               let RN = pt_code PG_ROOT_NODE;
               err_wrap (if pg_wal_enabled p then pgr_begin_txn tx p else Some (Inr (), p)) (\<lambda>_ p. do {
                 (_, root, p) \<leftarrow> pgr_new_extend page_h_create p tx;
                 x \<leftarrow> page_h_w p root;
                 x \<leftarrow> page_init_empty x PG_ROOT_NODE;
                 p \<leftarrow> page_h_w_put p root x;
                 (r, root, p) \<leftarrow> pgr_save p root RN;
                 case r of
                   Inl e \<Rightarrow> Some (Inl e, p)
                 | Inr _ \<Rightarrow> do {
                     (_, _, p) \<leftarrow> pgr_release p root RN;
                     if pg_wal_enabled p then pgr_commit p tx else Some (Inr (), p) } }) }) }) }"

definition pgr_open_existing :: "open_allocs \<Rightarrow> pager \<Rightarrow> (unit res \<times> pager) option" where
  "pgr_open_existing oa p = do {
     t \<leftarrow> txnt_open (oa_tnxt oa);
     case t of
       Inl e \<Rightarrow> Some (Inl e, p)
     | Inr t \<Rightarrow> do {
         let p = p\<lparr>pg_tnxt := t\<rparr>;
         if \<not> pg_wal_enabled p then Some (Inr (), p)
         else do {
           let (a, b, c) = oa_ctx oa;
           (r, m) \<leftarrow> aries_ctx_create a b c (pg_mem p) (pg_master_lsn p);
           let p = p\<lparr>pg_mem := m\<rparr>;
           case r of
             Inl e \<Rightarrow> Some (Inl e, p)
           | Inr ctx \<Rightarrow>
               err_wrap (pgr_restart (oa_rec oa) p ctx) (\<lambda>max_tid p. do {
                 let (r, w, d) = wal_write_mode (pg_ww p) (pg_log p);
                 let p = p\<lparr>pg_ww := w, pg_log := d\<rparr>;
                 Some (case r of Inl e \<Rightarrow> (Inl e, p) | Inr _ \<Rightarrow> (Inr (), p\<lparr>pg_next_tid := max_tid + 1\<rparr>)) }) } } }"

text \<open>\<^verbatim>\<open>pgr_open\<close>: \<open>exists_rw\<close> is the answer of \<^verbatim>\<open>access\<close>, \<open>wal\<close> whether there is a name for the log, \<open>p\<close> the memory
  the pager is put into, with the two disks. On failure the pager is gone and the disks are left; whether
  they are removed depends on \<open>is_new\<close>, which is first guessed from \<open>exists_rw\<close> and then found out.\<close>

definition open_failed :: "bool \<Rightarrow> bool \<Rightarrow> bool \<Rightarrow> bool \<Rightarrow> dpg_table option \<Rightarrow> pager \<Rightarrow> pager option" where
  "open_failed is_new wal wal_opened fpgr_opened dpt p = do {
     let p = (case dpt of None \<Rightarrow> p | Some t \<Rightarrow> free_dpgs p t);
     p \<leftarrow> (if wal_opened then do { (_, w, d) \<leftarrow> wal_close (pg_ww p) (pg_log p); Some (p\<lparr>pg_ww := w, pg_log := d\<rparr>) }
           else Some p);
     let p = (if fpgr_opened then p\<lparr>pg_disk := snd (fpgr_close (pg_fp p) (pg_disk p))\<rparr> else p);
     Some (if is_new
           then let p = p\<lparr>pg_disk := snd (i_remove_quiet (pg_disk p))\<rparr> in
             if wal then p\<lparr>pg_log := snd (i_remove_quiet (pg_log p))\<rparr> else p
           else p) }"

definition pgr_open :: "open_allocs \<Rightarrow> bool \<Rightarrow> bool \<Rightarrow> pager \<Rightarrow> (unit res \<times> pager) option" where
  "pgr_open oa exists_rw wal p = do {
     let is_new = \<not> exists_rw;
     let fail = (\<lambda>e is_new wal_opened fpgr_opened dpt p. do {
       p \<leftarrow> open_failed is_new wal wal_opened fpgr_opened dpt p; Some (Inl e, p) });
     if \<not> oa_pager oa then fail ERR_NOMEM is_new False False None p
     else do {
       let (r, fp, d) = fpgr_open (pg_fp p) (pg_disk p);
       let p = p\<lparr>pg_fp := fp, pg_disk := d, pg_restarting := False, pg_wal_enabled := False, pg_master_lsn := 0,
         pg_first_tombstone := 0, pg_ckpt_begin_lsn := 0,
         pg_pages := replicate MEMORY_PAGE_LEN \<lparr>pf_page = zero_page 0, pf_pin = 0, pf_flags = 0, pf_wsibling = 0\<rparr>\<rparr>;
       case r of
         Inl e \<Rightarrow> fail e is_new False False None p
       | Inr _ \<Rightarrow> do {
           (r, p) \<leftarrow> pgr_is_new_guard p;
           case r of
             Inl e \<Rightarrow> fail e False False True None p
           | Inr is_new \<Rightarrow> do {
               (r, h) \<leftarrow> dpgt_open (fst (oa_dpt oa)) (snd (oa_dpt oa)) (wm_dpgs (pg_mem p));
               let p = p\<lparr>pg_mem := (pg_mem p)\<lparr>wm_dpgs := h\<rparr>\<rparr>;
               case r of
                 Inl e \<Rightarrow> fail e is_new False True None p
               | Inr dpt \<Rightarrow> do {
                   let p = (if wal then p\<lparr>pg_ww := wal_open, pg_wal_enabled := True\<rparr> else p);
                   let p = p\<lparr>pg_ht := ht_init 0 MEMORY_PAGE_LEN, pg_dpt := dpt, pg_clock := 0, pg_next_tid := 1\<rparr>;
                   (r, p) \<leftarrow> (if is_new then pgr_open_new oa p else pgr_open_existing oa p);
                   case r of
                     Inl e \<Rightarrow> fail e is_new (pg_wal_enabled p) True (Some dpt) p
                   | Inr _ \<Rightarrow> do { pager_assert p; Some (Inr (), p) } } } } } }"

definition pgr_get_npages :: "pager \<Rightarrow> nat" where
  "pgr_get_npages p = fpgr_get_npages (pg_fp p)"

text \<open>\<^verbatim>\<open>pgr_close\<close> returns the first error.\<close>

definition first_err :: "err_t option \<Rightarrow> 'a res \<Rightarrow> err_t option" where
  "first_err err r = (case err of Some e \<Rightarrow> Some e | None \<Rightarrow> (case r of Inl e \<Rightarrow> Some e | Inr _ \<Rightarrow> None))"

definition pgr_close :: "pager \<Rightarrow> (err_t option \<times> pager) option" where
  "pgr_close p = do {
     pager_assert p;
     (err, p) \<leftarrow> pgr_evict_all p;
     (err, p) \<leftarrow>
       (if pg_wal_enabled p then do {
          (r, w, d) \<leftarrow> wal_close (pg_ww p) (pg_log p); Some (first_err err r, p\<lparr>pg_ww := w, pg_log := d\<rparr>) }
        else Some (err, p));
     let (r, d) = fpgr_close (pg_fp p) (pg_disk p);
     let p = p\<lparr>pg_disk := d\<rparr>;
     Some (first_err err r, free_dpgs p (pg_dpt p)) }"

end
