(* ===== verification/Pager_Rollback.thy ===== *)
theory Pager_Rollback
  imports Pager_Txn Recovery
begin

text \<open>
  Rolling a transaction back. \<open>undo_chain\<close> says that the file of the log holds the records of the updates of a
  transaction, each at the position the one after it points back to; \<open>undone\<close> is what undoing them in that
  order makes of the pages. A rollback does just that, and appends a record for every page it restores.
\<close>

section \<open>Writing without a transaction\<close>

lemma get_writable_idle:
  assumes idle: "idle p" and k: "unat k < unat (fp_npages (pg_fp p))" and v: "valid_bytes (pgr_page p k) flags"
  shows "\<exists>h q i j. pgr_get_writable_no_tx page_h_create flags k p = Some (Inr (), h, q) \<and> holds_x q h k i j \<and>
    pool_step p q {i, j} \<and> same_pages p q \<and> raw (pf_page (fr q j)) = pgr_page p k \<and> pf_pin (fr q i) = 1 \<and> used q \<subseteq> {i, j}"
proof -
  have "\<forall>x. raw x = pgr_page p k \<longrightarrow> page_validate_for_db x flags = Some (Inr ())"
    using v by (simp add: valid_bytes_iff)
  from pgr_fetch_idle [OF idle k this] obtain h1 p1 i where
    g: "pgr_get page_h_create flags k p = Some (Inr (), h1, p1)" "holds_s p1 h1 k i" "pool_step p p1 {i}" "same_pages p p1"
      "pf_pin (fr p1 i) = 1" "used p1 \<subseteq> {i}" unfolding pgr_get_def by blast
  note I1 = pool_stepD(1) [OF g(3)] and R1 = pgr_restD [OF pool_stepD(2) [OF g(3)]]
  have "card (used p1) \<le> card {i}" by (rule card_mono) (simp_all add: g(6))
  then have "card (used p1) < MEMORY_PAGE_LEN" by simp
  from used_free [OF this] obtain m where m: "frame_free p1 m" by blast
  from pgr_make_writable_no_tx_ok [OF I1 g(2) m] obtain p2 j where
    w: "pgr_make_writable_no_tx p1 h1 = Some (Inr (), h1\<lparr>ph_pgw := Some j, ph_mode := PHM_X\<rparr>, p2)"
      "holds_x p2 (h1\<lparr>ph_pgw := Some j, ph_mode := PHM_X\<rparr>) k i j" "pool_step p1 p2 {i, j}"
      "\<And>l. unat l < unat (fp_npages (pg_fp p1)) \<Longrightarrow> pgr_page p2 l = pgr_page p1 l"
      "raw (pf_page (fr p2 j)) = pgr_page p1 k" "pf_pin (fr p2 i) = pf_pin (fr p1 i)" by blast
  have "pool_step p p2 ({i} \<union> {i, j})" by (rule pool_step_trans [OF g(3) w(3)])
  then have "pool_step p p2 {i, j}" by (rule pool_step_weaken) auto
  moreover have "same_pages p p2" using g(4) w(4) by (simp add: same_pages_def R1)
  moreover have "used p2 \<subseteq> {i, j}" using pool_stepD(4) [OF w(3)] g(6) by auto
  moreover have "raw (pf_page (fr p2 j)) = pgr_page p k" using w(5) g(4) k by (simp add: same_pages_def)
  ultimately show ?thesis
    using g(1,5) w(1,2,6) by (intro exI [of _ "h1\<lparr>ph_pgw := Some j, ph_mode := PHM_X\<rparr>"] exI [of _ p2] exI [of _ i] exI [of _ j])
      (simp add: pgr_get_writable_no_tx_def)
qed

lemma release_no_tx_ok:
  assumes inv: "pool_inv p" and h: "holds_x p h k i j" and v: "valid_bytes (raw (pf_page (fr p j))) flags"
    and pin: "pf_pin (fr p i) = 1" and u: "used p \<subseteq> {i, j}"
    and lsn: "pg_wal_enabled p \<Longrightarrow> \<not> pg_restarting p \<Longrightarrow> wal_rule p \<Longrightarrow>
      lsn_below (raw (pf_page (fr p j))) (length (the_log p))"
  shows "\<exists>h' q. pgr_release_no_tx p h flags = Some (Inr (), h', q) \<and> pool_step p q {i, j} \<and> used q = {} \<and>
    (\<forall>l. pgr_page q l = (if l = k then raw (pf_page (fr p j)) else pgr_page p l))"
proof -
  note C = holds_x_cached [OF inv h]
  from pgr_copy_back_ok [OF inv h lsn] obtain p1 where
    p1: "pgr_copy_back p h = Some p1" "holds_x p1 h k i j" "pool_step p p1 {i}"
      "\<And>l. pgr_page p1 l = (if l = k then raw (pf_page (fr p j)) else pgr_page p l)" "used p1 = used p"
      "pf_pin (fr p1 i) = pf_pin (fr p i)" by blast
  note I1 = pool_stepD(1) [OF p1(3)]
  let ?h = "h\<lparr>ph_pgw := None, ph_mode := PHM_S\<rparr>"
  from pgr_drop_w_ok [OF I1 p1(2)] obtain p2 where
    p2: "pgr_drop_w p1 h = Some (?h, p2)" "holds_s p2 ?h k i" "pool_step p1 p2 {i, j}" "\<And>l. pgr_page p2 l = pgr_page p1 l"
      "used p2 \<subseteq> used p1 - {j}" "fr p2 i = (fr p1 i)\<lparr>pf_wsibling := -1\<rparr>" by blast
  note I2 = pool_stepD(1) [OF p2(3)]
  have v2: "valid_bytes (pgr_page p2 k) flags" using v by (simp add: p2(4) p1(4))
  have pin2: "pf_pin (fr p2 i) = 1" using p2(6) p1(6) pin by simp
  then obtain q where
    q: "pgr_unpin p2 ?h flags = Some (Inr (), ?h\<lparr>ph_pgr := None, ph_mode := PHM_NONE\<rparr>, q)"
      "pool_step p2 q {i}" "\<And>l. pgr_page q l = pgr_page p2 l" "used q = used p2 - {i}"
    using pgr_unpin_ok [OF I2 p2(2) v2] by auto
  have "page_validate_for_db (pf_page (fr p j)) flags = Some (Inr ())" using v by (simp add: valid_bytes_iff)
  moreover have "pager_assert p = Some ()" using frames_invD(2) [OF pool_invD(1) [OF inv]] by (simp add: pager_assert_def)
  ultimately have "pgr_release_no_tx p h flags = Some (Inr (), ?h\<lparr>ph_pgr := None, ph_mode := PHM_NONE\<rparr>, q)"
    using C(15,17) holds_xD(1) [OF h] p1(1) p2(1) q(1) by (simp add: pgr_release_no_tx_def)
  moreover have "pool_step p q ({i} \<union> ({i, j} \<union> {i}))"
    by (intro pool_step_trans [OF p1(3)] pool_step_trans [OF p2(3)] q(2))
  then have "pool_step p q {i, j}" by (rule pool_step_weaken) auto
  moreover have "used q = {}" using q(4) p2(5) p1(5) u by auto
  moreover have "pgr_page q l = (if l = k then raw (pf_page (fr p j)) else pgr_page p l)" for l
    using q(3) p2(4) p1(4) by simp
  ultimately show ?thesis by blast
qed

section \<open>Reading a record back\<close>

text \<open>Only the tables of a checkpoint are put into memory.\<close>

lemma walf_read_body_mem:
  assumes "walf_read_body ok al m w d crc t = Some (Inr rec, m', w', d')" "\<nexists>c. rec = R_Ckpt_End c"
  shows "m' = m"
  using assms
  by (auto simp: walf_read_body_def walf_read_ckpt_end_def map_sum_Inr split: Option.bind_split_asm if_split_asm sum.split_asm option.split_asm prod.split_asm)

lemma walf_pread_mem:
  assumes "walf_pread ok al m w d l = Some (Inr rec, m', w', d')" "\<nexists>c. rec = R_Ckpt_End c"
  shows "m' = m"
proof -
  have "m' = m" if r: "walf_read_next ok al m w d = Some (Inr rec, m', w', d')" for w d
    using r assms(2) walf_read_body_mem
    unfolding walf_read_next_def by (auto split: Option.bind_split_asm sum.split_asm option.split_asm prod.split_asm)
  with assms(1) show ?thesis
    unfolding walf_pread_def by (auto split: Option.bind_split_asm sum.split_asm prod.split_asm)
qed

definition rec_at :: "u8 list \<Rightarrow> lsn \<Rightarrow> wal_rec_hdr_write \<Rightarrow> bool" where
  "rec_at x l r \<longleftrightarrow> (\<exists>pre post. x = pre @ rec_image no_mem r @ post \<and> length pre = unat l)"

lemma rec_at_append: "rec_at x l r \<Longrightarrow> rec_at (x @ y) l r"
  unfolding rec_at_def by (metis append.assoc)

text \<open>A read changes the input stream of the log only.\<close>

lemma pool_read_step:
  assumes inv: "pool_inv p" and sd: "same_disk (pg_log p) d"
    and w: "wf_ostream w = wf_ostream (w_wf (pg_ww p))" "wf_latch w = wf_latch (w_wf (pg_ww p))"
  defines "q \<equiv> p\<lparr>pg_ww := (pg_ww p)\<lparr>w_wf := w\<rparr>, pg_log := d\<rparr>"
  shows "pool_grow p q {} []" "pgr_page q k = pgr_page p k" "used q = used p" "d_data d = d_data (pg_log p)"
proof -
  note I = pool_invD [OF inv] and sd = sd [unfolded same_disk_def]
  have L: "wal_inv (pg_ww p) (pg_log p)" "length (d_durable (pg_log p)) \<le> length (d_data (pg_log p))"
    "pa_ckpt (pg_allocs p)" "\<exists>mem. pa_buf (pg_allocs p) = Some mem \<and> length mem = WAL_BUFFER_CAP"
    using I(3) by (simp_all add: log_inv_def)
  let ?w = "(pg_ww p)\<lparr>w_wf := w\<rparr>"
  have wl: "wos_log os d = wos_log os (pg_log p)" "wos_inv os d = wos_inv os (pg_log p)" for os
    using sd by (simp_all add: wos_log_def wos_inv_def)
  have log: "wal_log ?w d = the_log p" using w(1) sd by (simp add: wal_log_def wf_log_def wl split: option.split)
  have "wal_inv ?w d"
    using L(1) w sd by (simp add: wal_inv_def wf_inv_def wf_str_def wf_log_def wl split: option.splits)
  then have "log_inv q" using L sd by (simp add: log_inv_def q_def)
  moreover have "dpt_dirty q" using I(4) by (simp add: dpt_dirty_def q_def)
  ultimately show "pool_grow p q {} []" "pgr_page q k = pgr_page p k" "used q = used p"
    using pool_log_step [OF inv, of q "[]"] log sd by (simp_all add: pgr_conf_def q_def)
  show "d_data d = d_data (pg_log p)" using sd by simp
qed

lemma pgr_read_entry_ok:
  assumes inv: "pool_inv p" and at: "rec_at (d_data (pg_log p)) l r" and ok: "rec_ok (pg_mem p) r"
    and m: "rec_image (pg_mem p) r = rec_image no_mem r" and al: "ra_ok a" "allocs_ok (ra_al a)"
    and r: "\<And>c. r \<noteq> W_Ckpt_End c"
  shows "\<exists>rec w d. pgr_read_entry a p l = Some (Inr rec, p\<lparr>pg_ww := w, pg_log := d\<rparr>) \<and> rec_same (pg_mem p) r (pg_mem p) rec \<and>
    pool_grow p (p\<lparr>pg_ww := w, pg_log := d\<rparr>) {} [] \<and> d_data d = d_data (pg_log p) \<and>
    (\<forall>k. pgr_page (p\<lparr>pg_ww := w, pg_log := d\<rparr>) k = pgr_page p k) \<and> used (p\<lparr>pg_ww := w, pg_log := d\<rparr>) = used p"
proof -
  note I = pool_invD [OF inv]
  from at obtain pre post where x: "d_data (pg_log p) = pre @ rec_image (pg_mem p) r @ post" "length pre = unat l"
    unfolding rec_at_def m by blast
  have L: "wal_inv (pg_ww p) (pg_log p)" "no_fail (pg_log p)" using I(3) by (simp_all add: log_inv_def)
  have "length (the_log p) < 9223372036854775808" using L(1) by (simp add: wal_inv_def wf_inv_def wf_str_def wal_log_def)
  then have "length pre < 9223372036854775808" using wal_log_data [of "pg_ww p" "pg_log p"] x(1) by auto
  from walf_pread_image [OF L(2) x(1) this ok al(2), of "pg_mem p" "w_wf (pg_ww p)"] obtain rec m'' w' d where
    d: "walf_pread True (ra_al a) (pg_mem p) (w_wf (pg_ww p)) (pg_log p) l = Some (Inr rec, m'', w', d)"
      "rec_same (pg_mem p) r m'' rec" "same_disk (pg_log p) d" "wf_ostream w' = wf_ostream (w_wf (pg_ww p))"
      "wf_latch w' = wf_latch (w_wf (pg_ww p))" unfolding x(2) by auto
  have "\<nexists>c. rec = R_Ckpt_End c" using d(2) r by (cases r; cases rec) auto
  from walf_pread_mem [OF d(1) this] have m'': "m'' = pg_mem p" .
  let ?w = "(pg_ww p)\<lparr>w_wf := w'\<rparr>"
  let ?q = "p\<lparr>pg_ww := ?w, pg_log := d\<rparr>"
  note g = pool_read_step [OF inv d(3-5)]
  have "pgr_read_entry a p l = Some (Inr rec, ?q)"
    using d(1) m'' al(1) by (simp add: pgr_read_entry_def wal_read_entry_def)
  with g d(2) m'' show ?thesis by (intro exI [of _ rec] exI [of _ ?w] exI [of _ d]) simp
qed

lemma pool_grow_file:
  assumes "pool_grow p q S rec"
  shows "\<exists>x. d_data (pg_log q) = d_data (pg_log p) @ x"
proof -
  note G = pool_growD(5,7) [OF assms]
  from wal_log_data obtain y z where "the_log p = d_data (pg_log p) @ y" "the_log q = d_data (pg_log q) @ z" by blast
  with G(1) have "take (file_len p) (d_data (pg_log q) @ z) = d_data (pg_log p)" by simp
  with G(2) have "take (file_len p) (d_data (pg_log q)) = d_data (pg_log p)" by simp
  then show ?thesis by (metis append_take_drop_id)
qed

section \<open>Undoing one update\<close>

definition clr_image :: "lsn \<Rightarrow> wal_update \<Rightarrow> u8 list" where
  "clr_image l u = rec_image no_mem (W_Clr \<lparr>wk_tid = wu_tid u, wk_prev = l, wk_pg = wu_pg u,
     wk_undo_next = wu_prev u, wk_redo = wu_undo u\<rparr>)"

definition clr_of :: "txn \<Rightarrow> wal_update \<Rightarrow> wal_rec_hdr_write" where
  "clr_of t u = W_Clr \<lparr>wk_tid = wu_tid u, wk_prev = td_last_lsn (tx_data t), wk_pg = wu_pg u,
     wk_undo_next = wu_prev u, wk_redo = wu_undo u\<rparr>"

definition undoable :: "pager \<Rightarrow> wal_update \<Rightarrow> bool" where
  "undoable p u \<longleftrightarrow> unat (wu_pg u) < unat (fp_npages (pg_fp p)) \<and> valid_bytes (pgr_page p (wu_pg u)) PG_ANY \<and>
     valid_bytes (wu_undo u) PG_ANY \<and> length (wu_undo u) = PAGE_SIZE \<and> wu_prev u \<noteq> 0"

lemma clr_of_image: "rec_image no_mem (clr_of t u) = clr_image (td_last_lsn (tx_data t)) u"
  by (simp add: clr_of_def clr_image_def)

lemma length_clr: "length (wu_undo u) = PAGE_SIZE \<Longrightarrow> length (rec_image m (clr_of t u)) = WL_CLR_LEN"
  by (simp add: clr_of_def rec_image_def WL_CLR_LEN_def)

lemma pgr_rollback_update_ok:
  assumes idle: "idle p" and u: "undoable p u" and t: "pgr_txn p tx = Some t"
    and room: "length (the_log p) + WL_CLR_LEN < 2 ^ 63"
  defines "l \<equiv> of_nat (length (the_log p)) :: lsn"
  shows "\<exists>q S. pgr_rollback_update p tx u = Some (Inr (Some (wu_prev u)), q) \<and> idle q \<and>
    pool_grow p q S (rec_image no_mem (clr_of t u)) \<and>
    (\<forall>k. unat k < unat (fp_npages (pg_fp p)) \<longrightarrow> pgr_page q k = (if k = wu_pg u then set_lsn (wu_undo u) l else pgr_page p k)) \<and>
    pgr_txn q tx = Some (t\<lparr>tx_data := (tx_data t)\<lparr>td_last_lsn := l\<rparr>\<rparr>)"
proof -
  let ?k = "wu_pg u"
  from u have k: "unat ?k < unat (fp_npages (pg_fp p))" "valid_bytes (pgr_page p ?k) PG_ANY"
    and un: "valid_bytes (wu_undo u) PG_ANY" "length (wu_undo u) = PAGE_SIZE" "wu_prev u \<noteq> 0" by (simp_all add: undoable_def)
  from get_writable_idle [OF idle k] obtain h p1 i j where
    g: "pgr_get_writable_no_tx page_h_create PG_ANY ?k p = Some (Inr (), h, p1)" "holds_x p1 h ?k i j" "pool_step p p1 {i, j}"
      "same_pages p p1" "pf_pin (fr p1 i) = 1" "used p1 \<subseteq> {i, j}" by blast
  note I1 = pool_stepD(1) [OF g(3)] and R1 = pgr_restD [OF pool_stepD(2) [OF g(3)]] and C1 = holds_x_cached [OF I1 g(2)]
  let ?x = "(pf_page (fr p1 j))\<lparr>raw := wu_undo u\<rparr>"
  have x: "wf_page ?x" "pg ?x = ?k" using C1(9) un(2) by (simp_all add: wf_page_def)
  from page_h_w_put_ok [OF I1 g(2) x] obtain p2 where
    s2: "page_h_w_put p1 h ?x = Some p2" "holds_x p2 h ?k i j" "pool_step p1 p2 {j}" "\<And>l. pgr_page p2 l = pgr_page p1 l"
      "used p2 = used p1" "page_h_w p2 h = Some ?x" "pf_pin (fr p2 i) = pf_pin (fr p1 i)" by blast
  note I2 = pool_stepD(1) [OF s2(3)] and R2 = pgr_restD [OF pool_stepD(2) [OF s2(3)]]
  have log2: "the_log p2 = the_log p" using pool_stepD(5) [OF g(3)] pool_stepD(5) [OF s2(3)] by simp
  have t2: "pgr_txn p2 tx = Some t" using t by (simp add: pgr_txn_def R1 R2)
  have im: "rec_image m (clr_of t u) = rec_image no_mem (clr_of t u)" for m by (simp add: clr_of_def rec_image_def)
  have ok: "rec_ok (pg_mem p2) (clr_of t u)" using un by (simp add: clr_of_def)
  have "length (the_log p2) + length (rec_image (pg_mem p2) (clr_of t u)) < 2 ^ 63"
    using room un(2) by (simp add: log2 length_clr)
  from pgr_append_grow [OF I2 ok this] obtain w d where
    a: "pgr_append p2 (clr_of t u) = Some (Inr l, p2\<lparr>pg_ww := w, pg_log := d\<rparr>)"
      "pool_grow p2 (p2\<lparr>pg_ww := w, pg_log := d\<rparr>) {} (rec_image no_mem (clr_of t u))"
      "\<And>l. pgr_page (p2\<lparr>pg_ww := w, pg_log := d\<rparr>) l = pgr_page p2 l" unfolding log2 l_def im [of "pg_mem p2"] by blast
  define p3 where "p3 = p2\<lparr>pg_ww := w, pg_log := d\<rparr>"
  note a = a [folded p3_def]
  note I3 = pool_growD(1) [OF a(2)]
  have h3: "holds_x p3 h ?k i j" using s2(2) by (simp add: p3_def holds_x_def)
  note C3 = holds_x_cached [OF I3 h3]
  have w3: "page_h_w p3 h = Some ?x" using C3(17) s2(6) holds_x_cached(17) [OF I2 s2(2)] by (simp add: p3_def)
  let ?y = "page_set_page_lsn ?x l"
  have y: "wf_page ?y" "pg ?y = ?k" "raw ?y = set_lsn (wu_undo u) l"
    using C1(9) un(2) by (simp_all add: wf_page_def raw_set_lsn)
  from page_h_w_put_ok [OF I3 h3 y(1,2)] obtain p4 where
    s4: "page_h_w_put p3 h ?y = Some p4" "holds_x p4 h ?k i j" "pool_step p3 p4 {j}" "\<And>l. pgr_page p4 l = pgr_page p3 l"
      "used p4 = used p3" "page_h_w p4 h = Some ?y" "pf_pin (fr p4 i) = pf_pin (fr p3 i)" by blast
  note I4 = pool_stepD(1) [OF s4(3)] and R4 = pgr_restD [OF pool_stepD(2) [OF s4(3)]]
  have t4: "pgr_txn p4 tx = Some t" using t2 by (simp add: pgr_txn_def R4 p3_def)
  from pgr_txn_set_ok [OF t4] obtain e where
    e: "pgr_txn_set p4 tx ((tx_data t)\<lparr>td_last_lsn := l\<rparr>) = Some (p4\<lparr>pg_mem := (pg_mem p4)\<lparr>wm_txns := e\<rparr>\<rparr>)"
      "\<And>x. heap_get e x = (if x = tx then Some (t\<lparr>tx_data := (tx_data t)\<lparr>td_last_lsn := l\<rparr>\<rparr>) else heap_get (wm_txns (pg_mem p4)) x)"
    by blast
  define p5 where "p5 = p4\<lparr>pg_mem := (pg_mem p4)\<lparr>wm_txns := e\<rparr>\<rparr>"
  have "dpt_dirty p5" "log_inv p5" using pool_invD(3,4) [OF I4] by (simp_all add: p5_def dpt_dirty_def log_inv_def)
  then have s5: "pool_grow p4 p5 {} []" "\<And>l. pgr_page p5 l = pgr_page p4 l" "used p5 = used p4" "holds_x p5 h ?k i j"
    using pool_log_step [OF I4, of p5 "[]"] s4(2) by (simp_all add: p5_def pgr_conf_def)
  note I5 = pool_growD(1) [OF s5(1)]
  have raw5: "raw (pf_page (fr p5 j)) = set_lsn (wu_undo u) l"
    using s4(6) holds_x_cached(17) [OF I4 s4(2)] y(3) by (simp add: p5_def)
  have log5: "the_log p5 = the_log p @ rec_image no_mem (clr_of t u)"
    using pool_growD(5) [OF s5(1)] pool_stepD(5) [OF s4(3)] pool_growD(5) [OF a(2)] log2 by simp
  have "unat l < length (the_log p5)"
    using room by (simp add: l_def log5 length_clr [OF un(2)] unat_of_nat take_bit_nat_eq_self WL_CLR_LEN_def)
  then have lsn: "lsn_below (raw (pf_page (fr p5 j))) (length (the_log p5))" unfolding raw5 by (rule lsn_below_set_lsn [OF un(2)])
  have v5: "valid_bytes (raw (pf_page (fr p5 j))) PG_ANY" using un by (simp add: raw5)
  have pin5: "pf_pin (fr p5 i) = 1" using s4(7) s2(7) g(5) by (simp add: p5_def p3_def)
  have u5: "used p5 \<subseteq> {i, j}" using s5(3) s4(5) s2(5) g(6) by (simp add: p3_def used_def)
  from release_no_tx_ok [OF I5 s5(4) v5 pin5 u5 lsn] obtain h' q where
    q: "pgr_release_no_tx p5 h PG_ANY = Some (Inr (), h', q)" "pool_step p5 q {i, j}" "used q = {}"
      "\<And>l. pgr_page q l = (if l = ?k then raw (pf_page (fr p5 j)) else pgr_page p5 l)" by blast
  have run: "pgr_rollback_update p tx u = Some (Inr (Some (wu_prev u)), q)"
  proof -
    have "pgr_append p2 (W_Clr \<lparr>wk_tid = wu_tid u, wk_prev = td_last_lsn (tx_data t), wk_pg = ?k,
        wk_undo_next = wu_prev u, wk_redo = wu_undo u\<rparr>) = Some (Inr l, p3)" using a(1) by (simp add: clr_of_def)
    then show ?thesis
      using g(1) C1(4) holds_xD(3) [OF g(2)] s2(1) t2 w3 s4(1) e(1) q(1)
      by (simp add: pgr_rollback_update_def p5_def)
  qed
  have "pool_grow p q ({i, j} \<union> ({j} \<union> ({} \<union> ({j} \<union> ({} \<union> {i, j})))))
      ([] @ ([] @ (rec_image no_mem (clr_of t u) @ ([] @ ([] @ [])))))"
    by (intro pool_grow_trans [OF pool_step_grow [OF g(3)]] pool_grow_trans [OF pool_step_grow [OF s2(3)]]
        pool_grow_trans [OF a(2)] pool_grow_trans [OF pool_step_grow [OF s4(3)]] pool_grow_trans [OF s5(1)] pool_step_grow [OF q(2)])
  then have grow: "pool_grow p q ({i, j} \<union> ({j} \<union> ({} \<union> ({j} \<union> ({} \<union> {i, j}))))) (rec_image no_mem (clr_of t u))" by simp
  have pages: "pgr_page q k = (if k = ?k then set_lsn (wu_undo u) l else pgr_page p k)"
    if "unat k < unat (fp_npages (pg_fp p))" for k
    using q(4) s5(2) s4(4) a(3) s2(4) g(4) that by (simp add: raw5 same_pages_def)
  have "pgr_txn q tx = Some (t\<lparr>tx_data := (tx_data t)\<lparr>td_last_lsn := l\<rparr>\<rparr>)"
    using e(2) pgr_restD(3) [OF pool_stepD(2) [OF q(2)]] by (simp add: pgr_txn_def p5_def)
  with run grow pages q(3) pool_growD(1) [OF grow] show ?thesis
    by (intro exI [of _ q] exI [of _ "{i, j} \<union> ({j} \<union> ({} \<union> ({j} \<union> ({} \<union> {i, j}))))"]) (simp add: idle_def)
qed

section \<open>Undoing a transaction\<close>

fun undo_chain :: "u8 list \<Rightarrow> lsn \<Rightarrow> wal_update list \<Rightarrow> bool" where
  "undo_chain x l [] \<longleftrightarrow> l = 0 \<or> (\<exists>b. rec_at x l (W_Begin b))"
| "undo_chain x l (u # us) \<longleftrightarrow> l \<noteq> 0 \<and> rec_at x l (W_Update u) \<and> undo_chain x (wu_prev u) us"

fun undone :: "wal_update list \<Rightarrow> nat \<Rightarrow> (pgno \<Rightarrow> u8 list) \<Rightarrow> pgno \<Rightarrow> u8 list" where
  "undone [] n m = m"
| "undone (u # us) n m = undone us (n + WL_CLR_LEN) (m(wu_pg u := set_lsn (wu_undo u) (of_nat n)))"

text \<open>The compensation records of a rollback: one for each update undone, holding the bytes put back, pointing back to
  the record the transaction wrote before it, and saying which record is to be undone next.\<close>

fun compensations :: "lsn \<Rightarrow> nat \<Rightarrow> wal_update list \<Rightarrow> u8 list" where
  "compensations l n [] = []"
| "compensations l n (u # us) = clr_image l u @ compensations (of_nat n) (n + WL_CLR_LEN) us"

definition rolled_back :: "wal_update list \<Rightarrow> nat \<Rightarrow> txn \<Rightarrow> txn" where
  "rolled_back us n t = t\<lparr>tx_data := (tx_data t)\<lparr>td_undo_next_lsn := 0, td_last_lsn :=
     if us = [] then td_last_lsn (tx_data t) else of_nat (n + (length us - 1) * WL_CLR_LEN)\<rparr>\<rparr>"

text \<open>The first of the updates of a page is the last one to be undone.\<close>

definition oldest :: "wal_update list \<Rightarrow> pgno \<Rightarrow> wal_update" where
  "oldest us k = last (filter (\<lambda>u. wu_pg u = k) us)"

lemma undone_oldest:
  "if k \<in> wu_pg ` set us then \<exists>l. undone us n m k = set_lsn (wu_undo (oldest us k)) l else undone us n m k = m k"
proof (induction us arbitrary: n m)
  case (Cons u us)
  let ?m = "m(wu_pg u := set_lsn (wu_undo u) (of_nat n))"
  note IH = Cons.IH [of "n + WL_CLR_LEN" ?m]
  show ?case
  proof (cases "k \<in> wu_pg ` set us")
    case True
    then have "filter (\<lambda>u. wu_pg u = k) us \<noteq> []" by (auto simp: filter_empty_conv)
    with True IH show ?thesis by (auto simp: oldest_def)
  next
    case False
    then have "filter (\<lambda>u. wu_pg u = k) us = []" by (auto simp: filter_empty_conv)
    with False IH show ?thesis by (auto simp: oldest_def)
  qed
qed simp

lemma undone_cong:
  "(\<And>k. k \<in> A \<Longrightarrow> m k = m' k) \<Longrightarrow> k \<in> A \<Longrightarrow> undone us n m k = undone us n m' k"
proof (induction us arbitrary: n m m')
  case (Cons u us)
  show ?case using Cons.prems by (simp, intro Cons.IH) auto
qed simp

definition undo_ok :: "pager \<Rightarrow> wal_update \<Rightarrow> bool" where
  "undo_ok p u \<longleftrightarrow> undoable p u \<and> length (wu_redo u) = PAGE_SIZE"

definition reads_ok :: "(nat \<Rightarrow> rec_allocs) \<Rightarrow> bool" where
  "reads_ok al \<longleftrightarrow> (\<forall>n. ra_ok (al n) \<and> allocs_ok (ra_al (al n)))"

text \<open>Setting the position to go on from.\<close>

lemma pgr_txn_set_idle:
  assumes idle: "idle p" and t: "pgr_txn p tx = Some t"
  shows "\<exists>q. pgr_txn_set p tx d = Some q \<and> idle q \<and> pool_grow p q {} [] \<and> (\<forall>l. pgr_page q l = pgr_page p l) \<and>
    pgr_txn q tx = Some (t\<lparr>tx_data := d\<rparr>)"
proof -
  from idle have inv: "pool_inv p" and u: "used p = {}" by (simp_all add: idle_def)
  from pgr_txn_set_ok [OF t] obtain e where
    e: "pgr_txn_set p tx d = Some (p\<lparr>pg_mem := (pg_mem p)\<lparr>wm_txns := e\<rparr>\<rparr>)"
      "\<And>x. heap_get e x = (if x = tx then Some (t\<lparr>tx_data := d\<rparr>) else heap_get (wm_txns (pg_mem p)) x)" by blast
  let ?q = "p\<lparr>pg_mem := (pg_mem p)\<lparr>wm_txns := e\<rparr>\<rparr>"
  have "dpt_dirty ?q" "log_inv ?q" using pool_invD(3,4) [OF inv] by (simp_all add: dpt_dirty_def log_inv_def)
  then have s: "pool_grow p ?q {} []" "\<And>l. pgr_page ?q l = pgr_page p l" "used ?q = used p"
    using pool_log_step [OF inv, of ?q "[]"] by (simp_all add: pgr_conf_def)
  have "pgr_txn ?q tx = Some (t\<lparr>tx_data := d\<rparr>)" using e(2) by (simp add: pgr_txn_def)
  with e(1) s u pool_growD(1) [OF s(1)] show ?thesis by (intro exI [of _ ?q]) (simp add: idle_def)
qed

lemma pgr_rollback_loop_ok:
  "idle p \<Longrightarrow> pgr_txn p tx = Some t \<Longrightarrow> td_undo_next_lsn (tx_data t) = l \<Longrightarrow> undo_chain (d_data (pg_log p)) l us \<Longrightarrow> \<forall>u \<in> set us. undo_ok p u \<Longrightarrow>
   reads_ok al \<Longrightarrow> length (the_log p) + length us * WL_CLR_LEN < 2 ^ 63 \<Longrightarrow>
   \<exists>q S. pgr_rollback_loop al n p tx 0 l = Some (Inr (), q) \<and> idle q \<and>
     pool_grow p q S (compensations (td_last_lsn (tx_data t)) (length (the_log p)) us) \<and>
     pgr_txn q tx = Some (rolled_back us (length (the_log p)) t) \<and>
     (\<forall>k. unat k < unat (fp_npages (pg_fp p)) \<longrightarrow> pgr_page q k = undone us (length (the_log p)) (pgr_page p) k)"
proof (induction us arbitrary: p t l n)
  case Nil
  note step = pgr_rollback_loop.simps [of al _ _ tx 0]
  have refl: "pool_grow p p {} []" if "idle p" for p using that by (simp add: pool_grow_def others_kept_def idle_def)
  have end0: "pgr_rollback_loop al m p tx 0 0 = Some (Inr (), p)" for m p by (simp add: step)
  show ?case
  proof (cases "l = 0")
    case True
    then have "rolled_back [] n t = t" for n using Nil.prems(3) by (cases t) (simp add: rolled_back_def)
    then show ?thesis using end0 Nil.prems(1,2) refl [OF Nil.prems(1)] True
      by (intro exI [of _ p] exI [of _ "{}"]) simp
  next
    case False
    with Nil.prems(4) obtain b where b: "rec_at (d_data (pg_log p)) l (W_Begin b)" by auto
    have inv: "pool_inv p" and u: "used p = {}" using Nil.prems(1) by (simp_all add: idle_def)
    have al: "ra_ok (al n)" "allocs_ok (ra_al (al n))" using Nil.prems(6) by (simp_all add: reads_ok_def)
    have "rec_image (pg_mem p) (W_Begin b) = rec_image no_mem (W_Begin b)" by (simp add: rec_image_def)
    from pgr_read_entry_ok [OF inv b _ this al] obtain rec w d where
      r: "pgr_read_entry (al n) p l = Some (Inr rec, p\<lparr>pg_ww := w, pg_log := d\<rparr>)" "rec_same (pg_mem p) (W_Begin b) (pg_mem p) rec"
        "pool_grow p (p\<lparr>pg_ww := w, pg_log := d\<rparr>) {} []" "\<And>k. pgr_page (p\<lparr>pg_ww := w, pg_log := d\<rparr>) k = pgr_page p k"
        "used (p\<lparr>pg_ww := w, pg_log := d\<rparr>) = used p" by auto
    define p1 where "p1 = p\<lparr>pg_ww := w, pg_log := d\<rparr>"
    note r = r [folded p1_def]
    have "rec = R_Begin b" using r(2) by (cases rec) auto
    then have s: "pgr_rollback_step (al n) p tx l = Some (Inr (Some 0), p1)" using r(1) by (simp add: pgr_rollback_step_def)
    have i1: "idle p1" using r(5) u pool_growD(1) [OF r(3)] by (simp add: idle_def)
    have t1: "pgr_txn p1 tx = Some t" using Nil.prems(2) by (simp add: p1_def pgr_txn_def)
    from pgr_txn_set_idle [OF i1 t1] obtain q where
      q: "pgr_txn_set p1 tx ((tx_data t)\<lparr>td_undo_next_lsn := 0\<rparr>) = Some q" "idle q" "pool_grow p1 q {} []"
        "\<And>l. pgr_page q l = pgr_page p1 l" "pgr_txn q tx = Some (t\<lparr>tx_data := (tx_data t)\<lparr>td_undo_next_lsn := 0\<rparr>\<rparr>)" by blast
    have "t\<lparr>tx_data := (tx_data t)\<lparr>td_undo_next_lsn := 0\<rparr>\<rparr> = rolled_back [] (length (the_log p)) t"
      by (simp add: rolled_back_def)
    note q5 = q(5) [unfolded this]
    have "pgr_rollback_loop al n p tx 0 l = Some (Inr (), q)"
      using False s t1 q(1) end0 by (simp add: step [of n p] word_gt_0)
    moreover have "pool_grow p q ({} \<union> {}) ([] @ [])" by (rule pool_grow_trans [OF r(3) q(3)])
    ultimately show ?thesis using q(2,4) q5 r(4) by (intro exI [of _ q] exI [of _ "{}"]) simp
  qed
next
  case (Cons u us)
  note step = pgr_rollback_loop.simps [of al n p tx 0 l]
  have ch: "l \<noteq> 0" "rec_at (d_data (pg_log p)) l (W_Update u)" "undo_chain (d_data (pg_log p)) (wu_prev u) us"
    using Cons.prems(4) by simp_all
  have inv: "pool_inv p" and used: "used p = {}" using Cons.prems(1) by (simp_all add: idle_def)
  have un: "undoable p u" "length (wu_undo u) = PAGE_SIZE" "length (wu_redo u) = PAGE_SIZE"
    using Cons.prems(5) by (simp_all add: undo_ok_def undoable_def)
  have al: "ra_ok (al n)" "allocs_ok (ra_al (al n))" using Cons.prems(6) by (simp_all add: reads_ok_def)
  have im: "rec_image (pg_mem p) (W_Update u) = rec_image no_mem (W_Update u)" by (simp add: rec_image_def)
  have ok: "rec_ok (pg_mem p) (W_Update u)" using un by simp
  from pgr_read_entry_ok [OF inv ch(2) ok im al] obtain rec w d where
    r: "pgr_read_entry (al n) p l = Some (Inr rec, p\<lparr>pg_ww := w, pg_log := d\<rparr>)" "rec_same (pg_mem p) (W_Update u) (pg_mem p) rec"
      "pool_grow p (p\<lparr>pg_ww := w, pg_log := d\<rparr>) {} []" "\<And>k. pgr_page (p\<lparr>pg_ww := w, pg_log := d\<rparr>) k = pgr_page p k"
      "used (p\<lparr>pg_ww := w, pg_log := d\<rparr>) = used p" by auto
  define p1 where "p1 = p\<lparr>pg_ww := w, pg_log := d\<rparr>"
  note r = r [folded p1_def]
  have rec: "rec = R_Update u" using r(2) by (cases rec) auto
  have i1: "idle p1" using r(5) used pool_growD(1) [OF r(3)] by (simp add: idle_def)
  have t1: "pgr_txn p1 tx = Some t" using Cons.prems(2) by (simp add: p1_def pgr_txn_def)
  have n1: "fp_npages (pg_fp p1) = fp_npages (pg_fp p)" by (simp add: p1_def)
  have log1: "the_log p1 = the_log p" using pool_growD(5) [OF r(3)] by simp
  have un1: "undoable p1 u" using un(1) r(4) n1 by (simp add: undoable_def)
  have room: "length (the_log p1) + WL_CLR_LEN < 2 ^ 63" using Cons.prems(7) by (simp add: log1)
  from pgr_rollback_update_ok [OF i1 un1 t1 room] obtain p2 S where
    s: "pgr_rollback_update p1 tx u = Some (Inr (Some (wu_prev u)), p2)" "idle p2"
      "pool_grow p1 p2 S (rec_image no_mem (clr_of t u))"
      "\<And>k. unat k < unat (fp_npages (pg_fp p1)) \<Longrightarrow>
        pgr_page p2 k = (if k = wu_pg u then set_lsn (wu_undo u) (of_nat (length (the_log p1))) else pgr_page p1 k)"
      "pgr_txn p2 tx = Some (t\<lparr>tx_data := (tx_data t)\<lparr>td_last_lsn := of_nat (length (the_log p1))\<rparr>\<rparr>)" by blast
  let ?t2 = "t\<lparr>tx_data := (tx_data t)\<lparr>td_last_lsn := of_nat (length (the_log p1))\<rparr>\<rparr>"
  from pgr_txn_set_idle [OF s(2,5)] obtain p3 where
    p3: "pgr_txn_set p2 tx ((tx_data ?t2)\<lparr>td_undo_next_lsn := wu_prev u\<rparr>) = Some p3" "idle p3" "pool_grow p2 p3 {} []"
      "\<And>l. pgr_page p3 l = pgr_page p2 l" "pgr_txn p3 tx = Some (?t2\<lparr>tx_data := (tx_data ?t2)\<lparr>td_undo_next_lsn := wu_prev u\<rparr>\<rparr>)" by blast
  have g: "pool_grow p p3 ({} \<union> (S \<union> {})) ([] @ (rec_image no_mem (clr_of t u) @ []))"
    by (intro pool_grow_trans [OF r(3)] pool_grow_trans [OF s(3)] p3(3))
  have n3: "fp_npages (pg_fp p3) = fp_npages (pg_fp p)" using pgr_confD(1) [OF pool_growD(2) [OF g]] by simp
  have log3: "length (the_log p3) = length (the_log p) + WL_CLR_LEN"
    using pool_growD(5) [OF g] by (simp add: length_clr [OF un(2)])
  from pool_grow_file [OF g] obtain y where y: "d_data (pg_log p3) = d_data (pg_log p) @ y" by blast
  have "undo_chain x l us \<Longrightarrow> undo_chain (x @ y) l us" for x l us
    by (induction us arbitrary: l) (auto intro: rec_at_append)
  with ch(3) have ch3: "undo_chain (d_data (pg_log p3)) (wu_prev u) us" by (simp add: y)
  have pages3: "pgr_page p3 k = ((pgr_page p)(wu_pg u := set_lsn (wu_undo u) (of_nat (length (the_log p))))) k"
    if "unat k < unat (fp_npages (pg_fp p))" for k
    using s(4) [of k] p3(4) r(4) that by (simp add: n1 log1)
  have ok3: "\<forall>v \<in> set us. undo_ok p3 v"
  proof
    fix v assume "v \<in> set us"
    then have "undo_ok p v" using Cons.prems(5) by simp
    then show "undo_ok p3 v" using un(2) un(1) pages3 n3 by (auto simp: undo_ok_def undoable_def)
  qed
  have room3: "length (the_log p3) + length us * WL_CLR_LEN < 2 ^ 63" using Cons.prems(7) by (simp add: log3)
  let ?t3 = "?t2\<lparr>tx_data := (tx_data ?t2)\<lparr>td_undo_next_lsn := wu_prev u\<rparr>\<rparr>"
  have t3: "td_undo_next_lsn (tx_data ?t3) = wu_prev u" "td_last_lsn (tx_data ?t3) = of_nat (length (the_log p))"
    by (simp_all add: log1)
  from Cons.IH [OF p3(2,5) t3(1) ch3 ok3 Cons.prems(6) room3, of "n + 1", unfolded t3(2) log3] obtain q S' where
    q: "pgr_rollback_loop al (n + 1) p3 tx 0 (wu_prev u) = Some (Inr (), q)" "idle q"
      "pool_grow p3 q S' (compensations (of_nat (length (the_log p))) (length (the_log p) + WL_CLR_LEN) us)"
      "pgr_txn q tx = Some (rolled_back us (length (the_log p) + WL_CLR_LEN) ?t3)"
      "\<And>k. unat k < unat (fp_npages (pg_fp p3)) \<Longrightarrow> pgr_page q k = undone us (length (the_log p) + WL_CLR_LEN) (pgr_page p3) k" by blast
  have "pgr_rollback_step (al n) p tx l = Some (Inr (Some (wu_prev u)), p2)"
    using r(1) s(1) by (simp add: pgr_rollback_step_def rec)
  then have "pgr_rollback_loop al n p tx 0 l = Some (Inr (), q)"
    unfolding step using ch(1) s(5) p3(1) q(1) by (simp add: word_gt_0)
  moreover have "pool_grow p q (({} \<union> (S \<union> {})) \<union> S') (([] @ (rec_image no_mem (clr_of t u) @ [])) @
      compensations (of_nat (length (the_log p))) (length (the_log p) + WL_CLR_LEN) us)"
    by (rule pool_grow_trans [OF g q(3)])
  moreover have "rolled_back us (length (the_log p) + WL_CLR_LEN) ?t3 = rolled_back (u # us) (length (the_log p)) t"
    by (cases us) (simp_all add: rolled_back_def log1 algebra_simps)
  moreover have "pgr_page q k = undone (u # us) (length (the_log p)) (pgr_page p) k"
    if "unat k < unat (fp_npages (pg_fp p))" for k
  proof -
    have "pgr_page q k = undone us (length (the_log p) + WL_CLR_LEN) (pgr_page p3) k" using q(5) that by (simp add: n3)
    also have "\<dots> = undone us (length (the_log p) + WL_CLR_LEN)
        ((pgr_page p)(wu_pg u := set_lsn (wu_undo u) (of_nat (length (the_log p))))) k"
      by (rule undone_cong [of "{k. unat k < unat (fp_npages (pg_fp p))}"]) (use pages3 that in simp_all)
    finally show ?thesis by simp
  qed
  ultimately show ?case using q(2,4) by (intro exI conjI) (auto simp: clr_of_image)
qed

section \<open>A rollback restores the pages\<close>

text \<open>C7: A rollback restores the pages and logs what it did. When the records of a transaction's updates are in the
  file of the log, each at the position the one after it points back to, down to the transaction's begin record (records
  still in the buffer are not seen, see the next property), the pages are valid and the allocations of the reads succeed,
  rolling the whole transaction back succeeds. Every page is what putting back the old bytes of the updates, the last
  one first, makes of it, each stamped with the position of its own compensation record; so a page the transaction
  changed has the bytes from before the first update of it, and every other page is as it was. The log grows by exactly
  one compensation record per update, in that order: the bytes put back, the position of the record the transaction
  wrote before it, and the position of the next record to undo. The transaction then points to the last of them, with
  nothing left to undo.\<close>

theorem pgr_rollback_restores:
  assumes "idle p" and "pgr_txn p tx = Some t" and "undo_chain (d_data (pg_log p)) (td_undo_next_lsn (tx_data t)) us"
    and "\<forall>u \<in> set us. undo_ok p u" and "reads_ok al" and "length (the_log p) + length us * WL_CLR_LEN < 2 ^ 63"
  shows "\<exists>q. pgr_rollback al p tx 0 = Some (Inr (), q) \<and> idle q \<and>
    (\<forall>k. unat k < unat (fp_npages (pg_fp p)) \<longrightarrow> pgr_page q k = undone us (length (the_log p)) (pgr_page p) k \<and>
      (if k \<in> wu_pg ` set us then \<exists>l. pgr_page q k = set_lsn (wu_undo (oldest us k)) l else pgr_page q k = pgr_page p k)) \<and>
    the_log q = the_log p @ compensations (td_last_lsn (tx_data t)) (length (the_log p)) us \<and>
    pgr_txn q tx = Some (rolled_back us (length (the_log p)) t)"
proof -
  from pgr_rollback_loop_ok [OF assms(1,2) refl assms(3-6), of 0] obtain q S where
    q: "pgr_rollback_loop al 0 p tx 0 (td_undo_next_lsn (tx_data t)) = Some (Inr (), q)" "idle q"
      "pool_grow p q S (compensations (td_last_lsn (tx_data t)) (length (the_log p)) us)"
      "pgr_txn q tx = Some (rolled_back us (length (the_log p)) t)"
      "\<And>k. unat k < unat (fp_npages (pg_fp p)) \<Longrightarrow> pgr_page q k = undone us (length (the_log p)) (pgr_page p) k" by blast
  have "pgr_rollback al p tx 0 = Some (Inr (), q)" using assms(2) q(1) by (simp add: pgr_rollback_def)
  moreover have "\<forall>k. unat k < unat (fp_npages (pg_fp p)) \<longrightarrow> pgr_page q k = undone us (length (the_log p)) (pgr_page p) k \<and>
      (if k \<in> wu_pg ` set us then \<exists>l. pgr_page q k = set_lsn (wu_undo (oldest us k)) l else pgr_page q k = pgr_page p k)"
    using undone_oldest [of _ us "length (the_log p)" "pgr_page p"] q(5) by metis
  ultimately show ?thesis using q(2,4,5) pool_growD(5) [OF q(3)] by (intro exI [of _ q] conjI) simp_all
qed

text \<open>A log with the records of one update of page 0, all of it in the file.\<close>

definition example_update :: wal_update where
  "example_update = \<lparr>wu_tid = 7, wu_prev = 5, wu_pg = 0, wu_undo = example_page PG_ROOT_NODE, wu_redo = example_page PG_TOMBSTONE\<rparr>"

definition example_log :: "u8 list" where
  "example_log = rec_image no_mem W_Ckpt_Begin @ rec_image no_mem (W_Begin \<lparr>wb_tid = 7\<rparr>) @ rec_image no_mem (W_Update example_update)"

definition rollback_txn :: txn where
  "rollback_txn = \<lparr>tx_tid = 7, tx_data = \<lparr>td_state = TX_RUNNING, td_last_lsn = 18, td_undo_next_lsn = 18\<rparr>\<rparr>"

definition example_reads :: rec_allocs where
  "example_reads = \<lparr>ra_ok = True, ra_al = al_example, ra_grow = None, ra_ins = True, ra_del = True, ra_merge = (\<lambda>_. (None, True))\<rparr>"

definition rollback_example :: "dpg_entry heap \<Rightarrow> dpg_table \<Rightarrow> txn_table \<Rightarrow> pager" where
  "rollback_example h t tt = (pager_example h t tt)
     \<lparr>pg_log := \<lparr>d_data = example_log, d_durable = example_log, d_env = []\<rparr>,
      pg_mem := \<lparr>wm_txns = [1 \<mapsto> [Some rollback_txn]], wm_dpgs = h\<rparr>\<rparr>"

lemma example_log:
  "rec_at example_log 5 (W_Begin \<lparr>wb_tid = 7\<rparr>)" "rec_at example_log 18 (W_Update example_update)" "length example_log < 20000"
proof -
  have l: "length (rec_image no_mem W_Ckpt_Begin) = 5" "length (rec_image no_mem (W_Begin \<lparr>wb_tid = 7\<rparr>)) = 13"
    "length (rec_image no_mem (W_Update example_update)) = WL_UPDATE_LEN"
    by (simp_all add: rec_image_def WL_UPDATE_LEN_def example_update_def example_page)
  show "rec_at example_log 5 (W_Begin \<lparr>wb_tid = 7\<rparr>)"
    unfolding rec_at_def example_log_def using l(1)
    by (intro exI [of _ "rec_image no_mem W_Ckpt_Begin"] exI [of _ "rec_image no_mem (W_Update example_update)"]) simp
  show "rec_at example_log 18 (W_Update example_update)"
    unfolding rec_at_def example_log_def using l(1,2)
    by (intro exI [of _ "rec_image no_mem W_Ckpt_Begin @ rec_image no_mem (W_Begin \<lparr>wb_tid = 7\<rparr>)"] exI [of _ "[]"]) simp
  show "length example_log < 20000" using l by (simp add: example_log_def WL_UPDATE_LEN_def)
qed

lemma rollback_example_idle:
  "\<exists>h t tt. idle (rollback_example h t tt) \<and> pgr_txn (rollback_example h t tt) (1, 0) = Some rollback_txn \<and>
     undo_ok (rollback_example h t tt) example_update \<and> the_log (rollback_example h t tt) = example_log"
proof -
  from pager_example_idle obtain h t tt where e: "idle (pager_example h t tt)" by blast
  then have inv: "pool_inv (pager_example h t tt)" and u: "used (pager_example h t tt) = {}" by (simp_all add: idle_def)
  let ?p = "pager_example h t tt" and ?q = "rollback_example h t tt"
  have w: "pg_ww ?q = wal_open" "pg_log ?q = \<lparr>d_data = example_log, d_durable = example_log, d_env = []\<rparr>"
    "pg_allocs ?q = pg_allocs ?p" "pg_dpt ?q = pg_dpt ?p" "wm_dpgs (pg_mem ?q) = wm_dpgs (pg_mem ?p)"
    by (simp_all add: rollback_example_def pager_example_def)
  have log: "the_log ?q = example_log" by (simp add: w wal_log_def wf_log_def wal_open_def walf_open_def)
  have log0: "the_log ?p = []" "file_len ?p = 0" "length (d_durable (pg_log ?p)) = 0"
    using examples(5) by (simp_all add: pager_example_def disk_example_def)
  have "wal_inv wal_open \<lparr>d_data = example_log, d_durable = example_log, d_env = []\<rparr>"
    using example_log(3) by (simp add: wal_inv_def wal_open_def walf_open_def wf_inv_def wf_str_def wf_log_def)
  then have "log_inv ?q" using pool_invD(3) [OF inv] by (simp add: log_inv_def w no_fail_def)
  moreover have "dpt_dirty ?q" using pool_invD(4) [OF inv]
    by (simp add: dpt_dirty_def rollback_example_def pager_example_def del: dom_dpt_map)
  ultimately have s: "pool_grow ?p ?q {} example_log" "\<And>l. pgr_page ?q l = pgr_page ?p l" "used ?q = used ?p"
    using pool_log_step [OF inv, of ?q example_log] log log0 by (simp_all add: rollback_example_def pgr_conf_def)
  have "idle ?q" using pool_growD(1) [OF s(1)] s(3) u by (simp add: idle_def)
  moreover have "pgr_txn ?q (1, 0) = Some rollback_txn" by (simp add: rollback_example_def pgr_txn_def heap_get_def)
  moreover have "pgr_page ?q 0 = example_page PG_TOMBSTONE"
    using s(2) [of 0] fun_cong [OF pager_example_view(1), of h t tt 0] by (simp add: view_of_def pager_example_def split: if_splits)
  then have "undo_ok ?q example_update"
    using example_page [of PG_TOMBSTONE] example_page [of PG_ROOT_NODE]
    by (simp add: undo_ok_def undoable_def example_update_def rollback_example_def pager_example_def)
  ultimately show ?thesis using log by blast
qed

theorem pgr_rollback_restores_witness:
  "\<exists>h t tt q. pgr_rollback (\<lambda>_. example_reads) (rollback_example h t tt) (1, 0) 0 = Some (Inr (), q) \<and>
     pgr_page q 0 = set_lsn (example_page PG_ROOT_NODE) (of_nat (length example_log)) \<and>
     the_log q = example_log @ rec_image no_mem (W_Clr \<lparr>wk_tid = 7, wk_prev = 18, wk_pg = 0, wk_undo_next = 5,
       wk_redo = example_page PG_ROOT_NODE\<rparr>)"
proof -
  from rollback_example_idle obtain h t tt where
    e: "idle (rollback_example h t tt)" "pgr_txn (rollback_example h t tt) (1, 0) = Some rollback_txn"
      "undo_ok (rollback_example h t tt) example_update" "the_log (rollback_example h t tt) = example_log" by blast
  have last: "td_last_lsn (tx_data rollback_txn) = 18" by (simp add: rollback_txn_def)
  have "undo_chain (d_data (pg_log (rollback_example h t tt))) (td_undo_next_lsn (tx_data rollback_txn)) [example_update]"
    using example_log(1,2) by (auto simp: rollback_example_def rollback_txn_def example_update_def)
  moreover have "\<forall>u \<in> set [example_update]. undo_ok (rollback_example h t tt) u" using e(3) by simp
  moreover have "reads_ok (\<lambda>_. example_reads)" using examples(1) by (simp add: reads_ok_def example_reads_def)
  moreover have "length (the_log (rollback_example h t tt)) + length [example_update] * WL_CLR_LEN < 2 ^ 63"
    using example_log(3) by (simp add: e(4) WL_CLR_LEN_def)
  ultimately obtain q where
    q: "pgr_rollback (\<lambda>_. example_reads) (rollback_example h t tt) (1, 0) 0 = Some (Inr (), q)"
      "\<And>k. unat k < unat (fp_npages (pg_fp (rollback_example h t tt))) \<Longrightarrow>
        pgr_page q k = undone [example_update] (length example_log) (pgr_page (rollback_example h t tt)) k"
      "the_log q = example_log @ compensations 18 (length example_log) [example_update]"
    using pgr_rollback_restores [OF e(1,2)] unfolding e(4) last by blast
  from q(2) [of 0] have "pgr_page q 0 = set_lsn (example_page PG_ROOT_NODE) (of_nat (length example_log))"
    by (simp add: example_update_def rollback_example_def pager_example_def)
  moreover have "compensations 18 (length example_log) [example_update] = rec_image no_mem (W_Clr \<lparr>wk_tid = 7, wk_prev = 18,
      wk_pg = 0, wk_undo_next = 5, wk_redo = example_page PG_ROOT_NODE\<rparr>)"
    by (simp add: clr_image_def example_update_def)
  ultimately show ?thesis using q(1,3) by (metis (no_types, lifting))
qed

lemma pgr_read_past_end:
  assumes inv: "pool_inv p" and l: "file_len p \<le> unat l" "unat l < 2 ^ 63"
  shows "\<exists>q. pgr_read_entry a p l = Some (Inr R_Eof, q) \<and> pool_grow p q {} [] \<and> (\<forall>k. pgr_page q k = pgr_page p k) \<and>
    used q = used p \<and> pg_mem q = pg_mem p"
proof -
  have nf: "no_fail (pg_log p)" using pool_invD(3) [OF inv] by (simp add: log_inv_def)
  have "unat l < 9223372036854775808" using l(2) by simp
  from walf_pread_at [OF nf this, of "ra_ok a" "ra_al a" "pg_mem p" "w_wf (pg_ww p)"] obtain i d1 where
    d1: "walf_pread (ra_ok a) (ra_al a) (pg_mem p) (w_wf (pg_ww p)) (pg_log p) l =
        walf_read_next (ra_ok a) (ra_al a) (pg_mem p) ((w_wf (pg_ww p))\<lparr>wf_istream := Some (wi_at (unat l) l i)\<rparr>) d1"
      "same_disk (pg_log p) d1" by auto
  have "length (d_data d1) \<le> unat l" using l(1) same_diskD(1) [OF d1(2)] by simp
  from walf_read_next_end [OF same_diskD(2) [OF d1(2)] _ this,
      of "(w_wf (pg_ww p))\<lparr>wf_istream := Some (wi_at (unat l) l i)\<rparr>" l i "ra_ok a" "ra_al a" "pg_mem p"]
  obtain w d where
    w: "walf_read_next (ra_ok a) (ra_al a) (pg_mem p) ((w_wf (pg_ww p))\<lparr>wf_istream := Some (wi_at (unat l) l i)\<rparr>) d1 =
        Some (Inr R_Eof, pg_mem p, w, d)" "same_disk d1 d" "wf_ostream w = wf_ostream (w_wf (pg_ww p))"
      "wf_latch w = wf_latch (w_wf (pg_ww p))" by auto
  note g = pool_read_step [OF inv same_disk_trans [OF d1(2) w(2)] w(3,4)]
  have "pgr_read_entry a p l = Some (Inr R_Eof, p\<lparr>pg_ww := (pg_ww p)\<lparr>w_wf := w\<rparr>, pg_log := d\<rparr>)"
    using d1(1) w(1) by (simp add: pgr_read_entry_def wal_read_entry_def)
  with g show ?thesis by (intro exI [of _ "p\<lparr>pg_ww := (pg_ww p)\<lparr>w_wf := w\<rparr>, pg_log := d\<rparr>"]) simp
qed

text \<open>C8: A rollback does not see records that are still in the buffer of the log. When the transaction's last
  record has not been written to the file, which nothing but a flush makes sure of, rolling back reads the
  end of the log, returns success, and leaves every page as the transaction changed it.\<close>

theorem pgr_rollback_unflushed:
  assumes "idle p" and "pgr_txn p tx = Some t"
    and "file_len p \<le> unat (td_undo_next_lsn (tx_data t))" and "unat (td_undo_next_lsn (tx_data t)) < 2 ^ 63"
  shows "\<exists>q. pgr_rollback al p tx 0 = Some (Inr (), q) \<and> (\<forall>k. pgr_page q k = pgr_page p k) \<and> the_log q = the_log p"
proof -
  let ?l = "td_undo_next_lsn (tx_data t)"
  have inv: "pool_inv p" using assms(1) by (simp add: idle_def)
  from pgr_read_past_end [OF inv assms(3,4), of "al 0"] obtain q where
    q: "pgr_read_entry (al 0) p ?l = Some (Inr R_Eof, q)" "pool_grow p q {} []" "\<And>k. pgr_page q k = pgr_page p k" by blast
  have "the_log q = the_log p" using pool_growD(5) [OF q(2)] by simp
  moreover have "pgr_rollback al p tx 0 = Some (Inr (), if ?l = 0 then p else q)"
    using assms(2) q(1) by (simp add: pgr_rollback_def pgr_rollback_loop.simps [of al 0] pgr_rollback_step_def word_gt_0)
  ultimately show ?thesis using q(3) by (intro exI [of _ "if ?l = 0 then p else q"]) simp
qed

text \<open>The same log, still in the buffer.\<close>

definition unflushed_example :: "cbuffer \<Rightarrow> dpg_entry heap \<Rightarrow> dpg_table \<Rightarrow> txn_table \<Rightarrow> pager" where
  "unflushed_example b h t tt = (pager_example h t tt)
     \<lparr>pg_log := \<lparr>d_data = [], d_durable = [], d_env = []\<rparr>,
      pg_ww := \<lparr>w_wf = \<lparr>wf_ostream = Some \<lparr>wo_fd = \<lparr>f_pos = 0\<rparr>, wo_latch = False, wo_flushed_lsn = 0, wo_buffer = b\<rparr>,
        wf_istream = None, wf_latch = False\<rparr>\<rparr>,
      pg_mem := \<lparr>wm_txns = [1 \<mapsto> [Some rollback_txn]], wm_dpgs = h\<rparr>\<rparr>"

theorem pgr_rollback_unflushed_witness:
  "\<exists>b h t tt q. pgr_rollback (\<lambda>_. example_reads) (unflushed_example b h t tt) (1, 0) 0 = Some (Inr (), q) \<and>
     the_log (unflushed_example b h t tt) = example_log \<and> pgr_page q 0 = example_page PG_TOMBSTONE"
proof -
  from pager_example_idle obtain h t tt where e: "idle (pager_example h t tt)" by blast
  then have inv: "pool_inv (pager_example h t tt)" and u: "used (pager_example h t tt) = {}" by (simp_all add: idle_def)
  have "example_log \<noteq> []" by (simp add: example_log_def rec_image_def)
  moreover have "length example_log \<le> WAL_BUFFER_CAP" using example_log(3) by (simp add: WAL_BUFFER_CAP_def)
  ultimately obtain b where b: "wos_inv \<lparr>wo_fd = \<lparr>f_pos = 0\<rparr>, wo_latch = False, wo_flushed_lsn = 0, wo_buffer = b\<rparr>
      \<lparr>d_data = [], d_durable = [], d_env = []\<rparr>" "cb_list b = example_log" using wos_example by blast
  let ?p = "pager_example h t tt" and ?q = "unflushed_example b h t tt"
  have log: "the_log ?q = example_log" using b(2) by (simp add: unflushed_example_def wal_log_def wf_log_def wos_log_def)
  have log0: "the_log ?p = []" "file_len ?p = 0" "length (d_durable (pg_log ?p)) = 0"
    using examples(5) by (simp_all add: pager_example_def disk_example_def)
  have "log_inv ?q" using pool_invD(3) [OF inv] b(1) example_log(3) b(2)
    by (simp add: log_inv_def unflushed_example_def pager_example_def no_fail_def wal_inv_def wf_inv_def wf_str_def wf_log_def wos_log_def)
  moreover have "dpt_dirty ?q" using pool_invD(4) [OF inv]
    by (simp add: dpt_dirty_def unflushed_example_def pager_example_def del: dom_dpt_map)
  ultimately have s: "pool_grow ?p ?q {} example_log" "\<And>l. pgr_page ?q l = pgr_page ?p l" "used ?q = used ?p"
    using pool_log_step [OF inv, of ?q example_log] log log0 by (simp_all add: unflushed_example_def pgr_conf_def)
  have i: "idle ?q" using pool_growD(1) [OF s(1)] s(3) u by (simp add: idle_def)
  have t: "pgr_txn ?q (1, 0) = Some rollback_txn" by (simp add: unflushed_example_def pgr_txn_def heap_get_def)
  have l: "file_len ?q \<le> unat (td_undo_next_lsn (tx_data rollback_txn))" "unat (td_undo_next_lsn (tx_data rollback_txn)) < 2 ^ 63"
    by (simp_all add: unflushed_example_def rollback_txn_def)
  from pgr_rollback_unflushed [OF i t l] obtain q where
    "pgr_rollback (\<lambda>_. example_reads) ?q (1, 0) 0 = Some (Inr (), q)" "\<And>k. pgr_page q k = pgr_page ?q k" by blast
  moreover have "pgr_page ?q 0 = example_page PG_TOMBSTONE"
    using s(2) [of 0] fun_cong [OF pager_example_view(1), of h t tt 0] by (simp add: view_of_def pager_example_def split: if_splits)
  ultimately show ?thesis
    using log by (intro exI [of _ b] exI [of _ h] exI [of _ t] exI [of _ tt] exI [of _ q]) simp
qed

end
