(* ===== verification/Pager_Restart.thy ===== *)
theory Pager_Restart
  imports Pager_Rollback
begin

text \<open>
  The analysis pass of restart: what a record of a transaction does to the table of transactions.
\<close>

definition analysis_inv :: "pager \<Rightarrow> aries_ctx \<Rightarrow> bool" where
  \<comment> \<open>the tables, and room for one more transaction and one more page\<close>
  "analysis_inv p ctx \<longleftrightarrow> txnt_inv (wm_txns (pg_mem p)) (ac_txt ctx) \<and> dpt_inv (wm_dpgs (pg_mem p)) (ac_dpt ctx) \<and>
     dpt_cap (ac_dpt ctx) = DPT_CAP \<and> card (dom (dpt_map (wm_dpgs (pg_mem p)) (ac_dpt ctx))) < DPT_CAP \<and>
     (\<exists>xs. wm_txns (pg_mem p) (db_block (ac_txns ctx)) = Some xs \<and> length xs = db_nelem_cap (ac_txns ctx) \<and>
        db_nelem (ac_txns ctx) + 1 < db_nelem_cap (ac_txns ctx) \<and> db_nelem_cap (ac_txns ctx) < 2 ^ 31 \<and>
        xs ! db_nelem (ac_txns ctx) = None)"

lemma analysis_enter_known:
  assumes inv: "analysis_inv p ctx" and rec: "wrh_get_tid rec = Some tid" "tid \<noteq> - 1" "wrh_get_prev_lsn rec = Some prev" "sint prev \<ge> 0"
    and known: "txnt_map (wm_txns (pg_mem p)) (ac_txt ctx) tid \<noteq> None"
  shows "\<exists>h d tx. analysis_enter a l rec (p, ctx, None) =
      Some (Inr (Some tx), set_txns p h, ctx\<lparr>ac_max_tid := update_max_txid (ac_max_tid ctx) tid, ac_txns := d\<rparr>, None) \<and>
    heap_get h tx = Some \<lparr>tx_tid = tid, tx_data = \<lparr>td_state = TX_CANDIDATE_FOR_UNDO, td_last_lsn = l, td_undo_next_lsn = prev\<rparr>\<rparr> \<and>
    heap_get (wm_txns (pg_mem p)) tx = None \<and> (\<forall>q. q \<noteq> tx \<longrightarrow> heap_get h q = heap_get (wm_txns (pg_mem p)) q)"
proof -
  let ?h = "wm_txns (pg_mem p)" and ?d = "ac_txns ctx"
  from inv obtain xs where xs: "?h (db_block ?d) = Some xs" "length xs = db_nelem_cap ?d" "db_nelem ?d + 1 < db_nelem_cap ?d"
    "db_nelem_cap ?d < 2 ^ 31" "xs ! db_nelem ?d = None" and t: "txnt_inv ?h (ac_txt ctx)" unfolding analysis_inv_def by blast
  let ?tx = "(db_block ?d, db_nelem ?d)"
  have al: "dblb_append_alloc (ra_grow a) ?h ?d 1 = Some (Some ?tx, ?h, ?d\<lparr>db_nelem := db_nelem ?d + 1\<rparr>)"
    using xs by (simp add: dblb_append_alloc_def dbl_buffer_assert_def wrap32)
  let ?t = "\<lparr>tx_tid = tid, tx_data = \<lparr>td_state = TX_CANDIDATE_FOR_UNDO, td_last_lsn = l, td_undo_next_lsn = prev\<rparr>\<rparr>"
  have "db_nelem ?d < length xs" using xs(2,3) by simp
  from heap_put_Some [where h = ?h and b = "db_block ?d" and i = "db_nelem ?d" and v = ?t, OF xs(1) this] obtain g where g: "heap_put ?h ?tx ?t = Some g" by blast
  note get = heap_get_put [OF g]
  have fresh: "heap_get ?h ?tx = None" using xs by (simp add: heap_get_def)
  have "heap_get g q = heap_get ?h q" if "txnt_map ?h (ac_txt ctx) k = Some q" for k q
    using txnt_map_live [OF t that] fresh get [of q] by auto
  from txnt_frame [OF t this] have "txnt_inv g (ac_txt ctx)" "txnt_map g (ac_txt ctx) = txnt_map ?h (ac_txt ctx)" by auto
  then have "txnt_insert_txn_if_not_exists (ra_ins a) g (ac_txt ctx) ?tx = Some (Inr (), ac_txt ctx)"
    using known get [of ?tx] by (simp add: txnt_insert_txn_if_not_exists_def txn_exists_correct)
  with al g rec fresh get show ?thesis
    by (intro exI [of _ g] exI [of _ "?d\<lparr>db_nelem := db_nelem ?d + 1\<rparr>"] exI [of _ ?tx])
      (simp add: analysis_enter_def Let_def txn_init_def set_txns_def)
qed

text \<open>C9: Restart forgets what a transaction did. When the log goes on with an update of a transaction that is in
  the table of transactions, and no error has been set before, the analysis of the record succeeds and enters the page into the table of dirty
  pages, but the positions it sets are those of a transaction of its own, not of the one in the table: the
  entry keeps the positions of the transaction's first record. For a transaction that the log holds from
  its beginning the next position to undo therefore stays 0, and what it did is not undone.\<close>

theorem analysis_update_lost:
  assumes "analysis_inv p ctx" and "wu_tid u \<noteq> - 1" and "sint (wu_prev u) \<ge> 0" and "unat (wu_pg u) < 2 ^ 52"
    and "txnt_map (wm_txns (pg_mem p)) (ac_txt ctx) (wu_tid u) \<noteq> None"
  shows "\<exists>p' ctx'. analysis_step a l (R_Update u) (p, ctx, None) = Some (Inr (), p', ctx', None) \<and>
    txnt_data (wm_txns (pg_mem p')) (ac_txt ctx') = txnt_data (wm_txns (pg_mem p)) (ac_txt ctx) \<and>
    wu_pg u \<in> dom (dpt_map (wm_dpgs (pg_mem p')) (ac_dpt ctx'))"
proof -
  let ?h = "wm_txns (pg_mem p)" and ?dh = "wm_dpgs (pg_mem p)" and ?t = "ac_txt ctx" and ?dt = "ac_dpt ctx"
  have "wrh_get_tid (R_Update u) = Some (wu_tid u)" "wrh_get_prev_lsn (R_Update u) = Some (wu_prev u)"
    by (simp_all add: wrh_get_tid_def wrh_get_prev_lsn_def)
  from analysis_enter_known [OF assms(1) this(1) assms(2) this(2) assms(3,5), of a l] obtain h d tx where
    e: "analysis_enter a l (R_Update u) (p, ctx, None) =
      Some (Inr (Some tx), set_txns p h, ctx\<lparr>ac_max_tid := update_max_txid (ac_max_tid ctx) (wu_tid u), ac_txns := d\<rparr>, None)"
      "heap_get h tx = Some \<lparr>tx_tid = wu_tid u, tx_data = \<lparr>td_state = TX_CANDIDATE_FOR_UNDO, td_last_lsn = l, td_undo_next_lsn = wu_prev u\<rparr>\<rparr>"
      "heap_get ?h tx = None" "\<And>q. q \<noteq> tx \<Longrightarrow> heap_get h q = heap_get ?h q" by blast
  let ?x = "\<lparr>tx_tid = wu_tid u, tx_data = \<lparr>td_state = TX_CANDIDATE_FOR_UNDO, td_last_lsn = l, td_undo_next_lsn = l\<rparr>\<rparr>"
  from heap_put_live [OF e(2), of ?x] obtain h' where h': "heap_put h tx ?x = Some h'" by blast
  have t: "analysis_txn (\<lambda>d. d\<lparr>td_last_lsn := l, td_undo_next_lsn := l\<rparr>) (Some tx) (set_txns p h) = Some (set_txns p h')"
    using e(2) h' by (simp add: analysis_txn_def pgr_txn_def pgr_txn_set_def txn_update_def set_txns_def)
  have inv: "txnt_inv ?h ?t" "dpt_inv ?dh ?dt" "dpt_cap ?dt = DPT_CAP" "card (dom (dpt_map ?dh ?dt)) < DPT_CAP"
    using assms(1) unfolding analysis_inv_def by blast+
  have "heap_get h' q = heap_get ?h q" if "txnt_map ?h ?t k = Some q" for k q
    using txnt_map_live [OF inv(1) that] e(3,4) heap_get_put [OF h', of q] by auto
  then have data: "txnt_data h' ?t = txnt_data ?h ?t" using txnt_frame [OF inv(1), of h'] by blast
  have key: "dpt_key ?dt (wu_pg u)" using assms(4) inv(3) by (simp add: dpt_key_def DPT_CAP_def)
  have m: "pg_mem (set_txns p g) = (pg_mem p)\<lparr>wm_txns := g\<rparr>" for g by (simp add: set_txns_def)
  show ?thesis
  proof (cases "dpt_map ?dh ?dt (wu_pg u)")
    case (Some v)
    with dpe_get_correct [OF inv(2) key] have "dpe_get ?dh ?dt (wu_pg u) = Some (Some \<lparr>de_rec_lsn = v, de_pg = wu_pg u\<rparr>)" by simp
    with e(1) t data Some show ?thesis
      by (simp add: analysis_step_def m del: dom_dpt_map) (auto simp: dom_def)
  next
    case None
    from dpgt_add_new [OF inv(2) key None, of l] inv(3,4) obtain dh' dt' where
      a: "dpgt_add ?dh ?dt (wu_pg u) l = Some (Inr (), dh', dt')" "dpt_map dh' dt' = (dpt_map ?dh ?dt)(wu_pg u \<mapsto> l)" by auto
    from dpe_get_correct [OF inv(2) key] None have "dpe_get ?dh ?dt (wu_pg u) = Some None" by simp
    with e(1) t data a show ?thesis by (simp add: analysis_step_def m del: dom_dpt_map)
  qed
qed

definition restart_example :: "dpg_entry heap \<Rightarrow> dpg_table \<Rightarrow> txn_table \<Rightarrow> pager" where
  "restart_example h t tt = (pager_example h t tt)
     \<lparr>pg_mem := \<lparr>wm_txns = [1 \<mapsto> [Some example_txn], 2 \<mapsto> replicate 100 None], wm_dpgs = h\<rparr>\<rparr>"

definition ctx_example :: "dpg_table \<Rightarrow> txn_table \<Rightarrow> aries_ctx" where
  "ctx_example t tt = \<lparr>ac_master_lsn = 0, ac_redo_lsn = 0, ac_txt = tt,
     ac_txns = \<lparr>db_block = 2, db_nelem = 0, db_nelem_cap = 100\<rparr>, ac_dpt = t, ac_max_tid = 0\<rparr>"

theorem analysis_update_lost_witness:
  "\<exists>h t tt p' ctx'. analysis_step example_reads 64
       (R_Update \<lparr>wu_tid = 7, wu_prev = 0, wu_pg = 1, wu_undo = example_page PG_TOMBSTONE, wu_redo = example_page PG_ROOT_NODE\<rparr>)
       (restart_example h t tt, ctx_example t tt, None) = Some (Inr (), p', ctx', None) \<and>
     txnt_data (wm_txns (pg_mem p')) (ac_txt ctx') 7 = Some (tx_data example_txn)"
proof -
  from dpgt_open_correct [of 3 Map.empty] obtain t h where t: "dpt_inv h t" "dpt_map h t = Map.empty" "dpt_cap t = DPT_CAP" by blast
  let ?g = "[1 \<mapsto> [Some example_txn], 2 \<mapsto> replicate 100 None] :: txn heap"
  from txnt_open_correct [of ?g] obtain t0 where t0: "txnt_inv ?g t0" "txnt_map ?g t0 = Map.empty" "ah_nodes t0 = {#}" by blast
  have x: "heap_get ?g (1, 0) = Some example_txn" by (simp add: heap_get_def)
  from txnt_insert_correct [OF t0(1) x, of True] t0 obtain tt where
    tt: "txnt_inv ?g tt" "txnt_map ?g tt = [7 \<mapsto> (1, 0)]" by (auto simp: txnt_step_def example_txn_def)
  let ?u = "\<lparr>wu_tid = 7, wu_prev = 0, wu_pg = 1, wu_undo = example_page PG_TOMBSTONE, wu_redo = example_page PG_ROOT_NODE\<rparr>"
  have m: "wm_txns (pg_mem (restart_example h t tt)) = ?g" "wm_dpgs (pg_mem (restart_example h t tt)) = h"
    by (simp_all add: restart_example_def)
  have "analysis_inv (restart_example h t tt) (ctx_example t tt)"
    using t tt(1) by (simp add: analysis_inv_def m ctx_example_def DPT_CAP_def del: dom_dpt_map)
  moreover have "wu_tid ?u \<noteq> - 1" "sint (wu_prev ?u) \<ge> 0" "unat (wu_pg ?u) < 2 ^ 52" by simp_all
  moreover have "txnt_map (wm_txns (pg_mem (restart_example h t tt))) (ac_txt (ctx_example t tt)) (wu_tid ?u) \<noteq> None"
    unfolding m using tt(2) by (simp add: ctx_example_def)
  ultimately obtain p' ctx' where
    "analysis_step example_reads 64 (R_Update ?u) (restart_example h t tt, ctx_example t tt, None) = Some (Inr (), p', ctx', None)"
    "txnt_data (wm_txns (pg_mem p')) (ac_txt ctx') = txnt_data ?g (ac_txt (ctx_example t tt))"
    using analysis_update_lost [of "restart_example h t tt" "ctx_example t tt" ?u example_reads 64] m(1) by auto
  moreover have "ac_txt (ctx_example t tt) = tt" by (simp add: ctx_example_def)
  moreover have "txnt_data ?g tt 7 = Some (tx_data example_txn)"
    unfolding txnt_data_def tt(2) by (simp add: x del: One_nat_def)
  ultimately show ?thesis by metis
qed

end
