(* ===== verification/Pager_Routines.thy ===== *)
theory Pager_Routines
  imports Pager
begin

text \<open>
The page routines (\<^verbatim>\<open>src/libs/nspager/pager_routines.c\<close>): walking from a page to its
neighbours, adding a page beside another, deleting a page or a chain of pages, and levelling two
neighbours.

A routine takes and returns the handles it is given; a handle it declares itself is lost when an
error ends the routine, so the frames it holds stay pinned, as they do in the code. \<open>tx\<close> is
\<open>None\<close> for the null transaction. A page whose type byte is none of the types cannot be held
(\<open>pgr_get\<close> validates it), so the type is decoded where the code passes it on.
\<close>

section \<open>Handles\<close>

definition err_wrap_to ::
  "('a res \<times> 's) option \<Rightarrow> ('s \<Rightarrow> 't) \<Rightarrow> ('a \<Rightarrow> 's \<Rightarrow> ('b res \<times> 't) option) \<Rightarrow> ('b res \<times> 't) option" where
  \<comment> \<open>\<^verbatim>\<open>err_t_wrap\<close> around a call that works on a part of the state\<close>
  "err_wrap_to m g f = do { (r, s) \<leftarrow> m; case r of Inl e \<Rightarrow> Some (Inl e, g s) | Inr x \<Rightarrow> f x s }"

lemma err_wrap_to_simps [simp]:
  "err_wrap_to None g f = None"
  "err_wrap_to (Some (Inl e, s)) g f = Some (Inl e, g s)"
  "err_wrap_to (Some (Inr x, s)) g f = f x s"
  by (simp_all add: err_wrap_to_def)

definition page_h_w_or_null :: "pager \<Rightarrow> page_h \<Rightarrow> page option option" where
  "page_h_w_or_null p h = do {
     page_h_assert p h;
     if ph_mode h = PHM_NONE then Some None
     else do { x \<leftarrow> page_h_w p h; Some (Some x) } }"

definition page_h_ro_or_null :: "pager \<Rightarrow> page_h \<Rightarrow> page option option" where
  "page_h_ro_or_null p h = do {
     page_h_assert p h;
     if ph_mode h = PHM_NONE then Some None
     else do { x \<leftarrow> page_h_ro p h; Some (Some x) } }"

definition page_h_put_or_null :: "pager \<Rightarrow> page_h \<Rightarrow> page option \<Rightarrow> pager option" where
  "page_h_put_or_null p h x = (case x of None \<Rightarrow> Some p | Some x \<Rightarrow> page_h_w_put p h x)"

definition in_pair_from_pgh :: "pager \<Rightarrow> page_h \<Rightarrow> in_pair option" where
  "in_pair_from_pgh p h =
     (if ph_mode h = PHM_NONE then Some \<lparr>ip_pg = PGNO_NULL, ip_key = 0\<rparr>
      else do {
        n \<leftarrow> page_h_pgno p h;
        x \<leftarrow> page_h_ro p h;
        s \<leftarrow> dlgt_get_size x;
        Some \<lparr>ip_pg = n, ip_key = s\<rparr> })"

definition pgr_link :: "pager \<Rightarrow> page_h \<Rightarrow> page_h \<Rightarrow> pager option" where
  \<comment> \<open>\<^verbatim>\<open>dlgt_link\<close> on the pages behind two handles\<close>
  "pgr_link p l r = do {
     a \<leftarrow> page_h_w_or_null p l;
     b \<leftarrow> page_h_w_or_null p r;
     (a, b) \<leftarrow> dlgt_link a b;
     p \<leftarrow> page_h_put_or_null p l a;
     page_h_put_or_null p r b }"

definition pgr_valid_neighbors :: "pager \<Rightarrow> page_h \<Rightarrow> page_h \<Rightarrow> bool option" where
  "pgr_valid_neighbors p l r = do {
     a \<leftarrow> page_h_ro_or_null p l;
     b \<leftarrow> page_h_ro_or_null p r;
     dlgt_valid_neighbors a b }"

definition page_h_ptype :: "pager \<Rightarrow> page_h \<Rightarrow> page_type option" where
  "page_h_ptype p h = do { x \<leftarrow> page_h_ro p h; pt_decode (page_get_type x) }"

section \<open>Walking\<close>

definition pgr_get_for :: "ptr option \<Rightarrow> page_h \<Rightarrow> u8 \<Rightarrow> pgno \<Rightarrow> pager \<Rightarrow> (unit res \<times> page_h \<times> pager) option" where
  "pgr_get_for tx dest flags n p =
     (case tx of Some t \<Rightarrow> pgr_get_writable dest t flags n p | None \<Rightarrow> pgr_get dest flags n p)"

definition pgr_neighbor :: "ptr option \<Rightarrow> page_h \<Rightarrow> u8 \<Rightarrow> pgno \<Rightarrow> pager \<Rightarrow> (unit res \<times> page_h \<times> pager) option" where
  \<comment> \<open>the body the three \<^verbatim>\<open>pgr_dlgt_get_*\<close> share\<close>
  "pgr_neighbor tx other flags n p =
     (if n \<noteq> PGNO_NULL then
        (if ph_mode other = PHM_NONE then pgr_get_for tx other flags n p
         else do { m \<leftarrow> page_h_pgno p other; ASSERT (m = n); Some (Inr (), other, p) })
      else Some (Inr (), other, p))"

definition pgr_dlgt_get_next :: "page_h \<Rightarrow> page_h \<Rightarrow> ptr option \<Rightarrow> pager \<Rightarrow> (unit res \<times> page_h \<times> pager) option" where
  "pgr_dlgt_get_next cur succ tx p = do {
     ASSERT (ph_mode cur \<noteq> PHM_NONE);
     x \<leftarrow> page_h_ro p cur;
     npg \<leftarrow> dlgt_get_next x;
     pgr_neighbor tx succ (page_get_type x) npg p }"

definition pgr_dlgt_get_prev :: "page_h \<Rightarrow> page_h \<Rightarrow> ptr option \<Rightarrow> pager \<Rightarrow> (unit res \<times> page_h \<times> pager) option" where
  "pgr_dlgt_get_prev cur prev tx p = do {
     ASSERT (ph_mode cur \<noteq> PHM_NONE);
     x \<leftarrow> page_h_ro p cur;
     ppg \<leftarrow> dlgt_get_prev x;
     pgr_neighbor tx prev (page_get_type x) ppg p }"

definition pgr_dlgt_get_ovnext :: "page_h \<Rightarrow> page_h \<Rightarrow> ptr option \<Rightarrow> pager \<Rightarrow> (unit res \<times> page_h \<times> pager) option" where
  "pgr_dlgt_get_ovnext cur succ tx p = do {
     ASSERT (ph_mode cur \<noteq> PHM_NONE);
     x \<leftarrow> page_h_ro p cur;
     npg \<leftarrow> dlgt_get_ovnext x;
     pgr_neighbor tx succ (pt_code PG_VAR_TAIL) npg p }"

definition pgr_dlgt_get_neighbors ::
  "page_h \<Rightarrow> page_h \<Rightarrow> page_h \<Rightarrow> ptr option \<Rightarrow> pager \<Rightarrow> (unit res \<times> page_h \<times> page_h \<times> pager) option" where
  "pgr_dlgt_get_neighbors prev cur succ tx p = do {
     ASSERT (ph_mode cur \<noteq> PHM_NONE);
     err_wrap_to (pgr_dlgt_get_next cur succ tx p) (\<lambda>(succ, p). (prev, succ, p)) (\<lambda>_ (succ, p).
     err_wrap_to (pgr_dlgt_get_prev cur prev tx p) (\<lambda>(prev, p). (prev, succ, p)) (\<lambda>_ (prev, p).
       Some (Inr (), prev, succ, p))) }"

definition pgr_dlgt_advance_next :: "page_h \<Rightarrow> ptr option \<Rightarrow> pager \<Rightarrow> (unit res \<times> page_h \<times> pager) option" where
  "pgr_dlgt_advance_next cur tx p = do {
     ASSERT (ph_mode cur \<noteq> PHM_NONE);
     x \<leftarrow> page_h_ro p cur;
     npg \<leftarrow> dlgt_get_next x;
     let type = page_get_type x;
     err_wrap (pgr_release p cur type) (\<lambda>_ (cur, p).
     err_wrap_to (if npg \<noteq> PGNO_NULL then pgr_get_for tx page_h_create type npg p
                  else Some (Inr (), page_h_create, p))
       (\<lambda>(_, p). (cur, p)) (\<lambda>_ (succ, p). Some (Inr (), succ, p))) }"

definition pgr_dlgt_advance_prev :: "page_h \<Rightarrow> ptr option \<Rightarrow> pager \<Rightarrow> (unit res \<times> page_h \<times> pager) option" where
  "pgr_dlgt_advance_prev cur tx p = do {
     ASSERT (ph_mode cur \<noteq> PHM_NONE);
     x \<leftarrow> page_h_ro p cur;
     ppg \<leftarrow> dlgt_get_prev x;
     let type = page_get_type x;
     err_wrap (pgr_release p cur type) (\<lambda>_ (cur, p).
     err_wrap_to (if ppg \<noteq> PGNO_NULL then pgr_get_for tx page_h_create type ppg p
                  else Some (Inr (), page_h_create, p))
       (\<lambda>(_, p). (cur, p)) (\<lambda>_ (prev, p). Some (Inr (), prev, p))) }"

section \<open>Deleting\<close>

definition pgr_dlgt_delete_and_fill_next ::
  "page_h \<Rightarrow> page_h \<Rightarrow> ptr \<Rightarrow> pager \<Rightarrow> (unit res \<times> page_h \<times> page_h \<times> pager) option" where
  "pgr_dlgt_delete_and_fill_next cur succ tx p = do {
     ASSERT (ph_mode cur \<noteq> PHM_NONE);
     ASSERT (ph_mode succ \<noteq> PHM_NONE);
     ok \<leftarrow> pgr_valid_neighbors p cur succ;
     ASSERT ok;
     err_wrap_to (pgr_dlgt_get_next succ page_h_create (Some tx) p) (\<lambda>(_, p). (cur, succ, p)) (\<lambda>_ (nn, p).
     err_wrap_to (pgr_delete_and_release p tx succ) (\<lambda>(succ, p). (cur, succ, p)) (\<lambda>_ (succ, p).
     err_wrap_to (pgr_maybe_make_writable p tx cur) (\<lambda>(cur, p). (cur, succ, p)) (\<lambda>_ (cur, p). do {
       _ \<leftarrow> page_h_w p cur;
       p \<leftarrow> pgr_link p cur nn;
       (succ, _) \<leftarrow> page_h_xfer_ownership_ptr p succ nn;
       Some (Inr (), cur, succ, p) }))) }"

definition pgr_dlgt_delete_and_fill_prev ::
  "page_h \<Rightarrow> page_h \<Rightarrow> ptr \<Rightarrow> pager \<Rightarrow> (unit res \<times> page_h \<times> page_h \<times> pager) option" where
  "pgr_dlgt_delete_and_fill_prev prev cur tx p = do {
     ASSERT (ph_mode prev \<noteq> PHM_NONE);
     ASSERT (ph_mode cur \<noteq> PHM_NONE);
     ok \<leftarrow> pgr_valid_neighbors p prev cur;
     ASSERT ok;
     err_wrap_to (pgr_dlgt_get_prev prev page_h_create (Some tx) p) (\<lambda>(_, p). (prev, cur, p)) (\<lambda>_ (pp, p).
     err_wrap_to (pgr_delete_and_release p tx prev) (\<lambda>(prev, p). (prev, cur, p)) (\<lambda>_ (prev, p).
     err_wrap_to (pgr_maybe_make_writable p tx cur) (\<lambda>(cur, p). (prev, cur, p)) (\<lambda>_ (cur, p). do {
       _ \<leftarrow> page_h_w p cur;
       p \<leftarrow> pgr_link p pp cur;
       (prev, _) \<leftarrow> page_h_xfer_ownership_ptr p prev pp;
       Some (Inr (), prev, cur, p) }))) }"

text \<open>The chain loops end when a page has no neighbour; on a ring of pages they would not.\<close>

partial_function (option) pgr_delete_nexts :: "page_h \<Rightarrow> ptr \<Rightarrow> pager \<Rightarrow> (unit res \<times> pager) option" where
  "pgr_delete_nexts succ tx p =
     (if ph_mode succ = PHM_NONE then Some (Inr (), p)
      else do {
        (r, nn, p) \<leftarrow> pgr_dlgt_get_next succ page_h_create (Some tx) p;
        if isl r then Some (Inl (projl r), p)
        else do {
          (r, succ, p) \<leftarrow> pgr_delete_and_release p tx succ;
          if isl r then Some (Inl (projl r), p)
          else do {
            (succ, _) \<leftarrow> page_h_xfer_ownership_ptr p succ nn;
            pgr_delete_nexts succ tx p } } })"

partial_function (option) pgr_delete_prevs :: "page_h \<Rightarrow> ptr \<Rightarrow> pager \<Rightarrow> (unit res \<times> pager) option" where
  "pgr_delete_prevs prev tx p =
     (if ph_mode prev = PHM_NONE then Some (Inr (), p)
      else do {
        (r, pp, p) \<leftarrow> pgr_dlgt_get_prev prev page_h_create (Some tx) p;
        if isl r then Some (Inl (projl r), p)
        else do {
          (r, prev, p) \<leftarrow> pgr_delete_and_release p tx prev;
          if isl r then Some (Inl (projl r), p)
          else do {
            (prev, _) \<leftarrow> page_h_xfer_ownership_ptr p prev pp;
            pgr_delete_prevs prev tx p } } })"

definition pgr_dlgt_delete_chain :: "page_h \<Rightarrow> ptr \<Rightarrow> pager \<Rightarrow> (unit res \<times> page_h \<times> pager) option" where
  "pgr_dlgt_delete_chain cur tx p = do {
     ASSERT (ph_mode cur \<noteq> PHM_NONE);
     err_wrap_to (pgr_dlgt_get_next cur page_h_create (Some tx) p) (\<lambda>(_, p). (cur, p)) (\<lambda>_ (succ, p).
     err_wrap_to (pgr_dlgt_get_prev cur page_h_create (Some tx) p) (\<lambda>(_, p). (cur, p)) (\<lambda>_ (prev, p).
     err_wrap (pgr_delete_and_release p tx cur) (\<lambda>_ (cur, p).
     err_wrap_to (pgr_delete_nexts succ tx p) (\<lambda>p. (cur, p)) (\<lambda>_ p.
     err_wrap_to (pgr_delete_prevs prev tx p) (\<lambda>p. (cur, p)) (\<lambda>_ p.
       Some (Inr (), cur, p)))))) }"

definition pgr_dlgt_delete_vpvl_chain :: "page_h \<Rightarrow> ptr \<Rightarrow> pager \<Rightarrow> (unit res \<times> page_h \<times> pager) option" where
  "pgr_dlgt_delete_vpvl_chain cur tx p = do {
     ASSERT (ph_mode cur \<noteq> PHM_NONE);
     err_wrap_to (pgr_dlgt_get_ovnext cur page_h_create (Some tx) p) (\<lambda>(_, p). (cur, p)) (\<lambda>_ (succ, p).
     err_wrap (pgr_delete_and_release p tx cur) (\<lambda>_ (cur, p).
     err_wrap_to (pgr_delete_nexts succ tx p) (\<lambda>p. (cur, p)) (\<lambda>_ p.
       Some (Inr (), cur, p)))) }"

section \<open>Adding a page beside another\<close>

definition pgr_dlgt_new_next ::
  "page_h \<Rightarrow> page_h \<Rightarrow> page_h \<Rightarrow> ptr \<Rightarrow> pager \<Rightarrow> (unit res \<times> page_h \<times> page_h \<times> page_h \<times> pager) option" where
  "pgr_dlgt_new_next cur dest c_next tx p = do {
     ASSERT (ph_mode cur \<noteq> PHM_NONE);
     ASSERT (ph_mode dest = PHM_NONE);
     ok \<leftarrow> pgr_valid_neighbors p cur c_next;
     ASSERT ok;
     err_wrap_to (pgr_maybe_make_writable p tx cur) (\<lambda>(cur, p). (cur, dest, c_next, p)) (\<lambda>_ (cur, p).
     err_wrap_to (pgr_maybe_make_writable p tx c_next) (\<lambda>(c_next, p). (cur, dest, c_next, p)) (\<lambda>_ (c_next, p). do {
     t \<leftarrow> page_h_ptype p cur;
     err_wrap_to (pgr_new dest p tx t) (\<lambda>(dest, p). (cur, dest, c_next, p)) (\<lambda>_ (dest, p). do {
       _ \<leftarrow> page_h_w p cur;
       _ \<leftarrow> page_h_w p dest;
       p \<leftarrow> pgr_link p cur dest;
       p \<leftarrow> pgr_link p dest c_next;
       Some (Inr (), cur, dest, c_next, p) }) })) }"

definition pgr_dlgt_new_prev ::
  "page_h \<Rightarrow> page_h \<Rightarrow> page_h \<Rightarrow> ptr \<Rightarrow> pager \<Rightarrow> (unit res \<times> page_h \<times> page_h \<times> page_h \<times> pager) option" where
  "pgr_dlgt_new_prev c_prev dest cur tx p = do {
     ASSERT (ph_mode cur \<noteq> PHM_NONE);
     ASSERT (ph_mode dest = PHM_NONE);
     ok \<leftarrow> pgr_valid_neighbors p c_prev cur;
     ASSERT ok;
     err_wrap_to (pgr_maybe_make_writable p tx cur) (\<lambda>(cur, p). (c_prev, dest, cur, p)) (\<lambda>_ (cur, p).
     err_wrap_to (pgr_maybe_make_writable p tx c_prev) (\<lambda>(c_prev, p). (c_prev, dest, cur, p)) (\<lambda>_ (c_prev, p). do {
     t \<leftarrow> page_h_ptype p cur;
     err_wrap_to (pgr_new dest p tx t) (\<lambda>(dest, p). (c_prev, dest, cur, p)) (\<lambda>_ (dest, p). do {
       _ \<leftarrow> page_h_w p dest;
       _ \<leftarrow> page_h_w p cur;
       p \<leftarrow> pgr_link p c_prev dest;
       p \<leftarrow> pgr_link p dest cur;
       Some (Inr (), c_prev, dest, cur, p) }) })) }"

definition pgr_dlgt_new_next_no_link ::
  "page_h \<Rightarrow> page_h \<Rightarrow> ptr \<Rightarrow> pager \<Rightarrow> (unit res \<times> page_h \<times> page_h \<times> pager) option" where
  "pgr_dlgt_new_next_no_link cur succ tx p = do {
     ASSERT (ph_mode cur \<noteq> PHM_NONE);
     err_wrap_to (pgr_maybe_make_writable p tx cur) (\<lambda>(cur, p). (cur, succ, p)) (\<lambda>_ (cur, p). do {
     t \<leftarrow> page_h_ptype p cur;
     err_wrap_to (pgr_new succ p tx t) (\<lambda>(succ, p). (cur, succ, p)) (\<lambda>_ (succ, p). do {
       _ \<leftarrow> page_h_w p cur;
       _ \<leftarrow> page_h_w p succ;
       p \<leftarrow> pgr_link p cur succ;
       Some (Inr (), cur, succ, p) }) }) }"

definition pgr_dlgt_new_prev_no_link ::
  "page_h \<Rightarrow> page_h \<Rightarrow> ptr \<Rightarrow> pager \<Rightarrow> (unit res \<times> page_h \<times> page_h \<times> pager) option" where
  "pgr_dlgt_new_prev_no_link cur prev tx p = do {
     ASSERT (ph_mode cur \<noteq> PHM_NONE);
     err_wrap_to (pgr_maybe_make_writable p tx cur) (\<lambda>(cur, p). (cur, prev, p)) (\<lambda>_ (cur, p). do {
     t \<leftarrow> page_h_ptype p cur;
     err_wrap_to (pgr_new prev p tx t) (\<lambda>(prev, p). (cur, prev, p)) (\<lambda>_ (prev, p). do {
       _ \<leftarrow> page_h_w p prev;
       _ \<leftarrow> page_h_w p cur;
       p \<leftarrow> pgr_link p prev cur;
       Some (Inr (), cur, prev, p) }) }) }"

definition pgr_dlgt_new_ovnext_no_link ::
  "page_h \<Rightarrow> page_h \<Rightarrow> ptr \<Rightarrow> pager \<Rightarrow> (unit res \<times> page_h \<times> page_h \<times> pager) option" where
  "pgr_dlgt_new_ovnext_no_link cur succ tx p = do {
     ASSERT (ph_mode cur \<noteq> PHM_NONE);
     err_wrap_to (pgr_maybe_make_writable p tx cur) (\<lambda>(cur, p). (cur, succ, p)) (\<lambda>_ (cur, p).
     err_wrap_to (pgr_new succ p tx PG_VAR_TAIL) (\<lambda>(succ, p). (cur, succ, p)) (\<lambda>_ (succ, p). do {
       a \<leftarrow> page_h_w p cur;
       b \<leftarrow> page_h_w p succ;
       a \<leftarrow> dlgtovlink a (Some b);
       p \<leftarrow> page_h_w_put p cur a;
       Some (Inr (), cur, succ, p) })) }"

text \<open>The four \<^verbatim>\<open>advance_new\<close> routines move the handle to the page they add.\<close>

definition pgr_dlgt_advance_new_next ::
  "page_h \<Rightarrow> page_h \<Rightarrow> ptr \<Rightarrow> pager \<Rightarrow> (unit res \<times> page_h \<times> page_h \<times> pager) option" where
  "pgr_dlgt_advance_new_next cur c_next tx p = do {
     ASSERT (ph_mode cur \<noteq> PHM_NONE);
     ok \<leftarrow> pgr_valid_neighbors p cur c_next;
     ASSERT ok;
     err_wrap_to (pgr_maybe_make_writable p tx cur) (\<lambda>(cur, p). (cur, c_next, p)) (\<lambda>_ (cur, p).
     err_wrap_to (pgr_maybe_make_writable p tx c_next) (\<lambda>(c_next, p). (cur, c_next, p)) (\<lambda>_ (c_next, p). do {
     t \<leftarrow> page_h_ptype p cur;
     err_wrap_to (pgr_new page_h_create p tx t) (\<lambda>(_, p). (cur, c_next, p)) (\<lambda>_ (succ, p). do {
       _ \<leftarrow> page_h_w p cur;
       _ \<leftarrow> page_h_w p succ;
       p \<leftarrow> pgr_link p cur succ;
       p \<leftarrow> pgr_link p succ c_next;
       type \<leftarrow> page_h_type p cur;
       err_wrap_to (pgr_release p cur type) (\<lambda>(cur, p). (cur, c_next, p)) (\<lambda>_ (_, p). do {
         (cur, _) \<leftarrow> page_h_xfer_ownership p succ;
         Some (Inr (), cur, c_next, p) }) }) })) }"

definition pgr_dlgt_advance_new_prev ::
  "page_h \<Rightarrow> page_h \<Rightarrow> ptr \<Rightarrow> pager \<Rightarrow> (unit res \<times> page_h \<times> page_h \<times> pager) option" where
  "pgr_dlgt_advance_new_prev c_prev cur tx p = do {
     ASSERT (ph_mode cur \<noteq> PHM_NONE);
     ok \<leftarrow> pgr_valid_neighbors p c_prev cur;
     ASSERT ok;
     err_wrap_to (pgr_maybe_make_writable p tx c_prev) (\<lambda>(c_prev, p). (c_prev, cur, p)) (\<lambda>_ (c_prev, p).
     err_wrap_to (pgr_maybe_make_writable p tx cur) (\<lambda>(cur, p). (c_prev, cur, p)) (\<lambda>_ (cur, p). do {
     t \<leftarrow> page_h_ptype p cur;
     err_wrap_to (pgr_new page_h_create p tx t) (\<lambda>(_, p). (c_prev, cur, p)) (\<lambda>_ (prev, p). do {
       _ \<leftarrow> page_h_w p prev;
       _ \<leftarrow> page_h_w p cur;
       p \<leftarrow> pgr_link p c_prev prev;
       p \<leftarrow> pgr_link p prev cur;
       type \<leftarrow> page_h_type p cur;
       err_wrap_to (pgr_release p cur type) (\<lambda>(cur, p). (c_prev, cur, p)) (\<lambda>_ (_, p). do {
         (cur, _) \<leftarrow> page_h_xfer_ownership p prev;
         Some (Inr (), c_prev, cur, p) }) }) })) }"

definition pgr_dlgt_advance_new_next_no_link ::
  "page_h \<Rightarrow> ptr \<Rightarrow> pager \<Rightarrow> (unit res \<times> page_h \<times> pager) option" where
  "pgr_dlgt_advance_new_next_no_link cur tx p = do {
     ASSERT (ph_mode cur \<noteq> PHM_NONE);
     err_wrap (pgr_maybe_make_writable p tx cur) (\<lambda>_ (cur, p). do {
     t \<leftarrow> page_h_ptype p cur;
     err_wrap_to (pgr_new page_h_create p tx t) (\<lambda>(_, p). (cur, p)) (\<lambda>_ (succ, p). do {
       _ \<leftarrow> page_h_w p cur;
       _ \<leftarrow> page_h_w p succ;
       p \<leftarrow> pgr_link p cur succ;
       type \<leftarrow> page_h_type p cur;
       err_wrap (pgr_release p cur type) (\<lambda>_ (_, p). Some (Inr (), succ, p)) }) }) }"

definition pgr_dlgt_advance_new_prev_no_link ::
  "page_h \<Rightarrow> ptr \<Rightarrow> pager \<Rightarrow> (unit res \<times> page_h \<times> pager) option" where
  "pgr_dlgt_advance_new_prev_no_link cur tx p = do {
     ASSERT (ph_mode cur \<noteq> PHM_NONE);
     err_wrap (pgr_maybe_make_writable p tx cur) (\<lambda>_ (cur, p). do {
     t \<leftarrow> page_h_ptype p cur;
     err_wrap_to (pgr_new page_h_create p tx t) (\<lambda>(_, p). (cur, p)) (\<lambda>_ (prev, p). do {
       _ \<leftarrow> page_h_w p prev;
       _ \<leftarrow> page_h_w p cur;
       p \<leftarrow> pgr_link p prev cur;
       type \<leftarrow> page_h_type p cur;
       err_wrap (pgr_release p cur type) (\<lambda>_ (_, p). Some (Inr (), prev, p)) }) }) }"

section \<open>Levelling two neighbours\<close>

definition balance_prev_pages :: "page \<Rightarrow> page \<Rightarrow> (page \<times> page) option" where
  \<comment> \<open>what \<^verbatim>\<open>dlgt_balance_with_prev\<close> does to the two pages\<close>
  "balance_prev_pages prev cur = do {
     ok \<leftarrow> dlgt_valid_neighbors (Some prev) (Some cur);
     ASSERT ok;
     prev_len \<leftarrow> dlgt_get_len prev;
     cur_len \<leftarrow> dlgt_get_len cur;
     maxlen \<leftarrow> dlgt_get_max_len prev;
     if cur_len = 0 then Some (prev, cur)
     else if cur_len \<ge> maxlen div 2 then Some (prev, cur)
     else if add32 prev_len cur_len \<ge> maxlen then dlgt_move_right prev cur (sub32 (maxlen div 2) cur_len)
     else dlgt_move_left prev cur cur_len }"

definition balance_next_pages :: "page \<Rightarrow> page \<Rightarrow> (page \<times> page) option" where
  "balance_next_pages cur succ = do {
     ok \<leftarrow> dlgt_valid_neighbors (Some cur) (Some succ);
     ASSERT ok;
     next_len \<leftarrow> dlgt_get_len succ;
     cur_len \<leftarrow> dlgt_get_len cur;
     maxlen \<leftarrow> dlgt_get_max_len succ;
     if cur_len = 0 then Some (cur, succ)
     else if cur_len \<ge> maxlen div 2 then Some (cur, succ)
     else if add32 next_len cur_len \<ge> maxlen then dlgt_move_left cur succ (sub32 (maxlen div 2) cur_len)
     else dlgt_move_right cur succ cur_len }"

definition dlgt_balance_with_prev :: "pager \<Rightarrow> page_h \<Rightarrow> page_h \<Rightarrow> pager option" where
  "dlgt_balance_with_prev p prev cur = do {
     ASSERT (ph_mode prev = PHM_X);
     ASSERT (ph_mode cur = PHM_X);
     a \<leftarrow> page_h_w p prev;
     b \<leftarrow> page_h_w p cur;
     (a, b) \<leftarrow> balance_prev_pages a b;
     p \<leftarrow> page_h_w_put p prev a;
     page_h_w_put p cur b }"

definition dlgt_balance_with_next :: "pager \<Rightarrow> page_h \<Rightarrow> page_h \<Rightarrow> pager option" where
  "dlgt_balance_with_next p cur succ = do {
     ASSERT (ph_mode cur = PHM_X);
     ASSERT (ph_mode succ = PHM_X);
     a \<leftarrow> page_h_w p cur;
     b \<leftarrow> page_h_w p succ;
     (a, b) \<leftarrow> balance_next_pages a b;
     p \<leftarrow> page_h_w_put p cur a;
     page_h_w_put p succ b }"


lemma node_capacity:
  assumes "wf_node a" and "wf_node b" and "page_get_type a = page_get_type b"
  shows "\<exists>c. dlgt_get_max_len a = Some c \<and> dlgt_get_max_len b = Some c \<and> 2 \<le> c \<and> c < 2 ^ 16 \<and>
    length (dlgt_items a) \<le> c \<and> length (dlgt_items b) \<le> c"
  using assms(1)
proof (cases rule: wf_node_cases)
  case leaf
  with assms(2,3) have "wf_dl b" "dlgt_items b = map Inl (dl_bytes b)" "dlgt_get_max_len b = Some DL_DATA_SIZE"
    by (elim wf_node_cases; simp del: pt_code.simps)+
  with leaf show ?thesis by (simp add: wf_dlD)
next
  case inner
  with assms(2,3) have "wf_in b" "dlgt_items b = map Inr (in_pairs b)" "dlgt_get_max_len b = Some IN_MAX_KEYS"
    by (elim wf_node_cases; simp del: pt_code.simps)+
  with inner show ?thesis by (simp add: wf_inD)
qed

definition levelled :: "page \<Rightarrow> page \<Rightarrow> page \<Rightarrow> page \<Rightarrow> bool" where
  \<comment> \<open>the second pair of pages holds what the first holds, in the same order\<close>
  "levelled a b a' b' \<longleftrightarrow> wf_node a' \<and> wf_node b' \<and> same_links a a' \<and> same_links b b' \<and>
     dlgt_items a' @ dlgt_items b' = dlgt_items a @ dlgt_items b"

lemma balance_next_pages_correct:
  assumes wf: "wf_node a" "wf_node b" and ty: "page_get_type a = page_get_type b"
    and nb: "dlgt_valid_neighbors (Some a) (Some b) = Some True"
    and c: "dlgt_get_max_len b = Some c"
  shows "\<exists>a' b'. balance_next_pages a b = Some (a', b') \<and> levelled a b a' b' \<and>
    (dlgt_items a' = [] \<or> c div 2 \<le> length (dlgt_items a')) \<and>
    (length (dlgt_items b') < c div 2 \<longrightarrow> a' = a \<and> b' = b \<or> dlgt_items a' = [])"
proof -
  let ?a = "length (dlgt_items a)" and ?b = "length (dlgt_items b)"
  have cap: "dlgt_get_max_len a = Some c" "2 \<le> c" "c < 2 ^ 16" "?a \<le> c" "?b \<le> c"
    using node_capacity [OF wf ty] c by auto
  have add: "add32 ?b ?a = ?b + ?a" and sub: "?a < c div 2 \<Longrightarrow> sub32 (c div 2) ?a = c div 2 - ?a"
    using cap by (simp_all add: add32_def sub32_def)
  consider (keep) "?a = 0 \<or> c div 2 \<le> ?a" | (fill) "0 < ?a" "?a < c div 2" "c \<le> ?b + ?a"
    | (empty) "0 < ?a" "?a < c div 2" "?b + ?a < c" by linarith
  then show ?thesis
  proof cases
    case keep
    then have "balance_next_pages a b = Some (a, b)"
      using nb c wf by (auto simp: balance_next_pages_def dlgt_items_length)
    with wf keep show ?thesis by (auto simp: levelled_def)
  next
    case fill
    have n: "c div 2 - ?a \<le> ?b" "?a + (c div 2 - ?a) \<le> c" using fill cap by linarith+
    have room: "\<exists>m. dlgt_get_max_len a = Some m \<and> ?a + (c div 2 - ?a) \<le> m" using n cap by simp
    obtain a' b' where r: "dlgt_move_left a b (c div 2 - ?a) = Some (a', b')" "wf_node a'" "wf_node b'"
        "same_links a a'" "same_links b b'" "dlgt_items a' = dlgt_items a @ take (c div 2 - ?a) (dlgt_items b)"
        "dlgt_items b' = drop (c div 2 - ?a) (dlgt_items b)"
      using dlgt_move_left_correct [OF wf ty n(1) room] by blast
    have "balance_next_pages a b = Some (a', b')"
      using nb c wf fill r(1) add sub by (simp add: balance_next_pages_def dlgt_items_length)
    moreover have "c div 2 \<le> length (dlgt_items a')" "c div 2 \<le> length (dlgt_items b')"
      using r(6,7) n fill cap by auto
    ultimately show ?thesis using r by (auto simp: levelled_def)
  next
    case empty
    have room: "\<exists>m. dlgt_get_max_len b = Some m \<and> ?b + ?a \<le> m" using empty c by simp
    obtain a' b' where r: "dlgt_move_right a b ?a = Some (a', b')" "wf_node a'" "wf_node b'"
        "same_links a a'" "same_links b b'" "dlgt_items a' = []" "dlgt_items b' = dlgt_items a @ dlgt_items b"
      using dlgt_move_right_correct [OF wf ty [symmetric] order.refl room] by auto
    have "balance_next_pages a b = Some (a', b')"
      using nb c wf empty r(1) add by (simp add: balance_next_pages_def dlgt_items_length)
    with r show ?thesis by (auto simp: levelled_def)
  qed
qed

lemma balance_prev_pages_correct:
  assumes wf: "wf_node a" "wf_node b" and ty: "page_get_type a = page_get_type b"
    and nb: "dlgt_valid_neighbors (Some a) (Some b) = Some True"
    and c: "dlgt_get_max_len a = Some c"
  shows "\<exists>a' b'. balance_prev_pages a b = Some (a', b') \<and> levelled a b a' b' \<and>
    (dlgt_items b' = [] \<or> c div 2 \<le> length (dlgt_items b')) \<and>
    (length (dlgt_items a') < c div 2 \<longrightarrow> a' = a \<and> b' = b \<or> dlgt_items b' = [])"
proof -
  let ?a = "length (dlgt_items a)" and ?b = "length (dlgt_items b)"
  have cap: "dlgt_get_max_len b = Some c" "2 \<le> c" "c < 2 ^ 16" "?a \<le> c" "?b \<le> c"
    using node_capacity [OF wf ty] c by auto
  have add: "add32 ?a ?b = ?a + ?b" and sub: "?b < c div 2 \<Longrightarrow> sub32 (c div 2) ?b = c div 2 - ?b"
    using cap by (simp_all add: add32_def sub32_def)
  consider (keep) "?b = 0 \<or> c div 2 \<le> ?b" | (fill) "0 < ?b" "?b < c div 2" "c \<le> ?a + ?b"
    | (empty) "0 < ?b" "?b < c div 2" "?a + ?b < c" by linarith
  then show ?thesis
  proof cases
    case keep
    then have "balance_prev_pages a b = Some (a, b)"
      using nb c wf by (auto simp: balance_prev_pages_def dlgt_items_length)
    with wf keep show ?thesis by (auto simp: levelled_def)
  next
    case fill
    have n: "c div 2 - ?b \<le> ?a" "?b + (c div 2 - ?b) \<le> c" using fill cap by linarith+
    have room: "\<exists>m. dlgt_get_max_len b = Some m \<and> ?b + (c div 2 - ?b) \<le> m" using n cap by simp
    obtain a' b' where r: "dlgt_move_right a b (c div 2 - ?b) = Some (a', b')" "wf_node a'" "wf_node b'"
        "same_links a a'" "same_links b b'" "dlgt_items a' = take (?a - (c div 2 - ?b)) (dlgt_items a)"
        "dlgt_items b' = drop (?a - (c div 2 - ?b)) (dlgt_items a) @ dlgt_items b"
      using dlgt_move_right_correct [OF wf ty [symmetric] n(1) room] by blast
    have "balance_prev_pages a b = Some (a', b')"
      using nb c wf fill r(1) add sub by (simp add: balance_prev_pages_def dlgt_items_length)
    moreover have "c div 2 \<le> length (dlgt_items a')" "c div 2 \<le> length (dlgt_items b')"
      using r(6,7) n fill cap by auto
    moreover have "dlgt_items a' @ dlgt_items b' = dlgt_items a @ dlgt_items b"
      using r(6,7) by (simp flip: append.assoc)
    ultimately show ?thesis using r by (auto simp: levelled_def)
  next
    case empty
    have room: "\<exists>m. dlgt_get_max_len a = Some m \<and> ?a + ?b \<le> m" using empty c by simp
    obtain a' b' where r: "dlgt_move_left a b ?b = Some (a', b')" "wf_node a'" "wf_node b'"
        "same_links a a'" "same_links b b'" "dlgt_items a' = dlgt_items a @ dlgt_items b" "dlgt_items b' = []"
      using dlgt_move_left_correct [OF wf ty order.refl room] by auto
    have "balance_prev_pages a b = Some (a', b')"
      using nb c wf empty r(1) add by (simp add: balance_prev_pages_def dlgt_items_length)
    with r show ?thesis by (auto simp: levelled_def)
  qed
qed

section \<open>Properties\<close>

text \<open>C29: Levelling keeps the sequence. For two neighbouring leaves, or two neighbouring inner nodes,
  levelling the left one with its next page, or the right one with its previous page, succeeds,
  keeps both nodes well formed with their headers and links, and keeps the sequence of items the
  two hold together; afterwards the node that was levelled is empty or at least half full, and
  the other one is below half only if it was left alone or took everything.\<close>

theorem levelling_keeps_sequence:
  assumes "wf_node a" and "wf_node b" and "page_get_type a = page_get_type b"
    and "dlgt_valid_neighbors (Some a) (Some b) = Some True"
    and "dlgt_get_max_len a = Some c" and "dlgt_get_max_len b = Some c"
  shows "(\<exists>a' b'. balance_next_pages a b = Some (a', b') \<and> levelled a b a' b' \<and>
      (dlgt_items a' = [] \<or> c div 2 \<le> length (dlgt_items a')) \<and>
      (length (dlgt_items b') < c div 2 \<longrightarrow> a' = a \<and> b' = b \<or> dlgt_items a' = [])) \<and>
    (\<exists>a' b'. balance_prev_pages a b = Some (a', b') \<and> levelled a b a' b' \<and>
      (dlgt_items b' = [] \<or> c div 2 \<le> length (dlgt_items b')) \<and>
      (length (dlgt_items a') < c div 2 \<longrightarrow> a' = a \<and> b' = b \<or> dlgt_items b' = []))"
  using balance_next_pages_correct [OF assms(1-4,6)] balance_prev_pages_correct [OF assms(1-5)] by (rule conjI)

theorem levelling_keeps_sequence_witness:
  "\<exists>l r a b. balance_next_pages l r = Some (a, b) \<and> dlgt_items l = map Inl [1, 2] \<and>
     dlgt_items r = map Inl [3] \<and> dlgt_items a = [] \<and> dlgt_items b = map Inl [1, 2, 3]"
proof -
  have n: "length [1, 2 :: u8] \<le> DL_DATA_SIZE" "length [3 :: u8] \<le> DL_DATA_SIZE" by simp_all
  note x = wf_node_leaf [OF n(1), of 4] dl_example(3) [OF n(1), of 4]
  note y = wf_node_leaf [OF n(2), of 5] dl_example(3) [OF n(2), of 5]
  obtain l r where L: "wf_node l" "wf_node r" "dlgt_items l = map Inl [1, 2]" "dlgt_items r = map Inl [3]"
      "dlgt_valid_neighbors (Some l) (Some r) = Some True"
    using dlgt_link_correct [OF x(1) y(1)] x(2) y(2) by auto
  have ty: "page_get_type l = pt_code PG_DATA_LIST"
    by (rule wf_node_cases [OF L(1)]) (use L(3) in \<open>auto simp: Cons_eq_map_conv\<close>)
  have ty': "page_get_type r = pt_code PG_DATA_LIST"
    by (rule wf_node_cases [OF L(2)]) (use L(4) in \<open>auto simp: Cons_eq_map_conv\<close>)
  with ty have m: "dlgt_get_max_len l = Some DL_DATA_SIZE" "dlgt_get_max_len r = Some DL_DATA_SIZE"
    by (simp_all add: dlgt_get_max_len_def del: pt_code.simps)
  obtain a b where A: "balance_next_pages l r = Some (a, b)" "levelled l r a b"
      "dlgt_items a = [] \<or> DL_DATA_SIZE div 2 \<le> length (dlgt_items a)"
    using levelling_keeps_sequence [OF L(1,2) _ L(5) m] ty ty' by auto
  then have seq: "dlgt_items a @ dlgt_items b = map Inl [1, 2, 3]" using L(3,4) by (simp add: levelled_def)
  have "length (dlgt_items a) \<le> length (dlgt_items a @ dlgt_items b)" by simp
  then have "length (dlgt_items a) \<le> 3" using seq by simp
  with A(3) have "dlgt_items a = []" by auto
  with A(1) L(3,4) seq show ?thesis by auto
qed

end
