(* ===== verification/Node_Updates.thy ===== *)
theory Node_Updates
  imports Page_Dispatch
begin

text \<open>
Node updates (\<^verbatim>\<open>src/libs/cursors/nsrptcursor/node_updates.c\<close>): what a change of one layer of the
tree tells the layer above. Around a pivot page, two arrays list the pages to its right and to its
left with their new sizes: \<open>nu_rlen\<close> entries were appended by the layer below, the entries up to
\<open>nu_robs\<close> also cover the pairs that the nodes above held (observed), and the entries up to
\<open>nu_rcons\<close> have been written into nodes again (consumed).

\<open>nu_prev\<close> is the pointer \<^verbatim>\<open>prev\<close>: null, to the pivot, or into one of the arrays. The routines that
work on a page get the page behind the handle; \<open>None\<close> is a handle that holds nothing.
\<close>

section \<open>The state\<close>

abbreviation NUPD_CAP :: nat where
  \<comment> \<open>\<^verbatim>\<open>MAX_NUPD_SIZE + 5 * IN_MAX_KEYS\<close>\<close>
  "NUPD_CAP \<equiv> 825"

datatype nupd_ptr = NP_null | NP_pivot | NP_right nat | NP_left nat

record node_updates =
  nu_pivot :: in_pair
  nu_right :: "in_pair list"
  nu_left :: "in_pair list"
  nu_prev :: nupd_ptr
  nu_rlen :: nat
  nu_llen :: nat
  nu_robs :: nat
  nu_lobs :: nat
  nu_rcons :: nat
  nu_lcons :: nat

record three_in_pair =
  tip_prev :: in_pair
  tip_cur :: in_pair
  tip_next :: in_pair

abbreviation in_pair_from :: "pgno \<Rightarrow> b_size \<Rightarrow> in_pair" where
  "in_pair_from p k \<equiv> \<lparr>ip_pg = p, ip_key = k\<rparr>"

abbreviation in_pair_empty :: in_pair where
  "in_pair_empty \<equiv> in_pair_from PGNO_NULL 0"

definition nupd_assert :: "node_updates \<Rightarrow> unit option" where
  "nupd_assert n = ASSERT (\<not> in_pair_is_empty (nu_pivot n) \<and>
     nu_rlen n \<le> NUPD_CAP \<and> nu_llen n \<le> NUPD_CAP \<and> nu_robs n \<le> NUPD_CAP \<and> nu_lobs n \<le> NUPD_CAP \<and>
     nu_rcons n \<le> nu_robs n \<and> nu_lcons n \<le> nu_lobs n)"

definition nupd_init :: "pgno \<Rightarrow> b_size \<Rightarrow> node_updates option" where
  "nupd_init pg' sz = do {
     let s = \<lparr>nu_pivot = in_pair_from pg' sz,
       nu_right = replicate NUPD_CAP (in_pair_from 0 0), nu_left = replicate NUPD_CAP (in_pair_from 0 0),
       nu_prev = NP_null, nu_rlen = 0, nu_llen = 0, nu_robs = 0, nu_lobs = 0, nu_rcons = 0, nu_lcons = 0\<rparr>;
     nupd_assert s;
     Some (s\<lparr>nu_prev := NP_pivot\<rparr>) }"

section \<open>Appending\<close>

definition nupd_fresh :: "node_updates \<Rightarrow> unit option" where
  \<comment> \<open>nothing observed or consumed yet\<close>
  "nupd_fresh s = ASSERT (nu_robs s = 0 \<and> nu_lobs s = 0 \<and> nu_rcons s = 0 \<and> nu_lcons s = 0)"

definition nupd_append_right :: "node_updates \<Rightarrow> pgno \<Rightarrow> b_size \<Rightarrow> (nupd_ptr \<times> node_updates) option" where
  "nupd_append_right s pg' sz = do {
     nupd_assert s;
     nupd_fresh s;
     if nu_rlen s = 0 \<and> pg' = ip_pg (nu_pivot s)
     then Some (NP_pivot, s\<lparr>nu_pivot := (nu_pivot s)\<lparr>ip_key := sz\<rparr>\<rparr>)
     else do {
       r \<leftarrow> mem_write (nu_right s) (nu_rlen s) [in_pair_from pg' sz];
       Some (NP_right (nu_rlen s), s\<lparr>nu_right := r, nu_rlen := nu_rlen s + 1\<rparr>) } }"

definition nupd_append_left :: "node_updates \<Rightarrow> pgno \<Rightarrow> b_size \<Rightarrow> (nupd_ptr \<times> node_updates) option" where
  "nupd_append_left s pg' sz = do {
     nupd_assert s;
     nupd_fresh s;
     if nu_llen s = 0 \<and> pg' = ip_pg (nu_pivot s)
     then Some (NP_pivot, s\<lparr>nu_pivot := (nu_pivot s)\<lparr>ip_key := sz\<rparr>\<rparr>)
     else do {
       l \<leftarrow> mem_write (nu_left s) (nu_llen s) [in_pair_from pg' sz];
       Some (NP_left (nu_llen s), s\<lparr>nu_left := l, nu_llen := nu_llen s + 1\<rparr>) } }"

definition nupd_get :: "node_updates \<Rightarrow> nupd_ptr \<Rightarrow> in_pair option" where
  "nupd_get s ptr = (case ptr of
       NP_null \<Rightarrow> None
     | NP_pivot \<Rightarrow> Some (nu_pivot s)
     | NP_right i \<Rightarrow> if i < length (nu_right s) then Some (nu_right s ! i) else None
     | NP_left i \<Rightarrow> if i < length (nu_left s) then Some (nu_left s ! i) else None)"

definition nupd_set_key :: "node_updates \<Rightarrow> nupd_ptr \<Rightarrow> b_size \<Rightarrow> node_updates option" where
  "nupd_set_key s ptr k = do {
     x \<leftarrow> nupd_get s ptr;
     Some (case ptr of
         NP_right i \<Rightarrow> s\<lparr>nu_right := (nu_right s)[i := x\<lparr>ip_key := k\<rparr>]\<rparr>
       | NP_left i \<Rightarrow> s\<lparr>nu_left := (nu_left s)[i := x\<lparr>ip_key := k\<rparr>]\<rparr>
       | _ \<Rightarrow> s\<lparr>nu_pivot := x\<lparr>ip_key := k\<rparr>\<rparr>) }"

definition nupd_commit_prev :: "node_updates \<Rightarrow> pgno \<Rightarrow> b_size \<Rightarrow> node_updates option" where
  \<comment> \<open>the first branch of the two \<^verbatim>\<open>nupd_commit_1st\<close> routines\<close>
  "nupd_commit_prev s pg' sz = do {
     x \<leftarrow> nupd_get s (nu_prev s);
     ASSERT (ip_pg x = pg');
     s \<leftarrow> nupd_set_key s (nu_prev s) sz;
     Some (s\<lparr>nu_prev := NP_null\<rparr>) }"

definition nupd_commit_1st_right :: "node_updates \<Rightarrow> pgno \<Rightarrow> b_size \<Rightarrow> node_updates option" where
  "nupd_commit_1st_right s pg' sz =
     (if nu_prev s \<noteq> NP_null then nupd_commit_prev s pg' sz
      else do { (_, s) \<leftarrow> nupd_append_right s pg' sz; Some s })"

definition nupd_commit_1st_left :: "node_updates \<Rightarrow> pgno \<Rightarrow> b_size \<Rightarrow> node_updates option" where
  "nupd_commit_1st_left s pg' sz =
     (if nu_prev s \<noteq> NP_null then nupd_commit_prev s pg' sz
      else do { (_, s) \<leftarrow> nupd_append_left s pg' sz; Some s })"

definition nupd_append_2nd_right :: "node_updates \<Rightarrow> pgno \<Rightarrow> b_size \<Rightarrow> pgno \<Rightarrow> b_size \<Rightarrow> node_updates option" where
  "nupd_append_2nd_right s pg1 size1 pg2 size2 = do {
     s \<leftarrow> (if nu_prev s \<noteq> NP_null
           then do { x \<leftarrow> nupd_get s (nu_prev s); ASSERT (ip_pg x = pg1); Some s }
           else do { (ptr, s) \<leftarrow> nupd_append_right s pg1 size1; Some (s\<lparr>nu_prev := ptr\<rparr>) });
     (_, s) \<leftarrow> nupd_append_right s pg2 size2;
     Some s }"

definition nupd_append_2nd_left :: "node_updates \<Rightarrow> pgno \<Rightarrow> b_size \<Rightarrow> pgno \<Rightarrow> b_size \<Rightarrow> node_updates option" where
  "nupd_append_2nd_left s pg1 size1 pg2 size2 = do {
     s \<leftarrow> (if nu_prev s \<noteq> NP_null
           then do { x \<leftarrow> nupd_get s (nu_prev s); ASSERT (ip_pg x = pg1); Some s }
           else do { (ptr, s) \<leftarrow> nupd_append_left s pg1 size1; Some (s\<lparr>nu_prev := ptr\<rparr>) });
     (_, s) \<leftarrow> nupd_append_left s pg2 size2;
     Some s }"

text \<open>The tip is searched from the last entry of its own side back, at the pivot, and from the pivot on
  on the other side.\<close>

primrec find_down :: "nat \<Rightarrow> in_pair list \<Rightarrow> pgno \<Rightarrow> nat option" where
  "find_down 0 xs pg' = None"
| "find_down (Suc i) xs pg' = (if ip_pg (xs ! i) = pg' then Some i else find_down i xs pg')"

primrec find_up :: "in_pair list \<Rightarrow> pgno \<Rightarrow> nat \<Rightarrow> nat option" where
  "find_up [] pg' i = None"
| "find_up (x # xs) pg' i = (if ip_pg x = pg' then Some i else find_up xs pg' (i + 1))"

definition nupd_append_tip_right :: "node_updates \<Rightarrow> three_in_pair \<Rightarrow> node_updates option" where
  "nupd_append_tip_right s tip = do {
     s \<leftarrow> nupd_commit_1st_right s (ip_pg (tip_cur tip)) (ip_key (tip_cur tip));
     let prev = tip_prev tip;
     s \<leftarrow> (if in_pair_is_empty prev then Some s
           else (case find_down (nu_rlen s) (nu_right s) (ip_pg prev) of
               Some i \<Rightarrow> nupd_set_key s (NP_right i) (ip_key prev)
             | None \<Rightarrow>
                 if ip_pg (nu_pivot s) = ip_pg prev then nupd_set_key s NP_pivot (ip_key prev)
                 else (case find_up (take (nu_llen s) (nu_left s)) (ip_pg prev) 0 of
                     Some i \<Rightarrow> nupd_set_key s (NP_left i) (ip_key prev)
                   | None \<Rightarrow> do { (_, s) \<leftarrow> nupd_append_left s (ip_pg prev) (ip_key prev); Some s })));
     if in_pair_is_empty (tip_next tip) then Some s
     else do { (_, s) \<leftarrow> nupd_append_right s (ip_pg (tip_next tip)) (ip_key (tip_next tip)); Some s } }"

definition nupd_append_tip_left :: "node_updates \<Rightarrow> three_in_pair \<Rightarrow> node_updates option" where
  "nupd_append_tip_left s tip = do {
     s \<leftarrow> nupd_commit_1st_left s (ip_pg (tip_cur tip)) (ip_key (tip_cur tip));
     let nx = tip_next tip;
     s \<leftarrow> (if in_pair_is_empty nx then Some s
           else (case find_down (nu_llen s) (nu_left s) (ip_pg nx) of
               Some i \<Rightarrow> nupd_set_key s (NP_left i) (ip_key nx)
             | None \<Rightarrow>
                 if ip_pg (nu_pivot s) = ip_pg nx then nupd_set_key s NP_pivot (ip_key nx)
                 else (case find_up (take (nu_rlen s) (nu_right s)) (ip_pg nx) 0 of
                     Some i \<Rightarrow> nupd_set_key s (NP_right i) (ip_key nx)
                   | None \<Rightarrow> do { (_, s) \<leftarrow> nupd_append_right s (ip_pg nx) (ip_key nx); Some s })));
     if in_pair_is_empty (tip_prev tip) then Some s
     else do { (_, s) \<leftarrow> nupd_append_left s (ip_pg (tip_prev tip)) (ip_key (tip_prev tip)); Some s } }"

section \<open>Observing\<close>

text \<open>The scan of the appended entries: from where the observation stands to the entry of the page, or
  past the last one.\<close>

primrec nupd_scan :: "nat \<Rightarrow> in_pair list \<Rightarrow> pgno \<Rightarrow> nat \<Rightarrow> bool \<times> nat" where
  "nupd_scan 0 xs pg' i = (False, i)"
| "nupd_scan (Suc n) xs pg' i = (if ip_pg (xs ! i) = pg' then (True, i) else nupd_scan n xs pg' (i + 1))"

definition nupd_observe_right :: "node_updates \<Rightarrow> pgno \<Rightarrow> b_size \<Rightarrow> node_updates option" where
  "nupd_observe_right s pg' key = do {
     nupd_assert s;
     if nu_robs s = 0 \<and> ip_pg (nu_pivot s) = pg' then Some s
     else do {
       let (found, i) = nupd_scan (nu_rlen s - nu_robs s) (nu_right s) pg' (nu_robs s);
       if found then Some (s\<lparr>nu_robs := i\<rparr>)
       else do {
         ASSERT (i < NUPD_CAP);
         r \<leftarrow> mem_write (nu_right s) i [in_pair_from pg' key];
         Some (s\<lparr>nu_right := r, nu_robs := i + 1\<rparr>) } } }"

definition nupd_observe_left :: "node_updates \<Rightarrow> pgno \<Rightarrow> b_size \<Rightarrow> node_updates option" where
  "nupd_observe_left s pg' key = do {
     nupd_assert s;
     if nu_lobs s = 0 \<and> ip_pg (nu_pivot s) = pg' then Some s
     else do {
       let (found, i) = nupd_scan (nu_llen s - nu_lobs s) (nu_left s) pg' (nu_lobs s);
       if found then Some (s\<lparr>nu_lobs := i\<rparr>)
       else do {
         ASSERT (i < NUPD_CAP);
         l \<leftarrow> mem_write (nu_left s) i [in_pair_from pg' key];
         Some (s\<lparr>nu_left := l, nu_lobs := i + 1\<rparr>) } } }"

primrec observe_up :: "nat \<Rightarrow> page \<Rightarrow> nat \<Rightarrow> node_updates \<Rightarrow> node_updates option" where
  \<comment> \<open>the pairs from \<^verbatim>\<open>i\<close> on, to the right\<close>
  "observe_up 0 x i s = Some s"
| "observe_up (Suc n) x i s = do {
     p \<leftarrow> in_get_leaf x i;
     b \<leftarrow> in_get_key x i;
     s \<leftarrow> nupd_observe_right s p b;
     observe_up n x (i + 1) s }"

primrec observe_down :: "nat \<Rightarrow> page \<Rightarrow> node_updates \<Rightarrow> node_updates option" where
  \<comment> \<open>the pairs below the index, downwards, to the left\<close>
  "observe_down 0 x s = Some s"
| "observe_down (Suc i) x s = do {
     p \<leftarrow> in_get_leaf x i;
     b \<leftarrow> in_get_key x i;
     s \<leftarrow> nupd_observe_left s p b;
     observe_down i x s }"

definition nupd_observe_right_from :: "node_updates \<Rightarrow> page option \<Rightarrow> p_size \<Rightarrow> node_updates option" where
  "nupd_observe_right_from s h lidx = do {
     nupd_assert s;
     ASSERT (nu_robs s \<le> nu_rlen s);
     case h of
       None \<Rightarrow> Some (s\<lparr>nu_robs := nu_rlen s\<rparr>)
     | Some x \<Rightarrow> do {
         ASSERT (page_get_type x = pt_code PG_INNER_NODE);
         observe_up (min (in_get_len x) IN_MAX_KEYS - lidx) x lidx s } }"

definition nupd_observe_left_from :: "node_updates \<Rightarrow> page option \<Rightarrow> p_size \<Rightarrow> node_updates option" where
  "nupd_observe_left_from s h lidx = do {
     nupd_assert s;
     ASSERT (nu_lobs s \<le> nu_llen s);
     case h of
       None \<Rightarrow> Some (s\<lparr>nu_lobs := nu_llen s\<rparr>)
     | Some x \<Rightarrow> do {
         ASSERT (page_get_type x = pt_code PG_INNER_NODE);
         observe_down lidx x s } }"

definition nupd_observe_all_right :: "node_updates \<Rightarrow> page option \<Rightarrow> node_updates option" where
  "nupd_observe_all_right s h = do {
     nupd_assert s;
     ASSERT (nu_robs s \<le> nu_rlen s);
     case h of
       None \<Rightarrow> Some (s\<lparr>nu_robs := nu_rlen s\<rparr>)
     | Some x \<Rightarrow> do {
         ASSERT (page_get_type x = pt_code PG_INNER_NODE);
         observe_up (min (in_get_len x) IN_MAX_KEYS) x 0 s } }"

definition nupd_observe_all_left :: "node_updates \<Rightarrow> page option \<Rightarrow> node_updates option" where
  "nupd_observe_all_left s h = do {
     nupd_assert s;
     ASSERT (nu_lobs s \<le> nu_llen s);
     case h of
       None \<Rightarrow> Some (s\<lparr>nu_lobs := nu_llen s\<rparr>)
     | Some x \<Rightarrow> do {
         ASSERT (page_get_type x = pt_code PG_INNER_NODE);
         observe_down (in_get_len x) x s } }"

definition nupd_observe_pivot :: "node_updates \<Rightarrow> page \<Rightarrow> p_size \<Rightarrow> node_updates option" where
  "nupd_observe_pivot s x lidx = do {
     nupd_assert s;
     nupd_fresh s;
     ASSERT (page_get_type x = pt_code PG_INNER_NODE);
     s \<leftarrow> nupd_observe_right_from s (Some x) lidx;
     if lidx > 0 then nupd_observe_left_from s (Some x) lidx else Some s }"

section \<open>Consuming\<close>

definition nupd_consume_right :: "node_updates \<Rightarrow> (in_pair \<times> node_updates) option" where
  "nupd_consume_right s = do {
     nupd_assert s;
     ASSERT (nu_rcons s < NUPD_CAP);
     x \<leftarrow> nupd_get s (NP_right (nu_rcons s));
     Some (x, s\<lparr>nu_rcons := nu_rcons s + 1\<rparr>) }"

definition nupd_consume_left :: "node_updates \<Rightarrow> (in_pair \<times> node_updates) option" where
  "nupd_consume_left s = do {
     nupd_assert s;
     ASSERT (nu_lcons s < NUPD_CAP);
     x \<leftarrow> nupd_get s (NP_left (nu_lcons s));
     Some (x, s\<lparr>nu_lcons := nu_lcons s + 1\<rparr>) }"

definition nupd_done_observing_left :: "node_updates \<Rightarrow> bool" where
  "nupd_done_observing_left s \<longleftrightarrow> nu_lobs s \<ge> nu_llen s"

definition nupd_done_observing_right :: "node_updates \<Rightarrow> bool" where
  "nupd_done_observing_right s \<longleftrightarrow> nu_robs s \<ge> nu_rlen s"

definition nupd_done_consuming_left :: "node_updates \<Rightarrow> bool" where
  "nupd_done_consuming_left s \<longleftrightarrow> nu_lcons s = nu_lobs s"

definition nupd_done_consuming_right :: "node_updates \<Rightarrow> bool" where
  "nupd_done_consuming_right s \<longleftrightarrow> nu_rcons s = nu_robs s"

definition nupd_done_left :: "node_updates \<Rightarrow> bool" where
  "nupd_done_left s \<longleftrightarrow> nupd_done_observing_left s \<and> nupd_done_consuming_left s"

definition nupd_done_right :: "node_updates \<Rightarrow> bool" where
  "nupd_done_right s \<longleftrightarrow> nupd_done_observing_right s \<and> nupd_done_consuming_right s"

section \<open>Writing into a node\<close>

text \<open>A node that is being filled has all its \<open>IN_MAX_KEYS\<close> slots. Each turn of a loop consumes one
  entry, so the entries not yet consumed count the turns; an entry of size zero is a page that
  is gone.\<close>

primrec fill_left :: "nat \<Rightarrow> node_updates \<Rightarrow> page \<Rightarrow> nat \<Rightarrow> nat \<Rightarrow> (nat \<times> node_updates \<times> page) option" where
  "fill_left 0 n x i ret = Some (ret, n, x)"
| "fill_left (Suc k) n x i ret =
     (if i > 0 then do {
        (e, n) \<leftarrow> nupd_consume_left n;
        if ip_key e > 0 then do {
          x \<leftarrow> in_set_key_leaf x (i - 1) (ip_key e) (ip_pg e);
          fill_left k n x (i - 1) (ret + 1) }
        else fill_left k n x i ret }
      else Some (ret, n, x))"

primrec fill_right :: "nat \<Rightarrow> node_updates \<Rightarrow> page \<Rightarrow> nat \<Rightarrow> nat \<Rightarrow> (nat \<times> node_updates \<times> page) option" where
  "fill_right 0 n x i ret = Some (ret, n, x)"
| "fill_right (Suc k) n x i ret =
     (if i < IN_MAX_KEYS then do {
        (e, n) \<leftarrow> nupd_consume_right n;
        if ip_key e > 0 then do {
          x \<leftarrow> in_set_key_leaf x i (ip_key e) (ip_pg e);
          fill_right k n x (i + 1) (ret + 1) }
        else fill_right k n x i ret }
      else Some (ret, n, x))"

definition nupd_filling :: "node_updates \<Rightarrow> page \<Rightarrow> unit option" where
  \<comment> \<open>the assertions the four routines begin with\<close>
  "nupd_filling n x = do {
     nupd_assert n;
     ASSERT (page_get_type x = pt_code PG_INNER_NODE);
     ASSERT (in_get_len x = IN_MAX_KEYS) }"

definition nupd_append_maximally_left :: "node_updates \<Rightarrow> page \<Rightarrow> p_size \<Rightarrow> (p_size \<times> node_updates \<times> page) option" where
  "nupd_append_maximally_left n x lidx = do {
     nupd_filling n x;
     fill_left (nu_lobs n - nu_lcons n) n x lidx 0 }"

definition nupd_append_maximally_right :: "node_updates \<Rightarrow> page \<Rightarrow> p_size \<Rightarrow> (p_size \<times> node_updates \<times> page) option" where
  "nupd_append_maximally_right n x lidx = do {
     nupd_filling n x;
     fill_right (nu_robs n - nu_rcons n) n x lidx 0 }"

definition nupd_append_maximally_left_then_right :: "node_updates \<Rightarrow> page \<Rightarrow> (p_size \<times> node_updates \<times> page) option" where
  "nupd_append_maximally_left_then_right n x = do {
     nupd_filling n x;
     (len, x) \<leftarrow> (if ip_key (nu_pivot n) > 0
        then do {
          x \<leftarrow> in_set_key_leaf x (IN_MAX_KEYS - 1) (ip_key (nu_pivot n)) (ip_pg (nu_pivot n));
          Some (1, x) }
        else Some (0, x));
     (l, n, x) \<leftarrow> nupd_append_maximally_left n x (IN_MAX_KEYS - len);
     let len = len + l;
     ASSERT (len \<le> IN_MAX_KEYS);
     if len < IN_MAX_KEYS then do {
       x \<leftarrow> in_cut_left x (IN_MAX_KEYS - len);
       (r, n, x) \<leftarrow> nupd_append_maximally_right n x len;
       Some (len + r, n, x) }
     else Some (len, n, x) }"

definition nupd_append_maximally_right_then_left :: "node_updates \<Rightarrow> page \<Rightarrow> (p_size \<times> node_updates \<times> page) option" where
  "nupd_append_maximally_right_then_left n x = do {
     nupd_filling n x;
     (len, x) \<leftarrow> (if ip_key (nu_pivot n) > 0
        then do {
          x \<leftarrow> in_set_key_leaf x 0 (ip_key (nu_pivot n)) (ip_pg (nu_pivot n));
          Some (1, x) }
        else Some (0, x));
     (r, n, x) \<leftarrow> nupd_append_maximally_right n x len;
     let len = len + r;
     ASSERT (len \<le> IN_MAX_KEYS);
     if len < IN_MAX_KEYS then do {
       x \<leftarrow> in_push_left_permissive x len;
       (l, n, x) \<leftarrow> nupd_append_maximally_left n x (IN_MAX_KEYS - len);
       Some (len + l, n, x) }
     else Some (len, n, x) }"

section \<open>What filling a node writes\<close>

definition live :: "in_pair list \<Rightarrow> (pgno \<times> b_size) list" where
  \<comment> \<open>the entries of pages that are not gone\<close>
  "live es = map (\<lambda>e. (ip_pg e, ip_key e)) (filter (\<lambda>e. ip_key e > 0) es)"

lemma live_simps [simp]:
  "live [] = []"
  "live (e # es) = (if ip_key e > 0 then (ip_pg e, ip_key e) # live es else live es)"
  by (simp_all add: live_def)

definition nupd_ok :: "node_updates \<Rightarrow> bool" where
  "nupd_ok n \<longleftrightarrow> nupd_assert n = Some () \<and> length (nu_right n) = NUPD_CAP \<and> length (nu_left n) = NUPD_CAP"

lemma nupd_okD:
  assumes "nupd_ok n"
  shows "nupd_assert n = Some ()" "length (nu_right n) = NUPD_CAP" "length (nu_left n) = NUPD_CAP"
    "nu_rcons n \<le> nu_robs n" "nu_robs n \<le> NUPD_CAP" "nu_lcons n \<le> nu_lobs n" "nu_lobs n \<le> NUPD_CAP"
  using assms by (auto simp: nupd_ok_def nupd_assert_def ASSERT_def split: if_splits)

lemma nupd_ok_consumed:
  "nupd_ok n \<Longrightarrow> c \<le> nu_robs n \<Longrightarrow> nupd_ok (n\<lparr>nu_rcons := c\<rparr>)"
  "nupd_ok n \<Longrightarrow> d \<le> nu_lobs n \<Longrightarrow> nupd_ok (n\<lparr>nu_lcons := d\<rparr>)"
  by (auto simp: nupd_ok_def nupd_assert_def ASSERT_def split: if_splits)

lemma consume_right_eq:
  assumes "nupd_ok n" and "nu_rcons n < nu_robs n"
  shows "nupd_consume_right n = Some (nu_right n ! nu_rcons n, n\<lparr>nu_rcons := nu_rcons n + 1\<rparr>)"
  using nupd_okD [OF assms(1)] assms(2) by (simp add: nupd_consume_right_def nupd_get_def)

lemma consume_left_eq:
  assumes "nupd_ok n" and "nu_lcons n < nu_lobs n"
  shows "nupd_consume_left n = Some (nu_left n ! nu_lcons n, n\<lparr>nu_lcons := nu_lcons n + 1\<rparr>)"
  using nupd_okD [OF assms(1)] assms(2) by (simp add: nupd_consume_left_def nupd_get_def)

definition full_node :: "page \<Rightarrow> bool" where
  "full_node x \<longleftrightarrow> wf_in x \<and> in_get_len x = IN_MAX_KEYS"

lemma full_node_put:
  "full_node x \<Longrightarrow> i < IN_MAX_KEYS \<Longrightarrow> full_node (in_put x i e) \<and> same_links x (in_put x i e)"
  by (simp add: full_node_def wf_inD(1))

lemma full_node_set:
  "full_node x \<Longrightarrow> i < IN_MAX_KEYS \<Longrightarrow> in_set_key_leaf x i k l = Some (in_put x i (l, k))"
  by (simp add: full_node_def in_set_key_leaf_eq)

lemma slice_step: "c < d \<Longrightarrow> d \<le> length xs \<Longrightarrow> slice xs c (d - c) = xs ! c # slice xs (Suc c) (d - Suc c)"
  by (simp add: slice_def Cons_nth_drop_Suc [symmetric] Suc_diff_Suc [symmetric] del: Suc_diff_Suc)

definition filled :: "page \<Rightarrow> page \<Rightarrow> nat \<Rightarrow> (pgno \<times> b_size) list \<Rightarrow> bool" where
  \<comment> \<open>the items are in the slots from the index on, and nothing else changed\<close>
  "filled x x' i es \<longleftrightarrow> full_node x' \<and> same_links x x' \<and>
     (\<forall>j < IN_MAX_KEYS. in_slot x' j = (if i \<le> j \<and> j < i + length es then es ! (j - i) else in_slot x j))"

lemma filled_Nil [simp]: "full_node x \<Longrightarrow> filled x x i []"
  by (auto simp: filled_def)

lemma filled_Cons:
  assumes "full_node x" and "i < IN_MAX_KEYS" and "filled (in_put x i e) x' (i + 1) es"
  shows "filled x x' i (e # es)"
proof -
  have D: "wf_page x" using assms(1) by (simp add: full_node_def wf_inD)
  have "in_slot x' j = (if i \<le> j \<and> j < i + length (e # es) then (e # es) ! (j - i) else in_slot x j)"
    if j: "j < IN_MAX_KEYS" for j
  proof (cases "i + 1 \<le> j \<and> j < i + 1 + length es")
    case True
    then have "j - i = Suc (j - (i + 1))" by arith
    with True assms(3) j show ?thesis by (simp add: filled_def)
  next
    case False
    then show ?thesis using assms(2,3) j D by (cases "j = i") (auto simp: filled_def)
  qed
  with assms same_links_trans [OF conjunct2 [OF full_node_put [OF assms(1,2), of e]]]
  show ?thesis by (simp add: filled_def)
qed

lemma filled_snoc:
  assumes "full_node x" and "i < IN_MAX_KEYS" and "filled (in_put x i e) x' j es" and "i = j + length es"
  shows "filled x x' j (es @ [e])"
proof -
  have D: "wf_page x" using assms(1) by (simp add: full_node_def wf_inD)
  have "in_slot x' m = (if j \<le> m \<and> m < j + length (es @ [e]) then (es @ [e]) ! (m - j) else in_slot x m)"
    if m: "m < IN_MAX_KEYS" for m
  proof (cases "j \<le> m \<and> m < j + length es")
    case True
    then have "m - j < length es" by arith
    with True assms(3) m show ?thesis by (simp add: filled_def nth_append)
  next
    case False
    then show ?thesis using assms(2,3,4) m D by (cases "m = i") (auto simp: filled_def)
  qed
  with assms same_links_trans [OF conjunct2 [OF full_node_put [OF assms(1,2), of e]]]
  show ?thesis by (simp add: filled_def)
qed

lemma fill_right_correct:
  assumes "nupd_ok n" and "full_node x" and "i \<le> IN_MAX_KEYS" and "k = nu_robs n - nu_rcons n"
  shows "\<exists>c x' es. fill_right k n x i ret = Some (ret + length es, n\<lparr>nu_rcons := c\<rparr>, x') \<and>
    nu_rcons n \<le> c \<and> c \<le> nu_robs n \<and> es = live (slice (nu_right n) (nu_rcons n) (c - nu_rcons n)) \<and>
    filled x x' i es \<and> i + length es \<le> IN_MAX_KEYS \<and> (i + length es = IN_MAX_KEYS \<or> c = nu_robs n)"
  using assms
proof (induction k arbitrary: n x i ret)
  case 0
  then show ?case
    using nupd_okD [OF 0(1)] by (intro exI [of _ "nu_rcons n"] exI [of _ x]) (simp add: slice_def)
next
  case (Suc k)
  note D = nupd_okD [OF Suc.prems(1)]
  show ?case
  proof (cases "i < IN_MAX_KEYS")
    case False
    then show ?thesis
      using Suc.prems(2,3) D by (intro exI [of _ "nu_rcons n"] exI [of _ x]) (simp add: slice_def)
  next
    case True
    let ?n = "n\<lparr>nu_rcons := nu_rcons n + 1\<rparr>" and ?e = "nu_right n ! nu_rcons n"
    have lt: "nu_rcons n < nu_robs n" using Suc.prems(4) by simp
    have n: "nupd_ok ?n" "k = nu_robs ?n - nu_rcons ?n"
      using nupd_ok_consumed(1) [OF Suc.prems(1)] lt Suc.prems(4) by simp_all
    have sl: "slice (nu_right n) (nu_rcons n) (c - nu_rcons n) =
        ?e # slice (nu_right n) (Suc (nu_rcons n)) (c - Suc (nu_rcons n))"
      if "Suc (nu_rcons n) \<le> c" "c \<le> nu_robs n" for c using that D by (intro slice_step) simp_all
    show ?thesis
    proof (cases "ip_key ?e > 0")
      case live: True
      let ?x = "in_put x i (ip_pg ?e, ip_key ?e)"
      have x: "full_node ?x" using full_node_put [OF Suc.prems(2) True] by blast
      obtain c x' es where r: "fill_right k ?n ?x (i + 1) (ret + 1) =
            Some (ret + 1 + length es, ?n\<lparr>nu_rcons := c\<rparr>, x')" "nu_rcons n + 1 \<le> c" "c \<le> nu_robs n"
          "es = live (slice (nu_right n) (nu_rcons n + 1) (c - (nu_rcons n + 1)))"
          "filled ?x x' (i + 1) es" "i + 1 + length es \<le> IN_MAX_KEYS"
          "i + 1 + length es = IN_MAX_KEYS \<or> c = nu_robs n"
        using Suc.IH [OF n(1) x _ n(2), of "i + 1" "ret + 1"] True by auto
      have "fill_right (Suc k) n x i ret = fill_right k ?n ?x (i + 1) (ret + 1)"
        using True live consume_right_eq [OF Suc.prems(1) lt] full_node_set [OF Suc.prems(2) True] by simp
      then show ?thesis
        using r live sl [of c] filled_Cons [OF Suc.prems(2) True r(5)]
        by (intro exI [of _ c] exI [of _ x'] exI [of _ "(ip_pg ?e, ip_key ?e) # es"]) simp
    next
      case gone: False
      obtain c x' es where r: "fill_right k ?n x i ret = Some (ret + length es, ?n\<lparr>nu_rcons := c\<rparr>, x')"
          "nu_rcons n + 1 \<le> c" "c \<le> nu_robs n"
          "es = live (slice (nu_right n) (nu_rcons n + 1) (c - (nu_rcons n + 1)))"
          "filled x x' i es" "i + length es \<le> IN_MAX_KEYS" "i + length es = IN_MAX_KEYS \<or> c = nu_robs n"
        using Suc.IH [OF n(1) Suc.prems(2,3) n(2), of ret] by auto
      have "fill_right (Suc k) n x i ret = fill_right k ?n x i ret"
        using True gone consume_right_eq [OF Suc.prems(1) lt] by simp
      then show ?thesis
        using r gone sl [of c] by (intro exI [of _ c] exI [of _ x'] exI [of _ es]) simp
    qed
  qed
qed

lemma fill_left_correct:
  assumes "nupd_ok n" and "full_node x" and "i \<le> IN_MAX_KEYS" and "k = nu_lobs n - nu_lcons n"
  shows "\<exists>d x' es. fill_left k n x i ret = Some (ret + length es, n\<lparr>nu_lcons := d\<rparr>, x') \<and>
    nu_lcons n \<le> d \<and> d \<le> nu_lobs n \<and> es = rev (live (slice (nu_left n) (nu_lcons n) (d - nu_lcons n))) \<and>
    filled x x' (i - length es) es \<and> length es \<le> i \<and> (length es = i \<or> d = nu_lobs n)"
  using assms
proof (induction k arbitrary: n x i ret)
  case 0
  then show ?case
    using nupd_okD [OF 0(1)] by (intro exI [of _ "nu_lcons n"] exI [of _ x]) (simp add: slice_def)
next
  case (Suc k)
  note D = nupd_okD [OF Suc.prems(1)]
  show ?case
  proof (cases "i > 0")
    case False
    then show ?thesis
      using Suc.prems(2,3) D by (intro exI [of _ "nu_lcons n"] exI [of _ x]) (simp add: slice_def)
  next
    case True
    let ?n = "n\<lparr>nu_lcons := nu_lcons n + 1\<rparr>" and ?e = "nu_left n ! nu_lcons n"
    have lt: "nu_lcons n < nu_lobs n" using Suc.prems(4) by simp
    have n: "nupd_ok ?n" "k = nu_lobs ?n - nu_lcons ?n"
      using nupd_ok_consumed(2) [OF Suc.prems(1)] lt Suc.prems(4) by simp_all
    have sl: "slice (nu_left n) (nu_lcons n) (d - nu_lcons n) =
        ?e # slice (nu_left n) (Suc (nu_lcons n)) (d - Suc (nu_lcons n))"
      if "Suc (nu_lcons n) \<le> d" "d \<le> nu_lobs n" for d using that D by (intro slice_step) simp_all
    show ?thesis
    proof (cases "ip_key ?e > 0")
      case live: True
      let ?x = "in_put x (i - 1) (ip_pg ?e, ip_key ?e)"
      have i: "i - 1 < IN_MAX_KEYS" using True Suc.prems(3) by simp
      have x: "full_node ?x" using full_node_put [OF Suc.prems(2) i] by blast
      obtain d x' es where r: "fill_left k ?n ?x (i - 1) (ret + 1) =
            Some (ret + 1 + length es, ?n\<lparr>nu_lcons := d\<rparr>, x')" "nu_lcons n + 1 \<le> d" "d \<le> nu_lobs n"
          "es = rev (live (slice (nu_left n) (nu_lcons n + 1) (d - (nu_lcons n + 1))))"
          "filled ?x x' (i - 1 - length es) es" "length es \<le> i - 1"
          "length es = i - 1 \<or> d = nu_lobs n"
        using Suc.IH [OF n(1) x _ n(2), of "i - 1" "ret + 1"] i by auto
      have "fill_left (Suc k) n x i ret = fill_left k ?n ?x (i - 1) (ret + 1)"
        using True live consume_left_eq [OF Suc.prems(1) lt] full_node_set [OF Suc.prems(2) i] by simp
      moreover have "filled x x' (i - Suc (length es)) (es @ [(ip_pg ?e, ip_key ?e)])"
        using filled_snoc [OF Suc.prems(2) i r(5)] r(6) True by simp
      ultimately show ?thesis
        using r live sl [of d] True
        by (intro exI [of _ d] exI [of _ x'] exI [of _ "es @ [(ip_pg ?e, ip_key ?e)]"]) auto
    next
      case gone: False
      obtain d x' es where r: "fill_left k ?n x i ret = Some (ret + length es, ?n\<lparr>nu_lcons := d\<rparr>, x')"
          "nu_lcons n + 1 \<le> d" "d \<le> nu_lobs n"
          "es = rev (live (slice (nu_left n) (nu_lcons n + 1) (d - (nu_lcons n + 1))))"
          "filled x x' (i - length es) es" "length es \<le> i" "length es = i \<or> d = nu_lobs n"
        using Suc.IH [OF n(1) Suc.prems(2,3) n(2), of ret] by auto
      have "fill_left (Suc k) n x i ret = fill_left k ?n x i ret"
        using True gone consume_left_eq [OF Suc.prems(1) lt] by simp
      then show ?thesis
        using r gone sl [of d] by (intro exI [of _ d] exI [of _ x'] exI [of _ es]) simp
    qed
  qed
qed

lemma push_left_loop_correct:
  assumes "full_node x" and "i \<le> k" and "k \<le> IN_MAX_KEYS"
  shows "\<exists>x'. in_push_left_loop i x k = Some x' \<and> full_node x' \<and> same_links x x' \<and>
    (\<forall>j < IN_MAX_KEYS. in_slot x' j = (if k - i \<le> j \<and> j < k then in_slot x (j - (k - i)) else in_slot x j))"
  using assms
proof (induction i arbitrary: x k)
  case 0
  then show ?case by auto
next
  case (Suc i)
  let ?x = "in_put x (k - 1) (in_slot x i)"
  have k: "k - 1 < IN_MAX_KEYS" "i < IN_MAX_KEYS" "sub32 k 1 = k - 1"
    using Suc.prems by (simp_all add: wrap32)
  have x: "full_node ?x" "same_links x ?x" using full_node_put [OF Suc.prems(1) k(1)] by blast+
  have step: "in_push_left_loop (Suc i) x k = in_push_left_loop i ?x (k - 1)"
    using Suc.prems(1) k by (simp add: in_get_pair_eq full_node_def in_set_key_leaf_eq in_slot_def)
  obtain x' where r: "in_push_left_loop i ?x (k - 1) = Some x'" "full_node x'" "same_links ?x x'"
      "\<forall>j < IN_MAX_KEYS. in_slot x' j =
        (if k - 1 - i \<le> j \<and> j < k - 1 then in_slot ?x (j - (k - 1 - i)) else in_slot ?x j)"
    using Suc.IH [OF x(1), of "k - 1"] Suc.prems(2,3) by (force simp del: One_nat_def)
  have D: "wf_page x" using Suc.prems(1) by (simp add: full_node_def wf_inD)
  have "in_slot x' j = (if k - Suc i \<le> j \<and> j < k then in_slot x (j - (k - Suc i)) else in_slot x j)"
    if j: "j < IN_MAX_KEYS" for j
  proof (cases "k - Suc i \<le> j \<and> j < k - 1")
    case True
    then have "j - (k - Suc i) < IN_MAX_KEYS" "j - (k - Suc i) \<noteq> k - 1" using j Suc.prems by arith+
    moreover have "j < k" using True by arith
    ultimately show ?thesis using True r(4) j D k by simp
  next
    case False
    then show ?thesis using r(4) j D k Suc.prems by (cases "j = k - 1") auto
  qed
  with step r same_links_trans [OF x(2) r(3)] show ?case by simp
qed


lemma push_left_permissive_correct:
  assumes x: "full_node x" and n: "n \<le> IN_MAX_KEYS"
  shows "\<exists>x'. in_push_left_permissive x n = Some x' \<and> full_node x' \<and> same_links x x' \<and>
    (\<forall>j < n. in_slot x' (IN_MAX_KEYS - n + j) = in_slot x j)"
proof -
  obtain x' where "in_push_left_loop n x IN_MAX_KEYS = Some x'" "full_node x'" "same_links x x'"
      "\<forall>j < IN_MAX_KEYS. in_slot x' j =
        (if IN_MAX_KEYS - n \<le> j \<and> j < IN_MAX_KEYS then in_slot x (j - (IN_MAX_KEYS - n)) else in_slot x j)"
    using push_left_loop_correct [OF x n order.refl] by blast
  with x n show ?thesis by (auto simp: in_push_left_permissive_def full_node_def)
qed

lemma filled_front:
  "filled x x' i es \<Longrightarrow> j < i \<Longrightarrow> i \<le> IN_MAX_KEYS \<Longrightarrow> in_slot x' j = in_slot x j"
  "filled x x' i es \<Longrightarrow> i + length es \<le> j \<Longrightarrow> j < IN_MAX_KEYS \<Longrightarrow> in_slot x' j = in_slot x j"
  by (simp_all add: filled_def)

lemma filled_at:
  "filled x x' i es \<Longrightarrow> j < length es \<Longrightarrow> i + length es \<le> IN_MAX_KEYS \<Longrightarrow> in_slot x' (i + j) = es ! j"
  by (simp add: filled_def)

lemma filled_full: "filled x x' i es \<Longrightarrow> full_node x' \<and> same_links x x'"
  by (simp add: filled_def)

lemma last_pairsI:
  assumes "full_node x" and "length es \<le> IN_MAX_KEYS"
    and "\<And>j. j < length es \<Longrightarrow> in_slot x (IN_MAX_KEYS - length es + j) = es ! j"
  shows "drop (IN_MAX_KEYS - length es) (in_pairs x) = es"
proof (rule nth_equalityI)
  show "length (drop (IN_MAX_KEYS - length es) (in_pairs x)) = length es"
    using assms(1,2) by (simp add: full_node_def)
  show "drop (IN_MAX_KEYS - length es) (in_pairs x) ! j = es ! j"
    if "j < length (drop (IN_MAX_KEYS - length es) (in_pairs x))" for j
  proof -
    have "j < length es" using that assms(1,2) by (simp add: full_node_def)
    with assms show ?thesis by (simp add: full_node_def in_pairs_nth)
  qed
qed

definition pivot_live :: "node_updates \<Rightarrow> (pgno \<times> b_size) list" where
  "pivot_live n = live [nu_pivot n]"

lemma pivot_live_length: "length (pivot_live n) \<le> IN_MAX_KEYS"
  by (simp add: pivot_live_def)

lemma right_then_left_correct:
  assumes n: "nupd_ok n" and x: "full_node x" and ty: "page_get_type x = pt_code PG_INNER_NODE"
  shows "\<exists>c d x' L R. nupd_append_maximally_right_then_left n x =
      Some (length (L @ pivot_live n @ R), n\<lparr>nu_rcons := c, nu_lcons := d\<rparr>, x') \<and>
    R = live (slice (nu_right n) (nu_rcons n) (c - nu_rcons n)) \<and>
    L = rev (live (slice (nu_left n) (nu_lcons n) (d - nu_lcons n))) \<and>
    nu_rcons n \<le> c \<and> c \<le> nu_robs n \<and> nu_lcons n \<le> d \<and> d \<le> nu_lobs n \<and>
    full_node x' \<and> same_links x x' \<and> length (L @ pivot_live n @ R) \<le> IN_MAX_KEYS \<and>
    drop (IN_MAX_KEYS - length (L @ pivot_live n @ R)) (in_pairs x') = L @ pivot_live n @ R \<and>
    (length (L @ pivot_live n @ R) = IN_MAX_KEYS \<or> c = nu_robs n \<and> d = nu_lobs n)"
proof -
  let ?P = "pivot_live n"
  have filling: "nupd_filling n y = Some ()" "nupd_filling (n\<lparr>nu_rcons := c\<rparr>) y = Some ()"
    if "full_node y" "same_links x y" "c \<le> nu_robs n" for y c
    using that nupd_okD(1) [OF n] nupd_okD(1) [OF nupd_ok_consumed(1) [OF n]] page_type_links [of x y] ty
    by (simp_all add: nupd_filling_def full_node_def del: pt_code.simps)
  obtain y where y: "filled x y 0 ?P" "full_node y" "same_links x y"
    and piv: "(if ip_key (nu_pivot n) > 0
        then do { x \<leftarrow> in_set_key_leaf x 0 (ip_key (nu_pivot n)) (ip_pg (nu_pivot n)); Some (1, x) }
        else Some (0, x)) = Some (length ?P, y)"
  proof (cases "ip_key (nu_pivot n) > 0")
    case True
    let ?y = "in_put x 0 (ip_pg (nu_pivot n), ip_key (nu_pivot n))"
    have y: "full_node ?y" "same_links x ?y" using full_node_put [OF x, of 0] by simp_all
    then have "filled x ?y 0 ?P" using filled_Cons [OF x, of 0 _ ?y "[]"] True by (simp add: pivot_live_def)
    with that y True show ?thesis using full_node_set [OF x, of 0] by (simp add: pivot_live_def)
  next
    case False
    then have P: "?P = []" by (simp add: pivot_live_def)
    show ?thesis
    proof (rule that)
      show "filled x x 0 ?P" unfolding P by (rule filled_Nil [OF x])
    qed (use x False in \<open>simp_all add: pivot_live_def\<close>)
  qed
  obtain c z R where R: "fill_right (nu_robs n - nu_rcons n) n y (length ?P) 0 = Some (length R, n\<lparr>nu_rcons := c\<rparr>, z)"
      "nu_rcons n \<le> c" "c \<le> nu_robs n" "R = live (slice (nu_right n) (nu_rcons n) (c - nu_rcons n))"
      "filled y z (length ?P) R" "length ?P + length R \<le> IN_MAX_KEYS"
      "length ?P + length R = IN_MAX_KEYS \<or> c = nu_robs n"
    using fill_right_correct [OF n y(2) pivot_live_length refl, of n 0] by auto
  have z: "full_node z" "same_links x z"
    using filled_full [OF R(5)] same_links_trans [OF y(3)] by blast+
  have PR: "in_slot z j = (?P @ R) ! j" if j: "j < length (?P @ R)" for j
  proof (cases "j < length ?P")
    case True
    have "in_slot z j = in_slot y j" by (rule filled_front(1) [OF R(5) True]) (use R(6) in simp)
    also have "\<dots> = ?P ! j" using filled_at [OF y(1) True] R(6) by simp
    finally show ?thesis using True by (simp add: nth_append)
  next
    case False
    with filled_at [OF R(5), of "j - length ?P"] R(6) j show ?thesis by (simp add: nth_append)
  qed
  have right: "nupd_append_maximally_right n y (length ?P) = Some (length R, n\<lparr>nu_rcons := c\<rparr>, z)"
    using filling(1) [OF y(2,3) R(3)] R(1) by (simp add: nupd_append_maximally_right_def)
  show ?thesis
  proof (cases "length (?P @ R) = IN_MAX_KEYS")
    case True
    have "nupd_append_maximally_right_then_left n x = Some (length (?P @ R), n\<lparr>nu_rcons := c\<rparr>, z)"
      using filling(1) [OF x same_links_refl order.refl] piv right True
      by (simp add: nupd_append_maximally_right_then_left_def)
    moreover have "drop (IN_MAX_KEYS - length (?P @ R)) (in_pairs z) = ?P @ R"
      by (rule last_pairsI [OF z(1)]) (use PR R(6) True in simp_all)
    moreover have "n\<lparr>nu_rcons := c, nu_lcons := nu_lcons n\<rparr> = n\<lparr>nu_rcons := c\<rparr>" by simp
    moreover have "[] = rev (live (slice (nu_left n) (nu_lcons n) (nu_lcons n - nu_lcons n)))"
      by (simp add: slice_def)
    moreover have "length (?P @ R) \<le> IN_MAX_KEYS" using True by simp
    ultimately show ?thesis
      using R(2-4) z True nupd_okD(6) [OF n]
      by (rule_tac exI [of _ c], rule_tac exI [of _ "nu_lcons n"], rule_tac exI [of _ z],
          rule_tac exI [of _ "[]"], rule_tac exI [of _ R])
        (simp only: append_Nil, intro conjI; (assumption | rule order.refl disjI1 refl)+)
  next
    case False
    let ?m = "length (?P @ R)" and ?n = "n\<lparr>nu_rcons := c\<rparr>"
    have m: "?m < IN_MAX_KEYS" and c: "c = nu_robs n" using False R(6,7) by simp_all
    obtain u where u: "in_push_left_permissive z ?m = Some u" "full_node u" "same_links z u"
        "\<And>j. j < ?m \<Longrightarrow> in_slot u (IN_MAX_KEYS - ?m + j) = in_slot z j"
      using push_left_permissive_correct [OF z(1) less_imp_le [OF m]] by blast
    have xu: "same_links x u" by (rule same_links_trans [OF z(2) u(3)])
    obtain d x' L where L: "fill_left (nu_lobs n - nu_lcons n) ?n u (IN_MAX_KEYS - ?m) 0 =
          Some (length L, ?n\<lparr>nu_lcons := d\<rparr>, x')" "nu_lcons n \<le> d" "d \<le> nu_lobs n"
        "L = rev (live (slice (nu_left n) (nu_lcons n) (d - nu_lcons n)))"
        "filled u x' (IN_MAX_KEYS - ?m - length L) L" "length L \<le> IN_MAX_KEYS - ?m"
        "length L = IN_MAX_KEYS - ?m \<or> d = nu_lobs n"
      using fill_left_correct [OF nupd_ok_consumed(1) [OF n R(3)] u(2) diff_le_self refl, of ?m 0] by auto
    have x': "full_node x'" "same_links x x'"
      using filled_full [OF L(5)] same_links_trans [OF xu] by blast+
    have left: "nupd_append_maximally_left ?n u (IN_MAX_KEYS - ?m) = Some (length L, ?n\<lparr>nu_lcons := d\<rparr>, x')"
      using filling(2) [OF u(2) xu R(3)] L(1) by (simp add: nupd_append_maximally_left_def)
    have "nupd_append_maximally_right_then_left n x = Some (?m + length L, ?n\<lparr>nu_lcons := d\<rparr>, x')"
      using filling(1) [OF x same_links_refl order.refl] piv right left u(1) m
      by (simp add: nupd_append_maximally_right_then_left_def)
    moreover have "drop (IN_MAX_KEYS - length (L @ ?P @ R)) (in_pairs x') = L @ ?P @ R"
    proof (rule last_pairsI [OF x'(1)])
      show le: "length (L @ ?P @ R) \<le> IN_MAX_KEYS" using L(6) m by simp
      fix j assume j: "j < length (L @ ?P @ R)"
      have base: "IN_MAX_KEYS - length (L @ ?P @ R) = IN_MAX_KEYS - ?m - length L" by simp
      show "in_slot x' (IN_MAX_KEYS - length (L @ ?P @ R) + j) = (L @ ?P @ R) ! j"
      proof (cases "j < length L")
        case True
        then show ?thesis unfolding base using filled_at [OF L(5) True] L(6) by (simp add: nth_append)
      next
        case F: False
        define i where "i = j - length L"
        have i: "i < ?m" "IN_MAX_KEYS - length (L @ ?P @ R) + j = IN_MAX_KEYS - ?m + i"
          using j F L(6) m by (simp_all add: i_def)
        have "in_slot x' (IN_MAX_KEYS - ?m + i) = in_slot u (IN_MAX_KEYS - ?m + i)"
          by (rule filled_front(2) [OF L(5)]) (use L(6) i(1) m in simp_all)
        also have "\<dots> = (?P @ R) ! i" using u(4) [OF i(1)] PR [OF i(1)] by simp
        finally show ?thesis using i F by (simp add: nth_append i_def)
      qed
    qed
    moreover have "?m + length L = length (L @ ?P @ R)" by simp
    moreover have "length (L @ ?P @ R) \<le> IN_MAX_KEYS" using L(6) m by simp
    moreover have "length (L @ ?P @ R) = IN_MAX_KEYS \<or> c = nu_robs n \<and> d = nu_lobs n"
      using L(6,7) m c by auto
    ultimately show ?thesis
      using R(2-4) L(2-4) x'
      by (rule_tac exI [of _ c], rule_tac exI [of _ d], rule_tac exI [of _ x'], rule_tac exI [of _ L],
          rule_tac exI [of _ R])
        (intro conjI; (assumption | simp only:))
  qed
qed

section \<open>Properties\<close>

text \<open>C30: What a node is filled with. Filling a full-width inner node from the pending updates
  succeeds and leaves, in its last slots, first the entries taken from the left side (in the order
  of the tree, the nearest last), then the pivot, then the entries taken from the right side,
  without the pages that are gone (size zero); it returns how many slots that is. Entries are
  taken from the fronts of the two sides without gaps, and the node is filled to its last slot
  unless both sides are used up. The node's header and links stay.\<close>

theorem filling_keeps_tree_order:
  assumes "nupd_ok n" and "full_node x" and "page_get_type x = pt_code PG_INNER_NODE"
  shows "\<exists>c d x' L R. nupd_append_maximally_right_then_left n x =
      Some (length (L @ pivot_live n @ R), n\<lparr>nu_rcons := c, nu_lcons := d\<rparr>, x') \<and>
    R = live (slice (nu_right n) (nu_rcons n) (c - nu_rcons n)) \<and>
    L = rev (live (slice (nu_left n) (nu_lcons n) (d - nu_lcons n))) \<and>
    nu_rcons n \<le> c \<and> c \<le> nu_robs n \<and> nu_lcons n \<le> d \<and> d \<le> nu_lobs n \<and>
    full_node x' \<and> same_links x x' \<and> length (L @ pivot_live n @ R) \<le> IN_MAX_KEYS \<and>
    drop (IN_MAX_KEYS - length (L @ pivot_live n @ R)) (in_pairs x') = L @ pivot_live n @ R \<and>
    (length (L @ pivot_live n @ R) = IN_MAX_KEYS \<or> c = nu_robs n \<and> d = nu_lobs n)"
  by (rule right_then_left_correct [OF assms])

definition example_updates :: node_updates where
  "example_updates = \<lparr>nu_pivot = in_pair_from 5 10,
     nu_right = [in_pair_from 6 0, in_pair_from 7 3] @ replicate 823 (in_pair_from 0 0),
     nu_left = [in_pair_from 4 2] @ replicate 824 (in_pair_from 0 0),
     nu_prev = NP_null, nu_rlen = 2, nu_llen = 1, nu_robs = 2, nu_lobs = 1, nu_rcons = 0, nu_lcons = 0\<rparr>"

theorem filling_keeps_tree_order_witness:
  "\<exists>x n' x'. nupd_append_maximally_right_then_left example_updates x = Some (3, n', x') \<and>
     drop 122 (in_pairs x') = [(4, 2), (5, 10), (7, 3)]"
proof -
  obtain x where x: "wf_in x" "in_pairs x = replicate 125 (9, 9)" "page_get_type x = pt_code PG_INNER_NODE"
    using in_example [of "replicate 125 (9, 9)"] by auto
  have full: "full_node x"
    using x(1) length_in_pairs [of x] unfolding x(2) full_node_def by simp
  have ok: "nupd_ok example_updates"
    by (simp add: nupd_ok_def nupd_assert_def example_updates_def in_pair_is_empty_def)
  have pl: "pivot_live example_updates = [(5, 10)]" by (simp add: pivot_live_def example_updates_def)
  obtain c d x' L R where r: "nupd_append_maximally_right_then_left example_updates x =
        Some (length (L @ [(5, 10)] @ R), example_updates\<lparr>nu_rcons := c, nu_lcons := d\<rparr>, x')"
      "R = live (slice (nu_right example_updates) 0 c)" "L = rev (live (slice (nu_left example_updates) 0 d))"
      "c \<le> 2" "d \<le> 1" "drop (IN_MAX_KEYS - length (L @ [(5, 10)] @ R)) (in_pairs x') = L @ [(5, 10)] @ R"
      "length (L @ [(5, 10)] @ R) = IN_MAX_KEYS \<or> c = 2 \<and> d = 1"
    using filling_keeps_tree_order [OF ok full x(3)] unfolding pl by (auto simp: example_updates_def)
  have len: "length (live es) \<le> length es" for es by (simp add: live_def le_trans [OF length_filter_le])
  have "length (slice (nu_right example_updates) 0 c) \<le> 2" "length (slice (nu_left example_updates) 0 d) \<le> 1"
    using r(4,5) by (simp_all add: slice_def)
  with len [of "slice (nu_right example_updates) 0 c"] len [of "slice (nu_left example_updates) 0 d"]
  have "length (L @ [(5, 10)] @ R) \<le> 4" unfolding r(2,3) by simp
  with r(7) have "c = 2" "d = 1" by auto
  with r(2,3) have "R = [(7, 3)]" "L = [(4, 2)]" by (simp_all add: example_updates_def slice_def)
  with r(1,6) have "nupd_append_maximally_right_then_left example_updates x =
      Some (3, example_updates\<lparr>nu_rcons := c, nu_lcons := d\<rparr>, x')"
    "drop 122 (in_pairs x') = [(4, 2), (5, 10), (7, 3)]" by (simp_all add: numeral_3_eq_3)
  then show ?thesis by blast
qed

end
