(* ===== verification/Rptree_Cursor.thy ===== *)
theory Rptree_Cursor
  imports Pager_Routines Node_Updates
begin

text \<open>
The tree cursor (\<^verbatim>\<open>src/libs/cursors/nsrptcursor\<close>): its state, opening it
(\<^verbatim>\<open>rptree_cursor.c\<close>), seeking (\<^verbatim>\<open>_seek.c\<close>), reading (\<^verbatim>\<open>_read.c\<close>) and writing in place
(\<^verbatim>\<open>_write.c\<close>). The operations that change the tree are in \<open>Rptree_Update\<close>.

The state holds the pager the code points to, and the circular buffers of the caller. The union of
the states is a datatype: an access to a member that is not the current one is \<open>None\<close>. The two
areas for node updates are selected by \<open>nupd_sel\<close>, as the code points to one or the other. The
stack is a list with its top first; \<^verbatim>\<open>sp\<close> is its length. The latch and the logging are left out.
A \<^verbatim>\<open>b_size\<close> is a 64-bit word, a \<^verbatim>\<open>u32\<close> a natural number below \<open>2 ^ 32\<close>.
\<close>

section \<open>The state\<close>

datatype rpts =
    RPTS_UNSEEKED | RPTS_SEEKING | RPTS_SEEKED | RPTS_DL_INSERTING | RPTS_DL_REMOVING
  | RPTS_IN_REBALANCING | RPTS_DL_READING | RPTS_DL_WRITING | RPTS_PERMISSIVE

datatype dlread_state = DLREAD_ACTIVE | DLREAD_SKIPPING
datatype dlwrite_state = DLWRITE_ACTIVE | DLWRITE_SKIPPING
datatype dlremove_state = DLREMOVE_REMOVING | DLREMOVE_SKIPPING
datatype rptrb_state = RPTRB_RIGHT | RPTRB_LEFT
datatype nupd_sel = NUPD1 | NUPD2

record seek_v =
  sv_pg :: page_h
  sv_lidx :: p_size

record rptc_seek =
  sk_remaining :: b_size

record rptc_read =
  rd_dest :: "cbuffer option"
  rd_bsize :: nat
  rd_stride :: b_size
  rd_bnext :: nat
  rd_total :: b_size
  rd_max :: b_size
  rd_state :: dlread_state

record rptc_write =
  wr_src :: "cbuffer option"
  wr_bsize :: nat
  wr_stride :: b_size
  wr_bstrlen :: b_size
  wr_bnext :: nat
  wr_total :: b_size
  wr_state :: dlwrite_state

record rptc_insert =
  it_src :: cbuffer
  it_total :: b_size
  it_max :: b_size
  it_output :: nupd_sel
  it_last :: pgno
  it_temp :: "u8 list"
  it_tbw :: p_size
  it_tbl :: p_size

record rptc_remove =
  rm_dest :: "cbuffer option"
  rm_total :: b_size
  rm_bsize :: nat
  rm_stride :: b_size
  rm_max :: b_size
  rm_output :: nupd_sel
  rm_src :: page_h
  rm_sidx :: p_size
  rm_bnext :: b_size
  rm_state :: dlremove_state

record rptc_rebalance =
  rb_state :: rptrb_state
  rb_input :: nupd_sel
  rb_output :: nupd_sel
  rb_limit :: page_h

datatype rptc_member =
    MSeek rptc_seek | MRead rptc_read | MWrite rptc_write | MInsert rptc_insert
  | MRemove rptc_remove | MRebalance rptc_rebalance

record rptree_cursor =
  rc_state :: rpts
  rc_pager :: pager
  rc_meta_root :: pgno
  rc_root :: pgno
  rc_tx :: "ptr option"
  rc_lidx :: p_size
  rc_nupd1 :: node_updates
  rc_nupd2 :: node_updates
  rc_cur :: page_h
  rc_total_size :: b_size
  rc_stack :: "seek_v list"
  rc_member :: rptc_member

abbreviation RPTC_STACK :: nat where "RPTC_STACK \<equiv> 20"

definition seeker :: "rptree_cursor \<Rightarrow> rptc_seek option" where
  "seeker r = (case rc_member r of MSeek x \<Rightarrow> Some x | _ \<Rightarrow> None)"

definition reader :: "rptree_cursor \<Rightarrow> rptc_read option" where
  "reader r = (case rc_member r of MRead x \<Rightarrow> Some x | _ \<Rightarrow> None)"

definition writer :: "rptree_cursor \<Rightarrow> rptc_write option" where
  "writer r = (case rc_member r of MWrite x \<Rightarrow> Some x | _ \<Rightarrow> None)"

definition inserter :: "rptree_cursor \<Rightarrow> rptc_insert option" where
  "inserter r = (case rc_member r of MInsert x \<Rightarrow> Some x | _ \<Rightarrow> None)"

definition remover :: "rptree_cursor \<Rightarrow> rptc_remove option" where
  "remover r = (case rc_member r of MRemove x \<Rightarrow> Some x | _ \<Rightarrow> None)"

definition rebalancer :: "rptree_cursor \<Rightarrow> rptc_rebalance option" where
  "rebalancer r = (case rc_member r of MRebalance x \<Rightarrow> Some x | _ \<Rightarrow> None)"

definition nupd_of :: "rptree_cursor \<Rightarrow> nupd_sel \<Rightarrow> node_updates" where
  "nupd_of r s = (case s of NUPD1 \<Rightarrow> rc_nupd1 r | NUPD2 \<Rightarrow> rc_nupd2 r)"

definition nupd_put :: "rptree_cursor \<Rightarrow> nupd_sel \<Rightarrow> node_updates \<Rightarrow> rptree_cursor" where
  "nupd_put r s n = (case s of NUPD1 \<Rightarrow> r\<lparr>rc_nupd1 := n\<rparr> | NUPD2 \<Rightarrow> r\<lparr>rc_nupd2 := n\<rparr>)"

section \<open>The current page\<close>

definition cur_ro :: "rptree_cursor \<Rightarrow> page option" where
  "cur_ro r = page_h_ro (rc_pager r) (rc_cur r)"

definition cur_w :: "rptree_cursor \<Rightarrow> page option" where
  "cur_w r = page_h_w (rc_pager r) (rc_cur r)"

definition cur_put :: "rptree_cursor \<Rightarrow> page \<Rightarrow> rptree_cursor option" where
  "cur_put r x = do { p \<leftarrow> page_h_w_put (rc_pager r) (rc_cur r) x; Some (r\<lparr>rc_pager := p\<rparr>) }"

definition cur_pgno :: "rptree_cursor \<Rightarrow> pgno option" where
  "cur_pgno r = page_h_pgno (rc_pager r) (rc_cur r)"

definition on_cur ::
  "(page_h \<Rightarrow> pager \<Rightarrow> ('a res \<times> page_h \<times> pager) option) \<Rightarrow> rptree_cursor \<Rightarrow> ('a res \<times> rptree_cursor) option" where
  \<comment> \<open>a call that works on the current handle and the pager\<close>
  "on_cur f r = do {
     (x, h, p) \<leftarrow> f (rc_cur r) (rc_pager r);
     Some (x, r\<lparr>rc_cur := h, rc_pager := p\<rparr>) }"

abbreviation DL_OR_IN :: u8 where
  "DL_OR_IN \<equiv> or (pt_code PG_INNER_NODE) (pt_code PG_DATA_LIST)"

definition rptc_unseeked :: "rptree_cursor \<Rightarrow> unit option" where
  "rptc_unseeked r = ASSERT (ph_mode (rc_cur r) = PHM_NONE)"

definition rptc_seeked :: "rptree_cursor \<Rightarrow> unit option" where
  "rptc_seeked r = do {
     ASSERT (rc_root r \<noteq> PGNO_NULL);
     ASSERT (ph_mode (rc_cur r) \<noteq> PHM_NONE);
     t \<leftarrow> page_h_type (rc_pager r) (rc_cur r);
     ASSERT (t = pt_code PG_DATA_LIST) }"

section \<open>Seeking\<close>

definition rptc_seek_pop_into_cur :: "rptree_cursor \<Rightarrow> (unit res \<times> rptree_cursor) option" where
  "rptc_seek_pop_into_cur r = (case rc_stack r of
       [] \<Rightarrow> None
     | v # vs \<Rightarrow> do {
         (h, _) \<leftarrow> page_h_xfer_ownership (rc_pager r) (sv_pg v);
         let r = r\<lparr>rc_stack := vs\<rparr>;
         err_wrap (if ph_mode (rc_cur r) \<noteq> PHM_NONE
                   then on_cur (\<lambda>c p. pgr_release p c DL_OR_IN) r else Some (Inr (), r)) (\<lambda>_ r.
           Some (Inr (), r\<lparr>rc_cur := h, rc_lidx := sv_lidx v\<rparr>)) })"

definition rptc_seek_load_choice :: "rptree_cursor \<Rightarrow> rptree_cursor option" where
  "rptc_seek_load_choice r = do {
     ASSERT (rc_state r = RPTS_SEEKING);
     x \<leftarrow> cur_ro r;
     t \<leftarrow> pt_decode (page_get_type x);
     sk \<leftarrow> seeker r;
     case t of
       PG_INNER_NODE \<Rightarrow> do {
         (lidx, nleft) \<leftarrow> in_choose_lidx x (sk_remaining sk);
         ASSERT (nleft \<le> sk_remaining sk);
         Some (r\<lparr>rc_lidx := lidx, rc_member := MSeek \<lparr>sk_remaining = sk_remaining sk - nleft\<rparr>\<rparr>) }
     | PG_DATA_LIST \<Rightarrow>
         Some (r\<lparr>rc_lidx := min (unat (sk_remaining sk)) (dl_used x),
           rc_member := MSeek \<lparr>sk_remaining = 0\<rparr>, rc_state := RPTS_SEEKED\<rparr>)
     | _ \<Rightarrow> None }"

definition rptc_start_seek :: "rptree_cursor \<Rightarrow> b_size \<Rightarrow> bool \<Rightarrow> (unit res \<times> rptree_cursor) option" where
  "rptc_start_seek r loc newroot = do {
     rptc_unseeked r;
     if rc_root r = PGNO_NULL \<and> \<not> newroot then Some (Inr (), r)
     else
       err_wrap
         (if rc_root r = PGNO_NULL then do {
            tx \<leftarrow> rc_tx r;
            err_wrap (on_cur (\<lambda>c p. pgr_new c p tx PG_DATA_LIST) r) (\<lambda>_ r. do {
              n \<leftarrow> cur_pgno r;
              Some (Inr (), r\<lparr>rc_root := n\<rparr>) }) }
          else on_cur (\<lambda>c p. pgr_get c DL_OR_IN (rc_root r) p) r)
         (\<lambda>_ r. do {
           r \<leftarrow> rptc_seek_load_choice
             (r\<lparr>rc_member := MSeek \<lparr>sk_remaining = loc\<rparr>, rc_lidx := 0, rc_state := RPTS_SEEKING\<rparr>);
           Some (Inr (), r) }) }"

definition rptc_seeking_execute :: "rptree_cursor \<Rightarrow> (unit res \<times> rptree_cursor) option" where
  "rptc_seeking_execute r = do {
     ASSERT (rc_state r = RPTS_SEEKING);
     if length (rc_stack r) = RPTC_STACK then Some (Inl ERR_RPTREE_PAGE_STACK_OVERFLOW, r)
     else do {
       x \<leftarrow> cur_ro r;
       npg \<leftarrow> in_get_leaf x (rc_lidx r);
       err_wrap_to (pgr_get page_h_create DL_OR_IN npg (rc_pager r)) (\<lambda>(_, p). r\<lparr>rc_pager := p\<rparr>) (\<lambda>_ (succ, p). do {
         let r = r\<lparr>rc_pager := p\<rparr>;
         (h, _) \<leftarrow> page_h_xfer_ownership p (rc_cur r);
         let r = r\<lparr>rc_stack := \<lparr>sv_pg = h, sv_lidx = rc_lidx r\<rparr> # rc_stack r\<rparr>;
         (h, _) \<leftarrow> page_h_xfer_ownership p succ;
         r \<leftarrow> rptc_seek_load_choice (r\<lparr>rc_cur := h\<rparr>);
         Some (Inr (), r) }) } }"

primrec rptc_pop_n :: "nat \<Rightarrow> rptree_cursor \<Rightarrow> (unit res \<times> rptree_cursor) option" where
  "rptc_pop_n 0 r = Some (Inr (), r)"
| "rptc_pop_n (Suc n) r =
     err_wrap (rptc_seek_pop_into_cur r) (\<lambda>_ r.
     err_wrap (on_cur (\<lambda>c p. pgr_release p c (pt_code PG_INNER_NODE)) r) (\<lambda>_ r.
       rptc_pop_n n r))"

definition rptc_pop_all :: "rptree_cursor \<Rightarrow> (unit res \<times> rptree_cursor) option" where
  \<comment> \<open>each turn takes one entry off the stack\<close>
  "rptc_pop_all r = rptc_pop_n (length (rc_stack r)) r"

section \<open>Opening and closing\<close>

definition rptc_load_new_root :: "rptree_cursor \<Rightarrow> (unit res \<times> rptree_cursor) option" where
  "rptc_load_new_root r = do {
     tx \<leftarrow> rc_tx r;
     err_wrap_to (pgr_new page_h_create (rc_pager r) tx PG_INNER_NODE) (\<lambda>(_, p). r\<lparr>rc_pager := p\<rparr>) (\<lambda>_ (root, p). do {
       x \<leftarrow> page_h_w p root;
       x \<leftarrow> in_init_empty x;
       p \<leftarrow> page_h_w_put p root x;
       ASSERT (ph_mode (rc_cur r) = PHM_NONE);
       err_wrap_to (pgr_get_writable page_h_create tx (pt_code PG_RPT_ROOT) (rc_meta_root r) p)
         (\<lambda>(_, p). r\<lparr>rc_pager := p\<rparr>) (\<lambda>_ (dest, p). do {
         n \<leftarrow> page_h_pgno p root;
         d \<leftarrow> page_h_w p dest;
         p \<leftarrow> page_h_w_put p dest (rr_set_root d n);
         err_wrap_to (pgr_release p dest (pt_code PG_RPT_ROOT)) (\<lambda>(_, p). r\<lparr>rc_pager := p\<rparr>) (\<lambda>_ (_, p). do {
           n \<leftarrow> page_h_pgno p root;
           (h, _) \<leftarrow> page_h_xfer_ownership p root;
           Some (Inr (), r\<lparr>rc_pager := p, rc_root := n, rc_cur := h, rc_lidx := 0\<rparr>) }) }) }) }"

definition rptc_enter_transaction :: "rptree_cursor \<Rightarrow> ptr \<Rightarrow> rptree_cursor option" where
  "rptc_enter_transaction r tx = do {
     rptc_unseeked r;
     ASSERT (rc_tx r = None \<or> rc_tx r = Some tx);
     Some (r\<lparr>rc_tx := Some tx\<rparr>) }"

definition rptc_leave_transaction :: "rptree_cursor \<Rightarrow> rptree_cursor option" where
  "rptc_leave_transaction r = do {
     rptc_unseeked r;
     ASSERT (rc_tx r \<noteq> None);
     Some (r\<lparr>rc_tx := None\<rparr>) }"

text \<open>\<open>r\<close> is the memory of the cursor as the caller has it: what the code does not set keeps its value.\<close>

definition rptc_open :: "rptree_cursor \<Rightarrow> pgno \<Rightarrow> pager \<Rightarrow> (unit res \<times> rptree_cursor) option" where
  "rptc_open r root p = do {
     let r = r\<lparr>rc_pager := p, rc_meta_root := root, rc_tx := None, rc_cur := page_h_create, rc_lidx := 0,
       rc_stack := [], rc_state := RPTS_UNSEEKED\<rparr>;
     err_wrap_to (pgr_get page_h_create (pt_code PG_RPT_ROOT) root p) (\<lambda>(_, p). r\<lparr>rc_pager := p\<rparr>) (\<lambda>_ (root_pg, p). do {
       x \<leftarrow> page_h_ro p root_pg;
       let r = r\<lparr>rc_root := rr_get_root x\<rparr>;
       err_wrap_to (pgr_release p root_pg (pt_code PG_RPT_ROOT)) (\<lambda>(_, p). r\<lparr>rc_pager := p\<rparr>) (\<lambda>_ (root_pg, p).
         if rc_root r \<noteq> PGNO_NULL then
           err_wrap_to (pgr_get root_pg DL_OR_IN (rc_root r) p) (\<lambda>(_, p). r\<lparr>rc_pager := p\<rparr>) (\<lambda>_ (root_pg, p). do {
             x \<leftarrow> page_h_ro p root_pg;
             s \<leftarrow> dlgt_get_size x;
             let r = r\<lparr>rc_total_size := s\<rparr>;
             t \<leftarrow> page_h_type p root_pg;
             err_wrap_to (pgr_release p root_pg t) (\<lambda>(_, p). r\<lparr>rc_pager := p\<rparr>) (\<lambda>_ (_, p).
               Some (Inr (), r\<lparr>rc_pager := p\<rparr>)) })
         else Some (Inr (), r\<lparr>rc_pager := p, rc_total_size := 0\<rparr>)) }) }"

definition rptc_new :: "rptree_cursor \<Rightarrow> ptr option \<Rightarrow> pager \<Rightarrow> (unit res \<times> rptree_cursor) option" where
  "rptc_new r tx p = do {
     t \<leftarrow> tx;
     err_wrap_to (pgr_new page_h_create p t PG_RPT_ROOT) (\<lambda>(_, p). r\<lparr>rc_pager := p\<rparr>) (\<lambda>_ (root_pg, p). do {
       x \<leftarrow> page_h_ro p root_pg;
       let r = r\<lparr>rc_meta_root := pg x\<rparr>;
       err_wrap_to (pgr_release p root_pg (pt_code PG_RPT_ROOT)) (\<lambda>(_, p). r\<lparr>rc_pager := p\<rparr>) (\<lambda>_ (_, p).
         Some (Inr (), r\<lparr>rc_pager := p, rc_root := PGNO_NULL, rc_tx := tx, rc_cur := page_h_create,
           rc_lidx := 0, rc_stack := [], rc_state := RPTS_UNSEEKED\<rparr>)) }) }"

definition rptc_cleanup :: "rptree_cursor \<Rightarrow> unit option" where
  \<comment> \<open>what it returns is the code of the error object it is given\<close>
  "rptc_cleanup r = rptc_unseeked r"

section \<open>Reading\<close>

definition rptc_reading :: "rptree_cursor \<Rightarrow> unit option" where
  "rptc_reading r = do {
     ASSERT (rc_root r \<noteq> PGNO_NULL);
     rd \<leftarrow> reader r;
     ASSERT (rd_bnext rd > 0);
     ASSERT (rd_max rd = 0 \<or> rd_total rd \<le> rd_max rd) }"

definition to_u32 :: "b_size \<Rightarrow> nat" where
  "to_u32 n = unat n mod 2 ^ 32"

definition rptc_seeked_to_read ::
  "rptree_cursor \<Rightarrow> cbuffer option \<Rightarrow> b_size \<Rightarrow> nat \<Rightarrow> nat \<Rightarrow> rptree_cursor option" where
  "rptc_seeked_to_read r dest max_nread bsize stride = do {
     rptc_seeked r;
     ASSERT (bsize > 0);
     ASSERT (stride > 0);
     let r = r\<lparr>rc_member := MRead \<lparr>rd_dest = dest, rd_bsize = bsize, rd_stride = of_nat stride, rd_bnext = bsize,
       rd_total = 0, rd_max = max_nread * of_nat bsize, rd_state = DLREAD_ACTIVE\<rparr>, rc_state := RPTS_DL_READING\<rparr>;
     rptc_reading r;
     Some r }"

definition rptc_read_next :: "rptree_cursor \<Rightarrow> p_size option" where
  "rptc_read_next r = do {
     rptc_reading r;
     rd \<leftarrow> reader r;
     x \<leftarrow> cur_ro r;
     let n = sub32 (dl_used x) (rc_lidx r);
     let n = min n (rd_bnext rd);
     n \<leftarrow> (case rd_dest rd of
         Some b \<Rightarrow> if rd_state rd = DLREAD_ACTIVE then do { a \<leftarrow> cbuffer_avail b; Some (min n a) } else Some n
       | None \<Rightarrow> Some n);
     Some (if rd_max rd > 0 \<and> rd_state rd = DLREAD_ACTIVE then min n (unat (rd_max rd - rd_total rd)) else n) }"

definition rptc_read_to_unseeked :: "rptree_cursor \<Rightarrow> (unit res \<times> rptree_cursor) option" where
  "rptc_read_to_unseeked r = do {
     rptc_reading r;
     ASSERT (rc_state r = RPTS_DL_READING);
     err_wrap (on_cur (\<lambda>c p. pgr_release p c (pt_code PG_DATA_LIST)) r) (\<lambda>_ r.
     err_wrap (rptc_pop_all (r\<lparr>rc_state := RPTS_PERMISSIVE\<rparr>)) (\<lambda>_ r. do {
       let r = r\<lparr>rc_state := RPTS_UNSEEKED, rc_lidx := 0\<rparr>;
       rd \<leftarrow> reader r;
       Some (if rd_total rd mod of_nat (rd_bsize rd) \<noteq> 0 then Inl ERR_CORRUPT else Inr (), r) })) }"

definition rptc_read_stalled :: "rptree_cursor \<Rightarrow> (unit res \<times> rptree_cursor) option" where
  \<comment> \<open>no byte can be taken: the buffer is full, or the page is used up\<close>
  "rptc_read_stalled r = do {
     rd \<leftarrow> reader r;
     full \<leftarrow> (case rd_dest rd of Some b \<Rightarrow> do { a \<leftarrow> cbuffer_avail b; Some (a = 0) } | None \<Rightarrow> Some False);
     x \<leftarrow> cur_ro r;
     if full then Some (Inr (), r)
     else if rc_lidx r \<ge> dl_used x then
       err_wrap_to (pgr_dlgt_get_next (rc_cur r) page_h_create (rc_tx r) (rc_pager r)) (\<lambda>(_, p). r\<lparr>rc_pager := p\<rparr>)
         (\<lambda>_ (succ, p). do {
         let r = r\<lparr>rc_pager := p\<rparr>;
         if ph_mode succ = PHM_NONE then rptc_read_to_unseeked r
         else err_wrap (on_cur (\<lambda>c p. pgr_release p c (pt_code PG_DATA_LIST)) r) (\<lambda>_ r. do {
           (h, _) \<leftarrow> page_h_xfer_ownership (rc_pager r) succ;
           Some (Inr (), r\<lparr>rc_lidx := 0, rc_cur := h\<rparr>) }) })
     else None }"

definition rptc_read_active :: "p_size \<Rightarrow> rptree_cursor \<Rightarrow> rptree_cursor option" where
  "rptc_read_active n r = do {
     rd \<leftarrow> reader r;
     x \<leftarrow> cur_ro r;
     dest \<leftarrow> (case rd_dest rd of
         Some b \<Rightarrow> do { (m, b) \<leftarrow> dl_read_into_cbuffer x (Some b) (rc_lidx r) n; ASSERT (m = n); Some b }
       | None \<Rightarrow> Some None);
     let rd = rd\<lparr>rd_dest := dest, rd_total := rd_total rd + of_nat n, rd_bnext := sub32 (rd_bnext rd) n\<rparr>;
     let rd = (if rd_bnext rd = 0 then
         (let rd = rd\<lparr>rd_bnext := to_u32 ((rd_stride rd - 1) * of_nat (rd_bsize rd)), rd_state := DLREAD_SKIPPING\<rparr>
          in if rd_bnext rd = 0 then rd\<lparr>rd_bnext := rd_bsize rd, rd_state := DLREAD_ACTIVE\<rparr> else rd)
       else rd);
     Some (r\<lparr>rc_lidx := add32 (rc_lidx r) n, rc_member := MRead rd\<rparr>) }"

definition rptc_read_skipping :: "p_size \<Rightarrow> rptree_cursor \<Rightarrow> rptree_cursor option" where
  "rptc_read_skipping n r = do {
     rd \<leftarrow> reader r;
     x \<leftarrow> cur_ro r;
     (m, _) \<leftarrow> dl_read x (rc_lidx r) n;
     ASSERT (m = n);
     let rd = rd\<lparr>rd_bnext := sub32 (rd_bnext rd) n\<rparr>;
     let rd = (if rd_bnext rd = 0 then rd\<lparr>rd_bnext := rd_bsize rd, rd_state := DLREAD_ACTIVE\<rparr> else rd);
     Some (r\<lparr>rc_lidx := add32 (rc_lidx r) n, rc_member := MRead rd\<rparr>) }"

text \<open>A turn of the loop either ends it or takes at least one byte of the page.\<close>

partial_function (option) rptc_read_execute :: "rptree_cursor \<Rightarrow> (unit res \<times> rptree_cursor) option" where
  "rptc_read_execute r = do {
     rptc_reading r;
     rd \<leftarrow> reader r;
     if rd_max rd > 0 \<and> rd_total rd \<ge> rd_max rd then rptc_read_to_unseeked r
     else do {
       n \<leftarrow> rptc_read_next r;
       if n = 0 then rptc_read_stalled r
       else do {
         r \<leftarrow> (if rd_state rd = DLREAD_ACTIVE then rptc_read_active n r else rptc_read_skipping n r);
         rptc_read_execute r } } }"

section \<open>Writing in place\<close>

definition rptc_writing :: "rptree_cursor \<Rightarrow> unit option" where
  "rptc_writing r = do {
     ASSERT (rc_root r \<noteq> PGNO_NULL);
     wr \<leftarrow> writer r;
     ASSERT (wr_stride wr \<ge> 1);
     ASSERT (rc_tx r \<noteq> None) }"

definition rptc_seeked_to_write ::
  "rptree_cursor \<Rightarrow> cbuffer \<Rightarrow> nat \<Rightarrow> nat \<Rightarrow> rptree_cursor option" where
  "rptc_seeked_to_write r src bsize stride = do {
     ASSERT (rc_state r = RPTS_SEEKED);
     ASSERT (bsize > 0);
     ASSERT (stride > 0);
     let r = r\<lparr>rc_member := MWrite \<lparr>wr_src = Some src, wr_bsize = bsize, wr_stride = of_nat stride,
       wr_bstrlen = of_nat (mul32 bsize stride), wr_bnext = bsize, wr_total = 0, wr_state = DLWRITE_ACTIVE\<rparr>,
       rc_state := RPTS_DL_WRITING\<rparr>;
     rptc_writing r;
     Some r }"

definition rptc_write_to_unseeked :: "rptree_cursor \<Rightarrow> (unit res \<times> rptree_cursor) option" where
  "rptc_write_to_unseeked r = do {
     rptc_writing r;
     ASSERT (rc_state r = RPTS_DL_WRITING);
     err_wrap (on_cur (\<lambda>c p. pgr_release p c (pt_code PG_DATA_LIST)) r) (\<lambda>_ r.
     err_wrap (rptc_pop_all (r\<lparr>rc_state := RPTS_PERMISSIVE\<rparr>)) (\<lambda>_ r.
       Some (Inr (), r\<lparr>rc_state := RPTS_UNSEEKED, rc_lidx := 0\<rparr>))) }"

text \<open>The loop over one page: it works on the page behind the handle. An empty source makes no
  progress, so the loop need not end.\<close>

partial_function (option) rptc_write_page ::
  "nat \<Rightarrow> page \<Rightarrow> nat \<Rightarrow> rptc_write \<Rightarrow> (page \<times> nat \<times> rptc_write) option" where
  "rptc_write_page limit x lidx wr =
     (if lidx < limit then do {
        let n = min (limit - lidx) (wr_bnext wr);
        if wr_state wr = DLWRITE_ACTIVE then do {
          (m, x, src) \<leftarrow> dl_write_from_buffer x (wr_src wr) lidx n;
          let wr = wr\<lparr>wr_src := src, wr_total := wr_total wr + of_nat m, wr_bnext := sub32 (wr_bnext wr) m\<rparr>;
          let wr = (if wr_bnext wr = 0
            then wr\<lparr>wr_bnext := to_u32 ((wr_stride wr - 1) * of_nat (wr_bsize wr)), wr_state := DLWRITE_SKIPPING\<rparr>
            else wr);
          rptc_write_page limit x (add32 lidx m) wr }
        else do {
          (m, x) \<leftarrow> dl_write x None lidx n;
          let wr = wr\<lparr>wr_bnext := sub32 (wr_bnext wr) m\<rparr>;
          let wr = (if wr_bnext wr = 0 then wr\<lparr>wr_bnext := wr_bsize wr, wr_state := DLWRITE_ACTIVE\<rparr> else wr);
          rptc_write_page limit x (add32 lidx m) wr } }
      else Some (x, lidx, wr))"

definition rptc_write_execute :: "rptree_cursor \<Rightarrow> (unit res \<times> rptree_cursor) option" where
  "rptc_write_execute r = do {
     rptc_writing r;
     ASSERT (rc_state r = RPTS_DL_WRITING);
     x \<leftarrow> cur_w r;
     wr \<leftarrow> writer r;
     (x, lidx, wr) \<leftarrow> rptc_write_page (dl_used x) x (rc_lidx r) wr;
     r \<leftarrow> cur_put (r\<lparr>rc_lidx := lidx, rc_member := MWrite wr\<rparr>) x;
     x \<leftarrow> cur_ro r;
     succ \<leftarrow> dlgt_get_next x;
     if rc_lidx r = dl_used x \<and> succ = PGNO_NULL then
       (if wr_total wr mod of_nat (wr_bsize wr) \<noteq> 0 then Some (Inl ERR_CORRUPT, r)
        else rptc_write_to_unseeked r)
     else on_cur (\<lambda>c p. pgr_dlgt_advance_next c (rc_tx r) p) r }"

end
