(* ===== verification/Rptree_Update.thy ===== *)
theory Rptree_Update
  imports Rptree_Cursor
begin

text \<open>
The operations of the tree cursor that change the tree: balancing a page and releasing it
(\<^verbatim>\<open>rptree_cursor.c\<close>), carrying the changes of a layer up the stack (\<^verbatim>\<open>_rebalance.c\<close>), inserting
(\<^verbatim>\<open>_insert.c\<close>), removing (\<^verbatim>\<open>_remove.c\<close>), and the check of a whole tree.

Carrying up is a loop over the layers: \<open>apply_to_pivot\<close> either ends with a layer to be rebalanced
step by step, or gives the update of the next layer. A handle that a routine declares itself is
lost when an error ends the routine.
\<close>

section \<open>Balancing a page and releasing it\<close>

record root_update =
  ru_root :: pgno
  ru_isroot :: bool

definition pair_or_empty :: "pager \<Rightarrow> page_h option \<Rightarrow> in_pair option" where
  "pair_or_empty p h = (case h of None \<Rightarrow> Some in_pair_empty | Some h \<Rightarrow> in_pair_from_pgh p h)"

definition held_or_null :: "page_h option \<Rightarrow> bool" where
  "held_or_null h = (case h of None \<Rightarrow> True | Some h \<Rightarrow> ph_mode h \<noteq> PHM_NONE)"

definition three_in_pair_from ::
  "pager \<Rightarrow> page_h option \<Rightarrow> page_h option \<Rightarrow> page_h option \<Rightarrow> three_in_pair option" where
  "three_in_pair_from p prev cur succ = do {
     ASSERT (held_or_null prev \<and> held_or_null cur \<and> held_or_null succ);
     a \<leftarrow> pair_or_empty p prev;
     b \<leftarrow> pair_or_empty p cur;
     c \<leftarrow> pair_or_empty p succ;
     Some \<lparr>tip_prev = a, tip_cur = b, tip_next = c\<rparr> }"

text \<open>The state of the balancing: the cursor and the handles of the two neighbours.\<close>

type_synonym neighbours = "rptree_cursor \<times> page_h \<times> page_h"

definition on_prev ::
  "(page_h \<Rightarrow> pager \<Rightarrow> ('a res \<times> page_h \<times> pager) option) \<Rightarrow> neighbours \<Rightarrow> ('a res \<times> neighbours) option" where
  "on_prev f s = (case s of (r, prev, succ) \<Rightarrow> do {
     (x, h, p) \<leftarrow> f prev (rc_pager r);
     Some (x, r\<lparr>rc_pager := p\<rparr>, h, succ) })"

definition on_succ ::
  "(page_h \<Rightarrow> pager \<Rightarrow> ('a res \<times> page_h \<times> pager) option) \<Rightarrow> neighbours \<Rightarrow> ('a res \<times> neighbours) option" where
  "on_succ f s = (case s of (r, prev, succ) \<Rightarrow> do {
     (x, h, p) \<leftarrow> f succ (rc_pager r);
     Some (x, r\<lparr>rc_pager := p\<rparr>, prev, h) })"

definition on_cur3 ::
  "(page_h \<Rightarrow> pager \<Rightarrow> ('a res \<times> page_h \<times> pager) option) \<Rightarrow> neighbours \<Rightarrow> ('a res \<times> neighbours) option" where
  "on_cur3 f s = (case s of (r, prev, succ) \<Rightarrow> do {
     (x, r) \<leftarrow> on_cur f r;
     Some (x, r, prev, succ) })"

definition balance_next :: "neighbours \<Rightarrow> (three_in_pair res \<times> neighbours) option" where
  \<comment> \<open>level with the next page, which is held for writing\<close>
  "balance_next s = (case s of (r, prev, succ) \<Rightarrow> do {
     p \<leftarrow> dlgt_balance_with_next (rc_pager r) (rc_cur r) succ;
     out \<leftarrow> three_in_pair_from p None (Some (rc_cur r)) (Some succ);
     Some (Inr out, r\<lparr>rc_pager := p\<rparr>, prev, succ) })"

definition balance_prev :: "neighbours \<Rightarrow> (three_in_pair res \<times> neighbours) option" where
  "balance_prev s = (case s of (r, prev, succ) \<Rightarrow> do {
     p \<leftarrow> dlgt_balance_with_prev (rc_pager r) prev (rc_cur r);
     out \<leftarrow> three_in_pair_from p (Some prev) (Some (rc_cur r)) None;
     Some (Inr out, r\<lparr>rc_pager := p\<rparr>, prev, succ) })"

definition rptc_level :: "ptr \<Rightarrow> neighbours \<Rightarrow> (three_in_pair res \<times> neighbours) option" where
  \<comment> \<open>what the first half of \<^verbatim>\<open>rptc_balance_and_release\<close> does with a page below half\<close>
  "rptc_level tx s = (case s of (r, prev, succ) \<Rightarrow> do {
     x \<leftarrow> cur_ro r;
     csize \<leftarrow> dlgt_get_len x;
     out \<leftarrow> three_in_pair_from (rc_pager r) None (Some (rc_cur r)) None;
     m \<leftarrow> dlgt_get_max_len x;
     if csize > 0 \<and> csize < m div 2 then
       (if ph_mode succ \<noteq> PHM_NONE then
          err_wrap (on_succ (\<lambda>h p. pgr_maybe_make_writable p tx h) s) (\<lambda>_ s. balance_next s)
        else if ph_mode prev \<noteq> PHM_NONE then
          err_wrap (on_prev (\<lambda>h p. pgr_maybe_make_writable p tx h) s) (\<lambda>_ s. balance_prev s)
        else do {
          n \<leftarrow> dlgt_get_next x;
          if n \<noteq> PGNO_NULL then
            err_wrap (on_succ (\<lambda>h p. pgr_dlgt_get_next (rc_cur r) h (rc_tx r) p) s) (\<lambda>_ s. balance_next s)
          else do {
            n \<leftarrow> dlgt_get_prev x;
            if n \<noteq> PGNO_NULL then
              err_wrap (on_prev (\<lambda>h p. pgr_dlgt_get_prev (rc_cur r) h (rc_tx r) p) s) (\<lambda>_ s. balance_prev s)
            else Some (Inr out, s) } })
     else Some (Inr out, s) })"

definition root_of :: "rptree_cursor \<Rightarrow> page_h \<Rightarrow> root_update \<Rightarrow> root_update option option" where
  \<comment> \<open>the update when the handle holds a page without neighbours\<close>
  "root_of r h u =
     (if ph_mode h = PHM_NONE then Some None
      else do {
        x \<leftarrow> page_h_ro (rc_pager r) h;
        isroot \<leftarrow> dlgt_is_root x;
        if isroot then do { n \<leftarrow> page_h_pgno (rc_pager r) h; Some (Some (u\<lparr>ru_root := n, ru_isroot := True\<rparr>)) }
        else Some None })"

definition rptc_unlink_empty :: "ptr \<Rightarrow> root_update \<Rightarrow> neighbours \<Rightarrow> (root_update res \<times> neighbours) option" where
  \<comment> \<open>what happens to a page that has become empty\<close>
  "rptc_unlink_empty tx root s =
     err_wrap
       (if \<not> ru_isroot root then
          err_wrap (case s of (r, prev, succ) \<Rightarrow>
              if ph_mode prev = PHM_NONE then on_prev (\<lambda>h p. pgr_dlgt_get_prev (rc_cur r) h (rc_tx r) p) s
              else Some (Inr (), s)) (\<lambda>_ s.
          err_wrap (case s of (r, prev, succ) \<Rightarrow>
              if ph_mode succ = PHM_NONE then on_succ (\<lambda>h p. pgr_dlgt_get_next (rc_cur r) h (rc_tx r) p) s
              else Some (Inr (), s)) (\<lambda>_ (r, prev, succ). do {
            p \<leftarrow> pgr_link (rc_pager r) prev succ;
            let r = r\<lparr>rc_pager := p\<rparr>;
            a \<leftarrow> root_of r prev root;
            b \<leftarrow> (case a of Some _ \<Rightarrow> Some a | None \<Rightarrow> root_of r succ root);
            Some (Inr (case b of Some u \<Rightarrow> u | None \<Rightarrow> root), r, prev, succ) }))
        else Some (Inr (root\<lparr>ru_root := PGNO_NULL\<rparr>), s))
       (\<lambda>root s. err_wrap (on_cur3 (\<lambda>h p. pgr_delete_and_release p tx h) s) (\<lambda>_ s. Some (Inr root, s)))"

definition rptc_balance_and_release :: "neighbours \<Rightarrow> ((three_in_pair \<times> root_update) res \<times> neighbours) option" where
  "rptc_balance_and_release s = do {
     let (r, prev, succ) = s;
     okp \<leftarrow> (if ph_mode prev = PHM_NONE then Some True else pgr_valid_neighbors (rc_pager r) prev (rc_cur r));
     ASSERT okp;
     okn \<leftarrow> (if ph_mode succ = PHM_NONE then Some True else pgr_valid_neighbors (rc_pager r) (rc_cur r) succ);
     ASSERT okn;
     tx \<leftarrow> rc_tx r;
     err_wrap (on_cur3 (\<lambda>h p. pgr_maybe_make_writable p tx h) s) (\<lambda>_ s.
     err_wrap (rptc_level tx s) (\<lambda>out s. do {
       let (r, prev, succ) = s;
       x \<leftarrow> cur_ro r;
       isroot \<leftarrow> dlgt_is_root x;
       n \<leftarrow> cur_pgno r;
       let root = \<lparr>ru_root = (if isroot then n else 0), ru_isroot = isroot\<rparr>;
       len \<leftarrow> dlgt_get_len x;
       err_wrap (if len = 0 then rptc_unlink_empty tx root s else Some (Inr root, s)) (\<lambda>root s.
       err_wrap (on_prev (\<lambda>h p. pgr_release_if_exists p h DL_OR_IN) s) (\<lambda>_ s.
       err_wrap (on_cur3 (\<lambda>h p. pgr_release_if_exists p h DL_OR_IN) s) (\<lambda>_ s.
       err_wrap (on_succ (\<lambda>h p. pgr_release_if_exists p h DL_OR_IN) s) (\<lambda>_ s.
         Some (Inr (out, root), s))))) })) }"

definition balance_alone :: "rptree_cursor \<Rightarrow> page_h \<Rightarrow> page_h \<Rightarrow> ((three_in_pair \<times> root_update) res \<times> rptree_cursor) option" where
  \<comment> \<open>for the callers that do not look at the handles again\<close>
  "balance_alone r prev succ = do { (x, r, _, _) \<leftarrow> rptc_balance_and_release (r, prev, succ); Some (x, r) }"

section \<open>Up the stack\<close>

definition rptc_rebalance_assert :: "rptree_cursor \<Rightarrow> unit option" where
  "rptc_rebalance_assert r = ASSERT (rc_root r \<noteq> PGNO_NULL \<and> rc_tx r \<noteq> None)"

definition set_rebalancer :: "rptree_cursor \<Rightarrow> rptc_rebalance \<Rightarrow> rptree_cursor" where
  "set_rebalancer r rb = r\<lparr>rc_member := MRebalance rb\<rparr>"

definition append_tip_right :: "rptree_cursor \<Rightarrow> nupd_sel \<Rightarrow> three_in_pair \<Rightarrow> rptree_cursor option" where
  "append_tip_right r sel out = do {
     n \<leftarrow> nupd_append_tip_right (nupd_of r sel) out;
     Some (nupd_put r sel n) }"

definition append_tip_left :: "rptree_cursor \<Rightarrow> nupd_sel \<Rightarrow> three_in_pair \<Rightarrow> rptree_cursor option" where
  "append_tip_left r sel out = do {
     n \<leftarrow> nupd_append_tip_left (nupd_of r sel) out;
     Some (nupd_put r sel n) }"

definition load_limit ::
  "(page_h \<Rightarrow> page_h \<Rightarrow> ptr option \<Rightarrow> pager \<Rightarrow> (unit res \<times> page_h \<times> pager) option) \<Rightarrow>
   rptree_cursor \<Rightarrow> (unit res \<times> rptree_cursor) option" where
  \<comment> \<open>the page that limits the layer on one side, for reading\<close>
  "load_limit get r = do {
     rb \<leftarrow> rebalancer r;
     (x, h, p) \<leftarrow> get (rc_cur r) (rb_limit rb) None (rc_pager r);
     Some (x, set_rebalancer (r\<lparr>rc_pager := p\<rparr>) (rb\<lparr>rb_limit := h\<rparr>)) }"

definition pivot_asserts :: "rptree_cursor \<Rightarrow> rptc_rebalance \<Rightarrow> page \<Rightarrow> unit option" where
  "pivot_asserts r rb x = do {
     let out = nupd_of r (rb_output rb);
     let inp = nupd_of r (rb_input rb);
     ASSERT (nu_lcons out = 0 \<and> nu_llen out = 0 \<and> nu_lobs out = 0 \<and> nu_rcons out = 0 \<and> nu_rlen out = 0);
     ASSERT (ip_pg (nu_pivot out) = pg x);
     sz \<leftarrow> in_get_size x;
     ASSERT (ip_key (nu_pivot out) = sz);
     ASSERT (nu_lcons inp = 0 \<and> nu_lobs inp = 0 \<and> nu_rcons inp = 0 \<and> nu_robs inp = 0);
     if in_get_len x > 0 then do {
       n \<leftarrow> in_get_leaf x (rc_lidx r);
       ASSERT (ip_pg (nu_pivot inp) = n) }
     else Some () }"

definition apply_to_pivot :: "rptree_cursor \<Rightarrow> (root_update option res \<times> rptree_cursor) option" where
  \<comment> \<open>\<open>Some\<close> root update: the layer is done, and the code goes on with \<^verbatim>\<open>rptc_rebalance_move_up_stack\<close>\<close>
  "apply_to_pivot r = do {
     rptc_rebalance_assert r;
     rb \<leftarrow> rebalancer r;
     x \<leftarrow> cur_ro r;
     pivot_asserts r rb x;
     n \<leftarrow> nupd_observe_pivot (nupd_of r (rb_input rb)) x (rc_lidx r);
     x \<leftarrow> cur_w r;
     let x = in_set_len x IN_MAX_KEYS;
     (len, n, x) \<leftarrow> nupd_append_maximally_right_then_left n x;
     let r = nupd_put r (rb_input rb) n;
     let r = r\<lparr>rc_lidx := sub32 IN_MAX_KEYS len\<rparr>;
     if nupd_done_left n then do {
       let r = set_rebalancer r (rb\<lparr>rb_state := RPTRB_RIGHT\<rparr>);
       x \<leftarrow> in_cut_left x (rc_lidx r);
       r \<leftarrow> cur_put r x;
       let r = r\<lparr>rc_lidx := sub32 IN_MAX_KEYS (rc_lidx r)\<rparr>;
       if nupd_done_right n then
         err_wrap (balance_alone r page_h_create page_h_create) (\<lambda>(out, root) r. do {
           r \<leftarrow> append_tip_right r (rb_output rb) out;
           Some (Inr (Some root), r) })
       else do {
         x \<leftarrow> cur_w r;
         r \<leftarrow> cur_put r (in_set_len x IN_MAX_KEYS);
         err_wrap (load_limit pgr_dlgt_get_next r) (\<lambda>_ r. Some (Inr None, r)) } }
     else do {
       r \<leftarrow> cur_put r x;
       err_wrap (load_limit pgr_dlgt_get_prev r) (\<lambda>_ r. Some (Inr None, r)) } }"

primrec rptc_drop_layers :: "nat \<Rightarrow> rptree_cursor \<Rightarrow> (unit res \<times> rptree_cursor) option" where
  "rptc_drop_layers 0 r = Some (Inr (), r)"
| "rptc_drop_layers (Suc n) r =
     err_wrap (rptc_seek_pop_into_cur r) (\<lambda>_ r. do {
       tx \<leftarrow> rc_tx r;
       err_wrap (on_cur (\<lambda>c p. pgr_dlgt_delete_chain c tx p) r) (\<lambda>_ r. rptc_drop_layers n r) })"

definition rptc_enter_layer :: "rptree_cursor \<Rightarrow> (unit res \<times> rptree_cursor) option" where
  \<comment> \<open>the node above, or a new root, becomes the current page and the input of its rebalancing is the output of
      the layer below\<close>
  "rptc_enter_layer r = do {
     let leaves = (rc_state r = RPTS_DL_INSERTING \<or> rc_state r = RPTS_DL_REMOVING);
     ASSERT (leaves \<or> rc_state r = RPTS_IN_REBALANCING);
     tx \<leftarrow> rc_tx r;
     err_wrap
       (if rc_stack r = [] then rptc_load_new_root r
        else err_wrap (rptc_seek_pop_into_cur r) (\<lambda>_ r. on_cur (\<lambda>c p. pgr_make_writable p tx c) r))
       (\<lambda>_ r. do {
         r \<leftarrow> (if leaves then
             Some (set_rebalancer (r\<lparr>rc_state := RPTS_IN_REBALANCING\<rparr>)
               \<lparr>rb_state = RPTRB_LEFT, rb_input = NUPD1, rb_output = NUPD2, rb_limit = page_h_create\<rparr>)
           else do {
             rb \<leftarrow> rebalancer r;
             Some (set_rebalancer r
               \<lparr>rb_state = RPTRB_LEFT, rb_input = rb_output rb, rb_output = rb_input rb, rb_limit = page_h_create\<rparr>) });
         rb \<leftarrow> rebalancer r;
         x \<leftarrow> cur_ro r;
         sz \<leftarrow> in_get_size x;
         n \<leftarrow> nupd_init (pg x) sz;
         Some (Inr (), nupd_put r (rb_output rb) n) }) }"

partial_function (option) rptc_rebalance_move_up_stack ::
  "root_update \<Rightarrow> rptree_cursor \<Rightarrow> (unit res \<times> rptree_cursor) option" where
  "rptc_rebalance_move_up_stack root r =
     (if ru_isroot root then
        err_wrap (rptc_drop_layers (length (rc_stack r)) r) (\<lambda>_ r.
          Some (Inr (), r\<lparr>rc_lidx := 0, rc_root := ru_root root, rc_state := RPTS_UNSEEKED\<rparr>))
      else do {
        (e, r) \<leftarrow> rptc_enter_layer r;
        if isl e then Some (Inl (projl e), r)
        else do {
          (e, r) \<leftarrow> apply_to_pivot r;
          if isl e then Some (Inl (projl e), r)
          else (case projr e of
              None \<Rightarrow> Some (Inr (), r)
            | Some root \<Rightarrow> rptc_rebalance_move_up_stack root r) } })"

end
