(* ===== verification/Rptree_Ops.thy ===== *)
theory Rptree_Ops
  imports Rptree_Update
begin

text \<open>
The stepwise operations of the tree cursor: rebalancing a layer to its right and to its left
(\<^verbatim>\<open>_rebalance.c\<close>), inserting (\<^verbatim>\<open>_insert.c\<close>), removing (\<^verbatim>\<open>_remove.c\<close>), and the check of a whole
tree (\<^verbatim>\<open>rptree_cursor.c\<close>). Each step of the code is one definition; the callers repeat it while
the cursor is in the state.
\<close>

section \<open>Rebalancing a layer\<close>

definition on_limit ::
  "(page_h \<Rightarrow> pager \<Rightarrow> ('a res \<times> page_h \<times> pager) option) \<Rightarrow> rptree_cursor \<Rightarrow> ('a res \<times> rptree_cursor) option" where
  "on_limit f r = do {
     rb \<leftarrow> rebalancer r;
     (x, h, p) \<leftarrow> f (rb_limit rb) (rc_pager r);
     Some (x, set_rebalancer (r\<lparr>rc_pager := p\<rparr>) (rb\<lparr>rb_limit := h\<rparr>)) }"

definition on_cur_limit ::
  "(page_h \<Rightarrow> page_h \<Rightarrow> pager \<Rightarrow> (unit res \<times> page_h \<times> page_h \<times> pager) option) \<Rightarrow>
   rptree_cursor \<Rightarrow> (unit res \<times> rptree_cursor) option" where
  "on_cur_limit f r = do {
     rb \<leftarrow> rebalancer r;
     (x, c, h, p) \<leftarrow> f (rc_cur r) (rb_limit rb) (rc_pager r);
     Some (x, set_rebalancer (r\<lparr>rc_cur := c, rc_pager := p\<rparr>) (rb\<lparr>rb_limit := h\<rparr>)) }"

definition flip_handles :: "(unit res \<times> page_h \<times> page_h \<times> pager) option \<Rightarrow> (unit res \<times> page_h \<times> page_h \<times> pager) option" where
  \<comment> \<open>for the calls that take the page on the left first\<close>
  "flip_handles m = map_option (\<lambda>(x, a, b, p). (x, b, a, p)) m"

definition take_limit :: "rptree_cursor \<Rightarrow> (page_h \<times> rptree_cursor) option" where
  "take_limit r = do {
     rb \<leftarrow> rebalancer r;
     (h, rest) \<leftarrow> page_h_xfer_ownership (rc_pager r) (rb_limit rb);
     Some (h, set_rebalancer r (rb\<lparr>rb_limit := rest\<rparr>)) }"

definition limit_to_cur :: "rptree_cursor \<Rightarrow> rptree_cursor option" where
  \<comment> \<open>\<^verbatim>\<open>page_h_xfer_ownership_ptr (cur, limit)\<close>\<close>
  "limit_to_cur r = do {
     rb \<leftarrow> rebalancer r;
     (h, rest) \<leftarrow> page_h_xfer_ownership_ptr (rc_pager r) (rc_cur r) (rb_limit rb);
     Some (set_rebalancer (r\<lparr>rc_cur := h\<rparr>) (rb\<lparr>rb_limit := rest\<rparr>)) }"

definition limit_page :: "rptree_cursor \<Rightarrow> page option option" where
  "limit_page r = do { rb \<leftarrow> rebalancer r; page_h_ro_or_null (rc_pager r) (rb_limit rb) }"

definition commit_cur ::
  "(node_updates \<Rightarrow> pgno \<Rightarrow> b_size \<Rightarrow> node_updates option) \<Rightarrow> nupd_sel \<Rightarrow> rptree_cursor \<Rightarrow> rptree_cursor option" where
  \<comment> \<open>the current page and its size go to the updates of the layer\<close>
  "commit_cur f sel r = do {
     x \<leftarrow> cur_ro r;
     sz \<leftarrow> dlgt_get_size x;
     n \<leftarrow> f (nupd_of r sel) (pg x) sz;
     Some (nupd_put r sel n) }"

definition change_cur :: "(page \<Rightarrow> page option) \<Rightarrow> rptree_cursor \<Rightarrow> rptree_cursor option" where
  "change_cur f r = do { x \<leftarrow> cur_w r; x \<leftarrow> f x; cur_put r x }"

definition rptc_rebalance_right_to_left :: "rptree_cursor \<Rightarrow> (unit res \<times> rptree_cursor) option" where
  "rptc_rebalance_right_to_left r = do {
     (succ, r) \<leftarrow> take_limit r;
     rb \<leftarrow> rebalancer r;
     if nupd_done_left (nupd_of r (rb_input rb)) then
       err_wrap (balance_alone r page_h_create succ) (\<lambda>(out, root) r. do {
         r \<leftarrow> append_tip_right r (rb_output rb) out;
         rptc_rebalance_move_up_stack root r })
     else None }"

definition rptc_turn_right :: "neighbours \<Rightarrow> (unit res \<times> rptree_cursor) option" where
  "rptc_turn_right s = (case s of (r, prev, succ) \<Rightarrow> do {
     ASSERT (ph_mode prev = PHM_NONE \<and> ph_mode (rc_cur r) = PHM_X \<and> ph_mode succ = PHM_NONE);
     x \<leftarrow> cur_ro r;
     r \<leftarrow> change_cur (\<lambda>x. Some (in_set_len x IN_MAX_KEYS)) (r\<lparr>rc_lidx := in_get_len x\<rparr>);
     err_wrap (load_limit pgr_dlgt_get_next r) (\<lambda>_ r. do {
       rb \<leftarrow> rebalancer r;
       Some (Inr (), set_rebalancer r (rb\<lparr>rb_state := RPTRB_RIGHT\<rparr>)) }) })"

definition rptc_rebalance_left_to_right :: "rptree_cursor \<Rightarrow> (unit res \<times> rptree_cursor) option" where
  "rptc_rebalance_left_to_right r = do {
     (prev, r) \<leftarrow> take_limit r;
     rb \<leftarrow> rebalancer r;
     if nupd_done_right (nupd_of r (rb_input rb)) then
       err_wrap (balance_alone r prev page_h_create) (\<lambda>(out, root) r. do {
         r \<leftarrow> append_tip_left r (rb_output rb) out;
         rptc_rebalance_move_up_stack root r })
     else do {
       n \<leftarrow> cur_pgno r;
       tx \<leftarrow> rc_tx r;
       let pivot = ip_pg (nu_pivot (nupd_of r (rb_output rb)));
       err_wrap_to
         (if n \<noteq> pivot then
            err_wrap (rptc_balance_and_release (r, prev, page_h_create)) (\<lambda>(out, root) (r, prev, succ). do {
              r \<leftarrow> append_tip_left r (rb_output rb) out;
              on_cur3 (\<lambda>c p. pgr_get_writable c tx (pt_code PG_INNER_NODE) pivot p) (r, prev, succ) })
          else on_prev (\<lambda>h p. pgr_release_if_exists p h (pt_code PG_INNER_NODE)) (r, prev, page_h_create))
         fst (\<lambda>_ s. rptc_turn_right s) } }"

definition side_assert :: "rptrb_state \<Rightarrow> rptree_cursor \<Rightarrow> unit option" where
  \<comment> \<open>\<^verbatim>\<open>rptc_rebalance_right\<close> and \<^verbatim>\<open>rptc_rebalance_left\<close>\<close>
  "side_assert side r = do {
     rptc_rebalance_assert r;
     rb \<leftarrow> rebalancer r;
     ASSERT (rb_state rb = side);
     x \<leftarrow> cur_ro r;
     len \<leftarrow> dlgt_get_len x;
     ASSERT (len = IN_MAX_KEYS);
     ASSERT (rc_lidx r \<le> IN_MAX_KEYS) }"

definition fill_cur_right :: "rptree_cursor \<Rightarrow> rptree_cursor option" where
  "fill_cur_right r = do {
     rb \<leftarrow> rebalancer r;
     x \<leftarrow> cur_w r;
     (k, n, x) \<leftarrow> nupd_append_maximally_right (nupd_of r (rb_input rb)) x (rc_lidx r);
     cur_put (nupd_put (r\<lparr>rc_lidx := add32 (rc_lidx r) k\<rparr>) (rb_input rb) n) x }"

definition fill_cur_left :: "rptree_cursor \<Rightarrow> rptree_cursor option" where
  "fill_cur_left r = do {
     rb \<leftarrow> rebalancer r;
     x \<leftarrow> cur_w r;
     (k, n, x) \<leftarrow> nupd_append_maximally_left (nupd_of r (rb_input rb)) x (rc_lidx r);
     cur_put (nupd_put (r\<lparr>rc_lidx := sub32 (rc_lidx r) k\<rparr>) (rb_input rb) n) x }"

definition rptc_next_node_right :: "ptr \<Rightarrow> rptree_cursor \<Rightarrow> (unit res \<times> rptree_cursor) option" where
  \<comment> \<open>the page is full enough and entries are left: go on in the next one\<close>
  "rptc_next_node_right tx r = do {
     rb \<leftarrow> rebalancer r;
     err_wrap
       (if ph_mode (rb_limit rb) = PHM_NONE then on_cur_limit (\<lambda>c h p. pgr_dlgt_new_next_no_link c h tx p) r
        else on_limit (\<lambda>h p. pgr_maybe_make_writable p tx h) r)
       (\<lambda>_ r. do {
         r \<leftarrow> change_cur (\<lambda>x. Some (in_set_len x (rc_lidx r))) r;
         r \<leftarrow> commit_cur nupd_commit_1st_right (rb_output rb) r;
         err_wrap (on_cur (\<lambda>c p. pgr_release p c (pt_code PG_INNER_NODE)) r) (\<lambda>_ r. do {
           r \<leftarrow> limit_to_cur r;
           r \<leftarrow> change_cur (\<lambda>x. Some (in_set_len x IN_MAX_KEYS)) r;
           load_limit pgr_dlgt_get_next (r\<lparr>rc_lidx := 0\<rparr>) }) }) }"

definition rptc_rebalance_execute_right :: "rptree_cursor \<Rightarrow> (unit res \<times> rptree_cursor) option" where
  "rptc_rebalance_execute_right r = do {
     side_assert RPTRB_RIGHT r;
     rb \<leftarrow> rebalancer r;
     tx \<leftarrow> rc_tx r;
     if nupd_done_observing_right (nupd_of r (rb_input rb)) then do {
       r \<leftarrow> fill_cur_right r;
       if \<not> nupd_done_right (nupd_of r (rb_input rb)) then do {
         ASSERT (rc_lidx r = IN_MAX_KEYS);
         r \<leftarrow> commit_cur nupd_commit_1st_right (rb_output rb) r;
         err_wrap (on_cur_limit (\<lambda>c h p. pgr_dlgt_advance_new_next c h tx p) r) (\<lambda>_ r. do {
           r \<leftarrow> change_cur (\<lambda>x. Some (in_set_len x IN_MAX_KEYS)) r;
           Some (Inr (), r\<lparr>rc_lidx := 0\<rparr>) }) }
       else do {
         r \<leftarrow> change_cur (\<lambda>x. Some (in_set_len x (rc_lidx r))) r;
         rptc_rebalance_right_to_left r } }
     else do {
       lim \<leftarrow> limit_page r;
       n \<leftarrow> nupd_observe_all_right (nupd_of r (rb_input rb)) lim;
       r \<leftarrow> fill_cur_right (nupd_put r (rb_input rb) n);
       let n = nupd_of r (rb_input rb);
       if \<not> nupd_done_right n \<and> rc_lidx r > IN_MAX_KEYS div 2 then rptc_next_node_right tx r
       else do {
         ASSERT (nupd_done_consuming_right n);
         ASSERT (nupd_done_right n \<or> lim \<noteq> None);
         case lim of
           None \<Rightarrow> Some (Inr (), r)
         | Some y \<Rightarrow>
             err_wrap (on_cur_limit (\<lambda>c h p. pgr_dlgt_delete_and_fill_next c h tx p) r) (\<lambda>_ r. do {
               r \<leftarrow> commit_cur (\<lambda>n a b. nupd_append_2nd_right n a b (pg y) 0) (rb_output rb) r;
               Some (Inr (), r) }) } } }"

definition rptc_next_node_left :: "ptr \<Rightarrow> rptree_cursor \<Rightarrow> (unit res \<times> rptree_cursor) option" where
  "rptc_next_node_left tx r = do {
     rb \<leftarrow> rebalancer r;
     err_wrap
       (if ph_mode (rb_limit rb) = PHM_NONE then on_cur_limit (\<lambda>c h p. pgr_dlgt_new_prev_no_link c h tx p) r
        else on_limit (\<lambda>h p. pgr_maybe_make_writable p tx h) r)
       (\<lambda>_ r. do {
         r \<leftarrow> change_cur (\<lambda>x. in_cut_left x (rc_lidx r)) r;
         r \<leftarrow> commit_cur nupd_commit_1st_left (rb_output rb) r;
         err_wrap (on_cur (\<lambda>c p. pgr_release p c (pt_code PG_INNER_NODE)) r) (\<lambda>_ r. do {
           r \<leftarrow> limit_to_cur r;
           r \<leftarrow> change_cur (\<lambda>x. Some (in_set_len x IN_MAX_KEYS)) r;
           load_limit pgr_dlgt_get_prev (r\<lparr>rc_lidx := IN_MAX_KEYS\<rparr>) }) }) }"

definition rptc_rebalance_execute_left :: "rptree_cursor \<Rightarrow> (unit res \<times> rptree_cursor) option" where
  "rptc_rebalance_execute_left r = do {
     side_assert RPTRB_LEFT r;
     ASSERT (rc_state r = RPTS_IN_REBALANCING);
     rb \<leftarrow> rebalancer r;
     tx \<leftarrow> rc_tx r;
     if nupd_done_observing_left (nupd_of r (rb_input rb)) then do {
       r \<leftarrow> fill_cur_left r;
       if \<not> nupd_done_left (nupd_of r (rb_input rb)) then do {
         ASSERT (rc_lidx r = 0);
         r \<leftarrow> commit_cur nupd_commit_1st_left (rb_output rb) r;
         err_wrap (on_cur_limit (\<lambda>c h p. flip_handles (pgr_dlgt_advance_new_prev h c tx p)) r) (\<lambda>_ r. do {
           r \<leftarrow> change_cur (\<lambda>x. Some (in_set_len x IN_MAX_KEYS)) r;
           Some (Inr (), r\<lparr>rc_lidx := IN_MAX_KEYS\<rparr>) }) }
       else do {
         r \<leftarrow> change_cur (\<lambda>x. in_cut_left x (rc_lidx r)) r;
         x \<leftarrow> cur_ro r;
         rptc_rebalance_left_to_right (r\<lparr>rc_lidx := in_get_len x\<rparr>) } }
     else do {
       lim \<leftarrow> limit_page r;
       n \<leftarrow> nupd_observe_all_left (nupd_of r (rb_input rb)) lim;
       r \<leftarrow> fill_cur_left (nupd_put r (rb_input rb) n);
       let n = nupd_of r (rb_input rb);
       if \<not> nupd_done_left n \<and> sub32 IN_MAX_KEYS (rc_lidx r) > IN_MAX_KEYS div 2 then rptc_next_node_left tx r
       else do {
         ASSERT (nupd_done_consuming_left n);
         ASSERT (nupd_done_left n \<or> lim \<noteq> None);
         case lim of
           None \<Rightarrow> Some (Inr (), r)
         | Some y \<Rightarrow>
             err_wrap (on_cur_limit (\<lambda>c h p. flip_handles (pgr_dlgt_delete_and_fill_prev h c tx p)) r) (\<lambda>_ r. do {
               r \<leftarrow> commit_cur (\<lambda>n a b. nupd_append_2nd_left n a b (pg y) 0) (rb_output rb) r;
               Some (Inr (), r) }) } } }"

definition rptc_rebalance_execute :: "rptree_cursor \<Rightarrow> (unit res \<times> rptree_cursor) option" where
  "rptc_rebalance_execute r = do {
     rptc_rebalance_assert r;
     ASSERT (rc_state r = RPTS_IN_REBALANCING);
     rb \<leftarrow> rebalancer r;
     (case rb_state rb of
        RPTRB_RIGHT \<Rightarrow> rptc_rebalance_execute_right r
      | RPTRB_LEFT \<Rightarrow> rptc_rebalance_execute_left r) }"

section \<open>Inserting\<close>

definition rptc_inserting :: "rptree_cursor \<Rightarrow> unit option" where
  "rptc_inserting r = do {
     ASSERT (rc_tx r \<noteq> None);
     x \<leftarrow> cur_ro r;
     ASSERT (rc_lidx r = dl_used x);
     it \<leftarrow> inserter r;
     ASSERT (it_max it = 0 \<or> it_total it \<le> it_max it) }"

definition rptc_seeked_to_insert :: "rptree_cursor \<Rightarrow> cbuffer \<Rightarrow> b_size \<Rightarrow> (unit res \<times> rptree_cursor) option" where
  "rptc_seeked_to_insert r src max_write = do {
     rptc_seeked r;
     tx \<leftarrow> rc_tx r;
     err_wrap (on_cur (\<lambda>c p. pgr_maybe_make_writable p tx c) r) (\<lambda>_ r. do {
       x \<leftarrow> cur_ro r;
       last \<leftarrow> dlgt_get_next x;
       x \<leftarrow> cur_w r;
       (len, temp, x) \<leftarrow> dl_read_out_from x (rc_lidx r);
       r \<leftarrow> cur_put r x;
       n \<leftarrow> nupd_init (pg x) 0;
       let r = nupd_put r NUPD1 n;
       let r = r\<lparr>rc_member := MInsert \<lparr>it_src = src, it_total = 0, it_max = max_write, it_output = NUPD1,
         it_last = last, it_temp = temp, it_tbw = 0, it_tbl = len\<rparr>, rc_state := RPTS_DL_INSERTING\<rparr>;
       rptc_inserting r;
       Some (Inr (), r) }) }"

definition rptc_insert_advance :: "rptree_cursor \<Rightarrow> (unit res \<times> rptree_cursor) option" where
  "rptc_insert_advance r = do {
     rptc_inserting r;
     tx \<leftarrow> rc_tx r;
     it \<leftarrow> inserter r;
     err_wrap_to (pgr_dlgt_new_next_no_link (rc_cur r) page_h_create tx (rc_pager r))
       (\<lambda>(c, _, p). r\<lparr>rc_cur := c, rc_pager := p\<rparr>) (\<lambda>_ (c, succ, p). do {
       r \<leftarrow> commit_cur nupd_commit_1st_right (it_output it) (r\<lparr>rc_cur := c, rc_pager := p\<rparr>);
       err_wrap (on_cur (\<lambda>c p. pgr_release p c (pt_code PG_DATA_LIST)) r) (\<lambda>_ r. do {
         (h, _) \<leftarrow> page_h_xfer_ownership_ptr (rc_pager r) (rc_cur r) succ;
         Some (Inr (), r\<lparr>rc_cur := h, rc_lidx := 0\<rparr>) }) }) }"

definition rptc_insert_next :: "rptree_cursor \<Rightarrow> p_size option" where
  "rptc_insert_next r = do {
     rptc_inserting r;
     x \<leftarrow> cur_ro r;
     it \<leftarrow> inserter r;
     let n = min (dl_avail x) (cbuffer_len (it_src it));
     Some (if it_max it > 0 then min n (unat (it_max it - it_total it)) else n) }"

definition rptc_insert_temp_buf :: "rptree_cursor \<Rightarrow> (unit res \<times> rptree_cursor) option" where
  \<comment> \<open>\<^verbatim>\<open>rptc_insert_execute_from_temp_buf\<close>\<close>
  "rptc_insert_temp_buf r = do {
     rptc_inserting r;
     it \<leftarrow> inserter r;
     x \<leftarrow> cur_w r;
     (k, x) \<leftarrow> dl_append x (drop (it_tbw it) (it_temp it)) (sub32 (it_tbl it) (it_tbw it));
     r \<leftarrow> cur_put r x;
     let it = it\<lparr>it_tbw := add32 (it_tbw it) k\<rparr>;
     let r = r\<lparr>rc_lidx := add32 (rc_lidx r) k, rc_member := MInsert it\<rparr>;
     if rc_lidx r = DL_DATA_SIZE \<and> it_tbw it < it_tbl it then rptc_insert_advance r
     else Some (Inr (), r) }"

partial_function (option) rptc_insert_drain :: "rptree_cursor \<Rightarrow> (unit res \<times> rptree_cursor) option" where
  "rptc_insert_drain r = do {
     it \<leftarrow> inserter r;
     if it_tbw it < it_tbl it then do {
       (e, r) \<leftarrow> rptc_insert_temp_buf r;
       if isl e then Some (e, r) else rptc_insert_drain r }
     else Some (Inr (), r) }"

definition rptc_insert_to_rebalancing_or_unseeked :: "rptree_cursor \<Rightarrow> (unit res \<times> rptree_cursor) option" where
  "rptc_insert_to_rebalancing_or_unseeked r = do {
     rptc_inserting r;
     tx \<leftarrow> rc_tx r;
     err_wrap (rptc_insert_drain r) (\<lambda>_ r. do {
       it \<leftarrow> inserter r;
       x \<leftarrow> cur_ro r;
       n \<leftarrow> dlgt_get_next x;
       err_wrap_to
         (if it_last it \<noteq> PGNO_NULL \<and> it_last it \<noteq> n then
            err_wrap (pgr_get_writable page_h_create tx (pt_code PG_DATA_LIST) (it_last it) (rc_pager r)) (\<lambda>_ (succ, p). do {
              _ \<leftarrow> page_h_w p (rc_cur r);
              _ \<leftarrow> page_h_w p succ;
              p \<leftarrow> pgr_link p (rc_cur r) succ;
              Some (Inr (), succ, p) })
          else Some (Inr (), page_h_create, rc_pager r))
         (\<lambda>(_, p). r\<lparr>rc_pager := p\<rparr>) (\<lambda>_ (succ, p).
         err_wrap (balance_alone (r\<lparr>rc_pager := p\<rparr>) page_h_create succ) (\<lambda>(out, root) r. do {
           r \<leftarrow> append_tip_right r (it_output it) out;
           rptc_rebalance_move_up_stack root r })) }) }"

definition rptc_insert_chunk :: "p_size \<Rightarrow> rptree_cursor \<Rightarrow> (unit res \<times> rptree_cursor) option" where
  "rptc_insert_chunk n r = do {
     it \<leftarrow> inserter r;
     x \<leftarrow> cur_w r;
     (x, src) \<leftarrow> dl_append_from_cbuffer x (it_src it) n;
     r \<leftarrow> cur_put r x;
     let it = it\<lparr>it_src := src, it_total := it_total it + of_nat n\<rparr>;
     let r = r\<lparr>rc_lidx := add32 (rc_lidx r) n, rc_total_size := rc_total_size r + of_nat n, rc_member := MInsert it\<rparr>;
     if it_max it > 0 \<and> it_max it = it_total it then rptc_insert_to_rebalancing_or_unseeked r
     else Some (Inr (), r) }"

definition rptc_insert_execute :: "rptree_cursor \<Rightarrow> (unit res \<times> rptree_cursor) option" where
  "rptc_insert_execute r = do {
     rptc_inserting r;
     n \<leftarrow> rptc_insert_next r;
     it \<leftarrow> inserter r;
     if n = 0 then
       (if cbuffer_len (it_src it) = 0 then Some (Inr (), r)
        else if rc_lidx r = DL_DATA_SIZE then
          err_wrap (rptc_insert_advance r) (\<lambda>_ r. do {
            n \<leftarrow> rptc_insert_next r;
            ASSERT (n > 0);
            rptc_insert_chunk n r })
        else None)
     else rptc_insert_chunk n r }"

end
