(* ===== verification/Rptree_Remove.thy ===== *)
theory Rptree_Remove
  imports Rptree_Ops
begin

text \<open>
Removing from the tree (\<^verbatim>\<open>_remove.c\<close>) and the check of a whole tree (\<^verbatim>\<open>rptc_validate\<close> in
\<^verbatim>\<open>rptree_cursor.c\<close>).

Removing works with a page that is written (\<^verbatim>\<open>cur\<close>) and a page that is read (\<^verbatim>\<open>src\<close>), which is the
same page until it is used up; what is kept is moved down from the source.
\<close>

section \<open>Removing\<close>

definition set_remover :: "rptree_cursor \<Rightarrow> rptc_remove \<Rightarrow> rptree_cursor" where
  "set_remover r rm = r\<lparr>rc_member := MRemove rm\<rparr>"

definition remove_src :: "rptree_cursor \<Rightarrow> page_h option" where
  \<comment> \<open>\<^verbatim>\<open>rptc_remove_src\<close> and \<^verbatim>\<open>rptc_remove_csrc\<close>\<close>
  "remove_src r = do {
     rm \<leftarrow> remover r;
     Some (if ph_mode (rm_src rm) = PHM_NONE then rc_cur r else rm_src rm) }"

definition src_ro :: "rptree_cursor \<Rightarrow> page option" where
  "src_ro r = do { h \<leftarrow> remove_src r; page_h_ro (rc_pager r) h }"

definition rptc_removing :: "rptree_cursor \<Rightarrow> unit option" where
  "rptc_removing r = do {
     ASSERT (rc_root r \<noteq> PGNO_NULL);
     ASSERT (rc_tx r \<noteq> None);
     rm \<leftarrow> remover r;
     x \<leftarrow> src_ro r;
     ASSERT (rm_sidx rm \<le> dl_used x) }"

definition rptc_seeked_to_remove ::
  "rptree_cursor \<Rightarrow> cbuffer option \<Rightarrow> b_size \<Rightarrow> nat \<Rightarrow> nat \<Rightarrow> (unit res \<times> rptree_cursor) option" where
  "rptc_seeked_to_remove r dest max_remove bsize stride = do {
     rptc_seeked r;
     ASSERT (bsize > 0);
     ASSERT (stride > 0);
     tx \<leftarrow> rc_tx r;
     err_wrap (on_cur (\<lambda>c p. pgr_maybe_make_writable p tx c) r) (\<lambda>_ r. do {
       let r = set_remover r \<lparr>rm_dest = dest, rm_total = 0, rm_bsize = bsize, rm_stride = of_nat stride,
         rm_max = max_remove * of_nat bsize, rm_output = NUPD1, rm_src = page_h_create, rm_sidx = rc_lidx r,
         rm_bnext = of_nat bsize, rm_state = DLREMOVE_REMOVING\<rparr>;
       x \<leftarrow> cur_ro r;
       n \<leftarrow> nupd_init (pg x) (of_nat (dl_used x));
       let r = (nupd_put r NUPD1 n)\<lparr>rc_state := RPTS_DL_REMOVING\<rparr>;
       rptc_removing r;
       Some (Inr (), r) }) }"

definition rptc_remove_advance_cur :: "rptree_cursor \<Rightarrow> (unit res \<times> rptree_cursor) option" where
  "rptc_remove_advance_cur r = do {
     rptc_removing r;
     ASSERT (rc_lidx r > DL_DATA_SIZE div 2);
     rm \<leftarrow> remover r;
     r \<leftarrow> change_cur (\<lambda>x. Some (in_set_len x (rc_lidx r))) r;
     r \<leftarrow> commit_cur nupd_commit_1st_right (rm_output rm) r;
     err_wrap
       (if ph_mode (rm_src rm) = PHM_NONE then on_cur (\<lambda>c p. pgr_dlgt_advance_next c (rc_tx r) p) r
        else err_wrap (on_cur (\<lambda>c p. pgr_release p c (pt_code PG_DATA_LIST)) r) (\<lambda>_ r. do {
          (h, rest) \<leftarrow> page_h_xfer_ownership (rc_pager r) (rm_src rm);
          Some (Inr (), set_remover (r\<lparr>rc_cur := h\<rparr>) (rm\<lparr>rm_src := rest\<rparr>)) }))
       (\<lambda>_ r. Some (Inr (), r\<lparr>rc_lidx := 0\<rparr>)) }"

definition remove_load_src :: "rptree_cursor \<Rightarrow> (unit res \<times> rptree_cursor) option" where
  \<comment> \<open>the next page becomes the source\<close>
  "remove_load_src r = do {
     rm \<leftarrow> remover r;
     (e, h, p) \<leftarrow> pgr_dlgt_get_next (rc_cur r) (rm_src rm) (rc_tx r) (rc_pager r);
     Some (e, set_remover (r\<lparr>rc_pager := p\<rparr>) (rm\<lparr>rm_src := h\<rparr>)) }"

definition remove_delete_src :: "rptree_cursor \<Rightarrow> (unit res \<times> rptree_cursor) option" where
  \<comment> \<open>the source is used up: delete it, its next page becomes the source\<close>
  "remove_delete_src r = do {
     rm \<leftarrow> remover r;
     tx \<leftarrow> rc_tx r;
     npg \<leftarrow> page_h_pgno (rc_pager r) (rm_src rm);
     (e, c, h, p) \<leftarrow> pgr_dlgt_delete_and_fill_next (rc_cur r) (rm_src rm) tx (rc_pager r);
     let r = set_remover (r\<lparr>rc_cur := c, rc_pager := p\<rparr>) (rm\<lparr>rm_src := h\<rparr>);
     case e of
       Inl e \<Rightarrow> Some (Inl e, r)
     | Inr _ \<Rightarrow> do {
         r \<leftarrow> commit_cur (\<lambda>n a b. nupd_append_2nd_right n a b npg 0) (rm_output rm) r;
         Some (Inr (), r) } }"

definition rptc_remove_advance_src :: "rptree_cursor \<Rightarrow> (bool res \<times> rptree_cursor) option" where
  \<comment> \<open>the boolean is \<^verbatim>\<open>iseof\<close>\<close>
  "rptc_remove_advance_src r = do {
     rptc_removing r;
     rm \<leftarrow> remover r;
     err_wrap
       (if ph_mode (rm_src rm) = PHM_NONE then remove_load_src r
        else if rc_lidx r > DL_DATA_SIZE div 2 then
          err_wrap (rptc_remove_advance_cur r) (\<lambda>_ r. do {
            n \<leftarrow> cur_pgno r;
            x \<leftarrow> src_ro r;
            ASSERT (n = pg x);
            remove_load_src r })
        else remove_delete_src r)
       (\<lambda>_ r. do {
         rm \<leftarrow> remover r;
         if ph_mode (rm_src rm) = PHM_NONE then do {
           r \<leftarrow> change_cur (\<lambda>x. Some (in_set_len x (rc_lidx r))) r;
           Some (Inr True, set_remover r (rm\<lparr>rm_sidx := rc_lidx r\<rparr>)) }
         else Some (Inr False, set_remover r (rm\<lparr>rm_sidx := 0\<rparr>)) }) }"

definition rptc_remove_removing_next :: "rptree_cursor \<Rightarrow> p_size option" where
  "rptc_remove_removing_next r = do {
     rm \<leftarrow> remover r;
     x \<leftarrow> src_ro r;
     let n = to_u32 (rm_bnext rm);
     let n = min n (sub32 DL_DATA_SIZE (rc_lidx r));
     let n = min n (sub32 (dl_used x) (rm_sidx rm));
     n \<leftarrow> (case rm_dest rm of Some b \<Rightarrow> do { a \<leftarrow> cbuffer_avail b; Some (min n a) } | None \<Rightarrow> Some n);
     Some (if rm_max rm > 0 then min n (unat (rm_max rm - rm_total rm)) else n) }"

definition rptc_remove_skipping_next :: "rptree_cursor \<Rightarrow> p_size option" where
  "rptc_remove_skipping_next r = do {
     rm \<leftarrow> remover r;
     x \<leftarrow> src_ro r;
     let n = to_u32 (rm_bnext rm);
     let n = min n (sub32 (dl_used x) (rm_sidx rm));
     Some (min n (sub32 DL_DATA_SIZE (rc_lidx r))) }"

definition rptc_remove_drain_src_next :: "rptree_cursor \<Rightarrow> p_size option" where
  "rptc_remove_drain_src_next r = do {
     rm \<leftarrow> remover r;
     x \<leftarrow> src_ro r;
     Some (min (sub32 DL_DATA_SIZE (rc_lidx r)) (sub32 (dl_used x) (rm_sidx rm))) }"

definition keep_bytes :: "p_size \<Rightarrow> rptree_cursor \<Rightarrow> rptree_cursor option" where
  \<comment> \<open>move bytes from the source down to the current page\<close>
  "keep_bytes n r = do {
     rm \<leftarrow> remover r;
     src \<leftarrow> src_ro r;
     r \<leftarrow> change_cur (\<lambda>x. dl_dl_memmove_permissive x src (rc_lidx r) (rm_sidx rm) n) r;
     Some (set_remover (r\<lparr>rc_lidx := add32 (rc_lidx r) n\<rparr>) (rm\<lparr>rm_sidx := add32 (rm_sidx rm) n\<rparr>)) }"

partial_function (option) rptc_remove_drain_src :: "rptree_cursor \<Rightarrow> (unit res \<times> rptree_cursor) option" where
  "rptc_remove_drain_src r = do {
     rptc_removing r;
     n \<leftarrow> rptc_remove_drain_src_next r;
     rm \<leftarrow> remover r;
     src \<leftarrow> src_ro r;
     if n = 0 then
       (if rm_sidx rm = dl_used src then do {
          r \<leftarrow> change_cur (\<lambda>x. dl_set_used x (rc_lidx r)) r;
          if ph_mode (rm_src rm) \<noteq> PHM_NONE then remove_delete_src r else Some (Inr (), r) }
        else if rc_lidx r \<ge> DL_DATA_SIZE then do {
          ASSERT (ph_mode (rm_src rm) \<noteq> PHM_NONE);
          (e, r) \<leftarrow> rptc_remove_advance_cur r;
          if isl e then Some (e, r)
          else do {
            n \<leftarrow> rptc_remove_drain_src_next r;
            ASSERT (n > 0);
            r \<leftarrow> keep_bytes n r;
            rptc_remove_drain_src r } }
        else None)
     else do { r \<leftarrow> keep_bytes n r; rptc_remove_drain_src r } }"

definition rptc_remove_to_rebalancing_or_unseeked :: "rptree_cursor \<Rightarrow> (unit res \<times> rptree_cursor) option" where
  "rptc_remove_to_rebalancing_or_unseeked r = do {
     rptc_removing r;
     err_wrap (rptc_remove_drain_src r) (\<lambda>_ r. do {
       rm \<leftarrow> remover r;
       if rm_total rm mod of_nat (rm_bsize rm) \<noteq> 0 then Some (Inl ERR_CORRUPT, r)
       else do {
         (succ, rest) \<leftarrow> page_h_xfer_ownership (rc_pager r) (rm_src rm);
         let r = set_remover r (rm\<lparr>rm_src := rest\<rparr>);
         err_wrap (balance_alone r page_h_create succ) (\<lambda>(out, root) r. do {
           r \<leftarrow> append_tip_right r (rm_output rm) out;
           rptc_rebalance_move_up_stack root r }) } }) }"

definition remove_stalled :: "rptree_cursor \<Rightarrow> (unit res \<times> rptree_cursor) option" where
  \<comment> \<open>the two last cases of a step that can move nothing\<close>
  "remove_stalled r = do {
     rm \<leftarrow> remover r;
     src \<leftarrow> src_ro r;
     if rm_sidx rm = dl_used src then
       err_wrap (rptc_remove_advance_src r) (\<lambda>iseof r.
         if iseof then rptc_remove_to_rebalancing_or_unseeked r else Some (Inr (), r))
     else if rc_lidx r = DL_DATA_SIZE then rptc_remove_advance_cur r
     else None }"

definition remove_bytes :: "p_size \<Rightarrow> rptree_cursor \<Rightarrow> rptree_cursor option" where
  \<comment> \<open>the bytes go to the caller's buffer, if there is one\<close>
  "remove_bytes n r = do {
     rm \<leftarrow> remover r;
     ASSERT (rm_total rm + of_nat n \<le> rm_max rm);
     src \<leftarrow> src_ro r;
     dest \<leftarrow> (case rm_dest rm of
         Some b \<Rightarrow> do { (m, b) \<leftarrow> dl_read_into_cbuffer src (Some b) (rm_sidx rm) n; ASSERT (m = n); Some b }
       | None \<Rightarrow> Some None);
     ASSERT (rc_total_size r \<ge> of_nat n);
     let rm = rm\<lparr>rm_dest := dest, rm_sidx := add32 (rm_sidx rm) n, rm_total := rm_total rm + of_nat n,
       rm_bnext := rm_bnext rm - of_nat n\<rparr>;
     let rm = (if rm_bnext rm = 0 then
         (let rm = rm\<lparr>rm_bnext := of_nat (rm_bsize rm) * (rm_stride rm - 1)\<rparr>
          in if rm_bnext rm > 0 then rm\<lparr>rm_state := DLREMOVE_SKIPPING\<rparr>
             else rm\<lparr>rm_bnext := of_nat (rm_bsize rm)\<rparr>)
       else rm);
     Some (set_remover (r\<lparr>rc_total_size := rc_total_size r - of_nat n\<rparr>) rm) }"

definition skip_bytes :: "p_size \<Rightarrow> rptree_cursor \<Rightarrow> rptree_cursor option" where
  "skip_bytes n r = do {
     rm \<leftarrow> remover r;
     src \<leftarrow> src_ro r;
     ASSERT (n \<le> sub32 DL_DATA_SIZE (rc_lidx r));
     ASSERT (n \<le> sub32 (dl_used src) (rm_sidx rm));
     r \<leftarrow> keep_bytes n r;
     rm \<leftarrow> remover r;
     let rm = rm\<lparr>rm_bnext := rm_bnext rm - of_nat n\<rparr>;
     Some (set_remover r (if rm_bnext rm = 0
       then rm\<lparr>rm_bnext := of_nat (rm_bsize rm), rm_state := DLREMOVE_REMOVING\<rparr> else rm)) }"

partial_function (option) rptc_remove_execute :: "rptree_cursor \<Rightarrow> (unit res \<times> rptree_cursor) option" where
  "rptc_remove_execute r = do {
     rptc_removing r;
     rm \<leftarrow> remover r;
     if rm_state rm = DLREMOVE_REMOVING then do {
       n \<leftarrow> rptc_remove_removing_next r;
       full \<leftarrow> (case rm_dest rm of Some b \<Rightarrow> do { a \<leftarrow> cbuffer_avail b; Some (a = 0) } | None \<Rightarrow> Some False);
       if n = 0 then (if full then Some (Inr (), r) else remove_stalled r)
       else do {
         r \<leftarrow> remove_bytes n r;
         rm \<leftarrow> remover r;
         if rm_max rm > 0 \<and> rm_max rm = rm_total rm then rptc_remove_to_rebalancing_or_unseeked r
         else rptc_remove_execute r } }
     else do {
       n \<leftarrow> rptc_remove_skipping_next r;
       if n = 0 then remove_stalled r
       else do { r \<leftarrow> skip_bytes n r; rptc_remove_execute r } } }"

section \<open>The check of a whole tree\<close>

abbreviation VALIDATE_CAP :: nat where "VALIDATE_CAP \<equiv> 204800"

record validation =
  va_pager :: pager
  va_table :: "u8 hash_table"

definition va_get :: "u8 \<Rightarrow> pgno \<Rightarrow> validation \<Rightarrow> (page_h res \<times> validation) option" where
  \<comment> \<open>\<^verbatim>\<open>pgr_get\<close> into a fresh handle\<close>
  "va_get flags n s = do {
     (e, h, p) \<leftarrow> pgr_get page_h_create flags n (va_pager s);
     Some (map_sum id (\<lambda>_. h) e, s\<lparr>va_pager := p\<rparr>) }"

definition va_release :: "page_h \<Rightarrow> u8 \<Rightarrow> validation \<Rightarrow> (page_h res \<times> validation) option" where
  "va_release h flags s = do {
     (e, h, p) \<leftarrow> pgr_release (va_pager s) h flags;
     Some (map_sum id (\<lambda>_. h) e, s\<lparr>va_pager := p\<rparr>) }"

definition va_insert :: "pgno \<Rightarrow> validation \<Rightarrow> (unit res \<times> validation) option" where
  "va_insert n s = do {
     (res, ht) \<leftarrow> ht_insert (va_table s) \<lparr>hkey = n, hvalue = 0\<rparr>;
     Some (case res of
         HTIR_EXISTS \<Rightarrow> Inl ERR_NOMEM
       | HTIR_FULL \<Rightarrow> Inl ERR_RPTREE_INVALID
       | HTIR_SUCCESS \<Rightarrow> Inr (), s\<lparr>va_table := ht\<rparr>) }"

definition va_outer_leaf :: "u8 \<Rightarrow> pgno \<Rightarrow> (page \<Rightarrow> pgno option) \<Rightarrow> validation \<Rightarrow> (pgno res \<times> validation) option" where
  \<comment> \<open>the leaf at the near end of the neighbour node, or null\<close>
  "va_outer_leaf ctype n leaf s =
     (if n = PGNO_NULL then Some (Inr PGNO_NULL, s)
      else err_wrap (va_get ctype n s) (\<lambda>h s. do {
        x \<leftarrow> page_h_ro (va_pager s) h;
        l \<leftarrow> leaf x;
        err_wrap (va_release h ctype s) (\<lambda>_ s. Some (Inr l, s)) }))"

definition va_neighbours :: "u8 \<Rightarrow> page \<Rightarrow> p_size \<Rightarrow> p_size \<Rightarrow> validation \<Rightarrow> ((pgno \<times> pgno) res \<times> validation) option" where
  \<comment> \<open>the pages that the child at the index must have as its neighbours\<close>
  "va_neighbours ctype x i len s = do {
     prev \<leftarrow> dlgt_get_prev x;
     succ \<leftarrow> dlgt_get_next x;
     err_wrap (if i = 0 then va_outer_leaf ctype prev (\<lambda>y. do { m \<leftarrow> dlgt_get_len y; in_get_leaf y (sub32 m 1) }) s
               else do { l \<leftarrow> in_get_leaf x (i - 1); Some (Inr l, s) }) (\<lambda>eprev s.
     err_wrap (if i + 1 < len then do { l \<leftarrow> in_get_leaf x (i + 1); Some (Inr l, s) }
               else va_outer_leaf ctype succ (\<lambda>y. in_get_leaf y 0) s) (\<lambda>enext s.
       Some (Inr (eprev, enext), s))) }"

definition va_check_child :: "page \<Rightarrow> u8 \<Rightarrow> b_size \<Rightarrow> pgno \<Rightarrow> pgno \<Rightarrow> unit res option" where
  "va_check_child y type key eprev enext = do {
     sz \<leftarrow> dlgt_get_size y;
     prev \<leftarrow> dlgt_get_prev y;
     succ \<leftarrow> dlgt_get_next y;
     Some (if page_get_type y \<noteq> type \<or> key \<noteq> sz \<or> prev \<noteq> eprev \<or> succ \<noteq> enext
           then Inl ERR_RPTREE_INVALID else Inr ()) }"

definition va_child ::
  "u8 \<Rightarrow> u8 option \<Rightarrow> page_h \<Rightarrow> p_size \<Rightarrow> validation \<Rightarrow> ((page_h \<times> u8 \<times> pgno) res \<times> page_h \<times> validation) option" where
  \<comment> \<open>the child at the index, checked; the node is released. The handle of the child, the type of the layer
      and the number of the node; the handle of the node as it is then\<close>
  "va_child ctype type cur i s = do {
     x \<leftarrow> page_h_ro (va_pager s) cur;
     len \<leftarrow> dlgt_get_len x;
     n \<leftarrow> in_get_leaf x i;
     key \<leftarrow> in_get_key x i;
     if key = 0 then Some (Inl ERR_RPTREE_INVALID, cur, s)
     else err_wrap_to (va_get DL_OR_IN n s) (\<lambda>s. (cur, s)) (\<lambda>iter s. do {
       y \<leftarrow> page_h_ro (va_pager s) iter;
       type \<leftarrow> (if i = 0 then Some (page_get_type y) else type);
       err_wrap_to (va_neighbours ctype x i len s) (\<lambda>s. (cur, s)) (\<lambda>(eprev, enext) s. do {
         res \<leftarrow> va_check_child y type key eprev enext;
         case res of
           Inl e \<Rightarrow> Some (Inl e, cur, s)
         | Inr _ \<Rightarrow> do {
             (e, h, p) \<leftarrow> pgr_release (va_pager s) cur ctype;
             Some (map_sum id (\<lambda>_. (iter, type, pg x)) e, h, s\<lparr>va_pager := p\<rparr>) } }) }) }"

text \<open>The recursion over the tree, with the loop over the children of a node in the second case of its
  argument: the node, the type of the layer below, and the index. The handle in the result is the
  one the code was given, as the code leaves it.\<close>

datatype va_task = VaLayer page_h | VaChildren page_h "u8 option" p_size

partial_function (option) rptc_validate_go :: "va_task \<Rightarrow> validation \<Rightarrow> (unit res \<times> page_h \<times> validation) option" where
  "rptc_validate_go task s = (case task of
       VaLayer cur \<Rightarrow> do {
         x \<leftarrow> page_h_ro (va_pager s) cur;
         (e, s) \<leftarrow> va_insert (pg x) s;
         if isl e then Some (e, cur, s)
         else do {
           v \<leftarrow> page_validate_for_db x (page_get_type x);
           if isl v then Some (v, cur, s)
           else if page_get_type x = pt_code PG_INNER_NODE then rptc_validate_go (VaChildren cur None 0) s
           else if page_get_type x = pt_code PG_DATA_LIST then Some (Inr (), cur, s)
           else None } }
     | VaChildren cur type i \<Rightarrow> do {
         x \<leftarrow> page_h_ro (va_pager s) cur;
         len \<leftarrow> dlgt_get_len x;
         if i < len then do {
           (e, cur, s) \<leftarrow> va_child (page_get_type x) type cur i s;
           if isl e then Some (Inl (projl e), cur, s)
           else do {
             let (iter, type, cpg) = projr e;
             (e, iter, s) \<leftarrow> rptc_validate_go (VaLayer iter) s;
             if isl e then Some (e, cur, s)
             else do {
               (e, _, p) \<leftarrow> pgr_release (va_pager s) iter type;
               if isl e then Some (e, cur, s\<lparr>va_pager := p\<rparr>)
               else do {
                 (e, cur, p) \<leftarrow> pgr_get cur (page_get_type x) cpg p;
                 if isl e then Some (e, cur, s\<lparr>va_pager := p\<rparr>)
                 else rptc_validate_go (VaChildren cur (Some type) (i + 1)) (s\<lparr>va_pager := p\<rparr>) } } } }
         else Some (Inr (), cur, s) })"

definition validate_end :: "unit res \<Rightarrow> page_h \<Rightarrow> pager \<Rightarrow> rptree_cursor \<Rightarrow> (unit res \<times> rptree_cursor) option" where
  \<comment> \<open>the label \<^verbatim>\<open>theend\<close>: the root is released if its handle still holds it\<close>
  "validate_end e h p r =
     (if ph_mode h \<noteq> PHM_NONE then do {
        t \<leftarrow> page_h_type p h;
        (e', _, p) \<leftarrow> pgr_release p h t;
        Some (if isl e then e else e', r\<lparr>rc_pager := p\<rparr>) }
      else Some (e, r\<lparr>rc_pager := p\<rparr>))"

definition rptc_validate :: "bool \<Rightarrow> rptree_cursor \<Rightarrow> (unit res \<times> rptree_cursor) option" where
  \<comment> \<open>the boolean: the allocation of the table succeeds\<close>
  "rptc_validate ok r = do {
     rptc_unseeked r;
     if rc_root r = PGNO_NULL then Some (Inr (), r)
     else if \<not> ok then Some (Inl ERR_NOMEM, r)
     else do {
       (e, h, p) \<leftarrow> pgr_get page_h_create DL_OR_IN (rc_root r) (rc_pager r);
       if isl e then validate_end e h p r
       else do {
         x \<leftarrow> page_h_ro p h;
         prev \<leftarrow> dlgt_get_prev x;
         succ \<leftarrow> dlgt_get_next x;
         if prev \<noteq> PGNO_NULL \<or> succ \<noteq> PGNO_NULL then validate_end (Inl ERR_RPTREE_INVALID) h p r
         else do {
           (e, h, s) \<leftarrow> rptc_validate_go (VaLayer h) \<lparr>va_pager = p, va_table = ht_init 0 VALIDATE_CAP\<rparr>;
           validate_end e h (va_pager s) r } } } }"

end
