(* ===== verification/Rptree_Seek.thy ===== *)
theory Rptree_Seek
  imports Pager_Txn Rptree_Cursor
begin

text \<open>
What the tree on the pages means, and that seeking finds the byte. A \<open>rope\<close> is the tree with the
numbers of its pages; \<open>rope_in v n t\<close> says that the pages \<open>v\<close> hold it: a leaf's page holds its
bytes, an inner node's page holds, in order, the page of each child with the number of bytes below it.
\<open>leaves\<close> is the sequence of leaves, and the bytes of the rope are theirs in order.

\<open>readers m\<close> says of a pager that at most \<open>m\<close> frames are in use, all of them only for reading.
\<close>

section \<open>Ropes\<close>

datatype rope = RLeaf pgno "u8 list" | RNode pgno "rope list"

fun rope_pg :: "rope \<Rightarrow> pgno" where
  "rope_pg (RLeaf n bs) = n"
| "rope_pg (RNode n ts) = n"

fun leaves :: "rope \<Rightarrow> (pgno \<times> u8 list) list" where
  "leaves (RLeaf n bs) = [(n, bs)]"
| "leaves (RNode n ts) = concat (map leaves ts)"

definition leaf_bytes :: "(pgno \<times> u8 list) list \<Rightarrow> u8 list" where
  "leaf_bytes ls = concat (map snd ls)"

definition rope_bytes :: "rope \<Rightarrow> u8 list" where
  "rope_bytes t = leaf_bytes (leaves t)"

fun depth :: "rope \<Rightarrow> nat" where
  "depth (RLeaf n bs) = 0"
| "depth (RNode n ts) = Suc (foldr max (map depth ts) 0)"

lemma leaf_bytes_simps [simp]:
  "leaf_bytes [] = []" "leaf_bytes (x # xs) = snd x @ leaf_bytes xs"
  "leaf_bytes (xs @ ys) = leaf_bytes xs @ leaf_bytes ys"
  by (simp_all add: leaf_bytes_def)

lemma rope_bytes_simps [simp]:
  "rope_bytes (RLeaf n bs) = bs"
  "rope_bytes (RNode n ts) = concat (map rope_bytes ts)"
  by (simp_all add: rope_bytes_def) (induction ts; simp add: rope_bytes_def)

lemma depth_child: "t \<in> set ts \<Longrightarrow> depth t \<le> foldr max (map depth ts) 0"
  by (induction ts) auto

definition child_pair :: "rope \<Rightarrow> pgno \<times> b_size" where
  "child_pair t = (rope_pg t, of_nat (length (rope_bytes t)))"

fun rope_in :: "(pgno \<Rightarrow> u8 list) \<Rightarrow> nat \<Rightarrow> rope \<Rightarrow> bool" where
  "rope_in v N (RLeaf n bs) \<longleftrightarrow>
     (let x = \<lparr>raw = v n, pg = n\<rparr>
      in unat n < N \<and> valid_bytes (v n) DL_OR_IN \<and> page_get_type x = pt_code PG_DATA_LIST \<and> wf_dl x \<and> dl_bytes x = bs)"
| "rope_in v N (RNode n ts) \<longleftrightarrow>
     (let x = \<lparr>raw = v n, pg = n\<rparr>
      in unat n < N \<and> valid_bytes (v n) DL_OR_IN \<and> page_get_type x = pt_code PG_INNER_NODE \<and> wf_in x \<and>
         ts \<noteq> [] \<and> in_pairs x = map child_pair ts \<and> length (rope_bytes (RNode n ts)) < 2 ^ 64 \<and>
         list_all (rope_in v N) ts)"

lemma rope_in_page: "rope_in v N t \<Longrightarrow> unat (rope_pg t) < N \<and> valid_bytes (v (rope_pg t)) DL_OR_IN"
  by (cases t) (simp_all add: Let_def)

lemma length_concat_take:
  "i \<le> length ts \<Longrightarrow> length (concat (map f (take i ts))) \<le> length (concat (map f ts))"
  by (metis append_take_drop_id concat_append length_append map_append le_add1)

lemma key_sum_children:
  assumes "in_pairs x = map child_pair ts" and "length (concat (map rope_bytes ts)) < 2 ^ 64"
  shows "in_key_sum x i = length (concat (map rope_bytes (take i ts)))"
proof -
  have small: "length (rope_bytes t) < 2 ^ 64" if "t \<in> set (take i ts)" for t
  proof -
    from that have "t \<in> set ts" by (rule in_set_takeD)
    then obtain a b where "ts = a @ t # b" by (meson split_list)
    with assms(2) show ?thesis by simp
  qed
  have "in_key_sum x i = sum_list (map (\<lambda>t. unat (snd (child_pair t))) (take i ts))"
    unfolding assms(1) by (simp add: take_map comp_def)
  also have "\<dots> = sum_list (map (\<lambda>t. length (rope_bytes t)) (take i ts))"
    using small by (intro arg_cong [where f = sum_list] map_cong refl) (simp add: child_pair_def unat_of_nat)
  finally show ?thesis by (simp add: length_concat comp_def)
qed

section \<open>Pages held for reading\<close>

definition readers :: "nat \<Rightarrow> pager \<Rightarrow> bool" where
  "readers m p \<longleftrightarrow> pool_inv p \<and> card (used p) \<le> m \<and>
     (\<forall>i \<in> used p. pf_wsibling (fr p i) = -1 \<and> pf_pin (fr p i) \<le> m)"

definition pages_are :: "(pgno \<Rightarrow> u8 list) \<Rightarrow> nat \<Rightarrow> pager \<Rightarrow> bool" where
  "pages_are v N p \<longleftrightarrow> unat (fp_npages (pg_fp p)) = N \<and> (\<forall>k. unat k < N \<longrightarrow> pgr_page p k = v k)"

lemma readers_idle: "idle p \<Longrightarrow> readers 0 p"
  by (simp add: idle_def readers_def)

lemma readers_fetched:
  assumes r: "readers m p" and h: "holds_s q h k i" and s: "pool_step p q {i}"
    and pin: "pf_pin (fr q i) \<le> Suc m"
  shows "readers (Suc m) q"
proof -
  note S = pool_stepD [OF s]
  have D: "pool_inv p" "card (used p) \<le> m" using r by (simp_all add: readers_def)
  have "card (used q) \<le> card (insert i (used p))"
    using S(4) by (intro card_mono) auto
  also have "\<dots> \<le> Suc m" using D(2) by (simp add: card_insert_if)
  finally have c: "card (used q) \<le> Suc m" .
  have "pf_wsibling (fr q j) = -1 \<and> pf_pin (fr q j) \<le> Suc m" if j: "j \<in> used q" for j
  proof (cases "j = i")
    case True
    with holds_sD(6) [OF h] pin show ?thesis by simp
  next
    case False
    with j S(4) have u: "j \<in> used p" by auto
    then have "fr q j = fr p j" using others_keptD(1) [OF S(3), of j] False by (simp add: used_def)
    with r u show ?thesis by (auto simp: readers_def)
  qed
  with S(1) c show ?thesis by (simp add: readers_def)
qed

lemma pgr_get_readers:
  assumes r: "readers m p" "m < MEMORY_PAGE_LEN" and h: "holds_none h" and v: "pages_are v N p"
    and k: "unat k < N" "valid_bytes (v k) flags"
  shows "\<exists>h' q i. pgr_get h flags k p = Some (Inr (), h', q) \<and> holds_s q h' k i \<and> pool_step p q {i} \<and>
    pages_are v N q \<and> readers (Suc m) q"
proof -
  have inv: "pool_inv p" and card: "card (used p) \<le> m" using r by (simp_all add: readers_def)
  note F = frames_invD [OF pool_invD(1) [OF inv]]
  have np: "unat k < unat (fp_npages (pg_fp p))" and page: "pgr_page p k = v k"
    using v k by (simp_all add: pages_are_def)
  have ver: "\<forall>x. raw x = pgr_page p k \<longrightarrow> page_validate_for_db x flags = Some (Inr ())"
    using k(2) by (simp add: page valid_bytes_iff)
  have "\<exists>h' q i. pgr_get h flags k p = Some (Inr (), h', q) \<and> holds_s q h' k i \<and> pool_step p q {i} \<and>
      same_pages p q \<and> pf_pin (fr q i) \<le> Suc m"
  proof (cases "ht_map (pg_ht p) k")
    case None
    obtain c where "frame_free p c" using used_free card r(2) by fastforce
    from pgr_fetch_miss [OF inv h np ver None this] show ?thesis unfolding pgr_get_def by fastforce
  next
    case (Some i)
    have c: "i < MEMORY_PAGE_LEN" "pf_present (fr p i)" using F(6) [OF Some] by (simp_all add: cached_def)
    have "pf_wsibling (fr p i) = -1 \<and> pf_pin (fr p i) \<le> m"
    proof (cases "i \<in> used p")
      case True
      with r show ?thesis by (simp add: readers_def)
    next
      case False
      with c have "pf_pin (fr p i) = 0" by (simp add: used_def)
      with unpinned_cached(2) [OF pool_invD(1) [OF inv] c] show ?thesis by simp
    qed
    with pgr_fetch_hit [OF inv h np ver Some] r(2) show ?thesis unfolding pgr_get_def by fastforce
  qed
  then obtain h' q i where g: "pgr_get h flags k p = Some (Inr (), h', q)" "holds_s q h' k i" "pool_step p q {i}"
      "same_pages p q" "pf_pin (fr q i) \<le> Suc m" by blast
  have "pages_are v N q"
    using v g(4) pgr_restD(1) [OF pool_stepD(2) [OF g(3)]] by (simp add: pages_are_def same_pages_def)
  with g readers_fetched [OF r(1) g(2,3,5)] show ?thesis by blast
qed

lemma holds_s_page:
  assumes "pool_inv p" and "holds_s p h k i" and "pages_are v N p" and "unat k < N"
  shows "page_h_ro p h = Some \<lparr>raw = v k, pg = k\<rparr>"
proof -
  have "raw (pf_page (fr p i)) = v k"
    using holds_sD(4) [OF assms(2)] assms(3,4) by (auto simp: pages_are_def pgr_page_def)
  with holds_s_cached(5,9) [OF assms(1,2)] show ?thesis by simp
qed

text \<open>A handle stays good when another page enters the pool.\<close>

lemma holds_s_after:
  assumes p: "pool_inv p" "holds_s p h k i" and q: "pool_step p q {i'}" "holds_s q h' k' i'"
  shows "page_h_assert q h = Some ()"
proof -
  note H = holds_sD [OF p(2)] and C = holds_s_cached [OF p] and S = pool_stepD [OF q(1)]
  have len: "i < length (pg_pages q)" using frames_invD(1) [OF pool_invD(1) [OF S(1)]] C(2) by simp
  have "pf_wsibling (fr q i) = -1"
  proof (cases "i = i'")
    case True
    with holds_sD(6) [OF q(2)] show ?thesis by simp
  next
    case False
    with others_keptD(1) [OF S(3) C(2) _ C(4) H(5)] H(6) show ?thesis by simp
  qed
  with H len show ?thesis by (simp add: page_h_assert_def get_frame_def)
qed

section \<open>One choice\<close>

text \<open>The loop of the cursor's clients: seek, then execute while the state is seeking.\<close>

partial_function (option) rptc_seek_loop :: "rptree_cursor \<Rightarrow> (unit res \<times> rptree_cursor) option" where
  "rptc_seek_loop r =
     (if rc_state r = RPTS_SEEKING then do {
        (e, r) \<leftarrow> rptc_seeking_execute r;
        if isl e then Some (e, r) else rptc_seek_loop r }
      else Some (Inr (), r))"

definition rptc_seek_to :: "rptree_cursor \<Rightarrow> b_size \<Rightarrow> (unit res \<times> rptree_cursor) option" where
  "rptc_seek_to r loc = err_wrap (rptc_start_seek r loc False) (\<lambda>_ r. rptc_seek_loop r)"

definition arrived :: "rope \<Rightarrow> nat \<Rightarrow> rptree_cursor \<Rightarrow> bool" where
  \<comment> \<open>at the leaf that holds the offset, or at the end of the last leaf\<close>
  "arrived t loc r \<longleftrightarrow> rc_state r = RPTS_SEEKED \<and>
     (\<exists>ls n bs rs i. leaves t = ls @ (n, bs) # rs \<and> holds_s (rc_pager r) (rc_cur r) n i \<and>
        rc_lidx r \<le> length bs \<and> length (leaf_bytes ls) + rc_lidx r = min loc (length (rope_bytes t)) \<and>
        (loc < length (rope_bytes t) \<longrightarrow> rc_lidx r < length bs))"

definition aims_at :: "rope \<Rightarrow> nat \<Rightarrow> rope \<Rightarrow> nat \<Rightarrow> bool" where
  \<comment> \<open>the subtree and the offset in it stand for the offset in the tree\<close>
  "aims_at t loc c rem \<longleftrightarrow> (\<exists>ls rs. leaves t = ls @ leaves c @ rs \<and> length (leaf_bytes ls) + rem = loc \<and>
     (rem < length (rope_bytes c) \<or> rs = []))"

definition descending :: "(pgno \<Rightarrow> u8 list) \<Rightarrow> nat \<Rightarrow> rope \<Rightarrow> nat \<Rightarrow> nat \<Rightarrow> rptree_cursor \<Rightarrow> bool" where
  \<comment> \<open>at an inner node, with the child chosen; what is below has at most the given depth\<close>
  "descending v N t loc d r \<longleftrightarrow> rc_state r = RPTS_SEEKING \<and>
     (\<exists>n ts i rem. holds_s (rc_pager r) (rc_cur r) n i \<and> rope_in v N (RNode n ts) \<and> rc_lidx r < length ts \<and>
        rc_member r = MSeek \<lparr>sk_remaining = rem\<rparr> \<and> aims_at t loc (ts ! rc_lidx r) (unat rem) \<and>
        depth (ts ! rc_lidx r) \<le> d)"

lemma aims_at_child:
  assumes "aims_at t loc (RNode n ts) rem" and j: "j < length ts"
    and lo: "length (concat (map rope_bytes (take j ts))) \<le> rem"
    and hi: "rem < length (concat (map rope_bytes (take (Suc j) ts))) \<or> Suc j = length ts"
  shows "aims_at t loc (ts ! j) (rem - length (concat (map rope_bytes (take j ts))))"
proof -
  obtain ls rs where A: "leaves t = ls @ leaves (RNode n ts) @ rs" "length (leaf_bytes ls) + rem = loc"
      "rem < length (rope_bytes (RNode n ts)) \<or> rs = []"
    using assms(1) by (auto simp: aims_at_def)
  let ?before = "concat (map leaves (take j ts))" and ?after = "concat (map leaves (drop (Suc j) ts))"
  have split: "ts = take j ts @ ts ! j # drop (Suc j) ts" using j by (rule id_take_nth_drop)
  have B: "leaf_bytes (concat (map leaves us)) = concat (map rope_bytes us)" for us
    by (induction us) (simp_all add: rope_bytes_def)
  have L: "leaves t = (ls @ ?before) @ leaves (ts ! j) @ (?after @ rs)"
    unfolding A(1) leaves.simps by (subst (1) split) simp
  have S: "concat (map rope_bytes (take (Suc j) ts)) = concat (map rope_bytes (take j ts)) @ rope_bytes (ts ! j)"
    using j by (simp add: take_Suc_conv_app_nth)
  have "rem - length (concat (map rope_bytes (take j ts))) < length (rope_bytes (ts ! j)) \<or> ?after @ rs = []"
  proof (cases "rem < length (concat (map rope_bytes (take (Suc j) ts)))")
    case True
    with lo have "rem - length (concat (map rope_bytes (take j ts))) < length (rope_bytes (ts ! j))"
      unfolding S by simp
    then show ?thesis ..
  next
    case False
    with hi have last: "Suc j = length ts" by simp
    then have "concat (map rope_bytes (take (Suc j) ts)) = rope_bytes (RNode n ts)" by simp
    with False A(3) last show ?thesis by simp
  qed
  with L A(2) lo B [of "take j ts"] show ?thesis
    unfolding aims_at_def by (intro exI [of _ "ls @ ?before"] exI [of _ "?after @ rs"]) simp
qed

lemma load_choice_correct:
  assumes st: "rc_state r = RPTS_SEEKING" "rc_member r = MSeek \<lparr>sk_remaining = rem\<rparr>"
    and inv: "pool_inv (rc_pager r)" and h: "holds_s (rc_pager r) (rc_cur r) (rope_pg c) i"
    and v: "pages_are v N (rc_pager r)" and c: "rope_in v N c" and aim: "aims_at t loc c (unat rem)"
  shows "\<exists>lidx mem s. rptc_seek_load_choice r = Some (r\<lparr>rc_lidx := lidx, rc_member := mem, rc_state := s\<rparr>) \<and>
    (arrived t loc (r\<lparr>rc_lidx := lidx, rc_member := mem, rc_state := s\<rparr>) \<or>
     (\<exists>d. depth c = Suc d \<and> descending v N t loc d (r\<lparr>rc_lidx := lidx, rc_member := mem, rc_state := s\<rparr>)))"
proof -
  have ro: "cur_ro r = Some \<lparr>raw = v (rope_pg c), pg = rope_pg c\<rparr>"
    unfolding cur_ro_def using holds_s_page [OF inv h v] rope_in_page [OF c] by blast
  show ?thesis
  proof (cases c)
    case (RLeaf n bs)
    let ?x = "\<lparr>raw = v n, pg = n\<rparr>"
    have x: "page_get_type ?x = pt_code PG_DATA_LIST" "wf_dl ?x" "dl_bytes ?x = bs"
      using c unfolding RLeaf by (simp_all add: Let_def)
    have used: "dl_used ?x = length bs" using x(2,3) by (simp add: wf_dlD flip: x(3))
    let ?l = "min (unat rem) (length bs)"
    let ?r = "r\<lparr>rc_lidx := ?l, rc_member := MSeek \<lparr>sk_remaining = 0\<rparr>, rc_state := RPTS_SEEKED\<rparr>"
    obtain ls rs where A: "leaves t = ls @ leaves c @ rs" "length (leaf_bytes ls) + unat rem = loc"
        "unat rem < length (rope_bytes c) \<or> rs = []"
      using aim by (auto simp: aims_at_def)
    have run: "rptc_seek_load_choice r = Some ?r"
      using ro st x(1) used unfolding RLeaf
      by (simp add: rptc_seek_load_choice_def seeker_def del: pt_code.simps)
    have tot: "length (rope_bytes t) = length (leaf_bytes ls) + length bs + length (leaf_bytes rs)"
      unfolding rope_bytes_def A(1) RLeaf by simp
    have "length (leaf_bytes ls) + ?l = min loc (length (rope_bytes t))"
      unfolding tot using A(2,3) by (auto simp: RLeaf)
    moreover have "loc < length (rope_bytes t) \<longrightarrow> ?l < length bs"
      unfolding tot using A(2,3) by (auto simp: RLeaf)
    ultimately have "arrived t loc ?r"
      unfolding arrived_def using A(1) h unfolding RLeaf
      by (intro conjI exI [of _ ls] exI [of _ n] exI [of _ bs] exI [of _ rs] exI [of _ i]) simp_all
    with run show ?thesis by blast
  next
    case (RNode n ts)
    let ?x = "\<lparr>raw = v n, pg = n\<rparr>"
    have x: "page_get_type ?x = pt_code PG_INNER_NODE" "wf_in ?x" "ts \<noteq> []" "in_pairs ?x = map child_pair ts"
        "length (concat (map rope_bytes ts)) < 2 ^ 64"
      using c unfolding RNode by (simp_all add: Let_def)
    note ks = key_sum_children [OF x(4,5)]
    have len: "in_get_len ?x = length ts" using length_in_pairs [of ?x] unfolding x(4) by simp
    have pos: "0 + (in_get_len ?x - 1) + 1 = in_get_len ?x" "0 < length ts" using x(3) len by simp_all
    have sum: "in_key_sum ?x (in_get_len ?x) < 2 ^ 64" unfolding ks len using x(5) by simp
    obtain j where j: "in_choose_lidx ?x rem = Some (j, of_nat (in_key_sum ?x j))" "j < length ts"
        "in_key_sum ?x j \<le> unat rem" "Suc j < length ts \<longrightarrow> unat rem < in_key_sum ?x (Suc j)"
      using in_choose_loop_correct [OF x(2) pos(1) sum, of rem] pos(2)
      by (auto simp: in_choose_lidx_def Let_def len)
    have small: "in_key_sum ?x j < 2 ^ 64" using le_less_trans [OF in_key_sum_le sum] .
    then have un: "unat (of_nat (in_key_sum ?x j) :: u64) = in_key_sum ?x j" by (simp add: unat_of_nat)
    then have le: "(of_nat (in_key_sum ?x j) :: u64) \<le> rem" using j(3) by (simp add: word_le_nat_alt)
    let ?m = "MSeek \<lparr>sk_remaining = rem - of_nat (in_key_sum ?x j)\<rparr>"
    let ?r = "r\<lparr>rc_lidx := j, rc_member := ?m, rc_state := RPTS_SEEKING\<rparr>"
    have run: "rptc_seek_load_choice r = Some ?r"
      using ro st x(1) j(1) le unfolding RNode
      by (simp add: rptc_seek_load_choice_def seeker_def del: pt_code.simps)
    have rem: "unat (rem - of_nat (in_key_sum ?x j)) = unat rem - in_key_sum ?x j"
      using le un by (simp add: unat_sub)
    have "aims_at t loc (ts ! j) (unat rem - length (concat (map rope_bytes (take j ts))))"
    proof (rule aims_at_child)
      show "aims_at t loc (RNode n ts) (unat rem)" using aim unfolding RNode .
    qed (use j ks in \<open>auto simp: not_less_eq\<close>)
    moreover have "depth (ts ! j) \<le> foldr max (map depth ts) 0" using j(2) by (intro depth_child) simp
    ultimately have "descending v N t loc (foldr max (map depth ts) 0) ?r"
      unfolding descending_def using h c j(2) rem ks unfolding RNode
      by (auto intro!: exI [of _ n] exI [of _ ts])
    with run show ?thesis unfolding RNode by fastforce
  qed
qed


section \<open>The descent\<close>

lemma xfer_held:
  "page_h_assert p h = Some () \<Longrightarrow>
   page_h_xfer_ownership p h = Some (h, h\<lparr>ph_mode := PHM_NONE, ph_pgr := None, ph_pgw := None\<rparr>)"
  by (simp add: page_h_xfer_ownership_def)

lemma holds_s_member [simp]:
  "rc_pager (r\<lparr>rc_lidx := l, rc_member := m, rc_state := s\<rparr>) = rc_pager r"
  "rc_cur (r\<lparr>rc_lidx := l, rc_member := m, rc_state := s\<rparr>) = rc_cur r"
  by simp_all

lemma seek_step_correct:
  assumes d: "descending v N t loc d r" and v: "pages_are v N (rc_pager r)"
    and m: "readers m (rc_pager r)" "m < MEMORY_PAGE_LEN" and st: "length (rc_stack r) < RPTC_STACK"
  shows "\<exists>r'. rptc_seeking_execute r = Some (Inr (), r') \<and> pages_are v N (rc_pager r') \<and> rc_root r' = rc_root r \<and> rc_tx r' = rc_tx r \<and>
    readers (Suc m) (rc_pager r') \<and> length (rc_stack r') = Suc (length (rc_stack r)) \<and>
    (arrived t loc r' \<or> (\<exists>d'. d = Suc d' \<and> descending v N t loc d' r'))"
proof -
  have inv: "pool_inv (rc_pager r)" using m(1) by (simp add: readers_def)
  obtain n ts i rem where D: "rc_state r = RPTS_SEEKING" "holds_s (rc_pager r) (rc_cur r) n i"
      "rope_in v N (RNode n ts)" "rc_lidx r < length ts" "rc_member r = MSeek \<lparr>sk_remaining = rem\<rparr>"
      "aims_at t loc (ts ! rc_lidx r) (unat rem)" "depth (ts ! rc_lidx r) \<le> d"
    using d by (auto simp: descending_def)
  let ?x = "\<lparr>raw = v n, pg = n\<rparr>" and ?c = "ts ! rc_lidx r"
  have x: "wf_in ?x" "in_pairs ?x = map child_pair ts" "unat n < N" "rope_in v N ?c"
    using D(3,4) by (simp_all add: Let_def list_all_length)
  have ro: "cur_ro r = Some ?x" unfolding cur_ro_def by (rule holds_s_page [OF inv D(2) v x(3)])
  have len: "in_get_len ?x = length ts" using length_in_pairs [of ?x] unfolding x(2) by simp
  have leaf: "in_get_leaf ?x (rc_lidx r) = Some (rope_pg ?c)"
  proof -
    have "in_slot ?x (rc_lidx r) = child_pair ?c"
      using in_pairs_nth [of "rc_lidx r" ?x] D(4) by (simp add: x(2) len)
    then show ?thesis using in_get_leaf_eq [OF x(1)] D(4) by (simp add: len in_slot_def child_pair_def)
  qed
  obtain h q j where g: "pgr_get page_h_create DL_OR_IN (rope_pg ?c) (rc_pager r) = Some (Inr (), h, q)"
      "holds_s q h (rope_pg ?c) j" "pool_step (rc_pager r) q {j}" "pages_are v N q" "readers (Suc m) q"
    using pgr_get_readers [OF m holds_none_create v] rope_in_page [OF x(4)] by blast
  have iq: "pool_inv q" by (rule pool_stepD(1) [OF g(3)])
  have cur: "page_h_assert q (rc_cur r) = Some ()" by (rule holds_s_after [OF inv D(2) g(3,2)])
  have succ: "page_h_assert q h = Some ()" by (rule holds_s_cached(7) [OF iq g(2)])
  let ?r = "r\<lparr>rc_pager := q, rc_stack := \<lparr>sv_pg = rc_cur r, sv_lidx = rc_lidx r\<rparr> # rc_stack r, rc_cur := h\<rparr>"
  have C: "rc_state ?r = RPTS_SEEKING" "rc_member ?r = MSeek \<lparr>sk_remaining = rem\<rparr>" "pool_inv (rc_pager ?r)"
      "holds_s (rc_pager ?r) (rc_cur ?r) (rope_pg ?c) j" "pages_are v N (rc_pager ?r)"
    using D(1,5) iq g(2,4) by simp_all
  obtain lidx mem s where l: "rptc_seek_load_choice ?r = Some (?r\<lparr>rc_lidx := lidx, rc_member := mem, rc_state := s\<rparr>)"
      "arrived t loc (?r\<lparr>rc_lidx := lidx, rc_member := mem, rc_state := s\<rparr>) \<or>
       (\<exists>d'. depth ?c = Suc d' \<and> descending v N t loc d' (?r\<lparr>rc_lidx := lidx, rc_member := mem, rc_state := s\<rparr>))"
    using load_choice_correct [OF C x(4) D(6)] by blast
  have run: "rptc_seeking_execute r = Some (Inr (), ?r\<lparr>rc_lidx := lidx, rc_member := mem, rc_state := s\<rparr>)"
    using D(1) st ro leaf g(1) l(1) xfer_held [OF cur] xfer_held [OF succ]
    by (simp add: rptc_seeking_execute_def)
  have less: "descending v N t loc d2 r'" if "descending v N t loc d1 r'" "d1 \<le> d2" for d1 d2 r'
    using that unfolding descending_def by (meson le_trans)
  have "\<exists>d'. d = Suc d' \<and> descending v N t loc d' r'" if "depth ?c = Suc d1" "descending v N t loc d1 r'" for d1 r'
    using that less D(7) by (cases d) auto
  with l(2) have "arrived t loc (?r\<lparr>rc_lidx := lidx, rc_member := mem, rc_state := s\<rparr>) \<or>
      (\<exists>d'. d = Suc d' \<and> descending v N t loc d' (?r\<lparr>rc_lidx := lidx, rc_member := mem, rc_state := s\<rparr>))" by blast
  with run g(4,5) show ?thesis
    by (intro exI [of _ "?r\<lparr>rc_lidx := lidx, rc_member := mem, rc_state := s\<rparr>"]) simp
qed

lemma seek_loop_correct:
  assumes "descending v N t loc d r" and "pages_are v N (rc_pager r)" and "readers m (rc_pager r)"
    and "m + d < MEMORY_PAGE_LEN" and "length (rc_stack r) + d < RPTC_STACK"
  shows "\<exists>r'. rptc_seek_loop r = Some (Inr (), r') \<and> pages_are v N (rc_pager r') \<and> arrived t loc r' \<and> rc_root r' = rc_root r \<and> rc_tx r' = rc_tx r \<and>
    length (rc_stack r') \<le> length (rc_stack r) + d + 1"
  using assms
proof (induction d arbitrary: r m)
  case (0 r m)
  have st: "rc_state r = RPTS_SEEKING" using 0(1) by (simp add: descending_def)
  obtain r' where r: "rptc_seeking_execute r = Some (Inr (), r')" "pages_are v N (rc_pager r')" "arrived t loc r'"
      "length (rc_stack r') = Suc (length (rc_stack r))" "rc_root r' = rc_root r" "rc_tx r' = rc_tx r"
    using seek_step_correct [OF 0(1-3)] 0(4,5) by auto
  have "rptc_seek_loop r' = Some (Inr (), r')"
    using r(3) by (subst rptc_seek_loop.simps) (simp add: arrived_def)
  with r st show ?case by (subst rptc_seek_loop.simps) simp
next
  case (Suc d r m)
  have st: "rc_state r = RPTS_SEEKING" using Suc.prems(1) by (simp add: descending_def)
  have bounds: "m < MEMORY_PAGE_LEN" "length (rc_stack r) < RPTC_STACK" using Suc.prems(4,5) by simp_all
  obtain r' where r: "rptc_seeking_execute r = Some (Inr (), r')" "pages_are v N (rc_pager r')"
      "readers (Suc m) (rc_pager r')" "length (rc_stack r') = Suc (length (rc_stack r))"
      "arrived t loc r' \<or> descending v N t loc d r'" "rc_root r' = rc_root r" "rc_tx r' = rc_tx r"
    using seek_step_correct [OF Suc.prems(1-3) bounds] by auto
  have step: "rptc_seek_loop r = rptc_seek_loop r'" using st r(1) by (subst rptc_seek_loop.simps) simp
  from r(5) show ?case
  proof
    assume a: "arrived t loc r'"
    then have "rptc_seek_loop r' = Some (Inr (), r')"
      by (subst rptc_seek_loop.simps) (simp add: arrived_def)
    with step a r show ?case by simp
  next
    assume "descending v N t loc d r'"
    from Suc.IH [OF this r(2,3)] Suc.prems(4,5) r(4,6,7) step show ?case by fastforce
  qed
qed

lemma seek_to_correct:
  assumes p: "idle (rc_pager r)" "pages_are v N (rc_pager r)" and r: "holds_none (rc_cur r)" "rc_stack r = []"
    and root: "rc_root r = rope_pg t" "rope_pg t \<noteq> PGNO_NULL" and t: "rope_in v N t" "depth t \<le> RPTC_STACK"
  shows "\<exists>r'. rptc_seek_to r loc = Some (Inr (), r') \<and> pages_are v N (rc_pager r') \<and>
    arrived t (unat loc) r' \<and> length (rc_stack r') \<le> depth t \<and> rc_root r' = rc_root r \<and> rc_tx r' = rc_tx r"
proof -
  have z: "0 < MEMORY_PAGE_LEN" by simp
  obtain h q i where g: "pgr_get (rc_cur r) DL_OR_IN (rope_pg t) (rc_pager r) = Some (Inr (), h, q)"
      "holds_s q h (rope_pg t) i" "pool_step (rc_pager r) q {i}" "pages_are v N q" "readers (Suc 0) q"
    using pgr_get_readers [OF readers_idle [OF p(1)] z r(1) p(2)] rope_in_page [OF t(1)] by blast
  let ?r = "r\<lparr>rc_cur := h, rc_pager := q, rc_member := MSeek \<lparr>sk_remaining = loc\<rparr>, rc_lidx := 0, rc_state := RPTS_SEEKING\<rparr>"
  have aim: "aims_at t (unat loc) t (unat loc)"
    unfolding aims_at_def by (intro exI [of _ "[]"]) simp
  have C: "rc_state ?r = RPTS_SEEKING" "rc_member ?r = MSeek \<lparr>sk_remaining = loc\<rparr>" "pool_inv (rc_pager ?r)"
      "holds_s (rc_pager ?r) (rc_cur ?r) (rope_pg t) i" "pages_are v N (rc_pager ?r)"
    using pool_stepD(1) [OF g(3)] g(2,4) by simp_all
  obtain lidx mem s where l: "rptc_seek_load_choice ?r = Some (?r\<lparr>rc_lidx := lidx, rc_member := mem, rc_state := s\<rparr>)"
      "arrived t (unat loc) (?r\<lparr>rc_lidx := lidx, rc_member := mem, rc_state := s\<rparr>) \<or>
       (\<exists>d. depth t = Suc d \<and> descending v N t (unat loc) d (?r\<lparr>rc_lidx := lidx, rc_member := mem, rc_state := s\<rparr>))"
    using load_choice_correct [OF C t(1) aim] by blast
  let ?s = "?r\<lparr>rc_lidx := lidx, rc_member := mem, rc_state := s\<rparr>"
  have start: "rptc_start_seek r loc False = Some (Inr (), ?s)"
    using r(1) root g(1) l(1)
    by (simp add: rptc_start_seek_def rptc_unseeked_def holds_none_def on_cur_def)
  from l(2) show ?thesis
  proof
    assume a: "arrived t (unat loc) ?s"
    then have "rptc_seek_loop ?s = Some (Inr (), ?s)"
      by (subst rptc_seek_loop.simps) (simp add: arrived_def)
    with a start g(4) r(2) show ?thesis by (simp add: rptc_seek_to_def)
  next
    assume "\<exists>d. depth t = Suc d \<and> descending v N t (unat loc) d ?s"
    then obtain d where d: "depth t = Suc d" "descending v N t (unat loc) d ?s" by blast
    have q: "pages_are v N (rc_pager ?s)" "readers (Suc 0) (rc_pager ?s)" using g(4,5) by simp_all
    have b: "Suc 0 + d < MEMORY_PAGE_LEN" "length (rc_stack ?s) + d < RPTC_STACK" using d(1) t(2) r(2) by simp_all
    from seek_loop_correct [OF d(2) q b] start r(2) d(1) show ?thesis by (auto simp: rptc_seek_to_def)
  qed
qed

section \<open>Seeking finds the byte\<close>

text \<open>C5: Seeking finds the byte. On a pool that is not in use, whose pages hold a well-formed tree no deeper than the
  cursor's stack, the loop of the clients ends without an error, an assertion or a full pool: for an offset in the tree the
  cursor stands in the leaf that holds the byte asked for, at the byte's place in that leaf (so an offset on the border of two
  leaves leads to the second one), and for an offset past
  the end behind the last byte of a leaf that no bytes follow. No page has changed, and the stack is no deeper than the tree.\<close>

theorem seek_finds_byte:
  assumes "idle (rc_pager r)" and "pages_are v N (rc_pager r)" and "holds_none (rc_cur r)" and "rc_stack r = []"
    and "rc_root r = rope_pg t" and "rope_pg t \<noteq> PGNO_NULL" and "rope_in v N t" and "depth t \<le> RPTC_STACK"
  shows "\<exists>r' ls n bs rs i. rptc_seek_to r loc = Some (Inr (), r') \<and> pages_are v N (rc_pager r') \<and>
    rc_state r' = RPTS_SEEKED \<and> leaves t = ls @ (n, bs) # rs \<and> holds_s (rc_pager r') (rc_cur r') n i \<and>
    rc_lidx r' \<le> length bs \<and> length (leaf_bytes ls) + rc_lidx r' = min (unat loc) (length (rope_bytes t)) \<and>
    (unat loc < length (rope_bytes t) \<longrightarrow> rc_lidx r' < length bs \<and> bs ! rc_lidx r' = rope_bytes t ! unat loc) \<and>
    (unat loc \<ge> length (rope_bytes t) \<longrightarrow> leaf_bytes rs = [] \<and> rc_lidx r' = length bs) \<and>
    length (rc_stack r') \<le> depth t"
proof -
  obtain r' where r': "rptc_seek_to r loc = Some (Inr (), r')" "pages_are v N (rc_pager r')" "arrived t (unat loc) r'"
      "length (rc_stack r') \<le> depth t"
    using seek_to_correct [OF assms] by blast
  from r'(3) obtain ls n bs rs i where a: "rc_state r' = RPTS_SEEKED" "leaves t = ls @ (n, bs) # rs"
      "holds_s (rc_pager r') (rc_cur r') n i" "rc_lidx r' \<le> length bs"
      "length (leaf_bytes ls) + rc_lidx r' = min (unat loc) (length (rope_bytes t))"
      "unat loc < length (rope_bytes t) \<longrightarrow> rc_lidx r' < length bs"
    unfolding arrived_def by blast
  have bytes: "rope_bytes t = leaf_bytes ls @ bs @ leaf_bytes rs" by (simp add: rope_bytes_def a(2))
  have "bs ! rc_lidx r' = rope_bytes t ! unat loc" if "unat loc < length (rope_bytes t)"
  proof -
    have "unat loc = length (leaf_bytes ls) + rc_lidx r'" "rc_lidx r' < length bs" using a(5,6) that by simp_all
    then show ?thesis unfolding bytes by (simp add: nth_append)
  qed
  moreover have "leaf_bytes rs = [] \<and> rc_lidx r' = length bs" if "unat loc \<ge> length (rope_bytes t)"
    using a(4,5) that unfolding bytes by simp
  ultimately show ?thesis using a r'(1,2,4) by blast
qed

text \<open>A file of two pages, each a leaf of 1500 bytes, and a cursor on the first.\<close>

definition seek_leaf :: page where
  "seek_leaf = dl_example 0 (replicate 1500 7)"

definition two_page_pager :: "u8 list \<Rightarrow> u8 list \<Rightarrow> dpg_entry heap \<Rightarrow> dpg_table \<Rightarrow> txn_table \<Rightarrow> pager" where
  "two_page_pager x y h t tt = (pager_example h t tt)
     \<lparr>pg_disk := \<lparr>d_data = x @ y, d_durable = [], d_env = [Short 3]\<rparr>\<rparr>"

definition seek_pager :: "dpg_entry heap \<Rightarrow> dpg_table \<Rightarrow> txn_table \<Rightarrow> pager" where
  "seek_pager = two_page_pager (raw seek_leaf) (raw seek_leaf)"

definition seek_cursor :: "pager \<Rightarrow> rptree_cursor" where
  "seek_cursor p = \<lparr>rc_state = RPTS_UNSEEKED, rc_pager = p, rc_meta_root = 0, rc_root = 0, rc_tx = None, rc_lidx = 0,
     rc_nupd1 = the (nupd_init 0 0), rc_nupd2 = the (nupd_init 0 0), rc_cur = page_h_create, rc_total_size = 1500,
     rc_stack = [], rc_member = MSeek \<lparr>sk_remaining = 0\<rparr>\<rparr>"

lemma seek_leaf:
  "length (raw seek_leaf) = PAGE_SIZE" "valid_bytes (raw seek_leaf) DL_OR_IN" "wf_dl seek_leaf"
  "dl_bytes seek_leaf = replicate 1500 7" "page_get_type seek_leaf = pt_code PG_DATA_LIST" "pg seek_leaf = 0"
proof -
  have l: "length (replicate 1500 (7 :: u8)) \<le> DL_DATA_SIZE" by simp
  note e = dl_example [OF l, of 0, folded seek_leaf_def]
  show "wf_dl seek_leaf" "dl_bytes seek_leaf = replicate 1500 7" "page_get_type seek_leaf = pt_code PG_DATA_LIST"
    using e(1-3) .
  show "length (raw seek_leaf) = PAGE_SIZE" by (rule wf_dlD(3) [OF e(1)])
  show "pg seek_leaf = 0" by (simp add: seek_leaf_def dl_example_def dl_store_def)
  have "same_links (typed_page PG_DATA_LIST 0) seek_leaf"
    unfolding seek_leaf_def dl_example_def using l by (intro dl_store_links) simp_all
  from dl_same_links_fields [OF this] have "dl_get_next seek_leaf = 0" by (simp add: dl_get_next_def)
  then have "\<not> dl_is_root seek_leaf" by (simp add: dl_is_root_def)
  with e(3,4) have "dl_validate_for_db seek_leaf = Inr ()" by (simp add: dl_validate_for_db_def)
  moreover have "pt_code PG_DATA_LIST AND DL_OR_IN \<noteq> 0" by simp
  ultimately have "page_validate_for_db seek_leaf DL_OR_IN = Some (Inr ())"
    unfolding page_validate_for_db_def e(3) by (simp del: pt_code.simps)
  then show "valid_bytes (raw seek_leaf) DL_OR_IN" by (simp add: valid_bytes_iff)
qed

lemma two_page_pager:
  assumes "length x = PAGE_SIZE" and "length y = PAGE_SIZE"
  shows "\<exists>h t tt. idle (two_page_pager x y h t tt) \<and> pages_are (\<lambda>k. if k = 0 then x else y) 2 (two_page_pager x y h t tt)"
proof -
  obtain h t tt where i: "idle (pager_example h t tt)" using pager_example_idle by blast
  let ?p = "pager_example h t tt" and ?q = "two_page_pager x y h t tt"
  have same: "pg_pages ?q = pg_pages ?p" "pg_ht ?q = pg_ht ?p" "pg_clock ?q = pg_clock ?p" "pg_dpt ?q = pg_dpt ?p"
      "pg_mem ?q = pg_mem ?p" "pg_ww ?q = pg_ww ?p" "pg_log ?q = pg_log ?p" "pg_allocs ?q = pg_allocs ?p"
      "pg_fp ?q = pg_fp ?p" "fr ?q = fr ?p"
    by (simp_all add: two_page_pager_def fun_eq_iff)
  have "fpgr_inv (pg_fp ?q, pg_disk ?q)"
    using assms by (simp add: fpgr_inv_def two_page_pager_def pager_example_def no_fail_def)
  moreover have ht: "ht_map (pg_ht ?p) = Map.empty"
  proof -
    have "(0 :: nat) < MEMORY_PAGE_LEN" "MEMORY_PAGE_LEN < 2 ^ 32" by simp_all
    from ht_init_inv(2) [OF this, of "0 :: nat"] show ?thesis by (simp add: pager_example_def)
  qed
  moreover have "spare ?q = spare ?p" by (simp add: spare_def fun_eq_iff same)
  ultimately have idle: "idle ?q"
    using i by (simp add: idle_def pool_inv_def frames_inv_def log_inv_def dpt_dirty_def used_def same)
  have two: "unat (fp_npages (pg_fp ?q)) = 2" by (simp add: two_page_pager_def pager_example_def)
  have data: "d_data (pg_disk ?q) = x @ y" by (simp add: two_page_pager_def)
  have "pgr_page ?q k = (if k = 0 then x else y)" if "unat k < 2" for k
    using that assms two data ht by (auto simp: same pgr_page_def slice_def less_2_cases_iff unat_eq_zero)
  with idle two show ?thesis unfolding pages_are_def by blast
qed

lemma seek_pager:
  "\<exists>h t tt. idle (seek_pager h t tt) \<and> pages_are (\<lambda>k. raw seek_leaf) 2 (seek_pager h t tt)"
  using two_page_pager [OF seek_leaf(1,1)] by (simp add: seek_pager_def)

theorem seek_finds_byte_witness:
  "\<exists>h t tt r'. rptc_seek_to (seek_cursor (seek_pager h t tt)) 1234 = Some (Inr (), r') \<and>
     rc_state r' = RPTS_SEEKED \<and> rc_lidx r' = 1234"
proof -
  obtain h t tt where p: "idle (seek_pager h t tt)" "pages_are (\<lambda>k. raw seek_leaf) 2 (seek_pager h t tt)"
    using seek_pager by blast
  let ?t = "RLeaf 0 (replicate 1500 7)" and ?r = "seek_cursor (seek_pager h t tt)"
  have leaf: "\<lparr>raw = raw seek_leaf, pg = 0\<rparr> = seek_leaf" using seek_leaf(6) by (cases seek_leaf) simp
  have t: "rope_in (\<lambda>k. raw seek_leaf) 2 ?t" "depth ?t \<le> RPTC_STACK"
    using seek_leaf(2-5) by (simp_all add: leaf)
  have r: "idle (rc_pager ?r)" "pages_are (\<lambda>k. raw seek_leaf) 2 (rc_pager ?r)" "holds_none (rc_cur ?r)"
      "rc_stack ?r = []" "rc_root ?r = rope_pg ?t" "rope_pg ?t \<noteq> PGNO_NULL"
    using p by (simp_all add: seek_cursor_def holds_none_create)
  from seek_finds_byte [OF r t, of 1234] obtain r' ls n bs rs where
    "rptc_seek_to ?r 1234 = Some (Inr (), r')" "rc_state r' = RPTS_SEEKED" "leaves ?t = ls @ (n, bs) # rs"
    "length (leaf_bytes ls) + rc_lidx r' = min (unat (1234 :: b_size)) (length (rope_bytes ?t))" by blast
  moreover from this(3,4) have "rc_lidx r' = 1234" by (auto simp: Cons_eq_append_conv)
  ultimately show ?thesis by blast
qed

section \<open>Writing after seeking\<close>

lemma held_shared_write_fails:
  assumes "holds_s (rc_pager r) (rc_cur r) n i" and "rptc_seeked_to_write r src bsize stride = Some r'"
  shows "rptc_write_execute r' = None"
proof -
  have "rc_cur r' = rc_cur r" "rc_state r' = RPTS_DL_WRITING"
    using assms(2) by (auto simp: rptc_seeked_to_write_def Let_def bind_eq_Some_conv split: if_splits)
  then have "cur_w r' = None"
    using holds_sD(1) [OF assms(1)] by (cases "page_h_assert (rc_pager r') (rc_cur r)") (simp_all add: cur_w_def page_h_w_def)
  then show ?thesis by (cases "rptc_writing r'") (simp_all add: rptc_write_execute_def \<open>rc_state r' = RPTS_DL_WRITING\<close>)
qed

text \<open>C21: A write right after a seek fails an assertion. On a well-formed tree the seek succeeds wherever it goes, but it takes the
  page it ends on for reading only, and the step to writing changes only the cursor's state, so the first turn of the writing
  asks for the bytes of a page that it may not write, whatever the source, the size of an element and the stride. The one caller,
  \<^verbatim>\<open>nsfslite_write\<close>, goes this way.\<close>

theorem write_after_seek_fails:
  assumes "idle (rc_pager r)" and "pages_are v N (rc_pager r)" and "holds_none (rc_cur r)" and "rc_stack r = []"
    and "rc_root r = rope_pg t" and "rope_pg t \<noteq> PGNO_NULL" and "rope_in v N t" and "depth t \<le> RPTC_STACK"
  shows "\<exists>r1. rptc_seek_to r loc = Some (Inr (), r1) \<and> rc_state r1 = RPTS_SEEKED \<and>
    rc_root r1 = rc_root r \<and> rc_tx r1 = rc_tx r \<and>
    (\<forall>src bsize stride r2. rptc_seeked_to_write r1 src bsize stride = Some r2 \<longrightarrow> rptc_write_execute r2 = None)"
proof -
  obtain r1 where r1: "rptc_seek_to r loc = Some (Inr (), r1)" "arrived t (unat loc) r1" "rc_root r1 = rc_root r" "rc_tx r1 = rc_tx r"
    using seek_to_correct [OF assms] by blast
  then obtain n i where "holds_s (rc_pager r1) (rc_cur r1) n i" "rc_state r1 = RPTS_SEEKED" unfolding arrived_def by blast
  with r1(1,3,4) held_shared_write_fails show ?thesis by blast
qed

theorem write_after_seek_fails_witness:
  "\<exists>r r1 r2 src. rptc_seek_to r 1234 = Some (Inr (), r1) \<and> rptc_seeked_to_write r1 src 4 1 = Some r2 \<and> cb_list src = [1, 2, 3, 4] \<and>
     rptc_write_execute r2 = None"
proof -
  obtain h t tt where p: "idle (seek_pager h t tt)" "pages_are (\<lambda>k. raw seek_leaf) 2 (seek_pager h t tt)"
    using seek_pager by blast
  let ?t = "RLeaf 0 (replicate 1500 7)" and ?r = "(seek_cursor (seek_pager h t tt))\<lparr>rc_tx := Some (1, 0)\<rparr>"
  have leaf: "\<lparr>raw = raw seek_leaf, pg = 0\<rparr> = seek_leaf" using seek_leaf(6) by (cases seek_leaf) simp
  have t: "rope_in (\<lambda>k. raw seek_leaf) 2 ?t" "depth ?t \<le> RPTC_STACK"
    using seek_leaf(2-5) by (simp_all add: leaf)
  have r: "idle (rc_pager ?r)" "pages_are (\<lambda>k. raw seek_leaf) 2 (rc_pager ?r)" "holds_none (rc_cur ?r)"
      "rc_stack ?r = []" "rc_root ?r = rope_pg ?t" "rope_pg ?t \<noteq> PGNO_NULL"
    using p by (simp_all add: seek_cursor_def holds_none_create)
  obtain r1 where r1: "rptc_seek_to ?r 1234 = Some (Inr (), r1)" "rc_state r1 = RPTS_SEEKED" "rc_root r1 = rc_root ?r" "rc_tx r1 = rc_tx ?r"
      "\<forall>src bsize stride r2. rptc_seeked_to_write r1 src bsize stride = Some r2 \<longrightarrow> rptc_write_execute r2 = None"
    using write_after_seek_fails [OF r t, of 1234] by blast
  obtain src where src: "cbuffer_create_with [1, 2, 3, 4] 4 4 = Some src" "cb_list src = [1, 2, 3, 4]"
    using cbuffer_create_with_correct [of 4 "[1, 2, 3, 4]" 4] by auto
  have "rc_tx r1 = Some (1, 0)" "rc_root r1 \<noteq> PGNO_NULL" using r1(3,4) by (simp_all add: seek_cursor_def)
  then obtain r2 where "rptc_seeked_to_write r1 src 4 1 = Some r2"
    using r1(2) by (auto simp: rptc_seeked_to_write_def rptc_writing_def writer_def Let_def)
  with r1(1,5) src(2) show ?thesis by blast
qed

end
