(* ===== verification/Rptree_Mem.thy ===== *)
theory Rptree_Mem
  imports NS_Prelude
begin

text \<open>
The tree in memory (\<^verbatim>\<open>rptree_mem.c\<close>): the tests' and the embedded variant's stand-in for the tree on pages, a
byte array with strided reading, writing, inserting and removing of elements.

\<open>mt_view\<close> is the block of \<^verbatim>\<open>vcap\<close> bytes. Sizes and offsets in bytes are 64 bits wide, the size of an
element, the stride, \<^verbatim>\<open>vcap\<close> and \<^verbatim>\<open>vlen\<close> 32. The copies to the caller's buffer follow each other
without a gap, so they are given as one list. Whether an allocation succeeds is an argument; the latch is
left out.
\<close>

section \<open>The operations\<close>

record rptree_mem =
  mt_view :: "u8 list"
  mt_vcap :: nat
  mt_vlen :: nat

record strided =
  sa_nelems :: nat
  sa_ofst :: nat
  sa_stride :: nat

definition mul64 :: "nat \<Rightarrow> nat \<Rightarrow> nat" where
  "mul64 a b = a * b mod 2 ^ 64"

definition rptree_mem_assert :: "rptree_mem \<Rightarrow> unit option" where
  "rptree_mem_assert r = ASSERT (mt_vlen r \<le> mt_vcap r)"

text \<open>The two booleans: the allocation of the structure and that of the block succeed; \<open>junk\<close> is what the
  block holds.\<close>

definition rptm_new :: "bool \<Rightarrow> bool \<Rightarrow> u8 list \<Rightarrow> rptree_mem option" where
  "rptm_new ok_ret ok_view junk =
     (if \<not> ok_ret then None
      else if \<not> ok_view then None
      else Some \<lparr>mt_view = take 1000 (junk @ replicate 1000 0), mt_vcap = 1000, mt_vlen = 0\<rparr>)"

definition rptm_close :: "rptree_mem \<Rightarrow> unit option" where
  "rptm_close r = rptree_mem_assert r"

function rptm_read_loop :: "rptree_mem \<Rightarrow> nat \<Rightarrow> nat \<Rightarrow> nat \<Rightarrow> bool \<Rightarrow> nat \<Rightarrow> nat \<Rightarrow> u8 list \<Rightarrow> (nat \<times> u8 list) option" where
  "rptm_read_loop r bsize stride nbytes reading srci desti out =
     (if srci < mt_vlen r \<and> desti < nbytes then
        let bleft = mt_vlen r - srci in
        if bsize = 0 \<or> bleft mod bsize \<noteq> 0 then None
        else if reading then
          (if srci + bsize > mt_vlen r then Some (desti, out)
           else do {
             e \<leftarrow> mem_read (mt_view r) srci bsize;
             rptm_read_loop r bsize stride nbytes False (srci + bsize) (desti + bsize) (out @ e) })
        else rptm_read_loop r bsize stride nbytes True (srci + min (mul32 (stride - 1) bsize) bleft) desti out
      else Some (desti, out))"
  by pat_completeness auto
termination
  by (relation "measure (\<lambda>(r, bsize, stride, nbytes, reading, srci, desti, out). 2 * (mt_vlen r - srci) + (if reading then 0 else 1))")
    auto

definition rptm_read :: "rptree_mem \<Rightarrow> strided \<Rightarrow> nat \<Rightarrow> (nat \<times> u8 list) option" where
  "rptm_read r a bsize = do {
     ASSERT (sa_stride a > 0);
     (desti, out) \<leftarrow> rptm_read_loop r bsize (sa_stride a) (mul64 bsize (sa_nelems a)) True (mul64 bsize (sa_ofst a)) 0 [];
     ASSERT (bsize \<noteq> 0);
     Some (desti div bsize, out) }"

function rptm_remove_loop ::
  "nat \<Rightarrow> nat \<Rightarrow> nat \<Rightarrow> nat \<Rightarrow> bool \<Rightarrow> nat \<times> nat \<times> nat \<times> u8 list \<times> u8 list \<Rightarrow> (nat \<times> nat \<times> nat \<times> u8 list \<times> u8 list) option" where
  \<comment> \<open>the state: \<^verbatim>\<open>srci\<close>, \<^verbatim>\<open>desti\<close>, \<^verbatim>\<open>compacti\<close>, the block and what was copied out\<close>
  "rptm_remove_loop vlen bsize stride nbytes removing (srci, desti, compacti, view, out) =
     (if srci < vlen \<and> desti < nbytes then
        let bleft = vlen - srci in
        if bsize = 0 \<or> bleft mod bsize \<noteq> 0 then None
        else if removing then
          (if srci + bsize > vlen then Some (srci, desti, compacti, view, out)
           else do {
             e \<leftarrow> mem_read view srci bsize;
             rptm_remove_loop vlen bsize stride nbytes False (srci + bsize, desti + bsize, compacti, view, out @ e) })
        else
          let to_keep = min (mul32 (stride - 1) bsize) bleft in do {
            e \<leftarrow> mem_read view srci to_keep;
            view \<leftarrow> mem_write view compacti e;
            rptm_remove_loop vlen bsize stride nbytes True (srci + to_keep, desti, compacti + to_keep, view, out) }
      else Some (srci, desti, compacti, view, out))"
  by pat_completeness auto
termination
  by (relation "measure (\<lambda>(vlen, bsize, stride, nbytes, removing, srci, _). 2 * (vlen - srci) + (if removing then 0 else 1))")
    auto

definition rptm_remove :: "rptree_mem \<Rightarrow> strided \<Rightarrow> nat \<Rightarrow> bool \<Rightarrow> (nat \<times> u8 list \<times> rptree_mem) option" where
  \<comment> \<open>the boolean: the caller gives a buffer\<close>
  "rptm_remove r a bsize dest = do {
     rptree_mem_assert r;
     ASSERT (sa_stride a > 0);
     let bofst = mul64 bsize (sa_ofst a);
     if bofst \<ge> mt_vlen r then Some (0, [], r)
     else do {
       (srci, desti, compacti, view, out) \<leftarrow>
         rptm_remove_loop (mt_vlen r) bsize (sa_stride a) (mul64 bsize (sa_nelems a)) True (bofst, 0, bofst, mt_view r, []);
       (compacti, view) \<leftarrow>
         (if srci < mt_vlen r then do {
            e \<leftarrow> mem_read view srci (mt_vlen r - srci);
            view \<leftarrow> mem_write view compacti e;
            Some (compacti + (mt_vlen r - srci), view) }
          else Some (compacti, view));
       ASSERT (bsize \<noteq> 0);
       Some (desti div bsize, if dest then out else [], r\<lparr>mt_view := view, mt_vlen := compacti\<rparr>) } }"

function rptm_write_loop ::
  "nat \<Rightarrow> nat \<Rightarrow> nat \<Rightarrow> nat \<Rightarrow> u8 list \<Rightarrow> bool \<Rightarrow> nat \<times> nat \<times> u8 list \<Rightarrow> (nat \<times> u8 list) option" where
  \<comment> \<open>the state: \<^verbatim>\<open>srci\<close>, \<^verbatim>\<open>desti\<close> and the block\<close>
  "rptm_write_loop vlen bsize stride nbytes src writing (srci, desti, view) =
     (if desti < vlen \<and> srci < nbytes then
        let bleft = vlen - desti in
        if bsize = 0 \<or> bleft mod bsize \<noteq> 0 then None
        else if writing then
          (if desti + bsize > vlen then Some (srci, view)
           else do {
             e \<leftarrow> mem_read src srci bsize;
             view \<leftarrow> mem_write view desti e;
             rptm_write_loop vlen bsize stride nbytes src False (srci + bsize, desti + bsize, view) })
        else rptm_write_loop vlen bsize stride nbytes src True (srci, desti + min (mul32 (stride - 1) bsize) bleft, view)
      else Some (srci, view))"
  by pat_completeness auto
termination
  by (relation "measure (\<lambda>(vlen, bsize, stride, nbytes, src, writing, srci, desti, view). 2 * (vlen - desti) + (if writing then 0 else 1))")
    auto

definition rptm_write :: "rptree_mem \<Rightarrow> strided \<Rightarrow> nat \<Rightarrow> u8 list \<Rightarrow> (nat \<times> rptree_mem) option" where
  "rptm_write r a bsize src = do {
     rptree_mem_assert r;
     ASSERT (sa_stride a > 0);
     let bofst = mul64 bsize (sa_ofst a);
     if bofst \<ge> mt_vlen r then Some (0, r)
     else do {
       (srci, view) \<leftarrow> rptm_write_loop (mt_vlen r) bsize (sa_stride a) (mul64 bsize (sa_nelems a)) src True (0, bofst, mt_view r);
       ASSERT (bsize \<noteq> 0);
       Some (srci div bsize, r\<lparr>mt_view := view\<rparr>) } }"

definition rptm_insert :: "rptree_mem \<Rightarrow> nat \<Rightarrow> nat \<Rightarrow> nat \<Rightarrow> u8 list \<Rightarrow> bool \<Rightarrow> u8 list option \<Rightarrow> (unit res \<times> rptree_mem) option" where
  \<comment> \<open>the number of elements, the offset, the size of an element, the source, whether the copy of the right half
      can be allocated, and what the new part of a larger block holds, or nothing without memory\<close>
  "rptm_insert r nelems ofst bsize src ok_half grow = do {
     let nbytes = mul64 bsize nelems;
     let bofst = min (mul64 bsize ofst) (mt_vlen r);
     let target_len = (mt_vlen r + nbytes) mod 2 ^ 32;
     if bofst < mt_vlen r \<and> \<not> ok_half then Some (Inl ERR_NOMEM, r)
     else do {
       ASSERT (target_len > mt_vcap r \<longrightarrow> mul32 target_len 2 > 0);
       if target_len > mt_vcap r \<and> grow = None then Some (Inl ERR_NOMEM, r)
       else do {
         let r = (if target_len > mt_vcap r
           then r\<lparr>mt_view := take (mul32 target_len 2) (mt_view r @ the grow @ replicate (mul32 target_len 2) 0),
             mt_vcap := mul32 target_len 2\<rparr>
           else r);
         half \<leftarrow> mem_read (mt_view r) bofst (mt_vlen r - bofst);
         e \<leftarrow> mem_read src 0 nbytes;
         view \<leftarrow> mem_write (mt_view r) bofst e;
         view \<leftarrow> (if bofst < mt_vlen r then mem_write view (bofst + nbytes) half else Some view);
         Some (Inr (), r\<lparr>mt_view := view, mt_vlen := target_len\<rparr>) } } }"

declare rptm_read_loop.simps [simp del] rptm_remove_loop.simps [simp del] rptm_write_loop.simps [simp del]

section \<open>Elements\<close>

text \<open>What strided access means on the elements: one element is taken, the next \<open>s - 1\<close> are passed over.\<close>

fun picked :: "nat \<Rightarrow> nat \<Rightarrow> 'a list \<Rightarrow> 'a list" where
  "picked s (Suc n) (e # es) = e # picked s n (drop (s - 1) es)"
| "picked s n es = []"

fun unpicked :: "nat \<Rightarrow> nat \<Rightarrow> 'a list \<Rightarrow> 'a list" where
  "unpicked s (Suc n) (e # es) = take (s - 1) es @ unpicked s n (drop (s - 1) es)"
| "unpicked s n es = es"

definition elements_of :: "nat \<Rightarrow> 'a list list \<Rightarrow> 'a list \<Rightarrow> bool" where
  "elements_of b es bs \<longleftrightarrow> concat es = bs \<and> (\<forall>e \<in> set es. length e = b)"

lemma elements_length: "elements_of b es bs \<Longrightarrow> length bs = b * length es"
  unfolding elements_of_def by (induction es arbitrary: bs) auto

lemma elements_Cons: "elements_of b (e # es) bs \<Longrightarrow> take b bs = e \<and> elements_of b es (drop b bs) \<and> length e = b"
  by (auto simp: elements_of_def)

lemma elements_drop: "elements_of b es bs \<Longrightarrow> elements_of b (drop k es) (drop (b * k) bs)"
proof (induction k arbitrary: es bs)
  case (Suc k)
  show ?case
  proof (cases es)
    case (Cons e es')
    with Suc.IH [of es' "drop b bs"] elements_Cons [of b e es' bs] Suc.prems show ?thesis
      by (simp add: add.commute)
  qed (use Suc.prems in \<open>simp add: elements_of_def\<close>)
qed simp

lemma elements_take: "elements_of b es bs \<Longrightarrow> take (b * k) bs = concat (take k es)"
proof (induction k arbitrary: es bs)
  case (Suc k)
  show ?case
  proof (cases es)
    case (Cons e es')
    note E = elements_Cons [OF Suc.prems [unfolded Cons]]
    have "take (b * Suc k) bs = take b bs @ take (b * k) (drop b bs)" by (simp add: take_add)
    with Suc.IH [of es' "drop b bs"] E Cons show ?thesis by simp
  qed (use Suc.prems in \<open>simp add: elements_of_def\<close>)
qed simp

lemma elements_eq_Nil: "elements_of b es bs \<Longrightarrow> 0 < b \<Longrightarrow> bs = [] \<longleftrightarrow> es = []"
  using elements_length [of b es bs] by auto

lemma remove_loop_correct:
  assumes b: "0 < b" and s: "0 < s" "(s - 1) * b < 2 ^ 32" and len: "vlen \<le> length view" and c: "c \<le> srci" "srci \<le> vlen"
    and es: "elements_of b es (slice view srci (vlen - srci))"
  shows "\<exists>srci' c' view'. rptm_remove_loop vlen b s (desti + n * b) True (srci, desti, c, view, out) =
      Some (srci', desti + b * length (picked s n es), c', view', out @ concat (picked s n es)) \<and>
    c' \<le> srci' \<and> srci' \<le> vlen \<and> length view' = length view \<and>
    take c' view' @ slice view' srci' (vlen - srci') = take c view @ concat (unpicked s n es)"
  using c es len
proof (induction n arbitrary: es srci desti c view out)
  case 0
  then show ?case by (simp add: rptm_remove_loop.simps elements_of_def)
next
  case (Suc n)
  let ?nb = "desti + Suc n * b"
  show ?case
  proof (cases es)
    case Nil
    with Suc.prems b elements_length [OF Suc.prems(3)] have "srci = vlen" by simp
    with Nil show ?thesis by (subst rptm_remove_loop.simps) (use Suc.prems in simp)
  next
    case (Cons e es')
    note L = elements_length [OF Suc.prems(3)] and E = elements_Cons [OF Suc.prems(3) [unfolded Cons]]
    have left: "vlen - srci = b * length es" using L Suc.prems by simp
    with Cons have more: "srci + b \<le> vlen" using Suc.prems(2) by simp
    let ?s1 = "srci + b"
    have e: "slice view srci b = e" using E more Suc.prems(2,4) by (simp add: slice_def min_absorb1)
    have rest: "slice view ?s1 (vlen - ?s1) = drop b (slice view srci (vlen - srci))"
      using more by (simp add: slice_def drop_take add.commute)
    have es': "elements_of b es' (slice view ?s1 (vlen - ?s1))" using E rest by simp
    let ?loop = "rptm_remove_loop vlen b s ?nb False (?s1, desti + b, c, view, out @ e)"
    have step: "rptm_remove_loop vlen b s ?nb True (srci, desti, c, view, out) = ?loop"
      using b left Cons more Suc.prems(4) e by (subst rptm_remove_loop.simps) (simp add: mem_read_def)
    show ?thesis
    proof (cases "?s1 < vlen \<and> desti + b < ?nb")
      case False
      have stop: "?loop = Some (?s1, desti + b, c, view, out @ e)"
        using False b by (subst rptm_remove_loop.simps) auto
      have "n = 0 \<or> es' = []"
        using False b elements_length [OF es'] by auto
      then have "picked s (Suc n) es = [e]" "unpicked s (Suc n) es = es'"
        unfolding Cons by (cases n; cases es'; simp)+
      moreover have "concat es' = slice view ?s1 (vlen - ?s1)" using es' by (simp add: elements_of_def)
      ultimately show ?thesis unfolding step stop using Suc.prems more by (simp add: add.commute)
    next
      case True
      let ?k = "min ((s - 1) * b) (vlen - ?s1)"
      have skip: "mul32 (s - 1) b = (s - 1) * b" using s(2) by (simp add: mul32_def)
      have left1: "vlen - ?s1 = b * length es'" using elements_length [OF es'] more Suc.prems(4) by simp
      have k: "?k = b * min (s - 1) (length es')" unfolding left1 using b by (auto simp: min_def mult.commute)
      let ?e = "slice view ?s1 ?k" and ?view = "splice view c (slice view ?s1 ?k)"
      have rd: "mem_read view ?s1 ?k = Some ?e" using more Suc.prems(4) by (simp add: mem_read_def)
      have el: "length ?e = ?k" using more Suc.prems(4) by simp
      have fit: "c + length ?e \<le> length view" unfolding el using Suc.prems(1,2,4) more by linarith
      have wr: "mem_write view c ?e = Some ?view" using fit by (simp add: mem_write_def)
      have next': "?loop = rptm_remove_loop vlen b s ?nb True (?s1 + ?k, desti + b, c + ?k, ?view, out @ e)"
        using True b rd wr left1 by (subst rptm_remove_loop.simps) (simp add: Let_def skip [unfolded One_nat_def])
      have d: "?nb = (desti + b) + n * b" by simp
      have ahead: "slice ?view (?s1 + ?k) (vlen - (?s1 + ?k)) = slice view (?s1 + ?k) (vlen - (?s1 + ?k))"
      proof -
        have "c + length ?e \<le> ?s1 + ?k" unfolding el using Suc.prems(1) by simp
        then show ?thesis using fit by (intro slice_splice_after) simp_all
      qed
      have es2: "elements_of b (drop (s - 1) es') (slice ?view (?s1 + ?k) (vlen - (?s1 + ?k)))"
      proof -
        have "slice view (?s1 + ?k) (vlen - (?s1 + ?k)) = drop ?k (slice view ?s1 (vlen - ?s1))"
          by (simp add: slice_def drop_take add.commute)
        moreover have "drop (min (s - 1) (length es')) es' = drop (s - 1) es'" by (simp add: min_def)
        ultimately show ?thesis unfolding ahead using elements_drop [OF es', of "min (s - 1) (length es')"] k by simp
      qed
      have vl: "length ?view = length view" using fit by simp
      have "c + ?k \<le> ?s1 + ?k" "?s1 + ?k \<le> vlen" "vlen \<le> length ?view" using Suc.prems(1,4) more vl by auto
      from Suc.IH [OF this(1,2) es2 this(3), of "desti + b" "out @ e"] obtain srci' c' view' where
        r: "rptm_remove_loop vlen b s (desti + b + n * b) True (?s1 + ?k, desti + b, c + ?k, ?view, out @ e) =
          Some (srci', desti + b + b * length (picked s n (drop (s - 1) es')), c', view', (out @ e) @ concat (picked s n (drop (s - 1) es')))"
        "c' \<le> srci'" "srci' \<le> vlen" "length view' = length ?view"
        "take c' view' @ slice view' srci' (vlen - srci') = take (c + ?k) ?view @ concat (unpicked s n (drop (s - 1) es'))"
        by blast
      have front: "take (c + ?k) ?view = take c view @ concat (take (s - 1) es')"
      proof -
        have "take (c + ?k) ?view = take c view @ ?e" using fit el by (simp add: splice_def)
        moreover have "?e = take ?k (slice view ?s1 (vlen - ?s1))" by (simp add: slice_def)
        moreover have "take (min (s - 1) (length es')) es' = take (s - 1) es'" by (simp add: min_def)
        ultimately show ?thesis using elements_take [OF es', of "min (s - 1) (length es')"] k by simp
      qed
      have run: "rptm_remove_loop vlen b s ?nb True (srci, desti, c, view, out) =
          Some (srci', desti + b * length (picked s (Suc n) es), c', view', out @ concat (picked s (Suc n) es))"
        unfolding step next' using r(1) by (simp add: Cons add.assoc)
      have "take c' view' @ slice view' srci' (vlen - srci') = take c view @ concat (unpicked s (Suc n) es)"
        unfolding r(5) front by (simp add: Cons)
      then show ?thesis
        using run r(2-4) vl by metis
    qed
  qed
qed

definition mem_bytes :: "rptree_mem \<Rightarrow> u8 list" where
  "mem_bytes r = take (mt_vlen r) (mt_view r)"

definition mem_wf :: "rptree_mem \<Rightarrow> bool" where
  "mem_wf r \<longleftrightarrow> length (mt_view r) = mt_vcap r \<and> mt_vlen r \<le> mt_vcap r \<and> mt_vcap r < 2 ^ 32"

text \<open>C34: Removing with a stride from the tree in memory takes the elements it should. The array is a list of elements; from the given
  offset on every \<open>stride\<close>-th of them is taken, as many as were asked for or are there. They are handed out in order,
  the array keeps all others in their order, and the count is right.\<close>

theorem rptm_remove_takes_every_nth:
  assumes "mem_wf r" and b: "0 < b" and s: "0 < sa_stride a" "(sa_stride a - 1) * b < 2 ^ 32"
    and big: "b * sa_nelems a < 2 ^ 64" "b * sa_ofst a < 2 ^ 64" and es: "elements_of b es (mem_bytes r)"
  shows "\<exists>r'. rptm_remove r a b True =
      Some (length (picked (sa_stride a) (sa_nelems a) (drop (sa_ofst a) es)), concat (picked (sa_stride a) (sa_nelems a) (drop (sa_ofst a) es)), r') \<and>
    mem_wf r' \<and> mem_bytes r' = concat (take (sa_ofst a) es @ unpicked (sa_stride a) (sa_nelems a) (drop (sa_ofst a) es))"
proof -
  let ?o = "sa_ofst a" and ?s = "sa_stride a" and ?n = "sa_nelems a"
  have W: "mt_vlen r \<le> length (mt_view r)" "length (mt_view r) = mt_vcap r" using assms(1) by (simp_all add: mem_wf_def)
  have len: "mt_vlen r = b * length es" using elements_length [OF es] W by (simp add: mem_bytes_def)
  have mul: "mul64 b ?o = b * ?o" "mul64 b ?n = ?n * b" using big by (simp_all add: mul64_def mult.commute)
  show ?thesis
  proof (cases "b * ?o \<ge> mt_vlen r")
    case True
    with len b have "drop ?o es = []" "take ?o es = es" by simp_all
    moreover have "concat es = mem_bytes r" using es by (simp add: elements_of_def)
    ultimately show ?thesis using True s assms(1) mul
      by (cases ?n) (simp_all add: rptm_remove_def rptree_mem_assert_def mem_wf_def)
  next
    case False
    let ?c = "b * ?o"
    have es1: "elements_of b (drop ?o es) (slice (mt_view r) ?c (mt_vlen r - ?c))"
      using elements_drop [OF es, of ?o] by (simp add: mem_bytes_def slice_def drop_take)
    have c: "?c \<le> ?c" "?c \<le> mt_vlen r" using False by simp_all
    from remove_loop_correct [OF b s W(1) c es1, of 0 ?n "[]"] obtain srci c' view where
      l: "rptm_remove_loop (mt_vlen r) b ?s (?n * b) True (?c, 0, ?c, mt_view r, []) =
        Some (srci, b * length (picked ?s ?n (drop ?o es)), c', view, concat (picked ?s ?n (drop ?o es)))"
      "c' \<le> srci" "srci \<le> mt_vlen r" "length view = length (mt_view r)"
      "take c' view @ slice view srci (mt_vlen r - srci) = take ?c (mt_view r) @ concat (unpicked ?s ?n (drop ?o es))"
      by auto
    have front: "take ?c (mt_view r) = concat (take ?o es)"
      using elements_take [OF es, of ?o] False by (simp add: mem_bytes_def min_absorb1)
    let ?e = "slice view srci (mt_vlen r - srci)"
    have el: "length ?e = mt_vlen r - srci" using l(3,4) W by simp
    let ?r = "r\<lparr>mt_view := splice view c' ?e, mt_vlen := c' + (mt_vlen r - srci)\<rparr>"
    have fit: "c' + length ?e \<le> length view" using el l(2-4) W by simp
    have run: "rptm_remove r a b True = Some (length (picked ?s ?n (drop ?o es)), concat (picked ?s ?n (drop ?o es)), ?r)"
    proof (cases "srci < mt_vlen r")
      case True
      then show ?thesis using False s b W l(1,3,4) mul fit el
        by (simp add: rptm_remove_def rptree_mem_assert_def mem_read_def mem_write_def)
    next
      case done': False
      then have "splice view c' ?e = view" using l(2-4) W by (simp add: splice_def)
      with done' show ?thesis using False s b W l(1,3,4) mul by (simp add: rptm_remove_def rptree_mem_assert_def)
    qed
    have "mem_bytes ?r = take c' view @ ?e" using fit el by (simp add: mem_bytes_def splice_def)
    then have "mem_bytes ?r = concat (take ?o es @ unpicked ?s ?n (drop ?o es))" unfolding l(5) front by simp
    moreover have "mem_wf ?r" using assms(1) fit el l(2-4) W by (simp add: mem_wf_def)
    ultimately show ?thesis using run by blast
  qed
qed

theorem rptm_remove_takes_every_nth_witness:
  "\<exists>r'. rptm_remove \<lparr>mt_view = [1, 2, 3, 4, 5, 6, 7, 8, 9, 10, 0, 0], mt_vcap = 12, mt_vlen = 10\<rparr>
      \<lparr>sa_nelems = 2, sa_ofst = 1, sa_stride = 2\<rparr> 2 True = Some (2, [3, 4, 7, 8], r') \<and>
    mem_bytes r' = [1, 2, 5, 6, 9, 10]"
proof -
  let ?r = "\<lparr>mt_view = [1, 2, 3, 4, 5, 6, 7, 8, 9, 10, 0, 0], mt_vcap = 12, mt_vlen = 10\<rparr>"
    and ?a = "\<lparr>sa_nelems = 2, sa_ofst = 1, sa_stride = 2\<rparr>" and ?es = "[[1, 2], [3, 4], [5, 6], [7, 8], [9, 10]] :: u8 list list"
  let ?p = "picked 2 2 (drop 1 ?es)" and ?u = "unpicked 2 2 (drop 1 ?es)"
  have p: "?p = [[3, 4], [7, 8]]" and u: "?u = [[5, 6], [9, 10]]" by (simp_all add: numeral_2_eq_2)
  have "mem_wf ?r" "elements_of 2 ?es (mem_bytes ?r)"
    by (simp_all add: mem_wf_def elements_of_def mem_bytes_def)
  from rptm_remove_takes_every_nth [OF this(1) _ _ _ _ _ this(2), of ?a]
  have "\<exists>r'. rptm_remove ?r ?a 2 True = Some (length ?p, concat ?p, r') \<and> mem_bytes r' = concat (take 1 ?es @ ?u)" by auto
  then show ?thesis unfolding p u by (simp add: numeral_2_eq_2)
qed

end
