(* ===== verification/Strings_Lalloc.thy ===== *)
theory Strings_Lalloc
  imports NS_Prelude
begin

text \<open>
  \<^verbatim>\<open>libs/nscore/lalloc.c\<close>, the linear allocator, and \<^verbatim>\<open>string.c\<close> with \<^verbatim>\<open>strings_utils.c\<close>: strings that carry
  their length.

  A string is the list of its \<^verbatim>\<open>len\<close> bytes; its length is below \<open>2 ^ 32\<close>. \<^verbatim>\<open>strncmp\<close> stops at a zero byte,
  \<^verbatim>\<open>memcmp\<close> does not. An allocation gives the offset of the block in the allocator's buffer, or
  nothing when the code returns \<^verbatim>\<open>NULL\<close>. What a block holds is the value the caller puts there.
\<close>

section \<open>The linear allocator\<close>

record lalloc =
  la_used :: nat
  la_limit :: nat

definition lalloc_assert :: "lalloc \<Rightarrow> unit option" where
  "lalloc_assert l = ASSERT (la_used l \<le> la_limit l)"

definition lalloc_create :: "nat \<Rightarrow> lalloc option" where
  "lalloc_create limit = do {
     ASSERT (limit > 0);
     let ret = \<lparr>la_used = 0, la_limit = limit\<rparr>;
     lalloc_assert ret;
     Some ret }"

definition lalloc_get_state :: "lalloc \<Rightarrow> nat" where
  "lalloc_get_state l = la_used l"

definition lalloc_reset_to_state :: "lalloc \<Rightarrow> nat \<Rightarrow> lalloc" where
  "lalloc_reset_to_state l state = l\<lparr>la_used := state\<rparr>"

definition lmalloc :: "lalloc \<Rightarrow> nat \<Rightarrow> nat \<Rightarrow> (nat res \<times> lalloc) option" where
  \<comment> \<open>a block that would fill the buffer to its end is refused\<close>
  "lmalloc a req sz = do {
     lalloc_assert a;
     ASSERT (req > 0);
     ASSERT (sz > 0);
     if req * sz \<ge> 2 ^ 32 then Some (Inl ERR_NOMEM, a)
     else do {
       let total = req * sz;
       let avail = sub32 (la_limit a) (la_used a);
       if avail \<le> total then Some (Inl ERR_NOMEM, a)
       else Some (Inr (la_used a), a\<lparr>la_used := add32 (la_used a) total\<rparr>) } }"

definition lcalloc :: "lalloc \<Rightarrow> nat \<Rightarrow> nat \<Rightarrow> (nat res \<times> lalloc) option" where
  "lcalloc a req sz = lmalloc a req sz"

definition lalloc_reset :: "lalloc \<Rightarrow> lalloc option" where
  "lalloc_reset a = do { lalloc_assert a; Some (a\<lparr>la_used := 0\<rparr>) }"

definition la_wf :: "lalloc \<Rightarrow> bool" where
  "la_wf a \<longleftrightarrow> la_used a \<le> la_limit a \<and> la_limit a < 4294967296"

definition la_room :: "lalloc \<Rightarrow> nat" where
  "la_room a = la_limit a - la_used a"

lemma lmalloc_ok:
  assumes "la_wf a" and "0 < req" and "0 < sz" and "req * sz < la_room a"
  shows "\<exists>a'. lmalloc a req sz = Some (Inr (la_used a), a') \<and> la_wf a' \<and> la_room a' = la_room a - req * sz \<and>
    la_limit a' = la_limit a"
  using assms by (auto simp: lmalloc_def lalloc_assert_def la_wf_def la_room_def wrap32 Let_def)

lemma lmalloc_zero: "lmalloc a 0 sz = None"
  by (simp add: lmalloc_def lalloc_assert_def)

section \<open>Strings\<close>

type_synonym str = "u8 list"

definition line_length :: "u8 list \<Rightarrow> nat option" where
  \<comment> \<open>\<^verbatim>\<open>buf\<close> up to \<^verbatim>\<open>max\<close>\<close>
  "line_length buf = do {
     ASSERT (length buf > 0);
     Some (length (takeWhile (\<lambda>c. c \<noteq> 10) buf)) }"

fun strncmp_zero :: "u8 list \<Rightarrow> u8 list \<Rightarrow> bool" where
  \<comment> \<open>\<^verbatim>\<open>strncmp\<close> of so many bytes of each is zero\<close>
  "strncmp_zero (a # as) (b # bs) = (if a \<noteq> b then False else if a = 0 then True else strncmp_zero as bs)"
| "strncmp_zero as bs = True"

fun memcmp :: "u8 list \<Rightarrow> u8 list \<Rightarrow> int" where
  "memcmp (a # as) (b # bs) = (if a < b then - 1 else if b < a then 1 else memcmp as bs)"
| "memcmp as bs = 0"

definition string_equal :: "str \<Rightarrow> str \<Rightarrow> bool" where
  "string_equal s1 s2 = (if length s1 \<noteq> length s2 then False else strncmp_zero s1 s2)"

primrec strings_all_unique_inner :: "str \<Rightarrow> str list \<Rightarrow> bool" where
  "strings_all_unique_inner s [] = True"
| "strings_all_unique_inner s (x # xs) =
     (if length s \<noteq> length x then strings_all_unique_inner s xs
      else if memcmp s x = 0 then False
      else strings_all_unique_inner s xs)"

primrec strings_all_unique :: "str list \<Rightarrow> bool" where
  "strings_all_unique [] = True"
| "strings_all_unique (s # xs) = (strings_all_unique_inner s xs \<and> strings_all_unique xs)"

definition string_plus :: "str \<Rightarrow> str \<Rightarrow> lalloc \<Rightarrow> (str res \<times> lalloc) option" where
  "string_plus left right a = do {
     let len = add32 (length left) (length right);
     (r, a) \<leftarrow> lmalloc a len 1;
     case r of
       Inl e \<Rightarrow> Some (Inl e, a)
     | Inr _ \<Rightarrow> do {
         ASSERT (length left + length right \<le> len);
         Some (Inr (left @ right), a) } }"

primrec strings_are_disjoint :: "str list \<Rightarrow> str list \<Rightarrow> str option" where
  \<comment> \<open>the first string on the left that is on the right too\<close>
  "strings_are_disjoint [] right = None"
| "strings_are_disjoint (s # left) right =
     (if \<exists>x \<in> set right. string_equal s x then Some s else strings_are_disjoint left right)"

fun string_contains_loop :: "str \<Rightarrow> str \<Rightarrow> bool" where
  "string_contains_loop [] subs = False"
| "string_contains_loop (c # cs) subs =
     (if length (c # cs) < length subs then False
      else if string_equal (take (length subs) (c # cs)) subs then True
      else string_contains_loop cs subs)"

definition string_contains :: "str \<Rightarrow> str \<Rightarrow> bool" where
  "string_contains sups subs =
     (if length sups = 0 \<and> length subs = 0 then True else string_contains_loop sups subs)"

definition string_less_string :: "str \<Rightarrow> str \<Rightarrow> bool" where
  "string_less_string left right = (
     let min_len = min (length left) (length right);
         cmp = memcmp (take min_len left) (take min_len right)
     in if cmp < 0 then True else if cmp > 0 then False else length left < length right)"

definition string_greater_string :: "str \<Rightarrow> str \<Rightarrow> bool" where
  "string_greater_string left right = (
     let min_len = min (length left) (length right);
         cmp = memcmp (take min_len left) (take min_len right)
     in if cmp > 0 then True else if cmp < 0 then False else length left > length right)"

definition string_less_equal_string :: "str \<Rightarrow> str \<Rightarrow> bool" where
  "string_less_equal_string left right = (\<not> string_greater_string left right)"

definition string_greater_equal_string :: "str \<Rightarrow> str \<Rightarrow> bool" where
  "string_greater_equal_string left right = (\<not> string_less_string left right)"

section \<open>Their meaning\<close>

lemma memcmp_zero: "length a = length b \<Longrightarrow> memcmp a b = 0 \<longleftrightarrow> a = b"
  by (induction a b rule: memcmp.induct) auto

lemma strncmp_zero_refl [simp]: "strncmp_zero a a"
  by (induction a) auto

lemma string_equal_refl [simp]: "string_equal a a"
  by (simp add: string_equal_def)

lemma strncmp_zero_text: "length a = length b \<Longrightarrow> 0 \<notin> set a \<Longrightarrow> strncmp_zero a b \<longleftrightarrow> a = b"
  by (induction a b rule: strncmp_zero.induct) auto

lemma strncmp_zero_sym: "strncmp_zero a b \<Longrightarrow> length a = length b \<Longrightarrow> strncmp_zero b a"
  by (induction a b rule: strncmp_zero.induct) (auto split: if_splits)

lemma string_equal_text: "0 \<notin> set a \<Longrightarrow> string_equal a b \<longleftrightarrow> a = b"
  by (auto simp: string_equal_def strncmp_zero_text)

lemma strings_all_unique_distinct: "strings_all_unique ks \<longleftrightarrow> distinct ks"
proof -
  have "strings_all_unique_inner s xs \<longleftrightarrow> s \<notin> set xs" for s xs by (induction xs) (auto simp: memcmp_zero)
  then show ?thesis by (induction ks) auto
qed

lemma string_contains_sublist:
  assumes "0 \<notin> set sub"
  shows "string_contains s sub \<longleftrightarrow> (\<exists>us vs. s = us @ sub @ vs)"
proof -
  have eq: "string_equal (take (length sub) x) sub \<longleftrightarrow> (\<exists>vs. x = sub @ vs)" if "length sub \<le> length x" for x
  proof
    assume "string_equal (take (length sub) x) sub"
    then have "take (length sub) x = sub"
      using strncmp_zero_text [of sub "take (length sub) x"] strncmp_zero_sym assms that by (auto simp: string_equal_def)
    then show "\<exists>vs. x = sub @ vs" by (metis append_take_drop_id)
  qed auto
  have "string_contains_loop s sub \<longleftrightarrow> s \<noteq> [] \<and> (\<exists>us vs. s = us @ sub @ vs \<and> (sub = [] \<longrightarrow> True))"
  proof (induction s)
    case (Cons c cs)
    have split: "(\<exists>us vs. c # cs = us @ sub @ vs) \<longleftrightarrow> (\<exists>vs. c # cs = sub @ vs) \<or> (\<exists>us vs. cs = us @ sub @ vs)"
      by (metis append_Cons append_Nil list.exhaust list.inject)
    show ?case
    proof (cases "length (c # cs) < length sub")
      case True
      then have "\<not> (\<exists>us vs. c # cs = us @ sub @ vs)" by (metis le_add1 le_add2 length_append linorder_not_le order_trans)
      with True show ?thesis by simp
    next
      case False
      with Cons eq [of "c # cs"] split show ?thesis by (cases "cs = []") auto
    qed
  qed simp
  then show ?thesis by (auto simp: string_contains_def)
qed

lemma string_order:
  "string_less_string a b \<longleftrightarrow> ord_class.lexordp a b" "string_greater_string a b \<longleftrightarrow> ord_class.lexordp b a"
proof -
  have m: "memcmp (take (min (length a) (length b)) a) (take (min (length a) (length b)) b) = memcmp a b" for a b
    by (induction a b rule: memcmp.induct) auto
  show "string_less_string a b \<longleftrightarrow> ord_class.lexordp a b"
    unfolding string_less_string_def m by (induction a b rule: memcmp.induct) (auto simp: Let_def)
  show "string_greater_string a b \<longleftrightarrow> ord_class.lexordp b a"
    unfolding string_greater_string_def m by (induction a b rule: memcmp.induct) (auto simp: Let_def)
qed

end
