(* ===== verification/Numbers.thy ===== *)
theory Numbers
  imports Strings_Lalloc
begin

text \<open>
  \<^verbatim>\<open>libs/nscore/numbers.c\<close>: reading numbers, and the remainders of the query language.

  An \<^verbatim>\<open>i32\<close> is an integer in its range; the checked operations of \<^verbatim>\<open>bounds.h\<close> give nothing when the result
  is out of it. A \<^verbatim>\<open>f32\<close> is its 32 bits; the arithmetic on it, which the machine does, is a
  parameter (\<open>f32_ops\<close>). \<open>None\<close> is a failed assertion, or a division that C leaves undefined.
\<close>

section \<open>Characters\<close>

definition is_alpha :: "u8 \<Rightarrow> bool" where
  "is_alpha c \<longleftrightarrow> (97 \<le> c \<and> c \<le> 122) \<or> (65 \<le> c \<and> c \<le> 90) \<or> c = 95"

definition is_num :: "u8 \<Rightarrow> bool" where
  "is_num c \<longleftrightarrow> 48 \<le> c \<and> c \<le> 57"

definition is_alpha_num :: "u8 \<Rightarrow> bool" where
  "is_alpha_num c \<longleftrightarrow> is_alpha c \<or> is_num c"

section \<open>Integers\<close>

abbreviation I32_MIN :: int where "I32_MIN \<equiv> - 2147483648"
abbreviation I32_MAX :: int where "I32_MAX \<equiv> 2147483647"

definition in_i32 :: "int \<Rightarrow> int option" where
  \<comment> \<open>the result of a checked operation\<close>
  "in_i32 x = (if I32_MIN \<le> x \<and> x \<le> I32_MAX then Some x else None)"

definition digit :: "u8 \<Rightarrow> int" where
  "digit c = uint c - 48"

primrec parse_i32_loop :: "u8 list \<Rightarrow> int \<Rightarrow> int res option" where
  \<comment> \<open>the value is collected below zero\<close>
  "parse_i32_loop [] acc = Some (Inr acc)"
| "parse_i32_loop (c # cs) acc = do {
     ASSERT (is_num c);
     case in_i32 (acc * 10) of
       None \<Rightarrow> Some (Inl ERR_ARITH)
     | Some acc \<Rightarrow>
         (case in_i32 (acc - digit c) of
            None \<Rightarrow> Some (Inl ERR_ARITH)
          | Some acc \<Rightarrow> parse_i32_loop cs acc) }"

definition sign_of :: "u8 list \<Rightarrow> (bool \<times> u8 list) option" where
  \<comment> \<open>the sign, and the rest, which may not be empty after one\<close>
  "sign_of cs = do {
     ASSERT (cs \<noteq> []);
     let c = List.hd cs;
     if c = 43 \<or> c = 45 then do { ASSERT (1 < length cs); Some (c = 45, List.tl cs) }
     else Some (False, cs) }"

definition parse_i32_expect :: "str \<Rightarrow> int res option" where
  "parse_i32_expect data = do {
     (neg, cs) \<leftarrow> sign_of data;
     r \<leftarrow> parse_i32_loop cs 0;
     Some (case r of
         Inl e \<Rightarrow> Inl e
       | Inr acc \<Rightarrow>
           if neg then Inr acc
           else if acc = I32_MIN then Inl ERR_ARITH
           else Inr (- acc)) }"

section \<open>Floating point\<close>

type_synonym f32 = "32 word"

record f32_ops =
  f_add :: "f32 \<Rightarrow> f32 \<Rightarrow> f32"
  f_mul :: "f32 \<Rightarrow> f32 \<Rightarrow> f32"
  f_div :: "f32 \<Rightarrow> f32 \<Rightarrow> f32"
  f_neg :: "f32 \<Rightarrow> f32"
  f_of_nat :: "nat \<Rightarrow> f32"
  f_finite :: "f32 \<Rightarrow> bool"
  f_is_zero :: "f32 \<Rightarrow> bool"

definition finite_f32 :: "f32_ops \<Rightarrow> f32 \<Rightarrow> f32 option" where
  "finite_f32 f x = (if f_finite f x then Some x else None)"

definition safe_div_f32 :: "f32_ops \<Rightarrow> f32 \<Rightarrow> f32 \<Rightarrow> f32 option" where
  "safe_div_f32 f a b = (if f_is_zero f b then None else finite_f32 f (f_div f a b))"

definition push_digit :: "f32_ops \<Rightarrow> f32 \<Rightarrow> u8 \<Rightarrow> f32 option" where
  "push_digit f acc c = do {
     acc \<leftarrow> finite_f32 f (f_mul f acc (f_of_nat f 10));
     finite_f32 f (f_add f acc (f_of_nat f (nat (digit c)))) }"

text \<open>Here \<open>None\<close> is the jump to \<^verbatim>\<open>failed\<close>.\<close>

primrec whole_part :: "f32_ops \<Rightarrow> u8 list \<Rightarrow> f32 \<Rightarrow> f32 option" where
  "whole_part f [] acc = Some acc"
| "whole_part f (c # cs) acc = do { acc \<leftarrow> push_digit f acc c; whole_part f cs acc }"

primrec frac_part :: "f32_ops \<Rightarrow> u8 list \<Rightarrow> f32 \<Rightarrow> f32 \<Rightarrow> (f32 \<times> f32) option" where
  "frac_part f [] frac scale = Some (frac, scale)"
| "frac_part f (c # cs) frac scale = do {
     frac \<leftarrow> push_digit f frac c;
     scale \<leftarrow> finite_f32 f (f_mul f scale (f_of_nat f 10));
     frac_part f cs frac scale }"

primrec scale_by :: "f32_ops \<Rightarrow> bool \<Rightarrow> nat \<Rightarrow> f32 \<Rightarrow> f32 option" where
  "scale_by f neg 0 acc = Some acc"
| "scale_by f neg (Suc n) acc = do {
     acc \<leftarrow> (if neg then safe_div_f32 f acc (f_of_nat f 10) else finite_f32 f (f_mul f acc (f_of_nat f 10)));
     scale_by f neg n acc }"

primrec parse_exp :: "u8 list \<Rightarrow> nat \<Rightarrow> nat option" where
  \<comment> \<open>the digits of the exponent; the assertion is on 32 bits\<close>
  "parse_exp [] n = Some n"
| "parse_exp (c # cs) n = do {
     ASSERT (n \<le> (2 ^ 32 - 1 - nat (digit c)) div 10);
     parse_exp cs (n * 10 + nat (digit c)) }"

definition parse_f32_fraction :: "f32_ops \<Rightarrow> f32 \<Rightarrow> u8 list \<Rightarrow> (f32 option \<times> bool \<times> u8 list) option" where
  \<comment> \<open>after the whole part: the value or a failure, whether there was a digit, and the rest\<close>
  "parse_f32_fraction f acc cs =
     (if cs \<noteq> [] \<and> List.hd cs = 46 then do {
        let cs = List.tl cs;
        ASSERT (cs \<noteq> []);
        let ds = takeWhile is_num cs;
        Some (do {
            (frac, scale) \<leftarrow> frac_part f ds (f_of_nat f 0) (f_of_nat f 1);
            t \<leftarrow> safe_div_f32 f frac scale;
            finite_f32 f (f_add f acc t) }, ds \<noteq> [], dropWhile is_num cs) }
      else Some (Some acc, False, cs))"

definition parse_f32_exponent :: "f32_ops \<Rightarrow> f32 \<Rightarrow> u8 list \<Rightarrow> (f32 option \<times> u8 list) option" where
  "parse_f32_exponent f acc cs =
     (if cs \<noteq> [] \<and> (List.hd cs = 101 \<or> List.hd cs = 69) then do {
        (neg, cs) \<leftarrow> sign_of (List.tl cs);
        n \<leftarrow> parse_exp (takeWhile is_num cs) 0;
        ASSERT (takeWhile is_num cs \<noteq> []);
        Some (scale_by f neg n acc, dropWhile is_num cs) }
      else Some (Some acc, cs))"

definition parse_f32_expect :: "f32_ops \<Rightarrow> str \<Rightarrow> f32 res option" where
  "parse_f32_expect f src = do {
     (neg, cs) \<leftarrow> sign_of src;
     case whole_part f (takeWhile is_num cs) (f_of_nat f 0) of
       None \<Rightarrow> Some (Inl ERR_ARITH)
     | Some acc \<Rightarrow> do {
         (acc, saw, rest) \<leftarrow> parse_f32_fraction f acc (dropWhile is_num cs);
         case acc of
           None \<Rightarrow> Some (Inl ERR_ARITH)
         | Some acc \<Rightarrow> do {
             ASSERT (takeWhile is_num cs \<noteq> [] \<or> saw);
             (acc, rest) \<leftarrow> parse_f32_exponent f acc rest;
             case acc of
               None \<Rightarrow> Some (Inl ERR_ARITH)
             | Some acc \<Rightarrow> do {
                 ASSERT (rest = []);
                 Some (Inr (if neg then f_neg f acc else acc)) } } } }"

section \<open>Remainders\<close>

definition py_mod_i32 :: "int \<Rightarrow> int \<Rightarrow> int option" where
  \<comment> \<open>C leaves the remainder undefined for a divisor of zero and when the quotient is out of range\<close>
  "py_mod_i32 num denom = do {
     ASSERT (denom \<noteq> 0);
     ASSERT (\<not> (num = I32_MIN \<and> denom = -1));
     let r = sgn num * (\<bar>num\<bar> mod \<bar>denom\<bar>);
     Some (if r \<noteq> 0 \<and> (r < 0) \<noteq> (denom < 0) then r + denom else r) }"

section \<open>Properties\<close>

lemma digit_range: "is_num c \<Longrightarrow> 0 \<le> digit c \<and> digit c \<le> 9"
  by (simp add: is_num_def digit_def word_le_def)

primrec decimal :: "u8 list \<Rightarrow> int \<Rightarrow> int" where
  \<comment> \<open>the value of digits, after a value\<close>
  "decimal [] acc = acc"
| "decimal (c # cs) acc = decimal cs (10 * acc + digit c)"

lemma decimal_mono: "list_all is_num cs \<Longrightarrow> 0 \<le> acc \<Longrightarrow> acc \<le> decimal cs acc"
proof (induction cs arbitrary: acc)
  case (Cons c cs)
  then have d: "0 \<le> digit c" using digit_range by simp
  with Cons.IH [of "10 * acc + digit c"] Cons.prems show ?case by simp
qed simp

lemma parse_i32_loop_correct:
  "list_all is_num cs \<Longrightarrow> 0 \<le> acc \<Longrightarrow> acc \<le> 2147483648 \<Longrightarrow>
   parse_i32_loop cs (- acc) = Some (if decimal cs acc \<le> 2147483648 then Inr (- decimal cs acc) else Inl ERR_ARITH)"
proof (induction cs arbitrary: acc)
  case (Cons c cs)
  have c: "is_num c" "list_all is_num cs" using Cons.prems(1) by simp_all
  note d = digit_range [OF c(1)]
  let ?n = "10 * acc + digit c"
  have mono: "?n \<le> decimal cs ?n" using decimal_mono [OF c(2), of ?n] d Cons.prems(2) by simp
  show ?case
  proof (cases "?n \<le> 2147483648")
    case True
    have "in_i32 (- acc * 10) = Some (- acc * 10)" "in_i32 (- acc * 10 - digit c) = Some (- ?n)"
      using True d Cons.prems(2) by (simp_all add: in_i32_def)
    with Cons.IH [OF c(2), of ?n] True d Cons.prems(2) c(1) show ?thesis by simp
  next
    case False
    then have "in_i32 (- acc * 10) = None \<or> in_i32 (- acc * 10) = Some (- acc * 10) \<and> in_i32 (- acc * 10 - digit c) = None"
      by (simp add: in_i32_def)
    with False mono c(1) show ?thesis by auto
  qed
qed simp

lemma parse_i32_unsigned:
  assumes "list_all is_num cs" and "cs \<noteq> []"
  shows "parse_i32_expect cs = Some (if decimal cs 0 \<le> I32_MAX then Inr (decimal cs 0) else Inl ERR_ARITH)"
proof -
  have "List.hd cs \<noteq> 43 \<and> List.hd cs \<noteq> 45" using assms by (cases cs) (auto simp: is_num_def)
  then have "sign_of cs = Some (False, cs)" using assms(2) by (simp add: sign_of_def)
  with parse_i32_loop_correct [OF assms(1), of 0] show ?thesis by (simp add: parse_i32_expect_def)
qed

lemma py_mod_i32_is_mod:
  assumes "denom \<noteq> 0" and "\<not> (num = I32_MIN \<and> denom = -1)"
  shows "py_mod_i32 num denom = Some (num mod denom)"
proof -
  let ?r = "sgn num * (\<bar>num\<bar> mod \<bar>denom\<bar>)"
  have eq: "num = denom * (sgn num * sgn denom * (\<bar>num\<bar> div \<bar>denom\<bar>)) + ?r"
  proof -
    have "denom * (sgn num * sgn denom * (\<bar>num\<bar> div \<bar>denom\<bar>)) = sgn num * ((denom * sgn denom) * (\<bar>num\<bar> div \<bar>denom\<bar>))"
      by (simp only: ac_simps)
    also have "\<dots> = sgn num * (\<bar>denom\<bar> * (\<bar>num\<bar> div \<bar>denom\<bar>))"
      by (simp add: abs_sgn)
    finally have "denom * (sgn num * sgn denom * (\<bar>num\<bar> div \<bar>denom\<bar>)) + ?r =
        sgn num * (\<bar>denom\<bar> * (\<bar>num\<bar> div \<bar>denom\<bar>) + \<bar>num\<bar> mod \<bar>denom\<bar>)"
      by (simp only: distrib_left)
    then show ?thesis by (simp add: sgn_mult_abs)
  qed
  have bound: "\<bar>?r\<bar> < \<bar>denom\<bar>" using assms(1) by (simp add: abs_mult abs_sgn_eq)
  let ?y = "if ?r \<noteq> 0 \<and> (?r < 0) \<noteq> (denom < 0) then ?r + denom else ?r"
  have y: "num mod denom = ?y mod denom"
    by (subst eq) (simp add: mod_add_left_eq [symmetric])
  have range: "\<bar>r\<bar> < \<bar>denom\<bar> \<Longrightarrow> y = (if r \<noteq> 0 \<and> (r < 0) \<noteq> (denom < 0) then r + denom else r) \<Longrightarrow>
      0 \<le> y \<and> y < denom \<or> denom < y \<and> y \<le> 0" for r y
    by (auto split: if_splits)
  have "0 \<le> ?y \<and> ?y < denom \<or> denom < ?y \<and> ?y \<le> 0" by (rule range [OF bound refl])
  then have "?y mod denom = ?y" using mod_pos_pos_trivial mod_neg_neg_trivial by blast
  then have "num mod denom = ?y" unfolding y .
  moreover have "py_mod_i32 num denom = Some ?y"
    unfolding py_mod_i32_def Let_def using assms by (simp only: bind_ASSERT simp_thms if_True)
  ultimately show ?thesis by (simp only:)
qed

end
