(* ===== verification/Types.thy ===== *)
theory Types
  imports Serializer Strings_Lalloc
begin

text \<open>
  \<^verbatim>\<open>libs/nstypes\<close>: the types of variables, their sizes, their serialization, and the builders the parser and
  the deserialization put them together with.

  A type is a tree; the arrays of a struct, a union, an enumeration or an array are lists, whose lengths the
  code keeps in 16 bits. \<open>None\<close> is a failed assertion, among them \<^verbatim>\<open>DBG_ASSERT (valid_type, t)\<close>, or the
  use of a header byte that could not be read. Sizes are 32-bit words, whose sums and products wrap. The
  sizes of the C structs are those of a platform with pointers of 64 bits.
\<close>

section \<open>Primitive types\<close>

datatype prim_t = U8 | U16 | U32 | U64 | I8 | I16 | I32 | I64 | F16 | F32 | F64 | F128
  | CF32 | CF64 | CF128 | CF256 | CI16 | CI32 | CI64 | CI128 | CU16 | CU32 | CU64 | CU128

definition prims :: "prim_t list" where
  \<comment> \<open>in the order of their codes\<close>
  "prims = [U8, U16, U32, U64, I8, I16, I32, I64, F16, F32, F64, F128,
     CF32, CF64, CF128, CF256, CI16, CI32, CI64, CI128, CU16, CU32, CU64, CU128]"

definition prim_code :: "prim_t \<Rightarrow> nat" where
  "prim_code p = length (takeWhile (\<lambda>q. q \<noteq> p) prims)"

definition prim_t_validate :: "nat \<Rightarrow> unit res" where
  \<comment> \<open>on the code, which need not be that of a type\<close>
  "prim_t_validate t = (if t \<le> prim_code CU128 \<and> t \<ge> prim_code U8 then Inr () else Inl ERR_INTERP)"

definition chars :: "string \<Rightarrow> str" where
  "chars s = map of_char s"

primrec prim_to_str :: "prim_t \<Rightarrow> str" where
  "prim_to_str U8 = chars ''U8''"
| "prim_to_str U16 = chars ''U16''"
| "prim_to_str U32 = chars ''U32''"
| "prim_to_str U64 = chars ''U64''"
| "prim_to_str I8 = chars ''I8''"
| "prim_to_str I16 = chars ''I16''"
| "prim_to_str I32 = chars ''I32''"
| "prim_to_str I64 = chars ''I64''"
| "prim_to_str F16 = chars ''F16''"
| "prim_to_str F32 = chars ''F32''"
| "prim_to_str F64 = chars ''F64''"
| "prim_to_str F128 = chars ''F128''"
| "prim_to_str CF32 = chars ''CF32''"
| "prim_to_str CF64 = chars ''CF64''"
| "prim_to_str CF128 = chars ''CF128''"
| "prim_to_str CF256 = chars ''CF256''"
| "prim_to_str CI16 = chars ''CI16''"
| "prim_to_str CI32 = chars ''CI32''"
| "prim_to_str CI64 = chars ''CI64''"
| "prim_to_str CI128 = chars ''CI128''"
| "prim_to_str CU16 = chars ''CU16''"
| "prim_to_str CU32 = chars ''CU32''"
| "prim_to_str CU64 = chars ''CU64''"
| "prim_to_str CU128 = chars ''CU128''"

definition prim_t_byte_size :: "prim_t \<Rightarrow> u32" where
  "prim_t_byte_size t =
     (if t \<in> {U8, I8} then 1
      else if t \<in> {U16, I16, F16, CI16, CU16} then 2
      else if t \<in> {U32, I32, F32, CF32, CI32, CU32} then 4
      else if t \<in> {U64, I64, F64, CF64, CI64, CU64} then 8
      else if t \<in> {F128, CF128, CI128, CU128} then 16
      else 32)"

definition prim_is_int :: "prim_t \<Rightarrow> bool" where
  "prim_is_int p \<longleftrightarrow> prim_code p \<ge> prim_code U8 \<and> prim_code p \<le> prim_code I64"

definition prim_is_float :: "prim_t \<Rightarrow> bool" where
  "prim_is_float p \<longleftrightarrow> prim_code p \<ge> prim_code F16 \<and> prim_code p \<le> prim_code F128"

definition prim_is_complex :: "prim_t \<Rightarrow> bool" where
  "prim_is_complex p \<longleftrightarrow> prim_code p \<ge> prim_code CF32 \<and> prim_code p \<le> prim_code CU128"

definition prim_t_serialize :: "serializer \<Rightarrow> prim_t \<Rightarrow> serializer option" where
  "prim_t_serialize dest src = srlizr_write_expect dest [of_nat (prim_code src)]"

definition prim_t_deserialize :: "deserializer \<Rightarrow> (prim_t res \<times> deserializer) option" where
  "prim_t_deserialize src = do {
     (p, src) \<leftarrow> dsrlizr_read 1 src;
     case p of
       None \<Rightarrow> Some (Inl ERR_CORRUPT, src)
     | Some p \<Rightarrow> do {
         let c = unat (hd p);
         case prim_t_validate c of
           Inl e \<Rightarrow> Some (Inl e, src)
         | Inr _ \<Rightarrow> Some (Inr (prims ! c), src) } }"

section \<open>Types and their validation\<close>

datatype type_t =
    T_PRIM prim_t
  | T_STRUCT "str list" "type_t list"
  | T_UNION "str list" "type_t list"
  | T_ENUM "str list"
  | T_SARRAY "u32 list" type_t

primrec type_code :: "type_t \<Rightarrow> nat" where
  "type_code (T_PRIM _) = 0"
| "type_code (T_STRUCT _ _) = 1"
| "type_code (T_UNION _ _) = 2"
| "type_code (T_ENUM _) = 3"
| "type_code (T_SARRAY _ _) = 4"

definition struct_t_validate_shallow :: "str list \<Rightarrow> unit res" where
  "struct_t_validate_shallow keys =
     (if keys = [] then Inl ERR_INTERP
      else if [] \<in> set keys then Inl ERR_INTERP
      else if \<not> strings_all_unique keys then Inl ERR_INTERP
      else Inr ())"

definition struct_t_validate :: "str list \<Rightarrow> type_t list \<Rightarrow> unit res" where
  \<comment> \<open>returns before the loop over the fields\<close>
  "struct_t_validate keys types = struct_t_validate_shallow keys"

definition union_t_validate_shallow :: "str list \<Rightarrow> unit res" where
  "union_t_validate_shallow keys =
     (if keys = [] then Inl ERR_INTERP
      else if [] \<in> set keys then Inl ERR_INTERP
      else if \<not> strings_all_unique keys then Inl ERR_INTERP
      else Inr ())"

definition union_t_validate :: "str list \<Rightarrow> type_t list \<Rightarrow> unit res" where
  \<comment> \<open>returns before the loop over the fields\<close>
  "union_t_validate keys types = union_t_validate_shallow keys"

definition enum_t_validate :: "str list \<Rightarrow> unit res" where
  "enum_t_validate keys =
     (if keys = [] then Inl ERR_INTERP
      else if [] \<in> set keys then Inl ERR_INTERP
      else if \<not> strings_all_unique keys then Inl ERR_INTERP
      else Inr ())"

definition sarray_t_validate_shallow :: "u32 list \<Rightarrow> unit res" where
  "sarray_t_validate_shallow dims =
     (if dims = [] then Inl ERR_INTERP
      else if 0 \<in> set dims then Inl ERR_INTERP
      else Inr ())"

primrec type_validate :: "type_t \<Rightarrow> unit res" where
  "type_validate (T_PRIM p) = prim_t_validate (prim_code p)"
| "type_validate (T_STRUCT keys types) = struct_t_validate keys types"
| "type_validate (T_UNION keys types) = union_t_validate keys types"
| "type_validate (T_ENUM keys) = enum_t_validate keys"
| "type_validate (T_SARRAY dims t) =
     (case sarray_t_validate_shallow dims of Inl e \<Rightarrow> Inl e | Inr _ \<Rightarrow> type_validate t)"

definition valid_type :: "type_t \<Rightarrow> unit option" where
  "valid_type t = ASSERT (type_validate t = Inr ())"

section \<open>Sizes\<close>

fun type_byte_size :: "type_t \<Rightarrow> u32 option"
and struct_t_byte_size :: "type_t list \<Rightarrow> u32 \<Rightarrow> u32 option"
and union_t_byte_size :: "type_t list \<Rightarrow> u32 \<Rightarrow> u32 option" where
  "type_byte_size t = do {
     valid_type t;
     case t of
       T_PRIM p \<Rightarrow> Some (prim_t_byte_size p)
     | T_STRUCT keys types \<Rightarrow> struct_t_byte_size types 0
     | T_UNION keys types \<Rightarrow> union_t_byte_size types 0
     | T_ENUM keys \<Rightarrow> Some 1
     | T_SARRAY dims t \<Rightarrow> do { n \<leftarrow> type_byte_size t; Some (fold (\<lambda>d ret. ret * d) dims 1 * n) } }"
| "struct_t_byte_size [] ret = Some ret"
| "struct_t_byte_size (t # types) ret = do { n \<leftarrow> type_byte_size t; struct_t_byte_size types (ret + n) }"
| "union_t_byte_size [] ret = Some ret"
| "union_t_byte_size (t # types) ret = do {
     next \<leftarrow> type_byte_size t;
     union_t_byte_size types (if next > ret then next else ret) }"

definition enum_t_get_serial_size :: "str list \<Rightarrow> u32" where
  "enum_t_get_serial_size keys = fold (\<lambda>k ret. ret + of_nat (length k)) keys (2 + of_nat (length keys) * 2)"

fun type_get_serial_size :: "type_t \<Rightarrow> u32 option"
and struct_t_get_serial_size :: "str list \<Rightarrow> type_t list \<Rightarrow> u32 \<Rightarrow> u32 option" where
  \<comment> \<open>a struct and a union have the same size\<close>
  "type_get_serial_size t = do {
     valid_type t;
     let ret = 1;
     case t of
       T_PRIM p \<Rightarrow> Some (ret + 1)
     | T_STRUCT keys types \<Rightarrow> do { n \<leftarrow> struct_t_get_serial_size keys types (2 + of_nat (length keys) * 2); Some (ret + n) }
     | T_UNION keys types \<Rightarrow> do { n \<leftarrow> struct_t_get_serial_size keys types (2 + of_nat (length keys) * 2); Some (ret + n) }
     | T_ENUM keys \<Rightarrow> Some (ret + enum_t_get_serial_size keys)
     | T_SARRAY dims t \<Rightarrow> do { n \<leftarrow> type_get_serial_size t; Some (ret + (2 + 4 * of_nat (length dims) + n)) } }"
| "struct_t_get_serial_size (k # keys) (t # types) ret = do {
     n \<leftarrow> type_get_serial_size t;
     struct_t_get_serial_size keys types (ret + of_nat (length k) + n) }"
| "struct_t_get_serial_size keys types ret = Some ret"

section \<open>Serialization\<close>

definition write_u16 :: "serializer \<Rightarrow> nat \<Rightarrow> serializer option" where
  \<comment> \<open>the two low bytes\<close>
  "write_u16 dest n = srlizr_write_expect dest (le_bytes 2 (of_nat n :: u16))"

definition enum_t_serialize :: "serializer \<Rightarrow> str list \<Rightarrow> serializer option" where
  "enum_t_serialize dest keys = do {
     ASSERT (enum_t_validate keys = Inr ());
     dest \<leftarrow> write_u16 dest (length keys);
     visit (\<lambda>k dest. do { dest \<leftarrow> write_u16 dest (length k); srlizr_write_expect dest k }) keys dest }"

fun type_serialize :: "serializer \<Rightarrow> type_t \<Rightarrow> serializer option"
and struct_t_serialize :: "serializer \<Rightarrow> str list \<Rightarrow> type_t list \<Rightarrow> serializer option" where
  \<comment> \<open>a union is written the way a struct is\<close>
  "type_serialize dest src = do {
     valid_type src;
     dest \<leftarrow> srlizr_write_expect dest [of_nat (type_code src)];
     case src of
       T_PRIM p \<Rightarrow> prim_t_serialize dest p
     | T_STRUCT keys types \<Rightarrow> do { dest \<leftarrow> write_u16 dest (length keys); struct_t_serialize dest keys types }
     | T_UNION keys types \<Rightarrow> do { dest \<leftarrow> write_u16 dest (length keys); struct_t_serialize dest keys types }
     | T_ENUM keys \<Rightarrow> enum_t_serialize dest keys
     | T_SARRAY dims t \<Rightarrow> do {
         dest \<leftarrow> write_u16 dest (length dims);
         dest \<leftarrow> visit (\<lambda>d dest. srlizr_write_expect dest (le_bytes 4 d)) dims dest;
         type_serialize dest t } }"
| "struct_t_serialize dest (k # keys) (t # types) = do {
     dest \<leftarrow> write_u16 dest (length k);
     dest \<leftarrow> srlizr_write_expect dest k;
     dest \<leftarrow> type_serialize dest t;
     struct_t_serialize dest keys types }"
| "struct_t_serialize dest keys types = Some dest"

text \<open>The equations for one level; those of the definitions would unfold for ever.\<close>

declare type_byte_size.simps(1) [simp del] type_get_serial_size.simps(1) [simp del] type_serialize.simps(1) [simp del]

section \<open>Builders\<close>

text \<open>The nodes of a builder's list are allocated from \<^verbatim>\<open>alloc\<close>, the arrays of the result from \<^verbatim>\<open>dest\<close>, which
  is an argument here.\<close>

record kvt_builder =
  kb_nodes :: "(str \<times> type_t) list"
  kb_klen :: nat
  kb_tlen :: nat
  kb_alloc :: lalloc

definition kvt_builder_assert :: "kvt_builder \<Rightarrow> unit option" where
  "kvt_builder_assert s = do { ASSERT (kb_klen s \<le> 10); ASSERT (kb_tlen s \<le> 10) }"

definition kvb_create :: "lalloc \<Rightarrow> kvt_builder" where
  "kvb_create alloc = \<lparr>kb_nodes = [], kb_klen = 0, kb_tlen = 0, kb_alloc = alloc\<rparr>"

definition kvt_has_key_been_used :: "kvt_builder \<Rightarrow> str \<Rightarrow> bool" where
  "kvt_has_key_been_used ub key \<longleftrightarrow> (\<exists>(k, t) \<in> set (kb_nodes ub). string_equal k key)"

abbreviation KV_NODE_SIZE :: nat where "KV_NODE_SIZE \<equiv> 56"
abbreviation STRING_SIZE :: nat where "STRING_SIZE \<equiv> 16"
abbreviation TYPE_SIZE :: nat where "TYPE_SIZE \<equiv> 32"

definition kvb_slot :: "kvt_builder \<Rightarrow> nat \<Rightarrow> (nat res \<times> kvt_builder) option" where
  \<comment> \<open>the node at an index, or a new one at the end of the list\<close>
  "kvb_slot ub i =
     (if i < length (kb_nodes ub) then Some (Inr i, ub)
      else do {
        (r, a) \<leftarrow> lmalloc (kb_alloc ub) 1 KV_NODE_SIZE;
        let ub = ub\<lparr>kb_alloc := a\<rparr>;
        case r of
          Inl e \<Rightarrow> Some (Inl e, ub)
        | Inr _ \<Rightarrow> Some (Inr (length (kb_nodes ub)), ub\<lparr>kb_nodes := kb_nodes ub @ [([], T_PRIM U8)]\<rparr>) })"

definition kvb_accept_key :: "kvt_builder \<Rightarrow> str \<Rightarrow> (unit res \<times> kvt_builder) option" where
  "kvb_accept_key ub key = do {
     kvt_builder_assert ub;
     if kvt_has_key_been_used ub key then Some (Inl ERR_INTERP, ub)
     else err_wrap (kvb_slot ub (kb_klen ub)) (\<lambda>i ub.
       Some (Inr (), ub\<lparr>kb_nodes := (kb_nodes ub)[i := (key, snd (kb_nodes ub ! i))], kb_klen := kb_klen ub + 1\<rparr>)) }"

definition kvb_accept_type :: "kvt_builder \<Rightarrow> type_t \<Rightarrow> (unit res \<times> kvt_builder) option" where
  "kvb_accept_type ub t = do {
     kvt_builder_assert ub;
     err_wrap (kvb_slot ub (kb_tlen ub)) (\<lambda>i ub.
       Some (Inr (), ub\<lparr>kb_nodes := (kb_nodes ub)[i := (fst (kb_nodes ub ! i), t)], kb_tlen := kb_tlen ub + 1\<rparr>)) }"

definition kvb_build_common :: "kvt_builder \<Rightarrow> lalloc \<Rightarrow> ((str list \<times> type_t list) res \<times> lalloc) option" where
  "kvb_build_common ub onto =
     (if kb_klen ub = 0 then Some (Inl ERR_INTERP, onto)
      else if kb_klen ub \<noteq> kb_tlen ub then Some (Inl ERR_INTERP, onto)
      else
        err_wrap (lmalloc onto (kb_klen ub) STRING_SIZE) (\<lambda>_ onto.
        err_wrap (lmalloc onto (kb_tlen ub) TYPE_SIZE) (\<lambda>_ onto. do {
          ASSERT (length (kb_nodes ub) = kb_klen ub);
          Some (Inr (map fst (kb_nodes ub), map snd (kb_nodes ub)), onto) })))"

definition kvb_union_t_build :: "kvt_builder \<Rightarrow> lalloc \<Rightarrow> (type_t res \<times> lalloc) option" where
  "kvb_union_t_build ub onto =
     err_wrap (kvb_build_common ub onto) (\<lambda>(keys, types) onto. do {
       ASSERT (length keys > 1);
       Some (Inr (T_UNION keys types), onto) })"

definition kvb_struct_t_build :: "kvt_builder \<Rightarrow> lalloc \<Rightarrow> (type_t res \<times> lalloc) option" where
  "kvb_struct_t_build ub onto =
     err_wrap (kvb_build_common ub onto) (\<lambda>(keys, types) onto. do {
       ASSERT (length keys > 1);
       Some (Inr (T_STRUCT keys types), onto) })"

record enum_builder =
  eb_keys :: "str list"
  eb_alloc :: lalloc

definition enb_create :: "lalloc \<Rightarrow> enum_builder" where
  "enb_create alloc = \<lparr>eb_keys = [], eb_alloc = alloc\<rparr>"

definition enb_has_key_been_used :: "enum_builder \<Rightarrow> str \<Rightarrow> bool" where
  "enb_has_key_been_used eb key \<longleftrightarrow> (\<exists>k \<in> set (eb_keys eb). string_equal k key)"

definition enb_accept_key :: "enum_builder \<Rightarrow> str \<Rightarrow> (unit res \<times> enum_builder) option" where
  \<comment> \<open>the index is that of the end of the list, cut to 16 bits\<close>
  "enb_accept_key eb key =
     (if key = [] then Some (Inl ERR_INTERP, eb)
      else if enb_has_key_been_used eb key then Some (Inl ERR_INTERP, eb)
      else
        let idx = length (eb_keys eb) mod 2 ^ 16 in
        if idx < length (eb_keys eb) then Some (Inr (), eb\<lparr>eb_keys := (eb_keys eb)[idx := key]\<rparr>)
        else do {
          (r, a) \<leftarrow> lmalloc (eb_alloc eb) 1 24;
          let eb = eb\<lparr>eb_alloc := a\<rparr>;
          case r of
            Inl e \<Rightarrow> Some (Inl e, eb)
          | Inr _ \<Rightarrow> Some (Inr (), eb\<lparr>eb_keys := eb_keys eb @ [key]\<rparr>) })"

definition enb_build :: "enum_builder \<Rightarrow> lalloc \<Rightarrow> (type_t res \<times> lalloc) option" where
  "enb_build eb onto = do {
     let len = length (eb_keys eb) mod 2 ^ 16;
     if len = 0 then Some (Inl ERR_INTERP, onto)
     else err_wrap (lmalloc onto len STRING_SIZE) (\<lambda>_ onto. do {
       ASSERT (length (eb_keys eb) = len);
       Some (Inr (T_ENUM (eb_keys eb)), onto) }) }"

record sarray_builder =
  sb_dims :: "u32 list"
  sb_type :: "type_t option"
  sb_alloc :: lalloc

definition sab_create :: "lalloc \<Rightarrow> sarray_builder" where
  "sab_create alloc = \<lparr>sb_dims = [], sb_type = None, sb_alloc = alloc\<rparr>"

definition sab_accept_dim :: "sarray_builder \<Rightarrow> u32 \<Rightarrow> (unit res \<times> sarray_builder) option" where
  "sab_accept_dim eb dim = (
     let idx = length (sb_dims eb) mod 2 ^ 16 in
     if idx < length (sb_dims eb) then Some (Inr (), eb\<lparr>sb_dims := (sb_dims eb)[idx := dim]\<rparr>)
     else do {
       (r, a) \<leftarrow> lmalloc (sb_alloc eb) 1 16;
       let eb = eb\<lparr>sb_alloc := a\<rparr>;
       case r of
         Inl e \<Rightarrow> Some (Inl e, eb)
       | Inr _ \<Rightarrow> Some (Inr (), eb\<lparr>sb_dims := sb_dims eb @ [dim]\<rparr>) })"

definition sab_accept_type :: "sarray_builder \<Rightarrow> type_t \<Rightarrow> (unit res \<times> sarray_builder) option" where
  "sab_accept_type eb t =
     (if sb_type eb \<noteq> None then Some (Inl ERR_INTERP, eb)
      else do {
        (r, a) \<leftarrow> lmalloc (sb_alloc eb) 1 TYPE_SIZE;
        let eb = eb\<lparr>sb_alloc := a\<rparr>;
        case r of
          Inl e \<Rightarrow> Some (Inl e, eb)
        | Inr _ \<Rightarrow> Some (Inr (), eb\<lparr>sb_type := Some t\<rparr>) })"

definition sab_build :: "sarray_builder \<Rightarrow> lalloc \<Rightarrow> (type_t res \<times> lalloc) option" where
  "sab_build eb onto =
     (case sb_type eb of
        None \<Rightarrow> Some (Inl ERR_INTERP, onto)
      | Some t \<Rightarrow> do {
          let rank = length (sb_dims eb) mod 2 ^ 16;
          if rank = 0 then Some (Inl ERR_INTERP, onto)
          else err_wrap (lmalloc onto rank 4) (\<lambda>_ onto. do {
            ASSERT (length (sb_dims eb) = rank);
            Some (Inr (T_SARRAY (sb_dims eb) t), onto) }) })"

section \<open>Deserialization\<close>

type_synonym des = "deserializer \<times> lalloc"

definition read_bytes :: "nat \<Rightarrow> des \<Rightarrow> (u8 list res \<times> des) option" where
  \<comment> \<open>the early end of the input\<close>
  "read_bytes n s = do {
     let (src, a) = s;
     (r, src) \<leftarrow> dsrlizr_read n src;
     Some (case r of None \<Rightarrow> Inl ERR_CORRUPT | Some bs \<Rightarrow> Inr bs, src, a) }"

definition read_u16 :: "des \<Rightarrow> (nat res \<times> des) option" where
  "read_u16 s = err_wrap (read_bytes 2 s) (\<lambda>bs s. Some (Inr (unat (le_word bs :: u16)), s))"

definition des_alloc :: "nat \<Rightarrow> nat \<Rightarrow> des \<Rightarrow> (unit res \<times> des) option" where
  "des_alloc req sz s = do {
     let (src, a) = s;
     (r, a) \<leftarrow> lmalloc a req sz;
     Some (map_sum id (\<lambda>_. ()) r, src, a) }"

definition des_key :: "des \<Rightarrow> (str res \<times> des) option" where
  \<comment> \<open>\<^verbatim>\<open>struct.c\<close> takes the size of the allocation from \<^verbatim>\<open>key.len\<close> inside the initializer of \<^verbatim>\<open>key\<close>, where C leaves
    the order of the two members open: here the member \<^verbatim>\<open>len\<close> is stored first, as compilers do. The readers of unions and enums take
    it from \<^verbatim>\<open>klen\<close>.\<close>
  "des_key s =
     err_wrap (read_u16 s) (\<lambda>klen s.
     err_wrap (des_alloc klen 1 s) (\<lambda>_ s. read_bytes klen s))"

definition with_builder :: "kvt_builder \<Rightarrow> (kvt_builder \<Rightarrow> (unit res \<times> kvt_builder) option) \<Rightarrow> des \<Rightarrow> (kvt_builder res \<times> des) option" where
  "with_builder ub f s = do {
     (r, ub) \<leftarrow> f ub;
     Some (map_sum id (\<lambda>_. ub) r, s) }"

primrec kvt_deserialize_loop ::
  "(des \<Rightarrow> (type_t res \<times> des) option) \<Rightarrow> nat \<Rightarrow> kvt_builder \<Rightarrow> des \<Rightarrow> (kvt_builder res \<times> des) option" where
  "kvt_deserialize_loop rd 0 ub s = Some (Inr ub, s)"
| "kvt_deserialize_loop rd (Suc n) ub s =
     err_wrap (des_key s) (\<lambda>key s.
     err_wrap (rd s) (\<lambda>t s.
     err_wrap (with_builder ub (\<lambda>ub. kvb_accept_key ub key) s) (\<lambda>ub s.
     err_wrap (with_builder ub (\<lambda>ub. kvb_accept_type ub t) s) (\<lambda>ub s.
     kvt_deserialize_loop rd n ub s))))"

definition kvt_deserialize ::
  "(kvt_builder \<Rightarrow> lalloc \<Rightarrow> (type_t res \<times> lalloc) option) \<Rightarrow> (des \<Rightarrow> (type_t res \<times> des) option) \<Rightarrow> des \<Rightarrow>
     (type_t res \<times> des) option" where
  \<comment> \<open>a struct or a union; the nodes of the builder are on the stack\<close>
  "kvt_deserialize build rd s = do {
     balloc \<leftarrow> lalloc_create 2048;
     let unb = kvb_create balloc;
     err_wrap (read_u16 s) (\<lambda>len s.
     err_wrap (kvt_deserialize_loop rd len unb s) (\<lambda>unb (src, a). do {
       (r, a) \<leftarrow> build unb a;
       Some (r, src, a) })) }"

primrec des_keys :: "nat \<Rightarrow> des \<Rightarrow> (str list res \<times> des) option" where
  "des_keys 0 s = Some (Inr [], s)"
| "des_keys (Suc n) s =
     err_wrap (des_key s) (\<lambda>k s.
     err_wrap (des_keys n s) (\<lambda>ks s. Some (Inr (k # ks), s)))"

definition enum_t_deserialize :: "des \<Rightarrow> (type_t res \<times> des) option" where
  "enum_t_deserialize s =
     err_wrap (read_u16 s) (\<lambda>len s.
     err_wrap (des_alloc len STRING_SIZE s) (\<lambda>_ s.
     err_wrap (des_keys len s) (\<lambda>keys s.
       Some (case enum_t_validate keys of Inl e \<Rightarrow> Inl e | Inr _ \<Rightarrow> Inr (T_ENUM keys), s))))"

primrec des_dims :: "nat \<Rightarrow> des \<Rightarrow> (u32 list res \<times> des) option" where
  "des_dims 0 s = Some (Inr [], s)"
| "des_dims (Suc n) s =
     err_wrap (read_bytes 4 s) (\<lambda>d s.
     err_wrap (des_dims n s) (\<lambda>ds s. Some (Inr (le_word d # ds), s)))"

definition sarray_t_deserialize :: "(des \<Rightarrow> (type_t res \<times> des) option) \<Rightarrow> des \<Rightarrow> (type_t res \<times> des) option" where
  "sarray_t_deserialize rd s =
     err_wrap (read_u16 s) (\<lambda>rank s.
     err_wrap (des_alloc rank 4 s) (\<lambda>_ s.
     err_wrap (des_alloc 1 TYPE_SIZE s) (\<lambda>_ s.
     err_wrap (des_dims rank s) (\<lambda>dims s.
     err_wrap (rd s) (\<lambda>t s.
       Some (case sarray_t_validate_shallow dims of Inl e \<Rightarrow> Inl e | Inr _ \<Rightarrow> Inr (T_SARRAY dims t), s))))))"

lemma err_wrap_mono [partial_function_mono]:
  assumes "mono_option B" and "\<And>x s. mono_option (\<lambda>f. C x s f)"
  shows "mono_option (\<lambda>f. err_wrap (B f) (\<lambda>x s. C x s f))"
  unfolding err_wrap_def
proof (intro partial_function_mono assms(1))
  fix y :: "'c res \<times> 'd"
  show "mono_option (\<lambda>f. case y of (Inl e, s) \<Rightarrow> Some (Inl e, s) | (Inr x, s) \<Rightarrow> C x s f)"
    using assms(2) by (cases y; cases "fst y") (auto simp: option.const_mono)
qed

lemma kvt_deserialize_loop_mono: "mono_option (\<lambda>f. kvt_deserialize_loop f n ub s)"
proof (induction n arbitrary: ub s)
  case (Suc n)
  then show ?case unfolding kvt_deserialize_loop.simps by (intro partial_function_mono)
qed (simp add: option.const_mono)

lemma kvt_deserialize_mono [partial_function_mono]: "mono_option (\<lambda>f. kvt_deserialize build f s)"
  unfolding kvt_deserialize_def Let_def case_prod_beta by (intro partial_function_mono kvt_deserialize_loop_mono)

lemma sarray_t_deserialize_mono [partial_function_mono]: "mono_option (\<lambda>f. sarray_t_deserialize f s)"
  unfolding sarray_t_deserialize_def by (intro partial_function_mono)

partial_function (option) type_deserialize :: "des \<Rightarrow> (type_t res \<times> des) option" where
  \<comment> \<open>the result of reading the header is not checked\<close>
  "type_deserialize s = do {
     let (src, a) = s;
     (header, src) \<leftarrow> dsrlizr_read 1 src;
     header \<leftarrow> header;
     let s = (src, a);
     let c = unat (hd header);
     if c = 0 then do { (r, src) \<leftarrow> prim_t_deserialize src; Some (map_sum id T_PRIM r, src, a) }
     else if c = 1 then kvt_deserialize kvb_struct_t_build type_deserialize s
     else if c = 2 then kvt_deserialize kvb_union_t_build type_deserialize s
     else if c = 3 then enum_t_deserialize s
     else if c = 4 then sarray_t_deserialize type_deserialize s
     else Some (Inl ERR_INTERP, s) }"

section \<open>Equality\<close>

definition enum_t_equal :: "str list \<Rightarrow> str list \<Rightarrow> bool option" where
  "enum_t_equal left right = do {
     ASSERT (enum_t_validate left = Inr ());
     ASSERT (enum_t_validate right = Inr ());
     if length left \<noteq> length right then Some False
     else Some (list_all2 string_equal left right) }"

definition sarray_t_equal :: "u32 list \<Rightarrow> u32 list \<Rightarrow> bool" where
  \<comment> \<open>of the ranks and the dimensions\<close>
  "sarray_t_equal left right = (if length left \<noteq> length right then False else left = right)"

fun type_equal :: "type_t \<Rightarrow> type_t \<Rightarrow> bool option"
and struct_t_equal :: "str list \<Rightarrow> type_t list \<Rightarrow> str list \<Rightarrow> type_t list \<Rightarrow> bool option" where
  "type_equal (T_PRIM p) (T_PRIM q) = Some (p = q)"
| "type_equal (T_STRUCT ks ts) (T_STRUCT ks' ts') =
     (if length ks \<noteq> length ks' then Some False else struct_t_equal ks ts ks' ts')"
| "type_equal (T_UNION ks ts) (T_UNION ks' ts') =
     (if length ks \<noteq> length ks' then Some False else struct_t_equal ks ts ks' ts')"
| "type_equal (T_ENUM ks) (T_ENUM ks') = enum_t_equal ks ks'"
| "type_equal (T_SARRAY ds t) (T_SARRAY ds' t') = Some (sarray_t_equal ds ds')"
| "type_equal t t' = Some False"
| "struct_t_equal (k # ks) (t # ts) (k' # ks') (t' # ts') =
     (if \<not> string_equal k k' then Some False
      else do {
        same \<leftarrow> type_equal t t';
        if \<not> same then Some False else struct_t_equal ks ts ks' ts' })"
| "struct_t_equal ks ts ks' ts' = Some True"

section \<open>Printing\<close>

text \<open>\<^verbatim>\<open>snprintf\<close> puts as much of the text as fits into the room that is left, with a zero after it, and gives
  the length of the whole text. Without a buffer nothing is written. A conversion of a string stops at a
  zero byte. Lengths are below \<open>2 ^ 31\<close>.\<close>

type_synonym pbuf = "u8 list option"

definition snprintf :: "pbuf \<Rightarrow> nat \<Rightarrow> nat \<Rightarrow> str \<Rightarrow> (nat \<times> pbuf) option" where
  "snprintf buf pos avail txt =
     (if avail = 0 then Some (length txt, buf)
      else do {
        bs \<leftarrow> buf;
        bs \<leftarrow> mem_write bs pos (take (avail - 1) txt @ [0]);
        Some (length txt, Some bs) })"

definition cstr :: "str \<Rightarrow> str" where
  "cstr s = takeWhile (\<lambda>c. c \<noteq> 0) s"

fun dec :: "nat \<Rightarrow> str" where
  "dec n = (if n < 10 then [48 + of_nat n] else dec (n div 10) @ [48 + of_nat (n mod 10)])"

definition advance :: "pbuf \<Rightarrow> nat \<Rightarrow> nat \<Rightarrow> nat \<Rightarrow> nat \<times> nat" where
  \<comment> \<open>the position and the room after \<open>n\<close> more characters\<close>
  "advance buf pos avail n =
     (case buf of None \<Rightarrow> (pos, avail) | Some _ \<Rightarrow> (pos + n, if n < avail then avail - n else 0))"

definition prim_t_snprintf :: "pbuf \<Rightarrow> nat \<Rightarrow> nat \<Rightarrow> prim_t \<Rightarrow> (nat \<times> pbuf) option" where
  "prim_t_snprintf buf pos avail p = snprintf buf pos avail (prim_to_str p)"

type_synonym printing = "nat \<times> pbuf \<times> nat \<times> nat"

definition print_text :: "str \<Rightarrow> printing \<Rightarrow> printing option" where
  \<comment> \<open>the length so far, the buffer, the position and the room\<close>
  "print_text txt s = do {
     let (len, buf, pos, avail) = s;
     (n, buf) \<leftarrow> snprintf buf pos avail txt;
     Some (len + n, buf, advance buf pos avail n) }"

definition enum_t_snprintf :: "str list \<Rightarrow> printing \<Rightarrow> printing option" where
  "enum_t_snprintf keys s = do {
     ASSERT (enum_t_validate keys = Inr ());
     s \<leftarrow> print_text (chars ''enum { '') s;
     s \<leftarrow> visit (\<lambda>(i, k) s. do {
         s \<leftarrow> print_text (cstr k) s;
         if i + 1 < length keys then print_text (chars '', '') s else Some s }) (enumerate 0 keys) s;
     print_text (chars '' }'') s }"

fun type_snprintf :: "type_t \<Rightarrow> printing \<Rightarrow> printing option"
and struct_t_snprintf :: "str list \<Rightarrow> type_t list \<Rightarrow> printing \<Rightarrow> printing option" where
  \<comment> \<open>the parts of a type go on where the text before them ended\<close>
  "type_snprintf t s = do {
     valid_type t;
     case t of
       T_PRIM p \<Rightarrow> print_text (prim_to_str p) s
     | T_STRUCT keys types \<Rightarrow> do {
         s \<leftarrow> print_text (chars ''struct { '') s;
         s \<leftarrow> struct_t_snprintf keys types s;
         print_text (chars '' }'') s }
     | T_UNION keys types \<Rightarrow> do {
         s \<leftarrow> print_text (chars ''union { '') s;
         s \<leftarrow> struct_t_snprintf keys types s;
         print_text (chars '' }'') s }
     | T_ENUM keys \<Rightarrow> enum_t_snprintf keys s
     | T_SARRAY dims t \<Rightarrow> do {
         s \<leftarrow> visit (\<lambda>d s. print_text (chars ''['' @ dec (unat d) @ chars '']'') s) dims s;
         type_snprintf t s } }"
| "struct_t_snprintf (k # keys) (t # types) s = do {
     s \<leftarrow> print_text (cstr k @ chars '' '') s;
     s \<leftarrow> type_snprintf t s;
     s \<leftarrow> (if keys \<noteq> [] then print_text (chars '', '') s else Some s);
     struct_t_snprintf keys types s }"
| "struct_t_snprintf keys types s = Some s"

declare type_snprintf.simps(1) [simp del] dec.simps [simp del]

end
