(* ===== verification/Literal.thy ===== *)
theory Literal
  imports Numbers Types
begin

unbundle bit_operations_syntax

text \<open>
  \<^verbatim>\<open>libs/nscompiler/literal.c\<close>: the values of the query language and the operations of its expressions.

  An object or an array is what its memory holds (the lists) with the length the code works with; the two
  are different things, as a length may be larger than the memory. Reading behind the memory is \<open>None\<close>, as
  are a failed assertion and an integer operation that C leaves undefined. The arithmetic of floating-point
  numbers is a parameter, the record \<open>num_ops\<close>: the model says which operation at which width the code uses.
\<close>

section \<open>Literals\<close>

type_synonym f64 = "64 word"
type_synonym cf64 = "f32 \<times> f32"
type_synonym cf128 = "f64 \<times> f64"

datatype literal =
    LT_OBJECT "str list" "literal list" nat
  | LT_ARRAY "literal list" nat
  | LT_STRING str
  | LT_INTEGER int
  | LT_DECIMAL f32
  | LT_COMPLEX cf64
  | LT_BOOL bool

text \<open>The literal of which all bytes are zero.\<close>

definition literal_zero :: literal where
  "literal_zero = LT_OBJECT [] [] 0"

datatype arith_op = A_PLUS | A_MINUS | A_STAR | A_SLASH

datatype rel_op = R_EQ | R_NE | R_GT | R_GE | R_LT | R_LE

datatype bit_op = B_XOR | B_OR | B_AND

record num_ops =
  n_f32 :: "arith_op \<Rightarrow> f32 \<Rightarrow> f32 \<Rightarrow> f32"
  n_cf64 :: "arith_op \<Rightarrow> cf64 \<Rightarrow> cf64 \<Rightarrow> cf64"
  n_cf64_f32 :: "arith_op \<Rightarrow> cf64 \<Rightarrow> f32 \<Rightarrow> cf64"
  n_cf128_cf64 :: "arith_op \<Rightarrow> cf128 \<Rightarrow> cf64 \<Rightarrow> cf64"
  n_f32_neg :: "f32 \<Rightarrow> f32"
  n_f32_of_i32 :: "int \<Rightarrow> f32"
  n_f64_of_i32 :: "int \<Rightarrow> f64"
  n_f64_of_f32 :: "f32 \<Rightarrow> f64"
  n_i32_of_f32 :: "f32 \<Rightarrow> int option"
  n_f32_rel :: "rel_op \<Rightarrow> f32 \<Rightarrow> f32 \<Rightarrow> bool"
  n_f64_rel :: "rel_op \<Rightarrow> f64 \<Rightarrow> f64 \<Rightarrow> bool"
  n_cabs_sqrd :: "cf64 \<Rightarrow> f64"
  n_infinity :: f32

definition rel_int :: "rel_op \<Rightarrow> int \<Rightarrow> int \<Rightarrow> bool" where
  "rel_int r a b = (case r of R_EQ \<Rightarrow> a = b | R_NE \<Rightarrow> a \<noteq> b | R_GT \<Rightarrow> a > b | R_GE \<Rightarrow> a \<ge> b | R_LT \<Rightarrow> a < b | R_LE \<Rightarrow> a \<le> b)"

definition rel_cf64 :: "num_ops \<Rightarrow> rel_op \<Rightarrow> cf64 \<Rightarrow> cf64 \<Rightarrow> bool" where
  \<comment> \<open>C has \<^verbatim>\<open>==\<close> and \<^verbatim>\<open>!=\<close> only\<close>
  "rel_cf64 n r a b = (
     let eq = n_f32_rel n R_EQ (fst a) (fst b) \<and> n_f32_rel n R_EQ (snd a) (snd b)
     in if r = R_EQ then eq else \<not> eq)"

definition rel_cf128 :: "num_ops \<Rightarrow> rel_op \<Rightarrow> cf128 \<Rightarrow> cf128 \<Rightarrow> bool" where
  "rel_cf128 n r a b = (
     let eq = n_f64_rel n R_EQ (fst a) (fst b) \<and> n_f64_rel n R_EQ (snd a) (snd b)
     in if r = R_EQ then eq else \<not> eq)"

definition cf128_of_cf64 :: "num_ops \<Rightarrow> cf64 \<Rightarrow> cf128" where
  "cf128_of_cf64 n c = (n_f64_of_f32 n (fst c), n_f64_of_f32 n (snd c))"

definition cf128_of_f32 :: "num_ops \<Rightarrow> f32 \<Rightarrow> cf128" where
  "cf128_of_f32 n x = (n_f64_of_f32 n x, n_f64_of_i32 n 0)"

definition cf128_of_i32 :: "num_ops \<Rightarrow> int \<Rightarrow> cf128" where
  "cf128_of_i32 n i = (n_f64_of_i32 n i, n_f64_of_i32 n 0)"

definition arith_i32 :: "arith_op \<Rightarrow> int \<Rightarrow> int \<Rightarrow> int option" where
  "arith_i32 p a b =
     (case p of
        A_PLUS \<Rightarrow> in_i32 (a + b)
      | A_MINUS \<Rightarrow> in_i32 (a - b)
      | A_STAR \<Rightarrow> in_i32 (a * b)
      | A_SLASH \<Rightarrow> do { ASSERT (b \<noteq> 0); in_i32 (sgn a * sgn b * (\<bar>a\<bar> div \<bar>b\<bar>)) })"

definition bit_int :: "bit_op \<Rightarrow> int \<Rightarrow> int \<Rightarrow> int" where
  "bit_int p a b = (case p of B_XOR \<Rightarrow> a XOR b | B_OR \<Rightarrow> a OR b | B_AND \<Rightarrow> a AND b)"

section \<open>Equality\<close>

fun literal_equal :: "num_ops \<Rightarrow> literal \<Rightarrow> literal \<Rightarrow> bool option"
and object_loop :: "num_ops \<Rightarrow> nat \<Rightarrow> str list \<Rightarrow> literal list \<Rightarrow> str list \<Rightarrow> literal list \<Rightarrow> bool option"
and array_loop :: "num_ops \<Rightarrow> nat \<Rightarrow> literal list \<Rightarrow> literal list \<Rightarrow> bool option" where
  "literal_equal n (LT_OBJECT lk ll llen) (LT_OBJECT rk rl rlen) =
     (if llen \<noteq> rlen then Some False else object_loop n llen lk ll rk rl)"
| "literal_equal n (LT_ARRAY ll llen) (LT_ARRAY rl rlen) =
     (if llen \<noteq> rlen then Some False else array_loop n llen ll rl)"
| "literal_equal n (LT_STRING a) (LT_STRING b) = Some (string_equal a b)"
| "literal_equal n (LT_INTEGER a) (LT_INTEGER b) = Some (a = b)"
| "literal_equal n (LT_DECIMAL a) (LT_DECIMAL b) = Some (n_f32_rel n R_EQ a b)"
| "literal_equal n (LT_COMPLEX a) (LT_COMPLEX b) = Some (rel_cf64 n R_EQ a b)"
| "literal_equal n (LT_BOOL a) (LT_BOOL b) = Some (a = b)"
| "literal_equal n _ _ = Some False"
| "object_loop n 0 _ _ _ _ = Some True"
| "object_loop n (Suc i) (k # lk) (l # ll) (k' # rk) (l' # rl) =
     (if \<not> string_equal k k' then Some False
      else do {
        b \<leftarrow> literal_equal n l l';
        if \<not> b then Some False else object_loop n i lk ll rk rl })"
| "object_loop n (Suc i) _ _ _ _ = None"
| "array_loop n 0 _ _ = Some True"
| "array_loop n (Suc i) (l # ll) (l' # rl) = do {
     b \<leftarrow> literal_equal n l l';
     if \<not> b then Some False else array_loop n i ll rl }"
| "array_loop n (Suc i) _ _ = None"

definition object_equal :: "num_ops \<Rightarrow> str list \<times> literal list \<times> nat \<Rightarrow> str list \<times> literal list \<times> nat \<Rightarrow> bool option" where
  "object_equal n left right =
     (case (left, right) of ((lk, ll, llen), (rk, rl, rlen)) \<Rightarrow>
        if llen \<noteq> rlen then Some False else object_loop n llen lk ll rk rl)"

definition array_equal :: "num_ops \<Rightarrow> literal list \<times> nat \<Rightarrow> literal list \<times> nat \<Rightarrow> bool option" where
  "array_equal n left right =
     (case (left, right) of ((ll, llen), (rl, rlen)) \<Rightarrow>
        if llen \<noteq> rlen then Some False else array_loop n llen ll rl)"

section \<open>Joining objects and arrays\<close>

abbreviation LITERAL_SIZE :: nat where "LITERAL_SIZE \<equiv> 32"
abbreviation OBJECT_NODE_SIZE :: nat where "OBJECT_NODE_SIZE \<equiv> 56"
abbreviation ARRAY_NODE_SIZE :: nat where "ARRAY_NODE_SIZE \<equiv> 40"

definition elements :: "'a list \<Rightarrow> nat \<Rightarrow> 'a list option" where
  \<comment> \<open>so many elements of an array\<close>
  "elements xs len = do { ASSERT (len \<le> length xs); Some (take len xs) }"

text \<open>The new arrays are filled, but the result keeps the old ones: only the length is stored. A length beyond the
  memory of an operand is a failure here even where the code would return before it reads the missing element.\<close>

definition object_plus :: "str list \<times> literal list \<times> nat \<Rightarrow> str list \<times> literal list \<times> nat \<Rightarrow> lalloc \<Rightarrow>
    ((str list \<times> literal list \<times> nat) res \<times> lalloc) option" where
  "object_plus dest right a =
     (case (dest, right) of ((dk, dl, dlen), (rk, rl, rlen)) \<Rightarrow> do {
        dkeys \<leftarrow> elements dk dlen;
        rkeys \<leftarrow> elements rk rlen;
        if strings_are_disjoint dkeys rkeys \<noteq> None then Some (Inl ERR_INTERP, a)
        else do {
          let len = add32 dlen rlen;
          err_wrap (lmalloc a len STRING_SIZE) (\<lambda>_ a.
          err_wrap (lmalloc a len LITERAL_SIZE) (\<lambda>_ a. do {
            dlits \<leftarrow> elements dl dlen;
            rlits \<leftarrow> elements rl rlen;
            ASSERT (length (dlits @ rlits) \<le> len);
            ASSERT (length (dkeys @ rkeys) \<le> len);
            Some (Inr (dk, dl, len), a) })) } })"

definition array_plus :: "literal list \<times> nat \<Rightarrow> literal list \<times> nat \<Rightarrow> lalloc \<Rightarrow> ((literal list \<times> nat) res \<times> lalloc) option" where
  "array_plus dest right a =
     (case (dest, right) of ((dl, dlen), (rl, rlen)) \<Rightarrow> do {
        let len = add32 dlen rlen;
        err_wrap (lmalloc a len LITERAL_SIZE) (\<lambda>_ a. do {
          dlits \<leftarrow> elements dl dlen;
          rlits \<leftarrow> elements rl rlen;
          ASSERT (length (dlits @ rlits) \<le> len);
          Some (Inr (dl, len), a) }) })"

section \<open>Builders\<close>

text \<open>The nodes of a builder's list are allocated from \<^verbatim>\<open>work\<close>, the arrays of the result from \<^verbatim>\<open>dest\<close>.\<close>

record object_builder =
  ob_nodes :: "(str \<times> literal) list"
  ob_klen :: nat
  ob_tlen :: nat
  ob_work :: lalloc

definition objb_create :: "lalloc \<Rightarrow> object_builder" where
  "objb_create work = \<lparr>ob_nodes = [], ob_klen = 0, ob_tlen = 0, ob_work = work\<rparr>"

definition object_has_key_been_used :: "object_builder \<Rightarrow> str \<Rightarrow> bool" where
  "object_has_key_been_used ub key \<longleftrightarrow> (\<exists>(k, v) \<in> set (ob_nodes ub). string_equal k key)"

definition objb_slot :: "object_builder \<Rightarrow> nat \<Rightarrow> (nat res \<times> object_builder) option" where
  \<comment> \<open>the node at an index, or a new one at the end of the list\<close>
  "objb_slot ub i =
     (if i < length (ob_nodes ub) then Some (Inr i, ub)
      else do {
        (r, a) \<leftarrow> lmalloc (ob_work ub) 1 OBJECT_NODE_SIZE;
        let ub = ub\<lparr>ob_work := a\<rparr>;
        case r of
          Inl e \<Rightarrow> Some (Inl e, ub)
        | Inr _ \<Rightarrow> Some (Inr (length (ob_nodes ub)), ub\<lparr>ob_nodes := ob_nodes ub @ [([], literal_zero)]\<rparr>) })"

definition objb_accept_string :: "object_builder \<Rightarrow> str \<Rightarrow> (unit res \<times> object_builder) option" where
  "objb_accept_string ub key =
     (if object_has_key_been_used ub key then Some (Inl ERR_INTERP, ub)
      else err_wrap (objb_slot ub (ob_klen ub)) (\<lambda>i ub.
        Some (Inr (), ub\<lparr>ob_nodes := (ob_nodes ub)[i := (key, snd (ob_nodes ub ! i))],
          ob_klen := (ob_klen ub + 1) mod 65536\<rparr>)))"

definition objb_accept_literal :: "object_builder \<Rightarrow> literal \<Rightarrow> (unit res \<times> object_builder) option" where
  "objb_accept_literal ub t =
     err_wrap (objb_slot ub (ob_tlen ub)) (\<lambda>i ub.
       Some (Inr (), ub\<lparr>ob_nodes := (ob_nodes ub)[i := (fst (ob_nodes ub ! i), t)],
         ob_tlen := (ob_tlen ub + 1) mod 65536\<rparr>))"

definition objb_build_common :: "object_builder \<Rightarrow> lalloc \<Rightarrow> ((str list \<times> literal list \<times> nat) res \<times> lalloc) option" where
  "objb_build_common ub onto =
     (if ob_klen ub = 0 then Some (Inl ERR_INTERP, onto)
      else if ob_klen ub \<noteq> ob_tlen ub then Some (Inl ERR_INTERP, onto)
      else
        err_wrap (lmalloc onto (ob_klen ub) STRING_SIZE) (\<lambda>_ onto.
        err_wrap (lmalloc onto (ob_tlen ub) LITERAL_SIZE) (\<lambda>_ onto. do {
          ASSERT (length (ob_nodes ub) = ob_klen ub);
          Some (Inr (map fst (ob_nodes ub), map snd (ob_nodes ub), ob_klen ub), onto) })))"

definition objb_build :: "object_builder \<Rightarrow> lalloc \<Rightarrow> (literal res \<times> lalloc) option" where
  "objb_build ub dest =
     err_wrap (objb_build_common ub dest) (\<lambda>(keys, literals, len) dest. Some (Inr (LT_OBJECT keys literals len), dest))"

record array_builder =
  ab_nodes :: "literal list"
  ab_work :: lalloc

definition arb_create :: "lalloc \<Rightarrow> array_builder" where
  "arb_create work = \<lparr>ab_nodes = [], ab_work = work\<rparr>"

definition arb_accept_literal :: "array_builder \<Rightarrow> literal \<Rightarrow> (unit res \<times> array_builder) option" where
  \<comment> \<open>the index is the length of the list in 16 bits\<close>
  "arb_accept_literal b v = (
     let idx = length (ab_nodes b) mod 65536
     in if idx < length (ab_nodes b) then Some (Inr (), b\<lparr>ab_nodes := (ab_nodes b)[idx := v]\<rparr>)
        else do {
          (r, a) \<leftarrow> lmalloc (ab_work b) 1 ARRAY_NODE_SIZE;
          let b = b\<lparr>ab_work := a\<rparr>;
          case r of
            Inl e \<Rightarrow> Some (Inl e, b)
          | Inr _ \<Rightarrow> Some (Inr (), b\<lparr>ab_nodes := ab_nodes b @ [v]\<rparr>) })"

definition arb_build :: "array_builder \<Rightarrow> lalloc \<Rightarrow> (literal res \<times> lalloc) option" where
  "arb_build b dest = (
     let len = length (ab_nodes b) mod 65536
     in err_wrap (lmalloc dest len LITERAL_SIZE) (\<lambda>_ dest. do {
          ASSERT (length (ab_nodes b) \<le> len);
          Some (Inr (LT_ARRAY (ab_nodes b) len), dest) }))"

section \<open>Operations on numbers\<close>

text \<open>The outer option is an operation that C leaves undefined, the inner one a pair of types the operation is not for.\<close>

fun scalar_coerce :: "num_ops \<Rightarrow> arith_op \<Rightarrow> literal \<Rightarrow> literal \<Rightarrow> literal option option" where
  "scalar_coerce n p (LT_INTEGER a) (LT_INTEGER b) = do { x \<leftarrow> arith_i32 p a b; Some (Some (LT_INTEGER x)) }"
| "scalar_coerce n p (LT_DECIMAL a) (LT_DECIMAL b) = Some (Some (LT_DECIMAL (n_f32 n p a b)))"
| "scalar_coerce n p (LT_COMPLEX a) (LT_COMPLEX b) = Some (Some (LT_COMPLEX (n_cf64 n p a b)))"
| "scalar_coerce n p (LT_COMPLEX a) (LT_DECIMAL b) = Some (Some (LT_COMPLEX (n_cf64_f32 n p a b)))"
| "scalar_coerce n p (LT_COMPLEX a) (LT_INTEGER b) = Some (Some (LT_COMPLEX (n_cf64_f32 n p a (n_f32_of_i32 n b))))"
| "scalar_coerce n p (LT_DECIMAL a) (LT_INTEGER b) = Some (Some (LT_DECIMAL (n_f32 n p a (n_f32_of_i32 n b))))"
| "scalar_coerce n p (LT_DECIMAL a) (LT_COMPLEX b) = Some (Some (LT_COMPLEX (n_cf128_cf64 n p (cf128_of_f32 n a) b)))"
| "scalar_coerce n p (LT_INTEGER a) (LT_DECIMAL b) = Some (Some (LT_DECIMAL (n_f32 n p (n_f32_of_i32 n a) b)))"
| "scalar_coerce n p (LT_INTEGER a) (LT_COMPLEX b) = Some (Some (LT_COMPLEX (n_cf128_cf64 n p (cf128_of_i32 n a) b)))"
| "scalar_coerce n p _ _ = Some None"

fun bool_coerce :: "num_ops \<Rightarrow> rel_op \<Rightarrow> literal \<Rightarrow> literal \<Rightarrow> bool option" where
  "bool_coerce n r (LT_INTEGER a) (LT_INTEGER b) = Some (rel_int r a b)"
| "bool_coerce n r (LT_DECIMAL a) (LT_DECIMAL b) = Some (n_f32_rel n r a b)"
| "bool_coerce n r (LT_COMPLEX a) (LT_DECIMAL b) = Some (rel_cf128 n r (cf128_of_cf64 n a) (cf128_of_f32 n b))"
| "bool_coerce n r (LT_COMPLEX a) (LT_COMPLEX b) = Some (rel_cf64 n r a b)"
| "bool_coerce n r (LT_DECIMAL a) (LT_COMPLEX b) = Some (rel_cf128 n r (cf128_of_f32 n a) (cf128_of_cf64 n b))"
| "bool_coerce n r (LT_INTEGER a) (LT_DECIMAL b) = Some (n_f64_rel n r (n_f64_of_i32 n a) (n_f64_of_f32 n b))"
| "bool_coerce n r (LT_DECIMAL a) (LT_INTEGER b) = Some (n_f64_rel n r (n_f64_of_f32 n a) (n_f64_of_i32 n b))"
| "bool_coerce n r (LT_INTEGER a) (LT_COMPLEX b) = Some (rel_cf128 n r (cf128_of_i32 n a) (cf128_of_cf64 n b))"
| "bool_coerce n r (LT_COMPLEX a) (LT_INTEGER b) = Some (rel_cf128 n r (cf128_of_cf64 n a) (cf128_of_i32 n b))"
| "bool_coerce n r _ _ = None"

text \<open>The order has no case for a complex number on the left with a number that is not.\<close>

fun bool_coerce_cabs :: "num_ops \<Rightarrow> rel_op \<Rightarrow> literal \<Rightarrow> literal \<Rightarrow> bool option" where
  "bool_coerce_cabs n r (LT_INTEGER a) (LT_INTEGER b) = Some (rel_int r a b)"
| "bool_coerce_cabs n r (LT_DECIMAL a) (LT_DECIMAL b) = Some (n_f32_rel n r a b)"
| "bool_coerce_cabs n r (LT_COMPLEX a) (LT_COMPLEX b) = Some (n_f64_rel n r (n_cabs_sqrd n a) (n_cabs_sqrd n b))"
| "bool_coerce_cabs n r (LT_DECIMAL a) (LT_INTEGER b) = Some (n_f32_rel n r a (n_f32_of_i32 n b))"
| "bool_coerce_cabs n r (LT_INTEGER a) (LT_DECIMAL b) = Some (n_f32_rel n r (n_f32_of_i32 n a) b)"
| "bool_coerce_cabs n r (LT_INTEGER a) (LT_COMPLEX b) = Some (n_f64_rel n r (n_f64_of_i32 n a) (n_cabs_sqrd n b))"
| "bool_coerce_cabs n r (LT_DECIMAL a) (LT_COMPLEX b) = Some (n_f64_rel n r (n_f64_of_f32 n a) (n_cabs_sqrd n b))"
| "bool_coerce_cabs n r _ _ = None"

fun bitmanip_coerce :: "bit_op \<Rightarrow> literal \<Rightarrow> literal \<Rightarrow> literal option" where
  "bitmanip_coerce p (LT_BOOL a) (LT_BOOL b) = Some (LT_BOOL (bit_int p (of_bool a) (of_bool b) \<noteq> 0))"
| "bitmanip_coerce p (LT_INTEGER a) (LT_BOOL b) = Some (LT_INTEGER (bit_int p a (of_bool b)))"
| "bitmanip_coerce p (LT_BOOL a) (LT_INTEGER b) = Some (LT_INTEGER (bit_int p (of_bool a) b))"
| "bitmanip_coerce p (LT_INTEGER a) (LT_INTEGER b) = Some (LT_INTEGER (bit_int p a b))"
| "bitmanip_coerce p _ _ = None"

definition literal_truthy :: "num_ops \<Rightarrow> literal \<Rightarrow> bool" where
  "literal_truthy n v =
     (case v of
        LT_BOOL b \<Rightarrow> b
      | LT_INTEGER i \<Rightarrow> i \<noteq> 0
      | LT_DECIMAL d \<Rightarrow> n_f64_rel n R_NE (n_f64_of_f32 n d) (n_f64_of_i32 n 0)
      | LT_COMPLEX c \<Rightarrow> n_f64_rel n R_NE (n_cabs_sqrd n c) (n_f64_of_i32 n 0)
      | LT_STRING s \<Rightarrow> length s \<noteq> 0
      | LT_OBJECT _ _ len \<Rightarrow> len \<noteq> 0
      | LT_ARRAY _ len \<Rightarrow> len \<noteq> 0)"

definition py_mod_f32 :: "num_ops \<Rightarrow> f32 \<Rightarrow> f32 \<Rightarrow> f32 option" where
  \<comment> \<open>the conversion of the quotient to an integer is undefined out of range\<close>
  "py_mod_f32 n num denom = (
     let zero = n_f32_of_i32 n 0
     in if n_f32_rel n R_EQ denom zero then Some (n_infinity n)
        else do {
          q \<leftarrow> n_i32_of_f32 n (n_f32 n A_SLASH num denom);
          let rem = n_f32 n A_MINUS num (n_f32 n A_STAR denom (n_f32_of_i32 n q));
          Some (if n_f32_rel n R_LT rem zero \<and> n_f32_rel n R_GT denom zero \<or>
                   n_f32_rel n R_GT rem zero \<and> n_f32_rel n R_LT denom zero
                then n_f32 n A_PLUS rem denom else rem) })"

section \<open>Operators\<close>

definition literal_plus_literal :: "num_ops \<Rightarrow> literal \<Rightarrow> literal \<Rightarrow> lalloc \<Rightarrow> (literal res \<times> lalloc) option" where
  "literal_plus_literal n dest right alc = do {
     r \<leftarrow> scalar_coerce n A_PLUS dest right;
     case r of
       Some x \<Rightarrow> Some (Inr x, alc)
     | None \<Rightarrow>
         (case (dest, right) of
            (LT_ARRAY dl dlen, LT_ARRAY rl rlen) \<Rightarrow>
              err_wrap (array_plus (dl, dlen) (rl, rlen) alc) (\<lambda>(l, len) alc. Some (Inr (LT_ARRAY l len), alc))
          | (LT_OBJECT dk dl dlen, LT_OBJECT rk rl rlen) \<Rightarrow>
              err_wrap (object_plus (dk, dl, dlen) (rk, rl, rlen) alc) (\<lambda>(k, l, len) alc. Some (Inr (LT_OBJECT k l len), alc))
          | (LT_STRING a, LT_STRING b) \<Rightarrow>
              err_wrap (string_plus a b alc) (\<lambda>s alc. Some (Inr (LT_STRING s), alc))
          | _ \<Rightarrow> Some (Inl ERR_SYNTAX, alc)) }"

definition scalar_literal :: "num_ops \<Rightarrow> arith_op \<Rightarrow> literal \<Rightarrow> literal \<Rightarrow> literal res option" where
  "scalar_literal n p dest right = do {
     r \<leftarrow> scalar_coerce n p dest right;
     Some (case r of Some x \<Rightarrow> Inr x | None \<Rightarrow> Inl ERR_SYNTAX) }"

definition literal_minus_literal :: "num_ops \<Rightarrow> literal \<Rightarrow> literal \<Rightarrow> literal res option" where
  "literal_minus_literal n dest right = scalar_literal n A_MINUS dest right"

definition literal_star_literal :: "num_ops \<Rightarrow> literal \<Rightarrow> literal \<Rightarrow> literal res option" where
  "literal_star_literal n dest right = scalar_literal n A_STAR dest right"

definition literal_slash_literal :: "num_ops \<Rightarrow> literal \<Rightarrow> literal \<Rightarrow> literal res option" where
  "literal_slash_literal n dest right = scalar_literal n A_SLASH dest right"

definition literal_equal_equal_literal :: "num_ops \<Rightarrow> literal \<Rightarrow> literal \<Rightarrow> literal res option" where
  "literal_equal_equal_literal n dest right =
     (case bool_coerce n R_EQ dest right of
        Some b \<Rightarrow> Some (Inr (LT_BOOL b))
      | None \<Rightarrow>
          (case (dest, right) of
             (LT_STRING a, LT_STRING b) \<Rightarrow> Some (Inr (LT_BOOL (string_equal a b)))
           | (LT_OBJECT dk dl dlen, LT_OBJECT rk rl rlen) \<Rightarrow>
               do { b \<leftarrow> object_equal n (dk, dl, dlen) (rk, rl, rlen); Some (Inr (LT_BOOL b)) }
           | (LT_ARRAY dl dlen, LT_ARRAY rl rlen) \<Rightarrow>
               do { b \<leftarrow> array_equal n (dl, dlen) (rl, rlen); Some (Inr (LT_BOOL b)) }
           | (LT_BOOL a, LT_BOOL b) \<Rightarrow> Some (Inr (LT_BOOL (a = b)))
           | _ \<Rightarrow> Some (Inl ERR_SYNTAX)))"

definition literal_bang_equal_literal :: "num_ops \<Rightarrow> literal \<Rightarrow> literal \<Rightarrow> literal res option" where
  "literal_bang_equal_literal n dest right =
     (case bool_coerce n R_NE dest right of
        Some b \<Rightarrow> Some (Inr (LT_BOOL b))
      | None \<Rightarrow>
          (case (dest, right) of
             (LT_STRING a, LT_STRING b) \<Rightarrow> Some (Inr (LT_BOOL (\<not> string_equal a b)))
           | (LT_OBJECT dk dl dlen, LT_OBJECT rk rl rlen) \<Rightarrow>
               do { b \<leftarrow> object_equal n (dk, dl, dlen) (rk, rl, rlen); Some (Inr (LT_BOOL (\<not> b))) }
           | (LT_ARRAY dl dlen, LT_ARRAY rl rlen) \<Rightarrow>
               do { b \<leftarrow> array_equal n (dl, dlen) (rl, rlen); Some (Inr (LT_BOOL (\<not> b))) }
           | (LT_BOOL a, LT_BOOL b) \<Rightarrow> Some (Inr (LT_BOOL (a \<noteq> b)))
           | _ \<Rightarrow> Some (Inl ERR_SYNTAX)))"

definition order_literal :: "num_ops \<Rightarrow> rel_op \<Rightarrow> (str \<Rightarrow> str \<Rightarrow> bool) \<Rightarrow> literal \<Rightarrow> literal \<Rightarrow> literal res" where
  "order_literal n r s dest right =
     (case bool_coerce_cabs n r dest right of
        Some b \<Rightarrow> Inr (LT_BOOL b)
      | None \<Rightarrow>
          (case (dest, right) of
             (LT_STRING a, LT_STRING b) \<Rightarrow> Inr (LT_BOOL (s a b))
           | _ \<Rightarrow> Inl ERR_SYNTAX))"

definition literal_greater_literal :: "num_ops \<Rightarrow> literal \<Rightarrow> literal \<Rightarrow> literal res" where
  "literal_greater_literal n dest right = order_literal n R_GT string_greater_string dest right"

definition literal_greater_equal_literal :: "num_ops \<Rightarrow> literal \<Rightarrow> literal \<Rightarrow> literal res" where
  "literal_greater_equal_literal n dest right = order_literal n R_GE string_greater_equal_string dest right"

definition literal_less_literal :: "num_ops \<Rightarrow> literal \<Rightarrow> literal \<Rightarrow> literal res" where
  "literal_less_literal n dest right = order_literal n R_LT string_less_string dest right"

definition literal_less_equal_literal :: "num_ops \<Rightarrow> literal \<Rightarrow> literal \<Rightarrow> literal res" where
  "literal_less_equal_literal n dest right = order_literal n R_LE string_less_equal_string dest right"

definition bit_literal :: "bit_op \<Rightarrow> literal \<Rightarrow> literal \<Rightarrow> literal res" where
  "bit_literal p dest right = (case bitmanip_coerce p dest right of Some x \<Rightarrow> Inr x | None \<Rightarrow> Inl ERR_SYNTAX)"

definition literal_caret_literal :: "literal \<Rightarrow> literal \<Rightarrow> literal res" where
  "literal_caret_literal dest right = bit_literal B_XOR dest right"

definition literal_pipe_literal :: "literal \<Rightarrow> literal \<Rightarrow> literal res" where
  "literal_pipe_literal dest right = bit_literal B_OR dest right"

definition literal_ampersand_literal :: "literal \<Rightarrow> literal \<Rightarrow> literal res" where
  "literal_ampersand_literal dest right = bit_literal B_AND dest right"

fun literal_mod_literal :: "num_ops \<Rightarrow> literal \<Rightarrow> literal \<Rightarrow> literal res option" where
  "literal_mod_literal n (LT_INTEGER a) (LT_INTEGER b) = do { x \<leftarrow> py_mod_i32 a b; Some (Inr (LT_INTEGER x)) }"
| "literal_mod_literal n (LT_DECIMAL a) (LT_DECIMAL b) = do { x \<leftarrow> py_mod_f32 n a b; Some (Inr (LT_DECIMAL x)) }"
| "literal_mod_literal n (LT_DECIMAL a) (LT_INTEGER b) =
     do { x \<leftarrow> py_mod_f32 n a (n_f32_of_i32 n b); Some (Inr (LT_DECIMAL x)) }"
| "literal_mod_literal n (LT_INTEGER a) (LT_DECIMAL b) =
     do { x \<leftarrow> py_mod_f32 n (n_f32_of_i32 n a) b; Some (Inr (LT_DECIMAL x)) }"
| "literal_mod_literal n _ _ = Some (Inl ERR_SYNTAX)"

definition literal_pipe_pipe_literal :: "num_ops \<Rightarrow> literal \<Rightarrow> literal \<Rightarrow> literal" where
  "literal_pipe_pipe_literal n dest right = LT_BOOL (literal_truthy n dest \<or> literal_truthy n right)"

definition literal_ampersand_ampersand_literal :: "num_ops \<Rightarrow> literal \<Rightarrow> literal \<Rightarrow> literal" where
  "literal_ampersand_ampersand_literal n dest right = LT_BOOL (literal_truthy n dest \<and> literal_truthy n right)"

fun literal_not :: "literal \<Rightarrow> literal res" where
  "literal_not (LT_INTEGER i) = Inr (LT_INTEGER (NOT i))"
| "literal_not (LT_BOOL b) = Inr (LT_INTEGER (NOT (of_bool b)))"
| "literal_not _ = Inl ERR_SYNTAX"

fun literal_minus :: "num_ops \<Rightarrow> literal \<Rightarrow> literal res option" where
  "literal_minus n (LT_COMPLEX c) = Some (Inr (LT_COMPLEX (n_f32_neg n (fst c), n_f32_neg n (snd c))))"
| "literal_minus n (LT_INTEGER i) = do { x \<leftarrow> in_i32 (- i); Some (Inr (LT_INTEGER x)) }"
| "literal_minus n (LT_DECIMAL d) = Some (Inr (LT_DECIMAL (n_f32_neg n d)))"
| "literal_minus n _ = Some (Inl ERR_SYNTAX)"

definition literal_bang :: "num_ops \<Rightarrow> literal \<Rightarrow> literal" where
  "literal_bang n dest = LT_BOOL (\<not> literal_truthy n dest)"

section \<open>What equality decides\<close>

text \<open>A literal whose lengths are those of its memory, with no zero byte in a string and no floating-point number.\<close>

definition no_zero :: "str \<Rightarrow> bool" where
  "no_zero s \<longleftrightarrow> 0 \<notin> set s"

fun exact :: "literal \<Rightarrow> bool" where
  "exact (LT_OBJECT k l len) \<longleftrightarrow> length k = len \<and> length l = len \<and> list_all no_zero k \<and> (\<forall>x \<in> set l. exact x)"
| "exact (LT_ARRAY l len) \<longleftrightarrow> length l = len \<and> (\<forall>x \<in> set l. exact x)"
| "exact (LT_STRING s) \<longleftrightarrow> no_zero s"
| "exact (LT_DECIMAL _) \<longleftrightarrow> False"
| "exact (LT_COMPLEX _) \<longleftrightarrow> False"
| "exact _ \<longleftrightarrow> True"

lemma strncmp_zero_eq: "length a = length b \<Longrightarrow> no_zero a \<Longrightarrow> strncmp_zero a b \<longleftrightarrow> a = b"
  by (induction a b rule: strncmp_zero.induct) (auto simp: no_zero_def)

lemma string_equal_exact: "no_zero a \<Longrightarrow> string_equal a b \<longleftrightarrow> a = b"
  using strncmp_zero_eq [of a b] by (auto simp: string_equal_def)

lemma literal_equal_exact:
  "exact a \<Longrightarrow> exact b \<Longrightarrow> literal_equal n a b = Some (a = b)"
  "length lk = i \<Longrightarrow> length ll = i \<Longrightarrow> length rk = i \<Longrightarrow> length rl = i \<Longrightarrow> list_all no_zero lk \<Longrightarrow>
     \<forall>x \<in> set ll. exact x \<Longrightarrow> \<forall>x \<in> set rl. exact x \<Longrightarrow> object_loop n i lk ll rk rl = Some (lk = rk \<and> ll = rl)"
  "length ll' = i \<Longrightarrow> length rl' = i \<Longrightarrow> \<forall>x \<in> set ll'. exact x \<Longrightarrow> \<forall>x \<in> set rl'. exact x \<Longrightarrow>
     array_loop n i ll' rl' = Some (ll' = rl')"
proof (induction n a b and n i lk ll rk rl and n i ll' rl' rule: literal_equal_object_loop_array_loop.induct)
qed (auto simp: string_equal_exact)

text \<open>C37: the comparison of literals decides equality. Two literals of the query language, however nested, that hold no
  floating-point number and no string with a zero byte compare as equal exactly when they are the same: the same keys in the same
  order with the same values, the same elements. The comparison never reads behind the memory of either.\<close>

theorem literal_equal_decides:
  assumes "exact a" and "exact b"
  shows "literal_equal n a b = Some (a = b)"
  by (rule literal_equal_exact(1) [OF assms])

definition num_zero_ops :: num_ops where
  "num_zero_ops = \<lparr>n_f32 = (\<lambda>_ _ _. 0), n_cf64 = (\<lambda>_ _ _. (0, 0)), n_cf64_f32 = (\<lambda>_ _ _. (0, 0)), n_cf128_cf64 = (\<lambda>_ _ _. (0, 0)),
     n_f32_neg = (\<lambda>x. x), n_f32_of_i32 = word_of_int, n_f64_of_i32 = word_of_int, n_f64_of_f32 = (\<lambda>_. 0), n_i32_of_f32 = (\<lambda>_. Some 0),
     n_f32_rel = (\<lambda>_ a b. a = b), n_f64_rel = (\<lambda>_ a b. a = b), n_cabs_sqrd = (\<lambda>_. 0), n_infinity = 0\<rparr>"

theorem literal_equal_decides_witness:
  "literal_equal num_zero_ops (LT_OBJECT [[97]] [LT_ARRAY [LT_INTEGER 1, LT_BOOL True] 2] 1)
     (LT_OBJECT [[97]] [LT_ARRAY [LT_INTEGER 1, LT_BOOL False] 2] 1) = Some False"
  using literal_equal_decides [of "LT_OBJECT [[97]] [LT_ARRAY [LT_INTEGER 1, LT_BOOL True] 2] 1"
    "LT_OBJECT [[97]] [LT_ARRAY [LT_INTEGER 1, LT_BOOL False] 2] 1" num_zero_ops] by (simp add: no_zero_def)

section \<open>The sum of two arrays\<close>

lemma array_loop_short: "\<forall>x \<in> set l. exact x \<Longrightarrow> length l < i \<Longrightarrow> array_loop n i l l = None"
proof (induction l arbitrary: i)
  case Nil
  then show ?case by (cases i) simp_all
next
  case (Cons x l)
  then show ?case using literal_equal_exact(1) [of x x n] by (cases i) auto
qed

text \<open>C38: the sum of two arrays cannot be used. With memory for it, \<open>+\<close> on two arrays succeeds, but the result has the memory of
  the left array only with the length of both; comparing it, even with itself, reads behind that memory. (The
  joined elements are in a new array that nothing refers to. The sum of two objects is made in the same way.)\<close>

theorem array_plus_overruns:
  assumes "exact (LT_ARRAY l llen)" and "exact (LT_ARRAY r rlen)" and "rlen > 0" and "la_wf a"
    and "(llen + rlen) * 32 < la_room a"
  shows "\<exists>a'. literal_plus_literal n (LT_ARRAY l llen) (LT_ARRAY r rlen) a = Some (Inr (LT_ARRAY l (llen + rlen)), a') \<and>
    literal_equal n (LT_ARRAY l (llen + rlen)) (LT_ARRAY l (llen + rlen)) = None"
proof -
  have "llen + rlen < 4294967296" using assms(4,5) by (auto simp: la_wf_def la_room_def)
  then have small: "add32 llen rlen = llen + rlen" by (simp add: wrap32)
  from lmalloc_ok [OF assms(4), of "llen + rlen" 32] assms(3,5) obtain a' where
    "lmalloc a (llen + rlen) 32 = Some (Inr (la_used a), a')" by auto
  then have "literal_plus_literal n (LT_ARRAY l llen) (LT_ARRAY r rlen) a = Some (Inr (LT_ARRAY l (llen + rlen)), a')"
    using assms(1,2) small by (simp add: literal_plus_literal_def array_plus_def elements_def)
  moreover have "literal_equal n (LT_ARRAY l (llen + rlen)) (LT_ARRAY l (llen + rlen)) = None"
    using array_loop_short [of l "llen + rlen" n] assms(1,3) by simp
  ultimately show ?thesis by blast
qed

theorem array_plus_overruns_witness:
  "literal_equal num_zero_ops (LT_ARRAY [LT_INTEGER 1] 2) (LT_ARRAY [LT_INTEGER 1] 2) = None"
  using array_plus_overruns [of "[LT_INTEGER 1]" 1 "[LT_INTEGER 2]" 1 "\<lparr>la_used = 0, la_limit = 1000\<rparr>" num_zero_ops]
  by (simp add: la_wf_def la_room_def numeral_2_eq_2)

end
