(* ===== verification/Scanner.thy ===== *)
theory Scanner
  imports Numbers Types
begin

text \<open>
  \<^verbatim>\<open>libs/nscompiler/scanner.c\<close>: from characters to tokens.

  The scanner can be left and entered again after every character: it keeps the state, the characters of
  the token it is in (\<open>sc_str\<close>) and the first character of a token that may have two (\<open>sc_prev\<close>). The two
  buffers are queues: the input is a list of characters, the output the list of the tokens written, with
  the number of tokens that still fit (its buffer holds whole tokens only). The current statement is the
  allocator that the strings of its tokens come from. \<open>sc_mem\<close>: a statement can be allocated.

  \<open>None\<close> is a failed assertion or a loop that does not end.
\<close>

section \<open>Tokens\<close>

datatype token_t =
    TT_PLUS | TT_MINUS | TT_SLASH | TT_STAR
  | TT_BANG | TT_BANG_EQUAL | TT_EQUAL_EQUAL | TT_GREATER | TT_GREATER_EQUAL | TT_LESS | TT_LESS_EQUAL
  | TT_NOT | TT_CARET | TT_PERCENT | TT_PIPE | TT_PIPE_PIPE | TT_AMPERSAND | TT_AMPERSAND_AMPERSAND
  | TT_SEMICOLON | TT_COLON | TT_LEFT_BRACKET | TT_RIGHT_BRACKET | TT_LEFT_BRACE | TT_RIGHT_BRACE
  | TT_LEFT_PAREN | TT_RIGHT_PAREN | TT_COMMA
  | TT_STRING | TT_IDENTIFIER | TT_INTEGER | TT_FLOAT
  | TT_CREATE | TT_DELETE | TT_INSERT
  | TT_STRUCT | TT_UNION | TT_ENUM | TT_PRIM | TT_TRUE | TT_FALSE | TT_ERROR

text \<open>The value: the member of the union that the type of the token says; the statement of an opcode is null or
  a statement.\<close>

datatype tok_val = TV_none | TV_str str | TV_int int | TV_float f32 | TV_prim prim_t | TV_stmt "lalloc option" | TV_err err_t

record token =
  tk_type :: token_t
  tk_val :: tok_val

definition tt_is_opcode :: "token_t \<Rightarrow> bool" where
  "tt_is_opcode t \<longleftrightarrow> t = TT_CREATE \<or> t = TT_DELETE \<or> t = TT_INSERT"

definition quick_tok :: "token_t \<Rightarrow> token" where
  "quick_tok t = \<lparr>tk_type = t, tk_val = TV_none\<rparr>"

definition tt_integer :: "int \<Rightarrow> token" where
  "tt_integer i = \<lparr>tk_type = TT_INTEGER, tk_val = TV_int i\<rparr>"

definition tt_float :: "f32 \<Rightarrow> token" where
  "tt_float x = \<lparr>tk_type = TT_FLOAT, tk_val = TV_float x\<rparr>"

definition tt_prim :: "prim_t \<Rightarrow> token" where
  "tt_prim p = \<lparr>tk_type = TT_PRIM, tk_val = TV_prim p\<rparr>"

definition tt_err :: "err_t \<Rightarrow> token" where
  "tt_err e = \<lparr>tk_type = TT_ERROR, tk_val = TV_err e\<rparr>"

text \<open>The opcodes of the table have no statement.\<close>

definition op_codes :: "(str \<times> token) list" where
  "op_codes = map (\<lambda>(s, t). (chars s, \<lparr>tk_type = t, tk_val = TV_stmt None\<rparr>))
     [(''create'', TT_CREATE), (''delete'', TT_DELETE), (''insert'', TT_INSERT)]"

definition magic_tokens :: "(str \<times> token) list" where
  "magic_tokens =
     map (\<lambda>(s, t). (chars s, quick_tok t)) [(''struct'', TT_STRUCT), (''union'', TT_UNION), (''enum'', TT_ENUM)] @
     map (\<lambda>(s, p). (chars s, tt_prim p))
       [(''u8'', U8), (''u16'', U16), (''u32'', U32), (''u64'', U64), (''i8'', I8), (''i16'', I16), (''i32'', I32),
        (''i64'', I64), (''f16'', F16), (''f32'', F32), (''f64'', F64), (''f128'', F128), (''cf32'', CF32),
        (''cf64'', CF64), (''cf128'', CF128), (''cf256'', CF256), (''ci16'', CI16), (''ci32'', CI32),
        (''ci64'', CI64), (''ci128'', CI128), (''cu16'', CU16), (''cu32'', CU32), (''cu64'', CU64), (''cu128'', CU128)] @
     map (\<lambda>(s, t). (chars s, quick_tok t)) [(''true'', TT_TRUE), (''false'', TT_FALSE)]"

section \<open>The scanner\<close>

datatype scan_state = SS_START | SS_IDENT | SS_STRING | SS_NUMBER | SS_DECIMAL | SS_ERR

record scanner =
  sc_state :: scan_state
  sc_str :: str
  sc_in :: "u8 list"
  sc_out :: "token list"
  sc_room :: nat
  sc_prev :: "u8 option"
  sc_cur :: "lalloc option"
  sc_mem :: bool
  sc_f32 :: f32_ops

abbreviation SC_STR_CAP :: nat where "SC_STR_CAP \<equiv> 512"

definition scanner_init :: "u8 list \<Rightarrow> nat \<Rightarrow> bool \<Rightarrow> f32_ops \<Rightarrow> scanner" where
  "scanner_init input room mem f =
     \<lparr>sc_state = SS_START, sc_str = [], sc_in = input, sc_out = [], sc_room = room, sc_prev = None, sc_cur = None,
      sc_mem = mem, sc_f32 = f\<rparr>"

definition write_token :: "scanner \<Rightarrow> token \<Rightarrow> scanner option" where
  \<comment> \<open>\<^verbatim>\<open>cbuffer_write_expect\<close> into the output\<close>
  "write_token s t = do {
     ASSERT (sc_room s > 0);
     Some (s\<lparr>sc_out := sc_out s @ [t], sc_room := sc_room s - 1\<rparr>) }"

definition scanner_process_token :: "scanner \<Rightarrow> token \<Rightarrow> (unit res \<times> scanner) option" where
  "scanner_process_token s t = do {
     s \<leftarrow> write_token s t;
     Some (Inr (), s\<lparr>sc_state := SS_START\<rparr>) }"

definition scanner_process_error :: "err_t \<Rightarrow> scanner \<Rightarrow> scanner option" where
  \<comment> \<open>the error is in the scanner's error object\<close>
  "scanner_process_error e s =
     (if sc_state s \<noteq> SS_ERR then do {
        s \<leftarrow> write_token (s\<lparr>sc_state := SS_ERR\<rparr>) (tt_err e);
        Some (s\<lparr>sc_cur := None\<rparr>) }
      else Some s)"

definition sc_wrap :: "('a res \<times> scanner) option \<Rightarrow> ('a \<Rightarrow> scanner \<Rightarrow> ('b res \<times> scanner) option) \<Rightarrow> ('b res \<times> scanner) option" where
  \<comment> \<open>\<^verbatim>\<open>scanner_err_t_wrap\<close>\<close>
  "sc_wrap m f = do {
     (r, s) \<leftarrow> m;
     case r of
       Inl e \<Rightarrow> do { s \<leftarrow> scanner_process_error e s; Some (Inl e, s) }
     | Inr x \<Rightarrow> f x s }"

definition sc_fail :: "err_t \<Rightarrow> scanner \<Rightarrow> (unit res \<times> scanner) option" where
  \<comment> \<open>\<^verbatim>\<open>scanner_err_t_wrap (error_causef ...)\<close>\<close>
  "sc_fail e s = sc_wrap (Some (Inl e :: unit res, s)) (\<lambda>_ s. Some (Inr (), s))"

definition scanner_push_char :: "scanner \<Rightarrow> u8 \<Rightarrow> (unit res \<times> scanner) option" where
  "scanner_push_char s c =
     (if length (sc_str s) = SC_STR_CAP then sc_fail ERR_NOMEM s
      else Some (Inr (), s\<lparr>sc_str := sc_str s @ [c]\<rparr>))"

definition scanner_advance_expect :: "scanner \<Rightarrow> scanner option" where
  "scanner_advance_expect s = do {
     ASSERT (sc_in s \<noteq> []);
     Some (s\<lparr>sc_in := List.tl (sc_in s)\<rparr>) }"

definition scanner_cpy_advance_expect :: "scanner \<Rightarrow> (unit res \<times> scanner) option" where
  "scanner_cpy_advance_expect s = do {
     ASSERT (sc_in s \<noteq> []);
     sc_wrap (scanner_push_char (s\<lparr>sc_in := List.tl (sc_in s)\<rparr>) (List.hd (sc_in s))) (\<lambda>_ s. Some (Inr (), s)) }"

definition scanner_peek :: "scanner \<Rightarrow> u8 option" where
  "scanner_peek s = (case sc_in s of [] \<Rightarrow> None | c # _ \<Rightarrow> Some c)"

definition is_space :: "u8 \<Rightarrow> bool" where
  "is_space c \<longleftrightarrow> c = 32 \<or> c = 9 \<or> c = 13 \<or> c = 10"

definition consume_whitespace :: "scanner \<Rightarrow> scanner" where
  "consume_whitespace s = s\<lparr>sc_in := dropWhile is_space (sc_in s)\<rparr>"

section \<open>Strings and identifiers\<close>

definition scanner_commit_string :: "scanner \<Rightarrow> (str res \<times> scanner) option" where
  "scanner_commit_string s =
     (case sc_cur s of
        None \<Rightarrow> do { (_, s) \<leftarrow> sc_fail ERR_SYNTAX s; Some (Inl ERR_SYNTAX, s) }
      | Some q \<Rightarrow> do {
          (r, q) \<leftarrow> lmalloc q 1 (length (sc_str s));
          let s = s\<lparr>sc_cur := Some q\<rparr>;
          case r of
            Inl e \<Rightarrow> do { (_, s) \<leftarrow> sc_fail e s; Some (Inl e, s) }
          | Inr _ \<Rightarrow> Some (Inr (sc_str s), s\<lparr>sc_str := []\<rparr>) })"

definition process_string_or_ident :: "scanner \<Rightarrow> token_t \<Rightarrow> (unit res \<times> scanner) option" where
  "process_string_or_ident s ttype = do {
     ASSERT (ttype = TT_STRING \<or> ttype = TT_IDENTIFIER);
     sc_wrap (scanner_commit_string s) (\<lambda>lit s. scanner_process_token s \<lparr>tk_type = ttype, tk_val = TV_str lit\<rparr>) }"

primrec find_token :: "(str \<times> token) list \<Rightarrow> str \<Rightarrow> token option" where
  "find_token [] lit = None"
| "find_token (e # es) lit = (if string_equal lit (fst e) then Some (snd e) else find_token es lit)"

definition process_maybe_ident :: "scanner \<Rightarrow> (unit res \<times> scanner) option" where
  "process_maybe_ident s = do {
     ASSERT (length (sc_str s) > 0);
     case find_token magic_tokens (sc_str s) of
       Some t \<Rightarrow> scanner_process_token (s\<lparr>sc_str := []\<rparr>) t
     | None \<Rightarrow>
         (case find_token op_codes (sc_str s) of
            Some t \<Rightarrow>
              let s = s\<lparr>sc_str := []\<rparr> in
              if sc_cur s = None then
                (if \<not> sc_mem s then sc_fail ERR_NOMEM s
                 else scanner_process_token (s\<lparr>sc_cur := Some \<lparr>la_used = 0, la_limit = 2048\<rparr>\<rparr>) t)
              else scanner_process_token s t
          | None \<Rightarrow> process_string_or_ident s TT_IDENTIFIER) }"

text \<open>The loops over the input. Each takes the characters it walks over as an argument: the input of the
  scanner it works on.\<close>

primrec ident_loop :: "u8 list \<Rightarrow> scanner \<Rightarrow> (unit res \<times> scanner) option" where
  "ident_loop [] s = Some (Inr (), s)"
| "ident_loop (c # cs) s =
     (if \<not> is_alpha_num c then process_maybe_ident s
      else sc_wrap (scanner_cpy_advance_expect s) (\<lambda>_ s. ident_loop cs s))"

definition execute_at_most_one_token_ident :: "scanner \<Rightarrow> (unit res \<times> scanner) option" where
  "execute_at_most_one_token_ident s = do { ASSERT (sc_state s = SS_IDENT); ident_loop (sc_in s) s }"

primrec string_loop :: "u8 list \<Rightarrow> scanner \<Rightarrow> (unit res \<times> scanner) option" where
  "string_loop [] s = Some (Inr (), s)"
| "string_loop (c # cs) s =
     (if c = 34 then do { s \<leftarrow> scanner_advance_expect s; process_string_or_ident s TT_STRING }
      else sc_wrap (scanner_cpy_advance_expect s) (\<lambda>_ s. string_loop cs s))"

definition execute_at_most_one_token_string :: "scanner \<Rightarrow> (unit res \<times> scanner) option" where
  "execute_at_most_one_token_string s = do { ASSERT (sc_state s = SS_STRING); string_loop (sc_in s) s }"

section \<open>Numbers\<close>

definition with_number :: "scanner \<Rightarrow> 'a res option \<Rightarrow> ('a \<Rightarrow> token) \<Rightarrow> (unit res \<times> scanner) option" where
  "with_number s m tok = do {
     r \<leftarrow> m;
     sc_wrap (Some (r, s)) (\<lambda>x s. sc_wrap (scanner_process_token s (tok x)) (\<lambda>_ s. Some (Inr (), s))) }"

definition process_dec :: "scanner \<Rightarrow> (unit res \<times> scanner) option" where
  "process_dec s = with_number (s\<lparr>sc_str := []\<rparr>) (parse_f32_expect (sc_f32 s) (sc_str s)) tt_float"

primrec dec_loop :: "u8 list \<Rightarrow> scanner \<Rightarrow> (unit res \<times> scanner) option" where
  "dec_loop [] s = Some (Inr (), s)"
| "dec_loop (c # cs) s =
     (if \<not> is_num c then process_dec s
      else sc_wrap (scanner_cpy_advance_expect s) (\<lambda>_ s. dec_loop cs s))"

definition execute_at_most_one_token_dec :: "scanner \<Rightarrow> (unit res \<times> scanner) option" where
  "execute_at_most_one_token_dec s = do { ASSERT (sc_state s = SS_DECIMAL); dec_loop (sc_in s) s }"

definition process_int :: "scanner \<Rightarrow> (unit res \<times> scanner) option" where
  "process_int s = with_number (s\<lparr>sc_str := []\<rparr>) (parse_i32_expect (sc_str s)) tt_integer"

primrec number_loop :: "u8 list \<Rightarrow> scanner \<Rightarrow> (unit res \<times> scanner) option" where
  "number_loop [] s = Some (Inr (), s)"
| "number_loop (c # cs) s =
     (if \<not> is_num c then
        (if c = 46 then
           sc_wrap (scanner_cpy_advance_expect (s\<lparr>sc_state := SS_DECIMAL\<rparr>)) (\<lambda>_ s. execute_at_most_one_token_dec s)
         else process_int s)
      else sc_wrap (scanner_cpy_advance_expect s) (\<lambda>_ s. number_loop cs s))"

definition execute_at_most_one_token_number :: "scanner \<Rightarrow> (unit res \<times> scanner) option" where
  "execute_at_most_one_token_number s = do { ASSERT (sc_state s = SS_NUMBER); number_loop (sc_in s) s }"

section \<open>After an error\<close>

text \<open>The loop looks for a semicolon without moving on.\<close>

partial_function (option) err_loop :: "scanner \<Rightarrow> scanner option" where
  "err_loop s =
     (case scanner_peek s of
        None \<Rightarrow> Some s
      | Some c \<Rightarrow>
          if c = 59 then do { s \<leftarrow> scanner_advance_expect s; Some (s\<lparr>sc_state := SS_START\<rparr>) }
          else err_loop s)"

definition execute_at_most_one_token_err :: "scanner \<Rightarrow> scanner option" where
  "execute_at_most_one_token_err s = do { ASSERT (sc_state s = SS_ERR); err_loop s }"

section \<open>The start of a token\<close>

text \<open>The character that makes a token of two, that token, and the token of the first alone, which \<open>=\<close> does not have.\<close>

definition second_of :: "u8 \<Rightarrow> (u8 \<times> token_t \<times> token_t option) option" where
  "second_of c =
     (if c = 33 then Some (61, TT_BANG_EQUAL, Some TT_BANG)
      else if c = 61 then Some (61, TT_EQUAL_EQUAL, None)
      else if c = 62 then Some (61, TT_GREATER_EQUAL, Some TT_GREATER)
      else if c = 60 then Some (61, TT_LESS_EQUAL, Some TT_LESS)
      else if c = 38 then Some (38, TT_AMPERSAND_AMPERSAND, Some TT_AMPERSAND)
      else if c = 124 then Some (124, TT_PIPE_PIPE, Some TT_PIPE)
      else None)"

definition single_of :: "u8 \<Rightarrow> token_t option" where
  "single_of c =
     (if c = 43 then Some TT_PLUS
      else if c = 45 then Some TT_MINUS
      else if c = 47 then Some TT_SLASH
      else if c = 42 then Some TT_STAR
      else if c = 126 then Some TT_NOT
      else if c = 94 then Some TT_CARET
      else if c = 37 then Some TT_PERCENT
      else if c = 59 then Some TT_SEMICOLON
      else if c = 58 then Some TT_COLON
      else if c = 91 then Some TT_LEFT_BRACKET
      else if c = 93 then Some TT_RIGHT_BRACKET
      else if c = 123 then Some TT_LEFT_BRACE
      else if c = 125 then Some TT_RIGHT_BRACE
      else if c = 40 then Some TT_LEFT_PAREN
      else if c = 41 then Some TT_RIGHT_PAREN
      else if c = 44 then Some TT_COMMA
      else None)"

definition start_char :: "u8 \<Rightarrow> scanner \<Rightarrow> (unit res \<times> scanner) option" where
  \<comment> \<open>the second switch: the first character of a token\<close>
  "start_char c s =
     (case single_of c of
        Some t \<Rightarrow> do {
          s \<leftarrow> scanner_advance_expect s;
          sc_wrap (scanner_process_token s (quick_tok t)) (\<lambda>_ s.
            Some (Inr (), if t = TT_SEMICOLON then s\<lparr>sc_cur := None\<rparr> else s)) }
      | None \<Rightarrow>
          if second_of c \<noteq> None then do {
            s \<leftarrow> scanner_advance_expect s;
            Some (Inr (), s\<lparr>sc_prev := Some c\<rparr>) }
          else if c = 34 then do {
            s \<leftarrow> scanner_advance_expect (s\<lparr>sc_str := []\<rparr>);
            Some (Inr (), s\<lparr>sc_state := SS_STRING\<rparr>) }
          else if is_alpha c then
            sc_wrap (scanner_cpy_advance_expect (s\<lparr>sc_str := []\<rparr>)) (\<lambda>_ s. Some (Inr (), s\<lparr>sc_state := SS_IDENT\<rparr>))
          else if is_num c then
            sc_wrap (scanner_cpy_advance_expect (s\<lparr>sc_str := []\<rparr>)) (\<lambda>_ s. Some (Inr (), s\<lparr>sc_state := SS_NUMBER\<rparr>))
          else do {
            s \<leftarrow> scanner_advance_expect s;
            sc_fail ERR_SYNTAX s })"

definition start_rest :: "scanner \<Rightarrow> (unit res \<times> scanner) option" where
  "start_rest s = (
     let s = consume_whitespace s in
     case scanner_peek s of
       None \<Rightarrow> Some (Inr (), s)
     | Some c \<Rightarrow> start_char c s)"

definition execute_at_most_one_token_start :: "scanner \<Rightarrow> (unit res \<times> scanner) option" where
  "execute_at_most_one_token_start s = do {
     ASSERT (sc_state s = SS_START);
     c \<leftarrow> scanner_peek s;
     let prev = sc_prev s;
     let s = s\<lparr>sc_prev := None\<rparr>;
     case Option.bind prev second_of of
       None \<Rightarrow> start_rest s
     | Some (c2, two, one) \<Rightarrow>
         if c = c2 then do {
           s \<leftarrow> scanner_advance_expect s;
           sc_wrap (scanner_process_token s (quick_tok two)) (\<lambda>_ s. Some (Inr (), s)) }
         else
           (case one of
              None \<Rightarrow> sc_fail ERR_SYNTAX s
            | Some t \<Rightarrow> sc_wrap (scanner_process_token s (quick_tok t)) (\<lambda>_ s. start_rest s)) }"

definition execute_at_most_one_token :: "scanner \<Rightarrow> (unit res \<times> scanner) option" where
  "execute_at_most_one_token s =
     (case sc_state s of
        SS_START \<Rightarrow> execute_at_most_one_token_start s
      | SS_IDENT \<Rightarrow> execute_at_most_one_token_ident s
      | SS_NUMBER \<Rightarrow> execute_at_most_one_token_number s
      | SS_DECIMAL \<Rightarrow> execute_at_most_one_token_dec s
      | SS_STRING \<Rightarrow> execute_at_most_one_token_string s
      | SS_ERR \<Rightarrow> do { s \<leftarrow> execute_at_most_one_token_err s; Some (Inr (), s) })"

partial_function (option) scanner_execute :: "scanner \<Rightarrow> scanner option" where
  "scanner_execute s =
     (if sc_room s = 0 \<or> sc_in s = [] then Some s
      else do {
        (r, s) \<leftarrow> execute_at_most_one_token s;
        s \<leftarrow> (case r of Inl e \<Rightarrow> scanner_process_error e s | Inr _ \<Rightarrow> Some s);
        scanner_execute s })"

section \<open>Lexemes\<close>

text \<open>The texts that stand for a token inside a statement.\<close>

definition word_chars :: "str \<Rightarrow> bool" where
  "word_chars w \<longleftrightarrow> w \<noteq> [] \<and> is_alpha (List.hd w) \<and> list_all is_alpha_num w \<and> length w \<le> SC_STR_CAP"

inductive lexeme :: "str \<Rightarrow> token \<Rightarrow> bool" where
  single: "single_of c = Some t \<Longrightarrow> t \<noteq> TT_SEMICOLON \<Longrightarrow> lexeme [c] (quick_tok t)"
| two: "second_of c = Some (c2, t, one) \<Longrightarrow> lexeme [c, c2] (quick_tok t)"
| one: "second_of c = Some (c2, t2, Some t) \<Longrightarrow> lexeme [c] (quick_tok t)"
| magic: "word_chars w \<Longrightarrow> find_token magic_tokens w = Some t \<Longrightarrow> lexeme w t"
| opcode: "word_chars w \<Longrightarrow> find_token magic_tokens w = None \<Longrightarrow> find_token op_codes w = Some t \<Longrightarrow> lexeme w t"
| ident: "word_chars w \<Longrightarrow> find_token magic_tokens w = None \<Longrightarrow> find_token op_codes w = None \<Longrightarrow>
    lexeme w \<lparr>tk_type = TT_IDENTIFIER, tk_val = TV_str w\<rparr>"
| number: "ds \<noteq> [] \<Longrightarrow> list_all is_num ds \<Longrightarrow> length ds \<le> SC_STR_CAP \<Longrightarrow> decimal ds 0 \<le> I32_MAX \<Longrightarrow>
    lexeme ds (tt_integer (decimal ds 0))"
| quoted: "w \<noteq> [] \<Longrightarrow> 34 \<notin> set w \<Longrightarrow> length w \<le> SC_STR_CAP \<Longrightarrow>
    lexeme (34 # w @ [34]) \<lparr>tk_type = TT_STRING, tk_val = TV_str w\<rparr>"

definition tok_mem :: "token \<Rightarrow> nat" where
  \<comment> \<open>the memory of the statement that the token takes\<close>
  "tok_mem t = (case tk_val t of TV_str w \<Rightarrow> length w | _ \<Rightarrow> 0)"

text \<open>The scanner between two tokens of a statement.\<close>

definition ready :: "scanner \<Rightarrow> bool" where
  "ready s \<longleftrightarrow> sc_state s = SS_START \<and> sc_prev s = None \<and> (\<exists>q. sc_cur s = Some q \<and> la_wf q)"

definition memory :: "scanner \<Rightarrow> nat" where
  "memory s = (case sc_cur s of None \<Rightarrow> 0 | Some q \<Rightarrow> la_room q)"

definition wrote :: "scanner \<Rightarrow> token \<Rightarrow> scanner \<Rightarrow> bool" where
  "wrote s t s' \<longleftrightarrow> sc_out s' = sc_out s @ [t] \<and> Suc (sc_room s') = sc_room s \<and> ready s' \<and>
     memory s' = memory s - tok_mem t"

lemma execute_step:
  "sc_room s > 0 \<Longrightarrow> sc_in s \<noteq> [] \<Longrightarrow> execute_at_most_one_token s = Some (Inr (), s') \<Longrightarrow>
   scanner_execute s = scanner_execute s'"
  by (subst scanner_execute.simps) simp

lemma execute_start_step:
  assumes "sc_state s = SS_START" and "sc_prev s = None" and "sc_in s \<noteq> []"
  shows "execute_at_most_one_token s = start_rest s"
proof -
  have e: "s\<lparr>sc_prev := None\<rparr> = s" using assms(2) by (cases s) simp
  obtain c where "scanner_peek s = Some c" using assms(3) by (cases "sc_in s") (auto simp: scanner_peek_def)
  then show ?thesis using assms
    by (simp add: execute_at_most_one_token_def execute_at_most_one_token_start_def e)
qed

lemma skip_space:
  assumes "sc_state s = SS_START" and "sc_prev s = None" and "sc_room s > 0" and "is_space c"
  shows "scanner_execute (s\<lparr>sc_in := c # w\<rparr>) = scanner_execute (s\<lparr>sc_in := w\<rparr>)"
proof -
  have eq: "start_rest (s\<lparr>sc_in := c # w\<rparr>) = start_rest (s\<lparr>sc_in := w\<rparr>)"
    using assms(4) by (simp add: start_rest_def consume_whitespace_def)
  have l: "execute_at_most_one_token (s\<lparr>sc_in := c # w\<rparr>) = start_rest (s\<lparr>sc_in := w\<rparr>)"
    using execute_start_step [of "s\<lparr>sc_in := c # w\<rparr>"] assms(1,2) eq by simp
  show ?thesis
  proof (cases "w = []")
    case True
    have "start_rest (s\<lparr>sc_in := []\<rparr>) = Some (Inr (), s\<lparr>sc_in := []\<rparr>)"
      by (simp add: start_rest_def consume_whitespace_def scanner_peek_def Let_def)
    with l True assms(3) show ?thesis by (subst scanner_execute.simps) simp
  next
    case False
    have "execute_at_most_one_token (s\<lparr>sc_in := w\<rparr>) = start_rest (s\<lparr>sc_in := w\<rparr>)"
      using execute_start_step [of "s\<lparr>sc_in := w\<rparr>"] assms(1,2) False by simp
    with l False assms(3) show ?thesis by (subst (1 2) scanner_execute.simps) simp
  qed
qed

text \<open>Characters that cannot be taken for another.\<close>

lemma chars_apart:
  "single_of c = Some t \<Longrightarrow> \<not> is_space c"
  "second_of c = Some x \<Longrightarrow> \<not> is_space c \<and> single_of c = None"
  "is_alpha c \<Longrightarrow> \<not> is_space c \<and> single_of c = None \<and> second_of c = None \<and> c \<noteq> 34"
  "is_num c \<Longrightarrow> \<not> is_space c \<and> single_of c = None \<and> second_of c = None \<and> c \<noteq> 34 \<and> \<not> is_alpha c"
proof -
  show "single_of c = Some t \<Longrightarrow> \<not> is_space c" by (auto simp: single_of_def is_space_def split: if_splits)
  show "second_of c = Some x \<Longrightarrow> \<not> is_space c \<and> single_of c = None"
    by (auto simp: second_of_def single_of_def is_space_def split: if_splits)
  show "is_alpha c \<Longrightarrow> \<not> is_space c \<and> single_of c = None \<and> second_of c = None \<and> c \<noteq> 34"
    by (auto simp: second_of_def single_of_def is_space_def is_alpha_def)
  show "is_num c \<Longrightarrow> \<not> is_space c \<and> single_of c = None \<and> second_of c = None \<and> c \<noteq> 34 \<and> \<not> is_alpha c"
    by (auto simp: second_of_def single_of_def is_space_def is_alpha_def is_num_def word_le_nat_alt)
qed

lemma second_space: "second_of c = Some (c2, t, one) \<Longrightarrow> c2 \<noteq> 32"
  by (auto simp: second_of_def split: if_splits)

lemma start_rest_char: "\<not> is_space c \<Longrightarrow> start_rest (s\<lparr>sc_in := c # w\<rparr>) = start_char c (s\<lparr>sc_in := c # w\<rparr>)"
  by (simp add: start_rest_def consume_whitespace_def scanner_peek_def)

section \<open>One lexeme\<close>

text \<open>Each of these runs the scanner over one lexeme and stops before the space after it.\<close>

lemma run_single:
  assumes r: "ready s" "sc_room s > 0" and c: "single_of c = Some t" "t \<noteq> TT_SEMICOLON"
  shows "\<exists>s'. scanner_execute (s\<lparr>sc_in := c # w\<rparr>) = scanner_execute (s'\<lparr>sc_in := w\<rparr>) \<and> wrote s (quick_tok t) s'"
proof -
  let ?s' = "s\<lparr>sc_out := sc_out s @ [quick_tok t], sc_room := sc_room s - 1\<rparr>"
  have "execute_at_most_one_token (s\<lparr>sc_in := c # w\<rparr>) = start_char c (s\<lparr>sc_in := c # w\<rparr>)"
    using execute_start_step [of "s\<lparr>sc_in := c # w\<rparr>"] start_rest_char [of c w s] chars_apart(1) [OF c(1)] r(1)
    by (simp add: ready_def)
  also have "\<dots> = Some (Inr (), ?s'\<lparr>sc_in := w\<rparr>)"
    using r c by (simp add: start_char_def scanner_advance_expect_def scanner_process_token_def write_token_def sc_wrap_def ready_def)
  finally have "scanner_execute (s\<lparr>sc_in := c # w\<rparr>) = scanner_execute (?s'\<lparr>sc_in := w\<rparr>)"
    using r(2) execute_step [of "s\<lparr>sc_in := c # w\<rparr>"] by simp
  moreover have "wrote s (quick_tok t) ?s'"
    using r by (simp add: wrote_def ready_def memory_def tok_mem_def quick_tok_def)
  ultimately show ?thesis by blast
qed

lemma run_first:
  assumes r: "ready s" "sc_room s > 0" and c: "second_of c = Some x"
  shows "scanner_execute (s\<lparr>sc_in := c # w\<rparr>) = scanner_execute (s\<lparr>sc_in := w, sc_prev := Some c\<rparr>)"
proof -
  have "execute_at_most_one_token (s\<lparr>sc_in := c # w\<rparr>) = start_char c (s\<lparr>sc_in := c # w\<rparr>)"
    using execute_start_step [of "s\<lparr>sc_in := c # w\<rparr>"] start_rest_char [of c w s] chars_apart(2) [OF c] r(1)
    by (simp add: ready_def)
  also have "\<dots> = Some (Inr (), s\<lparr>sc_in := w, sc_prev := Some c\<rparr>)"
    using chars_apart(2) [OF c] c by (simp add: start_char_def scanner_advance_expect_def)
  finally show ?thesis using r(2) execute_step [of "s\<lparr>sc_in := c # w\<rparr>"] by simp
qed

lemma run_two:
  assumes r: "ready s" "sc_room s > 0" and c: "second_of c = Some (c2, t, one)"
  shows "\<exists>s'. scanner_execute (s\<lparr>sc_in := c # c2 # w\<rparr>) = scanner_execute (s'\<lparr>sc_in := w\<rparr>) \<and> wrote s (quick_tok t) s'"
proof -
  let ?s' = "s\<lparr>sc_out := sc_out s @ [quick_tok t], sc_room := sc_room s - 1\<rparr>"
  have "execute_at_most_one_token (s\<lparr>sc_in := c2 # w, sc_prev := Some c\<rparr>) = Some (Inr (), ?s'\<lparr>sc_in := w\<rparr>)"
    using r c by (cases s) (simp add: execute_at_most_one_token_def execute_at_most_one_token_start_def scanner_peek_def
      scanner_advance_expect_def scanner_process_token_def write_token_def sc_wrap_def ready_def)
  then have "scanner_execute (s\<lparr>sc_in := c # c2 # w\<rparr>) = scanner_execute (?s'\<lparr>sc_in := w\<rparr>)"
    using run_first [OF r c, of "c2 # w"] r(2) execute_step [of "s\<lparr>sc_in := c2 # w, sc_prev := Some c\<rparr>"] by simp
  moreover have "wrote s (quick_tok t) ?s'"
    using r by (simp add: wrote_def ready_def memory_def tok_mem_def quick_tok_def)
  ultimately show ?thesis by blast
qed

text \<open>A first character alone becomes a token only with the next step, which goes on to the token after it.\<close>

lemma run_one:
  assumes r: "ready s" "sc_room s > 1" and c: "second_of c = Some (c2, t2, Some t)"
  shows "\<exists>s'. scanner_execute (s\<lparr>sc_in := c # 32 # w\<rparr>) = scanner_execute (s'\<lparr>sc_in := 32 # w\<rparr>) \<and> wrote s (quick_tok t) s'"
proof -
  let ?s' = "s\<lparr>sc_out := sc_out s @ [quick_tok t], sc_room := sc_room s - 1\<rparr>"
  have "execute_at_most_one_token (s\<lparr>sc_in := 32 # w, sc_prev := Some c\<rparr>) = start_rest (?s'\<lparr>sc_in := 32 # w\<rparr>)"
    using r c second_space [OF c] by (cases s) (simp add: execute_at_most_one_token_def execute_at_most_one_token_start_def scanner_peek_def
      scanner_process_token_def write_token_def sc_wrap_def ready_def)
  moreover have "execute_at_most_one_token (?s'\<lparr>sc_in := 32 # w\<rparr>) = start_rest (?s'\<lparr>sc_in := 32 # w\<rparr>)"
    using r(1) execute_start_step [of "?s'\<lparr>sc_in := 32 # w\<rparr>"] by (simp add: ready_def)
  ultimately have "scanner_execute (s\<lparr>sc_in := 32 # w, sc_prev := Some c\<rparr>) = scanner_execute (?s'\<lparr>sc_in := 32 # w\<rparr>)"
    using r(2) by (subst (1 2) scanner_execute.simps) simp
  moreover have "wrote s (quick_tok t) ?s'"
    using r by (simp add: wrote_def ready_def memory_def tok_mem_def quick_tok_def)
  moreover have "scanner_execute (s\<lparr>sc_in := c # 32 # w\<rparr>) = scanner_execute (s\<lparr>sc_in := 32 # w, sc_prev := Some c\<rparr>)"
    using r(2) by (intro run_first [OF r(1) _ c]) simp
  ultimately show ?thesis by auto
qed

text \<open>One order for the updates of the loops.\<close>

lemma sc_order:
  fixes s :: scanner
  shows "s\<lparr>sc_in := a, sc_str := b\<rparr> = s\<lparr>sc_str := b, sc_in := a\<rparr>"
    and "s\<lparr>sc_state := x, sc_in := a\<rparr> = s\<lparr>sc_in := a, sc_state := x\<rparr>"
    and "s\<lparr>sc_state := x, sc_str := b\<rparr> = s\<lparr>sc_str := b, sc_state := x\<rparr>"
  by simp_all

lemma copy_char:
  "length (sc_str s) < SC_STR_CAP \<Longrightarrow>
   scanner_cpy_advance_expect (s\<lparr>sc_in := c # w\<rparr>) = Some (Inr (), s\<lparr>sc_str := sc_str s @ [c], sc_in := w\<rparr>)"
  by (simp add: scanner_cpy_advance_expect_def scanner_push_char_def sc_wrap_def)

lemma ident_loop_copies:
  "list_all is_alpha_num v \<Longrightarrow> length (sc_str s) + length v \<le> SC_STR_CAP \<Longrightarrow>
   ident_loop (v @ 32 # w) (s\<lparr>sc_in := v @ 32 # w\<rparr>) = process_maybe_ident (s\<lparr>sc_str := sc_str s @ v, sc_in := 32 # w\<rparr>)"
proof (induction v arbitrary: s)
  case (Cons c v)
  with Cons.IH [of "s\<lparr>sc_str := sc_str s @ [c]\<rparr>"] copy_char [of s c "v @ 32 # w"] show ?case by (simp add: sc_wrap_def)
qed (simp add: is_alpha_num_def is_alpha_def is_num_def)

lemma number_loop_copies:
  "list_all is_num v \<Longrightarrow> length (sc_str s) + length v \<le> SC_STR_CAP \<Longrightarrow>
   number_loop (v @ 32 # w) (s\<lparr>sc_in := v @ 32 # w\<rparr>) = process_int (s\<lparr>sc_str := sc_str s @ v, sc_in := 32 # w\<rparr>)"
proof (induction v arbitrary: s)
  case (Cons c v)
  with Cons.IH [of "s\<lparr>sc_str := sc_str s @ [c]\<rparr>"] copy_char [of s c "v @ 32 # w"] show ?case by (simp add: sc_wrap_def)
qed (simp add: is_num_def)

lemma string_loop_copies:
  "34 \<notin> set v \<Longrightarrow> length (sc_str s) + length v \<le> SC_STR_CAP \<Longrightarrow>
   string_loop (v @ 34 # w) (s\<lparr>sc_in := v @ 34 # w\<rparr>) = process_string_or_ident (s\<lparr>sc_str := sc_str s @ v, sc_in := w\<rparr>) TT_STRING"
proof (induction v arbitrary: s)
  case (Cons c v)
  with Cons.IH [of "s\<lparr>sc_str := sc_str s @ [c]\<rparr>"] copy_char [of s c "v @ 34 # w"] show ?case by (auto simp: sc_wrap_def)
qed (simp add: scanner_advance_expect_def)

lemma run_word:
  assumes r: "ready s" "sc_room s > 0" and v: "word_chars v"
    and p: "process_maybe_ident (s\<lparr>sc_str := v, sc_in := 32 # w, sc_state := SS_IDENT\<rparr>) = Some (Inr (), s')"
  shows "scanner_execute (s\<lparr>sc_in := v @ 32 # w\<rparr>) = scanner_execute s'"
proof -
  obtain c u where v': "v = c # u" "is_alpha c" "list_all is_alpha_num u" "Suc (length u) \<le> SC_STR_CAP"
    using v by (cases v) (auto simp: word_chars_def)
  note a = chars_apart(3) [OF v'(2)]
  let ?s1 = "s\<lparr>sc_str := [c], sc_in := u @ 32 # w, sc_state := SS_IDENT\<rparr>"
  have "execute_at_most_one_token (s\<lparr>sc_in := v @ 32 # w\<rparr>) = start_char c (s\<lparr>sc_in := v @ 32 # w\<rparr>)"
    using execute_start_step [of "s\<lparr>sc_in := v @ 32 # w\<rparr>"] start_rest_char [of c "u @ 32 # w" s] a r(1)
    by (simp add: ready_def v'(1))
  also have "\<dots> = Some (Inr (), ?s1)"
    using copy_char [of "s\<lparr>sc_str := []\<rparr>" c "u @ 32 # w"] a v'(2) by (simp add: start_char_def sc_wrap_def v'(1) sc_order)
  finally have "scanner_execute (s\<lparr>sc_in := v @ 32 # w\<rparr>) = scanner_execute ?s1"
    using r(2) execute_step [of "s\<lparr>sc_in := v @ 32 # w\<rparr>"] by simp
  moreover have "execute_at_most_one_token ?s1 = Some (Inr (), s')"
    using ident_loop_copies [OF v'(3), of "s\<lparr>sc_str := [c], sc_state := SS_IDENT\<rparr>" w] v'(4) p
    by (simp add: execute_at_most_one_token_def execute_at_most_one_token_ident_def sc_order v'(1))
  ultimately show ?thesis using r(2) execute_step [of ?s1] by simp
qed

lemma run_known:
  assumes r: "ready s" "sc_room s > 0" and v: "word_chars v"
    and t: "find_token magic_tokens v = Some t \<or> find_token magic_tokens v = None \<and> find_token op_codes v = Some t" "tok_mem t = 0"
  shows "\<exists>s'. scanner_execute (s\<lparr>sc_in := v @ 32 # w\<rparr>) = scanner_execute (s'\<lparr>sc_in := 32 # w\<rparr>) \<and> wrote s t s'"
proof -
  let ?s' = "s\<lparr>sc_str := [], sc_out := sc_out s @ [t], sc_room := sc_room s - 1\<rparr>"
  obtain q where q: "sc_state s = SS_START" "sc_cur s = Some q" using r(1) by (auto simp: ready_def)
  have "process_maybe_ident (s\<lparr>sc_str := v, sc_in := 32 # w, sc_state := SS_IDENT\<rparr>) = Some (Inr (), ?s'\<lparr>sc_in := 32 # w\<rparr>)"
    using v t(1) q r(2)
    by (cases s) (auto simp: process_maybe_ident_def scanner_process_token_def write_token_def word_chars_def Let_def)
  from run_word [OF r v this] have "scanner_execute (s\<lparr>sc_in := v @ 32 # w\<rparr>) = scanner_execute (?s'\<lparr>sc_in := 32 # w\<rparr>)" .
  moreover have "wrote s t ?s'" using r t(2) by (simp add: wrote_def ready_def memory_def)
  ultimately show ?thesis by blast
qed

text \<open>Keeping a string takes memory of the statement.\<close>

lemma process_string:
  assumes r: "sc_prev s = None" "sc_cur s = Some q" "la_wf q" "sc_room s > 0" and v: "sc_str s = v" "v \<noteq> []" "length v < la_room q"
    and t: "ty = TT_STRING \<or> ty = TT_IDENTIFIER"
  shows "\<exists>s'. process_string_or_ident s ty = Some (Inr (), s'\<lparr>sc_in := sc_in s\<rparr>) \<and> wrote s \<lparr>tk_type = ty, tk_val = TV_str v\<rparr> s'"
proof -
  from lmalloc_ok [OF r(3), of 1 "length v"] v obtain q' where
    q: "lmalloc q 1 (length v) = Some (Inr (la_used q), q')" "la_wf q'" "la_room q' = la_room q - length v" by auto
  let ?t = "\<lparr>tk_type = ty, tk_val = TV_str v\<rparr>"
  let ?s' = "s\<lparr>sc_cur := Some q', sc_str := [], sc_out := sc_out s @ [?t], sc_room := sc_room s - 1, sc_state := SS_START\<rparr>"
  have "process_string_or_ident s ty = Some (Inr (), ?s'\<lparr>sc_in := sc_in s\<rparr>)"
    using r(2,4) v(1) t q(1)
    by (cases s) (simp add: process_string_or_ident_def scanner_commit_string_def scanner_process_token_def write_token_def sc_wrap_def Let_def)
  moreover have "wrote s ?t ?s'" using r q v by (simp add: wrote_def ready_def memory_def tok_mem_def)
  ultimately show ?thesis by blast
qed

lemma wrote_cong:
  "sc_out a = sc_out b \<Longrightarrow> sc_room a = sc_room b \<Longrightarrow> sc_cur a = sc_cur b \<Longrightarrow> wrote a t s' = wrote b t s'"
  by (simp add: wrote_def memory_def)

lemma run_ident:
  assumes r: "ready s" "sc_room s > 0" and v: "word_chars v" "length v < memory s"
    and t: "find_token magic_tokens v = None" "find_token op_codes v = None"
  shows "\<exists>s'. scanner_execute (s\<lparr>sc_in := v @ 32 # w\<rparr>) = scanner_execute (s'\<lparr>sc_in := 32 # w\<rparr>) \<and>
    wrote s \<lparr>tk_type = TT_IDENTIFIER, tk_val = TV_str v\<rparr> s'"
proof -
  let ?s1 = "s\<lparr>sc_str := v, sc_in := 32 # w, sc_state := SS_IDENT\<rparr>"
  obtain q where q: "sc_prev s = None" "sc_cur s = Some q" "la_wf q" "length v < la_room q"
    using r(1) v(2) by (auto simp: ready_def memory_def)
  have ne: "v \<noteq> []" using v(1) by (simp add: word_chars_def)
  obtain s' where s': "process_string_or_ident ?s1 TT_IDENTIFIER = Some (Inr (), s'\<lparr>sc_in := 32 # w\<rparr>)"
      "wrote ?s1 \<lparr>tk_type = TT_IDENTIFIER, tk_val = TV_str v\<rparr> s'"
    using process_string [of ?s1 q v TT_IDENTIFIER] q ne r(2) by auto
  have "process_maybe_ident ?s1 = Some (Inr (), s'\<lparr>sc_in := 32 # w\<rparr>)"
    using s'(1) t ne by (simp add: process_maybe_ident_def)
  from run_word [OF r v(1) this] s'(2) wrote_cong [of s ?s1] show ?thesis by auto
qed

lemma run_number:
  assumes r: "ready s" "sc_room s > 0" and v: "v \<noteq> []" "list_all is_num v" "length v \<le> SC_STR_CAP" "decimal v 0 \<le> I32_MAX"
  shows "\<exists>s'. scanner_execute (s\<lparr>sc_in := v @ 32 # w\<rparr>) = scanner_execute (s'\<lparr>sc_in := 32 # w\<rparr>) \<and>
    wrote s (tt_integer (decimal v 0)) s'"
proof -
  obtain c u where v': "v = c # u" "is_num c" "list_all is_num u" "Suc (length u) \<le> SC_STR_CAP"
    using v by (cases v) auto
  note a = chars_apart(4) [OF v'(2)]
  let ?s1 = "s\<lparr>sc_str := [c], sc_in := u @ 32 # w, sc_state := SS_NUMBER\<rparr>"
  let ?t = "tt_integer (decimal v 0)"
  let ?s' = "s\<lparr>sc_str := [], sc_out := sc_out s @ [?t], sc_room := sc_room s - 1\<rparr>"
  have "execute_at_most_one_token (s\<lparr>sc_in := v @ 32 # w\<rparr>) = start_char c (s\<lparr>sc_in := v @ 32 # w\<rparr>)"
    using execute_start_step [of "s\<lparr>sc_in := v @ 32 # w\<rparr>"] start_rest_char [of c "u @ 32 # w" s] a r(1)
    by (simp add: ready_def v'(1))
  also have "\<dots> = Some (Inr (), ?s1)"
    using copy_char [of "s\<lparr>sc_str := []\<rparr>" c "u @ 32 # w"] a v'(2) by (simp add: start_char_def sc_wrap_def v'(1) sc_order)
  finally have "scanner_execute (s\<lparr>sc_in := v @ 32 # w\<rparr>) = scanner_execute ?s1"
    using r(2) execute_step [of "s\<lparr>sc_in := v @ 32 # w\<rparr>"] by simp
  moreover have "execute_at_most_one_token ?s1 = process_int (s\<lparr>sc_str := v, sc_in := 32 # w, sc_state := SS_NUMBER\<rparr>)"
    using number_loop_copies [OF v'(3), of "s\<lparr>sc_str := [c], sc_state := SS_NUMBER\<rparr>" w] v'(4)
    by (simp add: execute_at_most_one_token_def execute_at_most_one_token_number_def sc_order v'(1))
  moreover have "process_int (s\<lparr>sc_str := v, sc_in := 32 # w, sc_state := SS_NUMBER\<rparr>) = Some (Inr (), ?s'\<lparr>sc_in := 32 # w\<rparr>)"
    using parse_i32_unsigned [OF v(2,1)] v(4) r
    by (cases s) (simp add: process_int_def with_number_def sc_wrap_def scanner_process_token_def write_token_def ready_def)
  moreover have "wrote s ?t ?s'" using r by (simp add: wrote_def ready_def memory_def tok_mem_def tt_integer_def)
  ultimately show ?thesis using r(2) execute_step [of ?s1] by (intro exI [of _ ?s']) simp
qed

lemma run_quoted:
  assumes r: "ready s" "sc_room s > 0" and v: "v \<noteq> []" "34 \<notin> set v" "length v \<le> SC_STR_CAP" "length v < memory s"
  shows "\<exists>s'. scanner_execute (s\<lparr>sc_in := 34 # v @ 34 # w\<rparr>) = scanner_execute (s'\<lparr>sc_in := w\<rparr>) \<and>
    wrote s \<lparr>tk_type = TT_STRING, tk_val = TV_str v\<rparr> s'"
proof -
  let ?s1 = "s\<lparr>sc_str := [], sc_in := v @ 34 # w, sc_state := SS_STRING\<rparr>"
  let ?s2 = "s\<lparr>sc_str := v, sc_in := w, sc_state := SS_STRING\<rparr>"
  have q34: "\<not> is_space 34 \<and> single_of 34 = None \<and> second_of 34 = None"
    by (simp add: is_space_def single_of_def second_of_def)
  have "execute_at_most_one_token (s\<lparr>sc_in := 34 # v @ 34 # w\<rparr>) = start_char 34 (s\<lparr>sc_in := 34 # v @ 34 # w\<rparr>)"
    using execute_start_step [of "s\<lparr>sc_in := 34 # v @ 34 # w\<rparr>"] start_rest_char [of 34 "v @ 34 # w" s] q34 r(1)
    by (simp add: ready_def)
  also have "\<dots> = Some (Inr (), ?s1)"
    using q34 by (simp add: start_char_def scanner_advance_expect_def sc_order)
  finally have "scanner_execute (s\<lparr>sc_in := 34 # v @ 34 # w\<rparr>) = scanner_execute ?s1"
    using r(2) execute_step [of "s\<lparr>sc_in := 34 # v @ 34 # w\<rparr>"] by simp
  moreover have "execute_at_most_one_token ?s1 = process_string_or_ident ?s2 TT_STRING"
    using string_loop_copies [OF v(2), of "s\<lparr>sc_str := [], sc_state := SS_STRING\<rparr>" w] v(3)
    by (simp add: execute_at_most_one_token_def execute_at_most_one_token_string_def sc_order)
  moreover obtain q where q: "sc_prev s = None" "sc_cur s = Some q" "la_wf q" "length v < la_room q"
    using r(1) v(4) by (auto simp: ready_def memory_def)
  moreover obtain s' where s': "process_string_or_ident ?s2 TT_STRING = Some (Inr (), s'\<lparr>sc_in := w\<rparr>)"
      "wrote ?s2 \<lparr>tk_type = TT_STRING, tk_val = TV_str v\<rparr> s'"
    using process_string [of ?s2 q v TT_STRING] q v(1) r(2) by auto
  ultimately show ?thesis using r(2) execute_step [of ?s1] wrote_cong [of s ?s2] by (intro exI [of _ s']) simp
qed

section \<open>A text of lexemes\<close>

lemma find_token_all: "find_token es v = Some t \<Longrightarrow> list_all (\<lambda>e. P (snd e)) es \<Longrightarrow> P t"
  by (induction es) (auto split: if_splits)

lemma known_tok_mem:
  assumes "find_token magic_tokens v = Some t \<or> find_token op_codes v = Some t"
  shows "tok_mem t = 0"
proof -
  have "list_all (\<lambda>e. tok_mem (snd e) = 0) magic_tokens" "list_all (\<lambda>e. tok_mem (snd e) = 0) op_codes"
    by (simp_all add: magic_tokens_def op_codes_def quick_tok_def tt_prim_def tok_mem_def)
  with assms find_token_all [where P = "\<lambda>t. tok_mem t = 0"] show ?thesis by blast
qed

lemma run_lexeme:
  assumes "lexeme v t" and "ready s" and "sc_room s > 1" and "tok_mem t < memory s"
  shows "\<exists>s'. scanner_execute (s\<lparr>sc_in := v @ 32 # w\<rparr>) = scanner_execute (s'\<lparr>sc_in := 32 # w\<rparr>) \<and> wrote s t s'"
  using assms
proof (cases rule: lexeme.cases)
  case (two c c2 ty one)
  then show ?thesis using run_two [OF assms(2) _ two(3), of "32 # w"] assms(3) by auto
next
  case (one c c2 t2 ty)
  then show ?thesis using run_one [OF assms(2,3) one(3), of w] by auto
next
  case (quoted v')
  then show ?thesis using run_quoted [OF assms(2) _ quoted(3,4,5), of "32 # w"] assms(3,4) by (auto simp: tok_mem_def)
next
  case number
  then show ?thesis using run_number [OF assms(2) _ number(2,3,4,5)] assms(3) by auto
next
  case ident
  then show ?thesis using run_ident [OF assms(2) _ ident(2) _ ident(3,4)] assms(3,4) by (auto simp: tok_mem_def)
next
  case magic
  then show ?thesis using run_known [OF assms(2) _ magic(1), of t w] known_tok_mem [of v t] assms(3) by auto
next
  case opcode
  then show ?thesis using run_known [OF assms(2) _ opcode(1), of t w] known_tok_mem [of v t] assms(3) by auto
next
  case (single c ty)
  then show ?thesis using run_single [OF assms(2) _ single(3,4), of "32 # w"] assms(3) by auto
qed

definition spaced :: "str list \<Rightarrow> str" where
  "spaced ws = concat (map (\<lambda>w. w @ [32]) ws)"

lemma run_lexemes:
  "list_all2 lexeme ws ts \<Longrightarrow> ready s \<Longrightarrow> length ts < sc_room s \<Longrightarrow> sum_list (map tok_mem ts) < memory s \<Longrightarrow>
   \<exists>s'. scanner_execute (s\<lparr>sc_in := spaced ws\<rparr>) = Some s' \<and> sc_out s' = sc_out s @ ts \<and> sc_in s' = [] \<and> ready s'"
proof (induction ws ts arbitrary: s rule: list_all2_induct)
  case Nil
  then show ?case by (subst scanner_execute.simps) (simp add: spaced_def ready_def)
next
  case (Cons w ws t ts)
  from Cons.prems have m: "tok_mem t < memory s" "sc_room s > 1" by auto
  from run_lexeme [OF Cons.hyps(1) Cons.prems(1) m(2,1), of "spaced ws"] obtain s1 where
    s1: "scanner_execute (s\<lparr>sc_in := w @ 32 # spaced ws\<rparr>) = scanner_execute (s1\<lparr>sc_in := 32 # spaced ws\<rparr>)" "wrote s t s1"
    by blast
  from s1(2) Cons.prems have r: "ready s1" "length ts < sc_room s1" "sum_list (map tok_mem ts) < memory s1"
    by (auto simp: wrote_def)
  have "scanner_execute (s1\<lparr>sc_in := 32 # spaced ws\<rparr>) = scanner_execute (s1\<lparr>sc_in := spaced ws\<rparr>)"
    using r(1,2) by (intro skip_space) (auto simp: ready_def is_space_def)
  with Cons.IH [OF r] s1 show ?case by (simp add: spaced_def wrote_def)
qed

text \<open>C31: The scanner gives back what was written. Any sequence of lexemes of a statement, each followed by a space, is scanned into
  exactly the tokens that the lexemes stand for, in order, with nothing of the input left. Lexemes are the operators other than the
  semicolon, keywords, types, opcodes, names, integers of at most \<^verbatim>\<open>I32_MAX\<close>, and quoted strings that are not empty and hold no quote,
  words, digits and strings of at most the size of the scanner's buffer, \<open>SC_STR_CAP\<close>; negative numbers, decimals and the empty string
  are not among them. It is required that the statement has memory for the strings and the output has room for the tokens and for one more (the step that writes a lone
  \<open>!\<close>, \<open><\<close>, \<open>>\<close>, \<open>&\<close> or \<open>|\<close> goes on to the next token).\<close>

theorem scanner_roundtrip:
  assumes "list_all2 lexeme ws ts" and "ready s" and "length ts < sc_room s" and "sum_list (map tok_mem ts) < memory s"
  shows "\<exists>s'. scanner_execute (s\<lparr>sc_in := spaced ws\<rparr>) = Some s' \<and> sc_out s' = sc_out s @ ts \<and> sc_in s' = [] \<and> ready s'"
  by (rule run_lexemes [OF assms])

definition f32_zero_ops :: f32_ops where
  "f32_zero_ops = \<lparr>f_add = (\<lambda>_ _. 0), f_mul = (\<lambda>_ _. 0), f_div = (\<lambda>_ _. 0), f_neg = (\<lambda>_. 0), f_of_nat = (\<lambda>_. 0),
     f_finite = (\<lambda>_. True), f_is_zero = (\<lambda>x. x = 0)\<rparr>"

definition scan_sample :: scanner where
  "scan_sample = (scanner_init [] 8 True f32_zero_ops)\<lparr>sc_cur := Some \<lparr>la_used = 0, la_limit = 2048\<rparr>\<rparr>"

definition sample_lexemes :: "(str \<times> token) list" where
  "sample_lexemes =
     [(chars ''create'', \<lparr>tk_type = TT_CREATE, tk_val = TV_stmt None\<rparr>), (chars ''ab'', \<lparr>tk_type = TT_IDENTIFIER, tk_val = TV_str (chars ''ab'')\<rparr>),
      (chars ''u32'', tt_prim U32), (chars ''<'', quick_tok TT_LESS), (chars ''!='', quick_tok TT_BANG_EQUAL),
      (chars ''42'', tt_integer 42), ([34, 120, 32, 34], \<lparr>tk_type = TT_STRING, tk_val = TV_str [120, 32]\<rparr>)]"

lemma sample_lexeme_all: "list_all2 lexeme (map fst sample_lexemes) (map snd sample_lexemes)"
proof -
  have "lexeme (chars ''create'') \<lparr>tk_type = TT_CREATE, tk_val = TV_stmt None\<rparr>"
    by (rule lexeme.opcode) (simp_all add: word_chars_def chars_def is_alpha_def is_alpha_num_def is_num_def magic_tokens_def op_codes_def string_equal_def)
  moreover have "lexeme (chars ''ab'') \<lparr>tk_type = TT_IDENTIFIER, tk_val = TV_str (chars ''ab'')\<rparr>"
    by (rule lexeme.ident) (simp_all add: word_chars_def chars_def is_alpha_def is_alpha_num_def is_num_def magic_tokens_def op_codes_def string_equal_def)
  moreover have "lexeme (chars ''u32'') (tt_prim U32)"
    by (rule lexeme.magic) (simp_all add: word_chars_def chars_def is_alpha_def is_alpha_num_def is_num_def magic_tokens_def string_equal_def)
  moreover have "lexeme (chars ''<'') (quick_tok TT_LESS)"
    using lexeme.one [of 60] by (simp add: chars_def second_of_def)
  moreover have "lexeme (chars ''!='') (quick_tok TT_BANG_EQUAL)"
    using lexeme.two [of 33] by (simp add: chars_def second_of_def)
  moreover have "lexeme (chars ''42'') (tt_integer 42)"
    using lexeme.number [of "chars ''42''"] by (simp add: chars_def is_num_def digit_def)
  moreover have "lexeme [34, 120, 32, 34] \<lparr>tk_type = TT_STRING, tk_val = TV_str [120, 32]\<rparr>"
    using lexeme.quoted [of "[120, 32]"] by simp
  ultimately show ?thesis by (simp add: sample_lexemes_def)
qed

theorem scanner_roundtrip_witness:
  "\<exists>s'. scanner_execute (scan_sample\<lparr>sc_in := spaced (map fst sample_lexemes)\<rparr>) = Some s' \<and>
     sc_out s' = sc_out scan_sample @ map snd sample_lexemes \<and> sc_in s' = [] \<and> ready s'"
  by (rule scanner_roundtrip [OF sample_lexeme_all])
     (simp_all add: scan_sample_def scanner_init_def ready_def la_wf_def sample_lexemes_def tok_mem_def tt_prim_def quick_tok_def
       tt_integer_def chars_def memory_def la_room_def)

section \<open>After an error\<close>

lemma err_loop_stuck: "scanner_peek s = Some d \<Longrightarrow> d \<noteq> 59 \<Longrightarrow> err_loop s = None"
proof (rule ccontr)
  assume d: "scanner_peek s = Some d" "d \<noteq> 59" and "err_loop s \<noteq> None"
  then obtain s' where "err_loop s = Some s'" by blast
  then have "scanner_peek s \<noteq> Some d"
    by (rule err_loop.raw_induct [where P = "\<lambda>s _. scanner_peek s \<noteq> Some d", rotated])
       (use d(2) in \<open>auto split: option.splits if_splits\<close>)
  with d(1) show False by simp
qed

definition begins_no_token :: "u8 \<Rightarrow> bool" where
  "begins_no_token c \<longleftrightarrow> \<not> is_space c \<and> single_of c = None \<and> second_of c = None \<and> c \<noteq> 34 \<and> \<not> is_alpha c \<and> \<not> is_num c"

text \<open>C33: a character that begins no token (\<open>@\<close>, say) ends the statement with an error token, and the
  scanner then only goes on when the very next character is a semicolon: the loop that is to skip to the end of
  the statement does not move, so with any other next character the scanner never returns.\<close>

theorem scanner_stuck_after_error:
  assumes "sc_state s = SS_START" and "sc_prev s = None" and "sc_room s > 1" and "begins_no_token c"
  shows "scanner_execute (s\<lparr>sc_in := c # d # w\<rparr>) =
    (if d = 59 then
       scanner_execute (s\<lparr>sc_in := w, sc_out := sc_out s @ [tt_err ERR_SYNTAX], sc_room := sc_room s - 1, sc_cur := None\<rparr>)
     else None)"
proof -
  let ?e = "s\<lparr>sc_in := d # w, sc_state := SS_ERR, sc_out := sc_out s @ [tt_err ERR_SYNTAX], sc_room := sc_room s - 1, sc_cur := None\<rparr>"
  have "execute_at_most_one_token (s\<lparr>sc_in := c # d # w\<rparr>) = Some (Inl ERR_SYNTAX, ?e) \<or>
        execute_at_most_one_token (s\<lparr>sc_in := c # d # w\<rparr>) = Some (Inr (), ?e)"
    using execute_start_step [of "s\<lparr>sc_in := c # d # w\<rparr>"] start_rest_char [of c "d # w" s] assms
    by (simp add: begins_no_token_def start_char_def scanner_advance_expect_def sc_fail_def sc_wrap_def
      scanner_process_error_def write_token_def)
  then have "scanner_execute (s\<lparr>sc_in := c # d # w\<rparr>) = scanner_execute ?e"
    using assms(3) by (subst scanner_execute.simps) (auto simp: scanner_process_error_def)
  also have "\<dots> = (case err_loop ?e of None \<Rightarrow> None | Some s' \<Rightarrow> scanner_execute s')"
    using assms(3) by (subst scanner_execute.simps)
      (simp add: execute_at_most_one_token_def execute_at_most_one_token_err_def split: option.splits)
  also have "\<dots> = (if d = 59 then
       scanner_execute (s\<lparr>sc_in := w, sc_out := sc_out s @ [tt_err ERR_SYNTAX], sc_room := sc_room s - 1, sc_cur := None\<rparr>)
     else None)"
  proof (cases "d = 59")
    case True
    have "err_loop ?e = Some (s\<lparr>sc_in := w, sc_out := sc_out s @ [tt_err ERR_SYNTAX], sc_room := sc_room s - 1, sc_cur := None\<rparr>)"
      using True assms(1) by (cases s) (subst err_loop.simps, simp add: scanner_peek_def scanner_advance_expect_def)
    with True show ?thesis by simp
  next
    case False
    then show ?thesis using err_loop_stuck [of ?e d] by (simp add: scanner_peek_def)
  qed
  finally show ?thesis .
qed

theorem scanner_stuck_after_error_witness:
  "scanner_execute (scan_sample\<lparr>sc_in := [64, 97, 59]\<rparr>) = None"
  using scanner_stuck_after_error [of scan_sample 64 97 "[59]"]
  by (simp add: scan_sample_def scanner_init_def begins_no_token_def is_space_def single_of_def second_of_def is_alpha_def is_num_def)

section \<open>Input in pieces\<close>

text \<open>\<open>more b\<close> gives a scanner \<open>b\<close> as further input. An operation that only looks at the input it has does the same
  with more of it; one that runs out of input goes on where it was left.\<close>

definition more :: "u8 list \<Rightarrow> scanner \<Rightarrow> scanner" where
  "more b s = s\<lparr>sc_in := sc_in s @ b\<rparr>"

definition more_res :: "u8 list \<Rightarrow> ('a res \<times> scanner) option \<Rightarrow> ('a res \<times> scanner) option" where
  "more_res b m = map_option (map_prod id (more b)) m"

definition goes_on :: "u8 list \<Rightarrow> (unit res \<times> scanner) option \<Rightarrow> (unit res \<times> scanner) option \<Rightarrow> bool" where
  "goes_on b m n \<longleftrightarrow> (\<forall>r s. m = Some (r, s) \<longrightarrow>
     n = Some (r, more b s) \<or> r = Inr () \<and> sc_in s = [] \<and> n = execute_at_most_one_token (more b s))"

lemma more_simps [simp]:
  "sc_state (more b s) = sc_state s" "sc_str (more b s) = sc_str s" "sc_in (more b s) = sc_in s @ b"
  "sc_out (more b s) = sc_out s" "sc_room (more b s) = sc_room s" "sc_prev (more b s) = sc_prev s"
  "sc_cur (more b s) = sc_cur s" "sc_mem (more b s) = sc_mem s" "sc_f32 (more b s) = sc_f32 s"
  "more b (s\<lparr>sc_state := x1\<rparr>) = (more b s)\<lparr>sc_state := x1\<rparr>" "more b (s\<lparr>sc_str := x2\<rparr>) = (more b s)\<lparr>sc_str := x2\<rparr>"
  "more b (s\<lparr>sc_out := x3\<rparr>) = (more b s)\<lparr>sc_out := x3\<rparr>" "more b (s\<lparr>sc_room := x4\<rparr>) = (more b s)\<lparr>sc_room := x4\<rparr>"
  "more b (s\<lparr>sc_prev := x5\<rparr>) = (more b s)\<lparr>sc_prev := x5\<rparr>" "more b (s\<lparr>sc_cur := x6\<rparr>) = (more b s)\<lparr>sc_cur := x6\<rparr>"
  by (simp_all add: more_def)

lemma more_res_simps [simp]:
  "more_res b (Some (r, s)) = Some (r, more b s)" "more_res b None = None"
  by (simp_all add: more_res_def)

lemma more_write: "write_token (more b s) t = map_option (more b) (write_token s t)"
  by (simp add: write_token_def)

lemma more_error: "scanner_process_error e (more b s) = map_option (more b) (scanner_process_error e s)"
  using more_write [of b "s\<lparr>sc_state := SS_ERR\<rparr>" "tt_err e"]
  by (simp add: scanner_process_error_def bind_eq_Some_conv write_token_def)

lemma more_token: "scanner_process_token (more b s) t = more_res b (scanner_process_token s t)"
  by (simp add: scanner_process_token_def write_token_def)

lemma more_wrap:
  "(\<And>x s. f x (more b s) = more_res b (g x s)) \<Longrightarrow> sc_wrap (more_res b m) f = more_res b (sc_wrap m g)"
proof (cases m)
  case (Some x)
  assume *: "\<And>x s. f x (more b s) = more_res b (g x s)"
  obtain r s where x: "x = (r, s)" by (cases x)
  show ?thesis
  proof (cases r)
    case (Inl e)
    with Some x show ?thesis by (cases "scanner_process_error e s") (simp_all add: sc_wrap_def more_error)
  qed (simp add: Some x sc_wrap_def *)
qed (simp add: sc_wrap_def)

lemma more_fail: "sc_fail e (more b s) = more_res b (sc_fail e s)"
  using more_wrap [of "\<lambda>_ s. Some (Inr (), s)" b "\<lambda>_ s. Some (Inr (), s)" "Some (Inl e :: unit res, s)"]
  by (simp add: sc_fail_def)

lemma more_push: "scanner_push_char (more b s) c = more_res b (scanner_push_char s c)"
  by (simp add: scanner_push_char_def more_fail)

lemma more_copy:
  assumes "sc_in s \<noteq> []"
  shows "scanner_cpy_advance_expect (more b s) = more_res b (scanner_cpy_advance_expect s)"
proof -
  have e: "(more b s)\<lparr>sc_in := List.tl (sc_in (more b s))\<rparr> = more b (s\<lparr>sc_in := List.tl (sc_in s)\<rparr>)"
    using assms by (simp add: more_def)
  show ?thesis using assms unfolding scanner_cpy_advance_expect_def e
    by (simp add: more_push more_wrap [of "\<lambda>_ s. Some (Inr (), s)" b "\<lambda>_ s. Some (Inr (), s)"])
qed

lemma more_advance: "sc_in s \<noteq> [] \<Longrightarrow> scanner_advance_expect (more b s) = map_option (more b) (scanner_advance_expect s)"
  by (simp add: scanner_advance_expect_def more_def)

lemma more_commit: "scanner_commit_string (more b s) = more_res b (scanner_commit_string s)"
proof (cases "sc_cur s")
  case None
  then show ?thesis by (cases "sc_fail ERR_SYNTAX s") (auto simp: scanner_commit_string_def more_fail)
next
  case (Some q)
  show ?thesis
  proof (cases "lmalloc q 1 (length (sc_str s))")
    case None
    with Some show ?thesis by (simp add: scanner_commit_string_def)
  next
    case (Some x)
    obtain r q' where x: "x = (r, q')" by (cases x)
    show ?thesis
    proof (cases r)
      case (Inl e)
      with more_fail [of e b "s\<lparr>sc_cur := Some q'\<rparr>"] Some x \<open>sc_cur s = Some q\<close> show ?thesis
        by (cases "sc_fail e (s\<lparr>sc_cur := Some q'\<rparr>)") (auto simp: scanner_commit_string_def Let_def)
    qed (use Some x \<open>sc_cur s = Some q\<close> in \<open>simp add: scanner_commit_string_def Let_def\<close>)
  qed
qed

lemma more_string: "process_string_or_ident (more b s) ty = more_res b (process_string_or_ident s ty)"
  by (simp add: process_string_or_ident_def more_commit more_wrap more_token)

lemma more_maybe: "process_maybe_ident (more b s) = more_res b (process_maybe_ident s)"
proof -
  have t: "scanner_process_token ((more b s)\<lparr>sc_str := []\<rparr>) t = more_res b (scanner_process_token (s\<lparr>sc_str := []\<rparr>) t)" for t
    using more_token [of b "s\<lparr>sc_str := []\<rparr>" t] by simp
  have f: "sc_fail e ((more b s)\<lparr>sc_str := []\<rparr>) = more_res b (sc_fail e (s\<lparr>sc_str := []\<rparr>))" for e
    using more_fail [of e b "s\<lparr>sc_str := []\<rparr>"] by simp
  have c: "scanner_process_token ((more b s)\<lparr>sc_str := [], sc_cur := q\<rparr>) t =
      more_res b (scanner_process_token (s\<lparr>sc_str := [], sc_cur := q\<rparr>) t)" for q t
    using more_token [of b "s\<lparr>sc_str := [], sc_cur := q\<rparr>" t] by simp
  show ?thesis by (simp add: process_maybe_ident_def t f c Let_def more_string split: option.splits)
qed

lemma more_number: "with_number (more b s) m tok = more_res b (with_number s m tok)"
proof (cases m)
  case (Some r)
  have "sc_wrap (scanner_process_token (more b s) (tok x)) (\<lambda>_ s. Some (Inr (), s)) =
      more_res b (sc_wrap (scanner_process_token s (tok x)) (\<lambda>_ s. Some (Inr (), s)))" for x s
    by (simp add: more_token more_wrap [of "\<lambda>_ s. Some (Inr (), s)" b "\<lambda>_ s. Some (Inr (), s)"])
  note w = this
  show ?thesis using Some more_wrap [of "\<lambda>x s. sc_wrap (scanner_process_token s (tok x)) (\<lambda>_ s. Some (Inr (), s))" b
      "\<lambda>x s. sc_wrap (scanner_process_token s (tok x)) (\<lambda>_ s. Some (Inr (), s))" "Some (r, s)"] w
    by (simp add: with_number_def)
qed (simp add: with_number_def)

lemma more_parsed: "process_int (more b s) = more_res b (process_int s)" "process_dec (more b s) = more_res b (process_dec s)"
  using more_number [of b "s\<lparr>sc_str := []\<rparr>"] by (simp_all add: process_int_def process_dec_def)

lemma goes_on_same: "n = more_res b m \<Longrightarrow> goes_on b m n"
  by (simp add: goes_on_def)

lemma goes_on_stop: "sc_in s = [] \<Longrightarrow> n = execute_at_most_one_token (more b s) \<Longrightarrow> goes_on b (Some (Inr (), s)) n"
  by (simp add: goes_on_def)

text \<open>A character that is taken over, and what comes after it.\<close>

lemma goes_on_copy:
  assumes "sc_in s = c # cs"
    and "\<And>v. goes_on b (g (s\<lparr>sc_str := v, sc_in := cs\<rparr>)) (f (more b (s\<lparr>sc_str := v, sc_in := cs\<rparr>)))"
  shows "goes_on b (sc_wrap (scanner_cpy_advance_expect s) (\<lambda>_. g)) (sc_wrap (scanner_cpy_advance_expect (more b s)) (\<lambda>_. f))"
proof (cases "length (sc_str s) = SC_STR_CAP")
  case False
  with assms show ?thesis
    by (simp add: scanner_cpy_advance_expect_def scanner_push_char_def sc_wrap_def more_def sc_order)
next
  case True
  have "goes_on b (sc_wrap (scanner_cpy_advance_expect s) (\<lambda>_. g)) (sc_wrap (more_res b (scanner_cpy_advance_expect s)) (\<lambda>_. f))"
  proof (cases "scanner_cpy_advance_expect s")
    case (Some x)
    obtain r s1 where x: "x = (r, s1)" by (cases x)
    show ?thesis
    proof (cases r)
      case (Inl e)
      with Some x show ?thesis by (cases "scanner_process_error e s1") (simp_all add: sc_wrap_def more_error goes_on_def)
    next
      case (Inr y)
      with Some x assms(1) True show ?thesis
        by (auto simp: scanner_cpy_advance_expect_def scanner_push_char_def sc_fail_def sc_wrap_def bind_eq_Some_conv)
    qed
  qed (simp add: sc_wrap_def goes_on_def)
  with assms(1) show ?thesis by (simp add: more_copy)
qed

lemma dec_goes_on:
  "sc_in s = cs \<Longrightarrow> sc_state s = SS_DECIMAL \<Longrightarrow> goes_on b (dec_loop cs s) (dec_loop (cs @ b) (more b s))"
proof (induction cs arbitrary: s)
  case Nil
  then show ?case
    by (simp add: goes_on_stop execute_at_most_one_token_def execute_at_most_one_token_dec_def)
next
  case (Cons c cs)
  show ?case
  proof (cases "is_num c")
    case True
    with Cons goes_on_copy [OF Cons.prems(1), of b "dec_loop cs" "dec_loop (cs @ b)"] show ?thesis by simp
  qed (simp add: goes_on_same more_parsed)
qed

lemma number_goes_on:
  "sc_in s = cs \<Longrightarrow> sc_state s = SS_NUMBER \<Longrightarrow> goes_on b (number_loop cs s) (number_loop (cs @ b) (more b s))"
proof (induction cs arbitrary: s)
  case Nil
  then show ?case
    by (simp add: goes_on_stop execute_at_most_one_token_def execute_at_most_one_token_number_def)
next
  case (Cons c cs)
  consider "is_num c" | "\<not> is_num c" "c = 46" | "\<not> is_num c" "c \<noteq> 46" by blast
  then show ?case
  proof cases
    case 1
    with Cons goes_on_copy [OF Cons.prems(1), of b "number_loop cs" "number_loop (cs @ b)"] show ?thesis by simp
  next
    case 2
    have "goes_on b (execute_at_most_one_token_dec (s\<lparr>sc_state := SS_DECIMAL, sc_str := v, sc_in := cs\<rparr>))
       (execute_at_most_one_token_dec (more b (s\<lparr>sc_state := SS_DECIMAL, sc_str := v, sc_in := cs\<rparr>)))" for v
      using dec_goes_on [of "s\<lparr>sc_state := SS_DECIMAL, sc_str := v, sc_in := cs\<rparr>" cs b]
      by (simp add: execute_at_most_one_token_dec_def)
    with goes_on_copy [of "s\<lparr>sc_state := SS_DECIMAL\<rparr>" c cs b execute_at_most_one_token_dec execute_at_most_one_token_dec]
      Cons.prems 2 show ?thesis by simp
  qed (simp add: goes_on_same more_parsed)
qed

lemma ident_goes_on:
  "sc_in s = cs \<Longrightarrow> sc_state s = SS_IDENT \<Longrightarrow> goes_on b (ident_loop cs s) (ident_loop (cs @ b) (more b s))"
proof (induction cs arbitrary: s)
  case Nil
  then show ?case
    by (simp add: goes_on_stop execute_at_most_one_token_def execute_at_most_one_token_ident_def)
next
  case (Cons c cs)
  show ?case
  proof (cases "is_alpha_num c")
    case True
    with Cons goes_on_copy [OF Cons.prems(1), of b "ident_loop cs" "ident_loop (cs @ b)"] show ?thesis by simp
  qed (simp add: goes_on_same more_maybe)
qed

lemma string_goes_on:
  "sc_in s = cs \<Longrightarrow> sc_state s = SS_STRING \<Longrightarrow> goes_on b (string_loop cs s) (string_loop (cs @ b) (more b s))"
proof (induction cs arbitrary: s)
  case Nil
  then show ?case
    by (simp add: goes_on_stop execute_at_most_one_token_def execute_at_most_one_token_string_def)
next
  case (Cons c cs)
  show ?case
  proof (cases "c = 34")
    case True
    with Cons.prems show ?thesis
      using more_string [of b "s\<lparr>sc_in := cs\<rparr>" TT_STRING]
      by (simp add: scanner_advance_expect_def) (simp add: more_def goes_on_same)
  next
    case False
    with Cons goes_on_copy [OF Cons.prems(1), of b "string_loop cs" "string_loop (cs @ b)"] show ?thesis by simp
  qed
qed

lemma start_char_more:
  assumes "sc_in s \<noteq> []"
  shows "start_char c (more b s) = more_res b (start_char c s)"
proof -
  obtain d cs where i: "sc_in s = d # cs" using assms by (cases "sc_in s") auto
  let ?s = "s\<lparr>sc_in := cs\<rparr>"
  have m: "(more b s)\<lparr>sc_in := cs @ b\<rparr> = more b ?s" by (simp add: more_def)
  have w: "sc_wrap (scanner_process_token (more b ?s) t) (\<lambda>_ s. Some (Inr (), h s)) =
      more_res b (sc_wrap (scanner_process_token ?s t) (\<lambda>_ s. Some (Inr (), h s)))"
    if "\<And>s. h (more b s) = more b (h s)" for t h
    using that by (simp add: more_token more_wrap [of "\<lambda>_ s. Some (Inr (), h s)" b "\<lambda>_ s. Some (Inr (), h s)"])
  have k: "sc_wrap (scanner_cpy_advance_expect ((more b s)\<lparr>sc_str := []\<rparr>)) (\<lambda>_ s. Some (Inr (), s\<lparr>sc_state := x\<rparr>)) =
      more_res b (sc_wrap (scanner_cpy_advance_expect (s\<lparr>sc_str := []\<rparr>)) (\<lambda>_ s. Some (Inr (), s\<lparr>sc_state := x\<rparr>)))" for x
    using more_copy [of "s\<lparr>sc_str := []\<rparr>" b] assms
      more_wrap [of "\<lambda>_ s. Some (Inr (), s\<lparr>sc_state := x\<rparr>)" b "\<lambda>_ s. Some (Inr (), s\<lparr>sc_state := x\<rparr>)"] by simp
  show ?thesis
  proof (cases "single_of c")
    case (Some t)
    with i show ?thesis using w [of "\<lambda>s. if t = TT_SEMICOLON then s\<lparr>sc_cur := None\<rparr> else s" "quick_tok t"]
      by (simp add: start_char_def scanner_advance_expect_def m)
  next
    case None
    consider "second_of c \<noteq> None" | "second_of c = None" "c = 34" | "second_of c = None" "c \<noteq> 34" by blast
    then show ?thesis
    proof cases
      case 1
      with None i show ?thesis by (auto simp: start_char_def scanner_advance_expect_def m)
    next
      case 2
      with None i show ?thesis by (simp add: start_char_def scanner_advance_expect_def more_def sc_order)
    next
      case 3
      with None i more_fail [of ERR_SYNTAX b ?s] show ?thesis
        by (simp add: start_char_def scanner_advance_expect_def k m)
    qed
  qed
qed

lemma start_rest_goes_on:
  assumes "sc_state s = SS_START" and "sc_prev s = None" and "b \<noteq> []"
  shows "goes_on b (start_rest s) (start_rest (more b s))"
proof (cases "dropWhile is_space (sc_in s)")
  case Nil
  let ?s = "s\<lparr>sc_in := []\<rparr>"
  have "consume_whitespace s = ?s" by (simp only: consume_whitespace_def Nil)
  then have "start_rest s = Some (Inr (), ?s)" by (simp add: start_rest_def scanner_peek_def)
  moreover have "start_rest (more b s) = start_rest (more b ?s)"
    using Nil by (simp add: start_rest_def consume_whitespace_def more_def dropWhile_append)
  moreover have "\<dots> = execute_at_most_one_token (more b ?s)"
    using execute_start_step [of "more b ?s"] assms by simp
  ultimately show ?thesis by (simp add: goes_on_stop)
next
  case (Cons c cs)
  have "\<not> (\<forall>x\<in>set (sc_in s). is_space x)" using Cons by (simp add: dropWhile_eq_Nil_conv [symmetric] del: dropWhile_eq_Nil_conv)
  with Cons have dw: "dropWhile is_space (sc_in s @ b) = c # cs @ b" by (auto simp: dropWhile_append1)
  have "start_rest s = start_char c (s\<lparr>sc_in := c # cs\<rparr>)"
    using Cons by (simp add: start_rest_def consume_whitespace_def scanner_peek_def)
  moreover have "start_rest (more b s) = start_char c (more b (s\<lparr>sc_in := c # cs\<rparr>))"
    by (simp add: start_rest_def consume_whitespace_def scanner_peek_def dw) (simp add: more_def)
  ultimately show ?thesis by (simp add: start_char_more goes_on_same)
qed

lemma start_goes_on:
  assumes s: "sc_state s = SS_START" "sc_in s \<noteq> []" and b: "b \<noteq> []"
  shows "goes_on b (execute_at_most_one_token_start s) (execute_at_most_one_token_start (more b s))"
proof -
  obtain c cs where i: "sc_in s = c # cs" using s(2) by (cases "sc_in s") auto
  let ?s = "s\<lparr>sc_prev := None\<rparr>"
  show ?thesis
  proof (cases "Option.bind (sc_prev s) second_of")
    case None
    with start_rest_goes_on [of ?s b] s b i show ?thesis by (simp add: execute_at_most_one_token_start_def scanner_peek_def)
  next
    case (Some x)
    obtain c2 two one where x: "x = (c2, two, one)" by (cases x)
    consider "c = c2" | "c \<noteq> c2" "one = None" | t where "c \<noteq> c2" "one = Some t" by (cases one) auto
    then show ?thesis
    proof cases
      case 1
      let ?s1 = "?s\<lparr>sc_in := cs\<rparr>"
      have "execute_at_most_one_token_start s = sc_wrap (scanner_process_token ?s1 (quick_tok two)) (\<lambda>_ s. Some (Inr (), s))"
        using Some x s i 1 by (simp add: execute_at_most_one_token_start_def scanner_peek_def scanner_advance_expect_def)
      moreover have "execute_at_most_one_token_start (more b s) =
          sc_wrap (scanner_process_token (more b ?s1) (quick_tok two)) (\<lambda>_ s. Some (Inr (), s))"
        using Some x s i 1 by (simp add: execute_at_most_one_token_start_def scanner_peek_def scanner_advance_expect_def) (simp add: more_def)
      ultimately show ?thesis
        by (simp only: more_token) (intro goes_on_same more_wrap, simp)
    next
      case 2
      with more_fail [of ERR_SYNTAX b ?s] Some x s i show ?thesis
        by (simp add: execute_at_most_one_token_start_def scanner_peek_def goes_on_same)
    next
      case (3 t)
      let ?s1 = "?s\<lparr>sc_out := sc_out s @ [quick_tok t], sc_room := sc_room s - 1\<rparr>"
      have "sc_wrap (scanner_process_token ?s (quick_tok t)) (\<lambda>_ s. start_rest s) = (if sc_room s > 0 then start_rest ?s1 else None)"
        using s(1) by (cases s) (simp add: scanner_process_token_def write_token_def sc_wrap_def)
      moreover have "sc_wrap (scanner_process_token (more b ?s) (quick_tok t)) (\<lambda>_ s. start_rest s) =
          (if sc_room s > 0 then start_rest (more b ?s1) else None)"
        using s(1) by (cases s) (simp add: scanner_process_token_def write_token_def sc_wrap_def more_def)
      ultimately show ?thesis using 3 Some x s i b start_rest_goes_on [of ?s1 b]
        by (simp add: execute_at_most_one_token_start_def scanner_peek_def goes_on_def)
    qed
  qed
qed

lemma err_loop_more: "sc_in s \<noteq> [] \<Longrightarrow> err_loop s = Some s' \<Longrightarrow> err_loop (more b s) = Some (more b s')"
  using err_loop_stuck [of s "List.hd (sc_in s)"] more_advance [of s b]
  by (subst err_loop.simps, subst (asm) err_loop.simps)
     (auto simp: scanner_peek_def scanner_advance_expect_def split: list.splits if_splits)

lemma execute_one_goes_on:
  assumes "sc_in s \<noteq> []" and "b \<noteq> []"
  shows "goes_on b (execute_at_most_one_token s) (execute_at_most_one_token (more b s))"
proof (cases "sc_state s")
  case SS_START
  with start_goes_on [OF _ assms] show ?thesis by (simp add: execute_at_most_one_token_def)
next
  case SS_IDENT
  with ident_goes_on [of s "sc_in s" b] show ?thesis by (simp add: execute_at_most_one_token_def execute_at_most_one_token_ident_def)
next
  case SS_STRING
  with string_goes_on [of s "sc_in s" b] show ?thesis by (simp add: execute_at_most_one_token_def execute_at_most_one_token_string_def)
next
  case SS_NUMBER
  with number_goes_on [of s "sc_in s" b] show ?thesis by (simp add: execute_at_most_one_token_def execute_at_most_one_token_number_def)
next
  case SS_DECIMAL
  with dec_goes_on [of s "sc_in s" b] show ?thesis by (simp add: execute_at_most_one_token_def execute_at_most_one_token_dec_def)
next
  case SS_ERR
  with err_loop_more [OF assms(1)] show ?thesis
    by (auto simp: execute_at_most_one_token_def execute_at_most_one_token_err_def goes_on_def bind_eq_Some_conv)
qed

lemma execute_empty: "sc_in s = [] \<Longrightarrow> scanner_execute s = Some s"
  by (subst scanner_execute.simps) simp

lemma execute_more:
  assumes "scanner_execute s = Some s'" and "b \<noteq> []"
  shows "(sc_in s = [] \<longrightarrow> s' = s) \<and> (sc_room s' > 0 \<longrightarrow> scanner_execute (more b s) = scanner_execute (more b s'))"
  using assms(1)
proof (rule scanner_execute.raw_induct [rotated])
  fix f s s'
  assume IH: "\<And>s s'. f s = Some s' \<Longrightarrow> (sc_in s = [] \<longrightarrow> s' = s) \<and> (sc_room s' > 0 \<longrightarrow> scanner_execute (more b s) = scanner_execute (more b s'))"
    and run: "(if sc_room s = 0 \<or> sc_in s = [] then Some s
      else do {
        (r, s) \<leftarrow> execute_at_most_one_token s;
        s \<leftarrow> (case r of Inl e \<Rightarrow> scanner_process_error e s | Inr _ \<Rightarrow> Some s);
        f s }) = Some s'"
  show "(sc_in s = [] \<longrightarrow> s' = s) \<and> (sc_room s' > 0 \<longrightarrow> scanner_execute (more b s) = scanner_execute (more b s'))"
  proof (cases "sc_room s = 0 \<or> sc_in s = []")
    case True
    with run show ?thesis by auto
  next
    case False
    with run obtain r s1 s2 where st: "execute_at_most_one_token s = Some (r, s1)"
      "(case r of Inl e \<Rightarrow> scanner_process_error e s1 | Inr _ \<Rightarrow> Some s1) = Some s2" "f s2 = Some s'"
      by (auto simp: bind_eq_Some_conv)
    have step: "scanner_execute (more b s) = (case execute_at_most_one_token (more b s) of None \<Rightarrow> None
       | Some (r, s) \<Rightarrow> do { s \<leftarrow> (case r of Inl e \<Rightarrow> scanner_process_error e s | Inr _ \<Rightarrow> Some s); scanner_execute s })"
      using False by (subst scanner_execute.simps) (simp split: option.splits)
    from execute_one_goes_on [of s b] False assms(2) st(1)
    consider "execute_at_most_one_token (more b s) = Some (r, more b s1)"
      | "r = Inr ()" "sc_in s1 = []" "execute_at_most_one_token (more b s) = execute_at_most_one_token (more b s1)"
      by (auto simp: goes_on_def)
    then show ?thesis
    proof cases
      case 1
      with step st(2) have "scanner_execute (more b s) = scanner_execute (more b s2)"
        by (cases r) (simp_all add: more_error)
      with IH [OF st(3)] False show ?thesis by simp
    next
      case 2
      then have "s2 = s1" "s' = s1" using st(2) IH [OF st(3)] by auto
      moreover have "scanner_execute (more b s1) = scanner_execute (more b s)" if "sc_room s1 > 0"
        using that assms(2) 2(3) unfolding step by (subst scanner_execute.simps) (simp split: option.splits)
      ultimately show ?thesis using False by auto
    qed
  qed
qed

text \<open>C32: the scanner can be fed its input in pieces, cut anywhere (inside a name, a number, a string or an operator of two
  characters). When it has taken a first piece and the output still has room, giving it the rest then leads to exactly the
  result of scanning the whole at once: the same tokens, the same errors, and no result in the one case when there is none in
  the other.\<close>

theorem scanner_pieces:
  assumes "scanner_execute (s\<lparr>sc_in := a\<rparr>) = Some s'" and "sc_room s' > 0" and "b \<noteq> []"
  shows "scanner_execute (s\<lparr>sc_in := a @ b\<rparr>) = scanner_execute (s'\<lparr>sc_in := sc_in s' @ b\<rparr>)"
  using execute_more [OF assms(1,3)] assms(2) by (simp add: more_def)

theorem scanner_pieces_witness:
  "\<exists>s'. scanner_execute (scan_sample\<lparr>sc_in := chars ''cre'' @ chars ''ate x''\<rparr>) = scanner_execute (s'\<lparr>sc_in := sc_in s' @ chars ''ate x''\<rparr>) \<and>
     sc_state s' = SS_IDENT \<and> sc_str s' = chars ''cre'' \<and> sc_out s' = []"
proof -
  let ?s' = "scan_sample\<lparr>sc_state := SS_IDENT, sc_str := chars ''cre'', sc_in := []\<rparr>"
  have "scanner_execute (scan_sample\<lparr>sc_in := chars ''cre''\<rparr>) = Some ?s'"
    using execute_step [of "scan_sample\<lparr>sc_in := chars ''cre''\<rparr>" "scan_sample\<lparr>sc_state := SS_IDENT, sc_str := chars ''c'', sc_in := chars ''re''\<rparr>"]
      execute_step [of "scan_sample\<lparr>sc_state := SS_IDENT, sc_str := chars ''c'', sc_in := chars ''re''\<rparr>" ?s'] execute_empty [of ?s']
    by (simp add: scan_sample_def scanner_init_def chars_def execute_at_most_one_token_def execute_at_most_one_token_start_def
         execute_at_most_one_token_ident_def scanner_peek_def start_rest_def consume_whitespace_def is_space_def start_char_def single_of_def second_of_def
         is_alpha_def is_alpha_num_def scanner_cpy_advance_expect_def scanner_push_char_def sc_wrap_def)
  from scanner_pieces [OF this, of "chars ''ate x''"]
  show ?thesis by (intro exI [of _ ?s']) (simp add: scan_sample_def scanner_init_def chars_def)
qed

end
