(* ===== verification/Expression.thy ===== *)
theory Expression
  imports Literal Scanner
begin

text \<open>
  \<^verbatim>\<open>libs/nscompiler/expression.c\<close> and \<^verbatim>\<open>expression.h\<close>: expressions and their evaluation.

  Strings, arrays and objects that an operation makes come from the allocator that is handed through.
\<close>

section \<open>Expressions\<close>

datatype expr =
    ET_VALUE literal
  | ET_UNARY token_t expr
  | ET_BINARY expr token_t expr
  | ET_GROUPING expr

text \<open>The constructors that the grammar uses check their operator.\<close>

definition create_literal_expr :: "literal \<Rightarrow> expr" where
  "create_literal_expr l = ET_VALUE l"

definition create_grouping_expr :: "expr \<Rightarrow> expr" where
  "create_grouping_expr e = ET_GROUPING e"

definition unary_assert :: "token_t \<Rightarrow> unit option" where
  "unary_assert op = ASSERT (op = TT_MINUS \<or> op = TT_BANG)"

definition create_unary_expr :: "expr \<Rightarrow> token_t \<Rightarrow> expr option" where
  "create_unary_expr e op = do { unary_assert op; Some (ET_UNARY op e) }"

definition binary_assert :: "token_t \<Rightarrow> unit option" where
  "binary_assert op = ASSERT (op \<in> {TT_EQUAL_EQUAL, TT_BANG_EQUAL, TT_LESS, TT_LESS_EQUAL, TT_GREATER, TT_GREATER_EQUAL,
     TT_PLUS, TT_MINUS, TT_STAR, TT_SLASH})"

definition create_binary_expr :: "expr \<Rightarrow> token_t \<Rightarrow> expr \<Rightarrow> expr option" where
  "create_binary_expr left op right = do { binary_assert op; Some (ET_BINARY left op right) }"

section \<open>Evaluation\<close>





section \<open>Kinds\<close>

text \<open>The kind of the value of an expression, found without evaluating it; none when an operator is applied to kinds it is
  not for.\<close>

datatype kind = K_OBJECT | K_ARRAY | K_STRING | K_INTEGER | K_DECIMAL | K_COMPLEX | K_BOOL

primrec kind_of :: "literal \<Rightarrow> kind" where
  "kind_of (LT_OBJECT _ _ _) = K_OBJECT"
| "kind_of (LT_ARRAY _ _) = K_ARRAY"
| "kind_of (LT_STRING _) = K_STRING"
| "kind_of (LT_INTEGER _) = K_INTEGER"
| "kind_of (LT_DECIMAL _) = K_DECIMAL"
| "kind_of (LT_COMPLEX _) = K_COMPLEX"
| "kind_of (LT_BOOL _) = K_BOOL"










text \<open>A result agrees with a kind: a value of it, or one of the errors of an operation on values of the right kinds.\<close>

definition agrees :: "kind option \<Rightarrow> literal res \<Rightarrow> bool" where
  "agrees k r \<longleftrightarrow>
     (case k of
        Some k \<Rightarrow> (case r of Inr v \<Rightarrow> kind_of v = k | Inl e \<Rightarrow> e = ERR_NOMEM \<or> e = ERR_INTERP)
      | None \<Rightarrow> isl r)"

lemma agrees_simps [simp]:
  "agrees (Some k) (Inr v) \<longleftrightarrow> kind_of v = k"
  "agrees (Some k) (Inl e) \<longleftrightarrow> e = ERR_NOMEM \<or> e = ERR_INTERP"
  "agrees None (Inl e)" "\<not> agrees None (Inr v)"
  "agrees k' (Inl ERR_NOMEM)" "agrees k' (Inl ERR_INTERP)"
  by (simp_all add: agrees_def split: option.splits)















section \<open>Evaluation that returns\<close>











end
