(* ===== verification/Literal_Type.thy ===== *)
theory Literal_Type
  imports Literal
begin

text \<open>
  \<^verbatim>\<open>libs/nscompiler/literal_validate_type.c\<close>: whether a literal can be stored in a variable of a type.

  The flag \<open>islist\<close> is a pointer that may be null, here \<open>None\<close>; the recursive calls pass null. A constant
  of a bound is converted to a floating-point number by \<open>n_f32_of_i32\<close>.
\<close>

section \<open>Ranges\<close>

definition string_fits_fixed :: "str \<Rightarrow> type_t \<Rightarrow> bool" where
  "string_fits_fixed s expected =
     (case expected of
        T_SARRAY dims t \<Rightarrow>
          if length dims \<noteq> 1 then False
          else (case t of T_PRIM p \<Rightarrow> (p = U8 \<or> p = I8) \<and> length s \<le> unat (dims ! 0) | _ \<Rightarrow> False)
      | _ \<Rightarrow> False)"

definition integer_in_range :: "int \<Rightarrow> prim_t \<Rightarrow> bool option" where
  "integer_in_range i p = do {
     ASSERT (prim_is_int p \<or> prim_is_complex p \<or> prim_is_float p);
     Some (case p of
        I8 \<Rightarrow> -128 \<le> i \<and> i \<le> 127 | CI16 \<Rightarrow> -128 \<le> i \<and> i \<le> 127
      | U8 \<Rightarrow> 0 \<le> i \<and> i \<le> 255 | CU16 \<Rightarrow> 0 \<le> i \<and> i \<le> 255
      | I16 \<Rightarrow> -32768 \<le> i \<and> i \<le> 32767 | CI32 \<Rightarrow> -32768 \<le> i \<and> i \<le> 32767
      | U16 \<Rightarrow> 0 \<le> i \<and> i \<le> 65535 | CU32 \<Rightarrow> 0 \<le> i \<and> i \<le> 65535
      | U32 \<Rightarrow> 0 \<le> i | CU64 \<Rightarrow> 0 \<le> i | U64 \<Rightarrow> 0 \<le> i | CU128 \<Rightarrow> 0 \<le> i
      | F16 \<Rightarrow> -65504 \<le> i \<and> i \<le> 65504 | CF32 \<Rightarrow> -65504 \<le> i \<and> i \<le> 65504
      | _ \<Rightarrow> True) }"

definition f32_between :: "num_ops \<Rightarrow> int \<Rightarrow> int \<Rightarrow> f32 \<Rightarrow> bool" where
  "f32_between n lo hi d \<longleftrightarrow> n_f32_rel n R_GE d (n_f32_of_i32 n lo) \<and> n_f32_rel n R_LE d (n_f32_of_i32 n hi)"

abbreviation F32_MAX :: int where "F32_MAX \<equiv> (2 ^ 24 - 1) * 2 ^ 104"

definition decimal_in_range :: "num_ops \<Rightarrow> f32 \<Rightarrow> prim_t \<Rightarrow> bool option" where
  "decimal_in_range n d p = do {
     ASSERT (prim_is_int p \<or> prim_is_complex p \<or> prim_is_float p);
     Some (case p of
        I8 \<Rightarrow> f32_between n (-128) 127 d | CI16 \<Rightarrow> f32_between n (-128) 127 d
      | U8 \<Rightarrow> f32_between n 0 255 d | CU16 \<Rightarrow> f32_between n 0 255 d
      | I16 \<Rightarrow> f32_between n (-32768) 32767 d | CI32 \<Rightarrow> f32_between n (-32768) 32767 d
      | U16 \<Rightarrow> f32_between n 0 65535 d | CU32 \<Rightarrow> f32_between n 0 65535 d
      | I32 \<Rightarrow> f32_between n (- (2 ^ 31)) (2 ^ 31 - 1) d | CI64 \<Rightarrow> f32_between n (- (2 ^ 31)) (2 ^ 31 - 1) d
      | U32 \<Rightarrow> f32_between n 0 (2 ^ 32 - 1) d | CU64 \<Rightarrow> f32_between n 0 (2 ^ 32 - 1) d
      | I64 \<Rightarrow> f32_between n (- (2 ^ 63)) (2 ^ 63 - 1) d | CI128 \<Rightarrow> f32_between n (- (2 ^ 63)) (2 ^ 63 - 1) d
      | U64 \<Rightarrow> f32_between n 0 (2 ^ 64 - 1) d | CU128 \<Rightarrow> f32_between n 0 (2 ^ 64 - 1) d
      | F16 \<Rightarrow> f32_between n (-65504) 65504 d | CF32 \<Rightarrow> f32_between n (-65504) 65504 d
      | _ \<Rightarrow> True) }"

definition cmplx_in_range :: "num_ops \<Rightarrow> cf64 \<Rightarrow> prim_t \<Rightarrow> bool option" where
  "cmplx_in_range n c p = do {
     ASSERT (prim_is_complex p);
     let both = (\<lambda>lo hi. f32_between n lo hi (fst c) \<and> f32_between n lo hi (snd c));
     case p of
       CI16 \<Rightarrow> Some (both (-128) 127)
     | CU16 \<Rightarrow> Some (both 0 255)
     | CI32 \<Rightarrow> Some (both (-32768) 32767)
     | CU32 \<Rightarrow> Some (both 0 65535)
     | CI64 \<Rightarrow> Some (both (- (2 ^ 31)) (2 ^ 31 - 1))
     | CU64 \<Rightarrow> Some (both 0 (2 ^ 32 - 1))
     | CI128 \<Rightarrow> Some (both (- F32_MAX) F32_MAX)
     | CU128 \<Rightarrow> Some (both 0 F32_MAX)
     | CF32 \<Rightarrow> Some (both (-65504) 65504)
     | CF64 \<Rightarrow> Some True
     | CF128 \<Rightarrow> Some True
     | CF256 \<Rightarrow> Some True
     | _ \<Rightarrow> None }"

section \<open>Validation\<close>

definition res_if :: "bool \<Rightarrow> err_t \<Rightarrow> unit res" where
  "res_if b e = (if b then Inr () else Inl e)"

definition validate_prim :: "num_ops \<Rightarrow> literal \<Rightarrow> type_t \<Rightarrow> unit res option" where
  "validate_prim n lit expected =
     (case expected of
        T_PRIM p \<Rightarrow>
          (case lit of
             LT_INTEGER i \<Rightarrow> do { b \<leftarrow> integer_in_range i p; Some (res_if b ERR_ARITH) }
           | LT_DECIMAL d \<Rightarrow> do { b \<leftarrow> decimal_in_range n d p; Some (res_if b ERR_ARITH) }
           | LT_COMPLEX c \<Rightarrow>
               if \<not> prim_is_complex p then Some (Inl ERR_SYNTAX)
               else do { b \<leftarrow> cmplx_in_range n c p; Some (res_if b ERR_ARITH) }
           | LT_BOOL b \<Rightarrow> Some (res_if (p = U8 \<or> p = I8) ERR_SYNTAX)
           | _ \<Rightarrow> None)
      | _ \<Rightarrow> Some (Inl ERR_SYNTAX))"

function (sequential) literal_validate_type :: "num_ops \<Rightarrow> bool option \<Rightarrow> literal \<Rightarrow> type_t \<Rightarrow> (unit res \<times> bool option) option"
and validate_object :: "num_ops \<Rightarrow> str list \<Rightarrow> literal list \<Rightarrow> nat \<Rightarrow> type_t \<Rightarrow> unit res option"
and validate_arr :: "num_ops \<Rightarrow> bool option \<Rightarrow> literal list \<Rightarrow> nat \<Rightarrow> type_t \<Rightarrow> (unit res \<times> bool option) option"
and struct_loop :: "num_ops \<Rightarrow> str list \<Rightarrow> literal list \<Rightarrow> nat \<Rightarrow> str list \<Rightarrow> type_t list \<Rightarrow> unit res option"
and key_loop :: "num_ops \<Rightarrow> str \<Rightarrow> type_t \<Rightarrow> bool \<Rightarrow> nat \<Rightarrow> str list \<Rightarrow> literal list \<Rightarrow> bool res option"
and union_loop :: "num_ops \<Rightarrow> str list \<Rightarrow> literal list \<Rightarrow> str list \<Rightarrow> type_t list \<Rightarrow> unit res option"
and element_loop :: "num_ops \<Rightarrow> nat \<Rightarrow> literal list \<Rightarrow> type_t \<Rightarrow> unit res option" where
  "literal_validate_type n il (LT_STRING s) expected =
     Some (if string_fits_fixed s expected then Inr () else Inl ERR_SYNTAX, il)"
| "literal_validate_type n il (LT_OBJECT ks ls len) expected = do { r \<leftarrow> validate_object n ks ls len expected; Some (r, il) }"
| "literal_validate_type n il (LT_ARRAY ls len) expected = validate_arr n il ls len expected"
| "literal_validate_type n il lit expected = do { r \<leftarrow> validate_prim n lit expected; Some (r, il) }"
| "validate_object n ks ls len expected =
     (case expected of
        T_STRUCT keys types \<Rightarrow> if len \<noteq> length keys then Some (Inl ERR_SYNTAX) else struct_loop n ks ls len keys types
      | T_UNION keys types \<Rightarrow> if len \<noteq> 1 then Some (Inl ERR_SYNTAX) else union_loop n ks ls keys types
      | _ \<Rightarrow> Some (Inl ERR_SYNTAX))"
| "struct_loop n ks ls len [] types = Some (Inr ())"
| "struct_loop n ks ls len (ekey # keys) (t # types) = do {
     r \<leftarrow> key_loop n ekey t False len ks ls;
     case r of
       Inl e \<Rightarrow> Some (Inl e)
     | Inr matched \<Rightarrow> if \<not> matched then Some (Inl ERR_SYNTAX) else struct_loop n ks ls len keys types }"
| "struct_loop n ks ls len (ekey # keys) [] = None"
| "key_loop n ekey t matched 0 ks ls = Some (Inr matched)"
| "key_loop n ekey t matched (Suc j) (k # ks) (l # ls) =
     (if \<not> string_equal ekey k then key_loop n ekey t matched j ks ls
      else do {
        (r, _) \<leftarrow> literal_validate_type n None l t;
        case r of Inl e \<Rightarrow> Some (Inl e) | Inr _ \<Rightarrow> key_loop n ekey t True j ks ls })"
| "key_loop n ekey t matched (Suc j) ks ls = None"
| "union_loop n (k # ks) (l # ls) (ekey # keys) (t # types) =
     (if string_equal ekey k then do { (r, _) \<leftarrow> literal_validate_type n None l t; Some r }
      else union_loop n (k # ks) (l # ls) keys types)"
| "union_loop n ks ls [] types = Some (Inl ERR_SYNTAX)"
| "union_loop n ks ls keys types = None"
| "validate_arr n il ls len expected =
     (case expected of
        T_SARRAY dims t \<Rightarrow>
          (case dims of
             [] \<Rightarrow> None
           | d # _ \<Rightarrow> if len \<noteq> unat d then Some (Inl ERR_SYNTAX, il)
                      else do { r \<leftarrow> element_loop n len ls t; Some (r, il) })
      | _ \<Rightarrow>
          if il = Some False then do { r \<leftarrow> element_loop n len ls expected; Some (r, Some True) }
          else Some (Inl ERR_SYNTAX, il))"
| "element_loop n 0 ls t = Some (Inr ())"
| "element_loop n (Suc i) (l # ls) t = do {
     (r, _) \<leftarrow> literal_validate_type n None l t;
     case r of Inl e \<Rightarrow> Some (Inl e) | Inr _ \<Rightarrow> element_loop n i ls t }"
| "element_loop n (Suc i) [] t = None"
  by pat_completeness auto

termination
  by (relation "measures [
      (\<lambda>x. case x of
         Inl (Inl (n, il, l, t)) \<Rightarrow> size l
       | Inl (Inr (Inl (n, ks, ls, len, t))) \<Rightarrow> size_list size ls
       | Inl (Inr (Inr (n, il, ls, len, t))) \<Rightarrow> size_list size ls
       | Inr (Inl (Inl (n, ks, ls, len, keys, types))) \<Rightarrow> size_list size ls
       | Inr (Inl (Inr (n, ekey, t, m, j, ks, ls))) \<Rightarrow> size_list size ls
       | Inr (Inr (Inl (n, ks, ls, keys, types))) \<Rightarrow> size_list size ls
       | Inr (Inr (Inr (n, i, ls, t))) \<Rightarrow> size_list size ls),
      (\<lambda>x. case x of
         Inl (Inl (n, il, l, t)) \<Rightarrow> 3
       | Inl (Inr (Inl (n, ks, ls, len, t))) \<Rightarrow> 2
       | Inl (Inr (Inr (n, il, ls, len, t))) \<Rightarrow> 2
       | Inr (Inl (Inl (n, ks, ls, len, keys, types))) \<Rightarrow> 1
       | Inr (Inr (Inl (n, ks, ls, keys, types))) \<Rightarrow> 1
       | _ \<Rightarrow> 0),
      (\<lambda>x. case x of
         Inr (Inl (Inl (n, ks, ls, len, keys, types))) \<Rightarrow> length keys
       | Inr (Inl (Inr (n, ekey, t, m, j, ks, ls))) \<Rightarrow> j
       | Inr (Inr (Inl (n, ks, ls, keys, types))) \<Rightarrow> length keys
       | Inr (Inr (Inr (n, i, ls, t))) \<Rightarrow> i
       | _ \<Rightarrow> 0)]") auto

section \<open>What a type admits\<close>

text \<open>The numbers of a primitive type, from the width of a number or of each of the two parts of a complex one: integers of that width,
  with or without a sign, 16-bit floating-point numbers up to the largest of them, and any number for the wider floating-point types. A
  number is compared with these bounds as what it is, an integer exactly and a decimal as a floating-point number.\<close>

definition part_bits :: "prim_t \<Rightarrow> nat" where
  "part_bits p =
     (if p \<in> {U8, I8, CI16, CU16} then 8
      else if p \<in> {U16, I16, F16, CI32, CU32, CF32} then 16
      else if p \<in> {U32, I32, F32, CI64, CU64, CF64} then 32
      else if p \<in> {U64, I64, F64, CI128, CU128, CF128} then 64
      else 128)"

definition prim_bounds :: "prim_t \<Rightarrow> (int \<times> int) option" where
  "prim_bounds p =
     (if p \<in> {I8, I16, I32, I64, CI16, CI32, CI64, CI128} then Some (- (2 ^ (part_bits p - 1)), 2 ^ (part_bits p - 1) - 1)
      else if p \<in> {U8, U16, U32, U64, CU16, CU32, CU64, CU128} then Some (0, 2 ^ part_bits p - 1)
      else if part_bits p = 16 then Some (- ((2 ^ 11 - 1) * 2 ^ 5), (2 ^ 11 - 1) * 2 ^ 5)
      else None)"

definition int_admitted :: "prim_t \<Rightarrow> int \<Rightarrow> bool" where
  "int_admitted p i \<longleftrightarrow> (\<forall>lo hi. prim_bounds p = Some (lo, hi) \<longrightarrow> lo \<le> i \<and> i \<le> hi)"

definition f32_admitted :: "num_ops \<Rightarrow> (int \<times> int) option \<Rightarrow> f32 \<Rightarrow> bool" where
  "f32_admitted n b d \<longleftrightarrow> (\<forall>lo hi. b = Some (lo, hi) \<longrightarrow> n_f32_rel n R_GE d (n_f32_of_i32 n lo) \<and> n_f32_rel n R_LE d (n_f32_of_i32 n hi))"

text \<open>The parts of a literal that is a complex number need only be finite for the two types with 64-bit integer parts.\<close>

definition cmplx_bounds :: "prim_t \<Rightarrow> (int \<times> int) option" where
  "cmplx_bounds p = (if p = CI128 then Some (- F32_MAX, F32_MAX) else if p = CU128 then Some (0, F32_MAX) else prim_bounds p)"

definition complex_prims :: "prim_t set" where
  "complex_prims = {CF32, CF64, CF128, CF256, CI16, CI32, CI64, CI128, CU16, CU32, CU64, CU128}"

inductive has_type :: "num_ops \<Rightarrow> literal \<Rightarrow> type_t \<Rightarrow> bool" for n where
  integer: "int_admitted p i \<Longrightarrow> has_type n (LT_INTEGER i) (T_PRIM p)"
| decimal: "f32_admitted n (prim_bounds p) d \<Longrightarrow> has_type n (LT_DECIMAL d) (T_PRIM p)"
| complex: "p \<in> complex_prims \<Longrightarrow> f32_admitted n (cmplx_bounds p) re \<Longrightarrow> f32_admitted n (cmplx_bounds p) im \<Longrightarrow>
    has_type n (LT_COMPLEX (re, im)) (T_PRIM p)"
| truth: "p = U8 \<or> p = I8 \<Longrightarrow> has_type n (LT_BOOL b) (T_PRIM p)"
| chars: "p = U8 \<or> p = I8 \<Longrightarrow> length s \<le> unat d \<Longrightarrow> has_type n (LT_STRING s) (T_SARRAY [d] (T_PRIM p))"
| struct: "set ks = set keys \<Longrightarrow> length ks = length keys \<Longrightarrow>
    (\<forall>key t l. (key, t) \<in> set (zip keys types) \<longrightarrow> (key, l) \<in> set (zip ks ls) \<longrightarrow> has_type n l t) \<Longrightarrow>
    has_type n (LT_OBJECT ks ls len) (T_STRUCT keys types)"
| union: "(key, t) \<in> set (zip keys types) \<Longrightarrow> has_type n l t \<Longrightarrow> has_type n (LT_OBJECT [key] [l] 1) (T_UNION keys types)"
| array: "length ls = unat d \<Longrightarrow> (\<forall>l \<in> set ls. has_type n l t) \<Longrightarrow> has_type n (LT_ARRAY ls len) (T_SARRAY [d] t)"

inductive_simps has_type_string: "has_type n (LT_STRING s) t"





lemma complex_prims: "prim_is_complex p \<longleftrightarrow> p \<in> complex_prims"
  by (cases p) (simp_all add: complex_prims_def prim_is_complex_def prim_code_def prims_def)


definition decides :: "'a res option \<Rightarrow> 'a \<Rightarrow> bool \<Rightarrow> bool" where
  \<comment> \<open>a run ends, with the value exactly when the statement holds\<close>
  "decides m x P \<longleftrightarrow> (\<exists>r. m = Some r \<and> (P \<longrightarrow> r = Inr x) \<and> (\<not> P \<longrightarrow> isl r))"


lemma decides_pair [simp]: "decides (map_option fst (m \<bind> (\<lambda>r. Some (r, s)))) x P \<longleftrightarrow> decides m x P"
  by (cases m) simp_all





lemma has_type_text [simp]: "has_type n (LT_STRING s) t \<longleftrightarrow> string_fits_fixed s t"
  by (cases t) (auto simp: has_type_string string_fits_fixed_def validate_prim_def length_Suc_conv split: type_t.splits)





section \<open>Arrays of more than one dimension\<close>

lemma element_loop_replicate:
  "literal_validate_type n None x t = Some (r, s) \<Longrightarrow>
   element_loop n i (replicate i x) t = Some (if i = 0 then Inr () else r)"
  by (induction i) (auto split: sum.split)

text \<open>The rank of an array is not looked at. A literal that gives an array of two dimensions row by row is
  refused, while a flat list with one element for each row is accepted, although the type holds a whole row for each.\<close>

lemma rank_two_literal_refused:
  assumes "rows > 0" and "rows = unat d1"
  shows "literal_validate_type n None (LT_ARRAY (replicate rows (LT_ARRAY row len)) rows) (T_SARRAY [d1, d2] (T_PRIM p)) =
    Some (Inl ERR_SYNTAX, None)"
  using assms element_loop_replicate [of n "LT_ARRAY row len" "T_PRIM p"] by simp

lemma rank_two_flat_accepted:
  assumes "rows = unat d1" and "-128 \<le> i" and "i \<le> 127"
  shows "literal_validate_type n None (LT_ARRAY (replicate rows (LT_INTEGER i)) rows) (T_SARRAY [d1, d2] (T_PRIM I8)) = Some (Inr (), None)"
  using assms element_loop_replicate [of n "LT_INTEGER i" "T_PRIM I8"]
  by (simp add: validate_prim_def integer_in_range_def res_if_def prim_is_int_def prim_code_def prims_def)

end
