(* ===== verification/Latch.thy ===== *)
theory Latch
  imports NS_Prelude
begin

text \<open>
  \<^verbatim>\<open>libs/nscore/spx_latch.c\<close>, the shared-exclusive latch of the pager's structures, and \<^verbatim>\<open>latch.c\<close>, the spin lock.

  The latch is one atomic word: bit 31 says that a writer waits or holds it, the other bits count the readers, and
  all ones is the exclusive hold. Every load, compare-exchange and store is one step; between two steps of a thread
  the others may run, so the value a thread has loaded is part of its position in the code. A weak
  compare-exchange may fail though the value is the expected one: the argument \<open>spurious\<close>. A debug build, the one that has
  assertions, counts the rounds of every loop and fails an assertion, \<open>Watchdog\<close>, when they are more than a threshold: the
  argument \<open>dbg\<close> is that threshold, or \<open>None\<close> in a build without. An assertion that fails ends the program.
\<close>

unbundle bit_operations_syntax

section \<open>The word\<close>

type_synonym latch_word = "64 word"

definition PENDING_BIT :: latch_word where
  "PENDING_BIT = push_bit 31 1"

definition COUNT_MASK :: latch_word where
  "COUNT_MASK = NOT PENDING_BIT"

definition is_X_set :: "latch_word \<Rightarrow> bool" where
  "is_X_set val \<longleftrightarrow> val AND COUNT_MASK = COUNT_MASK"

definition no_S_left :: "latch_word \<Rightarrow> bool" where
  "no_S_left val \<longleftrightarrow> val AND COUNT_MASK = 0"

definition is_P_set :: "latch_word \<Rightarrow> bool" where
  "is_P_set val \<longleftrightarrow> val AND PENDING_BIT \<noteq> 0"

definition X_lock :: latch_word where
  "X_lock = PENDING_BIT OR COUNT_MASK"

definition P_lock :: "latch_word \<Rightarrow> latch_word" where
  "P_lock val = val OR PENDING_BIT"

definition S_lock :: "latch_word \<Rightarrow> latch_word" where
  "S_lock val = val + 1"

section \<open>The operations, step by step\<close>

text \<open>Where a thread is: outside, before a load, between the load of a value and the compare-exchange with it, or
  holding the latch. In a loop it also has the number of rounds counted so far. \<open>Watchdog\<close> is the failed assertion
  \<^verbatim>\<open>Deadlock detected\<close>, \<open>Failed_assert\<close> any other.\<close>

datatype latch_pc =
    Outside
  | S_load nat | S_cas nat latch_word | Has_S
  | X_load nat | X_cas nat latch_word | Drain_load nat | Drain_cas nat latch_word | Has_X
  | Up_load nat | Up_cas nat latch_word
  | Failed_assert | Watchdog

definition DEADLOCK_THRESH :: nat where
  "DEADLOCK_THRESH = 1000000000"

definition count_round :: "nat option \<Rightarrow> nat \<Rightarrow> (nat \<Rightarrow> latch_pc) \<Rightarrow> latch_pc" where
  \<comment> \<open>the start of a round of a loop\<close>
  "count_round dbg k body =
     (case dbg of
        None \<Rightarrow> body k
      | Some thresh \<Rightarrow> if k > thresh then Watchdog else body (k + 1))"

definition spx_latch_init :: latch_word where
  "spx_latch_init = 0"

definition cas :: "bool \<Rightarrow> latch_word \<Rightarrow> latch_word \<Rightarrow> latch_word \<times> latch_pc \<Rightarrow> latch_pc \<Rightarrow> latch_word \<times> latch_pc" where
  \<comment> \<open>\<^verbatim>\<open>atomic_compare_exchange_weak\<close>: the new word and position, or the old word and the start of the loop\<close>
  "cas spurious wd expected ok again = (if \<not> spurious \<and> wd = expected then ok else (wd, again))"

definition spx_latch_lock_s :: "nat option \<Rightarrow> bool \<Rightarrow> latch_word \<Rightarrow> latch_pc \<Rightarrow> latch_word \<times> latch_pc" where
  "spx_latch_lock_s dbg spurious wd pc =
     (case pc of
        S_load k \<Rightarrow> (wd, count_round dbg k (\<lambda>k. if is_P_set wd \<or> is_X_set wd then S_load k else S_cas k wd))
      | S_cas k expected \<Rightarrow> cas spurious wd expected (S_lock expected, Has_S) (S_load k)
      | _ \<Rightarrow> (wd, pc))"

definition spx_latch_unlock_s :: "latch_word \<Rightarrow> latch_word \<times> latch_pc" where
  "spx_latch_unlock_s wd = (wd - 1, Outside)"

definition drain :: "nat option \<Rightarrow> bool \<Rightarrow> latch_word \<Rightarrow> latch_pc \<Rightarrow> latch_word \<times> latch_pc" where
  \<comment> \<open>the inner loop of both ways to the exclusive hold\<close>
  "drain dbg spurious wd pc =
     (case pc of
        Drain_load k \<Rightarrow> (wd, count_round dbg k (\<lambda>k.
          if \<not> is_P_set wd then Failed_assert else if no_S_left wd then Drain_cas k wd else Drain_load k))
      | Drain_cas k expected \<Rightarrow> cas spurious wd expected (X_lock, Has_X) (Drain_load k)
      | _ \<Rightarrow> (wd, pc))"

definition spx_latch_lock_x :: "nat option \<Rightarrow> bool \<Rightarrow> latch_word \<Rightarrow> latch_pc \<Rightarrow> latch_word \<times> latch_pc" where
  \<comment> \<open>the two loops count apart\<close>
  "spx_latch_lock_x dbg spurious wd pc =
     (case pc of
        X_load k \<Rightarrow> (wd, count_round dbg k (\<lambda>k. if is_P_set wd then X_load k else X_cas k wd))
      | X_cas k expected \<Rightarrow> cas spurious wd expected (P_lock expected, Drain_load 0) (X_load k)
      | _ \<Rightarrow> drain dbg spurious wd pc)"

definition spx_latch_unlock_x :: "latch_word \<Rightarrow> latch_word \<times> latch_pc" where
  "spx_latch_unlock_x wd = (0, Outside)"

definition spx_latch_upgrade_s_x :: "nat option \<Rightarrow> bool \<Rightarrow> latch_word \<Rightarrow> latch_pc \<Rightarrow> latch_word \<times> latch_pc" where
  \<comment> \<open>the two loops share a count\<close>
  "spx_latch_upgrade_s_x dbg spurious wd pc =
     (case pc of
        Up_load k \<Rightarrow>
          (wd, count_round dbg k (\<lambda>k.
             if \<not> (wd AND COUNT_MASK \<ge> 1) then Failed_assert
             else if is_P_set wd then Up_load k else Up_cas k wd))
      | Up_cas k expected \<Rightarrow> cas spurious wd expected (P_lock (expected - 1), Drain_load k) (Up_load k)
      | _ \<Rightarrow> drain dbg spurious wd pc)"

definition spx_latch_downgrade_x_s :: "latch_word \<Rightarrow> latch_word \<times> latch_pc" where
  "spx_latch_downgrade_x_s wd = (1, Has_S)"

text \<open>The spin lock: taken by a compare-exchange of 0 with 1.\<close>

definition latch_lock_try :: "bool \<Rightarrow> latch_word \<Rightarrow> bool \<times> latch_word" where
  "latch_lock_try spurious wd = (if \<not> spurious \<and> wd = 0 then (True, 1) else (False, wd))"

definition latch_unlock :: "latch_word \<Rightarrow> latch_word" where
  "latch_unlock wd = 0"

section \<open>Threads\<close>

text \<open>The steps of one thread: it begins an operation that its position allows, goes on with the one it is in, or
  releases what it holds.\<close>

inductive thread_step :: "nat option \<Rightarrow> latch_word \<Rightarrow> latch_pc \<Rightarrow> latch_word \<Rightarrow> latch_pc \<Rightarrow> bool" for dbg where
  begin_s: "thread_step dbg wd Outside wd (S_load 0)"
| begin_x: "thread_step dbg wd Outside wd (X_load 0)"
| begin_up: "thread_step dbg wd Has_S wd (Up_load 0)"
| lock_s: "pc = S_load k \<or> pc = S_cas k w \<Longrightarrow> spx_latch_lock_s dbg spurious wd pc = (wd', pc') \<Longrightarrow> thread_step dbg wd pc wd' pc'"
| lock_x: "pc = X_load k \<or> pc = X_cas k w \<or> pc = Drain_load k \<or> pc = Drain_cas k w \<Longrightarrow>
    spx_latch_lock_x dbg spurious wd pc = (wd', pc') \<Longrightarrow> thread_step dbg wd pc wd' pc'"
| upgrade: "pc = Up_load k \<or> pc = Up_cas k w \<Longrightarrow> spx_latch_upgrade_s_x dbg spurious wd pc = (wd', pc') \<Longrightarrow> thread_step dbg wd pc wd' pc'"
| unlock_s: "spx_latch_unlock_s wd = (wd', pc') \<Longrightarrow> thread_step dbg wd Has_S wd' pc'"
| unlock_x: "spx_latch_unlock_x wd = (wd', pc') \<Longrightarrow> thread_step dbg wd Has_X wd' pc'"
| downgrade: "spx_latch_downgrade_x_s wd = (wd', pc') \<Longrightarrow> thread_step dbg wd Has_X wd' pc'"

text \<open>A number of threads that share a latch: its word and the position of each. None goes on when an assertion has failed.\<close>

definition aborted :: "nat \<Rightarrow> (nat \<Rightarrow> latch_pc) \<Rightarrow> bool" where
  "aborted n pcs \<longleftrightarrow> (\<exists>i<n. pcs i = Watchdog \<or> pcs i = Failed_assert)"

inductive latch_step :: "nat option \<Rightarrow> nat \<Rightarrow> latch_word \<times> (nat \<Rightarrow> latch_pc) \<Rightarrow> latch_word \<times> (nat \<Rightarrow> latch_pc) \<Rightarrow> bool" for dbg n where
  "i < n \<Longrightarrow> \<not> aborted n pcs \<Longrightarrow> thread_step dbg wd (pcs i) wd' pc' \<Longrightarrow> latch_step dbg n (wd, pcs) (wd', pcs(i := pc'))"

definition latch_start :: "latch_word \<times> (nat \<Rightarrow> latch_pc)" where
  "latch_start = (spx_latch_init, \<lambda>_. Outside)"

definition latch_reachable :: "nat option \<Rightarrow> nat \<Rightarrow> latch_word \<times> (nat \<Rightarrow> latch_pc) \<Rightarrow> bool" where
  "latch_reachable dbg n s \<longleftrightarrow> (latch_step dbg n)\<^sup>*\<^sup>* latch_start s"

section \<open>Bits\<close>

lemma P_set_bit: "is_P_set w \<longleftrightarrow> bit w 31"
  unfolding is_P_set_def PENDING_BIT_def by (metis and_exp_eq_0_iff_not_bit push_bit_of_1)

lemma count_unset: "w AND COUNT_MASK = unset_bit 31 w"
  by (simp add: COUNT_MASK_def PENDING_BIT_def unset_bit_eq_and_not)

lemma P_lock_set: "P_lock w = set_bit 31 w"
  by (simp add: P_lock_def PENDING_BIT_def set_bit_eq_or)

lemma X_lock_ones: "X_lock = - 1"
  by (simp add: X_lock_def COUNT_MASK_def)

lemma nat_bit31: "m < 2147483648 \<Longrightarrow> \<not> bit (m :: nat) 31"
  by (simp add: bit_iff_odd)

lemma count_bit: "m < 2147483648 \<Longrightarrow> \<not> bit (of_nat m :: latch_word) 31"
  by (simp add: bit_simps nat_bit31)

lemma pending_bit:
  assumes "m < 2147483648"
  shows "bit (of_nat m + 2147483648 :: latch_word) 31"
proof -
  have "set_bit 31 (of_nat m) = (of_nat m + 2147483648 :: latch_word)"
    using count_bit [OF assms] by (simp add: set_bit_eq)
  moreover have "bit (set_bit 31 (of_nat m :: latch_word)) 31" by (simp add: bit_simps)
  ultimately show ?thesis by simp
qed

section \<open>The invariant\<close>

definition shared :: "latch_pc \<Rightarrow> bool" where
  "shared pc \<longleftrightarrow> pc = Has_S \<or> (\<exists>k. pc = Up_load k) \<or> (\<exists>k w. pc = Up_cas k w)"

definition draining :: "latch_pc \<Rightarrow> bool" where
  "draining pc \<longleftrightarrow> (\<exists>k. pc = Drain_load k) \<or> (\<exists>k w. pc = Drain_cas k w)"

definition count :: "nat \<Rightarrow> (latch_pc \<Rightarrow> bool) \<Rightarrow> (nat \<Rightarrow> latch_pc) \<Rightarrow> nat" where
  "count n P pcs = (\<Sum>i<n. of_bool (P (pcs i)))"

definition loaded :: "latch_pc \<Rightarrow> bool" where
  \<comment> \<open>what a thread knows of the value it has loaded\<close>
  "loaded pc = (case pc of
     S_cas k w \<Rightarrow> \<not> bit w 31 | X_cas k w \<Rightarrow> \<not> bit w 31 | Up_cas k w \<Rightarrow> \<not> bit w 31
   | Drain_cas k w \<Rightarrow> bit w 31 \<and> unset_bit 31 w = 0
   | Failed_assert \<Rightarrow> False | Watchdog \<Rightarrow> False | _ \<Rightarrow> True)"

definition counts_ok :: "latch_word \<Rightarrow> nat \<Rightarrow> nat \<Rightarrow> nat \<Rightarrow> bool" where
  "counts_ok wd rd dr ex \<longleftrightarrow>
     ex = 0 \<and> dr = 0 \<and> wd = of_nat rd \<or>
     ex = 0 \<and> dr = 1 \<and> wd = of_nat rd + 2147483648 \<or>
     ex = 1 \<and> dr = 0 \<and> rd = 0 \<and> wd = - 1"

definition exclusive :: "latch_pc \<Rightarrow> bool" where
  "exclusive pc \<longleftrightarrow> pc = Has_X"

definition latch_inv :: "nat \<Rightarrow> latch_word \<times> (nat \<Rightarrow> latch_pc) \<Rightarrow> bool" where
  "latch_inv n s \<longleftrightarrow> (\<forall>i<n. loaded (snd s i)) \<and>
     counts_ok (fst s) (count n shared (snd s)) (count n draining (snd s)) (count n exclusive (snd s))"

lemma count_upd:
  assumes "i < n"
  shows "count n P (pcs(i := pc)) + of_bool (P (pcs i)) = count n P pcs + of_bool (P pc)"
proof -
  have "count n P f = of_bool (P (f i)) + (\<Sum>j\<in>{..<n} - {i}. of_bool (P (f j)))" for f
    unfolding count_def by (rule sum.remove) (use assms in simp_all)
  from this [of pcs] this [of "pcs(i := pc)"] show ?thesis by simp
qed

lemma count_le: "count n P pcs \<le> n"
  unfolding count_def by (rule order_trans [OF sum_bounded_above [where K = 1]]) simp_all

lemma count_bound: "n < 2147483648 \<Longrightarrow> count n P pcs < 2147483648"
  using count_le [of n P pcs] by simp

lemma count_pos: "i < n \<Longrightarrow> P (pcs i) \<Longrightarrow> count n P pcs > 0"
  using sum.remove [of "{..<n}" i "\<lambda>i. of_bool (P (pcs i)) :: nat"] unfolding count_def by simp

lemma ones_bit: "bit (- 1 :: latch_word) 31"
  by simp

lemma of_nat_zero: "m < 2147483648 \<Longrightarrow> (of_nat m :: latch_word) = 0 \<longleftrightarrow> m = 0"
  using dvd_imp_le [of "2 ^ 64" m] by (cases "m = 0") (auto simp: word_of_nat_eq_0_iff)

lemma counts_bit:
  assumes "counts_ok wd rd dr ex" and "rd < 2147483648"
  shows "bit wd 31 \<longleftrightarrow> dr + ex = 1"
  using assms count_bit [OF assms(2)] pending_bit [OF assms(2)] unfolding counts_ok_def by (auto simp del: of_nat_add)

lemma counts_unset:
  assumes "counts_ok wd rd dr ex" and "rd < 2147483648"
  shows "unset_bit 31 wd = (if ex = 0 then of_nat rd else - 1 - 2147483648)"
  using assms count_bit [OF assms(2)] pending_bit [OF assms(2)] unfolding counts_ok_def by (auto simp: unset_bit_eq)

text \<open>One step of a thread, on the counts before and after it: what the counts become, given the position before and
  after.\<close>

definition moves :: "latch_pc \<Rightarrow> latch_pc \<Rightarrow> (latch_pc \<Rightarrow> bool) \<Rightarrow> nat \<Rightarrow> nat \<Rightarrow> bool" where
  "moves pc pc' P m m' \<longleftrightarrow> m' + of_bool (P pc) = m + of_bool (P pc') \<and> (P pc \<longrightarrow> m > 0)"

definition keeps :: "latch_word \<Rightarrow> latch_pc \<Rightarrow> latch_word \<Rightarrow> latch_pc \<Rightarrow> bool" where
  "keeps wd pc wd' pc' \<longleftrightarrow> pc' \<noteq> Watchdog \<longrightarrow>
     (\<forall>rd dr ex rd' dr' ex'. counts_ok wd rd dr ex \<longrightarrow> rd < 2147483648 \<longrightarrow> loaded pc \<longrightarrow>
        moves pc pc' shared rd rd' \<longrightarrow> moves pc pc' draining dr dr' \<longrightarrow> moves pc pc' exclusive ex ex' \<longrightarrow>
        counts_ok wd' rd' dr' ex' \<and> loaded pc')"

lemma keeps_lock_s:
  assumes lock_s: "pc = S_load k \<or> pc = S_cas k w" "spx_latch_lock_s dbg spurious wd pc = (wd', pc')"
  shows "keeps wd pc wd' pc'"
proof -
  have "counts_ok wd' rd' dr' ex' \<and> loaded pc'"
    if live: "pc' \<noteq> Watchdog" and ok: "counts_ok wd rd dr ex" and bound: "rd < 2147483648" and l: "loaded pc"
      and mv: "moves pc pc' shared rd rd'" "moves pc pc' draining dr dr'" "moves pc pc' exclusive ex ex'" for rd dr ex rd' dr' ex'
  proof -
    note bit = counts_bit [OF ok bound] and unset = counts_unset [OF ok bound]
    note kinds = shared_def draining_def exclusive_def
    from mv have rd: "rd' + of_bool (shared pc) = rd + of_bool (shared pc')" "shared pc \<Longrightarrow> rd > 0"
      and dr: "dr' + of_bool (draining pc) = dr + of_bool (draining pc')" "draining pc \<Longrightarrow> dr > 0"
      and ex: "ex' + of_bool (exclusive pc) = ex + of_bool (exclusive pc')" "exclusive pc \<Longrightarrow> ex > 0"
      by (simp_all add: moves_def)
    show ?thesis
    proof (cases "pc = S_load k")
      case True
      with lock_s ok rd dr ex bit live show ?thesis
        by (auto simp: spx_latch_lock_s_def count_round_def P_set_bit kinds loaded_def split: if_splits option.splits)
    next
      case False
      then have pc: "pc = S_cas k w" using lock_s by simp
      show ?thesis
      proof (cases "\<not> spurious \<and> wd = w")
        case True
        with lock_s pc have w: "wd' = wd + 1" "pc' = Has_S" by (auto simp: spx_latch_lock_s_def cas_def S_lock_def)
        from True l pc have "\<not> bit wd 31" by (simp add: loaded_def)
        with bit have "dr + ex \<noteq> 1" by simp
        with ok have "wd = of_nat rd" "dr = 0" "ex = 0" by (auto simp: counts_ok_def)
        with w pc rd dr ex show ?thesis by (auto simp: counts_ok_def kinds loaded_def)
      next
        case False
        with lock_s pc have "wd' = wd" "pc' = S_load k" by (auto simp: spx_latch_lock_s_def cas_def)
        with pc ok rd dr ex show ?thesis by (auto simp: kinds loaded_def)
      qed
    qed
  qed
  then show ?thesis by (simp add: keeps_def)
qed

lemma keeps_lock_x:
  assumes lock_x: "pc = X_load k \<or> pc = X_cas k w \<or> pc = Drain_load k \<or> pc = Drain_cas k w" "spx_latch_lock_x dbg spurious wd pc = (wd', pc')"
  shows "keeps wd pc wd' pc'"
proof -
  have "counts_ok wd' rd' dr' ex' \<and> loaded pc'"
    if live: "pc' \<noteq> Watchdog" and ok: "counts_ok wd rd dr ex" and bound: "rd < 2147483648" and l: "loaded pc"
      and mv: "moves pc pc' shared rd rd'" "moves pc pc' draining dr dr'" "moves pc pc' exclusive ex ex'" for rd dr ex rd' dr' ex'
  proof -
    note bit = counts_bit [OF ok bound] and unset = counts_unset [OF ok bound]
    note kinds = shared_def draining_def exclusive_def
    from mv have rd: "rd' + of_bool (shared pc) = rd + of_bool (shared pc')" "shared pc \<Longrightarrow> rd > 0"
      and dr: "dr' + of_bool (draining pc) = dr + of_bool (draining pc')" "draining pc \<Longrightarrow> dr > 0"
      and ex: "ex' + of_bool (exclusive pc) = ex + of_bool (exclusive pc')" "exclusive pc \<Longrightarrow> ex > 0"
      by (simp_all add: moves_def)
    from lock_x consider "pc = X_load k" | "pc = X_cas k w" | "pc = Drain_load k" | "pc = Drain_cas k w" by blast
    then show ?thesis
    proof cases
      case 1
      with lock_x ok rd dr ex bit live show ?thesis
        by (auto simp: spx_latch_lock_x_def count_round_def P_set_bit kinds loaded_def split: if_splits option.splits)
    next
      case 2
      show ?thesis
      proof (cases "\<not> spurious \<and> wd = w")
        case True
        with lock_x 2 have w: "wd' = set_bit 31 wd" "pc' = Drain_load 0" by (auto simp: spx_latch_lock_x_def cas_def P_lock_set)
        from True l 2 have b: "\<not> bit wd 31" by (simp add: loaded_def)
        with bit have "dr + ex \<noteq> 1" by simp
        with ok have "wd = of_nat rd" "dr = 0" "ex = 0" by (auto simp: counts_ok_def)
        with w 2 b rd dr ex show ?thesis by (auto simp: counts_ok_def kinds loaded_def set_bit_eq)
      next
        case False
        with lock_x 2 have "wd' = wd" "pc' = X_load k" by (auto simp: spx_latch_lock_x_def cas_def)
        with 2 ok rd dr ex show ?thesis by (auto simp: kinds loaded_def)
      qed
    next
      case 3
      then have "dr > 0" using dr(2) by (simp add: kinds)
      with ok bit have "bit wd 31" "ex = 0" by (auto simp: counts_ok_def)
      with lock_x 3 ok rd dr ex unset live show ?thesis
        by (auto simp: spx_latch_lock_x_def drain_def count_round_def P_set_bit no_S_left_def count_unset kinds loaded_def
          split: if_splits option.splits)
    next
      case 4
      then have "dr > 0" using dr(2) by (simp add: kinds)
      with ok have d: "dr = 1" "ex = 0" by (auto simp: counts_ok_def)
      show ?thesis
      proof (cases "\<not> spurious \<and> wd = w")
        case True
        with lock_x 4 have w: "wd' = - 1" "pc' = Has_X" by (auto simp: spx_latch_lock_x_def drain_def cas_def X_lock_ones)
        from True l 4 have "unset_bit 31 wd = 0" by (simp add: loaded_def)
        with unset d bound have "rd = 0" by (simp add: of_nat_zero)
        with w 4 d rd dr ex show ?thesis by (auto simp: counts_ok_def kinds loaded_def)
      next
        case False
        with lock_x 4 have "wd' = wd" "pc' = Drain_load k" by (auto simp: spx_latch_lock_x_def drain_def cas_def)
        with 4 ok rd dr ex show ?thesis by (auto simp: kinds loaded_def)
      qed
    qed
  qed
  then show ?thesis by (simp add: keeps_def)
qed

lemma keeps_upgrade:
  assumes upgrade: "pc = Up_load k \<or> pc = Up_cas k w" "spx_latch_upgrade_s_x dbg spurious wd pc = (wd', pc')"
  shows "keeps wd pc wd' pc'"
proof -
  have "counts_ok wd' rd' dr' ex' \<and> loaded pc'"
    if live: "pc' \<noteq> Watchdog" and ok: "counts_ok wd rd dr ex" and bound: "rd < 2147483648" and l: "loaded pc"
      and mv: "moves pc pc' shared rd rd'" "moves pc pc' draining dr dr'" "moves pc pc' exclusive ex ex'" for rd dr ex rd' dr' ex'
  proof -
    note bit = counts_bit [OF ok bound] and unset = counts_unset [OF ok bound]
    note kinds = shared_def draining_def exclusive_def
    from mv have rd: "rd' + of_bool (shared pc) = rd + of_bool (shared pc')" "shared pc \<Longrightarrow> rd > 0"
      and dr: "dr' + of_bool (draining pc) = dr + of_bool (draining pc')" "draining pc \<Longrightarrow> dr > 0"
      and ex: "ex' + of_bool (exclusive pc) = ex + of_bool (exclusive pc')" "exclusive pc \<Longrightarrow> ex > 0"
      by (simp_all add: moves_def)
    from upgrade have "rd > 0" using rd(2) by (auto simp: kinds)
    with ok have e: "ex = 0" by (auto simp: counts_ok_def)
    show ?thesis
    proof (cases "pc = Up_load k")
      case True
      have "(of_nat rd :: latch_word) \<noteq> 0" using \<open>rd > 0\<close> bound by (simp add: of_nat_zero)
      then have "(1 :: latch_word) \<le> of_nat rd" by (metis word_le_less_eq word_less_1 linorder_not_le)
      with True upgrade ok rd dr ex unset e live show ?thesis
        by (auto simp: spx_latch_upgrade_s_x_def count_round_def P_set_bit count_unset kinds loaded_def split: if_splits option.splits)
    next
      case False
      then have pc: "pc = Up_cas k w" using upgrade by simp
      show ?thesis
      proof (cases "\<not> spurious \<and> wd = w")
        case True
        with upgrade pc have w: "wd' = set_bit 31 (wd - 1)" "pc' = Drain_load k"
          by (auto simp: spx_latch_upgrade_s_x_def cas_def P_lock_set)
        from True l pc have "\<not> bit wd 31" by (simp add: loaded_def)
        with bit have "dr + ex \<noteq> 1" by simp
        with ok have z: "wd = of_nat rd" "dr = 0" "ex = 0" by (auto simp: counts_ok_def)
        obtain r where r: "rd = Suc r" using \<open>rd > 0\<close> by (cases rd) auto
        have "\<not> bit (of_nat r :: latch_word) 31" using bound r by (intro count_bit) simp
        then have "set_bit 31 (of_nat r) = (of_nat r + 2147483648 :: latch_word)" by (simp add: set_bit_eq)
        with w z r pc rd dr ex show ?thesis by (auto simp: counts_ok_def kinds loaded_def)
      next
        case False
        with upgrade pc have "wd' = wd" "pc' = Up_load k" by (auto simp: spx_latch_upgrade_s_x_def cas_def)
        with pc ok rd dr ex show ?thesis by (auto simp: kinds loaded_def)
      qed
    qed
  qed
  then show ?thesis by (simp add: keeps_def)
qed

lemma keeps_release:
  assumes rel: "pc = Has_S \<and> spx_latch_unlock_s wd = (wd', pc') \<or> pc = Has_X \<and> spx_latch_unlock_x wd = (wd', pc') \<or>
    pc = Has_X \<and> spx_latch_downgrade_x_s wd = (wd', pc')"
  shows "keeps wd pc wd' pc'"
proof -
  have "counts_ok wd' rd' dr' ex' \<and> loaded pc'"
    if live: "pc' \<noteq> Watchdog" and ok: "counts_ok wd rd dr ex" and bound: "rd < 2147483648" and l: "loaded pc"
      and mv: "moves pc pc' shared rd rd'" "moves pc pc' draining dr dr'" "moves pc pc' exclusive ex ex'" for rd dr ex rd' dr' ex'
  proof -
    note bit = counts_bit [OF ok bound] and unset = counts_unset [OF ok bound]
    note kinds = shared_def draining_def exclusive_def
    from mv have rd: "rd' + of_bool (shared pc) = rd + of_bool (shared pc')" "shared pc \<Longrightarrow> rd > 0"
      and dr: "dr' + of_bool (draining pc) = dr + of_bool (draining pc')" "draining pc \<Longrightarrow> dr > 0"
      and ex: "ex' + of_bool (exclusive pc) = ex + of_bool (exclusive pc')" "exclusive pc \<Longrightarrow> ex > 0"
      by (simp_all add: moves_def)
    show ?thesis
    proof (cases "pc = Has_S")
      case True
      then have "rd > 0" using rd(2) by (auto simp: kinds)
      then obtain r where "rd = Suc r" by (cases rd) auto
      with True rel ok rd dr ex show ?thesis by (auto simp: spx_latch_unlock_s_def counts_ok_def kinds loaded_def)
    next
      case False
      with rel have x: "pc = Has_X" "wd' = 0 \<and> pc' = Outside \<or> wd' = 1 \<and> pc' = Has_S"
        by (auto simp: spx_latch_unlock_x_def spx_latch_downgrade_x_s_def)
      then have "ex > 0" using ex(2) by (simp add: kinds)
      with ok have "ex = 1" "dr = 0" "rd = 0" by (auto simp: counts_ok_def)
      with x rd dr ex show ?thesis by (auto simp: counts_ok_def kinds loaded_def)
    qed
  qed
  then show ?thesis by (simp add: keeps_def)
qed

lemma keeps_begin: "keeps wd Outside wd (S_load k)" "keeps wd Outside wd (X_load k)" "keeps wd Has_S wd (Up_load k)"
  by (simp_all add: keeps_def moves_def shared_def draining_def exclusive_def loaded_def)

lemma keeps_step: "thread_step dbg wd pc wd' pc' \<Longrightarrow> keeps wd pc wd' pc'"
  by (erule thread_step.cases)
     (simp_all only: keeps_begin, (rule keeps_lock_s keeps_lock_x keeps_upgrade keeps_release; simp)+)

lemma latch_inv_step:
  assumes "n < 2147483648" and "latch_inv n (wd, pcs)" and "i < n" and "thread_step dbg wd (pcs i) wd' pc'" and "pc' \<noteq> Watchdog"
  shows "latch_inv n (wd', pcs(i := pc'))"
proof -
  have inv: "counts_ok wd (count n shared pcs) (count n draining pcs) (count n exclusive pcs)" "\<forall>i<n. loaded (pcs i)"
    using assms(2) by (simp_all add: latch_inv_def)
  have "counts_ok wd' (count n shared (pcs(i := pc'))) (count n draining (pcs(i := pc'))) (count n exclusive (pcs(i := pc'))) \<and> loaded pc'"
    using keeps_step [OF assms(4)] inv assms(1,3,5)
    unfolding keeps_def moves_def by (blast intro: count_bound count_upd count_pos)
  with inv(2) show ?thesis by (simp add: latch_inv_def)
qed

text \<open>A watchdog that goes off leaves the word alone, and nothing goes on.\<close>

lemma watchdog_word: "thread_step dbg wd pc wd' Watchdog \<Longrightarrow> wd' = wd"
  by (erule thread_step.cases)
    (auto simp: spx_latch_lock_s_def spx_latch_lock_x_def spx_latch_upgrade_s_x_def drain_def cas_def spx_latch_unlock_s_def
      spx_latch_unlock_x_def spx_latch_downgrade_x_s_def split: if_splits)

definition latch_safe :: "nat \<Rightarrow> latch_word \<times> (nat \<Rightarrow> latch_pc) \<Rightarrow> bool" where
  "latch_safe n s \<longleftrightarrow> latch_inv n s \<or> (\<exists>i<n. \<exists>pc. snd s i = Watchdog \<and> latch_inv n (fst s, (snd s)(i := pc)))"

lemma latch_safe_reachable:
  assumes "n < 2147483648" and "latch_reachable dbg n s"
  shows "latch_safe n s"
  using assms(2) unfolding latch_reachable_def
proof (induction rule: rtranclp_induct)
  case base
  show ?case by (simp add: latch_safe_def latch_inv_def latch_start_def spx_latch_init_def counts_ok_def loaded_def count_def
    shared_def draining_def exclusive_def)
next
  case (step s s')
  from step.hyps(2) show ?case
  proof cases
    case (1 i pcs wd wd' pc')
    then have "latch_inv n (wd, pcs)" using step.IH by (auto simp: latch_safe_def aborted_def)
    show ?thesis
    proof (cases "pc' = Watchdog")
      case True
      with 1 \<open>latch_inv n (wd, pcs)\<close> show ?thesis
        by (auto simp: latch_safe_def dest: watchdog_word intro!: exI [of _ i] exI [of _ "pcs i"])
    next
      case False
      with 1 latch_inv_step [OF assms(1) \<open>latch_inv n (wd, pcs)\<close> 1(3,5)] show ?thesis by (simp add: latch_safe_def)
    qed
  qed
qed

lemma two_counted: "\<not> P Outside \<Longrightarrow> i < n \<Longrightarrow> j < n \<Longrightarrow> i \<noteq> j \<Longrightarrow> P (pcs i) \<Longrightarrow> P (pcs j) \<Longrightarrow> count n P pcs > 1"
  using count_pos [of j n P "pcs(i := Outside)"] count_upd [of i n P pcs Outside] by auto

lemma latch_inv_excludes:
  assumes "latch_inv n (wd, pcs)" and "i < n" "j < n" "pcs i = Has_X" "j \<noteq> i"
  shows "pcs j \<noteq> Has_X \<and> \<not> shared (pcs j)"
proof -
  have "count n exclusive pcs > 0" using count_pos [of i n exclusive pcs] assms(2,4) by (simp add: exclusive_def)
  with assms(1) have "count n exclusive pcs = 1" "count n shared pcs = 0" by (auto simp: latch_inv_def counts_ok_def)
  with two_counted [of exclusive i n j pcs] count_pos [of j n shared pcs] assms(2-5) show ?thesis by (auto simp: exclusive_def)
qed

lemma latch_inv_word:
  assumes "latch_inv n (wd, pcs)"
  shows "if \<exists>i<n. pcs i = Has_X then wd = X_lock
     else wd = of_nat (count n shared pcs) + (if \<exists>i<n. draining (pcs i) then PENDING_BIT else 0)"
proof -
  have some: "(\<exists>i<n. P (pcs i)) \<longleftrightarrow> count n P pcs > 0" for P
    using count_pos [of _ n P pcs] unfolding count_def by (auto simp: card_gt_0_iff)
  show ?thesis using assms some [of draining] some [of exclusive]
    by (auto simp: latch_inv_def counts_ok_def X_lock_ones PENDING_BIT_def exclusive_def)
qed

lemma watchdog_debug:
  assumes "latch_reachable dbg n (wd, pcs)" and "i < n" and "pcs i = Watchdog"
  shows "dbg \<noteq> None"
proof -
  have no: "thread_step dbg w pc w' Watchdog \<Longrightarrow> pc \<noteq> Watchdog \<Longrightarrow> dbg \<noteq> None" for w pc w'
    by (erule thread_step.cases)
      (auto simp: spx_latch_lock_s_def spx_latch_lock_x_def spx_latch_upgrade_s_x_def drain_def cas_def spx_latch_unlock_s_def
        spx_latch_unlock_x_def spx_latch_downgrade_x_s_def count_round_def split: if_splits option.splits)
  have "dbg \<noteq> None \<or> (\<forall>i<n. snd s i \<noteq> Watchdog)" if "(latch_step dbg n)\<^sup>*\<^sup>* latch_start s" for s
    using that
  proof (induction rule: rtranclp_induct)
    case (step s s')
    from step.hyps(2) show ?case by cases (use step.IH no in \<open>auto simp: aborted_def\<close>)
  qed (simp add: latch_start_def)
  from this [of "(wd, pcs)"] assms show ?thesis by (auto simp: latch_reachable_def)
qed

section \<open>Properties\<close>

text \<open>C39: The latch excludes. However the steps of fewer than $2^{31}$ threads interleave, whichever weak
  compare-exchanges fail, and with or without the watchdog of a debug build, a thread that holds the latch exclusively is the
  only one that holds it, and no assertion fails other than the watchdog's, which gives up on a loop after a number of rounds. As
  long as it has not gone off, the word says how the latch is held: the number of readers, with bit 31 when a writer waits for
  them, or all ones.\<close>

theorem spx_latch_exclusion:
  assumes "latch_reachable dbg n (wd, pcs)" and "n < 2147483648"
  shows "(\<forall>i<n. \<forall>j<n. pcs i = Has_X \<longrightarrow> j \<noteq> i \<longrightarrow> pcs j \<noteq> Has_X \<and> \<not> shared (pcs j)) \<and>
    (\<forall>i<n. pcs i \<noteq> Failed_assert) \<and>
    (\<forall>i<n. pcs i = Watchdog \<longrightarrow> dbg \<noteq> None) \<and>
    ((\<forall>i<n. pcs i \<noteq> Watchdog) \<longrightarrow>
      (if \<exists>i<n. pcs i = Has_X then wd = X_lock
       else wd = of_nat (count n shared pcs) + (if \<exists>i<n. draining (pcs i) then PENDING_BIT else 0)))"
proof -
  from latch_safe_reachable [OF assms(2,1)] consider "latch_inv n (wd, pcs)"
    | i pc where "i < n" "pcs i = Watchdog" "latch_inv n (wd, pcs(i := pc))" by (auto simp: latch_safe_def)
  then show ?thesis
  proof cases
    case 1
    then have "\<forall>i<n. loaded (pcs i)" by (simp add: latch_inv_def)
    then have "\<forall>i<n. pcs i \<noteq> Failed_assert \<and> pcs i \<noteq> Watchdog" by (auto simp: loaded_def)
    with latch_inv_excludes [OF 1] latch_inv_word [OF 1] show ?thesis by blast
  next
    case 2
    then have l: "\<forall>j<n. loaded ((pcs(i := pc)) j)" by (simp add: latch_inv_def)
    have "pcs j \<noteq> Failed_assert" if "j < n" for j using l that 2(2) by (cases "j = i") (auto simp: loaded_def split: if_splits)
    moreover have "pcs b \<noteq> Has_X \<and> \<not> shared (pcs b)" if "a < n" "b < n" "pcs a = Has_X" "b \<noteq> a" for a b
      using latch_inv_excludes [OF 2(3), of a b] that 2(2) by (cases "b = i"; cases "a = i") (auto simp: shared_def)
    moreover have "dbg \<noteq> None" using watchdog_debug [OF assms(1) 2(1,2)] .
    ultimately show ?thesis using 2(1,2) by blast
  qed
qed

lemma thread_run:
  assumes "latch_reachable dbg n (wd, pcs)" and "i < n" and "\<not> aborted n pcs" and "thread_step dbg wd (pcs i) wd' pc'" and "pcs' = pcs(i := pc')"
  shows "latch_reachable dbg n (wd', pcs')"
  using assms latch_step.intros [of i n pcs dbg wd wd' pc'] unfolding latch_reachable_def by (metis rtranclp.rtrancl_into_rtrancl)

lemma start_reachable: "latch_reachable dbg n (0, \<lambda>_. Outside)"
  by (simp add: latch_reachable_def latch_start_def spx_latch_init_def)

text \<open>A thread that takes a hold with readers only becomes one of them, here in its first round.\<close>

lemma reader_enters:
  assumes "latch_reachable dbg n (wd, pcs)" and "i < n" and "pcs i = Outside" and "\<not> is_P_set wd" and "\<not> is_X_set wd" and "\<not> aborted n pcs"
  shows "latch_reachable dbg n (wd + 1, pcs(i := Has_S))"
proof -
  have go: "\<not> aborted n (pcs(i := pc))" if "pc \<noteq> Watchdog" "pc \<noteq> Failed_assert" for pc
    using assms(6) that by (auto simp: aborted_def)
  let ?k = "case dbg of None \<Rightarrow> 0 | Some _ \<Rightarrow> 1"
  have a: "latch_reachable dbg n (wd, pcs(i := S_load 0))"
    by (rule thread_run [OF assms(1,2,6) _ refl]) (simp add: assms(3) begin_s)
  have "spx_latch_lock_s dbg False wd (S_load 0) = (wd, S_cas ?k wd)"
    using assms(4,5) by (simp add: spx_latch_lock_s_def count_round_def split: option.split)
  then have "thread_step dbg wd ((pcs(i := S_load 0)) i) wd (S_cas ?k wd)" by (simp add: lock_s [of "S_load 0" 0])
  from thread_run [OF a assms(2) go this refl] have b: "latch_reachable dbg n (wd, pcs(i := S_cas ?k wd))"
    by (simp del: fun_upd_apply)
  have "spx_latch_lock_s dbg False wd (S_cas ?k wd) = (wd + 1, Has_S)"
    by (simp add: spx_latch_lock_s_def cas_def S_lock_def)
  then have "thread_step dbg wd ((pcs(i := S_cas ?k wd)) i) (wd + 1) Has_S" by (simp add: lock_s [of "S_cas ?k wd" ?k wd])
  from thread_run [OF b assms(2) go this refl] show ?thesis by (simp del: fun_upd_apply)
qed

lemma small_words:
  "\<not> is_P_set 0" "\<not> is_X_set 0" "\<not> is_P_set 1" "\<not> is_X_set 1" "\<not> is_P_set 2"
  by (simp_all add: is_P_set_def is_X_set_def COUNT_MASK_def PENDING_BIT_def)

lemma two_readers: "latch_reachable dbg 2 (2, (\<lambda>_. Outside)(0 := Has_S, 1 := Has_S))"
proof -
  have "latch_reachable dbg 2 (1, (\<lambda>_. Outside)(0 := Has_S))"
    using reader_enters [OF start_reachable, of 0 2] by (simp add: small_words aborted_def)
  from reader_enters [OF this, of 1] show ?thesis by (simp add: small_words aborted_def)
qed

theorem spx_latch_exclusion_witness:
  "(2 :: latch_word) = of_nat (count 2 shared ((\<lambda>_. Outside)(0 := Has_S, 1 := Has_S)))"
  using spx_latch_exclusion [OF two_readers [of "Some DEADLOCK_THRESH"]] by (simp add: draining_def less_2_cases_iff)

text \<open>Two readers that both ask for the exclusive hold: one has announced its upgrade and waits for the other to leave, after
  \<open>k\<close> counted rounds, and the other waits, still as a reader, for the announcement to be withdrawn.\<close>

definition upgrading_at :: "nat \<Rightarrow> latch_word \<times> (nat \<Rightarrow> latch_pc)" where
  "upgrading_at k = (P_lock 1, (\<lambda>_. Outside)(0 := Drain_load k, 1 := Up_load 0))"

definition upgrading :: "latch_word \<times> (nat \<Rightarrow> latch_pc)" where
  "upgrading = upgrading_at 0"

text \<open>The same positions, with any counts, or with one of the threads given up.\<close>

definition stuck :: "latch_word \<times> (nat \<Rightarrow> latch_pc) \<Rightarrow> bool" where
  "stuck s \<longleftrightarrow> (\<exists>a b. s = (P_lock 1, (\<lambda>_. Outside)(0 := a, 1 := b)) \<and>
     ((\<exists>k. a = Drain_load k) \<or> a = Watchdog) \<and> ((\<exists>k. b = Up_load k) \<or> b = Watchdog))"

lemma upgrading_reached: "latch_reachable dbg 2 (upgrading_at (case dbg of None \<Rightarrow> 0 | Some _ \<Rightarrow> 1))"
proof -
  let ?k = "case dbg of None \<Rightarrow> 0 | Some _ \<Rightarrow> 1"
  have "latch_reachable dbg 2 (2, (\<lambda>_. Outside)(0 := Up_load 0, 1 := Has_S))"
    by (rule thread_run [OF two_readers, of 0]) (auto intro: begin_up simp: aborted_def)
  then have "latch_reachable dbg 2 (2, (\<lambda>_. Outside)(0 := Up_load 0, 1 := Up_load 0))"
    by (rule thread_run [where i = 1]) (auto intro: begin_up simp: aborted_def)
  moreover have "spx_latch_upgrade_s_x dbg False 2 (Up_load 0) = (2, Up_cas ?k 2)"
    by (simp add: spx_latch_upgrade_s_x_def small_words count_round_def COUNT_MASK_def PENDING_BIT_def split: option.split)
  ultimately have "latch_reachable dbg 2 (2, (\<lambda>_. Outside)(0 := Up_cas ?k 2, 1 := Up_load 0))"
    by (elim thread_run [where i = 0]) (auto intro: upgrade [of _ 0 2] simp: fun_upd_twist aborted_def)
  moreover have "spx_latch_upgrade_s_x dbg False 2 (Up_cas ?k 2) = (P_lock 1, Drain_load ?k)"
    by (simp add: spx_latch_upgrade_s_x_def cas_def)
  ultimately show ?thesis
    unfolding upgrading_at_def
    by (elim thread_run [where i = 0]) (auto intro: upgrade [of _ ?k 2] simp: fun_upd_twist aborted_def)
qed

lemma upgrading_step:
  assumes "stuck s" and "latch_step dbg 2 s s'"
  shows "stuck s' \<and> (dbg = None \<longrightarrow> s' = s)"
  using assms(2)
proof cases
  case (1 i pcs wd wd' pc')
  have one: "is_P_set (P_lock 1)" "\<not> no_S_left (P_lock 1)" "P_lock 1 AND COUNT_MASK = 1"
    by (simp_all add: is_P_set_def no_S_left_def P_lock_def COUNT_MASK_def PENDING_BIT_def)
  from assms(1) 1(1) obtain a b where s: "wd = P_lock 1" "pcs = (\<lambda>_. Outside)(0 := a, 1 := b)"
    "(\<exists>k. a = Drain_load k) \<or> a = Watchdog" "(\<exists>k. b = Up_load k) \<or> b = Watchdog" by (auto simp: stuck_def)
  have "pcs 0 \<noteq> Watchdog" "pcs 1 \<noteq> Watchdog" using 1(4) by (auto simp: aborted_def)
  with s obtain k l where ab: "a = Drain_load k" "b = Up_load l" by auto
  from 1(3) consider "i = 0" | "i = 1" by (auto simp: less_2_cases_iff)
  then show ?thesis
  proof cases
    case i: 1
    with 1(5) s ab have "thread_step dbg (P_lock 1) (Drain_load k) wd' pc'" by simp
    then have "wd' = P_lock 1 \<and> ((\<exists>k. pc' = Drain_load k) \<or> pc' = Watchdog) \<and> (dbg = None \<longrightarrow> pc' = Drain_load k)"
      by (cases) (auto simp: spx_latch_lock_x_def drain_def one count_round_def split: if_splits option.splits)
    with 1(1,2) s(1,2) ab i show ?thesis by (auto simp: stuck_def fun_upd_twist)
  next
    case i: 2
    with 1(5) s ab have "thread_step dbg (P_lock 1) (Up_load l) wd' pc'" by simp
    then have "wd' = P_lock 1 \<and> ((\<exists>k. pc' = Up_load k) \<or> pc' = Watchdog) \<and> (dbg = None \<longrightarrow> pc' = Up_load l)"
      by (cases) (auto simp: spx_latch_upgrade_s_x_def one count_round_def split: if_splits option.splits)
    with 1(1,2) s(1,2) ab i show ?thesis by (auto simp: stuck_def fun_upd_twist)
  qed
qed

text \<open>C40: Two readers that upgrade block each other for ever. The state in which one of two readers has announced its upgrade
  and waits for the other to leave, while the other waits, still as a reader, for the announcement to be withdrawn, is
  reached, and without a watchdog no step of either thread leads out of it. A debug build reaches it too, and all that happens after
  it is that the threads count their rounds until the watchdog of one goes off.\<close>

theorem spx_upgrade_deadlock:
  "latch_reachable None 2 upgrading \<and> {s. (latch_step None 2)\<^sup>*\<^sup>* upgrading s} = {upgrading} \<and>
   latch_reachable (Some thresh) 2 (upgrading_at 1) \<and> {s. (latch_step (Some thresh) 2)\<^sup>*\<^sup>* (upgrading_at 1) s} \<subseteq> {s. stuck s}"
proof -
  have stuck: "stuck (upgrading_at k)" for k unfolding stuck_def upgrading_at_def by blast
  have "s = upgrading" if "(latch_step None 2)\<^sup>*\<^sup>* upgrading s" for s
    using that
  proof (induction rule: rtranclp_induct)
    case (step s s')
    with upgrading_step [of s None s'] stuck [of 0] show ?case by (simp add: upgrading_def)
  qed simp
  moreover have "stuck s" if "(latch_step (Some thresh) 2)\<^sup>*\<^sup>* (upgrading_at 1) s" for s
    using that by (induction rule: rtranclp_induct) (auto intro: stuck dest: upgrading_step)
  ultimately show ?thesis
    using upgrading_reached [of None] upgrading_reached [of "Some thresh"] by (auto simp: upgrading_def)
qed

end
