(* ===== verification/Type_Codec.thy ===== *)
theory Type_Codec
  imports Types
begin

text \<open>
  What the serialization of a type writes and what the deserialization makes of it.

  \<open>puts f bs\<close>: \<open>f\<close> appends \<open>bs\<close> to a serializer with room for it. \<open>takes f bs x m\<close>: \<open>f\<close> reads \<open>bs\<close> off the input,
  gives \<open>x\<close> and takes \<open>m\<close> bytes from the allocator. Both compose.
\<close>

section \<open>The format\<close>

definition u16_bytes :: "nat \<Rightarrow> u8 list" where
  "u16_bytes n = le_bytes 2 (of_nat n :: u16)"

definition key_bytes :: "str \<Rightarrow> u8 list" where
  "key_bytes k = u16_bytes (length k) @ k"

fun type_bytes :: "type_t \<Rightarrow> u8 list"
and kvs_bytes :: "str list \<Rightarrow> type_t list \<Rightarrow> u8 list" where
  "type_bytes (T_PRIM p) = [0, of_nat (prim_code p)]"
| "type_bytes (T_STRUCT ks ts) = 1 # u16_bytes (length ks) @ kvs_bytes ks ts"
| "type_bytes (T_UNION ks ts) = 2 # u16_bytes (length ks) @ kvs_bytes ks ts"
| "type_bytes (T_ENUM ks) = 3 # u16_bytes (length ks) @ concat (map key_bytes ks)"
| "type_bytes (T_SARRAY ds t) = 4 # u16_bytes (length ds) @ concat (map (le_bytes 4) ds) @ type_bytes t"
| "kvs_bytes (k # ks) (t # ts) = key_bytes k @ type_bytes t @ kvs_bytes ks ts"
| "kvs_bytes ks ts = []"

text \<open>What the deserialization takes from the allocator.\<close>

fun type_mem :: "type_t \<Rightarrow> nat"
and kvs_mem :: "str list \<Rightarrow> type_t list \<Rightarrow> nat" where
  "type_mem (T_PRIM p) = 0"
| "type_mem (T_STRUCT ks ts) = kvs_mem ks ts + length ks * STRING_SIZE + length ks * TYPE_SIZE"
| "type_mem (T_UNION ks ts) = kvs_mem ks ts + length ks * STRING_SIZE + length ks * TYPE_SIZE"
| "type_mem (T_ENUM ks) = length ks * STRING_SIZE + sum_list (map length ks)"
| "type_mem (T_SARRAY ds t) = length ds * 4 + TYPE_SIZE + type_mem t"
| "kvs_mem (k # ks) (t # ts) = length k + type_mem t + kvs_mem ks ts"
| "kvs_mem ks ts = 0"

definition key_ok :: "str \<Rightarrow> bool" where
  "key_ok k \<longleftrightarrow> 0 < length k \<and> length k < 2 ^ 16 \<and> 0 \<notin> set k"

fun type_ok :: "type_t \<Rightarrow> bool"
and types_ok :: "type_t list \<Rightarrow> bool" where
  \<comment> \<open>what the builder accepts: two to ten fields\<close>
  "type_ok (T_PRIM p) = True"
| "type_ok (T_STRUCT ks ts) = (length ts = length ks \<and> 2 \<le> length ks \<and> length ks \<le> 10 \<and> distinct ks \<and>
     list_all key_ok ks \<and> types_ok ts)"
| "type_ok (T_UNION ks ts) = (length ts = length ks \<and> 2 \<le> length ks \<and> length ks \<le> 10 \<and> distinct ks \<and>
     list_all key_ok ks \<and> types_ok ts)"
| "type_ok (T_ENUM ks) = (0 < length ks \<and> length ks < 2 ^ 16 \<and> distinct ks \<and> list_all key_ok ks)"
| "type_ok (T_SARRAY ds t) = (0 < length ds \<and> length ds < 2 ^ 16 \<and> 0 \<notin> set ds \<and> type_ok t)"
| "types_ok [] = True"
| "types_ok (t # ts) = (type_ok t \<and> types_ok ts)"

lemma types_ok_all: "types_ok ts \<longleftrightarrow> (\<forall>t \<in> set ts. type_ok t)"
  by (induction ts) auto

lemma length_u16_bytes [simp]: "length (u16_bytes n) = 2"
  by (simp add: u16_bytes_def)

lemma keys_valid:
  assumes "0 < length ks" and "distinct ks" and "list_all key_ok ks"
  shows "struct_t_validate_shallow ks = Inr ()" "union_t_validate_shallow ks = Inr ()" "enum_t_validate ks = Inr ()"
proof -
  have "[] \<notin> set ks" using assms(3) by (auto simp: list_all_iff key_ok_def)
  with assms show "struct_t_validate_shallow ks = Inr ()" "union_t_validate_shallow ks = Inr ()" "enum_t_validate ks = Inr ()"
    by (auto simp: struct_t_validate_shallow_def union_t_validate_shallow_def enum_t_validate_def strings_all_unique_distinct)
qed

lemma fields_valid:
  assumes "2 \<le> length ks" and "distinct ks" and "list_all key_ok ks"
  shows "struct_t_validate_shallow ks = Inr ()" "union_t_validate_shallow ks = Inr ()"
  using keys_valid [of ks] assms by (cases ks; simp)+

lemma prim_code_ok: "prim_code p < length prims \<and> prims ! prim_code p = p \<and> prim_t_validate (prim_code p) = Inr ()"
  by (cases p) (simp_all add: prim_code_def prims_def prim_t_validate_def)

lemma type_ok_valid: "type_ok t \<Longrightarrow> type_validate t = Inr ()"
  by (induction t)
    (use prim_code_ok in \<open>auto simp: struct_t_validate_def union_t_validate_def sarray_t_validate_shallow_def keys_valid fields_valid\<close>)

lemma type_ok_valid_type [simp]: "type_ok t \<Longrightarrow> valid_type t = Some ()"
  by (simp add: valid_type_def type_ok_valid ASSERT_def)

section \<open>Writing\<close>

definition puts :: "(serializer \<Rightarrow> serializer option) \<Rightarrow> u8 list \<Rightarrow> bool" where
  "puts f bs \<longleftrightarrow> (\<forall>s. sr_wf s \<and> length bs \<le> sr_room s \<longrightarrow>
     (\<exists>s'. f s = Some s' \<and> sr_wf s' \<and> sr_out s' = sr_out s @ bs \<and> sr_room s' = sr_room s - length bs))"

lemma puts_write: "puts (\<lambda>s. srlizr_write_expect s bs) bs"
  using srlizr_write_expect_correct unfolding puts_def by blast

lemma puts_u16: "puts (\<lambda>s. write_u16 s n) (u16_bytes n)"
  using puts_write unfolding write_u16_def u16_bytes_def by blast

lemma puts_nil: "puts Some []"
  by (simp add: puts_def)

lemma puts_bind:
  assumes "puts f xs" and "puts g ys"
  shows "puts (\<lambda>s. Option.bind (f s) g) (xs @ ys)"
  unfolding puts_def
proof (intro allI impI)
  fix s assume s: "sr_wf s \<and> length (xs @ ys) \<le> sr_room s"
  with assms(1) obtain s1 where s1: "f s = Some s1" "sr_wf s1" "sr_out s1 = sr_out s @ xs" "sr_room s1 = sr_room s - length xs"
    unfolding puts_def by fastforce
  have "length ys \<le> sr_room s1" using s s1(4) by auto
  with s1(2) assms(2) obtain s2 where "g s1 = Some s2" "sr_wf s2" "sr_out s2 = sr_out s1 @ ys" "sr_room s2 = sr_room s1 - length ys"
    unfolding puts_def by blast
  with s1 show "\<exists>s'. Option.bind (f s) g = Some s' \<and> sr_wf s' \<and> sr_out s' = sr_out s @ xs @ ys \<and> sr_room s' = sr_room s - length (xs @ ys)"
    by simp
qed

lemma puts_visit: "(\<And>x. puts (f x) (bytes x)) \<Longrightarrow> puts (visit f xs) (concat (map bytes xs))"
proof (induction xs)
  case (Cons x xs)
  from puts_bind [OF Cons.prems [of x] Cons.IH [OF Cons.prems]] show ?case by (simp add: puts_def)
qed (simp add: puts_def)

lemma puts_enum:
  assumes "0 < length ks" "distinct ks" "list_all key_ok ks"
  shows "puts (\<lambda>s. enum_t_serialize s ks) (u16_bytes (length ks) @ concat (map key_bytes ks))"
proof -
  have k: "puts (\<lambda>s. Option.bind (write_u16 s (length k)) (\<lambda>s. srlizr_write_expect s k)) (key_bytes k)" for k
    unfolding key_bytes_def by (rule puts_bind [OF puts_u16 puts_write])
  from puts_bind [OF puts_u16 puts_visit [of "\<lambda>k s. Option.bind (write_u16 s (length k)) (\<lambda>s. srlizr_write_expect s k)", OF k]]
  show ?thesis using keys_valid(3) [OF assms] by (simp add: enum_t_serialize_def)
qed

lemma type_serialize_puts:
  "type_ok t \<Longrightarrow> puts (\<lambda>s. type_serialize s t) (type_bytes t)"
  "types_ok ts \<Longrightarrow> length ts = length ks \<Longrightarrow> puts (\<lambda>s. struct_t_serialize s ks ts) (kvs_bytes ks ts)"
proof (induction t and ks ts rule: type_bytes_kvs_bytes.induct)
  case (1 p)
  from puts_bind [OF puts_write [of "[0]"] puts_write [of "[of_nat (prim_code p)]"]] 1 show ?case
    by (simp add: type_serialize.simps(1) [of _ "T_PRIM p"] prim_t_serialize_def)
next
  case (2 ks ts)
  from puts_bind [OF puts_write [of "[1]"] puts_bind [OF puts_u16 [of "length ks"] 2(1)]] 2(2) show ?case
    by (simp add: type_serialize.simps(1) [of _ "T_STRUCT ks ts"])
next
  case (3 ks ts)
  from puts_bind [OF puts_write [of "[2]"] puts_bind [OF puts_u16 [of "length ks"] 3(1)]] 3(2) show ?case
    by (simp add: type_serialize.simps(1) [of _ "T_UNION ks ts"])
next
  case (4 ks)
  from puts_bind [OF puts_write [of "[3]"] puts_enum [of ks]] 4 show ?case
    by (simp add: type_serialize.simps(1) [of _ "T_ENUM ks"])
next
  case (5 ds t)
  have "puts (\<lambda>s. srlizr_write_expect s (le_bytes 4 d)) (le_bytes 4 d)" for d :: u32 by (rule puts_write)
  from puts_bind [OF puts_write [of "[4]"] puts_bind [OF puts_u16 [of "length ds"] puts_bind [OF
    puts_visit [of "\<lambda>d s. srlizr_write_expect s (le_bytes 4 d)", OF this] 5(1)]]] 5(2) show ?case
    by (simp add: type_serialize.simps(1) [of _ "T_SARRAY ds t"])
next
  case (6 k ks t ts)
  from puts_bind [OF puts_u16 [of "length k"] puts_bind [OF puts_write [of k] puts_bind [OF 6(1) 6(2)]]] 6(3,4) show ?case
    by (simp add: key_bytes_def)
qed (use puts_nil in auto)

section \<open>Reading\<close>

definition takes :: "(des \<Rightarrow> ('a res \<times> des) option) \<Rightarrow> u8 list \<Rightarrow> 'a \<Rightarrow> nat \<Rightarrow> bool" where
  "takes f bs x m \<longleftrightarrow> (\<forall>s a rest. ds_wf s \<and> ds_rest s = bs @ rest \<and> la_wf a \<and> m < la_room a \<longrightarrow>
     (\<exists>s' a'. f (s, a) = Some (Inr x, s', a') \<and> ds_wf s' \<and> ds_rest s' = rest \<and> la_wf a' \<and> la_room a' = la_room a - m))"

lemma takesD:
  assumes "takes f bs x m" and "ds_wf s" and "ds_rest s = bs @ rest" and "la_wf a" and "m < la_room a"
  obtains s' a' where "f (s, a) = Some (Inr x, s', a')" "ds_wf s'" "ds_rest s' = rest" "la_wf a'" "la_room a' = la_room a - m"
  using assms unfolding takes_def by blast

lemma takes_return: "takes (\<lambda>s. Some (Inr x, s)) [] x 0"
  by (simp add: takes_def)

lemma takes_bind:
  assumes "takes f bs x m" and "takes (g x) cs y n"
  shows "takes (\<lambda>s. err_wrap (f s) g) (bs @ cs) y (m + n)"
  unfolding takes_def
proof (intro allI impI)
  fix s a rest assume s: "ds_wf s \<and> ds_rest s = (bs @ cs) @ rest \<and> la_wf a \<and> m + n < la_room a"
  then have h: "ds_wf s" "ds_rest s = bs @ cs @ rest" "la_wf a" "m < la_room a" by simp_all
  from takesD [OF assms(1) h] obtain s1 a1 where
    s1: "f (s, a) = Some (Inr x, s1, a1)" "ds_wf s1" "ds_rest s1 = cs @ rest" "la_wf a1" "la_room a1 = la_room a - m" by blast
  have "n < la_room a1" using s s1(5) by auto
  from takesD [OF assms(2) s1(2,3,4) this] obtain s2 a2 where
    "g x (s1, a1) = Some (Inr y, s2, a2)" "ds_wf s2" "ds_rest s2 = rest" "la_wf a2" "la_room a2 = la_room a1 - n" by blast
  with s1 show "\<exists>s' a'. err_wrap (f (s, a)) g = Some (Inr y, s', a') \<and> ds_wf s' \<and> ds_rest s' = rest \<and> la_wf a' \<and>
      la_room a' = la_room a - (m + n)"
    by simp
qed

lemma takes_bindI:
  "takes f bs x m \<Longrightarrow> takes (g x) cs y n \<Longrightarrow> all = bs @ cs \<Longrightarrow> k = m + n \<Longrightarrow> takes (\<lambda>s. err_wrap (f s) g) all y k"
  using takes_bind [of f bs x m g cs y n] by simp

lemma takes_read:
  assumes "n = length bs" and "n < 2147483648"
  shows "takes (read_bytes n) bs bs 0"
  unfolding takes_def
proof (intro allI impI)
  fix s a rest assume s: "ds_wf s \<and> ds_rest s = bs @ rest \<and> la_wf a \<and> 0 < la_room a"
  then have "n \<le> length (ds_rest s)" using assms(1) by simp
  with dsrlizr_read_correct [of s n] s assms obtain s' where
    "dsrlizr_read n s = Some (Some bs, s')" "ds_wf s'" "ds_rest s' = rest" by auto
  with s show "\<exists>s' a'. read_bytes n (s, a) = Some (Inr bs, s', a') \<and> ds_wf s' \<and> ds_rest s' = rest \<and> la_wf a' \<and> la_room a' = la_room a - 0"
    by (simp add: read_bytes_def)
qed

lemma u16_bytes_back: "n < 2 ^ 16 \<Longrightarrow> unat (le_word (u16_bytes n) :: u16) = n"
  by (simp add: u16_bytes_def le_word_le_bytes unat_of_nat)

lemma takes_u16: "n < 2 ^ 16 \<Longrightarrow> takes read_u16 (u16_bytes n) n 0"
  unfolding read_u16_def
  by (rule takes_bindI, rule takes_read [where bs = "u16_bytes n"]) (simp_all add: u16_bytes_back takes_return)

lemma takes_alloc: "0 < req \<Longrightarrow> 0 < sz \<Longrightarrow> takes (des_alloc req sz) [] () (req * sz)"
  unfolding takes_def
proof (intro allI impI)
  fix s a rest assume r: "0 < req" "0 < sz" and s: "ds_wf s \<and> ds_rest s = [] @ rest \<and> la_wf a \<and> req * sz < la_room a"
  with lmalloc_ok [of a req sz] show "\<exists>s' a'. des_alloc req sz (s, a) = Some (Inr (), s', a') \<and> ds_wf s' \<and> ds_rest s' = rest \<and>
      la_wf a' \<and> la_room a' = la_room a - req * sz"
    by (auto simp: des_alloc_def)
qed

lemma takes_key: "key_ok k \<Longrightarrow> takes des_key (key_bytes k) k (length k)"
  unfolding des_key_def
  by (rule takes_bindI, rule takes_u16 [of "length k"], simp add: key_ok_def, rule takes_bindI, rule takes_alloc, simp add: key_ok_def,
      simp, rule takes_read) (simp_all add: key_ok_def key_bytes_def)

lemma takes_keys: "list_all key_ok ks \<Longrightarrow> takes (des_keys (length ks)) (concat (map key_bytes ks)) ks (sum_list (map length ks))"
proof (induction ks)
  case (Cons k ks)
  from Cons.prems have k: "key_ok k" "list_all key_ok ks" by simp_all
  show ?case unfolding length_Cons des_keys.simps
    by (rule takes_bindI, rule takes_key [OF k(1)], rule takes_bindI, rule Cons.IH [OF k(2)], rule takes_return) simp_all
qed (simp add: takes_def)

lemma takes_dims: "takes (des_dims (length ds)) (concat (map (le_bytes 4) ds)) ds 0"
proof (induction ds)
  case (Cons d ds)
  have d: "(le_word (le_bytes 4 d) :: u32) = d" by (rule le_word_le_bytes) simp
  show ?case unfolding length_Cons des_dims.simps
    by (rule takes_bindI, rule takes_read [where bs = "le_bytes 4 d"], simp, simp, rule takes_bindI, rule Cons.IH)
      (simp_all add: d takes_return)
qed (simp add: takes_def)

section \<open>The builder during the deserialization\<close>

definition builder_at :: "kvt_builder \<Rightarrow> str list \<Rightarrow> type_t list \<Rightarrow> bool" where
  "builder_at ub ks ts \<longleftrightarrow> length ts = length ks \<and> kb_nodes ub = zip ks ts \<and> kb_klen ub = length ks \<and> kb_tlen ub = length ks \<and>
     kb_alloc ub = \<lparr>la_used = length ks * KV_NODE_SIZE, la_limit = 2048\<rparr>"

lemma builder_accepts:
  assumes "builder_at ub ks ts" and "length ks < 10" and "\<forall>x \<in> set ks. \<not> string_equal x k"
  shows "\<exists>u ub'. kvb_accept_key ub k = Some (Inr (), u) \<and> kvb_accept_type u t = Some (Inr (), ub') \<and> builder_at ub' (ks @ [k]) (ts @ [t])"
proof -
  let ?a = "\<lparr>la_used = length ks * KV_NODE_SIZE, la_limit = 2048\<rparr>"
  have b: "length ts = length ks" "kb_nodes ub = zip ks ts" "kb_klen ub = length ks" "kb_tlen ub = length ks" "kb_alloc ub = ?a"
    using assms(1) unfolding builder_at_def by blast+
  have new: "\<not> kvt_has_key_been_used ub k"
    using assms(3) by (auto simp: kvt_has_key_been_used_def b(2) dest: set_zip_leftD)
  have al: "lmalloc ?a 1 KV_NODE_SIZE = Some (Inr (length ks * KV_NODE_SIZE), \<lparr>la_used = (length ks + 1) * KV_NODE_SIZE, la_limit = 2048\<rparr>)"
    using assms(2) by (simp add: lmalloc_def lalloc_assert_def wrap32)
  let ?u = "ub\<lparr>kb_alloc := \<lparr>la_used = (length ks + 1) * KV_NODE_SIZE, la_limit = 2048\<rparr>, kb_nodes := zip ks ts @ [(k, T_PRIM U8)], kb_klen := length ks + 1\<rparr>"
  have k: "kvb_accept_key ub k = Some (Inr (), ?u)"
    using assms(2) new al b(1) by (simp add: kvb_accept_key_def kvt_builder_assert_def kvb_slot_def b(2-5) nth_append list_update_append)
  let ?v = "?u\<lparr>kb_nodes := zip ks ts @ [(k, t)], kb_tlen := length ks + 1\<rparr>"
  have "kvb_accept_type ?u t = Some (Inr (), ?v)"
    using assms(2) b(1) by (simp add: kvb_accept_type_def kvt_builder_assert_def kvb_slot_def b(4) nth_append list_update_append)
  moreover have "builder_at ?v (ks @ [k]) (ts @ [t])" using b(1) by (simp add: builder_at_def)
  ultimately show ?thesis using k by blast
qed

lemma takes_fields:
  assumes "length ts' = length ks'" and "\<And>t. t \<in> set ts' \<Longrightarrow> takes rd (type_bytes t) t (type_mem t)"
    and "builder_at ub ks ts" and "length ks + length ks' \<le> 10" and "distinct (ks @ ks')" and "list_all key_ok (ks @ ks')"
  shows "\<exists>ub'. builder_at ub' (ks @ ks') (ts @ ts') \<and>
    takes (kvt_deserialize_loop rd (length ks') ub) (kvs_bytes ks' ts') ub' (kvs_mem ks' ts')"
  using assms
proof (induction ks' arbitrary: ts' ub ks ts)
  case Nil
  have "takes (\<lambda>s. Some (Inr ub, s)) [] ub 0" by (rule takes_return)
  with Nil show ?case by (intro exI [of _ ub]) simp
next
  case (Cons k ks')
  from Cons.prems(1) obtain t ts'' where ts': "ts' = t # ts''" by (cases ts') auto
  have kok: "key_ok k" using Cons.prems(6) by simp
  have "\<forall>x \<in> set ks. \<not> string_equal x k"
    using Cons.prems(5,6) by (auto simp: list_all_iff key_ok_def string_equal_text)
  from builder_accepts [OF Cons.prems(3) _ this, of t] Cons.prems(4) obtain u ub1 where
    b: "kvb_accept_key ub k = Some (Inr (), u)" "kvb_accept_type u t = Some (Inr (), ub1)" "builder_at ub1 (ks @ [k]) (ts @ [t])" by auto
  have w: "takes (with_builder ub (\<lambda>ub. kvb_accept_key ub k)) [] u 0" "takes (with_builder u (\<lambda>ub. kvb_accept_type ub t)) [] ub1 0"
    by (simp_all add: takes_def with_builder_def b(1,2))
  have "\<exists>ub'. builder_at ub' ((ks @ [k]) @ ks') ((ts @ [t]) @ ts'') \<and>
    takes (kvt_deserialize_loop rd (length ks') ub1) (kvs_bytes ks' ts'') ub' (kvs_mem ks' ts'')"
    using Cons.prems by (intro Cons.IH) (auto simp: ts' b(3))
  then obtain ub2 where l: "builder_at ub2 (ks @ k # ks') (ts @ t # ts'')"
    "takes (kvt_deserialize_loop rd (length ks') ub1) (kvs_bytes ks' ts'') ub2 (kvs_mem ks' ts'')" by auto
  have rd: "takes rd (type_bytes t) t (type_mem t)" using Cons.prems(2) by (simp add: ts')
  have "takes (kvt_deserialize_loop rd (length (k # ks')) ub) (kvs_bytes (k # ks') ts') ub2 (kvs_mem (k # ks') ts')"
    unfolding length_Cons kvt_deserialize_loop.simps
    by (rule takes_bindI, rule takes_key [OF kok], rule takes_bindI, rule rd, rule takes_bindI, rule w(1),
        rule takes_bindI, rule w(2), rule l(2)) (simp_all add: ts')
  then show ?case using l(1) unfolding ts' by (intro exI [of _ ub2] conjI)
qed

lemma kvt_deserialize_takes:
  assumes "length ts = length ks" "2 \<le> length ks" "length ks \<le> 10" "distinct ks" "list_all key_ok ks"
    and "\<And>t. t \<in> set ts \<Longrightarrow> takes rd (type_bytes t) t (type_mem t)"
    and "\<And>ub a. builder_at ub ks ts \<Longrightarrow> la_wf a \<Longrightarrow> length ks * STRING_SIZE + length ks * TYPE_SIZE < la_room a \<Longrightarrow>
      \<exists>a'. build ub a = Some (Inr t, a') \<and> la_wf a' \<and> la_room a' = la_room a - (length ks * STRING_SIZE + length ks * TYPE_SIZE)"
  shows "takes (kvt_deserialize build rd) (u16_bytes (length ks) @ kvs_bytes ks ts) t
    (kvs_mem ks ts + length ks * STRING_SIZE + length ks * TYPE_SIZE)"
proof -
  let ?ub = "kvb_create \<lparr>la_used = 0, la_limit = 2048\<rparr>"
  have c: "lalloc_create 2048 = Some \<lparr>la_used = 0, la_limit = 2048\<rparr>" by (simp add: lalloc_create_def lalloc_assert_def)
  have "builder_at ?ub [] []" by (simp add: builder_at_def kvb_create_def)
  from takes_fields [OF assms(1,6) this] assms(3-5) obtain ub where
    u: "builder_at ub ks ts" "takes (kvt_deserialize_loop rd (length ks) ?ub) (kvs_bytes ks ts) ub (kvs_mem ks ts)" by auto
  have b: "takes (\<lambda>(src, a). do { (r, a) \<leftarrow> build ub a; Some (r, src, a) }) [] t (length ks * STRING_SIZE + length ks * TYPE_SIZE)"
    unfolding takes_def using assms(7) [OF u(1)] by fastforce
  show ?thesis unfolding kvt_deserialize_def c Option.bind.bind_lunit Let_def
    by (rule takes_bindI, rule takes_u16 [of "length ks"], use assms(3) in simp, rule takes_bindI, rule u(2), rule b) simp_all
qed

lemma builds:
  assumes "builder_at ub ks ts" "2 \<le> length ks" "la_wf a" "length ks * STRING_SIZE + length ks * TYPE_SIZE < la_room a"
  shows "\<exists>a'. kvb_struct_t_build ub a = Some (Inr (T_STRUCT ks ts), a') \<and> la_wf a' \<and>
      la_room a' = la_room a - (length ks * STRING_SIZE + length ks * TYPE_SIZE)"
    "\<exists>a'. kvb_union_t_build ub a = Some (Inr (T_UNION ks ts), a') \<and> la_wf a' \<and>
      la_room a' = la_room a - (length ks * STRING_SIZE + length ks * TYPE_SIZE)"
proof -
  have b: "length ts = length ks" "kb_nodes ub = zip ks ts" "kb_klen ub = length ks" "kb_tlen ub = length ks"
    using assms(1) unfolding builder_at_def by blast+
  have pos: "0 < length ks" using assms(2) by linarith
  from lmalloc_ok [OF assms(3) pos, of STRING_SIZE] assms(4) obtain a1 where
    a1: "lmalloc a (length ks) STRING_SIZE = Some (Inr (la_used a), a1)" "la_wf a1" "la_room a1 = la_room a - length ks * STRING_SIZE" by auto
  have "length ks * TYPE_SIZE < la_room a1" using assms(4) a1(3) by auto
  from lmalloc_ok [OF a1(2) pos _ this] obtain a2 where
    a2: "lmalloc a1 (length ks) TYPE_SIZE = Some (Inr (la_used a1), a2)" "la_wf a2" "la_room a2 = la_room a1 - length ks * TYPE_SIZE" by auto
  have "kvb_build_common ub a = Some (Inr (ks, ts), a2)"
    using b pos a1(1) a2(1) by (simp add: kvb_build_common_def)
  with a1(3) a2(2,3) assms(2) show "\<exists>a'. kvb_struct_t_build ub a = Some (Inr (T_STRUCT ks ts), a') \<and> la_wf a' \<and>
      la_room a' = la_room a - (length ks * STRING_SIZE + length ks * TYPE_SIZE)"
    "\<exists>a'. kvb_union_t_build ub a = Some (Inr (T_UNION ks ts), a') \<and> la_wf a' \<and>
      la_room a' = la_room a - (length ks * STRING_SIZE + length ks * TYPE_SIZE)"
    by (simp_all add: kvb_struct_t_build_def kvb_union_t_build_def)
qed

lemma type_deserialize_tag:
  assumes "ds_wf s" and "ds_rest s = c # bs"
  shows "\<exists>s'. ds_wf s' \<and> ds_rest s' = bs \<and> type_deserialize (s, a) =
    (if c = 0 then do { (r, src) \<leftarrow> prim_t_deserialize s'; Some (map_sum id T_PRIM r, src, a) }
     else if c = 1 then kvt_deserialize kvb_struct_t_build type_deserialize (s', a)
     else if c = 2 then kvt_deserialize kvb_union_t_build type_deserialize (s', a)
     else if c = 3 then enum_t_deserialize (s', a)
     else if c = 4 then sarray_t_deserialize type_deserialize (s', a)
     else Some (Inl ERR_INTERP, s', a))"
proof -
  from dsrlizr_read_correct [OF assms(1), of 1] assms(2) obtain s' where
    s': "dsrlizr_read 1 s = Some (Some [c], s')" "ds_wf s'" "ds_rest s' = bs" by auto
  have "unat c = n \<longleftrightarrow> c = of_nat n" if "n < 256" for n using that by (auto simp: unat_of_nat)
  from this [of 0] this [of 1] this [of 2] this [of 3] this [of 4] s' show ?thesis
    by (intro exI [of _ s']) (subst type_deserialize.simps, simp add: Let_def)
qed

lemma takes_tag:
  assumes "takes f bs x m"
    and "(c = 1 \<and> f = kvt_deserialize kvb_struct_t_build type_deserialize) \<or> (c = 2 \<and> f = kvt_deserialize kvb_union_t_build type_deserialize) \<or>
      (c = 3 \<and> f = enum_t_deserialize) \<or> (c = 4 \<and> f = sarray_t_deserialize type_deserialize)"
  shows "takes type_deserialize (c # bs) x m"
  unfolding takes_def
proof (intro allI impI)
  fix s a rest assume s: "ds_wf s \<and> ds_rest s = (c # bs) @ rest \<and> la_wf a \<and> m < la_room a"
  then have "ds_rest s = c # bs @ rest" by simp
  with type_deserialize_tag [of s c "bs @ rest" a] s assms(2) obtain s' where
    s': "ds_wf s'" "ds_rest s' = bs @ rest" "type_deserialize (s, a) = f (s', a)" by auto
  from takesD [OF assms(1) s'(1,2)] s s'(3) show "\<exists>s' a'. type_deserialize (s, a) = Some (Inr x, s', a') \<and> ds_wf s' \<and>
      ds_rest s' = rest \<and> la_wf a' \<and> la_room a' = la_room a - m" by metis
qed

lemma prim_takes: "takes type_deserialize (type_bytes (T_PRIM p)) (T_PRIM p) 0"
  unfolding takes_def
proof (intro allI impI)
  fix s a rest assume s: "ds_wf s \<and> ds_rest s = type_bytes (T_PRIM p) @ rest \<and> la_wf a \<and> 0 < la_room a"
  then have "ds_rest s = 0 # of_nat (prim_code p) # rest" by simp
  with type_deserialize_tag [of s 0 "of_nat (prim_code p) # rest" a] s obtain s' where
    s': "ds_wf s'" "ds_rest s' = of_nat (prim_code p) # rest"
      "type_deserialize (s, a) = do { (r, src) \<leftarrow> prim_t_deserialize s'; Some (map_sum id T_PRIM r, src, a) }" by auto
  from dsrlizr_read_correct [OF s'(1), of 1] s'(2) obtain s2 where
    s2: "dsrlizr_read 1 s' = Some (Some [of_nat (prim_code p)], s2)" "ds_wf s2" "ds_rest s2 = rest" by auto
  have "length prims = 24" by (simp add: prims_def)
  then have "prim_code p < 24" using prim_code_ok [of p] by simp
  then have "unat (of_nat (prim_code p) :: u8) = prim_code p" by (simp add: unat_of_nat)
  with s2(1) prim_code_ok [of p] have "prim_t_deserialize s' = Some (Inr p, s2)" by (simp add: prim_t_deserialize_def Let_def)
  with s s'(3) s2(2,3) show "\<exists>s' a'. type_deserialize (s, a) = Some (Inr (T_PRIM p), s', a') \<and> ds_wf s' \<and> ds_rest s' = rest \<and>
      la_wf a' \<and> la_room a' = la_room a - 0" by simp
qed

lemma type_deserialize_takes: "type_ok t \<Longrightarrow> takes type_deserialize (type_bytes t) t (type_mem t)"
proof (induction t)
  case (T_PRIM p)
  then show ?case using prim_takes by simp
next
  case (T_STRUCT ks ts)
  have ok: "length ts = length ks" "2 \<le> length ks" "length ks \<le> 10" "distinct ks" "list_all key_ok ks"
    "\<And>t. t \<in> set ts \<Longrightarrow> type_ok t" using T_STRUCT.prems by (simp_all add: types_ok_all)
  from kvt_deserialize_takes [OF ok(1-5) T_STRUCT.IH [OF _ ok(6)] builds(1)] ok(2)
  have "takes (kvt_deserialize kvb_struct_t_build type_deserialize) (u16_bytes (length ks) @ kvs_bytes ks ts) (T_STRUCT ks ts)
    (type_mem (T_STRUCT ks ts))" by simp
  then show ?case unfolding type_bytes.simps by (rule takes_tag) simp_all
next
  case (T_UNION ks ts)
  have ok: "length ts = length ks" "2 \<le> length ks" "length ks \<le> 10" "distinct ks" "list_all key_ok ks"
    "\<And>t. t \<in> set ts \<Longrightarrow> type_ok t" using T_UNION.prems by (simp_all add: types_ok_all)
  from kvt_deserialize_takes [OF ok(1-5) T_UNION.IH [OF _ ok(6)] builds(2)] ok(2)
  have "takes (kvt_deserialize kvb_union_t_build type_deserialize) (u16_bytes (length ks) @ kvs_bytes ks ts) (T_UNION ks ts)
    (type_mem (T_UNION ks ts))" by simp
  then show ?case unfolding type_bytes.simps by (rule takes_tag) simp_all
next
  case (T_ENUM ks)
  then have ok: "0 < length ks" "length ks < 2 ^ 16" "distinct ks" "list_all key_ok ks" by simp_all
  have v: "takes (\<lambda>s. Some (case enum_t_validate ks of Inl e \<Rightarrow> Inl e | Inr _ \<Rightarrow> Inr (T_ENUM ks), s)) [] (T_ENUM ks) 0"
    using keys_valid(3) [OF ok(1,3,4)] takes_return by simp
  have "takes enum_t_deserialize (u16_bytes (length ks) @ concat (map key_bytes ks)) (T_ENUM ks) (type_mem (T_ENUM ks))"
    unfolding enum_t_deserialize_def
    by (rule takes_bindI, rule takes_u16 [OF ok(2)], rule takes_bindI, rule takes_alloc [OF ok(1)], simp, rule takes_bindI,
        rule takes_keys [OF ok(4)], rule v) simp_all
  then show ?case unfolding type_bytes.simps by (rule takes_tag) simp_all
next
  case (T_SARRAY ds t)
  then have ok: "0 < length ds" "length ds < 2 ^ 16" "0 \<notin> set ds" "type_ok t" by simp_all
  have v: "takes (\<lambda>s. Some (case sarray_t_validate_shallow ds of Inl e \<Rightarrow> Inl e | Inr _ \<Rightarrow> Inr (T_SARRAY ds t), s)) [] (T_SARRAY ds t) 0"
    using ok(1,3) takes_return by (simp add: sarray_t_validate_shallow_def)
  have "takes (sarray_t_deserialize type_deserialize) (u16_bytes (length ds) @ concat (map (le_bytes 4) ds) @ type_bytes t)
      (T_SARRAY ds t) (type_mem (T_SARRAY ds t))"
    unfolding sarray_t_deserialize_def
    by (rule takes_bindI, rule takes_u16 [OF ok(2)], rule takes_bindI, rule takes_alloc [OF ok(1)], simp,
        rule takes_bindI, rule takes_alloc, simp, simp, rule takes_bindI, rule takes_dims, rule takes_bindI,
        rule T_SARRAY.IH [OF ok(4)], rule v) simp_all
  then show ?case unfolding type_bytes.simps by (rule takes_tag) simp_all
qed

section \<open>The announced size\<close>

lemma serial_size:
  "type_ok t \<Longrightarrow> type_get_serial_size t = Some (of_nat (length (type_bytes t)))"
  "types_ok ts \<Longrightarrow> length ts = length ks \<Longrightarrow>
     struct_t_get_serial_size ks ts ret = Some (ret + of_nat (length (kvs_bytes ks ts)) - 2 * of_nat (length ks))"
proof (induction t and ks ts arbitrary: and ret rule: type_bytes_kvs_bytes.induct)
  case (4 ks)
  have "fold (\<lambda>k ret. ret + of_nat (length k)) ks r = r + of_nat (length (concat (map key_bytes ks))) - 2 * of_nat (length ks)" for r :: u32
    by (induction ks arbitrary: r) (simp_all add: key_bytes_def algebra_simps)
  with 4 show ?case by (simp add: type_get_serial_size.simps(1) [of "T_ENUM ks"] enum_t_get_serial_size_def)
next
  case (5 ds t)
  have "length (concat (map (le_bytes 4) ds)) = 4 * length ds" by (induction ds) simp_all
  with 5 show ?case by (simp add: type_get_serial_size.simps(1) [of "T_SARRAY ds t"])
next
  case (6 k ks t ts)
  then show ?case by (simp add: key_bytes_def algebra_simps)
qed (simp_all add: type_get_serial_size.simps(1) [of "T_PRIM _"] type_get_serial_size.simps(1) [of "T_STRUCT _ _"]
    type_get_serial_size.simps(1) [of "T_UNION _ _"])

lemma type_written:
  assumes "type_ok t" and "length (type_bytes t) \<le> dcap" and "dcap \<le> length buf" and "dcap < 2 ^ 31"
  shows "\<exists>s. type_serialize (srlizr_create buf dcap) t = Some s \<and> sr_dlen s = length (type_bytes t) \<and>
    ds_wf (dsrlizr_create (sr_data s) (sr_dlen s)) \<and> ds_rest (dsrlizr_create (sr_data s) (sr_dlen s)) = type_bytes t"
proof -
  have n: "0 < length (type_bytes t)" by (cases t) simp_all
  then have "0 < dcap" using assms(2) by linarith
  then have "sr_wf (srlizr_create buf dcap)" using assms(3,4) by simp
  with type_serialize_puts(1) [OF assms(1)] assms(2) obtain s where
    s: "type_serialize (srlizr_create buf dcap) t = Some s" "sr_wf s" "sr_out s = type_bytes t" by (auto simp: puts_def)
  have len: "sr_dlen s = length (type_bytes t)" "sr_dlen s \<le> length (sr_data s)" "sr_dlen s < 2147483648"
    using s(2) arg_cong [OF s(3), of length] by (auto simp: sr_out_def sr_wf_def)
  with n have "ds_wf (dsrlizr_create (sr_data s) (sr_dlen s))" by (intro dsrlizr_create_wf) simp_all
  with s len(1) show ?thesis by (auto simp: sr_out_def)
qed

section \<open>Properties\<close>

text \<open>C19: A type that is written is read back, within the limits of the reader. For every type with two to ten fields in each struct
  and union, keys that differ and are non-empty texts without zero bytes, and non-zero dimensions, if the buffer is large enough the
  serialization writes as many bytes as it announced, and the deserialization, given enough memory, takes exactly these bytes and
  gives the type. (With one field the reader fails an assertion, see below.)\<close>

theorem type_serialize_roundtrip:
  assumes "type_ok t" and "length (type_bytes t) \<le> dcap" and "dcap \<le> length buf" and "dcap < 2 ^ 31"
    and "la_wf a" and "type_mem t < la_room a"
  shows "\<exists>s d a'. type_serialize (srlizr_create buf dcap) t = Some s \<and>
    type_get_serial_size t = Some (of_nat (sr_dlen s)) \<and>
    type_deserialize (dsrlizr_create (sr_data s) (sr_dlen s), a) = Some (Inr t, d, a') \<and> ds_rest d = []"
proof -
  from type_written [OF assms(1-4)] obtain s where
    s: "type_serialize (srlizr_create buf dcap) t = Some s" "sr_dlen s = length (type_bytes t)"
      "ds_wf (dsrlizr_create (sr_data s) (sr_dlen s))" "ds_rest (dsrlizr_create (sr_data s) (sr_dlen s)) = type_bytes t @ []" by auto
  from takesD [OF type_deserialize_takes [OF assms(1)] s(3,4) assms(5,6)] serial_size(1) [OF assms(1)] s(1,2)
  show ?thesis by metis
qed

definition example_type :: type_t where
  "example_type = T_STRUCT [[97], [98]] [T_PRIM I32, T_SARRAY [3, 4] (T_UNION [[99], [100]] [T_PRIM F64, T_ENUM [[101]]])]"

theorem type_serialize_roundtrip_witness:
  "\<exists>s d a'. type_serialize (srlizr_create (replicate 100 0) 100) example_type = Some s \<and>
     type_get_serial_size example_type = Some (of_nat (sr_dlen s)) \<and>
     type_deserialize (dsrlizr_create (sr_data s) (sr_dlen s), \<lparr>la_used = 0, la_limit = 4096\<rparr>) = Some (Inr example_type, d, a') \<and>
     ds_rest d = []"
  by (rule type_serialize_roundtrip) (simp_all add: example_type_def key_ok_def key_bytes_def la_wf_def la_room_def)

text \<open>A struct with one field cannot be read back. It is valid and is written like any other type, but when
  the deserialization has read it, an assertion that a struct has more than one field fails.\<close>

theorem single_field_struct_crashes:
  assumes "type_ok t" and "key_ok k" and "length (type_bytes t) + length k + 5 \<le> dcap" and "dcap \<le> length buf" and "dcap < 2 ^ 31"
    and "la_wf a" and "type_mem t + length k + STRING_SIZE + TYPE_SIZE < la_room a"
  shows "\<exists>s. type_validate (T_STRUCT [k] [t]) = Inr () \<and> type_serialize (srlizr_create buf dcap) (T_STRUCT [k] [t]) = Some s \<and>
    type_deserialize (dsrlizr_create (sr_data s) (sr_dlen s), a) = None"
proof -
  let ?b = "1 # u16_bytes 1 @ kvs_bytes [k] [t]"
  have v: "type_validate (T_STRUCT [k] [t]) = Inr ()"
    using keys_valid(1) [of "[k]"] assms(2) by (simp add: struct_t_validate_def)
  have "puts (\<lambda>s. struct_t_serialize s [k] [t]) (kvs_bytes [k] [t])" using assms(1) by (intro type_serialize_puts(2)) simp_all
  from puts_bind [OF puts_write [of "[1]"] puts_bind [OF puts_u16 [of 1] this]] v
  have p: "puts (\<lambda>s. type_serialize s (T_STRUCT [k] [t])) ?b"
    by (simp add: type_serialize.simps(1) [of _ "T_STRUCT [k] [t]"] valid_type_def)
  have "sr_wf (srlizr_create buf dcap)" "length ?b \<le> dcap" using assms(3-5) by (simp_all add: key_bytes_def)
  with p assms(3) obtain s where
    s: "type_serialize (srlizr_create buf dcap) (T_STRUCT [k] [t]) = Some s" "sr_wf s" "sr_out s = ?b" by (auto simp: puts_def)
  have len: "sr_dlen s = length ?b" "sr_dlen s \<le> length (sr_data s)" "sr_dlen s < 2147483648"
    using s(2) arg_cong [OF s(3), of length] by (auto simp: sr_out_def sr_wf_def)
  let ?d = "dsrlizr_create (sr_data s) (sr_dlen s)"
  have d: "ds_wf ?d" "ds_rest ?d = 1 # u16_bytes 1 @ kvs_bytes [k] [t]"
    using len s(3) by (simp_all add: dsrlizr_create_wf sr_out_def)
  from type_deserialize_tag [OF d, of a] obtain d1 where
    d1: "ds_wf d1" "ds_rest d1 = u16_bytes 1 @ kvs_bytes [k] [t] @ []"
      "type_deserialize (?d, a) = kvt_deserialize kvb_struct_t_build type_deserialize (d1, a)" by auto
  let ?ub = "kvb_create \<lparr>la_used = 0, la_limit = 2048\<rparr>"
  have b0: "builder_at ?ub [] []" by (simp add: builder_at_def kvb_create_def)
  have "\<And>u. u \<in> set [t] \<Longrightarrow> takes type_deserialize (type_bytes u) u (type_mem u)" using type_deserialize_takes [OF assms(1)] by simp
  from takes_fields [where ks' = "[k]" and ts' = "[t]", OF _ this b0] assms(2) obtain ub where
    u: "builder_at ub [k] [t]" "takes (kvt_deserialize_loop type_deserialize (Suc 0) ?ub) (kvs_bytes [k] [t]) ub (kvs_mem [k] [t])" by auto
  from takesD [OF takes_u16 [of 1] d1(1,2) assms(6)] assms(7) obtain d2 a2 where
    d2: "read_u16 (d1, a) = Some (Inr 1, d2, a2)" "ds_wf d2" "ds_rest d2 = kvs_bytes [k] [t] @ []" "la_wf a2" "la_room a2 = la_room a" by auto
  have "kvs_mem [k] [t] < la_room a2" using assms(7) d2(5) by simp
  from takesD [OF u(2) d2(2-4) this] obtain d3 a3 where
    d3: "kvt_deserialize_loop type_deserialize (Suc 0) ?ub (d2, a2) = Some (Inr ub, d3, a3)" "la_wf a3"
      "la_room a3 = la_room a2 - kvs_mem [k] [t]" by blast
  have r: "STRING_SIZE + TYPE_SIZE < la_room a3" using d3(3) d2(5) assms(7) by simp
  with lmalloc_ok [OF d3(2), of 1 STRING_SIZE] obtain a4 where
    a4: "lmalloc a3 (Suc 0) STRING_SIZE = Some (Inr (la_used a3), a4)" "la_wf a4" "la_room a4 = la_room a3 - STRING_SIZE" by auto
  then have "1 * TYPE_SIZE < la_room a4" using r by arith
  from lmalloc_ok [OF a4(2) _ _ this] obtain a5 where "lmalloc a4 (Suc 0) TYPE_SIZE = Some (Inr (la_used a4), a5)" by auto
  with a4(1) u(1) have "kvb_struct_t_build ub a3 = None"
    by (simp add: kvb_struct_t_build_def kvb_build_common_def builder_at_def)
  with d2(1) d3(1) d1(3) have "type_deserialize (?d, a) = None"
    by (simp add: kvt_deserialize_def lalloc_create_def lalloc_assert_def)
  with v s(1) show ?thesis by blast
qed

theorem single_field_struct_crashes_witness:
  "\<exists>s. type_validate (T_STRUCT [[97]] [T_PRIM I32]) = Inr () \<and>
     type_serialize (srlizr_create (replicate 100 0) 100) (T_STRUCT [[97]] [T_PRIM I32]) = Some s \<and>
     type_deserialize (dsrlizr_create (sr_data s) (sr_dlen s), \<lparr>la_used = 0, la_limit = 4096\<rparr>) = None"
  by (rule single_field_struct_crashes) (simp_all add: key_ok_def la_wf_def la_room_def)

text \<open>The part of a type that the comparison looks at.\<close>

primrec outline :: "type_t \<Rightarrow> type_t" where
  "outline (T_PRIM p) = T_PRIM p"
| "outline (T_STRUCT ks ts) = T_STRUCT ks (map outline ts)"
| "outline (T_UNION ks ts) = T_UNION ks (map outline ts)"
| "outline (T_ENUM ks) = T_ENUM ks"
| "outline (T_SARRAY ds t) = T_SARRAY ds (T_PRIM U8)"

text \<open>C22: Two types are taken for equal exactly when they are the same but for the types of the elements of
  their arrays, which are not compared: an array of bytes is equal to an array of structs of the same
  dimensions.\<close>

theorem type_equal_decides:
  assumes "type_ok left" and "type_ok right"
  shows "type_equal left right = Some (outline left = outline right)"
proof -
  have keys: "list_all2 string_equal ks ks' \<longleftrightarrow> ks = ks'" if "list_all key_ok ks" for ks ks'
    using that by (induction ks arbitrary: ks') (auto simp: list_all2_Cons1 string_equal_text key_ok_def)
  have "type_ok t \<longrightarrow> type_ok t' \<longrightarrow> type_equal t t' = Some (outline t = outline t')"
    "types_ok ts \<longrightarrow> types_ok ts' \<longrightarrow> list_all key_ok ks \<longrightarrow> length ts = length ks \<longrightarrow> length ts' = length ks' \<longrightarrow> length ks = length ks' \<longrightarrow>
      struct_t_equal ks ts ks' ts' = Some (ks = ks' \<and> map outline ts = map outline ts')" for t t' ks ts ks' ts'
  proof (induction t t' and ks ts ks' ts' rule: type_equal_struct_t_equal.induct)
    case (4 ks ks')
    then show ?case using keys_valid(3) [of ks] keys_valid(3) [of ks'] keys [of ks ks'] by (auto simp: enum_t_equal_def)
  next
    case (7 k ks t ts k' ks' t' ts')
    have "string_equal k k' \<longleftrightarrow> k = k'" if "key_ok k" using that by (simp add: string_equal_text key_ok_def)
    with 7 show ?case by auto
  qed (auto simp: sarray_t_equal_def)
  with assms show ?thesis by blast
qed

theorem type_equal_decides_witness:
  "type_equal (T_SARRAY [3] (T_PRIM U8)) (T_SARRAY [3] example_type) = Some True"
  using type_equal_decides [of "T_SARRAY [3] (T_PRIM U8)" "T_SARRAY [3] example_type"] by (simp add: example_type_def key_ok_def)

section \<open>What is printed\<close>

fun type_text :: "type_t \<Rightarrow> str"
and kvs_text :: "str list \<Rightarrow> type_t list \<Rightarrow> str" where
  "type_text (T_PRIM p) = prim_to_str p"
| "type_text (T_STRUCT ks ts) = chars ''struct { '' @ kvs_text ks ts @ chars '' }''"
| "type_text (T_UNION ks ts) = chars ''union { '' @ kvs_text ks ts @ chars '' }''"
| "type_text (T_ENUM ks) = chars ''enum { '' @
     concat (map (\<lambda>(i, k). k @ (if i + 1 < length ks then chars '', '' else [])) (enumerate 0 ks)) @ chars '' }''"
| "type_text (T_SARRAY ds t) = concat (map (\<lambda>d. chars ''['' @ dec (unat d) @ chars '']'') ds) @ type_text t"
| "kvs_text (k # ks) (t # ts) = k @ chars '' '' @ type_text t @ (if ks = [] then [] else chars '', '') @ kvs_text ks ts"
| "kvs_text ks ts = []"

definition printed :: "nat \<Rightarrow> u8 list \<Rightarrow> str \<Rightarrow> printing \<Rightarrow> bool" where
  \<comment> \<open>the text so far, in a buffer of \<open>n\<close> bytes that was \<open>buf\<close>\<close>
  "printed n buf cs s \<longleftrightarrow> (\<exists>bs. s = (length cs, Some bs, length cs, n - length cs) \<and> length bs = length buf \<and>
     drop n bs = drop n buf \<and> take (min (length cs) (n - 1)) bs = take (n - 1) cs \<and>
     (cs \<noteq> [] \<longrightarrow> bs ! min (length cs) (n - 1) = 0))"

definition prints :: "(printing \<Rightarrow> printing option) \<Rightarrow> str \<Rightarrow> bool" where
  "prints f cs \<longleftrightarrow> (\<forall>n buf t s. 0 < n \<and> n \<le> length buf \<and> printed n buf t s \<longrightarrow> (\<exists>s'. f s = Some s' \<and> printed n buf (t @ cs) s'))"

lemma prints_bind: "prints f t \<Longrightarrow> prints g u \<Longrightarrow> prints (\<lambda>s. Option.bind (f s) g) (t @ u)"
  unfolding prints_def by (metis append_assoc bind.bind_lunit)

lemma prints_Some: "prints Some []"
  by (simp add: prints_def)

lemma prints_visit: "(\<And>x. prints (f x) (cs x)) \<Longrightarrow> prints (visit f xs) (concat (map cs xs))"
proof (induction xs)
  case (Cons x xs)
  from prints_bind [OF Cons.prems [of x] Cons.IH [OF Cons.prems]] show ?case by simp
qed (simp add: prints_def)

lemma prints_text: "cs \<noteq> [] \<Longrightarrow> prints (print_text cs) cs"
  unfolding prints_def
proof (intro allI impI)
  fix n buf t s assume cs: "cs \<noteq> []" and a: "0 < n \<and> n \<le> length buf \<and> printed n buf t s"
  then obtain bs where bs: "s = (length t, Some bs, length t, n - length t)" "length bs = length buf" "drop n bs = drop n buf"
    "take (min (length t) (n - 1)) bs = take (n - 1) t" "t \<noteq> [] \<longrightarrow> bs ! min (length t) (n - 1) = 0" unfolding printed_def by blast
  show "\<exists>s'. print_text cs s = Some s' \<and> printed n buf (t @ cs) s'"
  proof (cases "length t < n")
    case False
    then have "print_text cs s = Some (length (t @ cs), Some bs, length (t @ cs), n - length (t @ cs))"
      by (simp add: bs(1) print_text_def snprintf_def advance_def)
    moreover have "t \<noteq> []" using False a by auto
    ultimately show ?thesis using bs False by (auto simp: printed_def)
  next
    case True
    let ?w = "take (n - length t - 1) cs @ [0 :: u8]" and ?l = "length t"
    have l: "?l + length ?w \<le> n" using True by auto
    then have fit: "?l + length ?w \<le> length bs" using a bs(2) by simp
    have "min (length t) (n - 1) = ?l" "take (n - 1) t = t" using True by simp_all
    with bs(4) have tk: "take ?l bs = t" by simp
    let ?b = "splice bs ?l ?w"
    have b: "?b = t @ take (n - ?l - 1) cs @ [0] @ drop (?l + length ?w) bs" using tk by (simp add: splice_def)
    have "print_text cs s = Some (length (t @ cs), Some ?b, length (t @ cs), n - length (t @ cs))"
      using True fit by (simp add: bs(1) print_text_def snprintf_def advance_def mem_write_def)
    moreover have "length ?b = length buf" using fit bs(2) by simp
    moreover have "drop n ?b = drop n buf"
    proof -
      have "drop n ?b = drop n bs" using l fit by (intro nth_equalityI) (auto simp: nth_splice)
      with bs(3) show ?thesis by simp
    qed
    moreover have "take (min (length (t @ cs)) (n - 1)) ?b = take (n - 1) (t @ cs)"
      unfolding b using True by (simp add: min_def) linarith
    moreover have "?b ! min (length (t @ cs)) (n - 1) = 0"
    proof (cases "length t + length cs \<le> n - 1")
      case True
      with \<open>?l < n\<close> show ?thesis unfolding b by (simp add: nth_append)
    next
      case False
      with \<open>?l < n\<close> have "min (length (t @ cs)) (n - 1) = ?l + (n - ?l - 1)" "n - ?l - 1 < length cs" by auto
      then show ?thesis unfolding b by (simp add: nth_append)
    qed
    ultimately show ?thesis using cs by (auto simp: printed_def)
  qed
qed

lemma cstr_key: "key_ok k \<Longrightarrow> cstr k = k \<and> k \<noteq> []"
  by (auto simp: cstr_def key_ok_def takeWhile_eq_all_conv)

lemma prim_to_str_ne: "prim_to_str p \<noteq> []"
  by (cases p) (simp_all add: chars_def)

lemma prints_enum:
  assumes "0 < length ks" "distinct ks" "list_all key_ok ks"
  shows "prints (enum_t_snprintf ks) (type_text (T_ENUM ks))"
proof -
  let ?f = "\<lambda>(i, k) s. do { s \<leftarrow> print_text (cstr k) s; if i + 1 < length ks then print_text (chars '', '') s else Some s }"
  let ?t = "\<lambda>(i, k). k @ (if i + 1 < length ks then chars '', '' else [])"
  have step: "prints (?f x) (?t x)" if "key_ok (snd x)" for x :: "nat \<times> str"
  proof -
    have "prints (\<lambda>s. if fst x + 1 < length ks then print_text (chars '', '') s else Some s) (if fst x + 1 < length ks then chars '', '' else [])"
      using prints_text [of "chars '', ''"] prints_Some by (auto simp: chars_def prints_def)
    from prints_bind [OF prints_text [of "snd x"] this] cstr_key [OF that] show ?thesis by (simp add: case_prod_beta)
  qed
  have "prints (visit ?f xs) (concat (map ?t xs))" if "\<forall>x \<in> set xs. key_ok (snd x)" for xs
    using that
  proof (induction xs)
    case (Cons x xs)
    from prints_bind [OF step [of x] Cons.IH] Cons.prems show ?case by simp
  qed (simp add: prints_def)
  moreover have "\<forall>x \<in> set (enumerate 0 ks). key_ok (snd x)" using assms(3) by (auto simp: list_all_iff in_set_enumerate_eq)
  ultimately have l: "prints (visit ?f (enumerate 0 ks)) (concat (map ?t (enumerate 0 ks)))" by blast
  have c: "chars ''enum { '' \<noteq> []" "chars '' }'' \<noteq> []" by (simp_all add: chars_def)
  from prints_bind [OF prints_text [OF c(1)] prints_bind [OF l prints_text [OF c(2)]]] keys_valid(3) [OF assms]
  show ?thesis by (simp add: enum_t_snprintf_def [abs_def])
qed

lemma type_snprintf_prints:
  "type_ok t \<Longrightarrow> prints (type_snprintf t) (type_text t)"
  "types_ok ts \<Longrightarrow> list_all key_ok ks \<Longrightarrow> length ts = length ks \<Longrightarrow> prints (struct_t_snprintf ks ts) (kvs_text ks ts)"
proof (induction t and ks ts rule: type_bytes_kvs_bytes.induct)
  case (1 p)
  then show ?case using prints_text [OF prim_to_str_ne] by (simp add: type_snprintf.simps(1) [abs_def])
next
  case (2 ks ts)
  have c: "chars ''struct { '' \<noteq> []" "chars '' }'' \<noteq> []" by (simp_all add: chars_def)
  from 2 prints_bind [OF prints_text [OF c(1)] prints_bind [OF 2(1) prints_text [OF c(2)]]]
  show ?case by (simp add: type_snprintf.simps(1) [abs_def])
next
  case (3 ks ts)
  have c: "chars ''union { '' \<noteq> []" "chars '' }'' \<noteq> []" by (simp_all add: chars_def)
  from 3 prints_bind [OF prints_text [OF c(1)] prints_bind [OF 3(1) prints_text [OF c(2)]]]
  show ?case by (simp add: type_snprintf.simps(1) [abs_def])
next
  case (4 ks)
  then show ?case using prints_enum [of ks] by (simp add: type_snprintf.simps(1) [abs_def])
next
  case (5 ds t)
  have "prints (print_text (chars ''['' @ dec (unat d) @ chars '']'')) (chars ''['' @ dec (unat d) @ chars '']'')" for d :: u32
    by (rule prints_text) (simp add: chars_def)
  from prints_bind [OF prints_visit [of "\<lambda>d. print_text (chars ''['' @ dec (unat d) @ chars '']'')", OF this] 5(1)] 5(2)
  show ?case by (simp add: type_snprintf.simps(1) [abs_def])
next
  case (6 k ks t ts)
  then have k: "cstr k = k" "k @ chars '' '' \<noteq> []" using cstr_key [of k] by simp_all
  have "prints (\<lambda>s. if ks \<noteq> [] then print_text (chars '', '') s else Some s) (if ks = [] then [] else chars '', '')"
    using prints_text [of "chars '', ''"] prints_Some by (auto simp: chars_def prints_def)
  from prints_bind [OF prints_text [OF k(2)] prints_bind [OF 6(1) prints_bind [OF this 6(2)]]] 6(3-5) k(1)
  show ?case by simp
qed (simp_all add: prints_def)

text \<open>Printing a type into a buffer of \<open>n\<close> bytes gives the length of its text and leaves the text, cut to what
  fits, with a zero after it in the buffer, however often the room runs out on the way; nothing after the
  \<open>n\<close> bytes is touched.\<close>

theorem type_snprintf_is_text:
  assumes "type_ok t" and "0 < n" and "n \<le> length buf"
  shows "\<exists>s bs. type_snprintf t (0, Some buf, 0, n) = Some (length (type_text t), Some bs, s) \<and>
    take (min (length (type_text t)) (n - 1)) bs = take (n - 1) (type_text t) \<and>
    (type_text t \<noteq> [] \<longrightarrow> bs ! min (length (type_text t)) (n - 1) = 0) \<and> drop n bs = drop n buf"
proof -
  have "printed n buf [] (0, Some buf, 0, n)" by (simp add: printed_def)
  with type_snprintf_prints(1) [OF assms(1)] assms(2,3)
  have "\<exists>s'. type_snprintf t (0, Some buf, 0, n) = Some s' \<and> printed n buf ([] @ type_text t) s'" unfolding prints_def by blast
  then obtain s' where "type_snprintf t (0, Some buf, 0, n) = Some s'" "printed n buf (type_text t) s'" by auto
  then show ?thesis by (auto simp: printed_def)
qed

theorem type_snprintf_is_text_witness:
  "\<exists>s bs. type_snprintf (T_SARRAY [12] (T_PRIM CF64)) (0, Some (replicate 10 7), 0, 6) = Some (8, Some bs, s) \<and>
     take 5 bs = chars ''[12]C'' \<and> bs ! 5 = 0"
proof -
  have eq: "type_text (T_SARRAY [12] (T_PRIM CF64)) = chars ''[12]CF64''" by (simp add: chars_def dec.simps)
  have "type_ok (T_SARRAY [12] (T_PRIM CF64))" by simp
  from type_snprintf_is_text [OF this, of 6 "replicate 10 7"] show ?thesis unfolding eq by (auto simp: chars_def eval_nat_numeral)
qed

section \<open>What comes in is well formed\<close>

text \<open>Well-formed in depth, where the validation of the code returns before it looks at the fields.\<close>

fun wf_type :: "type_t \<Rightarrow> bool" where
  "wf_type (T_PRIM p) \<longleftrightarrow> True"
| "wf_type (T_STRUCT ks ts) \<longleftrightarrow> length ts = length ks \<and> 2 \<le> length ks \<and> length ks \<le> 10 \<and> distinct ks \<and> [] \<notin> set ks \<and>
     list_all wf_type ts"
| "wf_type (T_UNION ks ts) \<longleftrightarrow> length ts = length ks \<and> 2 \<le> length ks \<and> length ks \<le> 10 \<and> distinct ks \<and> [] \<notin> set ks \<and>
     list_all wf_type ts"
| "wf_type (T_ENUM ks) \<longleftrightarrow> ks \<noteq> [] \<and> distinct ks \<and> [] \<notin> set ks"
| "wf_type (T_SARRAY ds t) \<longleftrightarrow> ds \<noteq> [] \<and> 0 \<notin> set ds \<and> wf_type t"

lemma wf_type_valid: "wf_type t \<Longrightarrow> type_validate t = Inr ()"
proof (induction t)
  case (T_PRIM p)
  then show ?case by (simp add: prim_code_ok)
qed (auto simp: struct_t_validate_def union_t_validate_def struct_t_validate_shallow_def union_t_validate_shallow_def
  enum_t_validate_def sarray_t_validate_shallow_def strings_all_unique_distinct)

definition gives :: "('a res \<times> 's) option \<Rightarrow> ('a \<Rightarrow> bool) \<Rightarrow> bool" where
  \<comment> \<open>a result that is no error has the property\<close>
  "gives m P \<longleftrightarrow> (\<forall>x s. m = Some (Inr x, s) \<longrightarrow> P x)"

lemma gives_err_wrap:
  assumes "gives m P" and "\<And>x s. P x \<Longrightarrow> gives (f x s) Q"
  shows "gives (err_wrap m f) Q"
  unfolding gives_def
proof (intro allI impI)
  fix x s
  assume e: "err_wrap m f = Some (Inr x, s)"
  then obtain r s1 where m: "m = Some (r, s1)" by (cases m) auto
  with e obtain y where "r = Inr y" by (cases r) auto
  with e m assms(1) assms(2) [of y s1] show "Q x" by (auto simp: gives_def)
qed

lemma gives_any: "gives m (\<lambda>_. True)"
  by (simp add: gives_def)

lemma gives_key: "gives (des_key s) (\<lambda>k. k \<noteq> [])"
proof -
  have bytes: "gives (read_bytes n s) (\<lambda>bs. length bs = n)" for n and s :: des
    by (auto simp: gives_def read_bytes_def dsrlizr_read_def Let_def mem_read_def slice_def bind_eq_Some_conv
      split: prod.splits option.splits if_splits)
  have alloc: "gives (des_alloc n 1 s) (\<lambda>_. 0 < n)" for n and s :: des
    by (auto simp: gives_def des_alloc_def lmalloc_def Let_def bind_eq_Some_conv ASSERT_def split: prod.splits if_splits)
  show ?thesis
    unfolding des_key_def
    by (rule gives_err_wrap [OF gives_any], rule gives_err_wrap [OF alloc]) (use bytes in \<open>fastforce simp: gives_def\<close>)
qed

lemma gives_keys: "gives (des_keys n s) (\<lambda>ks. [] \<notin> set ks)"
proof (induction n arbitrary: s)
  case (Suc n)
  have ret: "gives (Some (Inr (k # ks), s)) (\<lambda>ks. [] \<notin> set ks)" if "k \<noteq> []" "[] \<notin> set ks" for k ks and s :: des
    using that by (simp add: gives_def)
  show ?case unfolding des_keys.simps
    by (rule gives_err_wrap [OF gives_key], rule gives_err_wrap [OF Suc]) (rule ret)
qed (simp add: gives_def)

text \<open>The builder between two fields.\<close>

definition builder_wf :: "kvt_builder \<Rightarrow> bool" where
  "builder_wf ub \<longleftrightarrow> kb_klen ub = length (kb_nodes ub) \<and> kb_tlen ub = length (kb_nodes ub) \<and> length (kb_nodes ub) \<le> 10 \<and>
     distinct (map fst (kb_nodes ub)) \<and> [] \<notin> fst ` set (kb_nodes ub) \<and> list_all wf_type (map snd (kb_nodes ub))"

definition builder_half :: "kvt_builder \<Rightarrow> bool" where
  \<comment> \<open>the last node has its key and no type yet\<close>
  "builder_half ub \<longleftrightarrow> (\<exists>ns k. kb_nodes ub = ns @ [(k, T_PRIM U8)] \<and> kb_klen ub = Suc (length ns) \<and> kb_tlen ub = length ns \<and>
     distinct (k # map fst ns) \<and> [] \<notin> set (k # map fst ns) \<and> list_all wf_type (map snd ns))"

lemma gives_with_builder:
  assumes "\<And>u ub'. f ub = Some (Inr u, ub') \<Longrightarrow> P ub'"
  shows "gives (with_builder ub f s) P"
proof (cases "f ub")
  case (Some z)
  obtain r ub' where z: "z = (r, ub')" by (cases z)
  then show ?thesis using Some assms by (cases r) (auto simp: gives_def with_builder_def)
qed (simp add: gives_def with_builder_def)

lemma gives_accept_key:
  assumes "builder_wf ub" and "k \<noteq> []"
  shows "gives (with_builder ub (\<lambda>ub. kvb_accept_key ub k) s) builder_half"
proof -
  have "builder_half ub'" if "kvb_accept_key ub k = Some (Inr u, ub')" for u ub'
  proof -
    have fresh: "\<not> kvt_has_key_been_used ub k" using that by (auto simp: kvb_accept_key_def bind_eq_Some_conv)
    then have new: "k \<notin> fst ` set (kb_nodes ub)"
      using string_equal_refl unfolding kvt_has_key_been_used_def by fastforce
    have "kb_nodes ub' = kb_nodes ub @ [(k, T_PRIM U8)] \<and> kb_klen ub' = Suc (kb_klen ub) \<and> kb_tlen ub' = kb_tlen ub"
    proof (cases "lmalloc (kb_alloc ub) 1 KV_NODE_SIZE")
      case (Some ra)
      obtain r a where "ra = (r, a)" by (cases ra)
      with Some that fresh assms(1) show ?thesis
        by (cases r) (auto simp: kvb_accept_key_def kvb_slot_def builder_wf_def bind_eq_Some_conv)
    qed (use that fresh assms(1) in \<open>auto simp: kvb_accept_key_def kvb_slot_def builder_wf_def bind_eq_Some_conv\<close>)
    with assms new show ?thesis by (force simp: builder_wf_def builder_half_def)
  qed
  then show ?thesis by (rule gives_with_builder)
qed

lemma gives_accept_type:
  assumes "builder_half ub" and "wf_type t"
  shows "gives (with_builder ub (\<lambda>ub. kvb_accept_type ub t) s) builder_wf"
proof -
  have "builder_wf ub'" if "kvb_accept_type ub t = Some (Inr u, ub')" for u ub'
  proof -
    obtain ns k where h: "kb_nodes ub = ns @ [(k, T_PRIM U8)]" "kb_klen ub = Suc (length ns)" "kb_tlen ub = length ns"
        "distinct (k # map fst ns)" "[] \<notin> set (k # map fst ns)" "list_all wf_type (map snd ns)"
      using assms(1) by (auto simp: builder_half_def)
    have "kb_nodes ub' = ns @ [(k, t)] \<and> kb_klen ub' = kb_klen ub \<and> kb_tlen ub' = Suc (kb_tlen ub) \<and> kb_klen ub \<le> 10"
      using that h(1-3)
      by (auto simp: kvb_accept_type_def kvb_slot_def kvt_builder_assert_def bind_eq_Some_conv ASSERT_def split: if_splits)
    with h assms(2) show ?thesis by (auto simp: builder_wf_def)
  qed
  then show ?thesis by (rule gives_with_builder)
qed

lemma gives_loop:
  assumes "\<And>s. gives (rd s) wf_type" and "builder_wf ub"
  shows "gives (kvt_deserialize_loop rd n ub s) builder_wf"
  using assms(2)
proof (induction n arbitrary: ub s)
  case (Suc n)
  have step: "gives (err_wrap (with_builder ub (\<lambda>ub. kvb_accept_key ub k) s) (\<lambda>ub s.
      err_wrap (with_builder ub (\<lambda>ub. kvb_accept_type ub t) s) (\<lambda>ub s. kvt_deserialize_loop rd n ub s))) builder_wf"
    if "k \<noteq> []" "wf_type t" for k t s
    by (rule gives_err_wrap [OF gives_accept_key [OF Suc.prems that(1)]])
      (rule gives_err_wrap [OF gives_accept_type [OF _ that(2)]], assumption, rule Suc.IH)
  show ?case unfolding kvt_deserialize_loop.simps
    by (rule gives_err_wrap [OF gives_key], rule gives_err_wrap [OF assms(1)], rule step)
qed (simp add: gives_def)

lemma gives_build:
  assumes "builder_wf ub"
  shows "gives (kvb_struct_t_build ub a) wf_type" "gives (kvb_union_t_build ub a) wf_type"
proof -
  have common: "gives (kvb_build_common ub a) (\<lambda>(ks, ts). ks = map fst (kb_nodes ub) \<and> ts = map snd (kb_nodes ub))"
    (is "gives _ ?P")
  proof -
    have ret: "gives (do { ASSERT (length (kb_nodes ub) = kb_klen ub);
        Some (Inr (map fst (kb_nodes ub), map snd (kb_nodes ub)), a) }) ?P" for a :: lalloc
      by (auto simp: gives_def ASSERT_def)
    have "gives (err_wrap (lmalloc a (kb_klen ub) STRING_SIZE) (\<lambda>_ onto. err_wrap (lmalloc onto (kb_tlen ub) TYPE_SIZE)
        (\<lambda>_ onto. do { ASSERT (length (kb_nodes ub) = kb_klen ub);
          Some (Inr (map fst (kb_nodes ub), map snd (kb_nodes ub)), onto) }))) ?P"
      by (rule gives_err_wrap [OF gives_any], rule gives_err_wrap [OF gives_any], rule ret)
    then show ?thesis by (simp add: kvb_build_common_def gives_def)
  qed
  show "gives (kvb_struct_t_build ub a) wf_type" "gives (kvb_union_t_build ub a) wf_type"
    unfolding kvb_struct_t_build_def kvb_union_t_build_def
    by (rule gives_err_wrap [OF common]; use assms in \<open>auto simp: gives_def builder_wf_def ASSERT_def split: if_splits\<close>)+
qed

lemma gives_kvt:
  assumes "\<And>s. gives (rd s) wf_type" and "\<And>ub a. builder_wf ub \<Longrightarrow> gives (build ub a) wf_type"
  shows "gives (kvt_deserialize build rd s) wf_type"
proof -
  have new: "builder_wf (kvb_create a)" for a by (simp add: builder_wf_def kvb_create_def)
  have last: "gives (do { (r, a) \<leftarrow> build ub a; Some (r, src, a) }) wf_type" if "builder_wf ub" for ub a and src :: deserializer
    using assms(2) [OF that, of a] by (auto simp: gives_def bind_eq_Some_conv)
  show ?thesis
  proof (cases "lalloc_create 2048")
    case (Some a)
    show ?thesis unfolding kvt_deserialize_def Some bind.bind_lunit Let_def
      by (rule gives_err_wrap [OF gives_any], rule gives_err_wrap [OF gives_loop [OF assms(1) new]])
        (use last in \<open>auto split: prod.splits\<close>)
  qed (simp add: kvt_deserialize_def gives_def)
qed

lemma gives_enum: "gives (enum_t_deserialize s) wf_type"
proof -
  have ret: "gives (Some (case enum_t_validate ks of Inl e \<Rightarrow> Inl e | Inr _ \<Rightarrow> Inr (T_ENUM ks), s)) wf_type" for ks and s :: des
    by (auto simp: gives_def enum_t_validate_def strings_all_unique_distinct split: if_splits)
  show ?thesis unfolding enum_t_deserialize_def
    by (rule gives_err_wrap [OF gives_any], rule gives_err_wrap [OF gives_any], rule gives_err_wrap [OF gives_any], rule ret)
qed

lemma gives_sarray:
  assumes "\<And>s. gives (rd s) wf_type"
  shows "gives (sarray_t_deserialize rd s) wf_type"
proof -
  have ret: "gives (Some (case sarray_t_validate_shallow ds of Inl e \<Rightarrow> Inl e | Inr _ \<Rightarrow> Inr (T_SARRAY ds t), s)) wf_type"
    if "wf_type t" for ds t and s :: des
    using that by (auto simp: gives_def sarray_t_validate_shallow_def split: if_splits)
  show ?thesis unfolding sarray_t_deserialize_def
    by (rule gives_err_wrap [OF gives_any], rule gives_err_wrap [OF gives_any], rule gives_err_wrap [OF gives_any],
      rule gives_err_wrap [OF gives_any], rule gives_err_wrap [OF assms], rule ret)
qed

lemma type_deserialize_wf: "gives (type_deserialize s) wf_type"
proof -
  have "\<forall>t s'. y = (Inr t, s') \<longrightarrow> wf_type t" if "type_deserialize s = Some y" for y
    using that
  proof (rule type_deserialize.raw_induct [rotated])
    fix f :: "des \<Rightarrow> (type_t res \<times> des) option" and s :: des and y
    assume IH: "\<And>s y. f s = Some y \<Longrightarrow> \<forall>t s'. y = (Inr t, s') \<longrightarrow> wf_type t"
    assume run: "(do {
       let (src, a) = s;
       (header, src) \<leftarrow> dsrlizr_read 1 src;
       header \<leftarrow> header;
       let s = (src, a);
       let c = unat (hd header);
       if c = 0 then do { (r, src) \<leftarrow> prim_t_deserialize src; Some (map_sum id T_PRIM r, src, a) }
       else if c = 1 then kvt_deserialize kvb_struct_t_build f s
       else if c = 2 then kvt_deserialize kvb_union_t_build f s
       else if c = 3 then enum_t_deserialize s
       else if c = 4 then sarray_t_deserialize f s
       else Some (Inl ERR_INTERP, s) }) = Some y"
    have f: "gives (f s) wf_type" for s using IH by (fastforce simp: gives_def)
    have kvt: "gives (kvt_deserialize kvb_struct_t_build f s) wf_type" "gives (kvt_deserialize kvb_union_t_build f s) wf_type" for s
      by (rule gives_kvt [OF f], erule gives_build)+
    moreover have "gives (sarray_t_deserialize f s) wf_type" for s by (rule gives_sarray) (rule f)
    ultimately have parts: "kvt_deserialize kvb_struct_t_build f s = Some (Inr t, s') \<Longrightarrow> wf_type t"
      "kvt_deserialize kvb_union_t_build f s = Some (Inr t, s') \<Longrightarrow> wf_type t"
      "enum_t_deserialize s = Some (Inr t, s') \<Longrightarrow> wf_type t"
      "sarray_t_deserialize f s = Some (Inr t, s') \<Longrightarrow> wf_type t" for s s' t
      using gives_enum [of s] unfolding gives_def by blast+
    have "y = (Inr t, s') \<Longrightarrow> wf_type t" for t s'
      using run by (auto simp: bind_eq_Some_conv Let_def map_sum_Inr dest: parts split: if_splits prod.splits)
    then show "\<forall>t s'. y = (Inr t, s') \<longrightarrow> wf_type t" by blast
  qed
  then show ?thesis by (simp add: gives_def)
qed

text \<open>C20: What comes in is well formed. Whatever the bytes and whatever the memory, a type that the reader
  accepts is well formed in depth: every struct and union in it has two to ten fields with distinct, non-empty
  keys, every enumeration has distinct, non-empty keys, every array has a dimension and none that is
  zero, although the validation of a struct looks only at its keys. So it passes the validation that every
  operation on types asserts.\<close>

theorem type_deserialize_well_formed:
  assumes "type_deserialize s = Some (Inr t, s')"
  shows "wf_type t \<and> valid_type t = Some ()"
proof -
  have w: "wf_type t" using type_deserialize_wf [of s] assms by (simp add: gives_def)
  with wf_type_valid [OF w] show ?thesis by (simp add: valid_type_def)
qed

theorem type_deserialize_well_formed_witness:
  "\<exists>s'. type_deserialize (dsrlizr_create [4, 1, 0, 12, 0, 0, 0, 0, 6] 9, \<lparr>la_used = 0, la_limit = 4096\<rparr>) =
     Some (Inr (T_SARRAY [12] (T_PRIM I32)), s') \<and> wf_type (T_SARRAY [12] (T_PRIM I32)) \<and> valid_type (T_SARRAY [12] (T_PRIM I32)) = Some ()"
proof -
  let ?t = "T_SARRAY [12] (T_PRIM I32)" and ?d = "dsrlizr_create [4, 1, 0, 12, 0, 0, 0, 0, 6] 9"
    and ?a = "\<lparr>la_used = 0, la_limit = 4096\<rparr>"
  have bs: "type_bytes ?t = [4, 1, 0, 12, 0, 0, 0, 0, 6]"
    by code_simp
  have ok: "type_ok ?t" by simp
  have d: "ds_wf ?d" "ds_rest ?d = type_bytes ?t @ []" using dsrlizr_create_wf(1) [of 9 "type_bytes ?t"] dsrlizr_create_wf(2) [of "type_bytes ?t" 9] bs by simp_all
  have a: "la_wf ?a" "type_mem ?t < la_room ?a" by (simp_all add: la_wf_def la_room_def)
  from takesD [OF type_deserialize_takes [OF ok] d a(1,2)] obtain s' where "type_deserialize (?d, ?a) = Some (Inr ?t, s')" by blast
  with type_deserialize_well_formed [OF this] show ?thesis by blast
qed

end
