(* ===== verification/Var_Cursor.thy ===== *)
theory Var_Cursor
  imports Pager_Routines Pager_Client Type_Codec
begin

text \<open>
The variable cursor (\<^verbatim>\<open>src/libs/cursors/nsvcursor/var_cursor.c\<close>): names of variables are hashed into
the page of hash values, each slot starts a chain of variable pages, and a variable page holds the
name and the serialized type, which go on in tail pages when they do not fit.

The state is the struct with the pager it points to. Lengths read from a page are 16 bits and at
most \<open>MAX_VSTR\<close> and \<open>MAX_TSTR\<close> in a page that can be held, so the counters of the loops are natural
numbers; a copy beyond the arrays of the cursor is a failure. The three loops along chains are
\<open>partial_function\<close>s, because a ring of pages would keep them going.
\<close>

section \<open>State\<close>

record var_cursor =
  vc_pager :: pager
  vc_cur :: page_h
  vc_tx :: "ptr option"
  vc_vstr_input :: "u8 list"
  vc_vlen_input :: nat
  vc_tstr_input :: "u8 list"
  vc_tlen_input :: nat
  vc_vstr :: "u8 list"
  vc_vlen :: nat
  vc_tstr :: "u8 list"
  vc_tlen :: nat

definition vc_get_page :: "var_cursor \<Rightarrow> page_type \<Rightarrow> pgno \<Rightarrow> (unit res \<times> var_cursor) option" where
  "vc_get_page v type n = do {
     (r, h, p) \<leftarrow> pgr_get (vc_cur v) (pt_code type) n (vc_pager v);
     Some (r, v\<lparr>vc_pager := p, vc_cur := h\<rparr>) }"

definition vc_release :: "var_cursor \<Rightarrow> u8 \<Rightarrow> (unit res \<times> var_cursor) option" where
  "vc_release v flags = do {
     (r, h, p) \<leftarrow> pgr_release (vc_pager v) (vc_cur v) flags;
     Some (r, v\<lparr>vc_pager := p, vc_cur := h\<rparr>) }"

definition vc_ro :: "var_cursor \<Rightarrow> page option" where
  "vc_ro v = page_h_ro (vc_pager v) (vc_cur v)"

definition vc_w :: "var_cursor \<Rightarrow> (page \<Rightarrow> page option) \<Rightarrow> var_cursor option" where
  \<comment> \<open>a change of the page behind \<^verbatim>\<open>page_h_w (&v->cur)\<close>\<close>
  "vc_w v f = do {
     x \<leftarrow> page_h_w (vc_pager v) (vc_cur v);
     x \<leftarrow> f x;
     p \<leftarrow> page_h_w_put (vc_pager v) (vc_cur v) x;
     Some (v\<lparr>vc_pager := p\<rparr>) }"

definition vc_theend :: "('a res \<times> var_cursor) option \<Rightarrow> ('a res \<times> var_cursor) option" where
  \<comment> \<open>the block after the label \<^verbatim>\<open>theend\<close>\<close>
  "vc_theend m = do {
     (r, v) \<leftarrow> m;
     Some (r, v\<lparr>vc_vlen_input := 0, vc_tlen_input := 0, vc_vlen := 0, vc_tlen := 0\<rparr>) }"

abbreviation VHASH_PGNO :: pgno where
  "VHASH_PGNO \<equiv> 1"

abbreviation VP_OR_TAIL :: u8 where
  "VP_OR_TAIL \<equiv> pt_code PG_VAR_PAGE OR pt_code PG_VAR_TAIL"

definition varc_enter_transaction :: "var_cursor \<Rightarrow> ptr \<Rightarrow> var_cursor option" where
  "varc_enter_transaction r tx = do {
     ASSERT (vc_tx r = None \<or> vc_tx r = Some tx);
     Some (r\<lparr>vc_tx := Some tx\<rparr>) }"

definition varc_leave_transaction :: "var_cursor \<Rightarrow> var_cursor option" where
  "varc_leave_transaction r = do {
     ASSERT (vc_tx r \<noteq> None);
     Some (r\<lparr>vc_tx := None\<rparr>) }"

definition varh_init_hash_page :: "ptr \<Rightarrow> pager \<Rightarrow> (unit res \<times> pager) option" where
  \<comment> \<open>\<open>tx\<close> is the address of the transaction on the stack\<close>
  "varh_init_hash_page tx p =
     err_wrap (pgr_begin_txn tx p) (\<lambda>_ p. do {
     (ret, hp, p) \<leftarrow> pgr_get page_h_create (pt_code PG_VAR_HASH_PAGE) VHASH_PGNO p;
     err_wrap_to (case ret of
         Inl ERR_PG_OUT_OF_RANGE \<Rightarrow>
           err_wrap (pgr_new hp p tx PG_VAR_HASH_PAGE) (\<lambda>_ (hp, p). do {
             n \<leftarrow> page_h_pgno p hp;
             ASSERT (n = VHASH_PGNO);
             Some (Inr (), hp, p) })
       | Inl ERR_CORRUPT \<Rightarrow>
           err_wrap (pgr_get hp PG_ANY VHASH_PGNO p) (\<lambda>_ (hp, p). do {
             x \<leftarrow> page_h_w p hp;
             x \<leftarrow> vh_init_empty x;
             p \<leftarrow> page_h_w_put p hp x;
             Some (Inr (), hp, p) })
       | _ \<Rightarrow> Some (Inr (), hp, p)) snd (\<lambda>_ (hp, p).
     err_wrap_to (pgr_release p hp (pt_code PG_VAR_HASH_PAGE)) snd (\<lambda>_ (_, p).
     pgr_commit p tx)) })"

definition varc_initialize :: "var_cursor \<Rightarrow> pager \<Rightarrow> unit res \<times> var_cursor" where
  "varc_initialize v p =
     (Inr (), v\<lparr>vc_pager := p, vc_cur := page_h_create, vc_tx := None, vc_vlen := 0, vc_tlen := 0\<rparr>)"

definition varc_cleanup :: "var_cursor \<Rightarrow> unit res option" where
  "varc_cleanup v = do { ASSERT (ph_mode (vc_cur v) = PHM_NONE); Some (Inr ()) }"

section \<open>Reading a variable page\<close>

definition vpc_read_advance :: "var_cursor \<Rightarrow> (unit res \<times> var_cursor \<times> u8 list) option" where
  \<comment> \<open>to the next tail page; the bytes of the page the cursor is on\<close>
  "vpc_read_advance v = do {
     (r, succ, p) \<leftarrow> pgr_dlgt_get_ovnext (vc_cur v) page_h_create None (vc_pager v);
     let v = v\<lparr>vc_pager := p\<rparr>;
     if isl r then Some (r, v, [])
     else if ph_mode succ = PHM_NONE then Some (Inl ERR_CORRUPT, v, [])
     else do {
       (r, v) \<leftarrow> vc_release v VP_OR_TAIL;
       if isl r then Some (r, v, [])
       else do {
         (h, _) \<leftarrow> page_h_xfer_ownership (vc_pager v) succ;
         let v = v\<lparr>vc_cur := h\<rparr>;
         x \<leftarrow> vc_ro v;
         head \<leftarrow> dlgt_get_bytes x;
         Some (Inr (), v, head) } } }"

definition vpc_read_vstr :: "var_cursor \<Rightarrow> u8 list \<Rightarrow> nat \<Rightarrow> nat \<Rightarrow> (var_cursor \<times> nat \<times> nat) option" where
  "vpc_read_vstr v head read lread =
     (if read < vc_vlen v then do {
        let n = min (length head - lread) (vc_vlen v - read);
        chunk \<leftarrow> mem_read head lread n;
        m \<leftarrow> mem_write (vc_vstr v) read chunk;
        Some (v\<lparr>vc_vstr := m\<rparr>, read + n, lread + n) }
      else Some (v, read, lread))"

definition vpc_read_tstr :: "var_cursor \<Rightarrow> u8 list \<Rightarrow> nat \<Rightarrow> nat \<Rightarrow> (var_cursor \<times> nat \<times> nat) option" where
  "vpc_read_tstr v head read lread =
     (if read \<ge> vc_vlen v then do {
        let n = min (length head - lread) (vc_vlen v + vc_tlen v - read);
        chunk \<leftarrow> mem_read head lread n;
        m \<leftarrow> mem_write (vc_tstr v) (read - vc_vlen v) chunk;
        Some (v\<lparr>vc_tstr := m\<rparr>, read + n, lread + n) }
      else Some (v, read, lread))"

partial_function (option) vpc_read_loop :: "var_cursor \<Rightarrow> u8 list \<Rightarrow> nat \<Rightarrow> nat \<Rightarrow> (unit res \<times> var_cursor) option" where
  "vpc_read_loop v head read lread =
     (if read < vc_tlen v + vc_vlen v then do {
        ASSERT (lread \<le> length head);
        (r, v, head, lread) \<leftarrow>
          (if lread = length head then do { (r, v, head) \<leftarrow> vpc_read_advance v; Some (r, v, head, 0) }
           else Some (Inr (), v, head, lread));
        if isl r then Some (r, v)
        else do {
          (v, read, lread) \<leftarrow> vpc_read_vstr v head read lread;
          (v, read, lread) \<leftarrow> vpc_read_tstr v head read lread;
          vpc_read_loop v head read lread } }
      else Some (Inr (), v))"

definition vpc_read_reset :: "var_cursor \<Rightarrow> pgno \<Rightarrow> (unit res \<times> var_cursor) option" where
  \<comment> \<open>back to the variable page after its tail\<close>
  "vpc_read_reset v start = do {
     n \<leftarrow> page_h_pgno (vc_pager v) (vc_cur v);
     if n \<noteq> start then
       err_wrap (vc_release v (pt_code PG_VAR_TAIL)) (\<lambda>_ v. vc_get_page v PG_VAR_PAGE start)
     else Some (Inr (), v) }"

definition vpc_check_and_read_var_page_here :: "var_cursor \<Rightarrow> (bool res \<times> var_cursor) option" where
  "vpc_check_and_read_var_page_here v = do {
     ASSERT (ph_mode (vc_cur v) \<noteq> PHM_NONE);
     t \<leftarrow> page_h_type (vc_pager v) (vc_cur v);
     ASSERT (t = pt_code PG_VAR_PAGE);
     start \<leftarrow> page_h_pgno (vc_pager v) (vc_cur v);
     x \<leftarrow> vc_ro v;
     let v = v\<lparr>vc_vlen := unat (vp_get_vlen x), vc_tlen := unat (vp_get_tlen x)\<rparr>;
     ASSERT (vc_tlen v \<noteq> 0);
     ASSERT (vc_vlen v \<noteq> 0);
     if vc_vlen v \<noteq> vc_vlen_input v then Some (Inr False, v)
     else do {
       head \<leftarrow> dlgt_get_bytes x;
       err_wrap (vpc_read_loop v head 0 0) (\<lambda>_ v. do {
         x \<leftarrow> vc_ro v;
         end_should_be_null \<leftarrow> dlgt_get_ovnext x;
         err_wrap (vpc_read_reset v start) (\<lambda>_ v.
           if end_should_be_null \<noteq> PGNO_NULL then Some (Inl ERR_CORRUPT, v)
           else do {
             a \<leftarrow> mem_read (vc_vstr v) 0 (vc_vlen v);
             b \<leftarrow> mem_read (vc_vstr_input v) 0 (vc_vlen v);
             Some (Inr (a = b), v) }) }) } }"

section \<open>Writing a variable page\<close>

definition vpc_write_advance :: "var_cursor \<Rightarrow> ptr \<Rightarrow> (unit res \<times> var_cursor \<times> nat) option" where
  \<comment> \<open>to a new tail page; the number of bytes it has room for\<close>
  "vpc_write_advance v tx = do {
     (r, c, succ, p) \<leftarrow> pgr_dlgt_new_ovnext_no_link (vc_cur v) page_h_create tx (vc_pager v);
     let v = v\<lparr>vc_pager := p, vc_cur := c\<rparr>;
     if isl r then Some (r, v, 0)
     else do {
       (r, v) \<leftarrow> vc_release v VP_OR_TAIL;
       if isl r then Some (r, v, 0)
       else do {
         (h, _) \<leftarrow> page_h_xfer_ownership (vc_pager v) succ;
         let v = v\<lparr>vc_cur := h\<rparr>;
         x \<leftarrow> page_h_w (vc_pager v) (vc_cur v);
         head \<leftarrow> dlgt_get_bytes x;
         Some (Inr (), v, length head) } } }"

definition dlgt_put_bytes :: "nat \<Rightarrow> u8 list \<Rightarrow> page \<Rightarrow> page option" where
  \<comment> \<open>a write through the pointer \<^verbatim>\<open>dlgt_get_bytes\<close> returns, which starts in the page where its bytes do\<close>
  "dlgt_put_bytes ofst bs x = do {
     head \<leftarrow> dlgt_get_bytes x;
     ASSERT (ofst + length bs \<le> length head);
     m \<leftarrow> mem_write (raw x) (PAGE_SIZE - length head + ofst) bs;
     Some (x\<lparr>raw := m\<rparr>) }"

definition vpc_write_vstr :: "var_cursor \<Rightarrow> nat \<Rightarrow> nat \<Rightarrow> nat \<Rightarrow> (var_cursor \<times> nat \<times> nat) option" where
  "vpc_write_vstr v room written lwritten =
     (if written < vc_vlen v then do {
        let n = min (room - lwritten) (vc_vlen v - written);
        chunk \<leftarrow> mem_read (vc_vstr_input v) written n;
        v \<leftarrow> vc_w v (dlgt_put_bytes lwritten chunk);
        Some (v, written + n, lwritten + n) }
      else Some (v, written, lwritten))"

definition vpc_write_tstr :: "var_cursor \<Rightarrow> nat \<Rightarrow> nat \<Rightarrow> nat \<Rightarrow> (var_cursor \<times> nat \<times> nat) option" where
  "vpc_write_tstr v room written lwritten =
     (if written \<ge> vc_vlen v then do {
        let n = min (room - lwritten) (vc_tlen v + vc_vlen v - written);
        chunk \<leftarrow> mem_read (vc_tstr_input v) (written - vc_vlen v) n;
        v \<leftarrow> vc_w v (dlgt_put_bytes lwritten chunk);
        Some (v, written + n, lwritten + n) }
      else Some (v, written, lwritten))"

partial_function (option) vpc_write_loop :: "ptr \<Rightarrow> var_cursor \<Rightarrow> nat \<Rightarrow> nat \<Rightarrow> nat \<Rightarrow> (unit res \<times> var_cursor) option" where
  "vpc_write_loop tx v room written lwritten =
     (if written < vc_tlen v + vc_vlen v then do {
        ASSERT (lwritten \<le> room);
        (r, v, room, lwritten) \<leftarrow>
          (if lwritten = room then do { (r, v, room) \<leftarrow> vpc_write_advance v tx; Some (r, v, room, 0) }
           else Some (Inr (), v, room, lwritten));
        if isl r then Some (r, v)
        else do {
          (v, written, lwritten) \<leftarrow> vpc_write_vstr v room written lwritten;
          (v, written, lwritten) \<leftarrow> vpc_write_tstr v room written lwritten;
          vpc_write_loop tx v room written lwritten } }
      else Some (Inr (), v))"

definition vpc_write_reset :: "var_cursor \<Rightarrow> pgno \<Rightarrow> (unit res \<times> var_cursor) option" where
  "vpc_write_reset v start = do {
     n \<leftarrow> page_h_pgno (vc_pager v) (vc_cur v);
     if n \<noteq> start then
       err_wrap (vc_release v (pt_code PG_VAR_TAIL)) (\<lambda>_ v. vc_get_page v PG_VAR_PAGE start)
     else do {
       (r, h, p) \<leftarrow> pgr_save (vc_pager v) (vc_cur v) (pt_code PG_VAR_PAGE);
       Some (r, v\<lparr>vc_pager := p, vc_cur := h\<rparr>) } }"

definition vpc_write_vstr_tstr_here :: "var_cursor \<Rightarrow> (unit res \<times> var_cursor) option" where
  "vpc_write_vstr_tstr_here v = do {
     ASSERT (ph_mode (vc_cur v) = PHM_X);
     t \<leftarrow> page_h_type (vc_pager v) (vc_cur v);
     ASSERT (t = pt_code PG_VAR_PAGE);
     tx \<leftarrow> vc_tx v;
     start \<leftarrow> page_h_pgno (vc_pager v) (vc_cur v);
     x \<leftarrow> vc_ro v;
     let v = v\<lparr>vc_vlen := unat (vp_get_vlen x), vc_tlen := unat (vp_get_tlen x)\<rparr>;
     ASSERT (vc_vlen v = vc_vlen_input v);
     ASSERT (vc_tlen v = vc_tlen_input v);
     x \<leftarrow> page_h_w (vc_pager v) (vc_cur v);
     head \<leftarrow> dlgt_get_bytes x;
     vc_theend (err_wrap (vpc_write_loop tx v (length head) 0 0) (\<lambda>_ v. vpc_write_reset v start)) }"

section \<open>Creating a variable\<close>

definition vc_input :: "var_cursor \<Rightarrow> u8 list \<Rightarrow> var_cursor option" where
  \<comment> \<open>the name goes to the input buffer\<close>
  "vc_input v name = do {
     m \<leftarrow> mem_write (vc_vstr_input v) 0 name;
     Some (v\<lparr>vc_vlen_input := length name, vc_vstr_input := m\<rparr>) }"

definition vpc_hash_head :: "var_cursor \<Rightarrow> u8 list \<Rightarrow> (pgno res \<times> var_cursor) option" where
  \<comment> \<open>the first page of the chain of a name\<close>
  "vpc_hash_head v name =
     err_wrap (vc_get_page v PG_VAR_HASH_PAGE VHASH_PGNO) (\<lambda>_ v. do {
       x \<leftarrow> vc_ro v;
       head \<leftarrow> vh_get_hash_value x (vh_get_hash_pos name);
       err_wrap (vc_release v (pt_code PG_VAR_HASH_PAGE)) (\<lambda>_ v. Some (Inr head, v)) })"

definition vpc_set_hash :: "var_cursor \<Rightarrow> ptr \<Rightarrow> u8 list \<Rightarrow> pgno \<Rightarrow> (unit res \<times> var_cursor) option" where
  \<comment> \<open>the slot of a name is changed through a handle of its own\<close>
  "vpc_set_hash v tx name n =
     err_wrap_to (pgr_get_writable page_h_create tx (pt_code PG_VAR_HASH_PAGE) VHASH_PGNO (vc_pager v))
       (\<lambda>(_, p). v\<lparr>vc_pager := p\<rparr>) (\<lambda>_ (root, p). do {
     x \<leftarrow> page_h_w p root;
     x \<leftarrow> vh_set_hash_value x (vh_get_hash_pos name) n;
     p \<leftarrow> page_h_w_put p root x;
     (r, _, p) \<leftarrow> pgr_release p root (pt_code PG_VAR_HASH_PAGE);
     Some (r, v\<lparr>vc_pager := p\<rparr>) })"

definition vpc_new_append :: "var_cursor \<Rightarrow> ptr \<Rightarrow> (unit res \<times> var_cursor) option" where
  \<comment> \<open>a new page behind the last one of the chain\<close>
  "vpc_new_append v tx =
     err_wrap_to (pgr_new page_h_create (vc_pager v) tx PG_VAR_PAGE) (\<lambda>(_, p). v\<lparr>vc_pager := p\<rparr>) (\<lambda>_ (npg, p).
     err_wrap_to (pgr_maybe_make_writable p tx (vc_cur v)) (\<lambda>(h, p). v\<lparr>vc_pager := p, vc_cur := h\<rparr>) (\<lambda>_ (h, p). do {
     let v = v\<lparr>vc_pager := p, vc_cur := h\<rparr>;
     n \<leftarrow> page_h_pgno p npg;
     v \<leftarrow> vc_w v (\<lambda>x. Some (vp_set_next x n));
     err_wrap (vc_release v (pt_code PG_VAR_PAGE)) (\<lambda>_ v. do {
       (h, _) \<leftarrow> page_h_xfer_ownership (vc_pager v) npg;
       Some (Inr (), v\<lparr>vc_cur := h\<rparr>) }) }))"

partial_function (option) vpc_new_search :: "ptr \<Rightarrow> var_cursor \<Rightarrow> (unit res \<times> var_cursor) option" where
  \<comment> \<open>to a new page at the end of the chain, unless a page of it holds the name\<close>
  "vpc_new_search tx v = do {
     (match, v) \<leftarrow> vpc_check_and_read_var_page_here v;
     if isl match then Some (Inl (projl match), v)
     else if projr match then Some (Inl ERR_DUPLICATE_VARIABLE, v)
     else do {
       succ \<leftarrow> map_option vp_get_next (vc_ro v);
       if succ = PGNO_NULL then vpc_new_append v tx
       else do {
         (r, v) \<leftarrow> vc_release v (pt_code PG_VAR_PAGE);
         if isl r then Some (r, v)
         else do {
           (r, v) \<leftarrow> vc_get_page v PG_VAR_PAGE succ;
           if isl r then Some (r, v) else vpc_new_search tx v } } } }"

definition vpc_new_place :: "var_cursor \<Rightarrow> ptr \<Rightarrow> u8 list \<Rightarrow> (unit res \<times> var_cursor) option" where
  \<comment> \<open>the cursor is moved to an empty variable page that is reached from the slot of the name\<close>
  "vpc_new_place v tx name =
     err_wrap (vpc_hash_head v name) (\<lambda>head v.
       if head \<noteq> PGNO_NULL then
         err_wrap (vc_get_page v PG_VAR_PAGE head) (\<lambda>_ v. vpc_new_search tx v)
       else do {
         (r, h, p) \<leftarrow> pgr_new (vc_cur v) (vc_pager v) tx PG_VAR_PAGE;
         let v = v\<lparr>vc_pager := p, vc_cur := h\<rparr>;
         if isl r then Some (r, v)
         else do {
           n \<leftarrow> page_h_pgno p h;
           vpc_set_hash v tx name n } })"

definition vpc_new_fields :: "var_cursor \<Rightarrow> page \<Rightarrow> page option" where
  "vpc_new_fields v x = do {
     let x = vp_set_next x PGNO_NULL;
     let x = vp_set_ovnext x PGNO_NULL;
     let x = vp_set_vlen x (of_nat (vc_vlen_input v));
     let x = vp_set_tlen x (of_nat (vc_tlen_input v));
     Some (vp_set_root x PGNO_NULL) }"

definition vpc_new :: "var_cursor \<Rightarrow> u8 list \<Rightarrow> type_t \<Rightarrow> (unit res \<times> var_cursor) option" where
  "vpc_new v vname t = do {
     tx \<leftarrow> vc_tx v;
     n \<leftarrow> type_get_serial_size t;
     ASSERT (n < of_nat MAX_TSTR);
     ASSERT (length vname < MAX_VSTR);
     ASSERT (length vname > 0);
     d \<leftarrow> type_serialize (srlizr_create (vc_tstr_input v) MAX_TSTR) t;
     let v = v\<lparr>vc_tstr_input := sr_data d, vc_tlen_input := sr_dlen d\<rparr>;
     v \<leftarrow> vc_input v vname;
     vc_theend (err_wrap (vpc_new_place v tx vname) (\<lambda>_ v. do {
       v \<leftarrow> vc_w v (vpc_new_fields v);
       err_wrap (vpc_write_vstr_tstr_here v) (\<lambda>_ v. vc_release v (pt_code PG_VAR_PAGE)) })) }"

section \<open>Looking a variable up\<close>

definition vpc_get_found ::
  "var_cursor \<Rightarrow> lalloc option \<Rightarrow> (((pgno \<times> type_t option) res) \<times> var_cursor \<times> lalloc option) option" where
  \<comment> \<open>what the caller gets from the page with the name\<close>
  "vpc_get_found v dalloc = do {
     (rt, dalloc) \<leftarrow> (case dalloc of
         None \<Rightarrow> Some (Inr None, None)
       | Some a \<Rightarrow> do {
           (r, _, a) \<leftarrow> type_deserialize (dsrlizr_create (vc_tstr v) (vc_tlen v), a);
           Some (map_sum id Some r, Some a) });
     case rt of
       Inl e \<Rightarrow> Some (Inl e, v, dalloc)
     | Inr t \<Rightarrow> do {
         pg0 \<leftarrow> map_option vp_get_root (vc_ro v);
         (r, v) \<leftarrow> vc_release v (pt_code PG_VAR_PAGE);
         Some (case r of Inl e \<Rightarrow> Inl e | Inr _ \<Rightarrow> Inr (pg0, t), v, dalloc) } }"

partial_function (option) vpc_get_search ::
  "var_cursor \<Rightarrow> lalloc option \<Rightarrow> (((pgno \<times> type_t option) res) \<times> var_cursor \<times> lalloc option) option" where
  "vpc_get_search v dalloc = do {
     (match, v) \<leftarrow> vpc_check_and_read_var_page_here v;
     if isl match then Some (Inl (projl match), v, dalloc)
     else if projr match then vpc_get_found v dalloc
     else do {
       succ \<leftarrow> map_option vp_get_next (vc_ro v);
       (r, v) \<leftarrow> vc_release v (pt_code PG_VAR_PAGE);
       if isl r then Some (Inl (projl r), v, dalloc)
       else if succ = PGNO_NULL then Some (Inl ERR_VARIABLE_NE, v, dalloc)
       else do {
         (r, v) \<leftarrow> vc_get_page v PG_VAR_PAGE succ;
         if isl r then Some (Inl (projl r), v, dalloc) else vpc_get_search v dalloc } } }"

definition vpc_get ::
  "var_cursor \<Rightarrow> lalloc option \<Rightarrow> u8 list \<Rightarrow> (((pgno \<times> type_t option) res) \<times> var_cursor \<times> lalloc option) option" where
  \<comment> \<open>the root page of a variable and, when there is an allocator for it, its type\<close>
  "vpc_get v dalloc name = do {
     ASSERT (length name > 0);
     v \<leftarrow> vc_input v name;
     (r, v, dalloc) \<leftarrow>
       err_wrap_to (vpc_hash_head v name) (\<lambda>v. (v, dalloc)) (\<lambda>head v.
         if head = PGNO_NULL then Some (Inl ERR_VARIABLE_NE, v, dalloc)
         else err_wrap_to (vc_get_page v PG_VAR_PAGE head) (\<lambda>v. (v, dalloc)) (\<lambda>_ v. vpc_get_search v dalloc));
     (r, v) \<leftarrow> vc_theend (Some (r, v));
     Some (r, v, dalloc) }"

section \<open>Deleting a variable\<close>

definition vpc_delete_found :: "var_cursor \<Rightarrow> ptr \<Rightarrow> u8 list \<Rightarrow> page_h \<Rightarrow> (unit res \<times> var_cursor) option" where
  \<comment> \<open>the page is taken out of the chain, and freed with its tail\<close>
  "vpc_delete_found v tx name prev = do {
     succ \<leftarrow> map_option vp_get_next (vc_ro v);
     err_wrap (if ph_mode prev = PHM_NONE then vpc_set_hash v tx name succ
       else err_wrap_to (pgr_make_writable (vc_pager v) tx prev) (\<lambda>(_, p). v\<lparr>vc_pager := p\<rparr>) (\<lambda>_ (prev, p). do {
         x \<leftarrow> page_h_w p prev;
         p \<leftarrow> page_h_w_put p prev (vp_set_next x succ);
         (r, _, p) \<leftarrow> pgr_release p prev (pt_code PG_VAR_PAGE);
         Some (r, v\<lparr>vc_pager := p\<rparr>) })) (\<lambda>_ v. do {
     (r, h, p) \<leftarrow> pgr_dlgt_delete_vpvl_chain (vc_cur v) tx (vc_pager v);
     Some (r, v\<lparr>vc_pager := p, vc_cur := h\<rparr>) }) }"

partial_function (option) vpc_delete_search ::
  "ptr \<Rightarrow> u8 list \<Rightarrow> var_cursor \<Rightarrow> page_h \<Rightarrow> (unit res \<times> var_cursor) option" where
  "vpc_delete_search tx name v prev = do {
     (match, v) \<leftarrow> vpc_check_and_read_var_page_here v;
     if isl match then Some (Inl (projl match), v)
     else if projr match then vpc_delete_found v tx name prev
     else do {
       (r, _, p) \<leftarrow> pgr_release_if_exists (vc_pager v) prev (pt_code PG_VAR_PAGE);
       let v = v\<lparr>vc_pager := p\<rparr>;
       if isl r then Some (r, v)
       else do {
         (prev, c) \<leftarrow> page_h_xfer_ownership (vc_pager v) (vc_cur v);
         let v = v\<lparr>vc_cur := c\<rparr>;
         succ \<leftarrow> map_option vp_get_next (page_h_ro (vc_pager v) prev);
         if succ = PGNO_NULL then do {
           (r, _, p) \<leftarrow> pgr_release (vc_pager v) prev (pt_code PG_VAR_PAGE);
           Some (if isl r then r else Inl ERR_VARIABLE_NE, v\<lparr>vc_pager := p\<rparr>) }
         else do {
           (r, v) \<leftarrow> vc_get_page v PG_VAR_PAGE succ;
           if isl r then Some (r, v) else vpc_delete_search tx name v prev } } } }"

definition vpc_delete :: "var_cursor \<Rightarrow> u8 list \<Rightarrow> (unit res \<times> var_cursor) option" where
  "vpc_delete v name = do {
     tx \<leftarrow> vc_tx v;
     ASSERT (length name < MAX_VSTR);
     v \<leftarrow> vc_input v name;
     vc_theend (err_wrap (vpc_hash_head v name) (\<lambda>head v.
       if head \<noteq> PGNO_NULL then
         err_wrap (vc_get_page v PG_VAR_PAGE head) (\<lambda>_ v. vpc_delete_search tx name v page_h_create)
       else err_wrap (vc_release v (pt_code PG_VAR_PAGE)) (\<lambda>_ v. Some (Inl ERR_VARIABLE_NE, v)))) }"

end
