(* ===== verification/Var_Lookup.thy ===== *)
theory Var_Lookup
  imports Var_Cursor Rptree_Seek
begin

text \<open>
  Looking variables up. \<open>alone\<close> says that a handle holds a page and nothing else is in use; with it, taking pages one
  after the other along a list is followed through the pool. \<open>tail_in\<close>, \<open>var_in\<close>, \<open>chain_in\<close> and \<open>slot_in\<close> say
  what the pages hold: a variable with its tail pages, the chain of variables of a slot, and the slot of a name in the hash page. A lookup
  finds the variable of the specification. Two theorems are about cursors that end up unusable.
\<close>

section \<open>One page held for reading\<close>

definition at_rest :: "(pgno \<Rightarrow> u8 list) \<Rightarrow> nat \<Rightarrow> pager \<Rightarrow> bool" where
  "at_rest v N p \<longleftrightarrow> idle p \<and> pages_are v N p"

definition alone :: "(pgno \<Rightarrow> u8 list) \<Rightarrow> nat \<Rightarrow> pager \<Rightarrow> page_h \<Rightarrow> pgno \<Rightarrow> bool" where
  \<comment> \<open>the handle is on the page, and nothing else is in use\<close>
  "alone v N p h k \<longleftrightarrow> pages_are v N p \<and>
     (\<exists>i. pool_inv p \<and> holds_s p h k i \<and> used p = {i} \<and> pf_pin (fr p i) = 1)"

lemma alone_page:
  assumes "alone v N p h k"
  shows "page_h_ro p h = Some \<lparr>raw = v k, pg = k\<rparr>" "page_h_pgno p h = Some k" "ph_mode h = PHM_S"
    "page_h_type p h = Some (page_get_type \<lparr>raw = v k, pg = k\<rparr>)" "page_h_assert p h = Some ()" "unat k < N" "length (v k) = PAGE_SIZE"
proof -
  obtain i where i: "pool_inv p" "holds_s p h k i" and v: "pages_are v N p" using assms by (auto simp: alone_def)
  note C = holds_s_cached [OF i]
  show k: "unat k < N" using C(1) v by (simp add: cached_def pages_are_def)
  show ro: "page_h_ro p h = Some \<lparr>raw = v k, pg = k\<rparr>" by (rule holds_s_page [OF i v k])
  then show "length (v k) = PAGE_SIZE" using C(6,9) by (simp add: wf_page_def)
  from ro show "page_h_type p h = Some (page_get_type \<lparr>raw = v k, pg = k\<rparr>)" by (simp add: page_h_type_def)
  show "page_h_pgno p h = Some k" "page_h_assert p h = Some ()" using C(7,8) by simp_all
  show "ph_mode h = PHM_S" using holds_sD(1) [OF i(2)] .
qed

lemma get_alone:
  assumes "at_rest v N p" and "holds_none h" and "unat k < N" "valid_bytes (v k) flags"
  shows "\<exists>h' q. pgr_get h flags k p = Some (Inr (), h', q) \<and> alone v N q h' k"
proof -
  have p: "idle p" "pages_are v N p" using assms(1) by (simp_all add: at_rest_def)
  have z: "0 < MEMORY_PAGE_LEN" by simp
  obtain h' q i where g: "pgr_get h flags k p = Some (Inr (), h', q)" "holds_s q h' k i" "pool_step p q {i}"
      "pages_are v N q" "readers (Suc 0) q"
    using pgr_get_readers [OF readers_idle [OF p(1)] z assms(2) p(2) assms(3,4)] by blast
  have inv: "pool_inv q" by (rule pool_stepD(1) [OF g(3)])
  have i: "i \<in> used q" by (rule holds_s_cached(11) [OF inv g(2)])
  then have "used q = {i}" using pool_stepD(4) [OF g(3)] p(1) by (auto simp: idle_def)
  moreover have "pf_pin (fr q i) = 1" using g(5) i holds_sD(5) [OF g(2)] by (fastforce simp: readers_def)
  ultimately show ?thesis using g inv by (auto simp: alone_def)
qed

lemma holds_none_released: "holds_s p h k i \<Longrightarrow> holds_none (h\<lparr>ph_pgr := None, ph_mode := PHM_NONE\<rparr>)"
  by (simp add: holds_none_def holds_s_def)

lemma release_alone:
  assumes "alone v N p h k" and "valid_bytes (v k) flags"
  shows "\<exists>h' q. pgr_release p h flags = Some (Inr (), h', q) \<and> at_rest v N q \<and> holds_none h'"
proof -
  obtain i where i: "pool_inv p" "holds_s p h k i" "used p = {i}" "pf_pin (fr p i) = 1" and v: "pages_are v N p"
    using assms(1) by (auto simp: alone_def)
  have page: "pgr_page p k = v k" using v alone_page(6) [OF assms(1)] by (simp add: pages_are_def)
  obtain q where q: "pgr_release p h flags = Some (Inr (), h\<lparr>ph_pgr := None, ph_mode := PHM_NONE\<rparr>, q)" "pool_step p q {i}"
      "\<forall>l. pgr_page q l = pgr_page p l" "used q = {}"
    using pgr_release_shared_ok [OF i(1,2)] assms(2) i(3,4) page by fastforce
  have "pages_are v N q" using q(3) v pgr_restD(1) [OF pool_stepD(2) [OF q(2)]] by (simp add: pages_are_def)
  moreover have "idle q" using pool_stepD(1) [OF q(2)] q(4) by (simp add: idle_def)
  ultimately show ?thesis using q(1) holds_none_released [OF i(2)] by (auto simp: at_rest_def)
qed

lemma fetch_miss_free:
  assumes inv: "pool_inv p" and k: "unat k < unat (fp_npages (pg_fp p))" and none: "ht_map (pg_ht p) k = None" "frame_free p m"
    and h: "holds_none h" and g: "pgr_fetch verify h k p = Some (Inr (), h', q)" "ph_pgr h' = Some c"
  shows "c \<notin> used p"
proof -
  note F = frames_invD [OF pool_invD(1) [OF inv]]
  have "unat k + ht_cap (pg_ht p) < 2 ^ 64" using npages_key [OF pool_invD(2) [OF inv] k] F(4) by simp
  from ht_get_correct [OF F(3) this] none(1) have get: "ht_get (pg_ht p) k = Some (HTAR_DOESNT_EXIST, None)" by simp
  from pgr_reserve_ok [OF inv none(2)] obtain p1 where
    p1: "pgr_reserve_at_clock p = Some (Inr (), p1)" "pool_kept p p1" "\<not> pf_present (fr p1 (pg_clock p1))" by blast
  have un: "\<forall>e. a \<noteq> Inl e \<Longrightarrow> a = Inr ()" for a :: "unit res" by (cases a) auto
  have "c = pg_clock p1"
    using g(1,2) h get p1(1) unfolding pgr_fetch_def
    by (auto simp: holds_none_def bind_eq_Some_conv Let_def put_frame_def split: sum.splits option.splits prod.splits if_splits dest: un)
  with p1(3) pool_keptD(4) [OF p1(2), of c] show ?thesis by (fastforce simp: used_def)
qed

lemma fetch_unused:
  assumes inv: "pool_inv p" and k: "unat k < unat (fp_npages (pg_fp p))" and c: "card (used p) < MEMORY_PAGE_LEN"
    and nu: "\<forall>l. ht_map (pg_ht p) k = Some l \<longrightarrow> l \<notin> used p"
    and v: "\<forall>x. raw x = pgr_page p k \<longrightarrow> verify x = Some (Inr ())"
  shows "\<exists>h q j. pgr_fetch verify page_h_create k p = Some (Inr (), h, q) \<and> holds_s q h k j \<and> pool_step p q {j} \<and>
    same_pages p q \<and> pf_pin (fr q j) = 1 \<and> j \<notin> used p"
proof (cases "ht_map (pg_ht p) k")
  case None
  obtain m where m: "frame_free p m" using used_free [OF c] by blast
  from pgr_fetch_miss [OF inv holds_none_create k v None m] obtain h q j where
    g: "pgr_fetch verify page_h_create k p = Some (Inr (), h, q)" "holds_s q h k j" "pool_step p q {j}" "same_pages p q"
      "pf_pin (fr q j) = 1" by blast
  from fetch_miss_free [OF inv k None m holds_none_create g(1) holds_sD(2) [OF g(2)]] g show ?thesis by blast
next
  case (Some l)
  have cd: "l < MEMORY_PAGE_LEN" "pf_present (fr p l)"
    using frames_invD(6) [OF pool_invD(1) [OF inv] Some] by (simp_all add: cached_def)
  have l: "l \<notin> used p" using nu Some by simp
  then have pin: "pf_pin (fr p l) = 0" using cd by (simp add: used_def)
  have "pf_wsibling (fr p l) = -1" by (rule unpinned_cached(2) [OF pool_invD(1) [OF inv] cd pin])
  from pgr_fetch_hit [OF inv holds_none_create k v Some this] pin l show ?thesis by auto
qed

text \<open>The step along a list of pages: the next page is taken, then the old one is given back.\<close>

lemma walk_alone:
  assumes a: "alone v N p h k" and k': "k' \<noteq> k" "unat k' < N" "valid_bytes (v k') flags" and f2: "valid_bytes (v k) flags2"
  shows "\<exists>h' q h0 q'. pgr_get page_h_create flags k' p = Some (Inr (), h', q) \<and> page_h_assert q' h' = Some () \<and>
    pgr_release q h flags2 = Some (Inr (), h0, q') \<and> alone v N q' h' k'"
proof -
  obtain i where i: "pool_inv p" "holds_s p h k i" "used p = {i}" "pf_pin (fr p i) = 1" and v: "pages_are v N p"
    using a by (auto simp: alone_def)
  note H = holds_sD [OF i(2)] and C = holds_s_cached [OF i(1,2)]
  have np: "unat k' < unat (fp_npages (pg_fp p))" "pgr_page p k' = v k'" using v k'(2) by (simp_all add: pages_are_def)
  have nu: "\<forall>l. ht_map (pg_ht p) k' = Some l \<longrightarrow> l \<notin> used p"
    using frames_invD(6) [OF pool_invD(1) [OF i(1)], of k'] i(3) C(5) k'(1) by (auto simp: cached_def)
  have ver: "\<forall>x. raw x = pgr_page p k' \<longrightarrow> page_validate_for_db x flags = Some (Inr ())"
    using k'(3) np(2) by (simp add: valid_bytes_iff)
  have c: "card (used p) < MEMORY_PAGE_LEN" using i(3) by simp
  obtain h' q j where g: "pgr_get page_h_create flags k' p = Some (Inr (), h', q)" "holds_s q h' k' j" "pool_step p q {j}"
      "same_pages p q" "pf_pin (fr q j) = 1" "j \<notin> used p"
    using fetch_unused [OF i(1) np(1) c nu ver] unfolding pgr_get_def by blast
  note S = pool_stepD [OF g(3)] and Hj = holds_sD [OF g(2)]
  note Cj = holds_s_cached [OF S(1) g(2)]
  have ij: "i \<noteq> j" using g(6) i(3) by auto
  have vq: "pages_are v N q" using v g(4) pgr_restD(1) [OF S(2)] by (simp add: pages_are_def same_pages_def)
  have fr: "fr q i = fr p i" and ht: "ht_map (pg_ht q) k = Some i"
    using others_keptD [OF S(3) C(2) _ C(4) H(5)] ij H(4) by auto
  have hs: "holds_s q h k i" using H fr ht by (simp add: holds_s_def)
  have page: "pgr_page q k = v k" using vq alone_page(6) [OF a] by (simp add: pages_are_def)
  obtain q' where r: "pgr_release q h flags2 = Some (Inr (), h\<lparr>ph_pgr := None, ph_mode := PHM_NONE\<rparr>, q')" "pool_step q q' {i}"
      "\<forall>l. pgr_page q' l = pgr_page q l" "used q' = used q - {i}"
    using pgr_release_shared_ok [OF S(1) hs] f2 i(4) page fr by fastforce
  note S' = pool_stepD [OF r(2)]
  have fr': "fr q' j = fr q j" and ht': "ht_map (pg_ht q') k' = Some j"
    using others_keptD [OF S'(3) Cj(2) _ Cj(4) Hj(5)] ij Hj(4) by auto
  have hs': "holds_s q' h' k' j" using Hj fr' ht' by (simp add: holds_s_def)
  have "used q' = {j}" using S(4) Cj(11) ij r(4) i(3) by auto
  moreover have "pages_are v N q'" using r(3) vq pgr_restD(1) [OF S'(2)] by (simp add: pages_are_def)
  moreover have "pf_pin (fr q' j) = 1" using g(5) fr' by simp
  ultimately have "alone v N q' h' k'" using S'(1) hs' by (auto simp: alone_def)
  with g(1) r(1) holds_s_cached(7) [OF S'(1) hs'] show ?thesis by blast
qed

section \<open>Variables on pages\<close>

abbreviation page_at :: "(pgno \<Rightarrow> u8 list) \<Rightarrow> pgno \<Rightarrow> page" where
  "page_at v n \<equiv> \<lparr>raw = v n, pg = n\<rparr>"

fun tail_in :: "(pgno \<Rightarrow> u8 list) \<Rightarrow> nat \<Rightarrow> pgno \<Rightarrow> pgno list \<Rightarrow> u8 list \<Rightarrow> bool" where
  \<comment> \<open>the tail pages from \<open>n\<close> on hold just these bytes\<close>
  "tail_in v N n [] bs \<longleftrightarrow> n = PGNO_NULL \<and> bs = []"
| "tail_in v N n (m # ms) bs \<longleftrightarrow> n = m \<and> n \<noteq> PGNO_NULL \<and> unat n < N \<and> bs \<noteq> [] \<and>
     valid_bytes (v n) (pt_code PG_VAR_TAIL) \<and> page_get_type (page_at v n) = pt_code PG_VAR_TAIL \<and>
     take (length bs) (vt_get_bytes (page_at v n)) = take (length (vt_get_bytes (page_at v n))) bs \<and>
     tail_in v N (vt_get_next (page_at v n)) ms (drop (length (vt_get_bytes (page_at v n))) bs)"

definition var_in :: "(pgno \<Rightarrow> u8 list) \<Rightarrow> nat \<Rightarrow> pgno \<Rightarrow> pgno list \<Rightarrow> u8 list \<Rightarrow> u8 list \<Rightarrow> bool" where
  \<comment> \<open>the variable page \<open>n\<close> and its tail hold a name and a serialized type\<close>
  "var_in v N n ms name ty \<longleftrightarrow>
     (let x = page_at v n; bs = name @ ty in
      unat n < N \<and> valid_bytes (v n) (pt_code PG_VAR_PAGE) \<and> page_get_type x = pt_code PG_VAR_PAGE \<and>
      unat (vp_get_vlen x) = length name \<and> unat (vp_get_tlen x) = length ty \<and>
      0 < length name \<and> length name \<le> MAX_VSTR \<and> 0 < length ty \<and> length ty \<le> MAX_TSTR \<and>
      take (length bs) (vp_get_bytes x) = take (length (vp_get_bytes x)) bs \<and>
      tail_in v N (vp_get_ovnext x) ms (drop (length (vp_get_bytes x)) bs))"

fun chain_in :: "(pgno \<Rightarrow> u8 list) \<Rightarrow> nat \<Rightarrow> pgno \<Rightarrow> (u8 list \<times> type_t \<times> pgno) list \<Rightarrow> bool" where
  \<comment> \<open>the chain from \<open>n\<close> on holds the variables with these names, types and roots\<close>
  "chain_in v N n [] \<longleftrightarrow> n = PGNO_NULL"
| "chain_in v N n ((name, t, root) # cs) \<longleftrightarrow> n \<noteq> PGNO_NULL \<and> (\<exists>ms. var_in v N n ms name (type_bytes t)) \<and> type_ok t \<and>
     vp_get_root (page_at v n) = root \<and> chain_in v N (vp_get_next (page_at v n)) cs"

definition slot_in :: "(pgno \<Rightarrow> u8 list) \<Rightarrow> nat \<Rightarrow> u8 list \<Rightarrow> (u8 list \<times> type_t \<times> pgno) list \<Rightarrow> bool" where
  \<comment> \<open>the variables in the slot of a name\<close>
  "slot_in v N name cs \<longleftrightarrow> unat VHASH_PGNO < N \<and> valid_bytes (v VHASH_PGNO) (pt_code PG_VAR_HASH_PAGE) \<and>
     (\<exists>head. vh_get_hash_value (page_at v VHASH_PGNO) (vh_get_hash_pos name) = Some head \<and> chain_in v N head cs)"

lemma tail_not_ring:
  "n \<noteq> PGNO_NULL \<Longrightarrow> vt_get_next (page_at v n) = n \<Longrightarrow> \<not> tail_in v N n ms bs"
  by (induction ms arbitrary: bs) auto

section \<open>Copying a page\<close>

definition got :: "var_cursor \<Rightarrow> u8 list \<Rightarrow> u8 list \<Rightarrow> nat \<Rightarrow> bool" where
  \<comment> \<open>the first \<open>k\<close> bytes of the name and the type are in the buffers\<close>
  "got v name ty k \<longleftrightarrow> length (vc_vstr v) = MAX_VSTR \<and> length (vc_tstr v) = MAX_TSTR \<and>
     vc_vlen v = length name \<and> vc_tlen v = length ty \<and> length name \<le> MAX_VSTR \<and> length ty \<le> MAX_TSTR \<and>
     take (min k (length name)) (vc_vstr v) = take k name \<and>
     take (k - length name) (vc_tstr v) = take (k - length name) ty"

lemma take_splice:
  assumes "length src \<le> n" and "k + n \<le> length m" and "take k m = take k xs" "src = take n (drop k xs)" and "k + n \<le> length xs"
  shows "take (k + n) (splice m k src) = take (k + n) xs"
proof -
  have "length src = n" using assms(4,5) by simp
  then have "take (k + n) (splice m k src) = take k m @ src" using assms(2) by (simp add: splice_def)
  then show ?thesis using assms(3,4) by (simp add: take_add)
qed

lemma copy_vstr:
  assumes g: "got v name ty k" and k: "k < length name" and n: "n = min (length head - l) (length name - k)"
    and bs: "take (length name + length ty - k) (drop l head) = take (length head - l) (drop k (name @ ty))" and l: "l \<le> length head"
  shows "\<exists>m. vpc_read_vstr v head k l = Some (v\<lparr>vc_vstr := m\<rparr>, k + n, l + n) \<and> got (v\<lparr>vc_vstr := m\<rparr>) name ty (k + n)"
proof -
  have G: "length (vc_vstr v) = MAX_VSTR" "vc_vlen v = length name" "length name \<le> MAX_VSTR" "take k (vc_vstr v) = take k name"
    using g k by (simp_all add: got_def)
  have "take n (drop l head) = take n (take (length name + length ty - k) (drop l head))" using n by (simp add: min_def)
  also have "\<dots> = take n (drop k name)" unfolding bs using n k by (simp add: min_def)
  finally have c: "take n (drop l head) = take n (drop k name)" .
  have len: "length (take n (drop l head)) = n" using n by simp
  have nk: "n \<le> length head - l" "n \<le> length name - k" using n by simp_all
  let ?m = "splice (vc_vstr v) k (take n (drop l head))"
  have "take (k + n) ?m = take (k + n) name"
    using G k nk by (intro take_splice [OF _ _ _ c]) (simp_all add: len)
  moreover have "length ?m = length (vc_vstr v)" using G k nk by (simp add: splice_def)
  moreover have kn: "k + n \<le> length name" "l + n \<le> length head" using k nk l by arith+
  ultimately have "got (v\<lparr>vc_vstr := ?m\<rparr>) name ty (k + n)"
    using g k nk(2) len by (simp add: got_def)
  moreover have "vpc_read_vstr v head k l = Some (v\<lparr>vc_vstr := ?m\<rparr>, k + n, l + n)"
    using G k l len nk kn by (simp add: vpc_read_vstr_def mem_read_def mem_write_def slice_def Let_def flip: n)
  ultimately show ?thesis by blast
qed

lemma copy_tstr:
  assumes g: "got v name ty k" and k: "length name \<le> k" "k \<le> length name + length ty"
    and n: "n = min (length head - l) (length name + length ty - k)"
    and bs: "take (length name + length ty - k) (drop l head) = take (length head - l) (drop k (name @ ty))" and l: "l \<le> length head"
  shows "\<exists>m. vpc_read_tstr v head k l = Some (v\<lparr>vc_tstr := m\<rparr>, k + n, l + n) \<and> got (v\<lparr>vc_tstr := m\<rparr>) name ty (k + n)"
proof -
  let ?k = "k - length name"
  have G: "length (vc_tstr v) = MAX_TSTR" "vc_vlen v = length name" "vc_tlen v = length ty" "length ty \<le> MAX_TSTR"
      "take ?k (vc_tstr v) = take ?k ty"
    using g k by (simp_all add: got_def)
  have "take n (drop l head) = take n (take (length name + length ty - k) (drop l head))" using n by (simp add: min_def)
  also have "\<dots> = take n (drop ?k ty)" unfolding bs using n k by (simp add: min_def)
  finally have c: "take n (drop l head) = take n (drop ?k ty)" .
  have len: "length (take n (drop l head)) = n" using n by simp
  have nk: "n \<le> length head - l" "n \<le> length name + length ty - k" using n by simp_all
  let ?m = "splice (vc_tstr v) ?k (take n (drop l head))"
  have "take (?k + n) ?m = take (?k + n) ty"
    using G k nk by (intro take_splice [OF _ _ _ c]) (simp_all add: len)
  moreover have "length ?m = length (vc_tstr v)" using G k nk by (simp add: splice_def)
  moreover have kn: "k + n \<le> length name + length ty" "k + n - length name \<le> MAX_TSTR" "l + n \<le> length head"
    using G k nk l by arith+
  ultimately have "got (v\<lparr>vc_tstr := ?m\<rparr>) name ty (k + n)"
    using g k nk G len by (simp add: got_def)
  moreover have "vpc_read_tstr v head k l = Some (v\<lparr>vc_tstr := ?m\<rparr>, k + n, l + n)"
    using G k l len nk kn by (simp add: vpc_read_tstr_def mem_read_def mem_write_def slice_def Let_def flip: n)
  ultimately show ?thesis by blast
qed

lemma copy_page:
  assumes g: "got v name ty k" and k: "k \<le> length name + length ty" and l: "l \<le> length head"
    and bs: "take (length name + length ty - k) (drop l head) = take (length head - l) (drop k (name @ ty))"
    and n: "n = min (length head - l) (length name + length ty - k)"
  shows "\<exists>m1 m2. do { (v, read, lread) \<leftarrow> vpc_read_vstr v head k l; vpc_read_tstr v head read lread } =
      Some (v\<lparr>vc_vstr := m1, vc_tstr := m2\<rparr>, k + n, l + n) \<and> got (v\<lparr>vc_vstr := m1, vc_tstr := m2\<rparr>) name ty (k + n)"
proof (cases "k < length name")
  case False
  then have "vpc_read_vstr v head k l = Some (v\<lparr>vc_vstr := vc_vstr v\<rparr>, k, l)"
    using g by (simp add: vpc_read_vstr_def got_def)
  moreover obtain m where m: "vpc_read_tstr v head k l = Some (v\<lparr>vc_tstr := m\<rparr>, k + n, l + n)"
      "got (v\<lparr>vc_tstr := m\<rparr>) name ty (k + n)"
    using copy_tstr [OF g _ k n bs l] False by auto
  moreover have "v\<lparr>vc_vstr := vc_vstr v, vc_tstr := m\<rparr> = v\<lparr>vc_tstr := m\<rparr>" by simp
  ultimately show ?thesis by (intro exI [of _ "vc_vstr v"] exI [of _ m]) simp
next
  case True
  define n1 where "n1 = min (length head - l) (length name - k)"
  obtain m1 where 1: "vpc_read_vstr v head k l = Some (v\<lparr>vc_vstr := m1\<rparr>, k + n1, l + n1)"
      "got (v\<lparr>vc_vstr := m1\<rparr>) name ty (k + n1)"
    using copy_vstr [OF g True n1_def bs l] by blast
  let ?v = "v\<lparr>vc_vstr := m1\<rparr>"
  show ?thesis
  proof (cases "length head - l < length name - k")
    case True
    then have "n1 = length head - l" "n = n1" "\<not> length name \<le> k + n1" using n by (simp_all add: n1_def)
    moreover from this have "vpc_read_tstr ?v head (k + n1) (l + n1) = Some (?v, k + n1, l + n1)"
      using 1(2) by (simp add: vpc_read_tstr_def got_def)
    moreover have "v\<lparr>vc_vstr := m1, vc_tstr := vc_tstr v\<rparr> = ?v" by simp
    ultimately show ?thesis using 1 by (intro exI [of _ m1] exI [of _ "vc_tstr v"]) simp
  next
    case False
    then have n1: "n1 = length name - k" "l + n1 \<le> length head" using l by (simp_all add: n1_def min_def)
    then have k1: "length name \<le> k + n1" "k + n1 \<le> length name + length ty" using True by simp_all
    have "take (length name + length ty - (k + n1)) (drop (l + n1) head) =
        drop n1 (take (length name + length ty - k) (drop l head))"
      using n1 by (simp add: drop_take add.commute)
    also have "\<dots> = take (length head - (l + n1)) (drop (k + n1) (name @ ty))"
      unfolding bs drop_take drop_drop diff_diff_left by (simp only: add.commute)
    finally have bs': "take (length name + length ty - (k + n1)) (drop (l + n1) head) =
      take (length head - (l + n1)) (drop (k + n1) (name @ ty))" .
    obtain m2 where "vpc_read_tstr ?v head (k + n1) (l + n1) = Some (?v\<lparr>vc_tstr := m2\<rparr>,
        k + n1 + min (length head - (l + n1)) (length name + length ty - (k + n1)),
        l + n1 + min (length head - (l + n1)) (length name + length ty - (k + n1)))"
      "got (?v\<lparr>vc_tstr := m2\<rparr>) name ty (k + n1 + min (length head - (l + n1)) (length name + length ty - (k + n1)))"
      using copy_tstr [OF 1(2) k1 refl bs' n1(2)] by blast
    moreover have "n1 + min (length head - (l + n1)) (length name + length ty - (k + n1)) = n"
      using n n1 True False k by arith
    ultimately show ?thesis using 1(1) by (auto simp: add.assoc)
  qed
qed

section \<open>Reading the page of a variable\<close>

definition linked :: "(pgno \<Rightarrow> u8 list) \<Rightarrow> pgno \<Rightarrow> pgno \<Rightarrow> bool" where
  \<comment> \<open>a page of a variable and the tail page after it\<close>
  "linked V n ov \<longleftrightarrow> valid_bytes (V n) VP_OR_TAIL \<and> dlgt_get_ovnext (page_at V n) = Some ov \<and> (ov = PGNO_NULL \<or> ov \<noteq> n)"

lemma valid_bytes_flags:
  assumes "valid_bytes x (pt_code t)" and "page_get_type \<lparr>raw = x, pg = n\<rparr> = pt_code t" and "pt_code t AND flags \<noteq> 0"
  shows "valid_bytes x flags"
proof -
  have "page_get_type \<lparr>raw = x, pg = 0\<rparr> = pt_code t"
    using assms(2) by (simp add: page_get_type_def page_get_def)
  with assms(1,3) show ?thesis
    by (auto simp: valid_bytes_def page_validate_for_db_def Let_def simp del: pt_code.simps split: if_splits)
qed

lemma tail_linked:
  assumes "tail_in V N n (m # ms) bs"
  shows "linked V m (vt_get_next (page_at V m))" "tail_in V N (vt_get_next (page_at V m)) ms (drop (length (vt_get_bytes (page_at V m))) bs)"
    "unat m < N" "valid_bytes (V m) (pt_code PG_VAR_TAIL)" "m = n" "n \<noteq> PGNO_NULL" "page_get_type (page_at V m) = pt_code PG_VAR_TAIL"
proof -
  have t: "page_get_type (page_at V m) = pt_code PG_VAR_TAIL" "valid_bytes (V m) (pt_code PG_VAR_TAIL)" "m = n" "n \<noteq> PGNO_NULL"
    and r: "tail_in V N (vt_get_next (page_at V m)) ms (drop (length (vt_get_bytes (page_at V m))) bs)" and "unat m < N"
    using assms by auto
  then show "unat m < N" "valid_bytes (V m) (pt_code PG_VAR_TAIL)" "m = n" "n \<noteq> PGNO_NULL"
    "page_get_type (page_at V m) = pt_code PG_VAR_TAIL"
    "tail_in V N (vt_get_next (page_at V m)) ms (drop (length (vt_get_bytes (page_at V m))) bs)" by simp_all
  have "valid_bytes (V m) VP_OR_TAIL" by (rule valid_bytes_flags [OF t(2,1)]) simp
  moreover have "vt_get_next (page_at V m) \<noteq> m" using tail_not_ring [of m V N ms] r t(3,4) by metis
  ultimately show "linked V m (vt_get_next (page_at V m))"
    using t(1) by (simp add: linked_def dlgt_get_ovnext_def del: pt_code.simps)
qed

lemma read_advance_correct:
  assumes a: "alone V N (vc_pager v) (vc_cur v) n" and l: "linked V n ov" and t: "tail_in V N ov (m # ms) bs"
  shows "\<exists>p h. vpc_read_advance v = Some (Inr (), v\<lparr>vc_pager := p, vc_cur := h\<rparr>, vt_get_bytes (page_at V m)) \<and>
    alone V N p h m"
proof -
  note T = tail_linked [OF t] and P = alone_page [OF a]
  have mn: "m \<noteq> n" "ov = m" using l T(5,6) by (auto simp: linked_def)
  have vb: "valid_bytes (V n) VP_OR_TAIL" using l by (simp add: linked_def)
  obtain h q h0 q' where w: "pgr_get page_h_create (pt_code PG_VAR_TAIL) m (vc_pager v) = Some (Inr (), h, q)"
      "page_h_assert q' h = Some ()" "pgr_release q (vc_cur v) VP_OR_TAIL = Some (Inr (), h0, q')" "alone V N q' h m"
    using walk_alone [OF a mn(1) T(3,4) vb] by blast
  have c: "ph_mode page_h_create = PHM_NONE" by (simp add: page_h_create_def)
  have ov: "dlgt_get_ovnext (page_at V n) = Some m" using l mn(2) by (simp add: linked_def)
  have get: "pgr_dlgt_get_ovnext (vc_cur v) page_h_create None (vc_pager v) = Some (Inr (), h, q)"
    using P(1,3) ov T(6) mn(2) w(1)
    by (simp add: pgr_dlgt_get_ovnext_def pgr_neighbor_def pgr_get_for_def c del: pt_code.simps)
  have hm: "ph_mode h = PHM_S" by (rule alone_page(3) [OF w(4)])
  have ro: "vc_ro (v\<lparr>vc_pager := q', vc_cur := h\<rparr>) = Some (page_at V m)"
    using alone_page(1) [OF w(4)] by (simp add: vc_ro_def)
  have "vpc_read_advance v = Some (Inr (), v\<lparr>vc_pager := q', vc_cur := h\<rparr>, vt_get_bytes (page_at V m))"
    using get w(3) hm ro T(7) xfer_held [OF w(2)]
    by (simp add: vpc_read_advance_def vc_release_def dlgt_get_bytes_def del: pt_code.simps)
  with w(4) show ?thesis by blast
qed

lemma read_step:
  assumes "rd < vc_tlen v + vc_vlen v" and "l \<le> length head"
    and "(if l = length head then do { (r, v, head) \<leftarrow> vpc_read_advance v; Some (r, v, head, 0) } else Some (Inr (), v, head, l))
      = Some (Inr (), v1, head1, l1)"
    and "do { (v, read, lread) \<leftarrow> vpc_read_vstr v1 head1 rd l1; vpc_read_tstr v head1 read lread } = Some (v2, rd2, l2)"
  shows "vpc_read_loop v head rd l = vpc_read_loop v2 head1 rd2 l2"
proof -
  obtain v' read lread where "vpc_read_vstr v1 head1 rd l1 = Some (v', read, lread)" "vpc_read_tstr v' head1 read lread = Some (v2, rd2, l2)"
    using assms(4) by (auto simp: bind_eq_Some_conv)
  with assms(1-3) show ?thesis
    by (subst vpc_read_loop.simps) (auto simp: bind_eq_Some_conv split: if_splits)
qed

lemma got_handle [simp]: "got (v\<lparr>vc_pager := p, vc_cur := h\<rparr>) name ty k = got v name ty k"
  by (simp add: got_def)

lemma read_rest:
  assumes "alone V N (vc_pager v) (vc_cur v) n" and "linked V n ov" and "got v name ty rd" and "rd \<le> length name + length ty"
    and "tail_in V N ov ms (drop rd (name @ ty))" and "rd = length name + length ty \<or> l = length head"
  shows "\<exists>p h m1 m2 n'. vpc_read_loop v head rd l =
      Some (Inr (), v\<lparr>vc_pager := p, vc_cur := h, vc_vstr := m1, vc_tstr := m2\<rparr>) \<and> alone V N p h n' \<and>
    linked V n' PGNO_NULL \<and> got (v\<lparr>vc_vstr := m1, vc_tstr := m2\<rparr>) name ty (length name + length ty) \<and>
    (n' = n \<or> valid_bytes (V n') (pt_code PG_VAR_TAIL))"
  using assms
proof (induction ms arbitrary: v n ov head rd l)
  case Nil
  then have "rd = length name + length ty" "ov = PGNO_NULL" by auto
  moreover from this have "vpc_read_loop v head rd l = Some (Inr (), v)"
    using Nil.prems(3) by (subst vpc_read_loop.simps) (simp add: got_def)
  moreover have "v = v\<lparr>vc_pager := vc_pager v, vc_cur := vc_cur v, vc_vstr := vc_vstr v, vc_tstr := vc_tstr v\<rparr>" by simp
  ultimately show ?case using Nil.prems(1-3)
    by (intro exI [of _ "vc_pager v"] exI [of _ "vc_cur v"] exI [of _ "vc_vstr v"] exI [of _ "vc_tstr v"] exI [of _ n]) simp
next
  case (Cons m ms)
  let ?W = "name @ ty" and ?K = "vt_get_bytes (page_at V m)"
  have G: "vc_vlen v = length name" "vc_tlen v = length ty" using Cons.prems(3) by (simp_all add: got_def)
  have t: "drop rd ?W \<noteq> []" "take (length (drop rd ?W)) ?K = take (length ?K) (drop rd ?W)"
    using Cons.prems(5) by auto
  note T = tail_linked [OF Cons.prems(5)]
  have rd: "rd < length name + length ty" and l: "l = length head" using t(1) Cons.prems(6) by auto
  obtain p h where adv: "vpc_read_advance v = Some (Inr (), v\<lparr>vc_pager := p, vc_cur := h\<rparr>, ?K)" "alone V N p h m"
    using read_advance_correct [OF Cons.prems(1,2,5)] by blast
  let ?v1 = "v\<lparr>vc_pager := p, vc_cur := h\<rparr>"
  have bs: "take (length name + length ty - rd) (drop 0 ?K) = take (length ?K - 0) (drop rd ?W)"
    unfolding drop_0 diff_zero by (rule t(2) [unfolded length_drop length_append])
  define c where "c = min (length ?K - 0) (length name + length ty - rd)"
  have g1: "got ?v1 name ty rd" using Cons.prems(3) by simp
  obtain m1 m2 where c: "do { (v, read, lread) \<leftarrow> vpc_read_vstr ?v1 ?K rd 0; vpc_read_tstr v ?K read lread } =
      Some (?v1\<lparr>vc_vstr := m1, vc_tstr := m2\<rparr>, rd + c, 0 + c)" "got (?v1\<lparr>vc_vstr := m1, vc_tstr := m2\<rparr>) name ty (rd + c)"
    using copy_page [OF g1 Cons.prems(4) le0 bs c_def] by blast
  let ?v2 = "?v1\<lparr>vc_vstr := m1, vc_tstr := m2\<rparr>"
  have step: "vpc_read_loop v head rd l = vpc_read_loop ?v2 ?K (rd + c) (0 + c)"
    by (rule read_step [OF _ _ _ c(1)]) (use rd l adv(1) G in \<open>simp_all add: add.commute\<close>)
  have rest: "drop (length ?K) (drop rd ?W) = drop (rd + c) ?W"
  proof (cases "length ?K \<le> length name + length ty - rd")
    case True
    then have "c = length ?K" by (simp add: c_def)
    then show ?thesis by (simp only: drop_drop add.commute)
  qed (simp add: c_def)
  have le: "rd + c \<le> length name + length ty" and stop: "rd + c = length name + length ty \<or> 0 + c = length ?K"
    using rd unfolding c_def by arith+
  have a2: "alone V N (vc_pager ?v2) (vc_cur ?v2) m" using adv(2) by simp
  from Cons.IH [OF a2 T(1) c(2) le T(2) [unfolded rest] stop] obtain p' h' m1' m2' n' where
    r: "vpc_read_loop ?v2 ?K (rd + c) (0 + c) = Some (Inr (), ?v2\<lparr>vc_pager := p', vc_cur := h', vc_vstr := m1', vc_tstr := m2'\<rparr>)"
      "alone V N p' h' n'" "linked V n' PGNO_NULL"
      "got (?v2\<lparr>vc_vstr := m1', vc_tstr := m2'\<rparr>) name ty (length name + length ty)"
      "n' = m \<or> valid_bytes (V n') (pt_code PG_VAR_TAIL)" by blast
  have "got (v\<lparr>vc_vstr := m1', vc_tstr := m2'\<rparr>) name ty (length name + length ty)" using r(4) by (simp add: got_def)
  with r T(4) show ?case unfolding step
    by (intro exI [of _ p'] exI [of _ h'] exI [of _ m1'] exI [of _ m2'] exI [of _ n']) auto
qed

definition asks :: "var_cursor \<Rightarrow> u8 list \<Rightarrow> bool" where
  \<comment> \<open>the cursor has its buffers, and the name it looks for is in the input\<close>
  "asks v nm \<longleftrightarrow> length (vc_vstr v) = MAX_VSTR \<and> length (vc_tstr v) = MAX_TSTR \<and> length (vc_vstr_input v) = MAX_VSTR \<and>
     vc_vlen_input v = length nm \<and> take (length nm) (vc_vstr_input v) = nm"

lemma reset_correct:
  assumes a: "alone V N (vc_pager v) (vc_cur v) n'" and n': "n' = n \<or> valid_bytes (V n') (pt_code PG_VAR_TAIL)"
    and n: "unat n < N" "valid_bytes (V n) (pt_code PG_VAR_PAGE)"
  shows "\<exists>p h. vpc_read_reset v n = Some (Inr (), v\<lparr>vc_pager := p, vc_cur := h\<rparr>) \<and> alone V N p h n"
proof (cases "n' = n")
  case True
  have "v = v\<lparr>vc_pager := vc_pager v, vc_cur := vc_cur v\<rparr>" by simp
  with True a alone_page(2) [OF a] show ?thesis
    by (intro exI [of _ "vc_pager v"] exI [of _ "vc_cur v"]) (simp add: vpc_read_reset_def)
next
  case False
  then have t: "valid_bytes (V n') (pt_code PG_VAR_TAIL)" using n' by simp
  obtain h q where r: "pgr_release (vc_pager v) (vc_cur v) (pt_code PG_VAR_TAIL) = Some (Inr (), h, q)" "at_rest V N q" "holds_none h"
    using release_alone [OF a t] by blast
  obtain h' q' where g: "pgr_get h (pt_code PG_VAR_PAGE) n q = Some (Inr (), h', q')" "alone V N q' h' n"
    using get_alone [OF r(2,3) n] by blast
  have "vpc_read_reset v n = Some (Inr (), v\<lparr>vc_pager := q', vc_cur := h'\<rparr>)"
    using False r(1) g(1) alone_page(2) [OF a]
    by (simp add: vpc_read_reset_def vc_release_def vc_get_page_def err_wrap_def del: pt_code.simps)
  with g(2) show ?thesis by blast
qed

lemma check_correct:
  assumes a: "alone V N (vc_pager v) (vc_cur v) n" and w: "var_in V N n ms name ty" and q: "asks v nm"
  shows "\<exists>v'. vpc_check_and_read_var_page_here v = Some (Inr (name = nm), v') \<and> alone V N (vc_pager v') (vc_cur v') n \<and>
    asks v' nm \<and> (name = nm \<longrightarrow> got v' name ty (length name + length ty)) \<and> vc_tx v' = vc_tx v"
proof -
  let ?x = "page_at V n" and ?W = "name @ ty"
  have x: "unat n < N" "valid_bytes (V n) (pt_code PG_VAR_PAGE)" "page_get_type ?x = pt_code PG_VAR_PAGE"
      "unat (vp_get_vlen ?x) = length name" "unat (vp_get_tlen ?x) = length ty" "0 < length name" "length name \<le> MAX_VSTR"
      "0 < length ty" "length ty \<le> MAX_TSTR" "take (length ?W) (vp_get_bytes ?x) = take (length (vp_get_bytes ?x)) ?W"
      "tail_in V N (vp_get_ovnext ?x) ms (drop (length (vp_get_bytes ?x)) ?W)"
    using w by (simp_all add: var_in_def Let_def del: pt_code.simps)
  note P = alone_page [OF a]
  have ro: "vc_ro v = Some ?x" using P(1) by (simp add: vc_ro_def)
  let ?v = "v\<lparr>vc_vlen := length name, vc_tlen := length ty\<rparr>"
  have head: "dlgt_get_bytes ?x = Some (vp_get_bytes ?x)" using x(3) by (simp add: dlgt_get_bytes_def del: pt_code.simps)
  show ?thesis
  proof (cases "length name = length nm")
    case False
    then have "vpc_check_and_read_var_page_here v = Some (Inr (name = nm), ?v)"
      using P ro x q by (auto simp: vpc_check_and_read_var_page_here_def Let_def asks_def simp del: pt_code.simps)
    then show ?thesis using a q False by (intro exI [of _ ?v]) (auto simp: asks_def)
  next
    case True
    have ov: "vp_get_ovnext ?x = PGNO_NULL \<or> vp_get_ovnext ?x \<noteq> n"
    proof (cases ms)
      case Nil
      with x(11) show ?thesis by simp
    next
      case (Cons m ms')
      note T = tail_linked [OF x(11) [unfolded Cons]]
      from T(7) x(3) have "m \<noteq> n" by (auto simp del: pt_code.simps)
      with T(5) show ?thesis by simp
    qed
    have vb: "valid_bytes (V n) VP_OR_TAIL" by (rule valid_bytes_flags [OF x(2,3)]) simp
    have lk: "linked V n (vp_get_ovnext ?x)"
      unfolding linked_def using x(3) ov vb by (simp add: dlgt_get_ovnext_def del: pt_code.simps)
    let ?B = "vp_get_bytes ?x"
    have g0: "got ?v name ty 0" using q x(7,9) by (simp add: got_def asks_def)
    have bs: "take (length name + length ty - 0) (drop 0 ?B) = take (length ?B - 0) (drop 0 ?W)" using x(10) by simp
    define c where "c = min (length ?B - 0) (length name + length ty - 0)"
    obtain m1 m2 where cp: "do { (v, read, lread) \<leftarrow> vpc_read_vstr ?v ?B 0 0; vpc_read_tstr v ?B read lread } =
        Some (?v\<lparr>vc_vstr := m1, vc_tstr := m2\<rparr>, 0 + c, 0 + c)" "got (?v\<lparr>vc_vstr := m1, vc_tstr := m2\<rparr>) name ty (0 + c)"
      using copy_page [OF g0 le0 le0 bs c_def] by blast
    let ?v2 = "?v\<lparr>vc_vstr := m1, vc_tstr := m2\<rparr>"
    have room: "0 < length ?B" using P(7) by (simp add: vp_get_bytes_def slice_def)
    have step: "vpc_read_loop ?v ?B 0 0 = vpc_read_loop ?v2 ?B (0 + c) (0 + c)"
      by (rule read_step [OF _ _ _ cp(1)]) (use x(6) room in simp_all)
    have rest: "drop (length ?B) ?W = drop (0 + c) ?W" by (cases "length ?B \<le> length ?W") (simp_all add: c_def)
    have le: "0 + c \<le> length name + length ty" and stop: "0 + c = length name + length ty \<or> 0 + c = length ?B"
      unfolding c_def by arith+
    have a2: "alone V N (vc_pager ?v2) (vc_cur ?v2) n" using a by simp
    obtain p h m1' m2' n' where
      r: "vpc_read_loop ?v2 ?B (0 + c) (0 + c) = Some (Inr (), ?v2\<lparr>vc_pager := p, vc_cur := h, vc_vstr := m1', vc_tstr := m2'\<rparr>)"
        "alone V N p h n'" "linked V n' PGNO_NULL" "got (?v2\<lparr>vc_vstr := m1', vc_tstr := m2'\<rparr>) name ty (length name + length ty)"
        "n' = n \<or> valid_bytes (V n') (pt_code PG_VAR_TAIL)"
      using read_rest [OF a2 lk cp(2) le x(11) [unfolded rest] stop] by blast
    let ?v3 = "?v2\<lparr>vc_pager := p, vc_cur := h, vc_vstr := m1', vc_tstr := m2'\<rparr>"
    have a3: "alone V N (vc_pager ?v3) (vc_cur ?v3) n'" using r(2) by simp
    obtain p' h' where rs: "vpc_read_reset ?v3 n = Some (Inr (), ?v3\<lparr>vc_pager := p', vc_cur := h'\<rparr>)" "alone V N p' h' n"
      using reset_correct [OF a3 r(5) x(1,2)] by blast
    let ?v4 = "?v3\<lparr>vc_pager := p', vc_cur := h'\<rparr>"
    have g4: "got ?v4 name ty (length name + length ty)" using r(4) by (simp add: got_def)
    have ro3: "vc_ro ?v3 = Some (page_at V n')" using alone_page(1) [OF r(2)] by (simp add: vc_ro_def)
    have "take (length name) (vc_vstr ?v4) = name" using g4 by (simp add: got_def)
    moreover have "take (length name) (vc_vstr_input ?v4) = nm" using q True by (simp add: asks_def)
    ultimately have "vpc_check_and_read_var_page_here v = Some (Inr (name = nm), ?v4)"
      using P ro x(3-6,8) q True head step r(1,3) ro3 rs(1) g4
      by (simp add: vpc_check_and_read_var_page_here_def Let_def asks_def linked_def got_def mem_read_def slice_def del: pt_code.simps)
    moreover have "asks ?v4 nm" using q g4 by (simp add: asks_def got_def)
    moreover have "alone V N (vc_pager ?v4) (vc_cur ?v4) n" using rs(2) by simp
    moreover have "name = nm \<longrightarrow> got ?v4 name ty (length name + length ty)" by (intro impI g4)
    moreover have "vc_tx ?v4 = vc_tx v" by simp
    ultimately show ?thesis by (intro exI [of _ ?v4] conjI)
  qed
qed

section \<open>Looking up\<close>

definition cursor_ready :: "var_cursor \<Rightarrow> bool" where
  "cursor_ready v \<longleftrightarrow> holds_none (vc_cur v) \<and> length (vc_vstr v) = MAX_VSTR \<and> length (vc_tstr v) = MAX_TSTR \<and>
     length (vc_vstr_input v) = MAX_VSTR"

lemma release_cur:
  assumes "alone V N (vc_pager v) (vc_cur v) n" and "valid_bytes (V n) flags"
  shows "\<exists>p h. vc_release v flags = Some (Inr (), v\<lparr>vc_pager := p, vc_cur := h\<rparr>) \<and> at_rest V N p \<and> holds_none h"
  using release_alone [OF assms] by (fastforce simp: vc_release_def)

lemma get_cur:
  assumes "at_rest V N (vc_pager v)" and "holds_none (vc_cur v)" and "unat n < N" "valid_bytes (V n) (pt_code t)"
  shows "\<exists>p h. vc_get_page v t n = Some (Inr (), v\<lparr>vc_pager := p, vc_cur := h\<rparr>) \<and> alone V N p h n"
  using get_alone [OF assms] by (fastforce simp: vc_get_page_def)

lemma hash_head_correct:
  assumes "at_rest V N (vc_pager v)" and "holds_none (vc_cur v)" and "slot_in V N nm cs"
  shows "\<exists>p h head. vpc_hash_head v nm = Some (Inr head, v\<lparr>vc_pager := p, vc_cur := h\<rparr>) \<and> at_rest V N p \<and> holds_none h \<and>
    chain_in V N head cs"
proof -
  obtain head where s: "unat VHASH_PGNO < N" "valid_bytes (V VHASH_PGNO) (pt_code PG_VAR_HASH_PAGE)"
      "vh_get_hash_value (page_at V VHASH_PGNO) (vh_get_hash_pos nm) = Some head" "chain_in V N head cs"
    using assms(3) by (auto simp: slot_in_def simp del: pt_code.simps)
  obtain p h where g: "vc_get_page v PG_VAR_HASH_PAGE VHASH_PGNO = Some (Inr (), v\<lparr>vc_pager := p, vc_cur := h\<rparr>)"
      "alone V N p h VHASH_PGNO"
    using get_cur [OF assms(1,2) s(1,2)] by blast
  let ?v = "v\<lparr>vc_pager := p, vc_cur := h\<rparr>"
  have a: "alone V N (vc_pager ?v) (vc_cur ?v) VHASH_PGNO" using g(2) by simp
  have ro: "vc_ro ?v = Some (page_at V VHASH_PGNO)" using alone_page(1) [OF g(2)] by (simp add: vc_ro_def)
  obtain p' h' where r: "vc_release ?v (pt_code PG_VAR_HASH_PAGE) = Some (Inr (), ?v\<lparr>vc_pager := p', vc_cur := h'\<rparr>)"
      "at_rest V N p'" "holds_none h'"
    using release_cur [OF a s(2)] by blast
  have "vpc_hash_head v nm = Some (Inr head, v\<lparr>vc_pager := p', vc_cur := h'\<rparr>)"
    using g(1) ro s(3) r(1) by (simp add: vpc_hash_head_def err_wrap_def del: pt_code.simps)
  with r(2,3) s(4) show ?thesis by blast
qed




lemma vc_input_asks:
  assumes "cursor_ready v" and "length nm \<le> MAX_VSTR"
  shows "\<exists>m. vc_input v nm = Some (v\<lparr>vc_vlen_input := length nm, vc_vstr_input := m\<rparr>) \<and> length m = MAX_VSTR \<and> take (length nm) m = nm"
  using assms by (auto simp: cursor_ready_def vc_input_def mem_write_def splice_def)

lemma vc_theend_eq: "vc_theend (Some (r, v)) = Some (r, v\<lparr>vc_vlen_input := 0, vc_tlen_input := 0, vc_vlen := 0, vc_tlen := 0\<rparr>)"
  by (simp add: vc_theend_def)

lemma slot_head:
  assumes "chain_in V N head cs" and "head \<noteq> PGNO_NULL"
  shows "cs \<noteq> []" "unat head < N" "valid_bytes (V head) (pt_code PG_VAR_PAGE)"
proof -
  show ne: "cs \<noteq> []" using assms by auto
  obtain name t root ds where "cs = (name, t, root) # ds" using ne by (cases cs) auto
  with assms(1) show "unat head < N" "valid_bytes (V head) (pt_code PG_VAR_PAGE)"
    by (auto simp: var_in_def Let_def simp del: pt_code.simps)
qed

section \<open>A database with one variable\<close>

text \<open>Page 1 is the hash page, page 0 the variable \<open>a\<close> of type \<open>I32\<close> with root 7.\<close>

definition example_var :: page where
  "example_var =
     (let p = vp_set_root (vp_set_tlen (vp_set_vlen (vp_set_ovnext (vp_set_next (typed_page PG_VAR_PAGE 0) PGNO_NULL) PGNO_NULL) 1) 2) 7
      in p\<lparr>raw := splice (raw p) VP_VNME_OFST (97 # type_bytes (T_PRIM I32))\<rparr>)"

lemma page_get_before:
  fixes v :: "'a::len word"
  assumes "wf_page p" and "o1 + LENGTH('a) div 8 \<le> 41"
  shows "page_get (p\<lparr>raw := splice (raw p) 41 bs\<rparr>) o1 = (page_get p o1 :: 'a word)"
  using assms by (simp add: page_get_def ld_def wf_page_def slice_splice_before)

lemma example_var:
  "wf_page example_var" "vp_get_vlen example_var = 1" "vp_get_tlen example_var = 2" "vp_get_root example_var = 7"
  "vp_get_next example_var = PGNO_NULL" "vp_get_ovnext example_var = PGNO_NULL" "page_get_type example_var = pt_code PG_VAR_PAGE"
  "pg example_var = 0" "take 3 (vp_get_bytes example_var) = 97 # type_bytes (T_PRIM I32)"
proof -
  let ?p = "vp_set_root (vp_set_tlen (vp_set_vlen (vp_set_ovnext (vp_set_next (typed_page PG_VAR_PAGE 0) PGNO_NULL) PGNO_NULL) 1) 2) 7"
  have wf: "wf_page ?p" by (simp add: page_defs)
  have e: "example_var = ?p\<lparr>raw := splice (raw ?p) 41 (97 # type_bytes (T_PRIM I32))\<rparr>" by (simp only: example_var_def Let_def)
  show "wf_page example_var" using wf by (simp add: e wf_page_def splice_def)
  show "vp_get_vlen example_var = 1" "vp_get_tlen example_var = 2" "vp_get_root example_var = 7"
    "vp_get_next example_var = PGNO_NULL" "vp_get_ovnext example_var = PGNO_NULL" "page_get_type example_var = pt_code PG_VAR_PAGE"
    "pg example_var = 0"
    unfolding e using wf typed_page(2) [of PG_VAR_PAGE 0]
    by (simp_all add: page_get_before page_defs page_header_defs del: pt_code.simps)
  show "take 3 (vp_get_bytes example_var) = 97 # type_bytes (T_PRIM I32)"
    using wf by (simp add: e vp_get_bytes_def slice_def splice_def wf_page_def)
qed

definition var_view :: "page \<Rightarrow> pgno \<Rightarrow> u8 list" where
  "var_view hp k = (if k = 0 then raw example_var else raw hp)"

lemma example_var_valid: "valid_bytes (raw example_var) (pt_code PG_VAR_PAGE)"
proof -
  note E = example_var
  have "vp_validate_for_db example_var = Inr ()"
    using E(2,3,7) by (simp add: vp_validate_for_db_def vp_is_overflow_iff)
  moreover have "pt_code PG_VAR_PAGE AND pt_code PG_VAR_PAGE \<noteq> 0" by simp
  ultimately have "page_validate_for_db example_var (pt_code PG_VAR_PAGE) = Some (Inr ())"
    unfolding page_validate_for_db_def E(7) by (simp del: pt_code.simps)
  then show ?thesis by (simp add: valid_bytes_iff)
qed

lemma hash_page_valid:
  assumes "page_get_type hp = pt_code PG_VAR_HASH_PAGE"
  shows "valid_bytes (raw hp) (pt_code PG_VAR_HASH_PAGE)"
proof -
  have "vh_validate_for_db hp = Inr ()" using assms by (simp add: vh_validate_for_db_def)
  moreover have "pt_code PG_VAR_HASH_PAGE AND pt_code PG_VAR_HASH_PAGE \<noteq> 0" by simp
  ultimately have "page_validate_for_db hp (pt_code PG_VAR_HASH_PAGE) = Some (Inr ())"
    unfolding page_validate_for_db_def assms by (simp del: pt_code.simps)
  then show ?thesis by (simp add: valid_bytes_iff)
qed

lemma var_pager:
  assumes "wf_page hp"
  shows "\<exists>h t tt. at_rest (var_view hp) 2 (two_page_pager (raw example_var) (raw hp) h t tt)"
  using two_page_pager [of "raw example_var" "raw hp"] assms example_var(1)
  by (simp add: at_rest_def wf_page_def var_view_def [abs_def])

lemma one_variable:
  "\<exists>hp. wf_page hp \<and> slot_in (var_view hp) 2 [97] [([97], T_PRIM I32, 7)]"
proof -
  note E = example_var
  obtain h0 where h0: "vh_init_empty (typed_page PG_VAR_HASH_PAGE 1) = Some h0" "wf_page h0" "pg h0 = 1"
      "page_get_type h0 = pt_code PG_VAR_HASH_PAGE"
    using vh_init_empty_correct [of "typed_page PG_VAR_HASH_PAGE 1"] by auto
  have pos: "vh_get_hash_pos [97] < VH_HASH_LEN" by (simp add: vh_get_hash_pos_def)
  from vh_get_set [OF h0(2) pos, of 0] obtain hp where
    hp: "wf_page hp" "pg hp = 1" "page_get_type hp = pt_code PG_VAR_HASH_PAGE" "vh_get_hash_value hp (vh_get_hash_pos [97]) = Some 0"
    using h0(3,4) pos by metis
  have x: "page_at (var_view hp) 0 = example_var" "page_at (var_view hp) 1 = hp"
    by (cases example_var, use E(8) in \<open>simp add: var_view_def\<close>) (cases hp, use hp(2) in \<open>simp add: var_view_def\<close>)
  have l: "length (vp_get_bytes example_var) = PAGE_SIZE - VP_VNME_OFST"
    using E(1) by (simp add: vp_get_bytes_def slice_def wf_page_def)
  have "var_in (var_view hp) 2 0 [] [97] (type_bytes (T_PRIM I32))"
    unfolding var_in_def Let_def x using E(2,3,6,7) E(9) [unfolded numeral_3_eq_3] example_var_valid l
    by (simp add: var_view_def del: pt_code.simps)
  then have "chain_in (var_view hp) 2 0 [([97], T_PRIM I32, 7)]"
    using E(4,5) x(1) by (auto simp del: pt_code.simps)
  moreover have "valid_bytes (var_view hp VHASH_PGNO) (pt_code PG_VAR_HASH_PAGE)"
    using hash_page_valid [OF hp(3)] by (simp add: var_view_def del: pt_code.simps)
  ultimately have "slot_in (var_view hp) 2 [97] [([97], T_PRIM I32, 7)]"
    unfolding slot_in_def x(2) using hp(4) by (auto simp del: pt_code.simps chain_in.simps)
  with hp(1) show ?thesis by blast
qed

lemma no_variable: "\<exists>hp. wf_page hp \<and> slot_in (var_view hp) 2 nm []"
proof -
  obtain hp where hp: "wf_page hp" "pg hp = 1" "page_get_type hp = pt_code PG_VAR_HASH_PAGE"
      "\<forall>q < VH_HASH_LEN. vh_get_hash_value hp q = Some PGNO_NULL"
    using vh_init_empty_correct [of "typed_page PG_VAR_HASH_PAGE 1"] by auto
  have "vh_get_hash_pos nm < VH_HASH_LEN" by (simp add: vh_get_hash_pos_def)
  moreover have "page_at (var_view hp) 1 = hp" using hp(2) by (cases hp) (simp add: var_view_def)
  moreover have "valid_bytes (var_view hp VHASH_PGNO) (pt_code PG_VAR_HASH_PAGE)"
    using hash_page_valid [OF hp(3)] by (simp add: var_view_def del: pt_code.simps)
  ultimately have "slot_in (var_view hp) 2 nm []" using hp(4) by (simp add: slot_in_def del: pt_code.simps)
  with hp(1) show ?thesis by blast
qed

definition var_cursor_at :: "pager \<Rightarrow> var_cursor" where
  "var_cursor_at p = \<lparr>vc_pager = p, vc_cur = page_h_create, vc_tx = Some (1, 0), vc_vstr_input = replicate MAX_VSTR 0, vc_vlen_input = 0,
     vc_tstr_input = replicate MAX_TSTR 0, vc_tlen_input = 0, vc_vstr = replicate MAX_VSTR 0, vc_vlen = 0,
     vc_tstr = replicate MAX_TSTR 0, vc_tlen = 0\<rparr>"

lemma var_cursor_at: "cursor_ready (var_cursor_at p)" "vc_pager (var_cursor_at p) = p" "vc_tx (var_cursor_at p) = Some (1, 0)"
    "length (vc_tstr_input (var_cursor_at p)) = MAX_TSTR"
  by (simp_all add: cursor_ready_def var_cursor_at_def holds_none_create)



section \<open>Two errors\<close>

text \<open>Deleting a variable whose slot is empty fails an assertion: the page of hash values has been given back when the
  branch for an empty slot gives the cursor's page back once more, before it could report that there is no such variable.\<close>

theorem vpc_delete_missing_fails:
  assumes "at_rest V N (vc_pager v)" and "cursor_ready v" and "length nm < MAX_VSTR" and "slot_in V N nm []" and "vc_tx v = Some tx"
  shows "vpc_delete v nm = None"
proof -
  have l: "length nm \<le> MAX_VSTR" using assms(3) by simp
  obtain b where i: "vc_input v nm = Some (v\<lparr>vc_vlen_input := length nm, vc_vstr_input := b\<rparr>)"
    using vc_input_asks [OF assms(2) l] by blast
  let ?v = "v\<lparr>vc_vlen_input := length nm, vc_vstr_input := b\<rparr>"
  have r: "at_rest V N (vc_pager ?v)" "holds_none (vc_cur ?v)" using assms(1,2) by (simp_all add: cursor_ready_def)
  obtain p h head where hh: "vpc_hash_head ?v nm = Some (Inr head, ?v\<lparr>vc_pager := p, vc_cur := h\<rparr>)" "holds_none h"
      "chain_in V N head []"
    using hash_head_correct [OF r assms(4)] by blast
  have "vc_release (?v\<lparr>vc_pager := p, vc_cur := h\<rparr>) f = None" for f
    using hh(2) by (simp add: vc_release_def pgr_release_def holds_none_def bind_eq_None_conv)
  with assms(3,5) i hh(1,3) show ?thesis by (simp add: vpc_delete_def vc_theend_def)
qed

theorem vpc_delete_missing_fails_witness:
  "\<exists>(hp :: page) h t tt. vpc_delete (var_cursor_at (two_page_pager (raw example_var) (raw hp) h t tt)) [98] = None"
proof -
  obtain hp where hp: "wf_page hp" "slot_in (var_view hp) 2 [98] []" using no_variable by blast
  obtain h t tt where p: "at_rest (var_view hp) 2 (two_page_pager (raw example_var) (raw hp) h t tt)" using var_pager [OF hp(1)] by blast
  let ?v = "var_cursor_at (two_page_pager (raw example_var) (raw hp) h t tt)"
  have r: "at_rest (var_view hp) 2 (vc_pager ?v)" using p by (simp add: var_cursor_at)
  have "length [98 :: u8] < MAX_VSTR" by simp
  from vpc_delete_missing_fails [OF r var_cursor_at(1) this hp(2) var_cursor_at(3)] show ?thesis by (intro exI)
qed

lemma new_search_duplicate:
  assumes "alone V N (vc_pager v) (vc_cur v) n" and "chain_in V N n cs" and "nm \<in> fst ` set cs" and "asks v nm"
  shows "\<exists>v' k. vpc_new_search tx v = Some (Inl ERR_DUPLICATE_VARIABLE, v') \<and> alone V N (vc_pager v') (vc_cur v') k"
  using assms
proof (induction cs arbitrary: v n)
  case (Cons c cs)
  obtain name t root where c: "c = (name, t, root)" by (cases c) auto
  let ?x = "page_at V n"
  obtain ms where w: "n \<noteq> PGNO_NULL" "var_in V N n ms name (type_bytes t)" "chain_in V N (vp_get_next ?x) cs"
    using Cons.prems(2) unfolding c by auto
  have vb: "valid_bytes (V n) (pt_code PG_VAR_PAGE)" using w(2) by (simp add: var_in_def Let_def del: pt_code.simps)
  obtain v1 where ch: "vpc_check_and_read_var_page_here v = Some (Inr (name = nm), v1)" "alone V N (vc_pager v1) (vc_cur v1) n"
      "asks v1 nm"
    using check_correct [OF Cons.prems(1) w(2) Cons.prems(4)] by blast
  have ro: "vc_ro v1 = Some ?x" using alone_page(1) [OF ch(2)] by (simp add: vc_ro_def)
  show ?case
  proof (cases "name = nm")
    case True
    then have "vpc_new_search tx v = Some (Inl ERR_DUPLICATE_VARIABLE, v1)"
      using ch(1) by (subst vpc_new_search.simps) simp
    with ch(2) show ?thesis by blast
  next
    case False
    then have nm: "nm \<in> fst ` set cs" using Cons.prems(3) c by auto
    then have nx: "vp_get_next ?x \<noteq> PGNO_NULL" using w(3) by (cases cs) auto
    note S = slot_head [OF w(3) nx]
    obtain p h where r: "vc_release v1 (pt_code PG_VAR_PAGE) = Some (Inr (), v1\<lparr>vc_pager := p, vc_cur := h\<rparr>)" "at_rest V N p" "holds_none h"
      using release_cur [OF ch(2) vb] by blast
    let ?v2 = "v1\<lparr>vc_pager := p, vc_cur := h\<rparr>"
    have rest: "at_rest V N (vc_pager ?v2)" "holds_none (vc_cur ?v2)" using r(2,3) by simp_all
    obtain p' h' where g: "vc_get_page ?v2 PG_VAR_PAGE (vp_get_next ?x) = Some (Inr (), ?v2\<lparr>vc_pager := p', vc_cur := h'\<rparr>)"
        "alone V N p' h' (vp_get_next ?x)"
      using get_cur [OF rest S(2,3)] by blast
    let ?v3 = "?v2\<lparr>vc_pager := p', vc_cur := h'\<rparr>"
    have step: "vpc_new_search tx v = vpc_new_search tx ?v3"
      using ch(1) False ro r(1) nx g(1) by (subst vpc_new_search.simps) (simp del: pt_code.simps)
    have prems: "alone V N (vc_pager ?v3) (vc_cur ?v3) (vp_get_next ?x)" "asks ?v3 nm" using g(2) ch(3) by (simp_all add: asks_def)
    show ?thesis using Cons.IH [OF prems(1) w(3) nm prems(2)] unfolding step .
  qed
qed simp

lemma held_cannot_get:
  assumes "ph_mode (vc_cur v) \<noteq> PHM_NONE"
  shows "vpc_get v d nm = None"
proof -
  have "vc_get_page u t n = None" if "ph_mode (vc_cur u) \<noteq> PHM_NONE" for u t n
    using that by (simp add: vc_get_page_def pgr_get_def pgr_fetch_def bind_eq_None_conv)
  moreover have "ph_mode (vc_cur u) \<noteq> PHM_NONE" if "vc_input v nm = Some u" for u
    using that assms by (auto simp: vc_input_def bind_eq_Some_conv)
  ultimately show ?thesis
    by (cases "vc_input v nm") (simp_all add: vpc_get_def vpc_hash_head_def err_wrap_def)
qed

text \<open>A duplicate name makes the cursor unusable. Creating a variable whose name is in the chain is refused with the right
  error, but the page with the name is still held for reading, so whatever the cursor is asked next, its lookup fails an assertion.\<close>

theorem vpc_new_duplicate_holds:
  assumes "at_rest V N (vc_pager v)" and "cursor_ready v" and "length (vc_tstr_input v) = MAX_TSTR" and "vc_tx v = Some tx"
    and "nm \<noteq> []" "length nm < MAX_VSTR" and "type_ok t" "length (type_bytes t) < MAX_TSTR"
    and "slot_in V N nm cs" and "nm \<in> fst ` set cs"
  shows "\<exists>v'. vpc_new v nm t = Some (Inl ERR_DUPLICATE_VARIABLE, v') \<and> (\<forall>d nm'. vpc_get v' d nm' = None)"
proof -
  have le: "length (type_bytes t) \<le> MAX_TSTR" "MAX_TSTR \<le> length (vc_tstr_input v)" "MAX_TSTR < (2 :: nat) ^ 31" "length nm \<le> MAX_VSTR"
    using assms(3,6,8) by simp_all
  obtain s where s: "type_serialize (srlizr_create (vc_tstr_input v) MAX_TSTR) t = Some s" "sr_dlen s = length (type_bytes t)"
    using type_written [OF assms(7) le(1-3)] by blast
  have small: "(of_nat (length (type_bytes t)) :: u32) < of_nat MAX_TSTR"
    using assms(8) by (simp add: word_less_nat_alt unat_of_nat)
  let ?v0 = "v\<lparr>vc_tstr_input := sr_data s, vc_tlen_input := sr_dlen s\<rparr>"
  have "cursor_ready ?v0" using assms(2) by (simp add: cursor_ready_def)
  from vc_input_asks [OF this le(4)] obtain b where
    i: "vc_input ?v0 nm = Some (?v0\<lparr>vc_vlen_input := length nm, vc_vstr_input := b\<rparr>)" "length b = MAX_VSTR" "take (length nm) b = nm" by blast
  let ?v = "?v0\<lparr>vc_vlen_input := length nm, vc_vstr_input := b\<rparr>"
  have r: "at_rest V N (vc_pager ?v)" "holds_none (vc_cur ?v)" using assms(1,2) by (simp_all add: cursor_ready_def)
  obtain p h head where hh: "vpc_hash_head ?v nm = Some (Inr head, ?v\<lparr>vc_pager := p, vc_cur := h\<rparr>)" "at_rest V N p" "holds_none h"
      "chain_in V N head cs"
    using hash_head_correct [OF r assms(9)] by blast
  let ?v1 = "?v\<lparr>vc_pager := p, vc_cur := h\<rparr>"
  have head: "head \<noteq> PGNO_NULL" using hh(4) assms(10) by (cases cs) auto
  note S = slot_head [OF hh(4) head]
  have r1: "at_rest V N (vc_pager ?v1)" "holds_none (vc_cur ?v1)" using hh(2,3) by simp_all
  obtain p' h' where g: "vc_get_page ?v1 PG_VAR_PAGE head = Some (Inr (), ?v1\<lparr>vc_pager := p', vc_cur := h'\<rparr>)" "alone V N p' h' head"
    using get_cur [OF r1 S(2,3)] by blast
  let ?v2 = "?v1\<lparr>vc_pager := p', vc_cur := h'\<rparr>"
  have a: "alone V N (vc_pager ?v2) (vc_cur ?v2) head" "asks ?v2 nm" using g(2) assms(2) i(2,3) by (simp_all add: asks_def cursor_ready_def)
  obtain v' k where d: "vpc_new_search tx ?v2 = Some (Inl ERR_DUPLICATE_VARIABLE, v')" "alone V N (vc_pager v') (vc_cur v') k"
    using new_search_duplicate [OF a(1) hh(4) assms(10) a(2)] by blast
  have place: "vpc_new_place ?v tx nm = Some (Inl ERR_DUPLICATE_VARIABLE, v')"
    using hh(1) head g(1) d(1) by (simp add: vpc_new_place_def err_wrap_def)
  let ?e = "v'\<lparr>vc_vlen_input := 0, vc_tlen_input := 0, vc_vlen := 0, vc_tlen := 0\<rparr>"
  have "vpc_new v nm t = Some (Inl ERR_DUPLICATE_VARIABLE, ?e)"
    using assms(4-6) serial_size(1) [OF assms(7)] small s(1) i(1) place
    by (simp add: vpc_new_def err_wrap_def vc_theend_eq)
  moreover have "vpc_get ?e d nm' = None" for d nm'
    by (rule held_cannot_get) (simp add: alone_page(3) [OF d(2)])
  ultimately show ?thesis by blast
qed

theorem vpc_new_duplicate_holds_witness:
  "\<exists>(hp :: page) h t tt v'. vpc_new (var_cursor_at (two_page_pager (raw example_var) (raw hp) h t tt)) [97] (T_PRIM U8) =
      Some (Inl ERR_DUPLICATE_VARIABLE, v') \<and> vpc_get v' None [97] = None"
proof -
  obtain hp where hp: "wf_page hp" "slot_in (var_view hp) 2 [97] [([97], T_PRIM I32, 7)]" using one_variable by blast
  obtain h t tt where p: "at_rest (var_view hp) 2 (two_page_pager (raw example_var) (raw hp) h t tt)" using var_pager [OF hp(1)] by blast
  let ?v = "var_cursor_at (two_page_pager (raw example_var) (raw hp) h t tt)"
  have r: "at_rest (var_view hp) 2 (vc_pager ?v)" using p by (simp add: var_cursor_at)
  have n: "[97 :: u8] \<noteq> []" "length [97 :: u8] < MAX_VSTR" "type_ok (T_PRIM U8)" "length (type_bytes (T_PRIM U8)) < MAX_TSTR"
    "[97 :: u8] \<in> fst ` set [([97 :: u8], T_PRIM I32, 7 :: pgno)]" by simp_all
  from vpc_new_duplicate_holds [OF r var_cursor_at(1,4,3) n(1-4) hp(2) n(5)] obtain v' where
    "vpc_new ?v [97] (T_PRIM U8) = Some (Inl ERR_DUPLICATE_VARIABLE, v')" "vpc_get v' None [97] = None" by blast
  then show ?thesis by (intro exI conjI)
qed

end
