(* ===== verification/Spec2Isabelle.thy ===== *)
theory Spec2Isabelle
  imports Serializer Hash_Table Dbl_Buffer Gr_Lock Pager_Restart Pager_Routines Rptree_Remove Rptree_Seek Rptree_Mem Numbers Expression Literal_Type Latch Type_Codec Var_Lookup
begin

text \<open>
  A verification development for NumStore, a storage engine in C: a database file of fixed-size pages
  behind a buffer pool, a write-ahead log with recovery in the style of ARIES, byte sequences kept in
  balanced trees of pages, and a small query language on top. Paths below are relative to \<^verbatim>\<open>src/\<close>.

  \<^bold>\<open>How the program is put together.\<close> \<^verbatim>\<open>libs/nscore\<close> holds the operating system layer, memory, containers,
  locks and checksums. \<^verbatim>\<open>libs/nspager\<close> is the engine: page layouts (\<^verbatim>\<open>data_list\<close>, \<^verbatim>\<open>inner_node\<close>,
  \<^verbatim>\<open>root_node\<close>, \<^verbatim>\<open>rpt_root\<close>, \<^verbatim>\<open>tombstone\<close>, \<^verbatim>\<open>var_page\<close>, \<^verbatim>\<open>var_tail\<close>, \<^verbatim>\<open>var_hash_page\<close>) dispatched on the
  page type by \<^verbatim>\<open>page.c\<close> and \<^verbatim>\<open>page_delegate.h\<close>; the log (\<^verbatim>\<open>wal.c\<close> over \<^verbatim>\<open>wal_file.c\<close> over \<^verbatim>\<open>wal_ostream.c\<close>
  and \<^verbatim>\<open>wal_istream.c\<close>); the tables recovery needs (\<^verbatim>\<open>txn_table.c\<close>, \<^verbatim>\<open>dirty_page_table.c\<close>); and the pager
  that joins them. \<^verbatim>\<open>libs/cursors\<close> builds trees and variables out of pages, \<^verbatim>\<open>libs/nstypes\<close> and
  \<^verbatim>\<open>libs/nscompiler\<close> hold the type system and the query language, \<^verbatim>\<open>libs/apps\<close> the embedded databases.

  \<^bold>\<open>Theories.\<close> Each opens with a text that says what it holds; the order below is the import order.
  \<^item> \<open>NS_Prelude\<close>: machine integers, the failure monad, the result type, little-endian access to bytes,
    32-bit arithmetic with its wrap-around, and the lemmas all components share.
  \<^item> \<open>Robin_Hood\<close>: \<^verbatim>\<open>robin_hood_ht.h\<close>, the open-addressing table of the buffer pool and the dirty page
    table, refined to a finite map through its probe invariant.
  \<^item> \<open>Hash_Table\<close>: \<^verbatim>\<open>hash_table.c\<close> and \<^verbatim>\<open>adptv_hash_table.c\<close>, chains with incremental rehashing; the
    locale \<open>key_table\<close> states the contract of a keyed table.
  \<^item> \<open>Cbuffer\<close>: \<^verbatim>\<open>cbuffer.c\<close>, the circular buffer, an instance of the locale \<open>byte_queue\<close>.
  \<^item> \<open>OS_File\<close>: the file half of \<^verbatim>\<open>intf/os_posix.c\<close> over a model of one file and a script of system call
    outcomes (complete, short, interrupted, failed); the transfer loops are shown to return.
  \<^item> \<open>Dbl_Buffer\<close>, \<open>Serializer\<close>, \<open>Checksum\<close>: \<^verbatim>\<open>dbl_buffer.c\<close> over a typed heap, \<^verbatim>\<open>serializer.c\<close> with
    \<^verbatim>\<open>deserializer.c\<close>, and \<^verbatim>\<open>checksums.c\<close> against a bitwise reference.
  \<^item> \<open>Strings_Lalloc\<close>, \<open>Numbers\<close>: \<^verbatim>\<open>lalloc.c\<close>, \<^verbatim>\<open>string.c\<close> with \<^verbatim>\<open>strings_utils.c\<close>, and \<^verbatim>\<open>numbers.c\<close>.
  \<^item> \<open>Gr_Lock\<close>, \<open>Latch\<close>: \<^verbatim>\<open>gr_lock.c\<close> as an inductive step relation over the critical sections of its threads, and
    \<^verbatim>\<open>spx_latch.c\<close> as one over the single accesses to its word, with the watchdog of debug builds as a parameter.
  \<^item> \<open>Page_Base\<close>, \<open>Data_List\<close>, \<open>Inner_Node\<close>, \<open>Meta_Pages\<close>, \<open>Page_Dispatch\<close>: the page layouts, their
    operations and their validation; the locale \<open>seq_node\<close> is what the trees need of a node.
  \<^item> \<open>Txn_Table\<close>, \<open>Dirty_Page_Table\<close>: the tables of recovery over heaps of shared entries, refined to
    finite maps, with their serialization into checkpoints.
  \<^item> \<open>Wal_Record\<close>, \<open>Wal_Stream\<close>, \<open>Wal_File\<close>, \<open>Wal_Log\<close>: the log, from the layout of its records to what
    the pager sees of it. \<open>Wal_Faults\<close>: what a reported success means when the system calls may do anything.
  \<^item> \<open>File_Pager\<close>, \<open>Pager\<close>: \<^verbatim>\<open>file_pager.c\<close>, whose contract is the locale \<open>page_file\<close>, and \<^verbatim>\<open>pager.c\<close> with
    \<^verbatim>\<open>page_h.h\<close>: frames, the clock, handles in shared and exclusive mode, transactions, the list of free pages.
  \<^item> \<open>Pager_Pool\<close>, \<open>Pager_Access\<close>, \<open>Pager_Write\<close>: the invariant of the buffer pool and what taking a frame,
    getting, writing, saving and releasing a page keep of it; \<open>pool_kept\<close>, \<open>pool_step\<close> and \<open>pool_grow\<close> are
    the three relations these lemmas are stated with.
  \<^item> \<open>Pager_Client\<close>, \<open>Pager_Txn\<close>: the pager refined to an array of pages and a log, the write-ahead rule,
    and commits.
  \<^item> \<open>Recovery\<close>: the rest of \<^verbatim>\<open>pager.c\<close>: checkpoints, rollback, the passes of restart, opening and closing.
    \<open>Pager_Rollback\<close> and \<open>Pager_Restart\<close> show what a rollback restores and what the analysis keeps.
  \<^item> \<open>Pager_Routines\<close>: \<^verbatim>\<open>pager_routines.c\<close>, the neighbours of a page and the levelling of two of them.
  \<^item> \<open>Node_Updates\<close>, \<open>Rptree_Cursor\<close>, \<open>Rptree_Update\<close>, \<open>Rptree_Ops\<close>, \<open>Rptree_Remove\<close>: \<^verbatim>\<open>cursors/nsrptcursor\<close>: the
    changes one layer of a tree reports to the next, and the cursor that opens, seeks, reads, writes, inserts, removes
    and rebalances, one definition per step of the code. \<open>Rptree_Seek\<close>: the tree that the pages hold (a \<open>rope\<close>), and
    that seeking finds a byte of it. \<open>Rptree_Mem\<close>: \<^verbatim>\<open>rptree_mem.c\<close>, the array a tree stands for.
  \<^item> \<open>Types\<close>, \<open>Type_Codec\<close>: \<^verbatim>\<open>libs/nstypes\<close>, the types of variables, and their serialization in both directions.
  \<^item> \<open>Scanner\<close>, \<open>Literal\<close>, \<open>Expression\<close>, \<open>Literal_Type\<close>: \<^verbatim>\<open>libs/nscompiler\<close>: \<^verbatim>\<open>scanner.c\<close>, \<^verbatim>\<open>literal.c\<close>,
    \<^verbatim>\<open>expression.c\<close> and \<^verbatim>\<open>literal_validate_type.c\<close>.
  \<^item> \<open>Var_Cursor\<close>, \<open>Var_Lookup\<close>: \<^verbatim>\<open>cursors/nsvcursor/var_cursor.c\<close>, the table of variables on pages, and that a lookup
    finds the variable of a name.

  \<^bold>\<open>Conventions.\<close> A definition has the name and the order of steps of the C function it models; its
  state is a record with the fields of the struct. \<open>None\<close> of the failure monad is a failed
  \<^verbatim>\<open>ASSERT\<close>, an \<^verbatim>\<open>UNREACHABLE\<close>, an access out of bounds or through a dangling pointer; a theorem that ends
  in \<open>Some\<close> therefore shows that none of these happens. \<open>'a res\<close> is \<open>err_t + 'a\<close>, the error codes of
  \<^verbatim>\<open>error.h\<close> on the left. Positions and page numbers are 64-bit words, lengths within a page natural
  numbers whose additions and subtractions wrap at 32 bits as \<^verbatim>\<open>p_size\<close> does. The outcomes of
  allocations and of system calls are arguments, so that a theorem about an arbitrary argument covers
  every pattern of faults. Each call starts with a fresh error object, whose message is not modelled.

  \<^bold>\<open>Fuel and bounds.\<close> Loops over an array are structural. The transfer loops, the reads of a serialized
  table, the copies between buffers, the walks along pages and the repeated steps of a cursor are
  \<open>partial_function\<close>s, for which not returning is \<open>None\<close>; the theorems that end in \<open>Some\<close> show that they return.
  \<^verbatim>\<open>PAGE_SIZE\<close>, \<^verbatim>\<open>WAL_BUFFER_CAP\<close>, the capacity of the dirty page table and the size of a pool are the
  constants of \<^verbatim>\<open>config.h\<close>; \<open>DEADLOCK_THRESH\<close> is the number of rounds of a debug build.

  \<^bold>\<open>What the theorems show.\<close> Containers and tables refine maps, queues and multisets; serializers, the log and
  the scanner have round trips; the pager is an array of pages and a log, writes no page before its records, commits
  durably, and rolls back to the pages before; moving, levelling and filling keep the sequence of a tree, and a seek or
  a lookup finds what the pages hold; the locks exclude. Some theorems state what the code does where it is at odds
  with its purpose: a rollback of records still in the buffer, the update the analysis loses, the write after
  a seek, the error loop of the scanner, the sum of two arrays, and the deadlock of two upgrades.

  \<^bold>\<open>Not modelled.\<close> Latches and threads, except in \<open>Gr_Lock\<close> and \<open>Latch\<close> and where a stream's latch decides
  what a call does; logging and the text of errors; destruction of objects on paths where it only frees
  memory; the test code between \<^verbatim>\<open>NTEST\<close> guards. Floating-point arithmetic and system calls are parameters. Left
  out as a whole are the grammar, which a parser generator compiles from a file that is not C, with the statements only
  its actions build; the embedded databases, which are sequences of modelled calls under locks of the operating system;
  the allocators of raw memory, the thread pool, the language bindings, the layers for other platforms, and the
  example programs. The manifest lists each with its reason.
\<close>

end
